(* ===== verification/Obs_Prelude.thy ===== *)
theory Obs_Prelude
  imports Main "HOL-Library.Word" "HOL-Library.Monad_Syntax"
begin

text \<open>
  What every component of the development shares.

  The first group models the C memory primitives of \<^verbatim>\<open>string.h\<close> on one allocated
  block.  A block is the list of its cells; a read or a write that leaves the block is
  undefined behaviour in C and is the value \<open>None\<close> here, so that a theorem which
  concludes \<open>Some\<close> is also a memory-safety statement.  \<open>brealloc\<close> and
  \<open>bmalloc\<close> return cells that hold nothing yet: a cell is an \<open>option\<close>, and
  \<open>None\<close> marks a cell that was never written.

  The second group is generic automation on lists and options, and the constants that several components use.
\<close>

named_theorems mem_simps \<open>evaluation of the memory primitives\<close>

subsection \<open>Memory blocks\<close>

definition mem_read :: "'a list \<Rightarrow> nat \<Rightarrow> nat \<Rightarrow> 'a list option" where
  "mem_read b pos n = (if pos + n \<le> length b then Some (take n (drop pos b)) else None)"

definition mem_write :: "'a list \<Rightarrow> nat \<Rightarrow> 'a list \<Rightarrow> 'a list option" where
  "mem_write b pos xs =
     (if pos + length xs \<le> length b
      then Some (take pos b @ xs @ drop (pos + length xs) b) else None)"

definition mem_move :: "'a list \<Rightarrow> nat \<Rightarrow> nat \<Rightarrow> nat \<Rightarrow> 'a list option" where
  "mem_move b dst src n = do { xs \<leftarrow> mem_read b src n; mem_write b dst xs }"

definition mem_realloc :: "'a option list \<Rightarrow> nat \<Rightarrow> 'a option list" where
  "mem_realloc b n = take n b @ replicate (n - length b) None"

lemma mem_read_Some [mem_simps]:
  "pos + n \<le> length b \<Longrightarrow> mem_read b pos n = Some (take n (drop pos b))"
  by (simp add: mem_read_def)

lemma mem_write_Some [mem_simps]:
  "pos + length xs \<le> length b \<Longrightarrow>
     mem_write b pos xs = Some (take pos b @ xs @ drop (pos + length xs) b)"
  by (simp add: mem_write_def)

lemma mem_move_Some [mem_simps]:
  "src + n \<le> length b \<Longrightarrow> dst + n \<le> length b \<Longrightarrow>
     mem_move b dst src n = Some (take dst b @ take n (drop src b) @ drop (dst + n) b)"
  by (simp add: mem_move_def mem_read_def mem_write_def)

lemma mem_read_eq_Some_iff:
  "mem_read b pos n = Some xs \<longleftrightarrow> pos + n \<le> length b \<and> xs = take n (drop pos b)"
  by (auto simp: mem_read_def)

lemma mem_write_length: "mem_write b pos xs = Some b' \<Longrightarrow> length b' = length b"
  by (auto simp: mem_write_def split: if_splits)

lemma mem_write_nth:
  assumes "mem_write b pos xs = Some b'" and "i < length b"
  shows "b' ! i = (if pos \<le> i \<and> i < pos + length xs then xs ! (i - pos) else b ! i)"
  using assms by (auto simp: mem_write_def nth_append split: if_splits)

lemma mem_move_length: "mem_move b dst src n = Some b' \<Longrightarrow> length b' = length b"
  by (auto simp: mem_move_def mem_read_def mem_write_def split: if_splits)

lemma mem_move_nth:
  assumes "mem_move b dst src n = Some b'" and "i < length b"
  shows "b' ! i = (if dst \<le> i \<and> i < dst + n then b ! (src + (i - dst)) else b ! i)"
  using assms
  by (auto simp: mem_move_def mem_read_def mem_write_def nth_append split: if_splits)

lemma mem_realloc_length [simp]: "length (mem_realloc b n) = n"
  by (simp add: mem_realloc_def)

lemma mem_realloc_nth:
  "i < length b \<Longrightarrow> i < n \<Longrightarrow> mem_realloc b n ! i = b ! i"
  by (simp add: mem_realloc_def nth_append)

lemma mem_write_exI:
  "pos + length xs \<le> length b \<Longrightarrow> \<exists>b'. mem_write b pos xs = Some b'"
  by (simp add: mem_write_def)

lemma mem_move_exI:
  "src + n \<le> length b \<Longrightarrow> dst + n \<le> length b \<Longrightarrow> \<exists>b'. mem_move b dst src n = Some b'"
  by (simp add: mem_move_def mem_read_def mem_write_def)

lemma ex_bool [simp]: "\<exists>b. b" "\<exists>b. \<not> b" "Ex Not" by auto

subsection \<open>Constants of the program\<close>

definition base_get_alignment :: nat where "base_get_alignment = 32"

definition MAX_AV_PLANES :: nat where "MAX_AV_PLANES = 8"

subsection \<open>Folding and draining with operations that may fail\<close>

fun opt_fold :: "('s \<Rightarrow> 'a \<Rightarrow> 's option) \<Rightarrow> 's \<Rightarrow> 'a list \<Rightarrow> 's option" where
  "opt_fold f s [] = Some s"
| "opt_fold f s (x # xs) = do { s \<leftarrow> f s x; opt_fold f s xs }"

fun opt_drain :: "('s \<Rightarrow> ('a \<times> 's) option) \<Rightarrow> nat \<Rightarrow> 's \<Rightarrow> ('a list \<times> 's) option" where
  "opt_drain f 0 s = Some ([], s)"
| "opt_drain f (Suc n) s =
     do { (x, s) \<leftarrow> f s; (xs, s) \<leftarrow> opt_drain f n s; Some (x # xs, s) }"

lemma opt_fold_append:
  "opt_fold f s (xs @ ys) = do { s \<leftarrow> opt_fold f s xs; opt_fold f s ys }"
  by (induction xs arbitrary: s) (auto split: bind_splits)

end
