(* ===== verification/Deque.thy ===== *)
theory Deque
  imports Obs_Prelude
begin

text \<open>
  \<^verbatim>\<open>src/libobs/util/deque.h\<close>: the growable ring buffer that queues audio data,
  encoded packets and delayed messages.  The C structure counts bytes; the model counts
  cells of any type \<open>'a\<close>.  With \<open>'a = 8 word\<close> this is the byte-level structure;
  a client that only ever pushes and pops one \<^verbatim>\<open>sizeof\<close> uses one cell per record.

  Positions and sizes are \<^verbatim>\<open>size_t\<close>.  No C object is larger than half the address
  space, so the sums of the code do not wrap and \<open>nat\<close> is exact; the one subtraction
  that may wrap in C (\<^verbatim>\<open>add_size\<close> of \<^verbatim>\<open>deque_upsize\<close> when the size
  shrinks) is computed before the test that returns, and its value is not used then.

  Every operation returns an option: \<open>None\<close> is an access outside the allocation or a
  failed \<^verbatim>\<open>assert\<close>.
\<close>

subsection \<open>The structure and its operations\<close>

record 'a deque =
  dq_data :: "'a option list"
  dq_size :: nat
  start_pos :: nat
  end_pos :: nat
  dq_capacity :: nat

definition deque_init :: "'a deque" where
  "deque_init = \<lparr>dq_data = [], dq_size = 0, start_pos = 0, end_pos = 0, dq_capacity = 0\<rparr>"

definition deque_free :: "'a deque \<Rightarrow> 'a deque" where
  "deque_free dq = \<lparr>dq_data = [], dq_size = 0, start_pos = 0, end_pos = 0, dq_capacity = 0\<rparr>"

definition deque_reorder_data :: "'a deque \<Rightarrow> nat \<Rightarrow> 'a deque option" where
  "deque_reorder_data dq new_capacity =
     (if dq_size dq = 0 \<or> start_pos dq = 0 \<or> end_pos dq > start_pos dq then Some dq
      else let difference = new_capacity - dq_capacity dq in
        do { d \<leftarrow> mem_move (dq_data dq) (start_pos dq + difference) (start_pos dq)
                     (dq_capacity dq - start_pos dq);
             Some (dq\<lparr>dq_data := d, start_pos := start_pos dq + difference\<rparr>) })"

definition deque_grow :: "'a deque \<Rightarrow> nat \<Rightarrow> 'a deque option" where
  "deque_grow dq new_capacity =
     do { dq' \<leftarrow> deque_reorder_data
                   (dq\<lparr>dq_data := mem_realloc (dq_data dq) new_capacity\<rparr>) new_capacity;
          Some (dq'\<lparr>dq_capacity := new_capacity\<rparr>) }"

definition deque_ensure_capacity :: "'a deque \<Rightarrow> 'a deque option" where
  "deque_ensure_capacity dq =
     (if dq_size dq \<le> dq_capacity dq then Some dq
      else let new_capacity = dq_capacity dq * 2;
               new_capacity = (if dq_size dq > new_capacity then dq_size dq else new_capacity)
           in deque_grow dq new_capacity)"

definition deque_reserve :: "'a deque \<Rightarrow> nat \<Rightarrow> 'a deque option" where
  "deque_reserve dq capacity =
     (if capacity \<le> dq_capacity dq then Some dq else deque_grow dq capacity)"

text \<open>
  \<open>deque_put_back\<close> is the tail that \<^verbatim>\<open>deque_push_back\<close>,
  \<^verbatim>\<open>deque_push_back_zero\<close> and \<^verbatim>\<open>deque_upsize\<close> repeat word for word:
  copy at the end position, wrapping to the front of the block.
\<close>

definition deque_put_back :: "'a deque \<Rightarrow> nat \<Rightarrow> 'a option list \<Rightarrow> 'a deque option" where
  "deque_put_back dq new_end_pos xs =
     (if new_end_pos > dq_capacity dq then
        let back_size = dq_capacity dq - end_pos dq;
            loop_size = length xs - back_size in
        do { d \<leftarrow> (if back_size \<noteq> 0 then mem_write (dq_data dq) (end_pos dq) (take back_size xs)
                    else Some (dq_data dq));
             d \<leftarrow> mem_write d 0 (take loop_size (drop back_size xs));
             Some (dq\<lparr>dq_data := d, end_pos := new_end_pos - dq_capacity dq\<rparr>) }
      else
        do { d \<leftarrow> mem_write (dq_data dq) (end_pos dq) xs;
             Some (dq\<lparr>dq_data := d, end_pos := new_end_pos\<rparr>) })"

definition deque_push_back :: "'a deque \<Rightarrow> 'a list \<Rightarrow> 'a deque option" where
  "deque_push_back dq xs =
     (let new_end_pos = end_pos dq + length xs in
      do { dq \<leftarrow> deque_ensure_capacity (dq\<lparr>dq_size := dq_size dq + length xs\<rparr>);
           deque_put_back dq new_end_pos (map Some xs) })"

definition deque_push_back_zero :: "'a::zero deque \<Rightarrow> nat \<Rightarrow> 'a deque option" where
  "deque_push_back_zero dq n =
     (let new_end_pos = end_pos dq + n in
      do { dq \<leftarrow> deque_ensure_capacity (dq\<lparr>dq_size := dq_size dq + n\<rparr>);
           deque_put_back dq new_end_pos (replicate n (Some 0)) })"

definition deque_upsize :: "'a::zero deque \<Rightarrow> nat \<Rightarrow> 'a deque option" where
  "deque_upsize dq n =
     (let add_size = n - dq_size dq; new_end_pos = end_pos dq + add_size in
      if n \<le> dq_size dq then Some dq
      else do { dq \<leftarrow> deque_ensure_capacity (dq\<lparr>dq_size := n\<rparr>);
                deque_put_back dq new_end_pos (replicate add_size (Some 0)) })"

definition deque_place :: "'a::zero deque \<Rightarrow> nat \<Rightarrow> 'a list \<Rightarrow> 'a deque option" where
  "deque_place dq position xs =
     (let end_point = position + length xs in
      do { dq \<leftarrow> (if end_point > dq_size dq then deque_upsize dq end_point else Some dq);
           let position = position + start_pos dq;
           let position = (if position \<ge> dq_capacity dq then position - dq_capacity dq
                           else position);
           let data_end_pos = position + length xs;
           (if data_end_pos > dq_capacity dq then
              let back_size = data_end_pos - dq_capacity dq;
                  loop_size = length xs - back_size in
              do { d \<leftarrow> mem_write (dq_data dq) position (map Some (take loop_size xs));
                   d \<leftarrow> mem_write d 0 (map Some (take back_size (drop loop_size xs)));
                   Some (dq\<lparr>dq_data := d\<rparr>) }
            else
              do { d \<leftarrow> mem_write (dq_data dq) position (map Some xs);
                   Some (dq\<lparr>dq_data := d\<rparr>) }) })"

text \<open>\<open>deque_put_front\<close>: the common body of the two \<^verbatim>\<open>push_front\<close> functions.\<close>

definition deque_put_front :: "'a deque \<Rightarrow> 'a option list \<Rightarrow> 'a deque option" where
  "deque_put_front dq xs =
     (let n = length xs in
      do { dq \<leftarrow> deque_ensure_capacity (dq\<lparr>dq_size := dq_size dq + n\<rparr>);
           (if dq_size dq = n then
              do { d \<leftarrow> mem_write (dq_data dq) 0 xs;
                   Some (dq\<lparr>start_pos := 0, end_pos := n, dq_data := d\<rparr>) }
            else if start_pos dq < n then
              let back_size = n - start_pos dq in
              do { d \<leftarrow> (if start_pos dq \<noteq> 0
                          then mem_write (dq_data dq) 0 (take (start_pos dq) (drop back_size xs))
                          else Some (dq_data dq));
                   let start = dq_capacity dq - back_size;
                   d \<leftarrow> mem_write d start (take back_size xs);
                   Some (dq\<lparr>start_pos := start, dq_data := d\<rparr>) }
            else
              let start = start_pos dq - n in
              do { d \<leftarrow> mem_write (dq_data dq) start xs;
                   Some (dq\<lparr>start_pos := start, dq_data := d\<rparr>) }) })"

definition deque_push_front :: "'a deque \<Rightarrow> 'a list \<Rightarrow> 'a deque option" where
  "deque_push_front dq xs = deque_put_front dq (map Some xs)"

definition deque_push_front_zero :: "'a::zero deque \<Rightarrow> nat \<Rightarrow> 'a deque option" where
  "deque_push_front_zero dq n = deque_put_front dq (replicate n (Some 0))"

definition deque_peek_front :: "'a deque \<Rightarrow> nat \<Rightarrow> 'a option list option" where
  "deque_peek_front dq n =
     (if \<not> n \<le> dq_size dq then None
      else let start_size = dq_capacity dq - start_pos dq in
        if start_size < n then
          do { a \<leftarrow> mem_read (dq_data dq) (start_pos dq) start_size;
               b \<leftarrow> mem_read (dq_data dq) 0 (n - start_size);
               Some (a @ b) }
        else mem_read (dq_data dq) (start_pos dq) n)"

text \<open>A position before the block is a fault: the C code would compute an address outside of it.\<close>

definition deque_peek_back :: "'a deque \<Rightarrow> nat \<Rightarrow> 'a option list option" where
  "deque_peek_back dq n =
     (if \<not> n \<le> dq_size dq then None
      else let back_size = (if end_pos dq \<noteq> 0 then end_pos dq else dq_capacity dq) in
        if back_size < n then
          let front_size = n - back_size; new_end_pos = dq_capacity dq - front_size in
          if front_size > dq_capacity dq then None
          else do { b \<leftarrow> mem_read (dq_data dq) 0 back_size;
               a \<leftarrow> mem_read (dq_data dq) new_end_pos front_size;
               Some (a @ b) }
        else if end_pos dq < n then None
        else mem_read (dq_data dq) (end_pos dq - n) n)"

definition deque_pop_front :: "'a deque \<Rightarrow> nat \<Rightarrow> ('a option list \<times> 'a deque) option" where
  "deque_pop_front dq n =
     do { xs \<leftarrow> deque_peek_front dq n;
          let dq = dq\<lparr>dq_size := dq_size dq - n\<rparr>;
          if dq_size dq = 0 then Some (xs, dq\<lparr>start_pos := 0, end_pos := 0\<rparr>)
          else let start = start_pos dq + n in
               Some (xs, dq\<lparr>start_pos := (if start \<ge> dq_capacity dq then start - dq_capacity dq
                                           else start)\<rparr>) }"

definition deque_pop_back :: "'a deque \<Rightarrow> nat \<Rightarrow> ('a option list \<times> 'a deque) option" where
  "deque_pop_back dq n =
     do { xs \<leftarrow> deque_peek_back dq n;
          let dq = dq\<lparr>dq_size := dq_size dq - n\<rparr>;
          if dq_size dq = 0 then Some (xs, dq\<lparr>start_pos := 0, end_pos := 0\<rparr>)
          else Some (xs, dq\<lparr>end_pos := (if end_pos dq \<le> n then dq_capacity dq - (n - end_pos dq)
                                        else end_pos dq - n)\<rparr>) }"

text \<open>\<^verbatim>\<open>deque_data\<close> returns a pointer into the block: here the cell's position.\<close>

definition deque_offset :: "'a deque \<Rightarrow> nat \<Rightarrow> nat option" where
  "deque_offset dq idx =
     (let offset = start_pos dq + idx in
      if idx \<ge> dq_size dq then None
      else Some (if offset \<ge> dq_capacity dq then offset - dq_capacity dq else offset))"

definition deque_data :: "'a deque \<Rightarrow> nat \<Rightarrow> 'a option option" where
  "deque_data dq idx = map_option (\<lambda>o'. dq_data dq ! o') (deque_offset dq idx)"

definition dq_geom :: "'a deque \<Rightarrow> nat \<Rightarrow> bool" where
  "dq_geom q s \<longleftrightarrow> length (dq_data q) = dq_capacity q \<and> s \<le> dq_capacity q \<and>
     (s = 0 \<longrightarrow> start_pos q = 0 \<and> end_pos q = 0) \<and>
     (s > 0 \<longrightarrow> start_pos q < dq_capacity q \<and>
        end_pos q = (if start_pos q + s \<le> dq_capacity q then start_pos q + s
                     else start_pos q + s - dq_capacity q))"

definition cell_pos :: "'a deque \<Rightarrow> nat \<Rightarrow> nat" where
  "cell_pos q i = (if start_pos q + i < dq_capacity q then start_pos q + i
                   else start_pos q + i - dq_capacity q)"

definition dq_cells :: "'a deque \<Rightarrow> nat \<Rightarrow> 'a option list" where
  "dq_cells q s = map (\<lambda>i. dq_data q ! cell_pos q i) [0..<s]"

definition dq_ok :: "'a deque \<Rightarrow> bool" where
  "dq_ok q \<longleftrightarrow> dq_geom q (dq_size q)"

lemma dq_cells_length [simp]: "length (dq_cells q s) = s"
  by (simp add: dq_cells_def)

lemma dq_cells_nth: "i < s \<Longrightarrow> dq_cells q s ! i = dq_data q ! cell_pos q i"
  by (simp add: dq_cells_def)

lemma dq_cells_eqI:
  "(\<And>i. i < s \<Longrightarrow> dq_data q ! cell_pos q i = xs ! i) \<Longrightarrow> length xs = s \<Longrightarrow> dq_cells q s = xs"
  by (rule nth_equalityI) (auto simp: dq_cells_nth)

lemma deque_grow_spec:
  assumes g: "dq_geom q s" and n: "dq_capacity q < n" "s \<le> dq_size q"
  shows "\<exists>r. deque_grow q n = Some r \<and> dq_geom r s \<and> dq_cells r s = dq_cells q s \<and>
     dq_size r = dq_size q \<and> end_pos r = end_pos q \<and> dq_capacity r = n"
proof (cases "dq_size q = 0 \<or> start_pos q = 0 \<or> end_pos q > start_pos q")
  case True
  let ?r = "q\<lparr>dq_data := mem_realloc (dq_data q) n, dq_capacity := n\<rparr>"
  have "dq_cells ?r s = dq_cells q s"
    using g n True
    by (intro dq_cells_eqI) (auto simp: dq_cells_nth cell_pos_def dq_geom_def mem_realloc_nth split: if_splits)
  moreover have "dq_geom ?r s"
    using g n True by (auto simp: dq_geom_def split: if_splits)
  moreover have "deque_grow q n = Some ?r"
    using True by (auto simp: deque_grow_def deque_reorder_data_def)
  ultimately show ?thesis by simp
next
  case False
  have s: "s > 0" using g False by (cases s) (auto simp: dq_geom_def)
  have len: "length (dq_data q) = dq_capacity q" "start_pos q < dq_capacity q" 
    "start_pos q + s > dq_capacity q" "end_pos q = start_pos q + s - dq_capacity q"
    using g False s by (auto simp: dq_geom_def split: if_splits)
  obtain d where d: "mem_move (mem_realloc (dq_data q) n) (start_pos q + (n - dq_capacity q))
      (start_pos q) (dq_capacity q - start_pos q) = Some d"
    using mem_move_exI [of "start_pos q" "dq_capacity q - start_pos q" "mem_realloc (dq_data q) n"
       "start_pos q + (n - dq_capacity q)"] n len by auto
  let ?r = "q\<lparr>dq_data := d, start_pos := start_pos q + (n - dq_capacity q), dq_capacity := n\<rparr>"
  have ld: "length d = n" using mem_move_length [OF d] by simp
  have "deque_grow q n = Some ?r"
    using False d by (simp add: deque_grow_def deque_reorder_data_def)
  moreover have "dq_geom ?r s"
    using g n False s len ld by (auto simp: dq_geom_def)
  moreover have "dq_cells ?r s = dq_cells q s"
  proof (rule dq_cells_eqI)
    fix i assume i: "i < s"
    let ?c = "dq_capacity q" and ?st = "start_pos q"
    have sc: "s \<le> ?c" using g by (simp add: dq_geom_def)
    have n1: "d ! k = (if ?st + (n - ?c) \<le> k then dq_data q ! (k - (n - ?c)) else mem_realloc (dq_data q) n ! k)"
      if "k < n" for k
      using mem_move_nth [OF d, of k] that len n by (simp add: mem_realloc_nth)
    show "dq_data ?r ! cell_pos ?r i = dq_cells q s ! i"
    proof (cases "?st + i < ?c")
      case True
      then have "cell_pos ?r i = ?st + (n - ?c) + i" "?st + (n - ?c) + i < n" "cell_pos q i = ?st + i"
        using n len by (auto simp: cell_pos_def)
      then show ?thesis using n1 [of "?st + (n - ?c) + i"] i by (simp add: dq_cells_nth)
    next
      case False
      then have "cell_pos ?r i = ?st + i - ?c" "cell_pos q i = ?st + i - ?c" "?st + i - ?c < ?c"
        "\<not> ?st + (n - ?c) \<le> ?st + i - ?c"
        using n len i sc by (auto simp: cell_pos_def)
      then show ?thesis using n1 [of "?st + i - ?c"] i n(1) len(1)
        by (simp add: dq_cells_nth mem_realloc_nth)
    qed
  qed simp
  ultimately show ?thesis by simp
qed

lemma deque_ensure_capacity_spec:
  assumes g: "dq_geom q s" and s: "s \<le> dq_size q"
  shows "\<exists>r. deque_ensure_capacity q = Some r \<and> dq_geom r s \<and> dq_cells r s = dq_cells q s \<and>
     dq_size r = dq_size q \<and> end_pos r = end_pos q \<and> dq_size q \<le> dq_capacity r"
proof (cases "dq_size q \<le> dq_capacity q")
  case True
  then show ?thesis using g by (simp add: deque_ensure_capacity_def)
next
  case False
  let ?n = "if dq_size q > dq_capacity q * 2 then dq_size q else dq_capacity q * 2"
  have "dq_capacity q < ?n" using False by auto
  from deque_grow_spec [OF g this s] False show ?thesis
    by (auto simp: deque_ensure_capacity_def Let_def)
qed

lemma deque_put_back_spec:
  assumes g: "dq_geom q s" and c: "s + length xs \<le> dq_capacity q"
  shows "\<exists>r. deque_put_back q (end_pos q + length xs) xs = Some r \<and> dq_geom r (s + length xs) \<and>
     dq_cells r (s + length xs) = dq_cells q s @ xs \<and>
     dq_size r = dq_size q \<and> dq_capacity r = dq_capacity q"
proof (cases "end_pos q + length xs > dq_capacity q")
  case False
  obtain d where d: "mem_write (dq_data q) (end_pos q) xs = Some d"
    using mem_write_exI False g by (metis dq_geom_def not_less)
  let ?r = "q\<lparr>dq_data := d, end_pos := end_pos q + length xs\<rparr>"
  have "deque_put_back q (end_pos q + length xs) xs = Some ?r"
    using False d by (simp add: deque_put_back_def)
  moreover have "dq_geom ?r (s + length xs)"
    using g c False mem_write_length [OF d]
    by (cases xs) (auto simp: dq_geom_def split: if_splits)
  moreover have "dq_cells ?r (s + length xs) = dq_cells q s @ xs"
  proof (rule dq_cells_eqI)
    fix i assume i: "i < s + length xs"
    let ?c = "dq_capacity q" and ?e = "end_pos q"
    have e: "?e = (if start_pos q + s \<le> ?c then start_pos q + s else start_pos q + s - ?c)"
      and st: "start_pos q \<le> ?c" and l: "length (dq_data q) = ?c"
      using g by (auto simp: dq_geom_def split: if_splits)
    have n1: "d ! k = (if ?e \<le> k \<and> k < ?e + length xs then xs ! (k - ?e) else dq_data q ! k)"
      if "k < ?c" for k
      using mem_write_nth [OF d, of k] that l by simp
    show "dq_data ?r ! cell_pos ?r i = (dq_cells q s @ xs) ! i"
    proof (cases "i < s")
      case True
      have "cell_pos q i < ?c" "\<not> (?e \<le> cell_pos q i \<and> cell_pos q i < ?e + length xs)"
        using True c e st False by (auto simp: cell_pos_def split: if_splits)
      moreover have "cell_pos ?r i = cell_pos q i" by (simp add: cell_pos_def)
      ultimately show ?thesis using n1 [of "cell_pos q i"] True by (auto simp: nth_append dq_cells_nth)
    next
      case ge: False
      then obtain j where j: "i = s + j" by (metis le_Suc_ex not_less)
      have "cell_pos ?r i = ?e + j" "?e + j < ?c"
        using j i c e st False by (auto simp: cell_pos_def split: if_splits)
      then show ?thesis using n1 [of "?e + j"] j i by (simp add: nth_append)
    qed
  qed simp
  ultimately show ?thesis by simp
next
  case True
  let ?b = "dq_capacity q - end_pos q"
  have geo: "length (dq_data q) = dq_capacity q" "s > 0" "end_pos q = start_pos q + s"
     "start_pos q + s \<le> dq_capacity q" "start_pos q < dq_capacity q"
    using g c True by (auto simp: dq_geom_def split: if_splits)
  have "end_pos q + length (take ?b xs) \<le> length (dq_data q)" using geo by simp
  then obtain d1 where d1: "mem_write (dq_data q) (end_pos q) (take ?b xs) = Some d1"
    using mem_write_exI by blast
  have ld1: "length d1 = dq_capacity q" using mem_write_length [OF d1] geo by simp
  have "0 + length (take (length xs - ?b) (drop ?b xs)) \<le> length d1" using ld1 c by simp
  then obtain d2 where d2: "mem_write d1 0 (take (length xs - ?b) (drop ?b xs)) = Some d2"
    using mem_write_exI by blast
  let ?r = "q\<lparr>dq_data := d2, end_pos := end_pos q + length xs - dq_capacity q\<rparr>"
  have e: "(if ?b \<noteq> 0 then mem_write (dq_data q) (end_pos q) (take ?b xs) else Some (dq_data q)) = Some d1"
    using d1 geo by (auto simp: mem_write_def split: if_splits)
  have "deque_put_back q (end_pos q + length xs) xs = Some ?r"
    using True d2 e by (simp add: deque_put_back_def Let_def not_le)
  moreover have "dq_geom ?r (s + length xs)"
    using g c True mem_write_length [OF d2] ld1 geo by (auto simp: dq_geom_def split: if_splits)
  moreover have "dq_cells ?r (s + length xs) = dq_cells q s @ xs"
  proof (rule dq_cells_eqI)
    fix i assume i: "i < s + length xs"
    let ?c = "dq_capacity q" and ?e = "end_pos q"
    have n1: "d1 ! k = (if ?e \<le> k then xs ! (k - ?e) else dq_data q ! k)" if "k < ?c" for k
      using mem_write_nth [OF d1, of k] that geo True by auto
    have n2: "d2 ! k = (if k < length xs - ?b then xs ! (?b + k) else d1 ! k)" if "k < ?c" for k
      using mem_write_nth [OF d2, of k] that ld1 by auto
    consider "i < s" | "s \<le> i" "i - s < ?b" | "s \<le> i" "?b \<le> i - s" by linarith
    then show "dq_data ?r ! cell_pos ?r i = (dq_cells q s @ xs) ! i"
    proof cases
      case 1
      have "cell_pos ?r i = start_pos q + i" "cell_pos q i = start_pos q + i" "start_pos q + i < ?c"
        "\<not> start_pos q + i < length xs - ?b" "\<not> ?e \<le> start_pos q + i"
        using 1 geo c by (auto simp: cell_pos_def)
      then show ?thesis using n1 [of "start_pos q + i"] n2 [of "start_pos q + i"] 1
        by (simp add: nth_append dq_cells_nth)
    next
      case 2
      then obtain j where j: "i = s + j" by (metis le_Suc_ex)
      have "cell_pos ?r i = ?e + j" "?e + j < ?c" "\<not> ?e + j < length xs - ?b"
        using 2 j geo c by (auto simp: cell_pos_def)
      then show ?thesis using n1 [of "?e + j"] n2 [of "?e + j"] j by (simp add: nth_append)
    next
      case 3
      have "cell_pos ?r i = i - s - ?b" "i - s - ?b < ?c" "i - s - ?b < length xs - ?b"
        using 3 geo i c True by (auto simp: cell_pos_def)
      moreover have "?b + (i - s - ?b) = i - s" using 3 by simp
      ultimately show ?thesis using n2 [of "i - s - ?b"] 3 by (simp add: nth_append)
    qed
  qed simp
  ultimately show ?thesis by simp
qed

lemma deque_put_front_spec:
  assumes g: "dq_ok q"
  shows "\<exists>r. deque_put_front q xs = Some r \<and> dq_ok r \<and> dq_size r = dq_size q + length xs \<and>
     dq_cells r (dq_size r) = xs @ dq_cells q (dq_size q)"
proof -
  let ?n = "length xs" and ?s = "dq_size q"
  let ?q1 = "q\<lparr>dq_size := ?s + ?n\<rparr>"
  have "dq_geom ?q1 ?s" using g by (simp add: dq_ok_def dq_geom_def)
  from deque_ensure_capacity_spec [OF this] obtain r where
    r: "deque_ensure_capacity ?q1 = Some r" and gr: "dq_geom r ?s"
    and cr: "dq_cells r ?s = dq_cells q ?s" and sr: "dq_size r = ?s + ?n"
    and cap: "?s + ?n \<le> dq_capacity r"
    by (auto simp: dq_cells_def cell_pos_def)
  consider (empty) "?s = 0" | (wrap) "?s > 0" "start_pos r < ?n" | (flat) "?s > 0" "\<not> start_pos r < ?n"
    by auto
  then show ?thesis
  proof cases
    case empty
    obtain d where d: "mem_write (dq_data r) 0 xs = Some d"
      using mem_write_exI [of 0 xs "dq_data r"] gr cap by (auto simp: dq_geom_def)
    let ?r = "r\<lparr>start_pos := 0, end_pos := ?n, dq_data := d\<rparr>"
    have "deque_put_front q xs = Some ?r"
      using empty r d sr by (simp add: deque_put_front_def)
    moreover have "dq_ok ?r"
      using gr cap sr empty mem_write_length [OF d] by (cases xs) (auto simp: dq_ok_def dq_geom_def)
    moreover have "dq_cells ?r (dq_size ?r) = xs @ dq_cells q ?s"
    proof (rule dq_cells_eqI)
      fix i assume i: "i < dq_size ?r"
      show "dq_data ?r ! cell_pos ?r i = (xs @ dq_cells q ?s) ! i"
        using i gr cap sr empty mem_write_nth [OF d, of "cell_pos ?r i"]
        by (auto simp: cell_pos_def dq_geom_def nth_append)
    qed (simp add: sr)
    ultimately show ?thesis using sr by simp
  next
    case wrap
    let ?b = "?n - start_pos r" and ?c = "dq_capacity r" and ?st = "start_pos r"
    have geo: "length (dq_data r) = ?c" "?st + ?s \<le> ?c" "end_pos r = ?st + ?s" "?st < ?c"
      using gr cap wrap by (auto simp: dq_geom_def split: if_splits)
    obtain d1 where d1: "mem_write (dq_data r) 0 (take ?st (drop ?b xs)) = Some d1"
      using mem_write_exI [of 0 "take ?st (drop ?b xs)" "dq_data r"] geo wrap by auto
    have ld1: "length d1 = ?c" using mem_write_length [OF d1] geo by simp
    obtain d2 where d2: "mem_write d1 (?c - ?b) (take ?b xs) = Some d2"
      using mem_write_exI [of "?c - ?b" "take ?b xs" d1] ld1 cap by auto
    have ld2: "length d2 = ?c" using mem_write_length [OF d2] ld1 by simp
    have n1: "d1 ! k = (if k < ?st then xs ! (?b + k) else dq_data r ! k)" if "k < ?c" for k
      using mem_write_nth [OF d1, of k] that geo wrap by simp
    have n2: "d2 ! k = (if k \<ge> ?c - ?b then xs ! (k - (?c - ?b)) else d1 ! k)" if "k < ?c" for k
      using mem_write_nth [OF d2, of k] that ld1 wrap cap by auto
    let ?r = "r\<lparr>start_pos := ?c - ?b, dq_data := d2\<rparr>"
    have e: "(if ?st \<noteq> 0 then mem_write (dq_data r) 0 (take ?st (drop ?b xs))
              else Some (dq_data r)) = Some d1"
      using d1 by (auto simp: mem_write_def)
    have "deque_put_front q xs = Some ?r"
      using wrap r e d2 sr by (simp add: deque_put_front_def Let_def)
    moreover have "dq_ok ?r"
      using cap sr wrap ld2 geo by (simp add: dq_ok_def dq_geom_def)
    moreover have "dq_cells ?r (dq_size ?r) = xs @ dq_cells q ?s"
    proof (rule dq_cells_eqI)
      fix i assume i: "i < dq_size ?r"
      consider "i < ?b" | "?b \<le> i" "i < ?n" | "?n \<le> i" by linarith
      then show "dq_data ?r ! cell_pos ?r i = (xs @ dq_cells q ?s) ! i"
      proof cases
        case 1
        then have "cell_pos ?r i = ?c - ?b + i" and lt: "?c - ?b + i < ?c"
          using wrap cap by (auto simp: cell_pos_def)
        moreover from 1 have "i < ?n" by simp
        ultimately show ?thesis using n2 [OF lt] by (simp add: nth_append)
      next
        case 2
        have "cell_pos ?r i = i - ?b" using 2 wrap cap by (auto simp: cell_pos_def)
        moreover have "i - ?b < ?st" "i - ?b < ?c" "\<not> ?c - ?b \<le> i - ?b"
          using 2 wrap cap geo by linarith+
        ultimately show ?thesis using n2 [of "i - ?b"] n1 [of "i - ?b"] 2 by (simp add: nth_append)
      next
        case 3
        then have "dq_cells q ?s ! (i - ?n) = dq_data r ! (?st + (i - ?n))"
          using i sr geo by (simp add: cr [symmetric] dq_cells_nth cell_pos_def)
        moreover have "cell_pos ?r i = ?st + (i - ?n)"
          using 3 wrap geo cap i sr by (simp add: cell_pos_def)
        moreover have "?st + (i - ?n) < ?c" "\<not> ?c - ?b \<le> ?st + (i - ?n)"
          "\<not> ?st + (i - ?n) < ?st" "\<not> i < ?n"
          using 3 wrap cap geo i sr by auto
        ultimately show ?thesis using n2 [of "?st + (i - ?n)"] n1 [of "?st + (i - ?n)"]
          by (simp add: nth_append del: not_less not_le diff_is_0_eq)
      qed
    qed (simp add: sr)
    ultimately show ?thesis using sr by simp
  next
    case flat
    let ?c = "dq_capacity r" and ?st = "start_pos r"
    have geo: "length (dq_data r) = ?c" "?n \<le> ?st" "?st < ?c"
      "end_pos r = (if ?st + ?s \<le> ?c then ?st + ?s else ?st + ?s - ?c)"
      using gr cap flat by (auto simp: dq_geom_def)
    obtain d where d: "mem_write (dq_data r) (?st - ?n) xs = Some d"
      using mem_write_exI [of "?st - ?n" xs "dq_data r"] geo by auto
    have ld: "length d = ?c" using mem_write_length [OF d] geo by simp
    let ?r = "r\<lparr>start_pos := ?st - ?n, dq_data := d\<rparr>"
    have n1: "d ! k = (if ?st - ?n \<le> k \<and> k < ?st then xs ! (k - (?st - ?n)) else dq_data r ! k)"
      if "k < ?c" for k
      using mem_write_nth [OF d, of k] that geo flat by simp
    have "deque_put_front q xs = Some ?r"
      using flat r d sr by (simp add: deque_put_front_def Let_def)
    moreover have "dq_ok ?r"
      using sr flat ld geo cap by (auto simp: dq_ok_def dq_geom_def split: if_splits)
    moreover have "dq_cells ?r (dq_size ?r) = xs @ dq_cells q ?s"
    proof (rule dq_cells_eqI)
      fix i assume i: "i < dq_size ?r"
      show "dq_data ?r ! cell_pos ?r i = (xs @ dq_cells q ?s) ! i"
      proof (cases "i < ?n")
        case True
        have "cell_pos ?r i = ?st - ?n + i" "?st - ?n + i < ?c" "?st - ?n + i < ?st"
          using True geo(2,3) by (auto simp: cell_pos_def)
        then show ?thesis using n1 [of "?st - ?n + i"] True by (simp add: nth_append)
      next
        case False
        then have "dq_cells q ?s ! (i - ?n) = dq_data r ! cell_pos r (i - ?n)"
          using i sr by (simp add: cr [symmetric] dq_cells_nth)
        moreover have "cell_pos ?r i = cell_pos r (i - ?n)"
          using False geo i by (auto simp: cell_pos_def)
        moreover have "d ! cell_pos r (i - ?n) = dq_data r ! cell_pos r (i - ?n)"
          using n1 [of "cell_pos r (i - ?n)"] False geo(2,3) i sr cap
          by (auto simp: cell_pos_def split: if_splits)
        ultimately show ?thesis using False by (simp add: nth_append)
      qed
    qed (simp add: sr)
    ultimately show ?thesis using sr by simp
  qed
qed

lemma deque_peek_front_spec:
  assumes g: "dq_ok q" and n: "n \<le> dq_size q"
  shows "deque_peek_front q n = Some (take n (dq_cells q (dq_size q)))"
proof -
  let ?k = "dq_capacity q - start_pos q"
  have geo: "length (dq_data q) = dq_capacity q" "dq_size q \<le> dq_capacity q" "start_pos q \<le> dq_capacity q"
    using g by (auto simp: dq_ok_def dq_geom_def)
  have wrap: "take ?k (drop (start_pos q) (dq_data q)) @ take (n - ?k) (dq_data q) =
      take n (dq_cells q (dq_size q))" if "?k < n"
    using that geo n by (intro nth_equalityI) (auto simp: dq_cells_nth cell_pos_def nth_append add.commute)
  have flat: "take n (drop (start_pos q) (dq_data q)) = take n (dq_cells q (dq_size q))" if "\<not> ?k < n"
    using that geo n by (intro nth_equalityI) (auto simp: dq_cells_nth cell_pos_def)
  show ?thesis
    using wrap flat n geo by (auto simp: deque_peek_front_def mem_simps Let_def)
qed

lemma deque_peek_back_spec:
  assumes g: "dq_ok q" and n: "n \<le> dq_size q"
  shows "deque_peek_back q n = Some (drop (dq_size q - n) (dq_cells q (dq_size q)))"
proof (cases "dq_size q = 0")
  case True
  then show ?thesis using n g
    by (simp add: deque_peek_back_def mem_read_def dq_ok_def dq_geom_def dq_cells_def)
next
  case False
  then have geo: "length (dq_data q) = dq_capacity q" "dq_size q \<le> dq_capacity q"
    "start_pos q < dq_capacity q" "end_pos q \<noteq> 0" "end_pos q \<le> dq_capacity q"
    "end_pos q = (if start_pos q + dq_size q \<le> dq_capacity q then start_pos q + dq_size q
                     else start_pos q + dq_size q - dq_capacity q)"
    using g by (auto simp: dq_ok_def dq_geom_def split: if_splits)
  have wrap: "end_pos q < n \<Longrightarrow> take (n - end_pos q) (drop (dq_capacity q - (n - end_pos q)) (dq_data q)) @ 
      take (end_pos q) (dq_data q) = drop (dq_size q - n) (dq_cells q (dq_size q))"
    using geo n by (intro nth_equalityI)
      (auto simp: dq_cells_nth cell_pos_def nth_append ac_simps split: if_splits)
  have flat: "take n (drop (end_pos q - n) (dq_data q)) = drop (dq_size q - n) (dq_cells q (dq_size q))" if "\<not> end_pos q < n"
    using that geo n by (intro nth_equalityI) (auto simp: dq_cells_nth cell_pos_def ac_simps split: if_splits)
  show ?thesis
    using wrap flat n geo(1-5) by (auto simp: deque_peek_back_def mem_simps Let_def)
qed

lemma deque_pop_front_spec:
  assumes g: "dq_ok q" and n: "n \<le> dq_size q"
  shows "\<exists>r. deque_pop_front q n = Some (take n (dq_cells q (dq_size q)), r) \<and> dq_ok r \<and>
     dq_size r = dq_size q - n \<and> dq_cells r (dq_size r) = drop n (dq_cells q (dq_size q))"
proof (cases "dq_size q = n")
  case True
  then show ?thesis
    using deque_peek_front_spec [OF g n] g
    by (auto simp: deque_pop_front_def dq_ok_def dq_geom_def dq_cells_def)
next
  case False
  let ?st = "if start_pos q + n \<ge> dq_capacity q then start_pos q + n - dq_capacity q else start_pos q + n"
  let ?r = "q\<lparr>dq_size := dq_size q - n, start_pos := ?st\<rparr>"
  have "deque_pop_front q n = Some (take n (dq_cells q (dq_size q)), ?r)"
    using False n deque_peek_front_spec [OF g n] by (simp add: deque_pop_front_def Let_def)
  moreover have "dq_ok ?r"
    using g n False by (auto simp: dq_ok_def dq_geom_def split: if_splits)
  moreover have "dq_cells ?r (dq_size ?r) = drop n (dq_cells q (dq_size q))"
  proof (rule dq_cells_eqI)
    fix i assume i: "i < dq_size ?r"
    show "dq_data ?r ! cell_pos ?r i = drop n (dq_cells q (dq_size q)) ! i"
      using i g n False
      by (auto simp: cell_pos_def dq_ok_def dq_geom_def dq_cells_nth add.assoc split: if_splits
               intro!: arg_cong [where f = "\<lambda>k. dq_data q ! k"])
  qed simp
  ultimately show ?thesis by simp
qed

lemma deque_pop_back_spec:
  assumes g: "dq_ok q" and n: "n \<le> dq_size q"
  shows "\<exists>r. deque_pop_back q n = Some (drop (dq_size q - n) (dq_cells q (dq_size q)), r) \<and> dq_ok r \<and>
     dq_size r = dq_size q - n \<and> dq_cells r (dq_size r) = take (dq_size q - n) (dq_cells q (dq_size q))"
proof (cases "dq_size q = n")
  case True
  then show ?thesis
    using deque_peek_back_spec [OF g n] g
    by (auto simp: deque_pop_back_def dq_ok_def dq_geom_def dq_cells_def)
next
  case False
  let ?e = "if end_pos q \<le> n then dq_capacity q - (n - end_pos q) else end_pos q - n"
  let ?r = "q\<lparr>dq_size := dq_size q - n, end_pos := ?e\<rparr>"
  have "deque_pop_back q n = Some (drop (dq_size q - n) (dq_cells q (dq_size q)), ?r)"
    using False n deque_peek_back_spec [OF g n] by (simp add: deque_pop_back_def Let_def)
  moreover have "dq_ok ?r"
    using g n False by (auto simp: dq_ok_def dq_geom_def split: if_splits)
  moreover have "dq_cells ?r (dq_size ?r) = take (dq_size q - n) (dq_cells q (dq_size q))"
    by (auto simp: dq_cells_def cell_pos_def take_map)
  ultimately show ?thesis by simp
qed

subsection \<open>The queue as a list\<close>

definition dq_rep :: "'a deque \<Rightarrow> 'a list \<Rightarrow> bool" where
  "dq_rep q ys \<longleftrightarrow> dq_ok q \<and> dq_cells q (dq_size q) = map Some ys"

lemma dq_rep_size: "dq_rep q ys \<Longrightarrow> dq_size q = length ys"
  unfolding dq_rep_def by (metis dq_cells_length length_map)

lemma dq_rep_unique: "dq_rep q ys \<Longrightarrow> dq_rep q zs \<Longrightarrow> ys = zs"
  by (auto simp: dq_rep_def inj_map_eq_map)

lemma dq_rep_empty_iff: "dq_rep q ys \<Longrightarrow> dq_size q = 0 \<longleftrightarrow> ys = []"
  using dq_rep_size by fastforce

lemma deque_init_rep: "dq_rep deque_init []"
  by (simp add: dq_rep_def deque_init_def dq_ok_def dq_geom_def dq_cells_def)

lemma deque_free_rep: "dq_rep (deque_free q) []"
  by (simp add: dq_rep_def deque_free_def dq_ok_def dq_geom_def dq_cells_def)

lemma deque_extend_spec:
  assumes "dq_ok q"
  shows "\<exists>r s. deque_ensure_capacity (q\<lparr>dq_size := dq_size q + length xs\<rparr>) = Some r \<and>
     deque_put_back r (end_pos q + length xs) xs = Some s \<and> dq_ok s \<and>
     dq_cells s (dq_size s) = dq_cells q (dq_size q) @ xs"
proof -
  let ?q = "q\<lparr>dq_size := dq_size q + length xs\<rparr>"
  have "dq_geom ?q (dq_size q)" using assms by (simp add: dq_ok_def dq_geom_def)
  from deque_ensure_capacity_spec [OF this] obtain r where
    r: "deque_ensure_capacity ?q = Some r" "dq_geom r (dq_size q)"
       "dq_cells r (dq_size q) = dq_cells q (dq_size q)" "end_pos r = end_pos q"
       "dq_size q + length xs \<le> dq_capacity r" "dq_size r = dq_size q + length xs"
    by (auto simp: dq_cells_def cell_pos_def)
  from deque_put_back_spec [OF r(2,5)] r show ?thesis
    by (auto simp: dq_ok_def)
qed

lemma deque_push_back_rep:
  assumes "dq_rep q ys"
  shows "\<exists>r. deque_push_back q xs = Some r \<and> dq_rep r (ys @ xs)"
  using assms deque_extend_spec [of q "map Some xs"]
  by (auto simp: dq_rep_def deque_push_back_def Let_def)

lemma deque_push_back_zero_rep:
  assumes "dq_rep q ys"
  shows "\<exists>r. deque_push_back_zero q n = Some r \<and> dq_rep r (ys @ replicate n 0)"
  using assms deque_extend_spec [of q "replicate n (Some 0)"]
  by (auto simp: dq_rep_def deque_push_back_zero_def Let_def)

lemma deque_upsize_rep:
  assumes "dq_rep q ys"
  shows "\<exists>r. deque_upsize q n = Some r \<and> dq_rep r (ys @ replicate (n - length ys) 0)"
proof (cases "n \<le> dq_size q")
  case True
  then show ?thesis using assms dq_rep_size [OF assms] by (simp add: deque_upsize_def)
next
  case False
  then show ?thesis
    using assms dq_rep_size [OF assms]
      deque_extend_spec [of q "replicate (n - dq_size q) (Some 0)"]
    by (auto simp: dq_rep_def deque_upsize_def Let_def)
qed

lemma deque_reserve_rep:
  assumes "dq_rep q ys"
  shows "\<exists>r. deque_reserve q n = Some r \<and> dq_rep r ys \<and> n \<le> dq_capacity r"
proof (cases "n \<le> dq_capacity q")
  case True
  then show ?thesis using assms by (simp add: deque_reserve_def)
next
  case False
  then show ?thesis
    using assms deque_grow_spec [of q "dq_size q" n]
    by (auto simp: dq_rep_def deque_reserve_def dq_ok_def)
qed

lemma deque_push_front_rep:
  assumes "dq_rep q ys"
  shows "\<exists>r. deque_push_front q xs = Some r \<and> dq_rep r (xs @ ys)"
  using assms deque_put_front_spec [of q "map Some xs"]
  by (auto simp: dq_rep_def deque_push_front_def)

lemma deque_push_front_zero_rep:
  assumes "dq_rep q ys"
  shows "\<exists>r. deque_push_front_zero q n = Some r \<and> dq_rep r (replicate n 0 @ ys)"
  using assms deque_put_front_spec [of q "replicate n (Some 0)"]
  by (auto simp: dq_rep_def deque_push_front_zero_def)

lemma deque_peek_front_rep:
  assumes "dq_rep q ys" "n \<le> length ys"
  shows "deque_peek_front q n = Some (map Some (take n ys))"
  using assms deque_peek_front_spec [of q n] dq_rep_size [OF assms(1)]
  by (simp add: dq_rep_def take_map)

lemma deque_peek_back_rep:
  assumes "dq_rep q ys" "n \<le> length ys"
  shows "deque_peek_back q n = Some (map Some (drop (length ys - n) ys))"
  using assms deque_peek_back_spec [of q n] dq_rep_size [OF assms(1)]
  by (simp add: dq_rep_def drop_map)

lemma deque_pop_front_rep:
  assumes "dq_rep q ys" "n \<le> length ys"
  shows "\<exists>r. deque_pop_front q n = Some (map Some (take n ys), r) \<and> dq_rep r (drop n ys)"
  using assms deque_pop_front_spec [of q n] dq_rep_size [OF assms(1)]
  by (auto simp: dq_rep_def take_map drop_map)

lemma deque_pop_back_rep:
  assumes "dq_rep q ys" "n \<le> length ys"
  shows "\<exists>r. deque_pop_back q n = Some (map Some (drop (length ys - n) ys), r) \<and>
     dq_rep r (take (length ys - n) ys)"
  using assms deque_pop_back_spec [of q n] dq_rep_size [OF assms(1)]
  by (auto simp: dq_rep_def take_map drop_map)

lemma deque_pop_too_many:
  assumes "dq_rep q ys" "length ys < n"
  shows "deque_pop_front q n = None" "deque_pop_back q n = None"
  using assms dq_rep_size [OF assms(1)]
  by (simp_all add: deque_pop_front_def deque_pop_back_def deque_peek_front_def deque_peek_back_def)

lemma deque_data_rep:
  assumes "dq_rep q ys"
  shows "deque_data q i = (if i < length ys then Some (Some (ys ! i)) else None)"
proof (cases "i < length ys")
  case True
  then have "dq_cells q (dq_size q) ! i = Some (ys ! i)"
    using assms by (simp add: dq_rep_def)
  moreover have "dq_cells q (dq_size q) ! i = dq_data q ! cell_pos q i"
    using True dq_rep_size [OF assms] by (simp add: dq_cells_nth)
  ultimately show ?thesis
    using True dq_rep_size [OF assms]
    by (auto simp: deque_data_def deque_offset_def cell_pos_def Let_def split: if_splits)
next
  case False
  then show ?thesis using dq_rep_size [OF assms]
    by (simp add: deque_data_def deque_offset_def Let_def)
qed

lemma deque_overwrite_spec:
  assumes g: "dq_ok q" and c: "pos + length xs \<le> dq_size q"
  shows "\<exists>r. (let position = pos + start_pos q;
           position = (if position \<ge> dq_capacity q then position - dq_capacity q else position);
           data_end_pos = position + length xs in
           (if data_end_pos > dq_capacity q then
              let back_size = data_end_pos - dq_capacity q;
                  loop_size = length xs - back_size in
              do { d \<leftarrow> mem_write (dq_data q) position (map Some (take loop_size xs));
                   d \<leftarrow> mem_write d 0 (map Some (take back_size (drop loop_size xs)));
                   Some (q\<lparr>dq_data := d\<rparr>) }
            else
              do { d \<leftarrow> mem_write (dq_data q) position (map Some xs);
                   Some (q\<lparr>dq_data := d\<rparr>) })) = Some r \<and> dq_ok r \<and>
     dq_size r = dq_size q \<and>
     dq_cells r (dq_size r) =
       take pos (dq_cells q (dq_size q)) @ map Some xs @ drop (pos + length xs) (dq_cells q (dq_size q))"
    (is "\<exists>r. ?E = Some r \<and> _")
proof -
  let ?c = "dq_capacity q" and ?n = "length xs" and ?p = "cell_pos q pos"
  have geo: "length (dq_data q) = ?c" "dq_size q \<le> ?c" "start_pos q \<le> ?c" "dq_size q > 0 \<Longrightarrow> start_pos q < ?c"
    using g by (auto simp: dq_ok_def dq_geom_def)
  have pos: "(if pos + start_pos q \<ge> ?c then pos + start_pos q - ?c else pos + start_pos q) = ?p"
    by (auto simp: cell_pos_def add.commute)
  have pc: "?p \<le> ?c" "?n > 0 \<Longrightarrow> ?p < ?c"
    using geo(2-4) c by (cases "dq_size q = 0"; auto simp: cell_pos_def)+
  have fin: ?thesis if e: "?E = Some (q\<lparr>dq_data := d\<rparr>)" and l: "length d = ?c"
    and w: "\<And>k. k < ?c \<Longrightarrow> d ! k = (if ?p \<le> k \<and> k < ?p + ?n then Some (xs ! (k - ?p))
                 else if k + ?c < ?p + ?n then Some (xs ! (k + ?c - ?p)) else dq_data q ! k)" for d
  proof -
    let ?r = "q\<lparr>dq_data := d\<rparr>"
    have "dq_ok ?r" using g l by (simp add: dq_ok_def dq_geom_def)
    moreover have "dq_cells ?r (dq_size ?r) =
       take pos (dq_cells q (dq_size q)) @ map Some xs @ drop (pos + ?n) (dq_cells q (dq_size q))"
    proof (rule dq_cells_eqI)
      fix i assume "i < dq_size ?r"
      then have i: "i < dq_size q" by simp
      have cp: "cell_pos q i < ?c" "cell_pos ?r i = cell_pos q i"
        using i geo by (auto simp: cell_pos_def)
      have rhs: "(take pos (dq_cells q (dq_size q)) @ map Some xs @ drop (pos + ?n) (dq_cells q (dq_size q))) ! i
          = (if pos \<le> i \<and> i < pos + ?n then Some (xs ! (i - pos)) else dq_data q ! cell_pos q i)"
        using i c by (auto simp: nth_append dq_cells_nth)
      have "?p \<le> cell_pos q i \<and> cell_pos q i < ?p + ?n \<and> cell_pos q i - ?p = i - pos \<or>
         \<not> ?p \<le> cell_pos q i \<and> cell_pos q i + ?c < ?p + ?n \<and> cell_pos q i + ?c - ?p = i - pos"
        if "pos \<le> i \<and> i < pos + ?n"
        using that i geo(2,3) c by (auto simp: cell_pos_def)
      moreover have "\<not> (?p \<le> cell_pos q i \<and> cell_pos q i < ?p + ?n) \<and> \<not> cell_pos q i + ?c < ?p + ?n"
        if "\<not> (pos \<le> i \<and> i < pos + ?n)"
        using that i geo(2,3) c by (auto simp: cell_pos_def split: if_splits)
      ultimately show "dq_data ?r ! cell_pos ?r i = (take pos (dq_cells q (dq_size q)) @ map Some xs @
            drop (pos + ?n) (dq_cells q (dq_size q))) ! i"
        using w [OF cp(1)] unfolding rhs cp(2)
        by (cases "pos \<le> i \<and> i < pos + ?n") auto
    qed (use c in simp)
    ultimately show ?thesis using e by simp
  qed
  show ?thesis
  proof (cases "?p + ?n > ?c")
    case False
    then have "?p + length (map Some xs) \<le> length (dq_data q)" using geo by simp
    then obtain d where d: "mem_write (dq_data q) ?p (map Some xs) = Some d"
      using mem_write_exI by blast
    show ?thesis
    proof (rule fin)
      show "?E = Some (q\<lparr>dq_data := d\<rparr>)" unfolding Let_def pos using d False by simp
      show "length d = ?c" using mem_write_length [OF d] geo by simp
    next
      fix k assume "k < ?c"
      then show "d ! k = (if ?p \<le> k \<and> k < ?p + ?n then Some (xs ! (k - ?p))
                 else if k + ?c < ?p + ?n then Some (xs ! (k + ?c - ?p)) else dq_data q ! k)"
        using mem_write_nth [OF d, of k] geo False by auto
    qed
  next
    case True
    let ?b = "?p + ?n - ?c"
    let ?l = "?n - ?b"
    have "?p + length (map Some (take ?l xs)) \<le> length (dq_data q)" using geo True pc by simp
    then obtain d1 where d1: "mem_write (dq_data q) ?p (map Some (take ?l xs)) = Some d1"
      using mem_write_exI by blast
    have l1: "length d1 = ?c" using mem_write_length [OF d1] geo by simp
    have "0 + length (map Some (take ?b (drop ?l xs))) \<le> length d1" using l1 True pc c geo by simp
    then obtain d where d: "mem_write d1 0 (map Some (take ?b (drop ?l xs))) = Some d"
      using mem_write_exI by blast
    show ?thesis
    proof (rule fin)
      show "?E = Some (q\<lparr>dq_data := d\<rparr>)" unfolding Let_def pos using d d1 True by simp
      show "length d = ?c" using mem_write_length [OF d] l1 by simp
    next
      fix k assume k: "k < ?c"
      have n: "?n \<le> ?c" using c geo by simp
      have "d ! k = (if k < ?b then Some (xs ! (?l + k)) else d1 ! k)"
        using mem_write_nth [OF d, of k] k l1 True pc c geo by auto
      moreover have "d1 ! k = (if ?p \<le> k then Some (xs ! (k - ?p)) else dq_data q ! k)"
        using mem_write_nth [OF d1, of k] k geo True pc n by auto
      ultimately show "d ! k = (if ?p \<le> k \<and> k < ?p + ?n then Some (xs ! (k - ?p))
                 else if k + ?c < ?p + ?n then Some (xs ! (k + ?c - ?p)) else dq_data q ! k)"
        using k True pc n by (auto simp: ac_simps)
    qed
  qed
qed

lemma deque_place_rep:
  assumes "dq_rep q ys"
  shows "\<exists>r. deque_place q pos xs = Some r \<and>
     dq_rep r (take pos (ys @ replicate (pos + length xs - length ys) 0) @ xs @ drop (pos + length xs) ys)"
proof -
  let ?ys = "ys @ replicate (pos + length xs - length ys) 0"
  have "\<exists>r. (if pos + length xs > dq_size q then deque_upsize q (pos + length xs) else Some q) = Some r
        \<and> dq_rep r ?ys"
    using deque_upsize_rep [OF assms, of "pos + length xs"] assms dq_rep_size [OF assms] by auto
  then obtain r where r: "(if pos + length xs > dq_size q then deque_upsize q (pos + length xs) else Some q) = Some r"
     "dq_rep r ?ys" by blast
  have ok: "dq_ok r" and le: "pos + length xs \<le> dq_size r"
    using r(2) dq_rep_size [OF r(2)] by (auto simp: dq_rep_def)
  have "drop (pos + length xs) ?ys = drop (pos + length xs) ys" by simp
  with deque_overwrite_spec [OF ok le] r show ?thesis
    by (auto simp: deque_place_def Let_def dq_rep_def take_map drop_map)
qed

subsection \<open>Every sequence of operations behaves as on a list\<close>

datatype 'a dq_op =
    PushBack "'a list" | PushFront "'a list" | PushBackZero nat | PushFrontZero nat
  | Upsize nat | Reserve nat | Place nat "'a list" | PopFront nat | PopBack nat

fun dq_step :: "'a::zero deque \<Rightarrow> 'a dq_op \<Rightarrow> ('a option list \<times> 'a deque) option" where
  "dq_step q (PushBack xs) = map_option (Pair []) (deque_push_back q xs)"
| "dq_step q (PushFront xs) = map_option (Pair []) (deque_push_front q xs)"
| "dq_step q (PushBackZero n) = map_option (Pair []) (deque_push_back_zero q n)"
| "dq_step q (PushFrontZero n) = map_option (Pair []) (deque_push_front_zero q n)"
| "dq_step q (Upsize n) = map_option (Pair []) (deque_upsize q n)"
| "dq_step q (Reserve n) = map_option (Pair []) (deque_reserve q n)"
| "dq_step q (Place p xs) = map_option (Pair []) (deque_place q p xs)"
| "dq_step q (PopFront n) = deque_pop_front q n"
| "dq_step q (PopBack n) = deque_pop_back q n"

fun list_step :: "'a::zero list \<Rightarrow> 'a dq_op \<Rightarrow> ('a list \<times> 'a list) option" where
  "list_step ys (PushBack xs) = Some ([], ys @ xs)"
| "list_step ys (PushFront xs) = Some ([], xs @ ys)"
| "list_step ys (PushBackZero n) = Some ([], ys @ replicate n 0)"
| "list_step ys (PushFrontZero n) = Some ([], replicate n 0 @ ys)"
| "list_step ys (Upsize n) = Some ([], ys @ replicate (n - length ys) 0)"
| "list_step ys (Reserve n) = Some ([], ys)"
| "list_step ys (Place p xs) =
     Some ([], take p (ys @ replicate (p + length xs - length ys) 0) @ xs @ drop (p + length xs) ys)"
| "list_step ys (PopFront n) = (if n \<le> length ys then Some (take n ys, drop n ys) else None)"
| "list_step ys (PopBack n) =
     (if n \<le> length ys then Some (drop (length ys - n) ys, take (length ys - n) ys) else None)"

fun dq_run :: "'a::zero deque \<Rightarrow> 'a dq_op list \<Rightarrow> ('a option list list \<times> 'a deque) option" where
  "dq_run q [] = Some ([], q)"
| "dq_run q (c # cs) =
     do { (out, q) \<leftarrow> dq_step q c; (outs, q) \<leftarrow> dq_run q cs; Some (out # outs, q) }"

fun list_run :: "'a::zero list \<Rightarrow> 'a dq_op list \<Rightarrow> ('a list list \<times> 'a list) option" where
  "list_run ys [] = Some ([], ys)"
| "list_run ys (c # cs) =
     do { (out, ys) \<leftarrow> list_step ys c; (outs, ys) \<leftarrow> list_run ys cs; Some (out # outs, ys) }"

lemma dq_step_Some:
  assumes "dq_rep q ys" "list_step ys c = Some (out, zs)"
  shows "\<exists>r. dq_step q c = Some (map Some out, r) \<and> dq_rep r zs"
proof (cases c)
  case (PushBack xs)
  then show ?thesis using assms deque_push_back_rep [OF assms(1), of xs] by auto
next
  case (PushFront xs)
  then show ?thesis using assms deque_push_front_rep [OF assms(1), of xs] by auto
next
  case (PushBackZero n)
  then show ?thesis using assms deque_push_back_zero_rep [OF assms(1), of n] by auto
next
  case (PushFrontZero n)
  then show ?thesis using assms deque_push_front_zero_rep [OF assms(1), of n] by auto
next
  case (Upsize n)
  then show ?thesis using assms deque_upsize_rep [OF assms(1), of n] by auto
next
  case (Reserve n)
  then show ?thesis using assms deque_reserve_rep [OF assms(1), of n] by auto
next
  case (Place p xs)
  then show ?thesis using assms(2) deque_place_rep [OF assms(1), of p xs] by auto
next
  case (PopFront n)
  then show ?thesis using assms(2) deque_pop_front_rep [OF assms(1), of n] by (auto split: if_splits)
next
  case (PopBack n)
  then show ?thesis using assms(2) deque_pop_back_rep [OF assms(1), of n] by (auto split: if_splits)
qed

lemma dq_step_None: "dq_rep q ys \<Longrightarrow> list_step ys c = None \<Longrightarrow> dq_step q c = None"
  by (cases c) (auto simp: deque_pop_too_many split: if_splits)

lemma dq_run_Some:
  "dq_rep q ys \<Longrightarrow> list_run ys cs = Some (outs, zs) \<Longrightarrow>
     \<exists>r. dq_run q cs = Some (map (map Some) outs, r) \<and> dq_rep r zs"
proof (induction cs arbitrary: q ys outs)
  case (Cons c cs)
  then obtain out ys' outs' where s: "list_step ys c = Some (out, ys')"
    "list_run ys' cs = Some (outs', zs)" "outs = out # outs'"
    by (auto simp: bind_eq_Some_conv)
  obtain q' where "dq_step q c = Some (map Some out, q')" "dq_rep q' ys'"
    using dq_step_Some [OF Cons.prems(1) s(1)] by blast
  then show ?case using Cons.IH [OF _ s(2)] s(3) by fastforce
qed simp

lemma dq_run_None:
  "dq_rep q ys \<Longrightarrow> list_run ys cs = None \<Longrightarrow> dq_run q cs = None"
proof (induction cs arbitrary: q ys)
  case (Cons c cs)
  show ?case
  proof (cases "list_step ys c")
    case None
    then show ?thesis using dq_step_None [OF Cons.prems(1)] by simp
  next
    case (Some p)
    obtain out ys' where p: "p = (out, ys')" by (cases p)
    obtain q' where q': "dq_step q c = Some (map Some out, q')" "dq_rep q' ys'"
      using dq_step_Some [OF Cons.prems(1)] Some p by blast
    have "list_run ys' cs = None"
      using Cons.prems(2) Some p by (cases "list_run ys' cs") auto
    then show ?thesis using Cons.IH [OF q'(2)] q'(1) by simp
  qed
qed simp

text \<open>
  C4: any sequence of deque operations, from an initialised deque, never reads or writes outside
  the allocation, returns exactly what the same sequence returns on a plain list, ends in a state
  that represents that list, and fails only where a pop asks for more than is queued.
\<close>

theorem deque_refines_list:
  "case list_run [] cs of
     None \<Rightarrow> dq_run deque_init cs = None
   | Some (outs, ys) \<Rightarrow> \<exists>q. dq_run deque_init cs = Some (map (map Some) outs, q) \<and> dq_rep q ys"
  using dq_run_Some [OF deque_init_rep, of cs] dq_run_None [OF deque_init_rep, of cs]
  by (auto split: option.splits)

subsection \<open>The FIFO interface\<close>

locale fifo =
  fixes rep :: "'q \<Rightarrow> 'a list \<Rightarrow> bool"
    and empty :: 'q
    and push :: "'q \<Rightarrow> 'a \<Rightarrow> 'q option"
    and peek :: "'q \<Rightarrow> 'a option"
    and pop :: "'q \<Rightarrow> ('a \<times> 'q) option"
    and count :: "'q \<Rightarrow> nat"
  assumes rep_empty: "rep empty []"
    and rep_count: "rep q xs \<Longrightarrow> count q = length xs"
    and rep_push: "rep q xs \<Longrightarrow> \<exists>r. push q x = Some r \<and> rep r (xs @ [x])"
    and rep_peek: "rep q (x # xs) \<Longrightarrow> peek q = Some x"
    and rep_pop: "rep q (x # xs) \<Longrightarrow> \<exists>r. pop q = Some (x, r) \<and> rep r xs"
begin

lemma push_all: "rep q xs \<Longrightarrow> \<exists>r. opt_fold push q ys = Some r \<and> rep r (xs @ ys)"
proof (induction ys arbitrary: q xs)
  case (Cons y ys)
  then show ?case using rep_push [OF Cons.prems, of y] by fastforce
qed simp

lemma pop_all: "rep q (xs @ ys) \<Longrightarrow> \<exists>r. opt_drain pop (length xs) q = Some (xs, r) \<and> rep r ys"
proof (induction xs arbitrary: q)
  case (Cons x xs)
  then show ?case using rep_pop [of q x "xs @ ys"] by fastforce
qed simp

lemma first_in_first_out:
  "\<exists>r s. opt_fold push empty xs = Some r \<and> opt_drain pop (length xs) r = Some (xs, s) \<and> count s = 0"
proof -
  obtain r where r: "opt_fold push empty xs = Some r" "rep r (xs @ [])"
    using push_all [OF rep_empty, of xs] by auto
  then show ?thesis using pop_all [OF r(2)] rep_count by fastforce
qed

end

definition deque_push :: "'a deque \<Rightarrow> 'a \<Rightarrow> 'a deque option" where
  "deque_push q x = deque_push_back q [x]"

definition deque_peek1 :: "'a deque \<Rightarrow> 'a option" where
  "deque_peek1 q = do { xs \<leftarrow> deque_peek_front q 1; hd xs }"

definition deque_pop1 :: "'a deque \<Rightarrow> ('a \<times> 'a deque) option" where
  "deque_pop1 q = do { (xs, q) \<leftarrow> deque_pop_front q 1; x \<leftarrow> hd xs; Some (x, q) }"

interpretation dqf: fifo dq_rep deque_init deque_push deque_peek1 deque_pop1 dq_size
proof unfold_locales
  show "dq_rep deque_init []" by (rule deque_init_rep)
  fix q :: "'a deque" and x xs
  show "dq_rep q xs \<Longrightarrow> dq_size q = length xs" by (rule dq_rep_size)
  show "dq_rep q xs \<Longrightarrow> \<exists>r. deque_push q x = Some r \<and> dq_rep r (xs @ [x])"
    unfolding deque_push_def by (rule deque_push_back_rep)
  show "dq_rep q (x # xs) \<Longrightarrow> deque_peek1 q = Some x"
    using deque_peek_front_rep [of q "x # xs" 1] by (simp add: deque_peek1_def)
  show "dq_rep q (x # xs) \<Longrightarrow> \<exists>r. deque_pop1 q = Some (x, r) \<and> dq_rep r xs"
    using deque_pop_front_rep [of q "x # xs" 1] by (auto simp: deque_pop1_def)
qed

lemma deque_pop1_size:
  "deque_pop1 q = Some (x, r) \<Longrightarrow> dq_size q \<noteq> 0 \<Longrightarrow> dq_size r < dq_size q"
  by (auto simp: deque_pop1_def deque_pop_front_def bind_eq_Some_conv Let_def split: if_splits)

end
