(* ===== verification/Darray.thy ===== *)
theory Darray
  imports Deque
begin

text \<open>
  \<^verbatim>\<open>src/libobs/util/darray.h\<close>: the growable array behind every
  \<^verbatim>\<open>DARRAY(type)\<close> of the program.  A cell of the block is one element
  (\<^verbatim>\<open>element_size\<close> bytes); \<open>None\<close> marks a cell of the allocation that was
  never written.  A block of capacity 0 is the NULL pointer.  \<^verbatim>\<open>memset\<close> to zero writes
  the element \<open>0\<close>.  The result \<open>None\<close> of an operation is an access outside the
  allocation or a failed \<^verbatim>\<open>assert\<close>.

  The main result is that every sequence of operations on an empty array behaves as the same
  sequence on a list.  The other clients use lists for their arrays on the strength of it.
\<close>

subsection \<open>The structure and its operations\<close>

record 'a darray =
  da_array :: "'a option list"
  da_num :: nat
  da_capacity :: nat

definition darray_init :: "'a darray" where
  "darray_init = \<lparr>da_array = [], da_num = 0, da_capacity = 0\<rparr>"

definition darray_free :: "'a darray \<Rightarrow> 'a darray" where
  "darray_free dst = \<lparr>da_array = [], da_num = 0, da_capacity = 0\<rparr>"

definition darray_item :: "'a darray \<Rightarrow> nat \<Rightarrow> 'a option option" where
  "darray_item da idx = map_option hd (mem_read (da_array da) idx 1)"

definition darray_end :: "'a darray \<Rightarrow> nat option" where
  "darray_end da = (if da_num da = 0 then None else Some (da_num da - 1))"

definition darray_reserve :: "'a darray \<Rightarrow> nat \<Rightarrow> 'a darray option" where
  "darray_reserve dst capacity =
     (if capacity = 0 \<or> capacity \<le> da_capacity dst then Some dst
      else do { xs \<leftarrow> mem_read (da_array dst) 0 (da_num dst);
                p \<leftarrow> mem_write (replicate capacity None) 0 xs;
                Some (dst\<lparr>da_array := p, da_capacity := capacity\<rparr>) })"

definition darray_ensure_capacity :: "'a darray \<Rightarrow> nat \<Rightarrow> 'a darray option" where
  "darray_ensure_capacity dst new_size =
     (if new_size \<le> da_capacity dst then Some dst
      else let new_cap = (if da_capacity dst = 0 then new_size else da_capacity dst * 2);
               new_cap = (if new_size > new_cap then new_size else new_cap) in
        do { xs \<leftarrow> mem_read (da_array dst) 0 (da_capacity dst);
             p \<leftarrow> mem_write (replicate new_cap None) 0 xs;
             Some (dst\<lparr>da_array := p, da_capacity := new_cap\<rparr>) })"

definition darray_clear :: "'a darray \<Rightarrow> 'a darray" where
  "darray_clear dst = dst\<lparr>da_num := 0\<rparr>"

definition darray_resize :: "'a::zero darray \<Rightarrow> nat \<Rightarrow> 'a darray option" where
  "darray_resize dst new_num =
     (if new_num = da_num dst then Some dst
      else if new_num = 0 then Some (dst\<lparr>da_num := 0\<rparr>)
      else let b_clear = new_num > da_num dst; old_num = da_num dst in
        do { dst \<leftarrow> darray_ensure_capacity dst new_num;
             let dst = dst\<lparr>da_num := new_num\<rparr>;
             if b_clear then
               do { p \<leftarrow> mem_write (da_array dst) old_num (replicate (new_num - old_num) (Some 0));
                    Some (dst\<lparr>da_array := p\<rparr>) }
             else Some dst })"

definition darray_copy_array :: "'a::zero darray \<Rightarrow> 'a option list \<Rightarrow> nat \<Rightarrow> 'a darray option" where
  "darray_copy_array dst array num =
     do { dst \<leftarrow> darray_resize dst num;
          xs \<leftarrow> mem_read array 0 (da_num dst);
          p \<leftarrow> mem_write (da_array dst) 0 xs;
          Some (dst\<lparr>da_array := p\<rparr>) }"

definition darray_copy :: "'a::zero darray \<Rightarrow> 'a darray \<Rightarrow> 'a darray option" where
  "darray_copy dst da =
     (if da_num da = 0 then Some (darray_free dst)
      else do { dst \<leftarrow> darray_resize dst (da_num da);
                xs \<leftarrow> mem_read (da_array da) 0 (da_num da);
                p \<leftarrow> mem_write (da_array dst) 0 xs;
                Some (dst\<lparr>da_array := p\<rparr>) })"

definition darray_move :: "'a darray \<Rightarrow> 'a darray \<Rightarrow> 'a darray \<times> 'a darray" where
  "darray_move dst src = (src, \<lparr>da_array = [], da_num = 0, da_capacity = 0\<rparr>)"

definition darray_find :: "'a darray \<Rightarrow> 'a \<Rightarrow> nat \<Rightarrow> nat option option" where
  "darray_find da item idx =
     (if idx \<le> da_num da
      then Some (find (\<lambda>i. da_array da ! i = Some item) [idx..<da_num da]) else None)"

definition darray_push_back :: "'a darray \<Rightarrow> 'a \<Rightarrow> 'a darray option" where
  "darray_push_back dst item =
     do { let dst = dst\<lparr>da_num := da_num dst + 1\<rparr>;
          dst \<leftarrow> darray_ensure_capacity dst (da_num dst);
          e \<leftarrow> darray_end dst;
          p \<leftarrow> mem_write (da_array dst) e [Some item];
          Some (dst\<lparr>da_array := p\<rparr>) }"

definition darray_push_back_new :: "'a::zero darray \<Rightarrow> 'a darray option" where
  "darray_push_back_new dst =
     do { let dst = dst\<lparr>da_num := da_num dst + 1\<rparr>;
          dst \<leftarrow> darray_ensure_capacity dst (da_num dst);
          last \<leftarrow> darray_end dst;
          p \<leftarrow> mem_write (da_array dst) last [Some 0];
          Some (dst\<lparr>da_array := p\<rparr>) }"

text \<open>\<open>array = None\<close> is a NULL pointer.\<close>

definition darray_push_back_array ::
    "'a::zero darray \<Rightarrow> 'a option list option \<Rightarrow> nat \<Rightarrow> 'a darray option" where
  "darray_push_back_array dst array num =
     (case array of None \<Rightarrow> Some dst
      | Some a \<Rightarrow>
          (if num = 0 then Some dst
           else let old_num = da_num dst in
             do { dst \<leftarrow> darray_resize dst (da_num dst + num);
                  xs \<leftarrow> mem_read a 0 num;
                  p \<leftarrow> mem_write (da_array dst) old_num xs;
                  Some (dst\<lparr>da_array := p\<rparr>) }))"

definition darray_push_back_darray :: "'a::zero darray \<Rightarrow> 'a darray \<Rightarrow> 'a darray option" where
  "darray_push_back_darray dst da =
     darray_push_back_array dst (if da_capacity da = 0 then None else Some (da_array da)) (da_num da)"

definition darray_insert :: "'a darray \<Rightarrow> nat \<Rightarrow> 'a \<Rightarrow> 'a darray option" where
  "darray_insert dst idx item =
     (if \<not> idx \<le> da_num dst then None
      else if idx = da_num dst then darray_push_back dst item
      else let move_count = da_num dst - idx; dst = dst\<lparr>da_num := da_num dst + 1\<rparr> in
        do { dst \<leftarrow> darray_ensure_capacity dst (da_num dst);
             p \<leftarrow> mem_move (da_array dst) (idx + 1) idx move_count;
             p \<leftarrow> mem_write p idx [Some item];
             Some (dst\<lparr>da_array := p\<rparr>) })"

definition darray_insert_new :: "'a::zero darray \<Rightarrow> nat \<Rightarrow> 'a darray option" where
  "darray_insert_new dst idx =
     (if \<not> idx \<le> da_num dst then None
      else if idx = da_num dst then darray_push_back_new dst
      else let move_count = da_num dst - idx; dst = dst\<lparr>da_num := da_num dst + 1\<rparr> in
        do { dst \<leftarrow> darray_ensure_capacity dst (da_num dst);
             p \<leftarrow> mem_move (da_array dst) (idx + 1) idx move_count;
             p \<leftarrow> mem_write p idx [Some 0];
             Some (dst\<lparr>da_array := p\<rparr>) })"

definition darray_insert_array ::
    "'a::zero darray \<Rightarrow> nat \<Rightarrow> 'a option list option \<Rightarrow> nat \<Rightarrow> 'a darray option" where
  "darray_insert_array dst idx array num =
     (case array of None \<Rightarrow> None
      | Some a \<Rightarrow>
          (if num = 0 \<or> \<not> idx \<le> da_num dst then None
           else let old_num = da_num dst in
             do { dst \<leftarrow> darray_resize dst (da_num dst + num);
                  p \<leftarrow> mem_move (da_array dst) (idx + num) idx (old_num - idx);
                  xs \<leftarrow> mem_read a 0 num;
                  p \<leftarrow> mem_write p idx xs;
                  Some (dst\<lparr>da_array := p\<rparr>) }))"

definition darray_insert_darray :: "'a::zero darray \<Rightarrow> nat \<Rightarrow> 'a darray \<Rightarrow> 'a darray option" where
  "darray_insert_darray dst idx da =
     darray_insert_array dst idx (if da_capacity da = 0 then None else Some (da_array da)) (da_num da)"

definition darray_erase :: "'a darray \<Rightarrow> nat \<Rightarrow> 'a darray option" where
  "darray_erase dst idx =
     (if \<not> idx < da_num dst then None
      else let dst = dst\<lparr>da_num := da_num dst - 1\<rparr> in
        if da_num dst = 0 then Some dst
        else do { p \<leftarrow> mem_move (da_array dst) idx (idx + 1) (da_num dst - idx);
                  Some (dst\<lparr>da_array := p\<rparr>) })"

definition darray_erase_item :: "'a darray \<Rightarrow> 'a \<Rightarrow> 'a darray option" where
  "darray_erase_item dst item =
     do { r \<leftarrow> darray_find dst item 0;
          case r of Some idx \<Rightarrow> darray_erase dst idx | None \<Rightarrow> Some dst }"

definition darray_erase_range :: "'a darray \<Rightarrow> nat \<Rightarrow> nat \<Rightarrow> 'a darray option" where
  "darray_erase_range dst start end =
     (if \<not> (start \<le> da_num dst \<and> end \<le> da_num dst \<and> end > start) then None
      else let count = end - start in
        if count = 1 then darray_erase dst start
        else if count = da_num dst then Some (dst\<lparr>da_num := 0\<rparr>)
        else let move_count = da_num dst - end in
          do { p \<leftarrow> (if move_count \<noteq> 0 then mem_move (da_array dst) start end move_count
                      else Some (da_array dst));
               Some (dst\<lparr>da_array := p, da_num := da_num dst - count\<rparr>) })"

definition darray_pop_front :: "'a darray \<Rightarrow> 'a darray option" where
  "darray_pop_front dst = (if da_num dst = 0 then None else darray_erase dst 0)"

definition darray_pop_back :: "'a darray \<Rightarrow> 'a darray option" where
  "darray_pop_back dst = (if da_num dst = 0 then None else darray_erase dst (da_num dst - 1))"

definition darray_join :: "'a::zero darray \<Rightarrow> 'a darray \<Rightarrow> ('a darray \<times> 'a darray) option" where
  "darray_join dst da = map_option (\<lambda>dst. (dst, darray_free da)) (darray_push_back_darray dst da)"

definition darray_split ::
    "'a::zero darray \<Rightarrow> 'a darray \<Rightarrow> 'a darray \<Rightarrow> nat \<Rightarrow> ('a darray \<times> 'a darray) option" where
  "darray_split dst1 dst2 da idx =
     (if \<not> da_num da \<ge> idx then None
      else do { temp \<leftarrow> darray_copy darray_init da;
                let dst1 = darray_free dst1; let dst2 = darray_free dst2;
                if da_num da \<noteq> 0 then
                  do { dst1 \<leftarrow> (if idx \<noteq> 0 then darray_copy_array dst1 (da_array temp) (da_num temp)
                                else Some dst1);
                       dst2 \<leftarrow> (if idx < da_num temp - 1
                                then darray_copy_array dst2 (drop idx (da_array temp)) (da_num temp - idx)
                                else Some dst2);
                       Some (dst1, dst2) }
                else Some (dst1, dst2) })"

definition darray_move_item :: "'a darray \<Rightarrow> nat \<Rightarrow> nat \<Rightarrow> 'a darray option" where
  "darray_move_item dst from to =
     (if from = to then Some dst
      else do { temp \<leftarrow> mem_read (da_array dst) from 1;
                p \<leftarrow> (if to < from then mem_move (da_array dst) (to + 1) to (from - to)
                       else mem_move (da_array dst) from (from + 1) (to - from));
                p \<leftarrow> mem_write p to temp;
                Some (dst\<lparr>da_array := p\<rparr>) })"

definition darray_swap :: "'a darray \<Rightarrow> nat \<Rightarrow> nat \<Rightarrow> 'a darray option" where
  "darray_swap dst a b =
     (if \<not> (a < da_num dst \<and> b < da_num dst) then None
      else if a = b then Some dst
      else do { temp \<leftarrow> mem_read (da_array dst) a 1;
                bv \<leftarrow> mem_read (da_array dst) b 1;
                p \<leftarrow> mem_write (da_array dst) a bv;
                p \<leftarrow> mem_write p b temp;
                Some (dst\<lparr>da_array := p\<rparr>) })"

subsection \<open>The array as a list\<close>

text \<open>The first cells of the block hold \<open>xs\<close>; the element count may differ for a moment.\<close>

definition da_cells :: "'a darray \<Rightarrow> 'a list \<Rightarrow> bool" where
  "da_cells d xs \<longleftrightarrow> length (da_array d) = da_capacity d \<and>
     (\<exists>rest. da_array d = map Some xs @ rest)"

definition da_rep :: "'a darray \<Rightarrow> 'a list \<Rightarrow> bool" where
  "da_rep d xs \<longleftrightarrow> da_cells d xs \<and> da_num d = length xs"

lemma da_rep_num: "da_rep d xs \<Longrightarrow> da_num d = length xs"
  by (simp add: da_rep_def)

lemma darray_init_rep: "da_rep darray_init []"
  by (simp add: da_rep_def da_cells_def darray_init_def)

lemma darray_free_rep: "da_rep (darray_free d) []"
  by (simp add: da_rep_def da_cells_def darray_free_def)

lemma da_cells_len: "da_cells d xs \<Longrightarrow> length xs \<le> da_capacity d"
  unfolding da_cells_def by (metis le_add1 length_append length_map)

lemma da_cells_take: "da_cells d xs \<Longrightarrow> n \<le> length xs \<Longrightarrow> take n (da_array d) = map Some (take n xs)"
  by (auto simp: da_cells_def take_map)

lemma da_cells_nth: "da_cells d xs \<Longrightarrow> i < length xs \<Longrightarrow> da_array d ! i = Some (xs ! i)"
  by (auto simp: da_cells_def nth_append)

lemma ensure_capacity_spec:
  assumes "da_cells d xs"
  shows "\<exists>r. darray_ensure_capacity d n = Some r \<and> da_cells r xs \<and> n \<le> da_capacity r \<and>
     da_num r = da_num d"
proof (cases "n \<le> da_capacity d")
  case True
  then show ?thesis using assms by (simp add: darray_ensure_capacity_def)
next
  case False
  let ?c = "let c = (if da_capacity d = 0 then n else da_capacity d * 2) in if n > c then n else c"
  have c: "n \<le> ?c" "da_capacity d \<le> ?c" using False by (auto simp: Let_def)
  have "darray_ensure_capacity d n =
      Some (d\<lparr>da_array := da_array d @ replicate (?c - da_capacity d) None, da_capacity := ?c\<rparr>)"
    using assms False c by (simp add: darray_ensure_capacity_def da_cells_def mem_simps Let_def)
  then show ?thesis using assms c by (auto simp: da_cells_def)
qed

lemma da_write_spec:
  assumes "da_cells d xs" "pos \<le> length xs" "pos + length ys \<le> da_capacity d"
  shows "\<exists>p. mem_write (da_array d) pos (map Some ys) = Some p \<and>
     da_cells (d\<lparr>da_array := p\<rparr>) (take pos xs @ ys @ drop (pos + length ys) xs)"
proof -
  obtain rest where r: "da_array d = map Some xs @ rest" "length (da_array d) = da_capacity d"
    using assms(1) by (auto simp: da_cells_def)
  have "mem_write (da_array d) pos (map Some ys) =
      Some (map Some (take pos xs @ ys @ drop (pos + length ys) xs) @ drop (pos + length ys - length xs) rest)"
    using assms(2,3) r(2) by (simp add: mem_simps r(1) take_map drop_map)
  moreover have "length (map Some (take pos xs @ ys @ drop (pos + length ys) xs) @
      drop (pos + length ys - length xs) rest) = da_capacity d"
    using assms(2,3) r by auto
  ultimately show ?thesis by (auto simp: da_cells_def)
qed

lemma da_cells_num [simp]: "da_cells (d\<lparr>da_num := n\<rparr>) xs = da_cells d xs"
  by (simp add: da_cells_def)

lemma darray_push_back_rep:
  assumes "da_rep d xs"
  shows "\<exists>r. darray_push_back d x = Some r \<and> da_rep r (xs @ [x])"
proof -
  let ?d = "d\<lparr>da_num := da_num d + 1\<rparr>"
  have c: "da_cells ?d xs" and n: "da_num d = length xs" using assms by (simp_all add: da_rep_def)
  obtain r where r: "darray_ensure_capacity ?d (da_num ?d) = Some r" "da_cells r xs"
    "da_num ?d \<le> da_capacity r" "da_num r = da_num ?d"
    using ensure_capacity_spec [OF c] by blast
  obtain p where p: "mem_write (da_array r) (length xs) [Some x] = Some p"
    "da_cells (r\<lparr>da_array := p\<rparr>) (xs @ [x])"
    using da_write_spec [OF r(2), of "length xs" "[x]"] r(3) n by auto
  show ?thesis
    using r(1,4) p n by (simp add: darray_push_back_def darray_end_def da_rep_def)
qed

lemma darray_push_back_new_eq: "darray_push_back_new d = darray_push_back d 0"
  by (simp add: darray_push_back_new_def darray_push_back_def)

lemma darray_insert_new_eq: "darray_insert_new d i = darray_insert d i 0"
  by (simp add: darray_insert_new_def darray_insert_def darray_push_back_new_eq)

lemma darray_resize_rep:
  assumes "da_rep d xs"
  shows "\<exists>r. darray_resize d n = Some r \<and> da_rep r (take n xs @ replicate (n - length xs) 0)"
proof -
  have c: "da_cells d xs" and num: "da_num d = length xs" using assms by (simp_all add: da_rep_def)
  consider (same) "n = length xs" | (zero) "n = 0" "xs \<noteq> []"
    | (grow) "n > length xs" | (shrink) "n < length xs" "n \<noteq> 0"
    by (metis linorder_neqE_nat list.size(3))
  then show ?thesis
  proof cases
    case same
    then show ?thesis using assms num by (simp add: darray_resize_def)
  next
    case zero
    then show ?thesis using c num by (auto simp: darray_resize_def da_rep_def da_cells_def)
  next
    case grow
    obtain r where r: "darray_ensure_capacity d n = Some r" "da_cells r xs" "n \<le> da_capacity r"
      using ensure_capacity_spec [OF c] by blast
    obtain p where "mem_write (da_array r) (length xs) (replicate (n - length xs) (Some 0)) = Some p"
      "da_cells (r\<lparr>da_array := p\<rparr>) (xs @ replicate (n - length xs) 0)"
      using da_write_spec [OF r(2), of "length xs" "replicate (n - length xs) 0"] r(3) grow by auto
    then show ?thesis
      using grow num r(1) by (simp add: darray_resize_def Let_def da_rep_def da_cells_def)
  next
    case shrink
    obtain r where r: "darray_ensure_capacity d n = Some r" "da_cells r xs"
      using ensure_capacity_spec [OF c] by blast
    have "da_cells r (take n xs)"
    proof -
      obtain rest where "da_array r = map Some xs @ rest" using r(2) by (auto simp: da_cells_def)
      then have "da_array r = map Some (take n xs) @ map Some (drop n xs) @ rest"
        by (metis append.assoc append_take_drop_id map_append)
      then show ?thesis using r(2) by (auto simp: da_cells_def)
    qed
    then show ?thesis using shrink num r(1) by (simp add: darray_resize_def Let_def da_rep_def)
  qed
qed

lemma da_overwrite_rep:
  assumes "da_rep r xs" "pos + length ys \<le> length xs"
  shows "\<exists>p. mem_write (da_array r) pos (map Some ys) = Some p \<and>
     da_rep (r\<lparr>da_array := p\<rparr>) (take pos xs @ ys @ drop (pos + length ys) xs)"
proof -
  have c: "da_cells r xs" using assms(1) by (simp add: da_rep_def)
  obtain p where "mem_write (da_array r) pos (map Some ys) = Some p"
    "da_cells (r\<lparr>da_array := p\<rparr>) (take pos xs @ ys @ drop (pos + length ys) xs)"
    using da_write_spec [OF c, of pos ys] assms(2) da_cells_len [OF c] by auto
  then show ?thesis using assms by (auto simp: da_rep_def)
qed

lemma mem_read_cells:
  "da_cells d xs \<Longrightarrow> i + n \<le> length xs \<Longrightarrow> mem_read (da_array d) i n = Some (map Some (take n (drop i xs)))"
  using da_cells_len [of d xs] by (auto simp: da_cells_def mem_read_def take_map drop_map)

lemma darray_copy_array_rep:
  assumes "da_rep d xs" "take n a = map Some ys" "length ys = n"
  shows "\<exists>r. darray_copy_array d a n = Some r \<and> da_rep r ys"
proof -
  obtain r where r: "darray_resize d n = Some r" "da_rep r (take n xs @ replicate (n - length xs) 0)"
    using darray_resize_rep [OF assms(1)] by blast
  have len: "length (take n xs @ replicate (n - length xs) 0) = n" by simp
  have n: "da_num r = n" using r(2) len by (simp add: da_rep_def del: length_append)
  obtain p where "mem_write (da_array r) 0 (map Some ys) = Some p" "da_rep (r\<lparr>da_array := p\<rparr>) ys"
    using da_overwrite_rep [OF r(2), of 0 ys] len assms(3) by auto
  moreover have "mem_read a 0 n = Some (map Some ys)"
    using assms(2,3) by (auto simp: mem_read_def) (metis length_map length_take min.absorb_iff2 min.commute)
  ultimately show ?thesis using r(1) n by (simp add: darray_copy_array_def)
qed

lemma darray_copy_rep:
  assumes "da_rep d xs" "da_rep e ys"
  shows "\<exists>r. darray_copy d e = Some r \<and> da_rep r ys"
proof (cases "ys = []")
  case True
  then show ?thesis using assms(2) darray_free_rep [of d] by (simp add: darray_copy_def da_rep_def)
next
  case False
  have e: "da_num e = length ys" "da_cells e ys" using assms(2) by (simp_all add: da_rep_def)
  obtain r where r: "darray_copy_array d (da_array e) (length ys) = Some r" "da_rep r ys"
    using darray_copy_array_rep [OF assms(1), of "length ys" "da_array e" ys] da_cells_take [OF e(2)] by auto
  obtain t where t: "darray_resize d (length ys) = Some t" "da_num t = length ys"
    using darray_resize_rep [OF assms(1), of "length ys"] by (auto simp: da_rep_def)
  have "darray_copy d e = darray_copy_array d (da_array e) (length ys)"
    using False e t by (simp add: darray_copy_def darray_copy_array_def)
  then show ?thesis using r by simp
qed

lemma darray_push_back_array_rep:
  assumes "da_rep d xs" "take n a = map Some ys" "length ys = n"
  shows "\<exists>r. darray_push_back_array d (Some a) n = Some r \<and> da_rep r (xs @ ys)"
proof (cases "n = 0")
  case True
  then show ?thesis using assms by (simp add: darray_push_back_array_def)
next
  case False
  have num: "da_num d = length xs" using assms(1) by (simp add: da_rep_def)
  obtain r where r: "darray_resize d (length xs + n) = Some r" "da_rep r (xs @ replicate n 0)"
    using darray_resize_rep [OF assms(1), of "length xs + n"] by auto
  obtain p where "mem_write (da_array r) (length xs) (map Some ys) = Some p"
      "da_rep (r\<lparr>da_array := p\<rparr>) (xs @ ys)"
    using da_overwrite_rep [OF r(2), of "length xs" ys] assms(3) by auto
  moreover have "mem_read a 0 n = Some (map Some ys)"
    using assms(2,3) by (auto simp: mem_read_def) (metis length_map length_take min.absorb_iff2 min.commute)
  ultimately show ?thesis using False r(1) num by (simp add: darray_push_back_array_def Let_def)
qed

lemma darray_push_back_darray_rep:
  assumes "da_rep d xs" "da_rep e ys"
  shows "\<exists>r. darray_push_back_darray d e = Some r \<and> da_rep r (xs @ ys)"
proof (cases "da_capacity e = 0")
  case True
  then have "ys = []" using assms(2) da_cells_len [of e ys] by (simp add: da_rep_def)
  then show ?thesis using True assms(1) by (simp add: darray_push_back_darray_def darray_push_back_array_def)
next
  case False
  then show ?thesis
    using darray_push_back_array_rep [OF assms(1), of "length ys" "da_array e" ys] assms(2)
      da_cells_take [of e ys "length ys"]
    by (simp add: darray_push_back_darray_def da_rep_def)
qed

text \<open>Moving a stretch of the array to a new place.\<close>

lemma da_move_spec:
  assumes "da_cells d xs" "src + n \<le> length xs" "dst \<le> length xs" "dst + n \<le> da_capacity d"
  shows "\<exists>p. mem_move (da_array d) dst src n = Some p \<and>
     da_cells (d\<lparr>da_array := p\<rparr>) (take dst xs @ take n (drop src xs) @ drop (dst + n) xs)"
proof -
  have r: "mem_read (da_array d) src n = Some (map Some (take n (drop src xs)))"
    by (rule mem_read_cells [OF assms(1,2)])
  have l: "length (take n (drop src xs)) = n" using assms(2) by simp
  show ?thesis
    using da_write_spec [OF assms(1), of dst "take n (drop src xs)"] assms(2-4) r
    by (simp add: mem_move_def l)
qed

lemma darray_insert_rep:
  assumes "da_rep d xs" "i \<le> length xs"
  shows "\<exists>r. darray_insert d i x = Some r \<and> da_rep r (take i xs @ x # drop i xs)"
proof (cases "i = length xs")
  case True
  then show ?thesis using darray_push_back_rep [OF assms(1), of x] assms(1)
    by (simp add: darray_insert_def da_rep_def)
next
  case False
  let ?d = "d\<lparr>da_num := da_num d + 1\<rparr>" and ?n = "length xs - i"
  have c: "da_cells ?d xs" and num: "da_num d = length xs" using assms by (simp_all add: da_rep_def)
  obtain r where r: "darray_ensure_capacity ?d (da_num ?d) = Some r" "da_cells r xs"
    "da_num ?d \<le> da_capacity r" "da_num r = da_num ?d"
    using ensure_capacity_spec [OF c] by blast
  obtain p where p: "mem_move (da_array r) (i + 1) i ?n = Some p"
    "da_cells (r\<lparr>da_array := p\<rparr>) (take (i + 1) xs @ drop i xs)"
    using da_move_spec [OF r(2), of i ?n "i + 1"] assms(2) False r(3) num by auto
  obtain p' where p': "mem_write p i [Some x] = Some p'"
    "da_cells (r\<lparr>da_array := p'\<rparr>) (take i xs @ x # drop i xs)"
    using da_write_spec [OF p(2), of i "[x]"] da_cells_len [OF p(2)] assms(2) False by auto
  show ?thesis
    using assms(2) False num r(1,4) p(1) p' by (simp add: darray_insert_def Let_def da_rep_def)
qed

lemma darray_insert_array_rep:
  assumes "da_rep d xs" "i \<le> length xs" "take n a = map Some ys" "length ys = n" "n \<noteq> 0"
  shows "\<exists>r. darray_insert_array d i (Some a) n = Some r \<and> da_rep r (take i xs @ ys @ drop i xs)"
proof -
  have num: "da_num d = length xs" using assms(1) by (simp add: da_rep_def)
  obtain r where r: "darray_resize d (length xs + n) = Some r" "da_rep r (xs @ replicate n 0)"
    using darray_resize_rep [OF assms(1), of "length xs + n"] by auto
  have c: "da_cells r (xs @ replicate n 0)" using r(2) by (simp add: da_rep_def)
  obtain p where p: "mem_move (da_array r) (i + n) i (length xs - i) = Some p"
    "da_cells (r\<lparr>da_array := p\<rparr>) (take (i + n) (xs @ replicate n 0) @ drop i xs)"
    using da_move_spec [OF c, of i "length xs - i" "i + n"] da_cells_len [OF c] assms(2) by auto
  obtain p' where p': "mem_write p i (map Some ys) = Some p'"
    "da_cells (r\<lparr>da_array := p'\<rparr>) (take i xs @ ys @ drop i xs)"
    using da_write_spec [OF p(2), of i ys] da_cells_len [OF p(2)] assms(2,4)
    by (auto simp: min_def split: if_splits)
  have "mem_read a 0 n = Some (map Some ys)"
    using assms(3,4) by (auto simp: mem_read_def) (metis length_map length_take min.absorb_iff2 min.commute)
  moreover have "da_num r = length xs + n" using r(2) by (simp add: da_rep_def)
  ultimately show ?thesis
    using assms(2,4,5) num r(1) p(1) p' by (simp add: darray_insert_array_def Let_def da_rep_def)
qed

lemma darray_erase_rep:
  assumes "da_rep d xs" "i < length xs"
  shows "\<exists>r. darray_erase d i = Some r \<and> da_rep r (take i xs @ drop (Suc i) xs)"
proof (cases "length xs = 1")
  case True
  then have "i = 0" "take i xs @ drop (Suc i) xs = []" using assms(2) by auto
  then show ?thesis using assms True
    by (auto simp: darray_erase_def da_rep_def da_cells_def)
next
  case False
  let ?d = "d\<lparr>da_num := da_num d - 1\<rparr>" and ?n = "length xs - 1 - i"
  have c: "da_cells ?d xs" and num: "da_num d = length xs" using assms by (simp_all add: da_rep_def)
  obtain p where p: "mem_move (da_array ?d) i (i + 1) ?n = Some p"
    "da_cells (?d\<lparr>da_array := p\<rparr>) (take i xs @ take ?n (drop (i + 1) xs) @ drop (i + ?n) xs)"
    using da_move_spec [OF c, of "i + 1" ?n i] assms(2) da_cells_len [OF c] by force
  have "da_cells (?d\<lparr>da_array := p\<rparr>) (take i xs @ drop (Suc i) xs)"
    using p(2) assms(2) by (fastforce simp: da_cells_def)
  then show ?thesis using p(1) assms(2) False num
    by (simp add: darray_erase_def Let_def da_rep_def)
qed

lemma darray_erase_range_rep:
  assumes "da_rep d xs" "s < e" "e \<le> length xs"
  shows "\<exists>r. darray_erase_range d s e = Some r \<and> da_rep r (take s xs @ drop e xs)"
proof -
  have c: "da_cells d xs" and num: "da_num d = length xs" using assms by (simp_all add: da_rep_def)
  have one: "e - s \<noteq> 1" if "e \<noteq> Suc s" using that assms(2) by linarith
  consider (one) "e = Suc s" | (all) "s = 0" "e = length xs" "e \<noteq> 1"
    | (some) "e \<noteq> Suc s" "e - s \<noteq> length xs"
    using assms(2,3) by linarith
  then show ?thesis
  proof cases
    case one
    then show ?thesis using darray_erase_rep [OF assms(1), of s] assms(2,3) num
      by (simp add: darray_erase_range_def)
  next
    case all
    then show ?thesis using assms num
      by (auto simp: darray_erase_range_def da_rep_def da_cells_def)
  next
    case some
    let ?n = "length xs - e"
    obtain p where p: "mem_move (da_array d) s e ?n = Some p"
      "da_cells (d\<lparr>da_array := p\<rparr>) (take s xs @ drop e xs @ drop (s + ?n) xs)"
    proof -
      have "e + ?n \<le> length xs" "s \<le> length xs" "s + ?n \<le> da_capacity d"
        using assms(2,3) da_cells_len [OF c] by linarith+
      from da_move_spec [OF c this] show ?thesis using that assms(2,3) by auto
    qed
    have q: "da_cells (d\<lparr>da_array := p\<rparr>) (take s xs @ drop e xs)"
      using p(2) by (fastforce simp: da_cells_def)
    have last: "da_cells d (take s xs @ drop e xs)" if "?n = 0"
      using c that by (auto simp: da_cells_def) (metis append.assoc append_take_drop_id map_append)
    have len: "da_num d - (e - s) = length (take s xs @ drop e xs)" using num assms(2,3) by simp
    show ?thesis
    proof (cases "?n = 0")
      case True
      have "darray_erase_range d s e = Some (d\<lparr>da_num := da_num d - (e - s)\<rparr>)"
        using True some one assms(2,3) num by (simp add: darray_erase_range_def Let_def)
      then show ?thesis using last [OF True] len by (simp add: da_rep_def)
    next
      case False
      have "darray_erase_range d s e = Some (d\<lparr>da_array := p, da_num := da_num d - (e - s)\<rparr>)"
        using False some one assms(2,3) num p(1) by (simp add: darray_erase_range_def Let_def)
      then show ?thesis using q len by (simp add: da_rep_def)
    qed
  qed
qed

lemma darray_find_rep:
  assumes "da_rep d xs" "i \<le> length xs"
  shows "darray_find d x i = Some (find (\<lambda>j. xs ! j = x) [i..<length xs])"
proof -
  have "find (\<lambda>j. da_array d ! j = Some x) [i..<length xs] = find (\<lambda>j. xs ! j = x) [i..<length xs]"
    using assms(1) by (intro find_cong) (auto simp: da_rep_def da_cells_nth)
  then show ?thesis using assms by (simp add: darray_find_def da_rep_def)
qed

lemma darray_find_remove1:
  "(case find (\<lambda>j. xs ! j = x) [0..<length xs] of Some i \<Rightarrow> take i xs @ drop (Suc i) xs | None \<Rightarrow> xs) = remove1 x xs"
proof (induction xs)
  case (Cons y ys)
  have s: "find (\<lambda>j. (y # ys) ! j = x) [1..<length (y # ys)] =
      map_option Suc (find (\<lambda>j. ys ! j = x) [0..<length ys])"
  proof -
    have m: "[1..<length (y # ys)] = map Suc [0..<length ys]" by (simp add: map_Suc_upt)
    have g: "find P (map f js) = map_option f (find (\<lambda>j. P (f j)) js)"
      for P :: "nat \<Rightarrow> bool" and f :: "nat \<Rightarrow> nat" and js
      by (induction js) auto
    show ?thesis unfolding m using g [of "\<lambda>j. (y # ys) ! j = x" Suc] by simp
  qed
  have u: "[0..<length (y # ys)] = 0 # [1..<length (y # ys)]" by (simp add: upt_rec)
  show ?case
  proof (cases "y = x")
    case False
    then show ?thesis using Cons s unfolding u by (auto split: option.splits)
  next
    case True
    have "find (\<lambda>j. (y # ys) ! j = x) [0..<length (y # ys)] = Some 0" unfolding u using True by simp
    then show ?thesis using True by (simp del: upt_Suc)
  qed
qed simp

lemma darray_erase_item_rep:
  assumes "da_rep d xs"
  shows "\<exists>r. darray_erase_item d x = Some r \<and> da_rep r (remove1 x xs)"
proof (cases "find (\<lambda>j. xs ! j = x) [0..<length xs]")
  case None
  then show ?thesis using assms darray_find_rep [OF assms, of 0 x] darray_find_remove1 [of xs x]
    by (simp add: darray_erase_item_def)
next
  case (Some i)
  then have i: "i < length xs" by (auto simp: find_Some_iff)
  show ?thesis
    using Some darray_erase_rep [OF assms i] darray_find_rep [OF assms, of 0 x] darray_find_remove1 [of xs x]
    by (simp add: darray_erase_item_def)
qed

lemma darray_reserve_rep:
  assumes "da_rep d xs"
  shows "\<exists>r. darray_reserve d n = Some r \<and> da_rep r xs"
proof (cases "n = 0 \<or> n \<le> da_capacity d")
  case True
  then show ?thesis using assms by (auto simp: darray_reserve_def)
next
  case False
  have c: "da_cells d xs" "da_num d = length xs" using assms by (simp_all add: da_rep_def)
  have "darray_reserve d n = Some (d\<lparr>da_array := map Some xs @ replicate (n - length xs) None, da_capacity := n\<rparr>)"
    using False c mem_read_cells [OF c(1), of 0 "length xs"] da_cells_len [OF c(1)]
    by (simp add: darray_reserve_def mem_simps)
  then show ?thesis using c False da_cells_len [OF c(1)] by (auto simp: da_rep_def da_cells_def)
qed

lemma darray_move_item_rep:
  assumes "da_rep d xs" "k < length xs" "to < length xs"
  shows "\<exists>r. darray_move_item d k to = Some r \<and>
     da_rep r (let ys = take k xs @ drop (Suc k) xs in take to ys @ xs ! k # drop to ys)"
proof (cases "k = to")
  case True
  then show ?thesis using assms by (simp add: darray_move_item_def id_take_nth_drop [symmetric])
next
  case False
  have c: "da_cells d xs" and num: "da_num d = length xs" using assms by (simp_all add: da_rep_def)
  have cap: "length xs \<le> da_capacity d" using da_cells_len [OF c] .
  have t: "mem_read (da_array d) k 1 = Some [Some (xs ! k)]"
    using mem_read_cells [OF c, of k 1] assms(2) by (simp add: Cons_nth_drop_Suc [symmetric])
  show ?thesis
  proof (cases "to < k")
    case True
    obtain p where p: "mem_move (da_array d) (to + 1) to (k - to) = Some p"
      "da_cells (d\<lparr>da_array := p\<rparr>) (take (to + 1) xs @ take (k - to) (drop to xs) @ drop (k + 1) xs)"
      using da_move_spec [OF c, of to "k - to" "to + 1"] True assms(2) cap by auto
    obtain p' where p': "mem_write p to [Some (xs ! k)] = Some p'"
      "da_cells (d\<lparr>da_array := p'\<rparr>) (take to xs @ xs ! k # take (k - to) (drop to xs) @ drop (k + 1) xs)"
    proof -
      let ?ys = "take (to + 1) xs @ take (k - to) (drop to xs) @ drop (k + 1) xs"
      have "to \<le> length ?ys" using assms(3) by simp
      moreover have "to + length [xs ! k] \<le> da_capacity (d\<lparr>da_array := p\<rparr>)"
        using assms(3) cap by simp
      ultimately show ?thesis
        using da_write_spec [OF p(2), of to "[xs ! k]"] that True assms by simp blast
    qed
    show ?thesis
      using False True t p(1) p' assms num
      by (simp add: darray_move_item_def da_rep_def Let_def drop_take)
  next
    case le: False
    then have lt: "k < to" using False by simp
    obtain p where p: "mem_move (da_array d) k (k + 1) (to - k) = Some p"
      "da_cells (d\<lparr>da_array := p\<rparr>) (take k xs @ take (to - k) (drop (k + 1) xs) @ drop to xs)"
      using da_move_spec [OF c, of "k + 1" "to - k" "k"] lt assms(3) cap by auto
    obtain p' where p': "mem_write p to [Some (xs ! k)] = Some p'"
      "da_cells (d\<lparr>da_array := p'\<rparr>) (take k xs @ take (to - k) (drop (k + 1) xs) @ xs ! k # drop (Suc to) xs)"
    proof -
      define M where "M = take (to - k) (drop (k + 1) xs)"
      let ?ys = "take k xs @ M @ drop to xs"
      have M: "length M = to - k" using assms(3) lt by (simp add: M_def)
      have ys: "take to ?ys = take k xs @ M" "drop (to + 1) ?ys = drop (Suc to) xs" "to \<le> length ?ys"
        using M lt assms by simp_all
      have "to + length [xs ! k] \<le> da_capacity (d\<lparr>da_array := p\<rparr>)"
        using assms(3) cap by simp
      note w = da_write_spec [OF p(2) [folded M_def] ys(3) this]
      have e: "take to ?ys @ [xs ! k] @ drop (to + length [xs ! k]) ?ys = take k xs @ M @ xs ! k # drop (Suc to) xs"
        using ys(1,2) by simp
      show ?thesis using w [unfolded e] that unfolding M_def [symmetric] by auto
    qed
    show ?thesis
    proof -
      let ?R = "take k xs @ take (to - k) (drop (k + 1) xs) @ xs ! k # drop (Suc to) xs"
      have m: "length (take (to - k) (drop (k + 1) xs)) = to - k" using lt assms(3) by simp
      have R: "(let ys = take k xs @ drop (Suc k) xs in take to ys @ xs ! k # drop to ys) = ?R"
        using lt assms by (simp add: Let_def)
      have "length ?R = length xs"
        unfolding length_append m using lt assms by simp
      then have "da_rep (d\<lparr>da_array := p'\<rparr>) ?R" using p'(2) num by (simp add: da_rep_def)
      moreover have "darray_move_item d k to = Some (d\<lparr>da_array := p'\<rparr>)"
        using False lt t p(1) p'(1) by (simp add: darray_move_item_def)
      ultimately show ?thesis unfolding R by blast
    qed
  qed
qed

lemma darray_swap_rep:
  assumes "da_rep d xs" "a < length xs" "b < length xs"
  shows "\<exists>r. darray_swap d a b = Some r \<and> da_rep r (xs[a := xs ! b, b := xs ! a])"
proof (cases "a = b")
  case True
  then show ?thesis using assms by (simp add: darray_swap_def da_rep_def)
next
  case False
  have c: "da_cells d xs" and num: "da_num d = length xs" using assms by (simp_all add: da_rep_def)
  have rd: "mem_read (da_array d) i 1 = Some [Some (xs ! i)]" if "i < length xs" for i
    using mem_read_cells [OF c, of i 1] that by (simp add: Cons_nth_drop_Suc [symmetric])
  have upd: "take i ys @ [y] @ drop (i + length [y]) ys = ys[i := y]" if "i < length ys" for i y and ys :: "'a list"
    using that by (simp add: upd_conv_take_nth_drop)
  obtain p where p: "mem_write (da_array d) a [Some (xs ! b)] = Some p" "da_rep (d\<lparr>da_array := p\<rparr>) (xs[a := xs ! b])"
    using da_overwrite_rep [OF assms(1), of a "[xs ! b]"] assms(2) upd [OF assms(2)] by auto
  obtain p' where p': "mem_write p b [Some (xs ! a)] = Some p'" "da_rep (d\<lparr>da_array := p'\<rparr>) (xs[a := xs ! b, b := xs ! a])"
    using da_overwrite_rep [OF p(2), of b "[xs ! a]"] assms(3) upd [of b "xs[a := xs ! b]"] by auto
  show ?thesis using False assms(2,3) num rd p(1) p' by (simp add: darray_swap_def)
qed

lemma darray_pop_front_rep:
  "da_rep d (x # xs) \<Longrightarrow> \<exists>r. darray_pop_front d = Some r \<and> da_rep r xs"
  using darray_erase_rep [of d "x # xs" 0] by (simp add: darray_pop_front_def da_rep_def)

lemma darray_pop_back_rep:
  "da_rep d xs \<Longrightarrow> xs \<noteq> [] \<Longrightarrow> \<exists>r. darray_pop_back d = Some r \<and> da_rep r (butlast xs)"
  using darray_erase_rep [of d xs "length xs - 1"]
  by (simp add: darray_pop_back_def da_rep_def butlast_conv_take)

subsection \<open>Arrays refine lists\<close>

datatype 'a da_op =
    PushBack 'a | PushBackNew | PushBackArray "'a list" | Insert nat 'a | InsertNew nat
  | InsertArray nat "'a list" | Erase nat | EraseItem 'a | EraseRange nat nat | PopFront | PopBack
  | Resize nat | Reserve nat | Clear | Free | Swap nat nat | CopyArray "'a list" | MoveItem nat nat
  | PushBackDarray "'a darray" | InsertDarray nat "'a darray" | Join "'a darray" | Copy "'a darray" | Move "'a darray"

text \<open>The elements of the other array of an operation.\<close>

definition da_contents :: "'a darray \<Rightarrow> 'a list" where
  "da_contents e = map the (take (da_num e) (da_array e))"

lemma da_contents_rep: "da_rep e ys \<Longrightarrow> da_contents e = ys"
  using da_cells_take [of e ys "length ys"] by (simp add: da_contents_def da_rep_def comp_def)

fun da_step :: "'a::zero da_op \<Rightarrow> 'a darray \<Rightarrow> 'a darray option" where
  "da_step (PushBack x) d = darray_push_back d x"
| "da_step PushBackNew d = darray_push_back_new d"
| "da_step (PushBackArray ys) d = darray_push_back_array d (Some (map Some ys)) (length ys)"
| "da_step (Insert i x) d = darray_insert d i x"
| "da_step (InsertNew i) d = darray_insert_new d i"
| "da_step (InsertArray i ys) d = darray_insert_array d i (Some (map Some ys)) (length ys)"
| "da_step (Erase i) d = darray_erase d i"
| "da_step (EraseItem x) d = darray_erase_item d x"
| "da_step (EraseRange s e) d = darray_erase_range d s e"
| "da_step PopFront d = darray_pop_front d"
| "da_step PopBack d = darray_pop_back d"
| "da_step (Resize n) d = darray_resize d n"
| "da_step (Reserve n) d = darray_reserve d n"
| "da_step Clear d = Some (darray_clear d)"
| "da_step (Swap a b) d = darray_swap d a b"
| "da_step (CopyArray ys) d = darray_copy_array d (map Some ys) (length ys)"
| "da_step Free d = Some (darray_free d)"
| "da_step (MoveItem a b) d = darray_move_item d a b"
| "da_step (PushBackDarray e) d = darray_push_back_darray d e"
| "da_step (InsertDarray i e) d = darray_insert_darray d i e"
| "da_step (Join e) d = map_option fst (darray_join d e)"
| "da_step (Copy e) d = darray_copy d e"
| "da_step (Move e) d = Some (fst (darray_move d e))"

fun da_list_step :: "'a::zero da_op \<Rightarrow> 'a list \<Rightarrow> 'a list option" where
  "da_list_step (PushBack x) xs = Some (xs @ [x])"
| "da_list_step PushBackNew xs = Some (xs @ [0])"
| "da_list_step (PushBackArray ys) xs = Some (xs @ ys)"
| "da_list_step (Insert i x) xs = (if i \<le> length xs then Some (take i xs @ x # drop i xs) else None)"
| "da_list_step (InsertNew i) xs = (if i \<le> length xs then Some (take i xs @ 0 # drop i xs) else None)"
| "da_list_step (InsertArray i ys) xs =
     (if i \<le> length xs \<and> ys \<noteq> [] then Some (take i xs @ ys @ drop i xs) else None)"
| "da_list_step (Erase i) xs = (if i < length xs then Some (take i xs @ drop (Suc i) xs) else None)"
| "da_list_step (EraseItem x) xs = Some (remove1 x xs)"
| "da_list_step (EraseRange s e) xs =
     (if s < e \<and> e \<le> length xs then Some (take s xs @ drop e xs) else None)"
| "da_list_step PopFront xs = (if xs = [] then None else Some (tl xs))"
| "da_list_step PopBack xs = (if xs = [] then None else Some (butlast xs))"
| "da_list_step (Resize n) xs = Some (take n xs @ replicate (n - length xs) 0)"
| "da_list_step (Reserve n) xs = Some xs"
| "da_list_step Clear xs = Some []"
| "da_list_step (Swap a b) xs =
     (if a < length xs \<and> b < length xs then Some (xs[a := xs ! b, b := xs ! a]) else None)"
| "da_list_step (CopyArray ys) xs = Some ys"
| "da_list_step Free xs = Some []"
| "da_list_step (MoveItem a b) xs =
     (let ys = take a xs @ drop (Suc a) xs in Some (take b ys @ xs ! a # drop b ys))"
| "da_list_step (PushBackDarray e) xs = Some (xs @ da_contents e)"
| "da_list_step (InsertDarray i e) xs =
     (if i \<le> length xs \<and> da_contents e \<noteq> [] then Some (take i xs @ da_contents e @ drop i xs) else None)"
| "da_list_step (Join e) xs = Some (xs @ da_contents e)"
| "da_list_step (Copy e) xs = Some (da_contents e)"
| "da_list_step (Move e) xs = Some (da_contents e)"

text \<open>The other array is one too, and \<^verbatim>\<open>da_move_item\<close>, which asserts nothing, is called with indices
of elements.\<close>

fun da_op_ok :: "'a da_op \<Rightarrow> 'a list \<Rightarrow> bool" where
  "da_op_ok (MoveItem a b) xs \<longleftrightarrow> a < length xs \<and> b < length xs"
| "da_op_ok (PushBackDarray e) xs \<longleftrightarrow> da_rep e (da_contents e)"
| "da_op_ok (InsertDarray i e) xs \<longleftrightarrow> da_rep e (da_contents e)"
| "da_op_ok (Join e) xs \<longleftrightarrow> da_rep e (da_contents e)"
| "da_op_ok (Copy e) xs \<longleftrightarrow> da_rep e (da_contents e)"
| "da_op_ok (Move e) xs \<longleftrightarrow> da_rep e (da_contents e)"
| "da_op_ok _ xs \<longleftrightarrow> True"

definition da_agree :: "'a darray option \<Rightarrow> 'a list option \<Rightarrow> bool" where
  "da_agree r s \<longleftrightarrow> (case s of None \<Rightarrow> r = None | Some xs \<Rightarrow> \<exists>d. r = Some d \<and> da_rep d xs)"

lemma darray_insert_darray_rep:
  assumes rep: "da_rep d xs" and e: "da_rep e ys"
  shows "da_agree (darray_insert_darray d i e)
    (if i \<le> length xs \<and> ys \<noteq> [] then Some (take i xs @ ys @ drop i xs) else None)"
proof -
  have num: "da_num d = length xs" "da_num e = length ys" and c: "da_cells e ys" using rep e by (simp_all add: da_rep_def)
  have "da_capacity e \<noteq> 0" if "ys \<noteq> []" using da_cells_len [OF c] that by (cases ys) auto
  moreover have "take (length ys) (da_array e) = map Some ys" using da_cells_take [OF c, of "length ys"] by simp
  ultimately show ?thesis using darray_insert_array_rep [OF rep, of i "length ys" "da_array e" ys] num
    by (auto simp: da_agree_def darray_insert_darray_def darray_insert_array_def)
qed

lemma da_step_agree:
  assumes rep: "da_rep d xs" and ok: "da_op_ok c xs"
  shows "da_agree (da_step c d) (da_list_step c xs)"
proof -
  have num: "da_num d = length xs" using rep by (simp add: da_rep_def)
  have clear: "da_rep (darray_clear d) []" using rep by (auto simp: da_rep_def da_cells_def darray_clear_def)
  show ?thesis
  proof (cases c)
    case (PushBack x)
    then show ?thesis using darray_push_back_rep [OF rep, of x] by (simp add: da_agree_def)
  next
    case PushBackNew
    then show ?thesis using darray_push_back_rep [OF rep, of 0]
      by (simp add: da_agree_def darray_push_back_new_eq)
  next
    case (PushBackArray ys)
    then show ?thesis using darray_push_back_array_rep [OF rep, of "length ys" "map Some ys" ys]
      by (simp add: da_agree_def)
  next
    case (Insert i x)
    then show ?thesis using darray_insert_rep [OF rep, of i x] num
      by (simp add: da_agree_def darray_insert_def)
  next
    case (InsertNew i)
    then show ?thesis using darray_insert_rep [OF rep, of i 0] num
      by (simp add: da_agree_def darray_insert_new_eq darray_insert_def)
  next
    case (InsertArray i ys)
    then show ?thesis using darray_insert_array_rep [OF rep, of i "length ys" "map Some ys" ys] num
      by (auto simp: da_agree_def darray_insert_array_def)
  next
    case (Erase i)
    then show ?thesis using darray_erase_rep [OF rep, of i] num by (simp add: da_agree_def darray_erase_def)
  next
    case (EraseItem x)
    then show ?thesis using darray_erase_item_rep [OF rep, of x] by (simp add: da_agree_def)
  next
    case (EraseRange s e)
    then show ?thesis using darray_erase_range_rep [OF rep, of s e] num
      by (auto simp: da_agree_def darray_erase_range_def)
  next
    case PopFront
    then show ?thesis using darray_pop_front_rep [of d "hd xs" "tl xs"] rep num
      by (auto simp: da_agree_def darray_pop_front_def)
  next
    case PopBack
    then show ?thesis using darray_pop_back_rep [OF rep] num by (simp add: da_agree_def darray_pop_back_def)
  next
    case (Resize n)
    then show ?thesis using darray_resize_rep [OF rep, of n] by (simp add: da_agree_def)
  next
    case (Reserve n)
    then show ?thesis using darray_reserve_rep [OF rep, of n] by (simp add: da_agree_def)
  next
    case Clear
    then show ?thesis using clear by (simp add: da_agree_def)
  next
    case (Swap a b)
    then show ?thesis using darray_swap_rep [OF rep, of a b] num by (auto simp: da_agree_def darray_swap_def)
  next
    case (CopyArray ys)
    then show ?thesis using darray_copy_array_rep [OF rep, of "length ys" "map Some ys" ys]
      by (simp add: da_agree_def)
  next
    case Free
    then show ?thesis using darray_free_rep [of d] by (simp add: da_agree_def)
  next
    case (MoveItem a b)
    then show ?thesis using darray_move_item_rep [OF rep, of a b] ok by (simp add: da_agree_def Let_def)
  next
    case (PushBackDarray e)
    then show ?thesis using darray_push_back_darray_rep [OF rep, of e] ok by (simp add: da_agree_def)
  next
    case (InsertDarray i e)
    then show ?thesis using darray_insert_darray_rep [OF rep, of e "da_contents e" i] ok by simp
  next
    case (Join e)
    then show ?thesis using darray_push_back_darray_rep [OF rep, of e] ok by (auto simp: da_agree_def darray_join_def)
  next
    case (Copy e)
    then show ?thesis using darray_copy_rep [OF rep, of e] ok by (simp add: da_agree_def)
  next
    case (Move e)
    then show ?thesis using ok by (simp add: da_agree_def darray_move_def)
  qed
qed

fun da_run :: "'a::zero da_op list \<Rightarrow> 'a darray \<Rightarrow> 'a darray option" where
  "da_run [] d = Some d"
| "da_run (c # cs) d = do { d \<leftarrow> da_step c d; da_run cs d }"

fun da_list_run :: "'a::zero da_op list \<Rightarrow> 'a list \<Rightarrow> 'a list option" where
  "da_list_run [] xs = Some xs"
| "da_list_run (c # cs) xs = do { xs \<leftarrow> da_list_step c xs; da_list_run cs xs }"

fun da_ops_ok :: "'a::zero da_op list \<Rightarrow> 'a list \<Rightarrow> bool" where
  "da_ops_ok [] xs \<longleftrightarrow> True"
| "da_ops_ok (c # cs) xs \<longleftrightarrow>
     da_op_ok c xs \<and> (case da_list_step c xs of None \<Rightarrow> True | Some ys \<Rightarrow> da_ops_ok cs ys)"

lemma da_run_agree: "da_rep d xs \<Longrightarrow> da_ops_ok cs xs \<Longrightarrow> da_agree (da_run cs d) (da_list_run cs xs)"
proof (induction cs arbitrary: d xs)
  case (Cons c cs)
  have ok: "da_op_ok c xs" using Cons.prems(2) by simp
  show ?case
  proof (cases "da_list_step c xs")
    case None
    then show ?thesis using da_step_agree [OF Cons.prems(1) ok] by (simp add: da_agree_def)
  next
    case (Some ys)
    then obtain e where "da_step c d = Some e" "da_rep e ys"
      using da_step_agree [OF Cons.prems(1) ok] by (auto simp: da_agree_def)
    then show ?thesis using Cons.IH Cons.prems(2) Some by simp
  qed
qed (simp add: da_agree_def)

text \<open>C27: The growable array implements lists.  Any sequence of operations on an empty array (to push, insert
and erase elements, arrays and other growable arrays, to copy, move and join another one, to resize, reserve, clear
and free, to swap two elements and to move one from one index to another) gives exactly what the same sequence
gives on the empty list: it fails (an \<^verbatim>\<open>assert\<close>) when the list operation is undefined, and otherwise it
stays inside its allocation, and the array holds the list.  The other arrays are well formed, and
\<^verbatim>\<open>da_move_item\<close>, which asserts nothing, is called with indices inside the array.\<close>
theorem darray_refines_list:
  assumes "da_ops_ok cs []"
  shows "case da_list_run cs [] of None \<Rightarrow> da_run cs darray_init = None
   | Some xs \<Rightarrow> (\<exists>d. da_run cs darray_init = Some d \<and> da_rep d xs)"
  using da_run_agree [OF darray_init_rep assms] by (simp add: da_agree_def split: option.splits)

definition da_other :: "int darray" where
  "da_other = \<lparr>da_array = [Some 7, None], da_num = 1, da_capacity = 2\<rparr>"

lemma darray_refines_list_witness:
  "\<exists>d. da_run [PushBack 1, PushBackArray [2, 3, 4], MoveItem 0 2, Insert 1 9, MoveItem 4 0, EraseItem 3, Join da_other]
      darray_init = Some d \<and> da_rep d [4, 2, 9, 1, 7]"
proof -
  let ?cs = "[PushBack 1, PushBackArray [2, 3, 4], MoveItem 0 2, Insert 1 9, MoveItem 4 0, EraseItem 3, Join da_other]"
  have e: "da_contents da_other = [7]" "da_rep da_other [7]"
    by (simp_all add: da_other_def da_contents_def da_rep_def da_cells_def)
  have "da_list_run ?cs [] = Some [4, 2, 9, 1, 7]" by code_simp
  moreover have "da_ops_ok ?cs []" by (simp add: Let_def e)
  ultimately show ?thesis using darray_refines_list [of ?cs] by simp
qed

text \<open>\<^verbatim>\<open>darray_split\<close> does not split: the first result holds the whole array instead of
its first \<open>i\<close> elements, and the second result is empty when one element is left for it.  For an
array of at least two elements and a split point inside it, this is what the code computes.\<close>
theorem darray_split_keeps_all:
  assumes rep: "da_rep d xs" and i: "0 < i" "i < length xs"
  shows "\<exists>a b. darray_split darray_init darray_init d i = Some (a, b) \<and> da_rep a xs \<and>
     da_rep b (if i = length xs - 1 then [] else drop i xs)"
proof -
  obtain t where t: "darray_copy darray_init d = Some t" "da_rep t xs"
    using darray_copy_rep [OF darray_init_rep rep] by blast
  have tn: "da_num t = length xs" "da_cells t xs" using t(2) by (simp_all add: da_rep_def)
  have dn: "da_num d = length xs" using rep by (simp add: da_rep_def)
  obtain a where a: "darray_copy_array (darray_free darray_init) (da_array t) (length xs) = Some a" "da_rep a xs"
    using darray_copy_array_rep [OF darray_free_rep, of "length xs" "da_array t" xs] da_cells_take [OF tn(2)]
    by auto
  have tk: "take (length xs - i) (drop i (da_array t)) = map Some (drop i xs)"
    using da_cells_take [OF tn(2) order.refl] i by (metis drop_map drop_take take_all_iff order.refl)
  obtain b where b: "darray_copy_array (darray_free darray_init) (drop i (da_array t)) (length xs - i) = Some b"
      "da_rep b (drop i xs)"
    using darray_copy_array_rep [OF darray_free_rep tk] by auto
  show ?thesis
  proof (cases "i = length xs - 1")
    case True
    then show ?thesis using t(1) tn(1) dn a i darray_free_rep by (auto simp: darray_split_def Let_def)
  next
    case False
    then have "i < length xs - 1" using i by linarith
    then show ?thesis using t(1) tn(1) dn a b i by (auto simp: darray_split_def Let_def)
  qed
qed

lemma darray_split_keeps_all_witness:
  "\<exists>d a b. da_rep d [1, 2, 3 :: nat] \<and> darray_split darray_init darray_init d 2 = Some (a, b) \<and>
     da_rep a [1, 2, 3] \<and> da_rep b []"
proof -
  obtain d where d: "da_rep d [1, 2, 3 :: nat]"
    using darray_copy_array_rep [OF darray_init_rep, of 3 "map Some [1, 2, 3]" "[1, 2, 3 :: nat]"] by auto
  then show ?thesis using darray_split_keeps_all [OF d, of 2] by auto
qed

text \<open>An array is a queue too: \<^verbatim>\<open>da_push_back\<close> and \<^verbatim>\<open>da_pop_front\<close>.\<close>

definition darray_shift :: "'a darray \<Rightarrow> ('a \<times> 'a darray) option" where
  "darray_shift d = do { x \<leftarrow> darray_item d 0; x \<leftarrow> x; d \<leftarrow> darray_pop_front d; Some (x, d) }"

definition darray_first :: "'a darray \<Rightarrow> 'a option" where
  "darray_first d = Option.bind (darray_item d 0) (\<lambda>x. x)"

lemma darray_item_rep: "da_rep d xs \<Longrightarrow> i < length xs \<Longrightarrow> darray_item d i = Some (Some (xs ! i))"
  using mem_read_cells [of d xs i 1]
  by (simp add: darray_item_def da_rep_def Cons_nth_drop_Suc [symmetric])

interpretation daf: fifo da_rep darray_init darray_push_back darray_first darray_shift da_num
proof unfold_locales
  show "da_rep darray_init []" by (rule darray_init_rep)
  fix d :: "'a darray" and x xs
  show "da_rep d xs \<Longrightarrow> da_num d = length xs" by (rule da_rep_num)
  show "da_rep d xs \<Longrightarrow> \<exists>r. darray_push_back d x = Some r \<and> da_rep r (xs @ [x])"
    by (rule darray_push_back_rep)
  show "da_rep d (x # xs) \<Longrightarrow> darray_first d = Some x"
    using darray_item_rep [of d "x # xs" 0] by (simp add: darray_first_def)
  show "da_rep d (x # xs) \<Longrightarrow> \<exists>r. darray_shift d = Some (x, r) \<and> da_rep r xs"
    using darray_item_rep [of d "x # xs" 0] darray_pop_front_rep [of d x xs] by (auto simp: darray_shift_def)
qed

end
