(* ===== verification/Packet.thy ===== *)
theory Packet
  imports Obs_Prelude "HOL-Library.Signed_Division"
begin

text \<open>
  Encoded packets and their reference-counted payloads: \<^verbatim>\<open>struct encoder_packet\<close> of
  \<^verbatim>\<open>src/libobs/obs-encoder.h\<close> and the three functions of
  \<^verbatim>\<open>src/libobs/obs-encoder.c\<close> that create, share and release a payload.

  A payload is a block of the heap: a counter (the \<^verbatim>\<open>long\<close> in front of the data) and
  the bytes.  Using a payload that was freed is the value \<open>None\<close>.  Time stamps are
  \<^verbatim>\<open>int64_t\<close>; signed overflow is undefined in C, and the model uses \<open>int\<close>.
  Division of time stamps truncates towards zero (\<open>sdiv\<close>).
\<close>

subsection \<open>Data\<close>

datatype encoder_type = OBS_ENCODER_AUDIO | OBS_ENCODER_VIDEO

record encoder_packet =
  pdata :: "nat option"
  psize :: nat
  pts :: int
  dts :: int
  timebase_num :: int
  timebase_den :: int
  ptype :: encoder_type
  keyframe :: bool
  dts_usec :: int
  sys_dts_usec :: int
  priority :: int
  drop_priority :: int
  track_idx :: nat
  pencoder :: "nat option"

definition packet_zero :: encoder_packet where
  "packet_zero =
     \<lparr>pdata = None, psize = 0, pts = 0, dts = 0, timebase_num = 0, timebase_den = 0,
      ptype = OBS_ENCODER_AUDIO, keyframe = False, dts_usec = 0, sys_dts_usec = 0,
      priority = 0, drop_priority = 0, track_idx = 0, pencoder = None\<rparr>"

record payload =
  refs :: int
  bytes :: "8 word list"

record heap =
  next_addr :: nat
  payloads :: "nat \<rightharpoonup> payload"

definition packet_dts_usec :: "encoder_packet \<Rightarrow> int" where
  "packet_dts_usec p = (dts p * 1000000) sdiv timebase_den p"

definition is_video_keyframe :: "encoder_packet \<Rightarrow> bool" where
  "is_video_keyframe p \<longleftrightarrow> ptype p = OBS_ENCODER_VIDEO \<and> keyframe p"

subsection \<open>Operations\<close>

definition obs_encoder_packet_create_instance ::
    "heap \<Rightarrow> encoder_packet \<Rightarrow> (encoder_packet \<times> heap) option" where
  "obs_encoder_packet_create_instance h src =
     do { bs \<leftarrow> (case pdata src of
                   None \<Rightarrow> if psize src = 0 then Some [] else None
                 | Some a \<Rightarrow> (case payloads h a of
                      None \<Rightarrow> None | Some b \<Rightarrow> mem_read (bytes b) 0 (psize src)));
          let a = next_addr h;
          Some (src\<lparr>pdata := Some a\<rparr>,
                h\<lparr>next_addr := Suc a, payloads := (payloads h)(a \<mapsto> \<lparr>refs = 1, bytes = bs\<rparr>)\<rparr>) }"

definition obs_encoder_packet_ref :: "heap \<Rightarrow> encoder_packet \<Rightarrow> heap option" where
  "obs_encoder_packet_ref h src =
     (case pdata src of
        None \<Rightarrow> Some h
      | Some a \<Rightarrow> (case payloads h a of
           None \<Rightarrow> None
         | Some b \<Rightarrow> Some (h\<lparr>payloads := (payloads h)(a \<mapsto> b\<lparr>refs := refs b + 1\<rparr>)\<rparr>)))"

text \<open>
  The \<^verbatim>\<open>*dst = *src\<close> of \<^verbatim>\<open>obs_encoder_packet_ref\<close> is the caller's use
  of the same packet value; the \<^verbatim>\<open>memset\<close> of \<^verbatim>\<open>obs_encoder_packet_release\<close>
  is the packet it returns.
\<close>

definition obs_encoder_packet_release ::
    "heap \<Rightarrow> encoder_packet \<Rightarrow> (encoder_packet \<times> heap) option" where
  "obs_encoder_packet_release h pkt =
     (case pdata pkt of
        None \<Rightarrow> Some (packet_zero, h)
      | Some a \<Rightarrow> (case payloads h a of
           None \<Rightarrow> None
         | Some b \<Rightarrow>
             (if refs b - 1 = 0
              then Some (packet_zero, h\<lparr>payloads := (payloads h)(a := None)\<rparr>)
              else Some (packet_zero, h\<lparr>payloads := (payloads h)(a \<mapsto> b\<lparr>refs := refs b - 1\<rparr>)\<rparr>))))"

definition release_packet :: "heap \<Rightarrow> encoder_packet \<Rightarrow> heap option" where
  "release_packet h pkt = map_option snd (obs_encoder_packet_release h pkt)"

text \<open>The payload bytes of a packet: \<^verbatim>\<open>packet->data\<close>, \<^verbatim>\<open>packet->size\<close> of them.\<close>

definition payload_bytes :: "heap \<Rightarrow> encoder_packet \<Rightarrow> 8 word list option" where
  "payload_bytes h p =
     (case pdata p of None \<Rightarrow> if psize p = 0 then Some [] else None
      | Some a \<Rightarrow> do { b \<leftarrow> payloads h a; mem_read (bytes b) 0 (psize p) })"

subsection \<open>Counting references\<close>

definition heap_ok :: "heap \<Rightarrow> bool" where
  "heap_ok h \<longleftrightarrow> (\<forall>a b. payloads h a = Some b \<longrightarrow> refs b > 0) \<and>
     (\<forall>a \<ge> next_addr h. payloads h a = None)"

definition refs_of :: "heap \<Rightarrow> nat \<Rightarrow> int" where
  "refs_of h a = (case payloads h a of None \<Rightarrow> 0 | Some b \<Rightarrow> refs b)"

definition holds_ref :: "encoder_packet \<Rightarrow> nat \<Rightarrow> int" where
  "holds_ref p a = (if pdata p = Some a then 1 else 0)"

definition held :: "encoder_packet list \<Rightarrow> nat \<Rightarrow> int" where
  "held ps a = sum_list (map (\<lambda>p. holds_ref p a) ps)"

lemma holds_ref_nonneg [simp]: "0 \<le> holds_ref p a"
  by (simp add: holds_ref_def)

lemma held_simps [simp]:
  "held [] a = 0" "held (p # ps) a = holds_ref p a + held ps a"
  "held (ps @ qs) a = held ps a + held qs a" "held (rev ps) a = held ps a"
  by (simp_all add: held_def rev_map [symmetric])

lemma held_nonneg [simp]: "0 \<le> held ps a"
  by (induction ps) auto

lemma held_take_drop: "held (take n ps) a + held (drop n ps) a = held ps a"
  by (metis append_take_drop_id held_simps(3))

lemma held_pdata_cong: "map pdata ps = map pdata qs \<Longrightarrow> held ps a = held qs a"
proof -
  have "held ps a = sum_list (map (\<lambda>d. if d = Some a then 1 else 0) (map pdata ps))" for ps
    by (simp add: held_def holds_ref_def comp_def)
  moreover assume "map pdata ps = map pdata qs"
  ultimately show ?thesis by metis
qed

lemma holds_ref_zero [simp]: "holds_ref packet_zero a = 0"
  by (simp add: holds_ref_def packet_zero_def)

lemma refs_of_nonneg: "heap_ok h \<Longrightarrow> 0 \<le> refs_of h a"
  by (auto simp: heap_ok_def refs_of_def split: option.splits) (metis less_le)

lemma refs_of_pos_iff: "heap_ok h \<Longrightarrow> 0 < refs_of h a \<longleftrightarrow> payloads h a \<noteq> None"
  by (auto simp: heap_ok_def refs_of_def split: option.splits)

lemma create_instance_ok:
  assumes ok: "heap_ok h"
    and src: "case pdata p of None \<Rightarrow> psize p = 0
              | Some a \<Rightarrow> (\<exists>b. payloads h a = Some b \<and> psize p \<le> length (bytes b))"
  shows "\<exists>q h'. obs_encoder_packet_create_instance h p = Some (q, h') \<and> heap_ok h' \<and>
     (\<exists>a. q = p\<lparr>pdata := Some a\<rparr>) \<and> (\<forall>a. refs_of h' a = refs_of h a + holds_ref q a) \<and>
     (\<forall>a b. payloads h a = Some b \<longrightarrow> payloads h' a = Some b)"
  using assms
  by (cases "pdata p")
     (auto simp: obs_encoder_packet_create_instance_def mem_read_def heap_ok_def refs_of_def
        holds_ref_def Let_def split: option.splits)

lemma packet_ref_ok:
  assumes "heap_ok h" "\<And>a. pdata p = Some a \<Longrightarrow> 0 < refs_of h a"
  shows "\<exists>h'. obs_encoder_packet_ref h p = Some h' \<and> heap_ok h' \<and>
     (\<forall>a. refs_of h' a = refs_of h a + holds_ref p a)"
  using assms
  by (auto simp: obs_encoder_packet_ref_def heap_ok_def refs_of_def holds_ref_def
           split: option.splits)

lemma release_packet_ok:
  assumes "heap_ok h" "\<And>a. pdata p = Some a \<Longrightarrow> 0 < refs_of h a"
  shows "\<exists>h'. release_packet h p = Some h' \<and> heap_ok h' \<and>
     (\<forall>a. refs_of h' a = refs_of h a - holds_ref p a)"
  using assms
  by (auto simp: release_packet_def obs_encoder_packet_release_def heap_ok_def refs_of_def
        holds_ref_def split: option.splits)

subsection \<open>The reference-counting interface\<close>

locale refcounted =
  fixes ok :: "'h \<Rightarrow> bool"
    and cnt :: "'h \<Rightarrow> 'k \<Rightarrow> int"
    and wt :: "'o \<Rightarrow> 'k \<Rightarrow> int"
    and addref :: "'h \<Rightarrow> 'o \<Rightarrow> 'h option"
    and release :: "'h \<Rightarrow> 'o \<Rightarrow> 'h option"
  assumes wt_nonneg: "0 \<le> wt x k"
    and addref_ok: "ok h \<Longrightarrow> (\<And>k. 0 < wt x k \<Longrightarrow> 0 < cnt h k) \<Longrightarrow>
       \<exists>h'. addref h x = Some h' \<and> ok h' \<and> (\<forall>k. cnt h' k = cnt h k + wt x k)"
    and release_ok: "ok h \<Longrightarrow> (\<And>k. wt x k \<le> cnt h k) \<Longrightarrow>
       \<exists>h'. release h x = Some h' \<and> ok h' \<and> (\<forall>k. cnt h' k = cnt h k - wt x k)"
begin

lemma sum_wt_nonneg: "0 \<le> sum_list (map (\<lambda>x. wt x k) xs)"
  by (induction xs) (simp_all add: wt_nonneg)

lemma release_all:
  "ok h \<Longrightarrow> (\<And>k. sum_list (map (\<lambda>x. wt x k) xs) \<le> cnt h k) \<Longrightarrow>
     \<exists>h'. opt_fold release h xs = Some h' \<and> ok h' \<and>
          (\<forall>k. cnt h' k = cnt h k - sum_list (map (\<lambda>x. wt x k) xs))"
proof (induction xs arbitrary: h)
  case (Cons x xs)
  have "wt x k \<le> cnt h k" for k
    using Cons.prems(2) [of k] sum_wt_nonneg [of k xs] by simp
  then obtain h1 where h1: "release h x = Some h1" "ok h1" "\<And>k. cnt h1 k = cnt h k - wt x k"
    using release_ok [OF Cons.prems(1)] by blast
  have "sum_list (map (\<lambda>x. wt x k) xs) \<le> cnt h1 k" for k
    using Cons.prems(2) [of k] h1(3) [of k] by simp
  then show ?case
    using Cons.IH [OF h1(2)] h1(1,3) by fastforce
qed simp

end

interpretation payload_refs: refcounted heap_ok refs_of holds_ref obs_encoder_packet_ref release_packet
proof unfold_locales
  fix h :: heap and x k
  show "0 \<le> holds_ref x k" by simp
  show "\<exists>h'. obs_encoder_packet_ref h x = Some h' \<and> heap_ok h' \<and>
          (\<forall>k. refs_of h' k = refs_of h k + holds_ref x k)"
    if "heap_ok h" "\<And>k. 0 < holds_ref x k \<Longrightarrow> 0 < refs_of h k"
    using packet_ref_ok [OF that(1)] that(2) by (auto simp: holds_ref_def split: if_splits)
  show "\<exists>h'. release_packet h x = Some h' \<and> heap_ok h' \<and>
          (\<forall>k. refs_of h' k = refs_of h k - holds_ref x k)"
    if "heap_ok h" "\<And>k. holds_ref x k \<le> refs_of h k"
    using release_packet_ok [OF that(1)] that(2) by (force simp: holds_ref_def split: if_splits)
qed

lemma release_all_packets:
  assumes "heap_ok h" "\<And>a. held ps a \<le> refs_of h a"
  shows "\<exists>h'. opt_fold release_packet h ps = Some h' \<and> heap_ok h' \<and>
     (\<forall>a. refs_of h' a = refs_of h a - held ps a)"
  using payload_refs.release_all [OF assms(1)] assms(2) by (simp add: held_def)

end
