(* ===== verification/Mux.thy ===== *)
theory Mux
  imports Deque Packet
begin

text \<open>
  The ffmpeg muxer output of \<^verbatim>\<open>src/plugins/obs-ffmpeg/obs-ffmpeg-mux.c\<close>: the
  \<^verbatim>\<open>struct ffmpeg_muxer\<close> that the recording output and the replay buffer share,
  the frames it writes to the helper process, stopping and failing, and the splitting of a
  recording into several files.

  The helper process, the encoders' headers and the file system are outside the model: the
  record \<open>mux_env\<close> holds what they answer (\<open>write_ok k\<close> says whether the \<open>k\<close>-th
  write to the pipe takes every byte).  Calls into the output core are appended to
  \<open>m_calls\<close>; frames written to the pipe are appended to \<open>m_sent\<close>.  HLS-only
  fields are left out.
\<close>

subsection \<open>State\<close>

definition MAX_AUDIO_MIXES :: nat where "MAX_AUDIO_MIXES = 6"
definition OBS_OUTPUT_DISCONNECTED :: int where "OBS_OUTPUT_DISCONNECTED = -5"
definition OBS_OUTPUT_UNSUPPORTED :: int where "OBS_OUTPUT_UNSUPPORTED = -6"
definition OBS_OUTPUT_ENCODE_ERROR :: int where "OBS_OUTPUT_ENCODE_ERROR = -8"
definition FFM_UNSUPPORTED :: int where "FFM_UNSUPPORTED = -2"

datatype ffm_packet_type = FFM_PACKET_VIDEO | FFM_PACKET_AUDIO | FFM_PACKET_CHANGE_FILE

record ffm_packet_info =
  fi_pts :: int
  fi_dts :: int
  fi_size :: "32 word"
  fi_index :: "32 word"
  fi_type :: ffm_packet_type
  fi_keyframe :: bool

datatype mux_frame = Info ffm_packet_info | Data "8 word list" | FileName string

datatype mux_call =
    SignalStop int
  | EndDataCapture
  | BeginDataCapture
  | FileChanged string
  | Saved

record mux_env =
  write_ok :: "nat \<Rightarrow> bool"
  destroy_ret :: int
  venc_extra :: "8 word list option"
  aenc_extra :: "nat \<Rightarrow> 8 word list option option"
  new_name :: string
  pipe_starts :: bool
  thread_starts :: bool

record ffmpeg_muxer =
  mem :: heap
  m_pipe :: bool
  m_writes :: nat
  m_sent :: "mux_frame list"
  m_calls :: "mux_call list"
  m_path :: string
  stop_ts :: int
  total_bytes :: nat
  sent_headers :: bool
  m_active :: bool
  capturing :: bool
  m_stopping :: bool
  cur_size :: int
  cur_time :: int
  max_size :: int
  max_time :: int
  save_ts :: int
  keyframes :: int
  muxing :: bool
  mux_packets :: "encoder_packet list"
  found_video :: bool
  found_audio :: "nat \<Rightarrow> bool"
  video_pts_offset :: int
  audio_dts_offsets :: "nat \<Rightarrow> int"
  split_file_ready :: bool
  manual_split :: bool
  mux_thread_joinable :: bool
  packets :: "encoder_packet deque"
  is_network :: bool
  split_file :: bool
  allow_overwrite :: bool

abbreviation log_call :: "mux_call \<Rightarrow> ffmpeg_muxer \<Rightarrow> ffmpeg_muxer" where
  "log_call c s \<equiv> s\<lparr>m_calls := m_calls s @ [c]\<rparr>"

subsection \<open>Writing to the helper process\<close>

definition pipe_write :: "mux_env \<Rightarrow> mux_frame \<Rightarrow> ffmpeg_muxer \<Rightarrow> bool \<times> ffmpeg_muxer" where
  "pipe_write env f s =
     (let ok = m_pipe s \<and> write_ok env (m_writes s);
          s = s\<lparr>m_writes := Suc (m_writes s)\<rparr> in
      (ok, if ok then s\<lparr>m_sent := m_sent s @ [f]\<rparr> else s))"

definition deactivate :: "mux_env \<Rightarrow> int \<Rightarrow> ffmpeg_muxer \<Rightarrow> int \<times> ffmpeg_muxer" where
  "deactivate env code s =
     (let (ret, s) =
        (if m_active s
         then (destroy_ret env, s\<lparr>m_pipe := False, m_active := False, sent_headers := False\<rparr>)
         else (-1, s));
          s = (if code \<noteq> 0 then log_call (SignalStop code) s
               else if m_stopping s then log_call EndDataCapture s else s)
      in (ret, s\<lparr>m_stopping := False\<rparr>))"

definition ffmpeg_mux_stop :: "nat \<Rightarrow> ffmpeg_muxer \<Rightarrow> ffmpeg_muxer" where
  "ffmpeg_mux_stop ts s =
     (if capturing s \<or> ts = 0
      then s\<lparr>stop_ts := int ts div 1000, m_stopping := True, capturing := False\<rparr> else s)"

definition signal_failure :: "mux_env \<Rightarrow> ffmpeg_muxer \<Rightarrow> ffmpeg_muxer" where
  "signal_failure env s =
     (let (ret, s) = deactivate env 0 s;
          code = (if ret = FFM_UNSUPPORTED then OBS_OUTPUT_UNSUPPORTED
                  else if is_network s then OBS_OUTPUT_DISCONNECTED
                  else OBS_OUTPUT_ENCODE_ERROR)
      in (log_call (SignalStop code) s)\<lparr>capturing := False\<rparr>)"

definition packet_info :: "ffmpeg_muxer \<Rightarrow> encoder_packet \<Rightarrow> ffm_packet_info option" where
  "packet_info s packet =
     (let info = \<lparr>fi_pts = pts packet, fi_dts = dts packet, fi_size = of_nat (psize packet),
                  fi_index = of_nat (track_idx packet),
                  fi_type = (if ptype packet = OBS_ENCODER_VIDEO then FFM_PACKET_VIDEO
                             else FFM_PACKET_AUDIO),
                  fi_keyframe = keyframe packet\<rparr> in
      if split_file s then
        if ptype packet = OBS_ENCODER_VIDEO then
          Some (info\<lparr>fi_dts := fi_dts info - video_pts_offset s,
                     fi_pts := fi_pts info - video_pts_offset s\<rparr>)
        else if unat (fi_index info) < MAX_AUDIO_MIXES then
          Some (info\<lparr>fi_dts := fi_dts info - audio_dts_offsets s (unat (fi_index info)),
                     fi_pts := fi_pts info - audio_dts_offsets s (unat (fi_index info))\<rparr>)
        else None
      else Some info)"

definition write_packet_bytes ::
    "mux_env \<Rightarrow> encoder_packet \<Rightarrow> 8 word list \<Rightarrow> ffmpeg_muxer \<Rightarrow> (bool \<times> ffmpeg_muxer) option" where
  "write_packet_bytes env packet bs s =
     do { info \<leftarrow> packet_info s packet;
          let (ok, s) = pipe_write env (Info info) s in
          if \<not> ok then Some (False, signal_failure env s)
          else let (ok, s) = pipe_write env (Data bs) s in
          if \<not> ok then Some (False, signal_failure env s)
          else Some (True, s\<lparr>total_bytes := total_bytes s + psize packet,
                             cur_size := (if split_file s then cur_size s + int (psize packet)
                                          else cur_size s)\<rparr>) }"

definition write_packet ::
    "mux_env \<Rightarrow> encoder_packet \<Rightarrow> ffmpeg_muxer \<Rightarrow> (bool \<times> ffmpeg_muxer) option" where
  "write_packet env packet s =
     do { bs \<leftarrow> payload_bytes (mem s) packet; write_packet_bytes env packet bs s }"

definition send_audio_headers ::
    "mux_env \<Rightarrow> 8 word list option \<Rightarrow> nat \<Rightarrow> ffmpeg_muxer \<Rightarrow> (bool \<times> ffmpeg_muxer) option" where
  "send_audio_headers env extra idx s =
     (case extra of None \<Rightarrow> Some (False, s)
      | Some bs \<Rightarrow> write_packet_bytes env
          (packet_zero\<lparr>ptype := OBS_ENCODER_AUDIO, timebase_den := 1, track_idx := idx,
                       psize := length bs\<rparr>) bs s)"

definition send_video_headers :: "mux_env \<Rightarrow> ffmpeg_muxer \<Rightarrow> (bool \<times> ffmpeg_muxer) option" where
  "send_video_headers env s =
     (case venc_extra env of None \<Rightarrow> Some (False, s)
      | Some bs \<Rightarrow> write_packet_bytes env
          (packet_zero\<lparr>ptype := OBS_ENCODER_VIDEO, timebase_den := 1, psize := length bs\<rparr>) bs s)"

text \<open>
  The loop over the audio encoders ends at the first empty slot; the output has
  \<open>MAX_AUDIO_MIXES\<close> slots and answers NULL for a larger index.
\<close>

function send_audio_loop ::
    "mux_env \<Rightarrow> nat \<Rightarrow> ffmpeg_muxer \<Rightarrow> (bool \<times> ffmpeg_muxer) option" where
  "send_audio_loop env idx s =
     (if idx < MAX_AUDIO_MIXES then
        case aenc_extra env idx of
          None \<Rightarrow> Some (True, s)
        | Some extra \<Rightarrow>
            do { (ok, s) \<leftarrow> send_audio_headers env extra idx s;
                 if \<not> ok then Some (False, s) else send_audio_loop env (Suc idx) s }
      else Some (True, s))"
  by pat_completeness auto
termination
  by (relation "measure (\<lambda>(env, idx, s). MAX_AUDIO_MIXES - idx)") auto

declare send_audio_loop.simps [simp del]

definition send_headers :: "mux_env \<Rightarrow> ffmpeg_muxer \<Rightarrow> (bool \<times> ffmpeg_muxer) option" where
  "send_headers env s =
     do { (ok, s) \<leftarrow> send_video_headers env s;
          if \<not> ok then Some (False, s) else send_audio_loop env 0 s }"

subsection \<open>Splitting the recording\<close>

definition ts_offset_clear :: "ffmpeg_muxer \<Rightarrow> ffmpeg_muxer" where
  "ts_offset_clear s =
     s\<lparr>found_video := False, video_pts_offset := 0,
       found_audio := (\<lambda>i. if i < MAX_AUDIO_MIXES then False else found_audio s i),
       audio_dts_offsets := (\<lambda>i. if i < MAX_AUDIO_MIXES then 0 else audio_dts_offsets s i)\<rparr>"

definition packet_pts_usec :: "encoder_packet \<Rightarrow> int option" where
  "packet_pts_usec p =
     (if timebase_den p = 0 then None else Some ((pts p * 1000000) sdiv timebase_den p))"

definition ts_offset_update :: "encoder_packet \<Rightarrow> ffmpeg_muxer \<Rightarrow> ffmpeg_muxer option" where
  "ts_offset_update packet s =
     (if ptype packet = OBS_ENCODER_VIDEO then
        Some (if \<not> found_video s then s\<lparr>video_pts_offset := pts packet, found_video := True\<rparr> else s)
      else if \<not> track_idx packet < MAX_AUDIO_MIXES then None
      else if found_audio s (track_idx packet) then Some s
      else Some (s\<lparr>audio_dts_offsets := (audio_dts_offsets s)(track_idx packet := dts packet),
                   found_audio := (found_audio s)(track_idx packet := True)\<rparr>))"

definition should_split :: "encoder_packet \<Rightarrow> ffmpeg_muxer \<Rightarrow> bool" where
  "should_split packet s =
     (if ptype packet \<noteq> OBS_ENCODER_VIDEO then False
      else if \<not> keyframe packet then False
      else if manual_split s then True
      else if max_size s > 0 \<and> cur_size s + int (psize packet) \<ge> max_size s then True
      else if max_time s > 0 \<and> dts_usec packet - cur_time s \<ge> max_time s then True
      else False)"

definition send_new_filename :: "mux_env \<Rightarrow> string \<Rightarrow> ffmpeg_muxer \<Rightarrow> bool \<times> ffmpeg_muxer" where
  "send_new_filename env fname s =
     (let info = \<lparr>fi_pts = 0, fi_dts = 0, fi_size = of_nat (length fname), fi_index = 0,
                  fi_type = FFM_PACKET_CHANGE_FILE, fi_keyframe = False\<rparr>;
          (ok, s) = pipe_write env (Info info) s in
      if \<not> ok then (False, signal_failure env s)
      else let (ok, s) = pipe_write env (FileName fname) s in
      if \<not> ok then (False, signal_failure env s) else (True, s))"

definition prepare_split_file ::
    "mux_env \<Rightarrow> encoder_packet \<Rightarrow> ffmpeg_muxer \<Rightarrow> (bool \<times> ffmpeg_muxer) option" where
  "prepare_split_file env packet s =
     (let s = s\<lparr>m_path := new_name env\<rparr>;
          (ok, s) = send_new_filename env (m_path s) s in
      if \<not> ok then Some (False, s)
      else let s = log_call (FileChanged (m_path s)) s in
        do { (ok, s) \<leftarrow> send_headers env s;
             if \<not> ok then Some (False, s)
             else Some (True, ts_offset_clear (s\<lparr>cur_size := 0, cur_time := dts_usec packet\<rparr>)) })"

definition push_back_packet :: "encoder_packet \<Rightarrow> ffmpeg_muxer \<Rightarrow> ffmpeg_muxer option" where
  "push_back_packet packet s =
     do { h \<leftarrow> obs_encoder_packet_ref (mem s) packet;
          Some (s\<lparr>mem := h, mux_packets := mux_packets s @ [packet]\<rparr>) }"

text \<open>One round of the loop that writes and releases the buffered packets.\<close>

definition flush_packet :: "mux_env \<Rightarrow> ffmpeg_muxer \<Rightarrow> encoder_packet \<Rightarrow> ffmpeg_muxer option" where
  "flush_packet env s pkt =
     do { s \<leftarrow> ts_offset_update pkt s;
          (_, s) \<leftarrow> write_packet env pkt s;
          h \<leftarrow> release_packet (mem s) pkt;
          Some (s\<lparr>mem := h\<rparr>) }"

definition mux_packet_tail ::
    "mux_env \<Rightarrow> encoder_packet \<Rightarrow> ffmpeg_muxer \<Rightarrow> ffmpeg_muxer option" where
  "mux_packet_tail env packet s =
     do { (ok, s) \<leftarrow> (if \<not> sent_headers s then
                        do { (ok, s) \<leftarrow> send_headers env s;
                             if \<not> ok then Some (False, s)
                             else Some (True, s\<lparr>sent_headers := True,
                                    cur_time := (if split_file s then dts_usec packet
                                                 else cur_time s)\<rparr>) }
                      else Some (True, s));
          if \<not> ok then Some s
          else if m_stopping s \<and> sys_dts_usec packet \<ge> stop_ts s then Some (snd (deactivate env 0 s))
          else do {
            s \<leftarrow> (if split_file s \<and> split_file_ready s then
                     do { s \<leftarrow> opt_fold (flush_packet env) s (mux_packets s);
                          Some (s\<lparr>mux_packets := [], split_file_ready := False,
                                  manual_split := False\<rparr>) }
                   else Some s);
            s \<leftarrow> (if split_file s then ts_offset_update packet s else Some s);
            (_, s) \<leftarrow> write_packet env packet s;
            Some s } }"

definition has_audio :: "mux_env \<Rightarrow> bool" where
  "has_audio env = (aenc_extra env 0 \<noteq> None)"

definition ffmpeg_mux_data ::
    "mux_env \<Rightarrow> encoder_packet option \<Rightarrow> ffmpeg_muxer \<Rightarrow> ffmpeg_muxer option" where
  "ffmpeg_mux_data env pkt s =
     (if \<not> m_active s then Some s
      else case pkt of
        None \<Rightarrow> Some (snd (deactivate env OBS_OUTPUT_ENCODE_ERROR s))
      | Some packet \<Rightarrow>
          (if split_file s \<and> mux_packets s \<noteq> [] then
             do { pts_usec \<leftarrow> packet_pts_usec packet;
                  let first_pkt = hd (mux_packets s);
                  first_pts_usec \<leftarrow> packet_pts_usec first_pkt;
                  if pts_usec \<ge> first_pts_usec then
                    if ptype packet \<noteq> OBS_ENCODER_AUDIO then push_back_packet packet s
                    else do { (ok, s) \<leftarrow> prepare_split_file env first_pkt s;
                              if \<not> ok then Some s
                              else mux_packet_tail env packet (s\<lparr>split_file_ready := True\<rparr>) }
                  else mux_packet_tail env packet s }
           else if split_file s \<and> should_split packet s then
             if has_audio env then push_back_packet packet s
             else do { (ok, s) \<leftarrow> prepare_split_file env packet s;
                       if \<not> ok then Some s
                       else mux_packet_tail env packet (s\<lparr>split_file_ready := True\<rparr>) }
           else mux_packet_tail env packet s))"

subsection \<open>Starting, and asking for a split\<close>

definition split_file_proc :: "ffmpeg_muxer \<Rightarrow> bool \<times> ffmpeg_muxer" where
  "split_file_proc s =
     (if \<not> split_file s then (split_file s, s) else (split_file s, s\<lparr>manual_split := True\<rparr>))"

text \<open>
  What the host answers when a recording starts: \<open>st_service\<close> is the network service's URL
  (\<open>None\<close>: there is no service), \<open>st_writable\<close> whether the test file could be opened.
\<close>

record mux_settings =
  st_path :: string
  st_can_begin :: bool
  st_init_ok :: bool
  st_service :: "string option"
  st_max_time_sec :: int
  st_max_size_mb :: int
  st_split_file :: bool
  st_allow_overwrite :: bool
  st_writable :: bool

definition start_pipe :: "mux_env \<Rightarrow> string \<Rightarrow> ffmpeg_muxer \<Rightarrow> ffmpeg_muxer" where
  "start_pipe env path s = s\<lparr>m_path := path, m_pipe := pipe_starts env\<rparr>"

definition start_config :: "mux_settings \<Rightarrow> ffmpeg_muxer \<Rightarrow> (string \<times> ffmpeg_muxer) option" where
  "start_config st s =
     (if is_network s then map_option (\<lambda>url. (url, s\<lparr>split_file := False\<rparr>)) (st_service st)
      else Some (st_path st,
        s\<lparr>max_time := st_max_time_sec st * 1000000, max_size := st_max_size_mb st * (1024 * 1024),
          split_file := st_split_file st, allow_overwrite := st_allow_overwrite st,
          cur_size := 0, sent_headers := False\<rparr>))"

definition ffmpeg_mux_start_internal ::
    "mux_settings \<Rightarrow> mux_env \<Rightarrow> ffmpeg_muxer \<Rightarrow> bool \<times> ffmpeg_muxer" where
  "ffmpeg_mux_start_internal st env s =
     (if \<not> st_can_begin st then (False, s)
      else if \<not> st_init_ok st then (False, s)
      else case start_config st s of
        None \<Rightarrow> (False, s)
      | Some (path, s) \<Rightarrow>
          (let s = ts_offset_clear s in
           if \<not> is_network s \<and> \<not> st_writable st then (False, s)
           else let s = start_pipe env path s in
           if \<not> m_pipe s then (False, s)
           else (True, log_call BeginDataCapture
                  (s\<lparr>m_active := True, capturing := True, m_stopping := False, total_bytes := 0\<rparr>))))"

lemma start_internal_mux_packets [simp]:
  "mux_packets (snd (ffmpeg_mux_start_internal st env s)) = mux_packets s"
  by (simp add: ffmpeg_mux_start_internal_def start_config_def start_pipe_def ts_offset_clear_def
        Let_def split: option.splits)

subsection \<open>What writing leaves alone\<close>

definition write_frame :: "ffmpeg_muxer \<Rightarrow> ffmpeg_muxer \<Rightarrow> bool" where
  "write_frame s s' \<longleftrightarrow>
     mem s' = mem s \<and> mux_packets s' = mux_packets s \<and> packets s' = packets s \<and>
     split_file s' = split_file s \<and> muxing s' = muxing s \<and> max_size s' = max_size s \<and>
     max_time s' = max_time s \<and> split_file_ready s' = split_file_ready s \<and>
     video_pts_offset s' = video_pts_offset s \<and> audio_dts_offsets s' = audio_dts_offsets s \<and>
     found_video s' = found_video s \<and> found_audio s' = found_audio s \<and>
     m_path s' = m_path s \<and> stop_ts s' = stop_ts s \<and> save_ts s' = save_ts s \<and>
     keyframes s' = keyframes s \<and> cur_time s' = cur_time s"

lemma write_frame_refl [simp]: "write_frame s s" by (simp add: write_frame_def)

lemma write_frame_trans [trans]: "write_frame s t \<Longrightarrow> write_frame t u \<Longrightarrow> write_frame s u"
  by (simp add: write_frame_def)

lemma write_frame_sel:
  assumes "write_frame s s'"
  shows "mem s' = mem s" "mux_packets s' = mux_packets s" "packets s' = packets s"
    "split_file s' = split_file s" "video_pts_offset s' = video_pts_offset s"
    "audio_dts_offsets s' = audio_dts_offsets s" "found_video s' = found_video s"
    "found_audio s' = found_audio s" "split_file_ready s' = split_file_ready s"
    "muxing s' = muxing s" "stop_ts s' = stop_ts s"
  using assms by (simp_all add: write_frame_def)

lemma pipe_write_frame: "pipe_write env f s = (b, s') \<Longrightarrow> write_frame s s'"
  by (auto simp: pipe_write_def Let_def write_frame_def)

lemma deactivate_frame: "deactivate env c s = (r, s') \<Longrightarrow> write_frame s s'"
  by (auto simp: deactivate_def Let_def write_frame_def split: if_splits)

lemma signal_failure_frame: "write_frame s (signal_failure env s)"
proof -
  obtain r t where d: "deactivate env 0 s = (r, t)" by fastforce
  show ?thesis using deactivate_frame [OF d]
    by (simp add: signal_failure_def d Let_def write_frame_def)
qed

lemma write_packet_bytes_frame:
  assumes "write_packet_bytes env p bs s = Some (b, s')"
  shows "write_frame s s'"
proof -
  obtain info where i: "packet_info s p = Some info"
    using assms by (auto simp: write_packet_bytes_def bind_eq_Some_conv)
  obtain b1 s1 where 1: "pipe_write env (Info info) s = (b1, s1)" by fastforce
  obtain b2 s2 where 2: "pipe_write env (Data bs) s1 = (b2, s2)" by fastforce
  have f1: "write_frame s s1" and f2: "write_frame s s2"
    using pipe_write_frame [OF 1] pipe_write_frame [OF 2] write_frame_trans by blast+
  consider (a) "\<not> b1" "s' = signal_failure env s1" | (b) "b1" "\<not> b2" "s' = signal_failure env s2"
    | (c) "b1" "b2" "s' = s2\<lparr>total_bytes := total_bytes s2 + psize p,
                             cur_size := (if split_file s2 then cur_size s2 + int (psize p)
                                          else cur_size s2)\<rparr>"
    using assms by (cases b1; cases b2) (simp_all add: write_packet_bytes_def i 1 2)
  then show ?thesis
  proof cases
    case a
    then show ?thesis using write_frame_trans [OF f1 signal_failure_frame] by simp
  next
    case b
    then show ?thesis using write_frame_trans [OF f2 signal_failure_frame] by simp
  next
    case c
    then show ?thesis using f2 by (simp add: write_frame_def)
  qed
qed

lemma write_packet_bytes_returns:
  "packet_info s p \<noteq> None \<Longrightarrow> \<exists>b s'. write_packet_bytes env p bs s = Some (b, s')"
  by (auto simp: write_packet_bytes_def split: prod.splits)

lemma packet_info_returns: "track_idx p < MAX_AUDIO_MIXES \<Longrightarrow> packet_info s p \<noteq> None"
  by (simp add: packet_info_def Let_def unat_of_nat MAX_AUDIO_MIXES_def take_bit_nat_eq_self)

lemma write_packet_frame: "write_packet env p s = Some (b, s') \<Longrightarrow> write_frame s s'"
  by (auto simp: write_packet_def bind_eq_Some_conv dest: write_packet_bytes_frame)

lemma write_packet_returns:
  assumes "payload_bytes (mem s) p \<noteq> None" "track_idx p < MAX_AUDIO_MIXES"
  shows "\<exists>b s'. write_packet env p s = Some (b, s') \<and> write_frame s s'"
proof -
  obtain bs where "payload_bytes (mem s) p = Some bs" using assms(1) by auto
  moreover obtain b s' where "write_packet_bytes env p bs s = Some (b, s')"
    using write_packet_bytes_returns [OF packet_info_returns [OF assms(2)]] by blast
  ultimately have "write_packet env p s = Some (b, s')" by (simp add: write_packet_def)
  then show ?thesis using write_packet_frame by blast
qed

lemma send_audio_loop_frame:
  "\<exists>b s'. send_audio_loop env idx s = Some (b, s') \<and> write_frame s s'"
proof (induction env idx s rule: send_audio_loop.induct)
  case (1 env idx s)
  show ?case
  proof (cases "idx < MAX_AUDIO_MIXES")
    case False
    then show ?thesis by (subst send_audio_loop.simps) auto
  next
    case True
    show ?thesis
    proof (cases "aenc_extra env idx")
      case None
      then show ?thesis using True by (subst send_audio_loop.simps) auto
    next
      case (Some extra)
      obtain b s1 where s1: "send_audio_headers env extra idx s = Some (b, s1)" "write_frame s s1"
      proof (cases extra)
        case None
        then show ?thesis using that [of False s] by (simp add: send_audio_headers_def)
      next
        case bs: (Some bs)
        let ?p = "packet_zero\<lparr>ptype := OBS_ENCODER_AUDIO, timebase_den := 1, track_idx := idx,
                       psize := length bs\<rparr>"
        obtain b s1 where "write_packet_bytes env ?p bs s = Some (b, s1)"
          using write_packet_bytes_returns [OF packet_info_returns [of ?p s], of env bs] True by auto
        then show ?thesis using that bs write_packet_bytes_frame
          by (fastforce simp: send_audio_headers_def)
      qed
      show ?thesis
      proof (cases b)
        case False
        then show ?thesis using True Some s1 by (subst send_audio_loop.simps) simp
      next
        case b: True
        obtain c s2 where "send_audio_loop env (Suc idx) s1 = Some (c, s2)" "write_frame s1 s2"
          using 1 [OF True Some s1(1) refl] b by auto
        then show ?thesis using True Some s1 b write_frame_trans [OF s1(2)]
          by (subst send_audio_loop.simps) simp
      qed
    qed
  qed
qed

lemma send_headers_frame: "\<exists>b s'. send_headers env s = Some (b, s') \<and> write_frame s s'"
proof -
  have "\<exists>b s1. send_video_headers env s = Some (b, s1) \<and> write_frame s s1"
  proof (cases "venc_extra env")
    case None
    then show ?thesis by (auto simp: send_video_headers_def)
  next
    case bs: (Some bs)
    let ?p = "packet_zero\<lparr>ptype := OBS_ENCODER_VIDEO, timebase_den := 1, psize := length bs\<rparr>"
    obtain b s1 where "write_packet_bytes env ?p bs s = Some (b, s1)"
      using write_packet_bytes_returns [OF packet_info_returns [of ?p s], of env bs]
      by (auto simp: packet_zero_def MAX_AUDIO_MIXES_def)
    then show ?thesis using bs write_packet_bytes_frame by (fastforce simp: send_video_headers_def)
  qed
  then obtain b s1 where s1: "send_video_headers env s = Some (b, s1)" "write_frame s s1" by blast
  obtain c s2 where s2: "send_audio_loop env 0 s1 = Some (c, s2)" "write_frame s1 s2"
    using send_audio_loop_frame by blast
  show ?thesis using s1 s2 write_frame_trans [OF s1(2) s2(2)]
    by (cases b) (simp_all add: send_headers_def)
qed

lemma send_new_filename_frame: "send_new_filename env f s = (b, s') \<Longrightarrow> write_frame s s'"
proof -
  assume a: "send_new_filename env f s = (b, s')"
  let ?info = "\<lparr>fi_pts = 0, fi_dts = 0, fi_size = of_nat (length f), fi_index = 0,
                  fi_type = FFM_PACKET_CHANGE_FILE, fi_keyframe = False\<rparr>"
  obtain b1 s1 where 1: "pipe_write env (Info ?info) s = (b1, s1)" by fastforce
  obtain b2 s2 where 2: "pipe_write env (FileName f) s1 = (b2, s2)" by fastforce
  have f1: "write_frame s s1" and f2: "write_frame s s2"
    using pipe_write_frame [OF 1] pipe_write_frame [OF 2] write_frame_trans by blast+
  have "s' = signal_failure env s1 \<or> s' = signal_failure env s2 \<or> s' = s2"
    using a 1 2 by (cases b1; cases b2) (simp_all add: send_new_filename_def)
  then show ?thesis
    using f2 write_frame_trans [OF f1 signal_failure_frame] write_frame_trans [OF f2 signal_failure_frame]
    by metis
qed

subsection \<open>References of the packets held back for a split\<close>

definition mux_pkt_ok :: "heap \<Rightarrow> encoder_packet \<Rightarrow> bool" where
  "mux_pkt_ok h p \<longleftrightarrow> track_idx p < MAX_AUDIO_MIXES \<and> timebase_den p \<noteq> 0 \<and>
     payload_bytes h p \<noteq> None"

definition mux_inv :: "ffmpeg_muxer \<Rightarrow> bool" where
  "mux_inv s \<longleftrightarrow> heap_ok (mem s) \<and> (\<forall>a. held (mux_packets s) a \<le> refs_of (mem s) a) \<and>
     (\<forall>p \<in> set (mux_packets s). mux_pkt_ok (mem s) p)"

text \<open>Two heaps agree on the bytes of every payload that is still referenced.\<close>

definition same_bytes :: "heap \<Rightarrow> heap \<Rightarrow> bool" where
  "same_bytes h h' \<longleftrightarrow> (\<forall>a b'. payloads h' a = Some b' \<longrightarrow>
     (\<exists>b. payloads h a = Some b \<and> bytes b = bytes b'))"

lemma same_bytes_refl [simp]: "same_bytes h h" by (simp add: same_bytes_def)

lemma same_bytes_trans: "same_bytes h h1 \<Longrightarrow> same_bytes h1 h2 \<Longrightarrow> same_bytes h h2"
  unfolding same_bytes_def by metis

lemma release_same_bytes: "release_packet h p = Some h' \<Longrightarrow> same_bytes h h'"
  by (auto simp: release_packet_def obs_encoder_packet_release_def same_bytes_def
        split: option.splits if_splits)

lemma ref_same_bytes: "obs_encoder_packet_ref h p = Some h' \<Longrightarrow> same_bytes h h' \<and> same_bytes h' h"
  by (auto simp: obs_encoder_packet_ref_def same_bytes_def split: option.splits if_splits)

lemma payload_bytes_keep:
  assumes "same_bytes h h'" "heap_ok h'" "\<And>a. pdata p = Some a \<Longrightarrow> 0 < refs_of h' a"
  shows "payload_bytes h' p = payload_bytes h p"
proof (cases "pdata p")
  case (Some a)
  obtain b' where b': "payloads h' a = Some b'"
    using assms(2,3) Some refs_of_pos_iff [of h' a] by auto
  then obtain b where "payloads h a = Some b" "bytes b = bytes b'"
    using assms(1) by (auto simp: same_bytes_def)
  then show ?thesis using b' Some by (simp add: payload_bytes_def)
qed (simp add: payload_bytes_def)

lemma mux_pkt_ok_live: "heap_ok h \<Longrightarrow> mux_pkt_ok h p \<Longrightarrow> pdata p = Some a \<Longrightarrow> 0 < refs_of h a"
  using refs_of_pos_iff [of h a]
  by (auto simp: mux_pkt_ok_def payload_bytes_def bind_eq_Some_conv)

lemma held_live: "p \<in> set ps \<Longrightarrow> pdata p = Some a \<Longrightarrow> 0 < held ps a"
  by (induction ps) (auto simp: holds_ref_def add_nonneg_pos add_pos_nonneg)

lemma held_keep_ok:
  assumes "same_bytes h h'" "heap_ok h'" "\<And>a. held ps a \<le> refs_of h' a"
    and "\<forall>p \<in> set ps. mux_pkt_ok h p"
  shows "\<forall>p \<in> set ps. mux_pkt_ok h' p"
proof
  fix p assume p: "p \<in> set ps"
  have "0 < refs_of h' a" if "pdata p = Some a" for a
    using held_live [OF p that] assms(3) [of a] by linarith
  then show "mux_pkt_ok h' p"
    using assms(4) p payload_bytes_keep [OF assms(1,2)] by (simp add: mux_pkt_ok_def)
qed

lemma release_held:
  assumes "heap_ok h" "\<And>a. held (p # ps) a \<le> refs_of h a" "\<forall>q \<in> set ps. mux_pkt_ok h q"
  shows "\<exists>h'. release_packet h p = Some h' \<and> heap_ok h' \<and> same_bytes h h' \<and>
     (\<forall>a. refs_of h' a = refs_of h a - holds_ref p a) \<and> (\<forall>a. held ps a \<le> refs_of h' a) \<and>
     (\<forall>q \<in> set ps. mux_pkt_ok h' q)"
proof -
  have le: "holds_ref p a + held ps a \<le> refs_of h a" for a using assms(2) [of a] by simp
  have "holds_ref p a \<le> refs_of h a" for a
    using le [of a] held_nonneg [of ps a] by linarith
  then obtain h' where h': "release_packet h p = Some h'" "heap_ok h'"
    "\<And>a. refs_of h' a = refs_of h a - holds_ref p a"
    using payload_refs.release_ok [OF assms(1)] by blast
  have le': "held ps a \<le> refs_of h' a" for a using le [of a] h'(3) [of a] by simp
  have sb: "same_bytes h h'" using release_same_bytes [OF h'(1)] .
  show ?thesis using h' le' sb held_keep_ok [OF sb h'(2) le' assms(3)] by blast
qed

subsection \<open>The step that writes the held-back packets\<close>

lemma ts_offset_update_returns:
  assumes "track_idx p < MAX_AUDIO_MIXES"
  shows "\<exists>s'. ts_offset_update p s = Some s' \<and> mem s' = mem s \<and> mux_packets s' = mux_packets s \<and>
     split_file s' = split_file s \<and> split_file_ready s' = split_file_ready s"
  using assms by (auto simp: ts_offset_update_def)

lemma flush_packet_spec:
  assumes "heap_ok (mem s)" "\<And>a. held (p # ps) a \<le> refs_of (mem s) a"
    and "\<forall>q \<in> set (p # ps). mux_pkt_ok (mem s) q"
  shows "\<exists>s'. flush_packet env s p = Some s' \<and> heap_ok (mem s') \<and> same_bytes (mem s) (mem s') \<and>
     (\<forall>a. refs_of (mem s') a = refs_of (mem s) a - holds_ref p a) \<and>
     (\<forall>a. held ps a \<le> refs_of (mem s') a) \<and> (\<forall>q \<in> set ps. mux_pkt_ok (mem s') q) \<and>
     split_file s' = split_file s"
proof -
  have ok: "mux_pkt_ok (mem s) p" "\<forall>q \<in> set ps. mux_pkt_ok (mem s) q" using assms(3) by auto
  obtain s1 where s1: "ts_offset_update p s = Some s1" "mem s1 = mem s" "split_file s1 = split_file s"
    using ts_offset_update_returns [of p s] ok(1) by (auto simp: mux_pkt_ok_def)
  obtain b s2 where s2: "write_packet env p s1 = Some (b, s2)" "write_frame s1 s2"
    using write_packet_returns [of s1 p env] ok(1) s1(2) by (auto simp: mux_pkt_ok_def)
  obtain h where h: "release_packet (mem s) p = Some h" "heap_ok h" "same_bytes (mem s) h"
     "\<And>a. refs_of h a = refs_of (mem s) a - holds_ref p a" "\<And>a. held ps a \<le> refs_of h a"
     "\<forall>q \<in> set ps. mux_pkt_ok h q"
    using release_held [OF assms(1,2) ok(2)] by blast
  have "flush_packet env s p = Some (s2\<lparr>mem := h\<rparr>)"
    using s1 s2(1) h(1) write_frame_sel(1) [OF s2(2)] by (simp add: flush_packet_def)
  then show ?thesis using h s1(3) write_frame_sel(4) [OF s2(2)] by simp
qed

lemma flush_all_spec:
  assumes "heap_ok (mem s)" "\<And>a. held ps a \<le> refs_of (mem s) a"
    and "\<forall>q \<in> set ps. mux_pkt_ok (mem s) q"
  shows "\<exists>s'. opt_fold (flush_packet env) s ps = Some s' \<and> heap_ok (mem s') \<and>
     same_bytes (mem s) (mem s') \<and> (\<forall>a. refs_of (mem s') a = refs_of (mem s) a - held ps a) \<and>
     split_file s' = split_file s"
  using assms
proof (induction ps arbitrary: s)
  case (Cons p ps)
  obtain s1 where s1: "flush_packet env s p = Some s1" "heap_ok (mem s1)" "same_bytes (mem s) (mem s1)"
     "\<And>a. refs_of (mem s1) a = refs_of (mem s) a - holds_ref p a"
     "\<And>a. held ps a \<le> refs_of (mem s1) a" "\<forall>q \<in> set ps. mux_pkt_ok (mem s1) q"
     "split_file s1 = split_file s"
    using flush_packet_spec [OF Cons.prems] by blast
  obtain s2 where s2: "opt_fold (flush_packet env) s1 ps = Some s2" "heap_ok (mem s2)"
     "same_bytes (mem s1) (mem s2)" "\<And>a. refs_of (mem s2) a = refs_of (mem s1) a - held ps a"
     "split_file s2 = split_file s1"
    using Cons.IH [OF s1(2,5,6)] by blast
  show ?case using s1 s2 same_bytes_trans [OF s1(3) s2(3)] by (intro exI [of _ s2]) simp
qed simp

subsection \<open>One packet of a recording\<close>

text \<open>
  What a step promises: the references held by others are untouched, the packets held back are
  exactly the ones the state still lists.
\<close>

definition mux_step :: "ffmpeg_muxer \<Rightarrow> ffmpeg_muxer \<Rightarrow> bool" where
  "mux_step s s' \<longleftrightarrow> mux_inv s' \<and> split_file s' = split_file s \<and>
     (\<forall>a. refs_of (mem s') a - held (mux_packets s') a = refs_of (mem s) a - held (mux_packets s) a)"

lemma write_frame_step: "mux_inv s \<Longrightarrow> write_frame s s' \<Longrightarrow> mux_step s s'"
  by (simp add: mux_step_def mux_inv_def write_frame_def)

lemma mux_step_trans: "mux_step s t \<Longrightarrow> mux_step t u \<Longrightarrow> mux_step s u"
  by (simp add: mux_step_def)

lemma mux_step_inv: "mux_step s t \<Longrightarrow> mux_inv t" by (simp add: mux_step_def)

lemma mux_step_cong:
  "mux_inv s \<Longrightarrow> mem s' = mem s \<Longrightarrow> mux_packets s' = mux_packets s \<Longrightarrow> split_file s' = split_file s \<Longrightarrow>
     mux_step s s'"
  by (simp add: mux_step_def mux_inv_def)

lemma push_back_packet_step:
  assumes inv: "mux_inv s" and ok: "mux_pkt_ok (mem s) p"
  shows "\<exists>s'. push_back_packet p s = Some s' \<and> mux_step s s' \<and> mux_packets s' = mux_packets s @ [p] \<and>
     m_sent s' = m_sent s"
proof -
  have hp: "heap_ok (mem s)" and le: "\<And>a. held (mux_packets s) a \<le> refs_of (mem s) a"
    and oks: "\<forall>q \<in> set (mux_packets s). mux_pkt_ok (mem s) q"
    using inv by (auto simp: mux_inv_def)
  obtain h where h: "obs_encoder_packet_ref (mem s) p = Some h" "heap_ok h"
    "\<And>a. refs_of h a = refs_of (mem s) a + holds_ref p a"
    using packet_ref_ok [OF hp mux_pkt_ok_live [OF hp ok]] by blast
  have le': "held (mux_packets s @ [p]) a \<le> refs_of h a" for a
    using le [of a] h(3) [of a] by simp
  have "\<forall>q \<in> set (mux_packets s @ [p]). mux_pkt_ok h q"
    using held_keep_ok [OF _ h(2) le'] ref_same_bytes [OF h(1)] ok oks by auto
  then have "mux_step s (s\<lparr>mem := h, mux_packets := mux_packets s @ [p]\<rparr>)"
    using h le' by (simp add: mux_step_def mux_inv_def)
  then show ?thesis using h(1) by (simp add: push_back_packet_def)
qed

lemma prepare_split_file_step:
  assumes inv: "mux_inv s"
  shows "\<exists>b s'. prepare_split_file env p s = Some (b, s') \<and> mux_step s s' \<and>
     mem s' = mem s \<and> mux_packets s' = mux_packets s"
proof -
  let ?s = "s\<lparr>m_path := new_name env\<rparr>"
  obtain b s1 where 1: "send_new_filename env (m_path ?s) ?s = (b, s1)" by fastforce
  have f1: "write_frame ?s s1" using send_new_filename_frame [OF 1] .
  have same1: "mem s1 = mem s" "mux_packets s1 = mux_packets s" "split_file s1 = split_file s"
    using f1 by (simp_all add: write_frame_def)
  show ?thesis
  proof (cases b)
    case False
    then have "prepare_split_file env p s = Some (False, s1)"
      using 1 by (simp add: prepare_split_file_def)
    then show ?thesis using same1 mux_step_cong [OF inv same1] by blast
  next
    case True
    let ?t = "log_call (FileChanged (m_path s1)) s1"
    obtain c s2 where s2: "send_headers env ?t = Some (c, s2)" "write_frame ?t s2"
      using send_headers_frame by blast
    have same2: "mem s2 = mem s" "mux_packets s2 = mux_packets s" "split_file s2 = split_file s"
      using s2(2) same1 by (simp_all add: write_frame_def)
    show ?thesis
    proof (cases c)
      case False
      then have "prepare_split_file env p s = Some (False, s2)"
        using 1 \<open>b\<close> s2(1) by (simp add: prepare_split_file_def)
      then show ?thesis using same2 mux_step_cong [OF inv same2] by blast
    next
      case True
      let ?u = "ts_offset_clear (s2\<lparr>cur_size := 0, cur_time := dts_usec p\<rparr>)"
      have same3: "mem ?u = mem s" "mux_packets ?u = mux_packets s" "split_file ?u = split_file s"
        using same2 by (simp_all add: ts_offset_clear_def)
      have "prepare_split_file env p s = Some (True, ?u)"
        using 1 \<open>b\<close> s2(1) True by (simp add: prepare_split_file_def)
      then show ?thesis using same3 mux_step_cong [OF inv same3] by blast
    qed
  qed
qed

lemma mux_packet_tail_step:
  assumes inv: "mux_inv s" and ok: "mux_pkt_ok (mem s) p"
    and live: "\<And>a. pdata p = Some a \<Longrightarrow> held (mux_packets s) a < refs_of (mem s) a"
  shows "\<exists>s'. mux_packet_tail env p s = Some s' \<and> mux_step s s'"
proof -
  have "\<exists>b s1. (if \<not> sent_headers s then
                        do { (ok, s) \<leftarrow> send_headers env s;
                             if \<not> ok then Some (False, s)
                             else Some (True, s\<lparr>sent_headers := True,
                                    cur_time := (if split_file s then dts_usec p
                                                 else cur_time s)\<rparr>) }
                      else Some (True, s)) = Some (b, s1) \<and> mem s1 = mem s \<and>
           mux_packets s1 = mux_packets s \<and> split_file s1 = split_file s \<and> mux_step s s1"
  proof (cases "sent_headers s")
    case True
    then show ?thesis using mux_step_cong [OF inv refl refl refl] by auto
  next
    case False
    obtain b t where t: "send_headers env s = Some (b, t)" "write_frame s t"
      using send_headers_frame by blast
    have same: "mem t = mem s" "mux_packets t = mux_packets s" "split_file t = split_file s"
      using t(2) by (simp_all add: write_frame_def)
    show ?thesis
    proof (cases b)
      case False
      then show ?thesis using \<open>\<not> sent_headers s\<close> t(1) same mux_step_cong [OF inv same] by auto
    next
      case True
      let ?t = "t\<lparr>sent_headers := True, cur_time := (if split_file t then dts_usec p else cur_time t)\<rparr>"
      have same': "mem ?t = mem s" "mux_packets ?t = mux_packets s" "split_file ?t = split_file s"
        using same by simp_all
      show ?thesis using \<open>\<not> sent_headers s\<close> True t(1) same' mux_step_cong [OF inv same']
        by (intro exI [of _ True] exI [of _ ?t]) simp
    qed
  qed
  then obtain b s1 where s1: "(if \<not> sent_headers s then
                        do { (ok, s) \<leftarrow> send_headers env s;
                             if \<not> ok then Some (False, s)
                             else Some (True, s\<lparr>sent_headers := True,
                                    cur_time := (if split_file s then dts_usec p
                                                 else cur_time s)\<rparr>) }
                      else Some (True, s)) = Some (b, s1)" and same1: "mem s1 = mem s"
           "mux_packets s1 = mux_packets s" "split_file s1 = split_file s" and st1: "mux_step s s1"
    by blast
  have inv1: "mux_inv s1" using mux_step_inv [OF st1] .
  obtain r t where dd: "deactivate env 0 s1 = (r, t)" by fastforce
  have dstep: "mux_step s t"
    using mux_step_trans [OF st1 write_frame_step [OF inv1 deactivate_frame [OF dd]]] .
  let ?flush = "if split_file s1 \<and> split_file_ready s1 then
                     do { s \<leftarrow> opt_fold (flush_packet env) s1 (mux_packets s1);
                          Some (s\<lparr>mux_packets := [], split_file_ready := False,
                                  manual_split := False\<rparr>) }
                   else Some s1"
  have "\<exists>s2. ?flush = Some s2 \<and> mux_step s1 s2 \<and> mux_pkt_ok (mem s2) p"
  proof (cases "split_file s1 \<and> split_file_ready s1")
    case False
    then show ?thesis using mux_step_cong [OF inv1 refl refl refl] ok same1 by auto
  next
    case True
    obtain s2 where s2: "opt_fold (flush_packet env) s1 (mux_packets s1) = Some s2"
      "heap_ok (mem s2)" "same_bytes (mem s1) (mem s2)"
      "\<And>a. refs_of (mem s2) a = refs_of (mem s1) a - held (mux_packets s1) a"
      "split_file s2 = split_file s1"
      using flush_all_spec [of s1 "mux_packets s1" env] inv1 by (auto simp: mux_inv_def)
    let ?u = "s2\<lparr>mux_packets := [], split_file_ready := False, manual_split := False\<rparr>"
    have "0 < refs_of (mem s2) a" if "pdata p = Some a" for a
      using live [OF that] s2(4) [of a] same1 by simp
    then have "mux_pkt_ok (mem s2) p"
      using payload_bytes_keep [OF s2(3,2)] ok same1 by (simp add: mux_pkt_ok_def)
    moreover have "0 \<le> refs_of (mem s2) a" for a using refs_of_nonneg [OF s2(2)] .
    then have "mux_step s1 ?u" using s2 by (simp add: mux_step_def mux_inv_def)
    ultimately show ?thesis using True s2(1) by simp
  qed
  then obtain s2 where s2: "?flush = Some s2" "mux_step s1 s2" "mux_pkt_ok (mem s2) p" by blast
  have trk: "track_idx p < MAX_AUDIO_MIXES" and pb: "payload_bytes (mem s2) p \<noteq> None"
    using s2(3) by (auto simp: mux_pkt_ok_def)
  have "\<exists>s3. (if split_file s2 then ts_offset_update p s2 else Some s2) = Some s3 \<and>
     mem s3 = mem s2 \<and> mux_packets s3 = mux_packets s2 \<and> split_file s3 = split_file s2"
    using ts_offset_update_returns [OF trk] by auto
  then obtain s3 where s3: "(if split_file s2 then ts_offset_update p s2 else Some s2) = Some s3"
     "mem s3 = mem s2" "mux_packets s3 = mux_packets s2" "split_file s3 = split_file s2" by blast
  have st3: "mux_step s s3"
    using mux_step_trans [OF st1 mux_step_trans [OF s2(2) mux_step_cong [OF mux_step_inv [OF s2(2)] s3(2-4)]]] .
  obtain c s4 where s4: "write_packet env p s3 = Some (c, s4)" "write_frame s3 s4"
    using write_packet_returns [of s3 p env] pb trk s3(2) by auto
  have st4: "mux_step s s4" using mux_step_trans [OF st3 write_frame_step [OF mux_step_inv [OF st3] s4(2)]] .
  show ?thesis
  proof (cases b)
    case False
    then show ?thesis using s1 st1 unfolding mux_packet_tail_def by simp
  next
    case True
    show ?thesis
    proof (cases "m_stopping s1 \<and> sys_dts_usec p \<ge> stop_ts s1")
      case stop: True
      have "mux_packet_tail env p s = Some t"
        unfolding mux_packet_tail_def s1 using True stop by (simp add: dd)
      then show ?thesis using dstep by blast
    next
      case False
      have "mux_packet_tail env p s = Some s4"
        unfolding mux_packet_tail_def s1 using True False
        by (simp only: bind.bind_lunit prod.case not_True_eq_False if_False s2(1) s3(1) s4(1))
      then show ?thesis using st4 by blast
    qed
  qed
qed

lemma split_then_tail_step:
  assumes "mux_inv s" "mux_pkt_ok (mem s) p"
    and "\<And>a. pdata p = Some a \<Longrightarrow> held (mux_packets s) a < refs_of (mem s) a"
  shows "\<exists>s'. do { (ok, s) \<leftarrow> prepare_split_file env q s;
                     if \<not> ok then Some s
                     else mux_packet_tail env p (s\<lparr>split_file_ready := True\<rparr>) } = Some s' \<and> mux_step s s'"
proof -
  obtain b t where t: "prepare_split_file env q s = Some (b, t)" "mux_step s t"
     "mem t = mem s" "mux_packets t = mux_packets s"
    using prepare_split_file_step [OF assms(1)] by blast
  let ?t = "t\<lparr>split_file_ready := True\<rparr>"
  have st: "mux_step s ?t"
    using mux_step_trans [OF t(2) mux_step_cong [OF mux_step_inv [OF t(2)], of ?t]] by simp
  obtain u where "mux_packet_tail env p ?t = Some u" "mux_step ?t u"
    using mux_packet_tail_step [OF mux_step_inv [OF st], of p env] assms(2,3) t by auto
  then show ?thesis using t(1,2) mux_step_trans [OF st] by (cases b) auto
qed

text \<open>C3: One packet handed to a recording output (\<^verbatim>\<open>ffmpeg_mux_data\<close>), whatever the helper
process answers: the call returns without touching a freed payload or dividing by zero, and it
keeps the reference counts exact.  References held outside the packets held back for a split are
what they were before, so every held-back packet is released exactly once, when it is written.\<close>
theorem ffmpeg_mux_data_refs:
  assumes "mux_inv s" "mux_pkt_ok (mem s) p"
    and "\<And>a. pdata p = Some a \<Longrightarrow> held (mux_packets s) a < refs_of (mem s) a"
  shows "\<exists>s'. ffmpeg_mux_data env (Some p) s = Some s' \<and> mux_inv s' \<and>
     (\<forall>a. refs_of (mem s') a - held (mux_packets s') a = refs_of (mem s) a - held (mux_packets s) a)"
proof -
  note split = split_then_tail_step [OF assms, of env]
  have tail: "\<exists>s'. mux_packet_tail env p s = Some s' \<and> mux_step s s'"
    using mux_packet_tail_step [OF assms(1,2)] assms(3) by blast
  have push: "\<exists>s'. push_back_packet p s = Some s' \<and> mux_step s s'"
    using push_back_packet_step [OF assms(1,2)] by blast
  have usec: "packet_pts_usec q \<noteq> None" if "mux_pkt_ok (mem s) q" for q
    using that by (simp add: mux_pkt_ok_def packet_pts_usec_def)
  have "\<exists>s'. ffmpeg_mux_data env (Some p) s = Some s' \<and> mux_step s s'"
  proof (cases "m_active s")
    case False
    then show ?thesis using mux_step_cong [OF assms(1) refl refl refl] by (auto simp: ffmpeg_mux_data_def)
  next
    case act: True
    show ?thesis
    proof (cases "split_file s \<and> mux_packets s \<noteq> []")
      case True
      have "mux_pkt_ok (mem s) (hd (mux_packets s))" using True assms(1) by (auto simp: mux_inv_def)
      then obtain t0 t1 where u: "packet_pts_usec p = Some t1" "packet_pts_usec (hd (mux_packets s)) = Some t0"
        using usec assms(2) by blast
      show ?thesis using act True u split [of "hd (mux_packets s)"] tail push
        by (simp add: ffmpeg_mux_data_def Let_def)
    next
      case False
      show ?thesis using act False split [of p] tail push by (auto simp: ffmpeg_mux_data_def)
    qed
  qed
  then show ?thesis by (auto simp: mux_step_def)
qed

subsection \<open>What a split writes\<close>

definition data_of :: "mux_frame list \<Rightarrow> 8 word list list" where
  "data_of fs = List.map_filter (\<lambda>f. case f of Data bs \<Rightarrow> Some bs | _ \<Rightarrow> None) fs"

definition audio_extra :: "mux_env \<Rightarrow> nat \<Rightarrow> 8 word list list" where
  "audio_extra env i =
     List.map_filter (\<lambda>j. Option.bind (aenc_extra env j) (\<lambda>e. e))
       (takeWhile (\<lambda>j. aenc_extra env j \<noteq> None) [i..<MAX_AUDIO_MIXES])"

text \<open>Every write succeeds and every encoder has its header.\<close>

definition smooth :: "mux_env \<Rightarrow> bool" where
  "smooth env \<longleftrightarrow> (\<forall>k. write_ok env k) \<and> venc_extra env \<noteq> None \<and>
     (\<forall>j < MAX_AUDIO_MIXES. aenc_extra env j \<noteq> Some None)"

lemma data_of_simps [simp]:
  "data_of [] = []" "data_of (xs @ ys) = data_of xs @ data_of ys"
  "data_of [Info i] = []" "data_of [Data bs] = [bs]" "data_of [FileName f] = []"
  "data_of [Info i, Data bs] = [bs]" "data_of [Info i, FileName f] = []"
  by (simp_all add: data_of_def List.map_filter_def)

definition sent_data :: "8 word list list \<Rightarrow> ffmpeg_muxer \<Rightarrow> ffmpeg_muxer \<Rightarrow> bool" where
  "sent_data ds s s' \<longleftrightarrow> m_pipe s' \<and> data_of (m_sent s') = data_of (m_sent s) @ ds \<and>
     sent_headers s' = sent_headers s \<and> m_stopping s' = m_stopping s \<and> stop_ts s' = stop_ts s"

lemma sent_data_trans: "sent_data xs s t \<Longrightarrow> sent_data ys t u \<Longrightarrow> sent_data (xs @ ys) s u"
  by (simp add: sent_data_def)

lemma sent_data_pipe: "sent_data xs s t \<Longrightarrow> m_pipe t" by (simp add: sent_data_def)

lemma write_packet_bytes_smooth:
  assumes "smooth env" "m_pipe s" "track_idx p < MAX_AUDIO_MIXES"
  shows "\<exists>s'. write_packet_bytes env p bs s = Some (True, s') \<and> sent_data [bs] s s'"
proof -
  obtain i where i: "packet_info s p = Some i" using packet_info_returns [OF assms(3)] by auto
  show ?thesis using assms(1,2)
    by (simp add: write_packet_bytes_def i pipe_write_def Let_def smooth_def sent_data_def)
qed

lemma write_packet_smooth:
  assumes "smooth env" "m_pipe s" "track_idx p < MAX_AUDIO_MIXES" "payload_bytes (mem s) p = Some bs"
  shows "\<exists>s'. write_packet env p s = Some (True, s') \<and> sent_data [bs] s s' \<and> write_frame s s'"
proof -
  obtain s' where "write_packet_bytes env p bs s = Some (True, s')" "sent_data [bs] s s'"
    using write_packet_bytes_smooth [OF assms(1-3)] by blast
  then have "write_packet env p s = Some (True, s')" "sent_data [bs] s s'"
    using assms(4) by (simp_all add: write_packet_def)
  then show ?thesis using write_packet_frame by blast
qed

lemma audio_extra_step:
  "i < MAX_AUDIO_MIXES \<Longrightarrow> aenc_extra env i = Some (Some bs) \<Longrightarrow> audio_extra env i = bs # audio_extra env (Suc i)"
  "aenc_extra env i = None \<or> \<not> i < MAX_AUDIO_MIXES \<Longrightarrow> audio_extra env i = []"
  by (auto simp: audio_extra_def upt_conv_Cons List.map_filter_def)
     (cases "i < MAX_AUDIO_MIXES"; simp add: upt_conv_Cons)

lemma send_audio_loop_smooth:
  "smooth env \<Longrightarrow> m_pipe s \<Longrightarrow>
     \<exists>s'. send_audio_loop env idx s = Some (True, s') \<and> sent_data (audio_extra env idx) s s'"
proof (induction env idx s rule: send_audio_loop.induct)
  case (1 env idx s)
  show ?case
  proof (cases "idx < MAX_AUDIO_MIXES \<and> aenc_extra env idx \<noteq> None")
    case False
    then have "send_audio_loop env idx s = Some (True, s)"
      by (subst send_audio_loop.simps) auto
    then show ?thesis using False audio_extra_step(2) [of env idx] "1.prems"(2)
      by (auto simp: sent_data_def)
  next
    case True
    then obtain e where e: "aenc_extra env idx = Some e" by auto
    then obtain bs where bs: "aenc_extra env idx = Some (Some bs)"
      using "1.prems"(1) True by (cases e) (auto simp: smooth_def)
    let ?p = "packet_zero\<lparr>ptype := OBS_ENCODER_AUDIO, timebase_den := 1, track_idx := idx,
                       psize := length bs\<rparr>"
    obtain s1 where s1: "write_packet_bytes env ?p bs s = Some (True, s1)" "sent_data [bs] s s1"
      using write_packet_bytes_smooth [OF "1.prems", of ?p bs] True by auto
    then have h: "send_audio_headers env (Some bs) idx s = Some (True, s1)"
      by (simp add: send_audio_headers_def)
    obtain s2 where s2: "send_audio_loop env (Suc idx) s1 = Some (True, s2)"
       "sent_data (audio_extra env (Suc idx)) s1 s2"
      using "1.IH" [OF _ bs h refl] True "1.prems"(1) sent_data_pipe [OF s1(2)] by auto
    have "send_audio_loop env idx s = Some (True, s2)"
      using True bs h s2(1) by (subst send_audio_loop.simps) simp
    then show ?thesis
      using sent_data_trans [OF s1(2) s2(2)] audio_extra_step(1) [OF _ bs] True by auto
  qed
qed

lemma send_headers_smooth:
  assumes "smooth env" "m_pipe s" "venc_extra env = Some bs"
  shows "\<exists>s'. send_headers env s = Some (True, s') \<and> sent_data (bs # audio_extra env 0) s s' \<and>
     write_frame s s'"
proof -
  let ?p = "packet_zero\<lparr>ptype := OBS_ENCODER_VIDEO, timebase_den := 1, psize := length bs\<rparr>"
  obtain s1 where s1: "write_packet_bytes env ?p bs s = Some (True, s1)" "sent_data [bs] s s1"
    using write_packet_bytes_smooth [OF assms(1,2), of ?p bs]
    by (auto simp: packet_zero_def MAX_AUDIO_MIXES_def)
  obtain s2 where s2: "send_audio_loop env 0 s1 = Some (True, s2)" "sent_data (audio_extra env 0) s1 s2"
    using send_audio_loop_smooth [OF assms(1) sent_data_pipe [OF s1(2)]] by blast
  have "send_headers env s = Some (True, s2)"
    using assms(3) s1(1) s2(1) by (simp add: send_headers_def send_video_headers_def)
  moreover have "write_frame s s2" using calculation send_headers_frame [of env s] by auto
  ultimately show ?thesis using sent_data_trans [OF s1(2) s2(2)] by simp
qed

lemma ts_offset_update_sent:
  "ts_offset_update p s = Some s' \<Longrightarrow> m_pipe s \<Longrightarrow> sent_data [] s s'"
  by (auto simp: ts_offset_update_def sent_data_def split: if_splits)

lemma flush_all_smooth:
  assumes "smooth env" "m_pipe s"
    and "heap_ok (mem s)" "\<And>a. held ps a \<le> refs_of (mem s) a"
    and "\<forall>q \<in> set ps. mux_pkt_ok (mem s) q"
  shows "\<exists>s'. opt_fold (flush_packet env) s ps = Some s' \<and>
     sent_data (map (\<lambda>q. the (payload_bytes (mem s) q)) ps) s s'"
  using assms
proof (induction ps arbitrary: s)
  case (Cons p ps)
  have ok: "mux_pkt_ok (mem s) p" using Cons.prems(5) by simp
  obtain s1 where s1: "flush_packet env s p = Some s1" "heap_ok (mem s1)" "same_bytes (mem s) (mem s1)"
     "\<And>a. held ps a \<le> refs_of (mem s1) a" "\<forall>q \<in> set ps. mux_pkt_ok (mem s1) q"
    using flush_packet_spec [OF Cons.prems(3-5)] by blast
  obtain t where t: "ts_offset_update p s = Some t" "mem t = mem s"
    using ts_offset_update_returns [of p s] ok by (auto simp: mux_pkt_ok_def)
  obtain bs where bs: "payload_bytes (mem t) p = Some bs" using ok t(2) by (auto simp: mux_pkt_ok_def)
  have st: "sent_data [] s t" by (rule ts_offset_update_sent [OF t(1) Cons.prems(2)])
  obtain u where u: "write_packet env p t = Some (True, u)" "sent_data [bs] t u" "write_frame t u"
    using write_packet_smooth [OF Cons.prems(1) sent_data_pipe [OF st] _ bs] ok
    by (auto simp: mux_pkt_ok_def)
  have "\<exists>h. s1 = u\<lparr>mem := h\<rparr>"
    using s1(1) t(1) u(1) by (auto simp: flush_packet_def bind_eq_Some_conv)
  then have 1: "sent_data [bs] s s1" using sent_data_trans [OF st u(2)] by (auto simp: sent_data_def)
  obtain s2 where s2: "opt_fold (flush_packet env) s1 ps = Some s2"
     "sent_data (map (\<lambda>q. the (payload_bytes (mem s1) q)) ps) s1 s2"
    using Cons.IH [OF Cons.prems(1) sent_data_pipe [OF 1] s1(2,4,5)] by blast
  have "payload_bytes (mem s1) q = payload_bytes (mem s) q" if q: "q \<in> set ps" for q
    using payload_bytes_keep [OF s1(3,2)] mux_pkt_ok_live [OF s1(2)] s1(5) q by blast
  then have eq: "map (\<lambda>q. the (payload_bytes (mem s1) q)) ps = map (\<lambda>q. the (payload_bytes (mem s) q)) ps"
    by simp
  have "sent_data (bs # map (\<lambda>q. the (payload_bytes (mem s) q)) ps) s s2"
    using sent_data_trans [OF 1 s2(2)] unfolding eq by simp
  then show ?case using s1(1) s2(1) bs t(2) by simp
qed (simp add: sent_data_def)

text \<open>The next file starts with its headers, and the packets held back are untouched.\<close>

lemma prepare_split_smooth:
  assumes sm: "smooth env" and ve: "venc_extra env = Some vhdr" and pipe: "m_pipe s"
  shows "\<exists>t. prepare_split_file env q s = Some (True, t) \<and> sent_data (vhdr # audio_extra env 0) s t \<and>
    mem t = mem s \<and> mux_packets t = mux_packets s \<and> split_file t = split_file s"
proof -
  let ?s = "s\<lparr>m_path := new_name env\<rparr>"
  obtain b s1 where 1: "send_new_filename env (m_path ?s) ?s = (b, s1)" by fastforce
  have b: b and d1: "sent_data [] s s1"
    using 1 pipe sm by (auto simp: send_new_filename_def pipe_write_def Let_def smooth_def sent_data_def)
  have f1: "write_frame ?s s1" using send_new_filename_frame [OF 1] .
  let ?t = "log_call (FileChanged (m_path s1)) s1"
  have dt: "sent_data [] s ?t" using d1 by (simp add: sent_data_def)
  obtain s2 where s2: "send_headers env ?t = Some (True, s2)"
    "sent_data (vhdr # audio_extra env 0) ?t s2" "write_frame ?t s2"
    using send_headers_smooth [OF sm _ ve, of ?t] sent_data_pipe [OF dt] by auto
  let ?u = "ts_offset_clear (s2\<lparr>cur_size := 0, cur_time := dts_usec q\<rparr>)"
  have "prepare_split_file env q s = Some (True, ?u)" using 1 b s2(1) by (simp add: prepare_split_file_def)
  moreover have "sent_data (vhdr # audio_extra env 0) s ?u"
    using sent_data_trans [OF dt s2(2)] by (simp add: sent_data_def ts_offset_clear_def)
  moreover have "mem ?u = mem s" "mux_packets ?u = mux_packets s" "split_file ?u = split_file s"
    using f1 s2(3) by (simp_all add: write_frame_def ts_offset_clear_def)
  ultimately show ?thesis by blast
qed

text \<open>With the file split, the packets held back are written, and the packet after them.\<close>

lemma flush_then_write_smooth:
  assumes sm: "smooth env" and pipe: "m_pipe s" and ready: "split_file s" "split_file_ready s" "sent_headers s" "\<not> m_stopping s"
    and inv: "mux_inv s" and ok: "mux_pkt_ok (mem s) p"
    and live: "\<And>a. pdata p = Some a \<Longrightarrow> held (mux_packets s) a < refs_of (mem s) a"
  shows "\<exists>x. mux_packet_tail env p s = Some x \<and> mux_packets x = [] \<and>
    sent_data (map (\<lambda>q. the (payload_bytes (mem s) q)) (mux_packets s) @ [the (payload_bytes (mem s) p)]) s x"
proof -
  let ?bs = "map (\<lambda>q. the (payload_bytes (mem s) q)) (mux_packets s)"
  have hok: "heap_ok (mem s)" "\<And>a. held (mux_packets s) a \<le> refs_of (mem s) a"
    "\<forall>q \<in> set (mux_packets s). mux_pkt_ok (mem s) q"
    using inv by (auto simp: mux_inv_def)
  obtain s3 where s3: "opt_fold (flush_packet env) s (mux_packets s) = Some s3" "sent_data ?bs s s3"
    using flush_all_smooth [OF sm pipe, of "mux_packets s"] hok by blast
  obtain s3' where s3': "opt_fold (flush_packet env) s (mux_packets s) = Some s3'" "heap_ok (mem s3')"
     "same_bytes (mem s) (mem s3')" "\<And>a. refs_of (mem s3') a = refs_of (mem s) a - held (mux_packets s) a"
     "split_file s3' = split_file s"
    using flush_all_spec [of s "mux_packets s" env] hok by blast
  have e: "s3' = s3" using s3(1) s3'(1) by simp
  have "0 < refs_of (mem s3) a" if "pdata p = Some a" for a using live [OF that] s3'(4) [of a] e by simp
  then have pb: "payload_bytes (mem s3) p = payload_bytes (mem s) p"
    using payload_bytes_keep [of "mem s" "mem s3" p] s3'(2,3) e by simp
  let ?v = "s3\<lparr>mux_packets := [], split_file_ready := False, manual_split := False\<rparr>"
  have trk: "track_idx p < MAX_AUDIO_MIXES" using ok by (simp add: mux_pkt_ok_def)
  obtain w where w: "ts_offset_update p ?v = Some w" "mem w = mem s3" "mux_packets w = []"
    using ts_offset_update_returns [OF trk, of ?v] by auto
  have d3: "sent_data ?bs s ?v" using s3(2) by (simp add: sent_data_def)
  have d4: "sent_data ?bs s w"
    using sent_data_trans [OF d3 ts_offset_update_sent [OF w(1) sent_data_pipe [OF d3]]] by simp
  obtain bs where bs: "payload_bytes (mem w) p = Some bs" "payload_bytes (mem s) p = Some bs"
    using ok pb w(2) by (auto simp: mux_pkt_ok_def)
  obtain x where x: "write_packet env p w = Some (True, x)" "sent_data [bs] w x" "write_frame w x"
    using write_packet_smooth [OF sm sent_data_pipe [OF d4] trk bs(1)] by blast
  have "split_file ?v" using s3'(5) e ready(1) by simp
  then have "mux_packet_tail env p s = Some x" using ready s3(1) w(1) x(1) by (simp add: mux_packet_tail_def)
  moreover have "mux_packets x = []" using x(3) w(3) by (simp add: write_frame_def)
  ultimately show ?thesis using sent_data_trans [OF d4 x(2)] bs(2) by auto
qed

text \<open>C26: A file split of a running recording loses nothing and keeps the order.  While the output is active
and not stopping, its pipe is up, its headers have been sent and packets are held back for a split, when the first
audio packet at or past the held-back key frame arrives and every write to the pipe and the start of the new helper
succeed, the helper process receives, after what it had, the headers of the new file, the bytes of every held-back
packet in the order they came in, and the bytes of this packet; nothing stays held back.  (When the output
is stopping, \<open>stop_keeps_held_back\<close> shows that held-back packets are not written.)\<close>
theorem split_writes_all:
  assumes inv: "mux_inv s" and ok: "mux_pkt_ok (mem s) p"
    and live: "\<And>a. pdata p = Some a \<Longrightarrow> held (mux_packets s) a < refs_of (mem s) a"
    and sm: "smooth env" and ve: "venc_extra env = Some vhdr"
    and act: "m_active s" "m_pipe s" "split_file s" "sent_headers s" "\<not> m_stopping s"
    and held: "mux_packets s \<noteq> []" and aud: "ptype p = OBS_ENCODER_AUDIO"
    and due: "the (packet_pts_usec (hd (mux_packets s))) \<le> the (packet_pts_usec p)"
  shows "\<exists>s'. ffmpeg_mux_data env (Some p) s = Some s' \<and> mux_packets s' = [] \<and>
     data_of (m_sent s') = data_of (m_sent s) @ [vhdr] @ audio_extra env 0 @
       map (\<lambda>q. the (payload_bytes (mem s) q)) (mux_packets s) @ [the (payload_bytes (mem s) p)]"
proof -
  let ?q = "hd (mux_packets s)"
  have qok: "mux_pkt_ok (mem s) ?q" using inv held by (simp add: mux_inv_def)
  obtain t where t: "prepare_split_file env ?q s = Some (True, t)" "sent_data (vhdr # audio_extra env 0) s t"
      "mem t = mem s" "mux_packets t = mux_packets s" "split_file t = split_file s"
    using prepare_split_smooth [OF sm ve act(2)] by blast
  let ?t = "t\<lparr>split_file_ready := True\<rparr>"
  have dt: "sent_data (vhdr # audio_extra env 0) s ?t" using t(2) by (simp add: sent_data_def)
  have "mux_inv ?t" using inv t(3,4) by (simp add: mux_inv_def)
  moreover have "sent_headers ?t" "\<not> m_stopping ?t" "m_pipe ?t" using dt act by (auto simp: sent_data_def)
  ultimately obtain x where x: "mux_packet_tail env p ?t = Some x" "mux_packets x = []"
      "sent_data (map (\<lambda>q. the (payload_bytes (mem s) q)) (mux_packets s) @ [the (payload_bytes (mem s) p)]) ?t x"
    using flush_then_write_smooth [OF sm, of ?t p] ok live act(3) t(3-5) by auto
  have "ffmpeg_mux_data env (Some p) s = Some x"
    using act held aud due t(1) ok qok x(1)
    by (auto simp: ffmpeg_mux_data_def Let_def mux_pkt_ok_def packet_pts_usec_def)
  then show ?thesis using x(2) sent_data_trans [OF dt x(3)] by (simp add: sent_data_def)
qed

lemma mux_packet_tail_stop:
  assumes "sent_headers s" "m_stopping s" "sys_dts_usec p \<ge> stop_ts s"
  shows "mux_packet_tail env p s = Some (snd (deactivate env 0 s))"
  using assms by (simp add: mux_packet_tail_def)

text \<open>A recording that is stopped between the key frame that asks for a split and the audio
packet that lets it happen: when the packet that ends the recording is older than the held-back key
frame, the held-back packets are neither written nor released.  They are still in the muxer when the next recording has started.\<close>
theorem stop_keeps_held_back:
  assumes act: "m_active s" "split_file s" "sent_headers s" "m_stopping s"
    and held: "mux_packets s \<noteq> []" and stop: "stop_ts s \<le> sys_dts_usec p"
    and den: "timebase_den p \<noteq> 0" "timebase_den (hd (mux_packets s)) \<noteq> 0"
    and old: "the (packet_pts_usec p) < the (packet_pts_usec (hd (mux_packets s)))"
  shows "\<exists>s'. ffmpeg_mux_data env (Some p) s = Some s' \<and> \<not> m_active s' \<and>
     m_sent s' = m_sent s \<and> mem s' = mem s \<and>
     mux_packets (snd (ffmpeg_mux_start_internal st env2 s')) = mux_packets s"
proof -
  have "ffmpeg_mux_data env (Some p) s = Some (snd (deactivate env 0 s))"
    using act held den old mux_packet_tail_stop [OF act(3,4) stop]
    by (simp add: ffmpeg_mux_data_def packet_pts_usec_def Let_def)
  then show ?thesis using act by (simp add: deactivate_def Let_def)
qed

subsection \<open>Concrete recordings\<close>

definition wit_packet :: "nat \<Rightarrow> encoder_type \<Rightarrow> bool \<Rightarrow> int \<Rightarrow> encoder_packet" where
  "wit_packet a t kf ts = packet_zero\<lparr>pdata := Some a, psize := 2, ptype := t, keyframe := kf,
     pts := ts, dts := ts, timebase_num := 1, timebase_den := 1000, dts_usec := ts * 1000,
     sys_dts_usec := ts * 1000\<rparr>"

definition wit_heap :: heap where
  "wit_heap = \<lparr>next_addr = 3, payloads = [0 \<mapsto> \<lparr>refs = 2, bytes = [1, 2]\<rparr>,
     1 \<mapsto> \<lparr>refs = 1, bytes = [3, 4]\<rparr>, 2 \<mapsto> \<lparr>refs = 1, bytes = [5, 6]\<rparr>]\<rparr>"

definition wit_env :: mux_env where
  "wit_env = \<lparr>write_ok = (\<lambda>_. True), destroy_ret = 0, venc_extra = Some [9],
     aenc_extra = (\<lambda>i. if i = 0 then Some (Some [8]) else None), new_name = ''b'',
     pipe_starts = True, thread_starts = True\<rparr>"

text \<open>A recording with one key frame held back.\<close>

definition wit_mux :: ffmpeg_muxer where
  "wit_mux = \<lparr>mem = wit_heap, m_pipe = True, m_writes = 4, m_sent = [], m_calls = [],
     m_path = ''a'', stop_ts = 0, total_bytes = 0, sent_headers = True, m_active = True,
     capturing = True, m_stopping = False, cur_size = 0, cur_time = 0, max_size = 0,
     max_time = 1000000, save_ts = 0, keyframes = 0, muxing = False,
     mux_packets = [wit_packet 0 OBS_ENCODER_VIDEO True 2000], found_video = True,
     found_audio = (\<lambda>_. False), video_pts_offset = 0, audio_dts_offsets = (\<lambda>_. 0),
     split_file_ready = False, manual_split = False, mux_thread_joinable = False,
     packets = deque_init, is_network = False, split_file = True, allow_overwrite = False\<rparr>"

lemmas wit_simps = wit_packet_def wit_heap_def wit_mux_def packet_zero_def

lemma wit_mux_inv: "mux_inv wit_mux"
  by (auto simp: mux_inv_def wit_simps heap_ok_def refs_of_def holds_ref_def mux_pkt_ok_def
      MAX_AUDIO_MIXES_def payload_bytes_def mem_read_def)

lemma wit_audio_ok: "mux_pkt_ok (mem wit_mux) (wit_packet 1 OBS_ENCODER_AUDIO False 2001)"
  by (simp add: wit_simps mux_pkt_ok_def MAX_AUDIO_MIXES_def payload_bytes_def mem_read_def)

lemma wit_audio_live:
  "pdata (wit_packet 1 OBS_ENCODER_AUDIO False 2001) = Some a \<Longrightarrow>
     held (mux_packets wit_mux) a < refs_of (mem wit_mux) a"
  by (auto simp: wit_simps refs_of_def holds_ref_def)

lemma ffmpeg_mux_data_refs_witness:
  "\<exists>s'. ffmpeg_mux_data wit_env (Some (wit_packet 1 OBS_ENCODER_AUDIO False 2001)) wit_mux = Some s' \<and>
     mux_inv s' \<and> (\<forall>a. refs_of (mem s') a - held (mux_packets s') a =
       refs_of (mem wit_mux) a - held (mux_packets wit_mux) a)"
  by (rule ffmpeg_mux_data_refs [OF wit_mux_inv wit_audio_ok wit_audio_live])

lemma split_writes_all_witness:
  "\<exists>s'. ffmpeg_mux_data wit_env (Some (wit_packet 1 OBS_ENCODER_AUDIO False 2001)) wit_mux = Some s' \<and>
     mux_packets s' = [] \<and> data_of (m_sent s') = [[9], [8], [1, 2], [3, 4]]"
proof -
  have e: "audio_extra wit_env 0 = [[8]]"
    by (simp add: audio_extra_def wit_env_def MAX_AUDIO_MIXES_def upt_rec List.map_filter_def)
  have "smooth wit_env" "venc_extra wit_env = Some [9]" by (simp_all add: smooth_def wit_env_def)
  note s = split_writes_all [OF wit_mux_inv wit_audio_ok wit_audio_live this]
  show ?thesis
    using s by (simp add: e) (simp add: wit_simps packet_pts_usec_def payload_bytes_def mem_read_def)
qed

definition wit_start :: mux_settings where
  "wit_start = \<lparr>st_path = ''c'', st_can_begin = True, st_init_ok = True, st_service = None,
     st_max_time_sec = 0, st_max_size_mb = 0, st_split_file = True, st_allow_overwrite = True,
     st_writable = True\<rparr>"

lemma stop_keeps_held_back_witness:
  "\<exists>s'. ffmpeg_mux_data wit_env (Some (wit_packet 1 OBS_ENCODER_AUDIO False 1990))
        (wit_mux\<lparr>m_stopping := True\<rparr>) = Some s' \<and> \<not> m_active s' \<and> m_sent s' = [] \<and>
     mem s' = wit_heap \<and>
     mux_packets (snd (ffmpeg_mux_start_internal wit_start wit_env s')) = [wit_packet 0 OBS_ENCODER_VIDEO True 2000]"
  using stop_keeps_held_back [of "wit_mux\<lparr>m_stopping := True\<rparr>"
      "wit_packet 1 OBS_ENCODER_AUDIO False 1990" wit_env wit_start wit_env]
  by (simp add: wit_simps packet_pts_usec_def)

end
