(* ===== verification/Replay_Buffer.thy ===== *)
theory Replay_Buffer
  imports Mux "HOL-Library.Multiset" "HOL-Library.Sublist"
begin

text \<open>
  The replay buffer output of \<^verbatim>\<open>src/plugins/obs-ffmpeg/obs-ffmpeg-mux.c\<close>: the
  queue of encoded packets that is kept within a time and a size limit, the hot key that asks
  for a save, and the save itself, which copies the queue into \<^verbatim>\<open>mux_packets\<close> in
  the order of the decode time stamps, and the thread that writes them out.

  The two \<^verbatim>\<open>while\<close> loops of \<^verbatim>\<open>replay_buffer_purge\<close> may run for ever.
  They are \<open>partial_function (option)\<close>: the outer \<open>None\<close> is "does not return", the
  inner \<open>None\<close> is a memory fault.
\<close>

subsection \<open>Clearing\<close>

function release_queue ::
    "heap \<Rightarrow> encoder_packet deque \<Rightarrow> (heap \<times> encoder_packet deque) option" where
  "release_queue h q =
     (if dq_size q = 0 then Some (h, q)
      else case deque_pop1 q of None \<Rightarrow> None
      | Some (pkt, q') \<Rightarrow> (case release_packet h pkt of None \<Rightarrow> None
         | Some h' \<Rightarrow> release_queue h' q'))"
  by pat_completeness auto
termination
  by (relation "measure (\<lambda>(h, q). dq_size q)") (auto dest: deque_pop1_size)

declare release_queue.simps [simp del]

definition replay_buffer_clear :: "ffmpeg_muxer \<Rightarrow> ffmpeg_muxer option" where
  "replay_buffer_clear s =
     do { (h, q) \<leftarrow> release_queue (mem s) (packets s);
          Some (s\<lparr>mem := h, packets := deque_free q, cur_size := 0, cur_time := 0,
                  max_size := 0, max_time := 0, save_ts := 0, keyframes := 0\<rparr>) }"

subsection \<open>Starting, and asking for a save\<close>

definition replay_buffer_hotkey :: "bool \<Rightarrow> bool \<Rightarrow> nat \<Rightarrow> ffmpeg_muxer \<Rightarrow> ffmpeg_muxer" where
  "replay_buffer_hotkey pressed encoder_paused now_ns s =
     (if \<not> pressed then s
      else if m_active s then
        if encoder_paused then s else s\<lparr>save_ts := int now_ns div 1000\<rparr>
      else s)"

definition save_replay_proc :: "bool \<Rightarrow> nat \<Rightarrow> ffmpeg_muxer \<Rightarrow> ffmpeg_muxer" where
  "save_replay_proc encoder_paused now_ns s = replay_buffer_hotkey True encoder_paused now_ns s"

definition get_last_replay :: "ffmpeg_muxer \<Rightarrow> string option" where
  "get_last_replay s = (if \<not> muxing s then Some (m_path s) else None)"

definition replay_buffer_start ::
    "bool \<Rightarrow> bool \<Rightarrow> int \<Rightarrow> int \<Rightarrow> ffmpeg_muxer \<Rightarrow> bool \<times> ffmpeg_muxer" where
  "replay_buffer_start can_begin init_ok max_time_sec max_size_mb s =
     (if \<not> can_begin then (False, s)
      else if \<not> init_ok then (False, s)
      else (True, log_call BeginDataCapture
             (s\<lparr>max_time := max_time_sec * 1000000, max_size := max_size_mb * (1024 * 1024),
                m_active := True, capturing := True, total_bytes := 0\<rparr>)))"

subsection \<open>Purging\<close>

definition after_pop ::
    "encoder_packet \<Rightarrow> encoder_packet deque \<Rightarrow> ffmpeg_muxer \<Rightarrow> ffmpeg_muxer option" where
  "after_pop pkt q s =
     (let s = s\<lparr>packets := q,
                 keyframes := (if is_video_keyframe pkt then keyframes s - 1 else keyframes s)\<rparr> in
      if dq_size q = 0 then Some (s\<lparr>cur_size := 0, cur_time := 0\<rparr>)
      else map_option (\<lambda>first. s\<lparr>cur_time := dts_usec first,
                                   cur_size := cur_size s - int (psize pkt)\<rparr>) (deque_peek1 q))"

definition purge_front :: "ffmpeg_muxer \<Rightarrow> (bool \<times> ffmpeg_muxer) option" where
  "purge_front s =
     (if dq_size (packets s) = 0 then Some (False, s)
      else case deque_pop1 (packets s) of None \<Rightarrow> None
      | Some (pkt, q) \<Rightarrow> (case after_pop pkt q s of None \<Rightarrow> None
         | Some s \<Rightarrow> map_option (\<lambda>h. (is_video_keyframe pkt, s\<lparr>mem := h\<rparr>))
                        (release_packet (mem s) pkt)))"

lemma after_pop_packets: "after_pop pkt q s = Some s' \<Longrightarrow> packets s' = q"
  by (auto simp: after_pop_def Let_def split: if_splits)

lemma purge_front_size:
  "purge_front s = Some (b, s') \<Longrightarrow> dq_size (packets s) \<noteq> 0 \<Longrightarrow>
     dq_size (packets s') < dq_size (packets s)"
  by (auto simp: purge_front_def dest!: after_pop_packets deque_pop1_size split: if_splits option.splits)

function purge_loop :: "ffmpeg_muxer \<Rightarrow> ffmpeg_muxer option" where
  "purge_loop s =
     (if dq_size (packets s) = 0 then Some s
      else case deque_peek1 (packets s) of None \<Rightarrow> None
      | Some pkt \<Rightarrow>
          (if is_video_keyframe pkt then Some s
           else case purge_front s of None \<Rightarrow> None | Some (_, s') \<Rightarrow> purge_loop s'))"
  by pat_completeness auto
termination
  by (relation "measure (\<lambda>s. dq_size (packets s))") (auto dest: purge_front_size)

declare purge_loop.simps [simp del]

definition purge :: "ffmpeg_muxer \<Rightarrow> ffmpeg_muxer option" where
  "purge s = do { (keyfr, s) \<leftarrow> purge_front s; if keyfr then purge_loop s else Some s }"

partial_function (option) purge_while_size ::
    "encoder_packet \<Rightarrow> ffmpeg_muxer \<Rightarrow> ffmpeg_muxer option option" where
  "purge_while_size pkt s =
     (if cur_size s + int (psize pkt) > max_size s then
        (case purge s of None \<Rightarrow> Some None | Some s' \<Rightarrow> purge_while_size pkt s')
      else Some (Some s))"

partial_function (option) purge_while_time ::
    "encoder_packet \<Rightarrow> ffmpeg_muxer \<Rightarrow> ffmpeg_muxer option option" where
  "purge_while_time pkt s =
     (if dts_usec pkt - cur_time s > max_time s then
        (case purge s of None \<Rightarrow> Some None | Some s' \<Rightarrow> purge_while_time pkt s')
      else Some (Some s))"

definition replay_buffer_purge ::
    "encoder_packet \<Rightarrow> ffmpeg_muxer \<Rightarrow> ffmpeg_muxer option option" where
  "replay_buffer_purge pkt s =
     (let rest = (\<lambda>s. if dq_size (packets s) = 0 \<or> keyframes s \<le> 2 then Some (Some s)
                      else purge_while_time pkt s) in
      if max_size s \<noteq> 0 then
        if dq_size (packets s) = 0 \<or> keyframes s \<le> 2 then Some (Some s)
        else do { r \<leftarrow> purge_while_size pkt s;
                  case r of None \<Rightarrow> Some None | Some s \<Rightarrow> rest s }
      else rest s)"

subsection \<open>Saving\<close>

record save_offsets =
  so_found_video :: bool
  so_found_audio :: "nat \<Rightarrow> bool"
  so_video_offset :: int
  so_video_pts_offset :: int
  so_audio_offsets :: "nat \<Rightarrow> int"
  so_audio_dts_offsets :: "nat \<Rightarrow> int"

definition no_offsets :: save_offsets where
  "no_offsets = \<lparr>so_found_video = False, so_found_audio = (\<lambda>_. False), so_video_offset = 0,
     so_video_pts_offset = 0, so_audio_offsets = (\<lambda>_. 0), so_audio_dts_offsets = (\<lambda>_. 0)\<rparr>"

definition note_offsets :: "save_offsets \<Rightarrow> encoder_packet \<Rightarrow> save_offsets option" where
  "note_offsets so pkt =
     (if ptype pkt = OBS_ENCODER_VIDEO then
        if \<not> so_found_video so then
          if timebase_den pkt = 0 then None
          else Some (so\<lparr>so_video_pts_offset := pts pkt,
                        so_video_offset := (pts pkt * 1000000) sdiv timebase_den pkt,
                        so_found_video := True\<rparr>)
        else Some so
      else if \<not> track_idx pkt < MAX_AUDIO_MIXES then None
      else if \<not> so_found_audio so (track_idx pkt) then
        Some (so\<lparr>so_found_audio := (so_found_audio so)(track_idx pkt := True),
                 so_audio_offsets := (so_audio_offsets so)(track_idx pkt := dts_usec pkt),
                 so_audio_dts_offsets := (so_audio_dts_offsets so)(track_idx pkt := dts pkt)\<rparr>)
      else Some so)"

definition shift_packet :: "save_offsets \<Rightarrow> encoder_packet \<Rightarrow> encoder_packet" where
  "shift_packet so pkt =
     (if ptype pkt = OBS_ENCODER_VIDEO then
        pkt\<lparr>dts_usec := dts_usec pkt - so_video_offset so,
            dts := dts pkt - so_video_pts_offset so,
            pts := pts pkt - so_video_pts_offset so\<rparr>
      else
        pkt\<lparr>dts_usec := dts_usec pkt - so_audio_offsets so (track_idx pkt),
            dts := dts pkt - so_audio_dts_offsets so (track_idx pkt),
            pts := pts pkt - so_audio_dts_offsets so (track_idx pkt)\<rparr>)"

fun insert_pos :: "encoder_packet list \<Rightarrow> int \<Rightarrow> nat \<Rightarrow> nat" where
  "insert_pos ps t 0 = 0"
| "insert_pos ps t (Suc i) = (if dts_usec (ps ! i) < t then Suc i else insert_pos ps t i)"

definition insert_packet ::
    "heap \<Rightarrow> encoder_packet list \<Rightarrow> encoder_packet \<Rightarrow> save_offsets \<Rightarrow>
     (heap \<times> encoder_packet list) option" where
  "insert_packet h ps packet so =
     do { h \<leftarrow> obs_encoder_packet_ref h packet;
          let pkt = shift_packet so packet;
          let idx = insert_pos ps (dts_usec pkt) (length ps);
          Some (h, take idx ps @ [pkt] @ drop idx ps) }"

definition save_packet ::
    "encoder_packet deque \<Rightarrow> heap \<times> encoder_packet list \<times> save_offsets \<Rightarrow> nat \<Rightarrow>
     (heap \<times> encoder_packet list \<times> save_offsets) option" where
  "save_packet q = (\<lambda>(h, ps, so) i.
     do { cell \<leftarrow> deque_data q i;
          pkt \<leftarrow> cell;
          so \<leftarrow> note_offsets so pkt;
          (h, ps) \<leftarrow> insert_packet h ps pkt so;
          Some (h, ps, so) })"

definition replay_buffer_save :: "mux_env \<Rightarrow> ffmpeg_muxer \<Rightarrow> ffmpeg_muxer option" where
  "replay_buffer_save env s =
     do { (h, ps, _) \<leftarrow> opt_fold (save_packet (packets s)) (mem s, mux_packets s, no_offsets)
                          [0..<dq_size (packets s)];
          let s = s\<lparr>mem := h, mux_packets := ps, m_path := new_name env\<rparr>;
          Some (s\<lparr>mux_thread_joinable := thread_starts env, muxing := thread_starts env\<rparr>) }"

text \<open>
  The thread.  \<^verbatim>\<open>obs_encoder_packet_release\<close> clears the array slot, so the error
  path, which releases every slot, finds the ones already written empty.
\<close>

fun mux_thread_loop ::
    "mux_env \<Rightarrow> encoder_packet list \<Rightarrow> ffmpeg_muxer \<Rightarrow>
     (bool \<times> encoder_packet list \<times> ffmpeg_muxer) option" where
  "mux_thread_loop env [] s = Some (True, [], s)"
| "mux_thread_loop env (pkt # ps) s =
     do { (ok, s) \<leftarrow> write_packet env pkt s;
          if \<not> ok then Some (False, pkt # ps, s)
          else do { (pkt', h) \<leftarrow> obs_encoder_packet_release (mem s) pkt;
                    (ok, rest, s) \<leftarrow> mux_thread_loop env ps (s\<lparr>mem := h\<rparr>);
                    Some (ok, pkt' # rest, s) } }"

definition replay_buffer_mux_thread :: "mux_env \<Rightarrow> ffmpeg_muxer \<Rightarrow> ffmpeg_muxer option" where
  "replay_buffer_mux_thread env s =
     do { let s = s\<lparr>m_pipe := pipe_starts env\<rparr>;
          (ok, arr, s) \<leftarrow>
            (if \<not> m_pipe s then Some (False, mux_packets s, s)
             else do { (ok, s) \<leftarrow> send_headers env s;
                       if \<not> ok then Some (False, mux_packets s, s)
                       else mux_thread_loop env (mux_packets s) s });
          let s = s\<lparr>m_pipe := False\<rparr>;
          h \<leftarrow> (if \<not> ok then opt_fold release_packet (mem s) arr else Some (mem s));
          let s = s\<lparr>mem := h, mux_packets := [], muxing := False\<rparr>;
          Some (if ok then log_call Saved s else s) }"

subsection \<open>The packet handler\<close>

definition deactivate_replay_buffer :: "int \<Rightarrow> ffmpeg_muxer \<Rightarrow> ffmpeg_muxer option" where
  "deactivate_replay_buffer code s =
     (let s = (if code \<noteq> 0 then log_call (SignalStop code) s
               else if m_stopping s then log_call EndDataCapture s else s) in
      replay_buffer_clear (s\<lparr>m_active := False, sent_headers := False, m_stopping := False\<rparr>))"

definition replay_push :: "mux_env \<Rightarrow> encoder_packet \<Rightarrow> ffmpeg_muxer \<Rightarrow> ffmpeg_muxer option" where
  "replay_push env packet s =
     do { let s = s\<lparr>cur_time := (if dq_size (packets s) = 0 then dts_usec packet else cur_time s),
                    cur_size := cur_size s + int (psize packet)\<rparr>;
          q \<leftarrow> deque_push (packets s) packet;
          let s = s\<lparr>packets := q,
                    keyframes := (if is_video_keyframe packet then keyframes s + 1
                                  else keyframes s)\<rparr>;
          if save_ts s \<noteq> 0 \<and> sys_dts_usec packet \<ge> save_ts s then
            if muxing s then Some s
            else let s = (if mux_thread_joinable s then s\<lparr>mux_thread_joinable := False\<rparr> else s) in
              replay_buffer_save env (s\<lparr>save_ts := 0\<rparr>)
          else Some s }"

definition replay_buffer_data ::
    "mux_env \<Rightarrow> encoder_packet option \<Rightarrow> ffmpeg_muxer \<Rightarrow> ffmpeg_muxer option option" where
  "replay_buffer_data env pkt s =
     (if \<not> m_active s then Some (Some s)
      else case pkt of
        None \<Rightarrow> Some (deactivate_replay_buffer OBS_OUTPUT_ENCODE_ERROR s)
      | Some packet \<Rightarrow>
          (if m_stopping s \<and> sys_dts_usec packet \<ge> stop_ts s
           then Some (deactivate_replay_buffer 0 s)
           else case obs_encoder_packet_ref (mem s) packet of
             None \<Rightarrow> Some None
           | Some h \<Rightarrow>
               do { r \<leftarrow> replay_buffer_purge packet (s\<lparr>mem := h\<rparr>);
                    case r of None \<Rightarrow> Some None
                    | Some s \<Rightarrow> Some (replay_push env packet s) }))"

subsection \<open>The queue as a list of packets\<close>

definition kf_count :: "encoder_packet list \<Rightarrow> int" where
  "kf_count xs = int (length (filter is_video_keyframe xs))"

definition size_sum :: "encoder_packet list \<Rightarrow> int" where
  "size_sum xs = sum_list (map (\<lambda>p. int (psize p)) xs)"

definition head_time :: "encoder_packet list \<Rightarrow> int" where
  "head_time xs = (case xs of [] \<Rightarrow> 0 | p # _ \<Rightarrow> dts_usec p)"

definition rb_inv :: "ffmpeg_muxer \<Rightarrow> encoder_packet list \<Rightarrow> bool" where
  "rb_inv s xs \<longleftrightarrow> dq_rep (packets s) xs \<and> keyframes s = kf_count xs \<and> cur_size s = size_sum xs \<and>
     cur_time s = head_time xs \<and> heap_ok (mem s) \<and>
     (\<forall>a. held xs a + held (mux_packets s) a \<le> refs_of (mem s) a)"

text \<open>References held by others: neither by the queue nor by the save in progress.\<close>

definition outside_refs :: "ffmpeg_muxer \<Rightarrow> encoder_packet list \<Rightarrow> nat \<Rightarrow> int" where
  "outside_refs s xs a = refs_of (mem s) a - held xs a - held (mux_packets s) a"

text \<open>Every field that purging leaves alone.\<close>

definition purge_frame :: "ffmpeg_muxer \<Rightarrow> ffmpeg_muxer \<Rightarrow> bool" where
  "purge_frame s s' \<longleftrightarrow>
     m_pipe s' = m_pipe s \<and> m_writes s' = m_writes s \<and> m_sent s' = m_sent s \<and>
     m_calls s' = m_calls s \<and> m_path s' = m_path s \<and> stop_ts s' = stop_ts s \<and>
     total_bytes s' = total_bytes s \<and> sent_headers s' = sent_headers s \<and>
     m_active s' = m_active s \<and> capturing s' = capturing s \<and> m_stopping s' = m_stopping s \<and>
     max_size s' = max_size s \<and> max_time s' = max_time s \<and> save_ts s' = save_ts s \<and>
     muxing s' = muxing s \<and> mux_packets s' = mux_packets s \<and>
     mux_thread_joinable s' = mux_thread_joinable s"

lemma purge_frame_refl [simp]: "purge_frame s s"
  by (simp add: purge_frame_def)

lemma purge_frame_sel:
  assumes "purge_frame s s'"
  shows "max_size s' = max_size s" "max_time s' = max_time s" "mux_packets s' = mux_packets s"
    "save_ts s' = save_ts s" "muxing s' = muxing s" "m_active s' = m_active s"
    "mux_thread_joinable s' = mux_thread_joinable s" "m_stopping s' = m_stopping s"
    "stop_ts s' = stop_ts s"
  using assms by (simp_all add: purge_frame_def)

lemma purge_frame_trans: "purge_frame s t \<Longrightarrow> purge_frame t u \<Longrightarrow> purge_frame s u"
  by (simp add: purge_frame_def)

lemma kf_count_simps [simp]:
  "kf_count [] = 0" "kf_count (p # xs) = (if is_video_keyframe p then 1 else 0) + kf_count xs"
  "kf_count (xs @ ys) = kf_count xs + kf_count ys"
  by (simp_all add: kf_count_def)

lemma kf_count_nonneg [simp]: "0 \<le> kf_count xs" by (simp add: kf_count_def)

lemma size_sum_simps [simp]:
  "size_sum [] = 0" "size_sum (p # xs) = int (psize p) + size_sum xs"
  "size_sum (xs @ ys) = size_sum xs + size_sum ys"
  by (simp_all add: size_sum_def)

lemma head_time_simps [simp]: "head_time [] = 0" "head_time (p # xs) = dts_usec p"
  by (simp_all add: head_time_def)

fun gop_rest :: "encoder_packet list \<Rightarrow> encoder_packet list" where
  "gop_rest [] = []"
| "gop_rest (p # xs) =
     (if is_video_keyframe p then dropWhile (\<lambda>p. \<not> is_video_keyframe p) xs else xs)"

lemma gop_rest_length: "xs \<noteq> [] \<Longrightarrow> length (gop_rest xs) < length xs"
  by (cases xs) (auto simp: less_Suc_eq_le length_dropWhile_le)

lemma purge_front_spec:
  assumes inv: "rb_inv s (p # xs)"
  shows "\<exists>s'. purge_front s = Some (is_video_keyframe p, s') \<and> rb_inv s' xs \<and> purge_frame s s' \<and>
     (\<forall>a. outside_refs s' xs a = outside_refs s (p # xs) a)"
proof -
  have rep: "dq_rep (packets s) (p # xs)" and hp: "heap_ok (mem s)"
    and hl: "\<And>a. holds_ref p a + held xs a + held (mux_packets s) a \<le> refs_of (mem s) a"
    using inv by (auto simp: rb_inv_def)
  obtain q where q: "deque_pop1 (packets s) = Some (p, q)" "dq_rep q xs"
    using dqf.rep_pop [OF rep] by blast
  have "holds_ref p a \<le> refs_of (mem s) a" for a
    using hl [of a] held_nonneg [of xs a] held_nonneg [of "mux_packets s" a] by linarith
  then obtain h where h: "release_packet (mem s) p = Some h" "heap_ok h"
    "\<And>a. refs_of h a = refs_of (mem s) a - holds_ref p a"
    using payload_refs.release_ok [OF hp] by blast
  have sz: "dq_size (packets s) \<noteq> 0" using dq_rep_empty_iff [OF rep] by simp
  obtain s1 where s1: "after_pop p q s = Some s1" "s1 = s\<lparr>packets := q, keyframes := kf_count xs,
      cur_size := size_sum xs, cur_time := head_time xs\<rparr>"
  proof (cases xs)
    case Nil
    then show ?thesis using that q(2) inv dq_rep_empty_iff [OF q(2)]
      by (auto simp: after_pop_def rb_inv_def Let_def)
  next
    case (Cons y ys)
    then have "deque_peek1 q = Some y" using dqf.rep_peek [of q y ys] q(2) by simp
    then show ?thesis using that q(2) inv dq_rep_empty_iff [OF q(2)] Cons
      by (auto simp: after_pop_def rb_inv_def Let_def)
  qed
  have "purge_front s = Some (is_video_keyframe p, s1\<lparr>mem := h\<rparr>)"
    using q sz s1(1) h(1) by (simp add: purge_front_def s1(2))
  moreover have "rb_inv (s1\<lparr>mem := h\<rparr>) xs"
  proof -
    have "held xs a + held (mux_packets s) a \<le> refs_of h a" for a
      using hl [of a] h(3) [of a] by linarith
    then show ?thesis using q(2) h(2) by (simp add: rb_inv_def s1(2))
  qed
  moreover have "purge_frame s (s1\<lparr>mem := h\<rparr>)"
    by (simp add: purge_frame_def s1(2))
  moreover have "outside_refs (s1\<lparr>mem := h\<rparr>) xs a = outside_refs s (p # xs) a" for a
    by (simp add: outside_refs_def h(3) s1(2))
  ultimately show ?thesis by blast
qed

lemma purge_front_empty: "rb_inv s [] \<Longrightarrow> purge_front s = Some (False, s)"
  using dq_rep_empty_iff [of "packets s" "[]"] by (simp add: rb_inv_def purge_front_def)

lemma purge_loop_spec:
  "rb_inv s xs \<Longrightarrow> \<exists>s'. purge_loop s = Some s' \<and>
     rb_inv s' (dropWhile (\<lambda>p. \<not> is_video_keyframe p) xs) \<and> purge_frame s s' \<and>
     (\<forall>a. outside_refs s' (dropWhile (\<lambda>p. \<not> is_video_keyframe p) xs) a = outside_refs s xs a)"
proof (induction xs arbitrary: s)
  case Nil
  then show ?case using dq_rep_empty_iff [of "packets s" "[]"]
    by (simp add: purge_loop.simps [of s] rb_inv_def)
next
  case (Cons p xs)
  have rep: "dq_rep (packets s) (p # xs)" using Cons.prems by (simp add: rb_inv_def)
  have pk: "deque_peek1 (packets s) = Some p" "dq_size (packets s) \<noteq> 0"
    using dqf.rep_peek [OF rep] dq_rep_empty_iff [OF rep] by auto
  show ?case
  proof (cases "is_video_keyframe p")
    case True
    then show ?thesis using Cons.prems pk by (simp add: purge_loop.simps [of s])
  next
    case False
    obtain s1 where s1: "purge_front s = Some (False, s1)" "rb_inv s1 xs" "purge_frame s s1"
      "\<And>a. outside_refs s1 xs a = outside_refs s (p # xs) a"
      using purge_front_spec [OF Cons.prems] False by auto
    then show ?thesis using Cons.IH [OF s1(2)] pk False purge_frame_trans [OF s1(3)]
      by (auto simp: purge_loop.simps [of s])
  qed
qed

lemma purge_spec:
  assumes "rb_inv s xs"
  shows "\<exists>s'. purge s = Some s' \<and> rb_inv s' (gop_rest xs) \<and> purge_frame s s' \<and>
     (\<forall>a. outside_refs s' (gop_rest xs) a = outside_refs s xs a)"
proof (cases xs)
  case Nil
  then show ?thesis using assms purge_front_empty [of s] by (simp add: purge_def)
next
  case (Cons p ys)
  then obtain s1 where s1: "purge_front s = Some (is_video_keyframe p, s1)" "rb_inv s1 ys"
     "purge_frame s s1" "\<And>a. outside_refs s1 ys a = outside_refs s xs a"
    using purge_front_spec [of s p ys] assms by auto
  then show ?thesis using purge_loop_spec [OF s1(2)] purge_frame_trans [OF s1(3)] Cons
    by (auto simp: purge_def)
qed

subsection \<open>The purge loops, and when they return\<close>

function purge_until :: "(encoder_packet list \<Rightarrow> bool) \<Rightarrow> encoder_packet list \<Rightarrow> encoder_packet list option" where
  "purge_until g xs =
     (if \<not> g xs then Some xs else if xs = [] then None else purge_until g (gop_rest xs))"
  by pat_completeness auto
termination
  by (relation "measure (\<lambda>(g, xs). length xs)") (auto simp: gop_rest_length)

declare purge_until.simps [simp del]

definition over_size :: "int \<Rightarrow> encoder_packet \<Rightarrow> encoder_packet list \<Rightarrow> bool" where
  "over_size m pkt xs \<longleftrightarrow> size_sum xs + int (psize pkt) > m"

definition over_time :: "int \<Rightarrow> encoder_packet \<Rightarrow> encoder_packet list \<Rightarrow> bool" where
  "over_time m pkt xs \<longleftrightarrow> dts_usec pkt - head_time xs > m"

lemma purge_empty: "dq_size (packets s) = 0 \<Longrightarrow> purge s = Some s"
  by (simp add: purge_def purge_front_def)

lemma purge_while_size_stuck:
  assumes "dq_size (packets s) = 0" "cur_size s + int (psize pkt) > max_size s"
  shows "purge_while_size pkt s = None"
proof (rule ccontr)
  assume "purge_while_size pkt s \<noteq> None"
  then obtain r where r: "purge_while_size pkt s = Some r" by auto
  have "\<not> (dq_size (packets s) = 0 \<and> cur_size s + int (psize pkt) > max_size s)"
  proof (rule purge_while_size.raw_induct
      [where P = "\<lambda>pkt s r. \<not> (dq_size (packets s) = 0 \<and> cur_size s + int (psize pkt) > max_size s)", OF _ r])
    fix f :: "encoder_packet \<Rightarrow> ffmpeg_muxer \<Rightarrow> ffmpeg_muxer option option" and pkt s r
    assume IH: "\<And>pkt s r. f pkt s = Some r \<Longrightarrow>
        \<not> (dq_size (packets s) = 0 \<and> cur_size s + int (psize pkt) > max_size s)"
      and eq: "(if cur_size s + int (psize pkt) > max_size s then
        (case purge s of None \<Rightarrow> Some None | Some s' \<Rightarrow> f pkt s') else Some (Some s)) = Some r"
    show "\<not> (dq_size (packets s) = 0 \<and> cur_size s + int (psize pkt) > max_size s)"
      using eq purge_empty [of s] IH [of pkt s r] by auto
  qed
  then show False using assms by blast
qed

lemma purge_while_time_stuck:
  assumes "dq_size (packets s) = 0" "dts_usec pkt - cur_time s > max_time s"
  shows "purge_while_time pkt s = None"
proof (rule ccontr)
  assume "purge_while_time pkt s \<noteq> None"
  then obtain r where r: "purge_while_time pkt s = Some r" by auto
  have "\<not> (dq_size (packets s) = 0 \<and> dts_usec pkt - cur_time s > max_time s)"
  proof (rule purge_while_time.raw_induct
      [where P = "\<lambda>pkt s r. \<not> (dq_size (packets s) = 0 \<and> dts_usec pkt - cur_time s > max_time s)", OF _ r])
    fix f :: "encoder_packet \<Rightarrow> ffmpeg_muxer \<Rightarrow> ffmpeg_muxer option option" and pkt s r
    assume IH: "\<And>pkt s r. f pkt s = Some r \<Longrightarrow>
        \<not> (dq_size (packets s) = 0 \<and> dts_usec pkt - cur_time s > max_time s)"
      and eq: "(if dts_usec pkt - cur_time s > max_time s then
        (case purge s of None \<Rightarrow> Some None | Some s' \<Rightarrow> f pkt s') else Some (Some s)) = Some r"
    show "\<not> (dq_size (packets s) = 0 \<and> dts_usec pkt - cur_time s > max_time s)"
      using eq purge_empty [of s] IH [of pkt s r] by auto
  qed
  then show False using assms by blast
qed

definition purge_result ::
    "ffmpeg_muxer \<Rightarrow> encoder_packet list \<Rightarrow> encoder_packet list option \<Rightarrow>
     ffmpeg_muxer option option \<Rightarrow> bool" where
  "purge_result s xs ys r \<longleftrightarrow>
     (case ys of None \<Rightarrow> r = None
      | Some ys \<Rightarrow> (\<exists>s'. r = Some (Some s') \<and> rb_inv s' ys \<and> purge_frame s s' \<and>
           (\<forall>a. outside_refs s' ys a = outside_refs s xs a)))"

lemma purge_result_trans:
  assumes "purge_result t zs ys r" "purge_frame s t" "\<And>a. outside_refs t zs a = outside_refs s xs a"
  shows "purge_result s xs ys r"
  using assms purge_frame_trans [OF assms(2)]
  by (auto simp: purge_result_def split: option.splits)

lemma purge_while_size_spec:
  "rb_inv s xs \<Longrightarrow>
     purge_result s xs (purge_until (over_size (max_size s) pkt) xs) (purge_while_size pkt s)"
proof (induction "length xs" arbitrary: s xs rule: less_induct)
  case less
  let ?g = "over_size (max_size s) pkt"
  have g: "cur_size s + int (psize pkt) > max_size s \<longleftrightarrow> ?g xs"
    using less.prems by (simp add: rb_inv_def over_size_def)
  consider (stop) "\<not> ?g xs" | (stuck) "?g xs" "xs = []" | (go) "?g xs" "xs \<noteq> []" by blast
  then show ?case
  proof cases
    case stop
    have "purge_until ?g xs = Some xs" using stop by (subst purge_until.simps) simp
    moreover have "purge_while_size pkt s = Some (Some s)"
      using stop g by (subst purge_while_size.simps) simp
    ultimately show ?thesis using less.prems by (simp add: purge_result_def)
  next
    case stuck
    have "dq_size (packets s) = 0"
      using less.prems dq_rep_empty_iff [of "packets s" xs] stuck by (simp add: rb_inv_def)
    then have "purge_while_size pkt s = None"
      using purge_while_size_stuck stuck(1) g by blast
    moreover have "purge_until ?g xs = None" using stuck by (subst purge_until.simps) simp
    ultimately show ?thesis by (simp add: purge_result_def)
  next
    case go
    obtain s1 where s1: "purge s = Some s1" "rb_inv s1 (gop_rest xs)" "purge_frame s s1"
      "\<And>a. outside_refs s1 (gop_rest xs) a = outside_refs s xs a"
      using purge_spec [OF less.prems] by blast
    have "purge_until ?g xs = purge_until ?g (gop_rest xs)"
      using go by (subst purge_until.simps) simp
    moreover have "purge_while_size pkt s = purge_while_size pkt s1"
      using go g s1(1) by (subst purge_while_size.simps) simp
    moreover have "purge_result s1 (gop_rest xs) (purge_until ?g (gop_rest xs)) (purge_while_size pkt s1)"
      using less.hyps [OF gop_rest_length [OF go(2)] s1(2)] purge_frame_sel(1) [OF s1(3)] by simp
    ultimately show ?thesis using purge_result_trans [OF _ s1(3,4)] by simp
  qed
qed

lemma purge_while_time_spec:
  "rb_inv s xs \<Longrightarrow>
     purge_result s xs (purge_until (over_time (max_time s) pkt) xs) (purge_while_time pkt s)"
proof (induction "length xs" arbitrary: s xs rule: less_induct)
  case less
  let ?g = "over_time (max_time s) pkt"
  have g: "dts_usec pkt - cur_time s > max_time s \<longleftrightarrow> ?g xs"
    using less.prems by (simp add: rb_inv_def over_time_def)
  consider (stop) "\<not> ?g xs" | (stuck) "?g xs" "xs = []" | (go) "?g xs" "xs \<noteq> []" by blast
  then show ?case
  proof cases
    case stop
    have "purge_until ?g xs = Some xs" using stop by (subst purge_until.simps) simp
    moreover have "purge_while_time pkt s = Some (Some s)"
      using stop g by (subst purge_while_time.simps) simp
    ultimately show ?thesis using less.prems by (simp add: purge_result_def)
  next
    case stuck
    have "dq_size (packets s) = 0"
      using less.prems dq_rep_empty_iff [of "packets s" xs] stuck by (simp add: rb_inv_def)
    then have "purge_while_time pkt s = None"
      using purge_while_time_stuck stuck(1) g by blast
    moreover have "purge_until ?g xs = None" using stuck by (subst purge_until.simps) simp
    ultimately show ?thesis by (simp add: purge_result_def)
  next
    case go
    obtain s1 where s1: "purge s = Some s1" "rb_inv s1 (gop_rest xs)" "purge_frame s s1"
      "\<And>a. outside_refs s1 (gop_rest xs) a = outside_refs s xs a"
      using purge_spec [OF less.prems] by blast
    have "purge_until ?g xs = purge_until ?g (gop_rest xs)"
      using go by (subst purge_until.simps) simp
    moreover have "purge_while_time pkt s = purge_while_time pkt s1"
      using go g s1(1) by (subst purge_while_time.simps) simp
    moreover have "purge_result s1 (gop_rest xs) (purge_until ?g (gop_rest xs)) (purge_while_time pkt s1)"
      using less.hyps [OF gop_rest_length [OF go(2)] s1(2)] purge_frame_sel(2) [OF s1(3)] by simp
    ultimately show ?thesis using purge_result_trans [OF _ s1(3,4)] by simp
  qed
qed

text \<open>\<open>purge_list\<close>: what \<open>replay_buffer_purge\<close> leaves of the queue.\<close>

definition purge_list ::
    "int \<Rightarrow> int \<Rightarrow> encoder_packet \<Rightarrow> encoder_packet list \<Rightarrow> encoder_packet list option" where
  "purge_list msize mtime pkt xs =
     (let rest = (\<lambda>xs. if xs = [] \<or> kf_count xs \<le> 2 then Some xs
                       else purge_until (over_time mtime pkt) xs) in
      if msize \<noteq> 0 then
        if xs = [] \<or> kf_count xs \<le> 2 then Some xs
        else Option.bind (purge_until (over_size msize pkt) xs) rest
      else rest xs)"

lemma purge_rest_spec:
  assumes "rb_inv s xs"
  shows "purge_result s xs
     (if xs = [] \<or> kf_count xs \<le> 2 then Some xs else purge_until (over_time (max_time s) pkt) xs)
     (if dq_size (packets s) = 0 \<or> keyframes s \<le> 2 then Some (Some s) else purge_while_time pkt s)"
proof -
  have "dq_size (packets s) = 0 \<longleftrightarrow> xs = []" "keyframes s = kf_count xs"
    using assms dq_rep_empty_iff [of "packets s" xs] by (auto simp: rb_inv_def)
  then show ?thesis using assms purge_while_time_spec [OF assms] by (simp add: purge_result_def)
qed

lemma replay_buffer_purge_spec:
  assumes inv: "rb_inv s xs"
  shows "purge_result s xs (purge_list (max_size s) (max_time s) pkt xs) (replay_buffer_purge pkt s)"
proof (cases "max_size s = 0 \<or> xs = [] \<or> kf_count xs \<le> 2")
  case True
  have e: "dq_size (packets s) = 0 \<longleftrightarrow> xs = []" "keyframes s = kf_count xs"
    using inv dq_rep_empty_iff [of "packets s" xs] by (auto simp: rb_inv_def)
  show ?thesis
  proof (cases "max_size s = 0")
    case True
    then show ?thesis
      using purge_rest_spec [OF inv, of pkt] by (simp only: replay_buffer_purge_def purge_list_def Let_def) simp
  next
    case False
    then show ?thesis using True inv
      by (simp add: replay_buffer_purge_def purge_list_def Let_def e purge_result_def)
  qed
next
  case False
  have e: "dq_size (packets s) \<noteq> 0" "\<not> keyframes s \<le> 2"
    using inv False dq_rep_empty_iff [of "packets s" xs] by (auto simp: rb_inv_def)
  have sz: "purge_result s xs (purge_until (over_size (max_size s) pkt) xs) (purge_while_size pkt s)"
    by (rule purge_while_size_spec [OF inv])
  show ?thesis
  proof (cases "purge_until (over_size (max_size s) pkt) xs")
    case None
    then show ?thesis using sz False e
      by (simp add: replay_buffer_purge_def purge_list_def Let_def purge_result_def)
  next
    case (Some ys)
    then obtain t where t: "purge_while_size pkt s = Some (Some t)" "rb_inv t ys" "purge_frame s t"
      "\<And>a. outside_refs t ys a = outside_refs s xs a"
      using sz by (auto simp: purge_result_def)
    have "purge_list (max_size s) (max_time s) pkt xs =
        (if ys = [] \<or> kf_count ys \<le> 2 then Some ys else purge_until (over_time (max_time t) pkt) ys)"
      using Some False purge_frame_sel(2) [OF t(3)] by (simp add: purge_list_def Let_def)
    note e1 = this
    have e2: "replay_buffer_purge pkt s =
        (if dq_size (packets t) = 0 \<or> keyframes t \<le> 2 then Some (Some t) else purge_while_time pkt t)"
      using e False t(1) by (simp add: replay_buffer_purge_def Let_def)
    show ?thesis
      unfolding e1 e2 by (rule purge_result_trans [OF purge_rest_spec [OF t(2), of pkt] t(3,4)])
  qed
qed

subsection \<open>What purging leaves, on lists\<close>

lemma gop_rest_suffix: "suffix (gop_rest xs) xs"
  by (cases xs) (auto simp: suffix_dropWhile suffix_ConsI)

lemma purge_until_Some:
  "purge_until g xs = Some ys \<Longrightarrow> suffix ys xs \<and> \<not> g ys"
proof (induction g xs rule: purge_until.induct)
  case (1 g xs)
  show ?case
  proof (cases "\<not> g xs \<or> xs = []")
    case True
    then show ?thesis using "1.prems" by (subst (asm) purge_until.simps) (auto split: if_splits)
  next
    case False
    then have "purge_until g (gop_rest xs) = Some ys"
      using "1.prems" by (subst (asm) purge_until.simps) simp
    then show ?thesis using "1.IH" False gop_rest_suffix [of xs] suffix_order.trans by blast
  qed
qed

lemma purge_until_None:
  "(\<And>ys. suffix ys xs \<Longrightarrow> g ys) \<Longrightarrow> purge_until g xs = None"
proof (induction g xs rule: purge_until.induct)
  case (1 g xs)
  have gx: "g xs" using "1.prems" by simp
  show ?case
  proof (cases "xs = []")
    case False
    have "purge_until g (gop_rest xs) = None"
      using "1.IH" gx False "1.prems" gop_rest_suffix [of xs] suffix_order.trans by blast
    then show ?thesis using gx False by (subst purge_until.simps) simp
  qed (use gx in \<open>subst purge_until.simps, simp\<close>)
qed

lemma purge_until_empty_stops: "\<not> g [] \<Longrightarrow> purge_until g xs \<noteq> None"
proof (induction g xs rule: purge_until.induct)
  case (1 g xs)
  then show ?case by (subst purge_until.simps) auto
qed

lemma purge_until_keyframe:
  "xs = zs @ k # ws \<Longrightarrow> is_video_keyframe k \<Longrightarrow> \<not> g (k # ws) \<Longrightarrow> purge_until g xs \<noteq> None"
proof (induction g xs arbitrary: zs rule: purge_until.induct)
  case (1 g xs)
  show ?case
  proof (cases "g xs")
    case True
    then obtain z zs' where z: "zs = z # zs'" using "1.prems" by (cases zs) auto
    have "\<exists>vs. gop_rest xs = vs @ k # ws"
      using z "1.prems" by (auto simp: dropWhile_append)
    then have "purge_until g (gop_rest xs) \<noteq> None"
      using "1.IH" True "1.prems" by auto
    then show ?thesis using True "1.prems" by (subst purge_until.simps) auto
  qed (subst purge_until.simps, simp)
qed

lemma suffix_size_sum: "suffix ys xs \<Longrightarrow> size_sum ys \<le> size_sum xs"
proof -
  have "0 \<le> size_sum zs" for zs by (induction zs) auto
  then show "suffix ys xs \<Longrightarrow> ?thesis" by (auto simp: suffix_def)
qed

lemma size_sum_nonneg [simp]: "0 \<le> size_sum xs"
  by (induction xs) auto

definition last_keyframe :: "encoder_packet list \<Rightarrow> encoder_packet option" where
  "last_keyframe xs = find is_video_keyframe (rev xs)"

lemma last_keyframe_split:
  "0 < kf_count xs \<Longrightarrow> \<exists>zs k ws. xs = zs @ k # ws \<and> is_video_keyframe k \<and> kf_count ws = 0 \<and>
     last_keyframe xs = Some k"
proof (induction xs rule: rev_induct)
  case (snoc x xs)
  show ?case
  proof (cases "is_video_keyframe x")
    case True
    then show ?thesis by (intro exI [of _ xs] exI [of _ x] exI [of _ "[]"]) (simp add: last_keyframe_def)
  next
    case False
    then obtain zs k ws where "xs = zs @ k # ws" "is_video_keyframe k" "kf_count ws = 0"
      "last_keyframe xs = Some k"
      using snoc by auto
    then show ?thesis using False
      by (intro exI [of _ zs] exI [of _ k] exI [of _ "ws @ [x]"]) (simp add: last_keyframe_def)
  qed
qed simp

definition purge_safe :: "int \<Rightarrow> int \<Rightarrow> encoder_packet \<Rightarrow> encoder_packet list \<Rightarrow> bool" where
  "purge_safe msize mtime pkt xs \<longleftrightarrow>
     (msize \<noteq> 0 \<longrightarrow> int (psize pkt) \<le> msize) \<and>
     (dts_usec pkt \<le> mtime \<or>
      (\<forall>k. last_keyframe xs = Some k \<longrightarrow> dts_usec pkt - dts_usec k \<le> mtime))"

lemma purge_until_time_returns:
  assumes safe: "purge_safe msize mtime pkt xs" and suf: "suffix ys xs" and k: "2 < kf_count ys"
  shows "purge_until (over_time mtime pkt) ys \<noteq> None"
proof (cases "dts_usec pkt \<le> mtime")
  case True
  then show ?thesis by (intro purge_until_empty_stops) (simp add: over_time_def)
next
  case False
  obtain us where us: "xs = us @ ys" using suf by (auto simp: suffix_def)
  obtain zs k ws where kw: "ys = zs @ k # ws" "is_video_keyframe k" "kf_count ws = 0"
    "last_keyframe ys = Some k"
    using last_keyframe_split [of ys] k by auto
  have "last_keyframe xs = Some k"
  proof -
    have "find P zs' = Some k' \<Longrightarrow> find P (zs' @ vs) = Some k'" for P zs' vs and k' :: encoder_packet
      by (induction zs') (auto split: if_splits)
    then show ?thesis using kw(4) us by (simp add: last_keyframe_def)
  qed
  then have "\<not> over_time mtime pkt (k # ws)"
    using safe False by (auto simp: purge_safe_def over_time_def)
  then show ?thesis using purge_until_keyframe kw by blast
qed

lemma purge_list_returns:
  assumes safe: "purge_safe msize mtime pkt xs"
  shows "purge_list msize mtime pkt xs \<noteq> None"
proof -
  have rest: "(if ys = [] \<or> kf_count ys \<le> 2 then Some ys else purge_until (over_time mtime pkt) ys) \<noteq> None"
    if "suffix ys xs" for ys
    using purge_until_time_returns [OF safe that] by auto
  have "purge_until (over_size msize pkt) xs \<noteq> None" if "msize \<noteq> 0"
    using safe that by (intro purge_until_empty_stops) (simp add: purge_safe_def over_size_def)
  then show ?thesis using rest purge_until_Some [of "over_size msize pkt" xs]
    by (fastforce simp: purge_list_def Let_def)
qed

lemma purge_list_result:
  assumes "purge_list msize mtime pkt xs = Some ys"
  shows "suffix ys xs"
    "2 < kf_count xs \<Longrightarrow> msize \<noteq> 0 \<Longrightarrow> size_sum ys + int (psize pkt) \<le> msize"
    "2 < kf_count xs \<Longrightarrow> kf_count ys \<le> 2 \<or> dts_usec pkt - head_time ys \<le> mtime"
proof -
  have r: "suffix zs ys \<and> (kf_count zs \<le> 2 \<or> dts_usec pkt - head_time zs \<le> mtime)"
    if "(if ys = [] \<or> kf_count ys \<le> 2 then Some ys else purge_until (over_time mtime pkt) ys) = Some zs"
    for ys zs
    using that purge_until_Some [of "over_time mtime pkt" ys zs]
    by (auto simp: over_time_def split: if_splits)
  have "suffix ys xs \<and> (2 < kf_count xs \<longrightarrow> msize \<noteq> 0 \<longrightarrow> size_sum ys + int (psize pkt) \<le> msize) \<and>
    (2 < kf_count xs \<longrightarrow> kf_count ys \<le> 2 \<or> dts_usec pkt - head_time ys \<le> mtime)"
  proof (cases "msize \<noteq> 0 \<and> \<not> (xs = [] \<or> kf_count xs \<le> 2)")
    case True
    then obtain zs where zs: "purge_until (over_size msize pkt) xs = Some zs"
      "(if zs = [] \<or> kf_count zs \<le> 2 then Some zs else purge_until (over_time mtime pkt) zs) = Some ys"
      using assms by (auto simp: purge_list_def Let_def bind_eq_Some_conv)
    have "suffix zs xs" "size_sum zs + int (psize pkt) \<le> msize"
      using purge_until_Some [OF zs(1)] by (auto simp: over_size_def)
    moreover have "suffix ys zs" using r [OF zs(2)] by blast
    ultimately show ?thesis
      using r [OF zs(2)] suffix_size_sum [of ys zs] suffix_order.trans by fastforce
  next
    case False
    then show ?thesis using assms r [of xs ys] by (auto simp: purge_list_def Let_def split: if_splits)
  qed
  then show "suffix ys xs"
    "2 < kf_count xs \<Longrightarrow> msize \<noteq> 0 \<Longrightarrow> size_sum ys + int (psize pkt) \<le> msize"
    "2 < kf_count xs \<Longrightarrow> kf_count ys \<le> 2 \<or> dts_usec pkt - head_time ys \<le> mtime"
    by blast+
qed

subsection \<open>Saving\<close>

definition pkt_ok :: "encoder_packet \<Rightarrow> bool" where
  "pkt_ok p \<longleftrightarrow> track_idx p < MAX_AUDIO_MIXES \<and> timebase_den p \<noteq> 0"

fun shifted :: "save_offsets \<Rightarrow> encoder_packet list \<Rightarrow> encoder_packet list" where
  "shifted so [] = []"
| "shifted so (p # ps) =
     (case note_offsets so p of None \<Rightarrow> [] | Some so \<Rightarrow> shift_packet so p # shifted so ps)"

definition insert_sorted :: "encoder_packet list \<Rightarrow> encoder_packet \<Rightarrow> encoder_packet list" where
  "insert_sorted ps p =
     (let i = insert_pos ps (dts_usec p) (length ps) in take i ps @ [p] @ drop i ps)"

lemma shift_packet_pdata [simp]: "pdata (shift_packet so p) = pdata p"
  by (simp add: shift_packet_def)

lemma note_offsets_ok: "pkt_ok p \<Longrightarrow> \<exists>so'. note_offsets so p = Some so'"
  by (simp add: note_offsets_def pkt_ok_def)

lemma shifted_pdata: "\<forall>p \<in> set ps. pkt_ok p \<Longrightarrow> map pdata (shifted so ps) = map pdata ps"
proof (induction ps arbitrary: so)
  case (Cons p ps)
  then obtain so' where "note_offsets so p = Some so'" using note_offsets_ok by fastforce
  then show ?case using Cons by simp
qed simp

lemma insert_pos_le: "insert_pos ps t n \<le> n"
  by (induction n) auto

lemma insert_pos_before:
  "sorted (map dts_usec ps) \<Longrightarrow> n \<le> length ps \<Longrightarrow> i < insert_pos ps t n \<Longrightarrow> dts_usec (ps ! i) < t"
proof (induction n)
  case (Suc n)
  show ?case
  proof (cases "dts_usec (ps ! n) < t")
    case True
    then have "i \<le> n" using Suc.prems by simp
    then have "dts_usec (ps ! i) \<le> dts_usec (ps ! n)"
      using Suc.prems(1,2) by (auto simp: sorted_iff_nth_mono)
    then show ?thesis using True by simp
  qed (use Suc in simp)
qed simp

lemma insert_pos_after:
  "insert_pos ps t n \<le> i \<Longrightarrow> i < n \<Longrightarrow> t \<le> dts_usec (ps ! i)"
proof (induction n)
  case (Suc n)
  then show ?case by (cases "i = n") (auto split: if_splits)
qed simp

lemma mset_insert_sorted [simp]: "mset (insert_sorted ps p) = add_mset p (mset ps)"
proof -
  have "mset (take i ps) + mset (drop i ps) = mset ps" for i
    by (metis append_take_drop_id mset_append)
  then show ?thesis by (simp add: insert_sorted_def Let_def)
qed

lemma sorted_insert_sorted:
  assumes "sorted (map dts_usec ps)"
  shows "sorted (map dts_usec (insert_sorted ps p))"
proof -
  let ?i = "insert_pos ps (dts_usec p) (length ps)"
  have "dts_usec x \<le> dts_usec p" if "x \<in> set (take ?i ps)" for x
    using that insert_pos_before [OF assms order.refl] by (force simp: in_set_conv_nth)
  moreover have "dts_usec p \<le> dts_usec y" if y: "y \<in> set (drop ?i ps)" for y
  proof -
    obtain j where "j < length ps - ?i" "y = ps ! (?i + j)"
      using y by (auto simp: in_set_conv_nth)
    then show ?thesis using insert_pos_after [of ps "dts_usec p" "length ps" "?i + j"] by simp
  qed
  moreover have "sorted (map dts_usec (take ?i ps))" "sorted (map dts_usec (drop ?i ps))"
    using assms by (simp_all add: sorted_wrt_take sorted_wrt_drop take_map [symmetric] drop_map [symmetric])
  ultimately show ?thesis
    by (auto simp: insert_sorted_def Let_def sorted_append intro: order.trans)
qed

lemma insert_packet_spec:
  assumes "heap_ok h" "\<And>a. pdata p = Some a \<Longrightarrow> 0 < refs_of h a"
  shows "\<exists>h'. insert_packet h ps p so = Some (h', insert_sorted ps (shift_packet so p)) \<and> heap_ok h' \<and>
     (\<forall>a. refs_of h' a = refs_of h a + holds_ref p a)"
proof -
  obtain h' where "obs_encoder_packet_ref h p = Some h'" "heap_ok h'"
     "\<forall>a. refs_of h' a = refs_of h a + holds_ref p a"
    using packet_ref_ok [OF assms(1), of p] assms(2) by blast
  then show ?thesis by (simp add: insert_packet_def insert_sorted_def Let_def)
qed

lemma held_mem_pos:
  "p \<in> set xs \<Longrightarrow> pdata p = Some a \<Longrightarrow> 0 < held xs a"
proof (induction xs)
  case (Cons x xs)
  then show ?case using held_nonneg [of xs a] by (auto simp: holds_ref_def add_pos_nonneg)
qed simp

lemma save_loop_spec:
  assumes "dq_rep q xs" "\<forall>p \<in> set xs. pkt_ok p" "i \<le> length xs" "ys = drop i xs" "heap_ok h"
    "\<And>a. held xs a \<le> refs_of h a"
  shows "\<exists>h' so'. opt_fold (save_packet q) (h, ps, so) [i..<length xs] =
       Some (h', foldl insert_sorted ps (shifted so ys), so') \<and> heap_ok h' \<and>
     (\<forall>a. refs_of h' a = refs_of h a + held ys a)"
  using assms(3-)
proof (induction ys arbitrary: i h ps so)
  case Nil
  then show ?case by simp
next
  case (Cons p ys)
  have i: "i < length xs" "p = xs ! i" "ys = drop (Suc i) xs"
    using Cons.prems(1,2)
    by (metis drop_all list.distinct(1) not_less, metis hd_drop_conv_nth list.sel(1) drop_all list.distinct(1) not_less,
        metis drop_Suc list.sel(3) tl_drop)
  have p: "p \<in> set xs" using i by simp
  have pos: "0 < refs_of h a" if "pdata p = Some a" for a
    using held_mem_pos [OF p that] Cons.prems(4) [of a] by linarith
  obtain so1 where so1: "note_offsets so p = Some so1" using note_offsets_ok p assms(2) by blast
  obtain h1 where h1: "insert_packet h ps p so1 = Some (h1, insert_sorted ps (shift_packet so1 p))"
     "heap_ok h1" "\<And>a. refs_of h1 a = refs_of h a + holds_ref p a"
    using insert_packet_spec [OF Cons.prems(3) pos] by blast
  have step: "save_packet q (h, ps, so) i = Some (h1, insert_sorted ps (shift_packet so1 p), so1)"
    using deque_data_rep [OF assms(1), of i] i so1 h1(1) by (simp add: save_packet_def)
  have "held xs a \<le> refs_of h1 a" for a
    using Cons.prems(4) [of a] h1(3) [of a] holds_ref_nonneg [of p a] by linarith
  then obtain h' so' where "opt_fold (save_packet q) (h1, insert_sorted ps (shift_packet so1 p), so1)
      [Suc i..<length xs] = Some (h', foldl insert_sorted (insert_sorted ps (shift_packet so1 p))
      (shifted so1 ys), so')" "heap_ok h'" "\<And>a. refs_of h' a = refs_of h1 a + held ys a"
    using Cons.IH [of "Suc i" h1] i h1(2) by (metis Suc_leI)
  moreover have "[i..<length xs] = i # [Suc i..<length xs]" using i by (simp add: upt_conv_Cons)
  ultimately show ?case using step so1 h1(3) by simp
qed

lemma foldl_insert_sorted:
  "mset (foldl insert_sorted ps zs) = mset ps + mset zs"
  "sorted (map dts_usec ps) \<Longrightarrow> sorted (map dts_usec (foldl insert_sorted ps zs))"
  by (induction zs arbitrary: ps) (simp_all add: sorted_insert_sorted)

lemma held_mset: "mset ps = mset qs \<Longrightarrow> held ps a = held qs a"
  unfolding held_def by (metis mset_map sum_mset_sum_list)

lemma replay_buffer_save_spec:
  assumes inv: "rb_inv s xs" and ok: "\<forall>p \<in> set xs. pkt_ok p"
  shows "\<exists>s'. replay_buffer_save env s = Some s' \<and> rb_inv s' xs \<and>
     mux_packets s' = foldl insert_sorted (mux_packets s) (shifted no_offsets xs) \<and>
     (\<forall>a. outside_refs s' xs a = outside_refs s xs a) \<and>
     muxing s' = thread_starts env \<and> mux_thread_joinable s' = thread_starts env \<and>
     packets s' = packets s \<and> max_size s' = max_size s \<and> max_time s' = max_time s \<and>
     m_active s' = m_active s \<and> save_ts s' = save_ts s"
proof -
  have rep: "dq_rep (packets s) xs" and hp: "heap_ok (mem s)"
    and hl: "\<And>a. held xs a + held (mux_packets s) a \<le> refs_of (mem s) a"
    using inv by (auto simp: rb_inv_def)
  have "held xs a \<le> refs_of (mem s) a" for a
    using hl [of a] held_nonneg [of "mux_packets s" a] by linarith
  then obtain h' so' where f: "opt_fold (save_packet (packets s)) (mem s, mux_packets s, no_offsets)
      [0..<length xs] = Some (h', foldl insert_sorted (mux_packets s) (shifted no_offsets xs), so')"
     "heap_ok h'" "\<And>a. refs_of h' a = refs_of (mem s) a + held xs a"
    using save_loop_spec [OF rep ok, of 0 xs "mem s" "mux_packets s" no_offsets] hp by auto
  let ?s = "s\<lparr>mem := h', mux_packets := foldl insert_sorted (mux_packets s) (shifted no_offsets xs),
     m_path := new_name env, mux_thread_joinable := thread_starts env, muxing := thread_starts env\<rparr>"
  have save: "replay_buffer_save env s = Some ?s"
    using f(1) dq_rep_size [OF rep] by (simp add: replay_buffer_save_def Let_def)
  have hm: "held (foldl insert_sorted (mux_packets s) (shifted no_offsets xs)) a =
      held (mux_packets s) a + held xs a" for a
  proof -
    have "mset (foldl insert_sorted (mux_packets s) (shifted no_offsets xs)) =
        mset (mux_packets s @ shifted no_offsets xs)"
      by (simp add: foldl_insert_sorted)
    then show ?thesis using held_mset held_pdata_cong [OF shifted_pdata [OF ok]]
      by (metis held_simps(3))
  qed
  have "rb_inv ?s xs" using inv f(2,3) hm hl by (simp add: rb_inv_def)
  moreover have "outside_refs ?s xs a = outside_refs s xs a" for a
    by (simp add: outside_refs_def hm f(3))
  ultimately show ?thesis using save by (intro exI [of _ ?s]) simp
qed

subsection \<open>The packet handler\<close>

lemma deque_push_repD:
  "dq_rep q xs \<Longrightarrow> \<exists>r. deque_push q p = Some r \<and> dq_rep r (xs @ [p])"
  by (rule dqf.rep_push)

text \<open>Pushing the packet whose reference the handler has just taken.\<close>

definition rb_inv_pre :: "ffmpeg_muxer \<Rightarrow> encoder_packet list \<Rightarrow> encoder_packet \<Rightarrow> bool" where
  "rb_inv_pre s xs p \<longleftrightarrow> rb_inv s xs \<and>
     (\<forall>a. held xs a + held (mux_packets s) a + holds_ref p a \<le> refs_of (mem s) a)"

lemma joinable_off [simp]:
  "(if mux_thread_joinable s then s\<lparr>mux_thread_joinable := False\<rparr> else s) =
     s\<lparr>mux_thread_joinable := False\<rparr>"
  by (cases s) simp

lemma replay_push_spec:
  assumes inv: "rb_inv_pre s xs p" and ok: "\<forall>x \<in> set (xs @ [p]). pkt_ok x"
  shows "\<exists>s'. replay_push env p s = Some s' \<and> rb_inv s' (xs @ [p]) \<and>
     (\<forall>a. outside_refs s' (xs @ [p]) a = outside_refs s xs a - holds_ref p a) \<and>
     m_active s' = m_active s \<and> max_size s' = max_size s \<and> max_time s' = max_time s \<and>
     mux_packets s' =
       (if save_ts s \<noteq> 0 \<and> sys_dts_usec p \<ge> save_ts s \<and> \<not> muxing s
        then foldl insert_sorted (mux_packets s) (shifted no_offsets (xs @ [p])) else mux_packets s)"
proof -
  have rep: "dq_rep (packets s) xs" and hp: "heap_ok (mem s)"
    and kf: "keyframes s = kf_count xs" "cur_size s = size_sum xs" "cur_time s = head_time xs"
    using inv by (auto simp: rb_inv_pre_def rb_inv_def)
  obtain q where q: "deque_push (packets s) p = Some q" "dq_rep q (xs @ [p])"
    using deque_push_repD [OF rep] by blast
  let ?s = "s\<lparr>cur_time := (if dq_size (packets s) = 0 then dts_usec p else cur_time s),
      cur_size := cur_size s + int (psize p), packets := q,
      keyframes := (if is_video_keyframe p then keyframes s + 1 else keyframes s)\<rparr>"
  have ht: "head_time (xs @ [p]) = (if dq_size (packets s) = 0 then dts_usec p else cur_time s)"
    using dq_rep_empty_iff [OF rep] kf(3) by (cases xs) auto
  have inv1: "rb_inv (?s\<lparr>mux_thread_joinable := b, save_ts := t\<rparr>) (xs @ [p])" for t b
    using inv q(2) hp kf ht by (simp add: rb_inv_pre_def rb_inv_def algebra_simps)
  have out1: "outside_refs (?s\<lparr>mux_thread_joinable := b, save_ts := t\<rparr>) (xs @ [p]) a =
      outside_refs s xs a - holds_ref p a" for t b a
    by (simp add: outside_refs_def)
  show ?thesis
  proof (cases "save_ts s \<noteq> 0 \<and> sys_dts_usec p \<ge> save_ts s \<and> \<not> muxing s")
    case False
    then have "replay_push env p s = Some ?s"
      using q(1) by (auto simp: replay_push_def Let_def)
    moreover have "?s = ?s\<lparr>mux_thread_joinable := mux_thread_joinable s, save_ts := save_ts s\<rparr>" by simp
    ultimately show ?thesis
      using inv1 [where t = "save_ts s" and b = "mux_thread_joinable s"]
        out1 [where t = "save_ts s" and b = "mux_thread_joinable s"] False
      by (intro exI [of _ ?s]) auto
  next
    case True
    let ?t = "?s\<lparr>mux_thread_joinable := False, save_ts := 0\<rparr>"
    have "replay_push env p s = replay_buffer_save env ?t"
      using True q(1) by (simp only: replay_push_def Let_def joinable_off) simp
    moreover obtain s' where s': "replay_buffer_save env ?t = Some s'" "rb_inv s' (xs @ [p])"
        "mux_packets s' = foldl insert_sorted (mux_packets ?t) (shifted no_offsets (xs @ [p]))"
        "\<And>a. outside_refs s' (xs @ [p]) a = outside_refs ?t (xs @ [p]) a"
        "max_size s' = max_size ?t" "max_time s' = max_time ?t" "m_active s' = m_active ?t"
      using replay_buffer_save_spec [OF inv1 [where t = 0 and b = False] ok] by blast
    ultimately show ?thesis using True out1 [where t = 0 and b = False] by (intro exI [of _ s']) simp
  qed
qed

lemma replay_buffer_data_spec:
  assumes inv: "rb_inv s xs" and act: "m_active s"
    and go: "\<not> (m_stopping s \<and> sys_dts_usec p \<ge> stop_ts s)"
    and live: "\<And>a. pdata p = Some a \<Longrightarrow> 0 < refs_of (mem s) a"
    and ok: "\<forall>x \<in> set (xs @ [p]). pkt_ok x"
    and safe: "purge_safe (max_size s) (max_time s) p xs"
  shows "\<exists>s' ys. replay_buffer_data env (Some p) s = Some (Some s') \<and>
     purge_list (max_size s) (max_time s) p xs = Some ys \<and> rb_inv s' (ys @ [p]) \<and>
     (\<forall>a. outside_refs s' (ys @ [p]) a = outside_refs s xs a) \<and>
     mux_packets s' =
       (if save_ts s \<noteq> 0 \<and> sys_dts_usec p \<ge> save_ts s \<and> \<not> muxing s
        then foldl insert_sorted (mux_packets s) (shifted no_offsets (ys @ [p])) else mux_packets s)"
proof -
  have hp: "heap_ok (mem s)" and hl: "\<And>a. held xs a + held (mux_packets s) a \<le> refs_of (mem s) a"
    using inv by (auto simp: rb_inv_def)
  obtain h where h: "obs_encoder_packet_ref (mem s) p = Some h" "heap_ok h"
    "\<And>a. refs_of h a = refs_of (mem s) a + holds_ref p a"
    using packet_ref_ok [OF hp live] by blast
  let ?s = "s\<lparr>mem := h\<rparr>"
  have inv1: "rb_inv ?s xs"
  proof -
    have "held xs a + held (mux_packets s) a \<le> refs_of h a" for a
      using hl [of a] h(3) [of a] holds_ref_nonneg [of p a] by linarith
    then show ?thesis using inv h(2) by (simp add: rb_inv_def)
  qed
  obtain ys where ys: "purge_list (max_size s) (max_time s) p xs = Some ys"
    using purge_list_returns [OF safe] by auto
  have "purge_result ?s xs (Some ys) (replay_buffer_purge p ?s)"
    using replay_buffer_purge_spec [OF inv1, of p] ys by simp
  then obtain t where t: "replay_buffer_purge p ?s = Some (Some t)" "rb_inv t ys" "purge_frame ?s t"
    "\<And>a. outside_refs t ys a = outside_refs ?s xs a"
    by (auto simp: purge_result_def)
  have sel: "mux_packets t = mux_packets s" "save_ts t = save_ts s" "muxing t = muxing s"
    using purge_frame_sel(3-5) [OF t(3)] by simp_all
  have out: "outside_refs t ys a = outside_refs s xs a + holds_ref p a" for a
    using t(4) [of a] h(3) [of a] by (simp add: outside_refs_def)
  have "rb_inv_pre t ys p"
  proof -
    have "held ys a + held (mux_packets t) a + holds_ref p a \<le> refs_of (mem t) a" for a
      using out [of a] hl [of a] by (simp add: outside_refs_def)
    then show ?thesis using t(2) by (simp add: rb_inv_pre_def)
  qed
  moreover have "set ys \<subseteq> set xs"
    using purge_list_result(1) [OF ys] set_mono_suffix by blast
  ultimately obtain s' where s': "replay_push env p t = Some s'" "rb_inv s' (ys @ [p])"
    "\<And>a. outside_refs s' (ys @ [p]) a = outside_refs t ys a - holds_ref p a"
    "mux_packets s' =
       (if save_ts t \<noteq> 0 \<and> sys_dts_usec p \<ge> save_ts t \<and> \<not> muxing t
        then foldl insert_sorted (mux_packets t) (shifted no_offsets (ys @ [p])) else mux_packets t)"
    using replay_push_spec [of t ys p env] ok by fastforce
  have "replay_buffer_data env (Some p) s = Some (Some s')"
    using act go h(1) t(1) s'(1) by (auto simp: replay_buffer_data_def)
  then show ?thesis using ys s' out sel by (intro exI [of _ s'] exI [of _ ys]) simp
qed

subsection \<open>Clearing and writing out release every reference once\<close>

lemma release_queue_spec:
  "dq_rep q xs \<Longrightarrow> heap_ok h \<Longrightarrow> (\<And>a. held xs a \<le> refs_of h a) \<Longrightarrow>
     \<exists>h' q'. release_queue h q = Some (h', q') \<and> dq_rep q' [] \<and> heap_ok h' \<and>
       (\<forall>a. refs_of h' a = refs_of h a - held xs a)"
proof (induction xs arbitrary: q h)
  case Nil
  then show ?case using dq_rep_empty_iff [OF Nil.prems(1)] by (simp add: release_queue.simps [of h q])
next
  case (Cons p xs)
  obtain q' where q': "deque_pop1 q = Some (p, q')" "dq_rep q' xs"
    using dqf.rep_pop [OF Cons.prems(1)] by blast
  have le: "holds_ref p a + held xs a \<le> refs_of h a" for a
    using Cons.prems(3) [of a] by simp
  have "holds_ref p a \<le> refs_of h a" for a
    using le [of a] held_nonneg [of xs a] by linarith
  then obtain h1 where h1: "release_packet h p = Some h1" "heap_ok h1"
    "\<And>a. refs_of h1 a = refs_of h a - holds_ref p a"
    using payload_refs.release_ok [OF Cons.prems(2)] by blast
  have "held xs a \<le> refs_of h1 a" for a using le [of a] h1(3) [of a] by simp
  then obtain h' q'' where r: "release_queue h1 q' = Some (h', q'')" "dq_rep q'' []" "heap_ok h'"
    "\<And>a. refs_of h' a = refs_of h1 a - held xs a"
    using Cons.IH [OF q'(2) h1(2)] by blast
  have "release_queue h q = Some (h', q'')"
    using q'(1) h1(1) r(1) dq_rep_empty_iff [OF Cons.prems(1)]
    by (subst release_queue.simps) simp
  then show ?case using r h1(3) by simp
qed

lemma replay_buffer_clear_spec:
  assumes "rb_inv s xs"
  shows "\<exists>s'. replay_buffer_clear s = Some s' \<and> rb_inv s' [] \<and>
     (\<forall>a. outside_refs s' [] a = outside_refs s xs a) \<and> mux_packets s' = mux_packets s \<and>
     m_active s' = m_active s \<and> save_ts s' = 0"
proof -
  have inv: "heap_ok (mem s)" "dq_rep (packets s) xs"
    "\<And>a. held xs a + held (mux_packets s) a \<le> refs_of (mem s) a"
    using assms by (simp_all add: rb_inv_def)
  have "held xs a \<le> refs_of (mem s) a" for a
    using inv(3) [of a] held_nonneg [of "mux_packets s" a] by linarith
  then obtain h' q' where r: "release_queue (mem s) (packets s) = Some (h', q')" "heap_ok h'"
    "\<And>a. refs_of h' a = refs_of (mem s) a - held xs a"
    using release_queue_spec [OF inv(2,1)] by blast
  let ?s = "s\<lparr>mem := h', packets := deque_free q', cur_size := 0, cur_time := 0,
                  max_size := 0, max_time := 0, save_ts := 0, keyframes := 0\<rparr>"
  have "replay_buffer_clear s = Some ?s"
    using r(1) by (simp add: replay_buffer_clear_def)
  moreover have "held (mux_packets s) a \<le> refs_of h' a" for a
    using inv(3) [of a] r(3) [of a] by linarith
  then have "rb_inv ?s []"
    using r deque_free_rep [of q'] by (simp add: rb_inv_def)
  ultimately show ?thesis using r(3) by (intro exI [of _ ?s]) (simp add: outside_refs_def)
qed

subsection \<open>Clearing and writing out\<close>

definition ffmpeg_mux_destroy :: "ffmpeg_muxer \<Rightarrow> heap option" where
  "ffmpeg_mux_destroy s =
     do { s \<leftarrow> replay_buffer_clear s; opt_fold release_packet (mem s) (mux_packets s) }"

lemma mux_thread_loop_spec:
  assumes "heap_ok (mem s)" "\<And>a. held ps a \<le> refs_of (mem s) a"
    and "\<forall>q \<in> set ps. mux_pkt_ok (mem s) q"
  shows "\<exists>ok rest s'. mux_thread_loop env ps s = Some (ok, rest, s') \<and> heap_ok (mem s') \<and>
     (\<forall>a. refs_of (mem s') a - held rest a = refs_of (mem s) a - held ps a) \<and>
     (ok \<longrightarrow> (\<forall>a. held rest a = 0)) \<and> (\<forall>a. held rest a \<le> refs_of (mem s') a)"
  using assms
proof (induction ps arbitrary: s)
  case (Cons p ps)
  have ok: "mux_pkt_ok (mem s) p" "\<forall>q \<in> set ps. mux_pkt_ok (mem s) q" using Cons.prems(3) by auto
  obtain b t where t: "write_packet env p s = Some (b, t)" "mem t = mem s"
    using write_packet_returns [of s p env] ok(1) write_frame_sel(1) by (force simp: mux_pkt_ok_def)
  show ?case
  proof (cases b)
    case False
    then show ?thesis using t Cons.prems by (auto simp: t(2))
  next
    case True
    obtain h where h: "release_packet (mem s) p = Some h" "heap_ok h" "same_bytes (mem s) h"
     "\<And>a. refs_of h a = refs_of (mem s) a - holds_ref p a" "\<And>a. held ps a \<le> refs_of h a"
     "\<forall>q \<in> set ps. mux_pkt_ok h q"
      using release_held [OF Cons.prems(1,2) ok(2)] by blast
    have z: "obs_encoder_packet_release (mem s) p = Some (packet_zero, h)"
      using h(1) by (auto simp: release_packet_def obs_encoder_packet_release_def
          split: option.splits if_splits)
    obtain ok' rest s' where r: "mux_thread_loop env ps (t\<lparr>mem := h\<rparr>) = Some (ok', rest, s')"
      "heap_ok (mem s')" "\<And>a. refs_of (mem s') a - held rest a = refs_of h a - held ps a"
      "ok' \<longrightarrow> (\<forall>a. held rest a = 0)" "\<And>a. held rest a \<le> refs_of (mem s') a"
      using Cons.IH [of "t\<lparr>mem := h\<rparr>"] h by auto
    have "mux_thread_loop env (p # ps) s = Some (ok', packet_zero # rest, s')"
      using True t z r(1) by simp
    then show ?thesis using r h(4) by (intro exI [of _ ok'] exI [of _ "packet_zero # rest"] exI [of _ s']) simp
  qed
qed simp

text \<open>The thread that writes a saved replay (\<^verbatim>\<open>replay_buffer_mux_thread\<close>), whatever the
helper process answers and whichever packet a write fails at: it returns, releases the reference of
every packet of the save exactly once, empties the list and lets the next save start.\<close>
theorem mux_thread_releases:
  assumes "mux_inv s"
  shows "\<exists>s'. replay_buffer_mux_thread env s = Some s' \<and> mux_packets s' = [] \<and> \<not> muxing s' \<and>
     heap_ok (mem s') \<and> (\<forall>a. refs_of (mem s') a = refs_of (mem s) a - held (mux_packets s) a)"
proof -
  let ?s = "s\<lparr>m_pipe := pipe_starts env\<rparr>"
  have hp: "heap_ok (mem s)" and le: "\<And>a. held (mux_packets s) a \<le> refs_of (mem s) a"
    and ok: "\<forall>q \<in> set (mux_packets s). mux_pkt_ok (mem s) q"
    using assms by (auto simp: mux_inv_def)
  let ?run = "if \<not> m_pipe ?s then Some (False, mux_packets ?s, ?s)
             else do { (ok, s) \<leftarrow> send_headers env ?s;
                       if \<not> ok then Some (False, mux_packets s, s)
                       else mux_thread_loop env (mux_packets s) s }"
  have "\<exists>b arr t. ?run = Some (b, arr, t) \<and> heap_ok (mem t) \<and>
      (\<forall>a. refs_of (mem t) a - held arr a = refs_of (mem s) a - held (mux_packets s) a) \<and>
      (b \<longrightarrow> (\<forall>a. held arr a = 0)) \<and> (\<forall>a. held arr a \<le> refs_of (mem t) a)"
  proof (cases "pipe_starts env")
    case False
    then show ?thesis using hp le by auto
  next
    case True
    obtain b t where t: "send_headers env ?s = Some (b, t)" "write_frame ?s t"
      using send_headers_frame by blast
    have same: "mem t = mem s" "mux_packets t = mux_packets s"
      using t(2) by (simp_all add: write_frame_def)
    show ?thesis
    proof (cases b)
      case False
      then show ?thesis using True t(1) same hp le by auto
    next
      case b: True
      show ?thesis using mux_thread_loop_spec [of t "mux_packets t" env] hp le ok True t(1) b
        by (simp add: same)
    qed
  qed
  then obtain b arr t where r: "?run = Some (b, arr, t)" "heap_ok (mem t)"
      "\<And>a. refs_of (mem t) a - held arr a = refs_of (mem s) a - held (mux_packets s) a"
      "b \<longrightarrow> (\<forall>a. held arr a = 0)" "\<And>a. held arr a \<le> refs_of (mem t) a" by blast
  obtain h where h: "(if \<not> b then opt_fold release_packet (mem t) arr else Some (mem t)) = Some h"
    "heap_ok h" "\<And>a. refs_of h a = refs_of (mem t) a - held arr a"
    using release_all_packets [OF r(2,5)] r(2,4) by (cases b) auto
  let ?u = "t\<lparr>m_pipe := False, mem := h, mux_packets := [], muxing := False\<rparr>"
  have h': "(if \<not> b then opt_fold release_packet (mem (t\<lparr>m_pipe := False\<rparr>)) arr
       else Some (mem (t\<lparr>m_pipe := False\<rparr>))) = Some h"
    using h(1) by (simp split: if_splits)
  have "replay_buffer_mux_thread env s = Some (if b then log_call Saved ?u else ?u)"
    unfolding replay_buffer_mux_thread_def Let_def r(1) bind.bind_lunit prod.case h' by simp
  then show ?thesis using h r(3) by (cases b) simp_all
qed

text \<open>Destroying the output (\<^verbatim>\<open>ffmpeg_mux_destroy\<close>) releases every queued packet and
every packet of an unfinished save exactly once.\<close>
theorem destroy_releases:
  assumes "rb_inv s xs"
  shows "\<exists>h. ffmpeg_mux_destroy s = Some h \<and> heap_ok h \<and>
     (\<forall>a. refs_of h a = refs_of (mem s) a - held xs a - held (mux_packets s) a)"
proof -
  obtain t where t: "replay_buffer_clear s = Some t" "rb_inv t []" "mux_packets t = mux_packets s"
    "\<And>a. outside_refs t [] a = outside_refs s xs a"
    using replay_buffer_clear_spec [OF assms] by blast
  have hp: "heap_ok (mem t)" and le: "\<And>a. held (mux_packets t) a \<le> refs_of (mem t) a"
    using t(2) by (simp_all add: rb_inv_def)
  obtain h where h: "opt_fold release_packet (mem t) (mux_packets t) = Some h" "heap_ok h"
    "\<And>a. refs_of h a = refs_of (mem t) a - held (mux_packets t) a"
    using release_all_packets [OF hp le] by blast
  have "refs_of h a = refs_of (mem s) a - held xs a - held (mux_packets s) a" for a
    using h(3) [of a] t(4) [of a] by (simp add: outside_refs_def)
  then show ?thesis using t(1) h by (auto simp: ffmpeg_mux_destroy_def)
qed

subsection \<open>The properties of the replay buffer\<close>

text \<open>C23: One packet handed to an active replay buffer (\<^verbatim>\<open>replay_buffer_data\<close>): when the
packet fits the size limit and the newest queued key frame is within the time limit, the handler
returns without a memory fault.  The queue is exactly what the two loops of purging have to leave of it,
\<open>purge_list\<close>, followed by the packet: the whole queue with two key frames or fewer, and otherwise the queue
less one group of pictures, or packet before the first, after another, for as long as it is over the size limit,
and then, if more than two key frames are left, over the time limit.  The counters still describe the queue; every
other reference is untouched; and a save that was asked for copies exactly that queue, packet included.\<close>
theorem replay_buffer_data_correct:
  assumes "rb_inv s xs" and "m_active s"
    and "\<not> (m_stopping s \<and> sys_dts_usec p \<ge> stop_ts s)"
    and "\<And>a. pdata p = Some a \<Longrightarrow> 0 < refs_of (mem s) a"
    and "\<forall>x \<in> set (xs @ [p]). pkt_ok x"
    and "purge_safe (max_size s) (max_time s) p xs"
  shows "\<exists>s' ys. replay_buffer_data env (Some p) s = Some (Some s') \<and>
     purge_list (max_size s) (max_time s) p xs = Some ys \<and> suffix ys xs \<and> (kf_count xs \<le> 2 \<longrightarrow> ys = xs) \<and>
     rb_inv s' (ys @ [p]) \<and> (\<forall>a. outside_refs s' (ys @ [p]) a = outside_refs s xs a) \<and>
     mux_packets s' =
       (if save_ts s \<noteq> 0 \<and> sys_dts_usec p \<ge> save_ts s \<and> \<not> muxing s
        then foldl insert_sorted (mux_packets s) (shifted no_offsets (ys @ [p])) else mux_packets s)"
proof -
  have "kf_count xs \<le> 2 \<Longrightarrow> purge_list (max_size s) (max_time s) p xs = Some xs" by (simp add: purge_list_def)
  then show ?thesis
    using replay_buffer_data_spec [OF assms(1-3) _ assms(5,6), of env] assms(4) purge_list_result(1) by fastforce
qed

text \<open>C31: \<^verbatim>\<open>replay_buffer_purge\<close> keeps the buffer within its limits.  With more than two
key frames queued it makes no memory fault, and either it returns, and then what is left together with the new
packet is within the size limit (when there is one), at most two key frames are left or the oldest packet is within
the time limit, what was removed is a prefix of the queue, and no other reference was touched; or it runs
for ever, and then the new packet alone is over the size limit, or both its time and its distance from the newest
key frame are over the time limit.\<close>
theorem replay_buffer_purge_bounds:
  assumes "rb_inv s xs" "2 < kf_count xs"
  shows "case replay_buffer_purge p s of
      Some (Some s') \<Rightarrow> \<exists>ys. rb_inv s' ys \<and> suffix ys xs \<and>
        (max_size s \<noteq> 0 \<longrightarrow> cur_size s' + int (psize p) \<le> max_size s) \<and>
        (keyframes s' \<le> 2 \<or> dts_usec p - cur_time s' \<le> max_time s) \<and>
        (\<forall>a. outside_refs s' ys a = outside_refs s xs a)
    | Some None \<Rightarrow> False
    | None \<Rightarrow> max_size s \<noteq> 0 \<and> max_size s < int (psize p) \<or>
        max_time s < dts_usec p \<and> (\<exists>k. last_keyframe xs = Some k \<and> max_time s < dts_usec p - dts_usec k)"
proof (cases "purge_list (max_size s) (max_time s) p xs")
  case None
  then have "\<not> purge_safe (max_size s) (max_time s) p xs" using purge_list_returns by blast
  then show ?thesis using replay_buffer_purge_spec [OF assms(1), of p] None
    by (auto simp: purge_result_def purge_safe_def not_le)
next
  case (Some ys)
  then obtain s' where s': "replay_buffer_purge p s = Some (Some s')" "rb_inv s' ys"
      "\<forall>a. outside_refs s' ys a = outside_refs s xs a"
    using replay_buffer_purge_spec [OF assms(1), of p] by (auto simp: purge_result_def)
  then show ?thesis using purge_list_result [OF Some] assms(2) by (auto simp: rb_inv_def)
qed

text \<open>C40: The size loop of \<^verbatim>\<open>replay_buffer_purge\<close> does not stop at an empty queue.  With
more than two key frames queued and a new packet that is larger than the whole size limit, it empties
the queue and then runs for ever.\<close>
theorem replay_buffer_purge_hangs_size:
  assumes inv: "rb_inv s xs" and "2 < kf_count xs" and "max_size s \<noteq> 0"
    and big: "max_size s < int (psize p)"
  shows "replay_buffer_purge p s = None"
proof -
  have "purge_until (over_size (max_size s) p) xs = None"
  proof (cases "purge_until (over_size (max_size s) p) xs")
    case (Some ys)
    then show ?thesis using purge_until_Some [OF Some] big size_sum_nonneg [of ys]
      by (simp add: over_size_def)
  qed simp
  then have "purge_list (max_size s) (max_time s) p xs = None"
    using assms by (auto simp: purge_list_def Let_def)
  then show ?thesis using replay_buffer_purge_spec [OF inv, of p] by (simp add: purge_result_def)
qed

text \<open>The time loop has the same fault.  When every queued packet, and the time stamp 0 that an
empty queue has, are further back than the time limit, it never returns.\<close>
theorem replay_buffer_purge_hangs_time:
  assumes inv: "rb_inv s xs" and "2 < kf_count xs" and "max_size s = 0"
    and old: "\<forall>q \<in> set xs. max_time s < dts_usec p - dts_usec q" "max_time s < dts_usec p"
  shows "replay_buffer_purge p s = None"
proof -
  have "purge_until (over_time (max_time s) p) xs = None"
  proof (cases "purge_until (over_time (max_time s) p) xs")
    case (Some ys)
    have "over_time (max_time s) p ys"
      using purge_until_Some [OF Some] old set_mono_suffix [of ys xs]
      by (cases ys) (auto simp: over_time_def)
    then show ?thesis using purge_until_Some [OF Some] by simp
  qed simp
  then have "purge_list (max_size s) (max_time s) p xs = None"
    using assms by (auto simp: purge_list_def Let_def)
  then show ?thesis using replay_buffer_purge_spec [OF inv, of p] by (simp add: purge_result_def)
qed

text \<open>C33: Saving (\<^verbatim>\<open>replay_buffer_save\<close>) with nothing left over from an earlier save: the
packets to write are exactly the queued ones, each with its own reference and with its time stamps
moved by the offset of its track, sorted by decode time; the queue is unchanged.\<close>
theorem replay_buffer_save_sorted:
  assumes "rb_inv s xs" "\<forall>p \<in> set xs. pkt_ok p" "mux_packets s = []"
  shows "\<exists>s'. replay_buffer_save env s = Some s' \<and> rb_inv s' xs \<and>
     sorted (map dts_usec (mux_packets s')) \<and>
     mset (mux_packets s') = mset (shifted no_offsets xs) \<and>
     (\<forall>a. outside_refs s' xs a = outside_refs s xs a) \<and> muxing s' = thread_starts env"
  using replay_buffer_save_spec [OF assms(1,2), of env] assms(3) foldl_insert_sorted [of "[]"]
  by fastforce

subsection \<open>Concrete replay buffers\<close>

definition wit_queue :: "encoder_packet list" where
  "wit_queue = [wit_packet 0 OBS_ENCODER_VIDEO True 1, wit_packet 1 OBS_ENCODER_AUDIO False 2,
     wit_packet 0 OBS_ENCODER_VIDEO True 3, wit_packet 2 OBS_ENCODER_VIDEO True 4]"

definition wit_replay :: ffmpeg_muxer where
  "wit_replay = wit_mux\<lparr>packets := the (opt_fold deque_push deque_init wit_queue),
     keyframes := 3, cur_size := 8, cur_time := 1000, max_size := 7, max_time := 2000, save_ts := 5,
     mux_packets := [], split_file := False\<rparr>"

lemma wit_replay_inv: "rb_inv wit_replay wit_queue"
proof -
  obtain q where "opt_fold deque_push deque_init wit_queue = Some q" "dq_rep q wit_queue"
    using dqf.push_all [OF dqf.rep_empty, of wit_queue] by auto
  then have "dq_rep (packets wit_replay) wit_queue" by (simp add: wit_replay_def)
  then show ?thesis
    by (auto simp: rb_inv_def wit_replay_def wit_simps wit_queue_def kf_count_def size_sum_def
        head_time_def is_video_keyframe_def heap_ok_def refs_of_def holds_ref_def)
qed

lemma wit_queue_kf: "kf_count wit_queue = 3"
  by (simp add: kf_count_def wit_queue_def wit_simps is_video_keyframe_def)

lemma wit_queue_ok: "\<forall>p \<in> set wit_queue. pkt_ok p"
  by (simp add: wit_queue_def wit_simps pkt_ok_def MAX_AUDIO_MIXES_def)

lemma mux_thread_releases_witness:
  "\<exists>s'. replay_buffer_mux_thread wit_env wit_mux = Some s' \<and> mux_packets s' = [] \<and> \<not> muxing s' \<and>
     heap_ok (mem s') \<and> refs_of (mem s') 0 = 1"
  using mux_thread_releases [OF wit_mux_inv, of wit_env]
  by (auto simp: wit_simps refs_of_def holds_ref_def)

lemma destroy_releases_witness:
  "\<exists>h. ffmpeg_mux_destroy wit_replay = Some h \<and> heap_ok h \<and> refs_of h 0 = 0 \<and> refs_of h 2 = 0"
  using destroy_releases [OF wit_replay_inv]
  by (auto simp: wit_replay_def wit_simps wit_queue_def refs_of_def holds_ref_def)

lemma replay_buffer_data_correct_witness:
  "\<exists>s' ys. replay_buffer_data wit_env (Some (wit_packet 1 OBS_ENCODER_AUDIO False 5)) wit_replay
       = Some (Some s') \<and> purge_list 7 2000 (wit_packet 1 OBS_ENCODER_AUDIO False 5) wit_queue = Some ys \<and>
     rb_inv s' (ys @ [wit_packet 1 OBS_ENCODER_AUDIO False 5]) \<and>
     mux_packets s' = foldl insert_sorted []
       (shifted no_offsets (ys @ [wit_packet 1 OBS_ENCODER_AUDIO False 5]))"
proof -
  let ?p = "wit_packet 1 OBS_ENCODER_AUDIO False 5"
  have 1: "m_active wit_replay" "\<not> (m_stopping wit_replay \<and> sys_dts_usec ?p \<ge> stop_ts wit_replay)"
    by (simp_all add: wit_replay_def wit_simps)
  have 2: "\<And>a. pdata ?p = Some a \<Longrightarrow> 0 < refs_of (mem wit_replay) a"
    by (auto simp: wit_replay_def wit_simps refs_of_def)
  have 3: "\<forall>x \<in> set (wit_queue @ [?p]). pkt_ok x"
    using wit_queue_ok by (simp add: wit_simps pkt_ok_def MAX_AUDIO_MIXES_def)
  have 4: "purge_safe (max_size wit_replay) (max_time wit_replay) ?p wit_queue"
    by (simp add: purge_safe_def last_keyframe_def wit_queue_def wit_replay_def wit_simps
        is_video_keyframe_def)
  have 5: "save_ts wit_replay \<noteq> 0" "sys_dts_usec ?p \<ge> save_ts wit_replay" "\<not> muxing wit_replay"
    "mux_packets wit_replay = []" "max_size wit_replay = 7" "max_time wit_replay = 2000"
    by (simp_all add: wit_replay_def wit_simps)
  show ?thesis
    using replay_buffer_data_correct [OF wit_replay_inv 1 2 3 4, of wit_env] 5 by auto
qed

lemma replay_buffer_purge_bounds_witness:
  "\<exists>s' ys. replay_buffer_purge (wit_packet 1 OBS_ENCODER_AUDIO False 5) wit_replay = Some (Some s') \<and>
     rb_inv s' ys \<and> suffix ys wit_queue \<and> cur_size s' + 2 \<le> 7 \<and> (keyframes s' \<le> 2 \<or> 5000 - cur_time s' \<le> 2000)"
proof -
  let ?p = "wit_packet 1 OBS_ENCODER_AUDIO False 5"
  have fields: "max_size wit_replay = 7" "max_time wit_replay = 2000" "psize ?p = 2" "dts_usec ?p = 5000"
    by (simp_all add: wit_replay_def wit_simps)
  have "last_keyframe wit_queue = Some (wit_packet 2 OBS_ENCODER_VIDEO True 4)"
    "dts_usec (wit_packet 2 OBS_ENCODER_VIDEO True 4) = 4000"
    by (simp_all add: last_keyframe_def wit_queue_def wit_simps is_video_keyframe_def)
  then show ?thesis
    using replay_buffer_purge_bounds [OF wit_replay_inv, of ?p] unfolding fields
    by (auto simp: wit_queue_kf split: option.splits)
qed

lemma replay_buffer_purge_hangs_size_witness:
  "replay_buffer_purge ((wit_packet 1 OBS_ENCODER_AUDIO False 5)\<lparr>psize := 8\<rparr>) wit_replay = None"
  by (rule replay_buffer_purge_hangs_size [OF wit_replay_inv])
     (simp_all add: wit_queue_kf, simp_all add: wit_replay_def)

lemma replay_buffer_purge_hangs_time_witness:
  "replay_buffer_purge (wit_packet 1 OBS_ENCODER_AUDIO False 9) (wit_replay\<lparr>max_size := 0\<rparr>) = None"
proof (rule replay_buffer_purge_hangs_time [of _ wit_queue])
  show "rb_inv (wit_replay\<lparr>max_size := 0\<rparr>) wit_queue"
    using wit_replay_inv by (simp add: rb_inv_def)
qed (simp_all add: wit_queue_kf, simp_all add: wit_replay_def wit_queue_def wit_packet_def)

lemma replay_buffer_save_sorted_witness:
  "\<exists>s'. replay_buffer_save wit_env wit_replay = Some s' \<and> sorted (map dts_usec (mux_packets s')) \<and>
     mset (mux_packets s') = mset (shifted no_offsets wit_queue)"
proof -
  have "mux_packets wit_replay = []" by (simp add: wit_replay_def)
  then show ?thesis
    using replay_buffer_save_sorted [OF wit_replay_inv wit_queue_ok, of wit_env] by blast
qed

end
