(* ===== verification/Interleaver.thy ===== *)
theory Interleaver
  imports Packet "HOL-Library.Multiset" "HOL-Library.Sublist"
begin

text \<open>
  The packet interleaver of \<^verbatim>\<open>src/libobs/obs-output.c\<close>: audio and video encoders
  hand their packets to \<^verbatim>\<open>interleave_packets\<close>, which waits until every track has
  delivered, prunes what came too early, moves every track to start at time stamp zero and then
  passes packets on in the order of their decode time.

  The \<^verbatim>\<open>DARRAY\<close>s are lists (the theory \<^verbatim>\<open>Darray\<close> shows the array
  operations implement list operations).  The encoder and audio slots of the output are functions
  from the slot number; \<^verbatim>\<open>get_encoder_index\<close> is where slot numbers come from, and it
  never leaves the array.  A \<^verbatim>\<open>-1\<close> for "not found" is \<open>None\<close>.  The state is that
  of an output with no captions waiting, so the caption branch of
  \<^verbatim>\<open>send_interleaved\<close> does nothing; its packet callbacks only look at the packet.
  \<open>None\<close> as the result of a step is a use of a freed payload, a NULL pointer, a read past
  the end of an array or a division by zero.
\<close>

subsection \<open>State\<close>

definition MAX_OUTPUT_VIDEO_ENCODERS :: nat where "MAX_OUTPUT_VIDEO_ENCODERS = 10"
definition MAX_OUTPUT_AUDIO_ENCODERS :: nat where "MAX_OUTPUT_AUDIO_ENCODERS = 6"
definition INT64_MIN :: int where "INT64_MIN = - (2 ^ 63)"

record encoder_packet_time =
  ept_pts :: int
  ept_cts :: nat
  ept_fer :: nat
  ept_ferc :: nat
  ept_pir :: nat

datatype keyframe_group_track_status =
    KEYFRAME_TRACK_STATUS_NOT_SEEN
  | KEYFRAME_TRACK_STATUS_SEEN
  | KEYFRAME_TRACK_STATUS_SKIPPED

record keyframe_group_data =
  kg_group_id :: nat
  kg_pts :: int
  kg_required_tracks :: nat
  kg_seen_on_track :: "nat \<Rightarrow> keyframe_group_track_status"

record encoder_info =
  enc_timebase_num :: nat
  enc_timebase_den :: nat
  enc_framesize :: nat
  enc_group :: "nat option"
  enc_group_started :: nat

record obs_output =
  o_heap :: heap
  o_active :: bool
  o_data_active :: bool
  video_encoders :: "nat \<Rightarrow> nat option"
  audio_encoders :: "nat \<Rightarrow> nat option"
  encoder_table :: "nat \<Rightarrow> encoder_info"
  received_video :: "nat \<Rightarrow> bool"
  received_audio :: bool
  keyframe_group_tracking :: "keyframe_group_data list"
  video_offsets :: "nat \<Rightarrow> int"
  audio_offsets :: "nat \<Rightarrow> int"
  highest_audio_ts :: int
  highest_video_ts :: "nat \<Rightarrow> int"
  interleaved_packets :: "encoder_packet list"
  interleaver_max_batch_size :: nat
  encoder_packet_times :: "nat \<Rightarrow> encoder_packet_time list"
  active_delay_ns :: nat
  total_frames :: nat
  pkt_callbacks :: nat
  o_callback_log :: "(encoder_packet \<times> encoder_packet_time option) list"
  o_sent :: "encoder_packet list"

abbreviation video_slots :: "nat list" where "video_slots \<equiv> [0..<MAX_OUTPUT_VIDEO_ENCODERS]"
abbreviation audio_slots :: "nat list" where "audio_slots \<equiv> [0..<MAX_OUTPUT_AUDIO_ENCODERS]"

subsection \<open>Encoder slots and time stamps\<close>

text \<open>A packet of no known encoder trips an \<^verbatim>\<open>assert\<close>; a release build answers 0.\<close>

definition get_encoder_index :: "obs_output \<Rightarrow> encoder_packet \<Rightarrow> nat" where
  "get_encoder_index s pkt =
     (let found = (if ptype pkt = OBS_ENCODER_VIDEO
                   then find (\<lambda>i. video_encoders s i \<noteq> None \<and> pencoder pkt = video_encoders s i) video_slots
                   else find (\<lambda>i. audio_encoders s i \<noteq> None \<and> pencoder pkt = audio_encoders s i) audio_slots)
      in case found of Some i \<Rightarrow> i | None \<Rightarrow> 0)"

definition get_first_audio_encoder_index :: "obs_output \<Rightarrow> nat option" where
  "get_first_audio_encoder_index s = find (\<lambda>i. audio_encoders s i \<noteq> None) audio_slots"

definition get_first_video_encoder_index :: "obs_output \<Rightarrow> nat option" where
  "get_first_video_encoder_index s = find (\<lambda>i. video_encoders s i \<noteq> None) video_slots"

definition check_received :: "encoder_packet \<Rightarrow> obs_output \<Rightarrow> obs_output" where
  "check_received out s =
     (if ptype out = OBS_ENCODER_VIDEO
      then s\<lparr>received_video := (received_video s)(track_idx out := True)\<rparr>
      else s\<lparr>received_audio := True\<rparr>)"

definition packet_offset :: "obs_output \<Rightarrow> encoder_packet \<Rightarrow> int" where
  "packet_offset s out =
     (if ptype out = OBS_ENCODER_VIDEO then video_offsets s (track_idx out)
      else audio_offsets s (track_idx out))"

definition apply_interleaved_packet_offset ::
    "obs_output \<Rightarrow> encoder_packet \<Rightarrow> encoder_packet option" where
  "apply_interleaved_packet_offset s out =
     (let offset = packet_offset s out;
          out = out\<lparr>dts := dts out - offset, pts := pts out - offset\<rparr> in
      if timebase_den out = 0 then None else Some (out\<lparr>dts_usec := packet_dts_usec out\<rparr>))"

definition has_higher_opposing_ts :: "obs_output \<Rightarrow> encoder_packet \<Rightarrow> bool" where
  "has_higher_opposing_ts s packet =
     (let has_higher = list_all (\<lambda>i.
            video_encoders s i = None \<or> (ptype packet = OBS_ENCODER_VIDEO \<and> i = track_idx packet) \<or>
            highest_video_ts s i > dts_usec packet) video_slots
      in if ptype packet = OBS_ENCODER_AUDIO then has_higher
         else has_higher \<and> highest_audio_ts s > dts_usec packet)"

definition set_higher_ts :: "encoder_packet \<Rightarrow> obs_output \<Rightarrow> obs_output" where
  "set_higher_ts packet s =
     (if ptype packet = OBS_ENCODER_VIDEO then
        if highest_video_ts s (track_idx packet) < dts_usec packet
        then s\<lparr>highest_video_ts := (highest_video_ts s)(track_idx packet := dts_usec packet)\<rparr> else s
      else if highest_audio_ts s < dts_usec packet
        then s\<lparr>highest_audio_ts := dts_usec packet\<rparr> else s)"

subsection \<open>Sending\<close>

text \<open>Taking the entry with the packet's presentation time out of the times of its track.\<close>

fun take_ept :: "int \<Rightarrow> encoder_packet_time list \<Rightarrow> encoder_packet_time option \<times> encoder_packet_time list" where
  "take_ept t [] = (None, [])"
| "take_ept t (e # es) =
     (if ept_pts e = t then (Some e, es) else let (r, es') = take_ept t es in (r, e # es'))"

definition send_interleaved :: "nat \<Rightarrow> obs_output \<Rightarrow> obs_output option" where
  "send_interleaved now s =
     (case interleaved_packets s of
        [] \<Rightarrow> None
      | out # rest \<Rightarrow>
          (let s = s\<lparr>interleaved_packets := rest\<rparr>;
               (ept, s) =
                 (if ptype out = OBS_ENCODER_VIDEO then
                    let (ept, es) = take_ept (pts out) (encoder_packet_times s (track_idx out)) in
                    (ept, s\<lparr>total_frames := total_frames s + 1,
                           encoder_packet_times := (encoder_packet_times s)(track_idx out := es)\<rparr>)
                  else (None, s));
               s = s\<lparr>o_callback_log := o_callback_log s @
                       replicate (pkt_callbacks s) (out, map_option (\<lambda>e. e\<lparr>ept_pir := now\<rparr>) ept),
                     o_sent := o_sent s @ [out]\<rparr>
           in map_option (\<lambda>h. s\<lparr>o_heap := h\<rparr>) (release_packet (o_heap s) out)))"

subsection \<open>Searching the queue\<close>

definition find_first_packet_type_idx ::
    "encoder_packet list \<Rightarrow> encoder_type \<Rightarrow> nat \<Rightarrow> nat option" where
  "find_first_packet_type_idx ps t idx =
     find (\<lambda>i. ptype (ps ! i) = t \<and> track_idx (ps ! i) = idx) [0..<length ps]"

definition find_last_packet_type_idx ::
    "encoder_packet list \<Rightarrow> encoder_type \<Rightarrow> nat \<Rightarrow> nat option" where
  "find_last_packet_type_idx ps t idx =
     find (\<lambda>i. ptype (ps ! i) = t \<and> track_idx (ps ! i) = idx) (rev [0..<length ps])"

definition find_first_packet_type ::
    "encoder_packet list \<Rightarrow> encoder_type \<Rightarrow> nat \<Rightarrow> encoder_packet option" where
  "find_first_packet_type ps t idx = map_option (\<lambda>i. ps ! i) (find_first_packet_type_idx ps t idx)"

definition find_last_packet_type ::
    "encoder_packet list \<Rightarrow> encoder_type \<Rightarrow> nat \<Rightarrow> encoder_packet option" where
  "find_last_packet_type ps t idx = map_option (\<lambda>i. ps ! i) (find_last_packet_type_idx ps t idx)"

text \<open>
  The scan for the audio packet closest to the first video packet: the closest difference and its
  index so far, and the position of the first video packet once it has been passed
  (\<open>None\<close>: \<^verbatim>\<open>DARRAY_INVALID\<close>, which is larger than every index).
\<close>

definition closest_step ::
    "encoder_packet list \<Rightarrow> nat option \<Rightarrow> int \<times> nat \<times> nat option \<Rightarrow> nat \<Rightarrow>
     (int \<times> nat \<times> nat option) option" where
  "closest_step ps first_video = (\<lambda>(closest_diff, idx, video_idx) i.
     if ptype (ps ! i) \<noteq> OBS_ENCODER_AUDIO then
       Some (closest_diff, idx, if first_video = Some i then Some i else video_idx)
     else case first_video of
       None \<Rightarrow> None
     | Some v \<Rightarrow>
         (let diff = \<bar>dts_usec (ps ! i) - dts_usec (ps ! v)\<bar> in
          Some (if diff < closest_diff then (diff, i, video_idx) else (closest_diff, idx, video_idx))))"

definition get_interleaved_start_idx :: "encoder_packet list \<Rightarrow> nat option" where
  "get_interleaved_start_idx ps =
     do { let first_video = find_first_packet_type_idx ps OBS_ENCODER_VIDEO 0;
          (_, idx, video_idx) \<leftarrow>
            opt_fold (closest_step ps first_video) (0x7FFFFFFFFFFFFFFF, 0, None) [0..<length ps];
          let idx = (case video_idx of Some v \<Rightarrow> if v < idx then v else idx | None \<Rightarrow> idx);
          first_audio_idx \<leftarrow> find (\<lambda>i. ptype (ps ! i) = OBS_ENCODER_AUDIO) [idx..<length ps];
          Some (if pts (ps ! first_audio_idx) \<le> 0 then
                  fold (\<lambda>i idx. case find_first_packet_type_idx ps OBS_ENCODER_AUDIO i of
                          Some j \<Rightarrow> if j < idx then j else idx | None \<Rightarrow> idx) audio_slots idx
                else idx) }"

subsection \<open>Pruning the start\<close>

definition get_encoder_duration :: "encoder_info \<Rightarrow> int option" where
  "get_encoder_duration e =
     (if enc_timebase_den e = 0 then None
      else Some (int (enc_timebase_num e) * 1000000 div int (enc_timebase_den e) * int (enc_framesize e)))"

record prune_acc =
  pa_max_idx :: nat
  pa_max_diff :: int
  pa_diff :: int
  pa_max_audio_duration_usec :: int
  pa_audio_encoders :: nat

text \<open>The loop over the audio slots; the inner \<open>None\<close> is the early \<^verbatim>\<open>return -1\<close>.\<close>

fun prune_audio_loop :: "obs_output \<Rightarrow> encoder_packet \<Rightarrow> nat list \<Rightarrow> prune_acc \<Rightarrow> prune_acc option option" where
  "prune_audio_loop s video [] acc = Some (Some acc)"
| "prune_audio_loop s video (i # is) acc =
     (case audio_encoders s i of
        None \<Rightarrow> prune_audio_loop s video is acc
      | Some e \<Rightarrow>
          (let acc = acc\<lparr>pa_audio_encoders := pa_audio_encoders acc + 1\<rparr> in
           case find_first_packet_type_idx (interleaved_packets s) OBS_ENCODER_AUDIO i of
             None \<Rightarrow> Some None
           | Some audio_idx \<Rightarrow>
               do { let acc = acc\<lparr>pa_max_idx := max (pa_max_idx acc) audio_idx\<rparr>;
                    let d = dts_usec (interleaved_packets s ! audio_idx) - dts_usec video;
                    let acc = acc\<lparr>pa_diff := d, pa_max_diff := max (pa_max_diff acc) d\<rparr>;
                    dur \<leftarrow> get_encoder_duration (encoder_table s e);
                    prune_audio_loop s video is
                      (acc\<lparr>pa_max_audio_duration_usec := max (pa_max_audio_duration_usec acc) dur\<rparr>) }))"

definition prune_premature_packets :: "obs_output \<Rightarrow> (nat option \<times> obs_output) option" where
  "prune_premature_packets s =
     (case find_first_packet_type_idx (interleaved_packets s) OBS_ENCODER_VIDEO 0 of
        None \<Rightarrow> Some (None, s)
      | Some video_idx \<Rightarrow>
          (let video = interleaved_packets s ! video_idx in
           if timebase_den video = 0 then None
           else let duration_usec = (timebase_num video * 1000000) sdiv timebase_den video in
             do { r \<leftarrow> prune_audio_loop s video audio_slots
                          \<lparr>pa_max_idx = video_idx, pa_max_diff = 0, pa_diff = 0,
                           pa_max_audio_duration_usec = 0, pa_audio_encoders = 0\<rparr>;
                  case r of
                    None \<Rightarrow> Some (None, s\<lparr>received_audio := False\<rparr>)
                  | Some acc \<Rightarrow>
                      (let duration_usec =
                         (if pa_audio_encoders acc > 1 \<and> duration_usec < pa_max_audio_duration_usec acc
                          then pa_max_audio_duration_usec acc else duration_usec)
                       in Some (Some (if pa_diff acc > duration_usec then pa_max_idx acc + 1 else 0), s)) }))"

text \<open>
  \<^verbatim>\<open>da_pop_front\<close> on an array without elements leaves it alone, by its own test; the
  \<^verbatim>\<open>assert\<close> in front of the test is one of a debug build, where a video packet that came without a
  \<^verbatim>\<open>packet_time\<close> can make it fail.
\<close>

definition discard_one :: "obs_output \<Rightarrow> encoder_packet \<Rightarrow> obs_output option" where
  "discard_one s packet =
     (let s = (if ptype packet = OBS_ENCODER_VIDEO
               then s\<lparr>encoder_packet_times := (encoder_packet_times s)
                        (track_idx packet :=
                           (let times = encoder_packet_times s (track_idx packet) in
                            if times \<noteq> [] then tl times else times))\<rparr>
               else s)
      in map_option (\<lambda>h. s\<lparr>o_heap := h\<rparr>) (release_packet (o_heap s) packet))"

definition discard_to_idx :: "nat \<Rightarrow> obs_output \<Rightarrow> obs_output option" where
  "discard_to_idx idx s =
     (if idx > length (interleaved_packets s) then None
      else do { s \<leftarrow> opt_fold discard_one s (take idx (interleaved_packets s));
                Some (s\<lparr>interleaved_packets := drop idx (interleaved_packets s)\<rparr>) })"

definition prune_interleaved_packets :: "obs_output \<Rightarrow> (bool \<times> obs_output) option" where
  "prune_interleaved_packets s =
     do { (prune_start, s) \<leftarrow> prune_premature_packets s;
          case prune_start of
            None \<Rightarrow> Some (False, s)
          | Some n \<Rightarrow>
              do { start_idx \<leftarrow> (if n \<noteq> 0 then Some n
                                  else get_interleaved_start_idx (interleaved_packets s));
                   s \<leftarrow> (if start_idx \<noteq> 0 then discard_to_idx start_idx s else Some s);
                   Some (True, s) } }"

subsection \<open>Starting\<close>

text \<open>
  The arrays \<^verbatim>\<open>video\<close> and \<^verbatim>\<open>audio\<close> that the C function fills are the
  results of \<open>find_first_packet_type\<close> on the queue.
\<close>

definition get_audio_and_video_packets :: "obs_output \<Rightarrow> bool \<times> obs_output" where
  "get_audio_and_video_packets s =
     (let first = find_first_packet_type (interleaved_packets s) in
      case find (\<lambda>i. video_encoders s i \<noteq> None \<and> first OBS_ENCODER_VIDEO i = None) video_slots of
        Some i \<Rightarrow> (False, s\<lparr>received_video := (received_video s)(i := False)\<rparr>)
      | None \<Rightarrow>
          (case find (\<lambda>i. audio_encoders s i \<noteq> None \<and> first OBS_ENCODER_AUDIO i = None) audio_slots of
             Some _ \<Rightarrow> (False, s\<lparr>received_audio := False\<rparr>)
           | None \<Rightarrow> (list_ex (\<lambda>i. video_encoders s i \<noteq> None) video_slots, s)))"

definition audio_ends_before :: "obs_output \<Rightarrow> encoder_packet \<Rightarrow> bool" where
  "audio_ends_before s video =
     list_ex (\<lambda>i. audio_encoders s i \<noteq> None \<and>
        (case find_last_packet_type (interleaved_packets s) OBS_ENCODER_AUDIO i of
           None \<Rightarrow> False | Some a \<Rightarrow> dts_usec a < dts_usec video)) audio_slots"

definition new_offsets :: "obs_output \<Rightarrow> obs_output" where
  "new_offsets s =
     (let first = find_first_packet_type (interleaved_packets s) in
      s\<lparr>video_offsets := (\<lambda>i. if i < MAX_OUTPUT_VIDEO_ENCODERS \<and> video_encoders s i \<noteq> None
            then pts (the (first OBS_ENCODER_VIDEO i)) else video_offsets s i),
        audio_offsets := (\<lambda>i. if i < MAX_OUTPUT_AUDIO_ENCODERS \<and> audio_encoders s i \<noteq> None \<and>
              dts (the (first OBS_ENCODER_AUDIO i)) > 0
            then dts (the (first OBS_ENCODER_AUDIO i)) else audio_offsets s i)\<rparr>)"

definition apply_all_offsets :: "obs_output \<Rightarrow> encoder_packet list \<Rightarrow> encoder_packet list option" where
  "apply_all_offsets s ps =
     opt_fold (\<lambda>acc p. map_option (\<lambda>q. acc @ [q]) (apply_interleaved_packet_offset s p)) [] ps"

definition initialize_rest :: "nat \<Rightarrow> obs_output \<Rightarrow> (bool \<times> obs_output) option" where
  "initialize_rest first_audio_idx s =
     do { let s = new_offsets s;
          a \<leftarrow> find_first_packet_type (interleaved_packets s) OBS_ENCODER_AUDIO first_audio_idx;
          let s = s\<lparr>highest_audio_ts := highest_audio_ts s - dts_usec a\<rparr>;
          ps \<leftarrow> apply_all_offsets s (interleaved_packets s);
          Some (True, s\<lparr>interleaved_packets := ps\<rparr>) }"

definition initialize_interleaved_packets :: "obs_output \<Rightarrow> (bool \<times> obs_output) option" where
  "initialize_interleaved_packets s =
     (case get_first_audio_encoder_index s of
        None \<Rightarrow> Some (False, s)
      | Some first_audio_idx \<Rightarrow>
     (case get_first_video_encoder_index s of
        None \<Rightarrow> Some (False, s)
      | Some first_video_idx \<Rightarrow>
          (let (ok, s) = get_audio_and_video_packets s in
           if \<not> ok then Some (False, s)
           else do {
             video \<leftarrow> find_first_packet_type (interleaved_packets s) OBS_ENCODER_VIDEO first_video_idx;
             if audio_ends_before s video then Some (False, s\<lparr>received_audio := False\<rparr>)
             else do {
               start_idx \<leftarrow> get_interleaved_start_idx (interleaved_packets s);
               if start_idx \<noteq> 0 then
                 do { s \<leftarrow> discard_to_idx start_idx s;
                      let (ok, s) = get_audio_and_video_packets s in
                      if \<not> ok then Some (False, s) else initialize_rest first_audio_idx s }
               else initialize_rest first_audio_idx s } })))"

subsection \<open>The ordered queue\<close>

fun insert_interleaved :: "encoder_packet \<Rightarrow> encoder_packet list \<Rightarrow> encoder_packet list" where
  "insert_interleaved out [] = [out]"
| "insert_interleaved out (cur # ps) =
     (if dts_usec out = dts_usec cur \<and> ptype out = OBS_ENCODER_VIDEO \<and>
         ptype cur = OBS_ENCODER_VIDEO \<and> track_idx out > track_idx cur
      then cur # insert_interleaved out ps
      else if dts_usec out = dts_usec cur \<and> ptype out = OBS_ENCODER_VIDEO then out # cur # ps
      else if dts_usec out < dts_usec cur then out # cur # ps
      else cur # insert_interleaved out ps)"

definition insert_interleaved_packet :: "encoder_packet \<Rightarrow> obs_output \<Rightarrow> obs_output" where
  "insert_interleaved_packet out s =
     s\<lparr>interleaved_packets := insert_interleaved out (interleaved_packets s)\<rparr>"

definition resort_interleaved_packets :: "obs_output \<Rightarrow> obs_output" where
  "resort_interleaved_packets s =
     (let old_array = interleaved_packets s in
      fold (\<lambda>p s. insert_interleaved_packet p (set_higher_ts p s)) old_array
        (s\<lparr>interleaved_packets := []\<rparr>))"

definition discard_unused_audio_packets :: "int \<Rightarrow> obs_output \<Rightarrow> obs_output option" where
  "discard_unused_audio_packets t s =
     (let idx = length (takeWhile (\<lambda>p. dts_usec p < t) (interleaved_packets s)) in
      if idx \<noteq> 0 then discard_to_idx idx s else Some s)"

subsection \<open>Key frames of encoder groups\<close>

definition group_complete :: "keyframe_group_data \<Rightarrow> bool" where
  "group_complete d \<longleftrightarrow>
     length (filter (\<lambda>i. kg_seen_on_track d i \<noteq> KEYFRAME_TRACK_STATUS_NOT_SEEN) video_slots)
       = kg_required_tracks d"

definition mark_track ::
    "nat \<Rightarrow> keyframe_group_track_status \<Rightarrow> keyframe_group_data \<Rightarrow> keyframe_group_data" where
  "mark_track i st d = d\<lparr>kg_seen_on_track := (kg_seen_on_track d)(i := st)\<rparr>"

text \<open>
  The loop of \<^verbatim>\<open>check_encoder_group_keyframe_alignment\<close> over the tracked groups; where it
  leaves the loop with \<^verbatim>\<open>break\<close>, the new entry is inserted.  An entry that every track has
  settled is erased (\<^verbatim>\<open>purge_encoder_group_keyframe_data\<close>).
\<close>

fun align_groups :: "keyframe_group_data \<Rightarrow> nat \<Rightarrow> keyframe_group_data list \<Rightarrow> keyframe_group_data list" where
  "align_groups new trk [] = [new]"
| "align_groups new trk (d # ds) =
     (if kg_pts d > kg_pts new then new # d # ds
      else if kg_group_id d \<noteq> kg_group_id new then d # align_groups new trk ds
      else if kg_pts d < kg_pts new then
        let d = mark_track trk KEYFRAME_TRACK_STATUS_SKIPPED d in
        if group_complete d then align_groups new trk ds else d # align_groups new trk ds
      else
        let d = mark_track trk KEYFRAME_TRACK_STATUS_SEEN d in
        if group_complete d then ds else d # ds)"

definition check_encoder_group_keyframe_alignment ::
    "encoder_packet \<Rightarrow> obs_output \<Rightarrow> obs_output option" where
  "check_encoder_group_keyframe_alignment packet s =
     (if \<not> keyframe packet \<or> ptype packet \<noteq> OBS_ENCODER_VIDEO then Some s
      else do {
        e \<leftarrow> pencoder packet;
        case enc_group (encoder_table s e) of
          None \<Rightarrow> Some s
        | Some g \<Rightarrow>
            (let new = \<lparr>kg_group_id = g, kg_pts = pts packet,
                        kg_required_tracks = enc_group_started (encoder_table s e),
                        kg_seen_on_track = (\<lambda>_. KEYFRAME_TRACK_STATUS_NOT_SEEN)
                          (track_idx packet := KEYFRAME_TRACK_STATUS_SEEN)\<rparr>
             in Some (s\<lparr>keyframe_group_tracking :=
                        align_groups new (track_idx packet) (keyframe_group_tracking s)\<rparr>)) })"

subsection \<open>The packet handler\<close>

definition apply_ept_offsets :: "obs_output \<Rightarrow> obs_output" where
  "apply_ept_offsets s =
     s\<lparr>encoder_packet_times := (\<lambda>i. if i < MAX_OUTPUT_VIDEO_ENCODERS
         then map (\<lambda>e. e\<lparr>ept_pts := ept_pts e - video_offsets s i\<rparr>) (encoder_packet_times s i)
         else encoder_packet_times s i)\<rparr>"

definition count_streamable_frames :: "obs_output \<Rightarrow> nat" where
  "count_streamable_frames s =
     length (takeWhile (has_higher_opposing_ts s) (interleaved_packets s))"

definition all_video_received :: "obs_output \<Rightarrow> bool" where
  "all_video_received s = list_all (\<lambda>i. video_encoders s i = None \<or> received_video s i) video_slots"

text \<open>From a queued packet on: the part of \<^verbatim>\<open>interleave_packets\<close> after the insertion.\<close>

definition start_interleaving :: "nat \<Rightarrow> obs_output \<Rightarrow> obs_output option" where
  "start_interleaving now s =
     do { (ok, s) \<leftarrow> prune_interleaved_packets s;
          if \<not> ok then Some s
          else do { (ok, s) \<leftarrow> initialize_interleaved_packets s;
                    if \<not> ok then Some s
                    else send_interleaved now (apply_ept_offsets (resort_interleaved_packets s)) } }"

definition send_streamable :: "nat \<Rightarrow> encoder_packet \<Rightarrow> obs_output \<Rightarrow> obs_output option" where
  "send_streamable now out s =
     (let s = set_higher_ts out s; streamable = count_streamable_frames s in
      if streamable \<noteq> 0 then
        do { s \<leftarrow> send_interleaved now s;
             if streamable - 1 > interleaver_max_batch_size s then send_interleaved now s else Some s }
      else Some s)"

definition add_packet_time :: "encoder_packet \<Rightarrow> encoder_packet_time option \<Rightarrow> int \<Rightarrow> obs_output \<Rightarrow> obs_output" where
  "add_packet_time packet packet_time offset s =
     (case packet_time of None \<Rightarrow> s
      | Some t \<Rightarrow> s\<lparr>encoder_packet_times := (encoder_packet_times s)(track_idx packet :=
           encoder_packet_times s (track_idx packet) @ [t\<lparr>ept_pts := ept_pts t - offset\<rparr>])\<rparr>)"

definition interleave_packets ::
    "nat \<Rightarrow> encoder_packet \<Rightarrow> encoder_packet_time option \<Rightarrow> obs_output \<Rightarrow> obs_output option" where
  "interleave_packets now packet packet_time s =
     (if \<not> o_active s then Some s
      else let packet = packet\<lparr>track_idx := get_encoder_index s packet\<rparr> in
      if ptype packet = OBS_ENCODER_VIDEO \<and> \<not> received_video s (track_idx packet) \<and> \<not> keyframe packet then
        do { s \<leftarrow> discard_unused_audio_packets (dts_usec packet) s;
             if active_delay_ns s \<noteq> 0
             then map_option (\<lambda>h. s\<lparr>o_heap := h\<rparr>) (release_packet (o_heap s) packet)
             else Some s }
      else do {
        s \<leftarrow> check_encoder_group_keyframe_alignment packet s;
        let was_started = received_audio s \<and> all_video_received s;
        (out, h) \<leftarrow> (if active_delay_ns s \<noteq> 0 then Some (packet, o_heap s)
                       else obs_encoder_packet_create_instance (o_heap s) packet);
        let s = s\<lparr>o_heap := h\<rparr>;
        let s = add_packet_time packet packet_time (if was_started then packet_offset s out else 0) s;
        (out, s) \<leftarrow> (if was_started
                       then map_option (\<lambda>out. (out, s)) (apply_interleaved_packet_offset s out)
                       else Some (out, check_received packet s));
        let s = insert_interleaved_packet out s;
        if received_audio s \<and> all_video_received s then
          if \<not> was_started then start_interleaving now s else send_streamable now out s
        else Some s })"

definition default_encoded_callback :: "encoder_packet \<Rightarrow> obs_output \<Rightarrow> obs_output option" where
  "default_encoded_callback packet s =
     (let s = (if o_data_active s then
                 let packet = packet\<lparr>track_idx := get_encoder_index s packet\<rparr>;
                     s = s\<lparr>o_sent := o_sent s @ [packet]\<rparr> in
                 if ptype packet = OBS_ENCODER_VIDEO then s\<lparr>total_frames := total_frames s + 1\<rparr> else s
               else s)
      in if active_delay_ns s \<noteq> 0
         then map_option (\<lambda>h. s\<lparr>o_heap := h\<rparr>) (release_packet (o_heap s) packet) else Some s)"

definition reset_packet_data :: "obs_output \<Rightarrow> obs_output option" where
  "reset_packet_data s =
     (let s = s\<lparr>received_audio := False, highest_audio_ts := 0,
           encoder_packet_times := (\<lambda>i. if i < MAX_OUTPUT_VIDEO_ENCODERS then [] else encoder_packet_times s i),
           received_video := (\<lambda>i. if i < MAX_OUTPUT_VIDEO_ENCODERS then False else received_video s i),
           video_offsets := (\<lambda>i. if i < MAX_OUTPUT_VIDEO_ENCODERS then 0 else video_offsets s i),
           highest_video_ts := (\<lambda>i. if i < MAX_OUTPUT_VIDEO_ENCODERS then INT64_MIN else highest_video_ts s i),
           audio_offsets := (\<lambda>i. if i < MAX_OUTPUT_AUDIO_ENCODERS then 0 else audio_offsets s i)\<rparr>
      in map_option (\<lambda>h. s\<lparr>o_heap := h, interleaved_packets := []\<rparr>)
           (opt_fold release_packet (o_heap s) (interleaved_packets s)))"

subsection \<open>Searching\<close>

lemma find_Some_idx: "find P xs = Some i \<Longrightarrow> i \<in> set xs \<and> P i"
  by (auto simp: find_Some_iff)

lemma find_not_None: "x \<in> set xs \<Longrightarrow> P x \<Longrightarrow> find P xs \<noteq> None"
  by (auto simp: find_None_iff)

lemma find_NoneD: "find P xs = None \<Longrightarrow> x \<in> set xs \<Longrightarrow> \<not> P x"
  by (auto simp: find_None_iff)

lemma find_exists: "\<exists>x \<in> set xs. P x \<Longrightarrow> \<exists>i. find P xs = Some i \<and> i \<in> set xs \<and> P i"
  using find_not_None [of _ xs P] find_Some_idx [of P xs] by blast

lemma find_first_idx_Some:
  "find_first_packet_type_idx ps t k = Some i \<Longrightarrow> i < length ps \<and> ptype (ps ! i) = t \<and> track_idx (ps ! i) = k"
  unfolding find_first_packet_type_idx_def by (drule find_Some_idx) simp

lemma find_last_idx_Some:
  "find_last_packet_type_idx ps t k = Some i \<Longrightarrow> i < length ps \<and> ptype (ps ! i) = t \<and> track_idx (ps ! i) = k"
  unfolding find_last_packet_type_idx_def by (drule find_Some_idx) simp

lemma find_first_exists:
  "(\<exists>i. find_first_packet_type_idx ps t k = Some i) \<longleftrightarrow> (\<exists>p \<in> set ps. ptype p = t \<and> track_idx p = k)"
proof -
  have "(\<exists>i. find_first_packet_type_idx ps t k = Some i) \<longleftrightarrow>
      (\<exists>i \<in> set [0..<length ps]. ptype (ps ! i) = t \<and> track_idx (ps ! i) = k)"
    unfolding find_first_packet_type_idx_def not_None_eq [symmetric] find_None_iff by blast
  then show ?thesis by (fastforce simp: in_set_conv_nth)
qed

lemma find_first_packet_Some:
  "find_first_packet_type ps t k = Some p \<Longrightarrow> p \<in> set ps \<and> ptype p = t \<and> track_idx p = k"
  by (auto simp: find_first_packet_type_def dest: find_first_idx_Some)

lemma find_first_packet_exists:
  "find_first_packet_type ps t k \<noteq> None \<longleftrightarrow> (\<exists>p \<in> set ps. ptype p = t \<and> track_idx p = k)"
  using find_first_exists [of ps t k] by (simp add: find_first_packet_type_def)

lemma closest_fold:
  assumes "first_video \<noteq> None \<or> (\<forall>i \<in> set is. ptype (ps ! i) \<noteq> OBS_ENCODER_AUDIO)"
  shows "\<exists>d i v. opt_fold (closest_step ps first_video) (d0, i0, v0) is = Some (d, i, v) \<and>
     (i = i0 \<or> i \<in> set is \<and> ptype (ps ! i) = OBS_ENCODER_AUDIO)"
  using assms
proof (induction "is" arbitrary: d0 i0 v0)
  case (Cons j js)
  obtain acc where acc: "closest_step ps first_video (d0, i0, v0) j = Some acc"
    "fst (snd acc) = i0 \<or> fst (snd acc) = j \<and> ptype (ps ! j) = OBS_ENCODER_AUDIO"
  proof (cases "ptype (ps ! j) = OBS_ENCODER_AUDIO")
    case True
    then obtain w where "first_video = Some w" using Cons.prems by auto
    then show ?thesis
      using that True by (cases "\<bar>dts_usec (ps ! j) - dts_usec (ps ! w)\<bar> < d0")
        (simp_all add: closest_step_def Let_def)
  next
    case False
    then show ?thesis using that by (simp add: closest_step_def)
  qed
  obtain d1 i1 v1 where e: "acc = (d1, i1, v1)" by (metis prod_cases3)
  show ?case using Cons.IH [of d1 i1 v1] Cons.prems acc e by fastforce
qed simp

lemma fold_min_le:
  "fold (\<lambda>i (idx::nat). case f i of Some j \<Rightarrow> if j < idx then j else idx | None \<Rightarrow> idx) is n \<le> n"
proof (induction "is" arbitrary: n)
  case (Cons i "is")
  show ?case using Cons.IH [of "case f i of Some j \<Rightarrow> if j < n then j else n | None \<Rightarrow> n"]
    by (auto split: option.splits if_splits)
qed simp

lemma start_idx_returns:
  assumes v: "\<exists>p \<in> set ps. ptype p = OBS_ENCODER_VIDEO \<and> track_idx p = 0"
    and a: "\<exists>p \<in> set ps. ptype p = OBS_ENCODER_AUDIO"
  shows "\<exists>n. get_interleaved_start_idx ps = Some n \<and> n < length ps"
proof -
  obtain w where w: "find_first_packet_type_idx ps OBS_ENCODER_VIDEO 0 = Some w"
    using v find_first_exists [of ps OBS_ENCODER_VIDEO 0] by blast
  obtain k where k: "k < length ps" "ptype (ps ! k) = OBS_ENCODER_AUDIO"
    using a by (auto simp: in_set_conv_nth)
  obtain d i u where f: "opt_fold (closest_step ps (Some w)) (0x7FFFFFFFFFFFFFFF, 0, None)
      [0..<length ps] = Some (d, i, u)"
    "i = 0 \<or> i < length ps \<and> ptype (ps ! i) = OBS_ENCODER_AUDIO"
    using closest_fold [of "Some w" "[0..<length ps]" ps] by fastforce
  let ?n = "case u of Some v \<Rightarrow> if v < i then v else i | None \<Rightarrow> i"
  have le: "?n \<le> i" by (auto split: option.splits)
  then have "\<exists>m \<in> set [?n..<length ps]. ptype (ps ! m) = OBS_ENCODER_AUDIO"
    using f(2) k by (cases "i = 0") auto
  then obtain m where m: "find (\<lambda>i. ptype (ps ! i) = OBS_ENCODER_AUDIO) [?n..<length ps] = Some m"
    using find_not_None [of _ "[?n..<length ps]" "\<lambda>i. ptype (ps ! i) = OBS_ENCODER_AUDIO"] by blast
  have n: "?n < length ps" using le f(2) k(1) by (cases "i = 0") auto
  show ?thesis
    unfolding get_interleaved_start_idx_def Let_def w f(1) bind.bind_lunit prod.case m
    using n fold_min_le [of "find_first_packet_type_idx ps OBS_ENCODER_AUDIO" audio_slots ?n]
    by (auto intro: le_less_trans)
qed

subsection \<open>Well-formed outputs\<close>

definition track_ok :: "encoder_packet \<Rightarrow> bool" where
  "track_ok p \<longleftrightarrow> timebase_den p \<noteq> 0 \<and>
     track_idx p < (if ptype p = OBS_ENCODER_VIDEO then MAX_OUTPUT_VIDEO_ENCODERS else MAX_OUTPUT_AUDIO_ENCODERS)"

definition queue_ok :: "heap \<Rightarrow> encoder_packet list \<Rightarrow> bool" where
  "queue_ok h ps \<longleftrightarrow> heap_ok h \<and> (\<forall>a. held ps a \<le> refs_of h a) \<and> (\<forall>p \<in> set ps. track_ok p)"

definition slots_ok :: "obs_output \<Rightarrow> bool" where
  "slots_ok s \<longleftrightarrow> video_encoders s 0 \<noteq> None \<and> (\<exists>i \<in> set audio_slots. audio_encoders s i \<noteq> None) \<and>
     (\<forall>e. enc_timebase_den (encoder_table s e) \<noteq> 0)"

definition output_ok :: "obs_output \<Rightarrow> bool" where
  "output_ok s \<longleftrightarrow> queue_ok (o_heap s) (interleaved_packets s) \<and> slots_ok s"

definition queue_outside :: "obs_output \<Rightarrow> nat \<Rightarrow> int" where
  "queue_outside s a = refs_of (o_heap s) a - held (interleaved_packets s) a"

text \<open>What the slots of an output are; no step of the interleaver changes it.\<close>

definition same_slots :: "obs_output \<Rightarrow> obs_output \<Rightarrow> bool" where
  "same_slots s s' \<longleftrightarrow> video_encoders s' = video_encoders s \<and> audio_encoders s' = audio_encoders s \<and>
     encoder_table s' = encoder_table s \<and> active_delay_ns s' = active_delay_ns s \<and>
     o_active s' = o_active s \<and> interleaver_max_batch_size s' = interleaver_max_batch_size s"

definition output_step :: "obs_output \<Rightarrow> obs_output \<Rightarrow> bool" where
  "output_step s s' \<longleftrightarrow> queue_ok (o_heap s') (interleaved_packets s') \<and> same_slots s s' \<and>
     (\<forall>a. queue_outside s' a = queue_outside s a)"

lemma same_slots_refl [simp]: "same_slots s s" by (simp add: same_slots_def)

lemma same_slots_trans: "same_slots s t \<Longrightarrow> same_slots t u \<Longrightarrow> same_slots s u"
  by (simp add: same_slots_def)

lemma slots_ok_cong: "same_slots s t \<Longrightarrow> slots_ok t = slots_ok s"
  by (simp add: same_slots_def slots_ok_def)

lemma output_step_refl: "queue_ok (o_heap s) (interleaved_packets s) \<Longrightarrow> output_step s s"
  by (simp add: output_step_def)

lemma output_step_trans: "output_step s t \<Longrightarrow> output_step t u \<Longrightarrow> output_step s u"
  unfolding output_step_def using same_slots_trans by fastforce

lemma output_step_ok: "output_step s t \<Longrightarrow> slots_ok s \<Longrightarrow> output_ok t"
  using slots_ok_cong [of s t] by (simp add: output_step_def output_ok_def)

lemma output_step_cong:
  assumes "queue_ok (o_heap s) (interleaved_packets s)" "o_heap t = o_heap s"
    "interleaved_packets t = interleaved_packets s" "same_slots s t"
  shows "output_step s t"
  using assms by (simp add: output_step_def queue_outside_def)

lemma queue_ok_pdata:
  assumes "queue_ok h ps" "map pdata qs = map pdata ps" "\<forall>q \<in> set qs. track_ok q"
  shows "queue_ok h qs"
  using assms held_pdata_cong [OF assms(2)] by (simp add: queue_ok_def)

lemma queue_ok_mset: "mset qs = mset ps \<Longrightarrow> queue_ok h ps \<Longrightarrow> queue_ok h qs"
proof -
  assume a: "mset qs = mset ps" "queue_ok h ps"
  have "held qs x = held ps x" for x
    using a(1) unfolding held_def by (metis mset_map sum_mset_sum_list)
  moreover have "set qs = set ps" using a(1) by (metis set_mset_mset)
  ultimately show ?thesis using a(2) by (simp add: queue_ok_def)
qed

lemma queue_ok_release:
  assumes "queue_ok h (p # ps)"
  shows "\<exists>h'. release_packet h p = Some h' \<and> queue_ok h' ps \<and>
     (\<forall>a. refs_of h' a - held ps a = refs_of h a - held (p # ps) a)"
proof -
  have hp: "heap_ok h" and le: "\<And>a. holds_ref p a + held ps a \<le> refs_of h a"
    using assms by (auto simp: queue_ok_def)
  have "holds_ref p a \<le> refs_of h a" for a using le [of a] held_nonneg [of ps a] by linarith
  then obtain h' where h': "release_packet h p = Some h'" "heap_ok h'"
    "\<And>a. refs_of h' a = refs_of h a - holds_ref p a"
    using payload_refs.release_ok [OF hp] by blast
  have "held ps a \<le> refs_of h' a" for a using le [of a] h'(3) [of a] by simp
  then show ?thesis using h' assms by (simp add: queue_ok_def)
qed

subsection \<open>Sending and discarding\<close>

lemma send_interleaved_step:
  assumes "queue_ok (o_heap s) (interleaved_packets s)" "interleaved_packets s = p # ps"
  shows "\<exists>s'. send_interleaved now s = Some s' \<and> output_step s s' \<and>
     interleaved_packets s' = ps \<and> o_sent s' = o_sent s @ [p] \<and>
     highest_audio_ts s' = highest_audio_ts s \<and> highest_video_ts s' = highest_video_ts s \<and>
     received_audio s' = received_audio s \<and> received_video s' = received_video s \<and>
     video_offsets s' = video_offsets s \<and> audio_offsets s' = audio_offsets s"
proof -
  obtain h' where h': "release_packet (o_heap s) p = Some h'" "queue_ok h' ps"
     "\<And>a. refs_of h' a - held ps a = refs_of (o_heap s) a - held (p # ps) a"
    using queue_ok_release assms by metis
  show ?thesis
    using h' assms(2)
    by (simp add: send_interleaved_def Let_def output_step_def queue_outside_def same_slots_def
          split: prod.splits)
qed

lemma discard_fold:
  assumes "queue_ok (o_heap s) (ps @ qs)"
  shows "\<exists>s'. opt_fold discard_one s ps = Some s' \<and> queue_ok (o_heap s') qs \<and> same_slots s s' \<and>
     (\<forall>a. refs_of (o_heap s') a - held qs a = refs_of (o_heap s) a - held (ps @ qs) a) \<and>
     interleaved_packets s' = interleaved_packets s \<and> o_sent s' = o_sent s \<and>
     received_audio s' = received_audio s \<and> received_video s' = received_video s \<and>
     video_offsets s' = video_offsets s \<and> audio_offsets s' = audio_offsets s \<and>
     highest_audio_ts s' = highest_audio_ts s \<and> highest_video_ts s' = highest_video_ts s"
  using assms
proof (induction ps arbitrary: s)
  case (Cons p ps)
  obtain h' where h': "release_packet (o_heap s) p = Some h'" "queue_ok h' (ps @ qs)"
     "\<And>a. refs_of h' a - held (ps @ qs) a = refs_of (o_heap s) a - held (p # ps @ qs) a"
    using queue_ok_release Cons.prems by (metis append_Cons)
  obtain t where t: "discard_one s p = Some t" "o_heap t = h'" "same_slots s t"
     "interleaved_packets t = interleaved_packets s" "o_sent t = o_sent s"
     "received_audio t = received_audio s" "received_video t = received_video s"
     "video_offsets t = video_offsets s" "audio_offsets t = audio_offsets s"
     "highest_audio_ts t = highest_audio_ts s" "highest_video_ts t = highest_video_ts s"
    using h'(1) that [of "(if ptype p = OBS_ENCODER_VIDEO
               then s\<lparr>encoder_packet_times := (encoder_packet_times s)
                        (track_idx p :=
                           (let times = encoder_packet_times s (track_idx p) in
                            if times \<noteq> [] then tl times else times))\<rparr>
               else s)\<lparr>o_heap := h'\<rparr>"]
    by (cases "ptype p = OBS_ENCODER_VIDEO") (simp_all add: discard_one_def Let_def same_slots_def)
  then show ?case using Cons.IH [of t] h'(2,3) same_slots_trans [OF t(3)] by fastforce
qed simp

lemma discard_to_idx_step:
  assumes "queue_ok (o_heap s) (interleaved_packets s)" "n \<le> length (interleaved_packets s)"
  shows "\<exists>s'. discard_to_idx n s = Some s' \<and> output_step s s' \<and>
     interleaved_packets s' = drop n (interleaved_packets s) \<and> o_sent s' = o_sent s \<and>
     received_audio s' = received_audio s \<and> received_video s' = received_video s \<and>
     video_offsets s' = video_offsets s \<and> audio_offsets s' = audio_offsets s \<and>
     highest_audio_ts s' = highest_audio_ts s \<and> highest_video_ts s' = highest_video_ts s"
proof -
  let ?ps = "interleaved_packets s"
  have "queue_ok (o_heap s) (take n ?ps @ drop n ?ps)" using assms(1) by simp
  from discard_fold [OF this]
  obtain t where t: "opt_fold discard_one s (take n ?ps) = Some t" "queue_ok (o_heap t) (drop n ?ps)"
    "same_slots s t" "\<And>a. refs_of (o_heap t) a - held (drop n ?ps) a = refs_of (o_heap s) a - held ?ps a"
    "interleaved_packets t = ?ps" "o_sent t = o_sent s"
    "received_audio t = received_audio s" "received_video t = received_video s"
     "video_offsets t = video_offsets s" "audio_offsets t = audio_offsets s"
     "highest_audio_ts t = highest_audio_ts s" "highest_video_ts t = highest_video_ts s"
    by auto
  then show ?thesis using assms(2)
    by (simp add: discard_to_idx_def output_step_def queue_outside_def same_slots_def)
qed

subsection \<open>Pruning and starting\<close>

lemma prune_audio_loop_returns:
  assumes "\<forall>e. enc_timebase_den (encoder_table s e) \<noteq> 0" "pa_max_idx acc < length (interleaved_packets s)"
  shows "\<exists>r. prune_audio_loop s v is acc = Some r \<and>
     (\<forall>acc'. r = Some acc' \<longrightarrow> pa_max_idx acc' < length (interleaved_packets s) \<and>
        (\<forall>i \<in> set is. audio_encoders s i \<noteq> None \<longrightarrow>
           find_first_packet_type_idx (interleaved_packets s) OBS_ENCODER_AUDIO i \<noteq> None))"
  using assms(2)
proof (induction "is" arbitrary: acc)
  case (Cons i "is")
  show ?case
  proof (cases "audio_encoders s i")
    case None
    then show ?thesis using Cons by simp
  next
    case (Some e)
    show ?thesis
    proof (cases "find_first_packet_type_idx (interleaved_packets s) OBS_ENCODER_AUDIO i")
      case None
      then show ?thesis using Some by simp
    next
      case idx: (Some k)
      have k: "k < length (interleaved_packets s)" using find_first_idx_Some [OF idx] by simp
      obtain dur where dur: "get_encoder_duration (encoder_table s e) = Some dur"
        using assms(1) by (simp add: get_encoder_duration_def)
      let ?acc = "acc\<lparr>pa_audio_encoders := pa_audio_encoders acc + 1,
         pa_max_idx := max (pa_max_idx acc) k,
         pa_diff := dts_usec (interleaved_packets s ! k) - dts_usec v,
         pa_max_diff := max (pa_max_diff acc) (dts_usec (interleaved_packets s ! k) - dts_usec v),
         pa_max_audio_duration_usec := max (pa_max_audio_duration_usec acc) dur\<rparr>"
      have "pa_max_idx ?acc < length (interleaved_packets s)" using Cons.prems k by simp
      then show ?thesis using Cons.IH [of ?acc] Some idx dur by (auto simp: Let_def)
    qed
  qed
qed simp

lemma prune_premature_step:
  assumes "output_ok s"
  shows "\<exists>r s'. prune_premature_packets s = Some (r, s') \<and> output_step s s' \<and>
     interleaved_packets s' = interleaved_packets s \<and> o_sent s' = o_sent s \<and>
     (\<forall>n. r = Some n \<longrightarrow> s' = s \<and> n \<le> length (interleaved_packets s) \<and>
        (\<exists>p \<in> set (interleaved_packets s). ptype p = OBS_ENCODER_VIDEO \<and> track_idx p = 0) \<and>
        (\<exists>p \<in> set (interleaved_packets s). ptype p = OBS_ENCODER_AUDIO))"
proof -
  let ?ps = "interleaved_packets s"
  have q: "queue_ok (o_heap s) ?ps" and sl: "slots_ok s" using assms by (simp_all add: output_ok_def)
  show ?thesis
  proof (cases "find_first_packet_type_idx ?ps OBS_ENCODER_VIDEO 0")
    case None
    then show ?thesis using output_step_refl [OF q] by (simp add: prune_premature_packets_def)
  next
    case (Some w)
    have w: "w < length ?ps" "ptype (?ps ! w) = OBS_ENCODER_VIDEO" "track_idx (?ps ! w) = 0"
      using find_first_idx_Some [OF Some] by simp_all
    then have v: "\<exists>p \<in> set ?ps. ptype p = OBS_ENCODER_VIDEO \<and> track_idx p = 0" by fastforce
    have den: "timebase_den (?ps ! w) \<noteq> 0"
      using q w(1) nth_mem [OF w(1)] unfolding queue_ok_def track_ok_def by blast
    obtain r where r: "prune_audio_loop s (?ps ! w) audio_slots
        \<lparr>pa_max_idx = w, pa_max_diff = 0, pa_diff = 0, pa_max_audio_duration_usec = 0,
         pa_audio_encoders = 0\<rparr> = Some r"
      "\<forall>acc'. r = Some acc' \<longrightarrow> pa_max_idx acc' < length ?ps \<and>
        (\<forall>i \<in> set audio_slots. audio_encoders s i \<noteq> None \<longrightarrow>
           find_first_packet_type_idx ?ps OBS_ENCODER_AUDIO i \<noteq> None)"
      using prune_audio_loop_returns [of s _ "?ps ! w" audio_slots] sl w(1)
      unfolding slots_ok_def by (metis (no_types, lifting) prune_acc.select_convs(1))
    show ?thesis
    proof (cases r)
      case None
      have "output_step s (s\<lparr>received_audio := False\<rparr>)"
        by (rule output_step_cong [OF q]) (simp_all add: same_slots_def)
      then show ?thesis using Some den r(1) None by (simp add: prune_premature_packets_def Let_def)
    next
      case acc: (Some acc)
      obtain i where i: "i \<in> set audio_slots" "audio_encoders s i \<noteq> None"
        using sl unfolding slots_ok_def by blast
      then obtain k where "find_first_packet_type_idx ?ps OBS_ENCODER_AUDIO i = Some k"
        using r(2) acc by blast
      then have a: "\<exists>p \<in> set ?ps. ptype p = OBS_ENCODER_AUDIO"
        using find_first_idx_Some nth_mem by blast
      have "pa_max_idx acc < length ?ps" using r(2) acc by blast
      then show ?thesis
        using Some den r(1) acc v a output_step_refl [OF q]
        by (simp add: prune_premature_packets_def Let_def Suc_le_eq)
    qed
  qed
qed

text \<open>What the steps before the queue is started leave alone.\<close>

lemma prune_step:
  assumes "output_ok s"
  shows "\<exists>b s'. prune_interleaved_packets s = Some (b, s') \<and> output_step s s' \<and> o_sent s' = o_sent s"
proof -
  obtain r t where t: "prune_premature_packets s = Some (r, t)" "output_step s t"
     "interleaved_packets t = interleaved_packets s" "o_sent t = o_sent s"
     "\<forall>n. r = Some n \<longrightarrow> t = s \<and> n \<le> length (interleaved_packets s) \<and>
        (\<exists>p \<in> set (interleaved_packets s). ptype p = OBS_ENCODER_VIDEO \<and> track_idx p = 0) \<and>
        (\<exists>p \<in> set (interleaved_packets s). ptype p = OBS_ENCODER_AUDIO)"
    using prune_premature_step [OF assms] by blast
  show ?thesis
  proof (cases r)
    case None
    then show ?thesis using t by (simp add: prune_interleaved_packets_def)
  next
    case (Some n)
    have q: "queue_ok (o_heap s) (interleaved_packets s)" using assms by (simp add: output_ok_def)
    have ts: "t = s" using t(5) Some by blast
    have "\<exists>k. (if n \<noteq> 0 then Some n else get_interleaved_start_idx (interleaved_packets s)) = Some k \<and>
        k \<le> length (interleaved_packets s)"
      using t(5) Some start_idx_returns [of "interleaved_packets s"] by (auto intro: less_imp_le)
    then obtain k where k: "(if n \<noteq> 0 then Some n else get_interleaved_start_idx (interleaved_packets s)) = Some k"
        "k \<le> length (interleaved_packets s)" by blast
    have "\<exists>u. (if k \<noteq> 0 then discard_to_idx k s else Some s) = Some u \<and> output_step s u \<and> o_sent u = o_sent s"
      using discard_to_idx_step [OF q k(2)] output_step_refl [OF q] by auto
    then obtain u where u: "(if k \<noteq> 0 then discard_to_idx k s else Some s) = Some u" "output_step s u"
       "o_sent u = o_sent s" by blast
    have "prune_interleaved_packets s = Some (True, u)"
      unfolding prune_interleaved_packets_def t(1) bind.bind_lunit prod.case Some option.case ts k(1) u(1)
      by simp
    then show ?thesis using u by blast
  qed
qed

lemma get_av_cases:
  assumes "queue_ok (o_heap s) (interleaved_packets s)"
  shows "\<exists>b s'. get_audio_and_video_packets s = (b, s') \<and> output_step s s' \<and> o_sent s' = o_sent s \<and>
     (b \<longrightarrow> s' = s \<and>
       (\<forall>i \<in> set video_slots. video_encoders s i \<noteq> None \<longrightarrow>
          find_first_packet_type (interleaved_packets s) OBS_ENCODER_VIDEO i \<noteq> None) \<and>
       (\<forall>i \<in> set audio_slots. audio_encoders s i \<noteq> None \<longrightarrow>
          find_first_packet_type (interleaved_packets s) OBS_ENCODER_AUDIO i \<noteq> None))"
proof -
  let ?f = "find_first_packet_type (interleaved_packets s)"
  have st: "output_step s (s\<lparr>received_video := x\<rparr>)" "output_step s (s\<lparr>received_audio := y\<rparr>)" for x y
    by (rule output_step_cong [OF assms]; simp add: same_slots_def)+
  show ?thesis
  proof (cases "find (\<lambda>i. video_encoders s i \<noteq> None \<and> ?f OBS_ENCODER_VIDEO i = None) video_slots")
    case (Some i)
    then show ?thesis using st by (intro exI [of _ False]) (simp add: get_audio_and_video_packets_def Let_def)
  next
    case v: None
    show ?thesis
    proof (cases "find (\<lambda>i. audio_encoders s i \<noteq> None \<and> ?f OBS_ENCODER_AUDIO i = None) audio_slots")
      case (Some i)
      then show ?thesis using v st by (intro exI [of _ False]) (simp add: get_audio_and_video_packets_def Let_def)
    next
      case None
      have e: "get_audio_and_video_packets s = (list_ex (\<lambda>i. video_encoders s i \<noteq> None) video_slots, s)"
        by (simp only: get_audio_and_video_packets_def Let_def v None option.case)
      have "\<forall>i \<in> set video_slots. video_encoders s i \<noteq> None \<longrightarrow> ?f OBS_ENCODER_VIDEO i \<noteq> None"
        using find_NoneD [OF v] by metis
      moreover have "\<forall>i \<in> set audio_slots. audio_encoders s i \<noteq> None \<longrightarrow> ?f OBS_ENCODER_AUDIO i \<noteq> None"
        using find_NoneD [OF None] by metis
      ultimately show ?thesis unfolding e using output_step_refl [OF assms] by blast
    qed
  qed
qed

lemma apply_offset_returns:
  "track_ok p \<Longrightarrow> \<exists>q. apply_interleaved_packet_offset s p = Some q \<and> track_ok q \<and> pdata q = pdata p \<and>
     ptype q = ptype p \<and> track_idx q = track_idx p \<and> keyframe q = keyframe p \<and>
     pts q = pts p - packet_offset s p \<and> dts q = dts p - packet_offset s p \<and>
     dts_usec q = packet_dts_usec q"
  by (simp add: apply_interleaved_packet_offset_def Let_def track_ok_def packet_dts_usec_def)

lemma apply_all_acc:
  "opt_fold (\<lambda>acc p. map_option (\<lambda>q. acc @ [q]) (f p)) acc ps =
     map_option (\<lambda>qs. acc @ qs) (opt_fold (\<lambda>acc p. map_option (\<lambda>q. acc @ [q]) (f p)) [] ps)"
proof (induction ps arbitrary: acc)
  case (Cons p ps)
  show ?case
  proof (cases "f p")
    case (Some q)
    then show ?thesis using Cons.IH [of "acc @ [q]"] Cons.IH [of "[q]"]
      by (simp add: option.map_comp comp_def)
  qed simp
qed simp

lemma apply_all_returns:
  "\<forall>p \<in> set ps. track_ok p \<Longrightarrow> \<exists>qs. apply_all_offsets s ps = Some qs \<and>
     list_all2 (\<lambda>p q. apply_interleaved_packet_offset s p = Some q) ps qs"
proof (induction ps)
  case (Cons p ps)
  obtain q where q: "apply_interleaved_packet_offset s p = Some q"
    using apply_offset_returns Cons.prems by (meson list.set_intros(1))
  obtain qs where qs: "apply_all_offsets s ps = Some qs"
    "list_all2 (\<lambda>p q. apply_interleaved_packet_offset s p = Some q) ps qs" using Cons by auto
  have "apply_all_offsets s (p # ps) = Some (q # qs)"
    using q qs(1) apply_all_acc [of "apply_interleaved_packet_offset s" "[q]" ps]
    by (simp add: apply_all_offsets_def)
  then show ?case using q qs(2) by blast
qed (simp add: apply_all_offsets_def)

lemma apply_all_pdata:
  assumes "list_all2 (\<lambda>p q. apply_interleaved_packet_offset s p = Some q) ps qs"
    "\<forall>p \<in> set ps. track_ok p"
  shows "map pdata qs = map pdata ps \<and> (\<forall>q \<in> set qs. track_ok q)"
  using assms
proof (induction rule: list_all2_induct)
  case (Cons p ps q qs)
  then show ?case using apply_offset_returns [of p s] by auto
qed simp

lemma new_offsets_step:
  "o_heap (new_offsets s) = o_heap s" "interleaved_packets (new_offsets s) = interleaved_packets s"
  "same_slots s (new_offsets s)" "o_sent (new_offsets s) = o_sent s"
  "highest_audio_ts (new_offsets s) = highest_audio_ts s"
  "highest_video_ts (new_offsets s) = highest_video_ts s"
  by (simp_all add: new_offsets_def Let_def same_slots_def)

lemma initialize_rest_step:
  assumes q: "queue_ok (o_heap s) (interleaved_packets s)"
    and a: "find_first_packet_type (interleaved_packets s) OBS_ENCODER_AUDIO k = Some p"
  shows "\<exists>qs. initialize_rest k s = Some (True, (new_offsets s)\<lparr>highest_audio_ts := highest_audio_ts s - dts_usec p,
            interleaved_packets := qs\<rparr>) \<and>
     list_all2 (\<lambda>p q. apply_interleaved_packet_offset (new_offsets s) p = Some q) (interleaved_packets s) qs \<and>
     output_step s ((new_offsets s)\<lparr>highest_audio_ts := highest_audio_ts s - dts_usec p,
            interleaved_packets := qs\<rparr>)"
proof -
  let ?t = "(new_offsets s)\<lparr>highest_audio_ts := highest_audio_ts s - dts_usec p\<rparr>"
  have tk: "\<forall>p \<in> set (interleaved_packets s). track_ok p" using q by (simp add: queue_ok_def)
  have same: "apply_interleaved_packet_offset ?t = apply_interleaved_packet_offset (new_offsets s)"
    by (rule ext) (simp add: apply_interleaved_packet_offset_def packet_offset_def)
  obtain qs where qs: "apply_all_offsets ?t (interleaved_packets s) = Some qs"
    "list_all2 (\<lambda>p q. apply_interleaved_packet_offset ?t p = Some q) (interleaved_packets s) qs"
    using apply_all_returns [OF tk] by blast
  have pd: "map pdata qs = map pdata (interleaved_packets s)" "\<forall>q \<in> set qs. track_ok q"
    using apply_all_pdata [OF qs(2) tk] by simp_all
  have "initialize_rest k s = Some (True, ?t\<lparr>interleaved_packets := qs\<rparr>)"
    using a qs(1) by (simp add: initialize_rest_def Let_def new_offsets_step)
  moreover have "output_step s (?t\<lparr>interleaved_packets := qs\<rparr>)"
    using queue_ok_pdata [OF q pd] held_pdata_cong [OF pd(1)] new_offsets_step(3) [of s]
    by (simp add: output_step_def new_offsets_step queue_outside_def same_slots_def)
  ultimately show ?thesis using qs(2) unfolding same by blast
qed

lemma initialize_step:
  assumes ok: "output_ok s"
  shows "\<exists>b s'. initialize_interleaved_packets s = Some (b, s') \<and> output_step s s' \<and>
     o_sent s' = o_sent s \<and> (b \<longrightarrow> interleaved_packets s' \<noteq> [])"
proof -
  let ?ps = "interleaved_packets s"
  have q: "queue_ok (o_heap s) ?ps" and sl: "slots_ok s" using ok by (simp_all add: output_ok_def)
  obtain fa where fa: "get_first_audio_encoder_index s = Some fa" "fa \<in> set audio_slots"
     "audio_encoders s fa \<noteq> None"
    using sl find_exists [of audio_slots "\<lambda>i. audio_encoders s i \<noteq> None"]
    unfolding slots_ok_def get_first_audio_encoder_index_def by blast
  have z: "0 \<in> set video_slots" by (simp add: MAX_OUTPUT_VIDEO_ENCODERS_def)
  obtain fv where fv: "get_first_video_encoder_index s = Some fv" "fv \<in> set video_slots"
     "video_encoders s fv \<noteq> None"
    using sl z find_exists [of video_slots "\<lambda>i. video_encoders s i \<noteq> None"]
    unfolding slots_ok_def get_first_video_encoder_index_def by blast
  note unf = initialize_interleaved_packets_def fa(1) fv(1) option.case
  obtain b t where t: "get_audio_and_video_packets s = (b, t)" "output_step s t" "o_sent t = o_sent s"
     "b \<longrightarrow> t = s \<and>
       (\<forall>i \<in> set video_slots. video_encoders s i \<noteq> None \<longrightarrow>
          find_first_packet_type ?ps OBS_ENCODER_VIDEO i \<noteq> None) \<and>
       (\<forall>i \<in> set audio_slots. audio_encoders s i \<noteq> None \<longrightarrow>
          find_first_packet_type ?ps OBS_ENCODER_AUDIO i \<noteq> None)"
    using get_av_cases [OF q] by blast
  show ?thesis
  proof (cases b)
    case False
    then have "initialize_interleaved_packets s = Some (False, t)" by (simp add: unf t(1))
    then show ?thesis using t(2,3) by blast
  next
    case True
    have ts: "t = s" using True t(4) by blast
    obtain video where video: "find_first_packet_type ?ps OBS_ENCODER_VIDEO fv = Some video"
      using True t(4) fv(2,3) by blast
    obtain a0 where a0: "find_first_packet_type ?ps OBS_ENCODER_AUDIO fa = Some a0"
      using True t(4) fa(2,3) by blast
    have v0: "find_first_packet_type ?ps OBS_ENCODER_VIDEO 0 \<noteq> None"
      using True t(4) z sl unfolding slots_ok_def by blast
    then obtain n where n: "get_interleaved_start_idx ?ps = Some n" "n < length ?ps"
      using start_idx_returns find_first_packet_exists find_first_packet_Some [OF a0] by metis
    show ?thesis
    proof (cases "audio_ends_before s video")
      case True
      have "initialize_interleaved_packets s = Some (False, s\<lparr>received_audio := False\<rparr>)"
        using True \<open>b\<close> by (simp add: unf t(1) ts video)
      moreover have "output_step s (s\<lparr>received_audio := False\<rparr>)"
        by (rule output_step_cong [OF q]) (simp_all add: same_slots_def)
      ultimately show ?thesis by (intro exI [of _ False] exI [of _ "s\<lparr>received_audio := False\<rparr>"]) simp
    next
      case False
      have fin: "\<exists>s'. initialize_rest fa u = Some (True, s') \<and> output_step s s' \<and> o_sent s' = o_sent s \<and>
           interleaved_packets s' \<noteq> []"
        if u: "output_step s u" "o_sent u = o_sent s"
          "find_first_packet_type (interleaved_packets u) OBS_ENCODER_AUDIO fa \<noteq> None" for u
      proof -
        obtain p where p: "find_first_packet_type (interleaved_packets u) OBS_ENCODER_AUDIO fa = Some p"
          using u(3) by auto
        have qu: "queue_ok (o_heap u) (interleaved_packets u)" using u(1) by (simp add: output_step_def)
        obtain qs where r: "initialize_rest fa u = Some (True, (new_offsets u)\<lparr>highest_audio_ts := highest_audio_ts u - dts_usec p,
            interleaved_packets := qs\<rparr>)"
          "list_all2 (\<lambda>p q. apply_interleaved_packet_offset (new_offsets u) p = Some q) (interleaved_packets u) qs"
          "output_step u ((new_offsets u)\<lparr>highest_audio_ts := highest_audio_ts u - dts_usec p,
            interleaved_packets := qs\<rparr>)"
          using initialize_rest_step [OF qu p] by blast
        have "qs \<noteq> []" using r(2) find_first_packet_Some [OF p] list_all2_lengthD by fastforce
        then show ?thesis using r output_step_trans [OF u(1) r(3)] u(2) new_offsets_step(4) by simp
      qed
      show ?thesis
      proof (cases "n = 0")
        case True
        have "initialize_interleaved_packets s = initialize_rest fa s"
          using True False \<open>b\<close> n(1) by (simp add: unf t(1) ts video)
        then show ?thesis using fin [OF output_step_refl [OF q] refl] a0 by auto
      next
        case n0: False
        obtain u where u: "discard_to_idx n s = Some u" "output_step s u"
           "interleaved_packets u = drop n ?ps" "o_sent u = o_sent s"
          using discard_to_idx_step [OF q less_imp_le [OF n(2)]] by blast
        have qu: "queue_ok (o_heap u) (interleaved_packets u)" using u(2) by (simp add: output_step_def)
        obtain c w where w: "get_audio_and_video_packets u = (c, w)" "output_step u w" "o_sent w = o_sent u"
           "c \<longrightarrow> w = u \<and>
             (\<forall>i \<in> set video_slots. video_encoders u i \<noteq> None \<longrightarrow>
                find_first_packet_type (interleaved_packets u) OBS_ENCODER_VIDEO i \<noteq> None) \<and>
             (\<forall>i \<in> set audio_slots. audio_encoders u i \<noteq> None \<longrightarrow>
                find_first_packet_type (interleaved_packets u) OBS_ENCODER_AUDIO i \<noteq> None)"
          using get_av_cases [OF qu] by blast
        have e: "initialize_interleaved_packets s =
            (if \<not> c then Some (False, w) else initialize_rest fa w)"
          using n0 False \<open>b\<close> n(1) by (simp add: unf t(1) ts video u(1) w(1))
        show ?thesis
        proof (cases c)
          case False
          then show ?thesis unfolding e using output_step_trans [OF u(2) w(2)] w(3) u(4) by auto
        next
          case True
          have "audio_encoders u fa \<noteq> None" using u(2) fa(3) by (simp add: output_step_def same_slots_def)
          then show ?thesis unfolding e using True w(4) fa(2) fin [OF u(2,4)] by auto
        qed
      qed
    qed
  qed
qed

subsection \<open>The ordered queue\<close>

lemma mset_insert_interleaved [simp]: "mset (insert_interleaved p ps) = add_mset p (mset ps)"
  by (induction ps) auto

lemma set_insert_interleaved [simp]: "set (insert_interleaved p ps) = insert p (set ps)"
  using mset_insert_interleaved [of p ps] by (metis set_mset_add_mset_insert set_mset_mset)

lemma sorted_insert_interleaved:
  "sorted (map dts_usec ps) \<Longrightarrow> sorted (map dts_usec (insert_interleaved p ps))"
  by (induction ps) (auto split: if_splits)

lemma queue_ok_insert:
  assumes "queue_ok h ps" "track_ok p" "heap_ok h'" "\<And>a. refs_of h' a = refs_of h a + holds_ref p a"
  shows "queue_ok h' (insert_interleaved p ps)"
proof -
  have "queue_ok h' (p # ps)" using assms by (auto simp: queue_ok_def)
  then show ?thesis by (rule queue_ok_mset [rotated]) simp
qed

lemma held_insert_interleaved [simp]: "held (insert_interleaved p ps) a = holds_ref p a + held ps a"
proof -
  have "held (insert_interleaved p ps) a = held (p # ps) a"
    unfolding held_def by (metis mset_insert_interleaved mset.simps(2) mset_map sum_mset_sum_list)
  then show ?thesis by simp
qed

lemma set_higher_frame:
  "o_heap (set_higher_ts p s) = o_heap s" "interleaved_packets (set_higher_ts p s) = interleaved_packets s"
  "same_slots s (set_higher_ts p s)" "o_sent (set_higher_ts p s) = o_sent s"
  "received_audio (set_higher_ts p s) = received_audio s"
  "received_video (set_higher_ts p s) = received_video s"
  "interleaver_max_batch_size (set_higher_ts p s) = interleaver_max_batch_size s"
  by (simp_all add: set_higher_ts_def same_slots_def)

text \<open>\<open>high_of s p\<close>: the highest time stamp recorded for the packet's track.\<close>

definition high_of :: "obs_output \<Rightarrow> encoder_packet \<Rightarrow> int" where
  "high_of s p = (if ptype p = OBS_ENCODER_VIDEO then highest_video_ts s (track_idx p) else highest_audio_ts s)"

lemma resort_fold:
  assumes "sorted (map dts_usec (interleaved_packets s))" "\<forall>p \<in> set (interleaved_packets s). dts_usec p \<le> high_of s p"
  shows "\<exists>s'. fold (\<lambda>p s. insert_interleaved_packet p (set_higher_ts p s)) ps s = s' \<and>
     o_heap s' = o_heap s \<and> same_slots s s' \<and> o_sent s' = o_sent s \<and>
     mset (interleaved_packets s') = mset (interleaved_packets s) + mset ps \<and>
     sorted (map dts_usec (interleaved_packets s')) \<and>
     (\<forall>p \<in> set (interleaved_packets s'). dts_usec p \<le> high_of s' p)"
  using assms
proof (induction ps arbitrary: s)
  case (Cons p ps)
  let ?t = "insert_interleaved_packet p (set_higher_ts p s)"
  have t: "o_heap ?t = o_heap s" "same_slots s ?t" "o_sent ?t = o_sent s"
    "interleaved_packets ?t = insert_interleaved p (interleaved_packets s)"
    by (simp_all add: insert_interleaved_packet_def set_higher_ts_def same_slots_def)
  have "high_of ?t q \<ge> high_of s q" "high_of ?t p \<ge> dts_usec p" for q
    by (auto simp: high_of_def insert_interleaved_packet_def set_higher_ts_def)
  then have "\<forall>q \<in> set (interleaved_packets ?t). dts_usec q \<le> high_of ?t q"
    using Cons.prems(2) order.trans by (fastforce simp: t(4))
  moreover have "sorted (map dts_usec (interleaved_packets ?t))"
    using Cons.prems(1) by (simp add: t(4) sorted_insert_interleaved)
  ultimately show ?case using Cons.IH [of ?t] t same_slots_trans [OF t(2)] by auto
qed simp

lemma resort_step:
  assumes "queue_ok (o_heap s) (interleaved_packets s)"
  shows "output_step s (resort_interleaved_packets s)"
    "mset (interleaved_packets (resort_interleaved_packets s)) = mset (interleaved_packets s)"
    "o_sent (resort_interleaved_packets s) = o_sent s"
    "sorted (map dts_usec (interleaved_packets (resort_interleaved_packets s)))"
    "\<forall>p \<in> set (interleaved_packets (resort_interleaved_packets s)).
       dts_usec p \<le> high_of (resort_interleaved_packets s) p"
proof -
  let ?r = "resort_interleaved_packets s"
  have r: "o_heap ?r = o_heap s" "same_slots (s\<lparr>interleaved_packets := []\<rparr>) ?r" "o_sent ?r = o_sent s"
     "mset (interleaved_packets ?r) = mset (interleaved_packets s)"
     "sorted (map dts_usec (interleaved_packets ?r))"
     "\<forall>p \<in> set (interleaved_packets ?r). dts_usec p \<le> high_of ?r p"
    using resort_fold [of "s\<lparr>interleaved_packets := []\<rparr>" "interleaved_packets s"]
    by (simp_all add: resort_interleaved_packets_def Let_def)
  then have "held (interleaved_packets ?r) a = held (interleaved_packets s) a" for a
    unfolding held_def by (metis mset_map sum_mset_sum_list)
  then show "output_step s ?r"
    using r queue_ok_mset [OF r(4) assms] by (simp add: output_step_def queue_outside_def same_slots_def)
  show "mset (interleaved_packets ?r) = mset (interleaved_packets s)" "o_sent ?r = o_sent s"
    "sorted (map dts_usec (interleaved_packets ?r))"
    "\<forall>p \<in> set (interleaved_packets ?r). dts_usec p \<le> high_of ?r p"
    by (fact r)+
qed

subsection \<open>The packet handler\<close>

lemma get_encoder_index_bound:
  "get_encoder_index s p < (if ptype p = OBS_ENCODER_VIDEO then MAX_OUTPUT_VIDEO_ENCODERS else MAX_OUTPUT_AUDIO_ENCODERS)"
proof -
  have "(case find P [0..<n] of Some i \<Rightarrow> i | None \<Rightarrow> 0) < n" if "0 < n" for P and n :: nat
    using that find_Some_idx [of P "[0..<n]"] by (auto split: option.splits)
  then show ?thesis
    by (simp add: get_encoder_index_def Let_def MAX_OUTPUT_VIDEO_ENCODERS_def MAX_OUTPUT_AUDIO_ENCODERS_def)
qed

definition handed_over :: "obs_output \<Rightarrow> encoder_packet \<Rightarrow> bool" where
  "handed_over s p \<longleftrightarrow> timebase_den p \<noteq> 0 \<and> pencoder p \<noteq> None \<and>
     (case pdata p of None \<Rightarrow> psize p = 0
      | Some a \<Rightarrow> held (interleaved_packets s) a < refs_of (o_heap s) a \<and>
          (\<exists>b. payloads (o_heap s) a = Some b \<and> psize p \<le> length (bytes b)))"

lemma discard_unused_step:
  assumes "queue_ok (o_heap s) (interleaved_packets s)"
  shows "\<exists>s'. discard_unused_audio_packets t s = Some s' \<and> output_step s s' \<and> o_sent s' = o_sent s"
proof -
  let ?n = "length (takeWhile (\<lambda>p. dts_usec p < t) (interleaved_packets s))"
  have "?n \<le> length (interleaved_packets s)" by (rule length_takeWhile_le)
  then show ?thesis using discard_to_idx_step [OF assms] output_step_refl [OF assms]
    by (fastforce simp: discard_unused_audio_packets_def Let_def)
qed

lemma alignment_step:
  assumes "queue_ok (o_heap s) (interleaved_packets s)" "pencoder p \<noteq> None"
  shows "\<exists>ks. check_encoder_group_keyframe_alignment p s = Some (s\<lparr>keyframe_group_tracking := ks\<rparr>)"
proof -
  have e: "\<exists>ks. s = s\<lparr>keyframe_group_tracking := ks\<rparr>"
    by (rule exI [of _ "keyframe_group_tracking s"]) simp
  obtain e0 where e0: "pencoder p = Some e0" using assms(2) by auto
  show ?thesis
  proof (cases "keyframe p \<and> ptype p = OBS_ENCODER_VIDEO \<and> enc_group (encoder_table s e0) \<noteq> None")
    case True
    then obtain g where "enc_group (encoder_table s e0) = Some g" by auto
    then show ?thesis using True e0
      by (simp add: check_encoder_group_keyframe_alignment_def Let_def) blast
  next
    case False
    then have "check_encoder_group_keyframe_alignment p s = Some s"
      using e0 by (auto simp: check_encoder_group_keyframe_alignment_def)
    then show ?thesis using e by simp
  qed
qed

lemma start_interleaving_step:
  assumes "output_ok s"
  shows "\<exists>s'. start_interleaving now s = Some s' \<and> output_step s s'"
proof -
  have sl: "slots_ok s" using assms by (simp add: output_ok_def)
  obtain b t where t: "prune_interleaved_packets s = Some (b, t)" "output_step s t"
    using prune_step [OF assms] by blast
  obtain c u where u: "initialize_interleaved_packets t = Some (c, u)" "output_step t u"
      "c \<longrightarrow> interleaved_packets u \<noteq> []"
    using initialize_step [OF output_step_ok [OF t(2) sl]] by blast
  let ?v = "apply_ept_offsets (resort_interleaved_packets u)"
  have qu: "queue_ok (o_heap u) (interleaved_packets u)" using u(2) by (simp add: output_step_def)
  have su: "output_step s u" by (rule output_step_trans [OF t(2) u(2)])
  have r: "output_step u (resort_interleaved_packets u)" using resort_step [OF qu] by simp
  have qr: "queue_ok (o_heap (resort_interleaved_packets u)) (interleaved_packets (resort_interleaved_packets u))"
    using r by (simp add: output_step_def)
  have "output_step (resort_interleaved_packets u) ?v"
    by (rule output_step_cong [OF qr]) (simp_all add: apply_ept_offsets_def same_slots_def)
  then have v: "output_step s ?v" using output_step_trans [OF su output_step_trans [OF r]] by blast
  show ?thesis
  proof (cases "b \<and> c")
    case False
    then show ?thesis using t u su by (cases b) (auto simp: start_interleaving_def)
  next
    case True
    have "mset (interleaved_packets ?v) = mset (interleaved_packets u)"
      using resort_step(2) [OF qu] by (simp add: apply_ept_offsets_def)
    then obtain p ps where p: "interleaved_packets ?v = p # ps"
      using u(3) True by (cases "interleaved_packets ?v") auto
    have "queue_ok (o_heap ?v) (interleaved_packets ?v)" using v by (simp add: output_step_def)
    then obtain w where "send_interleaved now ?v = Some w" "output_step ?v w"
      using send_interleaved_step [OF _ p] by blast
    then show ?thesis using True t(1) u(1) output_step_trans [OF v]
      by (auto simp: start_interleaving_def)
  qed
qed

lemma count_streamable_head:
  "count_streamable_frames s \<noteq> 0 \<Longrightarrow> \<exists>p ps. interleaved_packets s = p # ps \<and> has_higher_opposing_ts s p"
  by (cases "interleaved_packets s") (auto simp: count_streamable_frames_def split: if_splits)

lemma send_streamable_step:
  assumes q: "queue_ok (o_heap s) (interleaved_packets s)"
  shows "\<exists>s'. send_streamable now out s = Some s' \<and> output_step s s'"
proof -
  let ?t = "set_higher_ts out s"
  have t: "output_step s ?t"
    by (rule output_step_cong [OF q]) (simp_all add: set_higher_frame)
  have qt: "queue_ok (o_heap ?t) (interleaved_packets ?t)" using t by (simp add: output_step_def)
  show ?thesis
  proof (cases "count_streamable_frames ?t = 0")
    case True
    then show ?thesis using t by (simp add: send_streamable_def Let_def)
  next
    case False
    then obtain p ps where p: "interleaved_packets ?t = p # ps" using count_streamable_head by blast
    obtain u where u: "send_interleaved now ?t = Some u" "output_step ?t u" "interleaved_packets u = ps"
      using send_interleaved_step [OF qt p] by blast
    have su: "output_step s u" by (rule output_step_trans [OF t u(2)])
    have qu: "queue_ok (o_heap u) (interleaved_packets u)" using u(2) by (simp add: output_step_def)
    show ?thesis
    proof (cases "count_streamable_frames ?t - 1 > interleaver_max_batch_size u")
      case True
      have "count_streamable_frames ?t \<le> length (p # ps)"
        unfolding count_streamable_frames_def p by (rule length_takeWhile_le)
      then obtain p' ps' where "interleaved_packets u = p' # ps'" using True u(3) by (cases ps) auto
      from send_interleaved_step [OF qu this] obtain w where
        "send_interleaved now u = Some w" "output_step u w" by blast
      then show ?thesis using True False u(1) output_step_trans [OF su] by (auto simp: send_streamable_def Let_def)
    next
      case no: False
      then show ?thesis using False u(1) su by (auto simp: send_streamable_def Let_def)
    qed
  qed
qed

lemma add_packet_time_frame:
  "o_heap (add_packet_time p pt k s) = o_heap s"
  "interleaved_packets (add_packet_time p pt k s) = interleaved_packets s"
  "same_slots s (add_packet_time p pt k s)" "o_sent (add_packet_time p pt k s) = o_sent s"
  "received_audio (add_packet_time p pt k s) = received_audio s"
  "received_video (add_packet_time p pt k s) = received_video s"
  "video_offsets (add_packet_time p pt k s) = video_offsets s"
  "audio_offsets (add_packet_time p pt k s) = audio_offsets s"
  "highest_audio_ts (add_packet_time p pt k s) = highest_audio_ts s"
  "highest_video_ts (add_packet_time p pt k s) = highest_video_ts s"
  by (cases pt; simp add: add_packet_time_def same_slots_def)+

lemma check_received_frame:
  "o_heap (check_received p s) = o_heap s"
  "interleaved_packets (check_received p s) = interleaved_packets s"
  "same_slots s (check_received p s)"
  by (simp_all add: check_received_def same_slots_def)

text \<open>Taking the packet over: a new payload, or the reference the delay queue held.\<close>

lemma take_over:
  assumes "queue_ok (o_heap s) ps" "handed_over s p" "ps = interleaved_packets s"
    and "track_ok p"
  shows "\<exists>out h. (if active_delay_ns s \<noteq> 0 then Some (p, o_heap s)
                       else obs_encoder_packet_create_instance (o_heap s) p) = Some (out, h) \<and>
     track_ok out \<and> (\<exists>d. out = p\<lparr>pdata := d\<rparr>) \<and> queue_ok h (out # ps) \<and>
     (\<forall>a. refs_of h a - held (out # ps) a = queue_outside s a -
        (if active_delay_ns s \<noteq> 0 then holds_ref p a else 0))"
proof (cases "active_delay_ns s = 0")
  case False
  have "holds_ref p a + held ps a \<le> refs_of (o_heap s) a" for a
  proof (cases "pdata p = Some a")
    case True
    then show ?thesis using assms(2,3) by (simp add: handed_over_def holds_ref_def)
  next
    case False
    then show ?thesis using assms(1) by (simp add: queue_ok_def holds_ref_def)
  qed
  then have "queue_ok (o_heap s) (p # ps)" using assms(1,4) by (simp add: queue_ok_def)
  moreover have "\<exists>d. p = p\<lparr>pdata := d\<rparr>" by (rule exI [of _ "pdata p"]) simp
  ultimately show ?thesis using False assms(3,4)
    by (intro exI [of _ p] exI [of _ "o_heap s"] conjI) (simp_all add: queue_outside_def)
next
  case True
  have hp: "heap_ok (o_heap s)" using assms(1) by (simp add: queue_ok_def)
  obtain out h where o: "obs_encoder_packet_create_instance (o_heap s) p = Some (out, h)" "heap_ok h"
     "\<exists>a. out = p\<lparr>pdata := Some a\<rparr>" "\<And>a. refs_of h a = refs_of (o_heap s) a + holds_ref out a"
  proof -
    have "case pdata p of None \<Rightarrow> psize p = 0
              | Some a \<Rightarrow> (\<exists>b. payloads (o_heap s) a = Some b \<and> psize p \<le> length (bytes b))"
      using assms(2) by (simp add: handed_over_def split: option.splits)
    from create_instance_ok [OF hp this] show ?thesis using that by blast
  qed
  have tk: "track_ok out" using o(3) assms(4) by (auto simp: track_ok_def)
  have "queue_ok h (out # ps)" using assms(1) o(2,4) tk by (simp add: queue_ok_def)
  moreover have "\<exists>d. out = p\<lparr>pdata := d\<rparr>" using o(3) by blast
  ultimately show ?thesis using True o(1,4) tk assms(3)
    by (intro exI [of _ out] exI [of _ h] conjI) (simp_all add: queue_outside_def)
qed

lemma insert_step:
  assumes "queue_ok h (out # interleaved_packets s)" "o_heap s = h"
  shows "queue_ok h (interleaved_packets (insert_interleaved_packet out s))"
    "queue_outside (insert_interleaved_packet out s) a = refs_of h a - held (out # interleaved_packets s) a"
    "same_slots s (insert_interleaved_packet out s)" "o_heap (insert_interleaved_packet out s) = h"
  using queue_ok_mset [OF _ assms(1), of "insert_interleaved out (interleaved_packets s)"] assms(2)
  by (simp_all add: insert_interleaved_packet_def queue_outside_def same_slots_def)


lemma queue_ok_heap: "queue_ok h (p # ps) \<Longrightarrow> queue_ok h ps"
proof -
  assume a: "queue_ok h (p # ps)"
  have "held ps x \<le> refs_of h x" for x
  proof -
    have "holds_ref p x + held ps x \<le> refs_of h x" using a by (auto simp: queue_ok_def)
    then show ?thesis using holds_ref_nonneg [of p x] by linarith
  qed
  then show "queue_ok h ps" using a by (simp add: queue_ok_def)
qed

definition started :: "obs_output \<Rightarrow> bool" where
  "started s \<longleftrightarrow> received_audio s \<and> all_video_received s"

lemma started_cong:
  "same_slots s t \<Longrightarrow> received_audio t = received_audio s \<Longrightarrow> received_video t = received_video s \<Longrightarrow>
     started t = started s"
  by (simp add: started_def all_video_received_def same_slots_def)

text \<open>What an insertion into the queue starts from: the packet to insert and the state.\<close>

definition same_flow :: "obs_output \<Rightarrow> obs_output \<Rightarrow> bool" where
  "same_flow s b \<longleftrightarrow> same_slots s b \<and> interleaved_packets b = interleaved_packets s \<and>
     o_sent b = o_sent s \<and> highest_audio_ts b = highest_audio_ts s \<and>
     highest_video_ts b = highest_video_ts s \<and> video_offsets b = video_offsets s \<and>
     audio_offsets b = audio_offsets s"

lemma apply_offset_cong:
  "video_offsets t = video_offsets s \<Longrightarrow> audio_offsets t = audio_offsets s \<Longrightarrow>
     apply_interleaved_packet_offset t p = apply_interleaved_packet_offset s p"
  by (simp add: apply_interleaved_packet_offset_def packet_offset_def)

lemma interleave_unfold:
  fixes s p
  defines "q \<equiv> p\<lparr>track_idx := get_encoder_index s p\<rparr>"
  assumes ok: "output_ok s" and p: "handed_over s p" and act: "o_active s"
    and late: "\<not> (ptype q = OBS_ENCODER_VIDEO \<and> \<not> received_video s (track_idx q) \<and> \<not> keyframe q)"
  shows "\<exists>d out b. queue_ok (o_heap b) (out # interleaved_packets s) \<and> same_flow s b \<and>
     (\<forall>a. refs_of (o_heap b) a - held (out # interleaved_packets s) a = queue_outside s a -
        (if active_delay_ns s \<noteq> 0 then holds_ref p a else 0)) \<and>
     (if started s then apply_interleaved_packet_offset s (q\<lparr>pdata := d\<rparr>) = Some out \<and> started b
      else out = q\<lparr>pdata := d\<rparr>) \<and>
     interleave_packets now p pt s =
       (let i = insert_interleaved_packet out b in
        if started i then if \<not> started s then start_interleaving now i else send_streamable now out i
        else Some i)"
proof -
  let ?ps = "interleaved_packets s"
  have qk: "queue_ok (o_heap s) ?ps" using ok by (simp add: output_ok_def)
  have ho: "handed_over s q" using p by (simp add: handed_over_def q_def split: option.splits)
  have tk: "track_ok q" using p get_encoder_index_bound [of s p]
    by (simp add: handed_over_def track_ok_def q_def)
  have hr: "holds_ref q a = holds_ref p a" for a by (simp add: holds_ref_def q_def)
  obtain ks where ks: "check_encoder_group_keyframe_alignment q s = Some (s\<lparr>keyframe_group_tracking := ks\<rparr>)"
    using alignment_step [OF qk, of q] p by (auto simp: handed_over_def q_def)
  let ?k = "s\<lparr>keyframe_group_tracking := ks\<rparr>"
  obtain d out h where oh: "(if active_delay_ns s \<noteq> 0 then Some (q, o_heap s)
                     else obs_encoder_packet_create_instance (o_heap s) q) = Some (out, h)"
    "track_ok out" "out = q\<lparr>pdata := d\<rparr>" "queue_ok h (out # ?ps)"
    "\<And>a. refs_of h a - held (out # ?ps) a = queue_outside s a -
      (if active_delay_ns s \<noteq> 0 then holds_ref p a else 0)"
    using take_over [OF qk ho refl tk] hr by metis
  define ws where "ws \<longleftrightarrow> received_audio ?k \<and> all_video_received ?k"
  have ws: "ws \<longleftrightarrow> started s" by (simp add: ws_def started_def all_video_received_def)
  define A where "A = add_packet_time q pt (if ws then packet_offset (?k\<lparr>o_heap := h\<rparr>) out else 0) (?k\<lparr>o_heap := h\<rparr>)"
  have a: "o_heap A = h" "same_flow s A" "received_audio A = received_audio s"
    "received_video A = received_video s"
    using add_packet_time_frame(3) [of "?k\<lparr>o_heap := h\<rparr>" q pt]
    by (simp_all add: add_packet_time_frame same_slots_def same_flow_def A_def)
  have "\<exists>o2 b. (if ws then map_option (\<lambda>out. (out, A)) (apply_interleaved_packet_offset A out)
                     else Some (out, check_received q A)) = Some (o2, b) \<and>
      queue_ok h (o2 # ?ps) \<and> (\<forall>x. holds_ref o2 x = holds_ref out x) \<and> o_heap b = h \<and> same_flow s b \<and>
      (if ws then apply_interleaved_packet_offset s out = Some o2 \<and> b = A else o2 = out)"
  proof (cases ws)
    case True
    obtain o2 where o2: "apply_interleaved_packet_offset A out = Some o2" "track_ok o2" "pdata o2 = pdata out"
      using apply_offset_returns [OF oh(2)] by blast
    have "queue_ok h (o2 # ?ps)" using queue_ok_pdata [OF oh(4), of "o2 # ?ps"] o2 oh(4)
      by (simp add: queue_ok_def)
    moreover have "apply_interleaved_packet_offset s out = Some o2"
      using o2(1) a(2) apply_offset_cong [of A s] by (simp add: same_flow_def)
    ultimately show ?thesis using True o2 a by (simp add: holds_ref_def)
  next
    case False
    have "same_flow s (check_received q A)"
      using a(2) by (simp add: same_flow_def same_slots_def check_received_def)
    then show ?thesis using False oh(4) a
      by (intro exI [of _ out] exI [of _ "check_received q A"] conjI)
         (simp_all add: check_received_frame)
  qed
  then obtain o2 b where b: "(if ws then map_option (\<lambda>out. (out, A)) (apply_interleaved_packet_offset A out)
                     else Some (out, check_received q A)) = Some (o2, b)"
      "queue_ok h (o2 # ?ps)" "\<And>x. holds_ref o2 x = holds_ref out x" "o_heap b = h" "same_flow s b"
      "if ws then apply_interleaved_packet_offset s out = Some o2 \<and> b = A else o2 = out" by blast
  let ?i = "insert_interleaved_packet o2 b"
  have c1: "(ptype q = OBS_ENCODER_VIDEO \<and> \<not> received_video s (track_idx q) \<and> \<not> keyframe q) = False"
    using late by blast
  have oh': "(if active_delay_ns ?k \<noteq> 0 then Some (q, o_heap ?k)
                     else obs_encoder_packet_create_instance (o_heap ?k) q) = Some (out, h)"
    using oh(1) by (simp split: if_splits)
  have e: "interleave_packets now p pt s =
     (let i = ?i in
      if started i then if \<not> ws then start_interleaving now i else send_streamable now o2 i else Some i)"
    unfolding interleave_packets_def Let_def q_def [symmetric] c1 if_False ks bind.bind_lunit oh'
      prod.case ws_def [symmetric] A_def [symmetric] b(1) started_def
    by (simp add: act)
  have "started A = started s"
    using a(2) by (intro started_cong) (simp_all add: a(3,4) same_flow_def)
  then have fin: "if started s then apply_interleaved_packet_offset s (q\<lparr>pdata := d\<rparr>) = Some o2 \<and> started b
      else o2 = q\<lparr>pdata := d\<rparr>"
    using b(6) oh(3) by (simp add: ws split: if_splits)
  have refs: "refs_of (o_heap b) a - held (o2 # ?ps) a = queue_outside s a -
        (if active_delay_ns s \<noteq> 0 then holds_ref p a else 0)" for a
    using oh(5) [of a] b(3) [of a] b(4) by simp
  show ?thesis
    using b(2,4,5) refs fin e [unfolded ws] by blast
qed

lemma interleave_discarded_safe:
  assumes ok: "output_ok s" and p: "handed_over s p" and act: "o_active s"
    and discard: "ptype p = OBS_ENCODER_VIDEO" "\<not> received_video s (get_encoder_index s p)" "\<not> keyframe p"
  shows "\<exists>s'. interleave_packets now p pt s = Some s' \<and> output_ok s' \<and>
     (\<forall>a. queue_outside s' a = queue_outside s a - (if active_delay_ns s \<noteq> 0 then holds_ref p a else 0))"
proof -
  let ?p = "p\<lparr>track_idx := get_encoder_index s p\<rparr>"
  have q: "queue_ok (o_heap s) (interleaved_packets s)" and sl: "slots_ok s" using ok by (simp_all add: output_ok_def)
  have tk: "track_ok ?p" using p get_encoder_index_bound [of s p] by (simp add: handed_over_def track_ok_def)
  have hr: "holds_ref ?p a = holds_ref p a" for a by (simp add: holds_ref_def)
  obtain t where t: "discard_unused_audio_packets (dts_usec ?p) s = Some t" "output_step s t"
    using discard_unused_step [OF q] by blast
  have okt: "output_ok t" using output_step_ok [OF t(2) sl] .
  have delay: "active_delay_ns t = active_delay_ns s"
    using t(2) by (simp add: output_step_def same_slots_def)
  have e: "interleave_packets now p pt s =
      (if active_delay_ns t \<noteq> 0 then map_option (\<lambda>h. t\<lparr>o_heap := h\<rparr>) (release_packet (o_heap t) ?p) else Some t)"
    unfolding interleave_packets_def Let_def using act discard t(1) by simp
  show ?thesis
  proof (cases "active_delay_ns s = 0")
    case True
    then show ?thesis unfolding e using okt t(2) delay by (simp add: output_step_def)
  next
    case False
    have out: "queue_outside t a = queue_outside s a" for a using t(2) by (simp add: output_step_def)
    have "0 < queue_outside s a" if "pdata p = Some a" for a
      using p that by (simp add: handed_over_def queue_outside_def)
    then have "holds_ref ?p a + held (interleaved_packets t) a \<le> refs_of (o_heap t) a" for a
      using out [of a] okt
      by (auto simp: queue_outside_def holds_ref_def output_ok_def queue_ok_def)
    then have "queue_ok (o_heap t) (?p # interleaved_packets t)"
      using okt tk by (simp add: output_ok_def queue_ok_def)
    then obtain h where h: "release_packet (o_heap t) ?p = Some h" "queue_ok h (interleaved_packets t)"
      "\<And>a. refs_of h a - held (interleaved_packets t) a = refs_of (o_heap t) a - held (?p # interleaved_packets t) a"
      using queue_ok_release by blast
    have "slots_ok (t\<lparr>o_heap := h\<rparr>)" using okt by (simp add: output_ok_def slots_ok_def)
    then show ?thesis unfolding e using False delay h out
      by (simp add: output_ok_def queue_outside_def hr)
  qed
qed

text \<open>C2: One packet handed to the interleaver (\<^verbatim>\<open>interleave_packets\<close>) of an active
output, in any phase: before all tracks have delivered, while pruning and starting, and afterwards.
The handler returns: no NULL or out-of-range access, no division by zero, no use of a freed payload.
Its queue stays well formed, and references are exact: what others hold of each payload is what it
was, less the reference that the handler owns when the packet comes out of the delay queue.\<close>
theorem interleave_packets_safe:
  assumes ok: "output_ok s" and p: "handed_over s p" and act: "o_active s"
  shows "\<exists>s'. interleave_packets now p pt s = Some s' \<and> output_ok s' \<and>
     (\<forall>a. queue_outside s' a = queue_outside s a - (if active_delay_ns s \<noteq> 0 then holds_ref p a else 0))"
proof -
  let ?p = "p\<lparr>track_idx := get_encoder_index s p\<rparr>" and ?ps = "interleaved_packets s"
  have sl: "slots_ok s" using ok by (simp add: output_ok_def)
  show ?thesis
  proof (cases "ptype ?p = OBS_ENCODER_VIDEO \<and> \<not> received_video s (track_idx ?p) \<and> \<not> keyframe ?p")
    case True
    then show ?thesis using interleave_discarded_safe [OF ok p act] by simp
  next
    case False
    obtain out b where b: "queue_ok (o_heap b) (out # ?ps)" "same_flow s b"
      "\<And>a. refs_of (o_heap b) a - held (out # ?ps) a = queue_outside s a -
        (if active_delay_ns s \<noteq> 0 then holds_ref p a else 0)"
      "interleave_packets now p pt s =
       (let i = insert_interleaved_packet out b in
        if started i then if \<not> started s then start_interleaving now i else send_streamable now out i
        else Some i)"
      using interleave_unfold [OF ok p act False, of now pt] by blast
    let ?i = "insert_interleaved_packet out b"
    have b': "interleaved_packets b = ?ps" "same_slots s b" using b(2) by (simp_all add: same_flow_def)
    have i: "queue_ok (o_heap ?i) (interleaved_packets ?i)" "same_slots s ?i"
      "\<And>x. queue_outside ?i x = queue_outside s x - (if active_delay_ns s \<noteq> 0 then holds_ref p x else 0)"
      using insert_step [of "o_heap b" out b] b(1,3) b' same_slots_trans [OF b'(2)] by simp_all
    have oki: "output_ok ?i" using i(1) slots_ok_cong [OF i(2)] sl by (simp add: output_ok_def)
    obtain u where u: "start_interleaving now ?i = Some u" "output_step ?i u"
      using start_interleaving_step [OF oki] by blast
    obtain v where v: "send_streamable now out ?i = Some v" "output_step ?i v"
      using send_streamable_step [OF i(1)] by blast
    have fin: "output_ok w \<and> (\<forall>x. queue_outside w x = queue_outside s x -
        (if active_delay_ns s \<noteq> 0 then holds_ref p x else 0))" if "output_step ?i w" for w
      using output_step_ok [OF that] oki that i(3) by (simp add: output_ok_def output_step_def)
    show ?thesis unfolding b(4) Let_def u(1) v(1)
      using fin [OF u(2)] fin [OF v(2)] fin [OF output_step_refl [OF i(1)]] by (simp split: if_splits)
  qed
qed

subsection \<open>The order of the stream\<close>

text \<open>No track will deliver anything before \<open>t\<close>: each has already delivered something later.\<close>

definition tracks_reached :: "obs_output \<Rightarrow> int \<Rightarrow> bool" where
  "tracks_reached s t \<longleftrightarrow> t \<le> highest_audio_ts s \<and>
     (\<forall>i \<in> set video_slots. video_encoders s i \<noteq> None \<longrightarrow> t \<le> highest_video_ts s i)"

definition flow_inv :: "obs_output \<Rightarrow> bool" where
  "flow_inv s \<longleftrightarrow> output_ok s \<and> started s \<and> sorted (map dts_usec (o_sent s @ interleaved_packets s)) \<and>
     (\<forall>p \<in> set (interleaved_packets s). dts_usec p \<le> high_of s p) \<and>
     (\<forall>p \<in> set (o_sent s). tracks_reached s (dts_usec p))"

lemma has_higher_reached:
  assumes "has_higher_opposing_ts s p" "dts_usec p \<le> high_of s p"
  shows "tracks_reached s (dts_usec p)"
  unfolding tracks_reached_def
proof (intro conjI ballI impI)
  show "dts_usec p \<le> highest_audio_ts s"
    using assms by (cases "ptype p") (auto simp: has_higher_opposing_ts_def Let_def high_of_def)
  fix i assume i: "i \<in> set video_slots" "video_encoders s i \<noteq> None"
  then show "dts_usec p \<le> highest_video_ts s i"
  proof (cases "ptype p = OBS_ENCODER_VIDEO \<and> i = track_idx p")
    case True
    then show ?thesis using assms(2) by (simp add: high_of_def)
  next
    case False
    have "list_all (\<lambda>i. video_encoders s i = None \<or> (ptype p = OBS_ENCODER_VIDEO \<and> i = track_idx p) \<or>
            highest_video_ts s i > dts_usec p) video_slots"
      using assms(1) by (simp add: has_higher_opposing_ts_def Let_def split: if_splits)
    then show ?thesis using False i unfolding list_all_iff by fastforce
  qed
qed

lemma send_flow:
  assumes inv: "flow_inv s" and p: "interleaved_packets s = p # ps"
    and reached: "tracks_reached s (dts_usec p)"
  shows "\<exists>s'. send_interleaved now s = Some s' \<and> flow_inv s' \<and> interleaved_packets s' = ps \<and>
     o_sent s' = o_sent s @ [p] \<and> same_slots s s' \<and> highest_audio_ts s' = highest_audio_ts s \<and>
     highest_video_ts s' = highest_video_ts s"
proof -
  have q: "queue_ok (o_heap s) (interleaved_packets s)" and sl: "slots_ok s"
    using inv by (simp_all add: flow_inv_def output_ok_def)
  obtain s' where s': "send_interleaved now s = Some s'" "output_step s s'" "interleaved_packets s' = ps"
    "o_sent s' = o_sent s @ [p]" "highest_audio_ts s' = highest_audio_ts s"
    "highest_video_ts s' = highest_video_ts s" "received_audio s' = received_audio s"
    "received_video s' = received_video s"
    using send_interleaved_step [OF q p] by blast
  have sm: "same_slots s s'" using s'(2) by (simp add: output_step_def)
  have ve: "video_encoders s' = video_encoders s" using sm by (simp add: same_slots_def)
  have hi: "high_of s' = high_of s" by (rule ext) (simp add: high_of_def s'(5,6))
  have tr: "tracks_reached s' = tracks_reached s" by (rule ext) (simp add: tracks_reached_def s'(5,6) ve)
  have "started s'" using started_cong [OF sm s'(7,8)] inv by (simp add: flow_inv_def)
  then have "flow_inv s'"
    using inv output_step_ok [OF s'(2) sl] reached p by (simp add: flow_inv_def s'(3,4) hi tr)
  then show ?thesis using s' sm by blast
qed

lemma has_higher_cong:
  assumes "same_slots s t" "highest_audio_ts t = highest_audio_ts s" "highest_video_ts t = highest_video_ts s"
  shows "has_higher_opposing_ts t = has_higher_opposing_ts s"
  using assms by (intro ext) (simp add: has_higher_opposing_ts_def same_slots_def)

lemma send_streamable_flow:
  assumes inv: "flow_inv (set_higher_ts out s)"
  shows "\<exists>s'. send_streamable now out s = Some s' \<and> flow_inv s'"
proof -
  let ?t = "set_higher_ts out s"
  show ?thesis
  proof (cases "count_streamable_frames ?t = 0")
    case True
    then show ?thesis using inv by (simp add: send_streamable_def Let_def)
  next
    case False
    then obtain p ps where p: "interleaved_packets ?t = p # ps" "has_higher_opposing_ts ?t p"
      using count_streamable_head by blast
    have "tracks_reached ?t (dts_usec p)"
      using has_higher_reached [OF p(2)] inv p(1) by (simp add: flow_inv_def)
    then obtain u where u: "send_interleaved now ?t = Some u" "flow_inv u" "interleaved_packets u = ps"
      "same_slots ?t u" "highest_audio_ts u = highest_audio_ts ?t" "highest_video_ts u = highest_video_ts ?t"
      using send_flow [OF inv p(1)] by blast
    show ?thesis
    proof (cases "count_streamable_frames ?t - 1 > interleaver_max_batch_size u")
      case True
      have "count_streamable_frames ?t = Suc (count_streamable_frames u)"
        using p u(3) has_higher_cong [OF u(4-6)] by (simp add: count_streamable_frames_def)
      then have "count_streamable_frames u \<noteq> 0" using True by simp
      then obtain p' ps' where p': "interleaved_packets u = p' # ps'" "has_higher_opposing_ts u p'"
        using count_streamable_head by blast
      have "tracks_reached u (dts_usec p')"
        using has_higher_reached [OF p'(2)] u(2) p'(1) by (simp add: flow_inv_def)
      then obtain w where "send_interleaved now u = Some w" "flow_inv w"
        using send_flow [OF u(2) p'(1)] by blast
      then show ?thesis using True False u(1) by (simp add: send_streamable_def Let_def)
    next
      case no: False
      then show ?thesis using False u(1,2) by (simp add: send_streamable_def Let_def)
    qed
  qed
qed

text \<open>
  A packet comes in time when, moved to the output's clock, it is not before what its track (all
  audio tracks count as one) has delivered so far.
\<close>

definition in_time :: "obs_output \<Rightarrow> encoder_packet \<Rightarrow> bool" where
  "in_time s p \<longleftrightarrow>
     (let p = p\<lparr>track_idx := get_encoder_index s p\<rparr> in
      (ptype p = OBS_ENCODER_VIDEO \<longrightarrow> video_encoders s (track_idx p) \<noteq> None) \<and>
      (\<forall>q. apply_interleaved_packet_offset s p = Some q \<longrightarrow> high_of s p \<le> dts_usec q))"

lemma insert_flow:
  assumes inv: "flow_inv s" and b: "o_heap b = h" "interleaved_packets b = interleaved_packets s"
    "same_slots s b" "o_sent b = o_sent s" "started b" "highest_audio_ts b = highest_audio_ts s"
    "highest_video_ts b = highest_video_ts s"
    and q: "queue_ok h (out # interleaved_packets s)"
    and hi: "high_of s out \<le> dts_usec out"
    and enc: "ptype out = OBS_ENCODER_VIDEO \<longrightarrow>
        track_idx out \<in> set video_slots \<and> video_encoders s (track_idx out) \<noteq> None"
  shows "flow_inv (set_higher_ts out (insert_interleaved_packet out b))"
proof -
  let ?i = "insert_interleaved_packet out b"
  let ?t = "set_higher_ts out ?i"
  have i: "queue_ok (o_heap ?i) (interleaved_packets ?i)" "same_slots b ?i"
    "interleaved_packets ?i = insert_interleaved out (interleaved_packets s)" "o_sent ?i = o_sent s"
    using insert_step [of h out b] q b by (simp_all add: insert_interleaved_packet_def)
  have st: "same_slots s ?t"
    using same_slots_trans [OF same_slots_trans [OF b(3) i(2)] set_higher_frame(3)] .
  have "started ?i" using b(5) by (simp add: started_def all_video_received_def insert_interleaved_packet_def)
  then have started: "started ?t"
    using started_cong [OF set_higher_frame(3) set_higher_frame(5,6)] by blast
  have ok: "output_ok ?t"
    using i(1) slots_ok_cong [OF st] inv by (simp add: output_ok_def flow_inv_def set_higher_frame)
  have base: "high_of ?i = high_of s" "\<And>x. tracks_reached ?i x = tracks_reached s x"
    using b by (auto simp: high_of_def tracks_reached_def insert_interleaved_packet_def same_slots_def)
  have up: "high_of ?i x \<le> high_of ?t x" for x by (auto simp: high_of_def set_higher_ts_def)
  have up_out: "dts_usec out \<le> high_of ?t out" by (auto simp: high_of_def set_higher_ts_def)
  have reach: "tracks_reached ?i x \<Longrightarrow> tracks_reached ?t x" for x
    by (auto simp: tracks_reached_def set_higher_ts_def insert_interleaved_packet_def)
  have late: "dts_usec x \<le> dts_usec out" if "x \<in> set (o_sent s)" for x
  proof -
    have "tracks_reached s (dts_usec x)" using inv that by (simp add: flow_inv_def)
    then have "dts_usec x \<le> high_of s out" using enc by (simp add: tracks_reached_def high_of_def)
    then show ?thesis using hi by simp
  qed
  have srt: "sorted (map dts_usec (o_sent s))" "sorted (map dts_usec (interleaved_packets s))"
    "\<forall>x \<in> set (o_sent s). \<forall>y \<in> set (interleaved_packets s). dts_usec x \<le> dts_usec y"
    using inv by (auto simp: flow_inv_def sorted_append)
  have "sorted (map dts_usec (o_sent s @ insert_interleaved out (interleaved_packets s)))"
    using srt late sorted_insert_interleaved [OF srt(2)] by (auto simp: sorted_append)
  moreover have "dts_usec x \<le> high_of ?t x" if "x \<in> set (insert_interleaved out (interleaved_packets s))" for x
    using that up [of x] up_out base(1) inv by (auto simp: flow_inv_def intro: order.trans)
  moreover have "tracks_reached ?t (dts_usec x)" if "x \<in> set (o_sent s)" for x
    using that reach [of "dts_usec x"] base(2) inv by (simp add: flow_inv_def)
  ultimately show ?thesis
    using ok started i(3,4) by (simp add: flow_inv_def set_higher_frame)
qed

text \<open>C1: Once an output has started, its packet stream is in order.  If the packet handed over is
not earlier than what its track (all audio tracks together) has delivered before,
\<^verbatim>\<open>interleave_packets\<close> keeps the invariant of the stream: the packets sent so far followed by the
queue are sorted by decode time, and no track is behind anything that was sent.\<close>
theorem interleave_packets_ordered:
  assumes inv: "flow_inv s" and p: "handed_over s p" and act: "o_active s" and tm: "in_time s p"
  shows "\<exists>s'. interleave_packets now p pt s = Some s' \<and> flow_inv s' \<and> sorted (map dts_usec (o_sent s'))"
proof -
  let ?q = "p\<lparr>track_idx := get_encoder_index s p\<rparr>"
  have ok: "output_ok s" and st: "started s" using inv by (simp_all add: flow_inv_def)
  have enc: "ptype p = OBS_ENCODER_VIDEO \<longrightarrow> get_encoder_index s p \<in> set video_slots \<and>
      video_encoders s (get_encoder_index s p) \<noteq> None"
    using tm get_encoder_index_bound [of s p] by (auto simp: in_time_def Let_def)
  have late: "\<not> (ptype ?q = OBS_ENCODER_VIDEO \<and> \<not> received_video s (track_idx ?q) \<and> \<not> keyframe ?q)"
  proof
    assume a: "ptype ?q = OBS_ENCODER_VIDEO \<and> \<not> received_video s (track_idx ?q) \<and> \<not> keyframe ?q"
    then have "get_encoder_index s p \<in> set video_slots" "video_encoders s (get_encoder_index s p) \<noteq> None"
      using enc by simp_all
    moreover from this(1) have "video_encoders s (get_encoder_index s p) = None \<or>
        received_video s (get_encoder_index s p)"
      using st by (simp add: started_def all_video_received_def list_all_iff)
    ultimately have "received_video s (get_encoder_index s p)" by auto
    then show False using a by simp
  qed
  obtain d out b where b: "queue_ok (o_heap b) (out # interleaved_packets s)" "same_flow s b"
    "apply_interleaved_packet_offset s (?q\<lparr>pdata := d\<rparr>) = Some out" "started b"
    "interleave_packets now p pt s =
       (let i = insert_interleaved_packet out b in
        if started i then if \<not> started s then start_interleaving now i else send_streamable now out i
        else Some i)"
    using interleave_unfold [OF ok p act late, of now pt] st by (auto simp only: if_True)
  have "\<exists>out'. apply_interleaved_packet_offset s ?q = Some out' \<and> dts_usec out' = dts_usec out \<and>
      ptype out = ptype p \<and> track_idx out = get_encoder_index s p"
    using b(3) by (auto simp: apply_interleaved_packet_offset_def packet_offset_def packet_dts_usec_def
        Let_def split: if_splits)
  then have out: "high_of s ?q \<le> dts_usec out" "ptype out = ptype p" "track_idx out = get_encoder_index s p"
    using tm by (auto simp: in_time_def Let_def)
  have hi: "high_of s out \<le> dts_usec out" using out by (simp add: high_of_def split: if_splits)
  have "flow_inv (set_higher_ts out (insert_interleaved_packet out b))"
    using insert_flow [OF inv refl _ _ _ b(4) _ _ b(1) hi] b(2) enc out(2,3)
    by (simp add: same_flow_def)
  then obtain s' where s': "send_streamable now out (insert_interleaved_packet out b) = Some s'" "flow_inv s'"
    using send_streamable_flow by blast
  have "started (insert_interleaved_packet out b)"
    using b(4) by (simp add: started_def all_video_received_def insert_interleaved_packet_def)
  then have "interleave_packets now p pt s = Some s'"
    using b(5) st s'(1) by (simp add: Let_def)
  then show ?thesis using s'(2) by (simp add: flow_inv_def sorted_append)
qed

subsection \<open>Starting\<close>

text \<open>The state from which the stream is initialised: every track has a packet in the queue.\<close>

definition all_tracks_queued :: "obs_output \<Rightarrow> bool" where
  "all_tracks_queued s \<longleftrightarrow>
     (\<forall>i \<in> set video_slots. video_encoders s i \<noteq> None \<longrightarrow>
        find_first_packet_type (interleaved_packets s) OBS_ENCODER_VIDEO i \<noteq> None) \<and>
     (\<forall>i \<in> set audio_slots. audio_encoders s i \<noteq> None \<longrightarrow>
        find_first_packet_type (interleaved_packets s) OBS_ENCODER_AUDIO i \<noteq> None)"

definition same_received :: "obs_output \<Rightarrow> obs_output \<Rightarrow> bool" where
  "same_received s t \<longleftrightarrow> same_slots s t \<and> received_audio t = received_audio s \<and>
     received_video t = received_video s \<and> o_sent t = o_sent s \<and>
     video_offsets t = video_offsets s \<and> audio_offsets t = audio_offsets s"

lemma same_received_refl [simp]: "same_received s s" by (simp add: same_received_def)

lemma get_av_True:
  assumes "queue_ok (o_heap s) (interleaved_packets s)" "get_audio_and_video_packets s = (True, t)"
  shows "t = s \<and> all_tracks_queued s"
proof -
  obtain b s' where "get_audio_and_video_packets s = (b, s')" "b \<longrightarrow> s' = s \<and> all_tracks_queued s"
    using get_av_cases [OF assms(1)] unfolding all_tracks_queued_def by blast
  then show ?thesis using assms(2) by simp
qed

lemma discard_received:
  assumes "queue_ok (o_heap s) (interleaved_packets s)" "n \<le> length (interleaved_packets s)"
    "discard_to_idx n s = Some u"
  shows "same_received s u \<and> queue_ok (o_heap u) (interleaved_packets u)"
  using discard_to_idx_step [OF assms(1,2)] assms(3) by (auto simp: same_received_def output_step_def)

lemma discard_bound: "discard_to_idx n s = Some u \<Longrightarrow> n \<le> length (interleaved_packets s)"
  by (simp add: discard_to_idx_def split: if_splits)

lemma prune_True:
  assumes "output_ok s" "prune_interleaved_packets s = Some (True, t)"
  shows "same_received s t \<and> output_ok t"
proof -
  have q: "queue_ok (o_heap s) (interleaved_packets s)" using assms(1) by (simp add: output_ok_def)
  obtain r s1 where r: "prune_premature_packets s = Some (r, s1)" "\<forall>n. r = Some n \<longrightarrow> s1 = s"
    using prune_premature_step [OF assms(1)] by blast
  obtain n where n: "r = Some n"
    using assms(2) r(1) by (cases r) (simp_all add: prune_interleaved_packets_def)
  then have e: "prune_premature_packets s = Some (Some n, s)" using r by simp
  obtain k where k: "(if k \<noteq> 0 then discard_to_idx k s else Some s) = Some t"
    using assms(2) unfolding prune_interleaved_packets_def e bind.bind_lunit prod.case option.case
    by (auto simp only: bind_eq_Some_conv option.inject prod.inject)
  have "same_received s t"
    using k discard_received [OF q discard_bound] by (cases "k = 0") auto
  moreover have "output_ok t"
    using prune_step [OF assms(1)] assms(2) output_step_ok assms(1) by (auto simp: output_ok_def)
  ultimately show ?thesis by blast
qed

lemma initialize_True:
  assumes ok: "output_ok s" and r: "initialize_interleaved_packets s = Some (True, u)"
  shows "\<exists>w fa. same_received s w \<and> queue_ok (o_heap w) (interleaved_packets w) \<and> all_tracks_queued w \<and>
     initialize_rest fa w = Some (True, u) \<and> suffix (interleaved_packets w) (interleaved_packets s)"
proof -
  have q: "queue_ok (o_heap s) (interleaved_packets s)" using ok by (simp add: output_ok_def)
  obtain fa fv where f: "get_first_audio_encoder_index s = Some fa" "get_first_video_encoder_index s = Some fv"
    using r by (auto simp: initialize_interleaved_packets_def split: option.splits)
  obtain b t where bt: "get_audio_and_video_packets s = (b, t)" by fastforce
  have b using r by (cases b) (simp_all add: initialize_interleaved_packets_def f bt)
  then have ts: "t = s" "all_tracks_queued s" using get_av_True [OF q] bt by simp_all
  note unf = initialize_interleaved_packets_def f bt ts(1) option.case Let_def prod.case
  obtain video where v: "find_first_packet_type (interleaved_packets s) OBS_ENCODER_VIDEO fv = Some video"
    using r \<open>b\<close> unfolding unf by (auto simp: bind_eq_Some_conv)
  have na: "\<not> audio_ends_before s video" using r \<open>b\<close> unfolding unf by (auto simp: v)
  obtain n where n0: "get_interleaved_start_idx (interleaved_packets s) = Some n"
    using r \<open>b\<close> na unfolding unf by (auto simp: v bind_eq_Some_conv)
  have n: "(if n \<noteq> 0 then
                 do { s \<leftarrow> discard_to_idx n s;
                      let (ok, s) = get_audio_and_video_packets s in
                      if \<not> ok then Some (False, s) else initialize_rest fa s }
               else initialize_rest fa s) = Some (True, u)"
    using r \<open>b\<close> na n0 unfolding unf by (simp add: v)
  show ?thesis
  proof (cases "n = 0")
    case True
    then have "initialize_rest fa s = Some (True, u)" using n by simp
    then show ?thesis using ts(2) q same_received_refl suffix_order.refl by blast
  next
    case False
    then obtain w where w: "discard_to_idx n s = Some w"
      using n by (auto simp: bind_eq_Some_conv)
    obtain c x where cx: "get_audio_and_video_packets w = (c, x)" by fastforce
    have wq: "same_received s w" "queue_ok (o_heap w) (interleaved_packets w)"
      using discard_received [OF q discard_bound [OF w] w] by simp_all
    have suf: "suffix (interleaved_packets w) (interleaved_packets s)"
      using discard_to_idx_step [OF q discard_bound [OF w]] w by (auto simp: suffix_drop)
    have c using n False w cx by (cases c) simp_all
    then have x: "x = w" "all_tracks_queued w" using get_av_True [OF wq(2)] cx by simp_all
    then have "initialize_rest fa w = Some (True, u)" using n False w cx \<open>c\<close> by simp
    then show ?thesis using wq x suf by blast
  qed
qed

lemma apply_offset_frame:
  "apply_interleaved_packet_offset s p = Some q \<Longrightarrow> ptype q = ptype p \<and> track_idx q = track_idx p"
  by (auto simp: apply_interleaved_packet_offset_def Let_def split: if_splits)

lemma find_first_list_all2:
  assumes "list_all2 (\<lambda>p q. apply_interleaved_packet_offset s p = Some q) ps qs"
  shows "find_first_packet_type qs t k =
     map_option (\<lambda>p. the (apply_interleaved_packet_offset s p)) (find_first_packet_type ps t k)"
proof -
  have len: "length qs = length ps" using list_all2_lengthD [OF assms] by simp
  have ap: "apply_interleaved_packet_offset s (ps ! i) = Some (qs ! i)" if "i < length ps" for i
    using assms that by (simp add: list_all2_conv_all_nth)
  have same: "ptype (qs ! i) = ptype (ps ! i) \<and> track_idx (qs ! i) = track_idx (ps ! i)" if "i < length ps" for i
    by (rule apply_offset_frame [OF ap [OF that]])
  have "find_first_packet_type_idx qs t k = find_first_packet_type_idx ps t k"
    unfolding find_first_packet_type_idx_def len by (rule find_cong) (auto simp: same)
  then show ?thesis
    unfolding find_first_packet_type_def
    by (cases "find_first_packet_type_idx ps t k") (auto dest!: find_first_idx_Some simp: ap)
qed

text \<open>The first packet of each track is moved by the offset of its track.\<close>

lemma initialize_first_packets:
  assumes ok: "output_ok s" and r: "initialize_interleaved_packets s = Some (True, u)"
  shows "\<exists>w. same_received s w \<and> all_tracks_queued w \<and> suffix (interleaved_packets w) (interleaved_packets s) \<and>
    (\<forall>t k p. find_first_packet_type (interleaved_packets w) t k = Some p \<longrightarrow>
      (\<exists>q. find_first_packet_type (interleaved_packets u) t k = Some q \<and>
        pts q = pts p - packet_offset (new_offsets w) p \<and> dts q = dts p - packet_offset (new_offsets w) p))"
proof -
  obtain w fa where w: "same_received s w" "queue_ok (o_heap w) (interleaved_packets w)"
    "all_tracks_queued w" "initialize_rest fa w = Some (True, u)" "suffix (interleaved_packets w) (interleaved_packets s)"
    using initialize_True [OF ok r] by blast
  obtain a where a: "find_first_packet_type (interleaved_packets w) OBS_ENCODER_AUDIO fa = Some a"
    using w(4) by (auto simp: initialize_rest_def Let_def bind_eq_Some_conv new_offsets_step)
  obtain qs where qs: "interleaved_packets u = qs"
    "list_all2 (\<lambda>p q. apply_interleaved_packet_offset (new_offsets w) p = Some q) (interleaved_packets w) qs"
    using initialize_rest_step [OF w(2) a] w(4) by auto
  have "\<exists>q. find_first_packet_type (interleaved_packets u) t k = Some q \<and>
      pts q = pts p - packet_offset (new_offsets w) p \<and> dts q = dts p - packet_offset (new_offsets w) p"
    if p: "find_first_packet_type (interleaved_packets w) t k = Some p" for t k p
  proof -
    have "track_ok p" using w(2) find_first_packet_Some [OF p] by (simp add: queue_ok_def)
    then show ?thesis
      using apply_offset_returns [of p "new_offsets w"] p by (auto simp: qs(1) find_first_list_all2 [OF qs(2)])
  qed
  then show ?thesis using w(1,3,5) by blast
qed

text \<open>C28: A start puts every track at time zero.  When \<^verbatim>\<open>initialize_interleaved_packets\<close>
succeeds on an output whose offsets are still zero, the first packet left in the queue for each video encoder has
presentation time 0, and the first packet of each audio encoder has decode time 0 and its presentation time moved by the
same amount, unless it was before zero already (encoder priming), in which case its times are what they were.  The
packets left are the last ones of the queue.\<close>
theorem initialize_starts_at_zero:
  assumes ok: "output_ok s" and r: "initialize_interleaved_packets s = Some (True, u)"
    and z: "audio_offsets s = (\<lambda>_. 0)"
  shows "\<exists>left. suffix left (interleaved_packets s) \<and>
     (\<forall>i \<in> set video_slots. video_encoders s i \<noteq> None \<longrightarrow>
       (\<exists>p q. find_first_packet_type left OBS_ENCODER_VIDEO i = Some p \<and>
          find_first_packet_type (interleaved_packets u) OBS_ENCODER_VIDEO i = Some q \<and>
          pts q = 0 \<and> dts q = dts p - pts p)) \<and>
     (\<forall>i \<in> set audio_slots. audio_encoders s i \<noteq> None \<longrightarrow>
       (\<exists>p q. find_first_packet_type left OBS_ENCODER_AUDIO i = Some p \<and>
          find_first_packet_type (interleaved_packets u) OBS_ENCODER_AUDIO i = Some q \<and>
          (if 0 < dts p then dts q = 0 \<and> pts q = pts p - dts p else dts q = dts p \<and> pts q = pts p)))"
proof -
  obtain w where w: "same_received s w" "all_tracks_queued w"
    "\<And>t k p. find_first_packet_type (interleaved_packets w) t k = Some p \<Longrightarrow>
      \<exists>q. find_first_packet_type (interleaved_packets u) t k = Some q \<and>
        pts q = pts p - packet_offset (new_offsets w) p \<and> dts q = dts p - packet_offset (new_offsets w) p"
    "suffix (interleaved_packets w) (interleaved_packets s)"
    using initialize_first_packets [OF ok r] by blast
  have slots: "video_encoders w = video_encoders s" "audio_encoders w = audio_encoders s"
    and zw: "audio_offsets w = (\<lambda>_. 0)"
    using w(1) z by (simp_all add: same_received_def same_slots_def)
  have video: "\<exists>p q. find_first_packet_type (interleaved_packets w) OBS_ENCODER_VIDEO i = Some p \<and>
      find_first_packet_type (interleaved_packets u) OBS_ENCODER_VIDEO i = Some q \<and> pts q = 0 \<and> dts q = dts p - pts p"
    if i: "i \<in> set video_slots" "video_encoders s i \<noteq> None" for i
  proof -
    obtain p where p: "find_first_packet_type (interleaved_packets w) OBS_ENCODER_VIDEO i = Some p"
      using w(2) slots i by (auto simp: all_tracks_queued_def)
    then have "packet_offset (new_offsets w) p = pts p"
      using find_first_packet_Some [OF p] i slots by (simp add: packet_offset_def new_offsets_def Let_def)
    then show ?thesis using w(3) [OF p] p by auto
  qed
  have "\<exists>p q. find_first_packet_type (interleaved_packets w) OBS_ENCODER_AUDIO i = Some p \<and>
      find_first_packet_type (interleaved_packets u) OBS_ENCODER_AUDIO i = Some q \<and>
      (if 0 < dts p then dts q = 0 \<and> pts q = pts p - dts p else dts q = dts p \<and> pts q = pts p)"
    if i: "i \<in> set audio_slots" "audio_encoders s i \<noteq> None" for i
  proof -
    obtain p where p: "find_first_packet_type (interleaved_packets w) OBS_ENCODER_AUDIO i = Some p"
      using w(2) slots i by (auto simp: all_tracks_queued_def)
    then have "packet_offset (new_offsets w) p = (if dts p > 0 then dts p else 0)"
      using find_first_packet_Some [OF p] i slots zw by (simp add: packet_offset_def new_offsets_def Let_def)
    then show ?thesis using w(3) [OF p] p by auto
  qed
  with video w(4) show ?thesis by blast
qed

text \<open>The first packet an output sends opens an ordered stream.  When a state in which every
track has delivered gets through pruning and initialisation, so that its first packet is sent, the
invariant of the stream holds from then on, although this first packet is sent without the check that
later packets have to pass.\<close>
theorem start_interleaving_ordered:
  assumes ok: "output_ok s" and st: "started s" and fresh: "o_sent s = []"
    and r: "start_interleaving now s = Some s'" and sent: "o_sent s' \<noteq> []"
  shows "flow_inv s'"
proof -
  obtain b t where t: "prune_interleaved_packets s = Some (b, t)" "output_step s t" "o_sent t = []"
    using prune_step [OF ok] fresh by auto
  have sl: "slots_ok s" using ok by (simp add: output_ok_def)
  have okt: "output_ok t" using output_step_ok [OF t(2) sl] .
  obtain c u where u: "initialize_interleaved_packets t = Some (c, u)" "output_step t u" "o_sent u = []"
      "c \<longrightarrow> interleaved_packets u \<noteq> []"
    using initialize_step [OF okt] t(3) by auto
  have "b \<and> c" using r sent t u by (cases b; cases c) (auto simp: start_interleaving_def)
  then have b: b and c: c by auto
  have rt: "same_received s t" using prune_True [OF ok] t(1) b by simp
  obtain w fa where w: "same_received t w" "queue_ok (o_heap w) (interleaved_packets w)"
    "all_tracks_queued w" "initialize_rest fa w = Some (True, u)"
    using initialize_True [OF okt] u(1) c by auto
  obtain a where a: "find_first_packet_type (interleaved_packets w) OBS_ENCODER_AUDIO fa = Some a"
    using w(4) by (auto simp: initialize_rest_def Let_def bind_eq_Some_conv new_offsets_step)
  obtain qs where u': "u = (new_offsets w)\<lparr>highest_audio_ts := highest_audio_ts w - dts_usec a,
            interleaved_packets := qs\<rparr>"
    and qs: "list_all2 (\<lambda>p q. apply_interleaved_packet_offset (new_offsets w) p = Some q) (interleaved_packets w) qs"
    using initialize_rest_step [OF w(2) a] w(4) by auto
  have ipu: "interleaved_packets u = qs" by (simp add: u')
  let ?v = "apply_ept_offsets (resort_interleaved_packets u)" and ?r = "resort_interleaved_packets u"
  have oku: "output_ok u" using output_step_ok [OF u(2)] okt by (simp add: output_ok_def)
  have qu: "queue_ok (o_heap u) (interleaved_packets u)" using oku by (simp add: output_ok_def)
  note rs = resort_step [OF qu]
  have okr: "output_ok ?r" using output_step_ok [OF rs(1)] oku by (simp add: output_ok_def)
  have v: "interleaved_packets ?v = interleaved_packets ?r" "o_heap ?v = o_heap ?r" "o_sent ?v = o_sent ?r"
    "same_slots ?r ?v" "high_of ?v = high_of ?r" "highest_audio_ts ?v = highest_audio_ts ?r"
    "highest_video_ts ?v = highest_video_ts ?r"
    by (auto simp: apply_ept_offsets_def same_slots_def high_of_def)
  have okv: "output_ok ?v" using okr v slots_ok_cong [OF v(4)] by (simp add: output_ok_def)
  have slots: "same_slots u ?v" using rs(1) v(4) same_slots_trans by (auto simp: output_step_def)
  have rec: "received_audio ?v = received_audio u" "received_video ?v = received_video u"
  proof -
    have "received_audio (fold (\<lambda>p s. insert_interleaved_packet p (set_higher_ts p s)) ps x) = received_audio x \<and>
        received_video (fold (\<lambda>p s. insert_interleaved_packet p (set_higher_ts p s)) ps x) = received_video x" for ps x
      by (induction ps arbitrary: x) (simp_all add: insert_interleaved_packet_def set_higher_ts_def)
    then show "received_audio ?v = received_audio u" "received_video ?v = received_video u"
      by (simp_all add: apply_ept_offsets_def resort_interleaved_packets_def Let_def)
  qed
  have "started u"
    using st rt w(1) by (simp add: u' started_def all_video_received_def same_received_def same_slots_def
        new_offsets_def Let_def)
  then have stv: "started ?v" using started_cong [OF slots rec] by simp
  have "o_sent ?v = []" using v(3) rs(3) u(3) by simp
  then have flow: "flow_inv ?v"
    using okv stv rs(4,5) by (simp add: flow_inv_def v)
  have "mset (interleaved_packets ?v) = mset (interleaved_packets u)" using rs(2) v(1) by simp
  then obtain p ps where p: "interleaved_packets ?v = p # ps"
    using u(4) c by (cases "interleaved_packets ?v") auto
  have least: "dts_usec p \<le> dts_usec q" if "q \<in> set (interleaved_packets ?v)" for q
    using rs(4) that p v(1) by auto
  have present: "\<exists>q \<in> set (interleaved_packets ?v). ptype q = ty \<and> track_idx q = i"
    if f: "find_first_packet_type (interleaved_packets w) ty i \<noteq> None" for ty i
  proof -
    have "find_first_packet_type qs ty i \<noteq> None"
      using f find_first_list_all2 [OF qs, of ty i] by auto
    then have "\<exists>q \<in> set qs. ptype q = ty \<and> track_idx q = i" using find_first_packet_exists by blast
    moreover have "set (interleaved_packets ?v) = set qs"
      using mset_eq_setD [OF rs(2)] v(1) ipu by simp
    ultimately show ?thesis by simp
  qed
  have encs: "video_encoders ?v = video_encoders w" "audio_encoders ?v = audio_encoders w"
    using slots by (simp_all add: u' same_slots_def new_offsets_def Let_def)
  have hi: "dts_usec q \<le> high_of ?v q" if "q \<in> set (interleaved_packets ?v)" for q
    using rs(5) that v by simp
  have "tracks_reached ?v (dts_usec p)"
    unfolding tracks_reached_def
  proof (intro conjI ballI impI)
    fix i assume i: "i \<in> set video_slots" "video_encoders ?v i \<noteq> None"
    then obtain q where "q \<in> set (interleaved_packets ?v)" "ptype q = OBS_ENCODER_VIDEO" "track_idx q = i"
      using present w(3) encs unfolding all_tracks_queued_def by metis
    then show "dts_usec p \<le> highest_video_ts ?v i" using least hi by (fastforce simp: high_of_def)
  next
    obtain i where i: "i \<in> set audio_slots" "audio_encoders ?v i \<noteq> None"
      using okv unfolding output_ok_def slots_ok_def by blast
    then obtain q where "q \<in> set (interleaved_packets ?v)" "ptype q = OBS_ENCODER_AUDIO" "track_idx q = i"
      using present w(3) encs unfolding all_tracks_queued_def by metis
    then show "dts_usec p \<le> highest_audio_ts ?v" using least hi by (fastforce simp: high_of_def)
  qed
  then obtain x where x: "send_interleaved now ?v = Some x" "flow_inv x"
    using send_flow [OF flow p] by blast
  have "start_interleaving now s = Some x"
    using t(1) u(1) b c x(1) by (simp add: start_interleaving_def)
  then show ?thesis using r x(2) by simp
qed

subsection \<open>Key frames of encoder groups\<close>

abbreviation kg_key :: "keyframe_group_data \<Rightarrow> nat \<times> int" where
  "kg_key d \<equiv> (kg_group_id d, kg_pts d)"

lemma mark_track_key [simp]:
  "kg_pts (mark_track i st d) = kg_pts d" "kg_group_id (mark_track i st d) = kg_group_id d"
  by (simp_all add: mark_track_def)

lemma align_groups_keys:
  "x \<in> set (align_groups new trk ds) \<Longrightarrow> kg_key x = kg_key new \<or> (\<exists>y \<in> set ds. kg_key x = kg_key y)"
proof (induction new trk ds rule: align_groups.induct)
  case (2 new trk d ds)
  have up: "kg_key x = kg_key new \<or> (\<exists>y \<in> set ds. kg_key x = kg_key y) \<Longrightarrow> ?case" by auto
  have here: "kg_key x = kg_key d \<Longrightarrow> ?case" by simp
  consider (a) "kg_pts d > kg_pts new" | (b) "kg_pts d \<le> kg_pts new" "kg_group_id d \<noteq> kg_group_id new"
    | (c) "kg_pts d < kg_pts new" "kg_group_id d = kg_group_id new"
    | (d) "kg_pts d = kg_pts new" "kg_group_id d = kg_group_id new" by linarith
  then show ?case
  proof cases
    case a
    then show ?thesis using "2.prems" by auto
  next
    case b
    then show ?thesis using "2.IH"(1) "2.prems" up here by (simp split: if_splits) blast
  next
    case c
    have "x \<in> set (align_groups new trk ds) \<or> kg_key x = kg_key d"
      using "2.prems" c by (auto simp: Let_def split: if_splits)
    moreover have "x \<in> set (align_groups new trk ds) \<Longrightarrow> kg_key x = kg_key new \<or> (\<exists>y \<in> set ds. kg_key x = kg_key y)"
      using "2.IH"(2,3) [OF _ _ _ refl] c
      by (cases "group_complete (mark_track trk KEYFRAME_TRACK_STATUS_SKIPPED d)") auto
    ultimately show ?thesis using up here by blast
  next
    case d
    then show ?thesis using "2.prems" by (auto simp: Let_def split: if_splits)
  qed
qed simp

text \<open>The table of key frames that an encoder group still owes stays ordered by time stamp and
holds one entry per group and time stamp, whatever key frame comes in.\<close>
theorem align_groups_ordered:
  assumes "sorted (map kg_pts ds)" "distinct (map kg_key ds)"
  shows "sorted (map kg_pts (align_groups new trk ds)) \<and> distinct (map kg_key (align_groups new trk ds))"
  using assms
proof (induction new trk ds rule: align_groups.induct)
  case (2 new trk d ds)
  have le: "kg_pts d \<le> kg_pts new \<Longrightarrow> \<forall>x \<in> set (align_groups new trk ds). kg_pts d \<le> kg_pts x"
    using align_groups_keys [of _ new trk ds] "2.prems"(1) by fastforce
  have ne: "kg_key d \<noteq> kg_key new \<Longrightarrow> kg_key d \<notin> kg_key ` set (align_groups new trk ds)"
    using align_groups_keys [of _ new trk ds] "2.prems"(2) by fastforce
  consider (a) "kg_pts d > kg_pts new" | (b) "kg_pts d \<le> kg_pts new" "kg_group_id d \<noteq> kg_group_id new"
    | (c) "kg_pts d < kg_pts new" "kg_group_id d = kg_group_id new"
    | (d) "kg_pts d = kg_pts new" "kg_group_id d = kg_group_id new" by linarith
  then show ?case
  proof cases
    case a
    then show ?thesis using "2.prems" by force
  next
    case b
    then show ?thesis using "2.IH"(1) "2.prems" le ne by simp
  next
    case c
    have ih: "sorted (map kg_pts (align_groups new trk ds)) \<and> distinct (map kg_key (align_groups new trk ds))"
      using "2.IH"(2,3) [OF _ _ _ refl] c "2.prems"
      by (cases "group_complete (mark_track trk KEYFRAME_TRACK_STATUS_SKIPPED d)") auto
    then show ?thesis using c le ne by (simp add: Let_def)
  next
    case d
    then show ?thesis using "2.prems" by (simp add: Let_def)
  qed
qed simp

subsection \<open>Concrete outputs\<close>

definition il_encoder :: encoder_info where
  "il_encoder = \<lparr>enc_timebase_num = 1, enc_timebase_den = 1000, enc_framesize = 1, enc_group = None,
     enc_group_started = 0\<rparr>"

definition il_heap :: heap where
  "il_heap = \<lparr>next_addr = 3, payloads = [0 \<mapsto> \<lparr>refs = 1, bytes = [1]\<rparr>,
     1 \<mapsto> \<lparr>refs = 1, bytes = [2]\<rparr>, 2 \<mapsto> \<lparr>refs = 1, bytes = [3]\<rparr>]\<rparr>"

definition il_packet :: "nat \<Rightarrow> encoder_type \<Rightarrow> nat \<Rightarrow> nat \<Rightarrow> int \<Rightarrow> encoder_packet" where
  "il_packet a t trk e ts = \<lparr>pdata = Some a, psize = 1, pts = ts, dts = ts, timebase_num = 1,
     timebase_den = 1000, ptype = t, keyframe = True, dts_usec = ts * 1000, sys_dts_usec = 0,
     priority = 0, drop_priority = 0, track_idx = trk, pencoder = Some e\<rparr>"

text \<open>One video encoder and two audio encoders; \<open>q\<close> is queued.\<close>

definition il_output :: "encoder_packet list \<Rightarrow> int \<Rightarrow> int \<Rightarrow> obs_output" where
  "il_output q ha hv = \<lparr>o_heap = il_heap, o_active = True, o_data_active = True,
     video_encoders = [0 \<mapsto> 1], audio_encoders = [0 \<mapsto> 2, 1 \<mapsto> 3], encoder_table = (\<lambda>_. il_encoder),
     received_video = (\<lambda>i. i = 0), received_audio = True, keyframe_group_tracking = [],
     video_offsets = (\<lambda>_. 0), audio_offsets = (\<lambda>_. 0), highest_audio_ts = ha,
     highest_video_ts = (\<lambda>_. hv), interleaved_packets = q, interleaver_max_batch_size = 3,
     encoder_packet_times = (\<lambda>_. []), active_delay_ns = 0, total_frames = 0, pkt_callbacks = 1,
     o_callback_log = [], o_sent = []\<rparr>"

definition il_start :: obs_output where
  "il_start = il_output [il_packet 0 OBS_ENCODER_VIDEO 0 1 10, il_packet 1 OBS_ENCODER_AUDIO 0 2 11,
     il_packet 2 OBS_ENCODER_AUDIO 1 3 11] 0 INT64_MIN"

lemma il_start_sends:
  "map_option (\<lambda>s. map dts_usec (o_sent s)) (start_interleaving 0 il_start) = Some [0]"
  by code_simp


lemma il_queue_ok: "queue_ok il_heap [il_packet 0 OBS_ENCODER_VIDEO 0 1 u, il_packet 1 OBS_ENCODER_AUDIO 0 2 v,
     il_packet 2 OBS_ENCODER_AUDIO 1 3 w]"
  by (auto simp: queue_ok_def il_heap_def heap_ok_def il_packet_def refs_of_def holds_ref_def track_ok_def
      MAX_OUTPUT_VIDEO_ENCODERS_def MAX_OUTPUT_AUDIO_ENCODERS_def)

lemma il_output_ok: "queue_ok il_heap q \<Longrightarrow> output_ok (il_output q ha hv)"
  by (force simp: output_ok_def slots_ok_def il_output_def il_encoder_def MAX_OUTPUT_AUDIO_ENCODERS_def)

lemma il_started: "started (il_output q ha hv)"
  by (simp add: started_def all_video_received_def il_output_def list_all_iff)

text \<open>A started output with nothing queued, at whose clock two packets arrive.\<close>

definition il_flow :: obs_output where "il_flow = il_output [] 90000 200000"

lemma il_flow_ok: "output_ok il_flow"
proof -
  have "heap_ok il_heap" by (auto simp: heap_ok_def il_heap_def)
  then show ?thesis
    unfolding il_flow_def by (intro il_output_ok) (simp add: queue_ok_def refs_of_nonneg)
qed

lemma il_flow_inv: "flow_inv il_flow"
  using il_flow_ok il_started unfolding il_flow_def by (simp add: flow_inv_def) (simp add: il_output_def)

lemma il_handed: "handed_over il_flow (il_packet 1 OBS_ENCODER_AUDIO 0 2 100)"
  by (simp add: handed_over_def il_flow_def il_output_def il_packet_def il_heap_def refs_of_def)

lemma interleave_packets_safe_witness:
  "\<exists>s'. interleave_packets 0 (il_packet 1 OBS_ENCODER_AUDIO 0 2 100) None il_flow = Some s' \<and> output_ok s' \<and>
     (\<forall>a. queue_outside s' a = queue_outside il_flow a)"
  using interleave_packets_safe [OF il_flow_ok il_handed, of 0 None]
  by (simp add: il_flow_def il_output_def)

lemma interleave_packets_ordered_witness:
  "\<exists>s'. interleave_packets 0 (il_packet 1 OBS_ENCODER_AUDIO 0 2 100) None il_flow = Some s' \<and> flow_inv s' \<and>
     sorted (map dts_usec (o_sent s'))"
proof -
  have g: "get_encoder_index il_flow (il_packet 1 OBS_ENCODER_AUDIO 0 2 100) = 0" by code_simp
  have "in_time il_flow (il_packet 1 OBS_ENCODER_AUDIO 0 2 100)"
    by (simp add: in_time_def g)
       (simp add: il_flow_def il_output_def il_packet_def apply_interleaved_packet_offset_def
          packet_offset_def packet_dts_usec_def high_of_def)
  moreover have "o_active il_flow" by (simp add: il_flow_def il_output_def)
  ultimately show ?thesis
    using interleave_packets_ordered [OF il_flow_inv il_handed, of 0 None] by blast
qed

lemma il_start_ok: "output_ok il_start" "started il_start"
  unfolding il_start_def by (rule il_output_ok [OF il_queue_ok], rule il_started)

lemma start_interleaving_ordered_witness:
  "\<exists>s'. start_interleaving 0 il_start = Some s' \<and> map dts_usec (o_sent s') = [0] \<and> flow_inv s'"
proof -
  obtain s' where s': "start_interleaving 0 il_start = Some s'" "map dts_usec (o_sent s') = [0]"
    using il_start_sends by auto
  have ne: "o_sent s' \<noteq> []" using s'(2) by (cases "o_sent s'") simp_all
  have fresh: "o_sent il_start = []" by (simp add: il_start_def il_output_def)
  have "flow_inv s'" by (rule start_interleaving_ordered [OF il_start_ok fresh s'(1) ne])
  then show ?thesis using s' by (intro exI [of _ s'] conjI)
qed

lemma initialize_starts_at_zero_witness:
  "\<exists>u left p q r. initialize_interleaved_packets il_start = Some (True, u) \<and> suffix left (interleaved_packets il_start) \<and>
     find_first_packet_type (interleaved_packets u) OBS_ENCODER_VIDEO 0 = Some q \<and> pts q = 0 \<and>
     find_first_packet_type left OBS_ENCODER_AUDIO 0 = Some p \<and>
     find_first_packet_type (interleaved_packets u) OBS_ENCODER_AUDIO 0 = Some r \<and>
     dts r = (if 0 < dts p then 0 else dts p)"
proof -
  have "map_option fst (initialize_interleaved_packets il_start) = Some True" by code_simp
  then obtain u where u: "initialize_interleaved_packets il_start = Some (True, u)" by auto
  have z: "audio_offsets il_start = (\<lambda>_. 0)" and e: "video_encoders il_start 0 \<noteq> None" "audio_encoders il_start 0 \<noteq> None"
    by (simp_all add: il_start_def il_output_def)
  have slots: "0 \<in> set video_slots" "0 \<in> set audio_slots"
    by (simp_all add: MAX_OUTPUT_VIDEO_ENCODERS_def MAX_OUTPUT_AUDIO_ENCODERS_def)
  from initialize_starts_at_zero [OF il_start_ok(1) u z] obtain left where left:
    "suffix left (interleaved_packets il_start)"
    "\<exists>p q. find_first_packet_type left OBS_ENCODER_VIDEO 0 = Some p \<and>
        find_first_packet_type (interleaved_packets u) OBS_ENCODER_VIDEO 0 = Some q \<and> pts q = 0 \<and> dts q = dts p - pts p"
    "\<exists>p q. find_first_packet_type left OBS_ENCODER_AUDIO 0 = Some p \<and>
        find_first_packet_type (interleaved_packets u) OBS_ENCODER_AUDIO 0 = Some q \<and>
        (if 0 < dts p then dts q = 0 \<and> pts q = pts p - dts p else dts q = dts p \<and> pts q = pts p)"
    using slots e by blast
  from left(2) obtain q where q: "find_first_packet_type (interleaved_packets u) OBS_ENCODER_VIDEO 0 = Some q" "pts q = 0" by blast
  from left(3) obtain p r where p: "find_first_packet_type left OBS_ENCODER_AUDIO 0 = Some p"
    "find_first_packet_type (interleaved_packets u) OBS_ENCODER_AUDIO 0 = Some r"
    "if 0 < dts p then dts r = 0 \<and> pts r = pts p - dts p else dts r = dts p \<and> pts r = pts p" by blast
  have "dts r = (if 0 < dts p then 0 else dts p)" using p(3) by (simp split: if_splits)
  with u left(1) q p(1,2) show ?thesis by blast
qed

lemma align_groups_ordered_witness:
  "map kg_pts (align_groups \<lparr>kg_group_id = 1, kg_pts = 20, kg_required_tracks = 2,
      kg_seen_on_track = (\<lambda>_. KEYFRAME_TRACK_STATUS_NOT_SEEN)\<rparr> 0
     [\<lparr>kg_group_id = 1, kg_pts = 10, kg_required_tracks = 2,
      kg_seen_on_track = (\<lambda>_. KEYFRAME_TRACK_STATUS_NOT_SEEN)\<rparr>]) = [10, 20] \<and>
   sorted (map kg_pts (align_groups \<lparr>kg_group_id = 1, kg_pts = 20, kg_required_tracks = 2,
      kg_seen_on_track = (\<lambda>_. KEYFRAME_TRACK_STATUS_NOT_SEEN)\<rparr> 0
     [\<lparr>kg_group_id = 1, kg_pts = 10, kg_required_tracks = 2,
      kg_seen_on_track = (\<lambda>_. KEYFRAME_TRACK_STATUS_NOT_SEEN)\<rparr>]))"
  by (rule conjI, code_simp, rule align_groups_ordered [THEN conjunct1]) simp_all

text \<open>With two audio tracks the stream can go backwards.  Both audio packets are in order on
their own track and the queue rule is followed, but the packet at 100 ms is sent as soon as the video
has passed it, and the other audio track delivers its packet at 90 ms after that.\<close>
theorem two_audio_tracks_out_of_order:
  "map_option (\<lambda>s. map dts_usec (o_sent s))
     (do { s \<leftarrow> interleave_packets 0 (il_packet 1 OBS_ENCODER_AUDIO 0 2 100) None il_flow;
           interleave_packets 0 (il_packet 2 OBS_ENCODER_AUDIO 0 3 90) None s }) = Some [100000, 90000]"
  by code_simp

text \<open>\<^verbatim>\<open>prune_premature_packets\<close> compares the gap of the last audio encoder only, although
it computes the largest gap: with the first audio track starting 90 ms after the video and the second 1 ms after it, nothing
is pruned, and with the two gaps exchanged everything up to there is.\<close>
theorem prune_ignores_largest_gap:
  "map_option fst (prune_premature_packets (il_output [il_packet 0 OBS_ENCODER_VIDEO 0 1 10,
       il_packet 2 OBS_ENCODER_AUDIO 1 3 11, il_packet 1 OBS_ENCODER_AUDIO 0 2 100] 0 INT64_MIN)) = Some (Some 0) \<and>
   map_option fst (prune_premature_packets (il_output [il_packet 0 OBS_ENCODER_VIDEO 0 1 10,
       il_packet 1 OBS_ENCODER_AUDIO 0 2 11, il_packet 2 OBS_ENCODER_AUDIO 1 3 100] 0 INT64_MIN)) = Some (Some 3)"
  by code_simp

end
