(* ===== verification/Output_Delay.thy ===== *)
theory Output_Delay
  imports Deque Interleaver
begin

unbundle bit_operations_syntax

text \<open>
  The stream delay of \<^verbatim>\<open>src/libobs/obs-output-delay.c\<close>: encoded packets, and the
  requests to start and to stop, wait in a queue until they are older than the delay.

  Time stamps are \<^verbatim>\<open>uint64_t\<close> nanoseconds; the difference of two of them wraps.  Reading the
  clock is the parameter \<open>t\<close>.  What leaves the queue goes to \<^verbatim>\<open>delay_callback\<close>, or makes the
  core start or stop the output; the plugin behind these, and other threads, answer with calls of the core that
  change whether the delay is active, capturing or reconnecting.  Which calls they make is the parameter
  \<open>delay_env\<close>, a function of what has happened so far; what the calls do to the control state of the
  delay is modelled here, from \<^verbatim>\<open>src/libobs/obs-output.c\<close>.
\<close>

subsection \<open>State\<close>

datatype delay_msg = DELAY_MSG_PACKET | DELAY_MSG_START | DELAY_MSG_STOP

record delay_data =
  dd_msg :: delay_msg
  dd_ts :: "64 word"
  dd_packet_time :: "encoder_packet_time option"
  dd_packet :: encoder_packet

datatype delay_event =
    DelayCallback encoder_packet "encoder_packet_time option"
  | ActualStart
  | ActualStop "64 word"
  | Unpause
  | EndCapture
  | SignalStart
  | SignalStarting
  | SignalStop
  | SignalStopping
  | SignalReconnect
  | SignalReconnectSuccess

text \<open>
  The control state: \<open>dl_running\<close> is \<^verbatim>\<open>active\<close>, \<open>dl_stopping\<close> says that the stopping
  event is not signalled, and \<open>delay_preserve\<close> is the bit of \<^verbatim>\<open>delay_cur_flags\<close>.
\<close>

record delay_control =
  dl_active :: bool
  dl_capturing :: bool
  dl_running :: bool
  dl_data_active :: bool
  dl_stopping :: bool
  dl_reconnecting :: bool
  dl_encoded :: bool
  delay_ns :: "64 word"
  delay_preserve :: bool
  delay_restart_refs :: int
  delay_sec :: "32 word"
  delay_flags :: "32 word"
  dl_events :: "delay_event list"

record delay_output =
  dl_heap :: heap
  delay_queue :: "delay_data deque"
  dl_ctl :: delay_control

abbreviation emit :: "delay_event \<Rightarrow> delay_control \<Rightarrow> delay_control" where
  "emit e c \<equiv> c\<lparr>dl_events := dl_events c @ [e]\<rparr>"

subsection \<open>The calls of the core\<close>

definition begin_delayed_capture :: "delay_control \<Rightarrow> bool \<times> delay_control" where
  "begin_delayed_capture c =
     (if dl_capturing c then (False, c)
      else let c = c\<lparr>dl_capturing := True\<rparr> in
        (True, if dl_reconnecting c then (emit SignalReconnectSuccess c)\<lparr>dl_reconnecting := False\<rparr>
               else emit SignalStart c))"

definition hook_data_capture :: "delay_control \<Rightarrow> delay_control" where
  "hook_data_capture c =
     (if dl_encoded c \<and> delay_sec c \<noteq> 0
      then c\<lparr>delay_ns := ucast (delay_sec c) * 1000000000, delay_preserve := (delay_flags c AND 1 \<noteq> 0), dl_active := True\<rparr>
      else c)"

text \<open>\<open>can_begin\<close> is the answer of \<^verbatim>\<open>can_begin_data_capture\<close>.\<close>

definition obs_output_begin_data_capture :: "bool \<Rightarrow> delay_control \<Rightarrow> bool \<times> delay_control" where
  "obs_output_begin_data_capture can_begin c =
     (if dl_active c then begin_delayed_capture c
      else if dl_running c then (False, c)
      else if \<not> can_begin then (False, c)
      else let c = (hook_data_capture (c\<lparr>dl_data_active := True\<rparr>))\<lparr>dl_running := True\<rparr> in
        (True, if dl_reconnecting c then (emit SignalReconnectSuccess c)\<lparr>dl_reconnecting := False\<rparr>
               else if dl_active c then emit SignalStarting c else emit SignalStart c))"

text \<open>\<open>EndCapture\<close> is the start of the thread that disconnects the encoders.\<close>

definition obs_output_end_data_capture_internal :: "bool \<Rightarrow> delay_control \<Rightarrow> delay_control" where
  "obs_output_end_data_capture_internal signal c =
     (if \<not> dl_running c \<or> \<not> dl_data_active c
      then (if signal then (emit SignalStop c)\<lparr>dl_stopping := False\<rparr> else c)
      else
        let capturing = dl_active c;
            c = (if capturing then c\<lparr>dl_capturing := False\<rparr> else c) in
        if capturing \<and> delay_restart_refs c \<noteq> 0 then c\<lparr>dl_stopping := False\<rparr>
        else
          let c = emit EndCapture (c\<lparr>dl_active := False, dl_data_active := False\<rparr>) in
          if signal then emit SignalStop c else c)"

definition obs_output_end_data_capture :: "delay_control \<Rightarrow> delay_control" where
  "obs_output_end_data_capture c = obs_output_end_data_capture_internal True c"

text \<open>What \<^verbatim>\<open>output_reconnect\<close> finds: the event that stops it, the retries used up, the thread created.\<close>

record reconnect_env =
  re_stop_signalled :: bool
  re_exhausted :: bool
  re_thread_ok :: bool

definition output_reconnect :: "reconnect_env \<Rightarrow> delay_control \<Rightarrow> delay_control" where
  "output_reconnect r c =
     (if dl_reconnecting c \<and> re_stop_signalled r then c\<lparr>dl_reconnecting := False\<rparr>
      else if re_exhausted r
      then obs_output_end_data_capture (c\<lparr>dl_reconnecting := False, dl_active := False\<rparr>)
      else let c = c\<lparr>dl_reconnecting := True\<rparr> in
        if \<not> re_thread_ok r then c\<lparr>dl_reconnecting := False\<rparr> else emit SignalReconnect c)"

text \<open>The argument is \<open>None\<close> when \<^verbatim>\<open>can_reconnect\<close> says no.\<close>

definition obs_output_signal_stop :: "reconnect_env option \<Rightarrow> delay_control \<Rightarrow> delay_control" where
  "obs_output_signal_stop r c =
     (case r of
        Some r \<Rightarrow>
          let c = (if dl_active c then c\<lparr>delay_restart_refs := delay_restart_refs c + 1\<rparr> else c) in
          output_reconnect r (obs_output_end_data_capture_internal False c)
      | None \<Rightarrow> obs_output_end_data_capture (c\<lparr>dl_active := False, dl_reconnecting := False\<rparr>))"

datatype core_call = Begin_Capture bool | End_Capture | Signal_Stop "reconnect_env option"

fun do_call :: "core_call \<Rightarrow> delay_control \<Rightarrow> delay_control" where
  "do_call (Begin_Capture b) c = snd (obs_output_begin_data_capture b c)"
| "do_call End_Capture c = obs_output_end_data_capture c"
| "do_call (Signal_Stop r) c = obs_output_signal_stop r c"

text \<open>
  \<open>de_calls\<close>: the calls that the plugin makes when it is called, or another thread before the next message
  leaves the queue; \<open>de_waits\<close>: those made while a start waits for a stop to end, which it is taken to do;
  \<open>de_joined\<close>: a reconnecting thread is still there to be joined; \<open>de_context\<close>: the plugin's object
  exists.
\<close>

record delay_env =
  de_context :: bool
  de_calls :: "delay_event list \<Rightarrow> core_call list"
  de_waits :: "delay_event list \<Rightarrow> core_call list"
  de_joined :: "delay_event list \<Rightarrow> bool"

definition plugin :: "delay_env \<Rightarrow> delay_event \<Rightarrow> delay_control \<Rightarrow> delay_control" where
  "plugin env e c = (let c = emit e c in fold do_call (de_calls env (dl_events c)) c)"

definition obs_output_actual_start :: "delay_env \<Rightarrow> delay_control \<Rightarrow> delay_control" where
  "obs_output_actual_start env c =
     (let c = (if dl_stopping c then (fold do_call (de_waits env (dl_events c)) c)\<lparr>dl_stopping := False\<rparr> else c);
          c = (if de_context env then plugin env ActualStart c else c) in
      if delay_restart_refs c \<noteq> 0 then c\<lparr>delay_restart_refs := delay_restart_refs c - 1\<rparr> else c)"

definition obs_output_actual_stop :: "delay_env \<Rightarrow> bool \<Rightarrow> 64 word \<Rightarrow> delay_control \<Rightarrow> delay_control" where
  "obs_output_actual_stop env force ts c =
     (if dl_stopping c \<and> \<not> force then c
      else
        let c = (emit Unpause c)\<lparr>dl_stopping := True\<rparr>;
            was_reconnecting = (dl_reconnecting c \<and> \<not> dl_active c);
            c = (if dl_reconnecting c \<and> de_joined env (dl_events c) then c\<lparr>dl_reconnecting := False\<rparr> else c);
            (call_stop, c) =
              (if force \<and> dl_active c
               then (dl_capturing c,
                     (obs_output_end_data_capture (c\<lparr>dl_active := False, dl_capturing := False\<rparr>))\<lparr>dl_stopping := False\<rparr>)
               else (True, c)) in
        if de_context env \<and> call_stop then plugin env (ActualStop ts) c
        else if was_reconnecting then (emit SignalStop c)\<lparr>dl_stopping := False\<rparr>
        else c)"

subsection \<open>Operations\<close>

definition push_packet ::
    "encoder_packet \<Rightarrow> encoder_packet_time option \<Rightarrow> 64 word \<Rightarrow> delay_output \<Rightarrow> delay_output option" where
  "push_packet packet packet_time t s =
     do { (pkt, h) \<leftarrow> obs_encoder_packet_create_instance (dl_heap s) packet;
          q \<leftarrow> deque_push (delay_queue s) \<lparr>dd_msg = DELAY_MSG_PACKET, dd_ts = t,
                 dd_packet_time = packet_time, dd_packet = pkt\<rparr>;
          Some (s\<lparr>dl_heap := h, delay_queue := q\<rparr>) }"

definition process_delay_data :: "delay_env \<Rightarrow> delay_data \<Rightarrow> delay_output \<Rightarrow> delay_output option" where
  "process_delay_data env dd s =
     (case dd_msg dd of
        DELAY_MSG_PACKET \<Rightarrow>
          (if \<not> dl_active (dl_ctl s) \<or> \<not> dl_capturing (dl_ctl s)
           then map_option (\<lambda>h. s\<lparr>dl_heap := h\<rparr>) (release_packet (dl_heap s) (dd_packet dd))
           else Some (s\<lparr>dl_ctl := plugin env (DelayCallback (dd_packet dd) (dd_packet_time dd)) (dl_ctl s)\<rparr>))
      | DELAY_MSG_START \<Rightarrow> Some (s\<lparr>dl_ctl := obs_output_actual_start env (dl_ctl s)\<rparr>)
      | DELAY_MSG_STOP \<Rightarrow> Some (s\<lparr>dl_ctl := obs_output_actual_stop env False (dd_ts dd) (dl_ctl s)\<rparr>))"

function cleanup_queue :: "heap \<Rightarrow> delay_data deque \<Rightarrow> (heap \<times> delay_data deque) option" where
  "cleanup_queue h q =
     (if dq_size q = 0 then Some (h, q)
      else case deque_pop1 q of None \<Rightarrow> None
      | Some (dd, q') \<Rightarrow>
          (case (if dd_msg dd = DELAY_MSG_PACKET then release_packet h (dd_packet dd) else Some h) of
             None \<Rightarrow> None
           | Some h' \<Rightarrow> cleanup_queue h' q'))"
  by pat_completeness auto
termination
  by (relation "measure (\<lambda>(h, q). dq_size q)") (auto dest: deque_pop1_size)

declare cleanup_queue.simps [simp del]

definition obs_output_cleanup_delay :: "delay_output \<Rightarrow> delay_output option" where
  "obs_output_cleanup_delay s =
     do { (h, q) \<leftarrow> cleanup_queue (dl_heap s) (delay_queue s);
          Some (s\<lparr>dl_heap := h, delay_queue := q, dl_ctl := (dl_ctl s)\<lparr>delay_ns := 0, delay_restart_refs := 0\<rparr>\<rparr>) }"

definition pop_packet :: "delay_env \<Rightarrow> 64 word \<Rightarrow> delay_output \<Rightarrow> (bool \<times> delay_output) option" where
  "pop_packet env t s =
     (if dq_size (delay_queue s) = 0 then Some (False, s)
      else case deque_peek1 (delay_queue s) of None \<Rightarrow> None
      | Some dd \<Rightarrow>
          (let elapsed_time = t - dd_ts dd in
           if delay_preserve (dl_ctl s) \<and> dl_reconnecting (dl_ctl s)
           then Some (False, s\<lparr>dl_ctl := (dl_ctl s)\<lparr>delay_ns := elapsed_time\<rparr>\<rparr>)
           else if elapsed_time > delay_ns (dl_ctl s) then
             do { (_, q) \<leftarrow> deque_pop1 (delay_queue s);
                  s \<leftarrow> process_delay_data env dd (s\<lparr>delay_queue := q\<rparr>);
                  Some (True, s) }
           else Some (False, s)))"

lemma process_delay_data_queue: "process_delay_data env dd s = Some s' \<Longrightarrow> delay_queue s' = delay_queue s"
  by (auto simp: process_delay_data_def split: delay_msg.splits if_splits)

lemma pop_packet_size:
  "pop_packet env t s = Some (True, s') \<Longrightarrow> dq_size (delay_queue s') < dq_size (delay_queue s)"
  by (auto simp: pop_packet_def Let_def bind_eq_Some_conv dest!: process_delay_data_queue deque_pop1_size
        split: if_splits option.splits)

function pop_packets :: "delay_env \<Rightarrow> 64 word \<Rightarrow> delay_output \<Rightarrow> delay_output option" where
  "pop_packets env t s =
     (case pop_packet env t s of None \<Rightarrow> None
      | Some (popped, s') \<Rightarrow> if popped then pop_packets env t s' else Some s')"
  by pat_completeness auto
termination
  by (relation "measure (\<lambda>(env, t, s). dq_size (delay_queue s))") (auto dest: pop_packet_size)

declare pop_packets.simps [simp del]

definition process_delay ::
    "delay_env \<Rightarrow> 64 word \<Rightarrow> encoder_packet \<Rightarrow> encoder_packet_time option \<Rightarrow> delay_output \<Rightarrow> delay_output option" where
  "process_delay env t packet packet_time s =
     do { s \<leftarrow> push_packet packet packet_time t s; pop_packets env t s }"

definition delay_message :: "delay_msg \<Rightarrow> 64 word \<Rightarrow> delay_data" where
  "delay_message m t = \<lparr>dd_msg = m, dd_ts = t, dd_packet_time = None, dd_packet = packet_zero\<rparr>"

text \<open>\<open>can_begin\<close> is the answer of \<^verbatim>\<open>obs_output_can_begin_data_capture\<close> and of the same check
  in \<^verbatim>\<open>obs_output_begin_data_capture\<close>, \<open>init_ok\<close> that of the encoders.\<close>

definition obs_output_delay_start ::
    "64 word \<Rightarrow> bool \<Rightarrow> bool \<Rightarrow> delay_output \<Rightarrow> (bool \<times> delay_output) option" where
  "obs_output_delay_start t can_begin init_ok s =
     (if \<not> dl_active (dl_ctl s) \<and> \<not> (\<not> dl_running (dl_ctl s) \<and> can_begin \<and> init_ok) then Some (False, s)
      else do {
        q \<leftarrow> deque_push (delay_queue s) (delay_message DELAY_MSG_START t);
        let s = s\<lparr>delay_queue := q,
          dl_ctl := (dl_ctl s)\<lparr>delay_restart_refs := delay_restart_refs (dl_ctl s) + 1\<rparr>\<rparr>;
        if dl_active (dl_ctl s) then Some (True, s\<lparr>dl_ctl := emit SignalStarting (dl_ctl s)\<rparr>)
        else
          let (begun, c) = obs_output_begin_data_capture can_begin (dl_ctl s); s = s\<lparr>dl_ctl := c\<rparr> in
          if \<not> begun then map_option (\<lambda>s. (False, s)) (obs_output_cleanup_delay s)
          else Some (True, s) })"

definition obs_output_delay_stop :: "64 word \<Rightarrow> delay_output \<Rightarrow> delay_output option" where
  "obs_output_delay_stop t s =
     do { q \<leftarrow> deque_push (delay_queue s) (delay_message DELAY_MSG_STOP t);
          Some (s\<lparr>delay_queue := q, dl_ctl := emit SignalStopping (dl_ctl s)\<rparr>) }"

definition obs_output_set_delay :: "32 word \<Rightarrow> 32 word \<Rightarrow> delay_output \<Rightarrow> delay_output" where
  "obs_output_set_delay sec flags s =
     (if \<not> dl_encoded (dl_ctl s) then s
      else s\<lparr>dl_ctl := (dl_ctl s)\<lparr>delay_sec := sec, delay_flags := flags\<rparr>\<rparr>)"

definition obs_output_get_delay :: "delay_output \<Rightarrow> 32 word" where
  "obs_output_get_delay s = delay_sec (dl_ctl s)"

definition obs_output_get_active_delay :: "delay_output \<Rightarrow> 32 word" where
  "obs_output_get_active_delay s = ucast (delay_ns (dl_ctl s) div 1000000000)"

subsection \<open>The queue as a list\<close>

definition dd_held :: "delay_data list \<Rightarrow> nat \<Rightarrow> int" where
  "dd_held ds a = held (map dd_packet (filter (\<lambda>d. dd_msg d = DELAY_MSG_PACKET) ds)) a"

definition delay_inv :: "delay_output \<Rightarrow> delay_data list \<Rightarrow> bool" where
  "delay_inv s ds \<longleftrightarrow> dq_rep (delay_queue s) ds \<and> heap_ok (dl_heap s) \<and>
     (\<forall>a. dd_held ds a \<le> refs_of (dl_heap s) a)"

lemma dd_held_simps [simp]:
  "dd_held [] a = 0"
  "dd_held (d # ds) a = (if dd_msg d = DELAY_MSG_PACKET then holds_ref (dd_packet d) a else 0) + dd_held ds a"
  "dd_held (ds @ es) a = dd_held ds a + dd_held es a"
  by (simp_all add: dd_held_def)

lemma dd_held_nonneg [simp]: "0 \<le> dd_held ds a"
  by (simp add: dd_held_def)

text \<open>
  What becomes of a message that leaves the queue, on the control state alone.  A packet is lost when the delay
  is not active, or not capturing, at that moment.
\<close>

definition lost :: "delay_data \<Rightarrow> delay_control \<Rightarrow> bool" where
  "lost d c \<longleftrightarrow> dd_msg d = DELAY_MSG_PACKET \<and> \<not> (dl_active c \<and> dl_capturing c)"

definition handle :: "delay_env \<Rightarrow> delay_data \<Rightarrow> delay_control \<Rightarrow> delay_control" where
  "handle env d c =
     (case dd_msg d of
        DELAY_MSG_PACKET \<Rightarrow> if lost d c then c else plugin env (DelayCallback (dd_packet d) (dd_packet_time d)) c
      | DELAY_MSG_START \<Rightarrow> obs_output_actual_start env c
      | DELAY_MSG_STOP \<Rightarrow> obs_output_actual_stop env False (dd_ts d) c)"

definition held_back :: "delay_control \<Rightarrow> bool" where
  "held_back c \<longleftrightarrow> delay_preserve c \<and> dl_reconnecting c"

text \<open>The messages that leave the queue, each tested in the control state that those before it have left.\<close>

fun due_msgs :: "delay_env \<Rightarrow> 64 word \<Rightarrow> delay_control \<Rightarrow> delay_data list \<Rightarrow> delay_data list" where
  "due_msgs env t c [] = []"
| "due_msgs env t c (d # ds) =
     (if \<not> held_back c \<and> t - dd_ts d > delay_ns c then d # due_msgs env t (handle env d c) ds else [])"

text \<open>The references that are dropped on the way.\<close>

fun drops :: "delay_env \<Rightarrow> delay_control \<Rightarrow> delay_data list \<Rightarrow> nat \<Rightarrow> int" where
  "drops env c [] a = 0"
| "drops env c (d # ds) a = (if lost d c then holds_ref (dd_packet d) a else 0) + drops env (handle env d c) ds a"

text \<open>While messages are held back the delay is the age of the oldest.\<close>

definition held_age :: "64 word \<Rightarrow> delay_data list \<Rightarrow> delay_control \<Rightarrow> delay_control" where
  "held_age t ds c = (if held_back c \<and> ds \<noteq> [] then c\<lparr>delay_ns := t - dd_ts (hd ds)\<rparr> else c)"

lemma process_delay_data_spec:
  assumes "heap_ok (dl_heap s)" "\<And>a. dd_held (d # ds) a \<le> refs_of (dl_heap s) a"
  shows "\<exists>h. process_delay_data env d s = Some (s\<lparr>dl_heap := h, dl_ctl := handle env d (dl_ctl s)\<rparr>) \<and> heap_ok h \<and>
     (\<forall>a. refs_of h a = refs_of (dl_heap s) a - (if lost d (dl_ctl s) then holds_ref (dd_packet d) a else 0)) \<and>
     (\<forall>a. dd_held ds a \<le> refs_of h a)"
proof (cases "lost d (dl_ctl s)")
  case True
  have le: "holds_ref (dd_packet d) a + dd_held ds a \<le> refs_of (dl_heap s) a" for a
    using assms(2) [of a] True by (simp add: lost_def)
  have "holds_ref (dd_packet d) a \<le> refs_of (dl_heap s) a" for a
    using le [of a] dd_held_nonneg [of ds a] by linarith
  then obtain h where h: "release_packet (dl_heap s) (dd_packet d) = Some h" "heap_ok h"
    "\<And>a. refs_of h a = refs_of (dl_heap s) a - holds_ref (dd_packet d) a"
    using payload_refs.release_ok [OF assms(1)] by blast
  have "dd_held ds a \<le> refs_of h a" for a using le [of a] h(3) [of a] by simp
  moreover have "process_delay_data env d s = Some (s\<lparr>dl_heap := h, dl_ctl := handle env d (dl_ctl s)\<rparr>)"
    using True h(1) by (cases s) (auto simp: process_delay_data_def handle_def lost_def)
  ultimately show ?thesis using h True by (intro exI [of _ h]) simp
next
  case False
  have "dd_held ds a \<le> refs_of (dl_heap s) a" for a
    using assms(2) [of a] holds_ref_nonneg [of "dd_packet d" a]
    by (simp del: holds_ref_nonneg split: if_splits)
  moreover have "process_delay_data env d s = Some (s\<lparr>dl_heap := dl_heap s, dl_ctl := handle env d (dl_ctl s)\<rparr>)"
    using False by (cases s; cases "dd_msg d") (auto simp: process_delay_data_def handle_def lost_def)
  ultimately show ?thesis using False assms(1) by (intro exI [of _ "dl_heap s"]) simp
qed

lemma pop_packets_spec:
  fixes s :: delay_output and env :: delay_env and t :: "64 word"
  assumes "delay_inv s ds"
  defines "due \<equiv> due_msgs env t (dl_ctl s) ds"
  shows "\<exists>s'. pop_packets env t s = Some s' \<and> delay_inv s' (drop (length due) ds) \<and>
     dl_ctl s' = held_age t (drop (length due) ds) (fold (handle env) due (dl_ctl s)) \<and>
     (\<forall>a. refs_of (dl_heap s') a = refs_of (dl_heap s) a - drops env (dl_ctl s) due a)"
  using assms(1) unfolding due_def
proof (induction ds arbitrary: s)
  case Nil
  have "pop_packet env t s = Some (False, s)"
    using Nil dq_rep_empty_iff [of "delay_queue s" "[]"] by (simp add: pop_packet_def delay_inv_def)
  then show ?case using Nil by (subst pop_packets.simps) (simp add: held_age_def)
next
  case (Cons d ds)
  let ?c = "dl_ctl s"
  have rep: "dq_rep (delay_queue s) (d # ds)" and hp: "heap_ok (dl_heap s)"
    and le: "\<And>a. dd_held (d # ds) a \<le> refs_of (dl_heap s) a"
    using Cons.prems by (simp_all add: delay_inv_def del: dd_held_simps)
  have ne: "dq_size (delay_queue s) \<noteq> 0" using dq_rep_empty_iff [OF rep] by simp
  have pk: "deque_peek1 (delay_queue s) = Some d" by (rule dqf.rep_peek [OF rep])
  show ?case
  proof (cases "held_back ?c \<or> \<not> t - dd_ts d > delay_ns ?c")
    case True
    let ?s = "s\<lparr>dl_ctl := held_age t (d # ds) ?c\<rparr>"
    have "pop_packet env t s = Some (False, ?s)"
      using ne pk True by (cases "held_back ?c") (auto simp: pop_packet_def Let_def held_back_def held_age_def)
    then show ?thesis using Cons.prems True
      by (subst pop_packets.simps) (auto simp: delay_inv_def held_back_def)
  next
    case False
    then have nb: "\<not> held_back ?c" and old: "t - dd_ts d > delay_ns ?c" by simp_all
    obtain q where q: "deque_pop1 (delay_queue s) = Some (d, q)" "dq_rep q ds"
      using dqf.rep_pop [OF rep] by blast
    let ?q = "s\<lparr>delay_queue := q\<rparr>"
    have q0: "heap_ok (dl_heap ?q)" "\<And>a. dd_held (d # ds) a \<le> refs_of (dl_heap ?q) a"
      using hp le by simp_all
    from process_delay_data_spec [OF q0, of env] obtain h where
      h: "process_delay_data env d ?q = Some (?q\<lparr>dl_heap := h, dl_ctl := handle env d ?c\<rparr>)" "heap_ok h"
        "\<And>a. refs_of h a = refs_of (dl_heap s) a - (if lost d ?c then holds_ref (dd_packet d) a else 0)"
        "\<And>a. dd_held ds a \<le> refs_of h a" by auto
    let ?s = "?q\<lparr>dl_heap := h, dl_ctl := handle env d ?c\<rparr>"
    have pop: "pop_packet env t s = Some (True, ?s)"
      using nb old ne pk q(1) h(1) by (simp add: pop_packet_def Let_def held_back_def)
    have inv: "delay_inv ?s ds" using h(2,4) q(2) by (simp add: delay_inv_def)
    from Cons.IH [OF inv] obtain s' where s': "pop_packets env t ?s = Some s'"
      "delay_inv s' (drop (length (due_msgs env t (handle env d ?c) ds)) ds)"
      "dl_ctl s' = held_age t (drop (length (due_msgs env t (handle env d ?c) ds)) ds)
         (fold (handle env) (due_msgs env t (handle env d ?c) ds) (handle env d ?c))"
      "\<And>a. refs_of (dl_heap s') a = refs_of h a - drops env (handle env d ?c) (due_msgs env t (handle env d ?c) ds) a"
      by auto
    have "pop_packets env t s = Some s'" by (subst pop_packets.simps) (simp add: pop s'(1))
    then show ?thesis using s'(2-4) h(3) nb old by (intro exI [of _ s']) simp
  qed
qed

text \<open>
  The packet that has just been pushed is never due.  Calls of the core do not change the delay of an output that
  is running.
\<close>

lemma due_msgs_append:
  assumes "dd_ts d = t"
  shows "due_msgs env t c (ds @ [d]) = due_msgs env t c ds"
proof (induction ds arbitrary: c)
  case Nil
  then show ?case using assms by simp
qed simp

lemma due_msgs_length: "length (due_msgs env t c ds) \<le> length ds"
  by (induction ds arbitrary: c) auto

lemma do_call_running:
  assumes "dl_running c"
  shows "dl_running (do_call k c) \<and> delay_ns (do_call k c) = delay_ns c \<and>
    delay_preserve (do_call k c) = delay_preserve c"
  using assms
  by (cases k) (auto simp: obs_output_begin_data_capture_def begin_delayed_capture_def obs_output_end_data_capture_def
      obs_output_end_data_capture_internal_def obs_output_signal_stop_def output_reconnect_def Let_def split: option.split)

lemma core_calls_running:
  "dl_running c \<Longrightarrow> dl_running (fold do_call ks c) \<and> delay_ns (fold do_call ks c) = delay_ns c \<and>
    delay_preserve (fold do_call ks c) = delay_preserve c"
  by (induction ks arbitrary: c) (auto simp: do_call_running)

lemma plugin_running:
  "dl_running c \<Longrightarrow> dl_running (plugin env e c) \<and> delay_ns (plugin env e c) = delay_ns c \<and>
    delay_preserve (plugin env e c) = delay_preserve c"
  using core_calls_running [of "emit e c"] by (simp add: plugin_def Let_def)

lemma handle_running:
  assumes "dl_running c"
  shows "dl_running (handle env d c) \<and> delay_ns (handle env d c) = delay_ns c \<and>
    delay_preserve (handle env d c) = delay_preserve c"
proof (cases "dd_msg d")
  case DELAY_MSG_PACKET
  then show ?thesis using plugin_running [OF assms] assms by (simp add: handle_def)
next
  case DELAY_MSG_START
  let ?w = "if dl_stopping c then (fold do_call (de_waits env (dl_events c)) c)\<lparr>dl_stopping := False\<rparr> else c"
  have w: "dl_running ?w" "delay_ns ?w = delay_ns c" "delay_preserve ?w = delay_preserve c"
    using core_calls_running [OF assms] assms by simp_all
  then show ?thesis using plugin_running [OF w(1), of env ActualStart] DELAY_MSG_START
    by (simp add: handle_def obs_output_actual_start_def Let_def)
next
  case DELAY_MSG_STOP
  let ?u = "(emit Unpause c)\<lparr>dl_stopping := True\<rparr>"
  let ?r = "if dl_reconnecting ?u \<and> de_joined env (dl_events ?u) then ?u\<lparr>dl_reconnecting := False\<rparr> else ?u"
  have r: "dl_running ?r" "delay_ns ?r = delay_ns c" "delay_preserve ?r = delay_preserve c" using assms by simp_all
  then show ?thesis using plugin_running [OF r(1), of env "ActualStop (dd_ts d)"] DELAY_MSG_STOP assms
    by (simp add: handle_def obs_output_actual_stop_def Let_def)
qed

text \<open>So a running output lets go of messages that are older than the delay, and of all of them unless it is
  set to keep them while it reconnects.\<close>

lemma due_msgs_running:
  assumes "dl_running c"
  shows "\<exists>n. due_msgs env t c ds = take n (takeWhile (\<lambda>d. t - dd_ts d > delay_ns c) ds) \<and>
    (\<not> delay_preserve c \<longrightarrow> due_msgs env t c ds = takeWhile (\<lambda>d. t - dd_ts d > delay_ns c) ds)"
  using assms
proof (induction ds arbitrary: c)
  case (Cons d ds)
  show ?case
  proof (cases "\<not> held_back c \<and> t - dd_ts d > delay_ns c")
    case True
    note r = handle_running [OF Cons.prems, of env d]
    from Cons.IH [OF r [THEN conjunct1]] obtain n where
      "due_msgs env t (handle env d c) ds = take n (takeWhile (\<lambda>d. t - dd_ts d > delay_ns c) ds)"
      "\<not> delay_preserve c \<longrightarrow> due_msgs env t (handle env d c) ds = takeWhile (\<lambda>d. t - dd_ts d > delay_ns c) ds"
      unfolding r [THEN conjunct2, THEN conjunct1] r [THEN conjunct2, THEN conjunct2] by blast
    then show ?thesis using True by (intro exI [of _ "Suc n"]) simp
  next
    case False
    then show ?thesis by (intro exI [of _ 0]) (auto simp: held_back_def)
  qed
qed simp

text \<open>The packets among the events.\<close>

fun delivered :: "delay_event list \<Rightarrow> encoder_packet list" where
  "delivered [] = []"
| "delivered (DelayCallback p _ # es) = p # delivered es"
| "delivered (_ # es) = delivered es"

lemma delivered_append [simp]: "delivered (es @ fs) = delivered es @ delivered fs"
proof (induction es)
  case (Cons e es)
  then show ?case by (cases e) simp_all
qed simp

lemma do_call_delivered: "delivered (dl_events (do_call k c)) = delivered (dl_events c)"
  by (cases k) (auto simp: obs_output_begin_data_capture_def begin_delayed_capture_def hook_data_capture_def
      obs_output_end_data_capture_def obs_output_end_data_capture_internal_def obs_output_signal_stop_def
      output_reconnect_def Let_def split: option.split)

lemma core_calls_delivered [simp]: "delivered (dl_events (fold do_call ks c)) = delivered (dl_events c)"
  by (induction ks arbitrary: c) (simp_all add: do_call_delivered)

lemma handle_delivered:
  "delivered (dl_events (handle env d c)) = delivered (dl_events c) @
     (if dd_msg d = DELAY_MSG_PACKET \<and> \<not> lost d c then [dd_packet d] else [])"
  by (cases "dd_msg d") (simp_all add: handle_def plugin_def obs_output_actual_start_def obs_output_actual_stop_def Let_def)

text \<open>What the callback is given.\<close>

fun passed :: "delay_env \<Rightarrow> delay_control \<Rightarrow> delay_data list \<Rightarrow> encoder_packet list" where
  "passed env c [] = []"
| "passed env c (d # ds) =
     (if dd_msg d = DELAY_MSG_PACKET \<and> \<not> lost d c then [dd_packet d] else []) @ passed env (handle env d c) ds"

lemma handles_delivered: "delivered (dl_events (fold (handle env) ds c)) = delivered (dl_events c) @ passed env c ds"
  by (induction ds arbitrary: c) (simp_all add: handle_delivered)


lemma cleanup_queue_spec:
  "dq_rep q ds \<Longrightarrow> heap_ok h \<Longrightarrow> (\<And>a. dd_held ds a \<le> refs_of h a) \<Longrightarrow>
     \<exists>h' q'. cleanup_queue h q = Some (h', q') \<and> dq_rep q' [] \<and> heap_ok h' \<and>
       (\<forall>a. refs_of h' a = refs_of h a - dd_held ds a)"
proof (induction ds arbitrary: q h)
  case Nil
  then show ?case using dq_rep_empty_iff [OF Nil.prems(1)] by (subst cleanup_queue.simps) simp
next
  case (Cons d ds)
  obtain q1 where q1: "deque_pop1 q = Some (d, q1)" "dq_rep q1 ds"
    using dqf.rep_pop [OF Cons.prems(1)] by blast
  let ?w = "\<lambda>a. if dd_msg d = DELAY_MSG_PACKET then holds_ref (dd_packet d) a else 0"
  have le: "?w a + dd_held ds a \<le> refs_of h a" for a using Cons.prems(3) [of a] by simp
  have w: "?w a \<le> refs_of h a" for a using le [of a] dd_held_nonneg [of ds a] by linarith
  obtain h1 where h1: "(if dd_msg d = DELAY_MSG_PACKET then release_packet h (dd_packet d) else Some h) = Some h1"
    "heap_ok h1" "\<And>a. refs_of h1 a = refs_of h a - ?w a"
  proof (cases "dd_msg d = DELAY_MSG_PACKET")
    case True
    then obtain h1 where "release_packet h (dd_packet d) = Some h1" "heap_ok h1"
       "\<And>a. refs_of h1 a = refs_of h a - holds_ref (dd_packet d) a"
      using payload_refs.release_ok [OF Cons.prems(2), of "dd_packet d"] w by auto
    then show ?thesis using that True by simp
  qed (use that Cons.prems(2) in simp)
  have "dd_held ds a \<le> refs_of h1 a" for a using le [of a] h1(3) [of a] by simp
  then obtain h2 q2 where r: "cleanup_queue h1 q1 = Some (h2, q2)" "dq_rep q2 []" "heap_ok h2"
    "\<And>a. refs_of h2 a = refs_of h1 a - dd_held ds a"
    using Cons.IH [OF q1(2) h1(2)] by blast
  have "cleanup_queue h q = Some (h2, q2)"
    using q1(1) h1(1) r(1) dq_rep_empty_iff [OF Cons.prems(1)] by (subst cleanup_queue.simps) simp
  then show ?case using r h1(3) by simp
qed

text \<open>\<^verbatim>\<open>obs_output_cleanup_delay\<close> empties the queue and drops exactly the references
it held.\<close>
theorem cleanup_delay_releases:
  assumes "delay_inv s ds"
  shows "\<exists>s'. obs_output_cleanup_delay s = Some s' \<and> delay_inv s' [] \<and> delay_ns (dl_ctl s') = 0 \<and>
     (\<forall>a. refs_of (dl_heap s') a = refs_of (dl_heap s) a - dd_held ds a)"
proof -
  obtain h q where r: "cleanup_queue (dl_heap s) (delay_queue s) = Some (h, q)" "dq_rep q []" "heap_ok h"
    "\<And>a. refs_of h a = refs_of (dl_heap s) a - dd_held ds a"
    using cleanup_queue_spec [of "delay_queue s" ds "dl_heap s"] assms by (auto simp: delay_inv_def)
  then show ?thesis
    using refs_of_nonneg [OF r(3)] by (simp add: obs_output_cleanup_delay_def delay_inv_def r)
qed

subsection \<open>A concrete delay\<close>

text \<open>
  A start, two packets and a stop.  The plugin begins to capture when it is started and, on its first packet,
  reports that it is disconnected, so the second packet is lost.
\<close>

definition dl_msgs :: "delay_data list" where
  "dl_msgs = [delay_message DELAY_MSG_START 10,
     \<lparr>dd_msg = DELAY_MSG_PACKET, dd_ts = 11, dd_packet_time = None, dd_packet = il_packet 0 OBS_ENCODER_VIDEO 0 1 10\<rparr>,
     \<lparr>dd_msg = DELAY_MSG_PACKET, dd_ts = 12, dd_packet_time = None, dd_packet = packet_zero\<rparr>,
     delay_message DELAY_MSG_STOP 60]"

definition dl_wit :: delay_output where
  "dl_wit = \<lparr>dl_heap = il_heap, delay_queue = the (opt_fold deque_push deque_init dl_msgs),
     dl_ctl = \<lparr>dl_active = True, dl_capturing = False, dl_running = True, dl_data_active = True, dl_stopping = False,
       dl_reconnecting = False, dl_encoded = True, delay_ns = 50, delay_preserve = False, delay_restart_refs = 1,
       delay_sec = 0, delay_flags = 0, dl_events = []\<rparr>\<rparr>"

definition dl_env :: delay_env where
  "dl_env = \<lparr>de_context = True,
     de_calls = (\<lambda>es. case last es of ActualStart \<Rightarrow> [Begin_Capture True] | DelayCallback _ _ \<Rightarrow> [Signal_Stop None] | _ \<Rightarrow> []),
     de_waits = (\<lambda>_. []), de_joined = (\<lambda>_. False)\<rparr>"

lemma dl_wit_inv: "delay_inv dl_wit dl_msgs"
proof -
  obtain q where q: "opt_fold deque_push deque_init dl_msgs = Some q" "dq_rep q dl_msgs"
    using dqf.push_all [OF dqf.rep_empty, of dl_msgs] by auto
  have "dq_rep (delay_queue dl_wit) dl_msgs" using q by (simp add: dl_wit_def)
  moreover have "heap_ok (dl_heap dl_wit)" by (auto simp: dl_wit_def il_heap_def heap_ok_def)
  moreover have "dd_held dl_msgs a \<le> refs_of (dl_heap dl_wit) a" for a
    by (auto simp: dl_wit_def dl_msgs_def il_heap_def il_packet_def packet_zero_def refs_of_def holds_ref_def delay_message_def)
  ultimately show ?thesis by (simp add: delay_inv_def)
qed

lemma dl_src: "case pdata (il_packet 1 OBS_ENCODER_AUDIO 0 2 100) of None \<Rightarrow>
      psize (il_packet 1 OBS_ENCODER_AUDIO 0 2 100) = 0
    | Some a \<Rightarrow> (\<exists>b. payloads (dl_heap dl_wit) a = Some b \<and>
        psize (il_packet 1 OBS_ENCODER_AUDIO 0 2 100) \<le> length (bytes b))"
  by (simp add: il_packet_def dl_wit_def il_heap_def)


lemma cleanup_delay_releases_witness:
  "\<exists>s'. obs_output_cleanup_delay dl_wit = Some s' \<and> delay_inv s' [] \<and> refs_of (dl_heap s') 0 = 0"
  using cleanup_delay_releases [OF dl_wit_inv]
  by (auto simp: dl_msgs_def delay_message_def il_packet_def packet_zero_def holds_ref_def) (simp add: dl_wit_def il_heap_def refs_of_def)

end
