(* ===== verification/Pause.thy ===== *)
theory Pause
  imports Deque Interleaver
begin

unbundle bit_operations_syntax

text \<open>
  Pausing an output: \<^verbatim>\<open>struct pause_data\<close>, the pause requests of
  \<^verbatim>\<open>src/libobs/obs-output.c\<close>, the checks that the encoders make on every frame
  (\<^verbatim>\<open>src/libobs/obs-encoder.c\<close>), and the time conversions they use
  (\<^verbatim>\<open>util/util_uint64.h\<close>, \<^verbatim>\<open>media-io/audio-io.h\<close>).

  All times are \<^verbatim>\<open>uint64_t\<close> nanoseconds and kept at that width.  A plane of audio is the
  list of its bytes from the data pointer on; moving the pointer drops bytes.
\<close>

subsection \<open>Scaling times\<close>

text \<open>A division by zero is a fault, the outcome \<open>None\<close>.\<close>

definition util_mul_div64 :: "64 word \<Rightarrow> 64 word \<Rightarrow> 64 word \<Rightarrow> 64 word option" where
  "util_mul_div64 num mul dv =
     (if dv = 0 then None
      else let rem = num mod dv in Some ((num div dv) * mul + (rem * mul) div dv))"

definition audio_frames_to_ns :: "64 word \<Rightarrow> 64 word \<Rightarrow> 64 word option" where
  "audio_frames_to_ns sample_rate frames = util_mul_div64 frames 1000000000 sample_rate"

definition ns_to_audio_frames :: "64 word \<Rightarrow> 64 word \<Rightarrow> 64 word option" where
  "ns_to_audio_frames sample_rate frames = util_mul_div64 frames sample_rate 1000000000"

text \<open>\<^verbatim>\<open>util_mul_div64\<close> computes the exact floor of the 128-bit quotient, whenever the
quotient and the product of the remainder and the multiplier fit in 64 bits; the product of the two
arguments need not.\<close>
theorem util_mul_div64_exact:
  assumes "dv \<noteq> 0" "unat (num mod dv) * unat mul < 2 ^ 64" "unat num * unat mul div unat dv < 2 ^ 64"
  shows "\<exists>q. util_mul_div64 num mul dv = Some q \<and> unat q = unat num * unat mul div unat dv"
proof -
  define n m d where "n = unat num" and "m = unat mul" and "d = unat dv"
  have d: "0 < d" using assms(1) by (simp add: d_def unat_gt_0)
  have e: "n * m div d = n div d * m + n mod d * m div d"
  proof -
    have g: "(x * d + y) * m = y * m + (x * m) * d" for x y by (simp add: algebra_simps)
    have "n * m = (n div d * d + n mod d) * m" by (simp only: div_mult_mod_eq)
    also have "\<dots> = n mod d * m + (n div d * m) * d" by (rule g)
    finally show ?thesis using d by (simp only: div_mult_self1 neq0_conv add.commute simp_thms if_True)
  qed
  have r0: "n mod d * m < 2 ^ LENGTH(64)" using assms(2) by (simp add: n_def m_def d_def unat_mod)
  have q0: "n div d * m + n mod d * m div d < 2 ^ LENGTH(64)"
    using assms(3) unfolding e [symmetric] by (simp add: n_def m_def d_def)
  have r: "unat ((num mod dv) * mul) = n mod d * m"
    using r0 unat_mult_lem [of "num mod dv" mul] by (simp add: n_def m_def d_def unat_mod)
  have q: "unat ((num div dv) * mul) = n div d * m"
    using q0 unat_mult_lem [of "num div dv" mul] by (simp add: n_def m_def d_def unat_div)
  have r': "unat (((num mod dv) * mul) div dv) = n mod d * m div d" by (simp add: unat_div r d_def)
  have "unat ((num div dv) * mul + ((num mod dv) * mul) div dv) = n div d * m + n mod d * m div d"
    using q0 unat_add_lem [of "(num div dv) * mul" "((num mod dv) * mul) div dv"] unfolding q r' by simp
  then show ?thesis unfolding util_mul_div64_def Let_def using e assms(1)
    by (intro exI [of _ "(num div dv) * mul + ((num mod dv) * mul) div dv"]) (simp only: n_def m_def d_def if_False simp_thms)
qed

lemma util_mul_div64_exact_witness:
  "\<exists>q. util_mul_div64 18446744073709551615 3 4 = Some q \<and> unat q = 18446744073709551615 * 3 div 4"
  using util_mul_div64_exact [of 4 18446744073709551615 3] by simp

subsection \<open>Pause data\<close>

record pause_data =
  last_video_ts :: "64 word"
  ts_start :: "64 word"
  ts_end :: "64 word"
  ts_offset :: "64 word"

definition pause_reset :: "pause_data \<Rightarrow> pause_data" where
  "pause_reset p = p\<lparr>last_video_ts := 0, ts_start := 0, ts_end := 0, ts_offset := 0\<rparr>"

definition end_pause :: "64 word \<Rightarrow> pause_data \<Rightarrow> pause_data" where
  "end_pause ts p =
     (if ts_end p = 0 then p\<lparr>ts_end := ts, ts_offset := ts_offset p + (ts - ts_start p)\<rparr> else p)"

definition get_closest_v_ts :: "64 word \<Rightarrow> 64 word \<Rightarrow> pause_data \<Rightarrow> 64 word" where
  "get_closest_v_ts interval ts p =
     (let i2 = interval * 2 in
      last_video_ts p + ((ts - last_video_ts p + i2) div interval) * interval)"

definition pause_can_start :: "pause_data \<Rightarrow> bool" where
  "pause_can_start p \<longleftrightarrow> ts_start p = 0 \<and> ts_end p = 0"

definition pause_can_stop :: "pause_data \<Rightarrow> bool" where
  "pause_can_stop p \<longleftrightarrow> ts_start p \<noteq> 0 \<and> ts_end p = 0"

definition video_pause_check :: "64 word \<Rightarrow> pause_data \<Rightarrow> bool \<times> pause_data" where
  "video_pause_check ts p =
     (let p = p\<lparr>last_video_ts := ts\<rparr> in
      if ts_start p = 0 then (False, p)
      else if ts = ts_end p then (False, p\<lparr>ts_start := 0, ts_end := 0\<rparr>)
      else if ts \<ge> ts_start p then (True, p)
      else (False, p))"

record audio_data =
  ad_data :: "8 word list list"
  ad_frames :: "32 word"
  ad_timestamp :: "64 word"

definition pause_audio :: "pause_data \<Rightarrow> 64 word \<Rightarrow> audio_data \<Rightarrow> audio_data option" where
  "pause_audio p sample_rate d =
     do { cutoff_frames \<leftarrow> ns_to_audio_frames sample_rate (ts_start p - ad_timestamp d);
          Some (d\<lparr>ad_frames := ucast cutoff_frames\<rparr>) }"

definition unpause_audio :: "64 word \<Rightarrow> audio_data \<Rightarrow> pause_data \<Rightarrow> (audio_data \<times> pause_data) option" where
  "unpause_audio sample_rate d p =
     do { cutoff_frames \<leftarrow> ns_to_audio_frames sample_rate (ts_end p - ad_timestamp d);
          Some (d\<lparr>ad_data := map (drop (unat (cutoff_frames * 4))) (ad_data d), ad_timestamp := ts_start p,
         ad_frames := ad_frames d - ucast cutoff_frames\<rparr>,
       p\<lparr>ts_start := 0, ts_end := 0\<rparr>) }"

definition audio_pause_check_internal ::
    "64 word \<Rightarrow> audio_data \<Rightarrow> pause_data \<Rightarrow> (bool \<times> audio_data \<times> pause_data) option" where
  "audio_pause_check_internal sample_rate d p =
     (if ts_start p = 0 then Some (False, d, p)
      else do { ns \<leftarrow> audio_frames_to_ns sample_rate (ucast (ad_frames d));
        let end_ts = ad_timestamp d + ns;
        if ts_start p \<ge> ad_timestamp d then
          if ts_start p \<le> end_ts then
            do { d \<leftarrow> pause_audio p sample_rate d; Some (ad_frames d = 0, d, p) }
          else Some (False, d, p)
        else if ts_end p \<ge> ad_timestamp d \<and> ts_end p \<le> end_ts then
          do { (d, p) \<leftarrow> unpause_audio sample_rate d p; Some (ad_frames d = 0, d, p) }
        else Some (True, d, p) })"

definition audio_pause_check ::
    "64 word \<Rightarrow> audio_data \<Rightarrow> pause_data \<Rightarrow> (bool \<times> audio_data \<times> pause_data) option" where
  "audio_pause_check sample_rate d p =
     do { (ignore_audio, d, p) \<leftarrow> audio_pause_check_internal sample_rate d p;
          Some (ignore_audio, d\<lparr>ad_timestamp := ad_timestamp d - ts_offset p\<rparr>, p) }"

subsection \<open>Pausing an output\<close>

record pausable_encoder =
  pe_paused :: bool
  pe_pause :: pause_data

record pausable_output =
  po_can_pause :: bool
  po_active :: bool
  po_paused :: bool
  po_encoded :: bool
  po_pause :: pause_data
  po_video :: "nat \<Rightarrow> pausable_encoder option"
  po_audio :: "nat \<Rightarrow> pausable_encoder option"
  po_signals :: "string list"

definition all_encoders :: "(pause_data \<Rightarrow> bool) \<Rightarrow> pausable_output \<Rightarrow> bool" where
  "all_encoders P o' \<longleftrightarrow>
     list_all (\<lambda>i. case po_video o' i of None \<Rightarrow> True | Some e \<Rightarrow> P (pe_pause e)) video_slots \<and>
     list_all (\<lambda>i. case po_audio o' i of None \<Rightarrow> True | Some e \<Rightarrow> P (pe_pause e)) audio_slots"

definition update_encoders :: "(pausable_encoder \<Rightarrow> pausable_encoder) \<Rightarrow> pausable_output \<Rightarrow> pausable_output" where
  "update_encoders f o' =
     o'\<lparr>po_video := (\<lambda>i. if i < MAX_OUTPUT_VIDEO_ENCODERS then map_option f (po_video o' i) else po_video o' i),
        po_audio := (\<lambda>i. if i < MAX_OUTPUT_AUDIO_ENCODERS then map_option f (po_audio o' i) else po_audio o' i)\<rparr>"

text \<open>
  The encoders' pause locks are all held while the request is checked and carried out, so it is
  one step; an encoder is in one slot.
\<close>

definition obs_encoded_output_pause ::
    "64 word \<Rightarrow> 64 word \<Rightarrow> bool \<Rightarrow> pausable_output \<Rightarrow> bool \<times> pausable_output" where
  "obs_encoded_output_pause interval now pause o' =
     (case find (\<lambda>i. po_video o' i \<noteq> None) video_slots of
        None \<Rightarrow> (False, o')
      | Some v \<Rightarrow>
          (let closest_v_ts = get_closest_v_ts interval now (pe_pause (the (po_video o' v))) in
           if pause then
             if \<not> all_encoders pause_can_start o' then (False, o')
             else (True, update_encoders (\<lambda>e. e\<lparr>pe_paused := True,
                           pe_pause := (pe_pause e)\<lparr>ts_start := closest_v_ts\<rparr>\<rparr>) o')
           else
             if \<not> all_encoders pause_can_stop o' then (False, o')
             else (True, update_encoders (\<lambda>e. e\<lparr>pe_paused := False,
                           pe_pause := end_pause closest_v_ts (pe_pause e)\<rparr>) o')))"

definition obs_raw_output_pause ::
    "64 word \<Rightarrow> 64 word \<Rightarrow> bool \<Rightarrow> pausable_output \<Rightarrow> bool \<times> pausable_output" where
  "obs_raw_output_pause interval now pause o' =
     (let closest_v_ts = get_closest_v_ts interval now (po_pause o') in
      if pause then
        if pause_can_start (po_pause o')
        then (True, o'\<lparr>po_pause := (po_pause o')\<lparr>ts_start := closest_v_ts\<rparr>\<rparr>) else (False, o')
      else if pause_can_stop (po_pause o')
        then (True, o'\<lparr>po_pause := end_pause closest_v_ts (po_pause o')\<rparr>) else (False, o'))"

definition obs_output_pause ::
    "64 word \<Rightarrow> 64 word \<Rightarrow> bool \<Rightarrow> pausable_output \<Rightarrow> bool \<times> pausable_output" where
  "obs_output_pause interval now pause o' =
     (if \<not> po_can_pause o' then (False, o')
      else if \<not> po_active o' then (False, o')
      else if po_paused o' = pause then (True, o')
      else let (success, o') = (if po_encoded o' then obs_encoded_output_pause interval now pause o'
                                else obs_raw_output_pause interval now pause o') in
        if success
        then (True, o'\<lparr>po_paused := pause,
               po_signals := po_signals o' @ [if pause then ''pause'' else ''unpause'']\<rparr>)
        else (False, o'))"

subsection \<open>The chosen video frame\<close>

lemma closest_v_ts_unat:
  assumes i: "interval \<noteq> 0" and le: "last_video_ts p \<le> now"
    and fit: "unat now + 2 * unat interval < 2 ^ 64"
  shows "unat (get_closest_v_ts interval now p) =
     unat (last_video_ts p) +
       ((unat now - unat (last_video_ts p) + 2 * unat interval) div unat interval) * unat interval"
proof -
  let ?l = "unat (last_video_ts p)" and ?n = "unat now" and ?i = "unat interval"
  have ln: "?l \<le> ?n" using le by (simp add: word_le_nat_alt)
  have i0: "?i \<noteq> 0" using i by (simp add: unat_eq_0)
  have d: "unat (now - last_video_ts p) = ?n - ?l" using le by (rule unat_sub)
  have i2: "unat (interval * 2) = 2 * ?i"
    using fit by (subst unat_mult_lem [THEN iffD1]) simp_all
  have s: "unat (now - last_video_ts p + interval * 2) = ?n - ?l + 2 * ?i"
    using fit ln d i2 by (subst unat_plus_simple [THEN iffD1]) (simp_all add: no_olen_add_nat)
  let ?k = "(?n - ?l + 2 * ?i) div ?i"
  have q: "unat ((now - last_video_ts p + interval * 2) div interval) = ?k" by (simp add: unat_div s)
  have kle: "?k * ?i \<le> ?n - ?l + 2 * ?i" by simp
  have lt: "?k * ?i < 2 ^ 64" "?l + ?k * ?i < 2 ^ 64" using fit ln kle by linarith+
  have m: "unat (((now - last_video_ts p + interval * 2) div interval) * interval) = ?k * ?i"
    using lt(1) by (subst unat_mult_lem [THEN iffD1]) (simp_all add: q)
  have "unat (last_video_ts p + ((now - last_video_ts p + interval * 2) div interval) * interval) = ?l + ?k * ?i"
    using m lt(2) by (subst unat_plus_simple [THEN iffD1]) (simp_all add: no_olen_add_nat)
  then show ?thesis by (simp add: get_closest_v_ts_def Let_def)
qed

text \<open>A pause begins and ends at a video frame that is still to come.  The time that
\<^verbatim>\<open>get_closest_v_ts\<close> chooses is a whole number of frames after the last one, and more than one
and at most two frame intervals after now.\<close>
theorem closest_v_ts_bounds:
  assumes "interval \<noteq> 0" "last_video_ts p \<le> now" "unat now + 2 * unat interval < 2 ^ 64"
  shows "unat now + unat interval < unat (get_closest_v_ts interval now p) \<and>
     unat (get_closest_v_ts interval now p) \<le> unat now + 2 * unat interval \<and>
     unat interval dvd unat (get_closest_v_ts interval now p) - unat (last_video_ts p)"
proof -
  let ?l = "unat (last_video_ts p)" and ?n = "unat now" and ?i = "unat interval"
  have ln: "?l \<le> ?n" using assms(2) by (simp add: word_le_nat_alt)
  have i0: "0 < ?i" using assms(1) by (simp add: unat_eq_0 neq0_conv [symmetric])
  let ?x = "?n - ?l + 2 * ?i"
  have "?x div ?i * ?i + ?x mod ?i = ?x" by (rule div_mult_mod_eq)
  moreover have "?x mod ?i < ?i" using i0 by simp
  ultimately have b: "?n - ?l + ?i < ?x div ?i * ?i" "?x div ?i * ?i \<le> ?x" by linarith+
  have c: "?n + ?i < ?l + ?x div ?i * ?i" "?l + ?x div ?i * ?i \<le> ?n + 2 * ?i" using b ln by linarith+
  show ?thesis
    unfolding closest_v_ts_unat [OF assms] using c by (simp only: diff_add_inverse dvd_triv_right simp_thms)
qed

lemma closest_v_ts_bounds_witness:
  "unat (get_closest_v_ts 100 1234 \<lparr>last_video_ts = 1000, ts_start = 0, ts_end = 0, ts_offset = 0\<rparr>) = 1400"
  using closest_v_ts_bounds [of 100 "\<lparr>last_video_ts = 1000, ts_start = 0, ts_end = 0, ts_offset = 0\<rparr>" 1234]
  by (simp add: get_closest_v_ts_def)

subsection \<open>Pausing is all or nothing\<close>

definition slot_encoders :: "pausable_output \<Rightarrow> pausable_encoder set" where
  "slot_encoders o' = {e. (\<exists>i < MAX_OUTPUT_VIDEO_ENCODERS. po_video o' i = Some e) \<or>
      (\<exists>i < MAX_OUTPUT_AUDIO_ENCODERS. po_audio o' i = Some e)}"

lemma all_encoders_iff: "all_encoders P o' \<longleftrightarrow> (\<forall>e \<in> slot_encoders o'. P (pe_pause e))"
  by (fastforce simp: all_encoders_def slot_encoders_def list_all_iff split: option.splits)

lemma po_update:
  "po_video (update_encoders f o') i =
     (if i < MAX_OUTPUT_VIDEO_ENCODERS then map_option f (po_video o' i) else po_video o' i)"
  "po_audio (update_encoders f o') i =
     (if i < MAX_OUTPUT_AUDIO_ENCODERS then map_option f (po_audio o' i) else po_audio o' i)"
  by (simp_all add: update_encoders_def)

lemma slot_encoders_update: "slot_encoders (update_encoders f o') = f ` slot_encoders o'"
proof (rule set_eqI)
  fix x
  have g: "(\<exists>i < n. (if i < n then map_option f (h i) else h i) = Some x) \<longleftrightarrow>
      (\<exists>i < n. \<exists>e. h i = Some e \<and> x = f e)" for n :: nat and h
  proof -
    have "((if i < n then map_option f (h i) else h i) = Some x) \<longleftrightarrow> (\<exists>e. h i = Some e \<and> x = f e)"
      if "i < n" for i
      using that by (cases "h i") auto
    then show ?thesis by (simp only: cong: conj_cong)
  qed
  have "x \<in> slot_encoders (update_encoders f o') \<longleftrightarrow>
      (\<exists>i < MAX_OUTPUT_VIDEO_ENCODERS. \<exists>e. po_video o' i = Some e \<and> x = f e) \<or>
      (\<exists>i < MAX_OUTPUT_AUDIO_ENCODERS. \<exists>e. po_audio o' i = Some e \<and> x = f e)"
    unfolding slot_encoders_def mem_Collect_eq po_update g by (rule refl)
  also have "\<dots> \<longleftrightarrow> x \<in> f ` slot_encoders o'"
    unfolding slot_encoders_def image_iff bex_simps mem_Collect_eq by (rule iffI; elim disjE exE conjE; blast)
  finally show "x \<in> slot_encoders (update_encoders f o') \<longleftrightarrow> x \<in> f ` slot_encoders o'" .
qed

text \<open>C34: An encoded output is paused on all its encoders at once or not at all.  A request either
changes nothing, or (when no encoder was pausing) gives every encoder the same start time, or (when every
encoder was paused) gives every encoder the same end time and adds the length of its pause to its
offset.\<close>
theorem encoded_pause_all_or_nothing:
  "case obs_encoded_output_pause interval now pause o' of (ok, o2) \<Rightarrow>
     if \<not> ok then o2 = o'
     else \<exists>t. if pause then (\<forall>e \<in> slot_encoders o'. pause_can_start (pe_pause e)) \<and>
                slot_encoders o2 = (\<lambda>e. e\<lparr>pe_paused := True, pe_pause := (pe_pause e)\<lparr>ts_start := t\<rparr>\<rparr>) ` slot_encoders o'
              else (\<forall>e \<in> slot_encoders o'. pause_can_stop (pe_pause e)) \<and>
                slot_encoders o2 = (\<lambda>e. e\<lparr>pe_paused := False, pe_pause := (pe_pause e)\<lparr>ts_end := t,
                   ts_offset := ts_offset (pe_pause e) + (t - ts_start (pe_pause e))\<rparr>\<rparr>) ` slot_encoders o'"
proof (cases "find (\<lambda>i. po_video o' i \<noteq> None) video_slots")
  case None
  then show ?thesis by (simp add: obs_encoded_output_pause_def)
next
  case (Some v)
  let ?t = "get_closest_v_ts interval now (pe_pause (the (po_video o' v)))"
  have stop: "(\<lambda>e. e\<lparr>pe_paused := False, pe_pause := end_pause ?t (pe_pause e)\<rparr>) ` slot_encoders o' =
     (\<lambda>e. e\<lparr>pe_paused := False, pe_pause := (pe_pause e)\<lparr>ts_end := ?t,
         ts_offset := ts_offset (pe_pause e) + (?t - ts_start (pe_pause e))\<rparr>\<rparr>) ` slot_encoders o'"
    if "\<forall>e \<in> slot_encoders o'. pause_can_stop (pe_pause e)"
    using that by (intro image_cong) (auto simp: pause_can_stop_def end_pause_def)
  note d = obs_encoded_output_pause_def [of interval now pause o', unfolded Some option.case Let_def]
  show ?thesis
  proof (cases pause)
    case True
    then show ?thesis unfolding d
      by (cases "all_encoders pause_can_start o'")
        (simp_all only: if_True if_False not_True_eq_False not_False_eq_True prod.case simp_thms
           slot_encoders_update all_encoders_iff [symmetric], (rule exI, rule refl)?)
  next
    case False
    show ?thesis
    proof (cases "all_encoders pause_can_stop o'")
      case T: True
      then have c: "\<forall>e \<in> slot_encoders o'. pause_can_stop (pe_pause e)" by (simp only: all_encoders_iff)
      show ?thesis unfolding d using False T c
        by (simp only: if_True if_False not_True_eq_False not_False_eq_True prod.case simp_thms
           slot_encoders_update stop [OF c]) (use c in blast)
    qed (insert False, unfold d, simp only: if_True if_False not_True_eq_False not_False_eq_True prod.case simp_thms)
  qed
qed

definition wit_paused :: pausable_output where
  "wit_paused = \<lparr>po_can_pause = True, po_active = True, po_paused = True, po_encoded = True,
     po_pause = \<lparr>last_video_ts = 0, ts_start = 0, ts_end = 0, ts_offset = 0\<rparr>,
     po_video = (\<lambda>i. if i = 0 then Some \<lparr>pe_paused = True,
        pe_pause = \<lparr>last_video_ts = 1000, ts_start = 400, ts_end = 0, ts_offset = 50\<rparr>\<rparr> else None),
     po_audio = (\<lambda>i. if i = 1 then Some \<lparr>pe_paused = True,
        pe_pause = \<lparr>last_video_ts = 0, ts_start = 400, ts_end = 0, ts_offset = 60\<rparr>\<rparr> else None),
     po_signals = []\<rparr>"

lemma encoded_pause_all_or_nothing_witness:
  "\<exists>t. slot_encoders (snd (obs_encoded_output_pause 100 1234 False wit_paused)) =
     (\<lambda>e. e\<lparr>pe_paused := False, pe_pause := (pe_pause e)\<lparr>ts_end := t,
        ts_offset := ts_offset (pe_pause e) + (t - ts_start (pe_pause e))\<rparr>\<rparr>) ` slot_encoders wit_paused"
proof -
  have ok: "fst (obs_encoded_output_pause 100 1234 False wit_paused) = True" by code_simp
  show ?thesis
    using encoded_pause_all_or_nothing [where interval = 100 and now = 1234 and pause = False and o' = wit_paused] ok
    by (cases "obs_encoded_output_pause 100 1234 False wit_paused") (simp only: prod.case fst_conv snd_conv
        not_True_eq_False if_False, blast)
qed

subsection \<open>What a paused encoder sees\<close>

fun check_frames :: "64 word list \<Rightarrow> pause_data \<Rightarrow> 64 word list \<times> pause_data" where
  "check_frames [] p = ([], p)"
| "check_frames (t # ts) p =
     (let (ignore, p) = video_pause_check t p; (passed, p) = check_frames ts p in
      (if ignore then passed else t # passed, p))"

lemma check_frames_off:
  "ts_start p = 0 \<Longrightarrow> fst (check_frames ts p) = ts \<and> ts_start (snd (check_frames ts p)) = 0"
  by (induction ts arbitrary: p) (simp_all add: video_pause_check_def Let_def case_prod_beta)

text \<open>A pause removes exactly the frames from its start up to (not including) its end.  For frames
that come in order and include the one at the end time, the encoder gets the frames before the pause and
from its end on, and the pause is over afterwards.\<close>
theorem paused_frames_cut:
  assumes "ts_start p \<noteq> 0" "ts_start p \<le> ts_end p" "sorted_wrt (<) ts" "ts_end p \<in> set ts"
  shows "fst (check_frames ts p) = filter (\<lambda>t. t < ts_start p \<or> t \<ge> ts_end p) ts \<and>
     ts_start (snd (check_frames ts p)) = 0"
  using assms
proof (induction ts arbitrary: p)
  case (Cons t ts)
  show ?case
  proof (cases "t = ts_end p")
    case True
    have ge: "\<forall>x \<in> set ts. \<not> (\<not> x < ts_start p \<and> \<not> ts_end p \<le> x)" using Cons.prems(3) True by auto
    have "filter (\<lambda>t. t < ts_start p \<or> ts_end p \<le> t) ts = ts" using ge by (simp add: filter_id_conv)
    then show ?thesis using True Cons.prems(1)
        check_frames_off [of "p\<lparr>last_video_ts := t, ts_start := 0, ts_end := 0\<rparr>" ts]
      by (simp add: video_pause_check_def Let_def case_prod_beta)
  next
    case False
    let ?p = "p\<lparr>last_video_ts := t\<rparr>"
    have ih: "fst (check_frames ts ?p) = filter (\<lambda>t. t < ts_start p \<or> t \<ge> ts_end p) ts \<and>
       ts_start (snd (check_frames ts ?p)) = 0"
      using Cons.IH [of ?p] Cons.prems False by simp
    have lt: "t < ts_end p" using Cons.prems(3,4) False by auto
    have v: "video_pause_check t p = (t \<ge> ts_start p, ?p)"
      using Cons.prems(1) False by (simp add: video_pause_check_def Let_def)
    show ?thesis using ih lt by (auto simp: v Let_def case_prod_beta)
  qed
qed simp

lemma paused_frames_cut_witness:
  "fst (check_frames [10, 20, 30, 40, 50] \<lparr>last_video_ts = 0, ts_start = 20, ts_end = 40, ts_offset = 20\<rparr>) = [10, 40, 50]"
  using paused_frames_cut [of "\<lparr>last_video_ts = 0, ts_start = 20, ts_end = 40, ts_offset = 20\<rparr>" "[10, 20, 30, 40, 50]"]
  by simp

text \<open>The pause ends only at the frame with exactly the end time.  If that frame never comes (no
frame equals it), every frame from the start on is dropped, for ever.\<close>
theorem missed_end_frame_drops_all:
  assumes "ts_start p \<noteq> 0" "ts_end p \<notin> set ts" "\<forall>t \<in> set ts. ts_start p \<le> t"
  shows "fst (check_frames ts p) = [] \<and> ts_start (snd (check_frames ts p)) = ts_start p"
  using assms
proof (induction ts arbitrary: p)
  case (Cons t ts)
  then show ?case using Cons.IH [of "p\<lparr>last_video_ts := t\<rparr>"]
    by (auto simp: video_pause_check_def Let_def split: prod.splits)
qed simp

lemma missed_end_frame_drops_all_witness:
  "fst (check_frames [30, 45, 60] \<lparr>last_video_ts = 0, ts_start = 20, ts_end = 40, ts_offset = 20\<rparr>) = []"
  using missed_end_frame_drops_all [of "\<lparr>last_video_ts = 0, ts_start = 20, ts_end = 40, ts_offset = 20\<rparr>" "[30, 45, 60]"]
  by simp

text \<open>The audio packet with which an encoder resumes is stamped one pause too early.  Packets
before and after it get their time less the total offset; this one gets the start of the pause less the
total offset, which counts the pause a second time.\<close>
theorem resumed_audio_stamp:
  assumes "ts_start p \<noteq> 0" "ts_start p < ad_timestamp d" "ad_timestamp d \<le> ts_end p"
    "audio_frames_to_ns sample_rate (ucast (ad_frames d)) = Some ns" "ts_end p \<le> ad_timestamp d + ns"
    "ts_offset p = before + (ts_end p - ts_start p)"
  shows "map_option (\<lambda>(_, d, _). ad_timestamp d) (audio_pause_check sample_rate d p) =
     Some ((ts_end p - ts_offset p) - (ts_end p - ts_start p))"
  using assms
  by (simp add: audio_pause_check_def audio_pause_check_internal_def unpause_audio_def ns_to_audio_frames_def
        util_mul_div64_def Let_def linorder_not_le [THEN iffD2])

lemma resumed_audio_stamp_witness:
  "map_option (\<lambda>(_, d, _). ad_timestamp d) (audio_pause_check 48000
      \<lparr>ad_data = [], ad_frames = 1024, ad_timestamp = 5000000000\<rparr>
      \<lparr>last_video_ts = 0, ts_start = 2000000000, ts_end = 5010000000, ts_offset = 3010000000\<rparr>) =
     Some (2000000000 - 3010000000)"
  using resumed_audio_stamp [of "\<lparr>last_video_ts = 0, ts_start = 2000000000, ts_end = 5010000000, ts_offset = 3010000000\<rparr>"
      "\<lparr>ad_data = [], ad_frames = 1024, ad_timestamp = 5000000000\<rparr>" 48000 21333333 0]
  by (simp add: audio_frames_to_ns_def util_mul_div64_def Let_def)

end
