(* ===== verification/Serializer.thy ===== *)
theory Serializer
  imports Obs_Prelude
begin

unbundle bit_operations_syntax

text \<open>
  Byte-level output and input: the writer over a growable array
  (\<^verbatim>\<open>src/libobs/util/array-serializer.c\<close>), the integer writers of
  \<^verbatim>\<open>util/serializer.h\<close> on top of it, and the bit reader of
  \<^verbatim>\<open>util/bitstream.c\<close>.

  The growable array of bytes is the list it holds (theory Darray shows that the array
  implements one).  Positions are \<^verbatim>\<open>size_t\<close>; the seek computes them with the
  wrap-around of 64 bits.
\<close>

subsection \<open>The array writer\<close>

record array_output_data =
  out_bytes :: "8 word list"
  cur_pos :: nat

definition array_output_serializer_init :: array_output_data where
  "array_output_serializer_init = \<lparr>out_bytes = [], cur_pos = 0\<rparr>"

definition array_output_serializer_reset :: "array_output_data \<Rightarrow> array_output_data" where
  "array_output_serializer_reset d = d\<lparr>out_bytes := [], cur_pos := 0\<rparr>"

definition array_output_write :: "array_output_data \<Rightarrow> 8 word list \<Rightarrow> nat \<times> array_output_data" where
  "array_output_write output data =
     (let size' = length data in
      if cur_pos output < length (out_bytes output) then
        let new_size = cur_pos output + size';
            bytes = (if new_size > length (out_bytes output)
                     then out_bytes output @ replicate (new_size - length (out_bytes output)) 0
                     else out_bytes output) in
        (size', output\<lparr>out_bytes := take (cur_pos output) bytes @ data @ drop (cur_pos output + size') bytes,
                        cur_pos := cur_pos output + size'\<rparr>)
      else (size', output\<lparr>out_bytes := out_bytes output @ data, cur_pos := cur_pos output + size'\<rparr>))"

definition array_output_get_pos :: "array_output_data \<Rightarrow> nat" where
  "array_output_get_pos d = length (out_bytes d)"

datatype serialize_seek_type = SERIALIZE_SEEK_START | SERIALIZE_SEEK_CURRENT | SERIALIZE_SEEK_END

definition array_output_seek ::
    "array_output_data \<Rightarrow> int \<Rightarrow> serialize_seek_type \<Rightarrow> int \<times> array_output_data" where
  "array_output_seek output offset seek_type =
     (let new_pos = (case seek_type of
          SERIALIZE_SEEK_START \<Rightarrow> offset mod 2 ^ 64
        | SERIALIZE_SEEK_CURRENT \<Rightarrow> (int (cur_pos output) + offset) mod 2 ^ 64
        | SERIALIZE_SEEK_END \<Rightarrow> (int (length (out_bytes output)) - offset) mod 2 ^ 64) in
      if new_pos > int (length (out_bytes output)) then (-1, output)
      else (new_pos, output\<lparr>cur_pos := nat new_pos\<rparr>))"

subsection \<open>Integer writers\<close>

text \<open>\<^verbatim>\<open>s_write\<close> does nothing for an empty write; the array writer takes every byte.\<close>

definition s_write :: "array_output_data \<Rightarrow> 8 word list \<Rightarrow> array_output_data" where
  "s_write s data = (if data \<noteq> [] then snd (array_output_write s data) else s)"

definition s_w8 :: "array_output_data \<Rightarrow> 8 word \<Rightarrow> array_output_data" where
  "s_w8 s u8 = s_write s [u8]"

definition s_wl16 :: "array_output_data \<Rightarrow> 16 word \<Rightarrow> array_output_data" where
  "s_wl16 s u16 = s_w8 (s_w8 s (ucast u16)) (ucast (drop_bit 8 u16))"

definition s_wl24 :: "array_output_data \<Rightarrow> 32 word \<Rightarrow> array_output_data" where
  "s_wl24 s u24 = s_wl16 (s_w8 s (ucast u24)) (ucast (drop_bit 8 u24))"

definition s_wl32 :: "array_output_data \<Rightarrow> 32 word \<Rightarrow> array_output_data" where
  "s_wl32 s u32 = s_wl16 (s_wl16 s (ucast u32)) (ucast (drop_bit 16 u32))"

definition s_wl64 :: "array_output_data \<Rightarrow> 64 word \<Rightarrow> array_output_data" where
  "s_wl64 s u64 = s_wl32 (s_wl32 s (ucast u64)) (ucast (drop_bit 32 u64))"

definition s_wb16 :: "array_output_data \<Rightarrow> 16 word \<Rightarrow> array_output_data" where
  "s_wb16 s u16 = s_w8 (s_w8 s (ucast (drop_bit 8 u16))) (ucast u16)"

definition s_wb24 :: "array_output_data \<Rightarrow> 32 word \<Rightarrow> array_output_data" where
  "s_wb24 s u24 = s_w8 (s_wb16 s (ucast (drop_bit 8 u24))) (ucast u24)"

definition s_wb32 :: "array_output_data \<Rightarrow> 32 word \<Rightarrow> array_output_data" where
  "s_wb32 s u32 = s_wb16 (s_wb16 s (ucast (drop_bit 16 u32))) (ucast u32)"

definition s_wb64 :: "array_output_data \<Rightarrow> 64 word \<Rightarrow> array_output_data" where
  "s_wb64 s u64 = s_wb32 (s_wb32 s (ucast (drop_bit 32 u64))) (ucast u64)"

subsection \<open>Writing at the end\<close>

text \<open>A stream that was never moved is written at its end.\<close>

definition at_end :: "array_output_data \<Rightarrow> bool" where
  "at_end s \<longleftrightarrow> cur_pos s = length (out_bytes s)"

named_theorems write_simps \<open>writing to a stream that is at its end\<close>

lemma at_end_init [write_simps]: "at_end array_output_serializer_init"
  "out_bytes array_output_serializer_init = []"
  by (simp_all add: at_end_def array_output_serializer_init_def)

lemma at_end_write [write_simps]:
  "at_end s \<Longrightarrow> at_end (s_write s data)"
  "at_end s \<Longrightarrow> out_bytes (s_write s data) = out_bytes s @ data"
  by (simp_all add: at_end_def s_write_def array_output_write_def Let_def)

lemma at_end_ints [write_simps]:
  assumes "at_end s"
  shows "at_end (s_w8 s b)" "out_bytes (s_w8 s b) = out_bytes s @ [b]"
    "at_end (s_wb16 s w)" "out_bytes (s_wb16 s w) = out_bytes s @ [ucast (drop_bit 8 w), ucast w]"
  using assms by (simp_all add: s_w8_def s_wb16_def write_simps)

definition be32 :: "32 word \<Rightarrow> 8 word list" where
  "be32 w = [ucast (drop_bit 24 w), ucast (drop_bit 16 w), ucast (drop_bit 8 w), ucast w]"

definition le32 :: "32 word \<Rightarrow> 8 word list" where "le32 w = rev (be32 w)"

lemma ucast_16_byte [write_simps]:
  "(ucast (ucast w :: 16 word) :: 8 word) = ucast (w :: 32 word)"
  "(ucast (drop_bit 8 (ucast w :: 16 word)) :: 8 word) = ucast (drop_bit 8 w)"
  by (auto intro!: bit_word_eqI simp: bit_simps)

lemma at_end_wb32 [write_simps]:
  assumes "at_end s"
  shows "at_end (s_wb32 s w)" "out_bytes (s_wb32 s w) = out_bytes s @ be32 w"
  using assms by (simp_all add: s_wb32_def be32_def write_simps)

lemma at_end_wl32 [write_simps]:
  assumes "at_end s"
  shows "at_end (s_wl32 s w)" "out_bytes (s_wl32 s w) = out_bytes s @ le32 w"
  using assms by (simp_all add: s_wl32_def s_wl16_def le32_def be32_def write_simps)

definition from_be :: "8 word list \<Rightarrow> nat" where
  "from_be bs = foldl (\<lambda>n b. n * 256 + unat b) 0 bs"

lemma nat_bytes:
  "((n div 256 div 256 div 256 * 256 + n div 256 div 256 mod 256) * 256 + n div 256 mod 256) * 256 + n mod 256 = (n :: nat)"
  by (simp only: div_mult_mod_eq)

lemma from_be_be32: "from_be (be32 w) = unat w"
proof -
  have b: "unat (ucast (drop_bit n w) :: 8 word) = unat w div 2 ^ n mod 256" for n
    by (simp only: unsigned_ucast_eq unat_drop_bit_eq take_bit_eq_mod) (simp add: drop_bit_eq_div)
  have b0: "unat (ucast w :: 8 word) = unat w mod 256" by (simp add: unsigned_ucast_eq take_bit_eq_mod)
  have top: "unat w div 2 ^ 24 mod 256 = unat w div 2 ^ 24"
    using unsigned_less [of w, where 'a = nat] by (simp add: less_mult_imp_div_less)
  have d: "unat w div 2 ^ 24 = unat w div 256 div 256 div 256" "unat w div 2 ^ 16 = unat w div 256 div 256"
    "unat w div 2 ^ 8 = unat w div 256"
    by (simp_all add: div_mult2_eq [symmetric])
  show ?thesis
    unfolding from_be_def be32_def foldl.simps b b0 top unfolding d
    by (simp only: mult_0 add_0 nat_bytes)
qed

text \<open>Writing overwrites, then extends.  Wherever the position stands within the data, a write
replaces the bytes from it on and, past the end, extends the data, and moves the position behind the bytes
written; a seek within the data moves the position there and a seek outside it (also one whose computation
wraps round) fails and changes nothing.\<close>
theorem array_output_overwrites:
  assumes "cur_pos s \<le> length (out_bytes s)" "length (out_bytes s) < 2 ^ 63" "- (2 ^ 63) \<le> n" "n < 2 ^ 63"
  shows "array_output_write s data = (length data,
       s\<lparr>out_bytes := take (cur_pos s) (out_bytes s) @ data @ drop (cur_pos s + length data) (out_bytes s),
         cur_pos := cur_pos s + length data\<rparr>) \<and>
     array_output_seek s n SERIALIZE_SEEK_START =
       (if 0 \<le> n \<and> n \<le> int (length (out_bytes s)) then (n, s\<lparr>cur_pos := nat n\<rparr>) else (-1, s)) \<and>
     array_output_seek s n SERIALIZE_SEEK_END =
       (if 0 \<le> n \<and> n \<le> int (length (out_bytes s))
        then (int (length (out_bytes s)) - n, s\<lparr>cur_pos := nat (int (length (out_bytes s)) - n)\<rparr>) else (-1, s))"
proof -
  have m: "(x :: int) mod 2 ^ 64 = (if x < 0 then x + 2 ^ 64 else x)" if "- (2 ^ 64) \<le> x" "x < 2 ^ 64" for x
  proof (cases "x < 0")
    case True
    have "x mod 2 ^ 64 = (x + 2 ^ 64) mod 2 ^ 64" by (simp only: mod_add_self2)
    also have "\<dots> = x + 2 ^ 64" using that True by (intro mod_pos_pos_trivial) linarith+
    finally show ?thesis using True by simp
  qed (use that in \<open>simp add: mod_pos_pos_trivial\<close>)
  let ?l = "int (length (out_bytes s))"
  have l: "?l < 2 ^ 63" using assms(2) by simp
  have "array_output_write s data = (length data,
       s\<lparr>out_bytes := take (cur_pos s) (out_bytes s) @ data @ drop (cur_pos s + length data) (out_bytes s),
         cur_pos := cur_pos s + length data\<rparr>)"
    using assms(1) by (auto simp: array_output_write_def Let_def)
  moreover have "n mod 2 ^ 64 = (if n < 0 then n + 2 ^ 64 else n)" using assms(3,4) by (intro m) simp_all
  moreover have "(?l - n) mod 2 ^ 64 = (if ?l - n < 0 then ?l - n + 2 ^ 64 else ?l - n)"
    using assms(3,4) l by (intro m) simp_all
  ultimately show ?thesis using assms(3,4) l
    by (auto simp: array_output_seek_def Let_def)
qed

lemma array_output_overwrites_witness:
  "array_output_write \<lparr>out_bytes = [1, 2, 3, 4], cur_pos = 3\<rparr> [8, 9] = (2, \<lparr>out_bytes = [1, 2, 3, 8, 9], cur_pos = 5\<rparr>) \<and>
   fst (array_output_seek \<lparr>out_bytes = [1, 2, 3, 4], cur_pos = 3\<rparr> (-1) SERIALIZE_SEEK_END) = -1"
  using array_output_overwrites [of "\<lparr>out_bytes = [1, 2, 3, 4], cur_pos = 3\<rparr>" "-1" "[8, 9]"] by simp

text \<open>\<^verbatim>\<open>array_output_get_pos\<close> does not report the position.  After a successful seek
to any place before the end it still answers the number of bytes written, so the pair seek, get-position does
not round trip.\<close>
theorem get_pos_ignores_seek:
  assumes "array_output_seek s n w = (r, s')" "r \<noteq> -1" "cur_pos s' < length (out_bytes s')"
  shows "int (array_output_get_pos s') \<noteq> r"
  using assms
  by (auto simp: array_output_seek_def array_output_get_pos_def Let_def split: if_splits)

lemma get_pos_ignores_seek_witness:
  "array_output_get_pos (snd (array_output_seek \<lparr>out_bytes = [1, 2, 3, 4], cur_pos = 4\<rparr> 1 SERIALIZE_SEEK_START)) = 4"
  using get_pos_ignores_seek [of "\<lparr>out_bytes = [1, 2, 3, 4], cur_pos = 4\<rparr>" 1 SERIALIZE_SEEK_START 1
      "\<lparr>out_bytes = [1, 2, 3, 4], cur_pos = 1\<rparr>"]
  by (simp add: array_output_seek_def array_output_get_pos_def Let_def)

subsection \<open>The bit reader\<close>

text \<open>The position is a \<^verbatim>\<open>uint8_t\<close>, the length a \<^verbatim>\<open>size_t\<close>.\<close>

record bitstream_reader =
  bs_pos :: "8 word"
  subPos :: "8 word"
  bs_buf :: "8 word list"

definition bitstream_reader_init :: "8 word list \<Rightarrow> bitstream_reader" where
  "bitstream_reader_init data = \<lparr>bs_pos = 0, subPos = 0x80, bs_buf = data\<rparr>"

definition bitstream_reader_read_bit :: "bitstream_reader \<Rightarrow> 8 word \<times> bitstream_reader" where
  "bitstream_reader_read_bit r =
     (if unat (bs_pos r) \<ge> length (bs_buf r) then (0, r)
      else let bit' = (if bs_buf r ! unat (bs_pos r) AND subPos r = subPos r then 1 else 0);
               r = r\<lparr>subPos := drop_bit 1 (subPos r)\<rparr> in
        (bit', if subPos r = 0 then r\<lparr>subPos := 0x80, bs_pos := bs_pos r + 1\<rparr> else r))"

fun read_bits_loop :: "nat \<Rightarrow> 8 word \<Rightarrow> bitstream_reader \<Rightarrow> 8 word \<times> bitstream_reader" where
  "read_bits_loop 0 res r = (res, r)"
| "read_bits_loop (Suc n) res r =
     (let (b, r) = bitstream_reader_read_bit r in read_bits_loop n (push_bit 1 res OR b) r)"

definition bitstream_reader_read_bits :: "bitstream_reader \<Rightarrow> nat \<Rightarrow> 8 word \<times> bitstream_reader" where
  "bitstream_reader_read_bits r bits = read_bits_loop bits 0 r"

definition bitstream_reader_r8 :: "bitstream_reader \<Rightarrow> 8 word \<times> bitstream_reader" where
  "bitstream_reader_r8 r = bitstream_reader_read_bits r 8"

definition bitstream_reader_r16 :: "bitstream_reader \<Rightarrow> 16 word \<times> bitstream_reader" where
  "bitstream_reader_r16 r =
     (let (b, r) = bitstream_reader_read_bits r 8; (c, r) = bitstream_reader_read_bits r 8 in
      (push_bit 8 (ucast b) OR ucast c, r))"

subsection \<open>What the bit reader reads\<close>

definition bits_of :: "8 word list \<Rightarrow> bool list" where
  "bits_of bs = concat (map (\<lambda>b. map (\<lambda>i. bit b (7 - i)) [0..<8]) bs)"

definition bits_value :: "bool list \<Rightarrow> nat" where
  "bits_value bs = foldl (\<lambda>n b. 2 * n + of_bool b) 0 bs"

text \<open>The reader has read \<open>k\<close> bits of its buffer.\<close>

definition reader_at :: "bitstream_reader \<Rightarrow> nat \<Rightarrow> bool" where
  "reader_at r k \<longleftrightarrow> k \<le> 8 * length (bs_buf r) \<and> unat (bs_pos r) = k div 8 \<and> subPos r = 2 ^ (7 - k mod 8)"

lemma length_bits_of [simp]: "length (bits_of bs) = 8 * length bs"
  by (induction bs) (simp_all add: bits_of_def)

lemma bits_of_Cons: "bits_of (b # bs) = map (\<lambda>i. bit b (7 - i)) [0..<8] @ bits_of bs"
  by (simp add: bits_of_def)

lemma bits_of_nth: "k < 8 * length bs \<Longrightarrow> bits_of bs ! k = bit (bs ! (k div 8)) (7 - k mod 8)"
proof (induction bs arbitrary: k)
  case (Cons b bs)
  show ?case
  proof (cases "k < 8")
    case True
    then show ?thesis by (simp add: bits_of_Cons nth_append del: upt_Suc)
  next
    case False
    then have "k div 8 = Suc ((k - 8) div 8)" "(k - 8) mod 8 = k mod 8"
      by (simp_all add: le_div_geq le_mod_geq)
    then show ?thesis using False Cons.IH [of "k - 8"] Cons.prems
      by (simp add: bits_of_Cons nth_append del: upt_Suc)
  qed
qed simp

lemma subPos_all:
  "\<forall>j \<in> set [0..<8]. drop_bit 1 (2 ^ (7 - j) :: 8 word) = (if j = 7 then 0 else 2 ^ (7 - Suc j)) \<and>
     (2 ^ (7 - j) :: 8 word) \<noteq> 0"
  by code_simp

lemma subPos_step:
  assumes "j < 8"
  shows "drop_bit 1 (2 ^ (7 - j) :: 8 word) = (if j = 7 then 0 else 2 ^ (7 - Suc j))"
  by (rule bspec [OF subPos_all, THEN conjunct1]) (simp only: set_upt atLeastLessThan_iff assms simp_thms le0)

lemma subPos_nonzero:
  assumes "j < 8"
  shows "(2 ^ (7 - j) :: 8 word) \<noteq> 0"
  by (rule bspec [OF subPos_all, THEN conjunct2]) (simp only: set_upt atLeastLessThan_iff assms simp_thms le0)

lemma and_power_bit:
  assumes "j < 8"
  shows "(w AND 2 ^ j = (2 ^ j :: 8 word)) \<longleftrightarrow> bit w j"
proof
  assume e: "w AND 2 ^ j = 2 ^ j"
  have "bit (w AND 2 ^ j) j" using assms unfolding e by (simp add: bit_exp_iff)
  then show "bit w j" by (simp add: bit_and_iff)
next
  assume b: "bit w j"
  show "w AND 2 ^ j = 2 ^ j"
    by (rule bit_word_eqI) (use b in \<open>auto simp: bit_and_iff bit_exp_iff\<close>)
qed

lemma read_bit_eq:
  assumes "unat (bs_pos r) < length (bs_buf r)"
  shows "bitstream_reader_read_bit r =
    (if bs_buf r ! unat (bs_pos r) AND subPos r = subPos r then 1 else 0,
     if drop_bit 1 (subPos r) = 0 then r\<lparr>subPos := 0x80, bs_pos := bs_pos r + 1\<rparr>
     else r\<lparr>subPos := drop_bit 1 (subPos r)\<rparr>)"
  using assms unfolding bitstream_reader_read_bit_def Let_def by (auto simp: not_le)

lemma read_bit_at:
  assumes at: "reader_at r k" and k: "k < 8 * length (bs_buf r)" and l: "length (bs_buf r) < 256"
  obtains r' where "bitstream_reader_read_bit r = (of_bool (bits_of (bs_buf r) ! k), r')"
    "reader_at r' (Suc k)" "bs_buf r' = bs_buf r"
proof -
  have pos: "unat (bs_pos r) = k div 8" and sp: "subPos r = 2 ^ (7 - k mod 8)"
    using at by (simp_all add: reader_at_def)
  have lt: "unat (bs_pos r) < length (bs_buf r)" using pos k by auto
  have j: "k mod 8 < 8" and j': "7 - k mod 8 < 8" by simp_all
  have bitv: "(if bs_buf r ! unat (bs_pos r) AND subPos r = subPos r then 1 else 0 :: 8 word) =
      of_bool (bits_of (bs_buf r) ! k)"
    unfolding sp pos bits_of_nth [OF k] using and_power_bit [OF j', of "bs_buf r ! (k div 8)"] by (simp only: of_bool_def)
  let ?r = "if k mod 8 = 7 then r\<lparr>subPos := 0x80, bs_pos := bs_pos r + 1\<rparr>
      else r\<lparr>subPos := 2 ^ (7 - Suc (k mod 8))\<rparr>"
  have z: "drop_bit 1 (subPos r) = 0 \<longleftrightarrow> k mod 8 = 7"
    and nz: "k mod 8 \<noteq> 7 \<Longrightarrow> drop_bit 1 (subPos r) = 2 ^ (7 - Suc (k mod 8))"
    using subPos_step [OF j] subPos_nonzero [of "Suc (k mod 8)"] j unfolding sp by auto
  have "bitstream_reader_read_bit r = (of_bool (bits_of (bs_buf r) ! k), ?r)"
  proof (cases "k mod 8 = 7")
    case True
    then show ?thesis unfolding read_bit_eq [OF lt] bitv z by (simp only: if_True simp_thms)
  next
    case False
    then show ?thesis unfolding read_bit_eq [OF lt] bitv z by (simp only: if_False nz [OF False])
  qed
  moreover have "reader_at ?r (Suc k)"
  proof (cases "k mod 8 = 7")
    case True
    then have m: "Suc k mod 8 = 0" "Suc k div 8 = Suc (k div 8)" by (simp_all add: mod_Suc div_Suc)
    have "unat (bs_pos r + 1) = Suc (k div 8)"
      using lt l pos by (simp add: unat_word_ariths)
    then show ?thesis using True m k by (simp add: reader_at_def)
  next
    case False
    then have m: "Suc k mod 8 = Suc (k mod 8)" "Suc k div 8 = k div 8" by (simp_all add: mod_Suc div_Suc)
    then show ?thesis using False k pos by (simp add: reader_at_def)
  qed
  moreover have "bs_buf ?r = bs_buf r" by simp
  ultimately show ?thesis using that by blast
qed

lemma read_bit_past_end: "reader_at r (8 * length (bs_buf r)) \<Longrightarrow> bitstream_reader_read_bit r = (0, r)"
  by (simp add: reader_at_def bitstream_reader_read_bit_def)

lemma push_or_bit: "push_bit 1 w OR (of_bool c :: 8 word) = 2 * w + of_bool c"
  by (cases c) (simp_all add: or_one_eq push_bit_eq_mult mult.commute)

lemma bits_value_Cons: "bits_value (b # bs) = of_bool b * 2 ^ length bs + bits_value bs"
proof -
  have "foldl (\<lambda>n b. 2 * n + of_bool b) m bs = m * 2 ^ length bs + foldl (\<lambda>n b. 2 * n + of_bool b) 0 bs"
    for m :: nat
  proof (induction bs arbitrary: m)
    case (Cons c cs)
    have "foldl (\<lambda>n b. 2 * n + of_bool b) m (c # cs) = foldl (\<lambda>n b. 2 * n + of_bool b) (2 * m + of_bool c) cs"
      by simp
    also have "\<dots> = (2 * m + of_bool c) * 2 ^ length cs + foldl (\<lambda>n b. 2 * n + of_bool b) 0 cs"
      by (rule Cons)
    also have "\<dots> = m * 2 ^ length (c # cs) +
        (of_bool c * 2 ^ length cs + foldl (\<lambda>n b. 2 * n + of_bool b) 0 cs)"
      by (simp add: distrib_right)
    also have "of_bool c * 2 ^ length cs + foldl (\<lambda>n b. 2 * n + of_bool b) (0 :: nat) cs =
        foldl (\<lambda>n b. 2 * n + of_bool b) (of_bool c) cs"
      by (rule Cons [symmetric])
    finally show ?case by simp
  qed simp
  from this [of "of_bool b"] show ?thesis by (simp add: bits_value_def)
qed

lemma read_bits_loop_at:
  assumes "reader_at r k" "length (bs_buf r) < 256"
  shows "fst (read_bits_loop n res r) = res * 2 ^ n +
       of_nat (bits_value (take n (drop k (bits_of (bs_buf r)) @ replicate n False))) \<and>
     reader_at (snd (read_bits_loop n res r)) (min (k + n) (8 * length (bs_buf r))) \<and>
     bs_buf (snd (read_bits_loop n res r)) = bs_buf r"
  using assms
proof (induction n arbitrary: res r k)
  case 0
  have "k \<le> 8 * length (bs_buf r)" using 0 by (simp add: reader_at_def)
  then show ?case using 0 by (simp add: bits_value_def min_def)
next
  case (Suc n)
  have k: "k \<le> 8 * length (bs_buf r)" using Suc.prems by (simp add: reader_at_def)
  show ?case
  proof (cases "k < 8 * length (bs_buf r)")
    case True
    obtain r' where r': "bitstream_reader_read_bit r = (of_bool (bits_of (bs_buf r) ! k), r')"
      "reader_at r' (Suc k)" "bs_buf r' = bs_buf r"
      using read_bit_at [OF Suc.prems(1) True Suc.prems(2)] by blast
    have dr: "drop k (bits_of (bs_buf r)) = bits_of (bs_buf r) ! k # drop (Suc k) (bits_of (bs_buf r))"
      using True by (simp add: Cons_nth_drop_Suc)
    let ?x = "bits_of (bs_buf r) ! k" and ?res = "2 * res + of_bool (bits_of (bs_buf r) ! k)"
    define V where "V = take n (drop (Suc k) (bits_of (bs_buf r)) @ replicate n False)"
    have "take (Suc n) (drop k (bits_of (bs_buf r)) @ replicate (Suc n) False) = ?x # V"
      unfolding dr V_def by (simp add: replicate_append_same [symmetric] del: replicate_Suc)
    moreover have "length V = n" by (simp add: V_def)
    ultimately have v: "bits_value (take (Suc n) (drop k (bits_of (bs_buf r)) @ replicate (Suc n) False)) =
        of_bool ?x * 2 ^ n + bits_value V"
      by (simp only: bits_value_Cons)
    have step: "read_bits_loop (Suc n) res r = read_bits_loop n ?res r'"
      by (simp only: read_bits_loop.simps r'(1) Let_def prod.case push_or_bit)
    have "fst (read_bits_loop n ?res r') = ?res * 2 ^ n + of_nat (bits_value V) \<and>
        reader_at (snd (read_bits_loop n ?res r')) (min (Suc k + n) (8 * length (bs_buf r))) \<and>
        bs_buf (snd (read_bits_loop n ?res r')) = bs_buf r"
      using Suc.IH [OF r'(2), of ?res] r'(3) Suc.prems(2) unfolding V_def by simp
    moreover have "?res * 2 ^ n + of_nat (bits_value V) =
        res * 2 ^ Suc n + of_nat (of_bool ?x * 2 ^ n + bits_value V)"
      by (simp add: distrib_right)
    ultimately show ?thesis unfolding step v by (simp only: add_Suc add_Suc_right)
  next
    case False
    then have e: "k = 8 * length (bs_buf r)" using k by simp
    have b: "bitstream_reader_read_bit r = (0, r)" using Suc.prems(1) unfolding e by (rule read_bit_past_end)
    show ?thesis
      using Suc.IH [OF Suc.prems, of "push_bit 1 res"] push_or_bit [of res False]
      by (simp add: b e bits_value_Cons algebra_simps)
  qed
qed

text \<open>The bit reader reads the bits of its buffer, most significant bit first, and zeros behind
them.  From a reader that has read \<open>k\<close> bits of a buffer of less than 256 bytes, reading \<open>n\<close> bits
gives the value of the next \<open>n\<close> bits (modulo 256, the width of the result).\<close>
theorem bit_reader_reads_bits:
  assumes "reader_at r k" "length (bs_buf r) < 256"
  shows "fst (bitstream_reader_read_bits r n) =
       of_nat (bits_value (take n (drop k (bits_of (bs_buf r)) @ replicate n False))) \<and>
     reader_at (snd (bitstream_reader_read_bits r n)) (min (k + n) (8 * length (bs_buf r)))"
  using read_bits_loop_at [OF assms, of n 0] by (simp add: bitstream_reader_read_bits_def)

lemma bit_reader_reads_bits_witness:
  "fst (bitstream_reader_read_bits (bitstream_reader_init [0xA5, 0xF0]) 12) =
     of_nat (bits_value (take 12 (drop 0 (bits_of [0xA5, 0xF0]) @ replicate 12 False)))"
  using bit_reader_reads_bits [of "bitstream_reader_init [0xA5, 0xF0]" 0 12]
  by (simp add: reader_at_def bitstream_reader_init_def)

text \<open>The position of the bit reader is one byte wide.  In a buffer of 256 bytes or more it never
reaches the end: after the last bit of byte 255 it is back at the first byte.\<close>
theorem bit_reader_wraps:
  assumes "256 \<le> length (bs_buf r)" "bs_pos r = 255" "subPos r = 1"
  shows "bs_pos (snd (bitstream_reader_read_bit r)) = 0 \<and> subPos (snd (bitstream_reader_read_bit r)) = 0x80"
proof -
  have "unat (bs_pos r) < length (bs_buf r)" using assms by simp
  moreover have "drop_bit 1 (1 :: 8 word) = 0" by code_simp
  ultimately show ?thesis using assms by (simp add: read_bit_eq)
qed

lemma bit_reader_wraps_witness:
  "bs_pos (snd (bitstream_reader_read_bit \<lparr>bs_pos = 255, subPos = 1, bs_buf = replicate 300 7\<rparr>)) = 0"
  using bit_reader_wraps [of "\<lparr>bs_pos = 255, subPos = 1, bs_buf = replicate 300 7\<rparr>"] by simp

end
