(* ===== verification/Nal.thy ===== *)
theory Nal
  imports Obs_Prelude
begin

unbundle bit_operations_syntax

text \<open>
  Searching start codes in an H.264 or HEVC byte stream
  (\<^verbatim>\<open>src/libobs/obs-nal.c\<close>) and walking over its NAL units.

  A buffer is the list of its bytes; a pointer into it is an offset, kept as an integer because
  the search moves the end pointer back by 3 and by 6 before it compares with it.  A read
  outside the buffer is \<open>None\<close>.  \<open>base\<close> is the address of the first byte: the search
  aligns its four-byte loads with it.  The machine is little endian.
\<close>

subsection \<open>The search\<close>

definition rd :: "8 word list \<Rightarrow> int \<Rightarrow> 8 word option" where
  "rd bs i = (if 0 \<le> i \<and> i < int (length bs) then Some (bs ! nat i) else None)"

text \<open>The comparison \<^verbatim>\<open>p[0] == 0 && p[1] == 0 && p[2] == 1\<close>, which stops reading at the first failure.\<close>

definition is_startcode :: "8 word list \<Rightarrow> int \<Rightarrow> bool option" where
  "is_startcode bs p =
     do { b0 \<leftarrow> rd bs p;
          if b0 \<noteq> 0 then Some False
          else do { b1 \<leftarrow> rd bs (p + 1);
                    if b1 \<noteq> 0 then Some False
                    else do { b2 \<leftarrow> rd bs (p + 2); Some (b2 = 1) } } }"

definition load32 :: "8 word list \<Rightarrow> int \<Rightarrow> 32 word option" where
  "load32 bs p =
     do { b0 \<leftarrow> rd bs p; b1 \<leftarrow> rd bs (p + 1); b2 \<leftarrow> rd bs (p + 2); b3 \<leftarrow> rd bs (p + 3);
          Some (word_of_int (uint b0 + uint b1 * 2 ^ 8 + uint b2 * 2 ^ 16 + uint b3 * 2 ^ 24)) }"

definition may_have_zero_byte :: "32 word \<Rightarrow> bool" where
  "may_have_zero_byte x \<longleftrightarrow> (x - 0x01010101) AND (NOT x) AND 0x80808080 \<noteq> 0"

text \<open>The byte-wise loops: up to (not including) \<open>lim\<close>; \<open>Inl p\<close> is a return of \<open>p\<close>.\<close>

function scan_bytes :: "8 word list \<Rightarrow> int \<Rightarrow> int \<Rightarrow> (int + int) option" where
  "scan_bytes bs p lim =
     (if p < lim then
        (case is_startcode bs p of
           None \<Rightarrow> None
         | Some found \<Rightarrow> if found then Some (Inl p) else scan_bytes bs (p + 1) lim)
      else Some (Inr p))"
  by pat_completeness auto
termination by (relation "measure (\<lambda>(bs, p, lim). nat (lim - p))") auto

declare scan_bytes.simps [simp del]

definition check_word :: "8 word list \<Rightarrow> int \<Rightarrow> int option option" where
  "check_word bs p =
     do { b1 \<leftarrow> rd bs (p + 1);
          r \<leftarrow> (if b1 = 0 then
                 do { b0 \<leftarrow> rd bs p; b2 \<leftarrow> rd bs (p + 2);
                      if b0 = 0 \<and> b2 = 1 then Some (Some p)
                      else do { b3 \<leftarrow> rd bs (p + 3);
                                Some (if b2 = 0 \<and> b3 = 1 then Some (p + 1) else None) } }
               else Some None);
          case r of Some q \<Rightarrow> Some (Some q)
          | None \<Rightarrow>
              do { b3 \<leftarrow> rd bs (p + 3);
                   if b3 = 0 then
                     do { b2 \<leftarrow> rd bs (p + 2); b4 \<leftarrow> rd bs (p + 4);
                          if b2 = 0 \<and> b4 = 1 then Some (Some (p + 2))
                          else do { b5 \<leftarrow> rd bs (p + 5);
                                    Some (if b4 = 0 \<and> b5 = 1 then Some (p + 3) else None) } }
                   else Some None } }"

function scan_words :: "8 word list \<Rightarrow> int \<Rightarrow> int \<Rightarrow> (int + int) option" where
  "scan_words bs p lim =
     (if p < lim then
        (case load32 bs p of
           None \<Rightarrow> None
         | Some x \<Rightarrow>
             (case (if may_have_zero_byte x then check_word bs p else Some None) of
                None \<Rightarrow> None
              | Some (Some q) \<Rightarrow> Some (Inl q)
              | Some None \<Rightarrow> scan_words bs (p + 4) lim))
      else Some (Inr p))"
  by pat_completeness auto
termination by (relation "measure (\<lambda>(bs, p, lim). nat (lim - p))") auto

declare scan_words.simps [simp del]

definition ff_avc_find_startcode_internal :: "int \<Rightarrow> 8 word list \<Rightarrow> int \<Rightarrow> int option" where
  "ff_avc_find_startcode_internal base bs p =
     (let a = p + 4 - (base + p) mod 4;
          end1 = int (length bs) - 3;
          end2 = end1 - 3;
          end3 = end2 + 3 in
      case scan_bytes bs p (min a end1) of
        None \<Rightarrow> None
      | Some (Inl q) \<Rightarrow> Some q
      | Some (Inr p) \<Rightarrow>
     (case scan_words bs p end2 of
        None \<Rightarrow> None
      | Some (Inl q) \<Rightarrow> Some q
      | Some (Inr p) \<Rightarrow>
     (case scan_bytes bs p end3 of
        None \<Rightarrow> None
      | Some (Inl q) \<Rightarrow> Some q
      | Some (Inr p) \<Rightarrow> Some (end3 + 3))))"

definition obs_nal_find_startcode :: "int \<Rightarrow> 8 word list \<Rightarrow> int \<Rightarrow> int option" where
  "obs_nal_find_startcode base bs p =
     do { out \<leftarrow> ff_avc_find_startcode_internal base bs p;
          if p < out \<and> out < int (length bs) then
            do { b \<leftarrow> rd bs (out - 1); Some (if b = 0 then out - 1 else out) }
          else Some out }"

subsection \<open>The zero-byte test\<close>

lemma odd_div:
  fixes n :: int
  assumes "n = 2 * m * k + r" "m \<le> r" "r < 2 * m"
  shows "odd (n div m)"
proof -
  have m: "0 < m" using assms(2,3) by linarith
  have "n div m = 2 * k + r div m" unfolding assms(1) using m by (simp add: mult.assoc mult.left_commute)
  moreover have "r div m = 1" using assms(2,3) m by (simp add: div_pos_geq)
  ultimately show ?thesis by simp
qed

lemma even_div:
  fixes n :: int
  assumes "n = 2 * m * k + r" "0 \<le> r" "r < m"
  shows "even (n div m)"
proof -
  have "n div m = 2 * k + r div m" unfolding assms(1) using assms(2,3) by (simp add: mult.assoc mult.left_commute)
  then show ?thesis using assms(2,3) by simp
qed

lemma zero_byte_bit:
  fixes N :: int
  assumes "n \<in> {7, 15, 23, 31}" "odd ((N - 16843009) div 2 ^ n)" "even (N div 2 ^ n)"
  shows "may_have_zero_byte (word_of_int N)"
proof -
  have n: "n < 32" "bit (0x80808080 :: 32 word) n" using assms(1) by (auto; code_simp)+
  have e: "(word_of_int N :: 32 word) - 0x01010101 = word_of_int (N - 16843009)" by simp
  have "bit ((word_of_int N :: 32 word) - 0x01010101) n"
    unfolding e bit_word_of_int_iff using n(1) assms(2) by (simp add: bit_iff_odd)
  moreover have "\<not> bit (word_of_int N :: 32 word) n"
    unfolding bit_word_of_int_iff using assms(3) by (simp add: bit_iff_odd)
  ultimately have "bit (((word_of_int N :: 32 word) - 0x01010101) AND NOT (word_of_int N) AND 0x80808080) n"
    using n by (simp add: bit_and_iff bit_not_iff)
  then show ?thesis unfolding may_have_zero_byte_def by (metis bit_0_eq bot_apply bot_bool_def)
qed

lemma zero_byte_found:
  fixes b0 b1 b2 b3 :: int
  assumes "0 \<le> b0" "b0 < 256" "0 \<le> b1" "b1 < 256" "0 \<le> b2" "b2 < 256" "0 \<le> b3" "b3 < 256"
    and "b0 = 0 \<or> b1 = 0 \<or> b2 = 0 \<or> b3 = 0"
  shows "may_have_zero_byte (word_of_int (b0 + b1 * 2 ^ 8 + b2 * 2 ^ 16 + b3 * 2 ^ 24))"
proof -
  let ?N = "b0 + b1 * 2 ^ 8 + b2 * 2 ^ 16 + b3 * 2 ^ 24"
  consider "b0 = 0" | "b0 \<noteq> 0" "b1 = 0" | "b0 \<noteq> 0" "b1 \<noteq> 0" "b2 = 0"
    | "b0 \<noteq> 0" "b1 \<noteq> 0" "b2 \<noteq> 0" "b3 = 0"
    using assms(9) by blast
  then show ?thesis
  proof cases
    case 1
    show ?thesis
    proof (rule zero_byte_bit [of 7])
      show "odd ((?N - 16843009) div 2 ^ 7)"
        by (rule odd_div [where k = "b1 + b2 * 256 + b3 * 65536 - 65794" and r = 255]) (simp_all add: 1)
      show "even (?N div 2 ^ 7)"
        by (rule even_div [where k = "b1 + b2 * 256 + b3 * 65536" and r = 0]) (simp_all add: 1)
    qed simp
  next
    case 2
    show ?thesis
    proof (rule zero_byte_bit [of 15])
      show "odd ((?N - 16843009) div 2 ^ 15)"
        by (rule odd_div [where k = "b2 + b3 * 256 - 258" and r = "65280 + b0 - 1"]) (use assms 2 in simp_all)
      show "even (?N div 2 ^ 15)"
        by (rule even_div [where k = "b2 + b3 * 256" and r = b0]) (use assms 2 in simp_all)
    qed simp
  next
    case 3
    show ?thesis
    proof (rule zero_byte_bit [of 23])
      show "odd ((?N - 16843009) div 2 ^ 23)"
        by (rule odd_div [where k = "b3 - 2" and r = "16711680 + (b1 - 1) * 256 + b0 - 1"]) (use assms 3 in simp_all)
      show "even (?N div 2 ^ 23)"
        by (rule even_div [where k = b3 and r = "b1 * 256 + b0"]) (use assms 3 in simp_all)
    qed simp
  next
    case 4
    show ?thesis
    proof (rule zero_byte_bit [of 31])
      show "odd ((?N - 16843009) div 2 ^ 31)"
        by (rule odd_div [where k = "-1" and r = "4278190080 + (b2 - 1) * 65536 + (b1 - 1) * 256 + b0 - 1"])
          (use assms 4 in simp_all)
      show "even (?N div 2 ^ 31)"
        by (rule even_div [where k = 0 and r = "b2 * 65536 + b1 * 256 + b0"]) (use assms 4 in simp_all)
    qed simp
  qed
qed

subsection \<open>The search finds the first start code\<close>

text \<open>The reference: the first place with three bytes 0, 0, 1 that has a byte behind them, or the end.\<close>

definition sc_at :: "8 word list \<Rightarrow> nat \<Rightarrow> bool" where
  "sc_at bs i \<longleftrightarrow> i + 3 < length bs \<and> bs ! i = 0 \<and> bs ! (i + 1) = 0 \<and> bs ! (i + 2) = 1"

function first_sc :: "8 word list \<Rightarrow> nat \<Rightarrow> nat" where
  "first_sc bs p =
     (if p + 3 < length bs then if sc_at bs p then p else first_sc bs (Suc p) else length bs)"
  by pat_completeness auto
termination by (relation "measure (\<lambda>(bs, p). length bs - p)") auto

declare first_sc.simps [simp del]

lemma rd_nat [simp]: "i < length bs \<Longrightarrow> rd bs (int i) = Some (bs ! i)"
  by (simp add: rd_def)

lemma rd_add [simp]:
  "i + n < length bs \<Longrightarrow> rd bs (int i + int n) = Some (bs ! (i + n))"
  "i + 1 < length bs \<Longrightarrow> rd bs (int i + 1) = Some (bs ! (i + 1))"
  "i + numeral k < length bs \<Longrightarrow> rd bs (int i + numeral k) = Some (bs ! (i + numeral k))"
  using rd_nat [of "i + n" bs] rd_nat [of "i + 1" bs] rd_nat [of "i + numeral k" bs]
  by (simp_all add: add.commute)

lemma is_startcode_at: "i + 3 < length bs \<Longrightarrow> is_startcode bs (int i) = Some (sc_at bs i)"
  by (simp add: is_startcode_def sc_at_def)

lemma first_sc_skip: "i \<le> j \<Longrightarrow> (\<And>k. i \<le> k \<Longrightarrow> k < j \<Longrightarrow> \<not> sc_at bs k) \<Longrightarrow> j + 3 \<le> length bs \<Longrightarrow>
    first_sc bs i = first_sc bs j"
proof (induction rule: inc_induct)
  case (step n)
  then show ?case by (subst first_sc.simps) simp
qed simp

lemma scan_bytes_spec:
  assumes "lim \<le> int (length bs) - 3" "i \<le> length bs"
  shows "(\<exists>q. scan_bytes bs (int i) lim = Some (Inl (int q)) \<and> first_sc bs i = q) \<or>
     (\<exists>q. scan_bytes bs (int i) lim = Some (Inr (int q)) \<and> first_sc bs i = first_sc bs q \<and>
        i \<le> q \<and> lim \<le> int q \<and> int q \<le> max (int i) lim)"
  using assms
proof (induction "length bs - i" arbitrary: i)
  case 0
  then show ?case by (subst scan_bytes.simps) (auto simp: scan_bytes.simps)
next
  case (Suc d)
  show ?case
  proof (cases "int i < lim")
    case True
    then have i: "i + 3 < length bs" using Suc.prems by linarith
    have s: "scan_bytes bs (int i) lim = (if sc_at bs i then Some (Inl (int i)) else scan_bytes bs (int (Suc i)) lim)"
      using True by (subst scan_bytes.simps) (simp add: is_startcode_at [OF i] add.commute)
    have f: "first_sc bs i = (if sc_at bs i then i else first_sc bs (Suc i))"
      using i by (subst first_sc.simps) simp
    show ?thesis
    proof (cases "sc_at bs i")
      case False
      have "d = length bs - Suc i" using Suc.hyps(2) by linarith
      from Suc.hyps(1) [OF this Suc.prems(1)] show ?thesis
        unfolding s f using False True i by (auto simp: max_def)
    qed (simp add: s f)
  next
    case False
    then show ?thesis by (subst (1 2) scan_bytes.simps) auto
  qed
qed

lemma uint_byte: "0 \<le> uint (b :: 8 word)" "uint b < 256"
  using uint_lt2p [of b] by simp_all

lemma load32_no_zero:
  assumes "i + 3 < length bs" "load32 bs (int i) = Some x" "\<not> may_have_zero_byte x"
  shows "bs ! i \<noteq> 0 \<and> bs ! (i + 1) \<noteq> 0 \<and> bs ! (i + 2) \<noteq> 0 \<and> bs ! (i + 3) \<noteq> 0"
proof -
  have x: "x = word_of_int (uint (bs ! i) + uint (bs ! (i + 1)) * 2 ^ 8 + uint (bs ! (i + 2)) * 2 ^ 16 +
      uint (bs ! (i + 3)) * 2 ^ 24)"
    using assms(1,2) by (simp add: load32_def)
  show ?thesis
    using zero_byte_found [OF uint_byte [of "bs ! i"] uint_byte [of "bs ! (i + 1)"]
        uint_byte [of "bs ! (i + 2)"] uint_byte [of "bs ! (i + 3)"]] assms(3)
    unfolding x by (metis uint_0_eq)
qed

lemma first_sc_4:
  assumes "i + 6 < length bs"
  shows "first_sc bs i = (if sc_at bs i then i else if sc_at bs (i + 1) then i + 1
     else if sc_at bs (i + 2) then i + 2 else if sc_at bs (i + 3) then i + 3 else first_sc bs (i + 4))"
proof -
  have "first_sc bs (i + n) = (if sc_at bs (i + n) then i + n else first_sc bs (i + Suc n))" if "n < 4" for n
    using that assms by (subst first_sc.simps) simp
  from this [of 0] this [of 1] this [of 2] this [of 3] show ?thesis by (simp add: eval_nat_numeral)
qed

lemma check_word_spec:
  assumes "i + 6 < length bs"
  shows "check_word bs (int i) = Some (if sc_at bs i then Some (int i) else if sc_at bs (i + 1) then Some (int i + 1)
     else if sc_at bs (i + 2) then Some (int i + 2) else if sc_at bs (i + 3) then Some (int i + 3) else None)"
proof -
  have e: "i + 1 + 1 = i + 2" "i + 1 + 2 = i + 3" "i + 1 + 3 = i + 4" "i + 2 + 1 = i + 3" "i + 2 + 2 = i + 4"
    "i + 2 + 3 = i + 5" "i + 3 + 1 = i + 4" "i + 3 + 2 = i + 5" "i + 3 + 3 = i + 6" by simp_all
  have s: "sc_at bs i \<longleftrightarrow> bs ! i = 0 \<and> bs ! (i + 1) = 0 \<and> bs ! (i + 2) = 1"
    "sc_at bs (i + 1) \<longleftrightarrow> bs ! (i + 1) = 0 \<and> bs ! (i + 2) = 0 \<and> bs ! (i + 3) = 1"
    "sc_at bs (i + 2) \<longleftrightarrow> bs ! (i + 2) = 0 \<and> bs ! (i + 3) = 0 \<and> bs ! (i + 4) = 1"
    "sc_at bs (i + 3) \<longleftrightarrow> bs ! (i + 3) = 0 \<and> bs ! (i + 4) = 0 \<and> bs ! (i + 5) = 1"
    unfolding sc_at_def e using assms by auto
  have r: "rd bs (int i) = Some (bs ! i)" "rd bs (int i + 1) = Some (bs ! (i + 1))"
    "rd bs (int i + 2) = Some (bs ! (i + 2))" "rd bs (int i + 3) = Some (bs ! (i + 3))"
    "rd bs (int i + 4) = Some (bs ! (i + 4))" "rd bs (int i + 5) = Some (bs ! (i + 5))"
    using assms by simp_all
  show ?thesis unfolding s check_word_def r bind.bind_lunit
    by (cases "bs ! (i + 1) = 0"; cases "bs ! (i + 3) = 0"; cases "bs ! (i + 2) = 0"; simp)
qed

lemma scan_words_spec:
  assumes "i \<le> length bs"
  shows "(\<exists>q. scan_words bs (int i) (int (length bs) - 6) = Some (Inl (int q)) \<and> first_sc bs i = q) \<or>
     (\<exists>q. scan_words bs (int i) (int (length bs) - 6) = Some (Inr (int q)) \<and> first_sc bs i = first_sc bs q \<and>
        q \<le> length bs)"
  using assms
proof (induction "length bs - i" arbitrary: i rule: less_induct)
  case less
  let ?lim = "int (length bs) - 6"
  show ?case
  proof (cases "int i < ?lim")
    case True
    then have i: "i + 6 < length bs" by linarith
    then obtain x where x: "load32 bs (int i) = Some x" by (simp add: load32_def)
    have rest: ?thesis if n: "\<And>k. k < 4 \<Longrightarrow> \<not> sc_at bs (i + k)"
      and s: "scan_words bs (int i) ?lim = scan_words bs (int (i + 4)) ?lim"
    proof -
      have "first_sc bs i = first_sc bs (i + 4)"
        using n [of 0] n [of 1] n [of 2] n [of 3] by (simp add: first_sc_4 [OF i])
      then show ?thesis unfolding s using less.hyps [of "i + 4"] i by auto
    qed
    show ?thesis
    proof (cases "may_have_zero_byte x")
      case False
      have "bs ! i \<noteq> 0 \<and> bs ! (i + 1) \<noteq> 0 \<and> bs ! (i + 2) \<noteq> 0 \<and> bs ! (i + 3) \<noteq> 0"
        using load32_no_zero [OF _ x False] i by simp
      then have "\<not> sc_at bs (i + k)" if "k < 4" for k
        using that by (auto simp: sc_at_def less_Suc_eq eval_nat_numeral)
      moreover have "scan_words bs (int i) ?lim = scan_words bs (int (i + 4)) ?lim"
        using True False x by (subst scan_words.simps) simp
      ultimately show ?thesis by (rule rest)
    next
      case z: True
      have s: "scan_words bs (int i) ?lim = (case check_word bs (int i) of
          None \<Rightarrow> None | Some (Some q) \<Rightarrow> Some (Inl q) | Some None \<Rightarrow> scan_words bs (int i + 4) ?lim)"
        using True x z by (subst scan_words.simps) simp
      show ?thesis
      proof (cases "\<exists>k < 4. sc_at bs (i + k)")
        case True
        then show ?thesis unfolding s check_word_spec [OF i] first_sc_4 [OF i]
          by (auto simp: less_Suc_eq eval_nat_numeral)
      next
        case False
        then have n: "\<And>k. k < 4 \<Longrightarrow> \<not> sc_at bs (i + k)" by blast
        show ?thesis
          by (rule rest [OF n]) (use n [of 0] n [of 1] n [of 2] n [of 3] in \<open>simp_all add: s check_word_spec [OF i]\<close>)
      qed
    qed
  next
    case False
    then show ?thesis using less.prems by (subst (1 2) scan_words.simps) auto
  qed
qed

lemma first_sc_past: "length bs \<le> i + 3 \<Longrightarrow> first_sc bs i = length bs"
  by (subst first_sc.simps) simp

text \<open>C25: The optimised search for a start code is the naive search.  For every buffer, every start
within it and every alignment of the buffer in memory, \<^verbatim>\<open>ff_avc_find_startcode_internal\<close> (which
skips four bytes at a time by a bit trick) reads only bytes of the buffer and returns the first place that
holds a start code and is not among the last three bytes, or the end of the buffer.\<close>
theorem find_startcode_internal_correct:
  assumes "i \<le> length bs"
  shows "ff_avc_find_startcode_internal base bs (int i) = Some (int (first_sc bs i))"
proof -
  let ?l1 = "min (int i + 4 - (base + int i) mod 4) (int (length bs) - 3)"
  have e: "int (length bs) - 3 - 3 = int (length bs) - 6" "int (length bs) - 3 - 3 + 3 = int (length bs) - 3"
    "int (length bs) - 3 - 3 + 3 + 3 = int (length bs)" by simp_all
  note d = ff_avc_find_startcode_internal_def [of base bs "int i", unfolded Let_def e]
  show ?thesis
  proof (cases "scan_bytes bs (int i) ?l1 = Some (Inl (int (first_sc bs i)))")
    case True
    then show ?thesis unfolding d by simp
  next
    case False
    then obtain q where q: "scan_bytes bs (int i) ?l1 = Some (Inr (int q))" "first_sc bs i = first_sc bs q"
      "int q \<le> max (int i) ?l1"
      using scan_bytes_spec [of ?l1 bs i] assms by auto
    have ql: "q \<le> length bs" using q(3) assms by linarith
    show ?thesis
    proof (cases "scan_words bs (int q) (int (length bs) - 6) = Some (Inl (int (first_sc bs q)))")
      case True
      then show ?thesis unfolding d by (simp add: q(1,2))
    next
      case False
      then obtain r where r: "scan_words bs (int q) (int (length bs) - 6) = Some (Inr (int r))"
        "first_sc bs q = first_sc bs r" "r \<le> length bs"
        using scan_words_spec [OF ql] by auto
      show ?thesis
      proof (cases "scan_bytes bs (int r) (int (length bs) - 3) = Some (Inl (int (first_sc bs r)))")
        case True
        then show ?thesis unfolding d by (simp add: q(1,2) r(1,2))
      next
        case False
        then obtain u where u: "scan_bytes bs (int r) (int (length bs) - 3) = Some (Inr (int u))"
          "first_sc bs r = first_sc bs u" "int (length bs) - 3 \<le> int u"
          using scan_bytes_spec [of "int (length bs) - 3" bs r] r(3) by auto
        then have "first_sc bs u = length bs" by (intro first_sc_past) linarith
        then show ?thesis unfolding d by (simp add: q(1,2) r(1,2) u(1,2))
      qed
    qed
  qed
qed

lemma find_startcode_internal_correct_witness:
  "ff_avc_find_startcode_internal 2 [9, 0, 3, 7, 7, 7, 7, 0, 0, 1, 5, 6] (int 0) = Some 7"
proof -
  have "first_sc [9, 0, 3, 7, 7, 7, 7, 0, 0, 1, 5, 6] 0 = 7"
    by (simp add: first_sc.simps sc_at_def)
  then show ?thesis
    using find_startcode_internal_correct [of 0 "[9, 0, 3, 7, 7, 7, 7, 0, 0, 1, 5, 6]" 2] by simp
qed

text \<open>What the exported search returns: four-byte start codes are found at their first zero.\<close>

definition find_sc :: "8 word list \<Rightarrow> nat \<Rightarrow> nat" where
  "find_sc bs p = (let q = first_sc bs p in if p < q \<and> q < length bs \<and> bs ! (q - 1) = 0 then q - 1 else q)"

lemma first_sc_bounds: "i \<le> length bs \<Longrightarrow> i \<le> first_sc bs i \<and> first_sc bs i \<le> length bs"
  by (induction bs i rule: first_sc.induct) (subst (1 2) first_sc.simps, auto)

lemma find_sc_bounds: "i \<le> length bs \<Longrightarrow> i \<le> find_sc bs i \<and> find_sc bs i \<le> length bs"
  using first_sc_bounds [of i bs] by (auto simp: find_sc_def Let_def)

lemma obs_nal_find_startcode_spec:
  assumes "i \<le> length bs"
  shows "obs_nal_find_startcode base bs (int i) = Some (int (find_sc bs i))"
proof -
  let ?q = "first_sc bs i"
  have b: "i < ?q \<Longrightarrow> ?q < length bs \<Longrightarrow> rd bs (int ?q - 1) = Some (bs ! (?q - 1))"
    by (simp add: rd_def nat_diff_distrib)
  show ?thesis
    using b by (auto simp: obs_nal_find_startcode_def find_startcode_internal_correct [OF assms] find_sc_def Let_def of_nat_diff)
qed

subsection \<open>Walking over the NAL units\<close>

text \<open>
  Every parser of a packet repeats the same loop: skip zero bytes and the first byte behind them
  (the 1 of the start code), stop at the end, find the next start code, handle the unit in between.
  \<open>nal_loop\<close> is this loop, with what is done to the unit as an argument: it gets the offset
  of the start code, of the unit and of its end.
\<close>

function skip_start :: "8 word list \<Rightarrow> int \<Rightarrow> int option" where
  "skip_start bs p =
     (if p < int (length bs) then
        (case rd bs p of None \<Rightarrow> None
         | Some b \<Rightarrow> if b \<noteq> 0 then Some (p + 1) else skip_start bs (p + 1))
      else Some p)"
  by pat_completeness auto
termination by (relation "measure (\<lambda>(bs, p). nat (int (length bs) - p))") auto

declare skip_start.simps [simp del]

partial_function (option) nal_loop ::
    "int \<Rightarrow> 8 word list \<Rightarrow> (int \<Rightarrow> int \<Rightarrow> int \<Rightarrow> 's \<Rightarrow> 's option) \<Rightarrow> int \<Rightarrow> 's \<Rightarrow> 's option" where
  "nal_loop base bs body nal_start s =
     do { q \<leftarrow> skip_start bs nal_start;
          if q = int (length bs) then Some s
          else do { nal_end \<leftarrow> obs_nal_find_startcode base bs q;
                    s \<leftarrow> body nal_start q nal_end s;
                    nal_loop base bs body nal_end s } }"

definition bytes_between :: "8 word list \<Rightarrow> int \<Rightarrow> int \<Rightarrow> 8 word list option" where
  "bytes_between bs p e =
     (if 0 \<le> p \<and> p \<le> e \<and> e \<le> int (length bs) then Some (take (nat (e - p)) (drop (nat p) bs)) else None)"

text \<open>The units that a walk from \<open>p\<close> visits, as offsets of start code, unit and end.\<close>

function skip :: "8 word list \<Rightarrow> nat \<Rightarrow> nat" where
  "skip bs p = (if p < length bs then if bs ! p \<noteq> 0 then Suc p else skip bs (Suc p) else length bs)"
  by pat_completeness auto
termination by (relation "measure (\<lambda>(bs, p). length bs - p)") auto

declare skip.simps [simp del]

lemma skip_past: "length bs \<le> p \<Longrightarrow> skip bs p = length bs"
  by (subst skip.simps) simp

lemma skip_bounds: "skip bs p \<le> length bs \<and> (p < length bs \<longrightarrow> p < skip bs p)"
proof (induction bs p rule: skip.induct)
  case (1 bs p)
  have s: "skip bs p = (if p < length bs then if bs ! p \<noteq> 0 then Suc p else skip bs (Suc p) else length bs)"
    by (rule skip.simps)
  show ?case
  proof (cases "p < length bs \<and> bs ! p = 0")
    case True
    then show ?thesis using 1 by (cases "Suc p < length bs") (auto simp: s skip_past)
  qed (auto simp: s)
qed

function nal_spans :: "8 word list \<Rightarrow> nat \<Rightarrow> (nat \<times> nat \<times> nat) list" where
  "nal_spans bs p =
     (let q = skip bs p in
      if q = length bs then [] else (p, q, find_sc bs q) # nal_spans bs (find_sc bs q))"
  by pat_completeness auto
termination
proof (relation "measure (\<lambda>(bs, p). length bs - p)", goal_cases)
  case (2 bs p q)
  have p: "p < length bs"
  proof (rule ccontr)
    assume "\<not> p < length bs"
    then have "skip bs p = length bs" by (subst skip.simps) simp
    then show False using 2 by simp
  qed
  then show ?case using 2 skip_bounds [of bs p] find_sc_bounds [of q bs] by auto
qed simp

declare nal_spans.simps [simp del]

lemma skip_start_spec: "i \<le> length bs \<Longrightarrow> skip_start bs (int i) = Some (int (skip bs i))"
proof (induction "length bs - i" arbitrary: i)
  case 0
  then show ?case by (subst skip_start.simps, subst skip.simps) simp
next
  case (Suc d)
  then have "d = length bs - Suc i" "Suc i \<le> length bs" by simp_all
  from Suc.hyps(1) [OF this] show ?case
    using Suc.hyps(2) by (subst skip_start.simps, subst skip.simps) (auto simp: add.commute)
qed

lemma nal_spans_bounds:
  "i \<le> length bs \<Longrightarrow> (p, q, e) \<in> set (nal_spans bs i) \<Longrightarrow> i \<le> p \<and> p < q \<and> q < length bs \<and> q \<le> e \<and> e \<le> length bs"
proof (induction bs i arbitrary: p q e rule: nal_spans.induct)
  case (1 bs i)
  let ?q = "skip bs i"
  show ?case
  proof (cases "?q = length bs")
    case True
    then show ?thesis using "1.prems" by (subst (asm) nal_spans.simps) (simp add: Let_def)
  next
    case False
    then have q: "i < ?q" "?q < length bs"
      using skip_bounds [of bs i] "1.prems"(1) by (cases "i = length bs"; simp add: skip.simps)+
    have e: "?q \<le> find_sc bs ?q" "find_sc bs ?q \<le> length bs" using find_sc_bounds [of ?q bs] q by auto
    have "(p, q, e) = (i, ?q, find_sc bs ?q) \<or> (p, q, e) \<in> set (nal_spans bs (find_sc bs ?q))"
      using "1.prems"(2) False by (subst (asm) nal_spans.simps) (auto simp: Let_def)
    then show ?thesis
      using "1.IH" [OF refl False e(2)] q e by fastforce
  qed
qed

text \<open>The walk never leaves the buffer, ends, and handles exactly these units.\<close>

lemma nal_loop_spec:
  "i \<le> length bs \<Longrightarrow>
     nal_loop base bs body (int i) s =
     opt_fold (\<lambda>s (p, q, e). body (int p) (int q) (int e) s) s (nal_spans bs i)"
proof (induction bs i arbitrary: s rule: nal_spans.induct)
  case (1 bs i)
  let ?q = "skip bs i"
  have ql: "?q \<le> length bs" using skip_bounds by blast
  have el: "find_sc bs ?q \<le> length bs" using find_sc_bounds [OF ql] by simp
  show ?case
  proof (cases "?q = length bs")
    case True
    then show ?thesis
      by (subst nal_loop.simps, subst nal_spans.simps) (simp add: skip_start_spec "1.prems" Let_def)
  next
    case False
    have ih: "nal_loop base bs body (int (find_sc bs ?q)) =
        (\<lambda>s. opt_fold (\<lambda>s (p, q, e). body (int p) (int q) (int e) s) s (nal_spans bs (find_sc bs ?q)))"
      by (rule ext) (rule "1.IH" [OF refl False el])
    show ?thesis
      by (subst nal_loop.simps, subst nal_spans.simps)
        (simp add: skip_start_spec "1.prems" Let_def False obs_nal_find_startcode_spec [OF ql] ih)
  qed
qed

subsection \<open>A stream made of units\<close>

definition startcodes :: "8 word list set" where
  "startcodes = {[0, 0, 1], [0, 0, 0, 1]}"

definition clean_nal :: "8 word list \<Rightarrow> bool" where
  "clean_nal n \<longleftrightarrow> n \<noteq> [] \<and> last n \<noteq> 0 \<and>
     (\<forall>i. i + 2 < length n \<longrightarrow> \<not> (n ! i = 0 \<and> n ! (i + 1) = 0 \<and> n ! (i + 2) = 1))"

fun annexb :: "(8 word list \<times> 8 word list) list \<Rightarrow> 8 word list" where
  "annexb [] = []"
| "annexb ((c, n) # us) = c @ n @ annexb us"

definition valid_units :: "(8 word list \<times> 8 word list) list \<Rightarrow> bool" where
  "valid_units us \<longleftrightarrow> (\<forall>(c, n) \<in> set us. c \<in> startcodes \<and> clean_nal n)"

lemma sc_at_drop: "sc_at (drop i bs) k \<longleftrightarrow> i \<le> length bs \<and> sc_at bs (i + k) \<or> False" if "i \<le> length bs"
  using that by (auto simp: sc_at_def add.assoc)

lemma first_sc_unique:
  assumes "i \<le> k" "\<And>j. i \<le> j \<Longrightarrow> j < k \<Longrightarrow> \<not> sc_at bs j" "sc_at bs k"
  shows "first_sc bs i = k"
proof -
  have "first_sc bs i = first_sc bs k"
    using assms by (intro first_sc_skip) (auto simp: sc_at_def)
  also have "\<dots> = k" using assms(3) by (subst first_sc.simps) (auto simp: sc_at_def)
  finally show ?thesis .
qed

lemma first_sc_none:
  assumes "i \<le> length bs" "\<And>j. i \<le> j \<Longrightarrow> \<not> sc_at bs j"
  shows "first_sc bs i = length bs"
proof (cases "i + 3 \<le> length bs")
  case True
  then have "first_sc bs i = first_sc bs (length bs - 3)"
    using assms(2) by (intro first_sc_skip) auto
  also have "\<dots> = length bs" by (rule first_sc_past) simp
  finally show ?thesis .
qed (simp add: first_sc_past)

lemma clean_no_sc:
  assumes "clean_nal n" "c \<in> startcodes" "k < length n"
  shows "\<not> sc_at (n @ c @ rest) k" "\<not> sc_at n k"
proof -
  have ne: "n \<noteq> []" and l: "last n = n ! (length n - 1)" "last n \<noteq> 0"
    using assms(1) by (auto simp: clean_nal_def last_conv_nth)
  have inner: "k + 2 < length n \<Longrightarrow> \<not> (n ! k = 0 \<and> n ! (k + 1) = 0 \<and> n ! (k + 2) = 1)"
    using assms(1) by (auto simp: clean_nal_def)
  have c: "c ! 0 = 0" "c ! 1 = 0" "3 \<le> length c" using assms(2) by (auto simp: startcodes_def)
  show "\<not> sc_at n k" using inner by (auto simp: sc_at_def)
  consider "k + 2 < length n" | "k + 2 = length n" | "k + 1 = length n" using assms(3) by linarith
  then show "\<not> sc_at (n @ c @ rest) k"
  proof cases
    case 1
    then show ?thesis using inner by (auto simp: sc_at_def nth_append)
  next
    case 2
    then show ?thesis using c by (auto simp: sc_at_def nth_append)
  next
    case 3
    then have "n ! k \<noteq> 0" using l by (simp flip: 3)
    then show ?thesis using assms(3) by (auto simp: sc_at_def nth_append)
  qed
qed

lemma clean_hd: "clean_nal n \<Longrightarrow> 0 < length n" by (auto simp: clean_nal_def)

lemma sc_at_append: "sc_at (pre @ bs) (length pre + k) = sc_at bs k"
  by (auto simp: sc_at_def nth_append)

lemma find_sc_in_stream:
  assumes n: "clean_nal n" and us: "valid_units us"
  shows "find_sc (pre @ n @ annexb us) (length pre) = length pre + length n"
proof (cases us)
  case Nil
  have "first_sc (pre @ n) (length pre) = length (pre @ n)"
  proof (rule first_sc_none)
    fix j assume "length pre \<le> j"
    then obtain k where j: "j = length pre + k" using le_Suc_ex by blast
    show "\<not> sc_at (pre @ n) j"
    proof (cases "k < length n")
      case True
      then show ?thesis using clean_no_sc(2) [OF n _ True, of "[0, 0, 1]"]
        unfolding j sc_at_append by (simp add: startcodes_def)
    qed (auto simp: sc_at_def j)
  qed simp
  then show ?thesis using Nil by (simp add: find_sc_def Let_def)
next
  case (Cons u us')
  obtain c m where u: "u = (c, m)" by (cases u)
  have c: "c \<in> startcodes" and m: "m \<noteq> []" using us by (auto simp: valid_units_def Cons u clean_nal_def)
  let ?bs = "pre @ n @ c @ m @ annexb us'"
  have no: "\<not> sc_at ?bs (length pre + k)" if "k < length n" for k
    unfolding sc_at_append by (rule clean_no_sc(1) [OF n c that])
  have in_c: "?bs ! (length pre + length n + k) = c ! k" if "k < length c" for k
    using that by (simp add: nth_append)
  have sc_c: "sc_at ?bs (length pre + length n + k) = sc_at (c @ m @ annexb us') k" for k
    by (simp add: sc_at_append add.assoc)
  have ln: "0 < length n" using n by (rule clean_hd)
  have last: "?bs ! (length pre + length n - 1) \<noteq> 0"
  proof -
    have "?bs ! (length pre + (length n - 1)) = n ! (length n - 1)"
      unfolding nth_append_length_plus using ln by (simp add: nth_append)
    moreover have "length pre + (length n - 1) = length pre + length n - 1" using ln by linarith
    moreover have "n ! (length n - 1) \<noteq> 0" using n by (auto simp: clean_nal_def last_conv_nth)
    ultimately show ?thesis by (simp only: simp_thms)
  qed
  have lm: "0 < length m" using m by simp
  show ?thesis
  proof (cases "c = [0, 0, 1]")
    case True
    have "first_sc ?bs (length pre) = length pre + length n"
    proof (rule first_sc_unique)
      show "sc_at ?bs (length pre + length n)"
        unfolding sc_c [of 0, simplified] using lm True by (simp add: sc_at_def)
    next
      fix j assume "length pre \<le> j" "j < length pre + length n"
      then show "\<not> sc_at ?bs j" using no [of "j - length pre"] by simp
    qed simp
    then show ?thesis using last by (simp add: find_sc_def Let_def Cons u)
  next
    case False
    then have c4: "c = [0, 0, 0, 1]" using c by (simp add: startcodes_def)
    have "first_sc ?bs (length pre) = length pre + length n + 1"
    proof (rule first_sc_unique)
      show "sc_at ?bs (length pre + length n + 1)"
        unfolding sc_c using lm c4 by (simp add: sc_at_def)
    next
      fix j assume j: "length pre \<le> j" "j < length pre + length n + 1"
      show "\<not> sc_at ?bs j"
      proof (cases "j = length pre + length n")
        case True
        then show ?thesis using in_c [of 2] c4 by (simp add: sc_at_def)
      next
        case False
        then show ?thesis using no [of "j - length pre"] j by simp
      qed
    qed simp
    moreover have "?bs ! (length pre + length n) = 0" using in_c [of 0] c4 by simp
    ultimately show ?thesis using ln c4 by (simp add: find_sc_def Let_def Cons u)
  qed
qed

lemma skip_in_stream:
  assumes "c \<in> startcodes"
  shows "skip (pre @ c @ rest) (length pre) = length pre + length c"
proof -
  have z: "skip bs p = (if bs ! p \<noteq> 0 then Suc p else skip bs (Suc p))" if "p < length bs" for bs p
    using that by (subst skip.simps) simp
  from assms show ?thesis
    unfolding startcodes_def
    by (auto simp: z nth_append simp del: append_assoc)
qed

text \<open>The units of a stream are those it was made of.\<close>

fun span_list :: "nat \<Rightarrow> (8 word list \<times> 8 word list) list \<Rightarrow> (nat \<times> nat \<times> nat) list" where
  "span_list p [] = []"
| "span_list p ((c, n) # us) =
     (p, p + length c, p + length c + length n) # span_list (p + length c + length n) us"

lemma nal_spans_stream:
  "valid_units us \<Longrightarrow> nal_spans (pre @ annexb us) (length pre) = span_list (length pre) us"
proof (induction us arbitrary: pre)
  case Nil
  then show ?case by (subst nal_spans.simps) (simp add: skip_past)
next
  case (Cons u us)
  obtain c n where u: "u = (c, n)" by (cases u)
  have c: "c \<in> startcodes" and n: "clean_nal n" and us: "valid_units us"
    using Cons.prems by (auto simp: valid_units_def u)
  have sk: "skip (pre @ c @ n @ annexb us) (length pre) = length pre + length c"
    by (rule skip_in_stream [OF c])
  have fs: "find_sc (pre @ c @ n @ annexb us) (length pre + length c) = length pre + length c + length n"
    using find_sc_in_stream [OF n us, of "pre @ c"] by simp
  have ih: "nal_spans (pre @ c @ n @ annexb us) (length pre + length c + length n) =
      span_list (length pre + length c + length n) us"
    using Cons.IH [OF us, of "pre @ c @ n"] by (simp add: add.assoc)
  have ne: "length pre + length c \<noteq> length (pre @ c @ n @ annexb us)" using clean_hd [OF n] by simp
  show ?case unfolding u annexb.simps span_list.simps
    by (subst nal_spans.simps) (simp only: Let_def sk fs ih ne if_False)
qed

lemma bytes_between_mid [simp]:
  "bytes_between (pre @ n @ rest) (int (length pre)) (int (length pre + length n)) = Some n"
  by (simp add: bytes_between_def nat_add_distrib)

text \<open>
  A walk over a stream, with a body that looks only at the bytes of the start code and the unit,
  is the fold of the body over the units.
\<close>

lemma nal_loop_stream:
  assumes "valid_units us"
    and body: "\<And>pre c n rest s. n \<noteq> [] \<Longrightarrow> body (pre @ c @ n @ rest) (int (length pre))
        (int (length (pre @ c))) (int (length (pre @ c @ n))) s = f s (c, n)"
  shows "nal_loop base (annexb us) (body (annexb us)) 0 s = opt_fold f s us"
proof -
  have "opt_fold (\<lambda>s (p, q, e). body (pre @ annexb us) (int p) (int q) (int e) s) s (span_list (length pre) us) =
      opt_fold f s us" if "valid_units us" for pre us s
    using that
  proof (induction us arbitrary: pre s)
    case (Cons u us)
    obtain c n where u: "u = (c, n)" by (cases u)
    have us: "valid_units us" and n: "n \<noteq> []" using Cons.prems by (auto simp: valid_units_def u clean_nal_def)
    have b: "body (pre @ c @ n @ annexb us) (int (length pre)) (int (length pre + length c))
        (int (length pre + length c + length n)) s = f s (c, n)"
      using body [OF n, of pre c "annexb us" s] by (simp add: add.assoc)
    have ih: "opt_fold (\<lambda>s (p, q, e). body (pre @ c @ n @ annexb us) (int p) (int q) (int e) s) s'
        (span_list (length pre + length c + length n) us) = opt_fold f s' us" for s'
      using Cons.IH [OF us, of "pre @ c @ n" s'] by (simp add: add.assoc)
    show ?case unfolding u annexb.simps span_list.simps opt_fold.simps prod.case b ih ..
  qed simp
  from this [OF assms(1), of "[]"] show ?thesis
    using nal_loop_spec [of 0 "annexb us" base "body (annexb us)" s] nal_spans_stream [OF assms(1), of "[]"]
    by simp
qed

end
