(* ===== verification/Avc.thy ===== *)
theory Avc
  imports Nal Serializer Packet
begin

unbundle bit_operations_syntax

text \<open>
  Packets of the H.264 and HEVC encoders (\<^verbatim>\<open>src/libobs/obs-avc.c\<close>,
  \<^verbatim>\<open>obs-hevc.c\<close>): from the byte stream with start codes to the length-prefixed form of the
  container formats, key-frame and priority detection, splitting off the parameter sets, and the
  \<^verbatim>\<open>avcC\<close> header.

  An output parameter is part of the result.  \<open>base\<close> is the address of the packet's data.
\<close>

subsection \<open>Classification of a unit by its first byte\<close>

definition OBS_NAL_SLICE :: "8 word" where "OBS_NAL_SLICE = 1"
definition OBS_NAL_SLICE_IDR :: "8 word" where "OBS_NAL_SLICE_IDR = 5"
definition OBS_NAL_SEI :: "8 word" where "OBS_NAL_SEI = 6"
definition OBS_NAL_SPS :: "8 word" where "OBS_NAL_SPS = 7"
definition OBS_NAL_PPS :: "8 word" where "OBS_NAL_PPS = 8"

definition compute_avc_keyframe_priority :: "8 word \<Rightarrow> bool \<Rightarrow> int \<Rightarrow> bool \<times> int" where
  "compute_avc_keyframe_priority b is_keyframe prio =
     (let type = b AND 0x1F;
          is_keyframe = (if type = OBS_NAL_SLICE_IDR then True else is_keyframe);
          new_priority = uint (drop_bit 5 b) in
      (is_keyframe, if prio < new_priority then new_priority else prio))"

definition hevc_type :: "8 word \<Rightarrow> nat" where
  "hevc_type b = unat (drop_bit 1 (b AND 0x7F))"

definition compute_hevc_keyframe_priority :: "8 word \<Rightarrow> bool \<Rightarrow> int \<Rightarrow> bool \<times> int" where
  "compute_hevc_keyframe_priority b is_keyframe prio =
     (let type = hevc_type b;
          (is_keyframe, new_priority) =
            (if type \<in> set [16, 17, 18, 19, 20, 21, 22, 23] then (True, 3)
             else if type \<in> set [1, 3, 5, 7, 9] then (is_keyframe, 2)
             else (is_keyframe, 0)) in
      (is_keyframe, if prio > new_priority then prio else new_priority))"

subsection \<open>Length-prefixed packets\<close>

type_synonym classifier = "8 word \<Rightarrow> bool \<Rightarrow> int \<Rightarrow> bool \<times> int"

definition serialize_unit ::
    "classifier \<Rightarrow> 8 word list \<Rightarrow> int \<Rightarrow> int \<Rightarrow> int \<Rightarrow> array_output_data \<times> bool \<times> int \<Rightarrow>
     (array_output_data \<times> bool \<times> int) option" where
  "serialize_unit compute data codestart nal_start nal_end = (\<lambda>(s, is_keyframe, prio).
     do { b \<leftarrow> rd data nal_start;
          let (is_keyframe, prio) = compute b is_keyframe prio;
          nal \<leftarrow> bytes_between data nal_start nal_end;
          let s = s_wb32 s (of_nat (length nal));
          Some (s_write s nal, is_keyframe, prio) })"

definition serialize_nal_data ::
    "classifier \<Rightarrow> int \<Rightarrow> array_output_data \<Rightarrow> 8 word list \<Rightarrow> bool \<Rightarrow> int \<Rightarrow>
     (array_output_data \<times> bool \<times> int) option" where
  "serialize_nal_data compute base s data is_keyframe prio =
     do { nal_start \<leftarrow> obs_nal_find_startcode base data 0;
          nal_loop base data (serialize_unit compute data) nal_start (s, is_keyframe, prio) }"

definition serialize_avc_data where
  "serialize_avc_data = serialize_nal_data compute_avc_keyframe_priority"

definition serialize_hevc_data where
  "serialize_hevc_data = serialize_nal_data compute_hevc_keyframe_priority"

text \<open>
  The reference count is an eight-byte \<^verbatim>\<open>long\<close> in front of the data; in the heap it is
  the field \<open>refs\<close> of the new payload.
\<close>

definition ref_header :: "8 word list" where "ref_header = [1, 0, 0, 0, 0, 0, 0, 0]"

definition parse_packet ::
    "(int \<Rightarrow> array_output_data \<Rightarrow> 8 word list \<Rightarrow> bool \<Rightarrow> int \<Rightarrow> (array_output_data \<times> bool \<times> int) option) \<Rightarrow>
     int \<Rightarrow> heap \<Rightarrow> encoder_packet \<Rightarrow> (encoder_packet \<times> heap) option" where
  "parse_packet serializer base h src =
     do { data \<leftarrow> payload_bytes h src;
          let s = snd (array_output_write array_output_serializer_init ref_header);
          (s, is_keyframe, prio) \<leftarrow> serializer base s data (keyframe src) (priority src);
          let a = next_addr h;
          let bs = drop (length ref_header) (out_bytes s);
          Some (src\<lparr>pdata := Some a, psize := length (out_bytes s) - length ref_header,
                    keyframe := is_keyframe, priority := prio, drop_priority := prio\<rparr>,
                h\<lparr>next_addr := Suc a, payloads := (payloads h)(a \<mapsto> \<lparr>refs = 1, bytes = bs\<rparr>)\<rparr>) }"

definition obs_parse_avc_packet where "obs_parse_avc_packet = parse_packet serialize_avc_data"
definition obs_parse_hevc_packet where "obs_parse_hevc_packet = parse_packet serialize_hevc_data"

subsection \<open>Key frames and priorities without conversion\<close>

definition priority_unit ::
    "classifier \<Rightarrow> 8 word list \<Rightarrow> int \<Rightarrow> int \<Rightarrow> int \<Rightarrow> int \<Rightarrow> int option" where
  "priority_unit compute data codestart nal_start nal_end prio =
     map_option (\<lambda>b. snd (compute b False prio)) (rd data nal_start)"

definition parse_packet_priority :: "classifier \<Rightarrow> int \<Rightarrow> heap \<Rightarrow> encoder_packet \<Rightarrow> int option" where
  "parse_packet_priority compute base h packet =
     do { data \<leftarrow> payload_bytes h packet;
          nal_start \<leftarrow> obs_nal_find_startcode base data 0;
          nal_loop base data (priority_unit compute data) nal_start (priority packet) }"

definition obs_parse_avc_packet_priority where
  "obs_parse_avc_packet_priority = parse_packet_priority compute_avc_keyframe_priority"

definition obs_parse_hevc_packet_priority where
  "obs_parse_hevc_packet_priority = parse_packet_priority compute_hevc_keyframe_priority"

partial_function (option) keyframe_loop ::
    "int \<Rightarrow> 8 word list \<Rightarrow> (8 word \<Rightarrow> bool option) \<Rightarrow> int \<Rightarrow> bool option" where
  "keyframe_loop base data classify nal_start =
     do { q \<leftarrow> skip_start data nal_start;
          if q = int (length data) then Some False
          else do { b \<leftarrow> rd data q;
                    case classify b of
                      Some r \<Rightarrow> Some r
                    | None \<Rightarrow> do { nal_end \<leftarrow> obs_nal_find_startcode base data q;
                                  keyframe_loop base data classify nal_end } } }"

definition avc_slice :: "8 word \<Rightarrow> bool option" where
  "avc_slice b = (let type = b AND 0x1F in
     if type = OBS_NAL_SLICE_IDR \<or> type = OBS_NAL_SLICE then Some (type = OBS_NAL_SLICE_IDR) else None)"

definition hevc_slice :: "8 word \<Rightarrow> bool option" where
  "hevc_slice b = (let type = hevc_type b in if type \<le> 23 then Some (type \<ge> 16) else None)"

definition obs_avc_keyframe :: "int \<Rightarrow> 8 word list \<Rightarrow> bool option" where
  "obs_avc_keyframe base data =
     do { nal_start \<leftarrow> obs_nal_find_startcode base data 0; keyframe_loop base data avc_slice nal_start }"

definition obs_hevc_keyframe :: "int \<Rightarrow> 8 word list \<Rightarrow> bool option" where
  "obs_hevc_keyframe base data =
     do { nal_start \<leftarrow> obs_nal_find_startcode base data 0; keyframe_loop base data hevc_slice nal_start }"

subsection \<open>Splitting off parameter sets\<close>

datatype nal_class = NalHeader | NalSei | NalOther

definition avc_class :: "8 word \<Rightarrow> nal_class" where
  "avc_class b = (let type = b AND 0x1F in
     if type = OBS_NAL_SPS \<or> type = OBS_NAL_PPS then NalHeader
     else if type = OBS_NAL_SEI then NalSei else NalOther)"

definition hevc_class :: "8 word \<Rightarrow> nal_class" where
  "hevc_class b = (let type = hevc_type b in
     if type = 32 \<or> type = 33 \<or> type = 34 then NalHeader
     else if type = 39 \<or> type = 40 then NalSei else NalOther)"

type_synonym extracted = "8 word list \<times> 8 word list \<times> 8 word list"

definition add_class :: "nal_class \<Rightarrow> 8 word list \<Rightarrow> extracted \<Rightarrow> extracted" where
  "add_class c bs = (\<lambda>(new_packet, header, sei).
     case c of NalHeader \<Rightarrow> (new_packet, header @ bs, sei)
             | NalSei \<Rightarrow> (new_packet, header, sei @ bs)
             | NalOther \<Rightarrow> (new_packet @ bs, header, sei))"

partial_function (option) extract_loop ::
    "int \<Rightarrow> 8 word list \<Rightarrow> (8 word \<Rightarrow> nal_class) \<Rightarrow> int \<Rightarrow> extracted \<Rightarrow> extracted option" where
  "extract_loop base packet cls nal_codestart acc =
     do { q \<leftarrow> skip_start packet nal_codestart;
          if q = int (length packet) then Some acc
          else do { b \<leftarrow> rd packet q;
                    nal_end \<leftarrow> obs_nal_find_startcode base packet q;
                    bs \<leftarrow> bytes_between packet nal_codestart nal_end;
                    let acc = add_class (cls b) bs acc in
                    if nal_end = int (length packet) then Some acc
                    else extract_loop base packet cls nal_end acc } }"

definition extract_headers :: "(8 word \<Rightarrow> nal_class) \<Rightarrow> int \<Rightarrow> 8 word list \<Rightarrow> extracted option" where
  "extract_headers cls base packet =
     do { nal_start \<leftarrow> obs_nal_find_startcode base packet 0;
          extract_loop base packet cls nal_start ([], [], []) }"

definition obs_extract_avc_headers where "obs_extract_avc_headers = extract_headers avc_class"
definition obs_extract_hevc_headers where "obs_extract_hevc_headers = extract_headers hevc_class"

subsection \<open>The avcC header\<close>

definition has_start_code :: "8 word list \<Rightarrow> bool option" where
  "has_start_code data =
     do { b0 \<leftarrow> rd data 0;
          if b0 \<noteq> 0 then Some False
          else do { b1 \<leftarrow> rd data 1;
          if b1 \<noteq> 0 then Some False
          else do { b2 \<leftarrow> rd data 2;
          if b2 = 1 then Some True
          else if b2 \<noteq> 0 then Some False
          else map_option (\<lambda>b3. b3 = 1) (rd data 3) } } }"

definition sps_pps_unit ::
    "8 word list \<Rightarrow> int \<Rightarrow> int \<Rightarrow> int \<Rightarrow> 8 word list option \<times> 8 word list option \<Rightarrow>
     (8 word list option \<times> 8 word list option) option" where
  "sps_pps_unit data codestart nal_start nal_end = (\<lambda>(sps, pps).
     do { b \<leftarrow> rd data nal_start;
          nal \<leftarrow> bytes_between data nal_start nal_end;
          let type = b AND 0x1F;
          Some (if type = OBS_NAL_SPS then (Some nal, pps)
                else if type = OBS_NAL_PPS then (sps, Some nal) else (sps, pps)) })"

definition get_sps_pps :: "int \<Rightarrow> 8 word list \<Rightarrow> (8 word list option \<times> 8 word list option) option" where
  "get_sps_pps base data =
     do { nal_start \<leftarrow> obs_nal_find_startcode base data 0;
          nal_loop base data (sps_pps_unit data) nal_start (None, None) }"

text \<open>
  The Exp-Golomb code.  The shift \<^verbatim>\<open>1 << i\<close> of an \<^verbatim>\<open>int\<close> is undefined for
  \<open>i \<ge> 31\<close>; the result is then \<open>None\<close>.
\<close>

fun golomb_zeros :: "nat \<Rightarrow> bitstream_reader \<Rightarrow> nat \<times> bitstream_reader" where
  "golomb_zeros 0 gb = (0, gb)"
| "golomb_zeros (Suc n) gb =
     (let (b, gb) = bitstream_reader_read_bits gb 1 in
      if b = 0 then let (i, gb) = golomb_zeros n gb in (Suc i, gb) else (0, gb))"

definition get_ue_golomb :: "bitstream_reader \<Rightarrow> (8 word \<times> bitstream_reader) option" where
  "get_ue_golomb gb =
     (let (i, gb) = golomb_zeros 32 gb in
      if i \<ge> 31 then None
      else let (v, gb) = bitstream_reader_read_bits gb i in Some (v + of_nat (2 ^ i) - 1, gb))"

text \<open>Removing the emulation prevention bytes.\<close>

fun extract_rbsp :: "8 word list \<Rightarrow> 8 word list" where
  "extract_rbsp (a # b # c # rest) =
     (if a = 0 \<and> b = 0 \<and> c = 3 then a # b # extract_rbsp rest else a # extract_rbsp (b # c # rest))"
| "extract_rbsp bs = bs"

definition get_sps_high_params :: "8 word list \<Rightarrow> (8 word \<times> 8 word \<times> 8 word) option" where
  "get_sps_high_params sps =
     do { let gb = bitstream_reader_init (extract_rbsp sps);
          let (_, gb) = bitstream_reader_read_bits gb 24;
          (_, gb) \<leftarrow> get_ue_golomb gb;
          (chroma_format_idc, gb) \<leftarrow> get_ue_golomb gb;
          let gb = (if chroma_format_idc = 3 then snd (bitstream_reader_read_bits gb 1) else gb);
          (bit_depth_luma, gb) \<leftarrow> get_ue_golomb gb;
          (bit_depth_chroma, gb) \<leftarrow> get_ue_golomb gb;
          Some (chroma_format_idc, bit_depth_luma, bit_depth_chroma) }"

definition write_avcc :: "8 word list \<Rightarrow> 8 word list \<Rightarrow> array_output_data" where
  "write_avcc sps pps =
     (let s = s_w8 array_output_serializer_init 0x01;
          s = s_write s (take 3 (drop 1 sps));
          s = s_w8 s 0xff;
          s = s_w8 s 0xe1;
          s = s_wb16 s (of_nat (length sps));
          s = s_write s sps;
          s = s_w8 s 0x01;
          s = s_wb16 s (of_nat (length pps)) in
      s_write s pps)"

definition write_high_params :: "array_output_data \<Rightarrow> 8 word list \<Rightarrow> array_output_data option" where
  "write_high_params s sps =
     (let profile_idc = sps ! 1 in
      if profile_idc = 100 \<or> profile_idc = 110 \<or> profile_idc = 122 \<or> profile_idc = 244 then
        do { (chroma_format_idc, bit_depth_luma, bit_depth_chroma) \<leftarrow> get_sps_high_params (drop 1 sps);
             let s = s_w8 s (0xfc OR chroma_format_idc);
             let s = s_w8 s (0xf8 OR bit_depth_luma);
             let s = s_w8 s (0xf8 OR bit_depth_chroma);
             Some (s_w8 s 0) }
      else Some s)"

text \<open>The result is the size and the header, which stays unset where the function returns 0 early.\<close>

definition obs_parse_avc_header :: "int \<Rightarrow> 8 word list \<Rightarrow> (nat \<times> 8 word list option) option" where
  "obs_parse_avc_header base data =
     (if length data \<le> 6 then Some (0, None)
      else do { sc \<leftarrow> has_start_code data;
          if \<not> sc then Some (length data, Some data)
          else do { (sps, pps) \<leftarrow> get_sps_pps base data;
            case (sps, pps) of
              (Some sps, Some pps) \<Rightarrow>
                if length sps < 4 then Some (0, None)
                else map_option (\<lambda>s. (length (out_bytes s), Some (out_bytes s)))
                       (write_high_params (write_avcc sps pps) sps)
            | _ \<Rightarrow> Some (0, None) } })"

subsection \<open>Conversion keeps the units\<close>

lemma find_start_stream:
  assumes "valid_units us"
  shows "obs_nal_find_startcode base (annexb us) 0 = Some 0"
proof (cases us)
  case Nil
  then show ?thesis
    using obs_nal_find_startcode_spec [of 0 "[]" base] by (simp add: find_sc_def Let_def first_sc_past)
next
  case (Cons u us')
  obtain c n where u: "u = (c, n)" by (cases u)
  have c: "c \<in> startcodes" and n: "n \<noteq> []" using assms by (auto simp: valid_units_def Cons u clean_nal_def)
  let ?bs = "c @ n @ annexb us'"
  have ln: "0 < length n" using n by simp
  have "find_sc ?bs 0 = 0"
  proof (cases "c = [0, 0, 1]")
    case True
    have "first_sc ?bs 0 = 0" by (rule first_sc_unique) (use ln True in \<open>simp_all add: sc_at_def\<close>)
    then show ?thesis by (simp add: find_sc_def Let_def)
  next
    case False
    then have c4: "c = [0, 0, 0, 1]" using c by (simp add: startcodes_def)
    have "first_sc ?bs 0 = 1" by (rule first_sc_unique) (use ln c4 in \<open>simp_all add: sc_at_def\<close>)
    then show ?thesis using c4 by (simp add: find_sc_def Let_def)
  qed
  then show ?thesis using obs_nal_find_startcode_spec [of 0 ?bs base] by (simp add: Cons u)
qed

lemma rd_unit: "n \<noteq> [] \<Longrightarrow> rd (pre @ c @ n @ rest) (int (length (pre @ c))) = Some (hd n)"
proof -
  assume n: "n \<noteq> []"
  have "(pre @ c @ n @ rest) ! length (pre @ c) = hd n"
    using n by (simp add: hd_conv_nth nth_append flip: append_assoc)
  then show ?thesis using n rd_nat [of "length (pre @ c)" "pre @ c @ n @ rest"] by simp
qed

lemma bytes_unit:
  "bytes_between (pre @ c @ n @ rest) (int (length (pre @ c))) (int (length (pre @ c @ n))) = Some n"
  "bytes_between (pre @ c @ n @ rest) (int (length pre)) (int (length (pre @ c @ n))) = Some (c @ n)"
  by (simp_all add: bytes_between_def nat_add_distrib)

definition lengths_form :: "(8 word list \<times> 8 word list) list \<Rightarrow> 8 word list" where
  "lengths_form us = concat (map (\<lambda>u. be32 (of_nat (length (snd u))) @ snd u) us)"

fun classify_units :: "classifier \<Rightarrow> bool \<Rightarrow> int \<Rightarrow> (8 word list \<times> 8 word list) list \<Rightarrow> bool \<times> int" where
  "classify_units compute k p [] = (k, p)"
| "classify_units compute k p (u # us) =
     (let (k, p) = compute (hd (snd u)) k p in classify_units compute k p us)"

lemma serialize_stream:
  assumes "valid_units us" "at_end s"
  shows "\<exists>s'. serialize_nal_data compute base s (annexb us) k p =
       Some (s', classify_units compute k p us) \<and> at_end s' \<and>
       out_bytes s' = out_bytes s @ lengths_form us"
proof -
  define f where "f = (\<lambda>(s, k, p) (c :: 8 word list, n).
     Some (s_write (s_wb32 s (of_nat (length n))) n, compute (hd n) k p))"
  have b: "serialize_unit compute (pre @ c @ n @ rest) (int (length pre)) (int (length (pre @ c)))
      (int (length (pre @ c @ n))) a = f a (c, n)" if "n \<noteq> []" for pre c n rest a
  proof -
    obtain s k p where a: "a = (s, k, p)" by (metis prod_cases3)
    show ?thesis unfolding a serialize_unit_def f_def rd_unit [OF that] bytes_unit
      by (simp add: split_beta)
  qed
  have "serialize_nal_data compute base s (annexb us) k p = opt_fold f (s, k, p) us"
    unfolding serialize_nal_data_def find_start_stream [OF assms(1)]
    using nal_loop_stream [OF assms(1), of "serialize_unit compute" f base "(s, k, p)"] b by simp
  moreover have "\<exists>s'. opt_fold f (s, k, p) us = Some (s', classify_units compute k p us) \<and> at_end s' \<and>
       out_bytes s' = out_bytes s @ lengths_form us" if "at_end s" for s k p
    using that
  proof (induction us arbitrary: s k p)
    case (Cons u us)
    obtain c n where u: "u = (c, n)" by (cases u)
    obtain k' p' where kp: "compute (hd n) k p = (k', p')" by (metis prod.exhaust)
    let ?s = "s_write (s_wb32 s (of_nat (length n))) n"
    have "at_end ?s" "out_bytes ?s = out_bytes s @ be32 (of_nat (length n)) @ n"
      using Cons.prems by (simp_all add: write_simps)
    then show ?case using Cons.IH [of ?s k' p']
      by (simp add: f_def u kp lengths_form_def)
  qed (simp add: lengths_form_def)
  ultimately show ?thesis using assms(2) by simp
qed

text \<open>The reader of a length-prefixed packet.\<close>

function split_lengths :: "8 word list \<Rightarrow> 8 word list list option" where
  "split_lengths bs =
     (if bs = [] then Some []
      else if length bs < 4 then None
      else let n = from_be (take 4 bs) in
        if length bs < 4 + n then None
        else map_option (\<lambda>ns. take n (drop 4 bs) # ns) (split_lengths (drop (4 + n) bs)))"
  by pat_completeness auto
termination by (relation "measure length") auto

declare split_lengths.simps [simp del]

lemma split_lengths_form:
  assumes "\<forall>u \<in> set us. length (snd u) < 2 ^ 32"
  shows "split_lengths (lengths_form us) = Some (map snd us)"
  using assms
proof (induction us)
  case Nil
  then show ?case by (simp add: lengths_form_def split_lengths.simps)
next
  case (Cons u us)
  let ?n = "snd u"
  have ih: "split_lengths (lengths_form us) = Some (map snd us)" using Cons by simp
  have l4: "length (be32 w) = 4" for w by (simp add: be32_def)
  have n: "from_be (be32 (of_nat (length ?n))) = length ?n"
    using Cons.prems by (simp add: from_be_be32 unat_of_nat take_bit_nat_eq_self)
  have e: "lengths_form (u # us) = be32 (of_nat (length ?n)) @ ?n @ lengths_form us"
    by (simp add: lengths_form_def)
  have ne: "be32 w \<noteq> []" for w by (simp add: be32_def)
  have t4: "take 4 (be32 w @ xs) = be32 w" "drop 4 (be32 w @ xs) = xs" for w xs by (simp_all add: l4)
  have d: "drop (4 + length ?n) (be32 (of_nat (length ?n)) @ ?n @ lengths_form us) = lengths_form us"
    by (simp add: l4 flip: drop_drop)
  show ?case unfolding e
    by (subst split_lengths.simps) (simp add: ne t4 n l4 d Let_def ih)
qed

lemma length_lengths_le: "u \<in> set us \<Longrightarrow> length (snd u) \<le> length (annexb us)"
proof (induction us)
  case (Cons v us)
  obtain c n where "v = (c, n)" by (cases v)
  then show ?case using Cons by auto
qed simp

lemma parse_packet_stream:
  assumes "payload_bytes h src = Some (annexb us)" "valid_units us" "length (annexb us) < 2 ^ 32" "heap_ok h"
  shows "\<exists>p' h' bs. parse_packet (serialize_nal_data compute) base h src = Some (p', h') \<and>
     payload_bytes h' p' = Some bs \<and> split_lengths bs = Some (map snd us) \<and>
     (keyframe p', priority p') = classify_units compute (keyframe src) (priority src) us \<and>
     drop_priority p' = priority p' \<and> pts p' = pts src \<and> dts p' = dts src \<and>
     heap_ok h' \<and> (\<forall>a. refs_of h' a = refs_of h a + holds_ref p' a)"
proof -
  let ?s = "snd (array_output_write array_output_serializer_init ref_header)"
  have s: "at_end ?s" "out_bytes ?s = ref_header"
    by (simp_all add: at_end_def array_output_write_def array_output_serializer_init_def Let_def)
  obtain s' where s': "serialize_nal_data compute base ?s (annexb us) (keyframe src) (priority src) =
       Some (s', classify_units compute (keyframe src) (priority src) us)"
     "out_bytes s' = ref_header @ lengths_form us"
    using serialize_stream [OF assms(2) s(1), of compute base "keyframe src" "priority src"] s(2) by auto
  obtain k p where kp: "classify_units compute (keyframe src) (priority src) us = (k, p)"
    by (metis prod.exhaust)
  have sl: "split_lengths (lengths_form us) = Some (map snd us)"
    using assms(3) length_lengths_le by (intro split_lengths_form) fastforce
  have fresh: "payloads h (next_addr h) = None" using assms(4) by (simp add: heap_ok_def)
  show ?thesis
    unfolding parse_packet_def assms(1) bind.bind_lunit Let_def s'(1) kp prod.case
    using s'(2) sl fresh assms(4)
    by (auto simp: payload_bytes_def mem_read_def heap_ok_def refs_of_def holds_ref_def)
qed

lemma classify_avc:
  "classify_units compute_avc_keyframe_priority k p us =
     (k \<or> (\<exists>u \<in> set us. hd (snd u) AND 0x1F = OBS_NAL_SLICE_IDR),
      foldl max p (map (\<lambda>u. uint (drop_bit 5 (hd (snd u)))) us))"
  by (induction us arbitrary: k p)
    (auto simp: compute_avc_keyframe_priority_def Let_def max_def split: if_splits)

text \<open>C6: Converting an H.264 packet keeps its units.  For a packet whose data is any sequence of NAL
units with three- or four-byte start codes, \<^verbatim>\<open>obs_parse_avc_packet\<close> returns a new packet of its
own (one new reference) whose data, read by its length prefixes, gives exactly these units; it is a key frame
when the packet was one or an IDR slice is among the units, and its priority is the largest one.\<close>
theorem parse_avc_packet_units:
  assumes "payload_bytes h src = Some (annexb us)" "valid_units us" "length (annexb us) < 2 ^ 32" "heap_ok h"
  shows "\<exists>p' h' bs. obs_parse_avc_packet base h src = Some (p', h') \<and>
     payload_bytes h' p' = Some bs \<and> split_lengths bs = Some (map snd us) \<and>
     keyframe p' = (keyframe src \<or> (\<exists>u \<in> set us. hd (snd u) AND 0x1F = OBS_NAL_SLICE_IDR)) \<and>
     priority p' = foldl max (priority src) (map (\<lambda>u. uint (drop_bit 5 (hd (snd u)))) us) \<and>
     drop_priority p' = priority p' \<and> pts p' = pts src \<and> dts p' = dts src \<and>
     heap_ok h' \<and> (\<forall>a. refs_of h' a = refs_of h a + holds_ref p' a)"
  using parse_packet_stream [OF assms, of compute_avc_keyframe_priority base]
  unfolding obs_parse_avc_packet_def serialize_avc_data_def classify_avc by auto


lemma clean_nal_code [code]:
  "clean_nal n \<longleftrightarrow> n \<noteq> [] \<and> last n \<noteq> 0 \<and>
     list_all (\<lambda>i. \<not> (n ! i = 0 \<and> n ! (i + 1) = 0 \<and> n ! (i + 2) = 1)) [0..<length n - 2]"
  by (auto simp: clean_nal_def list_all_iff less_diff_conv)

definition wit_units :: "(8 word list \<times> 8 word list) list" where
  "wit_units = [([0, 0, 0, 1], [0x67, 66, 0, 30]), ([0, 0, 0, 1], [0x68, 0xCE]), ([0, 0, 1], [0x65, 0x88, 0, 0, 3])]"

definition wit_avc_heap :: heap where
  "wit_avc_heap = \<lparr>next_addr = 8, payloads = [7 \<mapsto> \<lparr>refs = 1, bytes = annexb wit_units\<rparr>]\<rparr>"

lemma wit_units_valid: "valid_units wit_units"
proof -
  have "clean_nal [0x67, 66, 0, 30]" "clean_nal [0x68, 0xCE]" "clean_nal [0x65, 0x88, 0, 0, 3]"
    by code_simp+
  then show ?thesis by (simp add: valid_units_def wit_units_def startcodes_def)
qed

lemma parse_avc_packet_units_witness:
  "\<exists>p' h' bs. obs_parse_avc_packet 4 wit_avc_heap (packet_zero\<lparr>pdata := Some 7, psize := 22\<rparr>) = Some (p', h') \<and>
     payload_bytes h' p' = Some bs \<and>
     split_lengths bs = Some [[0x67, 66, 0, 30], [0x68, 0xCE], [0x65, 0x88, 0, 0, 3]] \<and> keyframe p' \<and> priority p' = 3"
proof -
  have "payload_bytes wit_avc_heap (packet_zero\<lparr>pdata := Some 7, psize := 22\<rparr>) = Some (annexb wit_units)"
    by code_simp
  moreover have "length (annexb wit_units) < 2 ^ 32" by (simp add: wit_units_def)
  moreover have "heap_ok wit_avc_heap" by (simp add: heap_ok_def wit_avc_heap_def)
  moreover have "\<exists>u \<in> set wit_units. hd (snd u) AND 0x1F = OBS_NAL_SLICE_IDR"
    by (simp add: wit_units_def OBS_NAL_SLICE_IDR_def)
  moreover have "foldl max 0 (map (\<lambda>u. uint (drop_bit 5 (hd (snd u)))) wit_units) = 3" by code_simp
  moreover have "map snd wit_units = [[0x67, 66, 0, 30], [0x68, 0xCE], [0x65, 0x88, 0, 0, 3]]"
    by (simp add: wit_units_def)
  ultimately show ?thesis
    using parse_avc_packet_units [of wit_avc_heap "packet_zero\<lparr>pdata := Some 7, psize := 22\<rparr>" wit_units 4]
      wit_units_valid
    by (auto simp: packet_zero_def)
qed

subsection \<open>Key frames\<close>

lemma hevc_irap: "hevc_type b \<in> {16, 17, 18, 19, 20, 21, 22, 23} \<longleftrightarrow> 16 \<le> hevc_type b \<and> hevc_type b \<le> 23"
  by auto

lemma classify_hevc:
  "fst (classify_units compute_hevc_keyframe_priority k p us) =
     (k \<or> (\<exists>u \<in> set us. 16 \<le> hevc_type (hd (snd u)) \<and> hevc_type (hd (snd u)) \<le> 23))"
proof (induction us arbitrary: k p)
  case (Cons u us)
  have "fst (compute_hevc_keyframe_priority b k p) = (k \<or> 16 \<le> hevc_type b \<and> hevc_type b \<le> 23)" for b
    using hevc_irap [of b] by (auto simp: compute_hevc_keyframe_priority_def Let_def split_beta)
  then show ?case
    by (cases "compute_hevc_keyframe_priority (hd (snd u)) k p")
      (metis Cons.IH classify_units.simps(2) fst_conv prod.case list.set_intros set_ConsD)
qed simp

text \<open>Converting an HEVC packet keeps its units in the same way; the packet is a key frame when
it was one or an intra random access picture is among the units.\<close>
theorem parse_hevc_packet_units:
  assumes "payload_bytes h src = Some (annexb us)" "valid_units us" "length (annexb us) < 2 ^ 32" "heap_ok h"
  shows "\<exists>p' h' bs. obs_parse_hevc_packet base h src = Some (p', h') \<and>
     payload_bytes h' p' = Some bs \<and> split_lengths bs = Some (map snd us) \<and>
     keyframe p' = (keyframe src \<or> (\<exists>u \<in> set us. 16 \<le> hevc_type (hd (snd u)) \<and> hevc_type (hd (snd u)) \<le> 23)) \<and>
     drop_priority p' = priority p' \<and> heap_ok h' \<and> (\<forall>a. refs_of h' a = refs_of h a + holds_ref p' a)"
proof -
  obtain p' h' bs where r: "parse_packet (serialize_nal_data compute_hevc_keyframe_priority) base h src = Some (p', h')"
     "payload_bytes h' p' = Some bs" "split_lengths bs = Some (map snd us)"
     "(keyframe p', priority p') = classify_units compute_hevc_keyframe_priority (keyframe src) (priority src) us"
     "drop_priority p' = priority p'" "heap_ok h'" "\<forall>a. refs_of h' a = refs_of h a + holds_ref p' a"
    using parse_packet_stream [OF assms, of compute_hevc_keyframe_priority base] by auto
  have "keyframe p' = fst (classify_units compute_hevc_keyframe_priority (keyframe src) (priority src) us)"
    using r(4) by (metis fst_conv)
  then show ?thesis
    using r unfolding obs_parse_hevc_packet_def serialize_hevc_data_def classify_hevc by blast
qed

lemma parse_hevc_packet_units_witness:
  "\<exists>p' h' bs. obs_parse_hevc_packet 4 wit_avc_heap (packet_zero\<lparr>pdata := Some 7, psize := 22\<rparr>) = Some (p', h') \<and>
     payload_bytes h' p' = Some bs \<and>
     split_lengths bs = Some [[0x67, 66, 0, 30], [0x68, 0xCE], [0x65, 0x88, 0, 0, 3]]"
proof -
  have "payload_bytes wit_avc_heap (packet_zero\<lparr>pdata := Some 7, psize := 22\<rparr>) = Some (annexb wit_units)"
    by code_simp
  moreover have "length (annexb wit_units) < 2 ^ 32" by (simp add: wit_units_def)
  moreover have "heap_ok wit_avc_heap" by (simp add: heap_ok_def wit_avc_heap_def)
  moreover have "map snd wit_units = [[0x67, 66, 0, 30], [0x68, 0xCE], [0x65, 0x88, 0, 0, 3]]"
    by (simp add: wit_units_def)
  ultimately show ?thesis
    using parse_hevc_packet_units [of wit_avc_heap "packet_zero\<lparr>pdata := Some 7, psize := 22\<rparr>" wit_units 4]
      wit_units_valid
    by auto
qed

subsection \<open>Key frame of a stream\<close>

lemma keyframe_loop_stream:
  assumes "valid_units us"
  shows "keyframe_loop base (annexb us) classify 0 =
    Some (case dropWhile (\<lambda>u. classify (hd (snd u)) = None) us of [] \<Rightarrow> False
          | u # _ \<Rightarrow> the (classify (hd (snd u))))"
proof -
  have "keyframe_loop base (pre @ annexb us) classify (int (length pre)) =
     Some (case dropWhile (\<lambda>u. classify (hd (snd u)) = None) us of [] \<Rightarrow> False
          | u # _ \<Rightarrow> the (classify (hd (snd u))))" if "valid_units us" for pre us
    using that
  proof (induction us arbitrary: pre)
    case Nil
    have "skip_start pre (int (length pre)) = Some (int (length pre))"
      using skip_start_spec [of "length pre" pre] by (simp add: skip_past)
    then show ?case by (subst keyframe_loop.simps) simp
  next
    case (Cons u us)
    obtain c n where u: "u = (c, n)" by (cases u)
    have c: "c \<in> startcodes" and n: "clean_nal n" and us: "valid_units us"
      using Cons.prems by (auto simp: valid_units_def u)
    have ne: "n \<noteq> []" using n by (auto simp: clean_nal_def)
    have sk: "skip_start (pre @ c @ n @ annexb us) (int (length pre)) = Some (int (length (pre @ c)))"
      using skip_start_spec [of "length pre" "pre @ c @ n @ annexb us"] skip_in_stream [OF c, of pre "n @ annexb us"]
      by simp
    have fs: "obs_nal_find_startcode base (pre @ c @ n @ annexb us) (int (length (pre @ c))) =
        Some (int (length (pre @ c @ n)))"
      using obs_nal_find_startcode_spec [of "length (pre @ c)" "pre @ c @ n @ annexb us" base]
        find_sc_in_stream [OF n us, of "pre @ c"] by (simp add: add.assoc)
    have ih: "keyframe_loop base (pre @ c @ n @ annexb us) classify (int (length (pre @ c @ n))) =
       Some (case dropWhile (\<lambda>u. classify (hd (snd u)) = None) us of [] \<Rightarrow> False
          | u # _ \<Rightarrow> the (classify (hd (snd u))))"
      using Cons.IH [OF us, of "pre @ c @ n"] by simp
    have fin0: "length (pre @ c) \<noteq> length (pre @ c @ n @ annexb us)" using ne by simp
    show ?case unfolding u annexb.simps
      by (subst keyframe_loop.simps)
        (simp only: sk fs ih rd_unit [OF ne] bind.bind_lunit of_nat_eq_iff fin0 if_False
           dropWhile.simps snd_conv split: option.splits, auto)
  qed
  from this [OF assms, of "[]"] show ?thesis by simp
qed

text \<open>A packet is a key frame when its first slice is one.  On any stream of units,
\<^verbatim>\<open>obs_avc_keyframe\<close> answers whether the first unit that is a slice is an IDR slice; without a
slice the answer is no.\<close>
theorem avc_keyframe_first_slice:
  assumes "valid_units us"
  shows "obs_avc_keyframe base (annexb us) =
    Some (case dropWhile (\<lambda>u. hd (snd u) AND 0x1F \<notin> {OBS_NAL_SLICE, OBS_NAL_SLICE_IDR}) us of
       [] \<Rightarrow> False | u # _ \<Rightarrow> hd (snd u) AND 0x1F = OBS_NAL_SLICE_IDR)"
proof -
  have n: "(avc_slice b = None) = (b AND 0x1F \<notin> {OBS_NAL_SLICE, OBS_NAL_SLICE_IDR})" for b
    by (auto simp: avc_slice_def Let_def)
  have v: "the (avc_slice b) = (b AND 0x1F = OBS_NAL_SLICE_IDR)" if "avc_slice b \<noteq> None" for b
    using that by (auto simp: avc_slice_def Let_def split: if_splits)
  let ?P = "\<lambda>u :: 8 word list \<times> 8 word list. hd (snd u) AND 0x1F \<notin> {OBS_NAL_SLICE, OBS_NAL_SLICE_IDR}"
  have "the (avc_slice (hd (snd u))) = (hd (snd u) AND 0x1F = OBS_NAL_SLICE_IDR)"
    if "dropWhile ?P us = u # us'" for u us'
  proof (rule v)
    have "\<not> ?P u" using that by (metis hd_dropWhile list.distinct(1) list.sel(1))
    then show "avc_slice (hd (snd u)) \<noteq> None" unfolding n .
  qed
  then show ?thesis
    unfolding obs_avc_keyframe_def find_start_stream [OF assms] bind.bind_lunit keyframe_loop_stream [OF assms] n
    by (cases "dropWhile ?P us") (simp_all only: list.case)
qed

lemma avc_keyframe_first_slice_witness: "obs_avc_keyframe 0 (annexb wit_units) = Some True"
  unfolding avc_keyframe_first_slice [OF wit_units_valid]
  by (simp add: wit_units_def OBS_NAL_SLICE_def OBS_NAL_SLICE_IDR_def)

subsection \<open>Splitting off the parameter sets\<close>

fun class_units :: "(8 word \<Rightarrow> nal_class) \<Rightarrow> nal_class \<Rightarrow> (8 word list \<times> 8 word list) list \<Rightarrow> (8 word list \<times> 8 word list) list" where
  "class_units cls k us = filter (\<lambda>u. cls (hd (snd u)) = k) us"

lemma extract_loop_stream:
  "valid_units us \<Longrightarrow> extract_loop base (pre @ annexb us) cls (int (length pre)) (np, h, sei) =
     Some (np @ annexb (class_units cls NalOther us), h @ annexb (class_units cls NalHeader us),
           sei @ annexb (class_units cls NalSei us))"
proof (induction us arbitrary: pre np h sei)
  case Nil
  have "skip_start pre (int (length pre)) = Some (int (length pre))"
    using skip_start_spec [of "length pre" pre] by (simp add: skip_past)
  then show ?case by (subst extract_loop.simps) simp
next
  case (Cons u us)
  obtain c n where u: "u = (c, n)" by (cases u)
  have c: "c \<in> startcodes" and n: "clean_nal n" and us: "valid_units us"
    using Cons.prems by (auto simp: valid_units_def u)
  have ne: "n \<noteq> []" using n by (auto simp: clean_nal_def)
  have sk: "skip_start (pre @ c @ n @ annexb us) (int (length pre)) = Some (int (length (pre @ c)))"
    using skip_start_spec [of "length pre" "pre @ c @ n @ annexb us"] skip_in_stream [OF c, of pre "n @ annexb us"]
    by simp
  have fs: "obs_nal_find_startcode base (pre @ c @ n @ annexb us) (int (length (pre @ c))) =
      Some (int (length (pre @ c @ n)))"
    using obs_nal_find_startcode_spec [of "length (pre @ c)" "pre @ c @ n @ annexb us" base]
      find_sc_in_stream [OF n us, of "pre @ c"] by (simp add: add.assoc)
  have fin0: "length (pre @ c) \<noteq> length (pre @ c @ n @ annexb us)" using ne by simp
  obtain np' h' sei' where a: "add_class (cls (hd n)) (c @ n) (np, h, sei) = (np', h', sei')"
    by (metis prod_cases3)
  have ih: "extract_loop base (pre @ c @ n @ annexb us) cls (int (length (pre @ c @ n))) (np', h', sei') =
     Some (np' @ annexb (class_units cls NalOther us), h' @ annexb (class_units cls NalHeader us),
           sei' @ annexb (class_units cls NalSei us))"
    using Cons.IH [OF us, of "pre @ c @ n"] by simp
  have fin: "length (pre @ c @ n) = length (pre @ c @ n @ annexb us) \<longleftrightarrow> us = []"
    using us by (cases us) (auto simp: valid_units_def startcodes_def)
  have "extract_loop base (pre @ c @ n @ annexb us) cls (int (length pre)) (np, h, sei) =
     Some (np' @ annexb (class_units cls NalOther us), h' @ annexb (class_units cls NalHeader us),
           sei' @ annexb (class_units cls NalSei us))"
    by (subst extract_loop.simps)
      (simp only: sk fs rd_unit [OF ne] bytes_unit bind.bind_lunit of_nat_eq_iff fin0 if_False Let_def a fin ih,
       simp)
  then show ?case using a unfolding u annexb.simps
    by (cases "cls (hd n)") (auto simp: add_class_def)
qed

text \<open>C29: Extracting the headers partitions a packet.  Every unit of the stream, with its start code,
ends up in exactly one of the three results, by its type (parameter sets, SEI, everything else), in the order of
the stream; this holds for H.264 and for HEVC.\<close>
theorem extract_headers_partition:
  assumes "valid_units us"
  shows "obs_extract_avc_headers base (annexb us) =
     Some (annexb (class_units avc_class NalOther us), annexb (class_units avc_class NalHeader us),
           annexb (class_units avc_class NalSei us)) \<and>
   obs_extract_hevc_headers base (annexb us) =
     Some (annexb (class_units hevc_class NalOther us), annexb (class_units hevc_class NalHeader us),
           annexb (class_units hevc_class NalSei us))"
  using extract_loop_stream [OF assms, of base "[]"]
  by (simp add: obs_extract_avc_headers_def obs_extract_hevc_headers_def extract_headers_def
        find_start_stream [OF assms])

lemma extract_headers_partition_witness:
  "obs_extract_avc_headers 1 (annexb wit_units) =
     Some ([0, 0, 1, 0x65, 0x88, 0, 0, 3], [0, 0, 0, 1, 0x67, 66, 0, 30, 0, 0, 0, 1, 0x68, 0xCE], [])"
proof -
  have "(annexb (class_units avc_class NalOther wit_units), annexb (class_units avc_class NalHeader wit_units),
           annexb (class_units avc_class NalSei wit_units)) =
     ([0, 0, 1, 0x65, 0x88, 0, 0, 3], [0, 0, 0, 1, 0x67, 66, 0, 30, 0, 0, 0, 1, 0x68, 0xCE], [])"
    by code_simp
  then show ?thesis using extract_headers_partition [OF wit_units_valid, of 1] by simp
qed

subsection \<open>The avcC header\<close>

definition last_of_type :: "8 word \<Rightarrow> (8 word list \<times> 8 word list) list \<Rightarrow> 8 word list option" where
  "last_of_type ty us = fold (\<lambda>u r. if hd (snd u) AND 0x1F = ty then Some (snd u) else r) us None"

lemma get_sps_pps_stream:
  assumes "valid_units us"
  shows "get_sps_pps base (annexb us) = Some (last_of_type OBS_NAL_SPS us, last_of_type OBS_NAL_PPS us)"
proof -
  define f where "f = (\<lambda>(sps, pps) (c :: 8 word list, n).
     Some (if hd n AND 0x1F = OBS_NAL_SPS then Some n else sps,
           if hd n AND 0x1F = OBS_NAL_PPS then Some n else pps))"
  have ne: "OBS_NAL_SPS \<noteq> OBS_NAL_PPS" by (simp add: OBS_NAL_SPS_def OBS_NAL_PPS_def)
  have b: "sps_pps_unit (pre @ c @ n @ rest) (int (length pre)) (int (length (pre @ c)))
      (int (length (pre @ c @ n))) a = f a (c, n)" if "n \<noteq> []" for pre c n rest a
    unfolding sps_pps_unit_def f_def rd_unit [OF that] bytes_unit using ne
    by (cases a) (simp add: Let_def)
  have "get_sps_pps base (annexb us) = opt_fold f (None, None) us"
    unfolding get_sps_pps_def find_start_stream [OF assms]
    using nal_loop_stream [OF assms, of sps_pps_unit f base "(None, None)"] b by simp
  moreover have "opt_fold f (a, b) us = Some (fold (\<lambda>u r. if hd (snd u) AND 0x1F = OBS_NAL_SPS then Some (snd u) else r) us a,
     fold (\<lambda>u r. if hd (snd u) AND 0x1F = OBS_NAL_PPS then Some (snd u) else r) us b)" for a b
    by (induction us arbitrary: a b) (auto simp: f_def)
  ultimately show ?thesis by (simp add: last_of_type_def)
qed

lemma has_start_code_stream:
  assumes "valid_units us" "us \<noteq> []"
  shows "has_start_code (annexb us) = Some True"
proof -
  obtain c n us' where us: "us = (c, n) # us'" by (cases us) (use assms in auto)
  then have c: "c \<in> startcodes" using assms by (auto simp: valid_units_def)
  have "rd ([0, 0, 1] @ xs) 0 = Some 0" "rd ([0, 0, 1] @ xs) 1 = Some 0" "rd ([0, 0, 1] @ xs) 2 = Some 1"
    "rd ([0, 0, 0, 1] @ xs) 0 = Some 0" "rd ([0, 0, 0, 1] @ xs) 1 = Some 0" "rd ([0, 0, 0, 1] @ xs) 2 = Some 0"
    "rd ([0, 0, 0, 1] @ xs) 3 = Some 1" for xs :: "8 word list"
    by (simp_all add: rd_def)
  then show ?thesis using c unfolding us annexb.simps startcodes_def
    by (auto simp only: insert_iff empty_iff has_start_code_def bind.bind_lunit simp_thms if_True if_False
        one_neq_zero zero_neq_one option.map)
qed

definition be16 :: "16 word \<Rightarrow> 8 word list" where "be16 w = [ucast (drop_bit 8 w), ucast w]"

lemma write_avcc_bytes:
  "at_end (write_avcc sps pps)"
  "out_bytes (write_avcc sps pps) =
     [0x01] @ take 3 (drop 1 sps) @ [0xff, 0xe1] @ be16 (of_nat (length sps)) @ sps @
     [0x01] @ be16 (of_nat (length pps)) @ pps"
  by (simp_all add: write_avcc_def Let_def write_simps be16_def)

definition high_profile :: "8 word list \<Rightarrow> bool" where
  "high_profile sps \<longleftrightarrow> sps ! 1 \<in> {100, 110, 122, 244}"

definition avcc_extension :: "8 word list \<Rightarrow> 8 word list" where
  "avcc_extension sps =
     (if high_profile sps then
        case get_sps_high_params (drop 1 sps) of
          Some (c, l, d) \<Rightarrow> [0xfc OR c, 0xf8 OR l, 0xf8 OR d, 0] | None \<Rightarrow> []
      else [])"

lemma write_high_params_bytes:
  assumes "at_end s" "high_profile sps \<Longrightarrow> get_sps_high_params (drop 1 sps) \<noteq> None"
  shows "\<exists>s'. write_high_params s sps = Some s' \<and> out_bytes s' = out_bytes s @ avcc_extension sps"
proof (cases "high_profile sps")
  case True
  then obtain c l d where p: "get_sps_high_params (drop 1 sps) = Some (c, l, d)"
    using assms(2) by (metis not_None_eq prod_cases3)
  have h: "sps ! 1 = 100 \<or> sps ! 1 = 110 \<or> sps ! 1 = 122 \<or> sps ! 1 = 244"
    using True by (simp only: high_profile_def insert_iff empty_iff simp_thms)
  show ?thesis unfolding write_high_params_def Let_def p using h assms(1) True
    unfolding avcc_extension_def p by (simp add: write_simps)
next
  case False
  then have h: "\<not> (sps ! 1 = 100 \<or> sps ! 1 = 110 \<or> sps ! 1 = 122 \<or> sps ! 1 = 244)"
    by (simp only: high_profile_def insert_iff empty_iff simp_thms)
  show ?thesis unfolding write_high_params_def Let_def using h False
    by (simp only: if_False avcc_extension_def option.inject append_Nil2) simp
qed

text \<open>A reader of the header: profile, compatibility and level, the parameter sets, and what follows.\<close>

definition read_avcc :: "8 word list \<Rightarrow> 8 word list \<times> 8 word list \<times> 8 word list \<times> 8 word list" where
  "read_avcc hdr =
     (let n = from_be (take 2 (drop 6 hdr));
          rest = drop (8 + n) hdr;
          m = from_be (take 2 (drop 1 rest)) in
      (take 3 (drop 1 hdr), take n (drop 8 hdr), take m (drop 3 rest), drop (3 + m) rest))"

lemma from_be_be16: "from_be (be16 w) = unat w"
proof -
  have "unat w div 256 mod 256 = unat w div 256"
    using unsigned_less [of w, where 'a = nat] by (simp add: less_mult_imp_div_less)
  moreover have "unat (ucast (drop_bit 8 w) :: 8 word) = unat w div 2 ^ 8 mod 256"
    by (simp only: unsigned_ucast_eq unat_drop_bit_eq take_bit_eq_mod) (simp add: drop_bit_eq_div)
  moreover have "unat (ucast w :: 8 word) = unat w mod 256" by (simp add: unsigned_ucast_eq take_bit_eq_mod)
  ultimately show ?thesis by (simp add: from_be_def be16_def)
qed

lemma read_avcc_layout:
  assumes "4 \<le> length sps" "length sps < 2 ^ 16" "length pps < 2 ^ 16"
  shows "read_avcc ([0x01] @ take 3 (drop 1 sps) @ [0xff, 0xe1] @ be16 (of_nat (length sps)) @ sps @
     [0x01] @ be16 (of_nat (length pps)) @ pps @ ext) = (take 3 (drop 1 sps), sps, pps, ext)"
proof -
  obtain a b c d sps' where sps: "sps = a # b # c # d # sps'"
    using assms(1) by (auto simp: numeral_eq_Suc Suc_le_length_iff)
  define n m where "n = be16 (of_nat (length sps))" and "m = be16 (of_nat (length pps))"
  have n: "from_be n = length sps" "from_be m = length pps"
    using assms(2,3) by (simp_all add: n_def m_def from_be_be16 unat_of_nat take_bit_nat_eq_self)
  obtain n1 n2 m1 m2 where nm: "n = [n1, n2]" "m = [m1, m2]" unfolding n_def m_def be16_def by blast
  let ?h = "1 # b # c # d # 0xff # 0xe1 # n1 # n2 # sps @ 1 # m1 # m2 # pps @ ext"
  have d: "take 2 (drop 6 ?h) = n" "drop 8 ?h = sps @ 1 # m1 # m2 # pps @ ext"
    "take 3 (drop 1 ?h) = [b, c, d]" "drop (8 + length sps) ?h = 1 # m1 # m2 # pps @ ext"
    by (simp_all add: nm numeral_eq_Suc)
  have e: "take 2 (drop 1 (1 # m1 # m2 # pps @ ext)) = m" by (simp add: nm numeral_eq_Suc)
  have f: "drop 3 (1 # m1 # m2 # pps @ ext) = pps @ ext"
    "drop (3 + length pps) (1 # m1 # m2 # pps @ ext) = ext" by (simp_all add: numeral_eq_Suc)
  have "read_avcc ?h = ([b, c, d], sps, pps, ext)"
    unfolding read_avcc_def Let_def d n e f by simp
  moreover have "[0x01] @ take 3 (drop 1 sps) @ [0xff, 0xe1] @ n @ sps @ [0x01] @ m @ pps @ ext = ?h"
    by (simp add: sps nm numeral_eq_Suc)
  moreover have "take 3 (drop 1 sps) = [b, c, d]" by (simp add: sps numeral_eq_Suc)
  ultimately show ?thesis unfolding n_def [symmetric] m_def [symmetric] by (simp only:)
qed

text \<open>The \<^verbatim>\<open>avcC\<close> header carries the parameter sets.  For the extra data of an encoder as a
stream of units with an SPS of at least four bytes and a PPS (each shorter than 64 KiB; the last of each kind
counts), \<^verbatim>\<open>obs_parse_avc_header\<close> returns a header from which a reader gets the profile bytes,
exactly these parameter sets and, for the high profiles, the four bytes with the chroma format and bit
depths.\<close>
theorem avc_header_layout:
  assumes "valid_units us" "last_of_type OBS_NAL_SPS us = Some sps" "last_of_type OBS_NAL_PPS us = Some pps"
    "4 \<le> length sps" "length sps < 2 ^ 16" "length pps < 2 ^ 16"
    "high_profile sps \<longrightarrow> get_sps_high_params (drop 1 sps) \<noteq> None" "6 < length (annexb us)"
  shows "\<exists>hdr. obs_parse_avc_header base (annexb us) = Some (length hdr, Some hdr) \<and>
     read_avcc hdr = (take 3 (drop 1 sps), sps, pps, avcc_extension sps)"
proof -
  have us: "us \<noteq> []" using assms(2) by (auto simp: last_of_type_def)
  obtain s where s: "write_high_params (write_avcc sps pps) sps = Some s"
    "out_bytes s = out_bytes (write_avcc sps pps) @ avcc_extension sps"
    using write_high_params_bytes [OF write_avcc_bytes(1)] assms(7) by blast
  have "obs_parse_avc_header base (annexb us) = Some (length (out_bytes s), Some (out_bytes s))"
    using assms(4,8) by (simp add: obs_parse_avc_header_def has_start_code_stream [OF assms(1) us]
        get_sps_pps_stream [OF assms(1)] assms(2,3) s(1))
  moreover have "read_avcc (out_bytes s) = (take 3 (drop 1 sps), sps, pps, avcc_extension sps)"
    unfolding s(2) write_avcc_bytes(2) using read_avcc_layout [OF assms(4-6)] by simp
  ultimately show ?thesis by blast
qed

lemma avc_header_layout_witness:
  "\<exists>hdr. obs_parse_avc_header 0 (annexb wit_units) = Some (length hdr, Some hdr) \<and>
     read_avcc hdr = ([66, 0, 30], [0x67, 66, 0, 30], [0x68, 0xCE], [])"
proof -
  have "last_of_type OBS_NAL_SPS wit_units = Some [0x67, 66, 0, 30]"
    "last_of_type OBS_NAL_PPS wit_units = Some [0x68, 0xCE]" by code_simp+
  moreover have "\<not> high_profile [0x67, 66, 0, 30]" by (simp add: high_profile_def)
  moreover have "6 < length (annexb wit_units)" by (simp add: wit_units_def)
  ultimately show ?thesis
    using avc_header_layout [OF wit_units_valid, of "[0x67, 66, 0, 30]" "[0x68, 0xCE]" 0]
    by (simp add: avcc_extension_def)
qed

text \<open>A high-profile SPS that ends early makes the header code shift out of range.  Past its end the
bit reader gives zeros, so the Exp-Golomb reader counts 32 of them and shifts 1 by 32: for these extra data
with a four-byte SPS the header is undefined.\<close>
theorem short_high_sps_undefined:
  "obs_parse_avc_header 0 [0, 0, 0, 1, 0x67, 100, 0, 30, 0, 0, 0, 1, 0x68, 0xCE] = None"
proof -
  let ?us = "[([0, 0, 0, 1], [0x67, 100, 0, 30]), ([0, 0, 0, 1], [0x68, 0xCE])] :: (8 word list \<times> 8 word list) list"
  let ?bs = "[0, 0, 0, 1, 0x67, 100, 0, 30, 0, 0, 0, 1, 0x68, 0xCE] :: 8 word list"
  have a: "annexb ?us = ?bs" by simp
  have "clean_nal [0x67, 100, 0, 30]" "clean_nal [0x68, 0xCE]" by code_simp+
  then have v: "valid_units ?us" by (simp add: valid_units_def startcodes_def)
  have "last_of_type OBS_NAL_SPS ?us = Some [0x67, 100, 0, 30]"
    "last_of_type OBS_NAL_PPS ?us = Some [0x68, 0xCE]" by code_simp+
  then have g: "get_sps_pps 0 ?bs = Some (Some [0x67, 100, 0, 30], Some [0x68, 0xCE])"
    using get_sps_pps_stream [OF v, of 0] unfolding a by simp
  have h: "has_start_code ?bs = Some True" using has_start_code_stream [OF v] unfolding a by simp
  have w: "write_high_params s [0x67, 100, 0, 30] = None" for s
  proof -
    have "get_sps_high_params [100, 0, 30] = None" by code_simp
    then show ?thesis by (simp add: write_high_params_def Let_def)
  qed
  show ?thesis unfolding obs_parse_avc_header_def g h by (simp add: w)
qed

end
