(* ===== verification/Av1.thy ===== *)
theory Av1
  imports Nal
begin

unbundle bit_operations_syntax

text \<open>
  AV1 packets (\<^verbatim>\<open>src/libobs/obs-av1.c\<close>): the variable-length sizes, the header of an
  open bitstream unit (OBU), splitting off headers, key-frame detection, and the metadata unit that
  carries captions.

  Offsets into a packet are integers and a read outside it is \<open>None\<close>; so is a shift of an
  \<^verbatim>\<open>int\<close> that C leaves undefined.
\<close>

subsection \<open>Sizes\<close>

definition shl_int :: "int \<Rightarrow> nat \<Rightarrow> int option" where
  "shl_int a n = (if n < 32 \<and> a * 2 ^ n < 2 ^ 31 then Some (a * 2 ^ n) else None)"

function leb128_loop ::
    "8 word list \<Rightarrow> int \<Rightarrow> nat \<Rightarrow> nat \<Rightarrow> 64 word \<Rightarrow> nat \<Rightarrow> (64 word \<times> nat) option" where
  "leb128_loop bs buf size' i val len =
     (if i < 8 then
        if size' < 1 then Some (val, len)
        else case rd bs (buf + int i) of None \<Rightarrow> None
        | Some leb128_byte \<Rightarrow>
            (case shl_int (uint (leb128_byte AND 0x7f)) (i * 7) of None \<Rightarrow> None
             | Some v \<Rightarrow>
                 (let val = val OR word_of_int v in
                  if leb128_byte AND 0x80 = 0 then Some (val, len + 1)
                  else leb128_loop bs buf (size' - 1) (Suc i) val (len + 1)))
      else Some (val, len))"
  by pat_completeness auto
termination by (relation "measure (\<lambda>(bs, buf, size', i, val, len). 8 - i)") auto

declare leb128_loop.simps [simp del]

definition leb128 :: "8 word list \<Rightarrow> int \<Rightarrow> nat \<Rightarrow> (64 word \<times> nat) option" where
  "leb128 bs buf size' = leb128_loop bs buf size' 0 0 0"

function encode_uleb128 :: "64 word \<Rightarrow> 8 word list" where
  "encode_uleb128 val =
     (let b = ucast (val AND 0x7f); val = drop_bit 7 val in
      if val > 0 then (b OR 0x80) # encode_uleb128 val else [b])"
  by pat_completeness auto
termination
proof (relation "measure unat", goal_cases)
  case (2 val b val')
  have e: "unat (drop_bit 7 val) = unat val div 128" by (simp only: unat_drop_bit_eq) (simp add: drop_bit_eq_div)
  have "0 < unat (drop_bit 7 val)" using 2(2,3) by (simp only: word_less_nat_alt unat_0)
  then have "unat (drop_bit 7 val) < unat val" unfolding e by (cases "unat val = 0") (simp_all add: div_less_dividend)
  then show ?case using 2(2) by (simp only: in_measure)
qed simp

declare encode_uleb128.simps [simp del]

subsection \<open>Unit headers\<close>

definition get_bits :: "8 word \<Rightarrow> nat \<Rightarrow> nat \<Rightarrow> 8 word" where
  "get_bits val n count = drop_bit (8 - n - count) val AND (push_bit (count - 1) 1 * 2 - 1)"

text \<open>
  The result is \<^verbatim>\<open>(obu_start, obu_size, obu_type)\<close>.  The size left after the header is
  a \<^verbatim>\<open>size_t\<close>, which wraps round when the header is longer than the data.
\<close>

definition parse_obu_header :: "8 word list \<Rightarrow> int \<Rightarrow> nat \<Rightarrow> (nat \<times> nat \<times> nat) option" where
  "parse_obu_header bs buf size' =
     (if size' < 1 then Some (0, 0, 0)
      else do { b \<leftarrow> rd bs buf;
                let obu_type = unat (get_bits b 1 4);
                let extension_flag = get_bits b 5 1;
                let has_size_field = get_bits b 6 1;
                let obu_start = (if extension_flag \<noteq> 0 then 1 else 0) + 1;
                if has_size_field \<noteq> 0 then
                  do { (obu_size, size_len) \<leftarrow>
                         leb128 bs (buf + int obu_start) (nat ((int size' - int obu_start) mod 2 ^ 64));
                       Some (obu_start + size_len, unat obu_size, obu_type) }
                else Some (obu_start, size' - 1, obu_type) })"

definition OBS_OBU_SEQUENCE_HEADER :: nat where "OBS_OBU_SEQUENCE_HEADER = 1"
definition OBS_OBU_FRAME_HEADER :: nat where "OBS_OBU_FRAME_HEADER = 3"
definition OBS_OBU_METADATA :: nat where "OBS_OBU_METADATA = 5"
definition OBS_OBU_FRAME :: nat where "OBS_OBU_FRAME = 6"

subsection \<open>Packets\<close>

partial_function (option) av1_keyframe_loop :: "8 word list \<Rightarrow> int \<Rightarrow> bool option" where
  "av1_keyframe_loop data start =
     (if start < int (length data) then
        do { (obu_start, obu_size, obu_type) \<leftarrow> parse_obu_header data start (nat (int (length data) - start));
             if obu_size \<noteq> 0 \<and> (obu_type = OBS_OBU_FRAME \<or> obu_type = OBS_OBU_FRAME_HEADER) then
               do { val \<leftarrow> rd data (start + int obu_start);
                    Some (if get_bits val 0 1 = 0 then get_bits val 1 2 = 0 else False) }
             else av1_keyframe_loop data (start + int (obu_start + obu_size)) }
      else Some False)"

definition obs_av1_keyframe :: "8 word list \<Rightarrow> bool option" where
  "obs_av1_keyframe data = av1_keyframe_loop data 0"

partial_function (option) extract_av1_loop ::
    "8 word list \<Rightarrow> int \<Rightarrow> 8 word list \<times> 8 word list \<Rightarrow> (8 word list \<times> 8 word list) option" where
  "extract_av1_loop packet start acc =
     (if start < int (length packet) then
        do { (obu_start, obu_size, obu_type) \<leftarrow> parse_obu_header packet start (nat (int (length packet) - start));
             bs \<leftarrow> bytes_between packet start (start + int (obu_start + obu_size));
             let (new_packet, header) = acc;
             let header = (if obu_type = OBS_OBU_METADATA \<or> obu_type = OBS_OBU_SEQUENCE_HEADER
                           then header @ bs else header);
             extract_av1_loop packet (start + int (obu_start + obu_size)) (new_packet @ bs, header) }
      else Some acc)"

definition obs_extract_av1_headers :: "8 word list \<Rightarrow> (8 word list \<times> 8 word list) option" where
  "obs_extract_av1_headers packet = extract_av1_loop packet 0 ([], [])"

definition metadata_obu :: "8 word list \<Rightarrow> 8 word \<Rightarrow> 8 word list" where
  "metadata_obu source_buffer metadata_type =
     (let obu_header_byte = push_bit 3 (of_nat OBS_OBU_METADATA) OR push_bit 1 1;
          size_field = 1 + of_nat (length source_buffer) + 1;
          size_buf = encode_uleb128 size_field in
      [obu_header_byte] @ size_buf @ [metadata_type] @ source_buffer @ [0x80])"

definition METADATA_TYPE_ITUT_T35 :: "8 word" where "METADATA_TYPE_ITUT_T35 = 4"

definition metadata_obu_itu_t35 :: "8 word list \<Rightarrow> 8 word list" where
  "metadata_obu_itu_t35 itut_t35_buffer = metadata_obu itut_t35_buffer METADATA_TYPE_ITUT_T35"

subsection \<open>Sizes round trip\<close>

lemma or_disjoint:
  assumes "unat (acc :: 64 word) < 2 ^ k" "2 ^ k dvd m" "unat acc + m < 2 ^ 64"
  shows "unat (acc OR of_nat m) = unat acc + m"
proof -
  have lt: "m < 2 ^ 64" using assms(3) by linarith
  obtain b where b: "m = push_bit k b"
    using assms(2) by (metis dvd_def mult.commute push_bit_eq_mult)
  have "acc + of_nat m = acc OR of_nat m"
  proof (rule disjunctive_add_eq_or, rule bit_word_eqI)
    fix n assume n: "n < LENGTH(64)"
    have "\<not> (bit (unat acc) n \<and> bit m n)"
    proof (cases "n < k")
      case True
      then show ?thesis by (simp add: b bit_push_bit_iff)
    next
      case False
      then have "unat acc < 2 ^ n" using assms(1) by (meson less_le_trans not_less one_le_numeral power_increasing)
      then show ?thesis by (simp add: bit_iff_odd)
    qed
    then show "bit (acc AND of_nat m) n = bit 0 n"
      using n by (auto simp: bit_and_iff bit_unsigned_iff bit_of_nat_iff)
  qed
  moreover have u: "unat (of_nat m :: 64 word) = m"
    using lt by (simp add: unat_of_nat take_bit_nat_eq_self)
  moreover have "unat (acc + of_nat m) = unat acc + m"
    using assms(3) unat_add_lem [of acc "of_nat m"] unfolding u by simp
  ultimately show ?thesis by simp
qed

lemma low_bytes:
  assumes "k < 128"
  shows "(of_nat k :: 8 word) AND 0x80 = 0" "uint ((of_nat k :: 8 word) AND 0x7f) = int k"
    "(of_nat k :: 8 word) OR 0x80 = of_nat (k + 128)"
    "(of_nat (k + 128) :: 8 word) AND 0x80 \<noteq> 0" "uint ((of_nat (k + 128) :: 8 word) AND 0x7f) = int k"
proof -
  have "\<forall>k \<in> set [0..<128]. (of_nat k :: 8 word) AND 0x80 = 0 \<and> uint ((of_nat k :: 8 word) AND 0x7f) = int k \<and>
      (of_nat k :: 8 word) OR 0x80 = of_nat (k + 128) \<and>
      (of_nat (k + 128) :: 8 word) AND 0x80 \<noteq> 0 \<and> uint ((of_nat (k + 128) :: 8 word) AND 0x7f) = int k"
    by code_simp
  moreover have "k \<in> set [0..<128]" using assms by (simp only: set_upt atLeastLessThan_iff simp_thms le0)
  ultimately have a: "(of_nat k :: 8 word) AND 0x80 = 0 \<and> uint ((of_nat k :: 8 word) AND 0x7f) = int k \<and>
      (of_nat k :: 8 word) OR 0x80 = of_nat (k + 128) \<and>
      (of_nat (k + 128) :: 8 word) AND 0x80 \<noteq> 0 \<and> uint ((of_nat (k + 128) :: 8 word) AND 0x7f) = int k"
    by (rule bspec)
  from a show "(of_nat k :: 8 word) AND 0x80 = 0" by (elim conjE)
  from a show "uint ((of_nat k :: 8 word) AND 0x7f) = int k" by (elim conjE)
  from a show "(of_nat k :: 8 word) OR 0x80 = of_nat (k + 128)" by (elim conjE)
  from a show "(of_nat (k + 128) :: 8 word) AND 0x80 \<noteq> 0" by (elim conjE)
  from a show "uint ((of_nat (k + 128) :: 8 word) AND 0x7f) = int k" by (elim conjE)
qed

lemma low_seven: "(ucast (v AND 0x7f :: 64 word) :: 8 word) = of_nat (unat v mod 128)"
proof -
  have "v AND 0x7f = take_bit 7 v" by (simp add: take_bit_eq_mask mask_eq_exp_minus_1)
  then have "unat (v AND 0x7f) = unat v mod 128"
    by (simp only: unsigned_take_bit_eq) (simp add: take_bit_eq_mod)
  then have "of_nat (unat (v AND 0x7f)) = (of_nat (unat v mod 128) :: 8 word)" by simp
  then show ?thesis by (simp only: of_nat_unat)
qed

lemma unat_drop7: "unat (drop_bit 7 v) = unat v div 128"
  by (simp only: unat_drop_bit_eq) (simp add: drop_bit_eq_div)

lemma encode_step:
  "encode_uleb128 v = (if 0 < unat v div 128 then of_nat (unat v mod 128 + 128) # encode_uleb128 (drop_bit 7 v)
     else [of_nat (unat v)])"
proof -
  have c: "drop_bit 7 v > 0 \<longleftrightarrow> 0 < unat v div 128"
    by (simp only: word_less_nat_alt unat_drop7 unat_0)
  have m: "\<not> 0 < unat v div 128 \<Longrightarrow> unat v mod 128 = unat v" by (simp add: div_eq_0_iff)
  show ?thesis
  proof (cases "0 < unat v div 128")
    case True
    then show ?thesis
      by (subst encode_uleb128.simps)
        (simp only: Let_def c low_seven low_bytes(3) mod_less_divisor zero_less_numeral if_True)
  next
    case False
    then show ?thesis
      by (subst encode_uleb128.simps) (simp only: Let_def c low_seven m if_False not_False_eq_True)
  qed
qed

lemma leb128_encode:
  assumes "unat v * 2 ^ (7 * i) < 2 ^ 31" "unat acc < 2 ^ (7 * i)" "i < 5" "length (encode_uleb128 v) \<le> n"
    "buf + int i = int (length pre)"
  shows "\<exists>r. leb128_loop (pre @ encode_uleb128 v @ rest) buf n i acc len =
     Some (r, len + length (encode_uleb128 v)) \<and> unat r = unat acc + unat v * 2 ^ (7 * i)"
  using assms
proof (induction v arbitrary: pre i acc len n rule: encode_uleb128.induct)
  case (1 v)
  define k where "k = unat v mod 128"
  have k: "k < 128" by (simp add: k_def)
  have ile: "i * 7 < 32" "i < 8" using "1.prems"(3) by simp_all
  have kv: "k * 2 ^ (7 * i) \<le> unat v * 2 ^ (7 * i)" by (simp add: k_def)
  have fit: "k * 2 ^ (7 * i) < 2 ^ 31" using kv "1.prems"(1) by linarith
  have acc31: "(2::nat) ^ (7 * i) \<le> 2 ^ 28" using "1.prems"(3) by (intro power_increasing) simp_all
  have shl: "shl_int (int k) (i * 7) = Some (int (k * 2 ^ (7 * i)))"
  proof -
    have "int (k * 2 ^ (7 * i)) < 2 ^ 31" using fit by (metis of_nat_less_numeral_power_cancel_iff)
    then show ?thesis using ile(1) by (simp add: shl_int_def mult.commute)
  qed
  let ?acc = "acc OR of_nat (k * 2 ^ (7 * i))"
  have acc: "unat ?acc = unat acc + k * 2 ^ (7 * i)"
    by (rule or_disjoint [OF "1.prems"(2) dvd_triv_right]) (use "1.prems"(2) fit acc31 in simp)
  show ?case
  proof (cases "0 < unat v div 128")
    case False
    then have vk: "unat v = k" by (simp add: k_def div_eq_0_iff)
    have e: "encode_uleb128 v = [of_nat k]" using False vk by (subst encode_step) simp
    have r: "rd (pre @ [of_nat k] @ rest) (buf + int i) = Some (of_nat k)"
      unfolding "1.prems"(5) by simp
    have n: "\<not> n < 1" using "1.prems"(4) e by simp
    have "leb128_loop (pre @ encode_uleb128 v @ rest) buf n i acc len = Some (?acc, len + 1)"
      unfolding e
      by (subst leb128_loop.simps)
        (simp only: ile(2) n r low_bytes [OF k] shl option.case Let_def if_True if_False of_int_of_nat_eq simp_thms)
    then show ?thesis using acc vk e by simp
  next
    case True
    let ?b = "of_nat (k + 128) :: 8 word"
    have e: "encode_uleb128 v = ?b # encode_uleb128 (drop_bit 7 v)"
      using True by (subst encode_step) (simp add: k_def)
    have r: "rd (pre @ (?b # encode_uleb128 (drop_bit 7 v)) @ rest) (buf + int i) = Some ?b"
      unfolding "1.prems"(5) by simp
    have n: "\<not> n < 1" "length (encode_uleb128 (drop_bit 7 v)) \<le> n - 1" using "1.prems"(4) e by simp_all
    have step: "leb128_loop (pre @ encode_uleb128 v @ rest) buf n i acc len =
        leb128_loop (pre @ encode_uleb128 v @ rest) buf (n - 1) (Suc i) ?acc (len + 1)"
      unfolding e
      by (subst leb128_loop.simps)
        (simp only: ile(2) n(1) r low_bytes [OF k] shl option.case Let_def if_True if_False of_int_of_nat_eq simp_thms)
    have p7: "(2::nat) ^ (7 * Suc i) = 128 * 2 ^ (7 * i)" by (simp add: power_add)
    have vs: "unat v div 128 * 2 ^ (7 * Suc i) + k * 2 ^ (7 * i) = unat v * 2 ^ (7 * i)"
    proof -
      have "unat v div 128 * (128 * 2 ^ (7 * i)) + k * 2 ^ (7 * i) = (unat v div 128 * 128 + k) * 2 ^ (7 * i)"
        by (simp only: add_mult_distrib mult.assoc)
      then show ?thesis unfolding p7 k_def by simp
    qed
    have i5: "Suc i < 5"
    proof (rule ccontr)
      assume "\<not> Suc i < 5"
      then have "(2::nat) ^ 35 \<le> 2 ^ (7 * Suc i)" by (intro power_increasing) simp_all
      moreover have "2 ^ (7 * Suc i) \<le> unat v div 128 * 2 ^ (7 * Suc i)" using True by simp
      moreover have "(2::nat) ^ 31 < 2 ^ 35" by simp
      ultimately show False using vs "1.prems"(1) by linarith
    qed
    have a: "unat ?acc < 2 ^ (7 * Suc i)"
    proof -
      have "k * 2 ^ (7 * i) \<le> 127 * 2 ^ (7 * i)" using k by simp
      then show ?thesis unfolding acc p7 using "1.prems"(2) by linarith
    qed
    have d: "drop_bit 7 v > 0" using True by (simp only: word_less_nat_alt unat_drop7 unat_0)
    obtain r where r: "leb128_loop ((pre @ [?b]) @ encode_uleb128 (drop_bit 7 v) @ rest) buf (n - 1) (Suc i) ?acc (len + 1) =
        Some (r, len + 1 + length (encode_uleb128 (drop_bit 7 v)))"
        "unat r = unat ?acc + unat (drop_bit 7 v) * 2 ^ (7 * Suc i)"
    proof (atomize_elim, rule "1.IH" [OF refl refl d _ a i5 n(2)])
      show "unat (drop_bit 7 v) * 2 ^ (7 * Suc i) < 2 ^ 31" unfolding unat_drop7 using vs "1.prems"(1) by linarith
      show "buf + int (Suc i) = int (length (pre @ [?b]))" using "1.prems"(5) by simp
    qed
    have "leb128_loop (pre @ encode_uleb128 v @ rest) buf (n - 1) (Suc i) ?acc (len + 1) =
        Some (r, len + length (encode_uleb128 v))"
      using r(1) unfolding e by simp
    moreover have "unat r = unat acc + unat v * 2 ^ (7 * i)" using r(2) vs unfolding acc unat_drop7 by simp
    ultimately show ?thesis unfolding step by blast
  qed
qed

lemma encode_length: "unat v < 2 ^ 31 \<Longrightarrow> length (encode_uleb128 v) \<le> 5" "0 < length (encode_uleb128 v)"
proof -
  have "unat v < 128 ^ Suc n \<Longrightarrow> length (encode_uleb128 v) \<le> Suc n" for n
  proof (induction n arbitrary: v)
    case 0
    then show ?case by (subst encode_step) simp
  next
    case (Suc n)
    have "unat (drop_bit 7 v) < 128 ^ Suc n" unfolding unat_drop7 using Suc.prems by (simp add: less_mult_imp_div_less mult.commute)
    from Suc.IH [OF this] show ?case by (subst encode_step) simp
  qed
  from this [of 4] show "unat v < 2 ^ 31 \<Longrightarrow> length (encode_uleb128 v) \<le> 5" by simp
  show "0 < length (encode_uleb128 v)" by (subst encode_step) simp
qed

text \<open>The variable-length sizes of AV1 round trip up to 31 bits.  For a value below \<open>2 ^ 31\<close>,
\<^verbatim>\<open>leb128\<close> reads back from the bytes that \<^verbatim>\<open>encode_uleb128\<close> wrote, wherever they
stand and whatever follows, the same value and their number.\<close>
theorem leb128_roundtrip:
  assumes "unat v < 2 ^ 31" "length (encode_uleb128 v) \<le> n"
  shows "leb128 (pre @ encode_uleb128 v @ rest) (int (length pre)) n = Some (v, length (encode_uleb128 v))"
proof -
  obtain r where r: "leb128_loop (pre @ encode_uleb128 v @ rest) (int (length pre)) n 0 0 0 =
      Some (r, length (encode_uleb128 v))" "unat r = unat v"
    using leb128_encode [of v 0 0 n "int (length pre)" pre rest 0] assms by auto
  then show ?thesis using unsigned_word_eqI [of r v] by (simp add: leb128_def)
qed

lemma leb128_roundtrip_witness:
  "leb128 ([7, 7] @ encode_uleb128 300000 @ [9]) 2 4 = Some (300000, 3)"
proof -
  have "encode_uleb128 300000 = [0xE0, 0xA7, 0x12]" by code_simp
  then show ?thesis using leb128_roundtrip [of 300000 4 "[7, 7]" "[9]"] by simp
qed

text \<open>Larger sizes are not read.  The seven bits of the fifth byte are shifted within an
\<^verbatim>\<open>int\<close>, so a size of \<open>2 ^ 31\<close>, which the format and the encoder allow, is undefined.\<close>
theorem leb128_fifth_byte: "leb128 (encode_uleb128 (2 ^ 31)) 0 10 = None"
proof -
  have "encode_uleb128 (2 ^ 31) = [0x80, 0x80, 0x80, 0x80, 0x08]" by code_simp
  moreover have "leb128 [0x80, 0x80, 0x80, 0x80, 0x08] 0 10 = None" by code_simp
  ultimately show ?thesis by simp
qed

subsection \<open>Streams of units\<close>

text \<open>A unit with a size field: its header byte, an extension byte if the header says so, payload.\<close>

definition obu_bytes :: "8 word \<times> 8 word list \<times> 8 word list \<Rightarrow> 8 word list" where
  "obu_bytes = (\<lambda>(h, ext, pl). [h] @ ext @ encode_uleb128 (of_nat (length pl)) @ pl)"

definition valid_obu :: "8 word \<times> 8 word list \<times> 8 word list \<Rightarrow> bool" where
  "valid_obu = (\<lambda>(h, ext, pl). get_bits h 6 1 \<noteq> 0 \<and> length ext = (if get_bits h 5 1 \<noteq> 0 then 1 else 0) \<and>
     length pl < 2 ^ 31)"

definition obu_type :: "8 word \<times> 8 word list \<times> 8 word list \<Rightarrow> nat" where
  "obu_type o' = unat (get_bits (fst o') 1 4)"

lemma parse_obu:
  assumes "valid_obu (h, ext, pl)" "length (pre @ obu_bytes (h, ext, pl) @ rest) < 2 ^ 64"
  shows "parse_obu_header (pre @ obu_bytes (h, ext, pl) @ rest) (int (length pre))
       (length (obu_bytes (h, ext, pl) @ rest)) =
     Some (1 + length ext + length (encode_uleb128 (of_nat (length pl))), length pl, obu_type (h, ext, pl))"
proof -
  let ?e = "encode_uleb128 (of_nat (length pl))" and ?bs = "pre @ obu_bytes (h, ext, pl) @ rest"
  let ?n = "length (obu_bytes (h, ext, pl) @ rest)"
  have pl: "length pl < 2 ^ 31" and sz: "get_bits h 6 1 \<noteq> 0"
    and ext: "length ext = (if get_bits h 5 1 \<noteq> 0 then 1 else 0)"
    using assms(1) by (simp_all add: valid_obu_def)
  have u: "unat (of_nat (length pl) :: 64 word) = length pl"
    using pl by (simp add: unat_of_nat take_bit_nat_eq_self)
  have r: "rd ?bs (int (length pre)) = Some h" by (simp add: rd_def obu_bytes_def)
  have n1: "\<not> ?n < 1" by (simp add: obu_bytes_def)
  define os where "os = 1 + length ext"
  have s: "(if get_bits h 5 1 \<noteq> 0 then 1 else 0) + 1 = os" using ext by (simp add: os_def)
  have osn: "os \<le> ?n" by (simp add: os_def obu_bytes_def)
  have m: "nat ((int ?n - int os) mod 2 ^ 64) = ?n - os"
  proof -
    have "int ?n - int os < 2 ^ 64" using assms(2) by simp
    then show ?thesis using osn by (simp add: nat_diff_distrib mod_pos_pos_trivial)
  qed
  have bs: "?bs = (pre @ [h] @ ext) @ ?e @ pl @ rest" by (simp add: obu_bytes_def)
  have p: "int (length pre) + int os = int (length (pre @ [h] @ ext))" by (simp add: os_def)
  have l: "leb128 ?bs (int (length pre) + int os) (?n - os) = Some (of_nat (length pl), length ?e)"
    unfolding p bs by (rule leb128_roundtrip) (use pl u in \<open>simp_all add: os_def obu_bytes_def\<close>)
  show ?thesis
    unfolding parse_obu_header_def r bind.bind_lunit Let_def s m l prod.case
    using n1 sz u by (simp add: os_def obu_type_def)
qed

lemma extract_av1_stream:
  "list_all valid_obu os \<Longrightarrow> length (pre @ concat (map obu_bytes os)) < 2 ^ 63 \<Longrightarrow>
   extract_av1_loop (pre @ concat (map obu_bytes os)) (int (length pre)) (np, h) =
     Some (np @ concat (map obu_bytes os),
           h @ concat (map obu_bytes (filter (\<lambda>u. obu_type u = OBS_OBU_METADATA \<or> obu_type u = OBS_OBU_SEQUENCE_HEADER) os)))"
proof (induction os arbitrary: pre np h)
  case Nil
  then show ?case by (subst extract_av1_loop.simps) simp
next
  case (Cons u os)
  obtain b ext pl where u: "u = (b, ext, pl)" by (metis prod_cases3)
  let ?bs = "pre @ obu_bytes u @ concat (map obu_bytes os)"
  have v: "valid_obu (b, ext, pl)" "list_all valid_obu os" using Cons.prems(1) by (simp_all add: u)
  have lu: "0 < length (obu_bytes u)" by (simp add: obu_bytes_def u)
  have ps: "parse_obu_header ?bs (int (length pre)) (nat (int (length ?bs) - int (length pre))) =
      Some (1 + length ext + length (encode_uleb128 (of_nat (length pl))), length pl, obu_type u)"
  proof -
    have "nat (int (length ?bs) - int (length pre)) = length (obu_bytes u @ concat (map obu_bytes os))" by simp
    then show ?thesis
      using parse_obu [OF v(1), of pre "concat (map obu_bytes os)"] Cons.prems(2) by (simp add: u)
  qed
  have len: "int (length pre) + int (1 + length ext + length (encode_uleb128 (of_nat (length pl))) + length pl) =
      int (length (pre @ obu_bytes u))"
    by (simp add: obu_bytes_def u)
  have bb: "bytes_between ?bs (int (length pre)) (int (length (pre @ obu_bytes u))) = Some (obu_bytes u)"
    by (simp add: bytes_between_def nat_add_distrib)
  have lt: "int (length pre) < int (length ?bs)" using lu unfolding length_append by linarith
  let ?h = "if obu_type u = OBS_OBU_METADATA \<or> obu_type u = OBS_OBU_SEQUENCE_HEADER then h @ obu_bytes u else h"
  have ih: "extract_av1_loop ?bs (int (length (pre @ obu_bytes u))) (np @ obu_bytes u, ?h) =
     Some ((np @ obu_bytes u) @ concat (map obu_bytes os),
           ?h @ concat (map obu_bytes (filter (\<lambda>u. obu_type u = OBS_OBU_METADATA \<or> obu_type u = OBS_OBU_SEQUENCE_HEADER) os)))"
    using Cons.IH [OF v(2), of "pre @ obu_bytes u"] Cons.prems(2) by simp
  have "extract_av1_loop ?bs (int (length pre)) (np, h) =
     Some ((np @ obu_bytes u) @ concat (map obu_bytes os),
           ?h @ concat (map obu_bytes (filter (\<lambda>u. obu_type u = OBS_OBU_METADATA \<or> obu_type u = OBS_OBU_SEQUENCE_HEADER) os)))"
    by (subst extract_av1_loop.simps) (simp only: lt if_True ps bind.bind_lunit prod.case len bb Let_def ih)
  then show ?case by simp
qed

text \<open>Extracting the headers of an AV1 packet keeps the packet and finds its headers.  For any
sequence of units with size fields (below \<open>2 ^ 31\<close>), \<^verbatim>\<open>obs_extract_av1_headers\<close> returns the
packet itself and the sequence headers and metadata units in order.\<close>
theorem extract_av1_headers_units:
  assumes "list_all valid_obu os" "length (concat (map obu_bytes os)) < 2 ^ 63"
  shows "obs_extract_av1_headers (concat (map obu_bytes os)) =
     Some (concat (map obu_bytes os),
       concat (map obu_bytes (filter (\<lambda>u. obu_type u = OBS_OBU_METADATA \<or> obu_type u = OBS_OBU_SEQUENCE_HEADER) os)))"
  using extract_av1_stream [of os "[]" "[]" "[]"] assms by (simp add: obs_extract_av1_headers_def)

lemma extract_av1_headers_units_witness:
  "obs_extract_av1_headers [0x12, 0, 0x0A, 2, 1, 2, 0x32, 1, 9] = Some ([0x12, 0, 0x0A, 2, 1, 2, 0x32, 1, 9], [0x0A, 2, 1, 2])"
proof -
  let ?os = "[(0x12, [], []), (0x0A, [], [1, 2]), (0x32, [], [9])] :: (8 word \<times> 8 word list \<times> 8 word list) list"
  have a: "concat (map obu_bytes ?os) = [0x12, 0, 0x0A, 2, 1, 2, 0x32, 1, 9]" by code_simp
  have b: "concat (map obu_bytes (filter (\<lambda>u. obu_type u = OBS_OBU_METADATA \<or> obu_type u = OBS_OBU_SEQUENCE_HEADER) ?os)) =
      [0x0A, 2, 1, 2]" by code_simp
  have v: "list_all valid_obu ?os"
  proof -
    have "get_bits 0x12 6 1 \<noteq> 0 \<and> get_bits 0x12 5 1 = 0 \<and> get_bits 0x0A 6 1 \<noteq> 0 \<and> get_bits 0x0A 5 1 = 0 \<and>
        get_bits 0x32 6 1 \<noteq> 0 \<and> get_bits 0x32 5 1 = 0" by code_simp
    then show ?thesis by (simp add: valid_obu_def)
  qed
  show ?thesis using extract_av1_headers_units [OF v] unfolding a b by simp
qed

text \<open>A unit without a size field but with an extension byte makes the parser read past the
packet.  The size is taken as everything but the header byte, though the extension byte belongs to the header
too (the format says the size less 1 and less the extension): the last byte copied is the one behind the
packet.\<close>
theorem av1_extension_overread: "obs_extract_av1_headers [0x34, 0, 1, 2] = None"
proof -
  have p: "parse_obu_header [0x34, 0, 1, 2] 0 4 = Some (2, 3, 6)" by code_simp
  show ?thesis unfolding obs_extract_av1_headers_def
    by (subst extract_av1_loop.simps) (simp add: p bytes_between_def)
qed

text \<open>The metadata unit that the captions go into is a unit of the format.  For a payload of less
than \<open>2 ^ 31 - 2\<close> bytes its header parses to the metadata type, the size counts the type byte, the
payload and the trailing bits, and extracting the headers of a packet with it gives it back.\<close>
theorem metadata_obu_wellformed:
  assumes "length pl + 2 < 2 ^ 31"
  shows "metadata_obu pl ty = obu_bytes (0x2A, [], [ty] @ pl @ [0x80]) \<and>
     valid_obu (0x2A, [], [ty] @ pl @ [0x80]) \<and> obu_type (0x2A, [], [ty] @ pl @ [0x80]) = OBS_OBU_METADATA \<and>
     obs_extract_av1_headers (metadata_obu pl ty) = Some (metadata_obu pl ty, metadata_obu pl ty)"
proof -
  let ?u = "(0x2A, [], [ty] @ pl @ [0x80]) :: 8 word \<times> 8 word list \<times> 8 word list"
  have h: "push_bit 3 (of_nat OBS_OBU_METADATA) OR push_bit 1 1 = (0x2A :: 8 word)" by code_simp
  have s: "1 + of_nat (length pl) + 1 = (of_nat (length ([ty] @ pl @ [0x80])) :: 64 word)" by simp
  have m: "metadata_obu pl ty = obu_bytes ?u"
    unfolding metadata_obu_def obu_bytes_def Let_def h prod.case s by simp
  have g: "get_bits 0x2A 6 1 \<noteq> 0 \<and> get_bits 0x2A 5 1 = 0 \<and> unat (get_bits 0x2A 1 4) = 5" by code_simp
  have v: "valid_obu ?u" using g assms by (simp add: valid_obu_def)
  have t: "obu_type ?u = OBS_OBU_METADATA" using g by (simp add: obu_type_def OBS_OBU_METADATA_def)
  have u: "unat (of_nat k :: 64 word) = k" if "k < 2 ^ 31" for k
    using that by (simp add: unat_of_nat take_bit_nat_eq_self)
  have "length (encode_uleb128 (of_nat (length pl + 2))) \<le> 5"
    using assms u [of "length pl + 2"] by (intro encode_length) (simp only:)
  then have "length (obu_bytes ?u) < 2 ^ 63" using assms by (simp add: obu_bytes_def add.commute)
  then have "obs_extract_av1_headers (concat (map obu_bytes [?u])) = Some (obu_bytes ?u, obu_bytes ?u)"
    using extract_av1_headers_units [of "[?u]"] v t by simp
  then show ?thesis using m v t by simp
qed

lemma metadata_obu_wellformed_witness:
  "metadata_obu [1, 2, 3] 4 = [0x2A, 5, 4, 1, 2, 3, 0x80] \<and>
   obs_extract_av1_headers [0x2A, 5, 4, 1, 2, 3, 0x80] = Some ([0x2A, 5, 4, 1, 2, 3, 0x80], [0x2A, 5, 4, 1, 2, 3, 0x80])"
proof -
  have "metadata_obu [1, 2, 3] 4 = [0x2A, 5, 4, 1, 2, 3, 0x80]" by code_simp
  then show ?thesis using metadata_obu_wellformed [of "[1, 2, 3]" 4] by auto
qed

end
