(* ===== verification/Calldata.thy ===== *)
theory Calldata
  imports Obs_Prelude
begin

text \<open>
  The parameters of signals and procedures: \<^verbatim>\<open>struct calldata\<close>
  (\<^verbatim>\<open>src/libobs/callback/calldata.c\<close>, \<^verbatim>\<open>calldata.h\<close>), one growing block
  of bytes with the parameters one after the other, each as name size, name, data size and data,
  and a size 0 at the end.

  The block is a list of cells as in the prelude; a position is an offset into it.  A
  \<^verbatim>\<open>size_t\<close> in the block is eight bytes, little endian.  A string is the list of its
  bytes without the terminator, none of them zero.
\<close>

subsection \<open>Fields in the block\<close>

type_synonym cells = "8 word option list"

definition size_bytes :: "nat \<Rightarrow> 8 word list" where
  "size_bytes n = map (\<lambda>i. of_nat (n div 256 ^ i)) [0..<8]"

definition bytes_size :: "8 word list \<Rightarrow> nat" where
  "bytes_size bs = foldr (\<lambda>b n. unat b + 256 * n) bs 0"

definition read_bytes :: "cells \<Rightarrow> nat \<Rightarrow> nat \<Rightarrow> 8 word list option" where
  "read_bytes b pos n = do { xs \<leftarrow> mem_read b pos n; those xs }"

definition write_bytes :: "cells \<Rightarrow> nat \<Rightarrow> 8 word list \<Rightarrow> cells option" where
  "write_bytes b pos xs = mem_write b pos (map Some xs)"

definition cd_serialize_size :: "cells \<Rightarrow> nat \<Rightarrow> (nat \<times> nat) option" where
  "cd_serialize_size b pos = map_option (\<lambda>bs. (bytes_size bs, pos + 8)) (read_bytes b pos 8)"

text \<open>\<^verbatim>\<open>strcmp (param_name, name) == 0\<close>, reading the block byte by byte.\<close>

fun strcmp_eq :: "cells \<Rightarrow> nat \<Rightarrow> 8 word list \<Rightarrow> bool option" where
  "strcmp_eq b pos [] = map_option (\<lambda>bs. bs = [0]) (read_bytes b pos 1)"
| "strcmp_eq b pos (c # cs) =
     (case read_bytes b pos 1 of
        None \<Rightarrow> None
      | Some bs \<Rightarrow> if bs = [c] then strcmp_eq b (Suc pos) cs else Some False)"

subsection \<open>Operations\<close>

record calldata =
  cd_stack :: "cells option"
  cd_size :: nat
  cd_fixed :: bool

definition cd_capacity :: "calldata \<Rightarrow> nat" where
  "cd_capacity data = (case cd_stack data of None \<Rightarrow> 0 | Some b \<Rightarrow> length b)"

definition calldata_init :: calldata where
  "calldata_init = \<lparr>cd_stack = None, cd_size = 0, cd_fixed = False\<rparr>"

definition calldata_clear :: "calldata \<Rightarrow> calldata option" where
  "calldata_clear data =
     (case cd_stack data of
        None \<Rightarrow> Some data
      | Some b \<Rightarrow> map_option (\<lambda>b. data\<lparr>cd_size := 8, cd_stack := Some b\<rparr>) (write_bytes b 0 (size_bytes 0)))"

definition calldata_init_fixed :: "cells \<Rightarrow> calldata option" where
  "calldata_init_fixed stack = calldata_clear \<lparr>cd_stack = Some stack, cd_size = 0, cd_fixed = True\<rparr>"

definition cd_serialize_string :: "cells \<Rightarrow> nat \<Rightarrow> (nat option \<times> nat) option" where
  "cd_serialize_string b pos =
     map_option (\<lambda>(size', pos). (if size' \<noteq> 0 then Some pos else None, pos + size')) (cd_serialize_size b pos)"

text \<open>The loop of \<^verbatim>\<open>cd_getparam\<close>: found or not, and the position it leaves.\<close>

partial_function (option) cd_getparam_loop ::
    "cells \<Rightarrow> 8 word list \<Rightarrow> nat \<Rightarrow> nat \<Rightarrow> (bool \<times> nat) option" where
  "cd_getparam_loop b name name_size pos =
     (if name_size \<noteq> 0 then
        do { eq \<leftarrow> strcmp_eq b pos name;
             if eq then Some (True, pos + name_size)
             else do { (param_size, pos) \<leftarrow> cd_serialize_size b (pos + name_size);
                       (name_size, pos) \<leftarrow> cd_serialize_size b (pos + param_size);
                       cd_getparam_loop b name name_size pos } }
      else Some (False, pos - 8))"

definition cd_getparam :: "calldata \<Rightarrow> 8 word list \<Rightarrow> (bool \<times> nat) option" where
  "cd_getparam data name =
     (if cd_size data = 0 then Some (False, 0)
      else do { b \<leftarrow> cd_stack data;
                (name_size, pos) \<leftarrow> cd_serialize_size b 0;
                cd_getparam_loop b name name_size pos })"

definition cd_copy_string :: "cells \<Rightarrow> nat \<Rightarrow> 8 word list \<Rightarrow> nat \<Rightarrow> (cells \<times> nat) option" where
  "cd_copy_string b pos str len =
     (let len = (if len = 0 then length str + 1 else len) in
      do { b \<leftarrow> write_bytes b pos (size_bytes len);
           bs \<leftarrow> (if len \<le> length str + 1 then Some (take len (str @ [0])) else None);
           b \<leftarrow> write_bytes b (pos + 8) bs;
           Some (b, pos + 8 + len) })"

definition cd_copy_data :: "cells \<Rightarrow> nat \<Rightarrow> 8 word list \<Rightarrow> (cells \<times> nat) option" where
  "cd_copy_data b pos input =
     do { b \<leftarrow> write_bytes b pos (size_bytes (length input));
          if length input \<noteq> 0 then
            do { b \<leftarrow> write_bytes b (pos + 8) input; Some (b, pos + 8 + length input) }
          else Some (b, pos + 8) }"

definition cd_set_first_param :: "calldata \<Rightarrow> 8 word list \<Rightarrow> 8 word list \<Rightarrow> calldata option" where
  "cd_set_first_param data name input =
     (let name_len = length name + 1;
          capacity = 8 * 3 + name_len + length input;
          data = data\<lparr>cd_size := capacity\<rparr>;
          capacity = (if capacity < 128 then 128 else capacity) in
      do { (b, pos) \<leftarrow> cd_copy_string (replicate capacity None) 0 name name_len;
           (b, pos) \<leftarrow> cd_copy_data b pos input;
           b \<leftarrow> write_bytes b pos (size_bytes 0);
           Some (data\<lparr>cd_stack := Some b\<rparr>) })"

definition cd_ensure_capacity :: "calldata \<Rightarrow> nat \<Rightarrow> bool \<times> calldata" where
  "cd_ensure_capacity data new_size =
     (if new_size < cd_capacity data then (True, data)
      else if cd_fixed data then (False, data)
      else let new_capacity = cd_capacity data * 2;
               new_capacity = (if new_capacity < new_size then new_size else new_capacity) in
        (True, data\<lparr>cd_stack := map_option (\<lambda>b. mem_realloc b new_capacity) (cd_stack data)\<rparr>))"

definition calldata_get_data :: "calldata \<Rightarrow> 8 word list \<Rightarrow> nat \<Rightarrow> 8 word list option option" where
  "calldata_get_data data name size' =
     (if name = [] then Some None
      else do { (found, pos) \<leftarrow> cd_getparam data name;
                if \<not> found then Some None
                else do { b \<leftarrow> cd_stack data;
                          (data_size, pos) \<leftarrow> cd_serialize_size b pos;
                          if data_size \<noteq> size' then Some None
                          else map_option Some (read_bytes b pos size') } })"

definition cd_set_existing :: "calldata \<Rightarrow> nat \<Rightarrow> 8 word list \<Rightarrow> calldata option" where
  "cd_set_existing data pos input =
     do { b \<leftarrow> cd_stack data;
          (cur_size, _) \<leftarrow> cd_serialize_size b pos;
          if cur_size < length input then
            (let offset = length input - cur_size; bytes = cd_size data;
                 (ok, data) = cd_ensure_capacity data (bytes + offset) in
             if \<not> ok then Some data
             else do { b \<leftarrow> cd_stack data;
                       b \<leftarrow> mem_move b (pos + offset) pos (bytes - pos);
                       (b, _) \<leftarrow> cd_copy_data b pos input;
                       Some (data\<lparr>cd_stack := Some b, cd_size := cd_size data + offset\<rparr>) })
          else if cur_size > length input then
            (let offset = cur_size - length input; bytes = cd_size data - offset in
             do { b \<leftarrow> mem_move b pos (pos + offset) (bytes - pos);
                  (b, _) \<leftarrow> cd_copy_data b pos input;
                  Some (data\<lparr>cd_stack := Some b, cd_size := cd_size data - offset\<rparr>) })
          else do { (b, _) \<leftarrow> cd_copy_data b pos input; Some (data\<lparr>cd_stack := Some b\<rparr>) } }"

definition cd_add_param :: "calldata \<Rightarrow> nat \<Rightarrow> 8 word list \<Rightarrow> 8 word list \<Rightarrow> calldata option" where
  "cd_add_param data pos name input =
     (let name_len = length name + 1;
          offset = name_len + length input + 8 * 2;
          (ok, data) = cd_ensure_capacity data (cd_size data + offset) in
      if \<not> ok then Some data
      else do { b \<leftarrow> cd_stack data;
                (b, pos) \<leftarrow> cd_copy_string b pos name 0;
                (b, pos) \<leftarrow> cd_copy_data b pos input;
                b \<leftarrow> write_bytes b pos (size_bytes 0);
                Some (data\<lparr>cd_stack := Some b, cd_size := cd_size data + offset\<rparr>) })"

definition calldata_set_data :: "calldata \<Rightarrow> 8 word list \<Rightarrow> 8 word list \<Rightarrow> calldata option" where
  "calldata_set_data data name input =
     (if name = [] then Some data
      else if \<not> cd_fixed data \<and> cd_stack data = None then cd_set_first_param data name input
      else do { (found, pos) \<leftarrow> cd_getparam data name;
                if found then cd_set_existing data pos input
                else cd_add_param data pos name input })"

definition calldata_get_string :: "calldata \<Rightarrow> 8 word list \<Rightarrow> nat option option option" where
  "calldata_get_string data name =
     (if name = [] then Some None
      else do { (found, pos) \<leftarrow> cd_getparam data name;
                if \<not> found then Some None
                else do { b \<leftarrow> cd_stack data;
                          (str, _) \<leftarrow> cd_serialize_string b pos;
                          Some (Some str) } })"

definition calldata_set_string :: "calldata \<Rightarrow> 8 word list \<Rightarrow> 8 word list option \<Rightarrow> calldata option" where
  "calldata_set_string data name str =
     (case str of Some str \<Rightarrow> calldata_set_data data name (str @ [0])
      | None \<Rightarrow> calldata_set_data data name [])"

subsection \<open>Fields round trip\<close>

lemma length_size_bytes [simp]: "length (size_bytes n) = 8"
  by (simp add: size_bytes_def)

lemma bytes_size_digits:
  "bytes_size (map (\<lambda>i. of_nat (n div 256 ^ i)) [j..<j + k]) = n div 256 ^ j mod 256 ^ k"
proof (induction k arbitrary: j)
  case (Suc k)
  have u: "[j..<j + Suc k] = j # [Suc j..<Suc j + k]" by (simp add: upt_conv_Cons)
  have b: "unat (of_nat m :: 8 word) = m mod 256" for m by (simp add: unat_of_nat take_bit_eq_mod)
  have "bytes_size (map (\<lambda>i. of_nat (n div 256 ^ i)) [j..<j + Suc k]) =
      n div 256 ^ j mod 256 + 256 * (n div 256 ^ Suc j mod 256 ^ k)"
    unfolding u using Suc.IH [of "Suc j"] by (simp add: bytes_size_def b)
  also have "n div 256 ^ Suc j = n div 256 ^ j div 256" by (simp only: power_Suc2 div_mult2_eq)
  also have "n div 256 ^ j mod 256 + 256 * (n div 256 ^ j div 256 mod 256 ^ k) = n div 256 ^ j mod 256 ^ Suc k"
    by (simp only: power_Suc mod_mult2_eq add.commute)
  finally show ?case .
qed (simp add: bytes_size_def)

lemma bytes_size_bytes: "n < 2 ^ 64 \<Longrightarrow> bytes_size (size_bytes n) = n"
  using bytes_size_digits [of n 0 8] by (simp add: size_bytes_def)

subsection \<open>Access to the middle of a block\<close>

lemma those_Some [simp]: "those (map Some xs) = Some xs"
  by (induction xs) simp_all

lemma read_bytes_mid:
  "pos = length xs \<Longrightarrow> n = length ys \<Longrightarrow> read_bytes (xs @ map Some ys @ zs) pos n = Some ys"
  by (simp add: read_bytes_def mem_read_def)

lemma write_bytes_mid:
  "pos = length xs \<Longrightarrow> length ys = length new \<Longrightarrow> write_bytes (xs @ ys @ zs) pos new = Some (xs @ map Some new @ zs)"
  by (simp add: write_bytes_def mem_write_def)

lemma serialize_size_mid:
  "pos = length xs \<Longrightarrow> n < 2 ^ 64 \<Longrightarrow>
     cd_serialize_size (xs @ map Some (size_bytes n) @ zs) pos = Some (n, pos + 8)"
  using read_bytes_mid [of pos xs 8 "size_bytes n" zs] by (simp add: cd_serialize_size_def bytes_size_bytes)

lemma write_bytes_append:
  "length ys = length n1 + length n2 \<Longrightarrow> pos = length xs \<Longrightarrow>
     Option.bind (write_bytes (xs @ ys @ zs) pos n1) (\<lambda>b. write_bytes b (pos + length n1) n2) =
     Some (xs @ map Some (n1 @ n2) @ zs)"
proof -
  assume l: "length ys = length n1 + length n2" and pos: "pos = length xs"
  obtain y1 y2 where ys: "ys = y1 @ y2" "length y1 = length n1" "length y2 = length n2"
    by (rule that [of "take (length n1) ys" "drop (length n1) ys"]) (simp_all add: l)
  have 1: "write_bytes (xs @ ys @ zs) pos n1 = Some (xs @ map Some n1 @ y2 @ zs)"
    using write_bytes_mid [OF pos ys(2), of "y2 @ zs"] ys(1) by simp
  have 2: "write_bytes ((xs @ map Some n1) @ y2 @ zs) (pos + length n1) n2 = Some ((xs @ map Some n1) @ map Some n2 @ zs)"
    by (rule write_bytes_mid) (use ys pos in simp_all)
  show ?thesis unfolding 1 using 2 by simp
qed

lemma copy_data_mid:
  assumes "length ys = 8 + length input" "pos = length xs"
  shows "cd_copy_data (xs @ ys @ zs) pos input =
    Some (xs @ map Some (size_bytes (length input) @ input) @ zs, pos + 8 + length input)"
proof (cases "input = []")
  case True
  then show ?thesis
    using write_bytes_mid [of pos xs ys "size_bytes 0" zs] assms by (simp add: cd_copy_data_def)
next
  case False
  have "Option.bind (write_bytes (xs @ ys @ zs) pos (size_bytes (length input)))
      (\<lambda>b. write_bytes b (pos + 8) input) = Some (xs @ map Some (size_bytes (length input) @ input) @ zs)"
    using write_bytes_append [of ys "size_bytes (length input)" input pos xs zs] assms by simp
  then show ?thesis using False by (auto simp: cd_copy_data_def bind_eq_Some_conv)
qed

lemma copy_string_mid:
  assumes "length ys = 9 + length str" "pos = length xs" "len = 0 \<or> len = length str + 1"
  shows "cd_copy_string (xs @ ys @ zs) pos str len =
    Some (xs @ map Some (size_bytes (length str + 1) @ str @ [0]) @ zs, pos + 9 + length str)"
proof -
  have "Option.bind (write_bytes (xs @ ys @ zs) pos (size_bytes (length str + 1)))
      (\<lambda>b. write_bytes b (pos + 8) (str @ [0])) = Some (xs @ map Some (size_bytes (length str + 1) @ str @ [0]) @ zs)"
    using write_bytes_append [of ys "size_bytes (length str + 1)" "str @ [0]" pos xs zs] assms by simp
  then show ?thesis using assms(3) by (auto simp: cd_copy_string_def bind_eq_Some_conv Let_def)
qed

subsection \<open>The parameters in the block\<close>

definition good_name :: "8 word list \<Rightarrow> bool" where
  "good_name n \<longleftrightarrow> n \<noteq> [] \<and> 0 \<notin> set n \<and> length n + 1 < 2 ^ 64"

type_synonym params = "(8 word list \<times> 8 word list) list"

definition param_bytes :: "8 word list \<times> 8 word list \<Rightarrow> 8 word list" where
  "param_bytes = (\<lambda>(n, d). size_bytes (length n + 1) @ (n @ [0]) @ size_bytes (length d) @ d)"

definition flat :: "params \<Rightarrow> 8 word list" where
  "flat ps = concat (map param_bytes ps) @ size_bytes 0"

definition good_params :: "params \<Rightarrow> bool" where
  "good_params ps \<longleftrightarrow> (\<forall>(n, d) \<in> set ps. good_name n \<and> length d < 2 ^ 64) \<and> distinct (map fst ps)"

definition cd_rep :: "calldata \<Rightarrow> params \<Rightarrow> bool" where
  "cd_rep data ps \<longleftrightarrow> good_params ps \<and>
     (if cd_stack data = None then ps = [] \<and> \<not> cd_fixed data \<and> cd_size data = 0
      else \<exists>r. cd_stack data = Some (map Some (flat ps) @ r) \<and> cd_size data = length (flat ps))"

lemma strcmp_eq_mid:
  assumes "0 \<notin> set s" "0 \<notin> set t" "pos = length xs"
  shows "strcmp_eq (xs @ map Some (s @ [0]) @ zs) pos t = Some (s = t)"
  using assms
proof (induction t arbitrary: s xs pos)
  case Nil
  show ?case
  proof (cases s)
    case Nil
    then show ?thesis using read_bytes_mid [of pos xs 1 "[0]" zs] Nil.prems by simp
  next
    case (Cons a s')
    then show ?thesis
      using read_bytes_mid [of pos xs 1 "[a]" "map Some (s' @ [0]) @ zs"] Nil.prems by simp
  qed
next
  case (Cons c cs)
  show ?case
  proof (cases s)
    case Nil
    then show ?thesis using read_bytes_mid [of pos xs 1 "[0]" zs] Cons.prems by simp
  next
    case s: (Cons a s')
    have r: "read_bytes (xs @ map Some (s @ [0]) @ zs) pos 1 = Some [a]"
      using read_bytes_mid [of pos xs 1 "[a]" "map Some (s' @ [0]) @ zs"] Cons.prems(3) s by simp
    have "strcmp_eq ((xs @ [Some a]) @ map Some (s' @ [0]) @ zs) (Suc pos) cs = Some (s' = cs)"
      by (rule Cons.IH) (use Cons.prems s in simp_all)
    then show ?thesis using r s by auto
  qed
qed

definition off_of :: "params \<Rightarrow> nat" where
  "off_of ps = length (concat (map param_bytes ps))"

lemma getparam_loop_spec:
  assumes "good_params ps" "good_name name" "pos = length xs"
  shows "Option.bind (cd_serialize_size (xs @ map Some (flat ps) @ r) pos)
     (\<lambda>(name_size, pos). cd_getparam_loop (xs @ map Some (flat ps) @ r) name name_size pos) =
   Some (case dropWhile (\<lambda>p. fst p \<noteq> name) ps of
       [] \<Rightarrow> (False, pos + off_of ps)
     | _ \<Rightarrow> (True, pos + off_of (takeWhile (\<lambda>p. fst p \<noteq> name) ps) + 9 + length name))"
  using assms
proof (induction ps arbitrary: xs pos)
  case Nil
  have "cd_serialize_size (xs @ map Some (flat []) @ r) pos = Some (0, pos + 8)"
    using serialize_size_mid [of pos xs 0 r] Nil.prems(3) by (simp add: flat_def)
  then show ?case by (simp add: cd_getparam_loop.simps off_of_def)
next
  case (Cons p ps)
  obtain n d where p: "p = (n, d)" by (cases p)
  have gn: "good_name n" and gd: "length d < 2 ^ 64" and gps: "good_params ps"
    using Cons.prems(1) by (auto simp: good_params_def p)
  let ?b = "xs @ map Some (flat (p # ps)) @ r"
  have b1: "?b = xs @ map Some (size_bytes (length n + 1)) @
      map Some (n @ [0]) @ map Some (size_bytes (length d)) @ map Some d @ map Some (flat ps) @ r"
    by (simp add: flat_def param_bytes_def p)
  have b2: "?b = (xs @ map Some (size_bytes (length n + 1))) @
      map Some (n @ [0]) @ map Some (size_bytes (length d)) @ map Some d @ map Some (flat ps) @ r"
    by (simp add: b1)
  have b3: "?b = (xs @ map Some (size_bytes (length n + 1)) @ map Some (n @ [0])) @
      map Some (size_bytes (length d)) @ map Some d @ map Some (flat ps) @ r"
    by (simp add: b1)
  have b4: "?b = (xs @ map Some (param_bytes p)) @ map Some (flat ps) @ r"
    by (simp add: flat_def)
  have s1: "cd_serialize_size ?b pos = Some (length n + 1, pos + 8)"
    unfolding b1 by (rule serialize_size_mid) (use Cons.prems(3) gn in \<open>simp_all add: good_name_def\<close>)
  have c: "strcmp_eq ?b (pos + 8) name = Some (n = name)"
    unfolding b2 by (rule strcmp_eq_mid) (use Cons.prems gn in \<open>simp_all add: good_name_def\<close>)
  have s2: "cd_serialize_size ?b (pos + 8 + (length n + 1)) = Some (length d, pos + 8 + (length n + 1) + 8)"
    unfolding b3 by (rule serialize_size_mid) (use Cons.prems(3) gd in simp_all)
  show ?case
  proof (cases "n = name")
    case True
    then show ?thesis using s1 c
      by (simp add: cd_getparam_loop.simps p off_of_def)
  next
    case False
    let ?pos = "pos + length (param_bytes p)"
    have e: "pos + 8 + (length n + 1) + 8 + length d = ?pos" by (simp add: param_bytes_def p)
    have "Option.bind (cd_serialize_size ?b ?pos)
       (\<lambda>(name_size, pos). cd_getparam_loop ?b name name_size pos) =
     Some (case dropWhile (\<lambda>p. fst p \<noteq> name) ps of
         [] \<Rightarrow> (False, ?pos + off_of ps)
       | _ \<Rightarrow> (True, ?pos + off_of (takeWhile (\<lambda>p. fst p \<noteq> name) ps) + 9 + length name))"
      unfolding b4 by (rule Cons.IH [OF gps Cons.prems(2)]) (use Cons.prems(3) in simp)
    moreover have "Option.bind (cd_serialize_size ?b pos)
       (\<lambda>(name_size, pos). cd_getparam_loop ?b name name_size pos) =
      Option.bind (cd_serialize_size ?b ?pos) (\<lambda>(name_size, pos). cd_getparam_loop ?b name name_size pos)"
      unfolding s1 bind.bind_lunit prod.case
      by (subst cd_getparam_loop.simps) (simp only: c False s2 e bind.bind_lunit prod.case if_False if_True
          add_eq_0_iff_both_eq_0 one_neq_zero simp_thms)
    moreover have dw: "dropWhile (\<lambda>p. fst p \<noteq> name) (p # ps) = dropWhile (\<lambda>p. fst p \<noteq> name) ps"
      "takeWhile (\<lambda>p. fst p \<noteq> name) (p # ps) = p # takeWhile (\<lambda>p. fst p \<noteq> name) ps"
      using False by (simp_all add: p)
    moreover have off: "off_of (p # qs) = length (param_bytes p) + off_of qs" for qs by (simp add: off_of_def)
    ultimately show ?thesis unfolding dw off
      by (cases "dropWhile (\<lambda>p. fst p \<noteq> name) ps") (simp_all only: list.case add.assoc)
  qed
qed

subsection \<open>Setting and getting\<close>

text \<open>The association list after a set: replaced in place, or appended.\<close>

fun set_param :: "8 word list \<Rightarrow> 8 word list \<Rightarrow> params \<Rightarrow> params" where
  "set_param n d [] = [(n, d)]"
| "set_param n d ((m, e) # ps) = (if m = n then (n, d) # ps else (m, e) # set_param n d ps)"

lemma set_param_map: "map_of (set_param n d ps) = (map_of ps)(n \<mapsto> d)"
  by (induction ps) auto

lemma set_param_keys:
  "map fst (set_param n d ps) = (if n \<in> set (map fst ps) then map fst ps else map fst ps @ [n])"
proof (induction ps)
  case (Cons p ps)
  then show ?case by (cases p) auto
qed simp

lemma set_param_good:
  assumes "good_params ps" "good_name n" "length d < 2 ^ 64"
  shows "good_params (set_param n d ps)"
proof -
  have "distinct (map fst (set_param n d ps))" if "distinct (map fst ps)"
    using that unfolding set_param_keys by auto
  moreover have "\<forall>(m, e) \<in> set (set_param n d ps). good_name m \<and> length e < 2 ^ 64"
    if "\<forall>(m, e) \<in> set ps. good_name m \<and> length e < 2 ^ 64"
    using that assms(2,3) by (induction ps) (auto split: if_splits)
  ultimately show ?thesis using assms(1) by (simp add: good_params_def)
qed

lemma split_first:
  assumes "dropWhile (\<lambda>p. fst p \<noteq> name) ps = q # ps2"
  obtains d where "q = (name, d)" "ps = takeWhile (\<lambda>p. fst p \<noteq> name) ps @ (name, d) # ps2"
proof -
  have "fst q = name" using assms by (metis (mono_tags) hd_dropWhile list.distinct(1) list.sel(1))
  then have "q = (name, snd q)" by (metis prod.collapse)
  moreover have "ps = takeWhile (\<lambda>p. fst p \<noteq> name) ps @ q # ps2" using assms by (metis takeWhile_dropWhile_id)
  ultimately show ?thesis using that by metis
qed

lemma set_param_first:
  assumes "name \<notin> fst ` set ps1"
  shows "set_param name d (ps1 @ (name, e) # ps2) = ps1 @ (name, d) # ps2"
  using assms by (induction ps1) auto

lemma set_param_new: "name \<notin> fst ` set ps \<Longrightarrow> set_param name d ps = ps @ [(name, d)]"
  by (induction ps) auto

lemma getparam_spec:
  assumes "good_params ps" "good_name name" "cd_stack data = Some (map Some (flat ps) @ r)"
    "cd_size data = length (flat ps)"
  shows "cd_getparam data name =
   Some (case dropWhile (\<lambda>p. fst p \<noteq> name) ps of
       [] \<Rightarrow> (False, off_of ps)
     | _ \<Rightarrow> (True, off_of (takeWhile (\<lambda>p. fst p \<noteq> name) ps) + 9 + length name))"
proof -
  have "cd_size data \<noteq> 0" using assms(4) by (simp add: flat_def)
  then show ?thesis
    using getparam_loop_spec [OF assms(1,2), of 0 "[]" r, unfolded add_0] by (simp add: cd_getparam_def assms(3))
qed

text \<open>The block around one parameter: what is before its data size, the size and data, what follows.\<close>

definition before_data :: "params \<Rightarrow> 8 word list \<Rightarrow> 8 word list" where
  "before_data ps1 name = concat (map param_bytes ps1) @ size_bytes (length name + 1) @ name @ [0]"

lemma length_before: "length (before_data ps1 name) = off_of ps1 + 9 + length name"
  by (simp add: before_data_def off_of_def)

lemma flat_split:
  "flat (ps1 @ (name, d) # ps2) = before_data ps1 name @ (size_bytes (length d) @ d) @ flat ps2"
  by (simp add: flat_def before_data_def param_bytes_def)

lemma ensure_capacity_grow:
  assumes "cd_stack data = Some b" "\<not> (cd_fixed data \<and> length b \<le> n)"
  shows "\<exists>e. cd_ensure_capacity data n = (True, data\<lparr>cd_stack := Some (b @ e)\<rparr>) \<and> n \<le> length (b @ e)"
proof (cases "n < length b")
  case True
  then show ?thesis using assms by (intro exI [of _ "[]"]) (simp add: cd_ensure_capacity_def cd_capacity_def)
next
  case False
  let ?c = "if length b * 2 < n then n else length b * 2"
  have "mem_realloc b ?c = b @ replicate (?c - length b) None" by (simp add: mem_realloc_def)
  then show ?thesis using assms False
    by (intro exI [of _ "replicate (?c - length b) None"])
      (auto simp: cd_ensure_capacity_def cd_capacity_def Let_def)
qed

lemma ensure_capacity_full:
  assumes "cd_stack data = Some b" "cd_fixed data" "length b \<le> n"
  shows "cd_ensure_capacity data n = (False, data)"
  using assms by (simp add: cd_ensure_capacity_def cd_capacity_def)

lemma mem_move_up:
  assumes "pos = length a" "length r1 = k" "n = length s"
  shows "mem_move (a @ s @ r1 @ r2) (pos + k) pos n = Some (a @ take k (s @ r1) @ s @ r2)"
proof -
  have "take (pos + k) (a @ s @ r1 @ r2) = a @ take k (s @ r1)" using assms by simp
  moreover have "drop (pos + k + n) (a @ s @ r1 @ r2) = r2" using assms by simp
  ultimately show ?thesis using assms by (simp add: mem_move_def mem_read_def mem_write_def)
qed

lemma mem_move_down:
  assumes "pos = length a" "k \<le> length s" "n = length s - k"
  shows "mem_move (a @ s @ r) pos (pos + k) n = Some (a @ drop k s @ drop n (s @ r))"
  using assms by (simp add: mem_move_def mem_read_def mem_write_def)

lemma cd_updates:
  "cd_stack (data\<lparr>cd_stack := x\<rparr>) = x" "cd_size (data\<lparr>cd_stack := x\<rparr>) = cd_size data"
  "data\<lparr>cd_stack := x, cd_stack := y\<rparr> = data\<lparr>cd_stack := y\<rparr>"
  "data\<lparr>cd_stack := x, cd_stack := y, cd_size := n\<rparr> = data\<lparr>cd_stack := y, cd_size := n\<rparr>"
  by simp_all

text \<open>
  Changing the data of a parameter keeps everything else in the block, in each of the three ways
  it is done: \<open>S\<close> is the old size and data, \<open>D\<close> the new ones.
\<close>

lemma set_existing_grow:
  assumes st: "cd_stack data = Some (A @ S @ Z @ r)" and sz: "cd_size data = length A + length S + length Z"
    and cur: "cd_serialize_size (A @ S @ Z @ r) (length A) = Some (m, p)" and m: "length S = 8 + m"
    and lt: "m < length d" and nf: "\<not> (cd_fixed data \<and> length (A @ S @ Z @ r) \<le> cd_size data + (length d - m))"
  shows "\<exists>r'. cd_set_existing data (length A) d =
     Some (data\<lparr>cd_stack := Some (A @ map Some (size_bytes (length d) @ d) @ Z @ r'),
               cd_size := cd_size data + (length d - m)\<rparr>) \<and>
     length S + length r \<le> 8 + length d + length r'"
proof -
  let ?k = "length d - m"
  obtain ext where ext: "cd_ensure_capacity data (cd_size data + ?k) =
      (True, data\<lparr>cd_stack := Some ((A @ S @ Z @ r) @ ext)\<rparr>)" "cd_size data + ?k \<le> length ((A @ S @ Z @ r) @ ext)"
    using ensure_capacity_grow [OF st nf] by blast
  define r1 r2 where "r1 = take ?k (r @ ext)" and "r2 = drop ?k (r @ ext)"
  have r12: "r @ ext = r1 @ r2" "length r1 = ?k"
    unfolding r1_def r2_def append_take_drop_id using ext(2) sz by simp_all
  have mv: "mem_move (A @ (S @ Z) @ r1 @ r2) (length A + ?k) (length A) (cd_size data - length A) =
      Some (A @ take ?k ((S @ Z) @ r1) @ (S @ Z) @ r2)"
    by (rule mem_move_up [OF refl r12(2)]) (use sz in simp)
  have sh: "(A @ S @ Z @ r) @ ext = A @ (S @ Z) @ r1 @ r2" using r12(1) by simp
  have l: "length (take ?k ((S @ Z) @ r1) @ S) = 8 + length d" using r12(2) m lt by simp
  have c: "cd_copy_data (A @ take ?k ((S @ Z) @ r1) @ (S @ Z) @ r2) (length A) d =
      Some (A @ map Some (size_bytes (length d) @ d) @ Z @ r2, length A + 8 + length d)"
    using copy_data_mid [OF l refl, of A "Z @ r2"] by (simp only: append_assoc)
  have "cd_set_existing data (length A) d = Some (data\<lparr>cd_stack := Some (A @ map Some (size_bytes (length d) @ d) @ Z @ r2),
      cd_size := cd_size data + ?k\<rparr>)"
    unfolding cd_set_existing_def st bind.bind_lunit cur prod.case Let_def ext(1)
    using lt by (simp only: if_True if_False not_True_eq_False cd_updates bind.bind_lunit sh mv c prod.case)
  moreover have "length r + length ext = length r1 + length r2"
    using arg_cong [OF r12(1), of length] by (simp only: length_append)
  ultimately show ?thesis using r12(2) m lt by (intro exI [of _ r2]) simp
qed

lemma set_existing_shrink:
  assumes st: "cd_stack data = Some (A @ S @ Z @ r)" and sz: "cd_size data = length A + length S + length Z"
    and cur: "cd_serialize_size (A @ S @ Z @ r) (length A) = Some (m, p)" and m: "length S = 8 + m"
    and lt: "length d < m"
  shows "\<exists>r'. cd_set_existing data (length A) d =
     Some (data\<lparr>cd_stack := Some (A @ map Some (size_bytes (length d) @ d) @ Z @ r'),
               cd_size := cd_size data - (m - length d)\<rparr>) \<and>
     length S + length r \<le> 8 + length d + length r'"
proof -
  let ?k = "m - length d"
  have k: "?k \<le> length (S @ Z)" "?k \<le> length S" using m by simp_all
  let ?r = "drop (cd_size data - ?k - length A) ((S @ Z) @ r)"
  have mv: "mem_move (A @ (S @ Z) @ r) (length A) (length A + ?k) (cd_size data - ?k - length A) =
      Some (A @ drop ?k (S @ Z) @ ?r)"
    by (rule mem_move_down [OF refl k(1)]) (use sz in simp)
  have dr: "A @ drop ?k (S @ Z) @ ?r = A @ drop ?k S @ Z @ ?r" using k(2) by simp
  have l: "length (drop ?k S) = 8 + length d" using m lt by simp
  have sh: "A @ S @ Z @ r = A @ (S @ Z) @ r" by simp
  have n: "(m < length d) = False" "(length d < m) = True" using lt by simp_all
  have "cd_set_existing data (length A) d = Some (data\<lparr>cd_stack := Some (A @ map Some (size_bytes (length d) @ d) @ Z @ ?r),
      cd_size := cd_size data - ?k\<rparr>)"
    unfolding cd_set_existing_def st bind.bind_lunit cur prod.case Let_def n if_True if_False
    unfolding sh mv dr bind.bind_lunit copy_data_mid [OF l refl] prod.case by (rule refl)
  moreover have "length S + length r \<le> 8 + length d + length ?r" using m lt sz by simp
  ultimately show ?thesis by blast
qed

lemma set_existing_same:
  assumes st: "cd_stack data = Some (A @ S @ Z @ r)"
    and cur: "cd_serialize_size (A @ S @ Z @ r) (length A) = Some (length d, p)" and m: "length S = 8 + length d"
  shows "cd_set_existing data (length A) d =
     Some (data\<lparr>cd_stack := Some (A @ map Some (size_bytes (length d) @ d) @ Z @ r)\<rparr>)"
  unfolding cd_set_existing_def st bind.bind_lunit cur prod.case Let_def
  by (simp add: copy_data_mid [OF m refl])

lemma set_existing_spec:
  assumes good: "length e < 2 ^ 64"
    and st: "cd_stack data = Some (map Some (flat (ps1 @ (name, e) # ps2)) @ r)"
    and sz: "cd_size data = length (flat (ps1 @ (name, e) # ps2))"
    and fits: "length d \<le> length e \<or> \<not> (cd_fixed data \<and> cd_capacity data \<le> cd_size data + length d - length e)"
  shows "\<exists>data' r'. cd_set_existing data (off_of ps1 + 9 + length name) d = Some data' \<and>
     cd_stack data' = Some (map Some (flat (ps1 @ (name, d) # ps2)) @ r') \<and>
     cd_size data' = length (flat (ps1 @ (name, d) # ps2)) \<and> cd_fixed data' = cd_fixed data \<and>
     cd_capacity data \<le> cd_capacity data'"
proof -
  define A where "A = map Some (before_data ps1 name)"
  define S where "S = map Some (size_bytes (length e) @ e)"
  define Z where "Z = map Some (flat ps2)"
  have lA: "off_of ps1 + 9 + length name = length A" by (simp add: A_def length_before)
  have lS: "length S = 8 + length e" by (simp add: S_def)
  have stk: "cd_stack data = Some (A @ S @ Z @ r)" unfolding st flat_split A_def S_def Z_def by simp
  have size: "cd_size data = length A + length S + length Z" unfolding sz flat_split A_def S_def Z_def by simp
  have cur: "cd_serialize_size (A @ S @ Z @ r) (length A) = Some (length e, length A + 8)"
    using serialize_size_mid [OF refl good, of A "map Some e @ Z @ r"] by (simp add: S_def)
  have new: "map Some (flat (ps1 @ (name, d) # ps2)) = A @ map Some (size_bytes (length d) @ d) @ Z"
    "length (flat (ps1 @ (name, d) # ps2)) = length A + (8 + length d) + length Z"
    unfolding flat_split A_def Z_def by simp_all
  have cap: "cd_capacity data = length (A @ S @ Z @ r)" by (simp add: cd_capacity_def stk)
  have "\<exists>r'. cd_set_existing data (length A) d =
       Some (data\<lparr>cd_stack := Some (A @ map Some (size_bytes (length d) @ d) @ Z @ r'),
                 cd_size := length A + (8 + length d) + length Z\<rparr>) \<and>
       length S + length r \<le> 8 + length d + length r'"
  proof -
    consider "length e < length d" | "length d < length e" | "length d = length e" by linarith
    then show ?thesis
    proof cases
      case 1
      have nf: "\<not> (cd_fixed data \<and> length (A @ S @ Z @ r) \<le> cd_size data + (length d - length e))"
        using fits 1 unfolding cap by auto
      have n: "cd_size data + (length d - length e) = length A + (8 + length d) + length Z"
        using size lS 1 by simp
      show ?thesis using set_existing_grow [OF stk size cur lS 1 nf] unfolding n .
    next
      case 2
      have n: "cd_size data - (length e - length d) = length A + (8 + length d) + length Z"
        using size lS 2 by simp
      show ?thesis using set_existing_shrink [OF stk size cur lS 2] unfolding n .
    next
      case 3
      have n: "data\<lparr>cd_size := length A + (8 + length d) + length Z\<rparr> = data" using size lS 3 by simp
      have "cd_set_existing data (length A) d =
          Some (data\<lparr>cd_stack := Some (A @ map Some (size_bytes (length d) @ d) @ Z @ r)\<rparr>)"
        by (rule set_existing_same [OF stk]) (use cur lS 3 in simp_all)
      also have "\<dots> = Some (data\<lparr>cd_size := length A + (8 + length d) + length Z,
          cd_stack := Some (A @ map Some (size_bytes (length d) @ d) @ Z @ r)\<rparr>)"
        by (simp only: n)
      finally show ?thesis using lS 3 by (intro exI [of _ r]) simp
    qed
  qed
  then show ?thesis unfolding lA new cap by (auto simp: cd_capacity_def)
qed

lemma add_param_spec:
  assumes name: "good_name name" "length d < 2 ^ 64"
    and st: "cd_stack data = Some (map Some (flat ps) @ r)" and sz: "cd_size data = length (flat ps)"
    and fits: "\<not> (cd_fixed data \<and> cd_capacity data \<le> length (flat (ps @ [(name, d)])))"
  shows "\<exists>data' r'. cd_add_param data (off_of ps) name d = Some data' \<and>
     cd_stack data' = Some (map Some (flat (ps @ [(name, d)])) @ r') \<and>
     cd_size data' = length (flat (ps @ [(name, d)])) \<and> cd_fixed data' = cd_fixed data \<and>
     cd_capacity data \<le> cd_capacity data'"
proof -
  define A where "A = map Some (concat (map param_bytes ps))"
  let ?off = "(length name + 1) + length d + 8 * 2"
  have lA: "off_of ps = length A" by (simp add: A_def off_of_def)
  have stk: "cd_stack data = Some (A @ map Some (size_bytes 0) @ r)" unfolding st by (simp add: A_def flat_def)
  have size: "cd_size data = length A + 8" unfolding sz by (simp add: A_def flat_def)
  have new: "map Some (flat (ps @ [(name, d)])) =
      A @ map Some (size_bytes (length name + 1) @ name @ [0]) @ map Some (size_bytes (length d) @ d) @ map Some (size_bytes 0)"
    by (simp add: flat_def A_def param_bytes_def)
  have nl: "length (flat (ps @ [(name, d)])) = cd_size data + ?off"
    unfolding sz by (simp add: flat_def param_bytes_def)
  have cap: "cd_capacity data = length (A @ map Some (size_bytes 0) @ r)" by (simp add: cd_capacity_def stk)
  obtain ext where ext: "cd_ensure_capacity data (cd_size data + ?off) =
      (True, data\<lparr>cd_stack := Some ((A @ map Some (size_bytes 0) @ r) @ ext)\<rparr>)"
      "cd_size data + ?off \<le> length ((A @ map Some (size_bytes 0) @ r) @ ext)"
    using ensure_capacity_grow [OF stk, of "cd_size data + ?off"] fits unfolding nl cap by blast
  define R where "R = map Some (size_bytes 0) @ r @ ext"
  have lR: "9 + length name + (8 + length d) + 8 \<le> length R"
    using ext(2) size unfolding R_def by simp
  define y1 y2 y3 y4 where "y1 = take (9 + length name) R" and "y2 = take (8 + length d) (drop (9 + length name) R)"
    and "y3 = take 8 (drop (8 + length d) (drop (9 + length name) R))"
    and "y4 = drop 8 (drop (8 + length d) (drop (9 + length name) R))"
  have R: "R = y1 @ y2 @ y3 @ y4"
    unfolding y1_def y2_def y3_def y4_def by (simp only: append_take_drop_id)
  have ly: "length y1 = 9 + length name" "length y2 = 8 + length d" "length y3 = 8"
    using lR by (simp_all add: y1_def y2_def y3_def)
  let ?n = "map Some (size_bytes (length name + 1) @ name @ [0])"
  let ?d = "map Some (size_bytes (length d) @ d)"
  have c1: "cd_copy_string (A @ y1 @ y2 @ y3 @ y4) (off_of ps) name 0 =
      Some (A @ ?n @ y2 @ y3 @ y4, off_of ps + 9 + length name)"
    by (rule copy_string_mid) (use ly lA in simp_all)
  have c2: "cd_copy_data ((A @ ?n) @ y2 @ y3 @ y4) (off_of ps + 9 + length name) d =
      Some ((A @ ?n) @ ?d @ y3 @ y4, off_of ps + 9 + length name + 8 + length d)"
    by (rule copy_data_mid) (use ly lA in simp_all)
  have c3: "write_bytes ((A @ ?n @ ?d) @ y3 @ y4) (off_of ps + 9 + length name + 8 + length d) (size_bytes 0) =
      Some ((A @ ?n @ ?d) @ map Some (size_bytes 0) @ y4)"
    by (rule write_bytes_mid) (use ly lA in simp_all)
  have sh: "A @ map Some (size_bytes 0) @ r @ ext = A @ y1 @ y2 @ y3 @ y4" using R unfolding R_def by simp
  have "cd_add_param data (off_of ps) name d =
      Some (data\<lparr>cd_stack := Some (A @ ?n @ ?d @ map Some (size_bytes 0) @ y4), cd_size := cd_size data + ?off\<rparr>)"
    unfolding cd_add_param_def Let_def ext(1) prod.case
    using c2 c3 by (simp only: not_True_eq_False if_False cd_updates bind.bind_lunit sh c1 prod.case append_assoc)
  moreover have "length (A @ map Some (size_bytes 0) @ r) \<le> length (A @ ?n @ ?d @ map Some (size_bytes 0) @ y4)"
    using arg_cong [OF R, of length] ly unfolding R_def by simp
  ultimately show ?thesis unfolding new nl cap by (auto simp: cd_capacity_def)
qed

lemma first_param_spec:
  assumes "good_name name" "length d < 2 ^ 64" "cd_stack data = None"
  shows "\<exists>data' r'. cd_set_first_param data name d = Some data' \<and>
     cd_stack data' = Some (map Some (flat [(name, d)]) @ r') \<and> cd_size data' = length (flat [(name, d)]) \<and>
     cd_fixed data' = cd_fixed data"
proof -
  let ?cap = "8 * 3 + (length name + 1) + length d"
  let ?c = "if ?cap < 128 then 128 else ?cap"
  define k where "k = ?c - ?cap"
  have k: "?c = (9 + length name) + (8 + length d) + 8 + k" by (simp add: k_def)
  have rep: "replicate ?c (None :: 8 word option) =
      [] @ replicate (9 + length name) None @ replicate (8 + length d) None @ replicate 8 None @ replicate k None"
    unfolding k by (simp only: replicate_add append_assoc append_Nil)
  let ?n = "map Some (size_bytes (length name + 1) @ name @ [0])"
  let ?d = "map Some (size_bytes (length d) @ d)"
  have c1: "cd_copy_string (replicate ?c None) 0 name (length name + 1) =
      Some ([] @ ?n @ replicate (8 + length d) None @ replicate 8 None @ replicate k None, 0 + 9 + length name)"
    unfolding rep by (rule copy_string_mid) simp_all
  have c2: "cd_copy_data (?n @ replicate (8 + length d) None @ replicate 8 None @ replicate k None) (0 + 9 + length name) d =
      Some (?n @ ?d @ replicate 8 None @ replicate k None, 0 + 9 + length name + 8 + length d)"
    by (rule copy_data_mid) simp_all
  have c3: "write_bytes ((?n @ ?d) @ replicate 8 None @ replicate k None) (0 + 9 + length name + 8 + length d) (size_bytes 0) =
      Some ((?n @ ?d) @ map Some (size_bytes 0) @ replicate k None)"
    by (rule write_bytes_mid) simp_all
  have new: "map Some (flat [(name, d)]) = ?n @ ?d @ map Some (size_bytes 0)" "length (flat [(name, d)]) = ?cap"
    by (simp_all add: flat_def param_bytes_def)
  have "cd_set_first_param data name d =
      Some (data\<lparr>cd_size := ?cap, cd_stack := Some (?n @ ?d @ map Some (size_bytes 0) @ replicate k None)\<rparr>)"
    unfolding cd_set_first_param_def Let_def c1
    using c2 c3 by (simp only: bind.bind_lunit prod.case append_Nil append_assoc)
  then show ?thesis unfolding new by simp
qed

text \<open>Whether a set has to fail: a fixed block that the new parameters do not fit in.\<close>

definition too_large :: "calldata \<Rightarrow> params \<Rightarrow> bool" where
  "too_large data ps \<longleftrightarrow> cd_fixed data \<and> cd_capacity data \<le> length (flat ps)"

lemma length_set_existing:
  "length (flat (ps1 @ (name, d) # ps2)) + length e = length (flat (ps1 @ (name, e) # ps2)) + length d"
  by (simp add: flat_def param_bytes_def)

lemma set_data_spec:
  assumes rep: "cd_rep data ps" and name: "good_name name" "length d < 2 ^ 64"
    and fits: "\<not> too_large data (set_param name d ps)"
  shows "\<exists>data'. calldata_set_data data name d = Some data' \<and> cd_rep data' (set_param name d ps) \<and>
     cd_fixed data' = cd_fixed data \<and> cd_capacity data \<le> cd_capacity data'"
proof -
  have good: "good_params ps" using rep by (simp add: cd_rep_def)
  have good': "good_params (set_param name d ps)" by (rule set_param_good [OF good name])
  have nn: "name \<noteq> []" using name by (simp add: good_name_def)
  show ?thesis
  proof (cases "cd_stack data")
    case None
    then have ps: "ps = []" "\<not> cd_fixed data" using rep by (simp_all add: cd_rep_def)
    obtain data' r' where d: "cd_set_first_param data name d = Some data'"
      "cd_stack data' = Some (map Some (flat [(name, d)]) @ r')" "cd_size data' = length (flat [(name, d)])"
      "cd_fixed data' = cd_fixed data"
      using first_param_spec [OF name None] by blast
    then show ?thesis using nn None ps good'
      by (auto simp: calldata_set_data_def cd_rep_def cd_capacity_def)
  next
    case (Some b)
    obtain r where st: "cd_stack data = Some (map Some (flat ps) @ r)" and sz: "cd_size data = length (flat ps)"
      using rep Some by (auto simp: cd_rep_def)
    note gp = getparam_spec [OF good name(1) st sz]
    show ?thesis
    proof (cases "dropWhile (\<lambda>p. fst p \<noteq> name) ps")
      case Nil
      then have nin: "name \<notin> fst ` set ps" by (auto simp: dropWhile_eq_Nil_conv)
      have sp: "set_param name d ps = ps @ [(name, d)]" by (rule set_param_new [OF nin])
      obtain data' r' where d: "cd_add_param data (off_of ps) name d = Some data'"
        "cd_stack data' = Some (map Some (flat (ps @ [(name, d)])) @ r')"
        "cd_size data' = length (flat (ps @ [(name, d)]))" "cd_fixed data' = cd_fixed data"
        "cd_capacity data \<le> cd_capacity data'"
        using add_param_spec [OF name st sz] fits unfolding sp too_large_def by blast
      have "calldata_set_data data name d = Some data'"
        unfolding calldata_set_data_def gp Nil using nn Some d(1) by simp
      then show ?thesis using d good' unfolding sp by (auto simp: cd_rep_def)
    next
      case (Cons q ps2)
      obtain e where q: "q = (name, e)" and ps: "ps = takeWhile (\<lambda>p. fst p \<noteq> name) ps @ (name, e) # ps2"
        using split_first [OF Cons] by metis
      define ps1 where "ps1 = takeWhile (\<lambda>p. fst p \<noteq> name) ps"
      have ps: "ps = ps1 @ (name, e) # ps2" using ps by (simp add: ps1_def)
      have nin: "name \<notin> fst ` set ps1" unfolding ps1_def by (auto dest: set_takeWhileD)
      have sp: "set_param name d ps = ps1 @ (name, d) # ps2" unfolding ps by (rule set_param_first [OF nin])
      have e: "length e < 2 ^ 64" using good by (simp add: good_params_def ps)
      have f: "length d \<le> length e \<or> \<not> (cd_fixed data \<and> cd_capacity data \<le> cd_size data + length d - length e)"
        using fits length_set_existing [of ps1 name d ps2 e] unfolding too_large_def sp sz [unfolded ps] by auto
      obtain data' r' where d: "cd_set_existing data (off_of ps1 + 9 + length name) d = Some data'"
        "cd_stack data' = Some (map Some (flat (ps1 @ (name, d) # ps2)) @ r')"
        "cd_size data' = length (flat (ps1 @ (name, d) # ps2))" "cd_fixed data' = cd_fixed data"
        "cd_capacity data \<le> cd_capacity data'"
        using set_existing_spec [OF e st [unfolded ps] sz [unfolded ps] f] by blast
      have "calldata_set_data data name d = Some data'"
        unfolding calldata_set_data_def gp Cons ps1_def [symmetric] using nn Some d(1) by simp
      then show ?thesis using d good' unfolding sp by (auto simp: cd_rep_def)
    qed
  qed
qed

lemma get_data_spec:
  assumes rep: "cd_rep data ps" and name: "good_name name"
  shows "calldata_get_data data name n =
    Some (case map_of ps name of Some d \<Rightarrow> if length d = n then Some d else None | None \<Rightarrow> None)"
proof -
  have good: "good_params ps" using rep by (simp add: cd_rep_def)
  have nn: "name \<noteq> []" using name by (simp add: good_name_def)
  show ?thesis
  proof (cases "cd_stack data")
    case None
    then show ?thesis using rep nn by (simp add: cd_rep_def calldata_get_data_def cd_getparam_def)
  next
    case (Some b)
    obtain r where st: "cd_stack data = Some (map Some (flat ps) @ r)" and sz: "cd_size data = length (flat ps)"
      using rep Some by (auto simp: cd_rep_def)
    note gp = getparam_spec [OF good name st sz]
    show ?thesis
    proof (cases "dropWhile (\<lambda>p. fst p \<noteq> name) ps")
      case Nil
      then have "map_of ps name = None" by (auto simp: dropWhile_eq_Nil_conv map_of_eq_None_iff)
      then show ?thesis unfolding calldata_get_data_def gp Nil using nn by simp
    next
      case (Cons q ps2)
      obtain e where q: "q = (name, e)" and ps0: "ps = takeWhile (\<lambda>p. fst p \<noteq> name) ps @ (name, e) # ps2"
        using split_first [OF Cons] by metis
      define ps1 where "ps1 = takeWhile (\<lambda>p. fst p \<noteq> name) ps"
      have ps: "ps = ps1 @ (name, e) # ps2" using ps0 by (simp add: ps1_def)
      have nin: "name \<notin> fst ` set ps1" unfolding ps1_def by (auto dest: set_takeWhileD)
      have m: "map_of ps name = Some e" unfolding ps using nin by (simp add: map_add_Some_iff map_of_eq_None_iff)
      have e: "length e < 2 ^ 64" using good by (simp add: good_params_def ps)
      define A where "A = map Some (before_data ps1 name)"
      have lA: "off_of ps1 + 9 + length name = length A" by (simp add: A_def length_before)
      have stk: "cd_stack data = Some (A @ map Some (size_bytes (length e)) @ map Some e @ map Some (flat ps2) @ r)"
        unfolding st ps flat_split by (simp add: A_def)
      have s: "cd_serialize_size (A @ map Some (size_bytes (length e)) @ map Some e @ map Some (flat ps2) @ r)
          (off_of ps1 + 9 + length name) = Some (length e, off_of ps1 + 9 + length name + 8)"
        by (rule serialize_size_mid [OF lA e])
      have rd: "read_bytes (A @ map Some (size_bytes (length e)) @ map Some e @ map Some (flat ps2) @ r)
          (off_of ps1 + 9 + length name + 8) n = Some e" if "length e = n"
        using that read_bytes_mid [of "off_of ps1 + 9 + length name + 8" "A @ map Some (size_bytes (length e))"
            "length e" e "map Some (flat ps2) @ r"] lA by simp
      show ?thesis
      proof (cases "length e = n")
        case True
        have c: "(length e \<noteq> n) = False" using True by simp
        show ?thesis
          unfolding calldata_get_data_def gp Cons ps1_def [symmetric] m stk list.case bind.bind_lunit prod.case s
            option.case c rd [OF True] using nn True by simp
      next
        case False
        then have c: "(length e \<noteq> n) = True" by simp
        show ?thesis
          unfolding calldata_get_data_def gp Cons ps1_def [symmetric] m stk list.case bind.bind_lunit prod.case s
            option.case c using nn False by simp
      qed
    qed
  qed
qed

lemma set_data_full:
  assumes rep: "cd_rep data ps" and name: "good_name name" "length d < 2 ^ 64"
    and full: "too_large data (set_param name d ps)"
  shows "calldata_set_data data name d = Some data \<or>
    (\<exists>data'. calldata_set_data data name d = Some data' \<and> cd_rep data' (set_param name d ps))"
proof -
  have good: "good_params ps" using rep by (simp add: cd_rep_def)
  have good': "good_params (set_param name d ps)" by (rule set_param_good [OF good name])
  have nn: "name \<noteq> []" using name by (simp add: good_name_def)
  have fx: "cd_fixed data" using full by (simp add: too_large_def)
  then obtain r where st: "cd_stack data = Some (map Some (flat ps) @ r)" and sz: "cd_size data = length (flat ps)"
    using rep by (auto simp: cd_rep_def split: if_splits)
  have cap: "cd_capacity data = length (map Some (flat ps) @ r)" by (simp add: cd_capacity_def st)
  note gp = getparam_spec [OF good name(1) st sz]
  show ?thesis
  proof (cases "dropWhile (\<lambda>p. fst p \<noteq> name) ps")
    case Nil
    then have "name \<notin> fst ` set ps" by (auto simp: dropWhile_eq_Nil_conv)
    then have sp: "set_param name d ps = ps @ [(name, d)]" by (rule set_param_new)
    have "length (map Some (flat ps) @ r) \<le> cd_size data + ((length name + 1) + length d + 8 * 2)"
      using full unfolding too_large_def cap sp sz by (simp add: flat_def param_bytes_def)
    then have "cd_add_param data (off_of ps) name d = Some data"
      using ensure_capacity_full [OF st fx] by (simp add: cd_add_param_def Let_def)
    then show ?thesis unfolding calldata_set_data_def gp Nil using nn st by simp
  next
    case (Cons q ps2)
    obtain e where q: "q = (name, e)" and ps0: "ps = takeWhile (\<lambda>p. fst p \<noteq> name) ps @ (name, e) # ps2"
      using split_first [OF Cons] by metis
    define ps1 where "ps1 = takeWhile (\<lambda>p. fst p \<noteq> name) ps"
    have ps: "ps = ps1 @ (name, e) # ps2" using ps0 by (simp add: ps1_def)
    have nin: "name \<notin> fst ` set ps1" unfolding ps1_def by (auto dest: set_takeWhileD)
    have sp: "set_param name d ps = ps1 @ (name, d) # ps2" unfolding ps by (rule set_param_first [OF nin])
    have e: "length e < 2 ^ 64" using good by (simp add: good_params_def ps)
    have cs: "calldata_set_data data name d = cd_set_existing data (off_of ps1 + 9 + length name) d"
      unfolding calldata_set_data_def gp Cons ps1_def [symmetric] using nn st by simp
    show ?thesis
    proof (cases "length d \<le> length e")
      case True
      then obtain data' r' where "cd_set_existing data (off_of ps1 + 9 + length name) d = Some data'"
        "cd_stack data' = Some (map Some (flat (ps1 @ (name, d) # ps2)) @ r')"
        "cd_size data' = length (flat (ps1 @ (name, d) # ps2))"
        using set_existing_spec [OF e st [unfolded ps] sz [unfolded ps]] by blast
      then show ?thesis unfolding cs using good' unfolding sp by (auto simp: cd_rep_def)
    next
      case False
      have le: "length (map Some (flat ps) @ r) \<le> cd_size data + (length d - length e)"
      proof -
        have "length (map Some (flat ps) @ r) \<le> length (flat (ps1 @ (name, d) # ps2))"
          using full unfolding too_large_def cap sp by blast
        also have "... = cd_size data + (length d - length e)"
          using length_set_existing [of ps1 name d ps2 e] False unfolding sz by (simp add: ps)
        finally show ?thesis .
      qed
      have lA: "off_of ps1 + 9 + length name = length (map Some (before_data ps1 name))" by (simp add: length_before)
      have b: "map Some (flat ps) @ r = map Some (before_data ps1 name) @ map Some (size_bytes (length e)) @
          map Some e @ map Some (flat ps2) @ r"
        unfolding ps flat_split by simp
      have s: "cd_serialize_size (map Some (flat ps) @ r) (off_of ps1 + 9 + length name) =
          Some (length e, off_of ps1 + 9 + length name + 8)"
        unfolding b by (rule serialize_size_mid [OF lA e])
      have "cd_set_existing data (off_of ps1 + 9 + length name) d = Some data"
        unfolding cd_set_existing_def st bind.bind_lunit s prod.case Let_def ensure_capacity_full [OF st fx le]
        using False by simp
      then show ?thesis unfolding cs by blast
    qed
  qed
qed

definition set_all :: "calldata \<Rightarrow> params \<Rightarrow> calldata option" where
  "set_all = opt_fold (\<lambda>data (n, d). calldata_set_data data n d)"

lemma set_all_spec:
  assumes "cd_rep data ps" "\<not> cd_fixed data" "\<forall>(n, d) \<in> set ops. good_name n \<and> length d < 2 ^ 64"
  shows "\<exists>data'. set_all data ops = Some data' \<and> cd_rep data' (fold (\<lambda>(n, d). set_param n d) ops ps) \<and>
     \<not> cd_fixed data'"
  using assms
proof (induction ops arbitrary: data ps)
  case (Cons p ops)
  obtain n d where p: "p = (n, d)" by (cases p)
  have "\<not> too_large data (set_param n d ps)" using Cons.prems(2) by (simp add: too_large_def)
  then obtain data1 where "calldata_set_data data n d = Some data1" "cd_rep data1 (set_param n d ps)" "\<not> cd_fixed data1"
    using set_data_spec [OF Cons.prems(1), of n d] Cons.prems(2,3) by (auto simp: p)
  then show ?case using Cons.IH [of data1 "set_param n d ps"] Cons.prems(3) by (auto simp: p set_all_def)
qed (simp add: set_all_def)

lemma fold_set_param_map: "map_of (fold (\<lambda>(n, d). set_param n d) ops ps) = map_of ps ++ map_of (rev ops)"
  by (induction ops arbitrary: ps) (auto simp: set_param_map)

text \<open>C5: Call data is a map from names to values.  After any sequence of sets on fresh call data
(whatever the names, the sizes and their order), getting a name with a size gives the last value set under that
name if it has that size, and fails otherwise; no access ever leaves the block or reads a byte that was not
written.\<close>
theorem calldata_is_a_map:
  assumes "\<forall>(n, d) \<in> set ops. good_name n \<and> length d < 2 ^ 64" "good_name name"
  shows "\<exists>data. set_all calldata_init ops = Some data \<and>
     calldata_get_data data name n =
       Some (case map_of (rev ops) name of Some d \<Rightarrow> if length d = n then Some d else None | None \<Rightarrow> None)"
proof -
  have "cd_rep calldata_init []" by (simp add: cd_rep_def calldata_init_def good_params_def)
  moreover have "\<not> cd_fixed calldata_init" by (simp add: calldata_init_def)
  ultimately obtain data where data: "set_all calldata_init ops = Some data"
    "cd_rep data (fold (\<lambda>(n, d). set_param n d) ops [])"
    using set_all_spec [of calldata_init "[]" ops] assms(1) by blast
  have m: "map_of (fold (\<lambda>(n, d). set_param n d) ops []) name = map_of (rev ops) name"
    by (simp add: fold_set_param_map)
  show ?thesis
    using get_data_spec [OF data(2) assms(2), of n] data(1) unfolding m by blast
qed

definition wit_sets :: params where
  "wit_sets = [([105], [1, 2, 3, 4]), ([115, 116], [7]), ([105], [5, 6, 7, 8, 9, 10]), ([115, 116], [])]"

lemma calldata_is_a_map_witness:
  "\<exists>data. set_all calldata_init wit_sets = Some data \<and> calldata_get_data data [105] 6 = Some (Some [5, 6, 7, 8, 9, 10])"
proof -
  have "\<forall>(n, d) \<in> set wit_sets. good_name n \<and> length d < 2 ^ 64"
    by (simp add: wit_sets_def good_name_def)
  moreover have "good_name [105]" by (simp add: good_name_def)
  moreover have "map_of (rev wit_sets) [105] = Some [5, 6, 7, 8, 9, 10]" by (simp add: wit_sets_def)
  ultimately show ?thesis using calldata_is_a_map [of wit_sets "[105]" 6] by simp
qed

text \<open>A set on a caller's own block stays in the block.  On fixed call data a set either succeeds or,
when the parameters would not fit, changes nothing at all.\<close>
theorem fixed_set_all_or_nothing:
  assumes "cd_rep data ps" "good_name name" "length d < 2 ^ 64" "cd_fixed data"
  shows "\<exists>data'. calldata_set_data data name d = Some data' \<and>
     (cd_rep data' (set_param name d ps) \<or> data' = data \<and> cd_capacity data \<le> length (flat (set_param name d ps)))"
  using set_data_spec [OF assms(1-3)] set_data_full [OF assms(1-3)] assms(4)
  unfolding too_large_def by blast

lemma fixed_set_all_or_nothing_witness:
  "\<exists>data'. calldata_set_data \<lparr>cd_stack = Some (map Some (size_bytes 0) @ replicate 30 None), cd_size = 8, cd_fixed = True\<rparr>
      [97] [1, 2, 3] = Some data' \<and>
     (cd_rep data' [([97], [1, 2, 3])] \<or>
      data' = \<lparr>cd_stack = Some (map Some (size_bytes 0) @ replicate 30 None), cd_size = 8, cd_fixed = True\<rparr> \<and>
      38 \<le> length (flat [([97], [1, 2, 3])]))"
  using fixed_set_all_or_nothing [of
      "\<lparr>cd_stack = Some (map Some (size_bytes 0) @ replicate 30 None), cd_size = 8, cd_fixed = True\<rparr>" "[]" "[97]" "[1, 2, 3]"]
  by (simp add: cd_rep_def good_params_def flat_def good_name_def cd_capacity_def)

text \<open>Getting a string does not look at the type.  For any parameter with data, set as a number or
anything else, \<^verbatim>\<open>calldata_get_string\<close> succeeds with a pointer to its bytes, though the header says that
the get functions return true only for a parameter of the same type.\<close>
theorem get_string_any_type:
  assumes "cd_rep data ps" "good_name name" "map_of ps name = Some d" "d \<noteq> []"
  shows "\<exists>p b. calldata_get_string data name = Some (Some (Some p)) \<and> cd_stack data = Some b \<and>
     read_bytes b p (length d) = Some d"
proof -
  have good: "good_params ps" using assms(1) by (simp add: cd_rep_def)
  have nn: "name \<noteq> []" using assms(2) by (simp add: good_name_def)
  have "ps \<noteq> []" using assms(3) by auto
  then obtain r where st: "cd_stack data = Some (map Some (flat ps) @ r)" and sz: "cd_size data = length (flat ps)"
    using assms(1) by (auto simp: cd_rep_def split: if_splits)
  note gp = getparam_spec [OF good assms(2) st sz]
  have "dropWhile (\<lambda>p. fst p \<noteq> name) ps \<noteq> []"
    using map_of_SomeD [OF assms(3)] unfolding dropWhile_eq_Nil_conv by force
  then obtain q ps2 where Cons: "dropWhile (\<lambda>p. fst p \<noteq> name) ps = q # ps2" by (meson neq_Nil_conv)
  obtain e where q: "q = (name, e)" and ps0: "ps = takeWhile (\<lambda>p. fst p \<noteq> name) ps @ (name, e) # ps2"
    using split_first [OF Cons] by metis
  define ps1 where "ps1 = takeWhile (\<lambda>p. fst p \<noteq> name) ps"
  have ps: "ps = ps1 @ (name, e) # ps2" using ps0 by (simp add: ps1_def)
  have nin: "name \<notin> fst ` set ps1" unfolding ps1_def by (auto dest: set_takeWhileD)
  have "map_of ps name = Some e" unfolding ps using nin by (simp add: map_add_Some_iff map_of_eq_None_iff)
  then have ed: "e = d" using assms(3) by simp
  have e: "length d < 2 ^ 64" using good by (simp add: good_params_def ps ed)
  let ?A = "map Some (before_data ps1 name)"
  have lA: "off_of ps1 + 9 + length name = length ?A" by (simp add: length_before)
  have b: "map Some (flat ps) @ r = ?A @ map Some (size_bytes (length d)) @ map Some d @ map Some (flat ps2) @ r"
    unfolding ps ed flat_split by simp
  have s: "cd_serialize_size (map Some (flat ps) @ r) (off_of ps1 + 9 + length name) =
      Some (length d, off_of ps1 + 9 + length name + 8)"
    unfolding b by (rule serialize_size_mid [OF lA e])
  have rd: "read_bytes (map Some (flat ps) @ r) (off_of ps1 + 9 + length name + 8) (length d) = Some d"
    unfolding b using read_bytes_mid [of "off_of ps1 + 9 + length name + 8" "?A @ map Some (size_bytes (length d))"
        "length d" d "map Some (flat ps2) @ r"] lA by simp
  have ld: "length d \<noteq> 0" using assms(4) by simp
  have "calldata_get_string data name = Some (Some (Some (off_of ps1 + 9 + length name + 8)))"
    unfolding calldata_get_string_def gp Cons ps1_def [symmetric] list.case bind.bind_lunit prod.case st
      cd_serialize_string_def s option.map using nn ld by simp
  then show ?thesis using st rd by blast
qed

lemma get_string_any_type_witness:
  "\<exists>p b. calldata_get_string \<lparr>cd_stack = Some (map Some (flat [([105], [1, 2, 3, 4, 5, 6, 7, 8])])),
       cd_size = 34, cd_fixed = False\<rparr> [105] = Some (Some (Some p))"
proof -
  have "cd_rep \<lparr>cd_stack = Some (map Some (flat [([105], [1, 2, 3, 4, 5, 6, 7, 8])])),
       cd_size = 34, cd_fixed = False\<rparr> [([105], [1, 2, 3, 4, 5, 6, 7, 8])]"
    by (simp add: cd_rep_def good_params_def good_name_def flat_def param_bytes_def)
  then show ?thesis
    using get_string_any_type [of "\<lparr>cd_stack = Some (map Some (flat [([105], [1, 2, 3, 4, 5, 6, 7, 8])])),
       cd_size = 34, cd_fixed = False\<rparr>" "[([105], [1, 2, 3, 4, 5, 6, 7, 8])]" "[105]" "[1, 2, 3, 4, 5, 6, 7, 8]"]
    by (auto simp: good_name_def)
qed

end
