(* ===== verification/Signal.thy ===== *)
theory Signal
  imports Obs_Prelude "HOL-Library.Sublist"
begin

text \<open>
  Signals and procedures (\<^verbatim>\<open>src/libobs/callback/signal.c\<close>,
  \<^verbatim>\<open>proc.c\<close>): connecting and disconnecting callbacks, delivering a signal, and what
  a callback may do to the handler while the signal is being delivered.

  The handler is one value; a \<^verbatim>\<open>struct signal_info\<close> is known by its place in the list
  of the handler, which only grows.  An array of callbacks is its items, its capacity and the number
  of its memory block: the array moves to a new block when it grows, so that a pointer to an element
  is a block number and an index.  Writing through a pointer into a block that was freed, and using
  a handler that was destroyed, is \<open>None\<close>.

  The code of the callbacks is a parameter.  \<open>beh c d k w\<close> is what callback \<open>c\<close> with
  data \<open>d\<close> does in its step \<open>k\<close> when the rest of the program (the parameters of the
  signal included) is in state \<open>w\<close>: the new state, and a call of this component or a return.

  The mutexes make the operations of several threads on one signal exclude each other; the model is
  of one thread at a time.  The two \<^verbatim>\<open>THREAD_LOCAL\<close> pointers are in the state.
  Declarations are parsed elsewhere (\<^verbatim>\<open>decl.c\<close>): here a declaration is its name, or
  \<open>None\<close> when it does not parse.
\<close>

subsection \<open>Arrays of callbacks\<close>

record 'a vec =
  items :: "'a list"
  capacity :: nat
  block :: nat

definition vec_empty :: "'a vec" where
  "vec_empty = \<lparr>items = [], capacity = 0, block = 0\<rparr>"

definition vec_push :: "nat \<Rightarrow> 'a vec \<Rightarrow> 'a \<Rightarrow> 'a vec" where
  "vec_push fresh v x =
     (let n = length (items v) + 1 in
      if n \<le> capacity v then v\<lparr>items := items v @ [x]\<rparr>
      else \<lparr>items = items v @ [x], capacity = max n (if capacity v = 0 then n else capacity v * 2),
            block = fresh\<rparr>)"

definition vec_erase :: "'a vec \<Rightarrow> nat \<Rightarrow> 'a vec" where
  "vec_erase v i = v\<lparr>items := take i (items v) @ drop (Suc i) (items v)\<rparr>"

text \<open>Writing an element through a pointer to it.\<close>

definition vec_update :: "'a vec \<Rightarrow> nat \<times> nat \<Rightarrow> ('a \<Rightarrow> 'a) \<Rightarrow> 'a vec option" where
  "vec_update v p f =
     (if fst p \<noteq> block v then None
      else if snd p < length (items v) then Some (v\<lparr>items := (items v)[snd p := f (items v ! snd p)]\<rparr>)
      else Some v)"

fun find_idx :: "('a \<Rightarrow> bool) \<Rightarrow> 'a list \<Rightarrow> nat option" where
  "find_idx P [] = None"
| "find_idx P (x # xs) = (if P x then Some 0 else map_option Suc (find_idx P xs))"

subsection \<open>The handler\<close>

record signal_callback =
  sc_callback :: nat
  sc_data :: nat
  sc_remove :: bool
  sc_keep_ref :: bool

record signal_info =
  si_name :: string
  si_callbacks :: "signal_callback vec"
  si_signalling :: bool

record global_callback_info =
  gc_callback :: nat
  gc_data :: nat
  gc_signaling :: int
  gc_remove :: bool

text \<open>
  \<open>sh_alive\<close> holds until the memory of the handler is freed.  \<open>sh_calls\<close> is the
  sequence of the calls made, with \<open>Inl\<close> for a callback of a signal and \<open>Inr\<close> for a
  global one.
\<close>

record 'w signal_handler =
  sh_signals :: "signal_info list"
  sh_refs :: int
  sh_globals :: "global_callback_info vec"
  sh_alive :: bool
  sh_fresh :: nat
  current_signal_cb :: "(nat \<times> nat \<times> nat) option"
  current_global_cb :: "(nat \<times> nat) option"
  sh_calls :: "(signal_callback + nat \<times> nat) list"
  sh_world :: 'w

definition signal_info_create :: "string \<Rightarrow> signal_info" where
  "signal_info_create name = \<lparr>si_name = name, si_callbacks = vec_empty, si_signalling = False\<rparr>"

definition signal_get_callback_idx :: "signal_info \<Rightarrow> nat \<Rightarrow> nat \<Rightarrow> nat option" where
  "signal_get_callback_idx si cb d =
     find_idx (\<lambda>sc. sc_callback sc = cb \<and> sc_data sc = d) (items (si_callbacks si))"

definition getsignal :: "'w signal_handler \<Rightarrow> string \<Rightarrow> nat option" where
  "getsignal h name = find_idx (\<lambda>si. si_name si = name) (sh_signals h)"

definition signal_handler_create :: "'w \<Rightarrow> 'w signal_handler" where
  "signal_handler_create w =
     \<lparr>sh_signals = [], sh_refs = 1, sh_globals = vec_empty, sh_alive = True, sh_fresh = 1,
      current_signal_cb = None, current_global_cb = None, sh_calls = [], sh_world = w\<rparr>"

definition dec_refs :: "'w signal_handler \<Rightarrow> 'w signal_handler" where
  "dec_refs h = (let refs = sh_refs h - 1 in h\<lparr>sh_refs := refs, sh_alive := (refs \<noteq> 0)\<rparr>)"

definition signal_handler_destroy :: "'w signal_handler \<Rightarrow> 'w signal_handler" where
  "signal_handler_destroy h = dec_refs h"

definition signal_handler_add :: "'w signal_handler \<Rightarrow> string option \<Rightarrow> bool \<times> 'w signal_handler" where
  "signal_handler_add h signal_decl =
     (case signal_decl of
        None \<Rightarrow> (False, h)
      | Some name \<Rightarrow>
          (case getsignal h name of
             Some _ \<Rightarrow> (False, h)
           | None \<Rightarrow> (True, h\<lparr>sh_signals := sh_signals h @ [signal_info_create name]\<rparr>)))"

definition update_signal :: "nat \<Rightarrow> (signal_info \<Rightarrow> signal_info) \<Rightarrow> 'w signal_handler \<Rightarrow> 'w signal_handler" where
  "update_signal k f h = h\<lparr>sh_signals := (sh_signals h)[k := f (sh_signals h ! k)]\<rparr>"

definition signal_handler_connect_internal ::
    "string \<Rightarrow> nat \<Rightarrow> nat \<Rightarrow> bool \<Rightarrow> 'w signal_handler \<Rightarrow> 'w signal_handler" where
  "signal_handler_connect_internal name cb d keep_ref h =
     (case getsignal h name of
        None \<Rightarrow> h
      | Some k \<Rightarrow>
          (let h = (if keep_ref then h\<lparr>sh_refs := sh_refs h + 1\<rparr> else h);
               idx = signal_get_callback_idx (sh_signals h ! k) cb d;
               cb_data = \<lparr>sc_callback = cb, sc_data = d, sc_remove = False, sc_keep_ref = keep_ref\<rparr> in
           if keep_ref \<or> idx = None then
             update_signal k (\<lambda>si. si\<lparr>si_callbacks := vec_push (sh_fresh h) (si_callbacks si) cb_data\<rparr>)
               (h\<lparr>sh_fresh := sh_fresh h + 1\<rparr>)
           else h))"

definition signal_handler_connect where
  "signal_handler_connect name cb d h = signal_handler_connect_internal name cb d False h"

definition signal_handler_connect_ref where
  "signal_handler_connect_ref name cb d h = signal_handler_connect_internal name cb d True h"

definition signal_handler_disconnect ::
    "string \<Rightarrow> nat \<Rightarrow> nat \<Rightarrow> 'w signal_handler \<Rightarrow> 'w signal_handler" where
  "signal_handler_disconnect name cb d h =
     (case getsignal h name of
        None \<Rightarrow> h
      | Some k \<Rightarrow>
          (let sig = sh_signals h ! k in
           case signal_get_callback_idx sig cb d of
             None \<Rightarrow> h
           | Some idx \<Rightarrow>
               if si_signalling sig then
                 update_signal k (\<lambda>si. si\<lparr>si_callbacks := (si_callbacks si)
                   \<lparr>items := (items (si_callbacks si))[idx := (items (si_callbacks si) ! idx)\<lparr>sc_remove := True\<rparr>]\<rparr>\<rparr>) h
               else
                 (let keep_ref = sc_keep_ref (items (si_callbacks sig) ! idx);
                      h = update_signal k (\<lambda>si. si\<lparr>si_callbacks := vec_erase (si_callbacks si) idx\<rparr>) h in
                  if keep_ref then dec_refs h else h)))"

definition signal_handler_remove_current :: "'w signal_handler \<Rightarrow> 'w signal_handler option" where
  "signal_handler_remove_current h =
     (case current_signal_cb h of
        Some (k, p) \<Rightarrow>
          map_option (\<lambda>v. update_signal k (\<lambda>si. si\<lparr>si_callbacks := v\<rparr>) h)
            (vec_update (si_callbacks (sh_signals h ! k)) p (\<lambda>sc. sc\<lparr>sc_remove := True\<rparr>))
      | None \<Rightarrow>
          (case current_global_cb h of
             Some p \<Rightarrow> map_option (\<lambda>v. h\<lparr>sh_globals := v\<rparr>)
               (vec_update (sh_globals h) p (\<lambda>gc. gc\<lparr>gc_remove := True\<rparr>))
           | None \<Rightarrow> Some h))"

text \<open>\<^verbatim>\<open>da_find\<close> compares whole elements, byte by byte (padding is zero).\<close>

definition find_global :: "'w signal_handler \<Rightarrow> nat \<Rightarrow> nat \<Rightarrow> nat option" where
  "find_global h cb d =
     find_idx (\<lambda>g. g = \<lparr>gc_callback = cb, gc_data = d, gc_signaling = 0, gc_remove = False\<rparr>)
       (items (sh_globals h))"

definition signal_handler_connect_global :: "nat \<Rightarrow> nat \<Rightarrow> 'w signal_handler \<Rightarrow> 'w signal_handler" where
  "signal_handler_connect_global cb d h =
     (if find_global h cb d = None then
        h\<lparr>sh_globals := vec_push (sh_fresh h) (sh_globals h)
            \<lparr>gc_callback = cb, gc_data = d, gc_signaling = 0, gc_remove = False\<rparr>,
          sh_fresh := sh_fresh h + 1\<rparr>
      else h)"

definition signal_handler_disconnect_global :: "nat \<Rightarrow> nat \<Rightarrow> 'w signal_handler \<Rightarrow> 'w signal_handler" where
  "signal_handler_disconnect_global cb d h =
     (case find_global h cb d of
        None \<Rightarrow> h
      | Some idx \<Rightarrow>
          (let g = items (sh_globals h) ! idx in
           if gc_signaling g \<noteq> 0 then
             h\<lparr>sh_globals := (sh_globals h)\<lparr>items := (items (sh_globals h))[idx := g\<lparr>gc_remove := True\<rparr>]\<rparr>\<rparr>
           else h\<lparr>sh_globals := vec_erase (sh_globals h) idx\<rparr>))"

subsection \<open>Delivery\<close>

datatype action =
    Connect string nat nat
  | ConnectRef string nat nat
  | Disconnect string nat nat
  | ConnectGlobal nat nat
  | DisconnectGlobal nat nat
  | RemoveCurrent
  | Emit string
  | Destroy

type_synonym 'w behaviour = "nat \<Rightarrow> nat \<Rightarrow> nat \<Rightarrow> 'w \<Rightarrow> 'w \<times> action option"

text \<open>The loops that erase the marked callbacks, from the last to the first.\<close>

fun erase_removed :: "nat \<Rightarrow> signal_callback vec \<Rightarrow> nat \<Rightarrow> signal_callback vec \<times> nat" where
  "erase_removed 0 v remove_refs = (v, remove_refs)"
| "erase_removed (Suc i) v remove_refs =
     (let cb = items v ! i in
      if sc_remove cb then
        erase_removed i (vec_erase v i) (if sc_keep_ref cb then remove_refs + 1 else remove_refs)
      else erase_removed i v remove_refs)"

fun erase_removed_globals :: "nat \<Rightarrow> global_callback_info vec \<Rightarrow> global_callback_info vec" where
  "erase_removed_globals 0 v = v"
| "erase_removed_globals (Suc i) v =
     (let cb = items v ! i in
      if gc_remove cb \<and> gc_signaling cb = 0 then erase_removed_globals i (vec_erase v i)
      else erase_removed_globals i v)"

definition set_signalling :: "nat \<Rightarrow> bool \<Rightarrow> 'w signal_handler \<Rightarrow> 'w signal_handler" where
  "set_signalling k b = update_signal k (\<lambda>si. si\<lparr>si_signalling := b\<rparr>)"

definition finish_signal :: "nat \<Rightarrow> 'w signal_handler \<Rightarrow> nat \<times> 'w signal_handler" where
  "finish_signal k h =
     (let v = si_callbacks (sh_signals h ! k);
          (v, remove_refs) = erase_removed (length (items v)) v 0 in
      (remove_refs, set_signalling k False (update_signal k (\<lambda>si. si\<lparr>si_callbacks := v\<rparr>) h)))"

text \<open>
  \<open>None\<close> is undefined behaviour and \<open>Some None\<close> means that the fuel did not suffice:
  it bounds the steps of one callback, the rounds of one loop and the nesting of signals.
  \<open>emit\<close> is the delivery of a nested signal.
\<close>

definition then_do :: "'s option option \<Rightarrow> ('s \<Rightarrow> 's option option) \<Rightarrow> 's option option" where
  "then_do r f = (case r of None \<Rightarrow> None | Some None \<Rightarrow> Some None | Some (Some s) \<Rightarrow> f s)"

type_synonym 'w emit = "string \<Rightarrow> 'w signal_handler \<Rightarrow> 'w signal_handler option option"

definition do_action :: "'w emit \<Rightarrow> action \<Rightarrow> 'w signal_handler \<Rightarrow> 'w signal_handler option option" where
  "do_action emit a h =
     (if \<not> sh_alive h then None
      else case a of
        Connect s c d \<Rightarrow> Some (Some (signal_handler_connect s c d h))
      | ConnectRef s c d \<Rightarrow> Some (Some (signal_handler_connect_ref s c d h))
      | Disconnect s c d \<Rightarrow> Some (Some (signal_handler_disconnect s c d h))
      | ConnectGlobal c d \<Rightarrow> Some (Some (signal_handler_connect_global c d h))
      | DisconnectGlobal c d \<Rightarrow> Some (Some (signal_handler_disconnect_global c d h))
      | RemoveCurrent \<Rightarrow> map_option Some (signal_handler_remove_current h)
      | Emit s \<Rightarrow> emit s h
      | Destroy \<Rightarrow> Some (Some (signal_handler_destroy h)))"

fun run_callback ::
    "'w emit \<Rightarrow> 'w behaviour \<Rightarrow> nat \<Rightarrow> nat \<Rightarrow> nat \<Rightarrow> nat \<Rightarrow> 'w signal_handler \<Rightarrow> 'w signal_handler option option" where
  "run_callback emit beh c d 0 k h = Some None"
| "run_callback emit beh c d (Suc n) k h =
     (case beh c d k (sh_world h) of
        (w, None) \<Rightarrow> Some (Some (h\<lparr>sh_world := w\<rparr>))
      | (w, Some a) \<Rightarrow>
          then_do (do_action emit a (h\<lparr>sh_world := w\<rparr>)) (run_callback emit beh c d n (Suc k)))"

definition call_signal_cb ::
    "'w emit \<Rightarrow> 'w behaviour \<Rightarrow> nat \<Rightarrow> nat \<Rightarrow> nat \<Rightarrow> 'w signal_handler \<Rightarrow> 'w signal_handler option option" where
  "call_signal_cb emit beh n k i h =
     (let v = si_callbacks (sh_signals h ! k); cb = items v ! i in
      if sc_remove cb then Some (Some h)
      else then_do (run_callback emit beh (sc_callback cb) (sc_data cb) n 0
                      (h\<lparr>current_signal_cb := Some (k, block v, i), sh_calls := sh_calls h @ [Inl cb]\<rparr>))
             (\<lambda>h. if \<not> sh_alive h then None else Some (Some (h\<lparr>current_signal_cb := None\<rparr>))))"

fun signal_loop ::
    "'w emit \<Rightarrow> 'w behaviour \<Rightarrow> nat \<Rightarrow> nat \<Rightarrow> nat \<Rightarrow> 'w signal_handler \<Rightarrow> 'w signal_handler option option" where
  "signal_loop emit beh 0 k i h = Some None"
| "signal_loop emit beh (Suc n) k i h =
     (if i < length (items (si_callbacks (sh_signals h ! k)))
      then then_do (call_signal_cb emit beh n k i h) (signal_loop emit beh n k (Suc i))
      else Some (Some h))"

definition call_global_cb ::
    "'w emit \<Rightarrow> 'w behaviour \<Rightarrow> nat \<Rightarrow> nat \<Rightarrow> 'w signal_handler \<Rightarrow> 'w signal_handler option option" where
  "call_global_cb emit beh n i h =
     (let v = sh_globals h; cb = items v ! i; p = (block v, i) in
      if gc_remove cb then Some (Some h)
      else then_do (run_callback emit beh (gc_callback cb) (gc_data cb) n 0
                      (h\<lparr>sh_globals := v\<lparr>items := (items v)[i := cb\<lparr>gc_signaling := gc_signaling cb + 1\<rparr>]\<rparr>,
                         current_global_cb := Some p,
                         sh_calls := sh_calls h @ [Inr (gc_callback cb, gc_data cb)]\<rparr>))
             (\<lambda>h. if \<not> sh_alive h then None
                  else map_option (\<lambda>v. Some (h\<lparr>current_global_cb := None, sh_globals := v\<rparr>))
                    (vec_update (sh_globals h) p (\<lambda>gc. gc\<lparr>gc_signaling := gc_signaling gc - 1\<rparr>))))"

fun global_loop ::
    "'w emit \<Rightarrow> 'w behaviour \<Rightarrow> nat \<Rightarrow> nat \<Rightarrow> 'w signal_handler \<Rightarrow> 'w signal_handler option option" where
  "global_loop emit beh 0 i h = Some None"
| "global_loop emit beh (Suc n) i h =
     (if i < length (items (sh_globals h))
      then then_do (call_global_cb emit beh n i h) (global_loop emit beh n (Suc i))
      else Some (Some h))"

definition signal_globals ::
    "'w emit \<Rightarrow> 'w behaviour \<Rightarrow> nat \<Rightarrow> 'w signal_handler \<Rightarrow> 'w signal_handler option option" where
  "signal_globals emit beh n h =
     (if items (sh_globals h) \<noteq> [] then
        then_do (global_loop emit beh n 0 h)
          (\<lambda>h. Some (Some (h\<lparr>sh_globals :=
             erase_removed_globals (length (items (sh_globals h))) (sh_globals h)\<rparr>)))
      else Some (Some h))"

definition signal_body ::
    "'w emit \<Rightarrow> 'w behaviour \<Rightarrow> nat \<Rightarrow> string \<Rightarrow> 'w signal_handler \<Rightarrow> 'w signal_handler option option" where
  "signal_body emit beh n name h =
     (case getsignal h name of
        None \<Rightarrow> Some (Some h)
      | Some k \<Rightarrow>
          then_do (signal_loop emit beh n k 0 (set_signalling k True h))
            (\<lambda>h. let (remove_refs, h) = finish_signal k h in
               then_do (signal_globals emit beh n h)
                 (\<lambda>h. Some (Some (if remove_refs \<noteq> 0 then h\<lparr>sh_refs := sh_refs h - int remove_refs\<rparr> else h)))))"

fun signal_handler_signal ::
    "'w behaviour \<Rightarrow> nat \<Rightarrow> string \<Rightarrow> 'w signal_handler \<Rightarrow> 'w signal_handler option option" where
  "signal_handler_signal beh 0 name h = Some None"
| "signal_handler_signal beh (Suc n) name h = signal_body (signal_handler_signal beh n) beh n name h"

subsection \<open>Procedures\<close>

record proc_info =
  pi_name :: string
  pi_callback :: nat
  pi_data :: nat

definition getproc :: "proc_info list \<Rightarrow> string \<Rightarrow> proc_info option" where
  "getproc procs name = List.find (\<lambda>p. pi_name p = name) procs"

definition proc_handler_create :: "proc_info list" where "proc_handler_create = []"

definition proc_handler_add :: "proc_info list \<Rightarrow> string option \<Rightarrow> nat \<Rightarrow> nat \<Rightarrow> proc_info list" where
  "proc_handler_add procs decl_string proc d =
     (case decl_string of
        None \<Rightarrow> procs
      | Some name \<Rightarrow>
          (case getproc procs name of
             Some _ \<Rightarrow> procs
           | None \<Rightarrow> procs @ [\<lparr>pi_name = name, pi_callback = proc, pi_data = d\<rparr>]))"

text \<open>The effect of the procedure on the rest of the program is \<open>call\<close>.\<close>

definition proc_handler_call ::
    "(nat \<Rightarrow> nat \<Rightarrow> 'w \<Rightarrow> 'w) \<Rightarrow> proc_info list \<Rightarrow> string \<Rightarrow> 'w \<Rightarrow> bool \<times> 'w" where
  "proc_handler_call call procs name w =
     (case getproc procs name of
        None \<Rightarrow> (False, w)
      | Some info \<Rightarrow> (True, call (pi_callback info) (pi_data info) w))"

subsection \<open>Searching and erasing\<close>

lemma find_idx_Some: "find_idx P xs = Some i \<Longrightarrow> i < length xs \<and> P (xs ! i)"
  by (induction xs arbitrary: i) (auto split: if_splits)

lemma find_idx_None: "find_idx P xs = None \<longleftrightarrow> (\<forall>x \<in> set xs. \<not> P x)"
  by (induction xs) auto

lemma find_idx_nth: "find_idx P xs = Some i \<Longrightarrow> List.find P xs = Some (xs ! i)"
  by (induction xs arbitrary: i) (auto split: if_splits)

lemma getsignal_bound: "getsignal h name = Some k \<Longrightarrow> k < length (sh_signals h)"
  unfolding getsignal_def by (blast dest: find_idx_Some)

lemma erase_removed_spec:
  "n \<le> length (items v) \<Longrightarrow>
   erase_removed n v r =
     (v\<lparr>items := filter (\<lambda>c. \<not> sc_remove c) (take n (items v)) @ drop n (items v)\<rparr>,
      r + length (filter (\<lambda>c. sc_remove c \<and> sc_keep_ref c) (take n (items v))))"
proof (induction n arbitrary: v r)
  case (Suc n)
  let ?x = "items v ! n"
  have t: "take (Suc n) (items v) = take n (items v) @ [?x]" using Suc.prems by (simp add: take_Suc_conv_app_nth)
  have d: "drop n (items v) = ?x # drop (Suc n) (items v)" using Suc.prems by (simp add: Cons_nth_drop_Suc)
  show ?case
  proof (cases "sc_remove ?x")
    case True
    let ?v = "vec_erase v n"
    have e: "items ?v = take n (items v) @ drop (Suc n) (items v)" by (simp add: vec_erase_def)
    have "n \<le> length (items ?v)" using Suc.prems by (simp add: e)
    moreover have "take n (items ?v) = take n (items v)" "drop n (items ?v) = drop (Suc n) (items v)"
      using Suc.prems by (simp_all add: e)
    moreover have "?v\<lparr>items := xs\<rparr> = v\<lparr>items := xs\<rparr>" for xs by (simp add: vec_erase_def)
    ultimately show ?thesis using Suc.IH [of ?v] True by (simp add: t Let_def)
  next
    case False
    then show ?thesis using Suc.IH [of v r] Suc.prems by (simp add: t d Let_def)
  qed
qed simp

lemma erase_removed_all:
  "erase_removed (length (items v)) v 0 =
     (v\<lparr>items := filter (\<lambda>c. \<not> sc_remove c) (items v)\<rparr>,
      length (filter (\<lambda>c. sc_remove c \<and> sc_keep_ref c) (items v)))"
  by (simp add: erase_removed_spec)

lemma erase_removed_globals_block: "block (erase_removed_globals n v) = block v"
  by (induction n arbitrary: v) (auto simp: vec_erase_def Let_def)

lemma vec_update_block: "vec_update v p f = Some v' \<Longrightarrow> block v' = block v"
  by (auto simp: vec_update_def split: if_splits)

subsection \<open>References held by callbacks\<close>

text \<open>
  \<open>kept\<close> counts the callbacks that hold a reference to the handler and \<open>owned\<close> is what
  remains: the references of those who created the handler.
\<close>

definition cnt :: "signal_info \<Rightarrow> int" where
  "cnt si = int (length (filter sc_keep_ref (items (si_callbacks si))))"

definition kept :: "'w signal_handler \<Rightarrow> int" where
  "kept h = sum_list (map cnt (sh_signals h))"

definition owned :: "'w signal_handler \<Rightarrow> int" where "owned h = sh_refs h - kept h"

definition blocks :: "'w signal_handler \<Rightarrow> nat list" where
  "blocks h = map (\<lambda>si. block (si_callbacks si)) (sh_signals h)"

named_theorems sig_simps \<open>fields of the handler after an operation\<close>

lemma update_signal_fields [sig_simps]:
  "sh_refs (update_signal k f h) = sh_refs h" "sh_globals (update_signal k f h) = sh_globals h"
  "sh_alive (update_signal k f h) = sh_alive h" "current_signal_cb (update_signal k f h) = current_signal_cb h"
  "current_global_cb (update_signal k f h) = current_global_cb h" "sh_calls (update_signal k f h) = sh_calls h"
  "sh_world (update_signal k f h) = sh_world h" "sh_fresh (update_signal k f h) = sh_fresh h"
  "length (sh_signals (update_signal k f h)) = length (sh_signals h)"
  "sh_signals (update_signal k f h) = (sh_signals h)[k := f (sh_signals h ! k)]"
  by (simp_all add: update_signal_def)

lemma sum_list_int_update:
  "k < length xs \<Longrightarrow> sum_list (map g (xs[k := y])) = sum_list (map g xs) - g (xs ! k) + (g y :: int)"
  by (induction xs arbitrary: k) (auto split: nat.split)

lemma kept_update:
  "k < length (sh_signals h) \<Longrightarrow>
     kept (update_signal k f h) = kept h - cnt (sh_signals h ! k) + cnt (f (sh_signals h ! k))"
  by (simp add: kept_def update_signal_def sum_list_int_update)

lemma owned_update:
  "k < length (sh_signals h) \<Longrightarrow>
     owned (update_signal k f h) = owned h + cnt (sh_signals h ! k) - cnt (f (sh_signals h ! k))"
  by (simp add: owned_def kept_update sig_simps)

lemma blocks_update:
  "block (si_callbacks (f (sh_signals h ! k))) = block (si_callbacks (sh_signals h ! k)) \<Longrightarrow>
     blocks (update_signal k f h) = blocks h"
  by (cases "k < length (sh_signals h)")
    (simp_all add: blocks_def update_signal_def map_update list_update_same_conv list_update_beyond)

lemma cnt_push: "cnt (si\<lparr>si_callbacks := vec_push b (si_callbacks si) c\<rparr>) = cnt si + (if sc_keep_ref c then 1 else 0)"
  by (simp add: cnt_def vec_push_def Let_def)

lemma filter_erase:
  "i < length xs \<Longrightarrow>
     int (length (filter P (take i xs @ drop (Suc i) xs))) = int (length (filter P xs)) - (if P (xs ! i) then 1 else 0)"
  by (subst (3) id_take_nth_drop [of i xs]) auto

lemma cnt_erase:
  "i < length (items (si_callbacks si)) \<Longrightarrow>
     cnt (si\<lparr>si_callbacks := vec_erase (si_callbacks si) i\<rparr>) =
       cnt si - (if sc_keep_ref (items (si_callbacks si) ! i) then 1 else 0)"
  using filter_erase [of i "items (si_callbacks si)" sc_keep_ref] by (simp add: cnt_def vec_erase_def)

lemma filter_mark: "length (filter sc_keep_ref (xs[i := (xs ! i)\<lparr>sc_remove := b\<rparr>])) = length (filter sc_keep_ref xs)"
  by (induction xs arbitrary: i) (auto split: nat.split)

lemma filter_removed:
  "length (filter sc_keep_ref (filter (\<lambda>c. \<not> sc_remove c) xs)) + length (filter (\<lambda>c. sc_remove c \<and> sc_keep_ref c) xs) =
     length (filter sc_keep_ref xs)"
  by (induction xs) auto

subsection \<open>What a callback may do safely\<close>

text \<open>
  Two kinds of callbacks keep every pointer valid: those that connect but never ask for the removal
  of the current callback (\<open>b\<close> false), and those that may ask for it but never connect
  (\<open>b\<close> true).  Neither destroys the handler or connects global callbacks.
\<close>

fun permitted :: "bool \<Rightarrow> action \<Rightarrow> bool" where
  "permitted b (Connect s c d) = (\<not> b)"
| "permitted b (ConnectRef s c d) = (\<not> b)"
| "permitted b (Disconnect s c d) = True"
| "permitted b (ConnectGlobal c d) = False"
| "permitted b (DisconnectGlobal c d) = True"
| "permitted b RemoveCurrent = b"
| "permitted b (Emit s) = True"
| "permitted b Destroy = False"

definition pointers_ok :: "'w signal_handler \<Rightarrow> bool" where
  "pointers_ok h \<longleftrightarrow>
     (case current_signal_cb h of None \<Rightarrow> True
      | Some (k, p) \<Rightarrow> k < length (sh_signals h) \<and> fst p = blocks h ! k) \<and>
     (case current_global_cb h of None \<Rightarrow> True | Some p \<Rightarrow> fst p = block (sh_globals h))"

definition handler_ok :: "bool \<Rightarrow> 'w signal_handler \<Rightarrow> bool" where
  "handler_ok b h \<longleftrightarrow> sh_alive h \<and> owned h \<ge> 1 \<and> (b \<longrightarrow> pointers_ok h)"

definition same_refs :: "bool \<Rightarrow> 'w signal_handler \<Rightarrow> 'w signal_handler \<Rightarrow> bool" where
  "same_refs b h h' \<longleftrightarrow> handler_ok b h' \<and> owned h' = owned h \<and> length (sh_signals h') = length (sh_signals h) \<and>
     block (sh_globals h') = block (sh_globals h) \<and> (b \<longrightarrow> blocks h' = blocks h)"

definition result_ok :: "bool \<Rightarrow> 'w signal_handler \<Rightarrow> 'w signal_handler option option \<Rightarrow> bool" where
  "result_ok b h r \<longleftrightarrow> (case r of None \<Rightarrow> False | Some None \<Rightarrow> True | Some (Some h') \<Rightarrow> same_refs b h h')"

lemma same_refs_refl: "handler_ok b h \<Longrightarrow> same_refs b h h"
  by (simp add: same_refs_def)

lemma same_refs_trans: "same_refs b h h' \<Longrightarrow> same_refs b h' h'' \<Longrightarrow> same_refs b h h''"
  by (simp add: same_refs_def)

lemma result_ok_then_do:
  assumes "result_ok b h r" "\<And>h'. same_refs b h h' \<Longrightarrow> result_ok b h (f h')"
  shows "result_ok b h (then_do r f)"
proof (cases r)
  case (Some r')
  then show ?thesis using assms by (cases r') (simp_all add: result_ok_def then_do_def)
qed (use assms in \<open>simp add: result_ok_def\<close>)

lemma connect_ok:
  assumes "handler_ok False h"
  shows "same_refs False h (signal_handler_connect_internal name cb d keep h)"
proof (cases "getsignal h name")
  case None
  then show ?thesis using assms by (simp add: signal_handler_connect_internal_def same_refs_refl)
next
  case (Some k)
  note k = getsignal_bound [OF Some]
  show ?thesis
    using assms Some k
    by (auto simp: signal_handler_connect_internal_def Let_def same_refs_def handler_ok_def sig_simps
        owned_def kept_update cnt_push kept_def [of "h\<lparr>sh_refs := _, sh_fresh := _\<rparr>"] kept_def [of "h\<lparr>sh_fresh := _\<rparr>"] kept_def [of h])
qed

lemma handler_ok_dec:
  assumes "sh_alive h" "owned h \<ge> 1" "kept h \<ge> 1"
  shows "sh_alive (dec_refs h)"
  using assms by (simp add: dec_refs_def owned_def)

lemma kept_nonneg: "0 \<le> kept h"
  unfolding kept_def by (rule sum_list_nonneg) (auto simp: cnt_def)

lemma dec_refs_fields [sig_simps]:
  "sh_signals (dec_refs h) = sh_signals h" "sh_globals (dec_refs h) = sh_globals h"
  "current_signal_cb (dec_refs h) = current_signal_cb h" "current_global_cb (dec_refs h) = current_global_cb h"
  "sh_refs (dec_refs h) = sh_refs h - 1" "sh_alive (dec_refs h) \<longleftrightarrow> sh_refs h \<noteq> 1"
  "sh_calls (dec_refs h) = sh_calls h" "sh_world (dec_refs h) = sh_world h"
  by (simp_all add: dec_refs_def Let_def)

lemma kept_cong: "sh_signals h = sh_signals h' \<Longrightarrow> kept h = kept h'"
  by (simp add: kept_def)

lemma blocks_cong: "sh_signals h = sh_signals h' \<Longrightarrow> blocks h = blocks h'"
  by (simp add: blocks_def)

lemma same_refs_update:
  assumes h: "handler_ok b h" and k: "k < length (sh_signals h)"
    and bl: "block (si_callbacks (f (sh_signals h ! k))) = block (si_callbacks (sh_signals h ! k))"
    and c: "cnt (f (sh_signals h ! k)) = cnt (sh_signals h ! k)"
  shows "same_refs b h (update_signal k f h)"
  using h k by (simp add: same_refs_def handler_ok_def pointers_ok_def sig_simps owned_update [OF k] c
      blocks_update [where f = f, OF bl] cong: option.case_cong)

lemma disconnect_ok:
  assumes "handler_ok b h"
  shows "same_refs b h (signal_handler_disconnect name cb d h)"
proof (cases "getsignal h name")
  case None
  then show ?thesis using assms by (simp add: signal_handler_disconnect_def same_refs_refl)
next
  case (Some k)
  note k = getsignal_bound [OF Some]
  let ?sig = "sh_signals h ! k"
  show ?thesis
  proof (cases "signal_get_callback_idx ?sig cb d")
    case None
    then show ?thesis using assms Some by (simp add: signal_handler_disconnect_def same_refs_refl)
  next
    case idx: (Some i)
    have i: "i < length (items (si_callbacks ?sig))"
      using idx unfolding signal_get_callback_idx_def by (blast dest: find_idx_Some)
    show ?thesis
    proof (cases "si_signalling ?sig")
      case True
      then show ?thesis using Some idx
        by (simp add: signal_handler_disconnect_def Let_def)
          (rule same_refs_update [OF assms k]; simp add: cnt_def filter_mark)
    next
      case False
      let ?h = "update_signal k (\<lambda>si. si\<lparr>si_callbacks := vec_erase (si_callbacks si) i\<rparr>) h"
      have bl: "blocks ?h = blocks h" by (rule blocks_update) (simp add: vec_erase_def)
      have ow: "owned ?h = owned h + (if sc_keep_ref (items (si_callbacks ?sig) ! i) then 1 else 0)"
        using cnt_erase [OF i] by (simp add: owned_update [OF k])
      have pt: "pointers_ok ?h = pointers_ok h" "pointers_ok (dec_refs ?h) = pointers_ok h"
        using bl by (simp_all add: pointers_ok_def sig_simps blocks_cong [of "dec_refs ?h" ?h] cong: option.case_cong)
      have od: "owned (dec_refs ?h) = owned ?h - 1"
        by (simp add: owned_def sig_simps kept_cong [of "dec_refs ?h" ?h])
      have "sh_refs ?h \<noteq> 1" if "sc_keep_ref (items (si_callbacks ?sig) ! i)"
        using that ow kept_nonneg [of ?h] assms by (simp add: owned_def handler_ok_def sig_simps)
      then show ?thesis
        using assms Some idx False bl ow od pt
        by (simp add: signal_handler_disconnect_def Let_def same_refs_def handler_ok_def sig_simps
            blocks_cong [of "dec_refs ?h" ?h])
    qed
  qed
qed

lemma disconnect_global_ok:
  assumes "handler_ok b h"
  shows "same_refs b h (signal_handler_disconnect_global cb d h)"
  using assms
  by (auto simp: signal_handler_disconnect_global_def Let_def same_refs_def handler_ok_def pointers_ok_def owned_def
      vec_erase_def kept_def blocks_def split: option.splits)

lemma remove_current_ok:
  assumes "handler_ok True h"
  shows "result_ok True h (map_option Some (signal_handler_remove_current h))"
proof (cases "current_signal_cb h")
  case None
  show ?thesis
  proof (cases "current_global_cb h")
    case None
    then show ?thesis using assms \<open>current_signal_cb h = None\<close>
      by (simp add: signal_handler_remove_current_def result_ok_def same_refs_refl)
  next
    case (Some p)
    then have "fst p = block (sh_globals h)" using assms by (simp add: handler_ok_def pointers_ok_def)
    then show ?thesis using assms Some None
      by (auto simp: signal_handler_remove_current_def result_ok_def vec_update_def same_refs_def handler_ok_def
          pointers_ok_def owned_def kept_def blocks_def)
  qed
next
  case (Some kp)
  obtain k p where kp: "kp = (k, p)" by (cases kp)
  have k: "k < length (sh_signals h)" and p: "fst p = block (si_callbacks (sh_signals h ! k))"
    using assms Some by (simp_all add: kp handler_ok_def pointers_ok_def blocks_def)
  let ?v = "si_callbacks (sh_signals h ! k)" and ?f = "\<lambda>sc. sc\<lparr>sc_remove := True\<rparr>"
  obtain v where v: "vec_update ?v p ?f = Some v"
    using p by (cases "snd p < length (items ?v)") (auto simp: vec_update_def)
  have bv: "block v = block ?v" by (rule vec_update_block [OF v])
  have cv: "length (filter sc_keep_ref (items v)) = length (filter sc_keep_ref (items ?v))"
    using v by (auto simp: vec_update_def filter_mark split: if_splits)
  have "same_refs True h (update_signal k (\<lambda>si. si\<lparr>si_callbacks := v\<rparr>) h)"
    by (rule same_refs_update [OF assms k]) (simp_all add: bv cnt_def cv)
  then show ?thesis using Some by (simp add: kp signal_handler_remove_current_def v result_ok_def)
qed

definition emit_ok :: "bool \<Rightarrow> 'w emit \<Rightarrow> bool" where
  "emit_ok b emit \<longleftrightarrow> (\<forall>s h. handler_ok b h \<longrightarrow> result_ok b h (emit s h))"

definition callbacks_permitted :: "bool \<Rightarrow> 'w behaviour \<Rightarrow> bool" where
  "callbacks_permitted b beh \<longleftrightarrow> (\<forall>c d k w a. snd (beh c d k w) = Some a \<longrightarrow> permitted b a)"

lemma do_action_ok:
  assumes e: "emit_ok b emit" and a: "permitted b a" and h: "handler_ok b h"
  shows "result_ok b h (do_action emit a h)"
proof -
  have al: "sh_alive h" using h by (simp add: handler_ok_def)
  show ?thesis
  proof (cases a)
    case (Connect s c d)
    then show ?thesis using a h al connect_ok [of h s c d False]
      by (simp add: do_action_def result_ok_def signal_handler_connect_def)
  next
    case (ConnectRef s c d)
    then show ?thesis using a h al connect_ok [of h s c d True]
      by (simp add: do_action_def result_ok_def signal_handler_connect_ref_def)
  next
    case (Disconnect s c d)
    then show ?thesis using disconnect_ok [OF h, of s c d] al by (simp add: do_action_def result_ok_def)
  next
    case (DisconnectGlobal c d)
    then show ?thesis using disconnect_global_ok [OF h, of c d] al by (simp add: do_action_def result_ok_def)
  next
    case RemoveCurrent
    then show ?thesis using a h al remove_current_ok [of h] by (simp add: do_action_def)
  next
    case (Emit s)
    then show ?thesis using e h al by (simp add: do_action_def emit_ok_def)
  qed (use a in simp_all)
qed

lemma handler_ok_world [simp]:
  "handler_ok b (h\<lparr>sh_world := w\<rparr>) = handler_ok b h"
  "same_refs b (h\<lparr>sh_world := w\<rparr>) h' = same_refs b h h'"
  "same_refs b h (h'\<lparr>sh_world := w\<rparr>) = same_refs b h h'"
  by (simp_all add: handler_ok_def same_refs_def pointers_ok_def owned_def kept_def blocks_def cong: option.case_cong)

lemma result_ok_world [simp]: "result_ok b (h\<lparr>sh_world := w\<rparr>) r = result_ok b h r"
  by (simp add: result_ok_def split: option.split)

lemma result_ok_mono:
  "same_refs b h h' \<Longrightarrow> result_ok b h' r \<Longrightarrow> result_ok b h r"
  by (auto simp: result_ok_def same_refs_def split: option.splits)

lemma same_refs_ok: "same_refs b h h' \<Longrightarrow> handler_ok b h'"
  by (simp add: same_refs_def)

lemma run_callback_ok:
  assumes e: "emit_ok b emit" and p: "callbacks_permitted b beh"
  shows "handler_ok b h \<Longrightarrow> result_ok b h (run_callback emit beh c d n k h)"
proof (induction n arbitrary: k h)
  case (Suc n)
  obtain w r where wr: "beh c d k (sh_world h) = (w, r)" by (cases "beh c d k (sh_world h)")
  show ?case
  proof (cases r)
    case None
    then show ?thesis using Suc.prems by (simp add: wr result_ok_def same_refs_refl)
  next
    case (Some a)
    have "permitted b a" using p wr Some unfolding callbacks_permitted_def by (metis snd_conv)
    then have "result_ok b h (do_action emit a (h\<lparr>sh_world := w\<rparr>))"
      using do_action_ok [OF e, of a "h\<lparr>sh_world := w\<rparr>"] Suc.prems by simp
    then show ?thesis unfolding run_callback.simps wr Some
      by (simp, rule result_ok_then_do) (use Suc.IH in \<open>blast intro: result_ok_mono same_refs_ok\<close>)+
  qed
qed (simp add: result_ok_def)

lemma same_refs_fields:
  "owned h1 = owned h \<Longrightarrow> length (sh_signals h1) = length (sh_signals h) \<Longrightarrow>
     block (sh_globals h1) = block (sh_globals h) \<Longrightarrow> blocks h1 = blocks h \<Longrightarrow>
     same_refs b h1 h' = same_refs b h h'"
  by (simp add: same_refs_def)

lemma result_ok_fields:
  "owned h1 = owned h \<Longrightarrow> length (sh_signals h1) = length (sh_signals h) \<Longrightarrow>
     block (sh_globals h1) = block (sh_globals h) \<Longrightarrow> blocks h1 = blocks h \<Longrightarrow>
     result_ok b h1 r = result_ok b h r"
  by (simp add: result_ok_def same_refs_def split: option.split)

lemma same_refs_change:
  assumes "same_refs b h h'" "owned h1 = owned h'" "length (sh_signals h1) = length (sh_signals h')"
    "block (sh_globals h1) = block (sh_globals h')" "blocks h1 = blocks h'" "sh_alive h1"
    "b \<Longrightarrow> pointers_ok h' \<Longrightarrow> pointers_ok h1"
  shows "same_refs b h h1"
  using assms by (simp add: same_refs_def handler_ok_def)

lemma handler_fields_simps [sig_simps]:
  "owned (h\<lparr>current_signal_cb := x\<rparr>) = owned h" "blocks (h\<lparr>current_signal_cb := x\<rparr>) = blocks h"
  "owned (h\<lparr>current_global_cb := y\<rparr>) = owned h" "blocks (h\<lparr>current_global_cb := y\<rparr>) = blocks h"
  "owned (h\<lparr>sh_globals := g\<rparr>) = owned h" "blocks (h\<lparr>sh_globals := g\<rparr>) = blocks h"
  "owned (h\<lparr>sh_calls := cs\<rparr>) = owned h" "blocks (h\<lparr>sh_calls := cs\<rparr>) = blocks h"
  "owned (h\<lparr>sh_refs := r\<rparr>) = r - kept h" "blocks (h\<lparr>sh_refs := r\<rparr>) = blocks h"
  "kept (h\<lparr>current_signal_cb := x\<rparr>) = kept h" "kept (h\<lparr>current_global_cb := y\<rparr>) = kept h"
  "kept (h\<lparr>sh_globals := g\<rparr>) = kept h" "kept (h\<lparr>sh_calls := cs\<rparr>) = kept h" "kept (h\<lparr>sh_refs := r\<rparr>) = kept h"
  by (simp_all add: owned_def kept_def blocks_def)

lemma pointers_ok_simps [sig_simps]:
  "pointers_ok h \<Longrightarrow> pointers_ok (h\<lparr>current_signal_cb := None\<rparr>)"
  "pointers_ok h \<Longrightarrow> pointers_ok (h\<lparr>sh_refs := r\<rparr>)"
  "pointers_ok h \<Longrightarrow> block g = block (sh_globals h) \<Longrightarrow> pointers_ok (h\<lparr>sh_globals := g\<rparr>)"
  "pointers_ok h \<Longrightarrow> block g = block (sh_globals h) \<Longrightarrow> pointers_ok (h\<lparr>current_global_cb := None, sh_globals := g\<rparr>)"
  by (auto simp: pointers_ok_def blocks_def split: option.splits)

lemma same_refs_alive: "same_refs b h h' \<Longrightarrow> sh_alive h'"
  by (simp add: same_refs_def handler_ok_def)

lemma call_signal_cb_ok:
  assumes e: "emit_ok b emit" and p: "callbacks_permitted b beh"
    and h: "handler_ok b h" and k: "k < length (sh_signals h)"
  shows "result_ok b h (call_signal_cb emit beh n k i h)"
proof -
  let ?v = "si_callbacks (sh_signals h ! k)"
  let ?cb = "items ?v ! i"
  let ?h = "h\<lparr>current_signal_cb := Some (k, block ?v, i), sh_calls := sh_calls h @ [Inl ?cb]\<rparr>"
  have f: "owned ?h = owned h" "sh_signals ?h = sh_signals h" "sh_globals ?h = sh_globals h" "blocks ?h = blocks h"
    by (simp_all add: owned_def kept_def blocks_def)
  have "handler_ok b ?h"
    using h k by (auto simp: handler_ok_def pointers_ok_def f blocks_def split: option.splits)
  then have "result_ok b ?h (run_callback emit beh (sc_callback ?cb) (sc_data ?cb) n 0 ?h)"
    by (rule run_callback_ok [OF e p])
  then have r: "result_ok b h (run_callback emit beh (sc_callback ?cb) (sc_data ?cb) n 0 ?h)"
    by (subst (asm) result_ok_fields) (use f in simp_all)
  have fin: "result_ok b h (if \<not> sh_alive h' then None else Some (Some (h'\<lparr>current_signal_cb := None\<rparr>)))"
    if s: "same_refs b h h'" for h'
  proof -
    have "same_refs b h (h'\<lparr>current_signal_cb := None\<rparr>)"
      by (rule same_refs_change [OF s]) (simp_all add: sig_simps same_refs_alive [OF s])
    then show ?thesis using same_refs_alive [OF s] by (simp add: result_ok_def)
  qed
  show ?thesis
    using result_ok_then_do [OF r fin] h
    by (simp add: call_signal_cb_def Let_def result_ok_def same_refs_refl)
qed

lemma signal_loop_ok:
  assumes e: "emit_ok b emit" and p: "callbacks_permitted b beh"
  shows "handler_ok b h \<Longrightarrow> k < length (sh_signals h) \<Longrightarrow> result_ok b h (signal_loop emit beh n k i h)"
proof (induction n arbitrary: i h)
  case (Suc n)
  have "result_ok b h (then_do (call_signal_cb emit beh n k i h) (signal_loop emit beh n k (Suc i)))"
  proof (rule result_ok_then_do [OF call_signal_cb_ok [OF e p Suc.prems]])
    fix h' assume s: "same_refs b h h'"
    then have "k < length (sh_signals h')" using Suc.prems(2) by (simp add: same_refs_def)
    then show "result_ok b h (signal_loop emit beh n k (Suc i) h')"
      using Suc.IH [OF same_refs_ok [OF s]] result_ok_mono [OF s] by blast
  qed
  then show ?case using Suc.prems(1) by (simp add: result_ok_def same_refs_refl)
qed (simp add: result_ok_def)

lemma call_global_cb_ok:
  assumes e: "emit_ok b emit" and p: "callbacks_permitted b beh" and h: "handler_ok b h"
  shows "result_ok b h (call_global_cb emit beh n i h)"
proof -
  let ?v = "sh_globals h"
  let ?cb = "items ?v ! i"
  let ?h = "h\<lparr>sh_globals := ?v\<lparr>items := (items ?v)[i := ?cb\<lparr>gc_signaling := gc_signaling ?cb + 1\<rparr>]\<rparr>,
      current_global_cb := Some (block ?v, i), sh_calls := sh_calls h @ [Inr (gc_callback ?cb, gc_data ?cb)]\<rparr>"
  have f: "owned ?h = owned h" "sh_signals ?h = sh_signals h" "block (sh_globals ?h) = block (sh_globals h)" "blocks ?h = blocks h"
    by (simp_all add: owned_def kept_def blocks_def)
  have "handler_ok b ?h"
    using h by (auto simp: handler_ok_def pointers_ok_def f split: option.splits)
  then have "result_ok b ?h (run_callback emit beh (gc_callback ?cb) (gc_data ?cb) n 0 ?h)"
    by (rule run_callback_ok [OF e p])
  then have r: "result_ok b h (run_callback emit beh (gc_callback ?cb) (gc_data ?cb) n 0 ?h)"
    by (subst (asm) result_ok_fields) (use f in simp_all)
  have fin: "result_ok b h (if \<not> sh_alive h' then None
      else map_option (\<lambda>v. Some (h'\<lparr>current_global_cb := None, sh_globals := v\<rparr>))
        (vec_update (sh_globals h') (block ?v, i) (\<lambda>gc. gc\<lparr>gc_signaling := gc_signaling gc - 1\<rparr>)))"
    if s: "same_refs b h h'" for h'
  proof -
    obtain v where v: "vec_update (sh_globals h') (block ?v, i) (\<lambda>gc. gc\<lparr>gc_signaling := gc_signaling gc - 1\<rparr>) = Some v"
      using s by (cases "i < length (items (sh_globals h'))") (auto simp: same_refs_def vec_update_def)
    have "same_refs b h (h'\<lparr>current_global_cb := None, sh_globals := v\<rparr>)"
      by (rule same_refs_change [OF s]) (simp_all add: sig_simps same_refs_alive [OF s] vec_update_block [OF v])
    then show ?thesis using same_refs_alive [OF s] unfolding v by (simp add: result_ok_def)
  qed
  show ?thesis
    using result_ok_then_do [OF r fin] h
    by (simp add: call_global_cb_def Let_def result_ok_def same_refs_refl)
qed

lemma global_loop_ok:
  assumes e: "emit_ok b emit" and p: "callbacks_permitted b beh"
  shows "handler_ok b h \<Longrightarrow> result_ok b h (global_loop emit beh n i h)"
proof (induction n arbitrary: i h)
  case (Suc n)
  have "result_ok b h (then_do (call_global_cb emit beh n i h) (global_loop emit beh n (Suc i)))"
    by (rule result_ok_then_do [OF call_global_cb_ok [OF e p Suc.prems]])
      (use Suc.IH in \<open>blast intro: result_ok_mono same_refs_ok\<close>)
  then show ?case using Suc.prems by (simp add: result_ok_def same_refs_refl)
qed (simp add: result_ok_def)

lemma signal_globals_ok:
  assumes e: "emit_ok b emit" and p: "callbacks_permitted b beh" and h: "handler_ok b h"
  shows "result_ok b h (signal_globals emit beh n h)"
proof -
  have fin: "result_ok b h (Some (Some (h'\<lparr>sh_globals := erase_removed_globals (length (items (sh_globals h'))) (sh_globals h')\<rparr>)))"
    if s: "same_refs b h h'" for h'
  proof -
    have "same_refs b h (h'\<lparr>sh_globals := erase_removed_globals (length (items (sh_globals h'))) (sh_globals h')\<rparr>)"
      by (rule same_refs_change [OF s]) (simp_all add: sig_simps same_refs_alive [OF s] erase_removed_globals_block)
    then show ?thesis by (simp add: result_ok_def)
  qed
  show ?thesis
    using result_ok_then_do [OF global_loop_ok [OF e p h, of n 0] fin] h
    by (simp add: signal_globals_def result_ok_def same_refs_refl)
qed

lemma finish_signal_ok:
  assumes h: "handler_ok b h" and k: "k < length (sh_signals h)" and f: "finish_signal k h = (r, h')"
  shows "handler_ok b h' \<and> owned h' = owned h + int r \<and> length (sh_signals h') = length (sh_signals h) \<and>
    block (sh_globals h') = block (sh_globals h) \<and> blocks h' = blocks h"
proof -
  let ?v = "si_callbacks (sh_signals h ! k)"
  let ?v' = "?v\<lparr>items := filter (\<lambda>c. \<not> sc_remove c) (items ?v)\<rparr>"
  let ?g = "\<lambda>si. si\<lparr>si_callbacks := ?v', si_signalling := False\<rparr>"
  have h': "h' = update_signal k ?g h" and r: "r = length (filter (\<lambda>c. sc_remove c \<and> sc_keep_ref c) (items ?v))"
    using f k by (simp_all add: finish_signal_def Let_def erase_removed_all set_signalling_def update_signal_def
        split: prod.splits)
  have c: "cnt (sh_signals h ! k) = cnt (?g (sh_signals h ! k)) + int r"
    using filter_removed [of "items ?v"] by (simp add: cnt_def r flip: of_nat_add)
  have bl: "blocks h' = blocks h" unfolding h' by (rule blocks_update) simp
  have ow: "owned h' = owned h + int r" unfolding h' owned_update [OF k] c by simp
  show ?thesis
    using h bl ow by (auto simp: handler_ok_def pointers_ok_def h' sig_simps split: option.splits)
qed

lemma set_signalling_ok:
  "handler_ok b h \<Longrightarrow> k < length (sh_signals h) \<Longrightarrow> same_refs b h (set_signalling k c h)"
  unfolding set_signalling_def by (rule same_refs_update) (simp_all add: cnt_def)

lemma signal_body_ok:
  assumes e: "emit_ok b emit" and p: "callbacks_permitted b beh" and h: "handler_ok b h"
  shows "result_ok b h (signal_body emit beh n name h)"
proof (cases "getsignal h name")
  case None
  then show ?thesis using h by (simp add: signal_body_def result_ok_def same_refs_refl)
next
  case (Some k)
  note k = getsignal_bound [OF Some]
  note s = set_signalling_ok [OF h k, of True]
  have k': "k < length (sh_signals (set_signalling k True h))" using s k by (simp add: same_refs_def)
  show ?thesis unfolding signal_body_def Some option.case
  proof (rule result_ok_then_do [OF result_ok_mono [OF s signal_loop_ok [OF e p same_refs_ok [OF s] k']]])
    fix h1 assume h1: "same_refs b h h1"
    obtain r h2 where f: "finish_signal k h1 = (r, h2)" by (cases "finish_signal k h1")
    have k1: "k < length (sh_signals h1)" using h1 k by (simp add: same_refs_def)
    note f' = finish_signal_ok [OF same_refs_ok [OF h1] k1 f]
    have "result_ok b h2 (signal_globals emit beh n h2)" using f' by (intro signal_globals_ok [OF e p]) simp
    moreover have g: "same_refs b h (if r \<noteq> 0 then h3\<lparr>sh_refs := sh_refs h3 - int r\<rparr> else h3)"
      if s3: "same_refs b h2 h3" for h3
    proof -
      let ?h = "h3\<lparr>sh_refs := sh_refs h3 - int r\<rparr>"
      have "owned ?h = owned h3 - int r" by (simp add: sig_simps owned_def)
      then have "owned ?h = owned h" using s3 f' h1 by (simp add: same_refs_def)
      moreover have "b \<longrightarrow> pointers_ok ?h" using same_refs_ok [OF s3] by (simp add: handler_ok_def sig_simps)
      ultimately have "same_refs b h ?h"
        using s3 f' h1 h by (simp add: same_refs_def handler_ok_def sig_simps)
      moreover have "?h = h3" if "r = 0" using that by simp
      ultimately show ?thesis by (cases "r = 0") simp_all
    qed
    ultimately have "result_ok b h (then_do (signal_globals emit beh n h2)
          (\<lambda>h. Some (Some (if r \<noteq> 0 then h\<lparr>sh_refs := sh_refs h - int r\<rparr> else h))))"
      by (cases "signal_globals emit beh n h2"; cases "the (signal_globals emit beh n h2)")
        (simp_all add: result_ok_def then_do_def)
    then show "result_ok b h (let (remove_refs, h) = finish_signal k h1 in
        then_do (signal_globals emit beh n h)
          (\<lambda>h. Some (Some (if remove_refs \<noteq> 0 then h\<lparr>sh_refs := sh_refs h - int remove_refs\<rparr> else h))))"
      by (simp add: f)
  qed
qed

lemma emit_signal_ok: "callbacks_permitted b beh \<Longrightarrow> emit_ok b (signal_handler_signal beh n)"
proof (induction n)
  case (Suc n)
  then show ?case using signal_body_ok [OF Suc.IH [OF Suc.prems] Suc.prems] by (simp add: emit_ok_def)
qed (simp add: emit_ok_def result_ok_def)

text \<open>C9: Delivering a signal is safe and keeps the reference count of the handler.  Whatever the
callbacks do in whatever order, nested signals included, as long as they do not destroy the handler or
connect global callbacks, and do not both connect callbacks and ask for the removal of the current one:
no pointer is used after its array moved, the handler stays alive, and the references that are not held
by connected callbacks are the same as before.\<close>
theorem signal_safe:
  assumes "callbacks_permitted b beh" "handler_ok b h"
  shows "signal_handler_signal beh n name h = Some None \<or>
    (\<exists>h'. signal_handler_signal beh n name h = Some (Some h') \<and> sh_alive h' \<and>
       sh_refs h' - kept h' = sh_refs h - kept h \<and> handler_ok b h')"
proof -
  have "result_ok b h (signal_handler_signal beh n name h)"
    using emit_signal_ok [OF assms(1), of n] assms(2) by (simp add: emit_ok_def)
  then show ?thesis
    by (auto simp: result_ok_def same_refs_def owned_def handler_ok_def split: option.splits)
qed

definition wit_beh :: "nat behaviour" where
  "wit_beh c d k w =
     (w + 1, if k = 0 then Some (if c = 0 then Connect ''start'' 1 0 else Emit ''stop'') else None)"

definition wit_handler :: "nat signal_handler" where
  "wit_handler = signal_handler_connect_ref ''start'' 0 7
     (snd (signal_handler_add (snd (signal_handler_add (signal_handler_create 0) (Some ''start''))) (Some ''stop'')))"

lemma signal_safe_witness:
  "signal_handler_signal wit_beh 9 ''start'' wit_handler = Some None \<or>
    (\<exists>h'. signal_handler_signal wit_beh 9 ''start'' wit_handler = Some (Some h') \<and> sh_alive h' \<and>
       sh_refs h' - kept h' = 1 \<and> handler_ok False h')"
proof -
  have p: "callbacks_permitted False wit_beh"
    by (auto simp: callbacks_permitted_def wit_beh_def split: if_splits)
  have k: "sh_refs wit_handler - kept wit_handler = 1" "sh_alive wit_handler" by code_simp+
  then have "handler_ok False wit_handler" by (simp add: handler_ok_def owned_def)
  then show ?thesis using signal_safe [OF p, of wit_handler 9 "''start''"] k(1) by simp
qed

subsection \<open>Delivery while callbacks disconnect\<close>

definition cbs :: "nat \<Rightarrow> 'w signal_handler \<Rightarrow> signal_callback list" where
  "cbs k h = items (si_callbacks (sh_signals h ! k))"

definition unmarked :: "signal_callback list \<Rightarrow> signal_callback list" where
  "unmarked = filter (\<lambda>c. \<not> sc_remove c)"

definition marks_more :: "signal_callback list \<Rightarrow> signal_callback list \<Rightarrow> bool" where
  "marks_more = list_all2 (\<lambda>x y. y = x \<or> y = x\<lparr>sc_remove := True\<rparr>)"

lemma marks_more_refl: "marks_more xs xs"
  by (simp add: marks_more_def list_all2_refl)

lemma marks_more_trans: "marks_more xs ys \<Longrightarrow> marks_more ys zs \<Longrightarrow> marks_more xs zs"
  unfolding marks_more_def by (erule (1) list_all2_trans [rotated]) auto

lemma marks_more_mark: "i < length xs \<Longrightarrow> marks_more xs (xs[i := (xs ! i)\<lparr>sc_remove := True\<rparr>])"
  by (auto simp: marks_more_def list_all2_conv_all_nth nth_list_update)

lemma marks_more_length: "marks_more xs ys \<Longrightarrow> length ys = length xs"
  by (simp add: marks_more_def list_all2_lengthD)

lemma marks_more_unmarked: "marks_more xs ys \<Longrightarrow> subseq (unmarked ys) (unmarked xs)"
  unfolding marks_more_def by (induction rule: list_all2_induct) (auto simp: unmarked_def)

lemma marks_more_drop: "marks_more xs ys \<Longrightarrow> marks_more (drop n xs) (drop n ys)"
  by (simp add: marks_more_def)

lemma marks_more_nth: "marks_more xs ys \<Longrightarrow> i < length xs \<Longrightarrow> \<not> sc_remove (ys ! i) \<Longrightarrow> ys ! i = xs ! i"
  by (auto simp: marks_more_def list_all2_conv_all_nth)

fun quiet_action :: "action \<Rightarrow> bool" where
  "quiet_action (Disconnect s c d) = True"
| "quiet_action RemoveCurrent = True"
| "quiet_action _ = False"

text \<open>Callbacks that only disconnect, and return within \<open>K\<close> steps.\<close>

definition quiet_callbacks :: "nat \<Rightarrow> 'w behaviour \<Rightarrow> bool" where
  "quiet_callbacks K beh \<longleftrightarrow> (\<forall>c d. (\<forall>w. snd (beh c d K w) = None) \<and>
     (\<forall>k w a. snd (beh c d k w) = Some a \<longrightarrow> quiet_action a))"

definition delivering :: "nat \<Rightarrow> 'w signal_handler \<Rightarrow> bool" where
  "delivering k h \<longleftrightarrow> handler_ok True h \<and> k < length (sh_signals h) \<and> si_signalling (sh_signals h ! k)"

definition only_marks :: "nat \<Rightarrow> 'w signal_handler \<Rightarrow> 'w signal_handler \<Rightarrow> bool" where
  "only_marks k h h' \<longleftrightarrow> delivering k h' \<and> marks_more (cbs k h) (cbs k h') \<and> sh_globals h' = sh_globals h"

lemma only_marks_refl: "delivering k h \<Longrightarrow> only_marks k h h"
  by (simp add: only_marks_def marks_more_refl)

lemma only_marks_trans: "only_marks k h h' \<Longrightarrow> only_marks k h' h'' \<Longrightarrow> only_marks k h h''"
  by (auto simp: only_marks_def intro: marks_more_trans)

lemma disconnect_marks:
  assumes d: "delivering k h"
  shows "only_marks k h (signal_handler_disconnect name c x h) \<and>
    current_signal_cb (signal_handler_disconnect name c x h) = current_signal_cb h \<and>
    sh_calls (signal_handler_disconnect name c x h) = sh_calls h"
proof -
  let ?h = "signal_handler_disconnect name c x h"
  have ok: "handler_ok True h" and k: "k < length (sh_signals h)" and sg: "si_signalling (sh_signals h ! k)"
    using d by (simp_all add: delivering_def)
  have r: "same_refs True h ?h" by (rule disconnect_ok [OF ok])
  have m: "sh_globals ?h = sh_globals h \<and> si_signalling (sh_signals ?h ! k) \<and> marks_more (cbs k h) (cbs k ?h) \<and>
      current_signal_cb ?h = current_signal_cb h \<and> sh_calls ?h = sh_calls h"
  proof (cases "getsignal h name")
    case None
    then show ?thesis using sg by (simp add: signal_handler_disconnect_def marks_more_refl)
  next
    case (Some j)
    note j = getsignal_bound [OF Some]
    show ?thesis
    proof (cases "signal_get_callback_idx (sh_signals h ! j) c x")
      case None
      then show ?thesis using Some sg by (simp add: signal_handler_disconnect_def marks_more_refl)
    next
      case idx: (Some i)
      have i: "i < length (items (si_callbacks (sh_signals h ! j)))"
        using idx unfolding signal_get_callback_idx_def by (blast dest: find_idx_Some)
      show ?thesis
        using Some idx sg k j i
        by (cases "j = k") (auto simp: signal_handler_disconnect_def Let_def sig_simps cbs_def
            marks_more_refl marks_more_mark nth_list_update)
    qed
  qed
  show ?thesis using r m k by (simp add: only_marks_def delivering_def same_refs_def)
qed

lemma remove_current_marks:
  assumes d: "delivering k h" and c: "current_signal_cb h = Some (k, p)"
  shows "\<exists>h'. signal_handler_remove_current h = Some h' \<and> only_marks k h h' \<and>
    current_signal_cb h' = Some (k, p) \<and> sh_calls h' = sh_calls h"
proof -
  have ok: "handler_ok True h" and k: "k < length (sh_signals h)" and sg: "si_signalling (sh_signals h ! k)"
    using d by (simp_all add: delivering_def)
  obtain h' where h': "signal_handler_remove_current h = Some h'" "same_refs True h h'"
    using remove_current_ok [OF ok] by (auto simp: result_ok_def split: option.splits)
  have "only_marks k h h' \<and> current_signal_cb h' = Some (k, p) \<and> sh_calls h' = sh_calls h"
    using h' k sg c
    by (auto simp: signal_handler_remove_current_def only_marks_def delivering_def same_refs_def sig_simps cbs_def
        vec_update_def marks_more_refl marks_more_mark split: if_splits)
  then show ?thesis using h'(1) by blast
qed

lemma quiet_action_marks:
  assumes d: "delivering k h" and c: "current_signal_cb h = Some (k, p)" and a: "quiet_action a"
  shows "\<exists>h'. do_action emit a h = Some (Some h') \<and> only_marks k h h' \<and>
    current_signal_cb h' = Some (k, p) \<and> sh_calls h' = sh_calls h"
proof -
  have al: "sh_alive h" using d by (simp add: delivering_def handler_ok_def)
  show ?thesis
    using a disconnect_marks [OF d] remove_current_marks [OF d c] al c
    by (cases a) (auto simp: do_action_def)
qed

lemma world_marks [simp]:
  "delivering k (h\<lparr>sh_world := w\<rparr>) = delivering k h" "cbs k (h\<lparr>sh_world := w\<rparr>) = cbs k h"
  by (simp_all add: delivering_def cbs_def)

lemma world_only_marks [simp]:
  "only_marks k (h\<lparr>sh_world := w\<rparr>) h' = only_marks k h h'" "only_marks k h (h'\<lparr>sh_world := w\<rparr>) = only_marks k h h'"
  by (simp_all add: only_marks_def)

lemma quiet_run:
  assumes q: "quiet_callbacks K beh"
  shows "delivering k h \<Longrightarrow> current_signal_cb h = Some (k, p) \<Longrightarrow> K < j + n \<Longrightarrow> j \<le> K \<Longrightarrow>
    \<exists>h'. run_callback emit beh c d n j h = Some (Some h') \<and> only_marks k h h' \<and> sh_calls h' = sh_calls h"
proof (induction n arbitrary: j h)
  case (Suc n)
  obtain w r where wr: "beh c d j (sh_world h) = (w, r)" by (cases "beh c d j (sh_world h)")
  show ?case
  proof (cases r)
    case None
    then show ?thesis using Suc.prems by (simp add: wr only_marks_refl)
  next
    case (Some a)
    have a: "quiet_action a" using q wr Some unfolding quiet_callbacks_def by (metis snd_conv)
    have j: "j \<noteq> K" using q wr Some unfolding quiet_callbacks_def by (metis snd_conv option.distinct(1))
    obtain h1 where h1: "do_action emit a (h\<lparr>sh_world := w\<rparr>) = Some (Some h1)" "only_marks k h h1"
      "current_signal_cb h1 = Some (k, p)" "sh_calls h1 = sh_calls h"
      using quiet_action_marks [of k "h\<lparr>sh_world := w\<rparr>" p a emit] Suc.prems a by auto
    obtain h2 where h2: "run_callback emit beh c d n (Suc j) h1 = Some (Some h2)" "only_marks k h1 h2"
      "sh_calls h2 = sh_calls h1"
      using Suc.IH [of h1 "Suc j"] Suc.prems j h1 by (auto simp: only_marks_def)
    show ?thesis using h1 h2 only_marks_trans [OF h1(2) h2(2)] by (simp add: wr Some then_do_def)
  qed
qed simp

lemma quiet_call:
  assumes q: "quiet_callbacks K beh" and d: "delivering k h" and n: "K < n"
    and i: "i < length (cbs k h)" and u: "\<not> sc_remove (cbs k h ! i)"
  shows "\<exists>h'. call_signal_cb emit beh n k i h = Some (Some h') \<and> only_marks k h h' \<and>
    sh_calls h' = sh_calls h @ [Inl (cbs k h ! i)]"
proof -
  let ?v = "si_callbacks (sh_signals h ! k)"
  let ?cb = "items ?v ! i"
  let ?h = "h\<lparr>current_signal_cb := Some (k, block ?v, i), sh_calls := sh_calls h @ [Inl ?cb]\<rparr>"
  have "delivering k ?h"
    using d by (auto simp: delivering_def handler_ok_def pointers_ok_def owned_def kept_def blocks_def split: option.splits)
  then obtain h' where h': "run_callback emit beh (sc_callback ?cb) (sc_data ?cb) n 0 ?h = Some (Some h')"
    "only_marks k ?h h'" "sh_calls h' = sh_calls ?h"
    using quiet_run [OF q, of k ?h "(block ?v, i)" 0 n emit "sc_callback ?cb" "sc_data ?cb"] n by auto
  have al: "sh_alive h'" using h'(2) by (simp add: only_marks_def delivering_def handler_ok_def)
  have "only_marks k h (h'\<lparr>current_signal_cb := None\<rparr>)"
    using h'(2) by (simp add: only_marks_def delivering_def cbs_def handler_ok_def sig_simps)
  then show ?thesis using u h'(1,3) al by (simp add: call_signal_cb_def Let_def cbs_def then_do_def)
qed

lemma drop_unmarked:
  "i < length xs \<Longrightarrow>
     unmarked (drop i xs) = (if sc_remove (xs ! i) then unmarked (drop (Suc i) xs) else xs ! i # unmarked (drop (Suc i) xs))"
  by (simp add: unmarked_def flip: Cons_nth_drop_Suc)

lemma quiet_loop:
  assumes q: "quiet_callbacks K beh"
  shows "delivering k h \<Longrightarrow> length (cbs k h) - i + K + 1 < n \<Longrightarrow>
    \<exists>h' called. signal_loop emit beh n k i h = Some (Some h') \<and> only_marks k h h' \<and>
      sh_calls h' = sh_calls h @ map Inl called \<and>
      subseq (unmarked (drop i (cbs k h'))) called \<and> subseq called (unmarked (drop i (cbs k h)))"
proof (induction n arbitrary: i h)
  case (Suc n)
  show ?case
  proof (cases "i < length (cbs k h)")
    case False
    then show ?thesis using Suc.prems only_marks_refl [OF Suc.prems(1)]
      by (intro exI [of _ h] exI [of _ "[]"]) (simp add: cbs_def unmarked_def)
  next
    case True
    let ?cb = "cbs k h ! i"
    have loop: "signal_loop emit beh (Suc n) k i h =
        then_do (call_signal_cb emit beh n k i h) (signal_loop emit beh n k (Suc i))"
      using True by (simp add: cbs_def)
    show ?thesis
    proof (cases "sc_remove ?cb")
      case True
      then have c: "call_signal_cb emit beh n k i h = Some (Some h)" by (simp add: call_signal_cb_def Let_def cbs_def)
      obtain h' called where r: "signal_loop emit beh n k (Suc i) h = Some (Some h')" "only_marks k h h'"
        "sh_calls h' = sh_calls h @ map Inl called" "subseq (unmarked (drop (Suc i) (cbs k h'))) called"
        "subseq called (unmarked (drop (Suc i) (cbs k h)))"
      proof -
        have "length (cbs k h) - Suc i + K + 1 < n" using Suc.prems(2) \<open>i < length (cbs k h)\<close> by linarith
        then show ?thesis using Suc.IH [OF Suc.prems(1), of "Suc i"] that by blast
      qed
      have m: "marks_more (cbs k h) (cbs k h')" using r(2) by (simp add: only_marks_def)
      have "sc_remove (cbs k h' ! i)" using marks_more_nth [OF m] True \<open>i < length (cbs k h)\<close> by metis
      then have "unmarked (drop i (cbs k h')) = unmarked (drop (Suc i) (cbs k h'))"
        using \<open>i < length (cbs k h)\<close> by (simp add: drop_unmarked marks_more_length [OF m])
      then show ?thesis using r True \<open>i < length (cbs k h)\<close> unfolding loop c
        by (auto simp: then_do_def drop_unmarked)
    next
      case False
      obtain h1 where h1: "call_signal_cb emit beh n k i h = Some (Some h1)" "only_marks k h h1"
        "sh_calls h1 = sh_calls h @ [Inl ?cb]"
        using quiet_call [OF q Suc.prems(1) _ True False, of n emit] Suc.prems(2) by auto
      have m1: "marks_more (cbs k h) (cbs k h1)" and d1: "delivering k h1" using h1(2) by (simp_all add: only_marks_def)
      obtain h' called where r: "signal_loop emit beh n k (Suc i) h1 = Some (Some h')" "only_marks k h1 h'"
        "sh_calls h' = sh_calls h1 @ map Inl called" "subseq (unmarked (drop (Suc i) (cbs k h'))) called"
        "subseq called (unmarked (drop (Suc i) (cbs k h1)))"
      proof -
        have "length (cbs k h1) - Suc i + K + 1 < n" using Suc.prems(2) True marks_more_length [OF m1] by linarith
        then show ?thesis using Suc.IH [OF d1, of "Suc i"] that by blast
      qed
      have t: "only_marks k h h'" by (rule only_marks_trans [OF h1(2) r(2)])
      then have m: "marks_more (cbs k h) (cbs k h')" by (simp add: only_marks_def)
      have lo: "subseq (unmarked (drop i (cbs k h'))) (?cb # called)"
        using r(4) marks_more_nth [OF m True] True
        by (auto simp: drop_unmarked marks_more_length [OF m])
      have "subseq called (unmarked (drop (Suc i) (cbs k h)))"
        using r(5) marks_more_unmarked [OF marks_more_drop [OF m1]] subseq_order.trans by blast
      then have up: "subseq (?cb # called) (unmarked (drop i (cbs k h)))"
        using True False by (simp add: drop_unmarked)
      show ?thesis unfolding loop
        by (intro exI [of _ h'] exI [of _ "?cb # called"])
          (use h1 r t lo up in \<open>simp add: then_do_def\<close>)
    qed
  qed
qed simp

text \<open>C8: A callback that disconnects during delivery neither skips nor repeats another one.  When the
callbacks of a signal only disconnect callbacks (each other, themselves by
\<^verbatim>\<open>signal_handler_remove_current\<close>, those of other signals) and return, the delivery ends; the
callbacks called are some of the connected ones, each at most once and in their order; every callback still
connected afterwards was called.  There are no global callbacks, and when the signal is sent none of its
callbacks is marked for removal, so no delivery of it is under way.  The fuel needed is the number of callbacks, the
longest callback and a constant.\<close>
theorem signal_delivers:
  assumes "quiet_callbacks K beh" "handler_ok True h" "getsignal h name = Some k"
    and "items (sh_globals h) = []" "\<forall>c \<in> set (cbs k h). \<not> sc_remove c"
    and "length (cbs k h) + K + 2 < n"
  shows "\<exists>h' called. signal_handler_signal beh n name h = Some (Some h') \<and>
    sh_calls h' = sh_calls h @ map Inl called \<and> subseq called (cbs k h) \<and> subseq (cbs k h') called \<and>
    (\<forall>c \<in> set (cbs k h'). \<not> sc_remove c) \<and> \<not> si_signalling (sh_signals h' ! k)"
proof -
  obtain m where m: "n = Suc m" using assms(6) by (cases n) auto
  note k = getsignal_bound [OF assms(3)]
  let ?h = "set_signalling k True h"
  have d: "delivering k ?h"
    using set_signalling_ok [OF assms(2) k, of True] k
    by (simp add: delivering_def same_refs_def set_signalling_def sig_simps)
  have c: "cbs k ?h = cbs k h" using k by (simp add: cbs_def set_signalling_def sig_simps)
  obtain h1 called where h1: "signal_loop (signal_handler_signal beh m) beh m k 0 ?h = Some (Some h1)"
    "only_marks k ?h h1" "sh_calls h1 = sh_calls ?h @ map Inl called"
    "subseq (unmarked (cbs k h1)) called" "subseq called (unmarked (cbs k h))"
    using quiet_loop [OF assms(1) d, of 0 m "signal_handler_signal beh m"] assms(6) unfolding c
    by (auto simp: m)
  have k1: "k < length (sh_signals h1)" using h1(2) by (simp add: only_marks_def delivering_def)
  obtain r h2 where f: "finish_signal k h1 = (r, h2)" by (cases "finish_signal k h1")
  have h2: "cbs k h2 = unmarked (cbs k h1)" "sh_calls h2 = sh_calls h1" "sh_globals h2 = sh_globals h1"
    "\<not> si_signalling (sh_signals h2 ! k)"
    using f k1 by (auto simp: finish_signal_def Let_def erase_removed_all set_signalling_def sig_simps cbs_def unmarked_def
        split: prod.splits)
  have g: "items (sh_globals h2) = []"
    using h1(2) assms(4) h2(3) by (simp add: only_marks_def set_signalling_def sig_simps)
  let ?h' = "if r \<noteq> 0 then h2\<lparr>sh_refs := sh_refs h2 - int r\<rparr> else h2"
  have r: "signal_handler_signal beh n name h = Some (Some ?h')"
    by (simp add: m signal_body_def assms(3) h1(1) then_do_def f signal_globals_def g)
  have e: "cbs k ?h' = unmarked (cbs k h1)" "sh_calls ?h' = sh_calls h1" "sh_signals ?h' = sh_signals h2"
    using h2 by (simp_all add: cbs_def)
  have un: "unmarked (cbs k h) = cbs k h" using assms(5) by (simp add: unmarked_def filter_id_conv)
  have "sh_calls ?h = sh_calls h" by (simp add: set_signalling_def sig_simps)
  then have "sh_calls ?h' = sh_calls h @ map Inl called" using h1(3) by (simp only: e(2))
  moreover have "subseq (cbs k ?h') called" using h1(4) by (simp only: e(1))
  moreover have "\<forall>c \<in> set (cbs k ?h'). \<not> sc_remove c" unfolding e(1) by (simp add: unmarked_def)
  moreover have "\<not> si_signalling (sh_signals ?h' ! k)" unfolding e(3) by (rule h2(4))
  ultimately show ?thesis using r h1(5) unfolding un by blast
qed

text \<open>Three callbacks: the second disconnects the first and the third, the first removes itself.\<close>

definition wit_quiet :: "unit behaviour" where
  "wit_quiet c d k w = (w,
     if c = 0 \<and> k = 0 then Some RemoveCurrent
     else if c = 1 \<and> k = 0 then Some (Disconnect ''s'' 0 0)
     else if c = 1 \<and> k = 1 then Some (Disconnect ''s'' 2 0) else None)"

definition wit_three :: "unit signal_handler" where
  "wit_three = signal_handler_connect ''s'' 2 0 (signal_handler_connect ''s'' 1 0 (signal_handler_connect ''s'' 0 0
     (snd (signal_handler_add (signal_handler_create ()) (Some ''s'')))))"

lemma signal_delivers_witness:
  "\<exists>h' called. signal_handler_signal wit_quiet 9 ''s'' wit_three = Some (Some h') \<and>
    sh_calls h' = map Inl called \<and> subseq called (cbs 0 wit_three) \<and> subseq (cbs 0 h') called"
proof -
  have q: "quiet_callbacks 2 wit_quiet"
    by (auto simp: quiet_callbacks_def wit_quiet_def split: if_splits)
  have "sh_alive wit_three" "sh_refs wit_three - kept wit_three = 1" "pointers_ok wit_three" by code_simp+
  then have "handler_ok True wit_three" by (simp add: handler_ok_def owned_def)
  moreover have "getsignal wit_three ''s'' = Some 0" "items (sh_globals wit_three) = []" "length (cbs 0 wit_three) = 3"
    "list_all (\<lambda>c. \<not> sc_remove c) (cbs 0 wit_three)" "sh_calls wit_three = []"
    by code_simp+
  ultimately show ?thesis
    using signal_delivers [OF q, of wit_three "''s''" 0 9] by (auto simp: list_all_iff)
qed

subsection \<open>What goes wrong\<close>

text \<open>A callback that is disconnected and connected again while its signal is delivered is lost: the
connect finds the marked entry and adds nothing, and the entry is erased afterwards.\<close>
lemma reconnect_is_lost:
  assumes "getsignal h name = Some k" "si_signalling (sh_signals h ! k)"
    and "\<exists>c \<in> set (cbs k h). sc_callback c = cb \<and> sc_data c = d"
  shows "signal_handler_connect name cb d (signal_handler_disconnect name cb d h) =
    signal_handler_disconnect name cb d h"
proof -
  note k = getsignal_bound [OF assms(1)]
  let ?P = "\<lambda>sc. sc_callback sc = cb \<and> sc_data sc = d"
  obtain i where i: "signal_get_callback_idx (sh_signals h ! k) cb d = Some i"
    using assms(3) find_idx_None [of ?P "cbs k h"]
    by (cases "signal_get_callback_idx (sh_signals h ! k) cb d") (auto simp: signal_get_callback_idx_def cbs_def)
  have il: "i < length (cbs k h)" and ip: "?P (cbs k h ! i)"
    using i unfolding signal_get_callback_idx_def cbs_def by (blast dest: find_idx_Some)+
  let ?h = "signal_handler_disconnect name cb d h"
  have c: "cbs k ?h = (cbs k h)[i := (cbs k h ! i)\<lparr>sc_remove := True\<rparr>]"
    using assms i k by (simp add: signal_handler_disconnect_def Let_def cbs_def sig_simps)
  have "map si_name (sh_signals ?h) = map si_name (sh_signals h)"
    using assms i k by (simp add: signal_handler_disconnect_def Let_def sig_simps map_update list_update_same_conv)
  then have "getsignal ?h name = getsignal h name"
  proof -
    have "find_idx (\<lambda>si. si_name si = name) xs = find_idx (\<lambda>si. si_name si = name) ys"
      if "map si_name xs = map si_name ys" for xs ys
      using that by (induction xs arbitrary: ys) (auto simp: Cons_eq_map_conv)
    then show ?thesis using \<open>map si_name _ = _\<close> by (simp add: getsignal_def)
  qed
  moreover have "find_idx ?P (cbs k ?h) \<noteq> None"
    unfolding c find_idx_None using il ip by (auto simp: set_update_memI intro!: bexI [of _ "(cbs k h ! i)\<lparr>sc_remove := True\<rparr>"])
  ultimately show ?thesis
    using assms(1) by (auto simp: signal_handler_connect_def signal_handler_connect_internal_def Let_def
        signal_get_callback_idx_def cbs_def)
qed

text \<open>Two callbacks; the first emits the signal itself once and, in the nested delivery, disconnects
itself.  The nested delivery ends with the entry erased and the flag cleared, and the outer loop steps over
the second callback: it is called once for two signals.\<close>

definition nested_beh :: "nat behaviour" where
  "nested_beh c d k w = (w + 1,
     if c = 0 \<and> w = 0 then Some (Emit ''s'')
     else if c = 0 \<and> w = 1 then Some (Disconnect ''s'' 0 0) else None)"

definition nested_handler :: "nat signal_handler" where
  "nested_handler = signal_handler_connect ''s'' 1 0 (signal_handler_connect ''s'' 0 0
     (snd (signal_handler_add (signal_handler_create 0) (Some ''s''))))"

lemma nested_delivery_skips:
  "(case signal_handler_signal nested_beh 9 ''s'' nested_handler of
      Some (Some h) \<Rightarrow> map (map_sum sc_callback id) (sh_calls h) = [Inl 0, Inl 0, Inl 1] \<and> map sc_callback (cbs 0 h) = [1]
    | _ \<Rightarrow> False)"
  by code_simp

text \<open>A global callback cannot be disconnected while it runs: the search compares the whole element, its
\<^verbatim>\<open>signaling\<close> count included, so the branch for a callback that is being called is never taken.\<close>
lemma disconnect_global_never_marks:
  "find_global h cb d = Some i \<Longrightarrow> gc_signaling (items (sh_globals h) ! i) = 0"
  unfolding find_global_def by (drule find_idx_Some) simp

lemma disconnect_global_while_called:
  assumes "\<forall>g \<in> set (items (sh_globals h)). gc_callback g = cb \<and> gc_data g = d \<longrightarrow> gc_signaling g \<noteq> 0"
  shows "signal_handler_disconnect_global cb d h = h"
proof -
  have "find_global h cb d = None"
    unfolding find_global_def find_idx_None using assms by auto
  then show ?thesis by (simp add: signal_handler_disconnect_global_def)
qed

text \<open>A global callback that connects another one moves the array: the loop then writes
\<^verbatim>\<open>signaling\<close> through a pointer into the block that was freed.\<close>

definition connecting_beh :: "unit behaviour" where
  "connecting_beh c d k w = (w, if c = 0 \<and> k = 0 then Some (ConnectGlobal 1 0) else None)"

lemma connect_global_use_after_free:
  "signal_handler_signal connecting_beh 9 ''s''
     (signal_handler_connect_global 0 0 (snd (signal_handler_add (signal_handler_create ()) (Some ''s'')))) = None"
  by code_simp

text \<open>When the last reference is held by a callback that removes itself during delivery, the count goes to
0 and the handler is never freed: the decrement at the end of the delivery does not test for it.\<close>

definition leaving_beh :: "unit behaviour" where
  "leaving_beh c d k w = (w, if k = 0 then Some Destroy else if k = 1 then Some RemoveCurrent else None)"

lemma last_reference_leaks:
  "(case signal_handler_signal leaving_beh 9 ''s'' (signal_handler_connect_ref ''s'' 0 0
       (snd (signal_handler_add (signal_handler_create ()) (Some ''s'')))) of
      Some (Some h) \<Rightarrow> sh_refs h = 0 \<and> sh_alive h \<and> cbs 0 h = [] | _ \<Rightarrow> False)"
  by code_simp

subsection \<open>Tables of named entries\<close>

text \<open>
  The signals of a handler and the procedures of a handler are tables in which the first entry under
  a name stays: \<open>add\<close> tells whether the entry was new.
\<close>

locale first_wins =
  fixes lookup :: "'t \<Rightarrow> string \<Rightarrow> 'e option"
    and add :: "'t \<Rightarrow> string \<Rightarrow> 'e \<Rightarrow> 't"
  assumes lookup_add: "lookup (add t name e) n =
    (if lookup t n \<noteq> None then lookup t n else if n = name then Some e else None)"
begin

lemma lookup_adds:
  "lookup (foldl (\<lambda>t (n, e). add t n e) t es) name =
     (case lookup t name of Some e \<Rightarrow> Some e | None \<Rightarrow> map_of es name)"
  by (induction es arbitrary: t) (auto simp: lookup_add split: option.splits)

lemma lookup_stays: "lookup t name = Some e \<Longrightarrow> lookup (foldl (\<lambda>t (n, e). add t n e) t es) name = Some e"
  by (simp add: lookup_adds)

end

definition proc_lookup :: "proc_info list \<Rightarrow> string \<Rightarrow> (nat \<times> nat) option" where
  "proc_lookup procs name = map_option (\<lambda>p. (pi_callback p, pi_data p)) (getproc procs name)"

definition proc_add :: "proc_info list \<Rightarrow> string \<Rightarrow> nat \<times> nat \<Rightarrow> proc_info list" where
  "proc_add procs name e = proc_handler_add procs (Some name) (fst e) (snd e)"

lemma find_append: "List.find P (xs @ ys) = (case List.find P xs of Some x \<Rightarrow> Some x | None \<Rightarrow> List.find P ys)"
  by (induction xs) auto

interpretation procs: first_wins proc_lookup proc_add
  by unfold_locales
    (auto simp: proc_lookup_def proc_add_def proc_handler_add_def getproc_def find_append split: option.splits)

text \<open>The position of a signal in the handler never changes.\<close>

lemma find_idx_append:
  "find_idx P (xs @ ys) = (case find_idx P xs of Some i \<Rightarrow> Some i | None \<Rightarrow> map_option ((+) (length xs)) (find_idx P ys))"
  by (induction xs; cases "find_idx P ys") (auto split: option.splits)

lemma signal_declared:
  "getsignal (snd (signal_handler_add h (Some name))) n =
     (if getsignal h n \<noteq> None then getsignal h n else if n = name then Some (length (sh_signals h)) else None)"
  by (auto simp: signal_handler_add_def getsignal_def find_idx_append signal_info_create_def split: option.splits)

text \<open>The first registration of a procedure stays.  After registering any sequence of procedures, valid
or not, calling a name runs the first procedure registered under it; a name never registered is reported and
nothing is called.\<close>
theorem proc_call_first:
  "proc_handler_call call (foldl (\<lambda>ps (decl_name, c, d). proc_handler_add ps decl_name c d) proc_handler_create regs) name w =
     (case map_of (concat (map (\<lambda>(n, e). case n of Some n \<Rightarrow> [(n, e)] | None \<Rightarrow> []) regs)) name of
        Some (c, d) \<Rightarrow> (True, call c d w) | None \<Rightarrow> (False, w))"
proof -
  let ?es = "concat (map (\<lambda>(n, e). case n of Some n \<Rightarrow> [(n, e)] | None \<Rightarrow> []) regs)"
  have "foldl (\<lambda>ps (decl_name, c, d). proc_handler_add ps decl_name c d) ps regs =
      foldl (\<lambda>t (n, e). proc_add t n e) ps ?es" for ps
    by (induction regs arbitrary: ps) (auto simp: proc_add_def proc_handler_add_def split: option.splits)
  moreover have "proc_lookup (foldl (\<lambda>t (n, e). proc_add t n e) proc_handler_create ?es) name = map_of ?es name"
  proof -
    have "proc_lookup proc_handler_create name = None"
      by (simp add: proc_lookup_def proc_handler_create_def getproc_def)
    then show ?thesis unfolding procs.lookup_adds by simp
  qed
  ultimately have "proc_lookup (foldl (\<lambda>ps (decl_name, c, d). proc_handler_add ps decl_name c d) proc_handler_create regs) name =
      map_of ?es name" by simp
  then show ?thesis
    unfolding proc_handler_call_def proc_lookup_def
    by (cases "map_of ?es name") (auto split: option.splits)
qed

end
