(* ===== verification/Video_Output.thy ===== *)
theory Video_Output
  imports Obs_Prelude Pause
begin

text \<open>
  The video output (\<^verbatim>\<open>src/libobs/media-io/video-io.c\<close>) and its producer
  (\<^verbatim>\<open>video_sleep\<close> and \<^verbatim>\<open>output_video_data\<close> of
  \<^verbatim>\<open>obs-video.c\<close>): a ring of cached frames between the graphics thread, which writes
  pictures, and the video thread, which hands them to the connected inputs.

  The functions are the critical sections of the code.  \<open>video_step\<close> interleaves the two
  threads: one step is what a thread does while it holds a mutex, or one access outside of them (the
  picture is written, and the cached frame is read, without \<^verbatim>\<open>data_mutex\<close>).

  A picture is a value of type \<open>'d\<close>.  \<open>scale sc\<close> is the scaler \<open>sc\<close>
  (\<^verbatim>\<open>libswscale\<close>), \<open>None\<close> when it fails.  The \<^verbatim>\<open>int\<close> counters
  are integers.
\<close>

subsection \<open>Data\<close>

datatype video_colorspace = VIDEO_CS_DEFAULT | VIDEO_CS_601 | VIDEO_CS_709 | VIDEO_CS_SRGB
  | VIDEO_CS_2100_PQ | VIDEO_CS_2100_HLG

datatype video_range_type = VIDEO_RANGE_DEFAULT | VIDEO_RANGE_PARTIAL | VIDEO_RANGE_FULL

record video_scale_info =
  vs_format :: nat
  vs_width :: "32 word"
  vs_height :: "32 word"
  vs_range :: video_range_type
  vs_colorspace :: video_colorspace

record video_output_info =
  vi_scale :: video_scale_info
  vi_fps_num :: "32 word"
  vi_fps_den :: "32 word"
  vi_cache_size :: nat

record 'd cached_frame_info =
  cfi_picture :: 'd
  cfi_timestamp :: "64 word"
  cfi_skipped :: int
  cfi_count :: int

record video_input =
  in_conversion :: video_scale_info
  in_scaler :: "nat option"
  in_cur_frame :: nat
  in_divisor :: "32 word"
  in_divisor_counter :: "32 word"
  in_callback :: nat
  in_param :: nat

text \<open>\<open>vo_calls\<close> is the sequence of the calls of the inputs.\<close>

record 'd video_output =
  vo_info :: video_output_info
  vo_stop :: bool
  vo_semaphore :: nat
  vo_frame_time :: "64 word"
  vo_skipped :: int
  vo_total :: int
  vo_inputs :: "video_input list"
  vo_available :: "64 word"
  vo_first :: nat
  vo_last :: nat
  vo_cache :: "'d cached_frame_info list"
  vo_raw_active :: bool
  vo_gpu_refs :: int
  vo_calls :: "(nat \<times> nat \<times> 'd \<times> 64 word) list"

definition MAX_CONVERT_BUFFERS :: nat where "MAX_CONVERT_BUFFERS = 3"
definition MAX_CACHE_SIZE :: nat where "MAX_CACHE_SIZE = 16"

definition cache_size :: "'d video_output \<Rightarrow> nat" where
  "cache_size v = vi_cache_size (vo_info v)"

subsection \<open>The video thread\<close>

text \<open>The frame handed to an input, and the input afterwards.\<close>

definition scale_video_output ::
    "(nat \<Rightarrow> 'd \<Rightarrow> 'd option) \<Rightarrow> video_input \<Rightarrow> 'd \<Rightarrow> 'd option \<times> video_input" where
  "scale_video_output scale input picture =
     (case in_scaler input of
        None \<Rightarrow> (Some picture, input)
      | Some sc \<Rightarrow>
          (let cur = in_cur_frame input + 1;
               cur = (if cur = MAX_CONVERT_BUFFERS then 0 else cur) in
           (scale sc picture, input\<lparr>in_cur_frame := cur\<rparr>)))"

definition input_skip :: "video_input \<Rightarrow> bool \<times> video_input" where
  "input_skip input =
     (let skip = in_divisor_counter input;
          counter = skip + 1;
          counter = (if counter = in_divisor input then 0 else counter) in
      (skip \<noteq> 0, input\<lparr>in_divisor_counter := counter\<rparr>))"

definition output_to_input ::
    "(nat \<Rightarrow> 'd \<Rightarrow> 'd option) \<Rightarrow> 'd cached_frame_info \<Rightarrow> video_input \<Rightarrow>
     (nat \<times> nat \<times> 'd \<times> 64 word) list \<times> video_input" where
  "output_to_input scale frame_info input =
     (let (skip, input) = input_skip input in
      if skip then ([], input)
      else let (frame, input) = scale_video_output scale input (cfi_picture frame_info) in
        (case frame of
           None \<Rightarrow> ([], input)
         | Some picture \<Rightarrow> ([(in_callback input, in_param input, picture, cfi_timestamp frame_info)], input)))"

text \<open>The first two critical sections of \<^verbatim>\<open>video_output_cur_frame\<close>: the frame is
chosen and given to every input.\<close>

definition cur_frame_output ::
    "(nat \<Rightarrow> 'd \<Rightarrow> 'd option) \<Rightarrow> 'd video_output \<Rightarrow> nat \<times> 'd video_output" where
  "cur_frame_output scale v =
     (let slot = vo_first v; frame_info = vo_cache v ! slot;
          rs = map (output_to_input scale frame_info) (vo_inputs v) in
      (slot, v\<lparr>vo_inputs := map snd rs, vo_calls := vo_calls v @ concat (map fst rs)\<rparr>))"

text \<open>The last critical section, on the frame in \<open>slot\<close>.\<close>

definition cur_frame_complete :: "nat \<Rightarrow> 'd video_output \<Rightarrow> bool \<times> 'd video_output" where
  "cur_frame_complete slot v =
     (let frame_info = vo_cache v ! slot;
          frame_info = frame_info\<lparr>cfi_timestamp := cfi_timestamp frame_info + vo_frame_time v,
                                  cfi_count := cfi_count frame_info - 1\<rparr>;
          complete = (cfi_count frame_info = 0);
          skipped = (cfi_skipped frame_info > 0) in
      if complete then
        (let first = vo_first v + 1;
             first = (if first = cache_size v then 0 else first);
             available = vo_available v + 1;
             last = (if available = of_nat (cache_size v) then first else vo_last v) in
         (True, v\<lparr>vo_cache := (vo_cache v)[slot := frame_info], vo_first := first,
                   vo_available := available, vo_last := last\<rparr>))
      else if skipped then
        (False, v\<lparr>vo_cache := (vo_cache v)[slot := frame_info\<lparr>cfi_skipped := cfi_skipped frame_info - 1\<rparr>],
                   vo_skipped := vo_skipped v + 1\<rparr>)
      else (False, v\<lparr>vo_cache := (vo_cache v)[slot := frame_info]\<rparr>))"

definition video_output_cur_frame ::
    "(nat \<Rightarrow> 'd \<Rightarrow> 'd option) \<Rightarrow> 'd video_output \<Rightarrow> bool \<times> 'd video_output" where
  "video_output_cur_frame scale v = (let (slot, v) = cur_frame_output scale v in cur_frame_complete slot v)"

subsection \<open>The producer\<close>

definition video_output_lock_frame ::
    "int \<Rightarrow> 64 word \<Rightarrow> 'd video_output \<Rightarrow> bool \<times> 'd video_output" where
  "video_output_lock_frame frame_count ts v =
     (if vo_available v = 0 then
        (let cfi = vo_cache v ! vo_last v in
         (False, v\<lparr>vo_cache := (vo_cache v)[vo_last v :=
            cfi\<lparr>cfi_count := cfi_count cfi + frame_count, cfi_skipped := cfi_skipped cfi + frame_count\<rparr>]\<rparr>))
      else
        (let last = (if vo_available v \<noteq> of_nat (cache_size v) then
                       let l = vo_last v + 1 in if l = cache_size v then 0 else l
                     else vo_last v);
             cfi = vo_cache v ! last in
         (True, v\<lparr>vo_last := last,
                   vo_cache := (vo_cache v)[last :=
                     cfi\<lparr>cfi_timestamp := ts, cfi_count := frame_count, cfi_skipped := 0\<rparr>]\<rparr>)))"

text \<open>Writing the picture into the frame that was locked.\<close>

definition write_picture :: "nat \<Rightarrow> 'd \<Rightarrow> 'd video_output \<Rightarrow> 'd video_output" where
  "write_picture slot picture v =
     v\<lparr>vo_cache := (vo_cache v)[slot := (vo_cache v ! slot)\<lparr>cfi_picture := picture\<rparr>]\<rparr>"

definition video_output_unlock_frame :: "'d video_output \<Rightarrow> 'd video_output" where
  "video_output_unlock_frame v =
     v\<lparr>vo_available := vo_available v - 1, vo_semaphore := vo_semaphore v + 1\<rparr>"

definition output_video_data :: "'d \<Rightarrow> 64 word \<Rightarrow> int \<Rightarrow> 'd video_output \<Rightarrow> 'd video_output" where
  "output_video_data picture ts frame_count v =
     (let (locked, v) = video_output_lock_frame frame_count ts v in
      if locked then video_output_unlock_frame (write_picture (vo_last v) picture v) else v)"

text \<open>
  The time of the next frame and the number of frame intervals for the current one:
  \<open>slept\<close> is the answer of \<^verbatim>\<open>os_sleepto_ns\<close> and \<open>now\<close> the time afterwards.
\<close>

definition video_sleep :: "64 word \<Rightarrow> 64 word \<Rightarrow> bool \<Rightarrow> 64 word \<Rightarrow> 64 word \<times> int" where
  "video_sleep cur_time interval_ns slept now =
     (let t = cur_time + interval_ns in
      if slept then (t, 1)
      else let udiff = now - cur_time;
               clamped_diff = (if sint udiff > sint interval_ns then udiff else interval_ns);
               frame_count = sint (ucast (clamped_diff div interval_ns) :: 32 word) in
        (cur_time + interval_ns * word_of_int frame_count, frame_count))"

subsection \<open>Opening, connecting, stopping\<close>

definition valid_video_params :: "video_output_info \<Rightarrow> bool" where
  "valid_video_params info \<longleftrightarrow>
     vs_height (vi_scale info) \<noteq> 0 \<and> vs_width (vi_scale info) \<noteq> 0 \<and> vi_fps_den info \<noteq> 0 \<and> vi_fps_num info \<noteq> 0"

definition init_cache :: "'d video_output \<Rightarrow> 'd video_output" where
  "init_cache v =
     (let n = (if cache_size v > MAX_CACHE_SIZE then MAX_CACHE_SIZE else cache_size v) in
      v\<lparr>vo_info := (vo_info v)\<lparr>vi_cache_size := n\<rparr>, vo_available := of_nat n\<rparr>)"

text \<open>\<open>sys_ok\<close>: the mutexes, the semaphore and the thread could be created;
\<open>blank\<close> is the picture of a fresh frame.\<close>

definition video_output_open :: "bool \<Rightarrow> 'd \<Rightarrow> video_output_info \<Rightarrow> (int \<times> 'd video_output option) option" where
  "video_output_open sys_ok blank info =
     (if \<not> valid_video_params info then Some (-1, None)
      else do { frame_time \<leftarrow> util_mul_div64 1000000000 (ucast (vi_fps_den info)) (ucast (vi_fps_num info));
        if \<not> sys_ok then Some (-2, None)
        else Some (0, Some (init_cache
        \<lparr>vo_info = info, vo_stop = False, vo_semaphore = 0, vo_frame_time = frame_time,
         vo_skipped = 0, vo_total = 0, vo_inputs = [], vo_available = 0, vo_first = 0, vo_last = 0,
         vo_cache = replicate MAX_CACHE_SIZE
           \<lparr>cfi_picture = blank, cfi_timestamp = 0, cfi_skipped = 0, cfi_count = 0\<rparr>,
         vo_raw_active = False, vo_gpu_refs = 0, vo_calls = []\<rparr>)) })"

definition match_range :: "video_range_type \<Rightarrow> video_range_type \<Rightarrow> bool" where
  "match_range a b \<longleftrightarrow> (a = VIDEO_RANGE_FULL) = (b = VIDEO_RANGE_FULL)"

definition collapse_space :: "video_colorspace \<Rightarrow> video_colorspace" where
  "collapse_space cs =
     (case cs of VIDEO_CS_SRGB \<Rightarrow> VIDEO_CS_709 | VIDEO_CS_2100_HLG \<Rightarrow> VIDEO_CS_2100_PQ | _ \<Rightarrow> cs)"

definition match_space :: "video_colorspace \<Rightarrow> video_colorspace \<Rightarrow> bool" where
  "match_space a b \<longleftrightarrow> a = VIDEO_CS_DEFAULT \<or> b = VIDEO_CS_DEFAULT \<or> collapse_space a = collapse_space b"

definition video_get_input_idx :: "'d video_output \<Rightarrow> nat \<Rightarrow> nat \<Rightarrow> nat option" where
  "video_get_input_idx v callback param =
     (let i = length (takeWhile (\<lambda>x. \<not> (in_callback x = callback \<and> in_param x = param)) (vo_inputs v)) in
      if i < length (vo_inputs v) then Some i else None)"

text \<open>\<open>create\<close> is \<^verbatim>\<open>video_scaler_create\<close>: the scaler, or \<open>None\<close> when it fails.\<close>

definition video_input_init ::
    "(video_scale_info \<Rightarrow> video_scale_info \<Rightarrow> nat option) \<Rightarrow> video_input \<Rightarrow> 'd video_output \<Rightarrow> video_input option" where
  "video_input_init create input v =
     (let c = in_conversion input; f = vi_scale (vo_info v) in
      if vs_width c \<noteq> vs_width f \<or> vs_height c \<noteq> vs_height f \<or> vs_format c \<noteq> vs_format f \<or>
         \<not> match_range (vs_range c) (vs_range f) \<or> \<not> match_space (vs_colorspace c) (vs_colorspace f)
      then map_option (\<lambda>sc. input\<lparr>in_scaler := Some sc\<rparr>) (create c f)
      else Some input)"

definition reset_frames :: "'d video_output \<Rightarrow> 'd video_output" where
  "reset_frames v = v\<lparr>vo_skipped := 0, vo_total := 0\<rparr>"

definition video_output_connect2 ::
    "(video_scale_info \<Rightarrow> video_scale_info \<Rightarrow> nat option) \<Rightarrow> video_scale_info option \<Rightarrow> 32 word \<Rightarrow> nat \<Rightarrow> nat \<Rightarrow>
     'd video_output \<Rightarrow> bool \<times> 'd video_output" where
  "video_output_connect2 create conversion frame_rate_divisor callback param v =
     (if frame_rate_divisor = 0 then (False, v)
      else case video_get_input_idx v callback param of
        Some _ \<Rightarrow> (False, v)
      | None \<Rightarrow>
          (let c = (case conversion of Some c \<Rightarrow> c | None \<Rightarrow> vi_scale (vo_info v));
               c = (if vs_width c = 0 then c\<lparr>vs_width := vs_width (vi_scale (vo_info v))\<rparr> else c);
               c = (if vs_height c = 0 then c\<lparr>vs_height := vs_height (vi_scale (vo_info v))\<rparr> else c);
               input = \<lparr>in_conversion = c, in_scaler = None, in_cur_frame = 0, in_divisor = frame_rate_divisor,
                        in_divisor_counter = 0, in_callback = callback, in_param = param\<rparr> in
           case video_input_init create input v of
             None \<Rightarrow> (False, v)
           | Some input \<Rightarrow>
               (let v = (if vo_inputs v = [] then
                           (if vo_gpu_refs v = 0 then reset_frames v else v)\<lparr>vo_raw_active := True\<rparr>
                         else v) in
                (True, v\<lparr>vo_inputs := vo_inputs v @ [input]\<rparr>))))"

definition video_output_connect where
  "video_output_connect create conversion callback param v =
     video_output_connect2 create conversion 1 callback param v"

definition video_output_disconnect2 :: "nat \<Rightarrow> nat \<Rightarrow> 'd video_output \<Rightarrow> bool \<times> 'd video_output" where
  "video_output_disconnect2 callback param v =
     (case video_get_input_idx v callback param of
        None \<Rightarrow> (False, v)
      | Some idx \<Rightarrow>
          (let v = v\<lparr>vo_inputs := take idx (vo_inputs v) @ drop (Suc idx) (vo_inputs v)\<rparr> in
           (True, if vo_inputs v = [] then v\<lparr>vo_raw_active := False\<rparr> else v)))"

text \<open>The part of \<^verbatim>\<open>video_output_stop\<close> before it waits for the thread.\<close>

definition video_output_stop :: "'d video_output \<Rightarrow> 'd video_output" where
  "video_output_stop v =
     (if \<not> vo_stop v then v\<lparr>vo_stop := True, vo_semaphore := vo_semaphore v + 1\<rparr> else v)"

definition video_output_inc_texture_encoders :: "'d video_output \<Rightarrow> 'd video_output" where
  "video_output_inc_texture_encoders v =
     (let v = v\<lparr>vo_gpu_refs := vo_gpu_refs v + 1\<rparr> in
      if vo_gpu_refs v = 1 \<and> \<not> vo_raw_active v then reset_frames v else v)"

definition video_output_dec_texture_encoders :: "'d video_output \<Rightarrow> 'd video_output" where
  "video_output_dec_texture_encoders v = v\<lparr>vo_gpu_refs := vo_gpu_refs v - 1\<rparr>"

definition video_output_inc_texture_frames :: "'d video_output \<Rightarrow> 'd video_output" where
  "video_output_inc_texture_frames v = v\<lparr>vo_total := vo_total v + 1\<rparr>"

definition video_output_inc_texture_skipped_frames :: "'d video_output \<Rightarrow> 'd video_output" where
  "video_output_inc_texture_skipped_frames v = v\<lparr>vo_skipped := vo_skipped v + 1\<rparr>"

subsection \<open>The two threads\<close>

text \<open>
  The video thread waits for the semaphore, tests the loop condition, or has given a frame to the
  inputs and has yet to complete it; the graphics thread is between frames, or owns a locked one.
  \<open>requests\<close> are the pictures asked for, each with its time and the number of frame intervals it
  stands for; the times are whatever the graphics thread asks for, for it makes no request while no
  input is connected.  \<open>frames\<close> are the frames the video thread has worked on; what the inputs
  were called with is in \<open>vo_calls\<close>.
\<close>

datatype video_pc = VWait | VTest | VComplete nat | VExit

datatype producer_pc = PIdle | PLocked nat

record 'd video_sys =
  vsys :: "'d video_output"
  vpc :: video_pc
  ppc :: producer_pc
  requests :: "('d \<times> 64 word \<times> nat) list"
  frames :: "('d \<times> 64 word) list"

definition add_to_last :: "nat \<Rightarrow> ('d \<times> 64 word \<times> nat) list \<Rightarrow> ('d \<times> 64 word \<times> nat) list" where
  "add_to_last n rs = butlast rs @ [(fst (last rs), fst (snd (last rs)), snd (snd (last rs)) + n)]"

inductive video_step :: "(nat \<Rightarrow> 'd \<Rightarrow> 'd option) \<Rightarrow> 'd video_sys \<Rightarrow> 'd video_sys \<Rightarrow> bool" for scale where
  wait: "vpc s = VWait \<Longrightarrow> vo_semaphore (vsys s) = Suc k \<Longrightarrow>
    video_step scale s (s\<lparr>vsys := (vsys s)\<lparr>vo_semaphore := k\<rparr>,
      vpc := if vo_stop (vsys s) then VExit else VTest\<rparr>)"
| loop_stopped: "vpc s = VTest \<Longrightarrow> vo_stop (vsys s) \<Longrightarrow>
    video_step scale s (s\<lparr>vsys := (vsys s)\<lparr>vo_total := vo_total (vsys s) + 1\<rparr>, vpc := VWait\<rparr>)"
| deliver: "vpc s = VTest \<Longrightarrow> \<not> vo_stop (vsys s) \<Longrightarrow> cur_frame_output scale (vsys s) = (slot, v) \<Longrightarrow>
    video_step scale s (s\<lparr>vsys := v, vpc := VComplete slot,
      frames := frames s @ [(cfi_picture (vo_cache (vsys s) ! slot), cfi_timestamp (vo_cache (vsys s) ! slot))]\<rparr>)"
| complete: "vpc s = VComplete slot \<Longrightarrow> cur_frame_complete slot (vsys s) = (done, v) \<Longrightarrow>
    video_step scale s (s\<lparr>vsys := v\<lparr>vo_total := vo_total v + 1\<rparr>, vpc := if done then VWait else VTest\<rparr>)"
| lock: "ppc s = PIdle \<Longrightarrow> 0 < n \<Longrightarrow> video_output_lock_frame (int n) ts (vsys s) = (True, v) \<Longrightarrow>
    video_step scale s (s\<lparr>vsys := v, ppc := PLocked (vo_last v)\<rparr>)"
| full: "ppc s = PIdle \<Longrightarrow> 0 < n \<Longrightarrow> video_output_lock_frame (int n) ts (vsys s) = (False, v) \<Longrightarrow>
    video_step scale s (s\<lparr>vsys := v, requests := add_to_last n (requests s)\<rparr>)"
| picture: "ppc s = PLocked slot \<Longrightarrow> video_step scale s (s\<lparr>vsys := write_picture slot picture (vsys s)\<rparr>)"
| unlock: "ppc s = PLocked slot \<Longrightarrow> cfi = vo_cache (vsys s) ! slot \<Longrightarrow>
    video_step scale s (s\<lparr>vsys := video_output_unlock_frame (vsys s), ppc := PIdle,
      requests := requests s @ [(cfi_picture cfi, cfi_timestamp cfi, nat (cfi_count cfi))]\<rparr>)"
| connect: "video_output_connect2 create conversion dv callback param (vsys s) = (ok, v) \<Longrightarrow>
    video_step scale s (s\<lparr>vsys := v\<rparr>)"
| disconnect: "video_output_disconnect2 callback param (vsys s) = (ok, v) \<Longrightarrow> video_step scale s (s\<lparr>vsys := v\<rparr>)"
| stop: "video_step scale s (s\<lparr>vsys := video_output_stop (vsys s)\<rparr>)"

inductive video_reachable ::
    "(nat \<Rightarrow> 'd \<Rightarrow> 'd option) \<Rightarrow> 'd video_output \<Rightarrow> 'd video_sys \<Rightarrow> bool" for scale v0 where
  start: "video_reachable scale v0 \<lparr>vsys = v0, vpc = VWait, ppc = PIdle, requests = [], frames = []\<rparr>"
| step: "video_reachable scale v0 s \<Longrightarrow> video_step scale s t \<Longrightarrow> video_reachable scale v0 t"

inductive_cases video_stepE: "video_step scale s t"

subsection \<open>Rings\<close>

definition ring :: "nat \<Rightarrow> nat \<Rightarrow> 'a list \<Rightarrow> nat \<Rightarrow> 'a list" where
  "ring f n c k = map (\<lambda>i. c ! ((f + i) mod n)) [0..<k]"

lemma ring_length [simp]: "length (ring f n c k) = k"
  by (simp add: ring_def)

lemma ring_Suc: "ring f n c (Suc k) = ring f n c k @ [c ! ((f + k) mod n)]"
  by (simp add: ring_def)

lemma ring_Cons: "f < n \<Longrightarrow> ring f n c (Suc k) = c ! f # ring (Suc f mod n) n c k"
  by (rule nth_equalityI) (auto simp: ring_def nth_Cons mod_add_left_eq split: nat.split simp del: upt_Suc)

lemma ring_index_eq:
  assumes "i < n" "j < n" "(f + i) mod n = (f + j) mod (n :: nat)"
  shows "i = j"
proof -
  have "(int f + int i) mod int n = (int f + int j) mod int n"
    using assms(3) by (simp flip: of_nat_add of_nat_mod)
  from mod_diff_cong [OF this refl, of "int f"] have "int i mod int n = int j mod int n" by simp
  then show ?thesis using assms(1,2) by simp
qed

lemma ring_update_out:
  assumes "k \<le> j" "j < n"
  shows "ring f n (c[(f + j) mod n := x]) k = ring f n c k"
proof -
  have "(f + j) mod n \<noteq> (f + i) mod n" if "i < k" for i
    using that assms ring_index_eq [of j n i f] by fastforce
  then show ?thesis by (simp add: ring_def)
qed

lemma ring_update_in:
  assumes "j < k" "k \<le> n" "n \<le> length c"
  shows "ring f n (c[(f + j) mod n := x]) k = (ring f n c k)[j := x]"
proof (rule nth_equalityI)
  fix i assume i: "i < length (ring f n (c[(f + j) mod n := x]) k)"
  have b: "(f + j) mod n < length c" using assms by (intro less_le_trans [OF mod_less_divisor]) auto
  show "ring f n (c[(f + j) mod n := x]) k ! i = (ring f n c k)[j := x] ! i"
  proof (cases "i = j")
    case True
    then show ?thesis using i b by (simp add: ring_def)
  next
    case False
    then have "(f + j) mod n \<noteq> (f + i) mod n" using i assms ring_index_eq [of j n i f] by fastforce
    then show ?thesis using i False by (simp add: ring_def)
  qed
qed simp

subsection \<open>The ring of cached frames\<close>

definition used :: "'d video_output \<Rightarrow> nat" where
  "used v = cache_size v - unat (vo_available v)"

definition vring :: "'d video_output \<Rightarrow> 'd cached_frame_info list" where
  "vring v = ring (vo_first v) (cache_size v) (vo_cache v) (used v)"

definition ring_ok :: "'d video_output \<Rightarrow> producer_pc \<Rightarrow> bool" where
  "ring_ok v p \<longleftrightarrow>
     1 \<le> cache_size v \<and> cache_size v \<le> 16 \<and> length (vo_cache v) = 16 \<and> vo_first v < cache_size v \<and>
     unat (vo_available v) \<le> cache_size v \<and>
     (case p of
        PIdle \<Rightarrow> vo_last v = (if used v = 0 then vo_first v else (vo_first v + (used v - 1)) mod cache_size v)
      | PLocked i \<Rightarrow> i = vo_last v \<and> used v < cache_size v \<and> vo_last v = (vo_first v + used v) mod cache_size v)"

definition same_ring :: "'d video_output \<Rightarrow> 'd video_output \<Rightarrow> bool" where
  "same_ring v v' \<longleftrightarrow> cache_size v' = cache_size v \<and> vo_cache v' = vo_cache v \<and> vo_first v' = vo_first v \<and>
     vo_last v' = vo_last v \<and> vo_available v' = vo_available v \<and> vo_frame_time v' = vo_frame_time v"

lemma same_ringD:
  assumes "same_ring v v'"
  shows "ring_ok v' p = ring_ok v p" "vring v' = vring v" "used v' = used v" "vo_cache v' = vo_cache v"
    "vo_first v' = vo_first v" "vo_frame_time v' = vo_frame_time v" "cache_size v' = cache_size v"
  using assms by (simp_all add: same_ring_def ring_ok_def vring_def used_def cong: producer_pc.case_cong)

lemma word_eq_size:
  "n \<le> 16 \<Longrightarrow> (w :: 64 word) = of_nat n \<longleftrightarrow> unat w = n"
  by (auto simp: word_unat_eq_iff unat_of_nat take_bit_nat_eq_self)

lemma unat_inc: "unat (w :: 64 word) < 16 \<Longrightarrow> unat (w + 1) = unat w + 1"
  by (simp add: unat_add_lem [THEN iffD1])

lemma unat_dec: "(w :: 64 word) \<noteq> 0 \<Longrightarrow> unat (w - 1) = unat w - 1"
  by (simp add: unat_minus_one)

lemma next_index: "f < n \<Longrightarrow> (if f + 1 = n then 0 else f + 1) = Suc f mod (n :: nat)"
  by (auto simp: mod_less)

lemma Suc_mod_add: "(Suc f mod n + i) mod n = (f + Suc i) mod (n :: nat)"
  by (simp add: mod_add_left_eq)

lemma ring_ok_first: "ring_ok v p \<Longrightarrow> vo_first v < length (vo_cache v)"
  by (auto simp: ring_ok_def)

lemma complete_ring:
  assumes ok: "ring_ok v p" and u: "used v = Suc k" and c: "cur_frame_complete (vo_first v) v = (done, v')"
  defines "h \<equiv> vo_cache v ! vo_first v"
  shows "done = (cfi_count h = 1)" "ring_ok v' p" "cache_size v' = cache_size v" "vo_frame_time v' = vo_frame_time v"
    "vo_semaphore v' = vo_semaphore v" "vo_stop v' = vo_stop v"
    "p = PLocked i \<Longrightarrow> vo_cache v' ! i = vo_cache v ! i"
    "vring v = h # tl (vring v)"
    "done \<Longrightarrow> used v' = k \<and> vring v' = tl (vring v)"
    "\<not> done \<Longrightarrow> used v' = Suc k \<and> (\<exists>sk. vring v' = h\<lparr>cfi_timestamp := cfi_timestamp h + vo_frame_time v,
        cfi_count := cfi_count h - 1, cfi_skipped := sk\<rparr> # tl (vring v))"
proof -
  let ?n = "cache_size v" and ?f = "vo_first v"
  have n: "1 \<le> ?n" "?n \<le> 16" "length (vo_cache v) = 16" "?f < ?n" "unat (vo_available v) \<le> ?n"
    using ok by (simp_all add: ring_ok_def)
  have kn: "Suc k \<le> ?n" using u by (auto simp: used_def)
  have av: "unat (vo_available v) < 16" "unat (vo_available v) = ?n - Suc k" using u n by (auto simp: used_def)
  have inc: "unat (vo_available v + 1) = ?n - k" using unat_inc [OF av(1)] av(2) kn by simp
  have r: "vring v = h # ring (Suc ?f mod ?n) ?n (vo_cache v) k"
    unfolding vring_def u h_def by (rule ring_Cons [OF n(4)])
  show v: "vring v = h # tl (vring v)" using r by simp
  show d: "done = (cfi_count h = 1)"
    using c by (auto simp: cur_frame_complete_def Let_def h_def split: if_splits)
  show "cache_size v' = cache_size v" "vo_frame_time v' = vo_frame_time v"
    "vo_semaphore v' = vo_semaphore v" "vo_stop v' = vo_stop v"
    using c by (auto simp: cur_frame_complete_def Let_def cache_size_def split: if_splits)
  let ?sk = "if \<not> done \<and> cfi_skipped h > 0 then cfi_skipped h - 1 else cfi_skipped h"
  define h' where "h' = h\<lparr>cfi_timestamp := cfi_timestamp h + vo_frame_time v, cfi_count := cfi_count h - 1,
    cfi_skipped := ?sk\<rparr>"
  have h': "vo_cache v' = (vo_cache v)[?f := h']"
    using c unfolding h'_def
    by (cases "vo_cache v ! vo_first v") (auto simp: cur_frame_complete_def Let_def h_def split: if_splits)
  have f0: "?f = (?f + 0) mod ?n" using n(4) by simp
  { assume nd: "\<not> done"
    have same: "vo_first v' = ?f" "vo_available v' = vo_available v" "vo_last v' = vo_last v" "cache_size v' = ?n"
      using c nd by (auto simp: cur_frame_complete_def Let_def cache_size_def split: if_splits)
    then have u': "used v' = Suc k" using u by (simp add: used_def)
    have "vring v' = (vring v)[0 := h']"
      unfolding vring_def same u u' h'
      using ring_update_in [of 0 "Suc k" ?n "vo_cache v" ?f h'] kn n f0 by simp
    then have rv: "vring v' = h' # tl (vring v)" by (subst (asm) v) simp
    have "ring_ok v' p" using ok same u u' h'
      by (simp add: ring_ok_def cong: producer_pc.case_cong)
    note nd_case = u' rv this
  } note nd_case = this
  { assume dn: "done"
    have same: "vo_first v' = Suc ?f mod ?n" "vo_available v' = vo_available v + 1" "cache_size v' = ?n"
      "vo_last v' = (if vo_available v + 1 = of_nat ?n then Suc ?f mod ?n else vo_last v)"
      using c dn next_index [OF n(4)] by (auto simp: cur_frame_complete_def Let_def cache_size_def split: if_splits)
    have u': "used v' = k" unfolding used_def same inc using kn by simp
    have eqk: "vo_available v + 1 = of_nat ?n \<longleftrightarrow> k = 0"
      using word_eq_size [OF n(2), of "vo_available v + 1"] inc kn by auto
    have "vring v' = ring (Suc ?f mod ?n) ?n (vo_cache v) k"
    proof -
      have "?f = (Suc ?f mod ?n + (?n - 1)) mod ?n"
        unfolding Suc_mod_add using n by (simp add: mod_add_right_eq)
      then have "ring (Suc ?f mod ?n) ?n ((vo_cache v)[?f := h']) k = ring (Suc ?f mod ?n) ?n (vo_cache v) k"
        using ring_update_out [of k "?n - 1" ?n "Suc ?f mod ?n" "vo_cache v" h'] kn n by simp
      then show ?thesis unfolding vring_def same u' h' by simp
    qed
    then have rv: "vring v' = tl (vring v)" using r by simp
    have "ring_ok v' p"
    proof -
      have "case p of PIdle \<Rightarrow> vo_last v' = (if k = 0 then Suc ?f mod ?n else (Suc ?f mod ?n + (k - 1)) mod ?n)
        | PLocked i \<Rightarrow> i = vo_last v' \<and> k < ?n \<and> vo_last v' = (Suc ?f mod ?n + k) mod ?n"
        using ok u kn unfolding same(4) eqk Suc_mod_add
        by (cases p) (auto simp: ring_ok_def mod_add_left_eq)
      then show ?thesis using n inc unfolding ring_ok_def u' same(1-3) h' by simp
    qed
    note dn_case = u' rv this
  } note dn_case = this
  show "ring_ok v' p" using nd_case(3) dn_case(3) by blast
  show "done \<Longrightarrow> used v' = k \<and> vring v' = tl (vring v)" using dn_case(1,2) by blast
  show "\<not> done \<Longrightarrow> used v' = Suc k \<and> (\<exists>sk. vring v' = h\<lparr>cfi_timestamp := cfi_timestamp h + vo_frame_time v,
        cfi_count := cfi_count h - 1, cfi_skipped := sk\<rparr> # tl (vring v))" using nd_case(1,2) unfolding h'_def by blast
  show "p = PLocked i \<Longrightarrow> vo_cache v' ! i = vo_cache v ! i"
  proof -
    assume p: "p = PLocked i"
    then have "i = (?f + Suc k) mod ?n" "Suc k < ?n" using ok u by (auto simp: ring_ok_def)
    then have "i \<noteq> ?f" using ring_index_eq [of "Suc k" ?n 0 ?f] n by auto
    then show ?thesis unfolding h' by simp
  qed
qed

lemma lock_ring:
  assumes ok: "ring_ok v PIdle" and l: "video_output_lock_frame c ts v = (True, v')"
  shows "ring_ok v' (PLocked (vo_last v'))" "same_ring v (v'\<lparr>vo_last := vo_last v, vo_cache := vo_cache v\<rparr>)"
    "vring v' = vring v" "used v' = used v" "vo_semaphore v' = vo_semaphore v" "vo_stop v' = vo_stop v"
    "cfi_timestamp (vo_cache v' ! vo_last v') = ts" "cfi_count (vo_cache v' ! vo_last v') = c"
    "used v \<noteq> 0 \<Longrightarrow> vo_cache v' ! vo_first v = vo_cache v ! vo_first v"
proof -
  let ?n = "cache_size v" and ?f = "vo_first v"
  have n: "1 \<le> ?n" "?n \<le> 16" "length (vo_cache v) = 16" "?f < ?n" "unat (vo_available v) \<le> ?n"
    "vo_last v = (if used v = 0 then ?f else (?f + (used v - 1)) mod ?n)"
    using ok by (simp_all add: ring_ok_def)
  have a: "vo_available v \<noteq> 0" using l by (auto simp: video_output_lock_frame_def Let_def split: if_splits)
  then have un: "used v < ?n" using n(1) unat_gt_0 [of "vo_available v"] by (auto simp: used_def)
  have eq0: "vo_available v = of_nat ?n \<longleftrightarrow> used v = 0"
    using word_eq_size [OF n(2), of "vo_available v"] n(5) by (auto simp: used_def)
  define last where "last = (?f + used v) mod ?n"
  have ll: "(if vo_available v \<noteq> of_nat ?n then if vo_last v + 1 = ?n then 0 else vo_last v + 1 else vo_last v) = last"
  proof (cases "used v = 0")
    case True
    then show ?thesis using n eq0 by (simp add: last_def)
  next
    case False
    then have "vo_last v < ?n" using n by simp
    then have "(if vo_last v + 1 = ?n then 0 else vo_last v + 1) = Suc (vo_last v) mod ?n" by (rule next_index)
    also have "... = last" using False n(6) by (simp add: last_def mod_Suc_eq)
    finally show ?thesis using False eq0 by simp
  qed
  let ?x = "(vo_cache v ! last)\<lparr>cfi_timestamp := ts, cfi_count := c, cfi_skipped := 0\<rparr>"
  have v': "v' = v\<lparr>vo_last := last, vo_cache := (vo_cache v)[last := ?x]\<rparr>"
    using l a unfolding ll [symmetric] video_output_lock_frame_def Let_def by simp
  have lb: "last < 16" using n(1,2) by (auto simp: last_def intro: less_le_trans [OF mod_less_divisor])
  have sz: "cache_size v' = ?n" by (simp add: v' cache_size_def)
  show us: "used v' = used v" by (simp add: used_def sz) (simp add: v')
  show "same_ring v (v'\<lparr>vo_last := vo_last v, vo_cache := vo_cache v\<rparr>)"
    by (simp add: same_ring_def v' cache_size_def)
  show "vring v' = vring v"
    unfolding vring_def us sz using ring_update_out [of "used v" "used v" ?n ?f "vo_cache v" ?x] un
    by (simp add: v' last_def)
  show "vo_semaphore v' = vo_semaphore v" "vo_stop v' = vo_stop v" by (simp_all add: v')
  show "cfi_timestamp (vo_cache v' ! vo_last v') = ts" "cfi_count (vo_cache v' ! vo_last v') = c"
    using lb n(3) by (simp_all add: v')
  show "ring_ok v' (PLocked (vo_last v'))"
    using n un us sz by (simp add: ring_ok_def v' last_def)
  show "vo_cache v' ! vo_first v = vo_cache v ! vo_first v" if "used v \<noteq> 0"
  proof -
    have "last \<noteq> ?f" using that un n ring_index_eq [of "used v" ?n 0 ?f] by (auto simp: last_def)
    then show ?thesis by (simp add: v')
  qed
qed

lemma full_ring:
  assumes ok: "ring_ok v PIdle" and l: "video_output_lock_frame c ts v = (False, v')"
  shows "ring_ok v' PIdle" "used v = cache_size v" "used v' = used v" "vo_semaphore v' = vo_semaphore v"
    "vo_stop v' = vo_stop v" "vo_first v' = vo_first v" "vo_frame_time v' = vo_frame_time v"
    "cache_size v' = cache_size v"
    "\<exists>sk. vring v' = butlast (vring v) @ [(last (vring v))\<lparr>cfi_count := cfi_count (last (vring v)) + c, cfi_skipped := sk\<rparr>]"
proof -
  let ?n = "cache_size v" and ?f = "vo_first v"
  have n: "1 \<le> ?n" "?n \<le> 16" "length (vo_cache v) = 16" "?f < ?n" "unat (vo_available v) \<le> ?n"
    "vo_last v = (if used v = 0 then ?f else (?f + (used v - 1)) mod ?n)"
    using ok by (simp_all add: ring_ok_def)
  have a: "vo_available v = 0" using l by (auto simp: video_output_lock_frame_def Let_def split: if_splits)
  then show un: "used v = ?n" by (simp add: used_def)
  let ?x = "(vo_cache v ! vo_last v)\<lparr>cfi_count := cfi_count (vo_cache v ! vo_last v) + c,
      cfi_skipped := cfi_skipped (vo_cache v ! vo_last v) + c\<rparr>"
  have v': "v' = v\<lparr>vo_cache := (vo_cache v)[vo_last v := ?x]\<rparr>"
    using l a by (simp add: video_output_lock_frame_def Let_def)
  show sz: "cache_size v' = ?n" by (simp add: v' cache_size_def)
  show us: "used v' = used v" by (simp add: used_def sz) (simp add: v')
  show "vo_semaphore v' = vo_semaphore v" "vo_stop v' = vo_stop v" "vo_first v' = vo_first v"
    "vo_frame_time v' = vo_frame_time v" by (simp_all add: v')
  show "ring_ok v' PIdle" using n us sz by (simp add: ring_ok_def) (simp add: v')
  obtain m where m: "?n = Suc m" using n(1) by (cases ?n) auto
  have lst: "vo_last v = (?f + m) mod ?n" using n(6) un m by simp
  have "vring v = ring ?f ?n (vo_cache v) m @ [vo_cache v ! vo_last v]"
    unfolding vring_def un lst using ring_Suc [of ?f ?n "vo_cache v" m] by (simp add: m)
  moreover have "vring v' = ring ?f ?n (vo_cache v') m @ [vo_cache v' ! vo_last v]"
    unfolding vring_def us un sz lst using ring_Suc [of ?f ?n "vo_cache v'" m] by (simp add: m v')
  moreover have "ring ?f ?n (vo_cache v') m = ring ?f ?n (vo_cache v) m"
    using ring_update_out [of m m ?n ?f "vo_cache v" ?x] m by (simp add: v' lst)
  moreover have "vo_cache v' ! vo_last v = ?x"
    using n by (simp add: v' lst less_le_trans [OF mod_less_divisor])
  ultimately show "\<exists>sk. vring v' = butlast (vring v) @ [(last (vring v))\<lparr>cfi_count := cfi_count (last (vring v)) + c, cfi_skipped := sk\<rparr>]"
    by auto
qed

lemma write_ring:
  assumes ok: "ring_ok v (PLocked i)"
  shows "ring_ok (write_picture i d v) (PLocked i)" "vring (write_picture i d v) = vring v"
    "used (write_picture i d v) = used v"
    "cfi_timestamp (vo_cache (write_picture i d v) ! i) = cfi_timestamp (vo_cache v ! i)"
    "cfi_count (vo_cache (write_picture i d v) ! i) = cfi_count (vo_cache v ! i)"
    "used v \<noteq> 0 \<Longrightarrow> vo_cache (write_picture i d v) ! vo_first v = vo_cache v ! vo_first v"
proof -
  let ?n = "cache_size v" and ?f = "vo_first v" and ?v = "write_picture i d v"
  have n: "1 \<le> ?n" "?n \<le> 16" "length (vo_cache v) = 16" "?f < ?n" "i = vo_last v" "used v < ?n"
    "i = (?f + used v) mod ?n"
    using ok by (simp_all add: ring_ok_def)
  have sz: "cache_size ?v = ?n" by (simp add: write_picture_def cache_size_def)
  show us: "used ?v = used v" by (simp add: used_def sz) (simp add: write_picture_def)
  show "ring_ok ?v (PLocked i)" using ok us sz by (simp add: ring_ok_def) (simp add: write_picture_def)
  show "vring ?v = vring v" unfolding vring_def us sz
    using ring_update_out [of "used v" "used v" ?n ?f "vo_cache v"] n(6,7) by (simp add: write_picture_def)
  have "i < 16" using n(1,2,7) by (auto intro: less_le_trans [OF mod_less_divisor])
  then show "cfi_timestamp (vo_cache ?v ! i) = cfi_timestamp (vo_cache v ! i)"
    "cfi_count (vo_cache ?v ! i) = cfi_count (vo_cache v ! i)"
    using n(3) by (simp_all add: write_picture_def)
  show "vo_cache ?v ! vo_first v = vo_cache v ! vo_first v" if "used v \<noteq> 0"
  proof -
    have "i \<noteq> ?f" using that n(4,6,7) ring_index_eq [of "used v" ?n 0 ?f] by auto
    then show ?thesis by (simp add: write_picture_def)
  qed
qed

lemma unlock_ring:
  assumes ok: "ring_ok v (PLocked i)"
  shows "ring_ok (video_output_unlock_frame v) PIdle" "used (video_output_unlock_frame v) = Suc (used v)"
    "vring (video_output_unlock_frame v) = vring v @ [vo_cache v ! i]"
proof -
  let ?n = "cache_size v" and ?f = "vo_first v" and ?v = "video_output_unlock_frame v"
  have n: "1 \<le> ?n" "?n \<le> 16" "length (vo_cache v) = 16" "?f < ?n" "i = vo_last v" "used v < ?n"
    "i = (?f + used v) mod ?n" "unat (vo_available v) \<le> ?n"
    using ok by (simp_all add: ring_ok_def)
  have sz: "cache_size ?v = ?n" by (simp add: video_output_unlock_frame_def cache_size_def)
  have "vo_available v \<noteq> 0" using n(6) by (auto simp: used_def)
  then have av: "unat (vo_available ?v) = unat (vo_available v) - 1" "0 < unat (vo_available v)"
    by (simp_all add: video_output_unlock_frame_def unat_dec unat_gt_0)
  show us: "used ?v = Suc (used v)" using av n by (simp add: used_def sz)
  have f: "vo_first ?v = ?f" "vo_last ?v = vo_last v" "vo_cache ?v = vo_cache v"
    by (simp_all add: video_output_unlock_frame_def)
  show "ring_ok ?v PIdle" using n av us unfolding ring_ok_def sz f by simp
  show "vring ?v = vring v @ [vo_cache v ! i]" unfolding vring_def us sz f ring_Suc n(7) [symmetric] ..
qed

lemma other_ring:
  "video_output_connect2 create conversion dv callback param v = (ok, v') \<Longrightarrow> same_ring v v' \<and>
     vo_semaphore v' = vo_semaphore v \<and> vo_stop v' = vo_stop v"
  "video_output_disconnect2 callback param v = (ok, v') \<Longrightarrow> same_ring v v' \<and>
     vo_semaphore v' = vo_semaphore v \<and> vo_stop v' = vo_stop v"
  "cur_frame_output scale v = (slot, v') \<Longrightarrow> slot = vo_first v \<and> same_ring v v' \<and>
     vo_semaphore v' = vo_semaphore v \<and> vo_stop v' = vo_stop v"
  "same_ring v (video_output_stop v)"
  by (auto simp: video_output_connect2_def video_output_disconnect2_def cur_frame_output_def video_output_stop_def
      same_ring_def cache_size_def Let_def reset_frames_def split: if_splits option.splits)

lemma full_keeps_frames:
  assumes "video_output_lock_frame c ts v = (False, v')"
  shows "cfi_picture (vo_cache v' ! j) = cfi_picture (vo_cache v ! j)"
    "cfi_timestamp (vo_cache v' ! j) = cfi_timestamp (vo_cache v ! j)"
proof -
  have *: "f ((xs[i := x]) ! j) = f (xs ! j)" if "f x = f (xs ! i)" for f :: "'a cached_frame_info \<Rightarrow> 'b" and xs i x
    using that by (cases "i < length xs") (auto simp: nth_list_update list_update_beyond)
  have **: "f ((xs[i := x]) ! j) = f (xs ! j)" if "f x = f (xs ! i)" for f :: "'a cached_frame_info \<Rightarrow> 64 word" and xs i x
    using that by (cases "i < length xs") (auto simp: nth_list_update list_update_beyond)
  show "cfi_picture (vo_cache v' ! j) = cfi_picture (vo_cache v ! j)"
    "cfi_timestamp (vo_cache v' ! j) = cfi_timestamp (vo_cache v ! j)"
    using assms by (auto simp: video_output_lock_frame_def Let_def * ** nth_list_update split: if_splits)
qed

lemma vring_head: "ring_ok v p \<Longrightarrow> used v \<noteq> 0 \<Longrightarrow> vring v = vo_cache v ! vo_first v # tl (vring v)"
  unfolding vring_def ring_ok_def by (cases "used v") (auto simp: ring_Cons)

lemma vring_length: "length (vring v) = used v"
  by (simp add: vring_def)

subsection \<open>Pictures and times\<close>

text \<open>A picture shown for a number of frame intervals, from a time on.\<close>

definition span :: "64 word \<Rightarrow> 'd \<Rightarrow> 64 word \<Rightarrow> nat \<Rightarrow> ('d \<times> 64 word) list" where
  "span ft d t n = map (\<lambda>i. (d, t + ft * of_nat i)) [0..<n]"

definition pictures :: "64 word \<Rightarrow> 'd cached_frame_info list \<Rightarrow> ('d \<times> 64 word) list" where
  "pictures ft cs = concat (map (\<lambda>c. span ft (cfi_picture c) (cfi_timestamp c) (nat (cfi_count c))) cs)"

definition expand :: "64 word \<Rightarrow> ('d \<times> 64 word \<times> nat) list \<Rightarrow> ('d \<times> 64 word) list" where
  "expand ft rs = concat (map (\<lambda>(d, t, n). span ft d t n) rs)"

lemma length_span [simp]: "length (span ft d t n) = n"
  by (simp add: span_def)

lemma span_Suc: "span ft d t (Suc n) = (d, t) # span ft d (t + ft) n"
  by (rule nth_equalityI) (auto simp: span_def nth_Cons algebra_simps split: nat.split simp del: upt_Suc)

lemma span_add: "span ft d t (m + n) = span ft d t m @ span ft d (t + ft * of_nat m) n"
  by (rule nth_equalityI) (auto simp: span_def nth_append algebra_simps of_nat_diff)

lemma pictures_simps [simp]:
  "pictures ft [] = []"
  "pictures ft (c # cs) = span ft (cfi_picture c) (cfi_timestamp c) (nat (cfi_count c)) @ pictures ft cs"
  "pictures ft (cs @ ds) = pictures ft cs @ pictures ft ds"
  by (simp_all add: pictures_def)

lemma expand_simps [simp]:
  "expand ft [] = []" "expand ft (r # rs) = span ft (fst r) (fst (snd r)) (snd (snd r)) @ expand ft rs"
  "expand ft (rs @ qs) = expand ft rs @ expand ft qs"
  by (simp_all add: expand_def split_beta)

lemma span_last: "0 < n \<Longrightarrow> last (span ft d t n) = (d, t + ft * of_nat n - ft)"
  by (cases n) (simp_all add: span_def last_map algebra_simps)

lemma expand_add_to_last:
  assumes "rs \<noteq> []" and "1 \<le> snd (snd (last rs))"
  shows "expand ft (add_to_last n rs) =
    expand ft rs @ span ft (fst (last (expand ft rs))) (snd (last (expand ft rs)) + ft) n"
proof -
  let ?r = "last rs"
  have "rs = butlast rs @ [?r]" using assms(1) by simp
  then have e: "expand ft rs = expand ft (butlast rs) @ span ft (fst ?r) (fst (snd ?r)) (snd (snd ?r))"
    by (metis append_Nil2 expand_simps)
  have "span ft (fst ?r) (fst (snd ?r)) (snd (snd ?r)) \<noteq> []" using assms(2) by (metis length_0_conv length_span not_one_le_zero)
  then have "last (expand ft rs) = (fst ?r, fst (snd ?r) + ft * of_nat (snd (snd ?r)) - ft)"
    using assms(2) by (simp add: e last_append span_last)
  then show ?thesis by (simp add: add_to_last_def e span_add)
qed

lemma pictures_add_to_last:
  assumes "1 \<le> cfi_count c"
  shows "pictures ft (cs @ [c\<lparr>cfi_count := cfi_count c + int n, cfi_skipped := sk\<rparr>]) = pictures ft (cs @ [c]) @
    span ft (fst (last (pictures ft (cs @ [c])))) (snd (last (pictures ft (cs @ [c]))) + ft) n"
proof -
  obtain k where k: "nat (cfi_count c) = Suc k" using assms by (cases "nat (cfi_count c)") auto
  have "nat (cfi_count c + int n) = nat (cfi_count c) + n" using assms by simp
  moreover have "span ft (cfi_picture c) (cfi_timestamp c) (nat (cfi_count c)) \<noteq> []"
    by (metis k length_0_conv length_span nat.distinct(1))
  then have "last (pictures ft (cs @ [c])) = (cfi_picture c, cfi_timestamp c + ft * of_nat (nat (cfi_count c)) - ft)"
    using span_last [of "nat (cfi_count c)"] k by (simp add: last_append)
  ultimately show ?thesis by (simp add: span_add)
qed

subsection \<open>The invariant of the two threads\<close>

definition completed :: "'d video_sys \<Rightarrow> ('d \<times> 64 word) list" where
  "completed s = (case vpc s of VComplete _ \<Rightarrow> butlast (frames s) | _ \<Rightarrow> frames s)"

definition threads_ok :: "'d video_sys \<Rightarrow> bool" where
  "threads_ok s \<longleftrightarrow> ring_ok (vsys s) (ppc s) \<and>
     (case vpc s of
        VComplete j \<Rightarrow> j = vo_first (vsys s) \<and> 1 \<le> used (vsys s) \<and> frames s \<noteq> [] \<and>
          last (frames s) = (cfi_picture (vo_cache (vsys s) ! j), cfi_timestamp (vo_cache (vsys s) ! j))
      | VTest \<Rightarrow> 1 \<le> used (vsys s)
      | _ \<Rightarrow> True) \<and>
     (\<not> vo_stop (vsys s) \<longrightarrow> vpc s \<noteq> VExit \<and>
        vo_semaphore (vsys s) + (if vpc s = VWait then 0 else 1) = used (vsys s)) \<and>
     (case ppc s of
        PIdle \<Rightarrow> True
      | PLocked i \<Rightarrow> 1 \<le> cfi_count (vo_cache (vsys s) ! i))"

definition frames_ok :: "64 word \<Rightarrow> 'd video_sys \<Rightarrow> bool" where
  "frames_ok ft s \<longleftrightarrow> vo_frame_time (vsys s) = ft \<and>
     (\<forall>r \<in> set (requests s). 1 \<le> snd (snd r)) \<and> (\<forall>c \<in> set (vring (vsys s)). 1 \<le> cfi_count c) \<and>
     completed s @ pictures ft (vring (vsys s)) = expand ft (requests s)"

lemma completed_fields [simp]:
  "completed (s\<lparr>vsys := v\<rparr>) = completed s" "completed (s\<lparr>ppc := p\<rparr>) = completed s"
  "completed (s\<lparr>requests := r\<rparr>) = completed s"
  by (simp_all add: completed_def split: video_pc.split)

lemma same_ring_threads:
  assumes "threads_ok s" "same_ring (vsys s) v" "vo_semaphore v = vo_semaphore (vsys s)" "vo_stop v = vo_stop (vsys s)"
  shows "threads_ok (s\<lparr>vsys := v\<rparr>)"
  using assms same_ringD [OF assms(2)] by (simp add: threads_ok_def cong: producer_pc.case_cong video_pc.case_cong)

lemma same_ring_frames:
  assumes "frames_ok ft s" "same_ring (vsys s) v"
  shows "frames_ok ft (s\<lparr>vsys := v\<rparr>)"
  using assms same_ringD [OF assms(2)] by (simp add: frames_ok_def)

lemma complete_ok:
  assumes t: "threads_ok s" and f: "frames_ok ft s" and pc: "vpc s = VComplete slot"
    and c: "cur_frame_complete slot (vsys s) = (done, v)"
  defines "s' \<equiv> s\<lparr>vsys := v\<lparr>vo_total := vo_total v + 1\<rparr>, vpc := if done then VWait else VTest\<rparr>"
  shows "threads_ok s' \<and> frames_ok ft s'"
proof -
  let ?v = "vsys s" and ?w = "v\<lparr>vo_total := vo_total v + 1\<rparr>"
  let ?h = "vo_cache ?v ! vo_first ?v"
  have ok: "ring_ok ?v (ppc s)" and slot: "slot = vo_first ?v" and u: "1 \<le> used ?v" and fn: "frames s \<noteq> []"
    and lst: "last (frames s) = (cfi_picture ?h, cfi_timestamp ?h)"
    using t pc by (auto simp: threads_ok_def)
  obtain k where k: "used ?v = Suc k" using u by (cases "used ?v") auto
  note r = complete_ring [OF ok k c [unfolded slot]]
  have w: "same_ring v ?w" by (simp add: same_ring_def cache_size_def)
  note w' = same_ringD [OF w]
  have th: "threads_ok s'"
    using t pc r(2,5,6) r(7) r(9,10) k unfolding threads_ok_def s'_def
    by (cases "done"; cases "ppc s") (auto simp: w')
  define d where "d = completed s"
  have d: "frames s = d @ [(cfi_picture ?h, cfi_timestamp ?h)]"
    using append_butlast_last_id [OF fn] lst pc by (simp add: d_def completed_def)
  have d': "completed s' = frames s" by (simp add: completed_def s'_def)
  let ?rest = "tl (vring ?v)"
  have ft: "vo_frame_time ?v = ft" and rq: "\<forall>r \<in> set (requests s). 1 \<le> snd (snd r)"
    and cn: "\<forall>c \<in> set (?h # ?rest). 1 \<le> cfi_count c"
    and px: "d @ pictures ft (?h # ?rest) = expand ft (requests s)"
    using f r(8) unfolding frames_ok_def d_def by simp_all
  obtain m where m: "nat (cfi_count ?h) = Suc m" using cn by (cases "nat (cfi_count ?h)") auto
  have px': "frames s @ span ft (cfi_picture ?h) (cfi_timestamp ?h + ft) m @ pictures ft ?rest = expand ft (requests s)"
    using px by (simp add: d m span_Suc)
  have vr: "frames s @ pictures ft (vring v) = expand ft (requests s) \<and> (\<forall>c \<in> set (vring v). 1 \<le> cfi_count c)"
  proof (cases "done")
    case True
    then have "cfi_count ?h = 1" "vring v = ?rest" using r(1,9) by simp_all
    then show ?thesis using px' cn m by (simp add: span_def)
  next
    case False
    then obtain sk where v: "vring v = ?h\<lparr>cfi_timestamp := cfi_timestamp ?h + ft, cfi_count := cfi_count ?h - 1,
        cfi_skipped := sk\<rparr> # ?rest" using r(10) ft by auto
    have "1 \<le> cfi_count ?h - 1" "nat (cfi_count ?h - 1) = m" using False r(1) cn m by auto
    then show ?thesis using px' cn by (simp add: v)
  qed
  have "frames_ok ft s'"
    using vr ft rq r(4) unfolding frames_ok_def d' by (simp add: s'_def w')
  then show ?thesis using th by blast
qed

lemma full_ok:
  assumes t: "threads_ok s" and f: "frames_ok ft s" and p: "ppc s = PIdle" and n: "0 < n"
    and l: "video_output_lock_frame (int n) ts (vsys s) = (False, v)"
  defines "s' \<equiv> s\<lparr>vsys := v, requests := add_to_last n (requests s)\<rparr>"
  shows "threads_ok s' \<and> frames_ok ft s'"
proof -
  let ?v = "vsys s"
  have ok: "ring_ok ?v PIdle" using t p by (simp add: threads_ok_def)
  note r = full_ring [OF ok l] and k = full_keeps_frames [OF l]
  have th: "threads_ok s'"
    using t p r(1,3-6) k unfolding threads_ok_def s'_def by (cases "vpc s") auto
  obtain sk where vv: "vring v = butlast (vring ?v) @ [(last (vring ?v))\<lparr>cfi_count := cfi_count (last (vring ?v)) + int n,
      cfi_skipped := sk\<rparr>]" using r(9) by blast
  have ne: "vring ?v \<noteq> []" using ok r(2) vring_length [of ?v] by (auto simp: ring_ok_def)
  define b c where "b = butlast (vring ?v)" and "c = last (vring ?v)"
  have bc: "vring ?v = b @ [c]" using ne by (simp add: b_def c_def)
  have ft: "vo_frame_time ?v = ft" and rq: "\<forall>r \<in> set (requests s). 1 \<le> snd (snd r)"
    and cn: "\<forall>c \<in> set (b @ [c]). 1 \<le> cfi_count c"
    and px: "completed s @ pictures ft (b @ [c]) = expand ft (requests s)"
    using f unfolding frames_ok_def bc by simp_all
  have cc: "1 \<le> cfi_count c" using cn by simp
  then have pne: "pictures ft (b @ [c]) \<noteq> []"
    by (metis append_is_Nil_conv length_0_conv length_span nat_0_iff not_one_le_zero order_trans pictures_simps(2,3)
        zero_less_one not_le)
  then have rne: "requests s \<noteq> []" using px by auto
  then have rl: "1 \<le> snd (snd (last (requests s)))" using rq by simp
  have lst: "last (expand ft (requests s)) = last (pictures ft (b @ [c]))"
    using pne by (metis px last_appendR)
  have "pictures ft (vring v) = pictures ft (b @ [c]) @
      span ft (fst (last (pictures ft (b @ [c])))) (snd (last (pictures ft (b @ [c]))) + ft) n"
    unfolding vv b_def [symmetric] c_def [symmetric] by (rule pictures_add_to_last [OF cc])
  moreover have "expand ft (add_to_last n (requests s)) = (completed s @ pictures ft (b @ [c])) @
      span ft (fst (last (pictures ft (b @ [c])))) (snd (last (pictures ft (b @ [c]))) + ft) n"
    unfolding px expand_add_to_last [OF rne rl] lst ..
  ultimately have "completed s @ pictures ft (vring v) = expand ft (add_to_last n (requests s))"
    by (simp only: append_assoc)
  moreover have "\<forall>c \<in> set (vring v). 1 \<le> cfi_count c" using cn by (auto simp: vv simp flip: b_def c_def)
  moreover have "\<forall>r \<in> set (add_to_last n (requests s)). 1 \<le> snd (snd r)"
    using rq rl by (auto simp: add_to_last_def dest: in_set_butlastD)
  ultimately have "frames_ok ft s'"
    using ft r(7) by (simp add: frames_ok_def s'_def)
  then show ?thesis using th by blast
qed

lemma step_ok:
  assumes st: "video_step scale s s'" and t: "threads_ok s" and f: "frames_ok ft s"
  shows "threads_ok s' \<and> frames_ok ft s'"
  using st
proof cases
  case (wait k)
  have "same_ring (vsys s) ((vsys s)\<lparr>vo_semaphore := k\<rparr>)" by (simp add: same_ring_def cache_size_def)
  note r = same_ringD [OF this]
  show ?thesis using t f wait
    by (auto simp: threads_ok_def frames_ok_def completed_def r cong: producer_pc.case_cong)
next
  case loop_stopped
  have "same_ring (vsys s) ((vsys s)\<lparr>vo_total := vo_total (vsys s) + 1\<rparr>)" by (simp add: same_ring_def cache_size_def)
  note r = same_ringD [OF this]
  show ?thesis using t f loop_stopped
    by (auto simp: threads_ok_def frames_ok_def completed_def r cong: producer_pc.case_cong)
next
  case (deliver slot v)
  note o = other_ring(3) [OF deliver(4)]
  note r = same_ringD [of "vsys s" v] o
  show ?thesis using t f deliver r
    by (auto simp: threads_ok_def frames_ok_def completed_def cong: producer_pc.case_cong)
next
  case (complete slot dn v)
  then show ?thesis using complete_ok [OF t f] by simp
next
  case (lock n ts v)
  have ok: "ring_ok (vsys s) PIdle" using t lock by (simp add: threads_ok_def)
  note r = lock_ring [OF ok lock(4)]
  have same: "vo_frame_time v = vo_frame_time (vsys s)" "vo_first v = vo_first (vsys s)"
    using r(2) by (simp_all add: same_ring_def)
  show ?thesis using t f lock r same
    by (auto simp: threads_ok_def frames_ok_def cong: video_pc.case_cong split: video_pc.split)
next
  case (full n ts v)
  then show ?thesis using full_ok [OF t f] by simp
next
  case (picture slot pic)
  have ok: "ring_ok (vsys s) (PLocked slot)" using t picture by (simp add: threads_ok_def)
  note r = write_ring [OF ok, of pic]
  have same: "vo_frame_time (write_picture slot pic (vsys s)) = vo_frame_time (vsys s)"
    "vo_first (write_picture slot pic (vsys s)) = vo_first (vsys s)"
    "vo_stop (write_picture slot pic (vsys s)) = vo_stop (vsys s)"
    "vo_semaphore (write_picture slot pic (vsys s)) = vo_semaphore (vsys s)"
    by (simp_all add: write_picture_def)
  show ?thesis using t f picture r same
    by (auto simp: threads_ok_def frames_ok_def cong: video_pc.case_cong split: video_pc.split)
next
  case (unlock slot cfi)
  have ok: "ring_ok (vsys s) (PLocked slot)" using t unlock by (simp add: threads_ok_def)
  note r = unlock_ring [OF ok]
  have cf: "1 \<le> cfi_count cfi" using t unlock by (auto simp: threads_ok_def)
  have same: "vo_frame_time (video_output_unlock_frame (vsys s)) = vo_frame_time (vsys s)"
    "vo_first (video_output_unlock_frame (vsys s)) = vo_first (vsys s)"
    "vo_stop (video_output_unlock_frame (vsys s)) = vo_stop (vsys s)"
    "vo_semaphore (video_output_unlock_frame (vsys s)) = vo_semaphore (vsys s) + 1"
    "vo_cache (video_output_unlock_frame (vsys s)) = vo_cache (vsys s)"
    by (simp_all add: video_output_unlock_frame_def)
  have "threads_ok s'" using t unlock r same
    by (auto simp: threads_ok_def cong: video_pc.case_cong split: video_pc.split)
  moreover have "frames_ok ft s'" using f unlock r same cf
    by (auto simp: frames_ok_def)
  ultimately show ?thesis ..
next
  case (connect create conversion dv callback param ok v)
  note o = other_ring(1) [OF connect(2)]
  show ?thesis using same_ring_threads [OF t, of v] same_ring_frames [OF f, of v] o connect by simp
next
  case (disconnect callback param ok v)
  note o = other_ring(2) [OF disconnect(2)]
  show ?thesis using same_ring_threads [OF t, of v] same_ring_frames [OF f, of v] o disconnect by simp
next
  case stop
  note r = same_ringD [OF other_ring(4) [of "vsys s"]]
  have "threads_ok s'" using t stop r unfolding threads_ok_def
    by (auto simp: video_output_stop_def cong: producer_pc.case_cong video_pc.case_cong)
  then show ?thesis using same_ring_frames [OF f other_ring(4)] stop by simp
qed

definition fresh_output :: "'d video_output \<Rightarrow> bool" where
  "fresh_output v \<longleftrightarrow> (\<exists>blank info. video_output_open True blank info = Some (0, Some v) \<and> 1 \<le> vi_cache_size info)"

lemma fresh_outputD:
  assumes "fresh_output v"
  shows "1 \<le> cache_size v" "cache_size v \<le> MAX_CACHE_SIZE" "vo_available v = of_nat (cache_size v)"
    "vo_first v = 0" "vo_last v = 0" "vo_semaphore v = 0" "\<not> vo_stop v" "vo_inputs v = []" "length (vo_cache v) = MAX_CACHE_SIZE"
proof -
  from assms obtain blank info where o: "video_output_open True blank info = Some (0, Some v)" and n: "1 \<le> vi_cache_size info"
    by (auto simp: fresh_output_def)
  then obtain v1 :: "'a video_output" where v: "v = init_cache v1" and v1: "vo_info v1 = info" "vo_first v1 = 0" "vo_last v1 = 0"
      "vo_semaphore v1 = 0" "\<not> vo_stop v1" "vo_inputs v1 = []" "length (vo_cache v1) = MAX_CACHE_SIZE"
    by (force simp: video_output_open_def bind_eq_Some_conv split: if_splits)
  show "1 \<le> cache_size v" "cache_size v \<le> MAX_CACHE_SIZE" "vo_available v = of_nat (cache_size v)"
    "vo_first v = 0" "vo_last v = 0" "vo_semaphore v = 0" "\<not> vo_stop v" "vo_inputs v = []" "length (vo_cache v) = MAX_CACHE_SIZE"
    using n v1 by (simp_all add: v init_cache_def cache_size_def Let_def MAX_CACHE_SIZE_def)
qed

lemma fresh_output_ok:
  assumes "fresh_output v0"
  defines "s0 \<equiv> \<lparr>vsys = v0, vpc = VWait, ppc = PIdle, requests = [], frames = []\<rparr>"
  shows "threads_ok s0 \<and> frames_ok (vo_frame_time v0) s0"
proof -
  note d = fresh_outputD [OF assms(1)]
  have "unat (vo_available v0) = cache_size v0"
    using d(2) unfolding d(3) by (simp add: unsigned_of_nat take_bit_nat_eq_self MAX_CACHE_SIZE_def)
  then have "ring_ok v0 PIdle" "used v0 = 0" "vo_semaphore v0 = 0" "\<not> vo_stop v0"
    using d(1,2,4-9) unfolding MAX_CACHE_SIZE_def by (simp_all add: ring_ok_def used_def)
  moreover have "vring v0 = []" using \<open>used v0 = 0\<close> by (simp add: vring_def ring_def)
  ultimately show ?thesis by (simp add: s0_def threads_ok_def frames_ok_def completed_def)
qed

lemma reachable_ok:
  "video_reachable scale v0 s \<Longrightarrow> fresh_output v0 \<Longrightarrow> threads_ok s \<and> frames_ok (vo_frame_time v0) s"
  by (induction rule: video_reachable.induct) (auto dest: step_ok fresh_output_ok)

lemma frames_prefix:
  assumes "threads_ok s" "frames_ok ft s"
  shows "\<exists>rest. expand ft (requests s) = frames s @ rest"
proof (cases "\<exists>j. vpc s = VComplete j")
  case True
  let ?h = "vo_cache (vsys s) ! vo_first (vsys s)"
  have u: "used (vsys s) \<noteq> 0" "frames s \<noteq> []" "last (frames s) = (cfi_picture ?h, cfi_timestamp ?h)"
    using assms(1) True by (auto simp: threads_ok_def)
  have "ring_ok (vsys s) (ppc s)" using assms(1) by (simp add: threads_ok_def)
  from vring_head [OF this u(1)] obtain rest where r: "vring (vsys s) = ?h # rest" by blast
  then obtain m where m: "nat (cfi_count ?h) = Suc m"
    using assms(2) by (cases "nat (cfi_count ?h)") (auto simp: frames_ok_def)
  have "frames s = completed s @ [(cfi_picture ?h, cfi_timestamp ?h)]"
    using append_butlast_last_id [OF u(2)] u(3) True by (auto simp: completed_def)
  moreover have "expand ft (requests s) = completed s @ (cfi_picture ?h, cfi_timestamp ?h) #
      span ft (cfi_picture ?h) (cfi_timestamp ?h + ft) m @ pictures ft rest"
    using assms(2) by (simp add: frames_ok_def r m span_Suc)
  ultimately show ?thesis by simp
next
  case False
  then have "frames s = completed s" by (auto simp: completed_def split: video_pc.splits)
  then show ?thesis using assms(2) by (auto simp: frames_ok_def) (metis)
qed

subsection \<open>The calls of an input\<close>

definition input_key :: "video_input \<Rightarrow> nat \<times> nat" where
  "input_key i = (in_callback i, in_param i)"

definition calls_of :: "nat \<times> nat \<Rightarrow> 'd video_output \<Rightarrow> ('d \<times> 64 word) list" where
  "calls_of k v = [(p, t). (c, q, p, t) \<leftarrow> vo_calls v, (c, q) = k]"

text \<open>What an input is given of a frame, unless it is skipped: the picture, scaled if need be.\<close>

definition given :: "(nat \<Rightarrow> 'd \<Rightarrow> 'd option) \<Rightarrow> video_input \<Rightarrow> 'd \<times> 64 word \<Rightarrow> ('d \<times> 64 word) list" where
  "given scale i f = (case in_scaler i of
     None \<Rightarrow> [f]
   | Some sc \<Rightarrow> (case scale sc (fst f) of None \<Rightarrow> [] | Some p \<Rightarrow> [(p, snd f)]))"

definition inputs_ok :: "'d video_output \<Rightarrow> bool" where
  "inputs_ok v \<longleftrightarrow> distinct (map input_key (vo_inputs v)) \<and>
     (\<forall>i \<in> set (vo_inputs v). unat (in_divisor_counter i) < unat (in_divisor i))"

text \<open>An input after it has been offered one more frame.\<close>

definition offered :: "video_input \<Rightarrow> video_input \<Rightarrow> bool" where
  "offered i i' \<longleftrightarrow> input_key i' = input_key i \<and> in_scaler i' = in_scaler i \<and> in_divisor i' = in_divisor i \<and>
     unat (in_divisor_counter i') = Suc (unat (in_divisor_counter i)) mod unat (in_divisor i)"

lemma output_to_input_spec:
  assumes "unat (in_divisor_counter i) < unat (in_divisor i)"
  shows "fst (output_to_input scale f i) =
      (if in_divisor_counter i = 0
       then map (\<lambda>(p, t). (in_callback i, in_param i, p, t)) (given scale i (cfi_picture f, cfi_timestamp f)) else [])"
    and "offered i (snd (output_to_input scale f i))"
proof -
  have "unat (in_divisor i) < 2 ^ 32" using unsigned_less [of "in_divisor i", where 'a = nat] by simp
  then have u: "unat (in_divisor_counter i + 1) = Suc (unat (in_divisor_counter i))"
    using assms unat_add_lem [of "in_divisor_counter i" 1] by simp
  have e: "in_divisor_counter i + 1 = in_divisor i \<longleftrightarrow> Suc (unat (in_divisor_counter i)) = unat (in_divisor i)"
    using u by (simp add: word_unat_eq_iff)
  show "offered i (snd (output_to_input scale f i))"
    using assms u e
    by (auto simp: offered_def output_to_input_def input_skip_def scale_video_output_def Let_def input_key_def mod_Suc
        split: option.splits)
  show "fst (output_to_input scale f i) =
      (if in_divisor_counter i = 0
       then map (\<lambda>(p, t). (in_callback i, in_param i, p, t)) (given scale i (cfi_picture f, cfi_timestamp f)) else [])"
    by (auto simp: output_to_input_def input_skip_def scale_video_output_def given_def Let_def split: option.splits)
qed

lemma concat_unique:
  assumes "distinct (map key xs)" and "x \<in> set xs" and "\<And>y. y \<in> set xs \<Longrightarrow> key y \<noteq> key x \<Longrightarrow> g y = []"
  shows "concat (map g xs) = g x"
  using assms
proof (induction xs)
  case (Cons y ys)
  show ?case
  proof (cases "y = x")
    case True
    have "key y \<notin> key ` set ys" using Cons.prems(1) by simp
    then have "key z \<noteq> key x" if "z \<in> set ys" for z using True that by (metis imageI)
    then have "\<forall>z \<in> set ys. g z = []" using Cons.prems(3) by simp
    then show ?thesis using True by simp
  next
    case False
    then have x: "x \<in> set ys" using Cons.prems(2) by simp
    then have "key y \<noteq> key x" using Cons.prems(1) by force
    then show ?thesis using Cons x by simp
  qed
qed simp

lemma calls_of_append: "vo_calls w = vo_calls v @ cs \<Longrightarrow>
    calls_of k w = calls_of k v @ [(p, t). (c, q, p, t) \<leftarrow> cs, (c, q) = k]"
  by (simp add: calls_of_def)

lemma cur_frame_output_calls:
  assumes ok: "inputs_ok v" and i: "i \<in> set (vo_inputs v)" and c: "cur_frame_output scale v = (slot, v')"
  shows "\<exists>i' \<in> set (vo_inputs v'). offered i i' \<and> calls_of (input_key i) v' = calls_of (input_key i) v @
      (if in_divisor_counter i = 0
       then given scale i (cfi_picture (vo_cache v ! slot), cfi_timestamp (vo_cache v ! slot)) else [])"
    and "inputs_ok v'"
proof -
  let ?f = "vo_cache v ! vo_first v" and ?k = "input_key i"
  let ?out = "output_to_input scale ?f"
  let ?g = "\<lambda>j. [(p, t). (c, q, p, t) \<leftarrow> fst (?out j), (c, q) = ?k]"
  have v': "slot = vo_first v" "vo_inputs v' = map (\<lambda>j. snd (?out j)) (vo_inputs v)"
    "vo_calls v' = vo_calls v @ concat (map (\<lambda>j. fst (?out j)) (vo_inputs v))"
    using c by (auto simp: cur_frame_output_def Let_def comp_def)
  have cnt: "unat (in_divisor_counter j) < unat (in_divisor j)" if "j \<in> set (vo_inputs v)" for j
    using ok that by (simp add: inputs_ok_def)
  note spec = output_to_input_spec [OF cnt]
  have "[(p, t). (c, q, p, t) \<leftarrow> concat (map (\<lambda>j. fst (?out j)) xs), (c, q) = ?k] = concat (map ?g xs)" for xs
    by (induction xs) simp_all
  moreover have "concat (map ?g (vo_inputs v)) = ?g i"
  proof (rule concat_unique)
    show "distinct (map input_key (vo_inputs v))" using ok by (simp add: inputs_ok_def)
    show "?g j = []" if "j \<in> set (vo_inputs v)" "input_key j \<noteq> ?k" for j
      unfolding spec(1) [OF that(1)] using that(2) by (auto simp: input_key_def given_def split: option.split)
  qed (rule i)
  moreover have "?g i = (if in_divisor_counter i = 0 then given scale i (cfi_picture ?f, cfi_timestamp ?f) else [])"
    unfolding spec(1) [OF i]
    by (simp add: input_key_def given_def split: option.split)
  ultimately have "calls_of ?k v' = calls_of ?k v @
      (if in_divisor_counter i = 0 then given scale i (cfi_picture ?f, cfi_timestamp ?f) else [])"
    using calls_of_append [OF v'(3), of ?k] by simp
  then show "\<exists>i' \<in> set (vo_inputs v'). offered i i' \<and> calls_of (input_key i) v' = calls_of (input_key i) v @
      (if in_divisor_counter i = 0
       then given scale i (cfi_picture (vo_cache v ! slot), cfi_timestamp (vo_cache v ! slot)) else [])"
    using spec(2) [OF i] i v'(1,2) by auto
  have "input_key (snd (?out j)) = input_key j \<and> unat (in_divisor_counter (snd (?out j))) < unat (in_divisor (snd (?out j)))"
    if "j \<in> set (vo_inputs v)" for j
  proof -
    have "0 < unat (in_divisor j)" using cnt [OF that] by linarith
    then show ?thesis using spec(2) [OF that, of scale ?f] by (simp add: offered_def)
  qed
  then show "inputs_ok v'" using ok by (simp add: inputs_ok_def v'(2) comp_def cong: map_cong)
qed

text \<open>A step during which an input stays connected.\<close>

definition connected :: "nat \<times> nat \<Rightarrow> 'd video_sys \<Rightarrow> bool" where
  "connected k s \<longleftrightarrow> k \<in> set (map input_key (vo_inputs (vsys s)))"

definition keeps_input ::
    "(nat \<Rightarrow> 'd \<Rightarrow> 'd option) \<Rightarrow> nat \<times> nat \<Rightarrow> 'd video_sys \<Rightarrow> 'd video_sys \<Rightarrow> bool" where
  "keeps_input scale k s t \<longleftrightarrow> video_step scale s t \<and> connected k t"

lemma input_idx_None:
  assumes "video_get_input_idx v c p = None" and "j \<in> set (vo_inputs v)"
  shows "input_key j \<noteq> (c, p)"
proof -
  have "length (takeWhile (\<lambda>x. \<not> (in_callback x = c \<and> in_param x = p)) (vo_inputs v)) = length (vo_inputs v)"
    using assms(1) length_takeWhile_le [of "\<lambda>x. \<not> (in_callback x = c \<and> in_param x = p)" "vo_inputs v"]
    by (auto simp: video_get_input_idx_def Let_def split: if_splits)
  then have "takeWhile (\<lambda>x. \<not> (in_callback x = c \<and> in_param x = p)) (vo_inputs v) = vo_inputs v"
    by (metis take_all_iff takeWhile_eq_take order_refl)
  then show ?thesis using assms(2) by (metis (mono_tags, lifting) Pair_inject input_key_def set_takeWhileD)
qed

lemma connect_inputs:
  assumes "video_output_connect2 create conversion dv c p v = (ok, w)" and "inputs_ok v"
  shows "inputs_ok w" and "set (vo_inputs v) \<subseteq> set (vo_inputs w)" and "vo_calls w = vo_calls v"
proof -
  have "vo_inputs w = vo_inputs v \<or> (\<exists>i. vo_inputs w = vo_inputs v @ [i] \<and> input_key i = (c, p) \<and>
      in_divisor_counter i = 0 \<and> in_divisor i \<noteq> 0 \<and> video_get_input_idx v c p = None)"
    and calls: "vo_calls w = vo_calls v"
    using assms(1) by (auto simp: video_output_connect2_def video_input_init_def Let_def reset_frames_def input_key_def
        split: if_splits option.splits)
  moreover have "(c, p) \<notin> input_key ` set (vo_inputs v)" if "video_get_input_idx v c p = None"
    using input_idx_None [OF that] by force
  ultimately show "inputs_ok w" "set (vo_inputs v) \<subseteq> set (vo_inputs w)"
    using assms(2) by (auto simp: inputs_ok_def unat_gt_0)
  show "vo_calls w = vo_calls v" by (rule calls)
qed

lemma disconnect_inputs:
  assumes "video_output_disconnect2 c p v = (ok, w)" and "inputs_ok v"
  shows "inputs_ok w" and "i \<in> set (vo_inputs v) \<Longrightarrow> input_key i \<in> set (map input_key (vo_inputs w)) \<Longrightarrow> i \<in> set (vo_inputs w)"
    and "vo_calls w = vo_calls v"
proof -
  obtain n where n: "vo_inputs w = take n (vo_inputs v) @ drop (Suc n) (vo_inputs v)" "vo_calls w = vo_calls v"
  proof (cases "video_get_input_idx v c p")
    case None
    then show ?thesis using assms(1) that [of "length (vo_inputs v)"] by (auto simp: video_output_disconnect2_def)
  next
    case (Some idx)
    then show ?thesis using assms(1) that [of idx] by (auto simp: video_output_disconnect2_def Let_def split: if_splits)
  qed
  have sub: "set (vo_inputs w) \<subseteq> set (vo_inputs v)"
    using set_take_subset [of n "vo_inputs v"] set_drop_subset [of "Suc n" "vo_inputs v"] by (auto simp: n(1))
  have dist: "distinct (map input_key (vo_inputs v))" using assms(2) by (simp add: inputs_ok_def)
  have "distinct (map input_key (vo_inputs w))"
  proof -
    have "map input_key (vo_inputs w) = take n (map input_key (vo_inputs v)) @ drop (Suc n) (map input_key (vo_inputs v))"
      by (simp add: n(1) take_map drop_map)
    then show ?thesis using dist set_take_disj_set_drop_if_distinct [OF dist, of n "Suc n"] by simp
  qed
  then show "inputs_ok w" using assms(2) sub by (auto simp: inputs_ok_def)
  show "i \<in> set (vo_inputs w)" if "i \<in> set (vo_inputs v)" "input_key i \<in> set (map input_key (vo_inputs w))"
    using that sub dist by (auto simp: distinct_map dest: inj_onD)
  show "vo_calls w = vo_calls v" by (rule n(2))
qed

text \<open>What a step does for an input that stays connected.\<close>

lemma step_input:
  assumes st: "video_step scale s t" and ok: "inputs_ok (vsys s)"
    and i: "i \<in> set (vo_inputs (vsys s))" and k: "connected (input_key i) t"
  shows "inputs_ok (vsys t) \<and>
    ((i \<in> set (vo_inputs (vsys t)) \<and> frames t = frames s \<and> vo_calls (vsys t) = vo_calls (vsys s)) \<or>
     (\<exists>f. frames t = frames s @ [f] \<and> (\<exists>i' \<in> set (vo_inputs (vsys t)). offered i i') \<and>
        calls_of (input_key i) (vsys t) = calls_of (input_key i) (vsys s) @
          (if in_divisor_counter i = 0 then given scale i f else [])))"
  using st
proof cases
  case (deliver slot v)
  then show ?thesis using cur_frame_output_calls [OF ok i deliver(4)] by auto
next
  case (complete slot dn v)
  have "vo_inputs v = vo_inputs (vsys s)" "vo_calls v = vo_calls (vsys s)"
    using complete(3) by (auto simp: cur_frame_complete_def Let_def split: if_splits)
  then show ?thesis using ok i complete(1) by (simp add: inputs_ok_def)
next
  case (lock n ts v)
  have "vo_inputs v = vo_inputs (vsys s)" "vo_calls v = vo_calls (vsys s)"
    using lock(4) by (auto simp: video_output_lock_frame_def Let_def split: if_splits)
  then show ?thesis using ok i lock(1) by (simp add: inputs_ok_def)
next
  case (full n ts v)
  have "vo_inputs v = vo_inputs (vsys s)" "vo_calls v = vo_calls (vsys s)"
    using full(4) by (auto simp: video_output_lock_frame_def Let_def split: if_splits)
  then show ?thesis using ok i full(1) by (simp add: inputs_ok_def)
next
  case (connect create conversion dv callback param b v)
  then show ?thesis using connect_inputs [OF connect(2) ok] i by auto
next
  case (disconnect callback param b v)
  then show ?thesis using disconnect_inputs [OF disconnect(2) ok] i k by (auto simp: connected_def)
qed (use ok i in \<open>auto simp: inputs_ok_def write_picture_def video_output_unlock_frame_def video_output_stop_def\<close>)

lemma reachable_inputs:
  assumes "video_reachable scale v0 s" "fresh_output v0"
  shows "inputs_ok (vsys s)"
  using assms
proof (induction rule: video_reachable.induct)
  case start
  then show ?case by (simp add: inputs_ok_def fresh_outputD)
next
  case (step s t)
  have ok: "inputs_ok (vsys s)" using step.IH step.prems by simp
  from step.hyps(2) show ?case
  proof cases
    case (deliver slot v)
    show ?thesis
    proof (cases "vo_inputs (vsys s)")
      case Nil
      then show ?thesis using deliver by (auto simp: cur_frame_output_def inputs_ok_def Let_def)
    next
      case (Cons i "is")
      then show ?thesis using cur_frame_output_calls(2) [OF ok _ deliver(4), of i] deliver(1) by simp
    qed
  next
    case (connect create conversion dv callback param b v)
    then show ?thesis using connect_inputs(1) [OF connect(2) ok] by simp
  next
    case (disconnect callback param b v)
    then show ?thesis using disconnect_inputs(1) [OF disconnect(2) ok] by simp
  qed (use ok in \<open>auto simp: inputs_ok_def write_picture_def video_output_unlock_frame_def video_output_stop_def
      cur_frame_complete_def video_output_lock_frame_def Let_def split: if_splits\<close>)
qed

text \<open>
  What an input that joins when \<open>n\<close> frames are over is given of the frames up to the \<open>m\<close>-th:
  every \<open>d\<close>-th, counted on from its counter.
\<close>

definition due_frames ::
    "(nat \<Rightarrow> 'd \<Rightarrow> 'd option) \<Rightarrow> video_input \<Rightarrow> nat \<Rightarrow> nat \<Rightarrow> ('d \<times> 64 word) list \<Rightarrow> ('d \<times> 64 word) list" where
  "due_frames scale i n m fs = concat (map (\<lambda>k.
     if (unat (in_divisor_counter i) + (k - n)) mod unat (in_divisor i) = 0 then given scale i (fs ! k) else [])
     [n..<m])"

lemma due_frames_append: "m \<le> length fs \<Longrightarrow> due_frames scale i n m (fs @ gs) = due_frames scale i n m fs"
  by (auto simp: due_frames_def nth_append intro!: arg_cong [of _ _ concat])

lemma run_input:
  assumes "(keeps_input scale (input_key i))\<^sup>*\<^sup>* s t" "video_reachable scale v0 s" "fresh_output v0"
    and i: "i \<in> set (vo_inputs (vsys s))"
  shows "video_reachable scale v0 t \<and> length (frames s) \<le> length (frames t) \<and>
    calls_of (input_key i) (vsys t) = calls_of (input_key i) (vsys s) @
      due_frames scale i (length (frames s)) (length (frames t)) (frames t) \<and>
    (\<exists>i' \<in> set (vo_inputs (vsys t)). input_key i' = input_key i \<and> in_scaler i' = in_scaler i \<and>
      in_divisor i' = in_divisor i \<and> unat (in_divisor_counter i') =
        (unat (in_divisor_counter i) + (length (frames t) - length (frames s))) mod unat (in_divisor i))"
  using assms(1)
proof (induction rule: rtranclp_induct)
  case base
  have "unat (in_divisor_counter i) < unat (in_divisor i)"
    using reachable_inputs [OF assms(2,3)] i by (simp add: inputs_ok_def)
  then show ?case using assms(2) i by (auto simp: due_frames_def)
next
  case (step t u)
  let ?n = "length (frames s)" and ?d = "unat (in_divisor i)" and ?c = "unat (in_divisor_counter i)"
  obtain i' where r: "video_reachable scale v0 t" "?n \<le> length (frames t)"
    "calls_of (input_key i) (vsys t) = calls_of (input_key i) (vsys s) @ due_frames scale i ?n (length (frames t)) (frames t)"
    and i': "i' \<in> set (vo_inputs (vsys t))" "input_key i' = input_key i" "in_scaler i' = in_scaler i"
      "in_divisor i' = in_divisor i" "unat (in_divisor_counter i') = (?c + (length (frames t) - ?n)) mod ?d"
    using step.IH by blast
  have st: "video_step scale t u" "connected (input_key i') u" using step.hyps(2) i'(2) by (simp_all add: keeps_input_def)
  have ok: "inputs_ok (vsys t)" using reachable_inputs r(1) assms(3) by blast
  have u: "video_reachable scale v0 u" by (rule video_reachable.step [OF r(1) st(1)])
  consider (same) "i' \<in> set (vo_inputs (vsys u))" "frames u = frames t" "vo_calls (vsys u) = vo_calls (vsys t)"
    | (given) f i'' where "frames u = frames t @ [f]" "i'' \<in> set (vo_inputs (vsys u))" "offered i' i''"
      "calls_of (input_key i') (vsys u) = calls_of (input_key i') (vsys t) @
        (if in_divisor_counter i' = 0 then given scale i' f else [])"
    using step_input [OF st(1) ok i'(1) st(2)] by blast
  then show ?case
  proof cases
    case same
    then have "calls_of (input_key i) (vsys u) = calls_of (input_key i) (vsys t)" by (simp add: calls_of_def)
    then show ?thesis using u r i' same by auto
  next
    case (given f i'')
    let ?m = "length (frames t)"
    have "due_frames scale i ?n (Suc ?m) (frames u) = due_frames scale i ?n ?m (frames t) @
        (if (?c + (?m - ?n)) mod ?d = 0 then given scale i f else [])"
      using r(2) due_frames_append [of ?m "frames t" scale i ?n "[f]"] by (simp add: due_frames_def given(1))
    moreover have "in_divisor_counter i' = 0 \<longleftrightarrow> (?c + (?m - ?n)) mod ?d = 0"
      using i'(5) by (simp add: unat_eq_0 [symmetric])
    moreover have "given scale i' f = given scale i f" by (simp add: given_def i'(3))
    ultimately have calls: "calls_of (input_key i) (vsys u) = calls_of (input_key i) (vsys s) @
        due_frames scale i ?n (length (frames u)) (frames u)"
      using given(1,4) r(3) i'(2) by simp
    have "?c + (length (frames u) - ?n) = Suc (?c + (?m - ?n))" using given(1) r(2) by simp
    then have "unat (in_divisor_counter i'') = (?c + (length (frames u) - ?n)) mod ?d"
      using given(3) i'(4,5) by (simp add: offered_def mod_Suc_eq)
    then show ?thesis using calls u r(2) given(1,2,3) i'(2-4) by (auto simp: offered_def)
  qed
qed


text \<open>C10: The picture of a locked frame is written without the mutex, and so is a cached frame read; the two
never meet.  While the producer owns a frame, the video thread neither works on that frame nor is about to,
and the index of both stays in the ring.\<close>
theorem video_no_race:
  assumes "video_reachable scale v0 s" "fresh_output v0" "ppc s = PLocked i"
  shows "i < cache_size (vsys s) \<and> (vpc s = VTest \<longrightarrow> i \<noteq> vo_first (vsys s)) \<and> vpc s \<noteq> VComplete i"
proof -
  have t: "threads_ok s" using reachable_ok [OF assms(1,2)] ..
  let ?v = "vsys s"
  have r: "i = (vo_first ?v + used ?v) mod cache_size ?v" "used ?v < cache_size ?v" "vo_first ?v < cache_size ?v"
    using t assms(3) by (auto simp: threads_ok_def ring_ok_def)
  have "used ?v \<noteq> 0 \<Longrightarrow> i \<noteq> vo_first ?v"
    using r ring_index_eq [of "used ?v" "cache_size ?v" 0 "vo_first ?v"] by auto
  moreover have "vpc s = VTest \<Longrightarrow> used ?v \<noteq> 0" "vpc s = VComplete j \<Longrightarrow> used ?v \<noteq> 0 \<and> j = vo_first ?v" for j
    using t by (auto simp: threads_ok_def)
  moreover have "i < cache_size ?v" using r by (metis mod_less_divisor not_less0 neq0_conv)
  ultimately show ?thesis by blast
qed

text \<open>C30: The video thread sleeps only when there is nothing to do.  Until the output is stopped, it can take
a step unless every frame interval asked for and unlocked has been given to the inputs.\<close>
theorem video_thread_progress:
  assumes "video_reachable scale v0 s" "fresh_output v0" "\<not> vo_stop (vsys s)"
    and "frames s \<noteq> expand (vo_frame_time v0) (requests s)"
  shows "\<exists>s'. video_step scale s s' \<and> (vpc s' \<noteq> vpc s) \<and> requests s' = requests s"
proof -
  have t: "threads_ok s" and f: "frames_ok (vo_frame_time v0) s" using reachable_ok [OF assms(1,2)] by simp_all
  show ?thesis
  proof (cases "vpc s")
    case VWait
    have "frames s @ pictures (vo_frame_time v0) (vring (vsys s)) = expand (vo_frame_time v0) (requests s)"
      using f VWait by (simp add: frames_ok_def completed_def)
    then have "vring (vsys s) \<noteq> []" using assms(4) by auto
    then have "used (vsys s) \<noteq> 0" using vring_length [of "vsys s"] by (metis length_0_conv)
    then have "vo_semaphore (vsys s) \<noteq> 0"
      using t assms(3) VWait by (simp add: threads_ok_def)
    then obtain k where "vo_semaphore (vsys s) = Suc k" by (cases "vo_semaphore (vsys s)") auto
    then show ?thesis using VWait video_step.wait [of s k scale] assms(3) by fastforce
  next
    case VTest
    obtain slot v where "cur_frame_output scale (vsys s) = (slot, v)" by (cases "cur_frame_output scale (vsys s)")
    then show ?thesis using VTest video_step.deliver [of s scale slot v] assms(3) by fastforce
  next
    case (VComplete slot)
    obtain dn v where c: "cur_frame_complete slot (vsys s) = (dn, v)" by (cases "cur_frame_complete slot (vsys s)")
    let ?t = "s\<lparr>vsys := v\<lparr>vo_total := vo_total v + 1\<rparr>, vpc := if dn then VWait else VTest\<rparr>"
    have "video_step scale s ?t" by (rule video_step.complete [OF VComplete c])
    then show ?thesis by (intro exI [of _ ?t]) (simp add: VComplete)
  next
    case VExit
    then show ?thesis using t assms(3) by (simp add: threads_ok_def)
  qed
qed

text \<open>An input with a frame-rate divisor gets every \<open>d\<close>-th frame, from its first one on.\<close>
theorem divisor_every_nth:
  assumes "in_divisor input \<noteq> 0" "in_divisor_counter input = 0"
  shows "fst (input_skip (((\<lambda>i. snd (input_skip i)) ^^ k) input)) = (k mod unat (in_divisor input) \<noteq> 0)"
proof -
  let ?d = "unat (in_divisor input)" and ?f = "\<lambda>i. snd (input_skip i)"
  have d: "0 < ?d" using assms(1) by (simp add: unat_gt_0)
  have "in_divisor ((?f ^^ k) input) = in_divisor input \<and> unat (in_divisor_counter ((?f ^^ k) input)) = k mod ?d"
  proof (induction k)
    case 0
    then show ?case using assms by simp
  next
    case (Suc k)
    define i where "i = (?f ^^ k) input"
    let ?c = "in_divisor_counter i"
    have c: "unat ?c = k mod ?d" "in_divisor i = in_divisor input" using Suc by (simp_all add: i_def)
    have "unat ?c < ?d" using c d by simp
    moreover have "?d < 2 ^ 32" using unsigned_less [of "in_divisor input", where 'a = nat] by simp
    ultimately have u: "unat (?c + 1) = unat ?c + 1" using unat_add_lem [of ?c 1] by simp
    have e: "?c + 1 = in_divisor input \<longleftrightarrow> Suc (unat ?c) = ?d" using u by (simp add: word_unat_eq_iff)
    have "unat (in_divisor_counter (?f i)) = Suc k mod ?d"
      using u c(1) d by (simp add: input_skip_def Let_def c(2) e mod_Suc)
    moreover have "in_divisor (?f i) = in_divisor input" using c(2) by (simp add: input_skip_def Let_def)
    ultimately show ?case by (simp add: i_def)
  qed
  then show ?thesis by (simp add: input_skip_def Let_def unat_eq_0 [symmetric])
qed

lemma divisor_every_nth_witness:
  "map (\<lambda>k. fst (input_skip (((\<lambda>i. snd (input_skip i)) ^^ k)
      \<lparr>in_conversion = \<lparr>vs_format = 0, vs_width = 2, vs_height = 2, vs_range = VIDEO_RANGE_FULL, vs_colorspace = VIDEO_CS_709\<rparr>,
       in_scaler = None, in_cur_frame = 0, in_divisor = 3, in_divisor_counter = 0, in_callback = 1, in_param = 2\<rparr>)))
     [0, 1, 2, 3, 4] = [False, True, True, False, True]"
  by (subst divisor_every_nth | simp)+

lemma uint_eq_sint:
  fixes w :: "'a::len word"
  assumes "0 \<le> sint w"
  shows "uint w = sint w"
proof -
  have "sint w = uint w - 2 ^ LENGTH('a) * of_bool (bit (uint w) (LENGTH('a) - 1))"
    unfolding sint_uint signed_take_bit_eq_take_bit_minus by (simp add: take_bit_int_eq_self)
  moreover have "uint w < 2 ^ LENGTH('a)" by (rule unsigned_less)
  moreover have "sint w = uint w \<or> sint w = uint w - 2 ^ LENGTH('a)"
    using calculation(1) by (cases "bit (uint w) (LENGTH('a) - 1)") simp_all
  ultimately show ?thesis using assms by linarith
qed

text \<open>The graphics thread asks for frames without a gap.  The time \<^verbatim>\<open>video_sleep\<close> leaves
for the next frame is that of the current one plus one interval for each frame counted, and it counts one frame
when it was in time and otherwise the whole intervals that have passed, at least one.\<close>
theorem video_sleep_contiguous:
  assumes "video_sleep cur interval slept now = (next, n)" "0 < sint interval" "sint (now - cur) div sint interval < 2 ^ 31"
  shows "next = cur + interval * of_int n \<and>
    n = (if slept then 1 else max 1 (sint (now - cur) div sint interval))"
proof (cases slept)
  case True
  then show ?thesis using assms(1) by (simp add: video_sleep_def)
next
  case False
  let ?d = "now - cur"
  define m where "m = (if sint ?d > sint interval then ?d else interval)"
  have n: "n = sint (ucast (m div interval) :: 32 word)" "next = cur + interval * of_int n"
    using assms(1) False by (auto simp: video_sleep_def m_def Let_def)
  have pos: "0 < sint m" "sint m = max (sint ?d) (sint interval)" using assms(2) by (auto simp: m_def)
  have ui: "uint interval = sint interval" "uint m = sint m"
    using assms(2) pos(1) by (simp_all add: uint_eq_sint)
  have q: "uint (m div interval) = sint m div sint interval" by (simp add: uint_div ui)
  have ge1: "1 \<le> x div sint interval" if "sint interval \<le> x" for x
    using zdiv_mono1 [OF that assms(2)] assms(2) by simp
  have ge: "1 \<le> sint m div sint interval" by (rule ge1) (simp add: pos(2))
  have le1: "x div sint interval \<le> 1" if "x \<le> sint interval" for x
    using zdiv_mono1 [OF that assms(2)] assms(2) by simp
  have mx: "sint m div sint interval = max 1 (sint ?d div sint interval)"
    using ge1 [of "sint ?d"] le1 [of "sint ?d"] assms(2) by (auto simp: pos(2) max_def)
  have lt: "sint m div sint interval < 2 ^ 31" using assms(3) by (simp add: mx)
  have "sint (ucast (m div interval) :: 32 word) = uint (m div interval)"
    using lt ge unfolding q [symmetric] by (simp add: sint_uint unsigned_ucast_eq take_bit_int_eq_self signed_take_bit_int_eq_self)
  then show ?thesis using n False by (simp add: q mx)
qed

lemma video_sleep_contiguous_witness:
  "fst (video_sleep 1000 100 False 1350) = 1000 + 100 * 3 \<and> snd (video_sleep 1000 100 False 1350) = 3"
proof -
  obtain t n where "video_sleep 1000 100 False 1350 = (t, n)" by (cases "video_sleep 1000 100 False 1350")
  then show ?thesis using video_sleep_contiguous [of 1000 100 False 1350 t n] by simp
qed

subsection \<open>A run\<close>

definition wit_info :: video_output_info where
  "wit_info = \<lparr>vi_scale = \<lparr>vs_format = 0, vs_width = 2, vs_height = 2, vs_range = VIDEO_RANGE_FULL, vs_colorspace = VIDEO_CS_709\<rparr>,
     vi_fps_num = 100, vi_fps_den = 1, vi_cache_size = 1\<rparr>"

definition wit_v0 :: "nat video_output" where
  "wit_v0 = the (snd (the (video_output_open True 0 wit_info)))"

text \<open>An input joins, and the picture 42 is asked for at time 5, for two intervals.\<close>

definition wit_joined :: "nat video_sys" where
  "wit_joined = \<lparr>vsys = snd (video_output_connect (\<lambda>_ _. None) None 1 2 wit_v0), vpc = VWait, ppc = PIdle,
     requests = [], frames = []\<rparr>"

definition wit_input :: video_input where
  "wit_input = hd (vo_inputs (vsys wit_joined))"

definition wit_locked :: "nat video_sys" where
  "wit_locked = wit_joined\<lparr>vsys := snd (video_output_lock_frame 2 5 (vsys wit_joined)), ppc := PLocked 0\<rparr>"

definition wit_written :: "nat video_sys" where
  "wit_written = wit_locked\<lparr>vsys := write_picture 0 42 (vsys wit_locked)\<rparr>"

definition wit_unlocked :: "nat video_sys" where
  "wit_unlocked = wit_written\<lparr>vsys := video_output_unlock_frame (vsys wit_written), ppc := PIdle,
     requests := [(42, 5, 2)]\<rparr>"

definition wit_awake :: "nat video_sys" where
  "wit_awake = wit_unlocked\<lparr>vsys := (vsys wit_unlocked)\<lparr>vo_semaphore := 0\<rparr>, vpc := VTest\<rparr>"

definition wit_given :: "nat video_sys" where
  "wit_given = wit_awake\<lparr>vsys := snd (cur_frame_output (\<lambda>_. Some) (vsys wit_awake)), vpc := VComplete 0,
     frames := [(42, 5)]\<rparr>"

lemma wit_fresh: "fresh_output wit_v0"
proof -
  have "video_output_open True 0 wit_info = Some (0, Some wit_v0)" by code_simp
  then show ?thesis unfolding fresh_output_def by (intro exI [of _ 0] exI [of _ wit_info]) (simp add: wit_info_def)
qed

lemma wit_steps:
  "video_step (\<lambda>_. Some) wit_joined wit_locked" "video_step (\<lambda>_. Some) wit_locked wit_written"
  "video_step (\<lambda>_. Some) wit_written wit_unlocked" "video_step (\<lambda>_. Some) wit_unlocked wit_awake"
  "video_step (\<lambda>_. Some) wit_awake wit_given"
proof -
  let ?st = "video_step (\<lambda>_. Some) :: nat video_sys \<Rightarrow> _"
  have "video_output_lock_frame (int 2) 5 (vsys wit_joined) = (True, vsys wit_locked)" "ppc wit_joined = PIdle" by code_simp+
  from video_step.lock [OF this(2) _ this(1), of "\<lambda>_. Some"]
  have "?st wit_joined (wit_joined\<lparr>vsys := vsys wit_locked, ppc := PLocked (vo_last (vsys wit_locked))\<rparr>)" by simp
  moreover have "wit_joined\<lparr>vsys := vsys wit_locked, ppc := PLocked (vo_last (vsys wit_locked))\<rparr> = wit_locked" by code_simp
  ultimately show "?st wit_joined wit_locked" by simp
  show "?st wit_locked wit_written"
    unfolding wit_written_def by (rule video_step.picture) (simp add: wit_locked_def)
  have "ppc wit_written = PLocked 0" by (simp add: wit_written_def wit_locked_def)
  from video_step.unlock [OF this refl, of "\<lambda>_. Some"]
  have st: "?st wit_written s"
    if "s = wit_written\<lparr>vsys := video_output_unlock_frame (vsys wit_written), ppc := PIdle,
      requests := requests wit_written @ [(cfi_picture (vo_cache (vsys wit_written) ! 0),
        cfi_timestamp (vo_cache (vsys wit_written) ! 0), nat (cfi_count (vo_cache (vsys wit_written) ! 0)))]\<rparr>" for s
    using that by simp
  show "?st wit_written wit_unlocked" by (rule st) code_simp
  have w: "vpc wit_unlocked = VWait" "vo_semaphore (vsys wit_unlocked) = Suc 0" "\<not> vo_stop (vsys wit_unlocked)"
    by code_simp+
  from video_step.wait [OF w(1,2), of "\<lambda>_. Some"] w(3) show "?st wit_unlocked wit_awake"
    by (simp add: wit_awake_def)
  have "vpc wit_awake = VTest" "\<not> vo_stop (vsys wit_awake)"
    "cur_frame_output (\<lambda>_. Some) (vsys wit_awake) = (0, vsys wit_given)" by code_simp+
  from video_step.deliver [OF this]
  have sd: "?st wit_awake s"
    if "s = wit_awake\<lparr>vsys := vsys wit_given, vpc := VComplete 0,
      frames := frames wit_awake @ [(cfi_picture (vo_cache (vsys wit_awake) ! 0), cfi_timestamp (vo_cache (vsys wit_awake) ! 0))]\<rparr>"
    for s using that by simp
  show "?st wit_awake wit_given" by (rule sd) code_simp
qed

lemma wit_run:
  "video_reachable (\<lambda>_. Some) wit_v0 wit_joined" "video_reachable (\<lambda>_. Some) wit_v0 wit_locked"
  "video_reachable (\<lambda>_. Some) wit_v0 wit_unlocked"
proof -
  let ?r = "video_reachable (\<lambda>_. Some) wit_v0" and ?st = "video_step (\<lambda>_. Some) :: nat video_sys \<Rightarrow> _"
  let ?s0 = "\<lparr>vsys = wit_v0, vpc = VWait, ppc = PIdle, requests = [], frames = []\<rparr>"
  have "video_output_connect2 (\<lambda>_ _. None) None 1 1 2 (vsys ?s0) = (True, vsys wit_joined)" by code_simp
  from video_step.connect [OF this, of "\<lambda>_. Some"] have "?st ?s0 wit_joined" by (simp add: wit_joined_def)
  then show 1: "?r wit_joined" using video_reachable.step [OF video_reachable.start] by blast
  show 2: "?r wit_locked" by (rule video_reachable.step [OF 1 wit_steps(1)])
  show "?r wit_unlocked" by (rule video_reachable.step [OF video_reachable.step [OF 2 wit_steps(2)] wit_steps(3)])
qed


lemma video_no_race_witness: "0 < cache_size (vsys wit_locked) \<and> vpc wit_locked \<noteq> VComplete 0"
  using video_no_race [OF wit_run(2) wit_fresh, of 0] by (simp add: wit_locked_def)

lemma video_thread_progress_witness: "\<exists>s'. video_step (\<lambda>_. Some) wit_unlocked s' \<and> vpc s' \<noteq> vpc wit_unlocked"
proof -
  have "\<not> vo_stop (vsys wit_unlocked)" by code_simp
  moreover have "frames wit_unlocked \<noteq> expand (vo_frame_time wit_v0) (requests wit_unlocked)" by code_simp
  ultimately show ?thesis using video_thread_progress [OF wit_run(3) wit_fresh] by blast
qed

end
