(* ===== verification/Lexer.thy ===== *)
theory Lexer
  imports Obs_Prelude
begin

text \<open>
  The base lexer (\<^verbatim>\<open>src/libobs/util/lexer.c\<close>, \<^verbatim>\<open>lexer.h\<close>): tokens of
  letters, digits, white space and single characters, comparison of text segments, and the tests for
  numbers.

  A C string is the list of its characters without the terminator; reading at its end gives the
  character 0.  A \<^verbatim>\<open>char\<close> is signed.  A pointer into the text of a lexer is an offset.
\<close>

subsection \<open>Characters\<close>

definition signed_char :: "char \<Rightarrow> int" where
  "signed_char c = (let n = of_char c :: nat in if n < 128 then int n else int n - 256)"

definition char_at :: "string \<Rightarrow> nat \<Rightarrow> char" where
  "char_at s i = (if i < length s then s ! i else CHR 0x00)"

definition is_whitespace :: "char \<Rightarrow> bool" where
  "is_whitespace ch \<longleftrightarrow> ch = CHR '' '' \<or> ch = CHR 0x0D \<or> ch = CHR 0x09 \<or> ch = CHR 0x0A"

definition is_newline :: "char \<Rightarrow> bool" where
  "is_newline ch \<longleftrightarrow> ch = CHR 0x0D \<or> ch = CHR 0x0A"

definition is_newline_pair :: "char \<Rightarrow> char \<Rightarrow> bool" where
  "is_newline_pair ch1 ch2 \<longleftrightarrow> ch1 = CHR 0x0D \<and> ch2 = CHR 0x0A \<or> ch1 = CHR 0x0A \<and> ch2 = CHR 0x0D"

definition newline_size :: "string \<Rightarrow> nat" where
  "newline_size s =
     (if is_newline_pair (char_at s 0) (char_at s 1) then 2
      else if char_at s 0 = CHR 0x0D \<or> char_at s 0 = CHR 0x0A then 1 else 0)"

definition in_range :: "char \<Rightarrow> char \<Rightarrow> char \<Rightarrow> bool" where
  "in_range lo hi ch \<longleftrightarrow> signed_char lo \<le> signed_char ch \<and> signed_char ch \<le> signed_char hi"

definition toupper :: "char \<Rightarrow> char" where
  "toupper ch = (if in_range (CHR ''a'') (CHR ''z'') ch then char_of (of_char ch - 32 :: nat) else ch)"

subsection \<open>Comparison\<close>

text \<open>The loop shared by the comparisons; \<open>up\<close> is what is done to each character first.\<close>

fun cmp_loop :: "(char \<Rightarrow> char) \<Rightarrow> string \<Rightarrow> string \<Rightarrow> int" where
  "cmp_loop up a b =
     (let ch1 = signed_char (up (char_at a 0)); ch2 = signed_char (up (char_at b 0)) in
      if ch1 < ch2 then -1
      else if ch1 > ch2 then 1
      else case (a, b) of (_ # a', _ # b') \<Rightarrow> cmp_loop up a' b' | _ \<Rightarrow> 0)"

declare cmp_loop.simps [simp del]

definition strref_is_empty :: "string \<Rightarrow> bool" where "strref_is_empty s \<longleftrightarrow> s = [] \<or> hd s = CHR 0x00"

definition strref_cmp :: "string \<Rightarrow> string \<Rightarrow> int" where
  "strref_cmp str1 str2 =
     (if strref_is_empty str1 then (if str2 = [] then 0 else -1) else cmp_loop (\<lambda>c. c) str1 str2)"

definition strref_cmpi :: "string \<Rightarrow> string \<Rightarrow> int" where
  "strref_cmpi str1 str2 =
     (if strref_is_empty str1 then (if str2 = [] then 0 else -1) else cmp_loop toupper str1 str2)"

definition strref_cmp_strref :: "string \<Rightarrow> string \<Rightarrow> int" where
  "strref_cmp_strref str1 str2 =
     (if strref_is_empty str1 then (if strref_is_empty str2 then 0 else -1)
      else if strref_is_empty str2 then -1 else cmp_loop (\<lambda>c. c) str1 str2)"

definition strref_cmpi_strref :: "string \<Rightarrow> string \<Rightarrow> int" where
  "strref_cmpi_strref str1 str2 =
     (if strref_is_empty str1 then (if strref_is_empty str2 then 0 else -1)
      else if strref_is_empty str2 then -1 else cmp_loop toupper str1 str2)"

text \<open>\<^verbatim>\<open>astrcmpi\<close> (\<^verbatim>\<open>dstr.c\<close>) is the same loop on two C strings.\<close>

definition astrcmpi :: "string \<Rightarrow> string \<Rightarrow> int" where
  "astrcmpi str1 str2 = cmp_loop toupper str1 str2"

subsection \<open>Numbers\<close>

definition is_digit :: "char \<Rightarrow> bool" where "is_digit = in_range (CHR ''0'') (CHR ''9'')"

definition skip_sign :: "string \<Rightarrow> string" where
  "skip_sign s = (if char_at s 0 = CHR ''-'' \<or> char_at s 0 = CHR ''+'' then tl s else s)"

text \<open>The string is what follows in the text; \<open>n\<close> is the length of the segment, 0 for all of it.\<close>

fun valid_int_loop :: "string \<Rightarrow> nat \<Rightarrow> bool" where
  "valid_int_loop [] n = False"
| "valid_int_loop (c # s) n =
     (if \<not> is_digit c then False
      else if s \<noteq> [] \<and> n - 1 \<noteq> 0 then valid_int_loop s (n - 1) else True)"

definition valid_int_str :: "string \<Rightarrow> nat \<Rightarrow> bool" where
  "valid_int_str str n =
     (if str = [] then False
      else let n = (if n = 0 then length str else n) in valid_int_loop (skip_sign str) n)"

fun valid_float_loop :: "bool \<Rightarrow> bool \<Rightarrow> bool \<Rightarrow> string \<Rightarrow> nat \<Rightarrow> bool" where
  "valid_float_loop found_num found_exp found_dec [] n = False"
| "valid_float_loop found_num found_exp found_dec (c # s) n =
     (let r = (if c = CHR ''.'' then
                 (if found_dec \<or> found_exp \<or> \<not> found_num then None else Some (found_num, found_exp, True))
               else if c = CHR ''e'' then
                 (if found_exp \<or> \<not> found_num then None else Some (False, True, found_dec))
               else if c = CHR ''-'' \<or> c = CHR ''+'' then
                 (if \<not> found_exp \<or> \<not> found_num then None else Some (found_num, found_exp, found_dec))
               else if \<not> is_digit c then None
               else Some (True, found_exp, found_dec)) in
      case r of None \<Rightarrow> False
      | Some (found_num, found_exp, found_dec) \<Rightarrow>
          if s \<noteq> [] \<and> n - 1 \<noteq> 0 then valid_float_loop found_num found_exp found_dec s (n - 1) else found_num)"

definition valid_float_str :: "string \<Rightarrow> nat \<Rightarrow> bool" where
  "valid_float_str str n =
     (if str = [] then False
      else let n = (if n = 0 then length str else n) in valid_float_loop False False False (skip_sign str) n)"

subsection \<open>Errors\<close>

record error_item =
  ei_file :: string
  ei_row :: nat
  ei_column :: nat
  ei_error :: string
  ei_level :: int

definition error_data_add ::
    "error_item list option \<Rightarrow> string \<Rightarrow> nat \<Rightarrow> nat \<Rightarrow> string \<Rightarrow> int \<Rightarrow> error_item list option" where
  "error_data_add data file row column msg level =
     map_option (\<lambda>es. es @ [\<lparr>ei_file = file, ei_row = row, ei_column = column, ei_error = msg, ei_level = level\<rparr>]) data"

definition error_data_type_count :: "error_item list \<Rightarrow> int \<Rightarrow> nat" where
  "error_data_type_count ed type = length (filter (\<lambda>e. ei_level e = type) ed)"

definition error_data_has_errors :: "error_item list \<Rightarrow> bool" where
  "error_data_has_errors ed = list_ex (\<lambda>e. ei_level e = 0) ed"

subsection \<open>Tokens\<close>

datatype base_token_type =
  BASETOKEN_NONE | BASETOKEN_ALPHA | BASETOKEN_DIGIT | BASETOKEN_WHITESPACE | BASETOKEN_OTHER

record strref =
  sr_array :: "nat option"
  sr_len :: nat

record base_token =
  bt_text :: strref
  bt_type :: base_token_type

record lexer =
  lex_text :: string
  lex_offset :: nat

definition lexer_start :: "string \<Rightarrow> lexer" where
  "lexer_start text = \<lparr>lex_text = text, lex_offset = 0\<rparr>"

definition strref_clear :: strref where "strref_clear = \<lparr>sr_array = None, sr_len = 0\<rparr>"

definition strref_add :: "strref \<Rightarrow> strref \<Rightarrow> strref" where
  "strref_add dst t = (if sr_array dst = None then t else dst\<lparr>sr_len := sr_len dst + sr_len t\<rparr>)"

definition strref_text :: "string \<Rightarrow> strref \<Rightarrow> string" where
  "strref_text text r = (case sr_array r of None \<Rightarrow> [] | Some a \<Rightarrow> take (sr_len r) (drop a text))"

definition get_char_token_type :: "char \<Rightarrow> base_token_type" where
  "get_char_token_type ch =
     (if is_whitespace ch then BASETOKEN_WHITESPACE
      else if in_range (CHR ''0'') (CHR ''9'') ch then BASETOKEN_DIGIT
      else if in_range (CHR ''a'') (CHR ''z'') ch \<or> in_range (CHR ''A'') (CHR ''Z'') ch then BASETOKEN_ALPHA
      else BASETOKEN_OTHER)"

function token_loop ::
    "bool \<Rightarrow> string \<Rightarrow> nat \<Rightarrow> nat option \<Rightarrow> base_token_type \<Rightarrow> nat \<times> nat option \<times> base_token_type" where
  "token_loop ignore_whitespace text off token_start type =
     (if off < length text then
        let ch = text ! off; off = off + 1; new_type = get_char_token_type ch in
        if type = BASETOKEN_NONE then
          if new_type = BASETOKEN_WHITESPACE \<and> ignore_whitespace
          then token_loop ignore_whitespace text off token_start type
          else let token_start = Some (off - 1); type = new_type in
            if type \<noteq> BASETOKEN_DIGIT \<and> type \<noteq> BASETOKEN_ALPHA then
              (if is_newline ch \<and> is_newline_pair ch (char_at text off) then off + 1 else off, token_start, type)
            else token_loop ignore_whitespace text off token_start type
        else if type \<noteq> new_type then (off - 1, token_start, type)
        else token_loop ignore_whitespace text off token_start type
      else (off, token_start, type))"
  by pat_completeness auto
termination by (relation "measure (\<lambda>(_, text, off, _, _). length text - off)") auto

declare token_loop.simps [simp del]

definition lexer_getbasetoken :: "lexer \<Rightarrow> bool \<Rightarrow> base_token option \<times> lexer" where
  "lexer_getbasetoken lx ignore_whitespace =
     (let (off, token_start, type) =
            token_loop ignore_whitespace (lex_text lx) (lex_offset lx) None BASETOKEN_NONE in
      (case token_start of
         Some s \<Rightarrow> if off > s then Some \<lparr>bt_text = \<lparr>sr_array = Some s, sr_len = off - s\<rparr>, bt_type = type\<rparr> else None
       | None \<Rightarrow> None,
       lx\<lparr>lex_offset := off\<rparr>))"

text \<open>Row and column of an offset.\<close>

function stroffset_loop :: "string \<Rightarrow> nat \<Rightarrow> nat \<Rightarrow> nat \<Rightarrow> nat \<Rightarrow> nat \<times> nat" where
  "stroffset_loop text i str cur_row cur_col =
     (if i < str then
        if is_newline (char_at text i)
        then stroffset_loop text (i + (newline_size (drop i text) - 1) + 1) str (cur_row + 1) 1
        else stroffset_loop text (i + 1) str cur_row (cur_col + 1)
      else (cur_row, cur_col))"
  by pat_completeness auto
termination by (relation "measure (\<lambda>(_, i, str, _, _). str - i)") auto

declare stroffset_loop.simps [simp del]

definition lexer_getstroffset :: "lexer \<Rightarrow> nat \<Rightarrow> nat \<times> nat" where
  "lexer_getstroffset lx str = stroffset_loop (lex_text lx) 0 str 1 1"

subsection \<open>Comparison decides equality\<close>

lemma signed_char_inj: "signed_char a = signed_char b \<Longrightarrow> a = b"
proof -
  assume e: "signed_char a = signed_char b"
  have "of_char a = (of_char b :: nat)"
    using e nat_of_char_less_256 [of a] nat_of_char_less_256 [of b]
    unfolding signed_char_def Let_def by (auto simp del: nat_of_char_less_256 split: if_splits)
  then show "a = b" by (simp add: of_char_eq_iff)
qed

lemma cmp_loop_eq_0:
  "cmp_loop up a b = 0 \<longleftrightarrow> up (char_at a 0) = up (char_at b 0) \<and>
     (case (a, b) of (_ # a', _ # b') \<Rightarrow> cmp_loop up a' b' = 0 | _ \<Rightarrow> True)"
proof -
  let ?x = "up (char_at a 0)" and ?y = "up (char_at b 0)"
  show ?thesis
  proof (cases "?x = ?y")
    case True
    then show ?thesis by (subst cmp_loop.simps) (simp add: Let_def split: list.split)
  next
    case False
    then have "signed_char ?x < signed_char ?y \<or> signed_char ?x > signed_char ?y"
      using signed_char_inj by (metis linorder_less_linear)
    then show ?thesis using False by (subst cmp_loop.simps) (auto simp: Let_def)
  qed
qed

lemma cmp_loop_equal:
  assumes "\<And>x. up x = CHR 0x00 \<longleftrightarrow> x = CHR 0x00"
  shows "CHR 0x00 \<notin> set a \<Longrightarrow> CHR 0x00 \<notin> set b \<Longrightarrow> cmp_loop up a b = 0 \<longleftrightarrow> map up a = map up b"
proof (induction a arbitrary: b)
  case Nil
  show ?case
  proof (cases b)
    case (Cons y b')
    then have "y \<noteq> CHR 0x00" using Nil by auto
    then have "up (CHR 0x00) \<noteq> up y" using assms [of y] assms [of "CHR 0x00"] by metis
    then show ?thesis unfolding Cons cmp_loop_eq_0 [of up "[]"] by (simp add: char_at_def)
  qed (unfold cmp_loop_eq_0 [of up "[]"], simp)
next
  case (Cons x a)
  show ?case
  proof (cases b)
    case Nil
    have "x \<noteq> CHR 0x00" using Cons.prems by auto
    then have "up x \<noteq> up (CHR 0x00)" using assms [of x] assms [of "CHR 0x00"] by metis
    then show ?thesis unfolding Nil cmp_loop_eq_0 [of up "x # a"] by (simp add: char_at_def)
  next
    case b: (Cons y b')
    then show ?thesis using Cons.IH [of b'] Cons.prems
      unfolding b cmp_loop_eq_0 [of up "x # a"] by (simp add: char_at_def)
  qed
qed

lemma toupper_0: "toupper x = CHR 0x00 \<longleftrightarrow> x = CHR 0x00"
proof -
  show ?thesis
  proof (cases "in_range (CHR ''a'') (CHR ''z'') x")
    case True
    then have n: "97 \<le> (of_char x :: nat)" "(of_char x :: nat) \<le> 122"
      using nat_of_char_less_256 [of x] by (auto simp: in_range_def signed_char_def Let_def simp del: nat_of_char_less_256 split: if_splits)
    then have "of_char (toupper x) = (of_char x - 32 :: nat)" using True by (simp add: toupper_def)
    moreover have "x \<noteq> CHR 0x00" using n by auto
    moreover have "toupper x \<noteq> CHR 0x00" using calculation(1) n by auto
    ultimately show ?thesis by simp
  next
    case False
    then show ?thesis by (simp add: toupper_def)
  qed
qed

text \<open>The comparisons decide equality: of two texts without the character 0,
\<^verbatim>\<open>strref_cmp\<close> gives 0 exactly for the same text and \<^verbatim>\<open>strref_cmpi\<close> for
texts that differ in case only.\<close>
theorem strref_cmp_equal:
  assumes "CHR 0x00 \<notin> set a" "CHR 0x00 \<notin> set b"
  shows "(strref_cmp a b = 0 \<longleftrightarrow> a = b) \<and> (strref_cmpi a b = 0 \<longleftrightarrow> map toupper a = map toupper b)"
proof -
  have e: "strref_is_empty a \<longleftrightarrow> a = []" using assms(1) by (cases a) (auto simp: strref_is_empty_def)
  show ?thesis
    using cmp_loop_equal [of "\<lambda>c. c", OF _ assms] cmp_loop_equal [of toupper, OF toupper_0 assms]
    by (auto simp: strref_cmp_def strref_cmpi_def e)
qed

lemma strref_cmp_equal_witness:
  "(strref_cmp ''abc'' ''ABC'' = 0 \<longleftrightarrow> ''abc'' = ''ABC'') \<and>
   (strref_cmpi ''abc'' ''ABC'' = 0 \<longleftrightarrow> map toupper ''abc'' = map toupper ''ABC'')"
  using strref_cmp_equal [of "''abc''" "''ABC''"] by simp

subsection \<open>Number tests\<close>

lemma valid_int_loop_digits:
  "s \<noteq> [] \<Longrightarrow> 0 < n \<Longrightarrow> valid_int_loop s n \<longleftrightarrow> list_all is_digit (take n s)"
proof (induction s n rule: valid_int_loop.induct)
  case (2 c s n)
  then show ?case by (cases n; cases s; cases "n - 1") auto
qed simp

text \<open>Without a sign the test looks at exactly the segment.\<close>
lemma valid_int_unsigned:
  assumes "s \<noteq> []" "hd s \<noteq> CHR ''-''" "hd s \<noteq> CHR ''+''"
  shows "valid_int_str s n \<longleftrightarrow> list_all is_digit (if n = 0 then s else take n s)"
proof -
  have "skip_sign s = s" using assms by (cases s) (auto simp: skip_sign_def char_at_def)
  then show ?thesis using assms(1) by (simp add: valid_int_str_def valid_int_loop_digits)
qed

text \<open>The sign is not counted: the test of a signed segment looks one character behind it, so that
\<^verbatim>\<open>-5\<close> in front of a semicolon is no number, and a sign alone is one when a digit follows.\<close>
lemma valid_int_reads_past_sign:
  "\<not> valid_int_str ''-5;'' 2" "valid_int_str ''-5'' 2" "valid_int_str ''-5'' 1"
  by code_simp+

text \<open>The sign of an exponent is accepted only where it must not be.\<close>
lemma valid_float_exponent_sign: "\<not> valid_float_str ''1e-5'' 0" "valid_float_str ''1e5-3'' 0"
  by code_simp+

subsection \<open>Tokens without ignoring white space\<close>

definition is_run :: "base_token_type \<Rightarrow> bool" where
  "is_run ty \<longleftrightarrow> ty = BASETOKEN_DIGIT \<or> ty = BASETOKEN_ALPHA"

text \<open>The length of the first token of a text.\<close>

fun token_len :: "string \<Rightarrow> nat" where
  "token_len [] = 0"
| "token_len (c # cs) =
     (if is_run (get_char_token_type c)
      then 1 + length (takeWhile (\<lambda>x. get_char_token_type x = get_char_token_type c) cs)
      else if cs \<noteq> [] \<and> is_newline_pair c (hd cs) then 2 else 1)"

lemma token_len_bounds: "cs \<noteq> [] \<Longrightarrow> 1 \<le> token_len cs \<and> token_len cs \<le> length cs"
  by (cases cs) (auto simp: length_takeWhile_le Suc_le_eq less_Suc_eq_le neq_Nil_conv)

lemma token_loop_run:
  assumes "is_run ty"
  shows "off \<le> length text \<Longrightarrow> token_loop ign text off st ty =
    (off + length (takeWhile (\<lambda>x. get_char_token_type x = ty) (drop off text)), st, ty)"
proof (induction "length text - off" arbitrary: off)
  case 0
  then show ?case by (subst token_loop.simps) simp
next
  case (Suc n)
  then have off: "off < length text" by simp
  have d: "drop off text = text ! off # drop (Suc off) text" using off by (simp add: Cons_nth_drop_Suc)
  have ty: "ty \<noteq> BASETOKEN_NONE" using assms by (auto simp: is_run_def)
  show ?case
  proof (cases "get_char_token_type (text ! off) = ty")
    case True
    have "token_loop ign text (Suc off) st ty =
        (Suc off + length (takeWhile (\<lambda>x. get_char_token_type x = ty) (drop (Suc off) text)), st, ty)"
      using Suc.hyps(2) off by (intro Suc.hyps(1)) simp_all
    then show ?thesis using off True ty unfolding d by (subst token_loop.simps) (simp add: Let_def)
  next
    case False
    then show ?thesis using off ty unfolding d by (subst token_loop.simps) (simp add: Let_def)
  qed
qed

lemma class_not_none [simp]: "get_char_token_type c \<noteq> BASETOKEN_NONE"
  by (simp add: get_char_token_type_def)

lemma newline_pair_class: "is_newline_pair c d \<Longrightarrow> is_newline c \<and> \<not> is_run (get_char_token_type c)"
  by (auto simp: is_newline_pair_def is_newline_def is_run_def get_char_token_type_def is_whitespace_def)

lemma token_loop_start:
  assumes "off < length text"
  shows "token_loop False text off None BASETOKEN_NONE =
    (off + token_len (drop off text), Some off, get_char_token_type (text ! off))"
proof -
  let ?c = "text ! off"
  have d: "drop off text = ?c # drop (Suc off) text" using assms by (simp add: Cons_nth_drop_Suc)
  have hdd: "drop (Suc off) text \<noteq> [] \<Longrightarrow> hd (drop (Suc off) text) = char_at text (Suc off)"
    by (simp add: char_at_def hd_drop_conv_nth)
  have z: "drop (Suc off) text = [] \<Longrightarrow> \<not> is_newline_pair ?c (char_at text (Suc off))"
    by (auto simp: is_newline_pair_def char_at_def)
  show ?thesis
  proof (cases "is_run (get_char_token_type ?c)")
    case True
    then have t: "get_char_token_type ?c = BASETOKEN_DIGIT \<or> get_char_token_type ?c = BASETOKEN_ALPHA"
      by (simp add: is_run_def)
    have "token_loop False text off None BASETOKEN_NONE =
        token_loop False text (Suc off) (Some off) (get_char_token_type ?c)"
      using assms t by (subst token_loop.simps) (auto simp: Let_def)
    then show ?thesis using token_loop_run [OF True, of "Suc off" "text" False "Some off"] assms True
      unfolding d by simp
  next
    case False
    then have t: "get_char_token_type ?c \<noteq> BASETOKEN_DIGIT" "get_char_token_type ?c \<noteq> BASETOKEN_ALPHA"
      by (simp_all add: is_run_def)
    have "token_loop False text off None BASETOKEN_NONE =
        (if is_newline ?c \<and> is_newline_pair ?c (char_at text (Suc off)) then Suc (Suc off) else Suc off,
         Some off, get_char_token_type ?c)"
      using assms t by (subst token_loop.simps) (simp add: Let_def)
    moreover have "is_newline ?c \<and> is_newline_pair ?c (char_at text (Suc off)) \<longleftrightarrow>
        drop (Suc off) text \<noteq> [] \<and> is_newline_pair ?c (hd (drop (Suc off) text))"
      using hdd z newline_pair_class by metis
    ultimately show ?thesis unfolding d using False by simp
  qed
qed

definition token_at :: "string \<Rightarrow> nat \<Rightarrow> base_token" where
  "token_at text off = \<lparr>bt_text = \<lparr>sr_array = Some off, sr_len = token_len (drop off text)\<rparr>,
     bt_type = get_char_token_type (text ! off)\<rparr>"

lemma getbasetoken_spec:
  "lexer_getbasetoken lx False =
     (if lex_offset lx < length (lex_text lx)
      then (Some (token_at (lex_text lx) (lex_offset lx)),
            lx\<lparr>lex_offset := lex_offset lx + token_len (drop (lex_offset lx) (lex_text lx))\<rparr>)
      else (None, lx))"
proof (cases "lex_offset lx < length (lex_text lx)")
  case True
  then have "1 \<le> token_len (drop (lex_offset lx) (lex_text lx))" using token_len_bounds by simp
  then show ?thesis using True by (simp add: lexer_getbasetoken_def token_loop_start token_at_def)
next
  case False
  then show ?thesis by (subst lexer_getbasetoken_def, subst token_loop.simps) simp
qed

lemma getbasetoken_progress:
  assumes "lexer_getbasetoken lx False = (Some t, lx')"
  shows "lex_text lx' = lex_text lx \<and> lex_offset lx < lex_offset lx' \<and> lex_offset lx' \<le> length (lex_text lx) \<and>
    t = token_at (lex_text lx) (lex_offset lx) \<and> lex_offset lx < length (lex_text lx)"
  using assms token_len_bounds [of "drop (lex_offset lx) (lex_text lx)"]
  by (auto simp: getbasetoken_spec split: if_splits)

text \<open>All tokens of the rest of a text.\<close>

function lex_all :: "lexer \<Rightarrow> base_token list" where
  "lex_all lx = (case lexer_getbasetoken lx False of (None, lx') \<Rightarrow> [] | (Some t, lx') \<Rightarrow> t # lex_all lx')"
  by pat_completeness auto
termination
  by (relation "measure (\<lambda>lx. length (lex_text lx) - lex_offset lx)") (auto dest!: getbasetoken_progress [OF sym])

declare lex_all.simps [simp del]

lemma token_len_take:
  assumes "cs \<noteq> []" "is_run (get_char_token_type (hd cs))"
  shows "list_all (\<lambda>c. get_char_token_type c = get_char_token_type (hd cs)) (take (token_len cs) cs) \<and>
     (token_len cs < length cs \<longrightarrow> get_char_token_type (cs ! token_len cs) \<noteq> get_char_token_type (hd cs))"
proof -
  obtain a as where cs: "cs = a # as" using assms(1) by (cases cs) auto
  let ?P = "\<lambda>x. get_char_token_type x = get_char_token_type a"
  have "length (takeWhile ?P as) < length as \<Longrightarrow> \<not> ?P (as ! length (takeWhile ?P as))"
    by (rule nth_length_takeWhile)
  moreover have "list_all ?P (takeWhile ?P as)" by (auto simp: list_all_iff dest: set_takeWhileD)
  ultimately show ?thesis using assms(2) by (simp add: cs takeWhile_eq_take [symmetric])
qed

text \<open>C39: The lexer loses nothing.  The tokens of a text, put together, are the text; no token is empty; and
a token of letters, or of digits, holds characters of that type only and goes on as far as they do: the text ends
behind it or goes on with a character of another type.\<close>
theorem lex_all_covers:
  "concat (map (\<lambda>t. strref_text text (bt_text t)) (lex_all (lexer_start text))) = text \<and>
   list_all (\<lambda>t. strref_text text (bt_text t) \<noteq> [] \<and>
     (is_run (bt_type t) \<longrightarrow> list_all (\<lambda>c. get_char_token_type c = bt_type t) (strref_text text (bt_text t)) \<and>
       (case sr_array (bt_text t) of None \<Rightarrow> False
        | Some start \<Rightarrow> length text \<le> start + sr_len (bt_text t) \<or>
            get_char_token_type (text ! (start + sr_len (bt_text t))) \<noteq> bt_type t)))
     (lex_all (lexer_start text))"
proof -
  let ?ok = "\<lambda>t. strref_text text (bt_text t) \<noteq> [] \<and>
     (is_run (bt_type t) \<longrightarrow> list_all (\<lambda>c. get_char_token_type c = bt_type t) (strref_text text (bt_text t)) \<and>
       (case sr_array (bt_text t) of None \<Rightarrow> False
        | Some start \<Rightarrow> length text \<le> start + sr_len (bt_text t) \<or>
            get_char_token_type (text ! (start + sr_len (bt_text t))) \<noteq> bt_type t))"
  have "concat (map (\<lambda>t. strref_text text (bt_text t)) (lex_all lx)) = drop (lex_offset lx) text \<and> list_all ?ok (lex_all lx)"
    if "lex_text lx = text" for lx
    using that
  proof (induction lx rule: lex_all.induct)
    case (1 lx)
    let ?o = "lex_offset lx"
    show ?case
    proof (cases "?o < length text")
      case True
      let ?cs = "drop ?o text" and ?lx = "lx\<lparr>lex_offset := ?o + token_len (drop ?o text)\<rparr>"
      have g: "lexer_getbasetoken lx False = (Some (token_at text ?o), ?lx)"
        using True 1(2) by (simp add: getbasetoken_spec)
      have l: "lex_all lx = token_at text ?o # lex_all ?lx" by (subst lex_all.simps) (simp add: g)
      have tx: "strref_text text (bt_text (token_at text ?o)) = take (token_len ?cs) ?cs"
        by (simp add: token_at_def strref_text_def)
      have h: "hd ?cs = text ! ?o" using True by (simp add: hd_drop_conv_nth)
      have ne: "take (token_len ?cs) ?cs \<noteq> []" using token_len_bounds [of ?cs] True by auto
      have tt: "bt_type (token_at text ?o) = get_char_token_type (hd ?cs)" "sr_array (bt_text (token_at text ?o)) = Some ?o"
        "sr_len (bt_text (token_at text ?o)) = token_len ?cs"
        by (simp_all add: token_at_def h)
      have run: "list_all (\<lambda>c. get_char_token_type c = get_char_token_type (hd ?cs)) (take (token_len ?cs) ?cs) \<and>
          (length text \<le> ?o + token_len ?cs \<or> get_char_token_type (text ! (?o + token_len ?cs)) \<noteq> get_char_token_type (hd ?cs))"
        if "is_run (get_char_token_type (hd ?cs))"
      proof (intro conjI)
        have "?cs \<noteq> []" using True by simp
        note r = token_len_take [OF this that]
        then show "list_all (\<lambda>c. get_char_token_type c = get_char_token_type (hd ?cs)) (take (token_len ?cs) ?cs)" by blast
        show "length text \<le> ?o + token_len ?cs \<or>
            get_char_token_type (text ! (?o + token_len ?cs)) \<noteq> get_char_token_type (hd ?cs)"
        proof (cases "length text \<le> ?o + token_len ?cs")
          case False
          then have "token_len ?cs < length ?cs" by simp
          then show ?thesis using r True by simp
        qed simp
      qed
      have "?ok (token_at text ?o)" unfolding tx tt using ne run by simp
      moreover have "take (token_len ?cs) ?cs @ drop (?o + token_len ?cs) text = ?cs"
        by (metis append_take_drop_id add.commute drop_drop)
      ultimately show ?thesis using 1(1) [OF g [symmetric] refl] 1(2) unfolding l by (simp add: tx)
    next
      case False
      then show ?thesis using 1(2) by (subst (1 2) lex_all.simps) (simp add: getbasetoken_spec)
    qed
  qed
  from this [of "lexer_start text"] show ?thesis by (simp add: lexer_start_def)
qed

lemma lex_all_covers_witness:
  "concat (map (\<lambda>t. strref_text ''ab1 ='' (bt_text t)) (lex_all (lexer_start ''ab1 =''))) = ''ab1 ='' \<and>
   map (\<lambda>t. strref_text ''ab1 ='' (bt_text t)) (lex_all (lexer_start ''ab1 ='')) = [''ab'', ''1'', '' '', ''='']"
  using lex_all_covers [of "''ab1 =''"] by (intro conjI) (blast, code_simp)

end
