(* ===== verification/Dstr.thy ===== *)
theory Dstr
  imports Lexer
begin

text \<open>
  Dynamic strings, \<^verbatim>\<open>util/dstr.c\<close> and \<^verbatim>\<open>util/dstr.h\<close>.

  A block of characters is the list of its cells, as in the prelude; a cell that was never written
  is \<open>None\<close>, and the empty block is \<^verbatim>\<open>NULL\<close>.  \<open>c_str\<close> reads the C string at the
  start of a block; it is \<open>None\<close> when the block ends, or a cell without a value comes, before the
  terminator.  A \<^verbatim>\<open>const char *\<close> argument is the text without its terminator,
  \<open>None\<close> for \<^verbatim>\<open>NULL\<close>.  The result \<open>None\<close> of an operation is an access outside a
  block.  Arguments that point into the string itself, the wide-character copies of the comparison
  functions, and the operations that convert or format are left out.
\<close>

type_synonym cells = "char option list"

subsection \<open>Memory with C strings\<close>

fun c_str :: "cells \<Rightarrow> string option" where
  "c_str [] = None"
| "c_str (None # b) = None"
| "c_str (Some c # b) = (if c = CHR 0x00 then Some [] else map_option (Cons c) (c_str b))"

definition strlen :: "cells \<Rightarrow> nat \<Rightarrow> nat option" where
  "strlen b i = map_option length (c_str (drop i b))"

definition terminated :: "string \<Rightarrow> cells" where "terminated s = map Some (s @ [CHR 0x00])"

text \<open>The first place, from \<open>i\<close> on, where \<open>pat\<close> stands in \<open>s\<close>.\<close>

function strstr :: "string \<Rightarrow> nat \<Rightarrow> string \<Rightarrow> nat option" where
  "strstr s i pat =
     (if i + length pat > length s then None
      else if take (length pat) (drop i s) = pat then Some i
      else strstr s (i + 1) pat)"
  by pat_completeness auto
termination by (relation "measure (\<lambda>(s, i, pat). Suc (length s) - i)") auto

declare strstr.simps [simp del]

definition mem_strstr :: "cells \<Rightarrow> nat \<Rightarrow> string \<Rightarrow> nat option option" where
  "mem_strstr b i pat = do { s \<leftarrow> c_str (drop i b); Some (map_option ((+) i) (strstr s 0 pat)) }"

subsection \<open>Comparison\<close>

fun cmp_n_loop :: "(char \<Rightarrow> char) \<Rightarrow> string \<Rightarrow> string \<Rightarrow> nat \<Rightarrow> int" where
  "cmp_n_loop up a b n =
     (let ch1 = signed_char (up (char_at a 0)); ch2 = signed_char (up (char_at b 0)) in
      if ch1 < ch2 then -1
      else if ch1 > ch2 then 1
      else case (a, b) of (_ # a', _ # b') \<Rightarrow> if n - 1 \<noteq> 0 then cmp_n_loop up a' b' (n - 1) else 0 | _ \<Rightarrow> 0)"

declare cmp_n_loop.simps [simp del]

definition or_blank :: "string option \<Rightarrow> string" where
  "or_blank s = (case s of None \<Rightarrow> [] | Some s \<Rightarrow> s)"

definition astrcmp_n :: "string option \<Rightarrow> string option \<Rightarrow> nat \<Rightarrow> int" where
  "astrcmp_n str1 str2 n = (if n = 0 then 0 else cmp_n_loop (\<lambda>c. c) (or_blank str1) (or_blank str2) n)"

definition astrcmpi_n :: "string option \<Rightarrow> string option \<Rightarrow> nat \<Rightarrow> int" where
  "astrcmpi_n str1 str2 n = (if n = 0 then 0 else cmp_n_loop toupper (or_blank str1) (or_blank str2) n)"

text \<open>The result is the offset of the place found.\<close>

fun stri_loop :: "string \<Rightarrow> string \<Rightarrow> nat \<Rightarrow> nat option" where
  "stri_loop str pat i =
     (if astrcmpi_n (Some str) (Some pat) (length pat) = 0 then Some i
      else case str of [] \<Rightarrow> None | _ # str' \<Rightarrow> stri_loop str' pat (i + 1))"

declare stri_loop.simps [simp del]

definition astrstri :: "string option \<Rightarrow> string option \<Rightarrow> nat option" where
  "astrstri str pat = (case (str, pat) of (Some s, Some p) \<Rightarrow> stri_loop s p 0 | _ \<Rightarrow> None)"

subsection \<open>Removing white space at both ends\<close>

definition is_padding :: "char \<Rightarrow> bool" where
  "is_padding ch \<longleftrightarrow> ch = CHR '' '' \<or> ch = CHR 0x09 \<or> ch = CHR 0x0A \<or> ch = CHR 0x0D"

fun skip_padding :: "cells \<Rightarrow> nat option" where
  "skip_padding (Some c # b) = (if is_padding c then map_option Suc (skip_padding b) else Some 0)"
| "skip_padding _ = None"

text \<open>\<open>temp\<close> counts the cells up to and with the one the pointer stands on.\<close>

fun trim_loop :: "cells \<Rightarrow> nat \<Rightarrow> cells option" where
  "trim_loop b 0 = None"
| "trim_loop b (Suc temp) =
     (case b ! temp of
        Some c \<Rightarrow> if is_padding c then trim_loop (b[temp := Some (CHR 0x00)]) temp else Some b
      | None \<Rightarrow> None)"

definition strdepad :: "cells \<Rightarrow> cells option" where
  "strdepad str =
     (if str = [] then Some str
      else do {
        c \<leftarrow> mem_read str 0 1;
        if c = [Some (CHR 0x00)] then Some str
        else do {
          temp \<leftarrow> skip_padding str;
          len \<leftarrow> strlen str temp;
          str \<leftarrow> (if temp \<noteq> 0 then mem_move str 0 temp (len + 1) else Some str);
          if len \<noteq> 0 then trim_loop str len else Some str } })"

subsection \<open>Splitting a list\<close>

text \<open>\<^verbatim>\<open>strchr\<close>: how far it is to the next separator.\<close>

definition strchr :: "string \<Rightarrow> char \<Rightarrow> nat option" where
  "strchr s ch = (if ch \<in> set s then Some (length (takeWhile (\<lambda>c. c \<noteq> ch) s)) else None)"

lemma strchr_nonempty: "strchr s ch = Some n \<Longrightarrow> s \<noteq> []"
  by (auto simp: strchr_def split: if_splits)

function split_count :: "char \<Rightarrow> bool \<Rightarrow> string \<Rightarrow> nat \<Rightarrow> nat \<Rightarrow> nat \<times> nat" where
  "split_count split_ch include_empty cur_str count total_size =
     (case strchr cur_str split_ch of
        Some len \<Rightarrow>
          if len \<noteq> 0 \<or> include_empty
          then split_count split_ch include_empty (drop (len + 1) cur_str) (count + 1) (total_size + len + 1)
          else split_count split_ch include_empty (drop (len + 1) cur_str) count total_size
      | None \<Rightarrow>
          if cur_str \<noteq> [] \<or> include_empty then (count + 1, total_size + length cur_str + 1)
          else (count, total_size))"
  by pat_completeness auto
termination
  by (relation "measure (\<lambda>(_, _, s, _, _). length s)") (auto dest!: strchr_nonempty)

function split_fill :: "char \<Rightarrow> bool \<Rightarrow> string \<Rightarrow> cells \<Rightarrow> nat \<Rightarrow> nat list \<Rightarrow> (nat list \<times> cells) option" where
  "split_fill split_ch include_empty cur_str out offset table =
     (case strchr cur_str split_ch of
        Some len \<Rightarrow>
          if len \<noteq> 0 \<or> include_empty then
            (case mem_write out offset (terminated (take len cur_str)) of
               None \<Rightarrow> None
             | Some out \<Rightarrow>
                 split_fill split_ch include_empty (drop (len + 1) cur_str) out (offset + len + 1) (table @ [offset]))
          else split_fill split_ch include_empty (drop (len + 1) cur_str) out offset table
      | None \<Rightarrow>
          if cur_str \<noteq> [] \<or> include_empty
          then do { out \<leftarrow> mem_write out offset (terminated cur_str); Some (table @ [offset], out) }
          else Some (table, out))"
  by pat_completeness auto
termination
  by (relation "measure (\<lambda>(_, _, s, _, _, _). length s)") (auto dest!: strchr_nonempty)

declare split_count.simps [simp del] split_fill.simps [simp del]

text \<open>The table of pointers is the list of the offsets in the block of characters behind it; the
number of its entries is the one that was counted.\<close>

definition strlist_split :: "string option \<Rightarrow> char \<Rightarrow> bool \<Rightarrow> (nat list \<times> cells) option option" where
  "strlist_split str split_ch include_empty =
     (case str of
        None \<Rightarrow> Some None
      | Some str \<Rightarrow>
          (let (count, total_size) = split_count split_ch include_empty str 0 0 in
           case split_fill split_ch include_empty str (replicate total_size None) 0 [] of
             None \<Rightarrow> None
           | Some (table, out) \<Rightarrow> if length table \<le> count then Some (Some (table, out)) else None))"

subsection \<open>The structure and its operations\<close>

record dstr =
  ds_array :: cells
  ds_len :: nat
  ds_capacity :: nat

definition dstr_init :: dstr where "dstr_init = \<lparr>ds_array = [], ds_len = 0, ds_capacity = 0\<rparr>"

definition dstr_free :: "dstr \<Rightarrow> dstr" where
  "dstr_free dst = \<lparr>ds_array = [], ds_len = 0, ds_capacity = 0\<rparr>"

definition dstr_init_move_array :: "string option \<Rightarrow> dstr" where
  "dstr_init_move_array str =
     (case str of
        None \<Rightarrow> \<lparr>ds_array = [], ds_len = 0, ds_capacity = 1\<rparr>
      | Some s \<Rightarrow> \<lparr>ds_array = terminated s, ds_len = length s, ds_capacity = length s + 1\<rparr>)"

text \<open>Moving returns the new structure and the emptied source.\<close>

definition dstr_init_move :: "dstr \<Rightarrow> dstr \<times> dstr" where "dstr_init_move src = (src, dstr_init)"

definition dstr_move_array :: "dstr \<Rightarrow> string option \<Rightarrow> dstr" where
  "dstr_move_array dst str = dstr_init_move_array str"

definition dstr_move :: "dstr \<Rightarrow> dstr \<Rightarrow> dstr \<times> dstr" where "dstr_move dst src = dstr_init_move src"

definition dstr_ensure_capacity :: "dstr \<Rightarrow> nat \<Rightarrow> dstr" where
  "dstr_ensure_capacity dst new_size =
     (if new_size \<le> ds_capacity dst then dst
      else let new_cap = (if ds_capacity dst = 0 then new_size else ds_capacity dst * 2);
               new_cap = (if new_size > new_cap then new_size else new_cap) in
        dst\<lparr>ds_array := mem_realloc (ds_array dst) new_cap, ds_capacity := new_cap\<rparr>)"

definition dstr_reserve :: "dstr \<Rightarrow> nat \<Rightarrow> dstr" where
  "dstr_reserve dst capacity =
     (if capacity = 0 \<or> capacity \<le> ds_len dst then dst
      else dst\<lparr>ds_array := mem_realloc (ds_array dst) capacity, ds_capacity := capacity\<rparr>)"

definition dstr_resize :: "dstr \<Rightarrow> nat \<Rightarrow> dstr option" where
  "dstr_resize dst num =
     (if num = 0 then Some (dstr_free dst)
      else do {
        let dst = dstr_ensure_capacity dst (num + 1);
        b \<leftarrow> mem_write (ds_array dst) num [Some (CHR 0x00)];
        Some (dst\<lparr>ds_array := b, ds_len := num\<rparr>) })"

definition dstr_is_empty :: "dstr \<Rightarrow> bool option" where
  "dstr_is_empty str =
     (if ds_array str = [] \<or> ds_len str = 0 then Some True
      else do { c \<leftarrow> mem_read (ds_array str) 0 1; Some (c = [Some (CHR 0x00)]) })"

definition blank :: "string option \<Rightarrow> bool" where "blank s \<longleftrightarrow> s = None \<or> s = Some []"

definition dstr_copy :: "dstr \<Rightarrow> string option \<Rightarrow> dstr option" where
  "dstr_copy dst array =
     (if blank array then Some (dstr_free dst)
      else do {
        let len = length (the array);
        let dst = dstr_ensure_capacity dst (len + 1);
        b \<leftarrow> mem_write (ds_array dst) 0 (terminated (the array));
        Some (dst\<lparr>ds_array := b, ds_len := len\<rparr>) })"

definition dstr_init_copy :: "string option \<Rightarrow> dstr option" where
  "dstr_init_copy str = dstr_copy dstr_init str"

definition dstr_copy_dstr :: "dstr \<Rightarrow> dstr \<Rightarrow> dstr option" where
  "dstr_copy_dstr dst src =
     (let dst = dstr_free dst in
      if ds_len src \<noteq> 0 then do {
        let dst = dstr_ensure_capacity dst (ds_len src + 1);
        xs \<leftarrow> mem_read (ds_array src) 0 (ds_len src + 1);
        b \<leftarrow> mem_write (ds_array dst) 0 xs;
        Some (dst\<lparr>ds_array := b, ds_len := ds_len src\<rparr>) }
      else Some dst)"

definition dstr_init_copy_dstr :: "dstr \<Rightarrow> dstr option" where
  "dstr_init_copy_dstr src = dstr_copy_dstr dstr_init src"

text \<open>\<open>array\<close> is the memory the pointer points into, from there on.\<close>

definition dstr_ncopy :: "dstr \<Rightarrow> cells \<Rightarrow> nat \<Rightarrow> dstr option" where
  "dstr_ncopy dst array len =
     (let dst = (if ds_array dst \<noteq> [] then dstr_free dst else dst) in
      if len = 0 then Some dst
      else do {
        xs \<leftarrow> mem_read array 0 (len + 1);
        b \<leftarrow> mem_write xs len [Some (CHR 0x00)];
        Some \<lparr>ds_array = b, ds_len = len, ds_capacity = len + 1\<rparr> })"

definition dstr_copy_strref :: "dstr \<Rightarrow> cells \<Rightarrow> nat \<Rightarrow> dstr option" where
  "dstr_copy_strref dst array len =
     dstr_ncopy (if ds_array dst \<noteq> [] then dstr_free dst else dst) array len"

definition dstr_init_copy_strref :: "cells \<Rightarrow> nat \<Rightarrow> dstr option" where
  "dstr_init_copy_strref array len = dstr_copy_strref dstr_init array len"

definition dstr_ncopy_dstr :: "dstr \<Rightarrow> dstr \<Rightarrow> nat \<Rightarrow> dstr option" where
  "dstr_ncopy_dstr dst str len =
     (let dst = (if ds_array dst \<noteq> [] then dstr_free dst else dst) in
      if len = 0 then Some dst
      else do {
        let newlen = min len (ds_len str);
        xs \<leftarrow> mem_read (ds_array str) 0 (newlen + 1);
        b \<leftarrow> mem_write xs newlen [Some (CHR 0x00)];
        Some \<lparr>ds_array = b, ds_len = newlen, ds_capacity = newlen + 1\<rparr> })"

definition dstr_cat_dstr :: "dstr \<Rightarrow> dstr \<Rightarrow> dstr option" where
  "dstr_cat_dstr dst str =
     (if ds_len str = 0 then Some dst
      else do {
        let new_len = ds_len dst + ds_len str;
        let dst = dstr_ensure_capacity dst (new_len + 1);
        xs \<leftarrow> mem_read (ds_array str) 0 (ds_len str + 1);
        b \<leftarrow> mem_write (ds_array dst) (ds_len dst) xs;
        Some (dst\<lparr>ds_array := b, ds_len := new_len\<rparr>) })"

definition dstr_ncat :: "dstr \<Rightarrow> cells \<Rightarrow> nat \<Rightarrow> dstr option" where
  "dstr_ncat dst array len =
     (if array = [] then Some dst
      else do {
        c \<leftarrow> mem_read array 0 1;
        if c = [Some (CHR 0x00)] \<or> len = 0 then Some dst
        else do {
          let new_len = ds_len dst + len;
          let dst = dstr_ensure_capacity dst (new_len + 1);
          xs \<leftarrow> mem_read array 0 len;
          b \<leftarrow> mem_write (ds_array dst) (ds_len dst) xs;
          b \<leftarrow> mem_write b new_len [Some (CHR 0x00)];
          Some (dst\<lparr>ds_array := b, ds_len := new_len\<rparr>) } })"

definition dstr_ncat_dstr :: "dstr \<Rightarrow> dstr \<Rightarrow> nat \<Rightarrow> dstr option" where
  "dstr_ncat_dstr dst str len =
     (if ds_array str = [] then Some dst
      else do {
        c \<leftarrow> mem_read (ds_array str) 0 1;
        if c = [Some (CHR 0x00)] \<or> len = 0 then Some dst
        else do {
          let in_len = min len (ds_len str);
          let new_len = ds_len dst + in_len;
          let dst = dstr_ensure_capacity dst (new_len + 1);
          xs \<leftarrow> mem_read (ds_array str) 0 in_len;
          b \<leftarrow> mem_write (ds_array dst) (ds_len dst) xs;
          b \<leftarrow> mem_write b new_len [Some (CHR 0x00)];
          Some (dst\<lparr>ds_array := b, ds_len := new_len\<rparr>) } })"

definition dstr_cat_strref :: "dstr \<Rightarrow> cells \<Rightarrow> nat \<Rightarrow> dstr option" where
  "dstr_cat_strref dst array len = dstr_ncat dst array len"

definition dstr_cat :: "dstr \<Rightarrow> string option \<Rightarrow> dstr option" where
  "dstr_cat dst array =
     (if blank array then Some dst
      else dstr_ncat dst (terminated (the array)) (length (the array)))"

definition dstr_cat_ch :: "dstr \<Rightarrow> char \<Rightarrow> dstr option" where
  "dstr_cat_ch dst ch = do {
     let dst = dst\<lparr>ds_len := ds_len dst + 1\<rparr>;
     let dst = dstr_ensure_capacity dst (ds_len dst + 1);
     b \<leftarrow> mem_write (ds_array dst) (ds_len dst - 1) [Some ch];
     b \<leftarrow> mem_write b (ds_len dst) [Some (CHR 0x00)];
     Some (dst\<lparr>ds_array := b\<rparr>) }"

definition dstr_insert :: "dstr \<Rightarrow> nat \<Rightarrow> string option \<Rightarrow> dstr option" where
  "dstr_insert dst idx array =
     (if blank array then Some dst
      else if idx = ds_len dst then dstr_cat dst array
      else if idx > ds_len dst + 1 then None
      else do {
        let len = length (the array);
        let new_len = ds_len dst + len;
        let dst = dstr_ensure_capacity dst (new_len + 1);
        b \<leftarrow> mem_move (ds_array dst) (idx + len) idx (ds_len dst - idx + 1);
        b \<leftarrow> mem_write b idx (map Some (the array));
        Some (dst\<lparr>ds_array := b, ds_len := new_len\<rparr>) })"

definition dstr_insert_dstr :: "dstr \<Rightarrow> nat \<Rightarrow> dstr \<Rightarrow> dstr option" where
  "dstr_insert_dstr dst idx str =
     (if ds_len str = 0 then Some dst
      else if idx = ds_len dst then dstr_cat_dstr dst str
      else if idx > ds_len dst + 1 then None
      else do {
        let new_len = ds_len dst + ds_len str;
        let dst = dstr_ensure_capacity dst (new_len + 1);
        b \<leftarrow> mem_move (ds_array dst) (idx + ds_len str) idx (ds_len dst - idx + 1);
        xs \<leftarrow> mem_read (ds_array str) 0 (ds_len str);
        b \<leftarrow> mem_write b idx xs;
        Some (dst\<lparr>ds_array := b, ds_len := new_len\<rparr>) })"

definition dstr_insert_ch :: "dstr \<Rightarrow> nat \<Rightarrow> char \<Rightarrow> dstr option" where
  "dstr_insert_ch dst idx ch =
     (if idx = ds_len dst then dstr_cat_ch dst ch
      else if idx > ds_len dst + 2 then None
      else do {
        let dst = dst\<lparr>ds_len := ds_len dst + 1\<rparr>;
        let dst = dstr_ensure_capacity dst (ds_len dst + 1);
        b \<leftarrow> mem_move (ds_array dst) (idx + 1) idx (ds_len dst - idx + 1);
        b \<leftarrow> mem_write b idx [Some ch];
        Some (dst\<lparr>ds_array := b\<rparr>) })"

text \<open>\<^verbatim>\<open>dst->len - end + 1\<close> is negative when the end lies more than one character
behind the string; the conversion to \<^verbatim>\<open>size_t\<close> makes it a huge number.\<close>

definition dstr_remove :: "dstr \<Rightarrow> nat \<Rightarrow> nat \<Rightarrow> dstr option" where
  "dstr_remove dst idx count =
     (if count = 0 then Some dst
      else if count = ds_len dst then Some (dstr_free dst)
      else do {
        let fin = idx + count;
        b \<leftarrow> (if fin = ds_len dst then mem_write (ds_array dst) idx [Some (CHR 0x00)]
              else if fin > ds_len dst + 1 then None
              else mem_move (ds_array dst) idx fin (ds_len dst + 1 - fin));
        if count > ds_len dst then None
        else Some (dst\<lparr>ds_array := b, ds_len := ds_len dst - count\<rparr>) })"

subsection \<open>Replacing\<close>

partial_function (option) count_loop :: "cells \<Rightarrow> nat \<Rightarrow> string \<Rightarrow> nat \<Rightarrow> nat option" where
  "count_loop b temp pat n =
     do { r \<leftarrow> mem_strstr b temp pat;
          case r of None \<Rightarrow> Some n | Some t \<Rightarrow> count_loop b (t + length pat) pat (n + 1) }"

text \<open>Moving the end of the string and putting the replacement in, at \<open>t\<close>.\<close>

definition replace_at :: "cells \<Rightarrow> nat \<Rightarrow> nat \<Rightarrow> string \<Rightarrow> cells option" where
  "replace_at b t pat_len rep = do {
     end_len \<leftarrow> strlen b (t + pat_len);
     if end_len \<noteq> 0 then do {
       b \<leftarrow> mem_move b (t + length rep) (t + pat_len) (end_len + 1);
       mem_write b t (map Some rep) }
     else mem_write b t (terminated rep) }"

partial_function (option) replace_loop ::
    "cells \<Rightarrow> nat \<Rightarrow> string \<Rightarrow> string \<Rightarrow> nat \<Rightarrow> (cells \<times> nat) option" where
  "replace_loop b temp pat rep n =
     do { r \<leftarrow> mem_strstr b temp pat;
          case r of
            None \<Rightarrow> Some (b, n)
          | Some t \<Rightarrow>
              do { b \<leftarrow> replace_at b t (length pat) rep;
                   replace_loop b (t + length rep) pat rep (n + 1) } }"

partial_function (option) overwrite_loop :: "cells \<Rightarrow> nat \<Rightarrow> string \<Rightarrow> string \<Rightarrow> cells option" where
  "overwrite_loop b temp pat rep =
     do { r \<leftarrow> mem_strstr b temp pat;
          case r of
            None \<Rightarrow> Some b
          | Some t \<Rightarrow>
              do { b \<leftarrow> mem_write b t (map Some rep);
                   overwrite_loop b (t + length rep) pat rep } }"

definition dstr_replace :: "dstr \<Rightarrow> string \<Rightarrow> string option \<Rightarrow> dstr option" where
  "dstr_replace str pat rep = do {
     is_empty \<leftarrow> dstr_is_empty str;
     if is_empty then Some str
     else do {
       let rep = or_blank rep;
       let find_len = length pat;
       let replace_len = length rep;
       if replace_len < find_len then do {
         (b, n) \<leftarrow> replace_loop (ds_array str) 0 pat rep 0;
         Some (str\<lparr>ds_array := b, ds_len := ds_len str - (find_len - replace_len) * n\<rparr>) }
       else if replace_len > find_len then do {
         n \<leftarrow> count_loop (ds_array str) 0 pat 0;
         if n = 0 then Some str
         else do {
           let str = str\<lparr>ds_len := ds_len str + (replace_len - find_len) * n\<rparr>;
           let str = dstr_ensure_capacity str (ds_len str + 1);
           (b, _) \<leftarrow> replace_loop (ds_array str) 0 pat rep 0;
           Some (str\<lparr>ds_array := b\<rparr>) } }
       else do {
         b \<leftarrow> overwrite_loop (ds_array str) 0 pat rep;
         Some (str\<lparr>ds_array := b\<rparr>) } } }"

definition dstr_safe_printf ::
    "dstr \<Rightarrow> string option \<Rightarrow> string option \<Rightarrow> string option \<Rightarrow> string option \<Rightarrow> string option \<Rightarrow> dstr option" where
  "dstr_safe_printf dst format val1 val2 val3 val4 = do {
     dst \<leftarrow> dstr_copy dst format;
     dst \<leftarrow> (if val1 \<noteq> None then dstr_replace dst ''$1'' val1 else Some dst);
     dst \<leftarrow> (if val2 \<noteq> None then dstr_replace dst ''$2'' val2 else Some dst);
     dst \<leftarrow> (if val3 \<noteq> None then dstr_replace dst ''$3'' val3 else Some dst);
     if val4 \<noteq> None then dstr_replace dst ''$4'' val4 else Some dst }"

definition dstr_depad :: "dstr \<Rightarrow> dstr option" where
  "dstr_depad str =
     (if ds_array str \<noteq> [] then do {
        b \<leftarrow> strdepad (ds_array str);
        c \<leftarrow> mem_read b 0 1;
        if c \<noteq> [Some (CHR 0x00)] then do {
          len \<leftarrow> strlen b 0;
          Some (str\<lparr>ds_array := b, ds_len := len\<rparr>) }
        else Some (dstr_free str) }
      else Some str)"

text \<open>\<open>same\<close> says that source and destination are one string.\<close>

definition dstr_left :: "dstr \<Rightarrow> dstr \<Rightarrow> bool \<Rightarrow> nat \<Rightarrow> dstr option" where
  "dstr_left dst str same pos = do {
     dst \<leftarrow> dstr_resize dst pos;
     if \<not> same then do {
       xs \<leftarrow> mem_read (ds_array str) 0 pos;
       b \<leftarrow> mem_write (ds_array dst) 0 xs;
       Some (dst\<lparr>ds_array := b\<rparr>) }
     else Some dst }"

definition dstr_mid :: "dstr \<Rightarrow> dstr \<Rightarrow> nat \<Rightarrow> nat \<Rightarrow> dstr option" where
  "dstr_mid dst str start count = do {
     temp \<leftarrow> dstr_copy_dstr dstr_init str;
     dstr_ncopy dst (drop start (ds_array temp)) count }"

definition dstr_right :: "dstr \<Rightarrow> dstr \<Rightarrow> nat \<Rightarrow> dstr option" where
  "dstr_right dst str pos =
     (if pos > ds_len str then None
      else do {
        temp \<leftarrow> dstr_ncopy dstr_init (drop pos (ds_array str)) (ds_len str - pos);
        dstr_copy_dstr dst temp })"

definition dstr_end :: "dstr \<Rightarrow> char option" where
  "dstr_end str = do {
     is_empty \<leftarrow> dstr_is_empty str;
     if is_empty then Some (CHR 0x00)
     else do { c \<leftarrow> mem_read (ds_array str) (ds_len str - 1) 1; hd c } }"

subsection \<open>Blocks that hold a string\<close>

definition no_zero :: "string \<Rightarrow> bool" where "no_zero s \<longleftrightarrow> CHR 0x00 \<notin> set s"

lemma no_zero_simps [simp]:
  "no_zero []" "no_zero (c # s) \<longleftrightarrow> c \<noteq> CHR 0x00 \<and> no_zero s" "no_zero (s @ t) \<longleftrightarrow> no_zero s \<and> no_zero t"
  by (auto simp: no_zero_def)

lemma no_zero_take_drop [simp]: "no_zero s \<Longrightarrow> no_zero (take n s)" "no_zero s \<Longrightarrow> no_zero (drop n s)"
  by (auto simp: no_zero_def dest: in_set_takeD in_set_dropD)

lemma terminated_simps [simp]:
  "length (terminated s) = length s + 1" "terminated s \<noteq> []" "terminated [] = [Some (CHR 0x00)]"
  "terminated (c # s) = Some c # terminated s"
  by (simp_all add: terminated_def)

lemma terminated_append: "map Some s @ terminated t = terminated (s @ t)" by (simp add: terminated_def)

lemma drop_terminated: "i \<le> length s \<Longrightarrow> drop i (terminated s) = terminated (drop i s)"
  by (simp add: terminated_def drop_map)

lemma c_str_terminated: "no_zero s \<Longrightarrow> c_str (terminated s @ j) = Some s"
  by (induction s) auto

lemma c_str_drop: "no_zero s \<Longrightarrow> i \<le> length s \<Longrightarrow> c_str (drop i (terminated s @ j)) = Some (drop i s)"
  by (simp add: drop_terminated c_str_terminated)

lemma strlen_terminated: "no_zero s \<Longrightarrow> i \<le> length s \<Longrightarrow> strlen (terminated s @ j) i = Some (length s - i)"
  by (simp add: strlen_def c_str_drop del: drop_append)

lemma strstr_drop: "i \<le> length s \<Longrightarrow> map_option ((+) i) (strstr (drop i s) k pat) = strstr s (i + k) pat"
proof (induction "drop i s" k pat rule: strstr.induct)
  case (1 k pat)
  show ?case
  proof (cases "i + k + length pat > length s \<or> take (length pat) (drop k (drop i s)) = pat")
    case True
    then show ?thesis using 1(2)
      by (subst (1 2) strstr.simps) (auto simp: add.commute add.left_commute)
  next
    case False
    then show ?thesis using 1
      by (subst (1 2) strstr.simps) (auto simp: add.commute add.left_commute)
  qed
qed

lemma mem_strstr_terminated:
  "no_zero s \<Longrightarrow> i \<le> length s \<Longrightarrow> mem_strstr (terminated s @ j) i pat = Some (strstr s i pat)"
  using strstr_drop [of i s 0 pat] by (simp add: mem_strstr_def c_str_drop del: drop_append)

definition ds_rep :: "dstr \<Rightarrow> string \<Rightarrow> bool" where
  "ds_rep d s \<longleftrightarrow> no_zero s \<and> ds_len d = length s \<and> ds_capacity d = length (ds_array d) \<and>
     (ds_array d = [] \<and> s = [] \<or> (\<exists>j. ds_array d = terminated s @ j))"

lemma ds_repI:
  "no_zero s \<Longrightarrow> ds_array d = terminated s @ j \<Longrightarrow> ds_len d = length s \<Longrightarrow> ds_capacity d = length (ds_array d) \<Longrightarrow>
     ds_rep d s"
  by (auto simp: ds_rep_def)

lemma ds_rep_init: "ds_rep dstr_init []" by (simp add: ds_rep_def dstr_init_def)

lemma ds_rep_free: "ds_rep (dstr_free d) []" by (simp add: ds_rep_def dstr_free_def)

lemma ds_rep_D: "ds_rep d s \<Longrightarrow> no_zero s \<and> ds_len d = length s" by (simp add: ds_rep_def)

lemma ds_rep_nonempty:
  assumes "ds_rep d s" "s \<noteq> []"
  obtains j where "ds_array d = terminated s @ j" "ds_array d \<noteq> []"
  using assms by (auto simp: ds_rep_def)

text \<open>What growing keeps: the characters, and the terminator when there was one.\<close>

lemma ensure_capacity_rep:
  assumes "ds_rep d s"
  obtains b where "dstr_ensure_capacity d n = d\<lparr>ds_array := b, ds_capacity := length b\<rparr>" "n \<le> length b"
    "take (length s) b = map Some s" "length s \<le> length b" "s \<noteq> [] \<Longrightarrow> \<exists>j. b = terminated s @ j"
proof (cases "n \<le> ds_capacity d")
  case True
  show ?thesis
    by (rule that [of "ds_array d"])
      (use assms True in \<open>auto simp: dstr_ensure_capacity_def ds_rep_def terminated_def\<close>)
next
  case False
  let ?c = "max n (if ds_capacity d = 0 then n else ds_capacity d * 2)"
  let ?b = "mem_realloc (ds_array d) ?c"
  have c: "ds_capacity d = length (ds_array d)" "length (ds_array d) \<le> ?c" using assms False by (auto simp: ds_rep_def)
  then have b: "?b = ds_array d @ replicate (?c - length (ds_array d)) None" by (simp add: mem_realloc_def)
  have e: "dstr_ensure_capacity d n = d\<lparr>ds_array := ?b, ds_capacity := length ?b\<rparr>"
    using False by (auto simp: dstr_ensure_capacity_def Let_def max_def)
  show ?thesis
  proof (rule that [OF e])
    show "n \<le> length ?b" by simp
    show "take (length s) ?b = map Some s" "length s \<le> length ?b" "s \<noteq> [] \<Longrightarrow> \<exists>j. ?b = terminated s @ j"
      using assms unfolding b by (auto simp: ds_rep_def terminated_def)
  qed
qed

lemma write_at_end:
  assumes "take (length s) b = map Some s" "length s + length xs \<le> length b"
  shows "mem_write b (length s) xs = Some (map Some s @ xs @ drop (length s + length xs) b)"
  using assms by (simp add: mem_write_def)

lemma copy_rep:
  assumes "ds_rep d s" "no_zero t"
  shows "\<exists>d'. dstr_copy d (Some t) = Some d' \<and> ds_rep d' t"
proof (cases "t = []")
  case True
  then show ?thesis by (simp add: dstr_copy_def blank_def ds_rep_free)
next
  case False
  obtain b where b: "dstr_ensure_capacity d (length t + 1) = d\<lparr>ds_array := b, ds_capacity := length b\<rparr>"
      "length t + 1 \<le> length b"
    using ensure_capacity_rep [OF assms(1)] by metis
  then show ?thesis using False assms(2)
    by (auto simp: dstr_copy_def blank_def Let_def mem_write_def intro!: ds_repI)
qed

lemma ncat_rep:
  assumes "ds_rep d s" "no_zero t" "n \<le> length t"
  shows "\<exists>d'. dstr_ncat d (terminated t @ j) n = Some d' \<and> ds_rep d' (s @ take n t)"
proof (cases "t = [] \<or> n = 0")
  case True
  then show ?thesis using assms(1) by (auto simp: dstr_ncat_def mem_read_def)
next
  case False
  obtain b where b: "dstr_ensure_capacity d (length s + n + 1) = d\<lparr>ds_array := b, ds_capacity := length b\<rparr>"
      "length s + n + 1 \<le> length b" "take (length s) b = map Some s"
    using ensure_capacity_rep [OF assms(1)] by metis
  have t0: "take 1 (terminated t @ j) \<noteq> [Some (CHR 0x00)]" using False assms(2) by (cases t) auto
  have r: "mem_read (terminated t @ j) 0 1 = Some (take 1 (terminated t @ j))"
    "mem_read (terminated t @ j) 0 n = Some (map Some (take n t))"
    using assms(3) by (simp_all add: mem_read_def terminated_def take_map)
  let ?b = "map Some s @ map Some (take n t) @ drop (length s + n) b"
  have w: "mem_write b (length s) (map Some (take n t)) = Some ?b"
    using write_at_end [OF b(3), of "map Some (take n t)"] b(2) assms(3) by simp
  have w2: "mem_write ?b (length s + n) [Some (CHR 0x00)] = Some (terminated (s @ take n t) @ drop (length s + n + 1) b)"
    using b(2) assms(3) by (simp add: mem_write_def terminated_def)
  have "no_zero (s @ take n t)" using assms ds_rep_D by simp
  then show ?thesis
    using False t0 r w w2 b assms ds_rep_D [OF assms(1)]
    by (auto simp: dstr_ncat_def Let_def intro!: ds_repI)
qed

lemma cat_rep:
  assumes "ds_rep d s" "no_zero t"
  shows "\<exists>d'. dstr_cat d (Some t) = Some d' \<and> ds_rep d' (s @ t)"
proof (cases "t = []")
  case True
  then show ?thesis using assms(1) by (simp add: dstr_cat_def blank_def)
next
  case False
  then show ?thesis using ncat_rep [OF assms, of "length t" "[]"] by (simp add: dstr_cat_def blank_def)
qed

lemma read_rep:
  assumes "ds_rep e t" "t \<noteq> []"
  shows "mem_read (ds_array e) 0 (length t + 1) = Some (terminated t)"
    and "n \<le> length t \<Longrightarrow> mem_read (ds_array e) 0 n = Some (map Some (take n t))"
proof -
  obtain j where j: "ds_array e = terminated t @ j" using ds_rep_nonempty [OF assms] by metis
  show "mem_read (ds_array e) 0 (length t + 1) = Some (terminated t)" using j by (simp add: mem_read_def)
  show "mem_read (ds_array e) 0 n = Some (map Some (take n t))" if "n \<le> length t"
    using j that by (simp add: mem_read_def terminated_def take_map)
qed

lemma cat_dstr_rep:
  assumes "ds_rep d s" "ds_rep e t"
  shows "\<exists>d'. dstr_cat_dstr d e = Some d' \<and> ds_rep d' (s @ t)"
proof (cases "t = []")
  case True
  then show ?thesis using assms by (simp add: dstr_cat_dstr_def ds_rep_D)
next
  case False
  obtain b where b: "dstr_ensure_capacity d (length s + length t + 1) = d\<lparr>ds_array := b, ds_capacity := length b\<rparr>"
      "length s + length t + 1 \<le> length b" "take (length s) b = map Some s"
    using ensure_capacity_rep [OF assms(1)] by metis
  have "mem_write b (length s) (terminated t) = Some (terminated (s @ t) @ drop (length s + length t + 1) b)"
    using write_at_end [OF b(3), of "terminated t"] b(2) terminated_append [of s t] by simp
  then show ?thesis
    using False b(1,2) read_rep(1) [OF assms(2) False] ds_rep_D [OF assms(1)] ds_rep_D [OF assms(2)]
    by (auto simp: dstr_cat_dstr_def Let_def intro!: ds_repI)
qed

lemma ncat_dstr_rep:
  assumes "ds_rep d s" "ds_rep e t"
  shows "\<exists>d'. dstr_ncat_dstr d e n = Some d' \<and> ds_rep d' (s @ take n t)"
proof (cases "ds_array e = []")
  case True
  then show ?thesis using assms by (auto simp: dstr_ncat_dstr_def ds_rep_def)
next
  case False
  then obtain j where j: "ds_array e = terminated t @ j" using assms(2) by (auto simp: ds_rep_def)
  have "dstr_ncat_dstr d e n = dstr_ncat d (terminated t @ j) (if n = 0 then 0 else min n (length t))"
    using j ds_rep_D [OF assms(2)]
    by (cases t; cases n) (simp_all add: dstr_ncat_dstr_def dstr_ncat_def Let_def mem_read_def)
  moreover have "take (if n = 0 then 0 else min n (length t)) t = take n t" by (simp add: min_def)
  ultimately show ?thesis
    using ncat_rep [OF assms(1), of t "if n = 0 then 0 else min n (length t)" j] ds_rep_D [OF assms(2)] by simp
qed

lemma cat_ch_rep:
  assumes "ds_rep d s" "c \<noteq> CHR 0x00"
  shows "\<exists>d'. dstr_cat_ch d c = Some d' \<and> ds_rep d' (s @ [c])"
proof -
  obtain b where b: "dstr_ensure_capacity d (length s + 2) = d\<lparr>ds_array := b, ds_capacity := length b\<rparr>"
      "length s + 2 \<le> length b" "take (length s) b = map Some s"
    using ensure_capacity_rep [OF assms(1)] by metis
  have e: "dstr_ensure_capacity (d\<lparr>ds_len := ds_len d + 1\<rparr>) (length s + 2) =
      (dstr_ensure_capacity d (length s + 2))\<lparr>ds_len := ds_len d + 1\<rparr>"
    by (simp add: dstr_ensure_capacity_def Let_def)
  let ?b = "map Some s @ [Some c] @ drop (length s + 1) b"
  have w: "mem_write b (length s) [Some c] = Some ?b" using write_at_end [OF b(3), of "[Some c]"] b(2) by simp
  have w2: "mem_write ?b (length s + 1) [Some (CHR 0x00)] = Some (terminated (s @ [c]) @ drop (length s + 2) b)"
    using b(2) by (simp add: mem_write_def terminated_def)
  show ?thesis
    using assms ds_rep_D [OF assms(1)] e b w w2
    by (auto simp: dstr_cat_ch_def Let_def intro!: ds_repI)
qed

lemma copy_dstr_rep:
  assumes "ds_rep e t"
  shows "\<exists>d'. dstr_copy_dstr d e = Some d' \<and> ds_rep d' t"
proof (cases "t = []")
  case True
  then show ?thesis using assms ds_rep_free [of d] by (simp add: dstr_copy_dstr_def ds_rep_D)
next
  case False
  obtain b where b: "dstr_ensure_capacity (dstr_free d) (length t + 1) =
      (dstr_free d)\<lparr>ds_array := b, ds_capacity := length b\<rparr>" "length t + 1 \<le> length b"
    using ensure_capacity_rep [OF ds_rep_free] by metis
  then show ?thesis
    using False read_rep(1) [OF assms False] ds_rep_D [OF assms]
    by (auto simp: dstr_copy_dstr_def Let_def mem_write_def intro!: ds_repI)
qed

lemma ncopy_rep:
  assumes "ds_rep d s" "no_zero t" "n \<le> length t"
  shows "\<exists>d'. dstr_ncopy d (terminated t @ j) n = Some d' \<and> ds_rep d' (take n t)"
proof (cases "n = 0")
  case True
  then show ?thesis using assms(1) ds_rep_free [of d] by (auto simp: dstr_ncopy_def ds_rep_def)
next
  case False
  let ?x = "take (n + 1) (terminated t)"
  have r: "mem_read (terminated t @ j) 0 (n + 1) = Some ?x" using assms(3) by (simp add: mem_read_def)
  have "take n ?x = map Some (take n t)" using assms(3) by (simp add: terminated_def take_map)
  then have w: "mem_write ?x n [Some (CHR 0x00)] = Some (terminated (take n t))"
    using assms(3) by (simp add: mem_write_def terminated_def)
  show ?thesis
    using False r w assms by (auto simp: dstr_ncopy_def Let_def intro!: ds_repI)
qed

lemma ncopy_dstr_rep:
  assumes "ds_rep d s" "ds_rep e t" "t \<noteq> []"
  shows "\<exists>d'. dstr_ncopy_dstr d e n = Some d' \<and> ds_rep d' (take n t)"
proof -
  obtain j where j: "ds_array e = terminated t @ j" using ds_rep_nonempty [OF assms(2,3)] by metis
  have "min n (length t) = 0 \<longleftrightarrow> n = 0" using assms(3) by (cases n; cases t) simp_all
  then have "dstr_ncopy_dstr d e n = dstr_ncopy d (terminated t @ j) (min n (length t))"
    using j ds_rep_D [OF assms(2)] by (simp add: dstr_ncopy_dstr_def dstr_ncopy_def Let_def)
  moreover have "take (min n (length t)) t = take n t" by (simp add: min_def)
  ultimately show ?thesis using ncopy_rep [OF assms(1), of t "min n (length t)" j] ds_rep_D [OF assms(2)] by simp
qed

text \<open>The end of the string from \<open>u\<close> on is moved behind a text that is put in at \<open>t\<close>.\<close>

lemma move_write:
  assumes "no_zero s" "t \<le> u" "u \<le> length s" "b = terminated s @ j"
    and "t + length xs + (length s - u) + 1 \<le> length b"
  shows "\<exists>b' j'. mem_move b (t + length xs) u (length s - u + 1) = Some b' \<and>
    mem_write b' t (map Some xs) = Some (terminated (take t s @ xs @ drop u s) @ j') \<and>
    length (terminated (take t s @ xs @ drop u s) @ j') = length b"
proof -
  let ?k = "t + length xs + (length s - u) + 1"
  let ?e = "terminated (drop u s)"
  have r: "take (length s - u + 1) (drop u b) = ?e"
    using assms(3) by (simp add: assms(4) drop_terminated)
  have m: "mem_move b (t + length xs) u (length s - u + 1) = Some (take (t + length xs) b @ ?e @ drop ?k b)"
    using assms(2,3,4,5) r by (simp add: mem_move_Some add.commute add.left_commute)
  have "take t (take (t + length xs) b) = map Some (take t s)"
    using assms(2,3) by (simp add: assms(4) terminated_def take_map min_def)
  then have "mem_write (take (t + length xs) b @ ?e @ drop ?k b) t (map Some xs) =
      Some ((map Some (take t s) @ map Some xs @ ?e) @ drop ?k b)"
    using assms(2,3,5) by (simp add: mem_write_def)
  also have "map Some (take t s) @ map Some xs @ ?e = terminated (take t s @ xs @ drop u s)"
    by (simp add: terminated_def)
  finally have w: "mem_write (take (t + length xs) b @ ?e @ drop ?k b) t (map Some xs) =
      Some (terminated (take t s @ xs @ drop u s) @ drop ?k b)" .
  show ?thesis by (rule exI, rule exI, rule conjI, rule m, rule conjI, rule w) (use assms(2,3,5) in simp)
qed

lemma insert_rep:
  assumes "ds_rep d s" "no_zero t" "idx \<le> length s"
  shows "\<exists>d'. dstr_insert d idx (Some t) = Some d' \<and> ds_rep d' (take idx s @ t @ drop idx s)"
proof (cases "t = [] \<or> idx = length s")
  case True
  then show ?thesis using assms cat_rep [OF assms(1,2)] ds_rep_D [OF assms(1)]
    by (auto simp: dstr_insert_def blank_def)
next
  case False
  then have s: "s \<noteq> []" using assms(3) by auto
  obtain b j where b: "dstr_ensure_capacity d (length s + length t + 1) = d\<lparr>ds_array := b, ds_capacity := length b\<rparr>"
      "length s + length t + 1 \<le> length b" "b = terminated s @ j"
    using ensure_capacity_rep [OF assms(1)] s by metis
  obtain b' j' where m: "mem_move b (idx + length t) idx (length s - idx + 1) = Some b'"
      "mem_write b' idx (map Some t) = Some (terminated (take idx s @ t @ drop idx s) @ j')"
      "length (terminated (take idx s @ t @ drop idx s) @ j') = length b"
    using move_write [OF _ order.refl assms(3) b(3), of t] b(2) assms(3) ds_rep_D [OF assms(1)] by auto
  have z: "no_zero (take idx s @ t @ drop idx s)" using assms ds_rep_D by simp
  show ?thesis
    using False b(1) m z assms(3) ds_rep_D [OF assms(1)]
    by (auto simp: dstr_insert_def blank_def Let_def intro!: ds_repI)
qed

lemma insert_dstr_rep:
  assumes "ds_rep d s" "ds_rep e t" "idx \<le> length s"
  shows "\<exists>d'. dstr_insert_dstr d idx e = Some d' \<and> ds_rep d' (take idx s @ t @ drop idx s)"
proof (cases "t = [] \<or> idx = length s")
  case True
  then show ?thesis using assms cat_dstr_rep [OF assms(1,2)] ds_rep_D [OF assms(1)] ds_rep_D [OF assms(2)]
    by (auto simp: dstr_insert_dstr_def)
next
  case False
  then have s: "s \<noteq> []" using assms(3) by auto
  obtain b j where b: "dstr_ensure_capacity d (length s + length t + 1) = d\<lparr>ds_array := b, ds_capacity := length b\<rparr>"
      "length s + length t + 1 \<le> length b" "b = terminated s @ j"
    using ensure_capacity_rep [OF assms(1)] s by metis
  obtain b' j' where m: "mem_move b (idx + length t) idx (length s - idx + 1) = Some b'"
      "mem_write b' idx (map Some t) = Some (terminated (take idx s @ t @ drop idx s) @ j')"
      "length (terminated (take idx s @ t @ drop idx s) @ j') = length b"
    using move_write [OF _ order.refl assms(3) b(3), of t] b(2) assms(3) ds_rep_D [OF assms(1)] by auto
  have z: "no_zero (take idx s @ t @ drop idx s)" using ds_rep_D [OF assms(1)] ds_rep_D [OF assms(2)] by simp
  have r: "mem_read (ds_array e) 0 (length t) = Some (map Some t)"
    using read_rep(2) [OF assms(2), of "length t"] False by simp
  show ?thesis
    using False b(1) m z r assms(3) ds_rep_D [OF assms(1)] ds_rep_D [OF assms(2)]
    by (auto simp: dstr_insert_dstr_def Let_def intro!: ds_repI)
qed

text \<open>\<^verbatim>\<open>dstr_insert_ch\<close> counts the new character before it moves the end of the string: it
moves one cell too many, behind the block when the string fills it.\<close>

lemma insert_ch_overflow: "dstr_insert_ch \<lparr>ds_array = terminated ''ac'', ds_len = 2, ds_capacity = 3\<rparr> 1 (CHR ''b'') =
    Some \<lparr>ds_array = terminated ''abc'' @ [None, None], ds_len = 3, ds_capacity = 6\<rparr>"
  "dstr_insert_ch \<lparr>ds_array = terminated ''ac'' @ [None], ds_len = 2, ds_capacity = 4\<rparr> 1 (CHR ''b'') = None"
  by code_simp+

lemma remove_rep:
  assumes "ds_rep d s" "idx + n \<le> length s"
  shows "\<exists>d'. dstr_remove d idx n = Some d' \<and> ds_rep d' (take idx s @ drop (idx + n) s)"
proof (cases "n = 0 \<or> n = length s")
  case True
  then show ?thesis using assms ds_rep_free [of d] ds_rep_D [OF assms(1)] by (auto simp: dstr_remove_def)
next
  case False
  then have "s \<noteq> []" using assms(2) by auto
  then obtain j where j: "ds_array d = terminated s @ j" using ds_rep_nonempty [OF assms(1)] by metis
  let ?s = "take idx s @ drop (idx + n) s"
  have t: "take idx (terminated s @ j) = map Some (take idx s)" using assms(2) by (simp add: terminated_def take_map)
  have z: "no_zero ?s" "length ?s = length s - n" using assms ds_rep_D by auto
  have c: "ds_capacity d = length (terminated s @ j)" using assms(1) j by (simp add: ds_rep_def)
  show ?thesis
  proof (cases "idx + n = length s")
    case True
    have "mem_write (terminated s @ j) idx [Some (CHR 0x00)] = Some (terminated ?s @ drop (idx + 1) (terminated s @ j))"
      using t True by (simp add: mem_write_def terminated_def)
    then show ?thesis using False True j c z assms(2) ds_rep_D [OF assms(1)]
      by (auto simp: dstr_remove_def Let_def intro!: ds_repI)
  next
    case lt: False
    let ?m = "length s + 1 - (idx + n)"
    have "take ?m (drop (idx + n) (terminated s @ j)) = terminated (drop (idx + n) s)"
      using assms(2) by (simp add: drop_terminated)
    then have "mem_move (terminated s @ j) idx (idx + n) ?m = Some (terminated ?s @ drop (idx + ?m) (terminated s @ j))"
      using t assms(2) by (simp add: mem_move_Some terminated_append [symmetric])
    then show ?thesis using False lt j c z assms(2) ds_rep_D [OF assms(1)]
      by (auto simp: dstr_remove_def Let_def intro!: ds_repI)
  qed
qed

subsection \<open>Replacing replaces every occurrence\<close>

function replace_all :: "string \<Rightarrow> string \<Rightarrow> string \<Rightarrow> string" where
  "replace_all pat rep s =
     (if pat = [] \<or> length pat > length s then s
      else if take (length pat) s = pat then rep @ replace_all pat rep (drop (length pat) s)
      else hd s # replace_all pat rep (tl s))"
  by pat_completeness auto
termination by (relation "measure (\<lambda>(_, _, s). length s)") (auto simp: neq_Nil_conv)

function count_all :: "string \<Rightarrow> string \<Rightarrow> nat" where
  "count_all pat s =
     (if pat = [] \<or> length pat > length s then 0
      else if take (length pat) s = pat then 1 + count_all pat (drop (length pat) s)
      else count_all pat (tl s))"
  by pat_completeness auto
termination by (relation "measure (\<lambda>(_, s). length s)") (auto simp: neq_Nil_conv)

declare replace_all.simps [simp del] count_all.simps [simp del]

lemma replace_stop:
  "pat = [] \<or> length s < length pat \<Longrightarrow> replace_all pat rep s = s \<and> count_all pat s = 0"
  by (auto simp: replace_all.simps [of pat] count_all.simps [of pat])

lemma replace_hit:
  "pat \<noteq> [] \<Longrightarrow> length pat \<le> length s \<Longrightarrow> take (length pat) s = pat \<Longrightarrow>
     replace_all pat rep s = rep @ replace_all pat rep (drop (length pat) s) \<and>
     count_all pat s = 1 + count_all pat (drop (length pat) s)"
  by (simp add: replace_all.simps [of pat rep s] count_all.simps [of pat s])

lemma replace_miss:
  "pat \<noteq> [] \<Longrightarrow> length pat \<le> length s \<Longrightarrow> take (length pat) s \<noteq> pat \<Longrightarrow>
     replace_all pat rep s = hd s # replace_all pat rep (tl s) \<and> count_all pat s = count_all pat (tl s)"
  by (simp add: replace_all.simps [of pat rep s] count_all.simps [of pat s])

lemma strstr_None:
  "strstr s i pat = None \<Longrightarrow> replace_all pat rep (drop i s) = drop i s \<and> count_all pat (drop i s) = 0"
proof (induction s i pat rule: strstr.induct)
  case (1 s i pat)
  show ?case
  proof (cases "i + length pat > length s")
    case True
    then show ?thesis by (intro replace_stop) (cases pat, auto)
  next
    case False
    then have n: "take (length pat) (drop i s) \<noteq> pat" "strstr s (i + 1) pat = None"
      using 1(2) by (auto simp: strstr.simps [of s i] split: if_splits)
    then have i: "i < length s" using False by (cases pat) auto
    then have d: "drop i s = s ! i # drop (Suc i) s" by (simp add: Cons_nth_drop_Suc)
    have "tl (drop i s) = drop (i + 1) s" "hd (drop i s) = s ! i" using d by simp_all
    then show ?thesis
      using 1(1) False n replace_miss [of pat "drop i s" rep] replace_stop [of pat "drop i s" rep] d
      by (cases "pat = []") auto
  qed
qed

lemma strstr_Some:
  "strstr s i pat = Some t \<Longrightarrow> pat \<noteq> [] \<Longrightarrow>
     i \<le> t \<and> t + length pat \<le> length s \<and>
     replace_all pat rep (drop i s) =
       take (t - i) (drop i s) @ rep @ replace_all pat rep (drop (t + length pat) s) \<and>
     count_all pat (drop i s) = 1 + count_all pat (drop (t + length pat) s)"
proof (induction s i pat rule: strstr.induct)
  case (1 s i pat)
  have b: "i + length pat \<le> length s" using 1(2) by (auto simp: strstr.simps [of s i] split: if_splits)
  show ?case
  proof (cases "take (length pat) (drop i s) = pat")
    case True
    then have "t = i" using 1(2) b by (simp add: strstr.simps [of s i])
    then show ?thesis using True b 1(3) replace_hit [of pat "drop i s" rep] by (simp add: add.commute)
  next
    case False
    have i: "i < length s" using b 1(3) by (cases pat) auto
    then have d: "drop i s = s ! i # drop (Suc i) s" by (simp add: Cons_nth_drop_Suc)
    have IH: "i + 1 \<le> t \<and> t + length pat \<le> length s \<and>
       replace_all pat rep (drop (i + 1) s) =
         take (t - (i + 1)) (drop (i + 1) s) @ rep @ replace_all pat rep (drop (t + length pat) s) \<and>
       count_all pat (drop (i + 1) s) = 1 + count_all pat (drop (t + length pat) s)"
      using 1(1) 1(2,3) b False by (simp add: strstr.simps [of s i])
    have "take (t - i) (drop i s) = s ! i # take (t - (i + 1)) (drop (i + 1) s)"
      using IH unfolding d by (cases "t - i") (auto simp: Suc_diff_Suc [symmetric])
    moreover have "tl (drop i s) = drop (i + 1) s" "hd (drop i s) = s ! i" using d by simp_all
    moreover have "length pat \<le> length s - i" using b by arith
    ultimately show ?thesis using IH False 1(3) replace_miss [of pat "drop i s" rep] by simp
  qed
qed

lemma length_replace_all:
  "length (replace_all pat rep s) + count_all pat s * length pat = length s + count_all pat s * length rep"
proof (induction pat rep s rule: replace_all.induct)
  case (1 pat rep s)
  show ?case
  proof (cases "pat = [] \<or> length s < length pat")
    case True
    then show ?thesis using replace_stop [of pat s rep] by simp
  next
    case go: False
    then have "s \<noteq> []" by auto
    then show ?thesis
      using 1 go replace_hit [of pat s rep] replace_miss [of pat s rep]
      by (cases "take (length pat) s = pat") (auto simp: algebra_simps neq_Nil_conv)
  qed
qed

lemma replace_none: "count_all pat s = 0 \<Longrightarrow> replace_all pat rep s = s"
proof (induction pat rep s rule: replace_all.induct)
  case (1 pat rep s)
  show ?case
  proof (cases "pat = [] \<or> length s < length pat")
    case True
    then show ?thesis using replace_stop [of pat s rep] by simp
  next
    case go: False
    then have "s \<noteq> []" by auto
    then show ?thesis
      using 1 go replace_hit [of pat s rep] replace_miss [of pat s rep]
      by (cases "take (length pat) s = pat") auto
  qed
qed

lemma replace_at_rep:
  assumes "no_zero s" "t + n \<le> length s" "b = terminated s @ j" "t + length rep + (length s - (t + n)) + 1 \<le> length b"
  shows "\<exists>j'. replace_at b t n rep = Some (terminated (take t s @ rep @ drop (t + n) s) @ j') \<and>
    length (terminated (take t s @ rep @ drop (t + n) s) @ j') = length b"
proof (cases "t + n = length s")
  case False
  have l: "strlen b (t + n) = Some (length s - (t + n))" using assms by (simp add: strlen_terminated)
  obtain b' j' where "mem_move b (t + length rep) (t + n) (length s - (t + n) + 1) = Some b'"
      "mem_write b' t (map Some rep) = Some (terminated (take t s @ rep @ drop (t + n) s) @ j')"
      "length (terminated (take t s @ rep @ drop (t + n) s) @ j') = length b"
    using move_write [OF assms(1) _ assms(2,3), of t rep] assms(4) by auto
  then show ?thesis using False l assms(2) by (auto simp: replace_at_def)
next
  case True
  have l: "strlen b (t + n) = Some 0" using assms True by (simp add: strlen_terminated)
  have "take t b = map Some (take t s)" using assms(2,3) by (simp add: terminated_def take_map)
  then have "mem_write b t (terminated rep) = Some (terminated (take t s @ rep) @ drop (t + length rep + 1) b)"
    using assms(4) by (simp add: mem_write_def terminated_def)
  then show ?thesis using True l assms(2,4) by (auto simp: replace_at_def)
qed

lemma replace_loop_rep:
  assumes "pat \<noteq> []" "no_zero rep"
  shows "no_zero s \<Longrightarrow> temp \<le> length s \<Longrightarrow> b = terminated s @ j \<Longrightarrow>
     length s + count_all pat (drop temp s) * (length rep - length pat) + 1 \<le> length b \<Longrightarrow>
     \<exists>j'. replace_loop b temp pat rep n =
       Some (terminated (take temp s @ replace_all pat rep (drop temp s)) @ j', n + count_all pat (drop temp s)) \<and>
     length (terminated (take temp s @ replace_all pat rep (drop temp s)) @ j') = length b"
proof (induction "length s - temp" arbitrary: s temp n b j rule: less_induct)
  case less
  note m = mem_strstr_terminated [OF less.prems(1,2), of j pat]
  show ?case
  proof (cases "strstr s temp pat")
    case None
    then show ?thesis using strstr_None [OF None, of rep] m less.prems(3) by (simp add: replace_loop.simps [of "terminated s @ j"])
  next
    case (Some t)
    note t = strstr_Some [OF Some assms(1), of rep]
    have tt: "temp \<le> t" "t + length pat \<le> length s" using t by simp_all
    have p: "0 < length pat" using assms(1) by simp
    let ?s = "take t s @ rep @ drop (t + length pat) s"
    have c: "count_all pat (drop temp s) = 1 + count_all pat (drop (t + length pat) s)" using t by simp
    have room: "t + length rep + (length s - (t + length pat)) + 1 \<le> length b"
      using less.prems(4) tt by (simp add: c)
    obtain j' where r: "replace_at b t (length pat) rep = Some (terminated ?s @ j')"
        "length (terminated ?s @ j') = length b"
      using replace_at_rep [OF less.prems(1) tt(2) less.prems(3) room] by blast
    have d: "drop (t + length rep) ?s = drop (t + length pat) s" "take (t + length rep) ?s = take t s @ rep"
      using tt by simp_all
    have len: "length ?s = length s + length rep - length pat" using tt by simp
    have room2: "length ?s + count_all pat (drop (t + length rep) ?s) * (length rep - length pat) + 1 \<le> length (terminated ?s @ j')"
      unfolding r(2) d(1) len using less.prems(4) room by (cases "length rep \<le> length pat") (simp_all add: c)
    have "no_zero ?s" using less.prems(1) assms(2) by simp
    moreover have "length ?s - (t + length rep) < length s - temp" "t + length rep \<le> length ?s"
      using tt p by (simp_all del: length_greater_0_conv)
    ultimately have IH: "\<exists>j''. replace_loop (terminated ?s @ j') (t + length rep) pat rep (n + 1) =
        Some (terminated (take (t + length rep) ?s @ replace_all pat rep (drop (t + length rep) ?s)) @ j'',
              n + 1 + count_all pat (drop (t + length rep) ?s)) \<and>
        length (terminated (take (t + length rep) ?s @ replace_all pat rep (drop (t + length rep) ?s)) @ j'') =
          length (terminated ?s @ j')"
      using room2 by (intro less.hyps) simp_all
    have "take t s = take temp s @ take (t - temp) (drop temp s)"
      using tt by (metis le_add_diff_inverse take_add)
    then have e: "take temp s @ replace_all pat rep (drop temp s) =
        take (t + length rep) ?s @ replace_all pat rep (drop (t + length rep) ?s)"
      using t d by simp
    have "replace_loop b temp pat rep n = replace_loop (terminated ?s @ j') (t + length rep) pat rep (n + 1)"
      using m less.prems(3) Some r(1) by (simp add: replace_loop.simps [of "terminated s @ j"])
    then show ?thesis using IH unfolding e d(1) c r(2) by simp
  qed
qed

lemma count_loop_rep:
  assumes "pat \<noteq> []" "no_zero s" "temp \<le> length s"
  shows "count_loop (terminated s @ j) temp pat n = Some (n + count_all pat (drop temp s))"
  using assms(3)
proof (induction "length s - temp" arbitrary: temp n rule: less_induct)
  case less
  note m = mem_strstr_terminated [OF assms(2) less.prems, of j pat]
  show ?case
  proof (cases "strstr s temp pat")
    case None
    then show ?thesis using strstr_None [OF None] m by (simp add: count_loop.simps [of "terminated s @ j"])
  next
    case (Some t)
    note t = strstr_Some [OF Some assms(1)]
    have tt: "temp \<le> t" "t + length pat \<le> length s" using t by simp_all
    have p: "0 < length pat" using assms(1) by simp
    have "count_loop (terminated s @ j) (t + length pat) pat (n + 1) =
        Some (n + 1 + count_all pat (drop (t + length pat) s))"
      using tt p by (intro less.hyps) (simp_all del: length_greater_0_conv)
    then show ?thesis using Some t m by (simp add: count_loop.simps [of "terminated s @ j"])
  qed
qed

lemma overwrite_loop_rep:
  assumes "pat \<noteq> []" "no_zero rep" "length rep = length pat"
  shows "no_zero s \<Longrightarrow> temp \<le> length s \<Longrightarrow>
     overwrite_loop (terminated s @ j) temp pat rep =
       Some (terminated (take temp s @ replace_all pat rep (drop temp s)) @ j)"
proof (induction "length s - temp" arbitrary: s temp rule: less_induct)
  case less
  note m = mem_strstr_terminated [OF less.prems(1,2), of j pat]
  show ?case
  proof (cases "strstr s temp pat")
    case None
    then show ?thesis using strstr_None [OF None, of rep] m by (simp add: overwrite_loop.simps [of "terminated s @ j"])
  next
    case (Some t)
    note t = strstr_Some [OF Some assms(1), of rep]
    have tt: "temp \<le> t" "t + length pat \<le> length s" using t by simp_all
    have p: "0 < length pat" using assms(1) by simp
    let ?s = "take t s @ rep @ drop (t + length pat) s"
    have w: "mem_write (terminated s @ j) t (map Some rep) = Some (terminated ?s @ j)"
      using tt assms(3) by (simp add: mem_write_def terminated_def take_map drop_map)
    have d: "drop (t + length rep) ?s = drop (t + length pat) s" "take (t + length rep) ?s = take t s @ rep"
      using tt by simp_all
    have "overwrite_loop (terminated ?s @ j) (t + length rep) pat rep =
        Some (terminated (take (t + length rep) ?s @ replace_all pat rep (drop (t + length rep) ?s)) @ j)"
      using tt p less.prems assms(2,3) by (intro less.hyps) (simp_all del: length_greater_0_conv)
    moreover have "overwrite_loop (terminated s @ j) temp pat rep = overwrite_loop (terminated ?s @ j) (t + length rep) pat rep"
      using m Some w by (simp add: overwrite_loop.simps [of "terminated s @ j"])
    moreover have "take t s = take temp s @ take (t - temp) (drop temp s)"
      using tt by (metis le_add_diff_inverse take_add)
    then have "take temp s @ replace_all pat rep (drop temp s) =
        take (t + length rep) ?s @ replace_all pat rep (drop (t + length rep) ?s)"
      using t d by simp
    ultimately show ?thesis by metis
  qed
qed

lemma is_empty_rep: "ds_rep d s \<Longrightarrow> dstr_is_empty d = Some (s = [])"
  by (cases s) (auto simp: ds_rep_def dstr_is_empty_def mem_read_def)

lemma replace_all_zero: "no_zero s \<Longrightarrow> no_zero rep \<Longrightarrow> no_zero (replace_all pat rep s)"
proof (induction pat rep s rule: replace_all.induct)
  case (1 pat rep s)
  show ?case
  proof (cases "pat = [] \<or> length s < length pat")
    case True
    then show ?thesis using replace_stop [of pat s rep] 1 by simp
  next
    case go: False
    then have "s \<noteq> []" by auto
    then show ?thesis
      using 1 go replace_hit [of pat s rep] replace_miss [of pat s rep]
      by (cases "take (length pat) s = pat") (auto simp: neq_Nil_conv)
  qed
qed

lemma replace_rep:
  assumes "ds_rep d s" "pat \<noteq> []" "no_zero (or_blank rep)"
  shows "\<exists>d'. dstr_replace d pat rep = Some d' \<and> ds_rep d' (replace_all pat (or_blank rep) s)"
proof (cases "s = []")
  case True
  then show ?thesis using assms is_empty_rep [OF assms(1)] replace_stop [of pat "[]"] by (simp add: dstr_replace_def)
next
  case False
  let ?r = "or_blank rep" and ?n = "count_all pat s"
  obtain j where j: "ds_array d = terminated s @ j" using ds_rep_nonempty [OF assms(1) False] by metis
  note l = length_replace_all [of pat ?r s] and e = is_empty_rep [OF assms(1)] and D = ds_rep_D [OF assms(1)]
  have z: "no_zero (replace_all pat ?r s)" using D assms(3) replace_all_zero by blast
  have cap: "ds_capacity d = length (terminated s @ j)" using assms(1) j by (simp add: ds_rep_def)
  consider "length ?r < length pat" | "length pat < length ?r" | "length ?r = length pat" by linarith
  then show ?thesis
  proof cases
    case 1
    have "length s - (length pat - length ?r) * ?n = length (replace_all pat ?r s)"
      using l 1 by (auto simp: algebra_simps dest!: less_imp_add_positive)
    moreover obtain j' where "replace_loop (terminated s @ j) 0 pat ?r 0 =
          Some (terminated (replace_all pat ?r s) @ j', ?n)"
        "length (terminated (replace_all pat ?r s) @ j') = length (terminated s @ j)"
      using replace_loop_rep [OF assms(2,3), of s 0 "terminated s @ j" j 0] D 1 by auto
    ultimately show ?thesis using 1 False e j D z cap
      by (auto simp: dstr_replace_def Let_def intro!: ds_repI)
  next
    case 2
    have len: "length s + (length ?r - length pat) * ?n = length (replace_all pat ?r s)"
      using l 2 by (auto simp: algebra_simps dest!: less_imp_add_positive)
    have c: "count_loop (terminated s @ j) 0 pat 0 = Some ?n" using count_loop_rep [OF assms(2), of s 0] D by simp
    show ?thesis
    proof (cases "?n = 0")
      case True
      then show ?thesis using 2 False e c j assms(1) replace_none [OF True] by (simp add: dstr_replace_def Let_def)
    next
      case n: False
      let ?len = "length (replace_all pat ?r s)"
      obtain b k where b: "dstr_ensure_capacity d (?len + 1) = d\<lparr>ds_array := b, ds_capacity := length b\<rparr>"
          "?len + 1 \<le> length b" "b = terminated s @ k"
        using ensure_capacity_rep [OF assms(1)] False by metis
      have en: "dstr_ensure_capacity (d\<lparr>ds_len := ?len\<rparr>) (?len + 1) = (dstr_ensure_capacity d (?len + 1))\<lparr>ds_len := ?len\<rparr>"
        by (simp add: dstr_ensure_capacity_def Let_def)
      have "length s + ?n * (length ?r - length pat) + 1 \<le> length b" using len b(2) by (simp add: mult.commute)
      then obtain j' where "replace_loop b 0 pat ?r 0 = Some (terminated (replace_all pat ?r s) @ j', ?n)"
          "length (terminated (replace_all pat ?r s) @ j') = length b"
        using replace_loop_rep [OF assms(2,3), of s 0 b k 0] D b(3) by auto
      then show ?thesis using 2 n False e c j D z b(1) en len
        by (auto simp: dstr_replace_def Let_def intro!: ds_repI)
    qed
  next
    case 3
    have "overwrite_loop (terminated s @ j) 0 pat ?r = Some (terminated (replace_all pat ?r s) @ j)"
      using overwrite_loop_rep [OF assms(2,3) 3, of s 0] D by simp
    then show ?thesis using 3 l False e j D z cap
      by (auto simp: dstr_replace_def Let_def intro!: ds_repI)
  qed
qed

lemma copy_any_rep: "ds_rep d s \<Longrightarrow> no_zero (or_blank t) \<Longrightarrow> \<exists>d'. dstr_copy d t = Some d' \<and> ds_rep d' (or_blank t)"
  using copy_rep [of d s "or_blank t"] ds_rep_free by (cases t) (auto simp: or_blank_def dstr_copy_def blank_def)

definition fill_in :: "string \<Rightarrow> string option \<Rightarrow> string \<Rightarrow> string" where
  "fill_in pat v s = (case v of None \<Rightarrow> s | Some r \<Rightarrow> replace_all pat r s)"

lemma fill_in_rep:
  assumes "ds_rep d s" "no_zero (or_blank v)" "pat \<noteq> []"
  shows "\<exists>d'. (if v \<noteq> None then dstr_replace d pat v else Some d) = Some d' \<and> ds_rep d' (fill_in pat v s)"
  using assms replace_rep [OF assms(1,3,2)] by (cases v) (auto simp: fill_in_def or_blank_def)

lemma safe_printf_rep:
  assumes "ds_rep d s" "no_zero (or_blank f)" "list_all (\<lambda>v. no_zero (or_blank v)) [v1, v2, v3, v4]"
  shows "\<exists>d'. dstr_safe_printf d f v1 v2 v3 v4 = Some d' \<and>
    ds_rep d' (fill_in ''$4'' v4 (fill_in ''$3'' v3 (fill_in ''$2'' v2 (fill_in ''$1'' v1 (or_blank f)))))"
proof -
  have z: "no_zero (or_blank v1)" "no_zero (or_blank v2)" "no_zero (or_blank v3)" "no_zero (or_blank v4)"
    using assms(3) by simp_all
  obtain d0 where 0: "dstr_copy d f = Some d0" "ds_rep d0 (or_blank f)" using copy_any_rep [OF assms(1,2)] by blast
  obtain d1 where 1: "(if v1 \<noteq> None then dstr_replace d0 ''$1'' v1 else Some d0) = Some d1"
      "ds_rep d1 (fill_in ''$1'' v1 (or_blank f))"
    using fill_in_rep [OF 0(2) z(1)] by blast
  obtain d2 where 2: "(if v2 \<noteq> None then dstr_replace d1 ''$2'' v2 else Some d1) = Some d2"
      "ds_rep d2 (fill_in ''$2'' v2 (fill_in ''$1'' v1 (or_blank f)))"
    using fill_in_rep [OF 1(2) z(2)] by blast
  obtain d3 where 3: "(if v3 \<noteq> None then dstr_replace d2 ''$3'' v3 else Some d2) = Some d3"
      "ds_rep d3 (fill_in ''$3'' v3 (fill_in ''$2'' v2 (fill_in ''$1'' v1 (or_blank f))))"
    using fill_in_rep [OF 2(2) z(3)] by blast
  show ?thesis
    unfolding dstr_safe_printf_def 0(1) bind.bind_lunit 1(1) 2(1) 3(1) using fill_in_rep [OF 3(2) z(4)] by blast
qed

text \<open>A value that contains a later place holder is itself replaced in.\<close>
lemma safe_printf_replaces_in_values:
  "\<exists>d. dstr_safe_printf dstr_init (Some ''$1 $2'') (Some ''$2'') (Some ''x'') None None = Some d \<and> ds_rep d ''x x''"
proof -
  have "fill_in ''$4'' None (fill_in ''$3'' None (fill_in ''$2'' (Some ''x'') (fill_in ''$1'' (Some ''$2'') (or_blank (Some ''$1 $2''))))) = ''x x''"
    by code_simp
  then show ?thesis
    using safe_printf_rep [OF ds_rep_init, of "Some ''$1 $2''" "Some ''$2''" "Some ''x''" None None]
    by (simp add: or_blank_def)
qed

subsection \<open>Parts of a string\<close>

lemma resize_shrink_rep:
  assumes "ds_rep d s" "n \<le> length s"
  shows "\<exists>d'. dstr_resize d n = Some d' \<and> ds_rep d' (take n s)"
proof (cases "n = 0")
  case True
  then show ?thesis by (simp add: dstr_resize_def ds_rep_free)
next
  case False
  then have s: "s \<noteq> []" using assms(2) by auto
  obtain b j where b: "dstr_ensure_capacity d (n + 1) = d\<lparr>ds_array := b, ds_capacity := length b\<rparr>"
      "b = terminated s @ j"
    using ensure_capacity_rep [OF assms(1)] s by metis
  have "mem_write b n [Some (CHR 0x00)] = Some (terminated (take n s) @ drop (n + 1) b)"
    using assms(2) b(2) by (simp add: mem_write_def terminated_def take_map)
  then show ?thesis using False b assms ds_rep_D [OF assms(1)]
    by (auto simp: dstr_resize_def Let_def intro!: ds_repI)
qed

lemma mid_rep:
  assumes "ds_rep d s" "ds_rep e t" "start + count \<le> length t"
  shows "\<exists>d'. dstr_mid d e start count = Some d' \<and> ds_rep d' (take count (drop start t))"
proof (cases "t = []")
  case True
  then show ?thesis using assms ds_rep_free [of d] copy_dstr_rep [OF assms(2), of dstr_init]
    by (auto simp: dstr_mid_def dstr_ncopy_def ds_rep_def)
next
  case False
  obtain x where x: "dstr_copy_dstr dstr_init e = Some x" "ds_rep x t" using copy_dstr_rep [OF assms(2)] by blast
  obtain j where j: "ds_array x = terminated t @ j" using ds_rep_nonempty [OF x(2) False] by metis
  have "drop start (ds_array x) = terminated (drop start t) @ j"
    using assms(3) by (simp add: j drop_terminated)
  then show ?thesis
    using x(1) ncopy_rep [OF assms(1), of "drop start t" count j] assms(3) ds_rep_D [OF assms(2)]
    by (simp add: dstr_mid_def)
qed

lemma right_rep:
  assumes "ds_rep e t" "pos \<le> length t"
  shows "\<exists>d'. dstr_right d e pos = Some d' \<and> ds_rep d' (drop pos t)"
proof -
  have D: "ds_len e = length t" "no_zero t" using ds_rep_D [OF assms(1)] by simp_all
  have "\<exists>x. dstr_ncopy dstr_init (drop pos (ds_array e)) (ds_len e - pos) = Some x \<and> ds_rep x (drop pos t)"
  proof (cases "t = []")
    case True
    then show ?thesis using D ds_rep_init by (simp add: dstr_ncopy_def dstr_init_def)
  next
    case False
    obtain j where j: "ds_array e = terminated t @ j" using ds_rep_nonempty [OF assms(1) False] by metis
    have "drop pos (ds_array e) = terminated (drop pos t) @ j" using assms(2) by (simp add: j drop_terminated)
    then show ?thesis using ncopy_rep [OF ds_rep_init, of "drop pos t" "length t - pos" j] D assms(2) by simp
  qed
  then obtain x where x: "dstr_ncopy dstr_init (drop pos (ds_array e)) (ds_len e - pos) = Some x" "ds_rep x (drop pos t)"
    by blast
  then show ?thesis using copy_dstr_rep [OF x(2), of d] D assms(2) by (simp add: dstr_right_def)
qed

definition strip :: "string \<Rightarrow> string" where
  "strip s = rev (dropWhile is_padding (rev (dropWhile is_padding s)))"

lemma skip_padding_terminated: "no_zero s \<Longrightarrow> skip_padding (terminated s @ j) = Some (length (takeWhile is_padding s))"
  by (induction s) (simp_all add: is_padding_def)

lemma trim_loop_rep:
  assumes "no_zero s" "\<exists>c\<in>set s. \<not> is_padding c"
  shows "\<exists>j'. trim_loop (terminated s @ j) (length s) = Some (terminated (rev (dropWhile is_padding (rev s))) @ j') \<and>
    length (terminated (rev (dropWhile is_padding (rev s))) @ j') = length (terminated s @ j)"
  using assms
proof (induction s arbitrary: j rule: rev_induct)
  case (snoc c s)
  have b: "(terminated (s @ [c]) @ j) ! length s = Some c" by (simp add: terminated_def nth_append)
  show ?case
  proof (cases "is_padding c")
    case True
    then have "\<exists>c\<in>set s. \<not> is_padding c" using snoc.prems(2) by auto
    moreover have "(terminated (s @ [c]) @ j)[length s := Some (CHR 0x00)] = terminated s @ Some (CHR 0x00) # j"
      by (simp add: terminated_def list_update_append)
    ultimately show ?thesis using snoc.IH [of "Some (CHR 0x00) # j"] snoc.prems(1) True b by simp
  next
    case False
    then show ?thesis using b by auto
  qed
qed simp

lemma strdepad_rep:
  assumes "no_zero s" "s \<noteq> []"
  shows "\<exists>j'. strdepad (terminated s @ j) = Some (terminated (strip s) @ j') \<and>
    length (terminated (strip s) @ j') = length (terminated s @ j)"
proof -
  let ?k = "length (takeWhile is_padding s)" and ?u = "dropWhile is_padding s"
  have u: "drop ?k s = ?u" by (simp add: dropWhile_eq_drop)
  have k: "?k \<le> length s" by (simp add: length_takeWhile_le)
  have lu: "length s - ?k = length ?u" using u length_drop [of ?k s] by simp
  have zu: "no_zero ?u" using assms(1) u no_zero_take_drop(2) [of s ?k] by simp
  have ne: "mem_read (terminated s @ j) 0 1 \<noteq> Some [Some (CHR 0x00)]" using assms by (cases s) (auto simp: mem_read_def)
  then obtain c where c: "mem_read (terminated s @ j) 0 1 = Some c" "c \<noteq> [Some (CHR 0x00)]" by (auto simp: mem_read_def)
  have mv: "mem_move (terminated s @ j) 0 ?k (length ?u + 1) = Some (terminated ?u @ drop (length ?u + 1) (terminated s @ j))"
    using k lu by (simp add: mem_move_Some drop_terminated u)
  have "\<exists>j1. (if ?k \<noteq> 0 then mem_move (terminated s @ j) 0 ?k (length ?u + 1) else Some (terminated s @ j)) =
      Some (terminated ?u @ j1) \<and> length (terminated ?u @ j1) = length (terminated s @ j)"
  proof (cases "?k = 0")
    case True
    then have "?u = s" using u by simp
    then show ?thesis using True by simp
  next
    case False
    have "length (terminated ?u @ drop (length ?u + 1) (terminated s @ j)) = length (terminated s @ j)"
      using k lu by simp
    then show ?thesis using False mv by auto
  qed
  then obtain j1 where m: "(if ?k \<noteq> 0 then mem_move (terminated s @ j) 0 ?k (length ?u + 1) else Some (terminated s @ j)) =
      Some (terminated ?u @ j1)" "length (terminated ?u @ j1) = length (terminated s @ j)"
    by blast
  have e: "strdepad (terminated s @ j) =
      (if length ?u \<noteq> 0 then trim_loop (terminated ?u @ j1) (length ?u) else Some (terminated ?u @ j1))"
    using c m(1) assms(1) skip_padding_terminated [OF assms(1), of j] strlen_terminated [OF assms(1) k, of j] lu
    by (simp add: strdepad_def)
  show ?thesis
  proof (cases "?u = []")
    case True
    have st: "strip s = []" unfolding strip_def True by simp
    show ?thesis using e m(2) unfolding st True by simp
  next
    case False
    then have "\<exists>c\<in>set ?u. \<not> is_padding c" using hd_dropWhile [OF False] by (metis hd_in_set)
    then show ?thesis using trim_loop_rep [OF zu, of j1] e m(2) False by (auto simp: strip_def)
  qed
qed

lemma strip_no_zero: "no_zero s \<Longrightarrow> no_zero (strip s)"
  by (auto simp: no_zero_def strip_def dest!: set_dropWhileD)

lemma depad_rep:
  assumes "ds_rep d s"
  shows "\<exists>d'. dstr_depad d = Some d' \<and> ds_rep d' (strip s)"
proof (cases "ds_array d = []")
  case True
  then show ?thesis using assms by (auto simp: dstr_depad_def ds_rep_def strip_def)
next
  case False
  then obtain j where j: "ds_array d = terminated s @ j" using assms by (auto simp: ds_rep_def)
  have D: "no_zero s" "ds_capacity d = length (terminated s @ j)" using assms j by (simp_all add: ds_rep_def)
  have z: "no_zero (strip s)" using D(1) by (rule strip_no_zero)
  obtain j' where b: "strdepad (terminated s @ j) = Some (terminated (strip s) @ j')"
      "length (terminated (strip s) @ j') = length (terminated s @ j)"
  proof (cases "s = []")
    case True
    then show ?thesis using that [of j] by (simp add: strdepad_def mem_read_def strip_def)
  next
    case False
    then show ?thesis using strdepad_rep [OF D(1) False, of j] that by blast
  qed
  show ?thesis
  proof (cases "strip s = []")
    case True
    then show ?thesis using j b ds_rep_free [of d] by (simp add: dstr_depad_def mem_read_def)
  next
    case False
    then have "mem_read (terminated (strip s) @ j') 0 1 \<noteq> Some [Some (CHR 0x00)]"
      using z by (cases "strip s") (auto simp: mem_read_def)
    then obtain c where "mem_read (terminated (strip s) @ j') 0 1 = Some c" "c \<noteq> [Some (CHR 0x00)]"
      by (auto simp: mem_read_def)
    then show ?thesis using j b z D strlen_terminated [OF z, of 0 j']
      by (auto simp: dstr_depad_def intro!: ds_repI)
  qed
qed

subsection \<open>Dynamic strings are strings\<close>

datatype ds_op =
    Op_copy string | Op_cat string | Op_cat_ch char | Op_ncat string nat | Op_cat_dstr string
  | Op_ncat_dstr string nat | Op_insert nat string | Op_insert_dstr nat string | Op_remove nat nat
  | Op_replace string string | Op_depad | Op_resize nat | Op_mid nat nat | Op_right nat

fun ds_step :: "ds_op \<Rightarrow> dstr \<Rightarrow> dstr option" where
  "ds_step (Op_copy t) d = dstr_copy d (Some t)"
| "ds_step (Op_cat t) d = dstr_cat d (Some t)"
| "ds_step (Op_cat_ch c) d = dstr_cat_ch d c"
| "ds_step (Op_ncat t n) d = dstr_ncat d (terminated t) n"
| "ds_step (Op_cat_dstr t) d = do { e \<leftarrow> dstr_init_copy (Some t); dstr_cat_dstr d e }"
| "ds_step (Op_ncat_dstr t n) d = do { e \<leftarrow> dstr_init_copy (Some t); dstr_ncat_dstr d e n }"
| "ds_step (Op_insert i t) d = dstr_insert d i (Some t)"
| "ds_step (Op_insert_dstr i t) d = do { e \<leftarrow> dstr_init_copy (Some t); dstr_insert_dstr d i e }"
| "ds_step (Op_remove i n) d = dstr_remove d i n"
| "ds_step (Op_replace p r) d = dstr_replace d p (Some r)"
| "ds_step Op_depad d = dstr_depad d"
| "ds_step (Op_resize n) d = dstr_resize d n"
| "ds_step (Op_mid i n) d = dstr_mid d d i n"
| "ds_step (Op_right i) d = dstr_right d d i"

text \<open>What each operation means; \<open>None\<close> marks a call outside its contract: an index behind the
string, a text that contains the terminator, an empty pattern.\<close>

definition str_guard :: "bool \<Rightarrow> string \<Rightarrow> string option" where
  "str_guard b s = (if b then Some s else None)"

fun str_step :: "ds_op \<Rightarrow> string \<Rightarrow> string option" where
  "str_step (Op_copy t) s = str_guard (no_zero t) t"
| "str_step (Op_cat t) s = str_guard (no_zero t) (s @ t)"
| "str_step (Op_cat_ch c) s = str_guard (c \<noteq> CHR 0x00) (s @ [c])"
| "str_step (Op_ncat t n) s = str_guard (no_zero t \<and> n \<le> length t) (s @ take n t)"
| "str_step (Op_cat_dstr t) s = str_guard (no_zero t) (s @ t)"
| "str_step (Op_ncat_dstr t n) s = str_guard (no_zero t) (s @ take n t)"
| "str_step (Op_insert i t) s = str_guard (no_zero t \<and> i \<le> length s) (take i s @ t @ drop i s)"
| "str_step (Op_insert_dstr i t) s = str_guard (no_zero t \<and> i \<le> length s) (take i s @ t @ drop i s)"
| "str_step (Op_remove i n) s = str_guard (i + n \<le> length s) (take i s @ drop (i + n) s)"
| "str_step (Op_replace p r) s = str_guard (p \<noteq> [] \<and> no_zero r) (replace_all p r s)"
| "str_step Op_depad s = Some (strip s)"
| "str_step (Op_resize n) s = str_guard (n \<le> length s) (take n s)"
| "str_step (Op_mid i n) s = str_guard (i + n \<le> length s) (take n (drop i s))"
| "str_step (Op_right i) s = str_guard (i \<le> length s) (drop i s)"

fun ds_run :: "ds_op list \<Rightarrow> dstr \<Rightarrow> dstr option" where
  "ds_run [] d = Some d"
| "ds_run (c # cs) d = do { d \<leftarrow> ds_step c d; ds_run cs d }"

fun str_run :: "ds_op list \<Rightarrow> string \<Rightarrow> string option" where
  "str_run [] s = Some s"
| "str_run (c # cs) s = do { s \<leftarrow> str_step c s; str_run cs s }"

lemma str_guard_Some [simp]: "str_guard b s = Some t \<longleftrightarrow> b \<and> s = t" by (simp add: str_guard_def)

lemma init_copy_rep: "no_zero t \<Longrightarrow> \<exists>e. dstr_init_copy (Some t) = Some e \<and> ds_rep e t"
  using copy_rep [OF ds_rep_init] by (simp add: dstr_init_copy_def)

lemma ds_step_rep:
  assumes "ds_rep d s" "str_step c s = Some t"
  shows "\<exists>d'. ds_step c d = Some d' \<and> ds_rep d' t"
proof (cases c)
  case (Op_cat_dstr x)
  then obtain e where "dstr_init_copy (Some x) = Some e" "ds_rep e x" using assms(2) init_copy_rep by auto
  then show ?thesis using Op_cat_dstr assms cat_dstr_rep [of d s e x] by simp
next
  case (Op_ncat_dstr x n)
  then obtain e where "dstr_init_copy (Some x) = Some e" "ds_rep e x" using assms(2) init_copy_rep by auto
  then show ?thesis using Op_ncat_dstr assms ncat_dstr_rep [of d s e x n] by simp
next
  case (Op_insert_dstr i x)
  then obtain e where "dstr_init_copy (Some x) = Some e" "ds_rep e x" using assms(2) init_copy_rep by auto
  then show ?thesis using Op_insert_dstr assms insert_dstr_rep [of d s e x i] by simp
next
  case (Op_ncat x n)
  then show ?thesis using assms ncat_rep [of d s x n "[]"] by simp
next
  case (Op_replace p r)
  then show ?thesis using assms replace_rep [of d s p "Some r"] by (simp add: or_blank_def)
qed (use assms copy_rep [OF assms(1)] cat_rep [OF assms(1)] cat_ch_rep [OF assms(1)] insert_rep [OF assms(1)]
    remove_rep [OF assms(1)] depad_rep [OF assms(1)] resize_shrink_rep [OF assms(1)]
    mid_rep [OF assms(1) assms(1)] right_rep [OF assms(1), of _ d] in auto)

lemma ds_run_rep:
  "ds_rep d s \<Longrightarrow> str_run cs s = Some t \<Longrightarrow> \<exists>d'. ds_run cs d = Some d' \<and> ds_rep d' t"
proof (induction cs arbitrary: d s)
  case (Cons c cs)
  then obtain s1 where s1: "str_step c s = Some s1" "str_run cs s1 = Some t" by (auto split: bind_splits)
  then obtain d1 where "ds_step c d = Some d1" "ds_rep d1 s1" using ds_step_rep [OF Cons.prems(1)] by blast
  then show ?case using Cons.IH [OF _ s1(2)] by simp
qed simp

text \<open>C21: A dynamic string is a string.  Every sequence of the operations that keeps to their contracts
runs to its end, never leaves the memory it owns, and leaves a block that holds exactly the string the
sequence means, with its terminator, length and capacity.\<close>
theorem dstr_refines_string:
  "case str_run cs [] of None \<Rightarrow> True
   | Some s \<Rightarrow> (\<exists>d. ds_run cs dstr_init = Some d \<and> ds_rep d s)"
  using ds_run_rep [OF ds_rep_init] by (auto split: option.splits)

subsection \<open>Splitting\<close>

fun split_on :: "char \<Rightarrow> string \<Rightarrow> string list" where
  "split_on ch [] = [[]]"
| "split_on ch (c # s) =
     (if c = ch then [] # split_on ch s
      else (case split_on ch s of [] \<Rightarrow> [[c]] | p # ps \<Rightarrow> (c # p) # ps))"

definition parts :: "char \<Rightarrow> bool \<Rightarrow> string \<Rightarrow> string list" where
  "parts ch include_empty s = filter (\<lambda>p. p \<noteq> [] \<or> include_empty) (split_on ch s)"

lemma split_on_None: "strchr s ch = None \<Longrightarrow> split_on ch s = [s]"
  by (induction s) (auto simp: strchr_def split: if_splits)

lemma split_on_Some:
  "strchr s ch = Some n \<Longrightarrow> n < length s \<and> split_on ch s = take n s # split_on ch (drop (n + 1) s)"
proof (induction s arbitrary: n)
  case (Cons c s)
  show ?case
  proof (cases "c = ch")
    case True
    then show ?thesis using Cons.prems by (auto simp: strchr_def)
  next
    case False
    then have "strchr s ch = Some (n - 1)" "0 < n" using Cons.prems by (auto simp: strchr_def split: if_splits)
    then show ?thesis using Cons.IH [of "n - 1"] False by (cases n) auto
  qed
qed (simp add: strchr_def)

definition parts_size :: "string list \<Rightarrow> nat" where "parts_size ps = sum_list (map (\<lambda>p. length p + 1) ps)"

fun offsets :: "nat \<Rightarrow> string list \<Rightarrow> nat list" where
  "offsets n [] = []"
| "offsets n (p # ps) = n # offsets (n + length p + 1) ps"

lemma split_count_parts:
  "split_count ch inc s c t = (c + length (parts ch inc s), t + parts_size (parts ch inc s))"
proof (induction ch inc s c t rule: split_count.induct)
  case (1 ch inc s c t)
  show ?case
  proof (cases "strchr s ch")
    case None
    then show ?thesis
      using split_on_None [OF None] by (simp add: split_count.simps [of ch inc s] parts_def parts_size_def)
  next
    case (Some n)
    have e: "n < length s" "take n s \<noteq> [] \<or> inc \<longleftrightarrow> n \<noteq> 0 \<or> inc" "length (take n s) = n"
      using split_on_Some [OF Some] by auto
    have p: "parts ch inc s = (if n \<noteq> 0 \<or> inc then take n s # parts ch inc (drop (n + 1) s) else parts ch inc (drop (n + 1) s))"
      using split_on_Some [OF Some] e(1,2) by (auto simp: parts_def)
    show ?thesis
      using 1 [OF Some] Some e by (simp add: split_count.simps [of ch inc s] p parts_size_def)
  qed
qed

lemma write_fresh:
  "parts_size (p # ps) \<le> k \<Longrightarrow>
     mem_write (pre @ replicate k None) (length pre) (terminated p) =
       Some ((pre @ terminated p) @ replicate (k - length p - 1) None)"
  by (simp add: mem_write_def parts_size_def drop_replicate)

lemma split_fill_parts:
  "parts_size (parts ch inc s) \<le> k \<Longrightarrow>
     split_fill ch inc s (pre @ replicate k None) (length pre) tab =
       Some (tab @ offsets (length pre) (parts ch inc s),
             pre @ concat (map terminated (parts ch inc s)) @ replicate (k - parts_size (parts ch inc s)) None)"
proof (induction "length s" arbitrary: s pre k tab rule: less_induct)
  case less
  show ?case
  proof (cases "strchr s ch")
    case None
    then have "parts ch inc s = (if s \<noteq> [] \<or> inc then [s] else [])" by (simp add: parts_def split_on_None)
    then show ?thesis using None less.prems write_fresh [of s "[]" k pre]
      by (auto simp: split_fill.simps [of ch _ s] parts_size_def)
  next
    case (Some n)
    let ?s = "drop (n + 1) s" and ?p = "take n s"
    have e: "n < length s" "?p \<noteq> [] \<or> inc \<longleftrightarrow> n \<noteq> 0 \<or> inc" "length ?p = n"
      using split_on_Some [OF Some] by auto
    have p: "parts ch inc s = (if n \<noteq> 0 \<or> inc then ?p # parts ch inc ?s else parts ch inc ?s)"
      using split_on_Some [OF Some] e(1,2) by (auto simp: parts_def)
    have lt: "length ?s < length s" using e(1) by simp
    show ?thesis
    proof (cases "n \<noteq> 0 \<or> inc")
      case True
      have k: "parts_size (?p # parts ch inc ?s) \<le> k" "parts_size (parts ch inc ?s) \<le> k - n - 1"
        using less.prems True e(3) by (simp_all add: p parts_size_def)
      have len: "length (pre @ terminated ?p) = length pre + n + 1" using e(3) by simp
      show ?thesis
        using Some True p write_fresh [OF k(1), of pre] less.hyps [OF lt k(2), of "pre @ terminated ?p" "tab @ [length pre]"]
          e(3) len by (simp add: split_fill.simps [of ch _ s] parts_size_def)
    next
      case False
      then show ?thesis using Some p less.hyps [OF lt, of k pre tab] less.prems by (simp add: split_fill.simps [of ch _ s])
    qed
  qed
qed

lemma read_offsets:
  "list_all no_zero ps \<Longrightarrow>
     map (\<lambda>n. c_str (drop n (pre @ concat (map terminated ps) @ post))) (offsets (length pre) ps) = map Some ps"
proof (induction ps arbitrary: pre)
  case (Cons p ps)
  have "map (\<lambda>n. c_str (drop n ((pre @ terminated p) @ concat (map terminated ps) @ post)))
      (offsets (length (pre @ terminated p)) ps) = map Some ps"
    using Cons by (intro Cons.IH) simp
  then show ?case using Cons.prems by (simp add: c_str_terminated)
qed simp

lemma split_on_zero: "no_zero s \<Longrightarrow> list_all no_zero (split_on ch s)"
  by (induction s) (auto split: list.splits)

text \<open>\<^verbatim>\<open>strlist_split\<close> fits the pieces exactly into the memory its first pass has
measured, and the table points to them in order: every piece between two separators, the empty ones
only on request.\<close>
theorem strlist_split_correct:
  assumes "no_zero s"
  shows "\<exists>table out. strlist_split (Some s) ch include_empty = Some (Some (table, out)) \<and>
    map (\<lambda>n. c_str (drop n out)) table = map Some (parts ch include_empty s) \<and>
    length out = parts_size (parts ch include_empty s)"
proof -
  let ?ps = "parts ch include_empty s"
  have z: "list_all no_zero ?ps" using split_on_zero [OF assms, of ch] by (auto simp: parts_def list_all_iff)
  have f: "split_fill ch include_empty s (replicate (parts_size ?ps) None) 0 [] =
      Some (offsets 0 ?ps, concat (map terminated ?ps))"
    using split_fill_parts [of ch include_empty s "parts_size ?ps" "[]" "[]"] by simp
  have l: "length (offsets n ps) = length ps" for n ps by (induction ps arbitrary: n) simp_all
  have "length (concat (map terminated ps)) = parts_size ps" for ps
    by (induction ps) (simp_all add: parts_size_def)
  then show ?thesis
    using f l read_offsets [OF z, of "[]" "[]"] by (simp add: strlist_split_def split_count_parts)
qed

lemma strlist_split_correct_witness:
  "\<exists>table out. strlist_split (Some ''a;;bc'') (CHR '';'') True = Some (Some (table, out)) \<and>
    map (\<lambda>n. c_str (drop n out)) table = [Some ''a'', Some [], Some ''bc'']"
  using strlist_split_correct [of "''a;;bc''" "CHR '';''" True] by (auto simp: parts_def)

end

