(* ===== verification/Config.thy ===== *)
theory Config
  imports Dstr
begin

text \<open>
  Configuration files, \<^verbatim>\<open>util/config-file.c\<close>, with the reading and replacing of files of
  \<^verbatim>\<open>util/platform.c\<close> and \<^verbatim>\<open>util/platform-nix.c\<close>.  The text is built with
  the dynamic strings of \<^verbatim>\<open>Dstr\<close>, at the level of their memory.

  A hash table of uthash is the list of its entries in the order of insertion, which is the order
  \<^verbatim>\<open>HASH_ITER\<close> visits them in.  \<^verbatim>\<open>HASH_ADD_STR\<close> does not look for an
  entry with the same key; a search finds the entry that was added last.  (With several entries of
  one key, growth of the table can change which one is found; the theorems are about tables without
  such entries, the only ones \<^verbatim>\<open>config_set_item\<close> makes.)  The file system is a map from
  paths to texts.  Strings contain no character 0.  The floating-point getters and setters are
  left out.
\<close>

subsection \<open>State\<close>

record config_item =
  ci_name :: string
  ci_value :: string

record config_section =
  cs_name :: string
  cs_items :: "config_item list"

record config_data =
  cfg_file :: "string option"
  cfg_sections :: "config_section list"
  cfg_defaults :: "config_section list"

datatype config_result = CONFIG_SUCCESS | CONFIG_FILENOTFOUND | CONFIG_ERROR

datatype config_open_type = CONFIG_OPEN_EXISTING | CONFIG_OPEN_ALWAYS

definition hash_find :: "('a \<Rightarrow> string) \<Rightarrow> string \<Rightarrow> 'a list \<Rightarrow> 'a option" where
  "hash_find key k t = find (\<lambda>x. key x = k) (rev t)"

text \<open>What writing through the pointer a search returned does to the table.\<close>

fun hash_update :: "('a \<Rightarrow> string) \<Rightarrow> string \<Rightarrow> ('a \<Rightarrow> 'a) \<Rightarrow> 'a list \<Rightarrow> 'a list" where
  "hash_update key k f [] = []"
| "hash_update key k f (x # xs) =
     (if key x = k \<and> hash_find key k xs = None then f x # xs else x # hash_update key k f xs)"

fun hash_delete :: "('a \<Rightarrow> string) \<Rightarrow> string \<Rightarrow> 'a list \<Rightarrow> 'a list" where
  "hash_delete key k [] = []"
| "hash_delete key k (x # xs) =
     (if key x = k \<and> hash_find key k xs = None then xs else x # hash_delete key k xs)"

subsection \<open>Reading a configuration\<close>

definition tok_char :: "lexer \<Rightarrow> base_token \<Rightarrow> char" where
  "tok_char lx t = (case sr_array (bt_text t) of Some a \<Rightarrow> char_at (lex_text lx) a | None \<Rightarrow> CHR 0x00)"

definition PARSE_WHITESPACE :: bool where "PARSE_WHITESPACE = False"

text \<open>\<open>fin\<close> is \<^verbatim>\<open>None\<close> for the argument 0, which reads to the end of the line.\<close>

function parse_string_loop :: "lexer \<Rightarrow> strref \<Rightarrow> char option \<Rightarrow> bool \<times> strref \<times> lexer" where
  "parse_string_loop lx ref fin =
     (case lexer_getbasetoken lx PARSE_WHITESPACE of
        (None, lx') \<Rightarrow> (fin \<noteq> None, ref, lx')
      | (Some token, lx') \<Rightarrow>
          let c = tok_char lx token in
          if fin \<noteq> None \<and> fin = Some c then (True, ref, lx')
          else if is_newline c then (fin = None, ref, lx')
          else parse_string_loop lx' (strref_add ref (bt_text token)) fin)"
  by pat_completeness auto
termination
  by (relation "measure (\<lambda>(lx, _). length (lex_text lx) - lex_offset lx)")
    (auto simp: PARSE_WHITESPACE_def dest!: getbasetoken_progress [OF sym])

declare parse_string_loop.simps [simp del]

definition config_parse_string :: "lexer \<Rightarrow> strref \<Rightarrow> char option \<Rightarrow> bool \<times> strref \<times> lexer" where
  "config_parse_string lx ref fin = parse_string_loop lx ref fin"

fun unescape :: "string \<Rightarrow> string" where
  "unescape [] = []"
| "unescape (c # s) =
     (if c = CHR 0x5C then
        case s of
          [] \<Rightarrow> [c]
        | d # s' \<Rightarrow>
            if d = CHR 0x5C then c # unescape s'
            else if d = CHR ''r'' then CHR 0x0D # unescape s'
            else if d = CHR ''n'' then CHR 0x0A # unescape s'
            else c # unescape s
      else c # unescape s)"

definition config_add_item :: "config_item list \<Rightarrow> string \<Rightarrow> string \<Rightarrow> config_item list" where
  "config_add_item items name value =
     items @ [\<lparr>ci_name = name, ci_value = (if \<not> strref_is_empty value then unescape value else [])\<rparr>]"

function skip_whitespace :: "base_token \<Rightarrow> lexer \<Rightarrow> base_token option \<times> lexer" where
  "skip_whitespace token lx =
     (if bt_type token = BASETOKEN_WHITESPACE then
        case lexer_getbasetoken lx PARSE_WHITESPACE of
          (None, lx') \<Rightarrow> (None, lx')
        | (Some token', lx') \<Rightarrow> skip_whitespace token' lx'
      else (Some token, lx))"
  by pat_completeness auto
termination
  by (relation "measure (\<lambda>(_, lx). length (lex_text lx) - lex_offset lx)")
    (auto simp: PARSE_WHITESPACE_def dest!: getbasetoken_progress [OF sym])

declare skip_whitespace.simps [simp del]

text \<open>The comment loop; the flag says whether the text went on after it.\<close>

function skip_comment :: "lexer \<Rightarrow> bool \<times> lexer" where
  "skip_comment lx =
     (case lexer_getbasetoken lx PARSE_WHITESPACE of
        (None, lx') \<Rightarrow> (False, lx')
      | (Some token, lx') \<Rightarrow> if is_newline (tok_char lx token) then (True, lx') else skip_comment lx')"
  by pat_completeness auto
termination
  by (relation "measure (\<lambda>lx. length (lex_text lx) - lex_offset lx)")
    (auto simp: PARSE_WHITESPACE_def dest!: getbasetoken_progress [OF sym])

declare skip_comment.simps [simp del]

text \<open>The loop over a line that starts no section.\<close>

function skip_line :: "base_token \<Rightarrow> lexer \<Rightarrow> bool \<times> lexer" where
  "skip_line token lx =
     (if \<not> is_newline (tok_char lx token) then
        case lexer_getbasetoken lx PARSE_WHITESPACE of
          (None, lx') \<Rightarrow> (False, lx')
        | (Some token', lx') \<Rightarrow> skip_line token' lx'
      else (True, lx))"
  by pat_completeness auto
termination
  by (relation "measure (\<lambda>(_, lx). length (lex_text lx) - lex_offset lx)")
    (auto simp: PARSE_WHITESPACE_def dest!: getbasetoken_progress [OF sym])

declare skip_line.simps [simp del]

text \<open>No loop moves back or changes the text.\<close>

definition goes_on :: "lexer \<Rightarrow> lexer \<Rightarrow> bool" where
  "goes_on lx lx' \<longleftrightarrow> lex_text lx' = lex_text lx \<and> lex_offset lx \<le> lex_offset lx'"

lemma goes_on_refl [simp]: "goes_on lx lx" by (simp add: goes_on_def)

lemma goes_on_trans [trans]: "goes_on a b \<Longrightarrow> goes_on b c \<Longrightarrow> goes_on a c" by (simp add: goes_on_def)

lemma getbasetoken_None: "lexer_getbasetoken lx False = (None, lx') \<Longrightarrow> lx' = lx \<and> length (lex_text lx) \<le> lex_offset lx"
  by (simp add: getbasetoken_spec split: if_splits)

lemma getbasetoken_goes_on: "lexer_getbasetoken lx False = (r, lx') \<Longrightarrow> goes_on lx lx'"
  by (cases r) (auto simp: goes_on_def dest: getbasetoken_None getbasetoken_progress)

lemma parse_string_goes_on: "parse_string_loop lx ref fin = (b, s, lx') \<Longrightarrow> goes_on lx lx'"
proof (induction lx ref fin rule: parse_string_loop.induct)
  case (1 lx ref fin)
  obtain r l where g: "lexer_getbasetoken lx False = (r, l)" by (cases "lexer_getbasetoken lx False")
  note w = getbasetoken_goes_on [OF g]
  show ?case
  proof (cases r)
    case None
    then show ?thesis using 1(2) g w unfolding parse_string_loop.simps [of lx ref fin]
      by (auto simp: PARSE_WHITESPACE_def split: if_splits)
  next
    case (Some t)
    then show ?thesis using 1 g w unfolding parse_string_loop.simps [of lx ref fin]
      by (fastforce simp: PARSE_WHITESPACE_def Let_def goes_on_def split: if_splits dest: le_trans)
  qed
qed

lemma skip_whitespace_goes_on: "skip_whitespace tok lx = (b, lx') \<Longrightarrow> goes_on lx lx'"
proof (induction tok lx rule: skip_whitespace.induct)
  case (1 tok lx)
  obtain r l where g: "lexer_getbasetoken lx False = (r, l)" by (cases "lexer_getbasetoken lx False")
  note w = getbasetoken_goes_on [OF g]
  show ?case
  proof (cases r)
    case None
    then show ?thesis using 1(2) g w unfolding skip_whitespace.simps [of tok lx]
      by (auto simp: PARSE_WHITESPACE_def split: if_splits)
  next
    case (Some t)
    then show ?thesis using 1 g w unfolding skip_whitespace.simps [of tok lx]
      by (auto simp: PARSE_WHITESPACE_def Let_def goes_on_def split: if_splits)
  qed
qed

lemma skip_comment_goes_on: "skip_comment lx = (b, lx') \<Longrightarrow> goes_on lx lx'"
proof (induction lx rule: skip_comment.induct)
  case (1 lx)
  obtain r l where g: "lexer_getbasetoken lx False = (r, l)" by (cases "lexer_getbasetoken lx False")
  note w = getbasetoken_goes_on [OF g]
  show ?case
  proof (cases r)
    case None
    then show ?thesis using 1(2) g w unfolding skip_comment.simps [of lx]
      by (auto simp: PARSE_WHITESPACE_def split: if_splits)
  next
    case (Some t)
    then show ?thesis using 1 g w unfolding skip_comment.simps [of lx]
      by (auto simp: PARSE_WHITESPACE_def Let_def goes_on_def split: if_splits)
  qed
qed

lemma skip_line_goes_on: "skip_line tok lx = (b, lx') \<Longrightarrow> goes_on lx lx'"
proof (induction tok lx rule: skip_line.induct)
  case (1 tok lx)
  obtain r l where g: "lexer_getbasetoken lx False = (r, l)" by (cases "lexer_getbasetoken lx False")
  note w = getbasetoken_goes_on [OF g]
  show ?case
  proof (cases r)
    case None
    then show ?thesis using 1(2) g w unfolding skip_line.simps [of tok lx]
      by (auto simp: PARSE_WHITESPACE_def split: if_splits)
  next
    case (Some t)
    then show ?thesis using 1 g w unfolding skip_line.simps [of tok lx]
      by (auto simp: PARSE_WHITESPACE_def Let_def goes_on_def split: if_splits)
  qed
qed

lemmas loops_go_on = parse_string_goes_on skip_whitespace_goes_on skip_comment_goes_on
  skip_line_goes_on

function config_parse_section :: "config_item list \<Rightarrow> lexer \<Rightarrow> config_item list \<times> lexer" where
  "config_parse_section items lx =
     (case lexer_getbasetoken lx PARSE_WHITESPACE of
        (None, lx) \<Rightarrow> (items, lx)
      | (Some token, lx) \<Rightarrow>
        (case skip_whitespace token lx of
           (None, lx) \<Rightarrow> (items, lx)
         | (Some token, lx) \<Rightarrow>
             if bt_type token = BASETOKEN_OTHER \<and> tok_char lx token = CHR ''#'' then
               (case skip_comment lx of
                  (False, lx) \<Rightarrow> (items, lx)
                | (True, lx) \<Rightarrow> config_parse_section items lx)
             else if bt_type token = BASETOKEN_OTHER \<and> tok_char lx token = CHR ''['' then
               (items, lx\<lparr>lex_offset := lex_offset lx - 1\<rparr>)
             else case config_parse_string lx (bt_text token) (Some (CHR ''='')) of
               (False, _, lx) \<Rightarrow> config_parse_section items lx
             | (True, name, lx) \<Rightarrow>
                 (case config_parse_string lx strref_clear None of
                    (_, val, lx) \<Rightarrow>
                      config_parse_section
                        (config_add_item items (strref_text (lex_text lx) name) (strref_text (lex_text lx) val)) lx)))"
  by pat_completeness auto
termination
proof (relation "measure (\<lambda>(_, lx). length (lex_text lx) - lex_offset lx)", goal_cases)
  case (2 items lx x l tok x2 l2 tok2 x3 l3)
  then show ?case by (auto simp: PARSE_WHITESPACE_def goes_on_def dest!: loops_go_on [OF sym] getbasetoken_progress [OF sym])
next
  case 3
  then show ?case
    by (auto simp: PARSE_WHITESPACE_def config_parse_string_def goes_on_def
      dest!: loops_go_on [OF sym] getbasetoken_progress [OF sym])
next
  case 4
  then show ?case
    by (auto simp: PARSE_WHITESPACE_def config_parse_string_def goes_on_def
      dest!: loops_go_on [OF sym] getbasetoken_progress [OF sym])
qed simp

declare config_parse_section.simps [simp del]

lemma parse_section_goes_on: "config_parse_section items lx = (its, lx') \<Longrightarrow> goes_on lx lx'"
proof (induction items lx rule: config_parse_section.induct)
  case (1 items lx)
  obtain r l where g: "lexer_getbasetoken lx False = (r, l)" by (cases "lexer_getbasetoken lx False")
  show ?case
  proof (cases r)
    case None
    then show ?thesis using 1(4) g getbasetoken_goes_on [OF g] unfolding config_parse_section.simps [of items lx]
      by (simp add: PARSE_WHITESPACE_def)
  next
    case (Some t)
    obtain r2 l2 where s: "skip_whitespace t l = (r2, l2)" by (cases "skip_whitespace t l")
    have p: "lex_text l = lex_text lx \<and> lex_offset lx < lex_offset l" "goes_on l l2"
      using getbasetoken_progress [of lx t l] g Some skip_whitespace_goes_on [OF s] by simp_all
    then have w: "goes_on lx l2" "goes_on lx (l2\<lparr>lex_offset := lex_offset l2 - 1\<rparr>)"
      by (auto simp: goes_on_def)
    show ?thesis
    proof (cases r2)
      case None
      then show ?thesis using 1(4) g Some s w unfolding config_parse_section.simps [of items lx]
        by (simp add: PARSE_WHITESPACE_def)
    next
      case t2: (Some t2)
      obtain b3 l3 where c: "skip_comment l2 = (b3, l3)" by (cases "skip_comment l2")
      obtain b4 n l4 where n: "parse_string_loop l2 (bt_text t2) (Some (CHR ''='')) = (b4, n, l4)"
        by (cases "parse_string_loop l2 (bt_text t2) (Some (CHR ''=''))")
      obtain b5 v l5 where v: "parse_string_loop l4 strref_clear None = (b5, v, l5)"
        by (cases "parse_string_loop l4 strref_clear None")
      have ws: "goes_on lx l3" "goes_on lx l4" "goes_on lx l5"
        using w(1) skip_comment_goes_on [OF c] parse_string_goes_on [OF n] parse_string_goes_on [OF v]
        by (simp_all add: goes_on_def)
      show ?thesis
        using 1(4) g Some s t2 c n v w ws 1(1) [OF g [folded PARSE_WHITESPACE_def, symmetric] Some s [symmetric] t2]
          1(2) [OF g [folded PARSE_WHITESPACE_def, symmetric] Some s [symmetric] t2]
          1(3) [OF g [folded PARSE_WHITESPACE_def, symmetric] Some s [symmetric] t2]
        unfolding config_parse_section.simps [of items lx]
        by (auto simp: PARSE_WHITESPACE_def config_parse_string_def intro: goes_on_trans split: if_splits bool.splits)
    qed
  qed
qed

text \<open>\<open>skip_line\<close> tests the token that begins the line, \<^verbatim>\<open>[\<close> is the first character of it.\<close>

function parse_config_data :: "config_section list \<Rightarrow> lexer \<Rightarrow> config_section list" where
  "parse_config_data sections lx =
     (case lexer_getbasetoken lx PARSE_WHITESPACE of
        (None, lx) \<Rightarrow> sections
      | (Some token, lx) \<Rightarrow>
        (case skip_whitespace token lx of
           (None, lx) \<Rightarrow> sections
         | (Some token, lx) \<Rightarrow>
             if tok_char lx token \<noteq> CHR ''['' then
               (case skip_line token lx of
                  (False, lx) \<Rightarrow> sections
                | (True, lx) \<Rightarrow> parse_config_data sections lx)
             else (case config_parse_string lx strref_clear (Some (CHR '']'')) of
               (_, section_name, lx) \<Rightarrow>
                 if sr_len section_name = 0 then sections
                 else (case config_parse_section [] lx of
                   (items, lx) \<Rightarrow>
                     parse_config_data
                       (sections @ [\<lparr>cs_name = strref_text (lex_text lx) section_name, cs_items = items\<rparr>]) lx))))"
  by pat_completeness auto
termination
proof (relation "measure (\<lambda>(_, lx). length (lex_text lx) - lex_offset lx)", goal_cases)
  case (2 items lx x l tok x2 l2 tok2 x3 l3)
  then show ?case by (auto simp: PARSE_WHITESPACE_def goes_on_def dest!: loops_go_on [OF sym] getbasetoken_progress [OF sym])
next
  case 3
  then show ?case
    by (auto simp: PARSE_WHITESPACE_def config_parse_string_def goes_on_def
      dest!: loops_go_on [OF sym] parse_section_goes_on [OF sym] getbasetoken_progress [OF sym])
qed simp

declare parse_config_data.simps [simp del]

subsection \<open>Files\<close>

type_synonym files = "string \<Rightarrow> string option"

text \<open>What the operating system allows: which paths can be opened for writing, how many bytes of a
text \<^verbatim>\<open>fwrite\<close> takes, into its buffer or onto the disk, before it fails, how many have reached the
disk when the stream has been closed, and which renames succeed.  What the buffer still holds is lost when
\<^verbatim>\<open>fclose\<close> fails, whose result is not looked at.\<close>

record disk =
  dk_writable :: "string \<Rightarrow> bool"
  dk_accepted :: nat
  dk_flushed :: nat
  dk_rename :: "string \<Rightarrow> string \<Rightarrow> bool"

definition os_file_exists :: "files \<Rightarrow> string \<Rightarrow> bool" where "os_file_exists fs p \<longleftrightarrow> fs p \<noteq> None"

definition rename_file :: "disk \<Rightarrow> files \<Rightarrow> string \<Rightarrow> string \<Rightarrow> files option" where
  "rename_file dk fs a b =
     (if fs a \<noteq> None \<and> dk_rename dk a b then Some (fs(a := None, b := fs a)) else None)"

text \<open>A target \<^verbatim>\<open>NULL\<close> exists nowhere and cannot be renamed to.\<close>

definition os_safe_replace ::
    "disk \<Rightarrow> files \<Rightarrow> string option \<Rightarrow> string \<Rightarrow> string option \<Rightarrow> bool \<times> files" where
  "os_safe_replace dk fs target src backup =
     (case target of
        None \<Rightarrow> (False, fs)
      | Some target \<Rightarrow>
          (let moved = (case backup of
                          Some b \<Rightarrow> if os_file_exists fs target then rename_file dk fs target b else Some fs
                        | None \<Rightarrow> Some fs) in
           case moved of
             None \<Rightarrow> (False, fs)
           | Some fs \<Rightarrow> (case rename_file dk fs src target of None \<Rightarrow> (False, fs) | Some fs \<Rightarrow> (True, fs))))"

definition BOM :: string where "BOM = [CHR 0xEF, CHR 0xBB, CHR 0xBF]"

definition c_string :: "string \<Rightarrow> string" where "c_string s = takeWhile (\<lambda>c. c \<noteq> CHR 0x00) s"

definition os_fread_utf8 :: "string \<Rightarrow> string option" where
  "os_fread_utf8 contents =
     (if contents = [] then None
      else let offset = (if take 3 contents = BOM then 3 else 0) in
        if length contents - offset = 0 then None else Some (drop offset contents))"

definition config_parse_file ::
    "disk \<Rightarrow> files \<Rightarrow> config_section list \<Rightarrow> string \<Rightarrow> bool \<Rightarrow> config_result \<times> config_section list \<times> files" where
  "config_parse_file dk fs sections file always_open =
     (let (f, fs) = (case fs file of
            Some contents \<Rightarrow> (Some contents, fs)
          | None \<Rightarrow> if always_open \<and> dk_writable dk file then (Some [], fs(file := Some [])) else (None, fs)) in
      case f of
        None \<Rightarrow> (CONFIG_FILENOTFOUND, sections, fs)
      | Some contents \<Rightarrow>
          (case os_fread_utf8 contents of
             None \<Rightarrow> (CONFIG_SUCCESS, sections, fs)
           | Some file_data \<Rightarrow> (CONFIG_SUCCESS, parse_config_data sections (lexer_start (c_string file_data)), fs)))"

definition config_create :: "disk \<Rightarrow> files \<Rightarrow> string \<Rightarrow> config_data option \<times> files" where
  "config_create dk fs file =
     (if dk_writable dk file
      then (Some \<lparr>cfg_file = Some file, cfg_sections = [], cfg_defaults = []\<rparr>, fs(file := Some []))
      else (None, fs))"

definition config_open ::
    "disk \<Rightarrow> files \<Rightarrow> string \<Rightarrow> config_open_type \<Rightarrow> config_result \<times> config_data option \<times> files" where
  "config_open dk fs file open_type =
     (let always_open = (open_type = CONFIG_OPEN_ALWAYS);
          (errorcode, sections, fs) = config_parse_file dk fs [] file always_open in
      if errorcode \<noteq> CONFIG_SUCCESS then (errorcode, None, fs)
      else (errorcode, Some \<lparr>cfg_file = Some file, cfg_sections = sections, cfg_defaults = []\<rparr>, fs))"

definition config_open_string :: "string \<Rightarrow> config_data" where
  "config_open_string str =
     \<lparr>cfg_file = None, cfg_sections = parse_config_data [] (lexer_start str), cfg_defaults = []\<rparr>"

definition config_open_defaults ::
    "disk \<Rightarrow> files \<Rightarrow> config_data option \<Rightarrow> string \<Rightarrow> config_result \<times> config_data option \<times> files" where
  "config_open_defaults dk fs config file =
     (case config of
        None \<Rightarrow> (CONFIG_ERROR, None, fs)
      | Some config \<Rightarrow>
          (let (r, defaults, fs) = config_parse_file dk fs (cfg_defaults config) file False in
           (r, Some (config\<lparr>cfg_defaults := defaults\<rparr>), fs)))"

subsection \<open>Writing a configuration\<close>

text \<open>\<^verbatim>\<open>tmp.array\<close> as an argument.\<close>

definition ds_text :: "dstr \<Rightarrow> string option option" where
  "ds_text d = (if ds_array d = [] then Some None else map_option Some (c_str (ds_array d)))"

definition escape_value :: "dstr \<Rightarrow> string \<Rightarrow> dstr option" where
  "escape_value tmp v = do {
     tmp \<leftarrow> dstr_copy tmp (Some v);
     tmp \<leftarrow> dstr_replace tmp [CHR 0x5C] (Some [CHR 0x5C, CHR 0x5C]);
     tmp \<leftarrow> dstr_replace tmp [CHR 0x0D] (Some [CHR 0x5C, CHR ''r'']);
     dstr_replace tmp [CHR 0x0A] (Some [CHR 0x5C, CHR ''n'']) }"

fun save_items :: "config_item list \<Rightarrow> dstr \<Rightarrow> dstr \<Rightarrow> (dstr \<times> dstr) option" where
  "save_items [] str tmp = Some (str, tmp)"
| "save_items (item # items) str tmp = do {
     tmp \<leftarrow> escape_value tmp (ci_value item);
     str \<leftarrow> dstr_cat str (Some (ci_name item));
     str \<leftarrow> dstr_cat str (Some ''='');
     t \<leftarrow> ds_text tmp;
     str \<leftarrow> dstr_cat str t;
     str \<leftarrow> dstr_cat str (Some [CHR 0x0A]);
     save_items items str tmp }"

fun save_sections :: "nat \<Rightarrow> config_section list \<Rightarrow> dstr \<Rightarrow> dstr \<Rightarrow> (dstr \<times> dstr) option" where
  "save_sections idx [] str tmp = Some (str, tmp)"
| "save_sections idx (section # sections) str tmp = do {
     str \<leftarrow> (if idx \<noteq> 0 then dstr_cat str (Some [CHR 0x0A]) else Some str);
     str \<leftarrow> dstr_cat str (Some ''['');
     str \<leftarrow> dstr_cat str (Some (cs_name section));
     str \<leftarrow> dstr_cat str (Some ('']'' @ [CHR 0x0A]));
     (str, tmp) \<leftarrow> save_items (cs_items section) str tmp;
     save_sections (idx + 1) sections str tmp }"

text \<open>\<^verbatim>\<open>fwrite\<close> of one element of size 0 returns 0.\<close>

definition config_save :: "disk \<Rightarrow> files \<Rightarrow> config_data \<Rightarrow> (config_result \<times> files) option" where
  "config_save dk fs config =
     (case cfg_file config of
        None \<Rightarrow> Some (CONFIG_ERROR, fs)
      | Some file \<Rightarrow>
          if \<not> dk_writable dk file then Some (CONFIG_FILENOTFOUND, fs)
          else do {
            (str, tmp) \<leftarrow> save_sections 0 (cfg_sections config) dstr_init dstr_init;
            xs \<leftarrow> mem_read (ds_array str) 0 (ds_len str);
            bytes \<leftarrow> those xs;
            Some (if ds_len str \<noteq> 0 \<and> ds_len str \<le> dk_accepted dk then CONFIG_SUCCESS else CONFIG_ERROR,
                  fs(file := Some (take (dk_flushed dk) (take (dk_accepted dk) bytes)))) })"

text \<open>Copying \<^verbatim>\<open>NULL\<close> into a string leaves it empty.\<close>

definition add_ext :: "string option \<Rightarrow> string \<Rightarrow> string" where
  "add_ext file ext =
     (case file of Some f \<Rightarrow> f | None \<Rightarrow> []) @ (if hd ext \<noteq> CHR ''.'' then ''.'' else []) @ ext"

definition config_save_safe ::
    "disk \<Rightarrow> files \<Rightarrow> config_data \<Rightarrow> string \<Rightarrow> string option \<Rightarrow> (config_result \<times> files \<times> config_data) option" where
  "config_save_safe dk fs config temp_ext backup_ext =
     (let file = cfg_file config in
      if temp_ext = [] then Some (CONFIG_ERROR, fs, config)
      else do {
        let temp_file = add_ext file temp_ext;
        let config = config\<lparr>cfg_file := Some temp_file\<rparr>;
        (ret, fs) \<leftarrow> config_save dk fs config;
        let config = config\<lparr>cfg_file := file\<rparr>;
        if ret \<noteq> CONFIG_SUCCESS then Some (ret, fs, config)
        else do {
          let backup_file = (case backup_ext of
            Some b \<Rightarrow> if b \<noteq> [] then Some (add_ext file b) else None | None \<Rightarrow> None);
          let (ok, fs) = os_safe_replace dk fs file temp_file backup_file;
          Some (if \<not> ok then CONFIG_ERROR else ret, fs, config) } })"

subsection \<open>Numbers as text\<close>

definition dec_char :: "nat \<Rightarrow> char" where "dec_char d = char_of (48 + d)"

fun nat_text :: "nat \<Rightarrow> string" where
  "nat_text n = (if n < 10 then [dec_char n] else nat_text (n div 10) @ [dec_char (n mod 10)])"

declare nat_text.simps [simp del]

text \<open>The formats \<^verbatim>\<open>PRIu64\<close> and \<^verbatim>\<open>PRId64\<close>.\<close>

definition uint64_text :: "64 word \<Rightarrow> string" where "uint64_text v = nat_text (unat v)"

definition int64_text :: "64 word \<Rightarrow> string" where
  "int64_text v = (if sint v < 0 then ''-'' @ nat_text (nat (- sint v)) else nat_text (nat (sint v)))"

definition digit_value :: "nat \<Rightarrow> char \<Rightarrow> nat option" where
  "digit_value base c =
     (let n = of_char c :: nat;
          v = (if 48 \<le> n \<and> n \<le> 57 then Some (n - 48)
               else if 97 \<le> n \<and> n \<le> 122 then Some (n - 87)
               else if 65 \<le> n \<and> n \<le> 90 then Some (n - 55) else None) in
      case v of Some d \<Rightarrow> if d < base then Some d else None | None \<Rightarrow> None)"

fun digits_value :: "nat \<Rightarrow> string \<Rightarrow> nat \<Rightarrow> nat" where
  "digits_value base [] acc = acc"
| "digits_value base (c # s) acc =
     (case digit_value base c of Some d \<Rightarrow> digits_value base s (acc * base + d) | None \<Rightarrow> acc)"

definition isspace :: "char \<Rightarrow> bool" where
  "isspace c \<longleftrightarrow> c = CHR '' '' \<or> (9 \<le> (of_char c :: nat) \<and> (of_char c :: nat) \<le> 13)"

text \<open>What \<^verbatim>\<open>strtoll\<close> and \<^verbatim>\<open>strtoull\<close> read: sign and magnitude.
In base 16 a second \<^verbatim>\<open>0x\<close> is skipped when a digit follows.\<close>

definition scan_number :: "nat \<Rightarrow> string \<Rightarrow> bool \<times> nat" where
  "scan_number base s =
     (let s = dropWhile isspace s;
          neg = (char_at s 0 = CHR ''-'');
          s = (if neg \<or> char_at s 0 = CHR ''+'' then tl s else s);
          s = (if base = 16 \<and> char_at s 0 = CHR ''0'' \<and> (char_at s 1 = CHR ''x'' \<or> char_at s 1 = CHR ''X'') \<and>
                  digit_value 16 (char_at s 2) \<noteq> None then drop 2 s else s) in
      (neg, digits_value base s 0))"

definition strtoll :: "string \<Rightarrow> nat \<Rightarrow> 64 word" where
  "strtoll s base =
     (let (neg, m) = scan_number base s; v = (if neg then - int m else int m) in
      word_of_int (if v < - (2 ^ 63) then - (2 ^ 63) else if v > 2 ^ 63 - 1 then 2 ^ 63 - 1 else v))"

definition strtoull :: "string \<Rightarrow> nat \<Rightarrow> 64 word" where
  "strtoull s base =
     (let (neg, m) = scan_number base s in
      if m > 2 ^ 64 - 1 then word_of_nat (2 ^ 64 - 1)
      else if neg then - word_of_nat m else word_of_nat m)"

definition str_to_int64 :: "string \<Rightarrow> 64 word" where
  "str_to_int64 str =
     (if str = [] then 0
      else if char_at str 0 = CHR ''0'' \<and> char_at str 1 = CHR ''x'' then strtoll (drop 2 str) 16
      else strtoll str 10)"

definition str_to_uint64 :: "string \<Rightarrow> 64 word" where
  "str_to_uint64 str =
     (if str = [] then 0
      else if char_at str 0 = CHR ''0'' \<and> char_at str 1 = CHR ''x'' then strtoull (drop 2 str) 16
      else strtoull str 10)"

subsection \<open>Items\<close>

definition config_num_sections :: "config_data \<Rightarrow> nat" where
  "config_num_sections config = length (cfg_sections config)"

definition config_get_section :: "config_data \<Rightarrow> nat \<Rightarrow> string option" where
  "config_get_section config idx =
     (if idx \<ge> config_num_sections config then None else Some (cs_name (cfg_sections config ! idx)))"

definition config_find_item :: "config_section list \<Rightarrow> string \<Rightarrow> string \<Rightarrow> config_item option" where
  "config_find_item sections section name =
     (case hash_find cs_name section sections of
        None \<Rightarrow> None
      | Some sec \<Rightarrow> hash_find ci_name name (cs_items sec))"

definition config_set_item :: "config_section list \<Rightarrow> string \<Rightarrow> string \<Rightarrow> string \<Rightarrow> config_section list" where
  "config_set_item sections section name val =
     (let sections = (case hash_find cs_name section sections of
            None \<Rightarrow> sections @ [\<lparr>cs_name = section, cs_items = []\<rparr>]
          | Some sec \<Rightarrow> sections) in
      hash_update cs_name section
        (\<lambda>sec. case hash_find ci_name name (cs_items sec) of
            None \<Rightarrow> sec\<lparr>cs_items := cs_items sec @ [\<lparr>ci_name = name, ci_value = val\<rparr>]\<rparr>
          | Some item \<Rightarrow> sec\<lparr>cs_items := hash_update ci_name name (\<lambda>it. it\<lparr>ci_value := val\<rparr>) (cs_items sec)\<rparr>)
        sections)"

definition config_has_user_value :: "config_data \<Rightarrow> string \<Rightarrow> string \<Rightarrow> bool" where
  "config_has_user_value config section name \<longleftrightarrow> config_find_item (cfg_sections config) section name \<noteq> None"

definition config_has_default_value :: "config_data \<Rightarrow> string \<Rightarrow> string \<Rightarrow> bool" where
  "config_has_default_value config section name \<longleftrightarrow> config_find_item (cfg_defaults config) section name \<noteq> None"

definition config_set_item_default :: "config_data \<Rightarrow> string \<Rightarrow> string \<Rightarrow> string \<Rightarrow> config_data" where
  "config_set_item_default config section name val =
     (let config = config\<lparr>cfg_defaults := config_set_item (cfg_defaults config) section name val\<rparr> in
      if \<not> config_has_user_value config section name
      then config\<lparr>cfg_sections := config_set_item (cfg_sections config) section name val\<rparr>
      else config)"

definition config_set_user :: "config_data \<Rightarrow> string \<Rightarrow> string \<Rightarrow> string \<Rightarrow> config_data" where
  "config_set_user config section name val =
     config\<lparr>cfg_sections := config_set_item (cfg_sections config) section name val\<rparr>"

definition config_set_string :: "config_data \<Rightarrow> string \<Rightarrow> string \<Rightarrow> string option \<Rightarrow> config_data" where
  "config_set_string config section name val =
     config_set_user config section name (case val of None \<Rightarrow> [] | Some v \<Rightarrow> v)"

definition config_set_int :: "config_data \<Rightarrow> string \<Rightarrow> string \<Rightarrow> 64 word \<Rightarrow> config_data" where
  "config_set_int config section name val = config_set_user config section name (int64_text val)"

definition config_set_uint :: "config_data \<Rightarrow> string \<Rightarrow> string \<Rightarrow> 64 word \<Rightarrow> config_data" where
  "config_set_uint config section name val = config_set_user config section name (uint64_text val)"

definition bool_text :: "bool \<Rightarrow> string" where "bool_text b = (if b then ''true'' else ''false'')"

definition config_set_bool :: "config_data \<Rightarrow> string \<Rightarrow> string \<Rightarrow> bool \<Rightarrow> config_data" where
  "config_set_bool config section name val = config_set_user config section name (bool_text val)"

definition config_set_default_string :: "config_data \<Rightarrow> string \<Rightarrow> string \<Rightarrow> string option \<Rightarrow> config_data" where
  "config_set_default_string config section name val =
     config_set_item_default config section name (case val of None \<Rightarrow> [] | Some v \<Rightarrow> v)"

definition config_set_default_int :: "config_data \<Rightarrow> string \<Rightarrow> string \<Rightarrow> 64 word \<Rightarrow> config_data" where
  "config_set_default_int config section name val = config_set_item_default config section name (int64_text val)"

definition config_set_default_uint :: "config_data \<Rightarrow> string \<Rightarrow> string \<Rightarrow> 64 word \<Rightarrow> config_data" where
  "config_set_default_uint config section name val = config_set_item_default config section name (uint64_text val)"

definition config_set_default_bool :: "config_data \<Rightarrow> string \<Rightarrow> string \<Rightarrow> bool \<Rightarrow> config_data" where
  "config_set_default_bool config section name val = config_set_item_default config section name (bool_text val)"

definition config_get_string :: "config_data \<Rightarrow> string \<Rightarrow> string \<Rightarrow> string option" where
  "config_get_string config section name =
     (let item = config_find_item (cfg_sections config) section name;
          item = (if item = None then config_find_item (cfg_defaults config) section name else item) in
      map_option ci_value item)"

definition value_bool :: "string \<Rightarrow> bool" where
  "value_bool val \<longleftrightarrow> astrcmpi val ''true'' = 0 \<or> str_to_uint64 val \<noteq> 0"

definition config_get_int :: "config_data \<Rightarrow> string \<Rightarrow> string \<Rightarrow> 64 word" where
  "config_get_int config section name =
     (case config_get_string config section name of Some v \<Rightarrow> str_to_int64 v | None \<Rightarrow> 0)"

definition config_get_uint :: "config_data \<Rightarrow> string \<Rightarrow> string \<Rightarrow> 64 word" where
  "config_get_uint config section name =
     (case config_get_string config section name of Some v \<Rightarrow> str_to_uint64 v | None \<Rightarrow> 0)"

definition config_get_bool :: "config_data \<Rightarrow> string \<Rightarrow> string \<Rightarrow> bool" where
  "config_get_bool config section name =
     (case config_get_string config section name of Some v \<Rightarrow> value_bool v | None \<Rightarrow> False)"

definition config_remove_value :: "config_data \<Rightarrow> string \<Rightarrow> string \<Rightarrow> bool \<times> config_data" where
  "config_remove_value config section name =
     (case hash_find cs_name section (cfg_sections config) of
        None \<Rightarrow> (False, config)
      | Some sec \<Rightarrow>
          (case hash_find ci_name name (cs_items sec) of
             None \<Rightarrow> (False, config)
           | Some item \<Rightarrow>
               (True, config\<lparr>cfg_sections := hash_update cs_name section
                  (\<lambda>sec. sec\<lparr>cs_items := hash_delete ci_name name (cs_items sec)\<rparr>) (cfg_sections config)\<rparr>)))"

definition config_get_default_string :: "config_data \<Rightarrow> string \<Rightarrow> string \<Rightarrow> string option" where
  "config_get_default_string config section name =
     map_option ci_value (config_find_item (cfg_defaults config) section name)"

definition config_get_default_int :: "config_data \<Rightarrow> string \<Rightarrow> string \<Rightarrow> 64 word" where
  "config_get_default_int config section name =
     (case config_get_default_string config section name of Some v \<Rightarrow> str_to_int64 v | None \<Rightarrow> 0)"

definition config_get_default_uint :: "config_data \<Rightarrow> string \<Rightarrow> string \<Rightarrow> 64 word" where
  "config_get_default_uint config section name =
     (case config_get_default_string config section name of Some v \<Rightarrow> str_to_uint64 v | None \<Rightarrow> 0)"

definition config_get_default_bool :: "config_data \<Rightarrow> string \<Rightarrow> string \<Rightarrow> bool" where
  "config_get_default_bool config section name =
     (case config_get_default_string config section name of Some v \<Rightarrow> value_bool v | None \<Rightarrow> False)"

subsection \<open>Tables\<close>

lemma hash_find_Nil [simp]: "hash_find key k [] = None" by (simp add: hash_find_def)

lemma hash_find_snoc: "hash_find key k (xs @ [x]) = (if key x = k then Some x else hash_find key k xs)"
  by (simp add: hash_find_def)

lemma hash_find_Cons:
  "hash_find key k (x # xs) =
     (case hash_find key k xs of Some y \<Rightarrow> Some y | None \<Rightarrow> if key x = k then Some x else None)"
proof -
  have "find P (xs @ ys) = (case find P xs of Some y \<Rightarrow> Some y | None \<Rightarrow> find P ys)" for P and xs ys :: "'a list"
    by (induction xs) auto
  then show ?thesis by (simp add: hash_find_def split: option.splits)
qed

lemma hash_find_key: "hash_find key k xs = Some x \<Longrightarrow> key x = k \<and> x \<in> set xs"
  by (induction xs) (auto simp: hash_find_Cons split: option.splits if_splits)

lemma hash_find_None_iff: "hash_find key k xs = None \<longleftrightarrow> k \<notin> key ` set xs"
  by (induction xs) (auto simp: hash_find_Cons split: option.splits)

lemma hash_update_keys:
  assumes "\<And>x. key (f x) = key x"
  shows "map key (hash_update key k f xs) = map key xs"
  by (induction xs) (auto simp: assms)

lemma hash_find_update:
  assumes "\<And>x. key (f x) = key x"
  shows "hash_find key k' (hash_update key k f xs) =
    (if k' = k then map_option f (hash_find key k xs) else hash_find key k' xs)"
proof (induction xs)
  case (Cons x xs)
  then show ?case by (auto simp: hash_find_Cons assms split: option.splits)
qed simp

lemma hash_delete_filter: "distinct (map key xs) \<Longrightarrow> hash_delete key k xs = filter (\<lambda>x. key x \<noteq> k) xs"
proof (induction xs)
  case (Cons x xs)
  have "k \<notin> key ` set xs \<Longrightarrow> filter (\<lambda>x. key x \<noteq> k) xs = xs" by (auto simp: filter_id_conv)
  then show ?case using Cons by (auto simp: hash_find_None_iff)
qed simp

lemma hash_find_filter:
  "hash_find key k' (filter (\<lambda>x. key x \<noteq> k) xs) = (if k' = k then None else hash_find key k' xs)"
  by (induction xs) (auto simp: hash_find_Cons split: option.splits)

lemma hash_update_set: "set (hash_update key k f xs) \<subseteq> set xs \<union> f ` set xs"
  by (induction xs) auto

subsection \<open>The contents as a map\<close>

text \<open>Every section has its own name and so has every item of a section.\<close>

definition wf_sections :: "config_section list \<Rightarrow> bool" where
  "wf_sections secs \<longleftrightarrow> distinct (map cs_name secs) \<and> (\<forall>sec\<in>set secs. distinct (map ci_name (cs_items sec)))"

definition lookup :: "config_section list \<Rightarrow> string \<times> string \<Rightarrow> string option" where
  "lookup secs k = map_option ci_value (config_find_item secs (fst k) (snd k))"

lemma find_set_item:
  "config_find_item (config_set_item secs s n v) s' n' =
     (if s' = s \<and> n' = n then Some \<lparr>ci_name = n, ci_value = v\<rparr> else config_find_item secs s' n')"
proof -
  let ?upd = "\<lambda>sec. case hash_find ci_name n (cs_items sec) of
      None \<Rightarrow> sec\<lparr>cs_items := cs_items sec @ [\<lparr>ci_name = n, ci_value = v\<rparr>]\<rparr>
    | Some item \<Rightarrow> sec\<lparr>cs_items := hash_update ci_name n (\<lambda>it. it\<lparr>ci_value := v\<rparr>) (cs_items sec)\<rparr>"
  have k: "cs_name (?upd sec) = cs_name sec" for sec by (simp split: option.splits)
  have n: "hash_find cs_name s' (case hash_find cs_name s secs of None \<Rightarrow> secs @ [\<lparr>cs_name = s, cs_items = []\<rparr>] | Some sec \<Rightarrow> secs) =
      (if s' = s \<and> hash_find cs_name s secs = None then Some \<lparr>cs_name = s, cs_items = []\<rparr> else hash_find cs_name s' secs)" for s'
    by (auto simp: hash_find_snoc split: option.splits)
  have f: "hash_find cs_name s' (config_set_item secs s n v) =
      (if s' = s then Some (?upd (case hash_find cs_name s secs of None \<Rightarrow> \<lparr>cs_name = s, cs_items = []\<rparr> | Some sec \<Rightarrow> sec))
       else hash_find cs_name s' secs)"
    unfolding config_set_item_def Let_def hash_find_update [where key = cs_name and f = ?upd, OF k] n
    by (auto split: option.splits)
  show ?thesis
    by (auto simp: config_find_item_def f hash_find_snoc hash_find_update hash_find_Cons split: option.splits
      dest!: hash_find_key)
qed

lemma hash_find_None_notin: "hash_find key k xs = None \<Longrightarrow> x \<in> set xs \<Longrightarrow> key x \<noteq> k"
  by (auto simp: hash_find_None_iff)

lemma set_item_wf:
  assumes "wf_sections secs"
  shows "wf_sections (config_set_item secs s n v)"
proof -
  let ?upd = "\<lambda>sec. case hash_find ci_name n (cs_items sec) of
      None \<Rightarrow> sec\<lparr>cs_items := cs_items sec @ [\<lparr>ci_name = n, ci_value = v\<rparr>]\<rparr>
    | Some item \<Rightarrow> sec\<lparr>cs_items := hash_update ci_name n (\<lambda>it. it\<lparr>ci_value := v\<rparr>) (cs_items sec)\<rparr>"
  let ?secs = "case hash_find cs_name s secs of None \<Rightarrow> secs @ [\<lparr>cs_name = s, cs_items = []\<rparr>] | Some sec \<Rightarrow> secs"
  have k: "cs_name (?upd sec) = cs_name sec" for sec by (simp split: option.splits)
  have d: "distinct (map ci_name (cs_items (?upd sec)))" if "distinct (map ci_name (cs_items sec))" for sec
    using that by (auto simp: hash_update_keys dest: hash_find_None_notin split: option.splits)
  have w: "wf_sections ?secs"
    using assms by (auto simp: wf_sections_def dest: hash_find_None_notin split: option.splits)
  have "distinct (map cs_name (config_set_item secs s n v))"
    using w unfolding config_set_item_def Let_def hash_update_keys [where key = cs_name and f = ?upd, OF k]
    by (simp add: wf_sections_def)
  moreover have "set (config_set_item secs s n v) \<subseteq> set ?secs \<union> ?upd ` set ?secs"
    unfolding config_set_item_def Let_def by (rule hash_update_set)
  ultimately show ?thesis using w d unfolding wf_sections_def by blast
qed

lemma lookup_set: "lookup (config_set_item secs s n v) = (lookup secs)((s, n) \<mapsto> v)"
  by (rule ext) (auto simp: lookup_def find_set_item)

lemma remove_value_wf:
  assumes "wf_sections (cfg_sections c)" "config_remove_value c s n = (b, c')"
  shows "wf_sections (cfg_sections c') \<and> cfg_defaults c' = cfg_defaults c \<and> cfg_file c' = cfg_file c"
proof -
  let ?f = "\<lambda>sec. sec\<lparr>cs_items := hash_delete ci_name n (cs_items sec)\<rparr>"
  have k: "cs_name (?f sec) = cs_name sec" for sec by simp
  have d: "distinct (map ci_name (cs_items (?f sec)))" if "distinct (map ci_name (cs_items sec))" for sec
    using that by (simp add: hash_delete_filter distinct_map_filter)
  have "wf_sections (hash_update cs_name s ?f (cfg_sections c))"
    using assms(1) hash_update_set [of cs_name s ?f "cfg_sections c"] d
    unfolding wf_sections_def hash_update_keys [where key = cs_name and f = ?f, OF k] by blast
  then show ?thesis using assms by (auto simp: config_remove_value_def split: option.splits)
qed

lemma remove_value_lookup:
  assumes "wf_sections (cfg_sections c)" "config_remove_value c s n = (b, c')"
  shows "lookup (cfg_sections c') = (lookup (cfg_sections c))((s, n) := None) \<and>
    (b \<longleftrightarrow> lookup (cfg_sections c) (s, n) \<noteq> None)"
proof -
  have d: "distinct (map ci_name (cs_items sec))" if "hash_find cs_name s' (cfg_sections c) = Some sec" for s' sec
    using assms(1) hash_find_key [OF that] by (simp add: wf_sections_def)
  have "lookup (cfg_sections c') = (lookup (cfg_sections c))((s, n) := None)"
    using assms(2)
    by (intro ext) (auto simp: config_remove_value_def lookup_def config_find_item_def hash_find_update
      hash_delete_filter [OF d] hash_find_filter split: option.splits if_splits)
  then show ?thesis
    using assms(2) by (auto simp: config_remove_value_def lookup_def config_find_item_def split: option.splits)
qed

text \<open>What the operations mean: a configuration is a map of the values that were set and a map of defaults.\<close>

datatype config_op =
    Set_Value string string string
  | Set_Default string string string
  | Remove string string

fun apply_op :: "config_data \<Rightarrow> config_op \<Rightarrow> config_data" where
  "apply_op c (Set_Value s n v) = config_set_string c s n (Some v)"
| "apply_op c (Set_Default s n v) = config_set_default_string c s n (Some v)"
| "apply_op c (Remove s n) = snd (config_remove_value c s n)"

type_synonym config_map = "string \<times> string \<Rightarrow> string option"

fun spec_op :: "config_map \<times> config_map \<Rightarrow> config_op \<Rightarrow> config_map \<times> config_map" where
  "spec_op (u, d) (Set_Value s n v) = (u((s, n) \<mapsto> v), d)"
| "spec_op (u, d) (Set_Default s n v) =
     (if u (s, n) = None then u((s, n) \<mapsto> v) else u, d((s, n) \<mapsto> v))"
| "spec_op (u, d) (Remove s n) = (u((s, n) := None), d)"

definition config_abs :: "config_data \<Rightarrow> config_map \<times> config_map" where
  "config_abs c = (lookup (cfg_sections c), lookup (cfg_defaults c))"

definition wf_config :: "config_data \<Rightarrow> bool" where
  "wf_config c \<longleftrightarrow> wf_sections (cfg_sections c) \<and> wf_sections (cfg_defaults c)"

lemma has_user_value_lookup: "config_has_user_value c s n \<longleftrightarrow> lookup (cfg_sections c) (s, n) \<noteq> None"
  by (simp add: config_has_user_value_def lookup_def)

lemma apply_op_refines:
  assumes "wf_config c"
  shows "wf_config (apply_op c op) \<and> config_abs (apply_op c op) = spec_op (config_abs c) op"
proof (cases op)
  case (Remove s n)
  obtain b c' where r: "config_remove_value c s n = (b, c')" by (cases "config_remove_value c s n")
  show ?thesis
    using assms remove_value_wf [OF _ r] remove_value_lookup [OF _ r] r
    by (simp add: Remove wf_config_def config_abs_def)
qed (use assms in \<open>auto simp: wf_config_def config_abs_def config_set_string_def config_set_user_def
      config_set_default_string_def config_set_item_default_def has_user_value_lookup Let_def set_item_wf lookup_set\<close>)

text \<open>C20: A configuration is two maps, of values and of defaults, and after any sequence of setting values,
setting defaults and removing values they are what the operations say one by one.  Setting a default
stores it as the default, and also as a value when there is none, so a later default does not
change what is read.  \<^verbatim>\<open>config_get_string\<close> returns the value, or else the default;
\<^verbatim>\<open>config_has_user_value\<close> and \<^verbatim>\<open>config_has_default_value\<close> are true for exactly
what is in the first and the second map, and \<^verbatim>\<open>config_get_default_string\<close> reads the second.  That a
default counts as a user value is not what the documentation says.\<close>
theorem config_refines_maps:
  assumes "wf_config c"
  shows "wf_config (foldl apply_op c ops) \<and>
    config_abs (foldl apply_op c ops) = foldl spec_op (config_abs c) ops \<and>
    (let c' = foldl apply_op c ops; (u, d) = foldl spec_op (config_abs c) ops in
      config_get_string c' s n = (case u (s, n) of Some v \<Rightarrow> Some v | None \<Rightarrow> d (s, n)) \<and>
      config_get_default_string c' s n = d (s, n) \<and>
      (config_has_user_value c' s n \<longleftrightarrow> u (s, n) \<noteq> None) \<and> (config_has_default_value c' s n \<longleftrightarrow> d (s, n) \<noteq> None))"
proof -
  have w: "wf_config (foldl apply_op c ops) \<and> config_abs (foldl apply_op c ops) = foldl spec_op (config_abs c) ops"
    using assms by (induction ops arbitrary: c) (simp_all add: apply_op_refines)
  have "config_get_string c' s n =
      (case lookup (cfg_sections c') (s, n) of Some v \<Rightarrow> Some v | None \<Rightarrow> lookup (cfg_defaults c') (s, n))" for c'
    by (auto simp: config_get_string_def lookup_def Let_def split: option.splits)
  moreover have "config_get_default_string c' s n = lookup (cfg_defaults c') (s, n)"
    "config_has_default_value c' s n \<longleftrightarrow> lookup (cfg_defaults c') (s, n) \<noteq> None" for c'
    by (simp_all add: config_get_default_string_def config_has_default_value_def lookup_def)
  ultimately show ?thesis using w by (auto simp: config_abs_def has_user_value_lookup Let_def split: prod.splits)
qed

text \<open>A default that is set where there is neither value nor default is a user value from then on, and hides
the defaults that are set later.\<close>
lemma default_becomes_value:
  assumes "wf_config c" "\<not> config_has_user_value c s n"
  shows "config_has_user_value (apply_op c (Set_Default s n v)) s n"
    and "config_get_string (foldl apply_op c [Set_Default s n v, Set_Default s n w]) s n = Some v"
proof -
  obtain u d where c: "config_abs c = (u, d)" "u (s, n) = None"
    using assms(2) by (auto simp: config_abs_def has_user_value_lookup)
  show "config_has_user_value (apply_op c (Set_Default s n v)) s n"
    using apply_op_refines [OF assms(1), of "Set_Default s n v"] c by (auto simp: config_abs_def has_user_value_lookup)
  let ?c = "foldl apply_op c [Set_Default s n v, Set_Default s n w]"
  have "wf_config (apply_op c (Set_Default s n v))"
    and a: "config_abs (apply_op c (Set_Default s n v)) = (u((s, n) \<mapsto> v), d((s, n) \<mapsto> v))"
    using apply_op_refines [OF assms(1), of "Set_Default s n v"] c by auto
  from apply_op_refines [OF this(1), of "Set_Default s n w"]
  have "config_abs ?c = spec_op (u((s, n) \<mapsto> v), d((s, n) \<mapsto> v)) (Set_Default s n w)" unfolding a by simp
  then have "lookup (cfg_sections ?c) (s, n) = Some v" by (simp add: config_abs_def)
  then show "config_get_string ?c s n = Some v"
    by (auto simp: config_get_string_def lookup_def Let_def split: option.splits)
qed

lemma config_refines_maps_witness:
  "config_get_string (foldl apply_op (config_open_string [])
     [Set_Default ''a'' ''x'' ''1'', Set_Value ''a'' ''x'' ''2'', Remove ''a'' ''x'']) ''a'' ''x'' = Some ''1''"
proof -
  have w: "wf_config (config_open_string [])" by code_simp
  have e: "config_abs (config_open_string []) = (\<lambda>_. None, \<lambda>_. None)"
    by (rule prod_eqI; rule ext)
      (simp_all add: config_abs_def config_open_string_def lookup_def config_find_item_def
        parse_config_data.simps [of "[]"] lexer_start_def getbasetoken_spec PARSE_WHITESPACE_def)
  show ?thesis
    using config_refines_maps [OF w, of "[Set_Default ''a'' ''x'' ''1'', Set_Value ''a'' ''x'' ''2'', Remove ''a'' ''x'']"
      "''a''" "''x''"] by (simp add: e Let_def)
qed

subsection \<open>Escaping\<close>

lemma replace_char: "replace_all [p] rep s = concat (map (\<lambda>c. if c = p then rep else [c]) s)"
proof (induction s)
  case (Cons c s)
  then show ?case using replace_hit [of "[p]" "c # s" rep] replace_miss [of "[p]" "c # s" rep] by (cases "c = p") auto
qed (simp add: replace_stop)

definition escape_char :: "char \<Rightarrow> string" where
  "escape_char c =
     (if c = CHR 0x5C then [CHR 0x5C, CHR 0x5C]
      else if c = CHR 0x0D then [CHR 0x5C, CHR ''r'']
      else if c = CHR 0x0A then [CHR 0x5C, CHR ''n'']
      else [c])"

definition escape :: "string \<Rightarrow> string" where "escape v = concat (map escape_char v)"

lemma escape_escape:
  "replace_all [CHR 0x0A] [CHR 0x5C, CHR ''n''] (replace_all [CHR 0x0D] [CHR 0x5C, CHR ''r'']
     (replace_all [CHR 0x5C] [CHR 0x5C, CHR 0x5C] v)) = escape v"
  unfolding replace_char by (induction v) (simp_all add: escape_def escape_char_def)

lemma escape_value_rep:
  assumes "ds_rep tmp t" "no_zero v"
  shows "\<exists>tmp'. escape_value tmp v = Some tmp' \<and> ds_rep tmp' (escape v)"
proof -
  obtain d0 where 0: "dstr_copy tmp (Some v) = Some d0" "ds_rep d0 v" using copy_rep [OF assms] by blast
  obtain d1 where 1: "dstr_replace d0 [CHR 0x5C] (Some [CHR 0x5C, CHR 0x5C]) = Some d1"
      "ds_rep d1 (replace_all [CHR 0x5C] [CHR 0x5C, CHR 0x5C] v)"
    using replace_rep [OF 0(2), of "[CHR 0x5C]" "Some [CHR 0x5C, CHR 0x5C]"] by (auto simp: or_blank_def)
  obtain d2 where 2: "dstr_replace d1 [CHR 0x0D] (Some [CHR 0x5C, CHR ''r'']) = Some d2"
      "ds_rep d2 (replace_all [CHR 0x0D] [CHR 0x5C, CHR ''r''] (replace_all [CHR 0x5C] [CHR 0x5C, CHR 0x5C] v))"
    using replace_rep [OF 1(2), of "[CHR 0x0D]" "Some [CHR 0x5C, CHR ''r'']"] by (auto simp: or_blank_def)
  show ?thesis
    using 0(1) 1(1) 2(1) replace_rep [OF 2(2), of "[CHR 0x0A]" "Some [CHR 0x5C, CHR ''n'']"]
    by (simp add: escape_value_def or_blank_def escape_escape)
qed

lemma unescape_escape: "unescape (escape v) = v"
  by (induction v) (simp_all add: escape_def escape_char_def)

lemma escape_newline: "c \<in> set (escape v) \<Longrightarrow> \<not> is_newline c"
  by (induction v) (auto simp: escape_def escape_char_def is_newline_def split: if_splits)

lemma escape_zero: "no_zero v \<Longrightarrow> no_zero (escape v)"
  by (induction v) (simp_all add: escape_def escape_char_def)

lemma escape_empty: "escape v = [] \<longleftrightarrow> v = []"
  by (cases v) (simp_all add: escape_def escape_char_def)

subsection \<open>Reading what was written\<close>

definition stops :: "char option \<Rightarrow> char \<Rightarrow> bool" where "stops fin c \<longleftrightarrow> fin = Some c \<or> is_newline c"

text \<open>The terminators that are used are single tokens.\<close>

definition fin_ok :: "char option \<Rightarrow> bool" where
  "fin_ok fin \<longleftrightarrow> (case fin of None \<Rightarrow> True | Some c \<Rightarrow> get_char_token_type c = BASETOKEN_OTHER)"

lemma fin_ok_simps [simp]: "fin_ok None" "fin_ok (Some (CHR ''=''))" "fin_ok (Some (CHR '']''))"
  by (simp add: fin_ok_def) code_simp+

lemma newline_class: "is_newline c \<Longrightarrow> get_char_token_type c = BASETOKEN_WHITESPACE"
  by (auto simp: is_newline_def get_char_token_type_def is_whitespace_def)

lemma token_not_stop:
  assumes "fin_ok fin" "cs \<noteq> []" "\<not> stops fin (hd cs)"
  shows "list_all (\<lambda>c. \<not> stops fin c) (take (token_len cs) cs)"
proof (cases "is_run (get_char_token_type (hd cs))")
  case True
  have "\<not> is_run (get_char_token_type c)" if "stops fin c" for c
    using that assms(1) newline_class [of c] by (auto simp: stops_def fin_ok_def is_run_def split: option.splits)
  then show ?thesis using token_len_take [OF assms(2) True] True by (fastforce simp: list_all_iff)
next
  case False
  obtain c ds where "cs = c # ds" using assms(2) by (cases cs) auto
  then show ?thesis using False assms(3) newline_pair_class [of c "hd ds"] by (auto simp: stops_def)
qed

definition add_ref :: "strref \<Rightarrow> nat \<Rightarrow> nat \<Rightarrow> strref" where
  "add_ref ref off n = (if n = 0 then ref else strref_add ref \<lparr>sr_array = Some off, sr_len = n\<rparr>)"

lemma add_ref_add: "0 < n \<Longrightarrow> add_ref (add_ref ref off n) off' m = add_ref ref off (n + m)"
  by (auto simp: add_ref_def strref_add_def)

lemma tok_char_at: "lex_offset lx < length (lex_text lx) \<Longrightarrow>
    tok_char lx (token_at (lex_text lx) (lex_offset lx)) = lex_text lx ! lex_offset lx"
  by (simp add: tok_char_def token_at_def char_at_def)

lemma parse_string_spec:
  assumes "fin_ok fin"
  shows "parse_string_loop lx ref fin =
    (let rest = drop (lex_offset lx) (lex_text lx); pre = takeWhile (\<lambda>c. \<not> stops fin c) rest;
         post = drop (length pre) rest; ref' = add_ref ref (lex_offset lx) (length pre);
         off = lex_offset lx + length pre in
     case post of
       [] \<Rightarrow> (fin \<noteq> None, ref', lx\<lparr>lex_offset := off\<rparr>)
     | c # _ \<Rightarrow> (fin = None \<or> fin = Some c, ref', lx\<lparr>lex_offset := off + token_len post\<rparr>))"
  using assms
proof (induction lx ref fin rule: parse_string_loop.induct)
  case (1 lx ref fin)
  let ?txt = "lex_text lx" and ?o = "lex_offset lx"
  let ?rest = "drop ?o ?txt"
  show ?case
  proof (cases "?o < length ?txt")
    case False
    then show ?thesis by (simp add: parse_string_loop.simps [of lx] PARSE_WHITESPACE_def getbasetoken_spec add_ref_def Let_def)
  next
    case True
    let ?lx = "lx\<lparr>lex_offset := ?o + token_len ?rest\<rparr>" and ?t = "token_at ?txt ?o"
    have g: "lexer_getbasetoken lx PARSE_WHITESPACE = (Some ?t, ?lx)"
      using True by (simp add: getbasetoken_spec PARSE_WHITESPACE_def)
    have c: "tok_char lx ?t = ?txt ! ?o" "hd ?rest = ?txt ! ?o" "?rest = ?txt ! ?o # drop (Suc ?o) ?txt"
      using True tok_char_at by (simp_all add: hd_drop_conv_nth Cons_nth_drop_Suc)
    show ?thesis
    proof (cases "stops fin (?txt ! ?o)")
      case st: True
      then have pre: "takeWhile (\<lambda>c. \<not> stops fin c) ?rest = []" using c(3) by (metis takeWhile.simps(2))
      show ?thesis using st g c
        unfolding parse_string_loop.simps [of lx] Let_def pre
        by (auto simp: stops_def add_ref_def split: list.split)
    next
      case ns: False
      let ?n = "token_len ?rest"
      have n: "1 \<le> ?n" "?n \<le> length ?rest" using token_len_bounds [of ?rest] True by simp_all
      have all: "list_all (\<lambda>c. \<not> stops fin c) (take ?n ?rest)"
        using token_not_stop [OF 1(2), of ?rest] ns c True by simp
      have tw: "takeWhile (\<lambda>c. \<not> stops fin c) ?rest = take ?n ?rest @ takeWhile (\<lambda>c. \<not> stops fin c) (drop ?n ?rest)"
        using all takeWhile_append2 [of "take ?n ?rest" "\<lambda>c. \<not> stops fin c" "drop ?n ?rest"]
        by (simp add: list_all_iff del: drop_drop)
      have r: "parse_string_loop lx ref fin = parse_string_loop ?lx (strref_add ref (bt_text ?t)) fin"
        using g ns c unfolding parse_string_loop.simps [of lx] by (auto simp: stops_def)
      have a: "strref_add ref (bt_text ?t) = add_ref ref ?o ?n" using n by (simp add: token_at_def add_ref_def)
      have d: "drop (lex_offset ?lx) (lex_text ?lx) = drop ?n ?rest" by (simp add: add.commute)
      have IH: "parse_string_loop ?lx (strref_add ref (bt_text ?t)) fin =
          (let rest = drop (lex_offset ?lx) (lex_text ?lx); pre = takeWhile (\<lambda>c. \<not> stops fin c) rest;
               post = drop (length pre) rest; ref' = add_ref (strref_add ref (bt_text ?t)) (lex_offset ?lx) (length pre);
               off = lex_offset ?lx + length pre in
           case post of
             [] \<Rightarrow> (fin \<noteq> None, ref', ?lx\<lparr>lex_offset := off\<rparr>)
           | c # _ \<Rightarrow> (fin = None \<or> fin = Some c, ref', ?lx\<lparr>lex_offset := off + token_len post\<rparr>))"
        using 1(1) [OF g [symmetric] refl refl _ _ 1(2)] ns c by (simp add: stops_def)
      have dd: "drop (length (take ?n ?rest @ xs)) ?rest = drop (length xs) (drop ?n ?rest)" for xs
        using n by (simp add: min_def add.commute add.left_commute)
      have ll: "length (take ?n ?rest @ xs) = ?n + length xs" for xs using n by (simp add: min_def)
      show ?thesis
        unfolding r a IH [unfolded a] Let_def d tw dd
        unfolding ll using n
        by (auto simp: add_ref_add add.assoc simp del: drop_drop token_len.simps split: list.split)
    qed
  qed
qed

lemma parse_string_read:
  assumes "fin_ok fin" "drop (lex_offset lx) (lex_text lx) = body @ c # tail"
    and "list_all (\<lambda>c. \<not> stops fin c) body" "stops fin c"
  shows "parse_string_loop lx strref_clear fin =
      (fin = None \<or> fin = Some c, add_ref strref_clear (lex_offset lx) (length body),
       lx\<lparr>lex_offset := lex_offset lx + length body + token_len (c # tail)\<rparr>)"
proof -
  have "takeWhile (\<lambda>c. \<not> stops fin c) (body @ c # tail) = body"
    using assms(3,4) by (simp add: list_all_iff)
  then show ?thesis unfolding parse_string_spec [OF assms(1)] Let_def assms(2) by simp
qed

lemma add_ref_text:
  assumes "drop off text = body @ tail"
  shows "strref_text text (add_ref strref_clear off (length body)) = body"
    and "sr_len (add_ref strref_clear off (length body)) = length body"
  using assms by (auto simp: add_ref_def strref_add_def strref_clear_def strref_text_def)

lemma first_token:
  assumes "drop (lex_offset lx) (lex_text lx) = c # cs"
  shows "lexer_getbasetoken lx PARSE_WHITESPACE =
      (Some (token_at (lex_text lx) (lex_offset lx)), lx\<lparr>lex_offset := lex_offset lx + token_len (c # cs)\<rparr>)"
    and "bt_type (token_at (lex_text lx) (lex_offset lx)) = get_char_token_type c"
    and "tok_char lx (token_at (lex_text lx) (lex_offset lx)) = c"
proof -
  have l: "lex_offset lx < length (lex_text lx)" using assms by (metis drop_all list.distinct(1) not_le)
  then have "lex_text lx ! lex_offset lx = c" using assms by (metis Cons_nth_drop_Suc list.inject)
  then show "lexer_getbasetoken lx PARSE_WHITESPACE =
      (Some (token_at (lex_text lx) (lex_offset lx)), lx\<lparr>lex_offset := lex_offset lx + token_len (c # cs)\<rparr>)"
    "bt_type (token_at (lex_text lx) (lex_offset lx)) = get_char_token_type c"
    "tok_char lx (token_at (lex_text lx) (lex_offset lx)) = c"
    using l assms tok_char_at [OF l] by (simp_all add: PARSE_WHITESPACE_def getbasetoken_spec token_at_def)
qed

text \<open>White space before an item is skipped.\<close>

lemma parse_section_newline:
  assumes "drop (lex_offset lx) (lex_text lx) = CHR 0x0A # rest" "rest = [] \<or> hd rest \<noteq> CHR 0x0D"
  shows "config_parse_section acc lx = config_parse_section acc (lx\<lparr>lex_offset := lex_offset lx + 1\<rparr>)"
proof -
  have l: "token_len (CHR 0x0A # rest) = 1"
    using assms(2) by (auto simp: is_run_def get_char_token_type_def is_whitespace_def is_newline_pair_def)
  have w: "get_char_token_type (CHR 0x0A) = BASETOKEN_WHITESPACE" by code_simp
  let ?t = "token_at (lex_text lx) (lex_offset lx)" and ?l = "lx\<lparr>lex_offset := lex_offset lx + 1\<rparr>"
  have g: "lexer_getbasetoken lx PARSE_WHITESPACE = (Some ?t, ?l)" "bt_type ?t = BASETOKEN_WHITESPACE"
    using first_token [OF assms(1)] l w by simp_all
  obtain r l' where g2: "lexer_getbasetoken ?l PARSE_WHITESPACE = (r, l')"
    by (cases "lexer_getbasetoken ?l PARSE_WHITESPACE")
  have s: "skip_whitespace ?t ?l = (case r of None \<Rightarrow> (None, l') | Some t' \<Rightarrow> skip_whitespace t' l')"
    using g(2) g2 by (simp add: skip_whitespace.simps [of ?t])
  show ?thesis
    unfolding config_parse_section.simps [of acc lx] config_parse_section.simps [of acc ?l] g g2
      prod.case option.case s
    by (cases r) simp_all
qed

definition valid_name :: "string \<Rightarrow> bool" where
  "valid_name n \<longleftrightarrow> n \<noteq> [] \<and> hd n \<noteq> CHR ''#'' \<and> hd n \<noteq> CHR ''['' \<and> \<not> is_whitespace (hd n) \<and>
     list_all (\<lambda>c. c \<noteq> CHR ''='' \<and> \<not> is_newline c \<and> c \<noteq> CHR 0x00) n"

definition valid_section_name :: "string \<Rightarrow> bool" where
  "valid_section_name n \<longleftrightarrow> n \<noteq> [] \<and> list_all (\<lambda>c. c \<noteq> CHR '']'' \<and> \<not> is_newline c \<and> c \<noteq> CHR 0x00) n"

definition valid_item :: "config_item \<Rightarrow> bool" where
  "valid_item it \<longleftrightarrow> valid_name (ci_name it) \<and> no_zero (ci_value it)"

definition valid_section :: "config_section \<Rightarrow> bool" where
  "valid_section sec \<longleftrightarrow> valid_section_name (cs_name sec) \<and> list_all valid_item (cs_items sec)"

definition item_text :: "config_item \<Rightarrow> string" where
  "item_text it = ci_name it @ ''='' @ escape (ci_value it) @ [CHR 0x0A]"

definition items_text :: "config_item list \<Rightarrow> string" where "items_text its = concat (map item_text its)"

lemma item_text_hd: "valid_item it \<Longrightarrow> hd (item_text it @ r) = hd (ci_name it) \<and> \<not> is_whitespace (hd (ci_name it))"
  by (simp add: item_text_def valid_item_def valid_name_def)

lemma add_item_escape:
  assumes "no_zero v"
  shows "config_add_item acc n (escape v) = acc @ [\<lparr>ci_name = n, ci_value = v\<rparr>]"
proof (cases "escape v")
  case Nil
  then show ?thesis using escape_empty [of v] by (simp add: config_add_item_def strref_is_empty_def)
next
  case (Cons c e)
  then have "\<not> strref_is_empty (escape v)" using escape_zero [OF assms] by (simp add: strref_is_empty_def)
  then show ?thesis by (simp add: config_add_item_def unescape_escape)
qed

lemma parse_item:
  assumes "valid_item it" "drop (lex_offset lx) (lex_text lx) = item_text it @ rest"
    and "rest = [] \<or> hd rest \<noteq> CHR 0x0D"
  shows "config_parse_section acc lx =
    config_parse_section (acc @ [it]) (lx\<lparr>lex_offset := lex_offset lx + length (item_text it)\<rparr>)"
proof -
  let ?n = "ci_name it" and ?o = "lex_offset lx" and ?txt = "lex_text lx"
  let ?after = "CHR ''='' # escape (ci_value it) @ CHR 0x0A # rest"
  obtain c n where n: "?n = c # n" using assms(1) by (cases ?n) (auto simp: valid_item_def valid_name_def)
  have d: "drop ?o ?txt = ?n @ ?after" using assms(2) by (simp add: item_text_def)
  then have d1: "drop ?o ?txt = c # (n @ ?after)" by (simp add: n)
  let ?t = "token_at ?txt ?o"
  let ?l1 = "lx\<lparr>lex_offset := ?o + token_len (c # (n @ ?after))\<rparr>"
  note t = first_token [OF d1]
  have c: "c \<noteq> CHR ''#''" "c \<noteq> CHR ''[''" "\<not> is_whitespace c"
    using assms(1) n by (auto simp: valid_item_def valid_name_def)
  have ty: "bt_type ?t \<noteq> BASETOKEN_WHITESPACE" using t(2) c(3) by (simp add: get_char_token_type_def)
  have ns: "list_all (\<lambda>c. \<not> stops (Some (CHR ''='')) c) ?n"
    using assms(1) by (auto simp: valid_item_def valid_name_def stops_def list_all_iff)
  let ?l2 = "lx\<lparr>lex_offset := ?o + length ?n + 1\<rparr>" and ?nr = "add_ref strref_clear ?o (length ?n)"
  have "token_len ?after = 1" by (simp add: is_run_def is_newline_pair_def) code_simp
  then have p1: "parse_string_loop lx strref_clear (Some (CHR ''='')) = (True, ?nr, ?l2)"
    using parse_string_read [OF _ d [unfolded append_Cons] ns] by (simp add: stops_def)
  have "strref_add strref_clear (bt_text ?t) = bt_text ?t" by (simp add: strref_add_def strref_clear_def)
  moreover have "\<not> stops (Some (CHR ''='')) c" using ns n by simp
  ultimately have p2: "parse_string_loop ?l1 (bt_text ?t) (Some (CHR ''='')) = (True, ?nr, ?l2)"
    using p1 t(1,3) by (simp add: parse_string_loop.simps [of lx] stops_def)
  let ?vr = "add_ref strref_clear (?o + length ?n + 1) (length (escape (ci_value it)))"
  let ?l3 = "lx\<lparr>lex_offset := ?o + length (item_text it)\<rparr>"
  have d2: "drop (lex_offset ?l2) (lex_text ?l2) = escape (ci_value it) @ CHR 0x0A # rest"
    using arg_cong [OF d, of "drop (length ?n + 1)"] by (simp add: add.commute add.left_commute)
  have "token_len (CHR 0x0A # rest) = 1"
    using assms(3) by (auto simp: is_run_def get_char_token_type_def is_whitespace_def is_newline_pair_def)
  then have p3: "parse_string_loop ?l2 strref_clear None = (True, ?vr, ?l3)"
    using parse_string_read [OF _ d2, of None] escape_newline [of _ "ci_value it"]
    by (simp add: stops_def list_all_iff item_text_def is_newline_def add.assoc)
  have tx: "strref_text ?txt ?nr = ?n" "strref_text ?txt ?vr = escape (ci_value it)"
    using add_ref_text(1) [OF d] add_ref_text(1) [of "?o + length ?n + 1" ?txt] d2 by simp_all
  have "config_add_item acc ?n (escape (ci_value it)) = acc @ [it]"
    using assms(1) by (simp add: add_item_escape valid_item_def)
  moreover have "tok_char ?l1 ?t = c" using t(3) by (simp add: tok_char_def del: token_len.simps split: option.splits)
  ultimately show ?thesis
    using t(1) ty c p2 p3 tx
    by (simp add: config_parse_section.simps [of acc lx] skip_whitespace.simps [of ?t] config_parse_string_def
      del: token_len.simps)
qed

lemma parse_bracket:
  assumes "drop (lex_offset lx) (lex_text lx) = CHR ''['' # rest"
  shows "config_parse_section acc lx = (acc, lx)"
proof -
  let ?t = "token_at (lex_text lx) (lex_offset lx)" and ?l = "lx\<lparr>lex_offset := lex_offset lx + 1\<rparr>"
  have ty: "get_char_token_type (CHR ''['') = BASETOKEN_OTHER" by code_simp
  have "token_len (CHR ''['' # rest) = 1" by (simp add: ty is_run_def is_newline_pair_def)
  then have g: "lexer_getbasetoken lx PARSE_WHITESPACE = (Some ?t, ?l)" "bt_type ?t = BASETOKEN_OTHER"
      "tok_char lx ?t = CHR ''[''"
    using first_token [OF assms] by (simp_all add: ty)
  moreover have "tok_char ?l ?t = CHR ''[''" using g(3) by (simp add: tok_char_def split: option.splits)
  ultimately show ?thesis
    by (simp add: config_parse_section.simps [of acc lx] skip_whitespace.simps [of ?t])
qed

lemma parse_items:
  assumes "list_all valid_item its" "drop (lex_offset lx) (lex_text lx) = items_text its @ tail"
    and "tail = [] \<or> (\<exists>r. tail = CHR 0x0A # CHR ''['' # r)"
  shows "\<exists>off. config_parse_section acc lx = (acc @ its, lx\<lparr>lex_offset := off\<rparr>) \<and> drop off (lex_text lx) = tl tail"
  using assms(1,2)
proof (induction its arbitrary: acc lx)
  case Nil
  show ?case
  proof (cases "tail = []")
    case True
    then have "lexer_getbasetoken lx PARSE_WHITESPACE = (None, lx)"
      using Nil(2) by (simp add: PARSE_WHITESPACE_def getbasetoken_spec items_text_def)
    then show ?thesis using True Nil(2)
      by (intro exI [of _ "lex_offset lx"]) (simp add: config_parse_section.simps [of acc lx] items_text_def)
  next
    case False
    then obtain r where r: "tail = CHR 0x0A # CHR ''['' # r" using assms(3) by auto
    have d: "drop (lex_offset lx) (lex_text lx) = CHR 0x0A # CHR ''['' # r" using Nil(2) r by (simp add: items_text_def)
    then have "drop (lex_offset lx + 1) (lex_text lx) = CHR ''['' # r" by (metis drop_Suc_Cons drop_drop One_nat_def drop0 add.commute)
    then show ?thesis
      using parse_section_newline [OF d] parse_bracket [of "lx\<lparr>lex_offset := lex_offset lx + 1\<rparr>" r acc] r
      by (intro exI [of _ "lex_offset lx + 1"]) simp
  qed
next
  case (Cons it its)
  let ?l = "lx\<lparr>lex_offset := lex_offset lx + length (item_text it)\<rparr>" and ?r = "items_text its @ tail"
  have d: "drop (lex_offset lx) (lex_text lx) = item_text it @ ?r" using Cons.prems(2) by (simp add: items_text_def)
  have d2: "drop (lex_offset ?l) (lex_text ?l) = ?r"
    using arg_cong [OF d, of "drop (length (item_text it))"] by (simp add: add.commute)
  have "?r = [] \<or> hd ?r \<noteq> CHR 0x0D"
  proof (cases its)
    case Nil
    then show ?thesis using assms(3) by (auto simp: items_text_def)
  next
    case c: (Cons i js)
    then show ?thesis using Cons.prems(1) item_text_hd [of i "items_text js @ tail"]
      by (auto simp: items_text_def is_whitespace_def)
  qed
  then have "config_parse_section acc lx = config_parse_section (acc @ [it]) ?l"
    using parse_item [OF _ d] Cons.prems(1) by simp
  then show ?case using Cons.IH [OF _ d2, of "acc @ [it]"] Cons.prems(1) by simp
qed

fun sections_text :: "config_section list \<Rightarrow> string" where
  "sections_text [] = []"
| "sections_text (sec # secs) =
     ''['' @ cs_name sec @ '']'' @ [CHR 0x0A] @ items_text (cs_items sec) @
     (if secs = [] then [] else CHR 0x0A # sections_text secs)"

text \<open>The writing loops, for names and values that are C strings.\<close>

definition plain_section :: "config_section \<Rightarrow> bool" where
  "plain_section sec \<longleftrightarrow> no_zero (cs_name sec) \<and>
     list_all (\<lambda>it. no_zero (ci_name it) \<and> no_zero (ci_value it)) (cs_items sec)"

lemma cat_any_rep: "ds_rep d s \<Longrightarrow> no_zero (or_blank t) \<Longrightarrow> \<exists>d'. dstr_cat d t = Some d' \<and> ds_rep d' (s @ or_blank t)"
  using cat_rep [of d s "or_blank t"] by (cases t) (auto simp: or_blank_def dstr_cat_def blank_def)

lemma ds_text_rep: "ds_rep d s \<Longrightarrow> \<exists>t. ds_text d = Some t \<and> or_blank t = s"
  by (auto simp: ds_text_def ds_rep_def or_blank_def c_str_terminated)

lemma cat_text_rep:
  assumes "ds_rep d s" "no_zero t"
  obtains d' where "dstr_cat d (Some t) = Some d'" "ds_rep d' (s @ t)"
  using cat_rep [OF assms] by blast

lemma save_items_rep:
  "list_all (\<lambda>it. no_zero (ci_name it) \<and> no_zero (ci_value it)) its \<Longrightarrow> ds_rep str s \<Longrightarrow> ds_rep tmp t \<Longrightarrow>
     \<exists>str' tmp' t'. save_items its str tmp = Some (str', tmp') \<and> ds_rep str' (s @ items_text its) \<and> ds_rep tmp' t'"
proof (induction its arbitrary: str tmp s t)
  case Nil
  then show ?case by (auto simp: items_text_def)
next
  case (Cons it its)
  have z: "no_zero (ci_name it)" "no_zero (ci_value it)" using Cons.prems(1) by simp_all
  obtain tmp' where t: "escape_value tmp (ci_value it) = Some tmp'" "ds_rep tmp' (escape (ci_value it))"
    using escape_value_rep [OF Cons.prems(3) z(2)] by blast
  obtain d1 where 1: "dstr_cat str (Some (ci_name it)) = Some d1" "ds_rep d1 (s @ ci_name it)"
    using cat_text_rep [OF Cons.prems(2) z(1)] by blast
  obtain d2 where 2: "dstr_cat d1 (Some ''='') = Some d2" "ds_rep d2 ((s @ ci_name it) @ ''='')"
    using cat_text_rep [OF 1(2), of "''=''"] by auto
  obtain v where v: "ds_text tmp' = Some v" "or_blank v = escape (ci_value it)" using ds_text_rep [OF t(2)] by blast
  obtain d3 where 3: "dstr_cat d2 v = Some d3" "ds_rep d3 (((s @ ci_name it) @ ''='') @ escape (ci_value it))"
    using cat_any_rep [OF 2(2), of v] v(2) escape_zero [OF z(2)] by auto
  obtain d4 where 4: "dstr_cat d3 (Some [CHR 0x0A]) = Some d4" "ds_rep d4 (s @ item_text it)"
    using cat_text_rep [OF 3(2), of "[CHR 0x0A]"] by (auto simp: item_text_def)
  show ?case
    using Cons.IH [OF _ 4(2) t(2)] Cons.prems(1) t(1) 1(1) 2(1) v(1) 3(1) 4(1) by (simp add: items_text_def)
qed

definition sep_text :: "nat \<Rightarrow> config_section list \<Rightarrow> string" where
  "sep_text idx secs = (if secs = [] then [] else if idx = 0 then sections_text secs else CHR 0x0A # sections_text secs)"

lemma save_sections_rep:
  "list_all plain_section secs \<Longrightarrow> ds_rep str s \<Longrightarrow> ds_rep tmp t \<Longrightarrow>
     \<exists>str' tmp'. save_sections idx secs str tmp = Some (str', tmp') \<and> ds_rep str' (s @ sep_text idx secs)"
proof (induction secs arbitrary: idx str tmp s t)
  case Nil
  then show ?case by (auto simp: sep_text_def)
next
  case (Cons sec secs)
  have z: "no_zero (cs_name sec)" "list_all (\<lambda>it. no_zero (ci_name it) \<and> no_zero (ci_value it)) (cs_items sec)"
    using Cons.prems(1) by (simp_all add: plain_section_def)
  let ?nl = "if idx \<noteq> 0 then [CHR 0x0A] else []"
  obtain d0 where 0: "(if idx \<noteq> 0 then dstr_cat str (Some [CHR 0x0A]) else Some str) = Some d0" "ds_rep d0 (s @ ?nl)"
    using cat_rep [OF Cons.prems(2), of "[CHR 0x0A]"] Cons.prems(2) by (cases "idx = 0") auto
  obtain d1 where 1: "dstr_cat d0 (Some ''['') = Some d1" "ds_rep d1 ((s @ ?nl) @ ''['')"
    using cat_text_rep [OF 0(2), of "''[''"] by auto
  obtain d2 where 2: "dstr_cat d1 (Some (cs_name sec)) = Some d2" "ds_rep d2 (((s @ ?nl) @ ''['') @ cs_name sec)"
    using cat_text_rep [OF 1(2) z(1)] by blast
  obtain d3 where 3: "dstr_cat d2 (Some ('']'' @ [CHR 0x0A])) = Some d3"
      "ds_rep d3 ((((s @ ?nl) @ ''['') @ cs_name sec) @ '']'' @ [CHR 0x0A])"
    using cat_text_rep [OF 2(2), of "'']'' @ [CHR 0x0A]"] by auto
  obtain d4 tmp' t' where 4: "save_items (cs_items sec) d3 tmp = Some (d4, tmp')" "ds_rep tmp' t'"
      "ds_rep d4 (((((s @ ?nl) @ ''['') @ cs_name sec) @ '']'' @ [CHR 0x0A]) @ items_text (cs_items sec))"
    using save_items_rep [OF z(2) 3(2) Cons.prems(3)] by blast
  have "\<exists>str' tmp''. save_sections (idx + 1) secs d4 tmp' = Some (str', tmp'') \<and>
      ds_rep str' ((((((s @ ?nl) @ ''['') @ cs_name sec) @ '']'' @ [CHR 0x0A]) @ items_text (cs_items sec)) @ sep_text (idx + 1) secs)"
    using Cons.prems(1) by (intro Cons.IH [OF _ 4(3) 4(2)]) simp
  then show ?case unfolding save_sections.simps 0(1) bind.bind_lunit 1(1) 2(1) 3(1) 4(1)
    by (cases "idx = 0") (auto simp: sep_text_def)
qed

lemma config_save_text:
  assumes "list_all plain_section (cfg_sections c)" "cfg_file c = Some file" "dk_writable dk file"
  shows "config_save dk fs c =
    (let text = sections_text (cfg_sections c) in
     Some (if text \<noteq> [] \<and> length text \<le> dk_accepted dk then CONFIG_SUCCESS else CONFIG_ERROR,
           fs(file := Some (take (dk_flushed dk) (take (dk_accepted dk) text)))))"
proof -
  let ?t = "sections_text (cfg_sections c)"
  have "sep_text 0 (cfg_sections c) = ?t" by (simp add: sep_text_def)
  then obtain str tmp where s: "save_sections 0 (cfg_sections c) dstr_init dstr_init = Some (str, tmp)" "ds_rep str ?t"
    using save_sections_rep [OF assms(1) ds_rep_init ds_rep_init, of 0] by auto
  have "mem_read (ds_array str) 0 (length ?t) = Some (map Some ?t)"
    using read_rep(2) [OF s(2), of "length ?t"] by (cases "?t = []") (simp_all add: mem_read_def)
  moreover have "those (map Some x) = Some x" for x :: string by (induction x) simp_all
  ultimately show ?thesis using assms s(1) ds_rep_D [OF s(2)] by (simp add: config_save_def Let_def)
qed

lemma parse_sections:
  assumes "list_all valid_section secs" "drop (lex_offset lx) (lex_text lx) = sections_text secs"
  shows "parse_config_data acc lx = acc @ secs"
  using assms
proof (induction secs arbitrary: acc lx)
  case Nil
  then show ?case by (simp add: parse_config_data.simps [of acc lx] PARSE_WHITESPACE_def getbasetoken_spec)
next
  case (Cons sec secs)
  let ?o = "lex_offset lx" and ?n = "cs_name sec" and ?txt = "lex_text lx"
  let ?tail = "if secs = [] then [] else CHR 0x0A # sections_text secs"
  let ?body = "items_text (cs_items sec) @ ?tail"
  let ?l1 = "lx\<lparr>lex_offset := ?o + 1\<rparr>" and ?l2 = "lx\<lparr>lex_offset := ?o + length ?n + 2\<rparr>"
  let ?l3 = "lx\<lparr>lex_offset := ?o + length ?n + 3\<rparr>" and ?t = "token_at ?txt ?o"
  have d: "drop ?o ?txt = CHR ''['' # (?n @ CHR '']'' # CHR 0x0A # ?body)" using Cons.prems(2) by simp
  have d1: "drop (lex_offset ?l1) (lex_text ?l1) = ?n @ CHR '']'' # (CHR 0x0A # ?body)"
    using arg_cong [OF d, of "drop 1"] by (simp add: add.commute)
  have d2: "drop (lex_offset ?l2) (lex_text ?l2) = CHR 0x0A # ?body"
    using arg_cong [OF d, of "drop (length ?n + 2)"] by (simp add: add.commute add.left_commute)
  have d3: "drop (lex_offset ?l3) (lex_text ?l3) = ?body"
    using arg_cong [OF d, of "drop (length ?n + 3)"] by (simp add: add.commute add.left_commute numeral_3_eq_3)
  have ty: "get_char_token_type (CHR ''['') = BASETOKEN_OTHER" "get_char_token_type (CHR '']'') = BASETOKEN_OTHER"
    by code_simp+
  have l: "token_len (CHR ''['' # r) = 1" "token_len (CHR '']'' # r) = 1" for r
    by (simp_all add: ty is_run_def is_newline_pair_def)
  have g: "lexer_getbasetoken lx PARSE_WHITESPACE = (Some ?t, ?l1)" "bt_type ?t = BASETOKEN_OTHER"
    using first_token [OF d] by (simp_all add: l ty del: token_len.simps)
  have c: "tok_char ?l1 ?t = CHR ''[''" using first_token(3) [OF d] by (simp add: tok_char_def split: option.splits)
  let ?nr = "add_ref strref_clear (?o + 1) (length ?n)"
  have vn: "?n \<noteq> []" "list_all (\<lambda>c. \<not> stops (Some (CHR '']'')) c) ?n"
    using Cons.prems(1) by (auto simp: valid_section_def valid_section_name_def stops_def list_all_iff)
  have p: "parse_string_loop ?l1 strref_clear (Some (CHR '']'')) = (True, ?nr, ?l2)"
    using parse_string_read [OF _ d1 vn(2)] by (simp add: stops_def l add.commute add.left_commute del: token_len.simps)
  have tx: "strref_text ?txt ?nr = ?n" "sr_len ?nr = length ?n"
    using add_ref_text [of "?o + 1" ?txt ?n] d1 by simp_all
  have hd: "?body = [] \<or> hd ?body \<noteq> CHR 0x0D"
    using Cons.prems(1) item_text_hd
    by (cases "cs_items sec") (auto simp: items_text_def valid_section_def is_whitespace_def)
  have t: "?tail = [] \<or> (\<exists>r. ?tail = CHR 0x0A # CHR ''['' # r)" by (cases secs) auto
  have e: "config_parse_section [] ?l2 = config_parse_section [] ?l3"
    using parse_section_newline [OF d2 hd, of "[]"] by (simp add: numeral_3_eq_3)
  obtain off where off: "config_parse_section [] ?l3 = (cs_items sec, ?l3\<lparr>lex_offset := off\<rparr>)"
      "drop off ?txt = tl ?tail"
    using parse_items [OF _ d3 t, of "[]"] Cons.prems(1) by (auto simp: valid_section_def)
  have "parse_config_data acc lx = parse_config_data (acc @ [\<lparr>cs_name = ?n, cs_items = cs_items sec\<rparr>]) (lx\<lparr>lex_offset := off\<rparr>)"
    using g c p tx vn off e
    by (simp add: parse_config_data.simps [of acc lx] skip_whitespace.simps [of ?t] config_parse_string_def)
  moreover have "drop off ?txt = sections_text secs" using off(2) by (cases secs) simp_all
  ultimately show ?case using Cons.IH [of "lx\<lparr>lex_offset := off\<rparr>" "acc @ [\<lparr>cs_name = ?n, cs_items = cs_items sec\<rparr>]"] Cons.prems(1) by simp
qed

lemma valid_name_zero: "valid_name n \<Longrightarrow> no_zero n" "valid_section_name n \<Longrightarrow> no_zero n"
  unfolding valid_name_def valid_section_name_def no_zero_def list_all_iff by blast+

lemma valid_section_plain:
  assumes "list_all valid_section secs"
  shows "list_all plain_section secs"
  using assms unfolding list_all_iff valid_section_def valid_item_def plain_section_def
  by (blast intro: valid_name_zero)

lemma items_text_zero:
  "list_all (\<lambda>it. no_zero (ci_name it) \<and> no_zero (ci_value it)) its \<Longrightarrow> no_zero (items_text its)"
  by (induction its) (simp_all add: items_text_def item_text_def escape_zero)

lemma sections_text_zero: "list_all plain_section secs \<Longrightarrow> no_zero (sections_text secs)"
  by (induction secs) (simp_all add: plain_section_def items_text_zero)

lemma c_string_id: "no_zero s \<Longrightarrow> c_string s = s"
  by (auto simp: c_string_def takeWhile_eq_all_conv no_zero_def)

text \<open>C19: What \<^verbatim>\<open>config_save\<close> writes, \<^verbatim>\<open>config_open\<close> reads back: the same sections
and items in the same order, with every value as it was, line ends and backslashes included.  The
names must be ones the format can hold, and the text must have reached the disk when the file was closed.\<close>
theorem config_save_open:
  assumes "list_all valid_section (cfg_sections c)" "cfg_file c = Some file"
    and "config_save dk fs c = Some (CONFIG_SUCCESS, fs')" and "length (sections_text (cfg_sections c)) \<le> dk_flushed dk"
  shows "config_open dk fs' file how =
    (CONFIG_SUCCESS, Some \<lparr>cfg_file = Some file, cfg_sections = cfg_sections c, cfg_defaults = []\<rparr>, fs')"
proof -
  let ?t = "sections_text (cfg_sections c)"
  note plain = valid_section_plain [OF assms(1)]
  have "dk_writable dk file" using assms(2,3) by (auto simp: config_save_def split: if_splits)
  then have w: "length ?t \<le> dk_accepted dk" "?t \<noteq> []" "fs' file = Some ?t"
    using assms(3,4) config_save_text [OF plain assms(2)] by (auto simp: Let_def split: if_splits)
  have "take 3 ?t \<noteq> BOM" using w(2) by (cases "cfg_sections c") (simp_all add: BOM_def numeral_3_eq_3)
  then have "os_fread_utf8 ?t = Some ?t" using w by (simp add: os_fread_utf8_def)
  moreover have "parse_config_data [] (lexer_start ?t) = cfg_sections c"
    using parse_sections [OF assms(1), of "lexer_start ?t" "[]"] by (simp add: lexer_start_def)
  ultimately show ?thesis
    using w sections_text_zero [OF plain]
    by (simp add: config_open_def config_parse_file_def c_string_id)
qed

definition demo_config :: config_data where
  "demo_config = config_set_int (config_set_string \<lparr>cfg_file = Some ''f'', cfg_sections = [], cfg_defaults = []\<rparr>
     ''a b'' ''x'' (Some [CHR ''p'', CHR 0x0A, CHR 0x5C])) ''c'' ''n'' (- 3)"

definition demo_disk :: disk where
  "demo_disk = \<lparr>dk_writable = (\<lambda>_. True), dk_accepted = 1000, dk_flushed = 1000, dk_rename = (\<lambda>_ _. True)\<rparr>"

lemma config_save_open_witness:
  "\<exists>fs'. config_save demo_disk (\<lambda>_. None) demo_config = Some (CONFIG_SUCCESS, fs') \<and>
    config_open demo_disk fs' ''f'' CONFIG_OPEN_EXISTING =
      (CONFIG_SUCCESS, Some \<lparr>cfg_file = Some ''f'', cfg_sections = cfg_sections demo_config, cfg_defaults = []\<rparr>, fs')"
proof -
  have v: "list_all valid_section (cfg_sections demo_config)" "length (sections_text (cfg_sections demo_config)) \<le> 1000"
      "sections_text (cfg_sections demo_config) \<noteq> []" "cfg_file demo_config = Some ''f''"
    by code_simp+
  then obtain fs' where f: "config_save demo_disk (\<lambda>_. None) demo_config = Some (CONFIG_SUCCESS, fs')"
    using config_save_text [OF valid_section_plain [OF v(1)] v(4), of demo_disk] by (simp add: demo_disk_def Let_def)
  then show ?thesis using config_save_open [OF v(1,4) f _, of CONFIG_OPEN_EXISTING] v(2) by (auto simp: demo_disk_def)
qed

text \<open>A configuration without sections cannot be saved: the file is emptied and an error reported.\<close>
lemma empty_config_not_saved:
  assumes "cfg_sections c = []" "cfg_file c = Some file" "dk_writable dk file"
  shows "config_save dk fs c = Some (CONFIG_ERROR, fs(file := Some []))"
  using config_save_text [OF _ assms(2,3), of fs] assms(1) by simp

text \<open>C22: \<^verbatim>\<open>config_save_safe\<close> never loses the text from before.  It comes back whatever the
disk does, with the configuration as it was.  When it reports success the backup holds the text from before, and
the file holds the new text, as much of it as had reached the disk when the temporary file was closed: the whole
of it unless closing failed, which the code does not look at.  When it fails, the text from before is still in
the file or in the backup.  The file existed before, and the two extensions are not empty and differ.\<close>
theorem config_save_safe_atomic:
  assumes "list_all plain_section (cfg_sections c)" "cfg_file c = Some file" "fs file = Some old"
    and "temp_ext \<noteq> []" "backup_ext \<noteq> []" "add_ext (Some file) temp_ext \<noteq> add_ext (Some file) backup_ext"
  shows "\<exists>ret fs'. config_save_safe dk fs c temp_ext (Some backup_ext) = Some (ret, fs', c) \<and>
    (if ret = CONFIG_SUCCESS
     then fs' file = Some (take (dk_flushed dk) (sections_text (cfg_sections c))) \<and>
       fs' (add_ext (Some file) backup_ext) = Some old
     else fs' file = Some old \<or> fs' (add_ext (Some file) backup_ext) = Some old)"
proof -
  let ?tmp = "add_ext (Some file) temp_ext" and ?bak = "add_ext (Some file) backup_ext"
  let ?text = "sections_text (cfg_sections c)" and ?c = "c\<lparr>cfg_file := Some (add_ext (Some file) temp_ext)\<rparr>"
  have d: "?tmp \<noteq> file" "?bak \<noteq> file" using assms(4,5) by (auto simp: add_ext_def)
  have c: "c\<lparr>cfg_file := Some file\<rparr> = c" using assms(2) by simp
  show ?thesis
  proof (cases "dk_writable dk ?tmp \<and> ?text \<noteq> [] \<and> length ?text \<le> dk_accepted dk")
    case False
    obtain r fs1 where s: "config_save dk fs ?c = Some (r, fs1)" "r \<noteq> CONFIG_SUCCESS" "fs1 file = Some old"
    proof (cases "dk_writable dk ?tmp")
      case True
      then have "config_save dk fs ?c =
          Some (CONFIG_ERROR, fs(?tmp := Some (take (dk_flushed dk) (take (dk_accepted dk) ?text))))"
        using config_save_text [of ?c ?tmp dk fs] assms(1) False by (simp add: Let_def)
      then show ?thesis using that d assms(3) by simp
    qed (use that [of CONFIG_FILENOTFOUND fs] assms(3) in \<open>simp add: config_save_def\<close>)
    then show ?thesis using assms(2,4) c by (auto simp: config_save_safe_def Let_def)
  next
    case True
    then have s: "config_save dk fs ?c = Some (CONFIG_SUCCESS, fs(?tmp := Some (take (dk_flushed dk) ?text)))"
      using config_save_text [of ?c ?tmp dk fs] assms(1) by (simp add: Let_def del: take_take)
    show ?thesis using assms(2-6) s d c
      by (simp add: config_save_safe_def Let_def os_safe_replace_def rename_file_def os_file_exists_def)
  qed
qed

lemma config_save_safe_atomic_witness:
  "\<exists>fs'. config_save_safe demo_disk (\<lambda>p. if p = ''f'' then Some ''old'' else None) demo_config ''tmp'' (Some ''bak'') =
      Some (CONFIG_SUCCESS, fs', demo_config) \<and>
    fs' ''f'' = Some (take 1000 (sections_text (cfg_sections demo_config))) \<and> fs' ''f.bak'' = Some ''old''"
proof -
  have v: "list_all valid_section (cfg_sections demo_config)" "cfg_file demo_config = Some ''f''"
    by code_simp+
  have x: "add_ext (Some ''f'') ''tmp'' = ''f.tmp''" "add_ext (Some ''f'') ''bak'' = ''f.bak''" by (simp_all add: add_ext_def)
  let ?fs = "\<lambda>p. if p = ''f'' then Some ''old'' else None" and ?c = "demo_config\<lparr>cfg_file := Some ''f.tmp''\<rparr>"
  have t: "sections_text (cfg_sections demo_config) \<noteq> []" "length (sections_text (cfg_sections demo_config)) \<le> 1000"
    by code_simp+
  have "config_save demo_disk ?fs ?c =
      Some (CONFIG_SUCCESS, ?fs(''f.tmp'' := Some (sections_text (cfg_sections demo_config))))"
    using config_save_text [of ?c "''f.tmp''" demo_disk ?fs] valid_section_plain [OF v(1)] t
    by (simp add: Let_def demo_disk_def)
  then have r: "map_option fst (config_save_safe demo_disk ?fs demo_config ''tmp'' (Some ''bak'')) = Some CONFIG_SUCCESS"
    using v(2) x
    by (simp add: config_save_safe_def Let_def os_safe_replace_def rename_file_def os_file_exists_def demo_disk_def)
  show ?thesis
    using config_save_safe_atomic [OF valid_section_plain [OF v(1)] v(2), of "\<lambda>p. if p = ''f'' then Some ''old'' else None"
      "''old''" "''tmp''" "''bak''" demo_disk] r by (auto simp: x demo_disk_def split: if_splits)
qed

text \<open>Success is reported for a truncated file: when the text fits in the buffer of the stream and the disk
is full when it is closed, the temporary file replaces the old one, of which nothing is left without a
backup.\<close>
lemma truncated_file_saved:
  assumes "list_all plain_section (cfg_sections c)" "cfg_file c = Some file" "temp_ext \<noteq> []"
    and "dk_writable dk (add_ext (Some file) temp_ext)" "dk_rename dk (add_ext (Some file) temp_ext) file"
    and "sections_text (cfg_sections c) \<noteq> []" "length (sections_text (cfg_sections c)) \<le> dk_accepted dk"
  shows "\<exists>fs'. config_save_safe dk fs c temp_ext None = Some (CONFIG_SUCCESS, fs', c) \<and>
    fs' file = Some (take (dk_flushed dk) (sections_text (cfg_sections c)))"
proof -
  let ?tmp = "add_ext (Some file) temp_ext"
  have d: "?tmp \<noteq> file" using assms(3) by (auto simp: add_ext_def)
  have c: "c\<lparr>cfg_file := Some file\<rparr> = c" using assms(2) by simp
  have "config_save dk fs (c\<lparr>cfg_file := Some ?tmp\<rparr>) =
      Some (CONFIG_SUCCESS, fs(?tmp := Some (take (dk_flushed dk) (sections_text (cfg_sections c)))))"
    using config_save_text [of "c\<lparr>cfg_file := Some ?tmp\<rparr>" ?tmp dk fs] assms by (simp add: Let_def del: take_take)
  then show ?thesis using assms(2-5) d c
    by (simp add: config_save_safe_def Let_def os_safe_replace_def rename_file_def)
qed

lemma truncated_file_saved_witness:
  "\<exists>fs'. config_save_safe (demo_disk\<lparr>dk_flushed := 0\<rparr>) (\<lambda>p. if p = ''f'' then Some ''old'' else None) demo_config ''tmp'' None =
      Some (CONFIG_SUCCESS, fs', demo_config) \<and> fs' ''f'' = Some []"
proof -
  have v: "list_all valid_section (cfg_sections demo_config)" "cfg_file demo_config = Some ''f''"
      "length (sections_text (cfg_sections demo_config)) \<le> 1000" "sections_text (cfg_sections demo_config) \<noteq> []"
    by code_simp+
  show ?thesis
    using truncated_file_saved [OF valid_section_plain [OF v(1)] v(2), of "''tmp''" "demo_disk\<lparr>dk_flushed := 0\<rparr>"] v(3,4)
    by (simp add: demo_disk_def)
qed

text \<open>Opened from a string, a configuration has no file: saving it safely writes a file that is
called by the extension alone and then fails.\<close>
lemma save_safe_without_file:
  assumes "list_all plain_section (cfg_sections c)" "cfg_file c = None" "dk_writable dk ''.tmp''"
    "sections_text (cfg_sections c) \<noteq> []" "length (sections_text (cfg_sections c)) \<le> dk_accepted dk"
  shows "config_save_safe dk fs c ''tmp'' b =
    Some (CONFIG_ERROR, fs(''.tmp'' := Some (take (dk_flushed dk) (sections_text (cfg_sections c)))), c)"
  using assms config_save_text [of "c\<lparr>cfg_file := Some ''.tmp''\<rparr>" "''.tmp''" dk fs]
  by (simp add: config_save_safe_def os_safe_replace_def add_ext_def Let_def del: take_take)

subsection \<open>Numbers survive\<close>

lemma digit_dec_char:
  assumes "d < 10"
  shows "digit_value 10 (dec_char d) = Some d" "\<not> isspace (dec_char d)"
    "dec_char d \<noteq> CHR ''-''" "dec_char d \<noteq> CHR ''+''" "dec_char d \<noteq> CHR ''x''" "dec_char d \<noteq> CHR 0x00"
proof -
  have n: "(of_char (dec_char d) :: nat) = 48 + d" using assms by (simp add: dec_char_def)
  then show "digit_value 10 (dec_char d) = Some d" "\<not> isspace (dec_char d)"
    using assms by (auto simp: digit_value_def isspace_def)
  show "dec_char d \<noteq> CHR ''-''" "dec_char d \<noteq> CHR ''+''" "dec_char d \<noteq> CHR ''x''" "dec_char d \<noteq> CHR 0x00"
    using n assms by auto
qed

definition is_dec :: "char \<Rightarrow> bool" where "is_dec c \<longleftrightarrow> digit_value 10 c \<noteq> None \<and> \<not> isspace c \<and>
  c \<noteq> CHR ''-'' \<and> c \<noteq> CHR ''+'' \<and> c \<noteq> CHR ''x'' \<and> c \<noteq> CHR 0x00"

lemma nat_text_dec: "nat_text n \<noteq> [] \<and> list_all is_dec (nat_text n)"
proof (induction n rule: nat_text.induct)
  case (1 n)
  have "is_dec (dec_char d)" if "d < 10" for d using that by (simp add: is_dec_def digit_dec_char)
  then show ?case using 1 by (subst (1 2) nat_text.simps) simp
qed

lemma digits_value_append:
  "list_all is_dec a \<Longrightarrow> digits_value 10 (a @ b) acc = digits_value 10 b (digits_value 10 a acc)"
  by (induction a arbitrary: acc) (auto simp: is_dec_def)

lemma digits_value_nat_text: "digits_value 10 (nat_text n) 0 = n"
proof (induction n rule: nat_text.induct)
  case (1 n)
  show ?case
  proof (cases "n < 10")
    case True
    then show ?thesis by (simp add: nat_text.simps [of n] digit_dec_char)
  next
    case False
    then show ?thesis
      using 1 nat_text_dec [of "n div 10"]
      by (simp add: nat_text.simps [of n] digit_dec_char digits_value_append)
  qed
qed

lemma scan_nat_text: "scan_number 10 (nat_text n) = (False, n)" "scan_number 10 (''-'' @ nat_text n) = (True, n)"
proof -
  obtain c s where c: "nat_text n = c # s" "is_dec c" using nat_text_dec [of n] by (cases "nat_text n") auto
  have "\<not> isspace (CHR ''-'')" by code_simp
  then show "scan_number 10 (nat_text n) = (False, n)" "scan_number 10 (''-'' @ nat_text n) = (True, n)"
    using c digits_value_nat_text [of n] by (simp_all add: scan_number_def char_at_def is_dec_def Let_def)
qed

lemma nat_text_not_hex: "\<not> (char_at (nat_text n) 0 = CHR ''0'' \<and> char_at (nat_text n) 1 = CHR ''x'')"
proof (cases "1 < length (nat_text n)")
  case True
  then have "is_dec (nat_text n ! 1)" using nat_text_dec [of n] by (simp add: list_all_length)
  then show ?thesis using True by (simp add: char_at_def is_dec_def)
qed (simp add: char_at_def)

lemma str_to_uint64_text: "str_to_uint64 (uint64_text v) = v"
proof -
  have "unat v < 2 ^ 64" using unsigned_less [of v, where 'a = nat] by simp
  then show ?thesis
    using nat_text_dec [of "unat v"] nat_text_not_hex [of "unat v"]
    by (auto simp: str_to_uint64_def uint64_text_def strtoull_def scan_nat_text)
qed

lemma str_to_int64_text: "str_to_int64 (int64_text v) = v"
proof -
  have b: "- (2 ^ 63) \<le> sint v" "sint v \<le> 2 ^ 63 - 1"
    using sint_ge [of v] sint_lt [of v] by simp_all
  show ?thesis
  proof (cases "sint v < 0")
    case True
    have "char_at (''-'' @ nat_text m) 0 \<noteq> CHR ''0''" for m by (simp add: char_at_def)
    then have "str_to_int64 (int64_text v) = strtoll (''-'' @ nat_text (nat (- sint v))) 10"
      using True by (simp add: str_to_int64_def int64_text_def)
    moreover have "\<not> 9223372036854775808 < nat (- sint v)" using b True by (simp add: not_less nat_le_iff)
    ultimately have "str_to_int64 (int64_text v) = word_of_int (sint v)" using True b unfolding strtoll_def scan_nat_text by (simp add: Let_def)
    then show ?thesis by simp
  next
    case False
    then have "str_to_int64 (int64_text v) = strtoll (nat_text (nat (sint v))) 10"
      using nat_text_dec [of "nat (sint v)"] nat_text_not_hex [of "nat (sint v)"]
      by (auto simp: str_to_int64_def int64_text_def)
    moreover have "\<not> 9223372036854775807 < nat (sint v)" using b False by (simp add: not_less nat_le_iff)
    ultimately have "str_to_int64 (int64_text v) = word_of_int (sint v)"
      using False b unfolding strtoll_def scan_nat_text by (simp add: Let_def)
    then show ?thesis by simp
  qed
qed

lemma value_bool_text: "value_bool (bool_text b) = b"
proof (cases b)
  case True
  have "astrcmpi ''true'' ''true'' = 0" by code_simp
  then show ?thesis using True by (simp add: value_bool_def bool_text_def)
next
  case False
  have "astrcmpi ''false'' ''true'' \<noteq> 0" "scan_number 10 ''false'' = (False, 0)" by code_simp+
  then show ?thesis using False
    by (simp add: value_bool_def bool_text_def str_to_uint64_def char_at_def strtoull_def)
qed

lemma get_after_set: "config_get_string (config_set_user c s n v) s n = Some v"
  by (simp add: config_get_string_def config_set_user_def find_set_item Let_def)

text \<open>What is stored as a number or a truth value is read back unchanged: every signed and every
unsigned 64-bit number, the extreme ones included, and both truth values.\<close>
theorem config_numbers_roundtrip:
  "config_get_int (config_set_int c s n i) s n = i \<and>
   config_get_uint (config_set_uint c s n u) s n = u \<and>
   config_get_bool (config_set_bool c s n b) s n = b"
  by (simp add: config_get_int_def config_get_uint_def config_get_bool_def config_set_int_def config_set_uint_def
    config_set_bool_def get_after_set str_to_int64_text str_to_uint64_text value_bool_text)

subsection \<open>What the parser accepts\<close>

text \<open>At the end of the text a name without \<^verbatim>\<open>=\<close> is an item with an empty value; on any
other line it is none.\<close>
lemma name_at_end_is_item:
  "map cs_items (cfg_sections (config_open_string (''[a]'' @ [CHR 0x0A] @ ''foo''))) = [[\<lparr>ci_name = ''foo'', ci_value = []\<rparr>]]"
  "map cs_items (cfg_sections (config_open_string (''[a]'' @ [CHR 0x0A] @ ''foo'' @ [CHR 0x0A]))) = [[]]"
  by code_simp+

text \<open>A section with an empty name ends the reading: what follows is lost.\<close>
lemma empty_section_ends_file:
  "cfg_sections (config_open_string (''[]'' @ [CHR 0x0A] @ ''[b]'' @ [CHR 0x0A] @ ''x=1'')) = []"
  by code_simp

end
