(* ===== verification/Buffered_File.thy ===== *)
theory Buffered_File
  imports Serializer
begin

text \<open>
  The buffered file writer, \<^verbatim>\<open>util/buffered-file-serializer.c\<close>: the client pushes the
  data of its writes, cut in pieces and each with a header, into a queue; an I/O thread collects them
  into a chunk, follows the seeks and writes the chunks to the file.

  The queue is the list of the pairs of header and data that were pushed; its size counts both in
  bytes, and its capacity grows as the capacity of the \<^verbatim>\<open>deque\<close> does.  What happens
  while the mutex is held is one step; the test of \<^verbatim>\<open>output_error\<close> just before the lock
  is taken with it.  Both events are of the kind that a wait resets.  The file is its bytes and its
  position; \<^verbatim>\<open>fseek\<close> fails, and leaves the position, when the 64-bit offset is negative
  as an \<^verbatim>\<open>int64_t\<close>.  A write to the file can fail at any time, after any part of the chunk.
\<close>

type_synonym byte = "8 word"

subsection \<open>State\<close>

record io_header =
  seek_offset :: "64 word"
  data_length :: nat

record io_buffer =
  io_shutdown_requested :: bool
  io_output_error :: bool
  io_space_event :: bool
  io_data_event :: bool
  io_data :: "(io_header \<times> byte list) list"
  io_capacity :: nat
  io_next_pos :: "64 word"
  io_buffer_size :: nat
  io_chunk_size :: nat

text \<open>The variables of the I/O thread.\<close>

record io_local =
  lc_chunk :: "byte list"
  lc_want_seek :: bool
  lc_force_flush :: bool
  lc_current :: "64 word"
  lc_next :: "64 word"

record output_file =
  fl_bytes :: "byte list"
  fl_pos :: nat

definition DEFAULT_BUF_SIZE :: nat where "DEFAULT_BUF_SIZE = 256 * 1048576"

definition DEFAULT_CHUNK_SIZE :: nat where "DEFAULT_CHUNK_SIZE = 1048576"

definition header_size :: nat where "header_size = 16"

definition data_size :: "(io_header \<times> byte list) list \<Rightarrow> nat" where
  "data_size q = sum_list (map (\<lambda>(h, d). header_size + length d) q)"

definition grown :: "nat \<Rightarrow> nat \<Rightarrow> nat" where
  "grown capacity need = (if need \<le> capacity then capacity else max (capacity * 2) need)"

definition buffered_file_init :: "nat \<Rightarrow> nat \<Rightarrow> io_buffer" where
  "buffered_file_init max_bufsize chunk_size =
     \<lparr>io_shutdown_requested = False, io_output_error = False, io_space_event = False, io_data_event = False,
      io_data = [], io_capacity = 1048576, io_next_pos = 0,
      io_buffer_size = (if max_bufsize \<noteq> 0 then max_bufsize else DEFAULT_BUF_SIZE),
      io_chunk_size = (if chunk_size \<noteq> 0 then chunk_size else DEFAULT_CHUNK_SIZE)\<rparr>"

subsection \<open>The file\<close>

definition put :: "byte list \<Rightarrow> nat \<Rightarrow> byte list \<Rightarrow> byte list" where
  "put f p d =
     (if d = [] then f
      else let f = f @ replicate (p - length f) 0 in take p f @ d @ drop (p + length d) f)"

definition fseek_set :: "output_file \<Rightarrow> 64 word \<Rightarrow> output_file" where
  "fseek_set f off = (if unat off < 2 ^ 63 then f\<lparr>fl_pos := unat off\<rparr> else f)"

definition file_append :: "output_file \<Rightarrow> byte list \<Rightarrow> output_file" where
  "file_append f d = \<lparr>fl_bytes = put (fl_bytes f) (fl_pos f) d, fl_pos = fl_pos f + length d\<rparr>"

subsection \<open>The client\<close>

definition file_output_seek :: "io_buffer \<Rightarrow> int \<Rightarrow> serialize_seek_type \<Rightarrow> int \<times> io_buffer" where
  "file_output_seek io offset seek_type =
     (if io_output_error io then (-1, io)
      else let pos = (case seek_type of
                 SERIALIZE_SEEK_START \<Rightarrow> word_of_int offset
               | SERIALIZE_SEEK_CURRENT \<Rightarrow> io_next_pos io + word_of_int offset
               | SERIALIZE_SEEK_END \<Rightarrow> io_next_pos io - word_of_int offset) in
        (sint pos, io\<lparr>io_next_pos := pos\<rparr>))"

definition file_output_get_pos :: "io_buffer \<Rightarrow> int" where
  "file_output_get_pos io = (if io_output_error io then -1 else sint (io_next_pos io))"

definition free_space :: "io_buffer \<Rightarrow> nat" where
  "free_space io = max (io_capacity io) (io_buffer_size io) - data_size (io_data io)"

definition next_chunk_size :: "io_buffer \<Rightarrow> byte list \<Rightarrow> nat" where
  "next_chunk_size io remaining = min (length remaining) (io_chunk_size io)"

text \<open>One piece: header and data are pushed, the position advances.\<close>

definition push_piece :: "io_buffer \<Rightarrow> byte list \<Rightarrow> io_buffer" where
  "push_piece io d =
     (let n = data_size (io_data io) in
      io\<lparr>io_data := io_data io @ [(\<lparr>seek_offset = io_next_pos io, data_length = length d\<rparr>, d)],
         io_capacity := grown (grown (io_capacity io) (n + header_size)) (n + header_size + length d),
         io_next_pos := io_next_pos io + of_nat (length d)\<rparr>)"

fun push_loop :: "nat \<Rightarrow> io_buffer \<Rightarrow> byte list \<Rightarrow> io_buffer \<times> byte list" where
  "push_loop 0 io remaining = (io, remaining)"
| "push_loop (Suc num_chunks) io remaining =
     (if remaining = [] then (io, remaining)
      else let n = next_chunk_size io remaining in
        push_loop num_chunks (push_piece io (take n remaining)) (drop n remaining))"

definition has_space :: "io_buffer \<Rightarrow> byte list \<Rightarrow> bool" where
  "has_space io remaining \<longleftrightarrow> next_chunk_size io remaining + header_size \<le> free_space io"

text \<open>One round of the loop of \<^verbatim>\<open>file_output_write\<close> that finds space.\<close>

definition write_round :: "io_buffer \<Rightarrow> byte list \<Rightarrow> io_buffer \<times> byte list" where
  "write_round io remaining =
     (let num_chunks = free_space io div (next_chunk_size io remaining + header_size);
          (io, remaining) = push_loop num_chunks io remaining in
      (io\<lparr>io_data_event := True\<rparr>, remaining))"

subsection \<open>The I/O thread\<close>

fun fetch_loop ::
    "nat \<Rightarrow> io_local \<Rightarrow> (io_header \<times> byte list) list \<Rightarrow> io_local \<times> (io_header \<times> byte list) list" where
  "fetch_loop chunk_size lc [] = (lc, [])"
| "fetch_loop chunk_size lc ((h, d) # q) =
     (let discontinuous = (seek_offset h \<noteq> lc_current lc) in
      if discontinuous \<and> (lc_chunk lc \<noteq> [] \<or> lc_want_seek lc)
      then (lc\<lparr>lc_force_flush := True\<rparr>, (h, d) # q)
      else
        let lc = (if discontinuous
                  then lc\<lparr>lc_want_seek := True, lc_next := seek_offset h, lc_current := seek_offset h\<rparr> else lc) in
        if data_length h + length (lc_chunk lc) > chunk_size
        then (lc\<lparr>lc_force_flush := True\<rparr>, (h, d) # q)
        else fetch_loop chunk_size
               (lc\<lparr>lc_chunk := lc_chunk lc @ d, lc_current := lc_current lc + of_nat (data_length h)\<rparr>) q)"

text \<open>The part of a round under the mutex; the flag says that the chunk is to be written now.\<close>

definition fetch_round :: "io_buffer \<Rightarrow> io_local \<Rightarrow> bool \<times> io_buffer \<times> io_local" where
  "fetch_round io lc =
     (let (lc, q) = fetch_loop (io_chunk_size io) lc (io_data io);
          io = io\<lparr>io_data := q, io_space_event := True\<rparr> in
      if \<not> lc_force_flush lc \<and>
         (lc_chunk lc = [] \<or> length (lc_chunk lc) < 65536 \<and> \<not> io_shutdown_requested io)
      then (False, io\<lparr>io_data_event := False\<rparr>, lc)
      else (True, io, lc))"

text \<open>The seek before a write; the flag says that there is nothing to write.\<close>

definition flush_seek :: "io_local \<Rightarrow> output_file \<Rightarrow> bool \<times> io_local \<times> output_file" where
  "flush_seek lc f =
     (if lc_want_seek lc then
        let f = fseek_set f (lc_next lc);
            lc = lc\<lparr>lc_current := lc_next lc + of_nat (length (lc_chunk lc)), lc_want_seek := False\<rparr> in
        if lc_chunk lc = [] then (True, lc\<lparr>lc_force_flush := False\<rparr>, f) else (False, lc, f)
      else (False, lc, f))"

subsection \<open>Both together\<close>

datatype client_call = Write "byte list" | Seek int serialize_seek_type

datatype client_pc = Idle | Writing "byte list" | Waiting_space "byte list" | Stopping | Joining | Finished

datatype thread_pc = Wait_data | Fetch | Flush | Exited

record buf_sys =
  sy_io :: io_buffer
  sy_local :: io_local
  sy_file :: output_file
  sy_client :: client_pc
  sy_calls :: "client_call list"
  sy_thread :: thread_pc

definition after_write :: "byte list \<Rightarrow> client_pc" where
  "after_write remaining = (if remaining = [] then Idle else Writing remaining)"

inductive buf_step :: "buf_sys \<Rightarrow> buf_sys \<Rightarrow> bool" where
  write_empty: "sy_client s = Idle \<Longrightarrow> sy_calls s = Write [] # cs \<Longrightarrow> buf_step s (s\<lparr>sy_calls := cs\<rparr>)"
| write_start: "sy_client s = Idle \<Longrightarrow> sy_calls s = Write d # cs \<Longrightarrow> d \<noteq> [] \<Longrightarrow>
    buf_step s (s\<lparr>sy_calls := cs, sy_client := Writing d\<rparr>)"
| write_error: "sy_client s = Writing r \<Longrightarrow> io_output_error (sy_io s) \<Longrightarrow> buf_step s (s\<lparr>sy_client := Idle\<rparr>)"
| write_full: "sy_client s = Writing r \<Longrightarrow> \<not> io_output_error (sy_io s) \<Longrightarrow> \<not> has_space (sy_io s) r \<Longrightarrow>
    buf_step s (s\<lparr>sy_io := (sy_io s)\<lparr>io_space_event := False\<rparr>, sy_client := Waiting_space r\<rparr>)"
| write_wake: "sy_client s = Waiting_space r \<Longrightarrow> io_space_event (sy_io s) \<Longrightarrow>
    buf_step s (s\<lparr>sy_io := (sy_io s)\<lparr>io_space_event := False\<rparr>, sy_client := Writing r\<rparr>)"
| write_push: "sy_client s = Writing r \<Longrightarrow> \<not> io_output_error (sy_io s) \<Longrightarrow> has_space (sy_io s) r \<Longrightarrow>
    write_round (sy_io s) r = (io, r') \<Longrightarrow> buf_step s (s\<lparr>sy_io := io, sy_client := after_write r'\<rparr>)"
| seek: "sy_client s = Idle \<Longrightarrow> sy_calls s = Seek off ty # cs \<Longrightarrow> file_output_seek (sy_io s) off ty = (r, io) \<Longrightarrow>
    buf_step s (s\<lparr>sy_io := io, sy_calls := cs\<rparr>)"
| free: "sy_client s = Idle \<Longrightarrow> sy_calls s = [] \<Longrightarrow>
    buf_step s (s\<lparr>sy_io := (sy_io s)\<lparr>io_shutdown_requested := True\<rparr>, sy_client := Stopping\<rparr>)"
| free_signal: "sy_client s = Stopping \<Longrightarrow>
    buf_step s (s\<lparr>sy_io := (sy_io s)\<lparr>io_data_event := True\<rparr>, sy_client := Joining\<rparr>)"
| join: "sy_client s = Joining \<Longrightarrow> sy_thread s = Exited \<Longrightarrow> buf_step s (s\<lparr>sy_client := Finished\<rparr>)"
| wake: "sy_thread s = Wait_data \<Longrightarrow> io_data_event (sy_io s) \<Longrightarrow>
    buf_step s (s\<lparr>sy_io := (sy_io s)\<lparr>io_data_event := False\<rparr>, sy_thread := Fetch\<rparr>)"
| fetch: "sy_thread s = Fetch \<Longrightarrow> fetch_round (sy_io s) (sy_local s) = (flush, io, lc) \<Longrightarrow>
    buf_step s (s\<lparr>sy_io := io, sy_local := lc,
      sy_thread := if flush then Flush else if io_shutdown_requested (sy_io s) then Exited else Wait_data\<rparr>)"
| flush: "sy_thread s = Flush \<Longrightarrow> flush_seek (sy_local s) (sy_file s) = (nothing, lc, f) \<Longrightarrow>
    buf_step s (s\<lparr>sy_local := if nothing then lc else lc\<lparr>lc_chunk := [], lc_force_flush := False\<rparr>,
      sy_file := if nothing then f else file_append f (lc_chunk lc), sy_thread := Fetch\<rparr>)"
| write_fails: "sy_thread s = Flush \<Longrightarrow> flush_seek (sy_local s) (sy_file s) = (False, lc, f) \<Longrightarrow>
    n < length (lc_chunk lc) \<Longrightarrow>
    buf_step s (s\<lparr>sy_io := (sy_io s)\<lparr>io_output_error := True\<rparr>, sy_local := lc,
      sy_file := file_append f (take n (lc_chunk lc)), sy_thread := Exited\<rparr>)"

inductive_cases buf_stepE: "buf_step s t"

definition buf_start :: "nat \<Rightarrow> nat \<Rightarrow> client_call list \<Rightarrow> buf_sys" where
  "buf_start max_bufsize chunk_size calls =
     \<lparr>sy_io = buffered_file_init max_bufsize chunk_size,
      sy_local = \<lparr>lc_chunk = [], lc_want_seek = False, lc_force_flush = False, lc_current = 0, lc_next = 0\<rparr>,
      sy_file = \<lparr>fl_bytes = [], fl_pos = 0\<rparr>, sy_client = Idle, sy_calls = calls, sy_thread = Wait_data\<rparr>"

inductive buf_reachable :: "nat \<Rightarrow> nat \<Rightarrow> client_call list \<Rightarrow> buf_sys \<Rightarrow> bool" for bufsize chunk calls where
  start: "buf_reachable bufsize chunk calls (buf_start bufsize chunk calls)"
| step: "buf_reachable bufsize chunk calls s \<Longrightarrow> buf_step s t \<Longrightarrow> buf_reachable bufsize chunk calls t"


subsection \<open>What the calls mean\<close>

text \<open>
  The specification: the calls, executed one after the other on the file itself.
\<close>

definition seek_target :: "64 word \<Rightarrow> int \<Rightarrow> serialize_seek_type \<Rightarrow> 64 word" where
  "seek_target p offset seek_type =
     (case seek_type of SERIALIZE_SEEK_START \<Rightarrow> word_of_int offset
      | SERIALIZE_SEEK_CURRENT \<Rightarrow> p + word_of_int offset
      | SERIALIZE_SEEK_END \<Rightarrow> p - word_of_int offset)"

fun direct :: "64 word \<Rightarrow> byte list \<Rightarrow> client_call list \<Rightarrow> byte list" where
  "direct p f [] = f"
| "direct p f (Write d # cs) = direct (p + of_nat (length d)) (put f (unat p) d) cs"
| "direct p f (Seek off ty # cs) = direct (seek_target p off ty) f cs"

text \<open>No write reaches the offset \<open>2 ^ 63\<close>.\<close>

fun writes_in_range :: "64 word \<Rightarrow> client_call list \<Rightarrow> bool" where
  "writes_in_range p [] = True"
| "writes_in_range p (Write d # cs) \<longleftrightarrow>
     (d \<noteq> [] \<longrightarrow> unat p + length d < 2 ^ 63) \<and> writes_in_range (p + of_nat (length d)) cs"
| "writes_in_range p (Seek off ty # cs) \<longleftrightarrow> writes_in_range (seek_target p off ty) cs"

definition put_queue :: "byte list \<Rightarrow> (io_header \<times> byte list) list \<Rightarrow> byte list" where
  "put_queue f q = fold (\<lambda>(h, d) f. put f (unat (seek_offset h)) d) q f"

definition chunk_start :: "io_local \<Rightarrow> output_file \<Rightarrow> nat" where
  "chunk_start lc f = (if lc_want_seek lc then unat (lc_next lc) else fl_pos f)"

definition pending_file :: "io_local \<Rightarrow> output_file \<Rightarrow> (io_header \<times> byte list) list \<Rightarrow> byte list" where
  "pending_file lc f q = put_queue (put (fl_bytes f) (chunk_start lc f) (lc_chunk lc)) q"

fun rest_calls :: "client_pc \<Rightarrow> client_call list \<Rightarrow> client_call list" where
  "rest_calls (Writing r) cs = Write r # cs"
| "rest_calls (Waiting_space r) cs = Write r # cs"
| "rest_calls pc cs = cs"

definition entry_ok :: "nat \<Rightarrow> io_header \<times> byte list \<Rightarrow> bool" where
  "entry_ok chunk e \<longleftrightarrow> (case e of (h, d) \<Rightarrow> d \<noteq> [] \<and> data_length h = length d \<and> length d \<le> chunk \<and>
     unat (seek_offset h) + length d < 2 ^ 63)"

definition local_ok :: "nat \<Rightarrow> io_local \<Rightarrow> output_file \<Rightarrow> bool" where
  "local_ok chunk lc f \<longleftrightarrow> unat (lc_current lc) = chunk_start lc f + length (lc_chunk lc) \<and>
     unat (lc_current lc) < 2 ^ 63 \<and> length (lc_chunk lc) \<le> chunk \<and> (lc_want_seek lc \<longrightarrow> lc_chunk lc \<noteq> [])"

subsection \<open>Writing to the file\<close>

lemma put_Nil [simp]: "put f p [] = f"
  by (simp add: put_def)

lemma put_append: "put f p (a @ b) = put (put f p a) (p + length a) b"
  by (cases "a = []"; cases "b = []") (auto simp: put_def Let_def drop_append min_def ac_simps)

lemma put_queue_simps [simp]:
  "put_queue f [] = f"
  "put_queue f ((h, d) # q) = put_queue (put f (unat (seek_offset h)) d) q"
  "put_queue f (q @ q') = put_queue (put_queue f q) q'"
  by (simp_all add: put_queue_def)

lemma unat_plus_length:
  fixes p :: "64 word"
  assumes "unat p + n < 2 ^ 63"
  shows "unat (p + of_nat n) = unat p + n"
proof -
  have "unat (p + of_nat n) = (unat p + n) mod 2 ^ 64"
    by (simp add: unat_word_ariths unat_of_nat take_bit_eq_mod mod_simps)
  also have "\<dots> = unat p + n" using assms by (intro mod_less) simp
  finally show ?thesis .
qed

text \<open>A write in two parts is the same write.\<close>

lemma direct_append:
  assumes "writes_in_range p (Write (a @ b) # cs)" and "a @ b \<noteq> []"
  shows "direct (p + of_nat (length a)) (put f (unat p) a) (Write b # cs) = direct p f (Write (a @ b) # cs)"
    and "writes_in_range (p + of_nat (length a)) (Write b # cs)"
proof -
  have r: "unat p + (length a + length b) < 2 ^ 63" and cs: "writes_in_range (p + of_nat (length (a @ b))) cs"
    using assms by (auto simp only: writes_in_range.simps length_append)
  have u: "unat (p + of_nat (length a)) = unat p + length a"
    by (rule unat_plus_length) (use r in linarith)
  have pos: "p + of_nat (length a) + of_nat (length b) = p + of_nat (length (a @ b))"
    by (simp only: length_append of_nat_add add.assoc)
  show "direct (p + of_nat (length a)) (put f (unat p) a) (Write b # cs) = direct p f (Write (a @ b) # cs)"
    by (simp only: direct.simps u pos put_append)
  show "writes_in_range (p + of_nat (length a)) (Write b # cs)"
    using r cs by (simp only: writes_in_range.simps u pos add.assoc) simp
qed

lemma direct_split:
  assumes "writes_in_range p (Write r # cs)" and "r \<noteq> []"
  shows "direct (p + of_nat (length (take n r))) (put f (unat p) (take n r)) (Write (drop n r) # cs) =
           direct p f (Write r # cs)"
    and "writes_in_range (p + of_nat (length (take n r))) (Write (drop n r) # cs)"
  using direct_append [of p "take n r" "drop n r" cs] assms by (simp_all only: append_take_drop_id simp_thms)

subsection \<open>The steps of the client\<close>

lemma push_loop_config:
  "push_loop k io r = (io', r') \<Longrightarrow> io_chunk_size io' = io_chunk_size io \<and> io_buffer_size io' = io_buffer_size io \<and>
     io_output_error io' = io_output_error io \<and> io_shutdown_requested io' = io_shutdown_requested io \<and>
     io_space_event io' = io_space_event io \<and> io_data_event io' = io_data_event io"
  by (induction k io r rule: push_loop.induct) (auto simp: Let_def push_piece_def split: if_splits)

lemma push_loop_contents:
  assumes "push_loop k io r = (io', r')" and "writes_in_range (io_next_pos io) (Write r # cs)"
    and "\<forall>e\<in>set (io_data io). entry_ok (io_chunk_size io) e" and "0 < io_chunk_size io"
  shows "direct (io_next_pos io') (put_queue f (io_data io')) (Write r' # cs) =
           direct (io_next_pos io) (put_queue f (io_data io)) (Write r # cs) \<and>
         writes_in_range (io_next_pos io') (Write r' # cs) \<and> (\<forall>e\<in>set (io_data io'). entry_ok (io_chunk_size io) e)"
  using assms
proof (induction k arbitrary: io r)
  case (Suc k)
  show ?case
  proof (cases "r = []")
    case False
    let ?n = "next_chunk_size io r" and ?io = "push_piece io (take (next_chunk_size io r) r)"
    have n: "0 < ?n" "?n \<le> length r" "?n \<le> io_chunk_size io"
      using False Suc.prems(4) by (simp_all add: next_chunk_size_def)
    have io: "io_next_pos ?io = io_next_pos io + of_nat (length (take ?n r))"
      "io_data ?io = io_data io @ [(\<lparr>seek_offset = io_next_pos io, data_length = length (take ?n r)\<rparr>, take ?n r)]"
      "io_chunk_size ?io = io_chunk_size io"
      by (simp_all add: push_piece_def Let_def)
    have run: "push_loop k ?io (drop ?n r) = (io', r')"
      using Suc.prems(1) False by (simp add: Let_def)
    have range: "writes_in_range (io_next_pos ?io) (Write (drop ?n r) # cs)"
      unfolding io by (rule direct_split(2) [OF Suc.prems(2) False])
    have bound: "unat (io_next_pos io) + length (take ?n r) < 2 ^ 63" using Suc.prems(2) False n by simp
    have ok: "entry_ok (io_chunk_size io) (\<lparr>seek_offset = io_next_pos io, data_length = length (take ?n r)\<rparr>, take ?n r)"
      using bound n False by (simp add: entry_ok_def)
    have entries: "\<forall>e\<in>set (io_data ?io). entry_ok (io_chunk_size ?io) e"
      unfolding io using ok Suc.prems(3) by auto
    have "0 < io_chunk_size ?io" using Suc.prems(4) io by simp
    from Suc.IH [OF run range entries this]
    show ?thesis using direct_split(1) [OF Suc.prems(2) False, of ?n "put_queue f (io_data io)"] io
      by (simp del: length_take length_drop direct.simps writes_in_range.simps)
  qed (use Suc.prems in simp)
qed simp

lemma push_loop_measure:
  assumes "push_loop k io r = (io', r')" and "0 < io_chunk_size io"
  shows "length (io_data io') + length r' \<le> length (io_data io) + length r \<and>
         length (io_data io) \<le> length (io_data io') \<and>
         (0 < k \<longrightarrow> r \<noteq> [] \<longrightarrow> length r' < length r)"
  using assms
proof (induction k arbitrary: io r)
  case (Suc k)
  show ?case
  proof (cases "r = []")
    case False
    let ?n = "next_chunk_size io r" and ?io = "push_piece io (take (next_chunk_size io r) r)"
    have run: "push_loop k ?io (drop ?n r) = (io', r')" using Suc.prems(1) False by (simp add: Let_def)
    have io: "length (io_data ?io) = Suc (length (io_data io))" "io_chunk_size ?io = io_chunk_size io"
      by (simp_all add: push_piece_def Let_def)
    have n: "0 < ?n" "?n \<le> length r" using False Suc.prems(2) by (simp_all add: next_chunk_size_def)
    show ?thesis using Suc.IH [OF run] Suc.prems(2) n unfolding io length_drop by linarith
  qed (use Suc.prems in simp)
qed simp

subsection \<open>The steps of the I/O thread\<close>

lemma fetch_one:
  assumes "local_ok chunk lc f" and "entry_ok chunk (h, d)"
    and "seek_offset h = lc_current lc \<or> lc_chunk lc = [] \<and> \<not> lc_want_seek lc"
    and "lc' = (if seek_offset h = lc_current lc then lc
           else lc\<lparr>lc_want_seek := True, lc_next := seek_offset h, lc_current := seek_offset h\<rparr>)"
    and "data_length h + length (lc_chunk lc') \<le> chunk"
    and "lc'' = lc'\<lparr>lc_chunk := lc_chunk lc' @ d, lc_current := lc_current lc' + of_nat (data_length h)\<rparr>"
  shows "local_ok chunk lc'' f" and "pending_file lc'' f q = pending_file lc f ((h, d) # q)"
proof -
  have d: "d \<noteq> []" "data_length h = length d" "unat (seek_offset h) + length d < 2 ^ 63"
    using assms(2) by (simp_all add: entry_ok_def)
  have u: "unat (seek_offset h + of_nat (length d)) = unat (seek_offset h) + length d"
    by (rule unat_plus_length) (rule d(3))
  have lc: "unat (lc_current lc) = chunk_start lc f + length (lc_chunk lc)"
    using assms(1) by (simp add: local_ok_def)
  show "local_ok chunk lc'' f"
  proof (cases "seek_offset h = lc_current lc")
    case True
    then show ?thesis using assms d u lc by (simp add: local_ok_def chunk_start_def)
  next
    case False
    then show ?thesis using assms d u by (auto simp add: local_ok_def chunk_start_def)
  qed
  show "pending_file lc'' f q = pending_file lc f ((h, d) # q)"
  proof (cases "seek_offset h = lc_current lc")
    case True
    then show ?thesis using assms(4,6) lc by (simp add: pending_file_def put_append chunk_start_def)
  next
    case False
    then show ?thesis using assms(3,4,6) by (auto simp add: pending_file_def chunk_start_def)
  qed
qed

lemma fetch_loop_contents:
  assumes "fetch_loop chunk lc q = (lc', q')" and "local_ok chunk lc f" and "\<forall>e\<in>set q. entry_ok chunk e"
  shows "local_ok chunk lc' f \<and> pending_file lc' f q' = pending_file lc f q \<and> (\<forall>e\<in>set q'. entry_ok chunk e) \<and>
         (q' = [] \<or> lc_force_flush lc' \<and> lc_chunk lc' \<noteq> []) \<and>
         (lc_force_flush lc' \<longrightarrow> lc_force_flush lc \<or> lc_chunk lc' \<noteq> []) \<and>
         length q' \<le> length q \<and> (lc_chunk lc = [] \<longrightarrow> lc_chunk lc' \<noteq> [] \<longrightarrow> length q' < length q)"
  using assms
proof (induction chunk lc q arbitrary: lc' q' rule: fetch_loop.induct)
  case (2 chunk lc h d q)
  let ?discontinuous = "seek_offset h \<noteq> lc_current lc"
  define lc1 where "lc1 = (if seek_offset h = lc_current lc then lc
    else lc\<lparr>lc_want_seek := True, lc_next := seek_offset h, lc_current := seek_offset h\<rparr>)"
  define lc2 where "lc2 = lc1\<lparr>lc_chunk := lc_chunk lc1 @ d, lc_current := lc_current lc1 + of_nat (data_length h)\<rparr>"
  have e: "entry_ok chunk (h, d)" using "2.prems"(3) by simp
  then have d: "d \<noteq> []" "data_length h \<le> chunk" by (simp_all add: entry_ok_def)
  consider (seek) "?discontinuous" "lc_chunk lc \<noteq> [] \<or> lc_want_seek lc"
    | (full) "\<not> ?discontinuous \<or> \<not> (lc_chunk lc \<noteq> [] \<or> lc_want_seek lc)" "chunk < data_length h + length (lc_chunk lc1)"
    | (take) "\<not> ?discontinuous \<or> \<not> (lc_chunk lc \<noteq> [] \<or> lc_want_seek lc)" "data_length h + length (lc_chunk lc1) \<le> chunk"
    by linarith
  then show ?case
  proof cases
    case seek
    then have "lc_chunk lc \<noteq> []" using "2.prems"(2) by (auto simp: local_ok_def)
    then show ?thesis using seek "2.prems" by (auto simp: Let_def local_ok_def chunk_start_def pending_file_def)
  next
    case full
    then have "lc_chunk lc1 \<noteq> []" using d by auto
    then have "lc1 = lc" using full(1) by (auto simp: lc1_def split: if_splits)
    then show ?thesis using full "2.prems" \<open>lc_chunk lc1 \<noteq> []\<close>
      by (auto simp: Let_def lc1_def local_ok_def chunk_start_def pending_file_def split: if_splits)
  next
    case take
    have now: "local_ok chunk lc2 f" "pending_file lc2 f q = pending_file lc f ((h, d) # q)"
      using fetch_one [OF "2.prems"(2) e _ lc1_def _ lc2_def] take by blast+
    have run: "fetch_loop chunk lc2 q = (lc', q')"
      using "2.prems"(1) take unfolding fetch_loop.simps Let_def lc2_def lc1_def by (auto split: if_splits)
    have ih: "fetch_loop chunk lc2 q = (lc', q') \<Longrightarrow> local_ok chunk lc2 f \<Longrightarrow> \<forall>e\<in>set q. entry_ok chunk e \<Longrightarrow>
       local_ok chunk lc' f \<and> pending_file lc' f q' = pending_file lc2 f q \<and> (\<forall>e\<in>set q'. entry_ok chunk e) \<and>
         (q' = [] \<or> lc_force_flush lc' \<and> lc_chunk lc' \<noteq> []) \<and>
         (lc_force_flush lc' \<longrightarrow> lc_force_flush lc2 \<or> lc_chunk lc' \<noteq> []) \<and>
         length q' \<le> length q \<and> (lc_chunk lc2 = [] \<longrightarrow> lc_chunk lc' \<noteq> [] \<longrightarrow> length q' < length q)"
      using "2.IH" [OF refl _ refl, of lc' q'] take unfolding lc2_def lc1_def
      by (simp split: if_splits)
    have "lc_force_flush lc2 = lc_force_flush lc" by (simp add: lc2_def lc1_def)
    then show ?thesis using ih [OF run now(1)] "2.prems"(3) now(2) by auto
  qed
qed simp

lemma flush_contents:
  assumes "local_ok chunk lc f" and "lc_chunk lc \<noteq> []" and "flush_seek lc f = (nothing, lc', f')"
  shows "\<not> nothing \<and> lc_chunk lc' = lc_chunk lc \<and>
    local_ok chunk (lc'\<lparr>lc_chunk := [], lc_force_flush := False\<rparr>) (file_append f' (lc_chunk lc)) \<and>
    pending_file (lc'\<lparr>lc_chunk := [], lc_force_flush := False\<rparr>) (file_append f' (lc_chunk lc)) q = pending_file lc f q"
proof (cases "lc_want_seek lc")
  case True
  have lc: "unat (lc_next lc) + length (lc_chunk lc) < 2 ^ 63"
    using assms(1) True by (simp add: local_ok_def chunk_start_def)
  have u: "unat (lc_next lc + of_nat (length (lc_chunk lc))) = unat (lc_next lc) + length (lc_chunk lc)"
    by (rule unat_plus_length) (rule lc)
  show ?thesis
    using assms True lc
    by (auto simp: flush_seek_def Let_def local_ok_def chunk_start_def pending_file_def file_append_def fseek_set_def u)
next
  case False
  then show ?thesis
    using assms by (auto simp: flush_seek_def local_ok_def chunk_start_def pending_file_def file_append_def)
qed

subsection \<open>The invariants\<close>

text \<open>
  What is in the file, in the chunk and in the queue, followed by the calls to come, is what the calls
  mean.
\<close>

definition data_inv :: "client_call list \<Rightarrow> buf_sys \<Rightarrow> bool" where
  "data_inv calls s \<longleftrightarrow>
     direct (io_next_pos (sy_io s)) (pending_file (sy_local s) (sy_file s) (io_data (sy_io s)))
            (rest_calls (sy_client s) (sy_calls s)) = direct 0 [] calls \<and>
     writes_in_range (io_next_pos (sy_io s)) (rest_calls (sy_client s) (sy_calls s)) \<and>
     (\<forall>e\<in>set (io_data (sy_io s)). entry_ok (io_chunk_size (sy_io s)) e) \<and>
     local_ok (io_chunk_size (sy_io s)) (sy_local s) (sy_file s) \<and> 0 < io_chunk_size (sy_io s)"

definition stopping :: "client_pc \<Rightarrow> bool" where
  "stopping pc \<longleftrightarrow> pc \<in> {Stopping, Joining, Finished}"

definition control_inv :: "buf_sys \<Rightarrow> bool" where
  "control_inv s \<longleftrightarrow>
     (\<forall>r. sy_client s = Writing r \<or> sy_client s = Waiting_space r \<longrightarrow> r \<noteq> []) \<and>
     (io_shutdown_requested (sy_io s) \<longleftrightarrow> stopping (sy_client s)) \<and>
     (stopping (sy_client s) \<longrightarrow> sy_calls s = []) \<and>
     (sy_thread s = Wait_data \<or> sy_thread s = Fetch \<longrightarrow> \<not> lc_force_flush (sy_local s)) \<and>
     (sy_thread s = Flush \<longrightarrow> lc_chunk (sy_local s) \<noteq> []) \<and>
     (sy_thread s = Exited \<longrightarrow> io_data (sy_io s) = [] \<and> lc_chunk (sy_local s) = [] \<and> stopping (sy_client s)) \<and>
     (sy_client s = Finished \<longrightarrow> sy_thread s = Exited)"

text \<open>Nobody waits for an event that is not coming.\<close>

definition event_inv :: "buf_sys \<Rightarrow> bool" where
  "event_inv s \<longleftrightarrow>
     (sy_thread s = Wait_data \<longrightarrow>
        io_data (sy_io s) \<noteq> [] \<or> sy_client s = Joining \<or> sy_client s = Finished \<longrightarrow> io_data_event (sy_io s)) \<and>
     (\<forall>r. sy_client s = Waiting_space r \<longrightarrow> \<not> io_space_event (sy_io s) \<longrightarrow> io_data (sy_io s) \<noteq> [])"

definition buf_ok :: "client_call list \<Rightarrow> buf_sys \<Rightarrow> bool" where
  "buf_ok calls s \<longleftrightarrow> io_output_error (sy_io s) \<or> data_inv calls s \<and> control_inv s"

definition same_config :: "io_buffer \<Rightarrow> io_buffer \<Rightarrow> bool" where
  "same_config io io' \<longleftrightarrow> io_chunk_size io' = io_chunk_size io \<and> io_buffer_size io' = io_buffer_size io"

lemma buf_step_config:
  "buf_step s t \<Longrightarrow> same_config (sy_io s) (sy_io t) \<and> (io_output_error (sy_io s) \<longrightarrow> io_output_error (sy_io t))"
  by (induction rule: buf_step.induct)
     (auto simp: same_config_def write_round_def file_output_seek_def fetch_round_def Let_def
           dest!: push_loop_config split: if_splits prod.splits)

lemma buf_step_data_inv:
  assumes "buf_step s t" and "data_inv calls s" and "control_inv s" and "\<not> io_output_error (sy_io t)"
  shows "data_inv calls t"
  using assms
proof (induction rule: buf_step.induct)
  case (write_push s r io r')
  from write_push(4) obtain io1 where
    run: "push_loop (free_space (sy_io s) div (next_chunk_size (sy_io s) r + header_size)) (sy_io s) r = (io1, r')"
    and io: "io = io1\<lparr>io_data_event := True\<rparr>"
    by (auto simp: write_round_def Let_def split: prod.splits)
  have "writes_in_range (io_next_pos (sy_io s)) (Write r # sy_calls s)"
    "\<forall>e\<in>set (io_data (sy_io s)). entry_ok (io_chunk_size (sy_io s)) e" "0 < io_chunk_size (sy_io s)"
    using write_push by (simp_all add: data_inv_def)
  note push = push_loop_contents [OF run this, of "put (fl_bytes (sy_file s)) (chunk_start (sy_local s) (sy_file s)) (lc_chunk (sy_local s))"]
  show ?case
    using write_push(1,5) push push_loop_config [OF run] unfolding data_inv_def io pending_file_def
    by (cases "r' = []") (simp_all add: after_write_def)
next
  case (fetch s flush io lc)
  from fetch obtain q where
    run: "fetch_loop (io_chunk_size (sy_io s)) (sy_local s) (io_data (sy_io s)) = (lc, q)"
    and io: "io_data io = q" "io_next_pos io = io_next_pos (sy_io s)" "io_chunk_size io = io_chunk_size (sy_io s)"
    by (auto simp: fetch_round_def Let_def split: prod.splits if_splits)
  have "local_ok (io_chunk_size (sy_io s)) (sy_local s) (sy_file s)"
    "\<forall>e\<in>set (io_data (sy_io s)). entry_ok (io_chunk_size (sy_io s)) e"
    using fetch by (simp_all add: data_inv_def)
  note loop = fetch_loop_contents [OF run this]
  show ?case using fetch(3) loop unfolding data_inv_def by (simp add: io)
next
  case (flush s nothing lc f)
  have "local_ok (io_chunk_size (sy_io s)) (sy_local s) (sy_file s)" "lc_chunk (sy_local s) \<noteq> []"
    using flush by (simp_all add: data_inv_def control_inv_def)
  note flushed = flush_contents [OF this flush(2), of "io_data (sy_io s)"]
  show ?case using flush(3) flushed unfolding data_inv_def by simp
qed (auto simp: data_inv_def control_inv_def file_output_seek_def seek_target_def Let_def after_write_def
       split: if_splits serialize_seek_type.splits)

lemma fetch_round_cases:
  assumes "fetch_round io lc = (flush, io', lc')"
  obtains q where "fetch_loop (io_chunk_size io) lc (io_data io) = (lc', q)"
    and "flush \<longleftrightarrow> lc_force_flush lc' \<or> lc_chunk lc' \<noteq> [] \<and> (65536 \<le> length (lc_chunk lc') \<or> io_shutdown_requested io)"
    and "io' = io\<lparr>io_data := q, io_space_event := True, io_data_event := flush \<and> io_data_event io\<rparr>"
  using assms by (auto simp: fetch_round_def Let_def not_less split: prod.splits if_splits)

lemma write_round_cases:
  assumes "write_round io r = (io', r')"
  obtains io1 where "push_loop (free_space io div (next_chunk_size io r + header_size)) io r = (io1, r')"
    and "io' = io1\<lparr>io_data_event := True\<rparr>"
  using assms by (auto simp: write_round_def Let_def split: prod.splits)

lemma buf_step_control_inv:
  assumes "buf_step s t" and "data_inv calls s" and "control_inv s" and "\<not> io_output_error (sy_io t)"
  shows "control_inv t"
  using assms
proof (induction rule: buf_step.induct)
  case (write_push s r io r')
  from write_push(4) obtain io1 where
    run: "push_loop (free_space (sy_io s) div (next_chunk_size (sy_io s) r + header_size)) (sy_io s) r = (io1, r')"
    and io: "io = io1\<lparr>io_data_event := True\<rparr>"
    by (rule write_round_cases)
  show ?case using write_push(1,6) push_loop_config [OF run]
    by (auto simp: control_inv_def io stopping_def after_write_def)
next
  case (fetch s flush io lc)
  from fetch(2) obtain q where
    run: "fetch_loop (io_chunk_size (sy_io s)) (sy_local s) (io_data (sy_io s)) = (lc, q)"
    and flush: "flush \<longleftrightarrow> lc_force_flush lc \<or>
      lc_chunk lc \<noteq> [] \<and> (65536 \<le> length (lc_chunk lc) \<or> io_shutdown_requested (sy_io s))"
    and io: "io = (sy_io s)\<lparr>io_data := q, io_space_event := True, io_data_event := flush \<and> io_data_event (sy_io s)\<rparr>"
    by (rule fetch_round_cases)
  have "local_ok (io_chunk_size (sy_io s)) (sy_local s) (sy_file s)"
    "\<forall>e\<in>set (io_data (sy_io s)). entry_ok (io_chunk_size (sy_io s)) e"
    using fetch by (simp_all add: data_inv_def)
  note loop = fetch_loop_contents [OF run this]
  show ?case using fetch(1,4) loop unfolding control_inv_def by (auto simp: io flush)
next
  case (flush s nothing lc f)
  have "local_ok (io_chunk_size (sy_io s)) (sy_local s) (sy_file s)" "lc_chunk (sy_local s) \<noteq> []"
    using flush by (simp_all add: data_inv_def control_inv_def)
  note flushed = flush_contents [OF this flush(2), of "[]"]
  show ?case using flush(1,4) flushed unfolding control_inv_def by auto
qed (auto simp: control_inv_def stopping_def file_output_seek_def Let_def split: if_splits)

lemma has_space_empty:
  assumes "io_data io = []" and "io_chunk_size io + header_size \<le> io_buffer_size io"
  shows "has_space io r"
  using assms by (simp add: has_space_def free_space_def next_chunk_size_def data_size_def)

lemma buf_step_event_inv:
  assumes "buf_step s t" and "event_inv s" and "data_inv calls s" and "control_inv s" and "\<not> io_output_error (sy_io t)"
    and "io_chunk_size (sy_io s) + header_size \<le> io_buffer_size (sy_io s)"
  shows "event_inv t"
  using assms
proof (induction rule: buf_step.induct)
  case (write_full s r)
  then show ?case using has_space_empty [of "sy_io s" r] by (auto simp: event_inv_def)
next
  case (write_push s r io r')
  from write_push(4) obtain io1 where
    run: "push_loop (free_space (sy_io s) div (next_chunk_size (sy_io s) r + header_size)) (sy_io s) r = (io1, r')"
    and io: "io = io1\<lparr>io_data_event := True\<rparr>"
    by (rule write_round_cases)
  show ?case by (auto simp: event_inv_def io after_write_def)
next
  case (fetch s flush io lc)
  from fetch(2) obtain q where
    run: "fetch_loop (io_chunk_size (sy_io s)) (sy_local s) (io_data (sy_io s)) = (lc, q)"
    and flush: "flush \<longleftrightarrow> lc_force_flush lc \<or>
      lc_chunk lc \<noteq> [] \<and> (65536 \<le> length (lc_chunk lc) \<or> io_shutdown_requested (sy_io s))"
    and io: "io = (sy_io s)\<lparr>io_data := q, io_space_event := True, io_data_event := flush \<and> io_data_event (sy_io s)\<rparr>"
    by (rule fetch_round_cases)
  have "local_ok (io_chunk_size (sy_io s)) (sy_local s) (sy_file s)"
    "\<forall>e\<in>set (io_data (sy_io s)). entry_ok (io_chunk_size (sy_io s)) e"
    using fetch by (simp_all add: data_inv_def)
  note loop = fetch_loop_contents [OF run this]
  show ?case using fetch(1,5) loop unfolding event_inv_def control_inv_def by (auto simp: io flush stopping_def)
qed (auto simp: event_inv_def file_output_seek_def Let_def split: if_splits)

subsection \<open>The reachable states\<close>

lemma buf_start_ok:
  assumes "writes_in_range 0 calls"
  shows "data_inv calls (buf_start bufsize chunk calls)" "control_inv (buf_start bufsize chunk calls)"
    "event_inv (buf_start bufsize chunk calls)"
  using assms by (simp_all add: data_inv_def control_inv_def event_inv_def stopping_def buf_start_def
      buffered_file_init_def local_ok_def chunk_start_def pending_file_def DEFAULT_CHUNK_SIZE_def)

lemma buf_reachable_config:
  assumes "buf_reachable bufsize chunk calls s"
  shows "same_config (buffered_file_init bufsize chunk) (sy_io s)"
  using assms
proof (induction rule: buf_reachable.induct)
  case start
  show ?case by (simp add: buf_start_def same_config_def)
next
  case (step s t)
  then show ?case using buf_step_config [of s t] by (simp add: same_config_def)
qed

lemma buf_reachable_ok:
  assumes "buf_reachable bufsize chunk calls s" and "writes_in_range 0 calls" and "\<not> io_output_error (sy_io s)"
  shows "data_inv calls s \<and> control_inv s"
  using assms
proof (induction rule: buf_reachable.induct)
  case start
  then show ?case using buf_start_ok(1,2) by blast
next
  case (step s t)
  then have "\<not> io_output_error (sy_io s)" using buf_step_config by blast
  then show ?case using step buf_step_data_inv buf_step_control_inv by blast
qed

lemma buf_reachable_event_inv:
  assumes "buf_reachable bufsize chunk calls s" and "writes_in_range 0 calls" and "\<not> io_output_error (sy_io s)"
    and "io_chunk_size (buffered_file_init bufsize chunk) + header_size \<le> io_buffer_size (buffered_file_init bufsize chunk)"
  shows "event_inv s"
  using assms
proof (induction rule: buf_reachable.induct)
  case start
  then show ?case using buf_start_ok(3) by blast
next
  case (step s t)
  have err: "\<not> io_output_error (sy_io s)" using step(5,2) buf_step_config by blast
  note inv = buf_reachable_ok [OF step(1,4) err]
  have "io_chunk_size (sy_io s) + header_size \<le> io_buffer_size (sy_io s)"
    using buf_reachable_config [OF step(1)] step(6) by (simp add: same_config_def)
  then show ?case using buf_step_event_inv [OF step(2) step(3) [OF step(4) err step(6)]] inv step(5) by blast
qed

subsection \<open>The writer returns\<close>

text \<open>Every step makes this number smaller.\<close>

fun client_weight :: "client_pc \<Rightarrow> nat" where
  "client_weight Idle = 7"
| "client_weight (Writing r) = 8 + 9 * length r"
| "client_weight (Waiting_space r) = 7 + 9 * length r"
| "client_weight Stopping = 6"
| "client_weight Joining = 1"
| "client_weight Finished = 0"

fun call_weight :: "client_call \<Rightarrow> nat" where
  "call_weight (Write d) = 2 + 9 * length d"
| "call_weight (Seek off ty) = 1"

definition work_left :: "buf_sys \<Rightarrow> nat" where
  "work_left s = client_weight (sy_client s) + sum_list (map call_weight (sy_calls s)) +
     4 * length (io_data (sy_io s)) + (if lc_chunk (sy_local s) = [] then 0 else 4) +
     (if io_data_event (sy_io s) then 4 else 0) + (if io_space_event (sy_io s) then 2 else 0) +
     (if sy_thread s = Fetch then 4 else if sy_thread s = Exited then 0 else 1)"

lemma buf_step_work_left:
  assumes "buf_step s t" and "\<not> io_output_error (sy_io s) \<Longrightarrow> data_inv calls s \<and> control_inv s"
    and "io_output_error (sy_io s) \<Longrightarrow> sy_thread s = Exited"
  shows "work_left t < work_left s"
  using assms
proof (induction rule: buf_step.induct)
  case (write_push s r io r')
  then have inv: "data_inv calls s" "control_inv s" by blast+
  from write_push(4) obtain io1 where
    run: "push_loop (free_space (sy_io s) div (next_chunk_size (sy_io s) r + header_size)) (sy_io s) r = (io1, r')"
    and io: "io = io1\<lparr>io_data_event := True\<rparr>"
    by (rule write_round_cases)
  have "0 < free_space (sy_io s) div (next_chunk_size (sy_io s) r + header_size)"
    using write_push(3) by (simp add: has_space_def div_greater_zero_iff header_size_def)
  moreover have "r \<noteq> []" "0 < length r" using write_push(1) inv(2) by (auto simp: control_inv_def)
  moreover have "0 < io_chunk_size (sy_io s)" using inv(1) by (simp add: data_inv_def)
  ultimately have "9 * length r' + 4 * length (io_data io1) + 5 \<le> 9 * length r + 4 * length (io_data (sy_io s))"
    using push_loop_measure [OF run] by linarith
  then show ?case
    using write_push(1) push_loop_config [OF run]
    by (cases "r' = []") (auto simp: work_left_def io after_write_def)
next
  case (fetch s flush io lc)
  then have inv: "data_inv calls s" "control_inv s" by auto
  from fetch(2) obtain q where
    run: "fetch_loop (io_chunk_size (sy_io s)) (sy_local s) (io_data (sy_io s)) = (lc, q)"
    and io: "io = (sy_io s)\<lparr>io_data := q, io_space_event := True, io_data_event := flush \<and> io_data_event (sy_io s)\<rparr>"
    by (rule fetch_round_cases)
  have "local_ok (io_chunk_size (sy_io s)) (sy_local s) (sy_file s)"
    "\<forall>e\<in>set (io_data (sy_io s)). entry_ok (io_chunk_size (sy_io s)) e"
    using inv by (simp_all add: data_inv_def)
  note loop = fetch_loop_contents [OF run this]
  have "4 * length q + (if lc_chunk lc = [] then 0 else 4) \<le>
      4 * length (io_data (sy_io s)) + (if lc_chunk (sy_local s) = [] then 0 else 4)"
    using loop by (cases "lc_chunk lc = []"; cases "lc_chunk (sy_local s) = []") auto
  then show ?case using fetch(1) by (auto simp: work_left_def io)
next
  case (flush s nothing lc f)
  then have inv: "data_inv calls s" "control_inv s" by auto
  have "local_ok (io_chunk_size (sy_io s)) (sy_local s) (sy_file s)" "lc_chunk (sy_local s) \<noteq> []"
    using flush inv by (simp_all add: data_inv_def control_inv_def)
  note flushed = flush_contents [OF this flush(2), of "[]"]
  show ?case using flush(1) flushed inv by (auto simp: work_left_def control_inv_def)
next
  case (write_fails s lc f n)
  then show ?case by (auto simp: work_left_def flush_seek_def Let_def split: if_splits)
qed (auto simp: work_left_def file_output_seek_def Let_def split: if_splits)

lemma buf_reachable_error_exited:
  assumes "buf_reachable bufsize chunk calls s" and "io_output_error (sy_io s)"
  shows "sy_thread s = Exited"
  using assms
proof (induction rule: buf_reachable.induct)
  case (step s t)
  from step(2) show ?case using step(3,4)
    by (cases rule: buf_step.cases)
       (auto simp: file_output_seek_def fetch_round_def write_round_def Let_def dest!: push_loop_config
         split: if_splits prod.splits)
qed (simp add: buf_start_def buffered_file_init_def)

lemma no_infinite_descent:
  fixes f :: "nat \<Rightarrow> nat"
  assumes "\<And>n. f (Suc n) < f n"
  shows False
  using assms by (meson wf_less wf_iff_no_infinite_down_chain mem_Collect_eq case_prodI)

lemma buf_step_progress:
  assumes "control_inv s" and "event_inv s" and "\<not> io_output_error (sy_io s)" and "sy_client s \<noteq> Finished"
  shows "\<exists>t. buf_step s t"
proof -
  { assume "sy_thread s = Fetch"
    moreover obtain flush io lc where "fetch_round (sy_io s) (sy_local s) = (flush, io, lc)" by (metis prod_cases3)
    ultimately have ?thesis by (blast intro: buf_step.fetch) }
  moreover {
    assume "sy_thread s = Flush"
    moreover obtain n lc f where "flush_seek (sy_local s) (sy_file s) = (n, lc, f)" by (metis prod_cases3)
    ultimately have ?thesis by (blast intro: buf_step.flush) }
  moreover {
    fix r assume pc: "sy_client s = Writing r"
    obtain io r' where "write_round (sy_io s) r = (io, r')" by (metis surj_pair)
    then have ?thesis using pc assms(3) buf_step.write_full buf_step.write_push by metis }
  moreover {
    fix r assume pc: "sy_client s = Waiting_space r"
    then have ?thesis if "sy_thread s = Wait_data"
      using assms(2) that buf_step.write_wake buf_step.wake unfolding event_inv_def by metis
    moreover have "sy_thread s \<noteq> Exited" using pc assms(1) by (auto simp: control_inv_def stopping_def) 
    ultimately have ?thesis if "sy_thread s \<noteq> Fetch" "sy_thread s \<noteq> Flush" 
      using that by (cases "sy_thread s") auto }
  moreover {
    assume pc: "sy_client s = Idle"
    have ?thesis
    proof (cases "sy_calls s")
      case Nil
      then show ?thesis using pc buf_step.free by blast
    next
      case (Cons c cs)
      then show ?thesis using pc buf_step.write_empty buf_step.write_start buf_step.seek
        by (cases c) (metis surj_pair)+
    qed }
  moreover {
    assume pc: "sy_client s = Joining"
    then have ?thesis if "sy_thread s = Wait_data" "sy_thread s = Exited"
      using that by simp
    moreover have ?thesis if "sy_thread s = Wait_data"
      using assms(2) pc that buf_step.wake unfolding event_inv_def by blast
    moreover have ?thesis if "sy_thread s = Exited" using pc that buf_step.join by blast
    ultimately have ?thesis if "sy_thread s \<noteq> Fetch" "sy_thread s \<noteq> Flush"
      using that by (cases "sy_thread s") auto }
  ultimately show ?thesis using assms(4) buf_step.free_signal by (cases "sy_client s") blast+
qed

text \<open>The buffer has room for a whole chunk and its header; the default sizes do.\<close>

definition room :: "nat \<Rightarrow> nat \<Rightarrow> bool" where
  "room bufsize chunk \<longleftrightarrow>
     (if chunk \<noteq> 0 then chunk else DEFAULT_CHUNK_SIZE) + header_size \<le> (if bufsize \<noteq> 0 then bufsize else DEFAULT_BUF_SIZE)"

lemma buf_run_reachable:
  assumes "run 0 = buf_start bufsize chunk calls" and "\<forall>n. buf_step (run n) (run (Suc n))"
  shows "buf_reachable bufsize chunk calls (run n)"
  using assms by (induction n) (auto intro: buf_reachable.intros)

lemma buf_no_infinite_run:
  assumes "writes_in_range 0 calls" and "run 0 = buf_start bufsize chunk calls"
  shows "\<exists>n. \<not> buf_step (run n) (run (Suc n))"
proof (rule ccontr)
  assume "\<not> ?thesis"
  then have steps: "\<forall>n. buf_step (run n) (run (Suc n))" by blast
  have "work_left (run (Suc n)) < work_left (run n)" for n
  proof -
    have "buf_reachable bufsize chunk calls (run n)" by (rule buf_run_reachable [OF assms(2) steps])
    then show ?thesis
      using steps buf_reachable_ok buf_reachable_error_exited assms(1) by (intro buf_step_work_left) blast+
  qed
  then show False by (rule no_infinite_descent)
qed

text \<open>One scheduler: the client moves while it can.\<close>

definition client_step :: "buf_sys \<Rightarrow> buf_sys option" where
  "client_step s =
     (case sy_client s of
        Idle \<Rightarrow> (case sy_calls s of
            [] \<Rightarrow> Some (s\<lparr>sy_io := (sy_io s)\<lparr>io_shutdown_requested := True\<rparr>, sy_client := Stopping\<rparr>)
          | Write d # cs \<Rightarrow> Some (if d = [] then s\<lparr>sy_calls := cs\<rparr> else s\<lparr>sy_calls := cs, sy_client := Writing d\<rparr>)
          | Seek off ty # cs \<Rightarrow> Some (s\<lparr>sy_io := snd (file_output_seek (sy_io s) off ty), sy_calls := cs\<rparr>))
      | Writing r \<Rightarrow>
          if io_output_error (sy_io s) then Some (s\<lparr>sy_client := Idle\<rparr>)
          else if \<not> has_space (sy_io s) r
          then Some (s\<lparr>sy_io := (sy_io s)\<lparr>io_space_event := False\<rparr>, sy_client := Waiting_space r\<rparr>)
          else let (io, r') = write_round (sy_io s) r in Some (s\<lparr>sy_io := io, sy_client := after_write r'\<rparr>)
      | Waiting_space r \<Rightarrow>
          if io_space_event (sy_io s)
          then Some (s\<lparr>sy_io := (sy_io s)\<lparr>io_space_event := False\<rparr>, sy_client := Writing r\<rparr>) else None
      | Stopping \<Rightarrow> Some (s\<lparr>sy_io := (sy_io s)\<lparr>io_data_event := True\<rparr>, sy_client := Joining\<rparr>)
      | Joining \<Rightarrow> if sy_thread s = Exited then Some (s\<lparr>sy_client := Finished\<rparr>) else None
      | Finished \<Rightarrow> None)"

definition thread_step :: "buf_sys \<Rightarrow> buf_sys option" where
  "thread_step s =
     (case sy_thread s of
        Wait_data \<Rightarrow>
          if io_data_event (sy_io s) then Some (s\<lparr>sy_io := (sy_io s)\<lparr>io_data_event := False\<rparr>, sy_thread := Fetch\<rparr>)
          else None
      | Fetch \<Rightarrow> let (flush, io, lc) = fetch_round (sy_io s) (sy_local s) in
          Some (s\<lparr>sy_io := io, sy_local := lc,
            sy_thread := if flush then Flush else if io_shutdown_requested (sy_io s) then Exited else Wait_data\<rparr>)
      | Flush \<Rightarrow> let (nothing, lc, f) = flush_seek (sy_local s) (sy_file s) in
          Some (s\<lparr>sy_local := if nothing then lc else lc\<lparr>lc_chunk := [], lc_force_flush := False\<rparr>,
            sy_file := if nothing then f else file_append f (lc_chunk lc), sy_thread := Fetch\<rparr>)
      | Exited \<Rightarrow> None)"

definition buf_next :: "buf_sys \<Rightarrow> buf_sys" where
  "buf_next s = (case client_step s of Some t \<Rightarrow> t
     | None \<Rightarrow> (case thread_step s of Some t \<Rightarrow> t | None \<Rightarrow> s))"

lemma client_step_sound:
  assumes "client_step s = Some t"
  shows "buf_step s t"
proof (cases "sy_client s")
  case Idle
  show ?thesis
  proof (cases "sy_calls s")
    case Nil
    then show ?thesis using assms Idle buf_step.free [of s] by (auto simp add: client_step_def)
  next
    case (Cons c cs)
    show ?thesis
    proof (cases c)
      case (Write d)
      then show ?thesis using assms Idle Cons buf_step.write_empty [of s cs] buf_step.write_start [of s d cs]
        by (auto simp add: client_step_def split: if_splits)
    next
      case (Seek off ty)
      then show ?thesis using assms Idle Cons buf_step.seek [of s off ty cs]
        by (simp add: client_step_def) (metis surj_pair snd_conv)
    qed
  qed
next
  case (Writing r)
  obtain io r' where "write_round (sy_io s) r = (io, r')" by (metis surj_pair)
  then show ?thesis
    using assms Writing buf_step.write_error [of s r] buf_step.write_full [of s r] buf_step.write_push [of s r io r']
    by (auto simp add: client_step_def split: if_splits)
next
  case (Waiting_space r)
  then show ?thesis using assms buf_step.write_wake [of s r] by (auto simp add: client_step_def split: if_splits)
next
  case Stopping
  then show ?thesis using assms buf_step.free_signal [of s] by (auto simp add: client_step_def)
next
  case Joining
  then show ?thesis using assms buf_step.join [of s] by (auto simp add: client_step_def split: if_splits)
qed (use assms in \<open>simp add: client_step_def\<close>)

lemma thread_step_sound:
  assumes "thread_step s = Some t"
  shows "buf_step s t"
proof (cases "sy_thread s")
  case Wait_data
  then show ?thesis using assms buf_step.wake [of s] by (auto simp add: thread_step_def split: if_splits)
next
  case Fetch
  obtain flush io lc where "fetch_round (sy_io s) (sy_local s) = (flush, io, lc)" by (metis prod_cases3)
  then show ?thesis using assms Fetch buf_step.fetch [of s flush io lc] by (auto simp add: thread_step_def)
next
  case Flush
  obtain n lc f where "flush_seek (sy_local s) (sy_file s) = (n, lc, f)" by (metis prod_cases3)
  then show ?thesis using assms Flush buf_step.flush [of s n lc f] by (auto simp add: thread_step_def)
qed (use assms in \<open>simp add: thread_step_def\<close>)

lemma buf_step_client_or_thread: "buf_step s t \<Longrightarrow> client_step s \<noteq> None \<or> thread_step s \<noteq> None"
  by (induction rule: buf_step.induct) (auto simp: client_step_def thread_step_def Let_def split: prod.splits)

lemma buf_next_step:
  assumes "buf_step s t"
  shows "buf_step s (buf_next s)"
  using buf_step_client_or_thread [OF assms] client_step_sound thread_step_sound
  by (auto simp: buf_next_def split: option.splits)

lemma data_inv_finished:
  assumes "data_inv calls s" and "control_inv s" and "sy_client s = Finished"
  shows "fl_bytes (sy_file s) = direct 0 [] calls"
  using assms by (simp add: data_inv_def control_inv_def pending_file_def stopping_def)

lemma buf_stuck_finished:
  assumes "buf_reachable bufsize chunk calls s" and "writes_in_range 0 calls" and "room bufsize chunk"
    and "\<not> io_output_error (sy_io s)" and "\<nexists>t. buf_step s t"
  shows "sy_client s = Finished \<and> fl_bytes (sy_file s) = direct 0 [] calls"
proof -
  have "event_inv s"
    using buf_reachable_event_inv [OF assms(1,2,4)] assms(3) by (simp add: room_def buffered_file_init_def)
  moreover have inv: "data_inv calls s" "control_inv s"
    using buf_reachable_ok [OF assms(1,2,4)] by blast+
  ultimately have "sy_client s = Finished"
    using buf_step_progress [of s] assms(4,5) by blast
  then show ?thesis using data_inv_finished [OF inv] by blast
qed

lemma buf_run_prefix_reachable:
  assumes "run 0 = buf_start bufsize chunk calls" and "\<And>m. m < n \<Longrightarrow> buf_step (run m) (run (Suc m))"
  shows "buf_reachable bufsize chunk calls (run n)"
  using assms(2)
proof (induction n)
  case 0
  show ?case unfolding assms(1) by (rule buf_reachable.start)
next
  case (Suc n)
  then show ?case using buf_reachable.step less_SucI lessI by metis
qed

lemma buf_run_stuck:
  assumes "writes_in_range 0 calls" and "run 0 = buf_start bufsize chunk calls"
    and "\<forall>n t. buf_step (run n) t \<longrightarrow> buf_step (run n) (run (Suc n))"
  shows "\<exists>n. buf_reachable bufsize chunk calls (run n) \<and> (\<nexists>t. buf_step (run n) t)"
proof -
  define n where "n = (LEAST n. \<not> buf_step (run n) (run (Suc n)))"
  obtain k where "\<not> buf_step (run k) (run (Suc k))"
    using buf_no_infinite_run [where run = run, OF assms(1,2)] by blast
  then have stuck: "\<not> buf_step (run n) (run (Suc n))"
    unfolding n_def by (rule LeastI [where P = "\<lambda>n. \<not> buf_step (run n) (run (Suc n))"])
  have "buf_step (run m) (run (Suc m))" if "m < n" for m
    using not_less_Least [OF that [unfolded n_def]] by (rule notnotD)
  then have "buf_reachable bufsize chunk calls (run n)"
    by (rule buf_run_prefix_reachable [where run = run, OF assms(2)])
  then show ?thesis using stuck assms(3) by blast
qed

text \<open>C35: What reaches the file is what the calls mean.  Whatever the interleaving of the client and
the I/O thread, when the serializer has been freed and no write to the file failed, the file holds the bytes
that the same writes and seeks produce when each is executed on the file at once: seeks backwards, gaps and
writes longer than a chunk included.  No write may reach the offset \<open>2 ^ 63\<close>.\<close>
theorem buffered_file_contents:
  assumes "buf_reachable bufsize chunk calls s" and "writes_in_range 0 calls" and "\<not> io_output_error (sy_io s)"
    and "sy_client s = Finished"
  shows "fl_bytes (sy_file s) = direct 0 [] calls"
proof -
  have "data_inv calls s" "control_inv s" using buf_reachable_ok assms by blast+
  then show ?thesis by (rule data_inv_finished [OF _ _ assms(4)])
qed

text \<open>C36: The writer comes back.  With room for a chunk and its header in the buffer, every run that
goes on while some thread can move is finite, without any assumption on the scheduler, and ends with the
serializer freed and the whole data in the file, or with the error flag set by a failed write.\<close>
theorem buffered_file_completes:
  assumes "writes_in_range 0 calls" and "room bufsize chunk" and "run 0 = buf_start bufsize chunk calls"
    and "\<forall>n t. buf_step (run n) t \<longrightarrow> buf_step (run n) (run (Suc n))"
  shows "\<exists>n. io_output_error (sy_io (run n)) \<or>
    sy_client (run n) = Finished \<and> fl_bytes (sy_file (run n)) = direct 0 [] calls"
proof -
  obtain n where "buf_reachable bufsize chunk calls (run n)" "\<nexists>t. buf_step (run n) t"
    using buf_run_stuck [where run = run, OF assms(1,3,4)] by blast
  then show ?thesis using buf_stuck_finished [OF _ assms(1,2), of "run n"] by blast
qed

lemma buf_next_reachable:
  "buf_reachable bufsize chunk calls s \<Longrightarrow> buf_reachable bufsize chunk calls (buf_next s)"
  using client_step_sound thread_step_sound
  by (auto simp: buf_next_def split: option.splits intro: buf_reachable.step)

lemma buf_next_no_error:
  "\<not> io_output_error (sy_io s) \<Longrightarrow> \<not> io_output_error (sy_io (buf_next s))"
  by (auto simp: buf_next_def client_step_def thread_step_def file_output_seek_def fetch_round_def write_round_def
        Let_def dest!: push_loop_config
      split: option.splits client_pc.splits thread_pc.splits list.splits client_call.splits prod.splits if_splits)

definition buf_run :: "nat \<Rightarrow> nat \<Rightarrow> client_call list \<Rightarrow> nat \<Rightarrow> buf_sys" where
  "buf_run bufsize chunk calls n = (buf_next ^^ n) (buf_start bufsize chunk calls)"

lemma buf_run_simps:
  "buf_run bufsize chunk calls 0 = buf_start bufsize chunk calls"
  "buf_run bufsize chunk calls (Suc n) = buf_next (buf_run bufsize chunk calls n)"
  by (simp_all add: buf_run_def)

lemma buf_run_maximal:
  "\<forall>n t. buf_step (buf_run bufsize chunk calls n) t \<longrightarrow>
     buf_step (buf_run bufsize chunk calls n) (buf_run bufsize chunk calls (Suc n))"
  unfolding buf_run_simps using buf_next_step by blast

lemma buf_run_no_error: "\<not> io_output_error (sy_io (buf_run bufsize chunk calls n))"
proof (induction n)
  case 0
  show ?case by (simp add: buf_run_simps buf_start_def buffered_file_init_def)
next
  case (Suc n)
  then show ?case unfolding buf_run_simps by (rule buf_next_no_error)
qed

definition sample_calls :: "client_call list" where
  "sample_calls = [Write [1, 2], Seek 1 SERIALIZE_SEEK_START, Write [3]]"

lemma sample_calls:
  "writes_in_range 0 sample_calls" "room 0 0" "direct 0 [] sample_calls = [1, 3]"
  by (simp_all add: sample_calls_def seek_target_def room_def DEFAULT_CHUNK_SIZE_def DEFAULT_BUF_SIZE_def
      header_size_def put_def)

lemma buffered_file_contents_witness:
  "\<exists>s. buf_reachable 0 0 sample_calls s \<and> fl_bytes (sy_file s) = [1, 3]"
proof -
  obtain n where n: "buf_reachable 0 0 sample_calls (buf_run 0 0 sample_calls n)"
      "\<nexists>t. buf_step (buf_run 0 0 sample_calls n) t"
    using buf_run_stuck [where run = "buf_run 0 0 sample_calls", OF sample_calls(1) buf_run_simps(1) buf_run_maximal]
    by blast
  have "sy_client (buf_run 0 0 sample_calls n) = Finished"
    using buf_stuck_finished [OF n(1) sample_calls(1,2) buf_run_no_error n(2)] by blast
  from buffered_file_contents [OF n(1) sample_calls(1) buf_run_no_error this]
  show ?thesis using n(1) unfolding sample_calls(3) by blast
qed

lemma buffered_file_completes_witness:
  "\<exists>n. sy_client (buf_run 0 0 sample_calls n) = Finished \<and> fl_bytes (sy_file (buf_run 0 0 sample_calls n)) = [1, 3]"
  using buffered_file_completes [where run = "buf_run 0 0 sample_calls",
      OF sample_calls(1,2) buf_run_simps(1) buf_run_maximal] buf_run_no_error
  unfolding sample_calls(3) by blast

text \<open>A buffer without room for a whole chunk and its header blocks the first write of a chunk.\<close>

lemma buf_waiting_stuck:
  assumes "sy_client s = Waiting_space r" and "\<not> io_space_event (sy_io s)"
    and "sy_thread s = Exited \<or> sy_thread s = Wait_data \<and> \<not> io_data_event (sy_io s)"
  shows "\<nexists>t. buf_step s t"
proof -
  have "client_step s = None" "thread_step s = None"
    using assms by (auto simp: client_step_def thread_step_def)
  then show ?thesis using buf_step_client_or_thread by blast
qed

lemma buffered_file_small_buffer_blocks:
  assumes "bufsize \<noteq> 0" and "bufsize \<le> DEFAULT_CHUNK_SIZE" and "length d = DEFAULT_CHUNK_SIZE"
  shows "\<exists>s. buf_reachable bufsize 0 [Write d] s \<and> sy_client s = Waiting_space d \<and> (\<nexists>t. buf_step s t)"
proof -
  define s0 where "s0 = buf_start bufsize 0 [Write d]"
  define s1 where "s1 = s0\<lparr>sy_calls := [], sy_client := Writing d\<rparr>"
  define s2 where "s2 = s1\<lparr>sy_io := (sy_io s1)\<lparr>io_space_event := False\<rparr>, sy_client := Waiting_space d\<rparr>"
  note defs = buf_start_def buffered_file_init_def
  have d: "d \<noteq> []" using assms(3) by (auto simp: DEFAULT_CHUNK_SIZE_def)
  have "buf_step s0 s1" unfolding s1_def by (rule buf_step.write_start) (simp_all add: s0_def defs d)
  moreover have "buf_step s1 s2"
    unfolding s2_def
  proof (rule buf_step.write_full)
    show "\<not> has_space (sy_io s1) d"
      using assms by (simp add: s1_def s0_def defs has_space_def free_space_def next_chunk_size_def
          data_size_def DEFAULT_CHUNK_SIZE_def header_size_def)
  qed (simp_all add: s1_def s0_def defs)
  ultimately have "buf_reachable bufsize 0 [Write d] s2"
    using buf_reachable.start buf_reachable.step unfolding s0_def by blast
  moreover have "\<nexists>t. buf_step s2 t"
    by (rule buf_waiting_stuck [of s2 d]) (simp_all add: s2_def s1_def s0_def defs)
  ultimately show ?thesis by (intro exI [of _ s2]) (simp add: s2_def)
qed

text \<open>After a failed write the I/O thread is gone, and a client that waits for space waits for ever.\<close>

lemma buffered_file_error_blocks:
  assumes d: "length d = 1800000"
  shows "\<exists>s. buf_reachable 1048576 600000 [Write d] s \<and> io_output_error (sy_io s) \<and>
    sy_client s = Waiting_space (drop 1200000 d) \<and> (\<nexists>t. buf_step s t)"
proof -
  let ?R = "buf_reachable 1048576 600000 [Write d]"
  define io where "io q space data pos = \<lparr>io_shutdown_requested = False, io_output_error = False,
     io_space_event = space, io_data_event = data, io_data = q, io_capacity = 1048576, io_next_pos = pos,
     io_buffer_size = 1048576, io_chunk_size = 600000\<rparr>" for q space data pos
  define lc where "lc c p = \<lparr>lc_chunk = c, lc_want_seek = False, lc_force_flush = False, lc_current = p, lc_next = 0\<rparr>"
    for c p
  define st where "st i l c cs t = \<lparr>sy_io = i, sy_local = l, sy_file = \<lparr>fl_bytes = [], fl_pos = 0\<rparr>, sy_client = c,
     sy_calls = cs, sy_thread = t\<rparr>" for i l c cs t
  define p where "p pos x = (\<lparr>seek_offset = pos, data_length = 600000\<rparr>, x :: byte list)" for pos x
  define d1 d2 d3 where "d1 = take 600000 d" and "d2 = drop 600000 d" and "d3 = take 600000 d2"
  have len: "length d1 = 600000" "length d2 = 1200000" "length d3 = 600000" "drop 600000 d2 = drop 1200000 d"
    by (simp_all add: d1_def d2_def d3_def d)
  have ne: "d \<noteq> []" "d2 \<noteq> []" "d1 \<noteq> []" "drop 1200000 d \<noteq> []" using len d by auto
  note sizes = has_space_def free_space_def next_chunk_size_def data_size_def header_size_def p_def len d
  have client: "?R s \<Longrightarrow> client_step s = Some t \<Longrightarrow> ?R t" for s t
    by (rule buf_reachable.step [OF _ client_step_sound])
  have thread: "?R s \<Longrightarrow> thread_step s = Some t \<Longrightarrow> ?R t" for s t
    by (rule buf_reachable.step [OF _ thread_step_sound])
  note defs = st_def io_def client_step_def thread_step_def
  have "?R (st (io [] False False 0) (lc [] 0) Idle [Write d] Wait_data)"
    using buf_reachable.start [of 1048576 600000 "[Write d]"]
    by (simp add: buf_start_def buffered_file_init_def st_def io_def lc_def)
  then have "?R (st (io [] False False 0) (lc [] 0) (Writing d) [] Wait_data)"
    by (rule client) (simp add: defs ne)
  moreover have "write_round (io [] False False 0) d = (io [p 0 d1] False True 600000, d2)"
    by (simp add: write_round_def sizes io_def push_piece_def grown_def d1_def d2_def ne)
  ultimately have "?R (st (io [p 0 d1] False True 600000) (lc [] 0) (Writing d2) [] Wait_data)"
    by - (rule client, assumption, simp add: defs sizes after_write_def ne)
  then have "?R (st (io [p 0 d1] False True 600000) (lc [] 0) (Waiting_space d2) [] Wait_data)"
    by (rule client) (simp add: defs sizes)
  then have "?R (st (io [p 0 d1] False False 600000) (lc [] 0) (Waiting_space d2) [] Fetch)"
    by (rule thread) (simp add: defs sizes)
  moreover have "fetch_round (io [p 0 d1] False False 600000) (lc [] 0) = (True, io [] True False 600000, lc d1 600000)"
    by (simp add: fetch_round_def io_def p_def lc_def len ne Let_def)
  ultimately have "?R (st (io [] True False 600000) (lc d1 600000) (Waiting_space d2) [] Flush)"
    by - (rule thread, assumption, simp add: st_def thread_step_def)
  then have "?R (st (io [] False False 600000) (lc d1 600000) (Writing d2) [] Flush)"
    by (rule client) (simp add: defs)
  moreover have "write_round (io [] False False 600000) d2 = (io [p 600000 d3] False True 1200000, drop 1200000 d)"
    by (simp add: write_round_def sizes io_def push_piece_def grown_def d3_def ne)
  ultimately have "?R (st (io [p 600000 d3] False True 1200000) (lc d1 600000) (Writing (drop 1200000 d)) [] Flush)"
    by - (rule client, assumption, simp add: defs sizes after_write_def ne)
  note writing = this
  let ?s = "st (io [p 600000 d3] False True 1200000) (lc d1 600000) (Waiting_space (drop 1200000 d)) [] Flush"
  have waiting: "?R ?s" by (rule client [OF writing]) (simp add: defs sizes)
  let ?t = "?s\<lparr>sy_io := (sy_io ?s)\<lparr>io_output_error := True\<rparr>, sy_local := lc d1 600000,
      sy_file := file_append (sy_file ?s) (take 0 d1), sy_thread := Exited\<rparr>"
  have "buf_step ?s ?t"
    using buf_step.write_fails [of ?s "lc d1 600000" "sy_file ?s" 0]
    by (simp add: st_def flush_seek_def lc_def ne)
  then have "?R ?t" by (rule buf_reachable.step [OF waiting])
  moreover have "\<nexists>t. buf_step ?t t"
    by (rule buf_waiting_stuck [of _ "drop 1200000 d"]) (simp_all add: st_def io_def)
  ultimately show ?thesis by (intro exI [of _ ?t]) (simp add: st_def)
qed

text \<open>The origin of \<^verbatim>\<open>SERIALIZE_SEEK_END\<close> is the current position, and the offset counts backwards.\<close>

lemma file_output_seek_end:
  assumes "\<not> io_output_error io"
  shows "snd (file_output_seek io off SERIALIZE_SEEK_END) = snd (file_output_seek io (- off) SERIALIZE_SEEK_CURRENT)"
  using assms by (simp add: file_output_seek_def)

end
