(* ===== verification/Utf8.thy ===== *)
theory Utf8
  imports Obs_Prelude
begin

text \<open>
  The conversion between UTF-8 and wide characters, \<^verbatim>\<open>util/utf8.c\<close> (the part for systems
  other than Windows), and the functions of \<^verbatim>\<open>util/platform.c\<close> that allocate for it.

  A wide character is a word of 32 bits; the tests that C makes on the signed type read it with
  \<open>sint\<close>.  An output buffer is a block of cells and the size the caller states for it; a read
  or a write outside of a block is \<open>None\<close>.
\<close>

unbundle bit_operations_syntax

subsection \<open>One sequence\<close>

definition UTF8_IGNORE_ERROR :: "32 word" where "UTF8_IGNORE_ERROR = 0x01"

definition UTF8_SKIP_BOM :: "32 word" where "UTF8_SKIP_BOM = 0x02"

definition wchar_forbidden :: "32 word \<Rightarrow> bool" where
  "wchar_forbidden w \<longleftrightarrow> sint w \<ge> 0xd800 \<and> sint w \<le> 0xdfff"

definition utf8_forbidden :: "8 word \<Rightarrow> bool" where
  "utf8_forbidden octet \<longleftrightarrow> octet = 0xc0 \<or> octet = 0xc1 \<or> octet = 0xf5 \<or> octet = 0xff"

definition byte_at :: "'a list \<Rightarrow> nat \<Rightarrow> 'a option" where
  "byte_at xs p = (if p < length xs then Some (xs ! p) else None)"

text \<open>The length of a sequence and the bits that its first byte holds.\<close>

definition seq_header :: "8 word \<Rightarrow> (nat \<times> 32 word) option" where
  "seq_header b =
     (if b AND 0x80 = 0 then Some (1, ucast b)
      else if b AND 0xe0 = 0xc0 then Some (2, ucast (b AND 0x1f))
      else if b AND 0xf0 = 0xe0 then Some (3, ucast (b AND 0x0f))
      else if b AND 0xf8 = 0xf0 then Some (4, ucast (b AND 0x07))
      else if b AND 0xfc = 0xf8 then Some (5, ucast (b AND 0x03))
      else if b AND 0xfe = 0xfc then Some (6, ucast (b AND 0x01))
      else None)"

fun valid_seq :: "8 word list \<Rightarrow> nat \<Rightarrow> nat \<Rightarrow> nat \<Rightarrow> bool option" where
  "valid_seq inp p i 0 = Some True"
| "valid_seq inp p i (Suc k) =
     do { b \<leftarrow> byte_at inp (p + i); if b AND 0xc0 \<noteq> 0x80 then Some False else valid_seq inp p (i + 1) k }"

fun seq_value :: "8 word list \<Rightarrow> nat \<Rightarrow> nat \<Rightarrow> 32 word \<Rightarrow> nat \<Rightarrow> 32 word \<Rightarrow> nat \<Rightarrow> nat \<Rightarrow> 32 word option" where
  "seq_value inp p n high n_bits out i 0 = Some (out OR push_bit n_bits high)"
| "seq_value inp p n high n_bits out i (Suc k) =
     do { b \<leftarrow> byte_at inp (p + (n - i));
          seq_value inp p n high (n_bits + 6) (out OR push_bit n_bits (ucast (b AND 0x3f))) (i + 1) k }"

text \<open>
  One round of the loop up to the count: the outer \<open>None\<close> is a read outside of the input,
  \<open>Some None\<close> the return of zero; otherwise the bytes to advance, with the symbol if there
  is one.
\<close>

definition utf8_seq :: "8 word list \<Rightarrow> nat option \<Rightarrow> bool \<Rightarrow> nat \<Rightarrow> (nat \<times> 32 word option) option option" where
  "utf8_seq inp lim ignore p =
     do { b \<leftarrow> byte_at inp p;
          let skip = (if ignore then Some (1, None) else None);
          if utf8_forbidden b \<and> \<not> ignore then Some None
          else case seq_header b of
            None \<Rightarrow> Some skip
          | Some (n, high) \<Rightarrow>
              if (case lim of None \<Rightarrow> False | Some l \<Rightarrow> l - p \<le> n - 1) then Some skip
              else do { ok \<leftarrow> valid_seq inp p 1 (n - 1);
                        if \<not> ok then Some skip
                        else do { v \<leftarrow> seq_value inp p n high 0 0 1 (n - 1); Some (Some (n, Some v)) } } }"

subsection \<open>From UTF-8\<close>

text \<open>The symbol is stored; a forbidden one, or a byte order mark to skip, is not kept.\<close>

definition store_wchar ::
    "bool \<Rightarrow> bool \<Rightarrow> nat \<Rightarrow> 32 word option list \<Rightarrow> nat \<Rightarrow> 32 word \<Rightarrow> (bool \<times> 32 word option list) option option" where
  "store_wchar ignore skip_bom outsize out o_pos v =
     (if o_pos \<ge> outsize then Some None
      else do { out \<leftarrow> mem_write out o_pos [Some v];
                if wchar_forbidden v then Some (if ignore then Some (False, out) else None)
                else if v = 0xfeff \<and> skip_bom then Some (Some (False, out))
                else Some (Some (True, out)) })"

function (sequential) utf8_loop ::
    "8 word list \<Rightarrow> nat option \<Rightarrow> bool \<Rightarrow> bool \<Rightarrow> nat \<Rightarrow> nat \<Rightarrow> 32 word option list option \<Rightarrow> nat \<Rightarrow> nat \<Rightarrow>
       (nat \<times> 32 word option list option) option" where
  "utf8_loop inp lim ignore skip_bom outsize p out o_pos tot =
     (if (case lim of None \<Rightarrow> False | Some l \<Rightarrow> l \<le> p) then Some (tot, out)
      else case byte_at inp p of None \<Rightarrow> None
      | Some b \<Rightarrow>
        if b = 0 \<and> lim = None then Some (tot, out)
        else case utf8_seq inp lim ignore p of
          None \<Rightarrow> None
        | Some None \<Rightarrow> Some (0, out)
        | Some (Some (n, None)) \<Rightarrow> utf8_loop inp lim ignore skip_bom outsize (p + max 1 n) out o_pos tot
        | Some (Some (n, Some v)) \<Rightarrow>
            (case out of
               None \<Rightarrow> utf8_loop inp lim ignore skip_bom outsize (p + max 1 n) out o_pos (tot + 1)
             | Some blk \<Rightarrow>
                 (case store_wchar ignore skip_bom outsize blk o_pos v of
                    None \<Rightarrow> None
                  | Some None \<Rightarrow> Some (0, out)
                  | Some (Some (kept, blk)) \<Rightarrow>
                      utf8_loop inp lim ignore skip_bom outsize (p + max 1 n) (Some blk)
                        (if kept then o_pos + 1 else o_pos) (if kept then tot + 1 else tot))))"
  by pat_completeness auto
termination
  by (relation "measure (\<lambda>(inp, lim, ignore, skip_bom, outsize, p, out, o_pos, tot). length inp - p)")
     (auto simp: byte_at_def split: if_splits)

text \<open>In: the string; its size, or 0 to read up to a zero; the buffer or \<open>NULL\<close>, and its size.\<close>

definition utf8_to_wchar ::
    "8 word list \<Rightarrow> nat \<Rightarrow> 32 word option list option \<Rightarrow> nat \<Rightarrow> 32 word \<Rightarrow> (nat \<times> 32 word option list option) option" where
  "utf8_to_wchar inp insize out outsize flags =
     (if outsize = 0 \<and> out \<noteq> None then Some (0, out)
      else utf8_loop inp (if insize \<noteq> 0 then Some insize else None) (flags AND UTF8_IGNORE_ERROR \<noteq> 0)
             (flags AND UTF8_SKIP_BOM \<noteq> 0) outsize 0 out 0 0)"

subsection \<open>To UTF-8\<close>

text \<open>The number of bytes and the bytes of a symbol; \<open>oc k\<close> is a byte of the symbol in memory.\<close>

definition wchar_size :: "32 word \<Rightarrow> nat" where
  "wchar_size w =
     (if w \<le> 0x7f then 1 else if w \<le> 0x7ff then 2 else if w \<le> 0xffff then 3
      else if w \<le> 0x1fffff then 4 else if w \<le> 0x3ffffff then 5 else 6)"

definition oc :: "32 word \<Rightarrow> nat \<Rightarrow> 8 word" where
  "oc ch k = ucast (drop_bit (8 * k) ch)"

definition wchar_bytes :: "32 word \<Rightarrow> 8 word list" where
  "wchar_bytes ch =
     (if wchar_size ch = 1 then [oc ch 0]
      else if wchar_size ch = 2 then
        [0xc0 OR drop_bit 6 (oc ch 0) OR push_bit 2 (oc ch 1 AND 0x07),
         0x80 OR (oc ch 0 AND 0x3f)]
      else if wchar_size ch = 3 then
        [0xe0 OR drop_bit 4 (oc ch 1 AND 0xf0),
         0x80 OR drop_bit 6 (oc ch 0) OR push_bit 2 (oc ch 1 AND 0x0f),
         0x80 OR (oc ch 0 AND 0x3f)]
      else if wchar_size ch = 4 then
        [0xf0 OR drop_bit 2 (oc ch 2 AND 0x1f),
         0x80 OR drop_bit 4 (oc ch 1 AND 0xf0) OR push_bit 4 (oc ch 2 AND 0x03),
         0x80 OR drop_bit 6 (oc ch 0) OR push_bit 2 (oc ch 1 AND 0x0f),
         0x80 OR (oc ch 0 AND 0x3f)]
      else if wchar_size ch = 5 then
        [0xf8 OR (oc ch 3 AND 0x03),
         0x80 OR drop_bit 2 (oc ch 2),
         0x80 OR drop_bit 4 (oc ch 1 AND 0xf0) OR push_bit 4 (oc ch 2 AND 0x03),
         0x80 OR drop_bit 6 (oc ch 0) OR push_bit 2 (oc ch 1 AND 0x0f),
         0x80 OR (oc ch 0 AND 0x3f)]
      else
        [0xfc OR drop_bit 6 (oc ch 3 AND 0x40),
         0x80 OR (oc ch 3 AND 0x3f),
         0x80 OR drop_bit 2 (oc ch 2),
         0x80 OR drop_bit 4 (oc ch 1) OR push_bit 4 (oc ch 2 AND 0x03),
         0x80 OR drop_bit 6 (oc ch 0) OR push_bit 2 (oc ch 1 AND 0x0f),
         0x80 OR (oc ch 0 AND 0x3f)])"

function (sequential) wchar_loop ::
    "32 word list \<Rightarrow> nat option \<Rightarrow> bool \<Rightarrow> bool \<Rightarrow> nat \<Rightarrow> nat \<Rightarrow> 8 word option list option \<Rightarrow> nat \<Rightarrow> nat \<Rightarrow>
       (nat \<times> 8 word option list option) option" where
  "wchar_loop inp lim ignore skip_bom outsize w out p tot =
     (if (case lim of None \<Rightarrow> False | Some l \<Rightarrow> l \<le> w) then Some (tot, out)
      else case byte_at inp w of None \<Rightarrow> None
      | Some ch \<Rightarrow>
        if ch = 0 \<and> lim = None then Some (tot, out)
        else if wchar_forbidden ch \<and> \<not> ignore then Some (0, out)
        else if wchar_forbidden ch then wchar_loop inp lim ignore skip_bom outsize (w + 1) out p tot
        else if ch = 0xfeff \<and> skip_bom then wchar_loop inp lim ignore skip_bom outsize (w + 1) out p tot
        else if sint ch < 0 \<and> \<not> ignore then Some (0, out)
        else if sint ch < 0 then wchar_loop inp lim ignore skip_bom outsize (w + 1) out p tot
        else case out of
          None \<Rightarrow> wchar_loop inp lim ignore skip_bom outsize (w + 1) out p (tot + wchar_size ch)
        | Some blk \<Rightarrow>
            if outsize - p \<le> wchar_size ch - 1 then Some (0, out)
            else (case mem_write blk p (map Some (wchar_bytes ch)) of None \<Rightarrow> None
              | Some blk \<Rightarrow> wchar_loop inp lim ignore skip_bom outsize (w + 1) (Some blk)
                  (p + wchar_size ch) (tot + wchar_size ch)))"
  by pat_completeness auto
termination
  by (relation "measure (\<lambda>(inp, lim, ignore, skip_bom, outsize, w, out, p, tot). length inp - w)")
     (auto simp: byte_at_def split: if_splits)

definition wchar_to_utf8 ::
    "32 word list \<Rightarrow> nat \<Rightarrow> 8 word option list option \<Rightarrow> nat \<Rightarrow> 32 word \<Rightarrow> (nat \<times> 8 word option list option) option" where
  "wchar_to_utf8 inp insize out outsize flags =
     (if outsize = 0 \<and> out \<noteq> None then Some (0, out)
      else wchar_loop inp (if insize \<noteq> 0 then Some insize else None) (flags AND UTF8_IGNORE_ERROR \<noteq> 0)
             (flags AND UTF8_SKIP_BOM \<noteq> 0) outsize 0 out 0 0)"

subsection \<open>With allocation\<close>

text \<open>\<^verbatim>\<open>strlen\<close> and \<^verbatim>\<open>wcslen\<close>.\<close>

definition zlen :: "'a :: zero list \<Rightarrow> nat option" where
  "zlen xs = (if 0 \<in> set xs then Some (length (takeWhile (\<lambda>x. x \<noteq> 0) xs)) else None)"

definition os_utf8_to_wcs ::
    "8 word list \<Rightarrow> nat \<Rightarrow> 32 word option list option \<Rightarrow> nat \<Rightarrow> (nat \<times> 32 word option list option) option" where
  "os_utf8_to_wcs str len dst dst_size =
     do { in_len \<leftarrow> (if len \<noteq> 0 then Some len else zlen str);
          case dst of
            None \<Rightarrow> utf8_to_wchar str in_len None 0 0
          | Some blk \<Rightarrow>
              if dst_size = 0 then Some (0, dst)
              else do { (out_len, dst) \<leftarrow> (if dst_size - 1 \<noteq> 0 then utf8_to_wchar str in_len dst (dst_size - 1 + 1) 0
                                            else Some (dst_size - 1, dst));
                        blk \<leftarrow> dst;
                        blk \<leftarrow> mem_write blk out_len [Some 0];
                        Some (out_len, Some blk) } }"

definition os_utf8_to_wcs_ptr :: "8 word list \<Rightarrow> nat \<Rightarrow> (nat \<times> 32 word option list option) option" where
  "os_utf8_to_wcs_ptr str len =
     do { (out_len, _) \<leftarrow> os_utf8_to_wcs str len None 0;
          os_utf8_to_wcs str len (Some (replicate (out_len + 1) None)) (out_len + 1) }"

definition os_wcs_to_utf8 ::
    "32 word list \<Rightarrow> nat \<Rightarrow> 8 word option list option \<Rightarrow> nat \<Rightarrow> (nat \<times> 8 word option list option) option" where
  "os_wcs_to_utf8 str len dst dst_size =
     do { in_len \<leftarrow> (if len \<noteq> 0 then Some len else zlen str);
          case dst of
            None \<Rightarrow> wchar_to_utf8 str in_len None 0 0
          | Some blk \<Rightarrow>
              if dst_size = 0 then Some (0, dst)
              else do { (out_len, dst) \<leftarrow> (if dst_size - 1 \<noteq> 0 then wchar_to_utf8 str in_len dst (dst_size - 1) 0
                                            else Some (dst_size - 1, dst));
                        blk \<leftarrow> dst;
                        blk \<leftarrow> mem_write blk out_len [Some 0];
                        Some (out_len, Some blk) } }"

definition os_wcs_to_utf8_ptr :: "32 word list \<Rightarrow> nat \<Rightarrow> (nat \<times> 8 word option list option) option" where
  "os_wcs_to_utf8_ptr str len =
     do { (out_len, _) \<leftarrow> os_wcs_to_utf8 str len None 0;
          os_wcs_to_utf8 str len (Some (replicate (out_len + 1) None)) (out_len + 1) }"

subsection \<open>A symbol there and back\<close>

lemma all_less_32:
  "(\<forall>k<32. P k) \<longleftrightarrow> P 0 \<and> P 1 \<and> P 2 \<and> P 3 \<and> P 4 \<and> P 5 \<and> P 6 \<and> P 7 \<and> P 8 \<and> P 9 \<and> P 10 \<and> P 11 \<and>
     P 12 \<and> P 13 \<and> P 14 \<and> P 15 \<and> P 16 \<and> P 17 \<and> P 18 \<and> P 19 \<and> P 20 \<and> P 21 \<and> P 22 \<and> P 23 \<and> P 24 \<and>
     P 25 \<and> P 26 \<and> P 27 \<and> P 28 \<and> P 29 \<and> P 30 \<and> P (31 :: nat)"
  by (simp add: All_less_Suc eval_nat_numeral) blast

lemma all_less_8: "(\<forall>k<8. P k) \<longleftrightarrow> P 0 \<and> P 1 \<and> P 2 \<and> P 3 \<and> P 4 \<and> P 5 \<and> P 6 \<and> P (7 :: nat)"
  by (simp add: All_less_Suc eval_nat_numeral) blast

text \<open>Two words are equal when all their bits, written out, are.\<close>

lemma word32_eqI:
  fixes a b :: "32 word"
  assumes "\<forall>k<32. bit a k \<longleftrightarrow> bit b k"
  shows "a = b"
  using assms by (auto intro: bit_word_eqI)

lemma word8_eq_iff: "(a :: 8 word) = b \<longleftrightarrow> (\<forall>k<8. bit a k \<longleftrightarrow> bit b k)"
  by (auto intro: bit_word_eqI)

lemma take_bit_small:
  fixes c :: "32 word"
  assumes "unat c < 2 ^ n"
  shows "take_bit n c = c"
  using assms by (simp add: word_unat_eq_iff unsigned_take_bit_eq take_bit_nat_eq_self)

lemma sint_nonneg: "0 \<le> sint (c :: 32 word) \<longleftrightarrow> unat c < 2 ^ 31"
proof -
  have "unat c < 2 ^ 32" using unsigned_less [of c] by simp
  then have "unat c div 2 ^ 31 < 2" by (intro less_mult_imp_div_less) simp
  then have "unat c div 2 ^ 31 = 0 \<or> unat c div 2 ^ 31 = 1" by linarith
  moreover have "sint c < 0 \<longleftrightarrow> odd (unat c div 2 ^ 31)"
  proof -
    have "sint c < 0 \<longleftrightarrow> bit c 31" using bit_last_iff [of c] by simp
    also have "\<dots> \<longleftrightarrow> bit (unat c) 31" by (simp add: bit_unsigned_iff)
    also have "\<dots> \<longleftrightarrow> odd (unat c div 2 ^ 31)" by (simp only: bit_iff_odd)
    finally show ?thesis .
  qed
  ultimately show ?thesis by (auto simp: not_less)
qed

lemma wchar_size_bits:
  assumes "0 \<le> sint c"
  shows "wchar_size c = 1 \<Longrightarrow> take_bit 7 c = c" "wchar_size c = 2 \<Longrightarrow> take_bit 11 c = c"
    "wchar_size c = 3 \<Longrightarrow> take_bit 16 c = c" "wchar_size c = 4 \<Longrightarrow> take_bit 21 c = c"
    "wchar_size c = 5 \<Longrightarrow> take_bit 26 c = c" "wchar_size c = 6 \<Longrightarrow> take_bit 31 c = c"
  using assms by (auto intro!: take_bit_small simp: sint_nonneg wchar_size_def word_le_nat_alt split: if_splits)

text \<open>Each part of the decoder on the bytes of a symbol of 2 to 6 bytes.\<close>

lemma seq_numeral [simp]:
  "seq_value inp p n high n_bits out i (numeral k) =
     do { b \<leftarrow> byte_at inp (p + (n - i));
          seq_value inp p n high (n_bits + 6) (out OR push_bit n_bits (ucast (b AND 0x3f))) (i + 1) (pred_numeral k) }"
  "valid_seq inp p i (numeral k) =
     do { b \<leftarrow> byte_at inp (p + i); if b AND 0xc0 \<noteq> 0x80 then Some False else valid_seq inp p (i + 1) (pred_numeral k) }"
  by (simp_all add: numeral_eq_Suc)

lemma seq_value_bytes:
  "wchar_size c = 2 \<Longrightarrow> seq_value (wchar_bytes c) 0 2 (ucast (wchar_bytes c ! 0 AND 0x1f)) 0 0 1 1 = Some (take_bit 11 c)"
  "wchar_size c = 3 \<Longrightarrow> seq_value (wchar_bytes c) 0 3 (ucast (wchar_bytes c ! 0 AND 0x0f)) 0 0 1 2 = Some (take_bit 16 c)"
  "wchar_size c = 4 \<Longrightarrow> seq_value (wchar_bytes c) 0 4 (ucast (wchar_bytes c ! 0 AND 0x07)) 0 0 1 3 = Some (take_bit 21 c)"
  "wchar_size c = 5 \<Longrightarrow> seq_value (wchar_bytes c) 0 5 (ucast (wchar_bytes c ! 0 AND 0x03)) 0 0 1 4 = Some (take_bit 26 c)"
  "wchar_size c = 6 \<Longrightarrow> seq_value (wchar_bytes c) 0 6 (ucast (wchar_bytes c ! 0 AND 0x01)) 0 0 1 5 = Some (take_bit 31 c)"
  by (simp_all add: wchar_bytes_def byte_at_def nth_Cons',
      (rule word32_eqI, unfold all_less_32, simp add: bit_simps oc_def)+)

lemma continuation_bits: "(0x80 OR x) AND 0xc0 = (0x80 :: 8 word) \<longleftrightarrow> \<not> bit x 6"
  by (simp add: word8_eq_iff all_less_8 bit_simps)

lemma valid_seq_bytes: "valid_seq (wchar_bytes c) 0 1 (wchar_size c - 1) = Some True"
proof -
  have "wchar_size c \<in> {1, 2, 3, 4, 5, 6}" by (simp add: wchar_size_def)
  then show ?thesis
    by (elim insertE emptyE) (simp_all add: wchar_bytes_def byte_at_def nth_Cons' or.assoc continuation_bits bit_simps oc_def)
qed

lemma first_byte:
  "wchar_size c = 2 \<Longrightarrow> wchar_bytes c ! 0 AND 0xe0 = 0xc0"
  "wchar_size c = 3 \<Longrightarrow> wchar_bytes c ! 0 AND 0xf0 = 0xe0"
  "wchar_size c = 4 \<Longrightarrow> wchar_bytes c ! 0 AND 0xf8 = 0xf0"
  "wchar_size c = 5 \<Longrightarrow> wchar_bytes c ! 0 AND 0xfc = 0xf8"
  "wchar_size c = 6 \<Longrightarrow> wchar_bytes c ! 0 AND 0xfe = 0xfc"
  by (simp_all add: wchar_bytes_def word8_eq_iff all_less_8 bit_simps oc_def)

lemma seq_header_first:
  "b AND 0xe0 = 0xc0 \<Longrightarrow> seq_header b = Some (2, ucast (b AND 0x1f))"
  "b AND 0xf0 = 0xe0 \<Longrightarrow> seq_header b = Some (3, ucast (b AND 0x0f))"
  "b AND 0xf8 = 0xf0 \<Longrightarrow> seq_header b = Some (4, ucast (b AND 0x07))"
  "b AND 0xfc = 0xf8 \<Longrightarrow> seq_header b = Some (5, ucast (b AND 0x03))"
  "b AND 0xfe = 0xfc \<Longrightarrow> seq_header b = Some (6, ucast (b AND 0x01))"
  by (auto simp: seq_header_def word8_eq_iff all_less_8 bit_simps)

lemma length_wchar_bytes: "length (wchar_bytes c) = wchar_size c"
  by (simp add: wchar_bytes_def wchar_size_def)

text \<open>The symbols that the decoder accepts: \<open>f5\<close>, the first byte of \<open>0x140000\<close> to \<open>0x17ffff\<close>, is one it rejects.\<close>

definition wchar_ok :: "32 word \<Rightarrow> bool" where
  "wchar_ok c \<longleftrightarrow> 0 \<le> sint c \<and> \<not> wchar_forbidden c \<and> \<not> (0x140000 \<le> c \<and> c \<le> 0x17ffff)"

lemma word_le_from_and: "c AND m = m \<Longrightarrow> m \<le> (c :: 32 word)"
  using word_and_le2 [of c m] by simp

lemma first_byte_allowed:
  assumes "wchar_ok c"
  shows "\<not> utf8_forbidden (wchar_bytes c ! 0)"
proof -
  have nn: "0 \<le> sint c" using assms by (simp add: wchar_ok_def)
  note small = wchar_size_bits [OF nn]
  have "wchar_size c \<in> {1, 2, 3, 4, 5, 6}" by (simp add: wchar_size_def)
  then consider "wchar_size c = 1" | "wchar_size c = 2" | "wchar_size c = 3" | "wchar_size c = 4"
    | "wchar_size c = 5" | "wchar_size c = 6" by blast
  then show ?thesis
  proof cases
    case 1
    have "wchar_bytes c ! 0 AND 0x80 = 0"
      using small(1) [OF 1] by (simp add: 1 wchar_bytes_def word8_eq_iff all_less_8 bit_simps oc_def) (metis bit_take_bit_iff less_irrefl_nat)
    then show ?thesis by (auto simp: utf8_forbidden_def)
  next
    case 2
    { assume "wchar_bytes c ! 0 AND 0xfe = 0xc0"
      then have high: "\<not> bit c 7" "\<not> bit c 8" "\<not> bit c 9" "\<not> bit c 10"
        by (simp_all add: 2 wchar_bytes_def word8_eq_iff all_less_8 bit_simps oc_def)
      have "take_bit 11 c = c AND 0x7f"
        by (rule word32_eqI, unfold all_less_32) (simp add: high bit_simps)
      then have "c \<le> 0x7f" using small(2) [OF 2] word_and_le1 [of c "0x7f"] by simp
      then have False using 2 by (simp add: wchar_size_def) }
    moreover have "wchar_bytes c ! 0 AND 0xe0 = 0xc0" by (rule first_byte(1) [OF 2])
    ultimately show ?thesis by (auto simp: utf8_forbidden_def)
  next
    case 4
    { assume "wchar_bytes c ! 0 = 0xf5"
      then have bits: "bit c 18" "\<not> bit c 19" "bit c 20"
        by (simp_all add: 4 wchar_bytes_def word8_eq_iff all_less_8 bit_simps oc_def)
      have "c AND 0x140000 = 0x140000"
        by (rule word32_eqI, unfold all_less_32) (simp add: bits bit_simps)
      then have "0x140000 \<le> c" by (rule word_le_from_and)
      moreover have "take_bit 21 c AND 0x17ffff = take_bit 21 c"
        by (rule word32_eqI, unfold all_less_32) (simp add: bits bit_simps)
      then have "c \<le> 0x17ffff" using small(4) [OF 4] word_and_le1 [of c "0x17ffff"] by simp
      ultimately have False using assms by (simp add: wchar_ok_def) }
    moreover have "wchar_bytes c ! 0 AND 0xf8 = 0xf0" by (rule first_byte(3) [OF 4])
    ultimately show ?thesis by (auto simp: utf8_forbidden_def)
  next
    case 3
    have "wchar_bytes c ! 0 AND 0xf0 = 0xe0" by (rule first_byte(2) [OF 3])
    then show ?thesis by (auto simp: utf8_forbidden_def)
  next
    case 5
    have "wchar_bytes c ! 0 AND 0xfc = 0xf8" by (rule first_byte(4) [OF 5])
    then show ?thesis by (auto simp: utf8_forbidden_def)
  next
    case 6
    have "wchar_bytes c ! 0 AND 0xfe = 0xfc" by (rule first_byte(5) [OF 6])
    then have "wchar_bytes c ! 0 \<noteq> 0xc0" "wchar_bytes c ! 0 \<noteq> 0xc1" "wchar_bytes c ! 0 \<noteq> 0xf5" by auto
    moreover have "wchar_bytes c ! 0 \<noteq> 0xff"
      by (simp add: 6 wchar_bytes_def word8_eq_iff all_less_8 bit_simps oc_def)
    ultimately show ?thesis by (simp add: utf8_forbidden_def)
  qed
qed

lemma byte_at_append: "k < length bs \<Longrightarrow> byte_at (pre @ bs @ post) (length pre + k) = byte_at bs k"
  by (simp add: byte_at_def nth_append)

lemma valid_seq_append:
  "i + k \<le> length bs \<Longrightarrow> valid_seq (pre @ bs @ post) (length pre) i k = valid_seq bs 0 i k"
  by (induction k arbitrary: i) (simp_all add: byte_at_append cong: if_cong)

lemma seq_value_append:
  "n \<le> length bs \<Longrightarrow> 0 < i \<Longrightarrow> i + k \<le> n \<Longrightarrow>
     seq_value (pre @ bs @ post) (length pre) n high n_bits out i k = seq_value bs 0 n high n_bits out i k"
  by (induction k arbitrary: i n_bits out) (simp_all add: byte_at_append del: diff_add_assoc2 flip: add_diff_assoc)

lemma seq_of_wchar:
  assumes nn: "0 \<le> sint c"
  shows "\<exists>high. seq_header (wchar_bytes c ! 0) = Some (wchar_size c, high) \<and>
    seq_value (wchar_bytes c) 0 (wchar_size c) high 0 0 1 (wchar_size c - 1) = Some c"
proof -
  note small = wchar_size_bits [OF nn]
  have "wchar_size c \<in> {1, 2, 3, 4, 5, 6}" by (simp add: wchar_size_def)
  then consider "wchar_size c = 1" | "wchar_size c = 2" | "wchar_size c = 3" | "wchar_size c = 4"
    | "wchar_size c = 5" | "wchar_size c = 6" by blast
  then show ?thesis
  proof cases
    case 1
    have high: "\<not> bit c k" if "7 \<le> k" for k
      using small(1) [OF 1] that by (metis bit_take_bit_iff not_less)
    have "wchar_bytes c ! 0 AND 0x80 = 0"
      by (simp add: 1 wchar_bytes_def word8_eq_iff all_less_8 bit_simps oc_def high)
    moreover have "ucast (wchar_bytes c ! 0) = c"
      by (rule word32_eqI, unfold all_less_32) (simp add: 1 wchar_bytes_def bit_simps oc_def high)
    ultimately show ?thesis using 1 by (simp add: seq_header_def)
  next
    case 2
    show ?thesis using seq_value_bytes(1) [OF 2] seq_header_first(1) [OF first_byte(1) [OF 2]] small(2) [OF 2] 2 by (simp del: seq_numeral)
  next
    case 3
    show ?thesis using seq_value_bytes(2) [OF 3] seq_header_first(2) [OF first_byte(2) [OF 3]] small(3) [OF 3] 3 by (simp del: seq_numeral)
  next
    case 4
    show ?thesis using seq_value_bytes(3) [OF 4] seq_header_first(3) [OF first_byte(3) [OF 4]] small(4) [OF 4] 4 by (simp del: seq_numeral)
  next
    case 5
    show ?thesis using seq_value_bytes(4) [OF 5] seq_header_first(4) [OF first_byte(4) [OF 5]] small(5) [OF 5] 5 by (simp del: seq_numeral)
  next
    case 6
    show ?thesis using seq_value_bytes(5) [OF 6] seq_header_first(5) [OF first_byte(5) [OF 6]] small(6) [OF 6] 6 by (simp del: seq_numeral)
  qed
qed

lemma utf8_seq_bytes:
  assumes "wchar_ok c" and "length pre + wchar_size c \<le> l"
  shows "utf8_seq (pre @ wchar_bytes c @ post) (Some l) ignore (length pre) = Some (Some (wchar_size c, Some c))"
proof -
  have nn: "0 \<le> sint c" using assms(1) by (simp add: wchar_ok_def)
  note small = wchar_size_bits [OF nn]
  have n: "wchar_size c \<in> {1, 2, 3, 4, 5, 6}" by (simp add: wchar_size_def)
  then have ne: "0 < length (wchar_bytes c)" unfolding length_wchar_bytes by auto
  have b: "byte_at (pre @ wchar_bytes c @ post) (length pre) = Some (wchar_bytes c ! 0)"
    using byte_at_append [OF ne, of pre post] ne by (simp add: byte_at_def)
  have "1 + (wchar_size c - 1) \<le> length (wchar_bytes c)" using n by (auto simp: length_wchar_bytes)
  from valid_seq_append [OF this, of pre post]
  have valid: "valid_seq (pre @ wchar_bytes c @ post) (length pre) 1 (wchar_size c - 1) = Some True"
    by (simp only: valid_seq_bytes)
  obtain high where head: "seq_header (wchar_bytes c ! 0) = Some (wchar_size c, high)"
    and seq_val: "seq_value (wchar_bytes c) 0 (wchar_size c) high 0 0 1 (wchar_size c - 1) = Some c"
    using seq_of_wchar [OF nn] by blast
  have seq_all: "seq_value (pre @ wchar_bytes c @ post) (length pre) (wchar_size c) high 0 0 1 (wchar_size c - 1) = Some c"
    using n seq_val seq_value_append [of "wchar_size c" "wchar_bytes c" 1 "wchar_size c - 1" pre post high 0 0]
    by (auto simp: length_wchar_bytes simp del: seq_numeral)
  have "\<not> l - length pre \<le> wchar_size c - 1" using assms(2) n by auto
  then show ?thesis
    using b valid head seq_all first_byte_allowed [OF assms(1)]
    by (simp add: utf8_seq_def Let_def)
qed

subsection \<open>Whole strings\<close>

declare utf8_loop.simps [simp del] wchar_loop.simps [simp del] seq_numeral [simp del]

definition utf8_bytes :: "32 word list \<Rightarrow> 8 word list" where
  "utf8_bytes cs = concat (map wchar_bytes cs)"

lemma wchar_size_pos: "0 < wchar_size c" by (simp add: wchar_size_def)

lemma utf8_bytes_simps [simp]:
  "utf8_bytes [] = []" "utf8_bytes (c # cs) = wchar_bytes c @ utf8_bytes cs"
  by (simp_all add: utf8_bytes_def)

lemma byte_at_length [simp]: "byte_at (pre @ c # post) (length pre) = Some c"
  by (simp add: byte_at_def)

lemma drop_append_length: "n = length xs \<Longrightarrow> drop n (xs @ ys) = ys" by simp

lemma wchar_loop_count:
  assumes "list_all wchar_ok cs" and "l = length pre + length cs"
  shows "wchar_loop (pre @ cs @ post) (Some l) ignore False outsize (length pre) None p tot =
           Some (tot + length (utf8_bytes cs), None)"
  using assms
proof (induction cs arbitrary: pre p tot)
  case Nil
  then show ?case by (simp add: wchar_loop.simps)
next
  case (Cons c cs)
  have c: "\<not> wchar_forbidden c" "\<not> sint c < 0" using Cons.prems(1) by (auto simp: wchar_ok_def)
  have "wchar_loop ((pre @ [c]) @ cs @ post) (Some l) ignore False outsize (length (pre @ [c])) None p (tot + wchar_size c) =
      Some (tot + wchar_size c + length (utf8_bytes cs), None)"
    using Cons.prems by (intro Cons.IH) simp_all
  then show ?case
    using Cons.prems(2) c by (subst wchar_loop.simps) (simp add: length_wchar_bytes)
qed

lemma wchar_loop_store:
  assumes "list_all wchar_ok cs" and "l = length pre + length cs"
    and "length X + length (utf8_bytes cs) \<le> outsize" and "length (utf8_bytes cs) \<le> length R"
  shows "wchar_loop (pre @ cs @ post) (Some l) ignore False outsize (length pre) (Some (X @ R)) (length X) tot =
           Some (tot + length (utf8_bytes cs), Some (X @ map Some (utf8_bytes cs) @ drop (length (utf8_bytes cs)) R))"
  using assms
proof (induction cs arbitrary: pre X R tot)
  case Nil
  then show ?case by (simp add: wchar_loop.simps)
next
  case (Cons c cs)
  let ?b = "map Some (wchar_bytes c)"
  have c: "\<not> wchar_forbidden c" "\<not> sint c < 0" using Cons.prems(1) by (auto simp: wchar_ok_def)
  have room: "\<not> outsize - length X \<le> wchar_size c - 1"
    using Cons.prems(3) wchar_size_pos [of c] by (simp add: length_wchar_bytes)
  have "wchar_size c \<le> length R" using Cons.prems(4) by (simp add: length_wchar_bytes)
  then have put: "mem_write (X @ R) (length X) ?b = Some ((X @ ?b) @ drop (wchar_size c) R)"
    by (simp add: mem_write_def length_wchar_bytes)
  have "wchar_loop ((pre @ [c]) @ cs @ post) (Some l) ignore False outsize (length (pre @ [c]))
      (Some ((X @ ?b) @ drop (wchar_size c) R)) (length (X @ ?b)) (tot + wchar_size c) =
      Some (tot + wchar_size c + length (utf8_bytes cs),
        Some ((X @ ?b) @ map Some (utf8_bytes cs) @ drop (length (utf8_bytes cs)) (drop (wchar_size c) R)))"
    using Cons.prems by (intro Cons.IH) (simp_all add: length_wchar_bytes)
  then show ?case
    using Cons.prems(2) c room put
    by (subst wchar_loop.simps) (simp add: length_wchar_bytes add.commute add.left_commute)
qed

lemma utf8_loop_count:
  assumes "list_all wchar_ok cs" and "l = length pre + length (utf8_bytes cs)"
  shows "utf8_loop (pre @ utf8_bytes cs @ post) (Some l) ignore False outsize (length pre) None o_pos tot =
           Some (tot + length cs, None)"
  using assms
proof (induction cs arbitrary: pre tot)
  case Nil
  then show ?case by (simp add: utf8_loop.simps)
next
  case (Cons c cs)
  have scan: "utf8_seq (pre @ wchar_bytes c @ (utf8_bytes cs @ post)) (Some l) ignore (length pre) = Some (Some (wchar_size c, Some c))"
    by (rule utf8_seq_bytes) (use Cons.prems in \<open>simp_all add: length_wchar_bytes\<close>)
  have b: "\<exists>b. byte_at (pre @ wchar_bytes c @ (utf8_bytes cs @ post)) (length pre) = Some b"
    using wchar_size_pos [of c] by (simp add: byte_at_def length_wchar_bytes)
  have "utf8_loop ((pre @ wchar_bytes c) @ utf8_bytes cs @ post) (Some l) ignore False outsize
      (length (pre @ wchar_bytes c)) None o_pos (tot + 1) = Some (tot + 1 + length cs, None)"
    using Cons.prems by (intro Cons.IH) simp_all
  then show ?case
    using Cons.prems(2) scan b wchar_size_pos [of c]
    by (subst utf8_loop.simps) (auto simp add: length_wchar_bytes max_def)
qed

lemma utf8_loop_store:
  assumes "list_all wchar_ok cs" and "l = length pre + length (utf8_bytes cs)"
    and "length X + length cs \<le> outsize" and "length cs \<le> length R"
  shows "utf8_loop (pre @ utf8_bytes cs @ post) (Some l) ignore False outsize (length pre) (Some (X @ R)) (length X) tot =
           Some (tot + length cs, Some (X @ map Some cs @ drop (length cs) R))"
  using assms
proof (induction cs arbitrary: pre X R tot)
  case Nil
  then show ?case by (simp add: utf8_loop.simps)
next
  case (Cons c cs)
  have scan: "utf8_seq (pre @ wchar_bytes c @ (utf8_bytes cs @ post)) (Some l) ignore (length pre) = Some (Some (wchar_size c, Some c))"
    by (rule utf8_seq_bytes) (use Cons.prems in \<open>simp_all add: length_wchar_bytes\<close>)
  have b: "\<exists>b. byte_at (pre @ wchar_bytes c @ (utf8_bytes cs @ post)) (length pre) = Some b"
    using wchar_size_pos [of c] by (simp add: byte_at_def length_wchar_bytes)
  obtain x R' where R: "R = x # R'" using Cons.prems(4) by (cases R) auto
  have "store_wchar ignore False outsize (X @ R) (length X) c = Some (Some (True, (X @ [Some c]) @ R'))"
    using Cons.prems(1,3) by (simp add: store_wchar_def mem_write_def R wchar_ok_def)
  moreover have "utf8_loop ((pre @ wchar_bytes c) @ utf8_bytes cs @ post) (Some l) ignore False outsize
      (length (pre @ wchar_bytes c)) (Some ((X @ [Some c]) @ R')) (length (X @ [Some c])) (tot + 1) =
      Some (tot + 1 + length cs, Some ((X @ [Some c]) @ map Some cs @ drop (length cs) R'))"
    using Cons.prems by (intro Cons.IH) (simp_all add: R)
  ultimately show ?case
    using Cons.prems(2) scan b wchar_size_pos [of c]
    by (subst utf8_loop.simps) (auto simp add: length_wchar_bytes max_def R)
qed

lemma wchar_bytes_nonzero:
  assumes "c \<noteq> 0" and "0 \<le> sint c"
  shows "0 \<notin> set (wchar_bytes c)"
proof -
  have small: "take_bit 7 c = c" if "wchar_size c = 1" using wchar_size_bits(1) [OF assms(2) that] .
  have "ucast c \<noteq> (0 :: 8 word)" if "wchar_size c = 1"
  proof
    assume z: "ucast c = (0 :: 8 word)"
    have "c = 0"
    proof (rule word32_eqI, intro allI impI)
      fix k :: nat assume "k < 32"
      have "k < 7" if "bit c k" using small [OF \<open>wchar_size c = 1\<close>] that by (metis bit_take_bit_iff)
      then have "bit c k \<longleftrightarrow> k < 7 \<and> bit (ucast c :: 8 word) k" by (auto simp: bit_simps)
      then show "bit c k \<longleftrightarrow> bit 0 k" using z by simp
    qed
    then show False using assms(1) by simp
  qed
  moreover have or_nz: "x OR y \<noteq> 0" if "x \<noteq> 0" for x y :: "8 word"
    using that by (simp add: or_eq_0_iff)
  ultimately show ?thesis by (auto simp: wchar_bytes_def oc_def or_eq_0_iff)
qed

lemma utf8_bytes_nonzero: "list_all wchar_ok cs \<Longrightarrow> 0 \<notin> set cs \<Longrightarrow> 0 \<notin> set (utf8_bytes cs)"
  by (induction cs) (auto simp: wchar_bytes_nonzero wchar_ok_def)

lemma zlen_terminated:
  assumes "0 \<notin> set xs"
  shows "zlen (xs @ [0]) = Some (length xs)"
proof -
  have "takeWhile (\<lambda>x. x \<noteq> 0) (xs @ [0]) = xs @ takeWhile (\<lambda>x. x \<noteq> 0) [0]"
    by (rule takeWhile_append2) (use assms in metis)
  then show ?thesis by (simp add: zlen_def)
qed

lemma drop_block [simp]: "drop n (None # replicate n None) = [None]"
  by (metis drop_append_length length_replicate replicate_append_same)

lemma length_utf8_bytes_pos: "cs \<noteq> [] \<Longrightarrow> 0 < length (utf8_bytes cs)"
  by (cases cs) (simp_all add: length_wchar_bytes wchar_size_pos)

lemma os_wcs_to_utf8_ptr_ok:
  assumes "list_all wchar_ok cs" and "0 \<notin> set cs"
  shows "os_wcs_to_utf8_ptr (cs @ [0]) 0 = Some (length (utf8_bytes cs), Some (map Some (utf8_bytes cs) @ [Some 0]))"
proof (cases "cs = []")
  case True
  then show ?thesis
    by (simp add: os_wcs_to_utf8_ptr_def os_wcs_to_utf8_def zlen_def wchar_to_utf8_def wchar_loop.simps byte_at_def mem_write_def)
next
  case False
  let ?n = "length (utf8_bytes cs)"
  have n: "0 < ?n" using length_utf8_bytes_pos [OF False] .
  have count: "wchar_loop (cs @ [0]) (Some (length cs)) False False outsize 0 None 0 0 = Some (?n, None)" for outsize
    using wchar_loop_count [OF assms(1), where pre = "[]" and post = "[0]"] by simp
  have "wchar_loop (cs @ [0]) (Some (length cs)) False False ?n 0 (Some (replicate (?n + 1) None)) 0 0 =
      Some (?n, Some (map Some (utf8_bytes cs) @ [None]))"
    using wchar_loop_store [OF assms(1), where pre = "[]" and post = "[0]" and X = "[]" and R = "replicate (?n + 1) None"]
    by simp
  then show ?thesis using n False
    by (simp add: os_wcs_to_utf8_ptr_def os_wcs_to_utf8_def zlen_terminated [OF assms(2)] wchar_to_utf8_def count
        mem_write_def)
qed

lemma os_utf8_to_wcs_ptr_ok:
  assumes "list_all wchar_ok cs" and "0 \<notin> set cs"
  shows "os_utf8_to_wcs_ptr (utf8_bytes cs @ [0]) 0 = Some (length cs, Some (map Some cs @ [Some 0]))"
proof (cases "cs = []")
  case True
  then show ?thesis
    by (simp add: os_utf8_to_wcs_ptr_def os_utf8_to_wcs_def zlen_def utf8_to_wchar_def utf8_loop.simps byte_at_def mem_write_def)
next
  case False
  let ?n = "length (utf8_bytes cs)"
  have n: "0 < ?n" using length_utf8_bytes_pos [OF False] .
  have count: "utf8_loop (utf8_bytes cs @ [0]) (Some ?n) False False outsize 0 None 0 0 = Some (length cs, None)" for outsize
    using utf8_loop_count [OF assms(1), where pre = "[]" and post = "[0]"] by simp
  have "utf8_loop (utf8_bytes cs @ [0]) (Some ?n) False False (length cs + 1) 0 (Some (replicate (length cs + 1) None)) 0 0 =
      Some (length cs, Some (map Some cs @ [None]))"
    using utf8_loop_store [OF assms(1), where pre = "[]" and post = "[0]" and X = "[]" and R = "replicate (length cs + 1) None"]
    by simp
  then show ?thesis using n False
    by (simp add: os_utf8_to_wcs_ptr_def os_utf8_to_wcs_def zlen_terminated [OF utf8_bytes_nonzero [OF assms]]
        utf8_to_wchar_def count mem_write_def)
qed

text \<open>C37: A wide string survives the way to UTF-8 and back.  Both conversions stay inside the blocks
they allocate and end them with a zero, for every string of symbols that is neither negative nor a surrogate nor
between \<open>0x140000\<close> and \<open>0x17ffff\<close>; sequences of one to six bytes are covered.\<close>
theorem utf8_roundtrip:
  assumes "list_all wchar_ok cs" and "0 \<notin> set cs"
  shows "\<exists>bs. os_wcs_to_utf8_ptr (cs @ [0]) 0 = Some (length bs, Some (map Some bs @ [Some 0])) \<and>
    os_utf8_to_wcs_ptr (bs @ [0]) 0 = Some (length cs, Some (map Some cs @ [Some 0]))"
  using os_wcs_to_utf8_ptr_ok [OF assms] os_utf8_to_wcs_ptr_ok [OF assms] by blast

lemma utf8_roundtrip_witness:
  "\<exists>bs. os_wcs_to_utf8_ptr [0x41, 0xe9, 0x20ac, 0x1f600, 0] 0 = Some (length bs, Some (map Some bs @ [Some 0])) \<and>
    os_utf8_to_wcs_ptr (bs @ [0]) 0 = Some (4, Some [Some 0x41, Some 0xe9, Some 0x20ac, Some 0x1f600, Some 0])"
proof -
  have ok: "list_all wchar_ok [0x41, 0xe9, 0x20ac, 0x1f600]" "0 \<notin> set [0x41, 0xe9, 0x20ac, 0x1f600 :: 32 word]"
    by (simp_all add: wchar_ok_def wchar_forbidden_def)
  have len: "length [0x41, 0xe9, 0x20ac, 0x1f600 :: 32 word] = 4" by simp
  from utf8_roundtrip [OF ok, unfolded len] show ?thesis by simp
qed

subsection \<open>Any bytes\<close>

lemma valid_seq_in_bounds: "p + i + k \<le> length inp \<Longrightarrow> \<exists>ok. valid_seq inp p i k = Some ok"
  by (induction k arbitrary: i) (auto simp: byte_at_def)

lemma seq_value_in_bounds: "p + n \<le> length inp \<Longrightarrow> 0 < i \<Longrightarrow> i + k \<le> n \<Longrightarrow> \<exists>v. seq_value inp p n high n_bits out i k = Some v"
  by (induction k arbitrary: i n_bits out) (auto simp: byte_at_def)

lemma seq_header_pos: "seq_header b = Some (n, high) \<Longrightarrow> 0 < n"
  by (auto simp: seq_header_def split: if_splits)

lemma utf8_seq_in_bounds:
  assumes "p < l" and "l \<le> length inp"
  shows "\<exists>r. utf8_seq inp (Some l) ignore p = Some r"
proof -
  have b: "byte_at inp p = Some (inp ! p)" using assms by (simp add: byte_at_def)
  show ?thesis
  proof (cases "seq_header (inp ! p)")
    case None
    then show ?thesis using b by (simp add: utf8_seq_def Let_def)
  next
    case (Some nh)
    obtain n high where nh: "nh = (n, high)" by (cases nh)
    then have n: "0 < n" using Some seq_header_pos by blast
    show ?thesis
    proof (cases "l - p \<le> n - 1")
      case True
      then show ?thesis using b Some nh by (simp add: utf8_seq_def Let_def)
    next
      case False
      then have "p + 1 + (n - 1) \<le> length inp" "p + n \<le> length inp" using assms n by linarith+
      then obtain ok v where "valid_seq inp p 1 (n - 1) = Some ok" "seq_value inp p n high 0 0 1 (n - 1) = Some v"
        using valid_seq_in_bounds seq_value_in_bounds [of p n inp 1 "n - 1"] n by fastforce
      then show ?thesis using b Some nh False by (simp add: utf8_seq_def Let_def)
    qed
  qed
qed

lemma utf8_loop_first_pass:
  assumes "l \<le> length inp"
  shows "\<exists>N. utf8_loop inp (Some l) ignore skip_bom outsize p None o_pos tot = Some (N, None)"
proof (induction "length inp - p" arbitrary: p tot rule: less_induct)
  case less
  show ?case
  proof (cases "l \<le> p")
    case True
    then show ?thesis by (simp add: utf8_loop.simps)
  next
    case False
    obtain b where b: "byte_at inp p = Some b" using False assms by (simp add: byte_at_def)
    obtain r where r: "utf8_seq inp (Some l) ignore p = Some r"
      using utf8_seq_in_bounds False assms by (meson not_le)
    have next_round: "\<exists>N. utf8_loop inp (Some l) ignore skip_bom outsize (p + max 1 n) None o_pos tot = Some (N, None)" for n tot
      by (rule less) (use False assms in linarith)
    show ?thesis
      using False b r next_round by (subst utf8_loop.simps) (auto split: option.split prod.split)
  qed
qed

lemma utf8_loop_second_pass:
  assumes "utf8_loop inp (Some l) False False os p None o_pos tot = Some (N, None)" and "l \<le> length inp"
    and "outsize \<le> length blk" and "\<forall>i<tot. blk ! i \<noteq> None"
  shows "\<exists>n blk'. utf8_loop inp (Some l) False False outsize p (Some blk) tot tot = Some (n, Some blk') \<and>
    (n = 0 \<or> n = N) \<and> length blk' = length blk \<and> (\<forall>i<n. blk' ! i \<noteq> None)"
  using assms(1,3,4)
proof (induction "length inp - p" arbitrary: p tot blk rule: less_induct)
  case less
  show ?case
  proof (cases "l \<le> p")
    case True
    then show ?thesis using less.prems by (simp add: utf8_loop.simps)
  next
    case False
    obtain b where b: "byte_at inp p = Some b" using False assms by (simp add: byte_at_def)
    obtain r where r: "utf8_seq inp (Some l) False p = Some r"
      using utf8_seq_in_bounds False assms(2) by (meson not_le)
    show ?thesis
    proof (cases r)
      case None
      then show ?thesis using False b r less.prems by (simp add: utf8_loop.simps)
    next
      case (Some nv)
      obtain n v where nv: "nv = (n, v)" by (cases nv)
      have measure: "length inp - (p + max 1 n) < length inp - p" using False assms(2) by linarith
      show ?thesis
      proof (cases v)
        case None
        have "utf8_loop inp (Some l) False False os (p + max 1 n) None o_pos tot = Some (N, None)"
          using less.prems(1) False b r Some nv None by (simp add: utf8_loop.simps [of _ _ _ _ _ p])
        from less.hyps [OF measure this less.prems(2,3)]
        show ?thesis using False b r Some nv None by (simp add: utf8_loop.simps [of _ _ _ _ _ p])
      next
        fix c assume c: "v = Some c"
        have first: "utf8_loop inp (Some l) False False os (p + max 1 n) None o_pos (tot + 1) = Some (N, None)"
          using less.prems(1) False b r Some nv c by (simp add: utf8_loop.simps [of _ _ _ _ _ p])
        show ?thesis
        proof (cases "tot < outsize \<and> \<not> wchar_forbidden c")
          case True
          define blk2 where "blk2 = take tot blk @ [Some c] @ drop (tot + 1) blk"
          have store: "store_wchar False False outsize blk tot c = Some (Some (True, blk2))"
            using True less.prems(2) by (simp add: store_wchar_def mem_write_def blk2_def)
          have "tot < length blk" using True less.prems(2) by linarith
          then have "length blk2 = length blk" by (simp add: blk2_def)
          moreover have "\<forall>i<tot + 1. blk2 ! i \<noteq> None"
            using less.prems(2,3) True by (auto simp: blk2_def nth_append less_Suc_eq)
          ultimately show ?thesis
            using less.hyps [OF measure first, of blk2] less.prems(2) False b r Some nv c store
            by (simp add: utf8_loop.simps [of _ _ _ _ _ p])
        next
          case out: False
          then have "store_wchar False False outsize blk tot c = Some None \<and> True"
            using less.prems(2) by (auto simp: store_wchar_def mem_write_def)
          then show ?thesis
            using less.prems(2) False b r Some nv c by (simp add: utf8_loop.simps [of _ _ _ _ _ p])
        qed
      qed
    qed
  qed
qed

text \<open>C38: Converting from UTF-8 is memory safe for every string.  Whatever the bytes, sequences cut
off at the end included, \<^verbatim>\<open>os_utf8_to_wcs_ptr\<close> reads nothing behind the terminator, writes
inside the block it has allocated, and returns a terminated string with every symbol before the terminator
written.\<close>
theorem utf8_to_wcs_safe:
  assumes "0 \<notin> set s"
  shows "\<exists>n blk. os_utf8_to_wcs_ptr (s @ [0]) 0 = Some (n, Some blk) \<and> n < length blk \<and> blk ! n = Some 0 \<and>
    (\<forall>i<n. blk ! i \<noteq> None)"
proof (cases "s = []")
  case True
  then show ?thesis using os_utf8_to_wcs_ptr_ok [of "[]"] by simp
next
  case False
  obtain N where N: "utf8_loop (s @ [0]) (Some (length s)) False False 0 0 None 0 0 = Some (N, None)"
    using utf8_loop_first_pass [of "length s" "s @ [0]"] by fastforce
  let ?blk = "replicate (N + 1) None :: 32 word option list"
  obtain n blk where second: "utf8_loop (s @ [0]) (Some (length s)) False False (N + 1) 0 (Some ?blk) 0 0 = Some (n, Some blk)"
    and n: "n = 0 \<or> n = N" "length blk = N + 1" "\<forall>i<n. blk ! i \<noteq> None"
    using utf8_loop_second_pass [OF N, of "N + 1" ?blk] by auto
  have len: "zlen (s @ [0]) = Some (length s)" by (rule zlen_terminated [OF assms])
  show ?thesis
  proof (cases "N = 0")
    case True
    then show ?thesis using False N
      by (simp add: os_utf8_to_wcs_ptr_def os_utf8_to_wcs_def len utf8_to_wchar_def mem_write_def)
  next
    case N0: False
    have "os_utf8_to_wcs_ptr (s @ [0]) 0 = Some (n, Some (take n blk @ [Some 0] @ drop (n + 1) blk))"
      using False N0 N second n(1,2)
      by (auto simp add: os_utf8_to_wcs_ptr_def os_utf8_to_wcs_def len utf8_to_wchar_def mem_write_def)
    then show ?thesis using n by (auto simp: nth_append)
  qed
qed

lemma utf8_to_wcs_safe_witness:
  "\<exists>n blk. os_utf8_to_wcs_ptr [0x41, 0xe2, 0x82, 0] 0 = Some (n, Some blk) \<and> n < length blk \<and> blk ! n = Some 0 \<and>
    (\<forall>i<n. blk ! i \<noteq> None)"
  using utf8_to_wcs_safe [of "[0x41, 0xe2, 0x82]"] by simp

subsection \<open>What goes wrong\<close>

text \<open>A buffer with one cell for every symbol of the string is overrun by the terminator: the size that is
passed on is not reduced by one, as it is in \<^verbatim>\<open>os_wcs_to_utf8\<close>.\<close>

lemma utf8_to_wcs_terminator_overflow:
  assumes "list_all wchar_ok cs" and "0 \<notin> set cs" and "2 \<le> length cs"
  shows "os_utf8_to_wcs (utf8_bytes cs @ [0]) 0 (Some (replicate (length cs) None)) (length cs) = None"
proof -
  have "cs \<noteq> []" using assms(3) by auto
  then have n: "0 < length (utf8_bytes cs)" by (rule length_utf8_bytes_pos)
  have "utf8_loop (utf8_bytes cs @ [0]) (Some (length (utf8_bytes cs))) False False (length cs) 0
      (Some (replicate (length cs) None)) 0 0 = Some (length cs, Some (map Some cs))"
    using utf8_loop_store [OF assms(1), where pre = "[]" and post = "[0]" and X = "[]" and R = "replicate (length cs) None"]
    by simp
  then show ?thesis using n assms(3)
    by (auto simp: os_utf8_to_wcs_def zlen_terminated [OF utf8_bytes_nonzero [OF assms(1,2)]] utf8_to_wchar_def mem_write_def)
qed

text \<open>The bytes \<open>f6\<close> to \<open>fd\<close> and overlong sequences are accepted.\<close>

lemma utf8_accepts_f6: "utf8_to_wchar [0xf6, 0x80, 0x80, 0x80] 4 (Some [None]) 1 0 = Some (1, Some [Some 0x180000])"
  by (simp add: utf8_to_wchar_def utf8_loop.simps utf8_seq_def byte_at_def utf8_forbidden_def seq_header_def
      seq_numeral store_wchar_def mem_write_def wchar_forbidden_def)

lemma utf8_accepts_overlong: "utf8_to_wchar [0xe0, 0x80, 0xaf] 3 (Some [None]) 1 0 = Some (1, Some [Some 0x2f])"
  by (simp add: utf8_to_wchar_def utf8_loop.simps utf8_seq_def byte_at_def utf8_forbidden_def seq_header_def
      seq_numeral store_wchar_def mem_write_def wchar_forbidden_def)

text \<open>The encoder writes \<open>f5\<close>, which the decoder does not take.\<close>

lemma wchar_to_utf8_writes_f5:
  "wchar_to_utf8 [0x140000] 1 (Some [None, None, None, None]) 4 0 = Some (4, Some [Some 0xf5, Some 0x80, Some 0x80, Some 0x80])"
  "utf8_to_wchar [0xf5, 0x80, 0x80, 0x80] 4 (Some [None]) 1 0 = Some (0, Some [None])"
  by (simp_all add: wchar_to_utf8_def wchar_loop.simps utf8_to_wchar_def utf8_loop.simps utf8_seq_def byte_at_def
      utf8_forbidden_def wchar_forbidden_def wchar_size_def wchar_bytes_def oc_def mem_write_def)

end
