(* ===== verification/Obs_Item.thy ===== *)
theory Obs_Item
  imports Obs_Prelude
begin

text \<open>
  The items of a settings object, the first half of \<^verbatim>\<open>obs-data.c\<close>: one allocation
  holds the name, the user value, the default value and the automatically selected value, one behind the
  other.

  The block of an item is what follows its \<^verbatim>\<open>struct\<close>, a list of cells; a cell holds a
  byte or one of the eight parts of a pointer, or nothing yet.  Positions are relative to that block.  The
  reference counts of the values are in the theory \<open>Obs_Data\<close>.
\<close>

datatype obs_data_type =
  OBS_DATA_NULL | OBS_DATA_STRING | OBS_DATA_NUMBER | OBS_DATA_BOOLEAN | OBS_DATA_OBJECT | OBS_DATA_ARRAY

datatype cell = Byte "8 word" | Ptr_part nat nat

type_synonym cells = "cell option list"

record obs_data_item =
  item_ref :: nat
  item_type :: obs_data_type
  name_len :: nat
  data_len :: nat
  data_size :: nat
  default_len :: nat
  default_size :: nat
  autoselect_size :: nat
  item_capacity :: nat
  item_block :: cells

subsection \<open>Sizes and positions\<close>

definition ITEM_SIZE :: nat where "ITEM_SIZE = 144"

text \<open>The mask \<^verbatim>\<open>~(alignment - 1)\<close>, for the alignment is a power of two.\<close>

definition get_align_size :: "nat \<Rightarrow> nat" where
  "get_align_size n = (n + base_get_alignment - 1) div base_get_alignment * base_get_alignment"

definition get_name_align_size :: "8 word list \<Rightarrow> nat" where
  "get_name_align_size name =
     (let name_size = length name + 1;
          total_size = ITEM_SIZE + (name_size + base_get_alignment - 1);
          total_size = total_size div base_get_alignment * base_get_alignment
      in total_size - ITEM_SIZE)"

definition get_data_ptr :: "obs_data_item \<Rightarrow> nat" where
  "get_data_ptr item = name_len item"

definition get_item_data :: "obs_data_item \<Rightarrow> nat option" where
  "get_item_data item =
     (if data_size item = 0 \<and> default_size item = 0 \<and> autoselect_size item = 0 then None
      else Some (get_data_ptr item))"

definition get_default_data_ptr :: "obs_data_item \<Rightarrow> nat" where
  "get_default_data_ptr item = get_data_ptr item + data_len item"

definition get_item_default_data :: "obs_data_item \<Rightarrow> nat option" where
  "get_item_default_data item = (if default_size item \<noteq> 0 then Some (get_default_data_ptr item) else None)"

definition get_autoselect_data_ptr :: "obs_data_item \<Rightarrow> nat" where
  "get_autoselect_data_ptr item = get_default_data_ptr item + default_len item"

definition get_item_autoselect_data :: "obs_data_item \<Rightarrow> nat option" where
  "get_item_autoselect_data item =
     (if autoselect_size item \<noteq> 0 then Some (get_autoselect_data_ptr item) else None)"

definition obs_data_item_total_size :: "obs_data_item \<Rightarrow> nat" where
  "obs_data_item_total_size item =
     ITEM_SIZE + name_len item + data_len item + default_len item + autoselect_size item"

subsection \<open>Creation and growth\<close>

definition cstring :: "8 word list \<Rightarrow> cells" where
  "cstring s = map (\<lambda>b. Some (Byte b)) (s @ [0])"

definition obs_data_item_create ::
    "8 word list \<Rightarrow> cells \<Rightarrow> obs_data_type \<Rightarrow> bool \<Rightarrow> bool \<Rightarrow> obs_data_item option" where
  "obs_data_item_create name data type default_data autoselect_data =
     (let name_size = get_name_align_size name;
          total_size = name_size + ITEM_SIZE + length data;
          item = \<lparr>item_ref = 1, item_type = type, name_len = name_size,
            data_len = (if default_data \<or> autoselect_data then 0 else length data),
            data_size = (if default_data \<or> autoselect_data then 0 else length data),
            default_len = (if default_data then length data else 0),
            default_size = (if default_data then length data else 0),
            autoselect_size = (if \<not> default_data \<and> autoselect_data then length data else 0),
            item_capacity = total_size,
            item_block = replicate (total_size - ITEM_SIZE) (Some (Byte 0))\<rparr>
      in do { b \<leftarrow> mem_write (item_block item) 0 (cstring name);
              pos \<leftarrow> get_item_data item;
              b \<leftarrow> mem_write b pos data;
              Some (item\<lparr>item_block := b\<rparr>) })"

text \<open>The flag says that the item has moved.\<close>

definition obs_data_item_ensure_capacity :: "obs_data_item \<Rightarrow> obs_data_item \<times> bool" where
  "obs_data_item_ensure_capacity item =
     (let new_size = obs_data_item_total_size item in
      if item_capacity item \<ge> new_size then (item, False)
      else (item\<lparr>item_block := mem_realloc (item_block item) (new_size - ITEM_SIZE), item_capacity := new_size\<rparr>,
            True))"

subsection \<open>The three values\<close>

text \<open>Between the release of the old value and the reference to the new one.\<close>

definition obs_data_item_setdata ::
    "obs_data_item \<Rightarrow> cells \<Rightarrow> obs_data_type \<Rightarrow> (obs_data_item \<times> bool) option" where
  "obs_data_item_setdata item data type =
     (let old_default_data_pos = get_default_data_ptr item;
          item = item\<lparr>data_size := length data, item_type := type,
            data_len := (if default_size item \<noteq> 0 \<or> autoselect_size item \<noteq> 0
                         then get_align_size (length data) else length data)\<rparr>;
          (item, moved) = obs_data_item_ensure_capacity item
      in do { b \<leftarrow> (if default_size item \<noteq> 0 \<or> autoselect_size item \<noteq> 0
                    then mem_move (item_block item) (get_default_data_ptr item) old_default_data_pos
                           (default_len item + autoselect_size item)
                    else Some (item_block item));
              b \<leftarrow> (if data = [] then Some b else do { pos \<leftarrow> get_item_data item; mem_write b pos data });
              Some (item\<lparr>item_block := b\<rparr>, moved) })"

definition obs_data_item_set_default_data ::
    "obs_data_item \<Rightarrow> cells \<Rightarrow> obs_data_type \<Rightarrow> (obs_data_item \<times> bool) option" where
  "obs_data_item_set_default_data item data type =
     (let old_autoselect_data = get_autoselect_data_ptr item;
          item = item\<lparr>item_type := type, default_size := length data,
            default_len := (if autoselect_size item \<noteq> 0 then get_align_size (length data) else length data),
            data_len := (if data_size item \<noteq> 0 then get_align_size (data_size item) else 0)\<rparr>;
          (item, moved) = obs_data_item_ensure_capacity item
      in do { b \<leftarrow> (if autoselect_size item \<noteq> 0
                    then mem_move (item_block item) (get_autoselect_data_ptr item) old_autoselect_data
                           (autoselect_size item)
                    else Some (item_block item));
              b \<leftarrow> (if data = [] then Some b else do { pos \<leftarrow> get_item_default_data item; mem_write b pos data });
              Some (item\<lparr>item_block := b\<rparr>, moved) })"

definition obs_data_item_set_autoselect_data ::
    "obs_data_item \<Rightarrow> cells \<Rightarrow> obs_data_type \<Rightarrow> (obs_data_item \<times> bool) option" where
  "obs_data_item_set_autoselect_data item data type =
     (let item = item\<lparr>autoselect_size := length data, item_type := type,
            data_len := (if data_size item \<noteq> 0 then get_align_size (data_size item) else 0),
            default_len := (if default_size item \<noteq> 0 then get_align_size (default_size item) else 0)\<rparr>;
          (item, moved) = obs_data_item_ensure_capacity item
      in do { b \<leftarrow> (if data = [] then Some (item_block item)
                    else do { pos \<leftarrow> get_item_autoselect_data item; mem_write (item_block item) pos data });
              Some (item\<lparr>item_block := b\<rparr>, moved) })"

definition obs_data_item_unset_user_value :: "obs_data_item \<Rightarrow> obs_data_item option" where
  "obs_data_item_unset_user_value item =
     (if data_size item = 0 then Some item
      else let old_non_user_data = get_default_data_ptr item;
               item = item\<lparr>data_size := 0, data_len := 0\<rparr>
           in if default_size item \<noteq> 0 \<or> autoselect_size item \<noteq> 0
              then do { b \<leftarrow> mem_move (item_block item) (get_default_data_ptr item) old_non_user_data
                               (default_len item + autoselect_size item);
                        Some (item\<lparr>item_block := b\<rparr>) }
              else Some item)"

definition obs_data_item_unset_default_value :: "obs_data_item \<Rightarrow> obs_data_item option" where
  "obs_data_item_unset_default_value item =
     (if default_size item = 0 then Some item
      else let old_autoselect_data = get_autoselect_data_ptr item;
               item = item\<lparr>default_size := 0, default_len := 0\<rparr>
           in if autoselect_size item \<noteq> 0
              then do { b \<leftarrow> mem_move (item_block item) (get_autoselect_data_ptr item) old_autoselect_data
                               (autoselect_size item);
                        Some (item\<lparr>item_block := b\<rparr>) }
              else Some item)"

definition obs_data_item_unset_autoselect_value :: "obs_data_item \<Rightarrow> obs_data_item" where
  "obs_data_item_unset_autoselect_value item = item\<lparr>autoselect_size := 0\<rparr>"

text \<open>The move and the sizes of \<^verbatim>\<open>clear_item\<close>.\<close>

definition clear_item :: "obs_data_item \<Rightarrow> obs_data_item option" where
  "clear_item item =
     (if data_len item = 0 then Some item
      else let n = default_len item + autoselect_size item in
        do { b \<leftarrow> (if n \<noteq> 0 then do { ptr \<leftarrow> get_item_data item;
                                      mem_move (item_block item) ptr (ptr + data_len item) n }
                  else Some (item_block item));
             Some (item\<lparr>item_block := b, data_size := 0, data_len := 0\<rparr>) })"

definition obs_data_item_has_user_value :: "obs_data_item \<Rightarrow> bool" where
  "obs_data_item_has_user_value item \<longleftrightarrow> data_size item \<noteq> 0"

definition obs_data_item_has_default_value :: "obs_data_item \<Rightarrow> bool" where
  "obs_data_item_has_default_value item \<longleftrightarrow> default_size item \<noteq> 0"

definition obs_data_item_has_autoselect_value :: "obs_data_item \<Rightarrow> bool" where
  "obs_data_item_has_autoselect_value item \<longleftrightarrow> autoselect_size item \<noteq> 0"

subsection \<open>The specification\<close>

text \<open>An item is its type, its name and three optional values.\<close>

record item_spec =
  sp_type :: obs_data_type
  sp_user :: "cells option"
  sp_default :: "cells option"
  sp_auto :: "cells option"

definition slot :: "cells \<Rightarrow> nat \<Rightarrow> nat \<Rightarrow> cells option" where
  "slot b pos n = (if n = 0 then None else Some (take n (drop pos b)))"

definition item_abs :: "obs_data_item \<Rightarrow> item_spec" where
  "item_abs item =
     \<lparr>sp_type = item_type item,
      sp_user = slot (item_block item) (get_data_ptr item) (data_size item),
      sp_default = slot (item_block item) (get_default_data_ptr item) (default_size item),
      sp_auto = slot (item_block item) (get_autoselect_data_ptr item) (autoselect_size item)\<rparr>"

definition item_name_of :: "obs_data_item \<Rightarrow> cells option" where
  "item_name_of item = slot (item_block item) 0 (name_len item)"

definition item_ok :: "obs_data_item \<Rightarrow> bool" where
  "item_ok item \<longleftrightarrow>
     obs_data_item_total_size item \<le> item_capacity item \<and>
     length (item_block item) = item_capacity item - ITEM_SIZE \<and>
     (data_len item = 0 \<longleftrightarrow> data_size item = 0) \<and> data_size item \<le> data_len item \<and>
     (default_len item = 0 \<longleftrightarrow> default_size item = 0) \<and> default_size item \<le> default_len item \<and>
     (data_size item \<noteq> 0 \<and> (default_size item \<noteq> 0 \<or> autoselect_size item \<noteq> 0) \<longrightarrow>
        data_len item = get_align_size (data_size item)) \<and>
     (default_size item \<noteq> 0 \<and> autoselect_size item \<noteq> 0 \<longrightarrow> default_len item = get_align_size (default_size item))"

lemma item_ok_room:
  assumes "item_ok item"
  shows "name_len item + data_len item + default_len item + autoselect_size item \<le> length (item_block item)"
  using assms unfolding item_ok_def obs_data_item_total_size_def by linarith

lemma get_align_size_ge: "n \<le> get_align_size n"
  unfolding get_align_size_def base_get_alignment_def by presburger

lemma get_align_size_0 [simp]: "get_align_size 0 = 0"
  by (simp add: get_align_size_def base_get_alignment_def)

lemma get_align_size_eq_0 [simp]: "get_align_size n = 0 \<longleftrightarrow> n = 0"
  using get_align_size_ge [of n] by auto

lemmas item_ptr_defs = get_data_ptr_def get_default_data_ptr_def get_autoselect_data_ptr_def get_item_data_def
  get_item_default_data_def get_item_autoselect_data_def

subsection \<open>Regions of a block\<close>

lemma slot_eqI:
  assumes "pos + n \<le> length b" and "pos' + n \<le> length b'"
    and "\<And>i. i < n \<Longrightarrow> b' ! (pos' + i) = b ! (pos + i)"
  shows "slot b' pos' n = slot b pos n"
proof -
  have "take n (drop pos' b') = take n (drop pos b)"
    by (rule nth_equalityI) (use assms in simp_all)
  then show ?thesis by (simp add: slot_def)
qed

lemma slot_write_other:
  assumes "mem_write b p xs = Some b'" and "pos + n \<le> p \<or> p + length xs \<le> pos" and "pos + n \<le> length b"
  shows "slot b' pos n = slot b pos n"
  by (rule slot_eqI) (use assms mem_write_length [OF assms(1)] mem_write_nth [OF assms(1)] in auto)

lemma slot_write_same:
  assumes "mem_write b p xs = Some b'" and "xs \<noteq> []" and "n = length xs"
  shows "slot b' p n = Some xs"
  using assms by (auto simp: slot_def mem_write_def split: if_splits)

lemma slot_move_inside:
  assumes "mem_move b dst src k = Some b'" and "dst \<le> pos" and "pos + n \<le> dst + k" and "dst + k \<le> length b"
    and "src + k \<le> length b" and "pos' = src + (pos - dst)"
  shows "slot b' pos n = slot b pos' n"
  by (rule slot_eqI) (use assms mem_move_length [OF assms(1)] mem_move_nth [OF assms(1)] in \<open>auto simp: add.assoc\<close>)

lemma slot_move_other:
  assumes "mem_move b dst src k = Some b'" and "pos + n \<le> dst \<or> dst + k \<le> pos" and "pos + n \<le> length b"
  shows "slot b' pos n = slot b pos n"
  by (rule slot_eqI) (use assms mem_move_length [OF assms(1)] mem_move_nth [OF assms(1)] in auto)

lemma slot_realloc:
  assumes "pos + n \<le> length b" and "length b \<le> k"
  shows "slot (mem_realloc b k) pos n = slot b pos n"
  by (rule slot_eqI) (use assms mem_realloc_nth [of _ b k] in auto)

lemma ensure_capacity_slots:
  assumes "length (item_block item) = item_capacity item - ITEM_SIZE" and "ITEM_SIZE \<le> item_capacity item"
  obtains b c moved where "obs_data_item_ensure_capacity item = (item\<lparr>item_block := b, item_capacity := c\<rparr>, moved)"
    and "length b = c - ITEM_SIZE" and "obs_data_item_total_size item \<le> c"
    and "\<And>pos n. pos + n \<le> length (item_block item) \<Longrightarrow> slot b pos n = slot (item_block item) pos n"
    and "length (item_block item) \<le> length b"
proof (cases "obs_data_item_total_size item \<le> item_capacity item")
  case True
  then show ?thesis
    using assms by (intro that [where b = "item_block item" and c = "item_capacity item" and moved = False]) (simp_all add: obs_data_item_ensure_capacity_def)
next
  case False
  let ?n = "obs_data_item_total_size item"
  show ?thesis
    using assms False
    by (intro that [where b = "mem_realloc (item_block item) (?n - ITEM_SIZE)" and c = ?n and moved = True])
       (simp_all add: obs_data_item_ensure_capacity_def slot_realloc Let_def)
qed

subsection \<open>Each operation does what the specification says\<close>

definition refines :: "obs_data_item \<Rightarrow> obs_data_item \<Rightarrow> (item_spec \<Rightarrow> item_spec) \<Rightarrow> bool" where
  "refines item item' f \<longleftrightarrow> item_ok item' \<and> item_abs item' = f (item_abs item) \<and>
     item_name_of item' = item_name_of item \<and> item_ref item' = item_ref item \<and> name_len item' = name_len item"

lemma setdata_refines:
  assumes ok: "item_ok item" and data: "data \<noteq> []"
  shows "\<exists>item' moved. obs_data_item_setdata item data type = Some (item', moved) \<and>
    refines item item' (\<lambda>s. s\<lparr>sp_type := type, sp_user := Some data\<rparr>)"
proof -
  define others where "others \<longleftrightarrow> default_size item \<noteq> 0 \<or> autoselect_size item \<noteq> 0"
  define l where "l = (if others then get_align_size (length data) else length data)"
  define it1 where "it1 = item\<lparr>data_size := length data, item_type := type, data_len := l\<rparr>"
  have len: "length (item_block item) = item_capacity item - ITEM_SIZE"
    "ITEM_SIZE + name_len item + data_len item + default_len item + autoselect_size item \<le> item_capacity item"
    using ok by (simp_all add: item_ok_def obs_data_item_total_size_def)
  have ds: "default_size item \<le> default_len item" using ok by (simp add: item_ok_def)
  have l: "length data \<le> l" using get_align_size_ge [of "length data"] by (simp add: l_def)
  then have l0: "0 < l" using data by (cases data) auto
  obtain b c moved where cap: "obs_data_item_ensure_capacity it1 = (it1\<lparr>item_block := b, item_capacity := c\<rparr>, moved)"
    "length b = c - ITEM_SIZE" "obs_data_item_total_size it1 \<le> c"
    "\<And>pos n. pos + n \<le> length (item_block it1) \<Longrightarrow> slot b pos n = slot (item_block it1) pos n"
    "length (item_block it1) \<le> length b"
    by (rule ensure_capacity_slots [of it1]) (use len in \<open>simp_all add: it1_def\<close>)
  have keep: "pos + n \<le> length (item_block item) \<Longrightarrow> slot b pos n = slot (item_block item) pos n" for pos n
    using cap(4) by (simp add: it1_def)
  let ?k = "default_len item + autoselect_size item"
  have room: "name_len item + l + ?k \<le> length b" "name_len item + data_len item + ?k \<le> length (item_block item)"
    "length (item_block item) \<le> length b"
    using cap(2,3,5) len by (auto simp: obs_data_item_total_size_def it1_def)
  obtain b2 where b2: "(if others then mem_move b (name_len item + l) (name_len item + data_len item) ?k else Some b) = Some b2"
    using mem_move_exI [of "name_len item + data_len item" ?k b "name_len item + l"] room by fastforce
  have b2len: "length b2 = length b" using b2 mem_move_length by (auto split: if_splits)
  obtain b3 where b3: "mem_write b2 (name_len item) data = Some b3"
    using mem_write_exI [of "name_len item" data b2] room l b2len by fastforce
  have b3len: "length b3 = length b" using mem_write_length [OF b3] b2len by simp
  have run: "obs_data_item_setdata item data type = Some (it1\<lparr>item_block := b3, item_capacity := c\<rparr>, moved)"
    unfolding obs_data_item_setdata_def Let_def others_def [symmetric] l_def [symmetric] it1_def [symmetric] cap(1)
    using b2 b3 data others_def by (cases others) (simp_all add: it1_def item_ptr_defs)
  have user: "slot b3 (name_len item) (length data) = Some data"
    by (rule slot_write_same [OF b3 data refl])
  have dflt: "slot b3 (name_len item + l) (default_size item) = slot (item_block item) (name_len item + data_len item) (default_size item)"
  proof (cases others)
    case True
    have "slot b3 (name_len item + l) (default_size item) = slot b2 (name_len item + l) (default_size item)"
      by (rule slot_write_other [OF b3]) (use room ds l b2len in auto)
    also have "\<dots> = slot b (name_len item + data_len item) (default_size item)"
      by (rule slot_move_inside [where k = ?k and src = "name_len item + data_len item" and dst = "name_len item + l"]) (use True b2 room ds in auto)
    also have "\<dots> = slot (item_block item) (name_len item + data_len item) (default_size item)"
      by (rule keep) (use room ds in auto)
    finally show ?thesis .
  qed (simp add: others_def slot_def)
  have auto: "slot b3 (name_len item + l + default_len item) (autoselect_size item) =
     slot (item_block item) (name_len item + data_len item + default_len item) (autoselect_size item)"
  proof (cases others)
    case True
    have "slot b3 (name_len item + l + default_len item) (autoselect_size item) =
        slot b2 (name_len item + l + default_len item) (autoselect_size item)"
      by (rule slot_write_other [OF b3]) (use room l b2len in auto)
    also have "\<dots> = slot b (name_len item + data_len item + default_len item) (autoselect_size item)"
      by (rule slot_move_inside [where k = ?k and src = "name_len item + data_len item" and dst = "name_len item + l"]) (use True b2 room in auto)
    also have "\<dots> = slot (item_block item) (name_len item + data_len item + default_len item) (autoselect_size item)"
      by (rule keep) (use room in auto)
    finally show ?thesis .
  qed (simp add: others_def slot_def)
  have name: "slot b3 0 (name_len item) = slot (item_block item) 0 (name_len item)"
  proof -
    have "slot b3 0 (name_len item) = slot b2 0 (name_len item)"
      by (rule slot_write_other [OF b3]) (use room b2len in auto)
    also have "\<dots> = slot b 0 (name_len item)"
      using b2 room by (cases others) (auto intro!: slot_move_other)
    also have "\<dots> = slot (item_block item) 0 (name_len item)"
      by (rule keep) (use room in auto)
    finally show ?thesis .
  qed
  have "item_ok (it1\<lparr>item_block := b3, item_capacity := c\<rparr>)"
    using ok cap(2,3) b3len l l0 data unfolding item_ok_def by (auto simp: it1_def obs_data_item_total_size_def l_def others_def)
  then show ?thesis
    using run user dflt auto name
    by (auto simp: refines_def item_abs_def item_name_of_def it1_def item_ptr_defs)
qed

lemma set_default_data_refines:
  assumes ok: "item_ok item" and data: "data \<noteq> []"
  shows "\<exists>item' moved. obs_data_item_set_default_data item data type = Some (item', moved) \<and>
    refines item item' (\<lambda>s. s\<lparr>sp_type := type, sp_default := Some data\<rparr>)"
proof -
  define l where "l = (if autoselect_size item \<noteq> 0 then get_align_size (length data) else length data)"
  define m where "m = (if data_size item \<noteq> 0 then get_align_size (data_size item) else 0)"
  define it1 where "it1 = item\<lparr>item_type := type, default_size := length data, default_len := l, data_len := m\<rparr>"
  let ?n = "name_len item" and ?k = "autoselect_size item"
  have len: "length (item_block item) = item_capacity item - ITEM_SIZE"
    "ITEM_SIZE + ?n + data_len item + default_len item + ?k \<le> item_capacity item"
    using ok by (simp_all add: item_ok_def obs_data_item_total_size_def)
  have dm: "data_size item \<le> m" "data_size item \<le> data_len item" "m = 0 \<longleftrightarrow> data_size item = 0"
    using ok get_align_size_ge [of "data_size item"] by (auto simp: item_ok_def m_def)
  have l: "length data \<le> l" using get_align_size_ge [of "length data"] by (simp add: l_def)
  then have l0: "0 < l" using data by (cases data) auto
  obtain b c moved where cap: "obs_data_item_ensure_capacity it1 = (it1\<lparr>item_block := b, item_capacity := c\<rparr>, moved)"
    "length b = c - ITEM_SIZE" "obs_data_item_total_size it1 \<le> c"
    "\<And>pos n. pos + n \<le> length (item_block it1) \<Longrightarrow> slot b pos n = slot (item_block it1) pos n"
    "length (item_block it1) \<le> length b"
    by (rule ensure_capacity_slots [of it1]) (use len in \<open>simp_all add: it1_def\<close>)
  have keep: "pos + n \<le> length (item_block item) \<Longrightarrow> slot b pos n = slot (item_block item) pos n" for pos n
    using cap(4) by (simp add: it1_def)
  have room: "?n + m + l + ?k \<le> length b" "?n + data_len item + default_len item + ?k \<le> length (item_block item)"
    "length (item_block item) \<le> length b"
    using cap(2,3,5) len by (auto simp: obs_data_item_total_size_def it1_def)
  obtain b2 where b2: "(if ?k \<noteq> 0 then mem_move b (?n + m + l) (?n + data_len item + default_len item) ?k else Some b) = Some b2"
    using mem_move_exI [of "?n + data_len item + default_len item" ?k b "?n + m + l"] room by fastforce
  have b2len: "length b2 = length b" using b2 mem_move_length by (auto split: if_splits)
  obtain b3 where b3: "mem_write b2 (?n + m) data = Some b3"
    using mem_write_exI [of "?n + m" data b2] room l b2len by fastforce
  have b3len: "length b3 = length b" using mem_write_length [OF b3] b2len by simp
  have run: "obs_data_item_set_default_data item data type = Some (it1\<lparr>item_block := b3, item_capacity := c\<rparr>, moved)"
    unfolding obs_data_item_set_default_data_def Let_def l_def [symmetric] m_def [symmetric] it1_def [symmetric] cap(1)
    using b2 b3 data by (cases "?k = 0") (simp_all add: it1_def item_ptr_defs)
  have kept: "slot b3 pos n = slot (item_block item) pos n"
    if "pos + n \<le> ?n + m" "pos + n \<le> ?n + data_len item" for pos n
  proof -
    have "slot b3 pos n = slot b2 pos n" by (rule slot_write_other [OF b3]) (use that room b2len in auto)
    also have "\<dots> = slot b pos n" using b2 that room by (cases "?k = 0") (auto intro!: slot_move_other)
    also have "\<dots> = slot (item_block item) pos n" by (rule keep) (use that room in auto)
    finally show ?thesis .
  qed
  have user: "slot b3 ?n (data_size item) = slot (item_block item) ?n (data_size item)"
    by (rule kept) (use dm in auto)
  have name: "slot b3 0 ?n = slot (item_block item) 0 ?n" by (rule kept) auto
  have dflt: "slot b3 (?n + m) (length data) = Some data" by (rule slot_write_same [OF b3 data refl])
  have auto: "slot b3 (?n + m + l) ?k = slot (item_block item) (?n + data_len item + default_len item) ?k"
  proof (cases "?k = 0")
    case False
    have "slot b3 (?n + m + l) ?k = slot b2 (?n + m + l) ?k"
      by (rule slot_write_other [OF b3]) (use room l b2len in auto)
    also have "\<dots> = slot b (?n + data_len item + default_len item) ?k"
      by (rule slot_move_inside [where k = ?k and src = "?n + data_len item + default_len item" and dst = "?n + m + l"])
         (use False b2 room in auto)
    also have "\<dots> = slot (item_block item) (?n + data_len item + default_len item) ?k"
      by (rule keep) (use room in auto)
    finally show ?thesis .
  qed (simp add: slot_def)
  have "item_ok (it1\<lparr>item_block := b3, item_capacity := c\<rparr>)"
    using ok cap(2,3) b3len l l0 dm data unfolding item_ok_def by (auto simp: it1_def obs_data_item_total_size_def l_def m_def)
  then show ?thesis
    using run user dflt auto name by (auto simp: refines_def item_abs_def item_name_of_def it1_def item_ptr_defs)
qed

lemma set_autoselect_data_refines:
  assumes ok: "item_ok item" and data: "data \<noteq> []"
  shows "\<exists>item' moved. obs_data_item_set_autoselect_data item data type = Some (item', moved) \<and>
    refines item item' (\<lambda>s. s\<lparr>sp_type := type, sp_auto := Some data\<rparr>)"
proof -
  define l where "l = (if default_size item \<noteq> 0 then get_align_size (default_size item) else 0)"
  define m where "m = (if data_size item \<noteq> 0 then get_align_size (data_size item) else 0)"
  define it1 where "it1 = item\<lparr>autoselect_size := length data, item_type := type, data_len := m, default_len := l\<rparr>"
  let ?n = "name_len item"
  have len: "length (item_block item) = item_capacity item - ITEM_SIZE"
    "ITEM_SIZE + ?n + data_len item + default_len item + autoselect_size item \<le> item_capacity item"
    using ok by (simp_all add: item_ok_def obs_data_item_total_size_def)
  have dm: "data_size item \<le> m" "data_size item \<le> data_len item" "m = 0 \<longleftrightarrow> data_size item = 0"
    using ok get_align_size_ge [of "data_size item"] by (auto simp: item_ok_def m_def)
  have dl: "default_size item \<le> l" "default_size item \<le> default_len item" "l = 0 \<longleftrightarrow> default_size item = 0"
    using ok get_align_size_ge [of "default_size item"] by (auto simp: item_ok_def l_def)
  have same: "m = data_len item" if "default_size item \<noteq> 0"
    using ok that by (auto simp: item_ok_def m_def)
  obtain b c moved where cap: "obs_data_item_ensure_capacity it1 = (it1\<lparr>item_block := b, item_capacity := c\<rparr>, moved)"
    "length b = c - ITEM_SIZE" "obs_data_item_total_size it1 \<le> c"
    "\<And>pos n. pos + n \<le> length (item_block it1) \<Longrightarrow> slot b pos n = slot (item_block it1) pos n"
    "length (item_block it1) \<le> length b"
    by (rule ensure_capacity_slots [of it1]) (use len in \<open>simp_all add: it1_def\<close>)
  have keep: "pos + n \<le> length (item_block item) \<Longrightarrow> slot b pos n = slot (item_block item) pos n" for pos n
    using cap(4) by (simp add: it1_def)
  have room: "?n + m + l + length data \<le> length b" "?n + data_len item + default_len item \<le> length (item_block item)"
    "length (item_block item) \<le> length b"
    using cap(2,3,5) len by (auto simp: obs_data_item_total_size_def it1_def)
  obtain b3 where b3: "mem_write b (?n + m + l) data = Some b3"
    using mem_write_exI [of "?n + m + l" data b] room by fastforce
  have b3len: "length b3 = length b" by (rule mem_write_length [OF b3])
  have run: "obs_data_item_set_autoselect_data item data type = Some (it1\<lparr>item_block := b3, item_capacity := c\<rparr>, moved)"
    unfolding obs_data_item_set_autoselect_data_def Let_def l_def [symmetric] m_def [symmetric] it1_def [symmetric] cap(1)
    using b3 data by (simp add: it1_def item_ptr_defs)
  have kept: "slot b3 pos n = slot (item_block item) pos n"
    if "pos + n \<le> ?n + m + l" "pos + n \<le> length (item_block item)" for pos n
    using slot_write_other [OF b3, of pos n] keep [of pos n] that room by auto
  have user: "slot b3 ?n (data_size item) = slot (item_block item) ?n (data_size item)"
    by (rule kept) (use dm room in auto)
  have name: "slot b3 0 ?n = slot (item_block item) 0 ?n" by (rule kept) (use room in auto)
  have dflt: "slot b3 (?n + m) (default_size item) = slot (item_block item) (?n + data_len item) (default_size item)"
  proof (cases "default_size item = 0")
    case False
    then show ?thesis using kept [of "?n + m" "default_size item"] same dl room by auto
  qed (simp add: slot_def)
  have auto: "slot b3 (?n + m + l) (length data) = Some data" by (rule slot_write_same [OF b3 data refl])
  have "item_ok (it1\<lparr>item_block := b3, item_capacity := c\<rparr>)"
    using ok cap(2,3) b3len dl dm data unfolding item_ok_def by (auto simp: it1_def obs_data_item_total_size_def l_def m_def)
  then show ?thesis
    using run user dflt auto name by (auto simp: refines_def item_abs_def item_name_of_def it1_def item_ptr_defs)
qed

lemma cond_move_exI:
  "dst + k \<le> length b \<Longrightarrow> src + k \<le> length b \<Longrightarrow> \<exists>b'. (if P then mem_move b dst src k else Some b) = Some b'"
  using mem_move_exI [of src k b dst] by (cases P) auto

text \<open>Removing the user value, in both forms, moves the other two values forward.\<close>

lemma drop_user_refines:
  assumes ok: "item_ok item" and "data_size item \<noteq> 0"
    and move: "(if default_len item + autoselect_size item \<noteq> 0
      then mem_move (item_block item) (name_len item) (name_len item + data_len item) (default_len item + autoselect_size item)
      else Some (item_block item)) = Some b"
  shows "refines item (item\<lparr>item_block := b, data_size := 0, data_len := 0\<rparr>) (\<lambda>s. s\<lparr>sp_user := None\<rparr>)"
proof -
  let ?n = "name_len item" and ?k = "default_len item + autoselect_size item"
  have len: "length (item_block item) = item_capacity item - ITEM_SIZE"
    "ITEM_SIZE + ?n + data_len item + default_len item + autoselect_size item \<le> item_capacity item"
    "default_size item \<le> default_len item" "default_len item = 0 \<longleftrightarrow> default_size item = 0"
    using ok by (simp_all add: item_ok_def obs_data_item_total_size_def)
  have blen: "length b = length (item_block item)" using move mem_move_length by (auto split: if_splits)
  have name: "slot b 0 ?n = slot (item_block item) 0 ?n"
    using move len slot_move_other [of "item_block item" ?n "?n + data_len item" ?k b 0 ?n] by (auto split: if_splits)
  have moved: "slot b (?n + i) n = slot (item_block item) (?n + data_len item + i) n" if "i + n \<le> ?k" for i n
  proof (cases "?k = 0")
    case False
    show ?thesis
      by (rule slot_move_inside [where k = ?k and src = "?n + data_len item" and dst = ?n])
         (use False move that len in auto)
  qed (use that in \<open>simp add: slot_def\<close>)
  have dflt: "slot b ?n (default_size item) = slot (item_block item) (?n + data_len item) (default_size item)"
    using moved [of 0 "default_size item"] len by simp
  have auto: "slot b (?n + default_len item) (autoselect_size item) =
      slot (item_block item) (?n + data_len item + default_len item) (autoselect_size item)"
    using moved [of "default_len item" "autoselect_size item"] by simp
  have "item_ok (item\<lparr>item_block := b, data_size := 0, data_len := 0\<rparr>)"
    using ok blen unfolding item_ok_def by (auto simp: obs_data_item_total_size_def)
  then show ?thesis
    using name dflt auto by (simp add: refines_def item_abs_def item_name_of_def item_ptr_defs) (simp add: slot_def)
qed

lemma unset_user_value_refines:
  assumes ok: "item_ok item"
  shows "\<exists>item'. obs_data_item_unset_user_value item = Some item' \<and> refines item item' (\<lambda>s. s\<lparr>sp_user := None\<rparr>)"
proof (cases "data_size item = 0")
  case True
  then show ?thesis
    using ok by (simp add: obs_data_item_unset_user_value_def refines_def item_abs_def slot_def)
next
  case False
  let ?n = "name_len item" and ?k = "default_len item + autoselect_size item"
  have fit: "?n + ?k \<le> length (item_block item)" "?n + data_len item + ?k \<le> length (item_block item)"
    using item_ok_room [OF ok] by simp_all
  have others: "?k \<noteq> 0 \<longleftrightarrow> default_size item \<noteq> 0 \<or> autoselect_size item \<noteq> 0"
    using ok by (simp add: item_ok_def)
  obtain b where b: "(if ?k \<noteq> 0 then mem_move (item_block item) ?n (?n + data_len item) ?k else Some (item_block item)) = Some b"
    using cond_move_exI [OF fit] by blast
  have "obs_data_item_unset_user_value item = Some (item\<lparr>item_block := b, data_size := 0, data_len := 0\<rparr>)"
    using b False unfolding others
    by (cases "default_size item \<noteq> 0 \<or> autoselect_size item \<noteq> 0")
       (simp_all add: obs_data_item_unset_user_value_def Let_def item_ptr_defs)
  then show ?thesis using drop_user_refines [OF ok False b] by blast
qed

lemma clear_item_refines:
  assumes ok: "item_ok item"
  shows "\<exists>item'. clear_item item = Some item' \<and> refines item item' (\<lambda>s. s\<lparr>sp_user := None\<rparr>)"
proof (cases "data_len item = 0")
  case True
  then show ?thesis
    using ok by (simp add: clear_item_def refines_def item_abs_def slot_def item_ok_def)
next
  case False
  let ?n = "name_len item" and ?k = "default_len item + autoselect_size item"
  have size: "data_size item \<noteq> 0" using ok False by (simp add: item_ok_def)
  have fit: "?n + ?k \<le> length (item_block item)" "?n + data_len item + ?k \<le> length (item_block item)"
    using item_ok_room [OF ok] by simp_all
  obtain b where b: "(if ?k \<noteq> 0 then mem_move (item_block item) ?n (?n + data_len item) ?k else Some (item_block item)) = Some b"
    using cond_move_exI [OF fit] by blast
  have "clear_item item = Some (item\<lparr>item_block := b, data_size := 0, data_len := 0\<rparr>)"
    using b False size by (cases "?k = 0") (simp_all add: clear_item_def Let_def item_ptr_defs)
  then show ?thesis using drop_user_refines [OF ok size b] by blast
qed

lemma unset_default_value_refines:
  assumes ok: "item_ok item"
  shows "\<exists>item'. obs_data_item_unset_default_value item = Some item' \<and>
    refines item item' (\<lambda>s. s\<lparr>sp_default := None\<rparr>)"
proof (cases "default_size item = 0")
  case True
  then show ?thesis
    using ok by (simp add: obs_data_item_unset_default_value_def refines_def item_abs_def slot_def)
next
  case False
  let ?n = "name_len item + data_len item" and ?k = "autoselect_size item"
  have len: "length (item_block item) = item_capacity item - ITEM_SIZE"
    "ITEM_SIZE + ?n + default_len item + ?k \<le> item_capacity item" "data_size item \<le> data_len item"
    using ok by (simp_all add: item_ok_def obs_data_item_total_size_def)
  have "ITEM_SIZE \<le> item_capacity item" "?n + default_len item + ?k \<le> length (item_block item)" using len by auto
  then obtain b where b: "(if ?k \<noteq> 0 then mem_move (item_block item) ?n (?n + default_len item) ?k else Some (item_block item)) = Some b"
    using mem_move_exI [of "?n + default_len item" ?k "item_block item" ?n] by fastforce
  have blen: "length b = length (item_block item)" using b mem_move_length by (auto split: if_splits)
  have run: "obs_data_item_unset_default_value item = Some (item\<lparr>default_size := 0, default_len := 0, item_block := b\<rparr>)"
    using b False by (auto simp: obs_data_item_unset_default_value_def Let_def item_ptr_defs split: if_splits)
  have front: "slot b pos n = slot (item_block item) pos n" if "pos + n \<le> ?n" for pos n
    using b that len slot_move_other [of "item_block item" ?n "?n + default_len item" ?k b pos n] by (auto split: if_splits)
  have auto: "slot b ?n ?k = slot (item_block item) (?n + default_len item) ?k"
  proof (cases "?k = 0")
    case False
    show ?thesis
      by (rule slot_move_inside [where k = ?k and src = "?n + default_len item" and dst = ?n])
         (use False b len in auto)
  qed (simp add: slot_def)
  have "item_ok (item\<lparr>default_size := 0, default_len := 0, item_block := b\<rparr>)"
    using ok blen unfolding item_ok_def by (auto simp: obs_data_item_total_size_def)
  moreover have "slot b (name_len item) (data_size item) = slot (item_block item) (name_len item) (data_size item)"
    "slot b 0 (name_len item) = slot (item_block item) 0 (name_len item)"
    using len by (auto intro: front)
  ultimately show ?thesis
    using run auto by (auto simp: refines_def item_abs_def item_name_of_def item_ptr_defs) (simp add: slot_def)
qed

lemma unset_autoselect_value_refines:
  "item_ok item \<Longrightarrow> refines item (obs_data_item_unset_autoselect_value item) (\<lambda>s. s\<lparr>sp_auto := None\<rparr>)"
  by (auto simp: refines_def item_abs_def item_name_of_def item_ptr_defs slot_def item_ok_def
      obs_data_item_unset_autoselect_value_def obs_data_item_total_size_def)

lemma name_fits: "length (cstring name) \<le> get_name_align_size name"
proof -
  have "m \<le> (m + 31) div 32 * 32" for m :: nat by presburger
  from this [of "144 + (length name + 1)"]
  show ?thesis by (simp add: get_name_align_size_def Let_def cstring_def base_get_alignment_def ITEM_SIZE_def)
qed

lemma item_create_refines:
  assumes data: "data \<noteq> []"
  shows "\<exists>item. obs_data_item_create name data type d a = Some item \<and> item_ok item \<and> item_ref item = 1 \<and>
    (\<exists>pad. item_name_of item = Some (cstring name @ pad)) \<and>
    item_abs item = \<lparr>sp_type = type, sp_user = (if d \<or> a then None else Some data),
      sp_default = (if d then Some data else None), sp_auto = (if \<not> d \<and> a then Some data else None)\<rparr>"
proof -
  let ?n = "get_name_align_size name"
  let ?b0 = "replicate (?n + length data) (Some (Byte 0)) :: cells"
  note fit = name_fits [of name]
  have n0: "0 < ?n" using fit by (simp add: cstring_def)
  obtain b1 where b1: "mem_write ?b0 0 (cstring name) = Some b1"
    using mem_write_exI [of 0 "cstring name" ?b0] fit by fastforce
  have b1len: "length b1 = ?n + length data" using mem_write_length [OF b1] by simp
  obtain b2 where b2: "mem_write b1 ?n data = Some b2"
    using mem_write_exI [of ?n data b1] b1len by fastforce
  have b2len: "length b2 = ?n + length data" using mem_write_length [OF b2] b1len by simp
  have at: "slot b2 ?n (length data) = Some data" by (rule slot_write_same [OF b2 data refl])
  have "slot b2 0 ?n = slot b1 0 ?n" by (rule slot_write_other [OF b2]) (use b1len in auto)
  also have "\<dots> = Some (cstring name @ drop (length (cstring name)) (replicate ?n (Some (Byte 0))))"
    using b1 fit n0 by (auto simp: slot_def mem_write_def split: if_splits)
  finally have name: "slot b2 0 ?n = Some (cstring name @ drop (length (cstring name)) (replicate ?n (Some (Byte 0))))" .
  show ?thesis
    using b1 b2 b2len data at name
    by (auto simp: obs_data_item_create_def Let_def item_ptr_defs item_ok_def item_abs_def item_name_of_def
        obs_data_item_total_size_def ITEM_SIZE_def) (auto simp: slot_def)
qed

subsection \<open>The value that is read\<close>

definition sp_value :: "item_spec \<Rightarrow> cells option" where
  "sp_value s = (case sp_user s of Some v \<Rightarrow> Some v | None \<Rightarrow> (case sp_default s of Some v \<Rightarrow> Some v | None \<Rightarrow> sp_auto s))"

text \<open>\<^verbatim>\<open>get_item_data\<close> points at the user value, or else the default, or else the selected one.\<close>

lemma get_item_data_value:
  assumes "item_ok item"
  shows "case sp_value (item_abs item) of
      None \<Rightarrow> get_item_data item = None
    | Some v \<Rightarrow> get_item_data item = Some (name_len item) \<and> v \<noteq> [] \<and>
        mem_read (item_block item) (name_len item) (length v) = Some v"
proof -
  have ok: "data_len item = 0 \<longleftrightarrow> data_size item = 0" "default_len item = 0 \<longleftrightarrow> default_size item = 0"
    "data_size item \<le> data_len item" "default_size item \<le> default_len item"
    "name_len item + data_len item + default_len item + autoselect_size item \<le> length (item_block item)"
    using assms item_ok_room [OF assms] by (simp_all add: item_ok_def)
  show ?thesis
  proof (cases "data_size item = 0")
    case False
    then show ?thesis using ok by (simp add: sp_value_def item_abs_def slot_def item_ptr_defs mem_read_def)
  next
    case user: True
    show ?thesis
    proof (cases "default_size item = 0")
      case False
      then show ?thesis using user ok by (simp add: sp_value_def item_abs_def slot_def item_ptr_defs mem_read_def)
    next
      case True
      then show ?thesis using user ok by (simp add: sp_value_def item_abs_def slot_def item_ptr_defs mem_read_def)
    qed
  qed
qed


subsection \<open>Values in cells\<close>

unbundle bit_operations_syntax

text \<open>A word in little-endian order, and a pointer.\<close>

definition word_cells :: "nat \<Rightarrow> 'a::len word \<Rightarrow> cells" where
  "word_cells n w = map (\<lambda>k. Some (Byte (ucast (drop_bit (8 * k) w)))) [0..<n]"

definition ptr_cells :: "nat \<Rightarrow> cells" where
  "ptr_cells p = map (\<lambda>k. Some (Ptr_part p k)) [0..<8]"

fun cells_word :: "cells \<Rightarrow> 'a::len word option" where
  "cells_word [] = Some 0"
| "cells_word (Some (Byte b) # cs) = do { w \<leftarrow> cells_word cs; Some (ucast b OR push_bit 8 w) }"
| "cells_word (_ # cs) = None"

definition cells_ptr :: "cells \<Rightarrow> nat option" where
  "cells_ptr cs = (case cs of Some (Ptr_part p k) # _ \<Rightarrow> if cs = ptr_cells p then Some p else None | _ \<Rightarrow> None)"

fun cells_string :: "cells \<Rightarrow> 8 word list option" where
  "cells_string (Some (Byte b) # cs) = (if b = 0 then Some [] else do { s \<leftarrow> cells_string cs; Some (b # s) })"
| "cells_string _ = None"

datatype obs_data_number = OBS_DATA_NUM_INT "64 word" | OBS_DATA_NUM_DOUBLE "64 word"

text \<open>The type, four bytes of padding and the value; the bits of a \<^verbatim>\<open>double\<close>.\<close>

definition number_cells :: "obs_data_number \<Rightarrow> cells" where
  "number_cells num =
     (case num of OBS_DATA_NUM_INT v \<Rightarrow> word_cells 4 (1 :: 32 word) @ replicate 4 None @ word_cells 8 v
      | OBS_DATA_NUM_DOUBLE v \<Rightarrow> word_cells 4 (2 :: 32 word) @ replicate 4 None @ word_cells 8 v)"

text \<open>A number that is not marked as an integer is read as a \<^verbatim>\<open>double\<close>.\<close>

definition cells_number :: "cells \<Rightarrow> obs_data_number option" where
  "cells_number cs =
     do { t \<leftarrow> cells_word (take 4 cs) :: 32 word option; v \<leftarrow> cells_word (drop 8 cs);
          if length cs = 16 then Some (if t = 1 then OBS_DATA_NUM_INT v else OBS_DATA_NUM_DOUBLE v) else None }"

lemma cells_word_cells: "cells_word (word_cells n w) = Some (take_bit (8 * n) w)"
proof (induction n arbitrary: w)
  case 0
  show ?case by (simp add: word_cells_def)
next
  case (Suc n)
  have "word_cells (Suc n) w = Some (Byte (ucast w)) # word_cells n (drop_bit 8 w)"
    by (simp add: word_cells_def upt_conv_Cons map_Suc_upt [symmetric] del: upt_Suc) (simp add: comp_def add.commute)
  moreover have "ucast (ucast w :: 8 word) OR push_bit 8 (take_bit (8 * n) (drop_bit 8 w)) = take_bit (8 * Suc n) w"
    by (rule bit_word_eqI) (auto simp: bit_simps)
  ultimately show ?case by (simp add: Suc)
qed

lemma cells_ptr_cells [simp]: "cells_ptr (ptr_cells p) = Some p"
  by (simp add: cells_ptr_def ptr_cells_def upt_conv_Cons)

lemma cells_string_cstring: "0 \<notin> set s \<Longrightarrow> cells_string (cstring s @ rest) = Some s"
  by (induction s) (auto simp: cstring_def)

lemma length_word_cells [simp]: "length (word_cells n w) = n"
  by (simp add: word_cells_def)

lemma cells_number_cells [simp]: "cells_number (number_cells num) = Some num"
  by (cases num) (simp_all add: cells_number_def number_cells_def cells_word_cells take_bit_word_eq_self)

lemma value_cells_ne [simp]: "number_cells num \<noteq> []" "ptr_cells p \<noteq> []" "cstring s \<noteq> []"
  by (auto simp: number_cells_def ptr_cells_def cstring_def word_cells_def split: obs_data_number.split)

end
