(* ===== verification/Obs_Data.thy ===== *)
theory Obs_Data
  imports Obs_Item "HOL-Library.Multiset"
begin

text \<open>
  Settings objects and arrays, the second half of \<^verbatim>\<open>obs-data.c\<close>: reference-counted
  objects whose items may hold other objects and arrays.

  The heap is a list of cells; an address is a position, \<open>0\<close> is \<^verbatim>\<open>NULL\<close>, and a cell
  that has been freed is \<open>None\<close> for ever.  The hash table of an object is the list of its items with
  their names, in the order of insertion, which is the order its iteration follows; an item that moves when it
  grows is taken out and added again.  Handles to items are not modelled: the only reference to an item is its
  object's.

  What a destructor releases is released in the order of the code, by a list of pending releases; the block of
  an object is given back before its items are released, not after.
\<close>

subsection \<open>The heap\<close>

type_synonym name = "8 word list"

record obs_data =
  od_ref :: nat
  od_items :: "(name \<times> obs_data_item) list"

record obs_data_array =
  oa_ref :: nat
  oa_objects :: "nat list"

datatype heap_cell = Data obs_data | Array obs_data_array

type_synonym dheap = "heap_cell option list"

datatype handle = Obj nat | Arr nat

definition data_at :: "dheap \<Rightarrow> nat \<Rightarrow> obs_data option" where
  "data_at h p = (if p < length h then (case h ! p of Some (Data d) \<Rightarrow> Some d | _ \<Rightarrow> None) else None)"

definition array_at :: "dheap \<Rightarrow> nat \<Rightarrow> obs_data_array option" where
  "array_at h p = (if p < length h then (case h ! p of Some (Array a) \<Rightarrow> Some a | _ \<Rightarrow> None) else None)"

definition obs_data_create :: "dheap \<Rightarrow> nat \<times> dheap" where
  "obs_data_create h = (length h, h @ [Some (Data \<lparr>od_ref = 1, od_items = []\<rparr>)])"

definition obs_data_array_create :: "dheap \<Rightarrow> nat \<times> dheap" where
  "obs_data_array_create h = (length h, h @ [Some (Array \<lparr>oa_ref = 1, oa_objects = []\<rparr>)])"

definition obs_data_addref :: "dheap \<Rightarrow> nat \<Rightarrow> dheap option" where
  "obs_data_addref h p =
     (if p = 0 then Some h
      else do { d \<leftarrow> data_at h p; Some (h[p := Some (Data (d\<lparr>od_ref := od_ref d + 1\<rparr>))]) })"

definition obs_data_array_addref :: "dheap \<Rightarrow> nat \<Rightarrow> dheap option" where
  "obs_data_array_addref h p =
     (if p = 0 then Some h
      else do { a \<leftarrow> array_at h p; Some (h[p := Some (Array (a\<lparr>oa_ref := oa_ref a + 1\<rparr>))]) })"

fun addref :: "dheap \<Rightarrow> handle list \<Rightarrow> dheap option" where
  "addref h [] = Some h"
| "addref h (Obj p # hs) = do { h \<leftarrow> obs_data_addref h p; addref h hs }"
| "addref h (Arr p # hs) = do { h \<leftarrow> obs_data_array_addref h p; addref h hs }"

subsection \<open>What an item refers to\<close>

text \<open>
  The pointer at a position, as a handle of the item's type; an item of another type has none.
\<close>

definition handle_at :: "obs_data_item \<Rightarrow> nat option \<Rightarrow> handle list option" where
  "handle_at item pos =
     (case pos of None \<Rightarrow> Some []
      | Some pos \<Rightarrow>
          if item_type item = OBS_DATA_OBJECT \<or> item_type item = OBS_DATA_ARRAY
          then do { cs \<leftarrow> mem_read (item_block item) pos 8; p \<leftarrow> cells_ptr cs;
                    Some [if item_type item = OBS_DATA_OBJECT then Obj p else Arr p] }
          else Some [])"

definition item_data_release :: "obs_data_item \<Rightarrow> handle list option" where
  "item_data_release item = (if \<not> obs_data_item_has_user_value item then Some [] else handle_at item (get_item_data item))"

definition item_default_data_release :: "obs_data_item \<Rightarrow> handle list option" where
  "item_default_data_release item = handle_at item (get_item_default_data item)"

definition item_autoselect_data_release :: "obs_data_item \<Rightarrow> handle list option" where
  "item_autoselect_data_release item = handle_at item (get_item_autoselect_data item)"

definition item_data_addref :: "dheap \<Rightarrow> obs_data_item \<Rightarrow> dheap option" where
  "item_data_addref h item = do { hs \<leftarrow> handle_at item (get_item_data item); addref h hs }"

definition item_default_data_addref :: "dheap \<Rightarrow> obs_data_item \<Rightarrow> dheap option" where
  "item_default_data_addref h item =
     (if data_size item = 0 then Some h
      else do { hs \<leftarrow> handle_at item (get_item_default_data item); addref h hs })"

definition item_autoselect_data_addref :: "dheap \<Rightarrow> obs_data_item \<Rightarrow> dheap option" where
  "item_autoselect_data_addref h item =
     do { hs \<leftarrow> handle_at item (get_item_autoselect_data item); addref h hs }"

definition obs_data_item_destroy :: "obs_data_item \<Rightarrow> handle list option" where
  "obs_data_item_destroy item =
     do { us \<leftarrow> item_data_release item; ds \<leftarrow> item_default_data_release item;
          as \<leftarrow> item_autoselect_data_release item; Some (us @ ds @ as) }"

definition obs_data_item_release :: "obs_data_item \<Rightarrow> handle list option" where
  "obs_data_item_release item = (if item_ref item = 1 then obs_data_item_destroy item else Some [])"

fun obs_data_destroy :: "(name \<times> obs_data_item) list \<Rightarrow> handle list option" where
  "obs_data_destroy [] = Some []"
| "obs_data_destroy ((n, item) # items) =
     do { hs \<leftarrow> obs_data_item_release item; rest \<leftarrow> obs_data_destroy items; Some (hs @ rest) }"

subsection \<open>Release\<close>

definition cell_refs :: "heap_cell option \<Rightarrow> nat" where
  "cell_refs c = (case c of None \<Rightarrow> 0 | Some (Data d) \<Rightarrow> od_ref d | Some (Array a) \<Rightarrow> oa_ref a)"

definition heap_refs :: "dheap \<Rightarrow> nat" where
  "heap_refs h = sum_list (map cell_refs h)"

lemma heap_refs_update:
  assumes "p < length h" and "cell_refs c < cell_refs (h ! p)"
  shows "heap_refs (h[p := c]) < heap_refs h"
proof -
  have "heap_refs h = heap_refs (take p h) + cell_refs (h ! p) + heap_refs (drop (Suc p) h)"
    by (subst id_take_nth_drop [OF assms(1)]) (simp add: heap_refs_def)
  moreover have "heap_refs (h[p := c]) = heap_refs (take p h) + cell_refs c + heap_refs (drop (Suc p) h)"
    by (subst upd_conv_take_nth_drop [OF assms(1)]) (simp add: heap_refs_def)
  ultimately show ?thesis using assms(2) by simp
qed

function (sequential) release_all :: "dheap \<Rightarrow> handle list \<Rightarrow> dheap option" where
  "release_all h [] = Some h"
| "release_all h (Obj p # hs) =
     (if p = 0 then release_all h hs
      else case data_at h p of None \<Rightarrow> None
      | Some d \<Rightarrow>
          if od_ref d = 0 then None
          else if od_ref d = 1
          then (case obs_data_destroy (od_items d) of None \<Rightarrow> None
                | Some rs \<Rightarrow> release_all (h[p := None]) (rs @ hs))
          else release_all (h[p := Some (Data (d\<lparr>od_ref := od_ref d - 1\<rparr>))]) hs)"
| "release_all h (Arr p # hs) =
     (if p = 0 then release_all h hs
      else case array_at h p of None \<Rightarrow> None
      | Some a \<Rightarrow>
          if oa_ref a = 0 then None
          else if oa_ref a = 1 then release_all (h[p := None]) (map Obj (oa_objects a) @ hs)
          else release_all (h[p := Some (Array (a\<lparr>oa_ref := oa_ref a - 1\<rparr>))]) hs)"
  by pat_completeness auto
termination
  by (relation "measures [\<lambda>(h, hs). heap_refs h, \<lambda>(h, hs). length hs]")
     (auto simp: data_at_def array_at_def cell_refs_def intro!: heap_refs_update
       split: if_splits option.splits heap_cell.splits)

definition obs_data_release :: "dheap \<Rightarrow> nat \<Rightarrow> dheap option" where
  "obs_data_release h p = release_all h [Obj p]"

definition obs_data_array_release :: "dheap \<Rightarrow> nat \<Rightarrow> dheap option" where
  "obs_data_array_release h p = release_all h [Arr p]"

subsection \<open>Setting values\<close>

definition get_item :: "obs_data \<Rightarrow> name \<Rightarrow> obs_data_item option" where
  "get_item d name = map_of (od_items d) name"

text \<open>The item is stored in its place, or at the end when it has moved.\<close>

fun replace_item :: "name \<Rightarrow> obs_data_item \<Rightarrow> (name \<times> obs_data_item) list \<Rightarrow> (name \<times> obs_data_item) list" where
  "replace_item name item [] = []"
| "replace_item name item ((n, i) # items) =
     (if n = name then (n, item) # items else (n, i) # replace_item name item items)"

fun remove_item :: "name \<Rightarrow> (name \<times> obs_data_item) list \<Rightarrow> (name \<times> obs_data_item) list" where
  "remove_item name [] = []"
| "remove_item name ((n, i) # items) = (if n = name then items else (n, i) # remove_item name items)"

definition put_item :: "dheap \<Rightarrow> nat \<Rightarrow> name \<Rightarrow> obs_data_item \<Rightarrow> bool \<Rightarrow> dheap option" where
  "put_item h p name item moved =
     do { d \<leftarrow> data_at h p;
          Some (h[p := Some (Data (d\<lparr>od_items :=
            (if moved then remove_item name (od_items d) @ [(name, item)]
             else replace_item name item (od_items d))\<rparr>))]) }"

datatype layer = User | Default | Autoselect

text \<open>The release of the old value, the change of the block, and the reference to the new value.\<close>

definition layer_release :: "layer \<Rightarrow> obs_data_item \<Rightarrow> handle list option" where
  "layer_release l item =
     (case l of User \<Rightarrow> item_data_release item | Default \<Rightarrow> item_default_data_release item
      | Autoselect \<Rightarrow> item_autoselect_data_release item)"

definition layer_store ::
    "layer \<Rightarrow> obs_data_item \<Rightarrow> cells \<Rightarrow> obs_data_type \<Rightarrow> (obs_data_item \<times> bool) option" where
  "layer_store l item data type =
     (case l of User \<Rightarrow> obs_data_item_setdata item data type
      | Default \<Rightarrow> obs_data_item_set_default_data item data type
      | Autoselect \<Rightarrow> obs_data_item_set_autoselect_data item data type)"

definition layer_addref :: "layer \<Rightarrow> dheap \<Rightarrow> obs_data_item \<Rightarrow> dheap option" where
  "layer_addref l h item =
     (case l of User \<Rightarrow> item_data_addref h item | Default \<Rightarrow> item_default_data_addref h item
      | Autoselect \<Rightarrow> item_autoselect_data_addref h item)"

definition set_item_data ::
    "layer \<Rightarrow> dheap \<Rightarrow> nat \<Rightarrow> obs_data_item option \<Rightarrow> name \<Rightarrow> cells \<Rightarrow> obs_data_type \<Rightarrow> dheap option" where
  "set_item_data l h p item name data type =
     (case item of
        None \<Rightarrow>
          do { item \<leftarrow> obs_data_item_create name data type (l = Default) (l = Autoselect);
               h \<leftarrow> item_data_addref h item;
               d \<leftarrow> data_at h p;
               Some (h[p := Some (Data (d\<lparr>od_items := od_items d @ [(name, item)]\<rparr>))]) }
      | Some item \<Rightarrow>
          do { hs \<leftarrow> layer_release l item;
               h \<leftarrow> release_all h hs;
               (item, moved) \<leftarrow> layer_store l item data type;
               h \<leftarrow> put_item h p name item moved;
               layer_addref l h item })"

text \<open>\<^verbatim>\<open>set_item\<close>, \<^verbatim>\<open>set_item_def\<close> and \<^verbatim>\<open>set_item_auto\<close>: only the
default of another type is refused.\<close>

definition set_item :: "layer \<Rightarrow> dheap \<Rightarrow> nat \<Rightarrow> name \<Rightarrow> cells \<Rightarrow> obs_data_type \<Rightarrow> dheap option" where
  "set_item l h p name data type =
     (if p = 0 then Some h
      else do { d \<leftarrow> data_at h p;
                case get_item d name of
                  None \<Rightarrow> set_item_data l h p None name data type
                | Some item \<Rightarrow>
                    if l = Default \<and> item_type item \<noteq> type then Some h
                    else set_item_data l h p (Some item) name data type })"

datatype setting =
  S_string name | S_int "64 word" | S_double "64 word" | S_bool bool | S_obj nat | S_array nat

definition setting_type :: "setting \<Rightarrow> obs_data_type" where
  "setting_type v =
     (case v of S_string _ \<Rightarrow> OBS_DATA_STRING | S_int _ \<Rightarrow> OBS_DATA_NUMBER | S_double _ \<Rightarrow> OBS_DATA_NUMBER
      | S_bool _ \<Rightarrow> OBS_DATA_BOOLEAN | S_obj _ \<Rightarrow> OBS_DATA_OBJECT | S_array _ \<Rightarrow> OBS_DATA_ARRAY)"

definition setting_cells :: "setting \<Rightarrow> cells" where
  "setting_cells v =
     (case v of S_string s \<Rightarrow> cstring s | S_int i \<Rightarrow> number_cells (OBS_DATA_NUM_INT i)
      | S_double x \<Rightarrow> number_cells (OBS_DATA_NUM_DOUBLE x) | S_bool b \<Rightarrow> word_cells 1 (if b then 1 else 0 :: 8 word)
      | S_obj p \<Rightarrow> ptr_cells p | S_array p \<Rightarrow> ptr_cells p)"

definition obs_data_set :: "layer \<Rightarrow> dheap \<Rightarrow> nat \<Rightarrow> name \<Rightarrow> setting \<Rightarrow> dheap option" where
  "obs_data_set l h p name v = set_item l h p name (setting_cells v) (setting_type v)"


subsection \<open>Removing values\<close>

definition obs_data_erase :: "dheap \<Rightarrow> nat \<Rightarrow> name \<Rightarrow> dheap option" where
  "obs_data_erase h p name =
     (if p = 0 then Some h
      else do { d \<leftarrow> data_at h p;
                case get_item d name of None \<Rightarrow> Some h
                | Some item \<Rightarrow>
                    do { hs \<leftarrow> obs_data_item_release item;
                         release_all (h[p := Some (Data (d\<lparr>od_items := remove_item name (od_items d)\<rparr>))]) hs } })"

definition layer_unset :: "layer \<Rightarrow> obs_data_item \<Rightarrow> obs_data_item option" where
  "layer_unset l item =
     (case l of User \<Rightarrow> obs_data_item_unset_user_value item
      | Default \<Rightarrow> obs_data_item_unset_default_value item
      | Autoselect \<Rightarrow> Some (obs_data_item_unset_autoselect_value item))"

definition obs_data_unset :: "layer \<Rightarrow> dheap \<Rightarrow> nat \<Rightarrow> name \<Rightarrow> dheap option" where
  "obs_data_unset l h p name =
     (if p = 0 then Some h
      else do { d \<leftarrow> data_at h p;
                case get_item d name of None \<Rightarrow> Some h
                | Some item \<Rightarrow>
                    do { hs \<leftarrow> layer_release l item;
                         h \<leftarrow> release_all h hs;
                         item \<leftarrow> layer_unset l item;
                         put_item h p name item False } })"

fun clear_items :: "dheap \<Rightarrow> nat \<Rightarrow> (name \<times> obs_data_item) list \<Rightarrow> dheap option" where
  "clear_items h p [] = Some h"
| "clear_items h p ((name, item) # items) =
     do { hs \<leftarrow> (if data_len item = 0 then Some [] else item_data_release item);
          h \<leftarrow> release_all h hs;
          item \<leftarrow> clear_item item;
          h \<leftarrow> put_item h p name item False;
          clear_items h p items }"

definition obs_data_clear :: "dheap \<Rightarrow> nat \<Rightarrow> dheap option" where
  "obs_data_clear h p = (if p = 0 then Some h else do { d \<leftarrow> data_at h p; clear_items h p (od_items d) })"

subsection \<open>Reading values\<close>

definition layer_data :: "layer \<Rightarrow> obs_data_item \<Rightarrow> nat option" where
  "layer_data l item =
     (case l of User \<Rightarrow> get_item_data item | Default \<Rightarrow> get_item_default_data item
      | Autoselect \<Rightarrow> get_item_autoselect_data item)"

definition item_at :: "dheap \<Rightarrow> nat \<Rightarrow> name \<Rightarrow> obs_data_item option option" where
  "item_at h p name = (if p = 0 then Some None else do { d \<leftarrow> data_at h p; Some (get_item d name) })"

text \<open>The data of an item of the wanted type, and \<open>Some None\<close> when there is none.\<close>

definition typed_data :: "layer \<Rightarrow> obs_data_item option \<Rightarrow> obs_data_type \<Rightarrow> (cells \<times> nat) option" where
  "typed_data l item type =
     (case item of None \<Rightarrow> None
      | Some item \<Rightarrow>
          if item_type item = type
          then (case layer_data l item of None \<Rightarrow> None | Some pos \<Rightarrow> Some (item_block item, pos)) else None)"

definition data_item_get_string :: "layer \<Rightarrow> obs_data_item option \<Rightarrow> name option" where
  "data_item_get_string l item =
     (case typed_data l item OBS_DATA_STRING of None \<Rightarrow> Some []
      | Some (b, pos) \<Rightarrow> cells_string (drop pos b))"

definition item_number :: "layer \<Rightarrow> obs_data_item option \<Rightarrow> obs_data_number option option" where
  "item_number l item =
     (case typed_data l item OBS_DATA_NUMBER of None \<Rightarrow> Some None
      | Some (b, pos) \<Rightarrow> do { cs \<leftarrow> mem_read b pos 16; n \<leftarrow> cells_number cs; Some (Some n) })"

text \<open>
  The conversions of C between \<^verbatim>\<open>long long\<close> and \<^verbatim>\<open>double\<close>, on the bits of the
  double: towards zero, undefined when the result does not fit; and to the nearest, ties to even.
\<close>

definition double_to_int :: "64 word \<Rightarrow> 64 word option" where
  "double_to_int x =
     (let e = unat (drop_bit 52 x AND 0x7ff);
          m = unat (x AND 0xfffffffffffff);
          a = (if e < 1023 then 0 else (2 ^ 52 + m) * 2 ^ (e - 1023) div 2 ^ 52)
      in if bit x 63 then (if e = 2047 \<or> a > 2 ^ 63 then None else Some (- of_nat a))
         else (if e = 2047 \<or> a \<ge> 2 ^ 63 then None else Some (of_nat a)))"

fun log2_floor :: "nat \<Rightarrow> nat" where
  "log2_floor n = (if n < 2 then 0 else Suc (log2_floor (n div 2)))"

declare log2_floor.simps [simp del]

definition nat_to_double :: "nat \<Rightarrow> nat" where
  "nat_to_double a =
     (if a = 0 then 0
      else let k = log2_floor a in
        if k \<le> 52 then (k + 1022) * 2 ^ 52 + a * 2 ^ (52 - k)
        else let d = 2 ^ (k - 52); q = a div d; r = a mod d;
                 q = (if 2 * r > d \<or> 2 * r = d \<and> odd q then q + 1 else q)
             in (k + 1022) * 2 ^ 52 + q)"

definition int_to_double :: "64 word \<Rightarrow> 64 word" where
  "int_to_double i =
     (if sint i < 0 then of_nat (2 ^ 63 + nat_to_double (nat (- sint i))) else of_nat (nat_to_double (nat (sint i))))"

definition data_item_get_int :: "layer \<Rightarrow> obs_data_item option \<Rightarrow> 64 word option" where
  "data_item_get_int l item =
     do { n \<leftarrow> item_number l item;
          case n of None \<Rightarrow> Some 0
          | Some (OBS_DATA_NUM_INT i) \<Rightarrow> Some i
          | Some (OBS_DATA_NUM_DOUBLE x) \<Rightarrow> double_to_int x }"

definition data_item_get_double :: "layer \<Rightarrow> obs_data_item option \<Rightarrow> 64 word option" where
  "data_item_get_double l item =
     do { n \<leftarrow> item_number l item;
          Some (case n of None \<Rightarrow> 0 | Some (OBS_DATA_NUM_INT i) \<Rightarrow> int_to_double i | Some (OBS_DATA_NUM_DOUBLE x) \<Rightarrow> x) }"

definition data_item_get_bool :: "layer \<Rightarrow> obs_data_item option \<Rightarrow> bool option" where
  "data_item_get_bool l item =
     (case typed_data l item OBS_DATA_BOOLEAN of None \<Rightarrow> Some False
      | Some (b, pos) \<Rightarrow> do { cs \<leftarrow> mem_read b pos 1; w \<leftarrow> cells_word cs :: 8 word option; Some (w \<noteq> 0) })"

text \<open>The pointer is returned with a reference of its own.\<close>

definition data_item_get_obj :: "layer \<Rightarrow> dheap \<Rightarrow> obs_data_item option \<Rightarrow> (nat \<times> dheap) option" where
  "data_item_get_obj l h item =
     (case typed_data l item OBS_DATA_OBJECT of None \<Rightarrow> Some (0, h)
      | Some (b, pos) \<Rightarrow> do { cs \<leftarrow> mem_read b pos 8; q \<leftarrow> cells_ptr cs; h \<leftarrow> obs_data_addref h q; Some (q, h) })"

definition data_item_get_array :: "layer \<Rightarrow> dheap \<Rightarrow> obs_data_item option \<Rightarrow> (nat \<times> dheap) option" where
  "data_item_get_array l h item =
     (case typed_data l item OBS_DATA_ARRAY of None \<Rightarrow> Some (0, h)
      | Some (b, pos) \<Rightarrow> do { cs \<leftarrow> mem_read b pos 8; q \<leftarrow> cells_ptr cs; h \<leftarrow> obs_data_array_addref h q; Some (q, h) })"

definition obs_data_get_string :: "layer \<Rightarrow> dheap \<Rightarrow> nat \<Rightarrow> name \<Rightarrow> name option" where
  "obs_data_get_string l h p name = do { item \<leftarrow> item_at h p name; data_item_get_string l item }"

definition obs_data_get_int :: "layer \<Rightarrow> dheap \<Rightarrow> nat \<Rightarrow> name \<Rightarrow> 64 word option" where
  "obs_data_get_int l h p name = do { item \<leftarrow> item_at h p name; data_item_get_int l item }"

definition obs_data_get_double :: "layer \<Rightarrow> dheap \<Rightarrow> nat \<Rightarrow> name \<Rightarrow> 64 word option" where
  "obs_data_get_double l h p name = do { item \<leftarrow> item_at h p name; data_item_get_double l item }"

definition obs_data_get_bool :: "layer \<Rightarrow> dheap \<Rightarrow> nat \<Rightarrow> name \<Rightarrow> bool option" where
  "obs_data_get_bool l h p name = do { item \<leftarrow> item_at h p name; data_item_get_bool l item }"

definition obs_data_get_obj :: "layer \<Rightarrow> dheap \<Rightarrow> nat \<Rightarrow> name \<Rightarrow> (nat \<times> dheap) option" where
  "obs_data_get_obj l h p name = do { item \<leftarrow> item_at h p name; data_item_get_obj l h item }"

definition obs_data_get_array :: "layer \<Rightarrow> dheap \<Rightarrow> nat \<Rightarrow> name \<Rightarrow> (nat \<times> dheap) option" where
  "obs_data_get_array l h p name = do { item \<leftarrow> item_at h p name; data_item_get_array l h item }"

definition obs_data_has :: "layer \<Rightarrow> dheap \<Rightarrow> nat \<Rightarrow> name \<Rightarrow> bool option" where
  "obs_data_has l h p name =
     do { item \<leftarrow> item_at h p name;
          Some (case item of None \<Rightarrow> False
            | Some item \<Rightarrow> (case l of User \<Rightarrow> obs_data_item_has_user_value item
                | Default \<Rightarrow> obs_data_item_has_default_value item
                | Autoselect \<Rightarrow> obs_data_item_has_autoselect_value item)) }"

subsection \<open>Arrays\<close>

definition obs_data_array_count :: "dheap \<Rightarrow> nat \<Rightarrow> nat option" where
  "obs_data_array_count h a = (if a = 0 then Some 0 else do { ar \<leftarrow> array_at h a; Some (length (oa_objects ar)) })"

definition obs_data_array_item :: "dheap \<Rightarrow> nat \<Rightarrow> nat \<Rightarrow> (nat \<times> dheap) option" where
  "obs_data_array_item h a idx =
     (if a = 0 then Some (0, h)
      else do { ar \<leftarrow> array_at h a;
                let q = (if idx < length (oa_objects ar) then oa_objects ar ! idx else 0);
                h \<leftarrow> obs_data_addref h q; Some (q, h) })"

definition put_array :: "dheap \<Rightarrow> nat \<Rightarrow> (nat list \<Rightarrow> nat list) \<Rightarrow> dheap option" where
  "put_array h a f =
     do { ar \<leftarrow> array_at h a; Some (h[a := Some (Array (ar\<lparr>oa_objects := f (oa_objects ar)\<rparr>))]) }"

definition obs_data_array_push_back :: "dheap \<Rightarrow> nat \<Rightarrow> nat \<Rightarrow> (nat \<times> dheap) option" where
  "obs_data_array_push_back h a q =
     (if a = 0 \<or> q = 0 then Some (0, h)
      else do { h \<leftarrow> obs_data_addref h q; ar \<leftarrow> array_at h a;
                h \<leftarrow> put_array h a (\<lambda>qs. qs @ [q]); Some (length (oa_objects ar), h) })"

text \<open>\<^verbatim>\<open>da_insert\<close> inserts at the end at most; its range check is an assertion.\<close>

definition obs_data_array_insert :: "dheap \<Rightarrow> nat \<Rightarrow> nat \<Rightarrow> nat \<Rightarrow> dheap option" where
  "obs_data_array_insert h a idx q =
     (if a = 0 \<or> q = 0 then Some h
      else do { h \<leftarrow> obs_data_addref h q; ar \<leftarrow> array_at h a;
                if idx \<le> length (oa_objects ar) then put_array h a (\<lambda>qs. take idx qs @ q # drop idx qs) else None })"

definition obs_data_array_push_back_array :: "dheap \<Rightarrow> nat \<Rightarrow> nat \<Rightarrow> dheap option" where
  "obs_data_array_push_back_array h a b =
     (if a = 0 \<or> b = 0 then Some h
      else do { br \<leftarrow> array_at h b; h \<leftarrow> addref h (map Obj (oa_objects br));
                put_array h a (\<lambda>qs. qs @ oa_objects br) })"

definition obs_data_array_erase :: "dheap \<Rightarrow> nat \<Rightarrow> nat \<Rightarrow> dheap option" where
  "obs_data_array_erase h a idx =
     (if a = 0 then Some h
      else do { ar \<leftarrow> array_at h a;
                if idx < length (oa_objects ar)
                then do { h \<leftarrow> release_all h [Obj (oa_objects ar ! idx)];
                          put_array h a (\<lambda>qs. take idx qs @ drop (idx + 1) qs) }
                else None })"

subsection \<open>Frames per second\<close>

definition name_numerator :: name where "name_numerator = map (of_nat \<circ> of_char) ''numerator''"
definition name_denominator :: name where "name_denominator = map (of_nat \<circ> of_char) ''denominator''"
definition name_option :: name where "name_option = map (of_nat \<circ> of_char) ''option''"

record media_frames_per_second =
  fps_numerator :: "32 word"
  fps_denominator :: "32 word"

definition make_frames_per_second :: "dheap \<Rightarrow> media_frames_per_second \<Rightarrow> name option \<Rightarrow> (nat \<times> dheap) option" where
  "make_frames_per_second h fps opt =
     (let (p, h) = obs_data_create h in
      case opt of
        None \<Rightarrow> do { h \<leftarrow> obs_data_set User h p name_numerator (S_double (int_to_double (ucast (fps_numerator fps))));
                     h \<leftarrow> obs_data_set User h p name_denominator (S_double (int_to_double (ucast (fps_denominator fps))));
                     Some (p, h) }
      | Some s \<Rightarrow> do { h \<leftarrow> obs_data_set User h p name_option (S_string s); Some (p, h) })"

definition obs_data_set_frames_per_second ::
    "layer \<Rightarrow> dheap \<Rightarrow> nat \<Rightarrow> name \<Rightarrow> media_frames_per_second \<Rightarrow> name option \<Rightarrow> dheap option" where
  "obs_data_set_frames_per_second l h p name fps opt =
     do { (q, h) \<leftarrow> make_frames_per_second h fps opt;
          h \<leftarrow> obs_data_set l h p name (S_obj q);
          obs_data_release h q }"

definition clamp_uint32 :: "64 word \<Rightarrow> 32 word" where
  "clamp_uint32 x = (if sint x < 0 then 0 else if sint x > 0xffffffff then 0xffffffff else ucast x)"

text \<open>
  The result, the frame rate when it was read, the option when it was read, and the heap.  The caller asks
  for the option, for the rate or for both.
\<close>

definition get_frames_per_second ::
    "dheap \<Rightarrow> nat \<Rightarrow> bool \<Rightarrow> bool \<Rightarrow> (bool \<times> media_frames_per_second option \<times> name option \<times> dheap) option" where
  "get_frames_per_second h p want_fps want_opt =
     (if p = 0 then Some (False, None, None, h)
      else do { opt \<leftarrow> item_at h p name_option;
                if want_opt \<and> opt \<noteq> None
                then do { s \<leftarrow> data_item_get_string User opt; h \<leftarrow> obs_data_release h p; Some (True, None, Some s, h) }
                else if \<not> want_fps then do { h \<leftarrow> obs_data_release h p; Some (False, None, None, h) }
                else do { num \<leftarrow> item_at h p name_numerator; den \<leftarrow> item_at h p name_denominator;
                          if num = None \<or> den = None
                          then do { h \<leftarrow> obs_data_release h p; Some (False, None, None, h) }
                          else do { n \<leftarrow> data_item_get_int User num; d \<leftarrow> data_item_get_int User den;
                                    let fps = \<lparr>fps_numerator = clamp_uint32 n, fps_denominator = clamp_uint32 d\<rparr>;
                                    h \<leftarrow> obs_data_release h p;
                                    Some (fps_numerator fps \<noteq> 0 \<and> fps_denominator fps \<noteq> 0, Some fps, None, h) } } })"

definition obs_data_get_frames_per_second ::
    "layer \<Rightarrow> dheap \<Rightarrow> nat \<Rightarrow> name \<Rightarrow> bool \<Rightarrow> bool \<Rightarrow>
       (bool \<times> media_frames_per_second option \<times> name option \<times> dheap) option" where
  "obs_data_get_frames_per_second l h p name want_fps want_opt =
     do { (q, h) \<leftarrow> obs_data_get_obj l h p name; get_frames_per_second h q want_fps want_opt }"

end
