(* ===== verification/Obs_Refs.thy ===== *)
theory Obs_Refs
  imports Obs_Data
begin

text \<open>
  The reference counts of settings objects: in every state a client can reach with references of its own, each
  count is the number of references there are, no operation touches what has been freed, and what nobody
  refers to any more is freed.
\<close>

subsection \<open>Items and what they hold\<close>

definition handle_of :: "obs_data_type \<Rightarrow> nat \<Rightarrow> handle" where
  "handle_of type p = (if type = OBS_DATA_OBJECT then Obj p else Arr p)"

definition holds_ptrs :: "obs_data_type \<Rightarrow> bool" where
  "holds_ptrs type \<longleftrightarrow> type = OBS_DATA_OBJECT \<or> type = OBS_DATA_ARRAY"

definition slot_handles :: "obs_data_type \<Rightarrow> cells option \<Rightarrow> handle list" where
  "slot_handles type v =
     (case v of None \<Rightarrow> [] | Some cs \<Rightarrow> if holds_ptrs type then [handle_of type (the (cells_ptr cs))] else [])"

definition slot_typed :: "obs_data_type \<Rightarrow> cells option \<Rightarrow> bool" where
  "slot_typed type v \<longleftrightarrow>
     (case v of None \<Rightarrow> True | Some cs \<Rightarrow> \<exists>s. setting_type s = type \<and> setting_cells s = cs)"

lemma slot_typed_ptr: "slot_typed type (Some cs) \<Longrightarrow> holds_ptrs type \<Longrightarrow> \<exists>q. cs = ptr_cells q"
proof -
  assume "slot_typed type (Some cs)" and ptrs: "holds_ptrs type"
  then obtain s where s: "setting_type s = type" "setting_cells s = cs" by (auto simp: slot_typed_def)
  show "\<exists>q. cs = ptr_cells q"
    by (cases s) (use s ptrs in \<open>auto simp: holds_ptrs_def setting_type_def setting_cells_def\<close>)
qed

definition spec_handles :: "item_spec \<Rightarrow> handle list" where
  "spec_handles s = slot_handles (sp_type s) (sp_user s) @ slot_handles (sp_type s) (sp_default s) @
     slot_handles (sp_type s) (sp_auto s)"

definition spec_typed :: "item_spec \<Rightarrow> bool" where
  "spec_typed s \<longleftrightarrow> slot_typed (sp_type s) (sp_user s) \<and> slot_typed (sp_type s) (sp_default s) \<and>
     slot_typed (sp_type s) (sp_auto s)"

text \<open>An item whose layout is right and whose values are values of its type.\<close>

definition item_valid :: "obs_data_item \<Rightarrow> bool" where
  "item_valid item \<longleftrightarrow> item_ok item \<and> item_ref item = 1 \<and> spec_typed (item_abs item)"

lemma length_ptr_cells [simp]: "length (ptr_cells p) = 8"
  by (simp add: ptr_cells_def)

lemma slot_read:
  "slot b pos n = Some v \<Longrightarrow> pos + n \<le> length b \<Longrightarrow> length v = n \<and> mem_read b pos n = Some v"
  by (auto simp: slot_def mem_read_def split: if_splits)

lemma handle_at_slot:
  assumes "slot (item_block item) pos n = v" and "n \<noteq> 0" and "pos + n \<le> length (item_block item)"
    and "slot_typed (item_type item) v"
  shows "handle_at item (Some pos) = Some (slot_handles (item_type item) v)"
proof (cases "holds_ptrs (item_type item)")
  case True
  obtain cs where v: "v = Some cs" using assms(1,2) by (auto simp: slot_def)
  then obtain q where q: "cs = ptr_cells q" using slot_typed_ptr assms(4) True by blast
  have "n = 8" using slot_read [OF assms(1) [unfolded v] assms(3)] by (simp add: q)
  then have "mem_read (item_block item) pos 8 = Some (ptr_cells q)"
    using slot_read [OF assms(1) [unfolded v] assms(3)] by (simp add: q)
  then show ?thesis using True v q by (auto simp: handle_at_def slot_handles_def handle_of_def holds_ptrs_def)
next
  case False
  then show ?thesis using assms(1,2) by (auto simp: handle_at_def slot_handles_def holds_ptrs_def slot_def)
qed

lemma layer_release_spec:
  assumes "item_valid item"
  shows "item_data_release item = Some (slot_handles (item_type item) (sp_user (item_abs item)))"
    and "item_default_data_release item = Some (slot_handles (item_type item) (sp_default (item_abs item)))"
    and "item_autoselect_data_release item = Some (slot_handles (item_type item) (sp_auto (item_abs item)))"
proof -
  have ok: "item_ok item" and ptr: "spec_typed (item_abs item)" using assms by (simp_all add: item_valid_def)
  have sizes: "data_size item \<le> data_len item" "default_size item \<le> default_len item"
    using ok by (simp_all add: item_ok_def)
  note room = item_ok_room [OF ok]
  have none: "slot b pos 0 = None" for b pos by (simp add: slot_def)
  show "item_data_release item = Some (slot_handles (item_type item) (sp_user (item_abs item)))"
  proof (cases "data_size item = 0")
    case True
    then show ?thesis by (simp add: item_data_release_def obs_data_item_has_user_value_def item_abs_def none slot_handles_def)
  next
    case False
    have "handle_at item (Some (get_data_ptr item)) = Some (slot_handles (item_type item) (sp_user (item_abs item)))"
      by (rule handle_at_slot [where n = "data_size item"])
         (use False room sizes ptr in \<open>auto simp: item_abs_def get_data_ptr_def spec_typed_def\<close>)
    then show ?thesis using False by (simp add: item_data_release_def obs_data_item_has_user_value_def get_item_data_def)
  qed
  show "item_default_data_release item = Some (slot_handles (item_type item) (sp_default (item_abs item)))"
  proof (cases "default_size item = 0")
    case True
    then show ?thesis by (simp add: item_default_data_release_def get_item_default_data_def handle_at_def item_abs_def none slot_handles_def)
  next
    case False
    have "handle_at item (Some (get_default_data_ptr item)) = Some (slot_handles (item_type item) (sp_default (item_abs item)))"
      by (rule handle_at_slot [where n = "default_size item"])
         (use False room sizes ptr in \<open>auto simp: item_abs_def item_ptr_defs spec_typed_def\<close>)
    then show ?thesis using False by (simp add: item_default_data_release_def get_item_default_data_def)
  qed
  show "item_autoselect_data_release item = Some (slot_handles (item_type item) (sp_auto (item_abs item)))"
  proof (cases "autoselect_size item = 0")
    case True
    then show ?thesis by (simp add: item_autoselect_data_release_def get_item_autoselect_data_def handle_at_def item_abs_def none slot_handles_def)
  next
    case False
    have "handle_at item (Some (get_autoselect_data_ptr item)) = Some (slot_handles (item_type item) (sp_auto (item_abs item)))"
      by (rule handle_at_slot [where n = "autoselect_size item"])
         (use False room sizes ptr in \<open>auto simp: item_abs_def item_ptr_defs spec_typed_def\<close>)
    then show ?thesis using False by (simp add: item_autoselect_data_release_def get_item_autoselect_data_def)
  qed
qed

lemma item_destroy_spec:
  assumes "item_valid item"
  shows "obs_data_item_release item = Some (spec_handles (item_abs item))"
  using layer_release_spec [OF assms] assms
  by (simp add: obs_data_item_release_def obs_data_item_destroy_def item_valid_def spec_handles_def item_abs_def)

lemma item_abs_type [simp]: "sp_type (item_abs item) = item_type item"
  by (simp add: item_abs_def)

subsection \<open>The references in the heap\<close>

definition items_handles :: "(name \<times> obs_data_item) list \<Rightarrow> handle list" where
  "items_handles items = concat (map (\<lambda>(n, item). spec_handles (item_abs item)) items)"

definition items_valid :: "(name \<times> obs_data_item) list \<Rightarrow> bool" where
  "items_valid items \<longleftrightarrow> distinct (map fst items) \<and> (\<forall>(n, item)\<in>set items. item_valid item)"

fun cell_handles :: "heap_cell option \<Rightarrow> handle list" where
  "cell_handles None = []"
| "cell_handles (Some (Data d)) = items_handles (od_items d)"
| "cell_handles (Some (Array a)) = map Obj (oa_objects a)"

fun cell_valid :: "heap_cell option \<Rightarrow> bool" where
  "cell_valid None = True"
| "cell_valid (Some (Data d)) \<longleftrightarrow> 0 < od_ref d \<and> items_valid (od_items d)"
| "cell_valid (Some (Array a)) \<longleftrightarrow> 0 < oa_ref a"

definition handles_in :: "dheap \<Rightarrow> handle multiset" where
  "handles_in h = (\<Sum>c\<in>#mset h. mset (cell_handles c))"

lemma items_destroy_spec: "items_valid items \<Longrightarrow> obs_data_destroy items = Some (items_handles items)"
  by (induction items rule: obs_data_destroy.induct) (auto simp: items_valid_def items_handles_def item_destroy_spec)

lemma handles_in_update:
  assumes "p < length h"
  shows "handles_in (h[p := c]) + mset (cell_handles (h ! p)) = handles_in h + mset (cell_handles c)"
proof -
  have "mset h = add_mset (h ! p) (mset (take p h) + mset (drop (Suc p) h))"
    by (subst id_take_nth_drop [OF assms]) simp
  moreover have "mset (h[p := c]) = add_mset c (mset (take p h) + mset (drop (Suc p) h))"
    by (subst upd_conv_take_nth_drop [OF assms]) simp
  ultimately show ?thesis by (simp add: handles_in_def)
qed

text \<open>The reference count of a handle, and the null handles.\<close>

fun rc :: "dheap \<Rightarrow> handle \<Rightarrow> nat" where
  "rc h (Obj p) = (case data_at h p of None \<Rightarrow> 0 | Some d \<Rightarrow> od_ref d)"
| "rc h (Arr p) = (case array_at h p of None \<Rightarrow> 0 | Some a \<Rightarrow> oa_ref a)"

fun handle_addr :: "handle \<Rightarrow> nat" where
  "handle_addr (Obj p) = p"
| "handle_addr (Arr p) = p"

text \<open>
  The counts are right for \<open>E\<close>, the references held outside, and \<open>hs\<close>, those still to be
  released, when the references \<open>D\<close> that are still in the heap are not counted.
\<close>

definition counts :: "handle multiset \<Rightarrow> handle multiset \<Rightarrow> handle list \<Rightarrow> dheap \<Rightarrow> bool" where
  "counts E D hs h \<longleftrightarrow> 0 < length h \<and> h ! 0 = None \<and> (\<forall>c\<in>set h. cell_valid c) \<and>
     (\<forall>x. handle_addr x \<noteq> 0 \<longrightarrow>
        rc h x + count D x = count (handles_in h) x + count E x + count (mset hs) x)"

text \<open>A cell without its reference count.\<close>

fun cell_body :: "heap_cell option \<Rightarrow> heap_cell option" where
  "cell_body None = None"
| "cell_body (Some (Data d)) = Some (Data (d\<lparr>od_ref := 0\<rparr>))"
| "cell_body (Some (Array a)) = Some (Array (a\<lparr>oa_ref := 0\<rparr>))"

lemma cell_body_handles: "cell_body c = cell_body c' \<Longrightarrow> cell_handles c = cell_handles c'"
  by (cases c rule: cell_handles.cases; cases c' rule: cell_handles.cases)
     (auto, metis obs_data.select_convs(2) obs_data.surjective obs_data.update_convs(1),
      metis obs_data_array.select_convs(2) obs_data_array.surjective obs_data_array.update_convs(1))

text \<open>
  The object or array at \<open>q\<close> is held outside, and it is the one that still has the references
  \<open>D\<close>.
\<close>

definition pinned :: "handle multiset \<Rightarrow> handle multiset \<Rightarrow> nat \<Rightarrow> dheap \<Rightarrow> bool" where
  "pinned E D q h \<longleftrightarrow> D = {#} \<or>
     q < length h \<and> D \<subseteq># mset (cell_handles (h ! q)) \<and>
     (case h ! q of None \<Rightarrow> False | Some (Data d) \<Rightarrow> Obj q \<in># E | Some (Array a) \<Rightarrow> Arr q \<in># E)"

lemma cell_handles_subset: "q < length h \<Longrightarrow> mset (cell_handles (h ! q)) \<subseteq># handles_in h"
  using handles_in_update [of q h None] by (metis add.commute add.right_neutral cell_handles.simps(1) mset.simps(1) mset_subset_eq_add_right)

lemma pinned_sub: "pinned E D q h \<Longrightarrow> D \<subseteq># handles_in h"
  unfolding pinned_def using cell_handles_subset subset_mset.order_trans by fastforce


fun cell_rc :: "heap_cell option \<Rightarrow> handle \<Rightarrow> nat" where
  "cell_rc (Some (Data d)) (Obj p) = od_ref d"
| "cell_rc (Some (Array a)) (Arr p) = oa_ref a"
| "cell_rc _ _ = 0"

lemma rc_cell: "rc h x = (if handle_addr x < length h then cell_rc (h ! handle_addr x) x else 0)"
  by (cases x) (auto simp: data_at_def array_at_def split: option.split heap_cell.split)

lemma rc_update:
  "p < length h \<Longrightarrow> rc (h[p := c]) x = (if handle_addr x = p then cell_rc c x else rc h x)"
  by (auto simp: rc_cell nth_list_update)

lemma data_at_Some: "data_at h p = Some d \<longleftrightarrow> p < length h \<and> h ! p = Some (Data d)"
  by (auto simp: data_at_def split: option.splits heap_cell.splits)

lemma array_at_Some: "array_at h p = Some a \<longleftrightarrow> p < length h \<and> h ! p = Some (Array a)"
  by (auto simp: array_at_def split: option.splits heap_cell.splits)

lemma handles_in_update_count:
  assumes "p < length h"
  shows "count (handles_in (h[p := c])) x + count (mset (cell_handles (h ! p))) x =
           count (handles_in h) x + count (mset (cell_handles c)) x"
  using arg_cong [OF handles_in_update [OF assms], of "\<lambda>m. count m x" c] by simp

lemma counts_live:
  assumes "counts E D hs h" and "pinned E D q h" and "handle_addr x \<noteq> 0"
  shows "count E x + count (mset hs) x \<le> rc h x"
proof -
  have "count D x \<le> count (handles_in h) x"
    using pinned_sub [OF assms(2)] by (simp add: subseteq_mset_def)
  moreover have "rc h x + count D x = count (handles_in h) x + count E x + count (mset hs) x"
    using assms(1,3) by (simp add: counts_def)
  ultimately show ?thesis by linarith
qed

lemma rc_pos_Obj: "0 < rc h (Obj p) \<Longrightarrow> \<exists>d. data_at h p = Some d"
  by (auto split: option.splits)

lemma rc_pos_Arr: "0 < rc h (Arr p) \<Longrightarrow> \<exists>a. array_at h p = Some a"
  by (auto split: option.splits)

lemma cell_rc_cases:
  assumes "0 < cell_rc c x"
  obtains d p where "c = Some (Data d)" "x = Obj p" | a p where "c = Some (Array a)" "x = Arr p"
  using assms by (cases "(c, x)" rule: cell_rc.cases) auto

lemma pinned_holder:
  assumes "pinned E D q h" and "D \<noteq> {#}" and "0 < cell_rc (h ! q) x" and "handle_addr x = q"
  shows "x \<in># E"
  using assms(3)
  by (rule cell_rc_cases) (use assms(1,2,4) in \<open>simp_all add: pinned_def\<close>)

text \<open>What one step of the release does to the counts.\<close>

lemma counts_free:
  assumes "counts E D (x # hs) h" and "pinned E D q h" and "handle_addr x \<noteq> 0" and "rc h x = 1"
  shows "counts E D (cell_handles (h ! handle_addr x) @ hs) (h[handle_addr x := None])"
    and "pinned E D q (h[handle_addr x := None])"
proof -
  let ?p = "handle_addr x"
  have p: "?p < length h" using assms(4) by (simp add: rc_cell split: if_splits)
  have one: "cell_rc (h ! ?p) x = 1" using assms(4) p by (simp add: rc_cell)
  have other: "cell_rc (h ! ?p) y = 0" if "handle_addr y = ?p" "y \<noteq> x" for y
  proof (rule cell_rc_cases [of "h ! ?p" x])
    show "0 < cell_rc (h ! ?p) x" using one by simp
  qed (use that in \<open>cases y; simp\<close>)+
  have eq: "rc h y + count D y = count (handles_in h) y + count E y + count (mset (x # hs)) y" if "handle_addr y \<noteq> 0" for y
    using assms(1) that by (simp add: counts_def)
  have hin: "count (handles_in (h[?p := None])) y + count (mset (cell_handles (h ! ?p))) y = count (handles_in h) y" for y
    using handles_in_update_count [OF p, of None y] by simp
  have "rc (h[?p := None]) y + count D y = count (handles_in (h[?p := None])) y + count E y +
      count (mset (cell_handles (h ! ?p) @ hs)) y" if y: "handle_addr y \<noteq> 0" for y
  proof (cases "y = x")
    case True
    then show ?thesis using eq [OF y] hin [of y] assms(4) p by (simp add: rc_update)
  next
    case False
    have "rc (h[?p := None]) y = rc h y"
    proof (cases "handle_addr y = ?p")
      case True
      then show ?thesis using other [OF True False] p by (simp add: rc_update) (simp add: rc_cell)
    qed (use p in \<open>simp add: rc_update\<close>)
    then show ?thesis using eq [OF y] hin [of y] False by simp
  qed
  moreover have "h[?p := None] ! 0 = None" using assms(1,3) by (simp add: counts_def)
  moreover have "\<forall>c\<in>set (h[?p := None]). cell_valid c"
    using assms(1) set_update_subset_insert [of h ?p None] by (auto simp: counts_def)
  moreover have "0 < length h" using p by auto
  ultimately show "counts E D (cell_handles (h ! ?p) @ hs) (h[?p := None])" by (simp add: counts_def)
  show "pinned E D q (h[?p := None])"
  proof (cases "D = {#}")
    case False
    have "q \<noteq> ?p"
    proof
      assume q: "q = ?p"
      have "0 < cell_rc (h ! q) x" unfolding q using one by simp
      then have "x \<in># E" by (rule pinned_holder [OF assms(2) False _ q [symmetric]])
      then have "0 < count E x" by simp
      moreover have "0 < count (mset (x # hs)) x" by simp
      ultimately show False using counts_live [OF assms(1,2,3)] assms(4) by linarith
    qed
    then show ?thesis using assms(2) False by (simp add: pinned_def)
  qed (simp add: pinned_def)
qed

lemma counts_decrement:
  assumes "counts E D (x # hs) h" and "pinned E D q h" and "handle_addr x \<noteq> 0" and "handle_addr x < length h"
    and "cell_rc c x + 1 = cell_rc (h ! handle_addr x) x" and "cell_body c = cell_body (h ! handle_addr x)" and "cell_valid c"
  shows "counts E D hs (h[handle_addr x := c])" and "pinned E D q (h[handle_addr x := c])"
proof -
  let ?p = "handle_addr x"
  have handles: "cell_handles c = cell_handles (h ! ?p)" by (rule cell_body_handles [OF assms(6)])
  have other: "cell_rc c y = cell_rc (h ! ?p) y" if "handle_addr y = ?p" "y \<noteq> x" for y
    using that assms(5,6) by (cases x; cases y; cases c rule: cell_handles.cases; cases "h ! ?p" rule: cell_handles.cases) auto
  have eq: "rc h y + count D y = count (handles_in h) y + count E y + count (mset (x # hs)) y" if "handle_addr y \<noteq> 0" for y
    using assms(1) that by (simp add: counts_def)
  have hin: "count (handles_in (h[?p := c])) y = count (handles_in h) y" for y
    using handles_in_update_count [OF assms(4), of c y] handles by simp
  have "rc (h[?p := c]) y + count D y = count (handles_in (h[?p := c])) y + count E y + count (mset hs) y"
    if y: "handle_addr y \<noteq> 0" for y
  proof (cases "y = x")
    case True
    then show ?thesis using eq [OF y] hin [of y] assms(4,5) by (simp add: rc_update) (simp add: rc_cell)
  next
    case False
    have "rc (h[?p := c]) y = rc h y"
    proof (cases "handle_addr y = ?p")
      case True
      then show ?thesis using other [OF True False] assms(4) by (simp add: rc_update) (simp add: rc_cell)
    qed (use assms(4) in \<open>simp add: rc_update\<close>)
    then show ?thesis using eq [OF y] hin [of y] False by simp
  qed
  moreover have "h[?p := c] ! 0 = None" using assms(1,3) by (simp add: counts_def)
  moreover have "\<forall>c\<in>set (h[?p := c]). cell_valid c"
    using assms(1,7) set_update_subset_insert [of h ?p c] by (auto simp: counts_def)
  moreover have "0 < length h" using assms(4) by auto
  ultimately show "counts E D hs (h[?p := c])" by (simp add: counts_def)
  show "pinned E D q (h[?p := c])"
  proof (cases "q = ?p")
    case True
    then show ?thesis
      using assms(2,6) handles
      by (cases c rule: cell_handles.cases; cases "h ! ?p" rule: cell_handles.cases) (auto simp: pinned_def)
  next
    case False
    then show ?thesis using assms(2) by (auto simp: pinned_def)
  qed
qed

lemma counts_null: "counts E D (x # hs) h \<Longrightarrow> handle_addr x = 0 \<Longrightarrow> counts E D hs h"
  by (auto simp: counts_def)

lemma cell_body_None [simp]: "cell_body c = None \<longleftrightarrow> c = None"
  by (cases c rule: cell_body.cases) auto

text \<open>The bodies of the cells that are left are the same.\<close>

definition bodies :: "dheap \<Rightarrow> dheap \<Rightarrow> bool" where
  "bodies h h' \<longleftrightarrow> length h' = length h \<and> (\<forall>p<length h. h' ! p = None \<or> cell_body (h' ! p) = cell_body (h ! p))"

lemma bodies_refl [simp]: "bodies h h" by (simp add: bodies_def)

lemma bodies_step:
  assumes "bodies (h[p := c]) h'" and "c = None \<or> cell_body c = cell_body (h ! p)"
  shows "bodies h h'"
  unfolding bodies_def
proof (intro conjI allI impI)
  show "length h' = length h" using assms(1) by (simp add: bodies_def)
  fix r assume r: "r < length h"
  then have "h' ! r = None \<or> cell_body (h' ! r) = cell_body (h[p := c] ! r)" using assms(1) by (simp add: bodies_def)
  then show "h' ! r = None \<or> cell_body (h' ! r) = cell_body (h ! r)"
    using assms(2) r by (cases "r = p") auto
qed

theorem release_all_ok:
  assumes "counts E D hs h" and "pinned E D q h"
  shows "\<exists>h'. release_all h hs = Some h' \<and> counts E D [] h' \<and> pinned E D q h' \<and> bodies h h'"
  using assms
proof (induction h hs rule: release_all.induct)
  case (1 h)
  then show ?case by simp
next
  case (2 h p hs)
  show ?case
  proof (cases "p = 0")
    case True
    then show ?thesis using 2 counts_null [of E D "Obj p" hs h] by simp
  next
    case False
    have "0 < rc h (Obj p)" using counts_live [OF "2.prems", of "Obj p"] False by simp
    then obtain d where d: "data_at h p = Some d" using rc_pos_Obj by blast
    then have p: "p < length h" "h ! p = Some (Data d)" by (simp_all add: data_at_Some)
    have valid: "cell_valid (h ! p)" using "2.prems"(1) p(1) by (simp add: counts_def)
    show ?thesis
    proof (cases "od_ref d = 1")
      case True
      have rs: "obs_data_destroy (od_items d) = Some (items_handles (od_items d))"
        using valid p by (simp add: items_destroy_spec)
      have one: "rc h (Obj p) = 1" using d True by simp
      have "handle_addr (Obj p) \<noteq> 0" using False by simp
      from counts_free [OF "2.prems" this one] p
      have "counts E D (items_handles (od_items d) @ hs) (h[p := None])" "pinned E D q (h[p := None])" by simp_all
      from "2.IH"(2) [OF False d _ True rs this] True
      show ?thesis using False d rs by (auto intro: bodies_step)
    next
      case ref: False
      let ?c = "Some (Data (d\<lparr>od_ref := od_ref d - 1\<rparr>))"
      have ref2: "1 < od_ref d" using ref valid p by simp
      have "counts E D hs (h[p := ?c])" "pinned E D q (h[p := ?c])"
        using counts_decrement [OF "2.prems", of ?c] False p ref2 valid by simp_all
      from "2.IH"(3) [OF False d _ ref this] ref2
      show ?thesis using False d ref p bodies_step [of h p ?c] by auto
    qed
  qed
next
  case (3 h p hs)
  show ?case
  proof (cases "p = 0")
    case True
    then show ?thesis using 3 counts_null [of E D "Arr p" hs h] by simp
  next
    case False
    have "0 < rc h (Arr p)" using counts_live [OF "3.prems", of "Arr p"] False by simp
    then obtain a where a: "array_at h p = Some a" using rc_pos_Arr by blast
    then have p: "p < length h" "h ! p = Some (Array a)" by (simp_all add: array_at_Some)
    have valid: "cell_valid (h ! p)" using "3.prems"(1) p(1) by (simp add: counts_def)
    show ?thesis
    proof (cases "oa_ref a = 1")
      case True
      have one: "rc h (Arr p) = 1" using a True by simp
      have "handle_addr (Arr p) \<noteq> 0" using False by simp
      from counts_free [OF "3.prems" this one] p
      have "counts E D (map Obj (oa_objects a) @ hs) (h[p := None])" "pinned E D q (h[p := None])" by simp_all
      from "3.IH"(2) [OF False a _ True this] True
      show ?thesis using False a by (auto intro: bodies_step)
    next
      case ref: False
      let ?c = "Some (Array (a\<lparr>oa_ref := oa_ref a - 1\<rparr>))"
      have ref2: "1 < oa_ref a" using ref valid p by simp
      have "counts E D hs (h[p := ?c])" "pinned E D q (h[p := ?c])"
        using counts_decrement [OF "3.prems", of ?c] False p ref2 valid by simp_all
      from "3.IH"(3) [OF False a _ ref this] ref2
      show ?thesis using False a ref p bodies_step [of h p ?c] by auto
    qed
  qed
qed


subsection \<open>Storing a value\<close>

definition layer_slot :: "layer \<Rightarrow> item_spec \<Rightarrow> cells option" where
  "layer_slot l s = (case l of User \<Rightarrow> sp_user s | Default \<Rightarrow> sp_default s | Autoselect \<Rightarrow> sp_auto s)"

definition set_layer :: "layer \<Rightarrow> cells option \<Rightarrow> item_spec \<Rightarrow> item_spec" where
  "set_layer l v s = (case l of User \<Rightarrow> s\<lparr>sp_user := v\<rparr> | Default \<Rightarrow> s\<lparr>sp_default := v\<rparr> | Autoselect \<Rightarrow> s\<lparr>sp_auto := v\<rparr>)"

lemma layer_slot_set [simp]: "layer_slot l' (set_layer l v s) = (if l' = l then v else layer_slot l' s)"
  by (cases l; cases l') (simp_all add: layer_slot_def set_layer_def)

lemma set_layer_type [simp]: "sp_type (set_layer l v s) = sp_type s"
  by (cases l) (simp_all add: set_layer_def)

lemma spec_handles_layers:
  "mset (spec_handles s) = (\<Sum>l\<in>#{#User, Default, Autoselect#}. mset (slot_handles (sp_type s) (layer_slot l s)))"
  by (simp add: spec_handles_def layer_slot_def)

lemma spec_typed_layers: "spec_typed s \<longleftrightarrow> (\<forall>l. slot_typed (sp_type s) (layer_slot l s))"
  by (auto simp: spec_typed_def layer_slot_def split: layer.splits)

text \<open>The type of an item may change only when it has no other value.\<close>

definition type_fits :: "layer \<Rightarrow> obs_data_type \<Rightarrow> item_spec \<Rightarrow> bool" where
  "type_fits l type s \<longleftrightarrow>
     sp_type s = type \<or> list_all (\<lambda>l'. l' = l \<or> layer_slot l' s = None) [User, Default, Autoselect]"

lemma all_layers: "(\<forall>l. P l) \<longleftrightarrow> P User \<and> P Default \<and> P Autoselect"
proof safe
  fix l assume "P User" "P Default" "P Autoselect"
  then show "P l" by (cases l) simp_all
qed simp_all

lemma type_fits_iff: "type_fits l type s \<longleftrightarrow> sp_type s = type \<or> (\<forall>l'. l' \<noteq> l \<longrightarrow> layer_slot l' s = None)"
  unfolding type_fits_def all_layers by (cases l) simp_all

lemma layer_release_slot:
  "item_valid item \<Longrightarrow> layer_release l item = Some (slot_handles (item_type item) (layer_slot l (item_abs item)))"
  by (cases l) (simp_all add: layer_release_def layer_slot_def layer_release_spec)

lemma layer_store_refines:
  assumes "item_ok item" and "data \<noteq> []"
  obtains item' moved where "layer_store l item data type = Some (item', moved)"
    and "refines item item' (\<lambda>s. (set_layer l (Some data) s)\<lparr>sp_type := type\<rparr>)"
proof -
  have "\<exists>item' moved. layer_store l item data type = Some (item', moved) \<and>
      refines item item' (\<lambda>s. (set_layer l (Some data) s)\<lparr>sp_type := type\<rparr>)"
    using setdata_refines [OF assms, of type] set_default_data_refines [OF assms, of type]
      set_autoselect_data_refines [OF assms, of type]
    by (cases l) (auto simp: layer_store_def set_layer_def refines_def)
  then show ?thesis using that by blast
qed

lemma layer_slot_type_update [simp]: "layer_slot l (s\<lparr>sp_type := type\<rparr>) = layer_slot l s"
  by (cases l) (simp_all add: layer_slot_def)

lemma slot_handles_None [simp]: "slot_handles type None = []" by (simp add: slot_handles_def)

lemma slot_typed_None [simp]: "slot_typed type None" by (simp add: slot_typed_def)

lemma stored_valid:
  assumes "item_valid item" and "refines item item' (\<lambda>s. (set_layer l (Some data) s)\<lparr>sp_type := type\<rparr>)"
    and "type_fits l type (item_abs item)" and "slot_typed type (Some data)"
  shows "item_valid item'"
    and "mset (spec_handles (item_abs item')) + mset (slot_handles (item_type item) (layer_slot l (item_abs item))) =
           mset (spec_handles (item_abs item)) + mset (slot_handles type (Some data))"
proof -
  have abs: "item_abs item' = (set_layer l (Some data) (item_abs item))\<lparr>sp_type := type\<rparr>"
    and ok: "item_ok item'" "item_ref item' = 1"
    using assms(1,2) by (simp_all add: refines_def item_valid_def)
  have others: "slot_handles type (layer_slot l' (item_abs item)) = slot_handles (item_type item) (layer_slot l' (item_abs item))"
    "slot_typed type (layer_slot l' (item_abs item))" if "l' \<noteq> l" for l'
    using assms(1,3) that by (auto simp: type_fits_iff item_valid_def spec_typed_layers)
  have "slot_typed type (layer_slot l' (item_abs item'))" for l'
    using others assms(4) by (simp add: abs)
  then show "item_valid item'"
    using ok by (simp add: item_valid_def spec_typed_layers abs)
  show "mset (spec_handles (item_abs item')) + mset (slot_handles (item_type item) (layer_slot l (item_abs item))) =
      mset (spec_handles (item_abs item)) + mset (slot_handles type (Some data))"
    unfolding spec_handles_layers abs using others by (cases l) simp_all
qed

subsection \<open>Items of an object\<close>

lemma items_handles_simps [simp]:
  "items_handles [] = []" "items_handles ((n, i) # items) = spec_handles (item_abs i) @ items_handles items"
  "items_handles (xs @ ys) = items_handles xs @ items_handles ys"
  by (simp_all add: items_handles_def)

lemma fst_replace [simp]: "map fst (replace_item name item items) = map fst items"
  by (induction items rule: replace_item.induct) auto

lemma replace_item_handles:
  assumes "map_of items name = Some old"
  shows "mset (items_handles (replace_item name item items)) + mset (spec_handles (item_abs old)) =
           mset (items_handles items) + mset (spec_handles (item_abs item))"
  using assms by (induction items rule: replace_item.induct) (auto split: if_splits)

lemma remove_item_handles:
  assumes "map_of items name = Some old"
  shows "mset (items_handles (remove_item name items)) + mset (spec_handles (item_abs old)) = mset (items_handles items)"
  using assms by (induction items rule: remove_item.induct) (auto split: if_splits)

lemma fst_remove: "map fst (remove_item name items) = remove1 name (map fst items)"
  by (induction items rule: remove_item.induct) auto

lemma set_replace: "set (replace_item name item items) \<subseteq> insert (name, item) (set items)"
  by (induction items rule: replace_item.induct) auto

lemma set_remove: "set (remove_item name items) \<subseteq> set items"
  by (induction items rule: remove_item.induct) auto

lemma items_valid_replace: "items_valid items \<Longrightarrow> item_valid item \<Longrightarrow> items_valid (replace_item name item items)"
  using set_replace [of name item items] by (fastforce simp: items_valid_def)

lemma items_valid_remove: "items_valid items \<Longrightarrow> items_valid (remove_item name items)"
  using set_remove [of name items] by (auto simp: items_valid_def fst_remove distinct_remove1)

lemma items_valid_snoc:
  "items_valid items \<Longrightarrow> item_valid item \<Longrightarrow> name \<notin> set (map fst items) \<Longrightarrow> items_valid (items @ [(name, item)])"
  by (auto simp: items_valid_def)

lemma items_valid_get: "items_valid items \<Longrightarrow> map_of items name = Some item \<Longrightarrow> item_valid item"
  by (auto simp: items_valid_def dest: map_of_SomeD)

definition moved_items :: "bool \<Rightarrow> name \<Rightarrow> obs_data_item \<Rightarrow> (name \<times> obs_data_item) list \<Rightarrow> (name \<times> obs_data_item) list" where
  "moved_items moved name item items =
     (if moved then remove_item name items @ [(name, item)] else replace_item name item items)"

lemma put_item_eq:
  "put_item h p name item moved =
     do { d \<leftarrow> data_at h p; Some (h[p := Some (Data (d\<lparr>od_items := moved_items moved name item (od_items d)\<rparr>))]) }"
  by (cases "data_at h p") (simp_all add: put_item_def moved_items_def)

lemma moved_items_handles:
  assumes "map_of items name = Some old"
  shows "mset (items_handles (moved_items moved name item items)) + mset (spec_handles (item_abs old)) =
           mset (items_handles items) + mset (spec_handles (item_abs item))"
  using replace_item_handles [OF assms, of item] remove_item_handles [OF assms]
  by (simp add: moved_items_def)

lemma moved_items_valid:
  assumes "items_valid items" and "item_valid item"
  shows "items_valid (moved_items moved name item items)"
proof -
  have "name \<notin> set (map fst (remove_item name items))"
    using assms(1) by (simp add: fst_remove items_valid_def)
  then show ?thesis
    using assms by (simp add: moved_items_def items_valid_replace items_valid_remove items_valid_snoc)
qed

subsection \<open>One more reference, and another body\<close>

lemma counts_increment:
  assumes "counts E D hs h" and "handle_addr x \<noteq> 0" and "handle_addr x < length h"
    and "cell_rc c x = cell_rc (h ! handle_addr x) x + 1" and "cell_body c = cell_body (h ! handle_addr x)" and "cell_valid c"
  shows "counts E D (x # hs) (h[handle_addr x := c])"
proof -
  let ?p = "handle_addr x"
  have other: "cell_rc c y = cell_rc (h ! ?p) y" if "handle_addr y = ?p" "y \<noteq> x" for y
    using that assms(4,5) by (cases x; cases y; cases c rule: cell_handles.cases; cases "h ! ?p" rule: cell_handles.cases) auto
  have hin: "count (handles_in (h[?p := c])) y = count (handles_in h) y" for y
    using handles_in_update_count [OF assms(3), of c y] cell_body_handles [OF assms(5)] by simp
  have "rc (h[?p := c]) y + count D y = count (handles_in (h[?p := c])) y + count E y + count (mset (x # hs)) y"
    if y: "handle_addr y \<noteq> 0" for y
  proof -
    have eq: "rc h y + count D y = count (handles_in h) y + count E y + count (mset hs) y"
      using assms(1) y by (simp add: counts_def)
    have "rc (h[?p := c]) y = rc h y + (if y = x then 1 else 0)"
    proof (cases "handle_addr y = ?p")
      case True
      then show ?thesis using other [OF True] assms(3,4) by (auto simp add: rc_update) (simp_all add: rc_cell)
    qed (use assms(3) in \<open>auto simp add: rc_update\<close>)
    then show ?thesis using eq hin [of y] by simp
  qed
  moreover have "h[?p := c] ! 0 = None" using assms(1,2) by (simp add: counts_def)
  moreover have "\<forall>c\<in>set (h[?p := c]). cell_valid c"
    using assms(1,6) set_update_subset_insert [of h ?p c] by (auto simp: counts_def)
  moreover have "0 < length h" using assms(3) by auto
  ultimately show ?thesis by (simp add: counts_def)
qed

lemma bodies_update: "p < length h \<Longrightarrow> cell_body c = cell_body (h ! p) \<Longrightarrow> bodies h (h[p := c])"
  by (auto simp: bodies_def nth_list_update)

lemma bodies_trans:
  assumes "bodies h h1" and "bodies h1 h2"
  shows "bodies h h2"
  unfolding bodies_def
proof (intro conjI allI impI)
  show "length h2 = length h" using assms by (simp add: bodies_def)
  fix p assume p: "p < length h"
  have 1: "h1 ! p = None \<or> cell_body (h1 ! p) = cell_body (h ! p)" using assms(1) p by (simp add: bodies_def)
  have 2: "h2 ! p = None \<or> cell_body (h2 ! p) = cell_body (h1 ! p)" using assms p by (simp add: bodies_def)
  show "h2 ! p = None \<or> cell_body (h2 ! p) = cell_body (h ! p)"
  proof (cases "h2 ! p = None")
    case False
    then have "cell_body (h2 ! p) = cell_body (h1 ! p)" "h1 ! p \<noteq> None" using 2 cell_body_None by metis+
    then show ?thesis using 1 by metis
  qed simp
qed

lemma rc_mono_update:
  assumes "p < length h" and "\<And>y. handle_addr y = p \<Longrightarrow> cell_rc (h ! p) y \<le> cell_rc c y"
  shows "rc h y \<le> rc (h[p := c]) y"
  using assms(2) [of y] by (simp add: rc_update [OF assms(1)]) (simp add: rc_cell)

lemma counts_addref1:
  assumes "counts E D hs h" and "handle_addr x \<noteq> 0" and "0 < rc h x"
  shows "\<exists>h'. addref h (x # xs) = addref h' xs \<and> counts E D (x # hs) h' \<and> bodies h h' \<and> (\<forall>y. rc h y \<le> rc h' y)"
proof (cases x)
  case (Obj p)
  then obtain d where d: "data_at h p = Some d" using assms(3) rc_pos_Obj by blast
  then have p: "p < length h" "h ! p = Some (Data d)" by (simp_all add: data_at_Some)
  let ?c = "Some (Data (d\<lparr>od_ref := od_ref d + 1\<rparr>))"
  have valid: "cell_valid (h ! p)" using assms(1) p(1) by (simp add: counts_def)
  have "counts E D (x # hs) (h[p := ?c])"
    using counts_increment [OF assms(1,2), of ?c] p valid Obj by simp
  moreover have "bodies h (h[p := ?c])" by (rule bodies_update) (use p in simp_all)
  moreover have "rc h y \<le> rc (h[p := ?c]) y" for y
  proof (rule rc_mono_update [OF p(1)])
    fix z show "cell_rc (h ! p) z \<le> cell_rc ?c z" using p(2) by (cases z) simp_all
  qed
  moreover have "p \<noteq> 0" using assms(2) Obj by simp
  ultimately show ?thesis using Obj d by (auto simp: obs_data_addref_def)
next
  case (Arr p)
  then obtain a where a: "array_at h p = Some a" using assms(3) rc_pos_Arr by blast
  then have p: "p < length h" "h ! p = Some (Array a)" by (simp_all add: array_at_Some)
  let ?c = "Some (Array (a\<lparr>oa_ref := oa_ref a + 1\<rparr>))"
  have valid: "cell_valid (h ! p)" using assms(1) p(1) by (simp add: counts_def)
  have "counts E D (x # hs) (h[p := ?c])"
    using counts_increment [OF assms(1,2), of ?c] p valid Arr by simp
  moreover have "bodies h (h[p := ?c])" by (rule bodies_update) (use p in simp_all)
  moreover have "rc h y \<le> rc (h[p := ?c]) y" for y
  proof (rule rc_mono_update [OF p(1)])
    fix z show "cell_rc (h ! p) z \<le> cell_rc ?c z" using p(2) by (cases z) simp_all
  qed
  moreover have "p \<noteq> 0" using assms(2) Arr by simp
  ultimately show ?thesis using Arr a by (auto simp: obs_data_array_addref_def)
qed

lemma addref_null: "handle_addr x = 0 \<Longrightarrow> addref h (x # xs) = addref h xs"
  by (cases x) (simp_all add: obs_data_addref_def obs_data_array_addref_def)

lemma counts_add_null: "counts E D hs h \<Longrightarrow> handle_addr x = 0 \<Longrightarrow> counts E D (x # hs) h"
  by (auto simp: counts_def)

lemma counts_addref:
  assumes "counts E D hs h" and "\<forall>x\<in>set xs. handle_addr x = 0 \<or> 0 < rc h x"
  shows "\<exists>h'. addref h xs = Some h' \<and> counts E D (xs @ hs) h' \<and> bodies h h' \<and> (\<forall>y. rc h y \<le> rc h' y)"
  using assms
proof (induction xs arbitrary: h hs)
  case Nil
  then show ?case by simp
next
  case (Cons x xs)
  obtain h1 where h1: "addref h (x # xs) = addref h1 xs" "counts E D (x # hs) h1" "bodies h h1" "\<forall>y. rc h y \<le> rc h1 y"
  proof (cases "handle_addr x = 0")
    case True
    then show ?thesis using that [of h] addref_null Cons.prems(1) counts_add_null by simp
  next
    case False
    then show ?thesis using counts_addref1 [OF Cons.prems(1) False, of xs] Cons.prems(2) that by auto
  qed
  have "\<forall>y\<in>set xs. handle_addr y = 0 \<or> 0 < rc h1 y"
    using Cons.prems(2) h1(4) by (metis less_le_trans list.set_intros(2))
  from Cons.IH [OF h1(2) this] obtain h2 where
    h2: "addref h1 xs = Some h2" "counts E D (xs @ x # hs) h2" "bodies h1 h2" "\<forall>y. rc h1 y \<le> rc h2 y" by blast
  have "counts E D ((x # xs) @ hs) h2" using h2(2) by (simp add: counts_def ac_simps)
  then show ?case using h1 h2 bodies_trans by (metis le_trans)
qed

text \<open>A new body for a cell moves references into the heap or out of it.\<close>

lemma counts_body:
  assumes "counts E D hs h" and "p \<noteq> 0" and "p < length h" and "cell_valid c"
    and rcs: "\<And>x. cell_rc c x = cell_rc (h ! p) x"
    and io: "mset (cell_handles c) + out = mset (cell_handles (h ! p)) + inn"
    and bal: "mset hs + D' + out = inn + mset hs' + D"
  shows "counts E D' hs' (h[p := c])"
proof -
  have "rc (h[p := c]) y + count D' y = count (handles_in (h[p := c])) y + count E y + count (mset hs') y"
    if y: "handle_addr y \<noteq> 0" for y
  proof -
    have "rc (h[p := c]) y = rc h y" using assms(3) rcs by (simp add: rc_update) (simp add: rc_cell)
    moreover have "rc h y + count D y = count (handles_in h) y + count E y + count (mset hs) y"
      using assms(1) y by (simp add: counts_def)
    moreover have "count (handles_in (h[p := c])) y + count (mset (cell_handles (h ! p))) y =
        count (handles_in h) y + count (mset (cell_handles c)) y"
      by (rule handles_in_update_count [OF assms(3)])
    moreover have "count (mset (cell_handles c)) y + count out y = count (mset (cell_handles (h ! p))) y + count inn y"
      using arg_cong [OF io, of "\<lambda>m. count m y"] by simp
    moreover have "count (mset hs) y + count D' y + count out y = count inn y + count (mset hs') y + count D y"
      using arg_cong [OF bal, of "\<lambda>m. count m y"] by simp
    ultimately show ?thesis by linarith
  qed
  moreover have "h[p := c] ! 0 = None" using assms(1,2) by (simp add: counts_def)
  moreover have "\<forall>c\<in>set (h[p := c]). cell_valid c"
    using assms(1,4) set_update_subset_insert [of h p c] by (auto simp: counts_def)
  moreover have "0 < length h" using assms(3) by auto
  ultimately show ?thesis by (simp add: counts_def)
qed

subsection \<open>Setting a value\<close>

definition refs_ok :: "handle multiset \<Rightarrow> dheap \<Rightarrow> bool" where
  "refs_ok E h \<longleftrightarrow> counts E {#} [] h"

lemma refs_ok_live: "refs_ok E h \<Longrightarrow> x \<in># E \<Longrightarrow> handle_addr x \<noteq> 0 \<Longrightarrow> 0 < rc h x"
  using counts_live [of E "{#}" "[]" h 0 x] by (auto simp: refs_ok_def pinned_def simp flip: count_greater_zero_iff)

text \<open>The old value is given up, and then its place.\<close>

lemma release_slot:
  assumes ok: "refs_ok E h" and p: "p \<noteq> 0" "data_at h p = Some d" and held: "Obj p \<in># E"
    and item: "get_item d name = Some item"
  shows "\<exists>h1 d1. release_all h (slot_handles (item_type item) (layer_slot l (item_abs item))) = Some h1 \<and>
    counts E (mset (slot_handles (item_type item) (layer_slot l (item_abs item)))) [] h1 \<and>
    data_at h1 p = Some d1 \<and> od_items d1 = od_items d \<and> bodies h h1"
proof -
  let ?hs = "slot_handles (item_type item) (layer_slot l (item_abs item))"
  have cell: "p < length h" "h ! p = Some (Data d)" using p(2) by (simp_all add: data_at_Some)
  have "mset ?hs \<subseteq># mset (spec_handles (item_abs item))"
    unfolding spec_handles_layers by (cases l) (simp_all add: subset_mset.add_increasing subset_mset.add_increasing2)
  also have "mset (spec_handles (item_abs item)) \<subseteq># mset (items_handles (od_items d))"
    using remove_item_handles [of "od_items d" name item] item
    by (metis get_item_def mset_subset_eq_add_right)
  finally have "mset ?hs \<subseteq># mset (cell_handles (h ! p))" using cell by simp
  then have pin: "pinned E (mset ?hs) p h" using cell held by (simp add: pinned_def)
  have "counts E (mset ?hs) ?hs h" using ok by (simp add: refs_ok_def counts_def)
  from release_all_ok [OF this pin] obtain h1 where
    h1: "release_all h ?hs = Some h1" "counts E (mset ?hs) [] h1" "pinned E (mset ?hs) p h1" "bodies h h1" by blast
  have "0 < rc h1 (Obj p)"
    using counts_live [OF h1(2,3), of "Obj p"] p(1) held by (simp flip: count_greater_zero_iff)
  then obtain d1 where d1: "data_at h1 p = Some d1" using rc_pos_Obj by blast
  have "cell_body (h1 ! p) = cell_body (h ! p)"
    using h1(4) d1 cell(1) by (auto simp: bodies_def data_at_Some)
  then have "od_items d1 = od_items d"
    using d1 cell(2) by (auto simp: data_at_Some) (metis obs_data.select_convs(2) obs_data.surjective obs_data.update_convs(1))
  then show ?thesis using h1 d1 by blast
qed

definition setting_handles :: "setting \<Rightarrow> handle list" where
  "setting_handles v = (case v of S_obj q \<Rightarrow> [Obj q] | S_array q \<Rightarrow> [Arr q] | _ \<Rightarrow> [])"

lemma setting_slot:
  "slot_handles (setting_type v) (Some (setting_cells v)) = setting_handles v"
  "slot_typed (setting_type v) (Some (setting_cells v))"
  by (cases v; auto simp: slot_handles_def setting_type_def setting_cells_def setting_handles_def holds_ptrs_def
      handle_of_def) (auto simp: slot_typed_def)

lemma setting_cells_ne [simp]: "setting_cells v \<noteq> []"
  by (cases v) (simp_all add: setting_cells_def word_cells_def)


lemma value_handle:
  assumes "item_valid item"
  shows "handle_at item (get_item_data item) = Some (slot_handles (item_type item) (sp_value (item_abs item)))"
proof -
  have ok: "item_ok item" and ptr: "spec_typed (item_abs item)" using assms by (simp_all add: item_valid_def)
  note at = get_item_data_value [OF ok]
  show ?thesis
  proof (cases "sp_value (item_abs item)")
    case None
    then show ?thesis using at by (simp add: handle_at_def)
  next
    case (Some v)
    have slot: "slot_typed (item_type item) (Some v)"
      using ptr Some by (auto simp: spec_typed_def sp_value_def split: option.splits)
    have pos: "get_item_data item = Some (name_len item)" and rd: "mem_read (item_block item) (name_len item) (length v) = Some v"
      using at Some by simp_all
    show ?thesis
    proof (cases "holds_ptrs (item_type item)")
      case True
      then obtain q where q: "v = ptr_cells q" using slot_typed_ptr slot by blast
      then have "mem_read (item_block item) (name_len item) 8 = Some (ptr_cells q)" using rd by simp
      then show ?thesis using True Some q pos by (auto simp: handle_at_def slot_handles_def handle_of_def holds_ptrs_def)
    next
      case False
      then show ?thesis using Some pos by (auto simp: handle_at_def slot_handles_def holds_ptrs_def)
    qed
  qed
qed

lemma item_sizes_abs:
  "(sp_user (item_abs item) = None) = (data_size item = 0)"
  "(sp_default (item_abs item) = None) = (default_size item = 0)"
  "(sp_auto (item_abs item) = None) = (autoselect_size item = 0)"
  by (simp_all add: item_abs_def slot_def)

end
