(* ===== verification/Obs_Client.thy ===== *)
theory Obs_Client
  imports Obs_Refs
begin

text \<open>
  What each operation on a settings object or array does for a client that holds references of its own: it
  keeps the reference counts right, and it changes the values of one object as the specification says, and
  those of no other.
\<close>

lemma layer_addref_handles:
  assumes "item_valid item" and "layer_slot l (item_abs item) = Some v"
    and "l = Default \<Longrightarrow> holds_ptrs (item_type item) \<Longrightarrow> data_size item \<noteq> 0"
  shows "layer_addref l h item = addref h (slot_handles (item_type item) (Some v))"
proof (cases l)
  case User
  then have "sp_value (item_abs item) = Some v" using assms(2) by (simp add: layer_slot_def sp_value_def)
  then show ?thesis using User value_handle [OF assms(1)] by (simp add: layer_addref_def item_data_addref_def)
next
  case Default
  then have slot: "sp_default (item_abs item) = Some v" using assms(2) by (simp add: layer_slot_def)
  have at: "handle_at item (get_item_default_data item) = Some (slot_handles (item_type item) (Some v))"
    using layer_release_spec(2) [OF assms(1)] slot by (simp add: item_default_data_release_def)
  show ?thesis
  proof (cases "data_size item = 0")
    case True
    then have "slot_handles (item_type item) (Some v) = []" using assms(3) Default True by (auto simp: slot_handles_def)
    then show ?thesis using Default True by (simp add: layer_addref_def item_default_data_addref_def)
  next
    case False
    then show ?thesis using Default at by (simp add: layer_addref_def item_default_data_addref_def)
  qed
next
  case Autoselect
  then have "sp_auto (item_abs item) = Some v" using assms(2) by (simp add: layer_slot_def)
  then show ?thesis
    using Autoselect layer_release_spec(3) [OF assms(1)]
    by (simp add: layer_addref_def item_autoselect_data_addref_def item_autoselect_data_release_def)
qed

text \<open>
  When a value may be set: the type of an item does not change under its other values, and a default object or
  array is not set on an item that has no user value.
\<close>

definition set_allowed :: "layer \<Rightarrow> obs_data \<Rightarrow> name \<Rightarrow> setting \<Rightarrow> bool" where
  "set_allowed l d name v \<longleftrightarrow>
     (case get_item d name of None \<Rightarrow> True
      | Some item \<Rightarrow> l = Default \<and> item_type item \<noteq> setting_type v \<or>
          type_fits l (setting_type v) (item_abs item) \<and>
          (l = Default \<longrightarrow> holds_ptrs (setting_type v) \<longrightarrow> data_size item \<noteq> 0))"

lemma same_items:
  assumes "data_at h p = Some d" and "bodies h h1" and "0 < rc h1 (Obj p)"
  obtains d1 where "data_at h1 p = Some d1" and "od_items d1 = od_items d"
proof -
  obtain d1 where d1: "data_at h1 p = Some d1" using rc_pos_Obj [OF assms(3)] by blast
  have cells: "p < length h" "h ! p = Some (Data d)" "h1 ! p = Some (Data d1)"
    using assms(1) d1 by (simp_all add: data_at_Some)
  have "cell_body (h1 ! p) = cell_body (h ! p)" using assms(2) cells by (auto simp: bodies_def)
  then have "d1\<lparr>od_ref := 0\<rparr> = d\<lparr>od_ref := 0\<rparr>" using cells by simp
  then have "od_items d1 = od_items d" by (cases d; cases d1) simp
  then show thesis using that d1 by blast
qed

lemma counts_items:
  assumes "counts E D hs h" and "p \<noteq> 0" and "data_at h p = Some d" and "items_valid items"
    and "mset (items_handles items) + out = mset (items_handles (od_items d)) + inn"
    and "mset hs + D' + out = inn + mset hs' + D"
  shows "counts E D' hs' (h[p := Some (Data (d\<lparr>od_items := items\<rparr>))])"
proof -
  let ?c = "Some (Data (d\<lparr>od_items := items\<rparr>))"
  have cell: "p < length h" "h ! p = Some (Data d)" using assms(3) by (simp_all add: data_at_Some)
  have "cell_valid (h ! p)" using assms(1) cell(1) by (simp add: counts_def)
  then have valid: "cell_valid ?c" using cell assms(4) by simp
  have rcs: "cell_rc ?c x = cell_rc (h ! p) x" for x using cell by (cases x) simp_all
  show ?thesis
    by (rule counts_body [OF assms(1,2) cell(1) valid rcs _ assms(6)]) (use assms(5) cell in simp)
qed

lemma cell_items_valid: "counts E D hs h \<Longrightarrow> data_at h p = Some d \<Longrightarrow> items_valid (od_items d)"
  by (auto simp: counts_def data_at_Some dest!: nth_mem bspec)

lemma refs_live:
  assumes "refs_ok E h" and "\<forall>x\<in>set xs. handle_addr x = 0 \<or> x \<in># E"
  shows "\<forall>x\<in>set xs. handle_addr x = 0 \<or> 0 < rc h x"
proof
  fix x assume x: "x \<in> set xs"
  show "handle_addr x = 0 \<or> 0 < rc h x"
  proof (cases "handle_addr x = 0")
    case False
    then have "x \<in># E" using assms(2) x by auto
    from refs_ok_live [OF assms(1) this False] show ?thesis ..
  qed simp
qed

subsection \<open>The values of an object\<close>

text \<open>
  What an object means: a map from names to the three values a name can have, with their type.
\<close>

type_synonym value_map = "name \<Rightarrow> item_spec option"

definition values_of :: "dheap \<Rightarrow> nat \<Rightarrow> value_map" where
  "values_of h p = (case data_at h p of None \<Rightarrow> Map.empty | Some d \<Rightarrow> map_option item_abs \<circ> map_of (od_items d))"

text \<open>What is left of the heap has the values it had, but for \<open>p\<close>, which has the values \<open>m\<close>.\<close>

definition keeps :: "dheap \<Rightarrow> dheap \<Rightarrow> nat \<Rightarrow> value_map \<Rightarrow> bool" where
  "keeps h h' p m \<longleftrightarrow> length h' = length h \<and>
     (\<forall>q. data_at h' q \<noteq> None \<longrightarrow> data_at h q \<noteq> None \<and> values_of h' q = (if q = p then m else values_of h q))"

lemma keeps_trans: "keeps h h1 p m1 \<Longrightarrow> keeps h1 h2 p m2 \<Longrightarrow> keeps h h2 p m2"
  unfolding keeps_def by metis

lemma keeps_refl [simp]: "keeps h h p (values_of h p)"
  by (simp add: keeps_def)

lemma keeps_bodies:
  assumes "bodies h h'"
  shows "keeps h h' p (values_of h p)"
  unfolding keeps_def
proof (intro conjI allI impI)
  show "length h' = length h" using assms by (simp add: bodies_def)
next
  fix q assume "data_at h' q \<noteq> None"
  then obtain d' where d': "q < length h'" "h' ! q = Some (Data d')" by (auto simp: data_at_Some)
  then have "cell_body (h ! q) = Some (Data (d'\<lparr>od_ref := 0\<rparr>))" "q < length h" using assms by (auto simp: bodies_def)
  then obtain d where d: "h ! q = Some (Data d)" "d\<lparr>od_ref := 0\<rparr> = d'\<lparr>od_ref := 0\<rparr>"
    by (cases "h ! q" rule: cell_body.cases) auto
  then have "od_items d = od_items d'" by (cases d; cases d') simp
  then show "data_at h q \<noteq> None" "values_of h' q = (if q = p then values_of h p else values_of h q)"
    using d d' \<open>q < length h\<close> by (auto simp: values_of_def data_at_def)
qed

lemma values_of_put [simp]:
  "data_at h p = Some d \<Longrightarrow>
     values_of (h[p := Some (Data (d\<lparr>od_items := items\<rparr>))]) p = map_option item_abs \<circ> map_of items"
  by (auto simp: values_of_def data_at_def split: if_splits)

lemma keeps_put:
  "data_at h p = Some d \<Longrightarrow>
     keeps h (h[p := Some (Data (d\<lparr>od_items := items\<rparr>))]) p (map_option item_abs \<circ> map_of items)"
  by (auto simp: keeps_def values_of_def data_at_def nth_list_update split: if_splits)

text \<open>No object that is left has changed its values.\<close>

definition same_values :: "dheap \<Rightarrow> dheap \<Rightarrow> bool" where
  "same_values h h' \<longleftrightarrow> length h' = length h \<and>
     (\<forall>p. data_at h' p \<noteq> None \<longrightarrow> data_at h p \<noteq> None \<and> values_of h' p = values_of h p)"

lemma same_values_bodies: "bodies h h' \<Longrightarrow> same_values h h'"
  unfolding same_values_def using keeps_bodies keeps_def by meson

lemma same_values_trans: "same_values h h1 \<Longrightarrow> same_values h1 h2 \<Longrightarrow> same_values h h2"
  unfolding same_values_def by metis

lemma same_values_refl [simp]: "same_values h h" by (simp add: same_values_def)

lemma same_values_array: "array_at h p = Some a \<Longrightarrow> same_values h (h[p := Some (Array a')])"
  by (auto simp: same_values_def values_of_def data_at_def array_at_def nth_list_update split: if_splits)

lemma map_of_replace: "map_of (replace_item name item' items) n =
    (if n = name \<and> map_of items name \<noteq> None then Some item' else map_of items n)"
  by (induction items rule: replace_item.induct) auto

lemma map_of_remove:
  "distinct (map fst items) \<Longrightarrow> map_of (remove_item name items) n = (if n = name then None else map_of items n)"
  by (induction items rule: remove_item.induct) (auto simp del: map_of_eq_None_iff simp: map_of_eq_None_iff [THEN iffD2])

lemma map_of_moved:
  assumes "items_valid items" and "map_of items name = Some old"
  shows "map_option item_abs \<circ> map_of (moved_items moved name item items) =
           (map_option item_abs \<circ> map_of items)(name \<mapsto> item_abs item)"
proof
  fix n
  have "distinct (map fst items)" using assms(1) by (simp add: items_valid_def)
  then show "(map_option item_abs \<circ> map_of (moved_items moved name item items)) n =
      ((map_option item_abs \<circ> map_of items)(name \<mapsto> item_abs item)) n"
    using assms(2) by (auto simp: moved_items_def map_of_replace map_of_remove map_add_def split: option.splits)
qed

lemma values_of_Some: "data_at h p = Some d \<Longrightarrow> values_of h p = map_option item_abs \<circ> map_of (od_items d)"
  by (simp add: values_of_def)

definition no_values :: item_spec where
  "no_values = \<lparr>sp_type = OBS_DATA_NULL, sp_user = None, sp_default = None, sp_auto = None\<rparr>"

definition spec_set :: "layer \<Rightarrow> name \<Rightarrow> setting \<Rightarrow> value_map \<Rightarrow> value_map" where
  "spec_set l name v m =
     (case m name of
        None \<Rightarrow> m(name \<mapsto> (set_layer l (Some (setting_cells v)) no_values)\<lparr>sp_type := setting_type v\<rparr>)
      | Some s \<Rightarrow>
          if l = Default \<and> sp_type s \<noteq> setting_type v then m
          else m(name \<mapsto> (set_layer l (Some (setting_cells v)) s)\<lparr>sp_type := setting_type v\<rparr>))"

definition spec_unset :: "layer \<Rightarrow> name \<Rightarrow> value_map \<Rightarrow> value_map" where
  "spec_unset l name m = m(name := map_option (set_layer l None) (m name))"

definition spec_erase :: "name \<Rightarrow> value_map \<Rightarrow> value_map" where
  "spec_erase name m = m(name := None)"

definition spec_clear :: "value_map \<Rightarrow> value_map" where
  "spec_clear m = map_option (set_layer User None) \<circ> m"

subsection \<open>Setting a value\<close>

lemma created_item:
  obtains item where
    "obs_data_item_create name (setting_cells v) (setting_type v) (l = Default) (l = Autoselect) = Some item"
    and "item_valid item" and "handle_at item (get_item_data item) = Some (setting_handles v)"
    and "spec_handles (item_abs item) = setting_handles v"
    and "item_abs item = (set_layer l (Some (setting_cells v)) no_values)\<lparr>sp_type := setting_type v\<rparr>"
proof -
  obtain item where item: "obs_data_item_create name (setting_cells v) (setting_type v) (l = Default) (l = Autoselect) = Some item"
    "item_ok item" "item_ref item = 1"
    and abs: "item_abs item = \<lparr>sp_type = setting_type v,
      sp_user = (if l = Default \<or> l = Autoselect then None else Some (setting_cells v)),
      sp_default = (if l = Default then Some (setting_cells v) else None),
      sp_auto = (if \<not> l = Default \<and> l = Autoselect then Some (setting_cells v) else None)\<rparr>"
    using item_create_refines [OF setting_cells_ne] by blast
  have valid: "item_valid item"
    using item by (auto simp: item_valid_def spec_typed_def abs setting_slot)
  have type: "item_type item = setting_type v" using abs by (simp flip: item_abs_type)
  have val: "sp_value (item_abs item) = Some (setting_cells v)" by (cases l) (simp_all add: abs sp_value_def)
  have handles: "handle_at item (get_item_data item) = Some (setting_handles v)"
    using value_handle [OF valid] by (simp add: val type setting_slot)
  have all: "spec_handles (item_abs item) = setting_handles v"
    by (cases l) (simp_all add: spec_handles_def abs setting_slot)
  have "item_abs item = (set_layer l (Some (setting_cells v)) no_values)\<lparr>sp_type := setting_type v\<rparr>"
    by (cases l) (simp_all add: abs set_layer_def no_values_def)
  then show thesis using that item(1) valid handles all by blast
qed

lemma set_new_item_ok:
  assumes ok: "refs_ok E h" and p: "p \<noteq> 0" "data_at h p = Some d" and held: "Obj p \<in># E"
    and refs: "\<forall>x\<in>set (setting_handles v). handle_addr x = 0 \<or> x \<in># E" and new: "get_item d name = None"
  shows "\<exists>h'. set_item_data l h p None name (setting_cells v) (setting_type v) = Some h' \<and> refs_ok E h' \<and> keeps h h' p (spec_set l name v (values_of h p))"
proof -
  obtain item where item: "obs_data_item_create name (setting_cells v) (setting_type v) (l = Default) (l = Autoselect) = Some item"
    and valid: "item_valid item" and at: "handle_at item (get_item_data item) = Some (setting_handles v)"
    and all: "spec_handles (item_abs item) = setting_handles v"
    and abs: "item_abs item = (set_layer l (Some (setting_cells v)) no_values)\<lparr>sp_type := setting_type v\<rparr>"
    by (rule created_item [of name v l]) (rule that)
  have live: "\<forall>x\<in>set (setting_handles v). handle_addr x = 0 \<or> 0 < rc h x"
    by (rule refs_live [OF ok refs])
  obtain h1 where h1: "addref h (setting_handles v) = Some h1" "counts E {#} (setting_handles v @ []) h1"
      "bodies h h1" "\<forall>y. rc h y \<le> rc h1 y"
    using counts_addref [OF ok [unfolded refs_ok_def] live] by auto
  have "0 < rc h (Obj p)" using refs_ok_live [OF ok held] p(1) by simp
  then have "0 < rc h1 (Obj p)" using h1(4) by (metis less_le_trans)
  then obtain d1 where d1: "data_at h1 p = Some d1" "od_items d1 = od_items d"
    by (rule same_items [OF p(2) h1(3)])
  have "name \<notin> set (map fst (od_items d1))"
    using new d1(2) by (simp add: get_item_def map_of_eq_None_iff)
  then have "items_valid (od_items d1 @ [(name, item)])"
    by (rule items_valid_snoc [OF cell_items_valid [OF h1(2) d1(1)] valid])
  then have cnt: "counts E {#} [] (h1[p := Some (Data (d1\<lparr>od_items := od_items d1 @ [(name, item)]\<rparr>))])"
    by (rule counts_items [OF h1(2) p(1) d1(1), where out = "{#}" and inn = "mset (setting_handles v)"]) (simp_all add: all)
  have "map_option item_abs \<circ> map_of (od_items d1 @ [(name, item)]) = spec_set l name v (values_of h p)"
  proof
    fix n
    show "(map_option item_abs \<circ> map_of (od_items d1 @ [(name, item)])) n = spec_set l name v (values_of h p) n"
      using new d1(2) by (auto simp: values_of_Some [OF p(2)] spec_set_def get_item_def abs map_add_def split: option.splits)
  qed
  then have "keeps h (h1[p := Some (Data (d1\<lparr>od_items := od_items d1 @ [(name, item)]\<rparr>))]) p (spec_set l name v (values_of h p))"
    using keeps_trans [OF keeps_bodies [OF h1(3)] keeps_put [OF d1(1)]] by metis
  then show ?thesis using item d1(1) at h1(1) cnt by (simp add: set_item_data_def item_data_addref_def refs_ok_def)
qed

lemma stored_sub:
  assumes "map_of items name = Some old" and "layer_slot l (item_abs item) = Some v"
  shows "mset (slot_handles (item_type item) (Some v)) \<subseteq># mset (items_handles (moved_items moved name item items))"
proof -
  have "mset (slot_handles (item_type item) (Some v)) \<subseteq># mset (spec_handles (item_abs item))"
    unfolding spec_handles_layers
    by (cases l) (use assms(2) in \<open>simp_all add: subset_mset.add_increasing subset_mset.add_increasing2\<close>)
  moreover have "mset (items_handles (moved_items moved name item items)) =
      mset (items_handles (remove_item name items)) + mset (spec_handles (item_abs item))"
    using moved_items_handles [OF assms(1), of moved item] remove_item_handles [OF assms(1)]
    by (metis add.assoc add.commute add_right_cancel)
  ultimately show ?thesis by (simp add: subset_mset.add_increasing)
qed

lemma set_old_item_ok:
  assumes ok: "refs_ok E h" and p: "p \<noteq> 0" "data_at h p = Some d" and held: "Obj p \<in># E"
    and refs: "\<forall>x\<in>set (setting_handles v). handle_addr x = 0 \<or> x \<in># E" and item: "get_item d name = Some item"
    and fits: "type_fits l (setting_type v) (item_abs item)"
    and dflt: "l = Default \<Longrightarrow> holds_ptrs (setting_type v) \<Longrightarrow> data_size item \<noteq> 0"
    and same: "\<not> (l = Default \<and> item_type item \<noteq> setting_type v)"
  shows "\<exists>h'. set_item_data l h p (Some item) name (setting_cells v) (setting_type v) = Some h' \<and> refs_ok E h' \<and> keeps h h' p (spec_set l name v (values_of h p))"
proof -
  have valid: "item_valid item"
    using item cell_items_valid [OF ok [unfolded refs_ok_def] p(2)] by (simp add: get_item_def items_valid_get)
  let ?old = "slot_handles (item_type item) (layer_slot l (item_abs item))"
  let ?new = "setting_handles v"
  obtain h1 d1 where h1: "release_all h ?old = Some h1" "counts E (mset ?old) [] h1" "data_at h1 p = Some d1"
      "od_items d1 = od_items d" "bodies h h1"
    using release_slot [OF ok p held item] by blast
  obtain item' moved where store: "layer_store l item (setting_cells v) (setting_type v) = Some (item', moved)"
    and ref: "refines item item' (\<lambda>s. (set_layer l (Some (setting_cells v)) s)\<lparr>sp_type := setting_type v\<rparr>)"
    using layer_store_refines [of item "setting_cells v" l "setting_type v"] valid by (auto simp: item_valid_def)
  note stored = stored_valid [OF valid ref fits setting_slot(2)]
  have abs: "item_abs item' = (set_layer l (Some (setting_cells v)) (item_abs item))\<lparr>sp_type := setting_type v\<rparr>"
    using ref by (simp add: refines_def)
  have type': "item_type item' = setting_type v" using abs by (simp flip: item_abs_type)
  let ?items = "moved_items moved name item' (od_items d1)"
  let ?h2 = "h1[p := Some (Data (d1\<lparr>od_items := ?items\<rparr>))]"
  have put: "put_item h1 p name item' moved = Some ?h2" by (simp add: put_item_eq h1(3))
  have map: "map_of (od_items d1) name = Some item" using item h1(4) by (simp add: get_item_def)
  have iv: "items_valid ?items" by (rule moved_items_valid [OF cell_items_valid [OF h1(2,3)] stored(1)])
  have h2: "counts E (mset ?new) [] ?h2"
    by (rule counts_items [OF h1(2) p(1) h1(3) iv moved_items_handles [OF map]])
       (use stored(2) in \<open>simp add: setting_slot add.commute\<close>)
  have slot': "layer_slot l (item_abs item') = Some (setting_cells v)" by (simp add: abs)
  have "mset ?new \<subseteq># mset (items_handles ?items)"
    using stored_sub [OF map slot', of moved] by (simp add: type' setting_slot)
  then have pin: "pinned E (mset ?new) p ?h2" using held h1(3) by (simp add: pinned_def data_at_Some)
  have live: "\<forall>x\<in>set ?new. handle_addr x = 0 \<or> 0 < rc ?h2 x"
  proof
    fix x assume x: "x \<in> set ?new"
    show "handle_addr x = 0 \<or> 0 < rc ?h2 x"
    proof (cases "handle_addr x = 0")
      case False
      then have "0 < count E x" using refs x by auto
      then show ?thesis using counts_live [OF h2 pin False] by linarith
    qed simp
  qed
  obtain h3 where h3: "addref ?h2 ?new = Some h3" "counts E (mset ?new) (?new @ []) h3" "bodies ?h2 h3"
    using counts_addref [OF h2 live] by blast
  have "layer_addref l ?h2 item' = addref ?h2 (slot_handles (item_type item') (Some (setting_cells v)))"
  proof (rule layer_addref_handles [OF stored(1) slot'])
    assume l: "l = Default" "holds_ptrs (item_type item')"
    then have "sp_user (item_abs item') = sp_user (item_abs item)" by (simp add: abs set_layer_def)
    then show "data_size item' \<noteq> 0" using dflt l type' by (metis item_sizes_abs(1))
  qed
  then have "layer_addref l ?h2 item' = Some h3" using h3(1) by (simp add: type' setting_slot)
  moreover have "keeps h h3 p (spec_set l name v (values_of h p))"
  proof -
    have "values_of ?h2 p = spec_set l name v (values_of h p)"
      using values_of_put [OF h1(3), of ?items] map_of_moved [OF cell_items_valid [OF h1(2,3)] map, of moved item'] item same
      by (auto simp: values_of_Some [OF p(2)] h1(4) abs spec_set_def get_item_def)
    moreover have "keeps h ?h2 p (values_of ?h2 p)"
      using keeps_trans [OF keeps_bodies [OF h1(5)] keeps_put [OF h1(3), of ?items]] values_of_put [OF h1(3), of ?items] by simp
    ultimately show ?thesis using keeps_trans [OF _ keeps_bodies [OF h3(3), of p]] by metis
  qed
  moreover have "refs_ok E h3" using h3(2) by (simp add: refs_ok_def counts_def)
  ultimately show ?thesis
    using layer_release_slot [OF valid, of l] h1(1) store put by (simp add: set_item_data_def)
qed

text \<open>Setting a value keeps every reference count right.\<close>

lemma obs_data_set_ok:
  assumes ok: "refs_ok E h" and p: "p \<noteq> 0" "data_at h p = Some d" and held: "Obj p \<in># E"
    and refs: "\<forall>x\<in>set (setting_handles v). handle_addr x = 0 \<or> x \<in># E" and allowed: "set_allowed l d name v"
  shows "\<exists>h'. obs_data_set l h p name v = Some h' \<and> refs_ok E h' \<and> keeps h h' p (spec_set l name v (values_of h p))"
proof (cases "get_item d name")
  case None
  then show ?thesis
    using set_new_item_ok [OF ok p held refs None, of l] p by (simp add: obs_data_set_def set_item_def)
next
  case (Some item)
  show ?thesis
  proof (cases "l = Default \<and> item_type item \<noteq> setting_type v")
    case True
    then have "spec_set l name v (values_of h p) = values_of h p"
      using Some by (simp add: values_of_Some [OF p(2)] spec_set_def get_item_def)
    then show ?thesis using Some p ok True by (simp add: obs_data_set_def set_item_def)
  next
    case False
    then have "type_fits l (setting_type v) (item_abs item)"
      "l = Default \<Longrightarrow> holds_ptrs (setting_type v) \<Longrightarrow> data_size item \<noteq> 0"
      using allowed Some by (auto simp: set_allowed_def)
    from set_old_item_ok [OF ok p held refs Some this False]
    show ?thesis using False Some p by (auto simp add: obs_data_set_def set_item_def)
  qed
qed


subsection \<open>The other operations\<close>

lemma refs_ok_items:
  assumes "refs_ok E h" and "data_at h p = Some d" and "get_item d name = Some item"
  shows "item_valid item"
  using assms cell_items_valid [of E "{#}" "[]" h p d] by (simp add: refs_ok_def get_item_def items_valid_get)

lemma pinned_empty [simp]: "pinned E {#} q h" by (simp add: pinned_def)

lemma release_all_refs_ok:
  assumes "counts E {#} hs h"
  obtains h' where "release_all h hs = Some h'" and "refs_ok E h'" and "bodies h h'"
  using release_all_ok [OF assms pinned_empty] by (auto simp: refs_ok_def)

lemma obs_data_erase_ok:
  assumes ok: "refs_ok E h" and p: "p \<noteq> 0" "data_at h p = Some d"
  shows "\<exists>h'. obs_data_erase h p name = Some h' \<and> refs_ok E h' \<and> keeps h h' p (spec_erase name (values_of h p))"
proof (cases "get_item d name")
  case None
  then have "spec_erase name (values_of h p) = values_of h p"
    by (auto simp: values_of_Some [OF p(2)] spec_erase_def get_item_def)
  with None show ?thesis using p ok by (simp add: obs_data_erase_def)
next
  case (Some item)
  let ?h1 = "h[p := Some (Data (d\<lparr>od_items := remove_item name (od_items d)\<rparr>))]"
  have map: "map_of (od_items d) name = Some item" using Some by (simp add: get_item_def)
  have "items_valid (remove_item name (od_items d))"
    by (rule items_valid_remove [OF cell_items_valid [OF ok [unfolded refs_ok_def] p(2)]])
  then have cnt: "counts E {#} (spec_handles (item_abs item)) ?h1"
    by (rule counts_items [OF ok [unfolded refs_ok_def] p, where out = "mset (spec_handles (item_abs item))" and inn = "{#}"])
       (simp_all add: remove_item_handles [OF map])
  obtain h' where h': "release_all ?h1 (spec_handles (item_abs item)) = Some h'" "refs_ok E h'" "bodies ?h1 h'"
    by (rule release_all_refs_ok [OF cnt]) (rule that)
  have "distinct (map fst (od_items d))"
    using cell_items_valid [OF ok [unfolded refs_ok_def] p(2)] by (simp add: items_valid_def)
  then have "map_option item_abs \<circ> map_of (remove_item name (od_items d)) = spec_erase name (values_of h p)"
    by (auto simp: values_of_Some [OF p(2)] spec_erase_def map_of_remove)
  then have "keeps h h' p (spec_erase name (values_of h p))"
    using keeps_trans [OF keeps_put [OF p(2), of "remove_item name (od_items d)"] keeps_bodies [OF h'(3), of p]]
      values_of_put [OF p(2), of "remove_item name (od_items d)"] by simp
  then show ?thesis
    using p Some item_destroy_spec [OF refs_ok_items [OF ok p(2) Some]] h'(1,2) by (simp add: obs_data_erase_def)
qed

lemma cleared_valid:
  assumes "item_valid item" and "refines item item' (set_layer l None)"
  shows "item_valid item'"
    and "mset (spec_handles (item_abs item')) + mset (slot_handles (item_type item) (layer_slot l (item_abs item))) =
           mset (spec_handles (item_abs item))"
proof -
  have abs: "item_abs item' = set_layer l None (item_abs item)"
    and ok: "item_ok item'" "item_ref item' = 1"
    using assms by (simp_all add: refines_def item_valid_def)
  have "slot_typed (item_type item) (layer_slot l' (item_abs item'))" for l'
    using assms(1) by (simp add: abs item_valid_def spec_typed_layers)
  then show "item_valid item'" using ok by (simp add: item_valid_def spec_typed_layers abs)
  show "mset (spec_handles (item_abs item')) + mset (slot_handles (item_type item) (layer_slot l (item_abs item))) =
      mset (spec_handles (item_abs item))"
    unfolding spec_handles_layers abs by (cases l) simp_all
qed

lemma layer_unset_refines:
  assumes "item_ok item"
  obtains item' where "layer_unset l item = Some item'" and "refines item item' (set_layer l None)"
proof -
  have "\<exists>item'. layer_unset l item = Some item' \<and> refines item item' (set_layer l None)"
    using unset_user_value_refines [OF assms] unset_default_value_refines [OF assms]
      unset_autoselect_value_refines [OF assms]
    by (cases l) (auto simp: layer_unset_def set_layer_def refines_def)
  then show thesis using that by blast
qed

text \<open>Giving up one value of an item: the release, and an item that no longer has the value.\<close>

lemma drop_value_ok:
  assumes ok: "refs_ok E h" and p: "p \<noteq> 0" "data_at h p = Some d" and held: "Obj p \<in># E"
    and item: "get_item d name = Some item" and ref: "refines item item' (set_layer l None)"
  shows "\<exists>h1 h2 d1. release_all h (slot_handles (item_type item) (layer_slot l (item_abs item))) = Some h1 \<and>
    put_item h1 p name item' False = Some h2 \<and> refs_ok E h2 \<and>
    data_at h2 p = Some d1 \<and> od_items d1 = replace_item name item' (od_items d) \<and>
    keeps h h2 p (spec_unset l name (values_of h p))"
proof -
  let ?old = "slot_handles (item_type item) (layer_slot l (item_abs item))"
  obtain h1 d1 where h1: "release_all h ?old = Some h1" "counts E (mset ?old) [] h1" "data_at h1 p = Some d1"
      "od_items d1 = od_items d" "bodies h h1"
    using release_slot [OF ok p held item] by blast
  note cleared = cleared_valid [OF refs_ok_items [OF ok p(2) item] ref]
  let ?items = "moved_items False name item' (od_items d1)"
  let ?d2 = "d1\<lparr>od_items := ?items\<rparr>"
  let ?h2 = "h1[p := Some (Data ?d2)]"
  have map: "map_of (od_items d1) name = Some item" using item h1(4) by (simp add: get_item_def)
  have iv: "items_valid ?items" by (rule moved_items_valid [OF cell_items_valid [OF h1(2,3)] cleared(1)])
  have "counts E {#} [] ?h2"
    by (rule counts_items [OF h1(2) p(1) h1(3) iv moved_items_handles [OF map]])
       (use cleared(2) in \<open>simp add: add.commute\<close>)
  moreover have "put_item h1 p name item' False = Some ?h2" by (simp add: put_item_eq h1(3))
  moreover have "data_at ?h2 p = Some ?d2" using h1(3) by (simp add: data_at_Some)
  moreover have "map_option item_abs \<circ> map_of ?items = spec_unset l name (values_of h p)"
    using map_of_moved [OF cell_items_valid [OF h1(2,3)] map, of False item'] item ref
    by (auto simp: values_of_Some [OF p(2)] h1(4) spec_unset_def get_item_def refines_def)
  then have "keeps h ?h2 p (spec_unset l name (values_of h p))"
    using keeps_trans [OF keeps_bodies [OF h1(5)] keeps_put [OF h1(3), of ?items]] by simp
  ultimately show ?thesis using h1(1,4) by (auto simp: refs_ok_def moved_items_def)
qed

lemma obs_data_unset_ok:
  assumes ok: "refs_ok E h" and p: "p \<noteq> 0" "data_at h p = Some d" and held: "Obj p \<in># E"
  shows "\<exists>h'. obs_data_unset l h p name = Some h' \<and> refs_ok E h' \<and> keeps h h' p (spec_unset l name (values_of h p))"
proof (cases "get_item d name")
  case None
  then have "spec_unset l name (values_of h p) = values_of h p"
    by (auto simp: values_of_Some [OF p(2)] spec_unset_def get_item_def)
  with None show ?thesis using p ok by (simp add: obs_data_unset_def)
next
  case (Some item)
  note valid = refs_ok_items [OF ok p(2) Some]
  obtain item' where item': "layer_unset l item = Some item'" "refines item item' (set_layer l None)"
    using layer_unset_refines valid by (auto simp: item_valid_def)
  from drop_value_ok [OF ok p held Some item'(2)] show ?thesis
    using p Some layer_release_slot [OF valid, of l] item'(1) by (auto simp: obs_data_unset_def)
qed

lemma clear_items_ok:
  assumes "refs_ok E h" and "p \<noteq> 0" and "data_at h p = Some d" and "Obj p \<in># E"
    and "distinct (map fst items)" and "\<forall>(n, item)\<in>set items. map_of (od_items d) n = Some item"
  shows "\<exists>h'. clear_items h p items = Some h' \<and> refs_ok E h' \<and>
    keeps h h' p (fold (\<lambda>(n, item). spec_unset User n) items (values_of h p))"
  using assms
proof (induction items arbitrary: h d)
  case Nil
  then show ?case by simp
next
  case (Cons entry items)
  obtain name item where entry: "entry = (name, item)" by (cases entry)
  have item: "get_item d name = Some item" using Cons.prems(6) by (simp add: get_item_def entry)
  note valid = refs_ok_items [OF Cons.prems(1,3) item]
  obtain item' where item': "clear_item item = Some item'" "refines item item' (set_layer User None)"
    using clear_item_refines [of item] valid by (force simp: item_valid_def set_layer_def refines_def)
  have old: "(if data_len item = 0 then Some [] else item_data_release item) =
      Some (slot_handles (item_type item) (layer_slot User (item_abs item)))"
    using layer_release_spec(1) [OF valid] valid
    by (auto simp: item_data_release_def layer_slot_def item_valid_def item_ok_def item_abs_def slot_def)
  obtain h1 h2 d2 where step: "release_all h (slot_handles (item_type item) (layer_slot User (item_abs item))) = Some h1"
      "put_item h1 p name item' False = Some h2" "refs_ok E h2" "data_at h2 p = Some d2"
      "od_items d2 = replace_item name item' (od_items d)" "keeps h h2 p (spec_unset User name (values_of h p))"
    using drop_value_ok [OF Cons.prems(1-4) item item'(2)] by blast
  have "\<forall>(n, item)\<in>set items. map_of (od_items d2) n = Some item"
    using Cons.prems(5,6) by (force simp: step(5) map_of_replace entry)
  from Cons.IH [OF step(3) Cons.prems(2) step(4) Cons.prems(4) _ this] Cons.prems(5)
  obtain h' where h': "clear_items h2 p items = Some h'" "refs_ok E h'"
      "keeps h2 h' p (fold (\<lambda>(n, item). spec_unset User n) items (values_of h2 p))" by auto
  have "values_of h2 p = spec_unset User name (values_of h p)" using step(4,6) by (auto simp: keeps_def)
  then have "keeps h h' p (fold (\<lambda>(n, item). spec_unset User n) (entry # items) (values_of h p))"
    using keeps_trans [OF step(6) h'(3)] by (simp add: entry)
  then show ?case using old step(1,2) item'(1) h'(1,2) by (simp add: entry)
qed

lemma fold_unset:
  "fold (\<lambda>(n, item). spec_unset l n) items m =
     (\<lambda>n. if n \<in> fst ` set items then map_option (set_layer l None) (m n) else m n)"
proof (induction items arbitrary: m)
  case (Cons entry items)
  have "set_layer l None (set_layer l None s) = set_layer l None s" for s by (cases l) (simp_all add: set_layer_def)
  then have "map_option (set_layer l None) (map_option (set_layer l None) x) = map_option (set_layer l None) x" for x
    by (cases x) simp_all
  then show ?case using Cons by (cases entry) (auto simp: spec_unset_def)
qed simp

lemma obs_data_clear_ok:
  assumes ok: "refs_ok E h" and p: "p \<noteq> 0" "data_at h p = Some d" and held: "Obj p \<in># E"
  shows "\<exists>h'. obs_data_clear h p = Some h' \<and> refs_ok E h' \<and> keeps h h' p (spec_clear (values_of h p))"
proof -
  have "distinct (map fst (od_items d))"
    using cell_items_valid [OF ok [unfolded refs_ok_def] p(2)] by (simp add: items_valid_def)
  then have "\<exists>h'. clear_items h p (od_items d) = Some h' \<and> refs_ok E h' \<and>
      keeps h h' p (fold (\<lambda>(n, item). spec_unset User n) (od_items d) (values_of h p))"
    by (intro clear_items_ok [OF ok p held]) auto
  moreover have "fold (\<lambda>(n, item). spec_unset User n) (od_items d) (values_of h p) = spec_clear (values_of h p)"
    by (rule ext) (simp add: fold_unset spec_clear_def values_of_Some [OF p(2)] map_of_eq_None_iff [THEN iffD2])
  ultimately show ?thesis using p by (simp add: obs_data_clear_def)
qed


subsection \<open>References of the client\<close>

lemma refs_ok_null: "refs_ok E h \<Longrightarrow> handle_addr x = 0 \<Longrightarrow> refs_ok (add_mset x E) h"
  by (auto simp: refs_ok_def counts_def)

lemma counts_to_client: "counts E {#} [x] h \<Longrightarrow> refs_ok (add_mset x E) h"
  by (simp add: refs_ok_def counts_def)

lemma client_to_counts: "refs_ok E h \<Longrightarrow> x \<in># E \<Longrightarrow> counts (E - {#x#}) {#} [x] h"
  by (auto simp: refs_ok_def counts_def)

lemma heap_live: "refs_ok E h \<Longrightarrow> x \<in># handles_in h \<Longrightarrow> handle_addr x \<noteq> 0 \<Longrightarrow> 0 < rc h x"
proof -
  assume a: "refs_ok E h" "x \<in># handles_in h" "handle_addr x \<noteq> 0"
  then have "rc h x = count (handles_in h) x + count E x" by (simp add: refs_ok_def counts_def)
  moreover have "0 < count (handles_in h) x" using a(2) by simp
  ultimately show "0 < rc h x" by linarith
qed

lemma addref_client_ok:
  assumes "refs_ok E h" and "handle_addr x = 0 \<or> 0 < rc h x"
  shows "\<exists>h'. addref h [x] = Some h' \<and> counts E {#} [x] h' \<and> bodies h h' \<and> (\<forall>y. rc h y \<le> rc h' y)"
  using counts_addref [OF assms(1) [unfolded refs_ok_def], of "[x]"] assms(2) by simp

lemma addref_Obj: "addref h [Obj q] = obs_data_addref h q"
  by (cases "obs_data_addref h q") simp_all

lemma addref_Arr: "addref h [Arr q] = obs_data_array_addref h q"
  by (cases "obs_data_array_addref h q") simp_all

lemma release_client_ok:
  assumes "refs_ok E h" and "x \<in># E"
  shows "\<exists>h'. release_all h [x] = Some h' \<and> refs_ok (E - {#x#}) h' \<and> same_values h h'"
  using release_all_refs_ok [OF client_to_counts [OF assms]] same_values_bodies by metis

lemma handles_in_snoc: "handles_in (h @ [c]) = handles_in h + mset (cell_handles c)"
  by (simp add: handles_in_def)

lemma rc_snoc: "rc (h @ [c]) x = (if handle_addr x = length h then cell_rc c x else rc h x)"
  by (auto simp: rc_cell nth_append)

text \<open>A new cell, with the reference that is returned to the client.\<close>

lemma refs_ok_new_cell:
  assumes ok: "refs_ok E h" and x: "handle_addr x = length h" and one: "cell_rc c x = 1"
    and none: "cell_handles c = []" and valid: "cell_valid c"
  shows "refs_ok (add_mset x E) (h @ [c])"
proof -
  have len: "0 < length h" using ok by (simp add: refs_ok_def counts_def)
  have other: "cell_rc c y = 0" if "handle_addr y = length h" "y \<noteq> x" for y
  proof (rule cell_rc_cases [of c x])
    show "0 < cell_rc c x" using one by simp
  qed (use that x in \<open>cases y; simp\<close>)+
  have "rc (h @ [c]) y = count (handles_in (h @ [c])) y + count (add_mset x E) y" if y: "handle_addr y \<noteq> 0" for y
  proof -
    have eq: "rc h y = count (handles_in h) y + count E y" using ok y by (simp add: refs_ok_def counts_def)
    have free: "rc h y = 0" if "handle_addr y = length h" using that by (simp add: rc_cell)
    show ?thesis
    proof (cases "handle_addr y = length h")
      case True
      then have "count (handles_in h) y = 0" "count E y = 0" using free eq by simp_all
      then show ?thesis using True one other [OF True] by (auto simp: rc_snoc handles_in_snoc none)
    next
      case False
      then show ?thesis using eq x by (auto simp add: rc_snoc handles_in_snoc none)
    qed
  qed
  then show ?thesis using ok len valid by (auto simp: refs_ok_def counts_def nth_append)
qed

lemma obs_data_create_ok:
  "refs_ok E h \<Longrightarrow> obs_data_create h = (p, h') \<Longrightarrow> refs_ok (add_mset (Obj p) E) h'"
  using refs_ok_new_cell [of E h "Obj (length h)" "Some (Data \<lparr>od_ref = 1, od_items = []\<rparr>)"]
  by (auto simp: obs_data_create_def items_valid_def)

lemma obs_data_array_create_ok:
  "refs_ok E h \<Longrightarrow> obs_data_array_create h = (p, h') \<Longrightarrow> refs_ok (add_mset (Arr p) E) h'"
  using refs_ok_new_cell [of E h "Arr (length h)" "Some (Array \<lparr>oa_ref = 1, oa_objects = []\<rparr>)"]
  by (auto simp: obs_data_array_create_def)

subsection \<open>Objects and arrays read from an object\<close>

definition layer_value :: "layer \<Rightarrow> item_spec \<Rightarrow> cells option" where
  "layer_value l s = (case l of User \<Rightarrow> sp_value s | Default \<Rightarrow> sp_default s | Autoselect \<Rightarrow> sp_auto s)"

lemma layer_data_handle:
  "item_valid item \<Longrightarrow> handle_at item (layer_data l item) = Some (slot_handles (item_type item) (layer_value l (item_abs item)))"
  using layer_release_spec(2,3) [of item] value_handle [of item]
  by (cases l) (simp_all add: layer_data_def layer_value_def item_default_data_release_def item_autoselect_data_release_def)

lemma layer_value_sub: "mset (slot_handles (sp_type s) (layer_value l s)) \<subseteq># mset (spec_handles s)"
  by (cases l) (auto simp: spec_handles_def layer_value_def sp_value_def subset_mset.add_increasing
      subset_mset.add_increasing2 split: option.split)

lemma handle_at_ptr:
  assumes "handle_at item (Some pos) = Some hs" and "holds_ptrs (item_type item)"
  obtains cs q where "mem_read (item_block item) pos 8 = Some cs" and "cells_ptr cs = Some q"
    and "hs = [handle_of (item_type item) q]"
  using assms by (auto simp: handle_at_def holds_ptrs_def handle_of_def bind_eq_Some_conv)

text \<open>What a getter of pointers finds: nothing, or a pointer the heap holds a reference for.\<close>

lemma typed_data_handle:
  assumes ok: "refs_ok E h" and p: "data_at h p = Some d" and type: "holds_ptrs type"
    and some: "typed_data l (get_item d name) type = Some (b, pos)"
  shows "\<exists>cs q. mem_read b pos 8 = Some cs \<and> cells_ptr cs = Some q \<and> handle_of type q \<in># handles_in h"
proof -
  obtain item where item: "get_item d name = Some item" "item_type item = type" "b = item_block item"
      "layer_data l item = Some pos"
    using some by (auto simp: typed_data_def split: option.splits if_splits)
  note valid = refs_ok_items [OF ok p item(1)]
  let ?hs = "slot_handles type (layer_value l (item_abs item))"
  have "handle_at item (Some pos) = Some ?hs" using layer_data_handle [OF valid, of l] item by simp
  from handle_at_ptr [OF this] obtain cs q where
    q: "mem_read b pos 8 = Some cs" "cells_ptr cs = Some q" "?hs = [handle_of type q]"
    using type item(2,3) by auto
  have "handle_of type q \<in># mset (spec_handles (item_abs item))"
    using mset_subset_eqD [OF layer_value_sub [of "item_abs item" l], of "handle_of type q"] q(3) item(2) by simp
  moreover have "mset (spec_handles (item_abs item)) \<subseteq># mset (items_handles (od_items d))"
    using remove_item_handles [of "od_items d" name item] item(1)
    by (metis get_item_def mset_subset_eq_add_right)
  moreover have "mset (items_handles (od_items d)) \<subseteq># handles_in h"
    using cell_handles_subset [of p h] p by (simp add: data_at_Some)
  ultimately show ?thesis using q(1,2) by (meson mset_subset_eqD)
qed

lemma data_item_get_obj_ok:
  assumes ok: "refs_ok E h" and p: "data_at h p = Some d"
  shows "\<exists>q h'. data_item_get_obj l h (get_item d name) = Some (q, h') \<and> refs_ok (add_mset (Obj q) E) h' \<and> same_values h h'"
proof (cases "typed_data l (get_item d name) OBS_DATA_OBJECT")
  case None
  then show ?thesis using ok refs_ok_null [OF ok, of "Obj 0"] by (simp add: data_item_get_obj_def)
next
  case (Some bp)
  obtain b pos where bp: "bp = (b, pos)" by (cases bp)
  have "holds_ptrs OBS_DATA_OBJECT" by (simp add: holds_ptrs_def)
  from typed_data_handle [OF ok p this Some [unfolded bp]] obtain cs q where
    q: "mem_read b pos 8 = Some cs" "cells_ptr cs = Some q" "Obj q \<in># handles_in h"
    by (auto simp: handle_of_def)
  have "handle_addr (Obj q) = 0 \<or> 0 < rc h (Obj q)" using heap_live [OF ok q(3)] by linarith
  from addref_client_ok [OF ok this] show ?thesis
    using q Some bp counts_to_client same_values_bodies
    by (auto simp: data_item_get_obj_def addref_Obj simp del: addref.simps)
qed

lemma data_item_get_array_ok:
  assumes ok: "refs_ok E h" and p: "data_at h p = Some d"
  shows "\<exists>q h'. data_item_get_array l h (get_item d name) = Some (q, h') \<and> refs_ok (add_mset (Arr q) E) h' \<and> same_values h h'"
proof (cases "typed_data l (get_item d name) OBS_DATA_ARRAY")
  case None
  then show ?thesis using ok refs_ok_null [OF ok, of "Arr 0"] by (simp add: data_item_get_array_def)
next
  case (Some bp)
  obtain b pos where bp: "bp = (b, pos)" by (cases bp)
  have "holds_ptrs OBS_DATA_ARRAY" by (simp add: holds_ptrs_def)
  from typed_data_handle [OF ok p this Some [unfolded bp]] obtain cs q where
    q: "mem_read b pos 8 = Some cs" "cells_ptr cs = Some q" "Arr q \<in># handles_in h"
    by (auto simp: handle_of_def)
  have "handle_addr (Arr q) = 0 \<or> 0 < rc h (Arr q)" using heap_live [OF ok q(3)] by linarith
  from addref_client_ok [OF ok this] show ?thesis
    using q Some bp counts_to_client same_values_bodies
    by (auto simp: data_item_get_array_def addref_Arr simp del: addref.simps)
qed

subsection \<open>Arrays\<close>

lemma same_objects:
  assumes "array_at h p = Some a" and "bodies h h1" and "0 < rc h1 (Arr p)"
  obtains a1 where "array_at h1 p = Some a1" and "oa_objects a1 = oa_objects a"
proof -
  obtain a1 where a1: "array_at h1 p = Some a1" using rc_pos_Arr [OF assms(3)] by blast
  have cells: "p < length h" "h ! p = Some (Array a)" "h1 ! p = Some (Array a1)"
    using assms(1) a1 by (simp_all add: array_at_Some)
  have "cell_body (h1 ! p) = cell_body (h ! p)" using assms(2) cells by (auto simp: bodies_def)
  then have "a1\<lparr>oa_ref := 0\<rparr> = a\<lparr>oa_ref := 0\<rparr>" using cells by simp
  then have "oa_objects a1 = oa_objects a" by (cases a; cases a1) simp
  then show thesis using that a1 by blast
qed

lemma counts_objects:
  assumes "counts E D hs h" and "p \<noteq> 0" and "array_at h p = Some a"
    and "mset (map Obj qs) + out = mset (map Obj (oa_objects a)) + inn"
    and "mset hs + D' + out = inn + mset hs' + D"
  shows "counts E D' hs' (h[p := Some (Array (a\<lparr>oa_objects := qs\<rparr>))])"
proof -
  let ?c = "Some (Array (a\<lparr>oa_objects := qs\<rparr>))"
  have cell: "p < length h" "h ! p = Some (Array a)" using assms(3) by (simp_all add: array_at_Some)
  have "cell_valid (h ! p)" using assms(1) cell(1) by (simp add: counts_def)
  then have valid: "cell_valid ?c" using cell by simp
  have rcs: "cell_rc ?c x = cell_rc (h ! p) x" for x using cell by (cases x) simp_all
  show ?thesis
    by (rule counts_body [OF assms(1,2) cell(1) valid rcs _ assms(5)]) (use assms(4) cell in simp)
qed

text \<open>New references are taken, and then the array gets their pointers.\<close>

lemma array_grow_ok:
  assumes ok: "refs_ok E h" and a: "a \<noteq> 0" "array_at h a = Some ar" and held: "Arr a \<in># E"
    and live: "\<forall>q\<in>set qs. q = 0 \<or> 0 < rc h (Obj q)" and grow: "mset (f (oa_objects ar)) = mset (oa_objects ar) + mset qs"
  shows "\<exists>h1 ar1 h2. addref h (map Obj qs) = Some h1 \<and> array_at h1 a = Some ar1 \<and> oa_objects ar1 = oa_objects ar \<and>
    put_array h1 a f = Some h2 \<and> refs_ok E h2 \<and> same_values h h2"
proof -
  have "\<forall>x\<in>set (map Obj qs). handle_addr x = 0 \<or> 0 < rc h x" using live by auto
  then obtain h1 where h1: "addref h (map Obj qs) = Some h1" "counts E {#} (map Obj qs @ []) h1"
      "bodies h h1" "\<forall>y. rc h y \<le> rc h1 y"
    using counts_addref [OF ok [unfolded refs_ok_def], of "map Obj qs"] by auto
  have "0 < rc h (Arr a)" using refs_ok_live [OF ok held] a(1) by simp
  then have "0 < rc h1 (Arr a)" using h1(4) by (metis less_le_trans)
  then obtain ar1 where ar1: "array_at h1 a = Some ar1" "oa_objects ar1 = oa_objects ar"
    by (rule same_objects [OF a(2) h1(3)])
  have "counts E {#} [] (h1[a := Some (Array (ar1\<lparr>oa_objects := f (oa_objects ar1)\<rparr>))])"
    by (rule counts_objects [OF h1(2) a(1) ar1(1), where out = "{#}" and inn = "mset (map Obj qs)"])
       (use grow in \<open>simp_all add: ar1(2)\<close>)
  moreover have "same_values h (h1[a := Some (Array (ar1\<lparr>oa_objects := f (oa_objects ar1)\<rparr>))])"
    by (rule same_values_trans [OF same_values_bodies [OF h1(3)] same_values_array [OF ar1(1)]])
  ultimately show ?thesis using h1(1) ar1 by (simp add: put_array_def refs_ok_def)
qed

lemma obs_data_array_push_back_ok:
  assumes ok: "refs_ok E h" and a: "a \<noteq> 0" "array_at h a = Some ar" and held: "Arr a \<in># E" and q: "q \<noteq> 0" "Obj q \<in># E"
  shows "\<exists>h'. obs_data_array_push_back h a q = Some (length (oa_objects ar), h') \<and> refs_ok E h' \<and> same_values h h'"
proof -
  have "\<forall>r\<in>set [q]. r = 0 \<or> 0 < rc h (Obj r)" using refs_ok_live [OF ok q(2)] q(1) by simp
  from array_grow_ok [OF ok a held this, of "\<lambda>qs. qs @ [q]"] obtain h1 ar1 h2 where
    "obs_data_addref h q = Some h1" "array_at h1 a = Some ar1" "oa_objects ar1 = oa_objects ar"
    "put_array h1 a (\<lambda>qs. qs @ [q]) = Some h2" "refs_ok E h2" "same_values h h2"
    by (auto simp: addref_Obj simp del: addref.simps)
  then show ?thesis using a q by (simp add: obs_data_array_push_back_def)
qed

lemma obs_data_array_insert_ok:
  assumes ok: "refs_ok E h" and a: "a \<noteq> 0" "array_at h a = Some ar" and held: "Arr a \<in># E" and q: "q \<noteq> 0" "Obj q \<in># E"
    and idx: "idx \<le> length (oa_objects ar)"
  shows "\<exists>h'. obs_data_array_insert h a idx q = Some h' \<and> refs_ok E h' \<and> same_values h h'"
proof -
  have live: "\<forall>r\<in>set [q]. r = 0 \<or> 0 < rc h (Obj r)" using refs_ok_live [OF ok q(2)] q(1) by simp
  have "mset (take idx (oa_objects ar) @ q # drop idx (oa_objects ar)) = mset (oa_objects ar) + mset [q]"
    by (metis add_mset_add_single append_take_drop_id mset.simps mset_append union_mset_add_mset_right)
  from array_grow_ok [OF ok a held live, of "\<lambda>qs. take idx qs @ q # drop idx qs"] this obtain h1 ar1 h2 where
    "obs_data_addref h q = Some h1" "array_at h1 a = Some ar1" "oa_objects ar1 = oa_objects ar"
    "put_array h1 a (\<lambda>qs. take idx qs @ q # drop idx qs) = Some h2" "refs_ok E h2" "same_values h h2"
    by (auto simp: addref_Obj simp del: addref.simps)
  then show ?thesis using a q idx by (simp add: obs_data_array_insert_def)
qed

lemma array_objects_live:
  assumes ok: "refs_ok E h" and b: "array_at h b = Some br" and q: "q \<in> set (oa_objects br)"
  shows "q = 0 \<or> 0 < rc h (Obj q)"
proof -
  have "Obj q \<in># mset (map Obj (oa_objects br))" using q by simp
  moreover have "mset (map Obj (oa_objects br)) \<subseteq># handles_in h"
    using cell_handles_subset [of b h] b by (simp add: array_at_Some)
  ultimately have "Obj q \<in># handles_in h" by (meson mset_subset_eqD)
  then show ?thesis using heap_live [OF ok] by force
qed

lemma obs_data_array_push_back_array_ok:
  assumes ok: "refs_ok E h" and a: "a \<noteq> 0" "array_at h a = Some ar" and held: "Arr a \<in># E"
    and b: "b \<noteq> 0" "array_at h b = Some br"
  shows "\<exists>h'. obs_data_array_push_back_array h a b = Some h' \<and> refs_ok E h' \<and> same_values h h'"
proof -
  have live: "\<forall>r\<in>set (oa_objects br). r = 0 \<or> 0 < rc h (Obj r)" by (intro ballI array_objects_live [OF ok b(2)])
  have grow: "mset (oa_objects ar @ oa_objects br) = mset (oa_objects ar) + mset (oa_objects br)" by simp
  obtain h1 h2 where "addref h (map Obj (oa_objects br)) = Some h1"
    "put_array h1 a (\<lambda>qs. qs @ oa_objects br) = Some h2" "refs_ok E h2" "same_values h h2"
    using array_grow_ok [OF ok a held live, of "\<lambda>qs. qs @ oa_objects br"] grow by metis
  then show ?thesis using a b by (simp add: obs_data_array_push_back_array_def)
qed

lemma obs_data_array_erase_ok:
  assumes ok: "refs_ok E h" and a: "a \<noteq> 0" "array_at h a = Some ar" and held: "Arr a \<in># E"
    and idx: "idx < length (oa_objects ar)"
  shows "\<exists>h'. obs_data_array_erase h a idx = Some h' \<and> refs_ok E h' \<and> same_values h h'"
proof -
  let ?q = "oa_objects ar ! idx"
  let ?f = "\<lambda>qs. take idx qs @ drop (idx + 1) qs"
  have cell: "a < length h" "h ! a = Some (Array ar)" using a(2) by (simp_all add: array_at_Some)
  have pin: "pinned E {#Obj ?q#} a h" using cell held idx by (simp add: pinned_def)
  have "counts E {#Obj ?q#} [Obj ?q] h" using ok by (simp add: refs_ok_def counts_def)
  from release_all_ok [OF this pin] obtain h1 where
    h1: "release_all h [Obj ?q] = Some h1" "counts E {#Obj ?q#} [] h1" "pinned E {#Obj ?q#} a h1" "bodies h h1" by blast
  have "0 < count E (Arr a)" using held by simp
  moreover have "count E (Arr a) + count (mset []) (Arr a) \<le> rc h1 (Arr a)"
    by (rule counts_live [OF h1(2,3)]) (simp add: a(1))
  ultimately have "0 < rc h1 (Arr a)" by linarith
  then obtain ar1 where ar1: "array_at h1 a = Some ar1" "oa_objects ar1 = oa_objects ar"
    by (rule same_objects [OF a(2) h1(4)])
  have "mset (?f (oa_objects ar)) + {#?q#} = mset (oa_objects ar)"
    by (subst (4) id_take_nth_drop [OF idx]) simp
  then have "image_mset Obj (mset (?f (oa_objects ar)) + {#?q#}) = image_mset Obj (mset (oa_objects ar))" by (rule arg_cong)
  then have "counts E {#} [] (h1[a := Some (Array (ar1\<lparr>oa_objects := ?f (oa_objects ar1)\<rparr>))])"
    by (intro counts_objects [OF h1(2) a(1) ar1(1), where out = "{#Obj ?q#}" and inn = "{#}"]) (simp_all add: ar1(2))
  moreover have "same_values h (h1[a := Some (Array (ar1\<lparr>oa_objects := ?f (oa_objects ar1)\<rparr>))])"
    by (rule same_values_trans [OF same_values_bodies [OF h1(4)] same_values_array [OF ar1(1)]])
  ultimately show ?thesis using a idx h1(1) ar1 by (simp add: obs_data_array_erase_def put_array_def refs_ok_def)
qed

lemma obs_data_array_item_ok:
  assumes ok: "refs_ok E h" and a: "a \<noteq> 0" "array_at h a = Some ar"
  shows "\<exists>q h'. obs_data_array_item h a idx = Some (q, h') \<and> refs_ok (add_mset (Obj q) E) h' \<and> same_values h h'"
proof -
  let ?q = "if idx < length (oa_objects ar) then oa_objects ar ! idx else 0"
  have "handle_addr (Obj ?q) = 0 \<or> 0 < rc h (Obj ?q)"
    using array_objects_live [OF ok a(2), of ?q] by (cases "idx < length (oa_objects ar)") simp_all
  from addref_client_ok [OF ok this] obtain h' where
    "addref h [Obj ?q] = Some h'" "refs_ok (add_mset (Obj ?q) E) h'" "same_values h h'"
    using counts_to_client same_values_bodies by blast
  then have "obs_data_array_item h a idx = Some (?q, h')" "refs_ok (add_mset (Obj ?q) E) h'" "same_values h h'"
    using a by (simp_all only: addref_Obj obs_data_array_item_def Let_def if_False bind.bind_lunit)
  then show ?thesis by blast
qed

end
