(* ===== verification/Obs_Session.thy ===== *)
theory Obs_Session
  imports Obs_Client
begin

text \<open>
  Programs that use settings objects: sequences of calls by a client that releases what it holds and passes
  only what it holds.
\<close>

subsection \<open>Calls\<close>

datatype data_call =
    Create | Array_Create | Addref handle | Release handle
  | Set_Value layer nat name setting | Unset_Value layer nat name | Erase nat name | Clear nat
  | Get_Obj layer nat name | Get_Array layer nat name
  | Push_Back nat nat | Insert nat nat nat | Push_Back_Array nat nat | Erase_At nat nat | Item_At nat nat

text \<open>The references the client holds, with repetitions, and the heap.\<close>

type_synonym client = "handle list \<times> dheap"

definition release :: "dheap \<Rightarrow> handle \<Rightarrow> dheap option" where
  "release h x = (case x of Obj p \<Rightarrow> obs_data_release h p | Arr p \<Rightarrow> obs_data_array_release h p)"

definition keep_refs :: "handle list \<Rightarrow> dheap option \<Rightarrow> client option" where
  "keep_refs E r = map_option (\<lambda>h. (E, h)) r"

fun client_call :: "data_call \<Rightarrow> client \<Rightarrow> client option" where
  "client_call Create (E, h) = (let (p, h) = obs_data_create h in Some (Obj p # E, h))"
| "client_call Array_Create (E, h) = (let (p, h) = obs_data_array_create h in Some (Arr p # E, h))"
| "client_call (Addref x) (E, h) = keep_refs (x # E) (addref h [x])"
| "client_call (Release x) (E, h) = keep_refs (remove1 x E) (release h x)"
| "client_call (Set_Value l p name v) (E, h) = keep_refs E (obs_data_set l h p name v)"
| "client_call (Unset_Value l p name) (E, h) = keep_refs E (obs_data_unset l h p name)"
| "client_call (Erase p name) (E, h) = keep_refs E (obs_data_erase h p name)"
| "client_call (Clear p) (E, h) = keep_refs E (obs_data_clear h p)"
| "client_call (Get_Obj l p name) (E, h) =
     map_option (\<lambda>(q, h). (Obj q # E, h)) (obs_data_get_obj l h p name)"
| "client_call (Get_Array l p name) (E, h) =
     map_option (\<lambda>(q, h). (Arr q # E, h)) (obs_data_get_array l h p name)"
| "client_call (Push_Back a q) (E, h) = keep_refs E (map_option snd (obs_data_array_push_back h a q))"
| "client_call (Insert a idx q) (E, h) = keep_refs E (obs_data_array_insert h a idx q)"
| "client_call (Push_Back_Array a b) (E, h) = keep_refs E (obs_data_array_push_back_array h a b)"
| "client_call (Erase_At a idx) (E, h) = keep_refs E (obs_data_array_erase h a idx)"
| "client_call (Item_At a idx) (E, h) = map_option (\<lambda>(q, h). (Obj q # E, h)) (obs_data_array_item h a idx)"

text \<open>What a client may do: it holds what it passes, and indexes are in range.\<close>

definition held :: "handle list \<Rightarrow> handle \<Rightarrow> bool" where
  "held E x \<longleftrightarrow> handle_addr x = 0 \<or> x \<in> set E"

definition array_bound :: "dheap \<Rightarrow> nat \<Rightarrow> nat" where
  "array_bound h a = (case array_at h a of None \<Rightarrow> 0 | Some ar \<Rightarrow> length (oa_objects ar))"

fun client_may :: "data_call \<Rightarrow> client \<Rightarrow> bool" where
  "client_may Create (E, h) = True"
| "client_may Array_Create (E, h) = True"
| "client_may (Addref x) (E, h) = held E x"
| "client_may (Release x) (E, h) = held E x"
| "client_may (Set_Value l p name v) (E, h) \<longleftrightarrow>
     held E (Obj p) \<and> list_all (held E) (setting_handles v) \<and>
     (case data_at h p of None \<Rightarrow> True | Some d \<Rightarrow> set_allowed l d name v)"
| "client_may (Unset_Value l p name) (E, h) = held E (Obj p)"
| "client_may (Erase p name) (E, h) = held E (Obj p)"
| "client_may (Clear p) (E, h) = held E (Obj p)"
| "client_may (Get_Obj l p name) (E, h) = held E (Obj p)"
| "client_may (Get_Array l p name) (E, h) = held E (Obj p)"
| "client_may (Push_Back a q) (E, h) \<longleftrightarrow> held E (Arr a) \<and> held E (Obj q)"
| "client_may (Insert a idx q) (E, h) \<longleftrightarrow> held E (Arr a) \<and> held E (Obj q) \<and> idx \<le> array_bound h a"
| "client_may (Push_Back_Array a b) (E, h) \<longleftrightarrow> held E (Arr a) \<and> held E (Arr b)"
| "client_may (Erase_At a idx) (E, h) \<longleftrightarrow> held E (Arr a) \<and> (a = 0 \<or> idx < array_bound h a)"
| "client_may (Item_At a idx) (E, h) = held E (Arr a)"

fun client_run :: "data_call list \<Rightarrow> client \<Rightarrow> client option" where
  "client_run [] s = Some s"
| "client_run (c # cs) s = do { s \<leftarrow> client_call c s; client_run cs s }"

fun client_ok :: "data_call list \<Rightarrow> client \<Rightarrow> bool" where
  "client_ok [] s = True"
| "client_ok (c # cs) s \<longleftrightarrow> client_may c s \<and> (case client_call c s of None \<Rightarrow> True | Some s \<Rightarrow> client_ok cs s)"

definition no_objects :: client where
  "no_objects = ([], [None])"

subsection \<open>The specification\<close>

text \<open>The next address, and what each object means.\<close>

type_synonym spec_state = "nat \<times> (nat \<Rightarrow> value_map)"

definition at_object :: "nat \<Rightarrow> (value_map \<Rightarrow> value_map) \<Rightarrow> spec_state \<Rightarrow> spec_state" where
  "at_object p f s = (fst s, (snd s)(p := f (snd s p)))"

fun spec_call :: "data_call \<Rightarrow> spec_state \<Rightarrow> spec_state" where
  "spec_call Create s = (fst s + 1, (snd s)(fst s := Map.empty))"
| "spec_call Array_Create s = (fst s + 1, snd s)"
| "spec_call (Set_Value l p name v) s = at_object p (spec_set l name v) s"
| "spec_call (Unset_Value l p name) s = at_object p (spec_unset l name) s"
| "spec_call (Erase p name) s = at_object p (spec_erase name) s"
| "spec_call (Clear p) s = at_object p spec_clear s"
| "spec_call _ s = s"

definition spec_run :: "data_call list \<Rightarrow> spec_state \<Rightarrow> spec_state" where
  "spec_run cs s = fold spec_call cs s"

definition meaning_ok :: "spec_state \<Rightarrow> dheap \<Rightarrow> bool" where
  "meaning_ok s h \<longleftrightarrow> fst s = length h \<and> (\<forall>p. data_at h p \<noteq> None \<longrightarrow> values_of h p = snd s p)"

lemma meaning_same: "same_values h h' \<Longrightarrow> meaning_ok s h \<Longrightarrow> meaning_ok s h'"
  by (auto simp: meaning_ok_def same_values_def)

lemma meaning_keeps:
  "keeps h h' p (f (values_of h p)) \<Longrightarrow> meaning_ok s h \<Longrightarrow> data_at h p \<noteq> None \<Longrightarrow> meaning_ok (at_object p f s) h'"
  by (auto simp: meaning_ok_def keeps_def at_object_def)

lemma meaning_null: "data_at h p = None \<Longrightarrow> meaning_ok s h \<Longrightarrow> meaning_ok (at_object p f s) h"
  by (auto simp: meaning_ok_def at_object_def)

subsection \<open>One call\<close>

lemma null_data: "refs_ok E h \<Longrightarrow> data_at h 0 = None"
  by (simp add: refs_ok_def counts_def data_at_def)

lemma held_data:
  assumes "refs_ok (mset E) h" and "held E (Obj p)" and "p \<noteq> 0"
  obtains d where "data_at h p = Some d" and "Obj p \<in># mset E"
proof -
  have m: "Obj p \<in># mset E" using assms(2,3) by (simp add: held_def)
  have "0 < rc h (Obj p)" using refs_ok_live [OF assms(1) m] assms(3) by simp
  then show thesis using rc_pos_Obj that m by blast
qed

lemma held_array:
  assumes "refs_ok (mset E) h" and "held E (Arr p)" and "p \<noteq> 0"
  obtains a where "array_at h p = Some a" and "Arr p \<in># mset E"
proof -
  have m: "Arr p \<in># mset E" using assms(2,3) by (simp add: held_def)
  have "0 < rc h (Arr p)" using refs_ok_live [OF assms(1) m] assms(3) by simp
  then show thesis using rc_pos_Arr that m by blast
qed

definition call_ok :: "data_call \<Rightarrow> client \<Rightarrow> bool" where
  "call_ok c s \<longleftrightarrow> (\<exists>E h. client_call c s = Some (E, h) \<and> refs_ok (mset E) h \<and>
     (\<forall>a. meaning_ok a (snd s) \<longrightarrow> meaning_ok (spec_call c a) h))"

lemma call_ok_object:
  assumes ok: "refs_ok (mset E) h" and held: "held E (Obj p)"
    and call: "client_call c (E, h) = keep_refs E r" and spec: "\<And>a. spec_call c a = at_object p f a"
    and null: "p = 0 \<Longrightarrow> r = Some h"
    and op: "\<And>d. p \<noteq> 0 \<Longrightarrow> data_at h p = Some d \<Longrightarrow> Obj p \<in># mset E \<Longrightarrow>
      \<exists>h'. r = Some h' \<and> refs_ok (mset E) h' \<and> keeps h h' p (f (values_of h p))"
  shows "call_ok c (E, h)"
proof (cases "p = 0")
  case True
  then show ?thesis
    using ok null meaning_null [OF null_data [OF ok]] by (auto simp: call_ok_def call spec keep_refs_def)
next
  case False
  obtain d where d: "data_at h p = Some d" "Obj p \<in># mset E" by (rule held_data [OF ok held False])
  from op [OF False this] show ?thesis
    using meaning_keeps [of h _ p f] d(1) by (auto simp: call_ok_def call spec keep_refs_def)
qed

lemma call_ok_same:
  assumes "\<exists>E' h'. client_call c (E, h) = Some (E', h') \<and> refs_ok (mset E') h' \<and> same_values h h'"
    and "\<And>a. spec_call c a = a"
  shows "call_ok c (E, h)"
  using assms meaning_same by (fastforce simp: call_ok_def)


lemma held_list: "list_all (held E) xs \<Longrightarrow> \<forall>x\<in>set xs. handle_addr x = 0 \<or> x \<in># mset E"
  by (auto simp: list_all_iff held_def)

lemma call_ok_set:
  assumes ok: "refs_ok (mset E) h" and may: "client_may (Set_Value l p name v) (E, h)"
  shows "call_ok (Set_Value l p name v) (E, h)"
proof (rule call_ok_object [OF ok])
  show "held E (Obj p)" using may by simp
  fix d assume "p \<noteq> 0" "data_at h p = Some d" "Obj p \<in># mset E"
  then show "\<exists>h'. obs_data_set l h p name v = Some h' \<and> refs_ok (mset E) h' \<and>
      keeps h h' p (spec_set l name v (values_of h p))"
    using may by (intro obs_data_set_ok [OF ok] held_list) auto
qed (simp_all add: obs_data_set_def set_item_def)

lemma call_ok_unset: "refs_ok (mset E) h \<Longrightarrow> held E (Obj p) \<Longrightarrow> call_ok (Unset_Value l p name) (E, h)"
  by (rule call_ok_object [where r = "obs_data_unset l h p name" and f = "spec_unset l name"])
     (auto simp: obs_data_unset_def [of l h 0] intro: obs_data_unset_ok)

lemma call_ok_erase: "refs_ok (mset E) h \<Longrightarrow> held E (Obj p) \<Longrightarrow> call_ok (Erase p name) (E, h)"
  by (rule call_ok_object [where r = "obs_data_erase h p name" and f = "spec_erase name"])
     (auto simp: obs_data_erase_def [of h 0] intro: obs_data_erase_ok)

lemma call_ok_clear: "refs_ok (mset E) h \<Longrightarrow> held E (Obj p) \<Longrightarrow> call_ok (Clear p) (E, h)"
  by (rule call_ok_object [where r = "obs_data_clear h p" and f = spec_clear])
     (auto simp: obs_data_clear_def [of h 0] intro: obs_data_clear_ok)

lemma data_at_snoc:
  "data_at (h @ [c]) p = (if p = length h then (case c of Some (Data d) \<Rightarrow> Some d | _ \<Rightarrow> None) else data_at h p)"
  by (simp add: data_at_def nth_append)

lemma values_of_snoc:
  "values_of (h @ [c]) p =
     (if p = length h then (case c of Some (Data d) \<Rightarrow> map_option item_abs \<circ> map_of (od_items d) | _ \<Rightarrow> Map.empty)
      else values_of h p)"
  by (auto simp: values_of_def data_at_snoc split: option.split heap_cell.split)

lemma meaning_new: "meaning_ok a h \<Longrightarrow> meaning_ok (spec_call Create a) (h @ [Some (Data \<lparr>od_ref = 1, od_items = []\<rparr>)])"
  by (auto simp: meaning_ok_def values_of_snoc data_at_snoc comp_def)

lemma meaning_new_array: "meaning_ok a h \<Longrightarrow> meaning_ok (spec_call Array_Create a) (h @ [Some (Array ar)])"
  by (auto simp: meaning_ok_def values_of_snoc data_at_snoc)

lemma call_ok_create: "refs_ok (mset E) h \<Longrightarrow> call_ok Create (E, h)"
  using obs_data_create_ok [of "mset E" h] meaning_new
  by (auto simp: call_ok_def obs_data_create_def)

lemma call_ok_array_create: "refs_ok (mset E) h \<Longrightarrow> call_ok Array_Create (E, h)"
  using obs_data_array_create_ok [of "mset E" h] meaning_new_array
  by (auto simp: call_ok_def obs_data_array_create_def)

lemma call_ok_addref:
  assumes ok: "refs_ok (mset E) h" and held: "held E x"
  shows "call_ok (Addref x) (E, h)"
proof (rule call_ok_same)
  have "handle_addr x = 0 \<or> 0 < rc h x"
    using held refs_ok_live [OF ok, of x] unfolding held_def by fastforce
  from addref_client_ok [OF ok this]
  show "\<exists>E' h'. client_call (Addref x) (E, h) = Some (E', h') \<and> refs_ok (mset E') h' \<and> same_values h h'"
    using counts_to_client same_values_bodies by (fastforce simp: keep_refs_def simp del: addref.simps)
qed simp

lemma release_eq: "release h x = release_all h [x]"
  by (cases x) (simp_all add: release_def obs_data_release_def obs_data_array_release_def)

lemma call_ok_release:
  assumes ok: "refs_ok (mset E) h" and held: "held E x"
  shows "call_ok (Release x) (E, h)"
proof (rule call_ok_same)
  show "\<exists>E' h'. client_call (Release x) (E, h) = Some (E', h') \<and> refs_ok (mset E') h' \<and> same_values h h'"
  proof (cases "x \<in> set E")
    case True
    then show ?thesis using release_client_ok [OF ok, of x] by (auto simp: keep_refs_def release_eq simp del: release_all.simps)
  next
    case False
    then have "handle_addr x = 0" using held by (simp add: held_def)
    then have "release_all h [x] = Some h" by (cases x) simp_all
    then show ?thesis using ok False by (simp add: keep_refs_def release_eq remove1_idem del: release_all.simps)
  qed
qed simp

lemma call_ok_get_obj:
  assumes ok: "refs_ok (mset E) h" and held: "held E (Obj p)"
  shows "call_ok (Get_Obj l p name) (E, h)"
proof (rule call_ok_same)
  show "\<exists>E' h'. client_call (Get_Obj l p name) (E, h) = Some (E', h') \<and> refs_ok (mset E') h' \<and> same_values h h'"
  proof (cases "p = 0")
    case True
    then show ?thesis using refs_ok_null [OF ok, of "Obj 0"]
      by (simp add: obs_data_get_obj_def item_at_def data_item_get_obj_def typed_data_def)
  next
    case False
    obtain d where d: "data_at h p = Some d" by (rule held_data [OF ok held False])
    from data_item_get_obj_ok [OF ok d, of l name] show ?thesis
      using False d by (auto simp: obs_data_get_obj_def item_at_def)
  qed
qed simp

lemma call_ok_get_array:
  assumes ok: "refs_ok (mset E) h" and held: "held E (Obj p)"
  shows "call_ok (Get_Array l p name) (E, h)"
proof (rule call_ok_same)
  show "\<exists>E' h'. client_call (Get_Array l p name) (E, h) = Some (E', h') \<and> refs_ok (mset E') h' \<and> same_values h h'"
  proof (cases "p = 0")
    case True
    then show ?thesis using refs_ok_null [OF ok, of "Arr 0"]
      by (simp add: obs_data_get_array_def item_at_def data_item_get_array_def typed_data_def)
  next
    case False
    obtain d where d: "data_at h p = Some d" by (rule held_data [OF ok held False])
    from data_item_get_array_ok [OF ok d, of l name] show ?thesis
      using False d by (auto simp: obs_data_get_array_def item_at_def)
  qed
qed simp

lemma call_ok_array:
  fixes q :: nat
  assumes ok: "refs_ok (mset E) h" and held: "held E (Arr p)"
    and call: "client_call c (E, h) = keep_refs E r" and spec: "\<And>a. spec_call c a = a"
    and null: "p = 0 \<or> q = 0 \<Longrightarrow> r = Some h"
    and op: "\<And>a. p \<noteq> 0 \<Longrightarrow> q \<noteq> 0 \<Longrightarrow> array_at h p = Some a \<Longrightarrow> Arr p \<in># mset E \<Longrightarrow>
      \<exists>h'. r = Some h' \<and> refs_ok (mset E) h' \<and> same_values h h'"
  shows "call_ok c (E, h)"
proof (rule call_ok_same)
  show "\<exists>E' h'. client_call c (E, h) = Some (E', h') \<and> refs_ok (mset E') h' \<and> same_values h h'"
  proof (cases "p = 0 \<or> q = 0")
    case True
    then show ?thesis using ok by (simp add: call null keep_refs_def)
  next
    case False
    then obtain a where "array_at h p = Some a" "Arr p \<in># mset E" using held_array [OF ok held] by blast
    from op [OF _ _ this] False show ?thesis by (auto simp: call keep_refs_def)
  qed
qed (rule spec)

lemma call_ok_push_back:
  assumes ok: "refs_ok (mset E) h" and held: "held E (Arr a)" "held E (Obj q)"
  shows "call_ok (Push_Back a q) (E, h)"
proof (rule call_ok_array [OF ok held(1), where q = q])
  fix ar assume "a \<noteq> 0" "q \<noteq> 0" "array_at h a = Some ar" "Arr a \<in># mset E"
  with obs_data_array_push_back_ok [OF ok this(1,3,4,2)] held(2)
  show "\<exists>h'. map_option snd (obs_data_array_push_back h a q) = Some h' \<and> refs_ok (mset E) h' \<and> same_values h h'"
    by (auto simp: held_def)
qed (auto simp: obs_data_array_push_back_def)

lemma call_ok_insert:
  assumes ok: "refs_ok (mset E) h" and held: "held E (Arr a)" "held E (Obj q)" and idx: "idx \<le> array_bound h a"
  shows "call_ok (Insert a idx q) (E, h)"
proof (rule call_ok_array [OF ok held(1), where q = q])
  fix ar assume a: "a \<noteq> 0" "q \<noteq> 0" "array_at h a = Some ar" "Arr a \<in># mset E"
  have q: "Obj q \<in># mset E" using held(2) a(2) by (simp add: held_def)
  have "idx \<le> length (oa_objects ar)" using idx a(3) by (simp add: array_bound_def)
  then show "\<exists>h'. obs_data_array_insert h a idx q = Some h' \<and> refs_ok (mset E) h' \<and> same_values h h'"
    by (rule obs_data_array_insert_ok [OF ok a(1,3,4,2) q])
qed (auto simp: obs_data_array_insert_def)

lemma call_ok_push_back_array:
  assumes ok: "refs_ok (mset E) h" and held: "held E (Arr a)" "held E (Arr b)"
  shows "call_ok (Push_Back_Array a b) (E, h)"
proof (rule call_ok_array [OF ok held(1), where q = b])
  fix ar assume a: "a \<noteq> 0" "b \<noteq> 0" "array_at h a = Some ar" "Arr a \<in># mset E"
  obtain br where br: "array_at h b = Some br" by (rule held_array [OF ok held(2) a(2)])
  show "\<exists>h'. obs_data_array_push_back_array h a b = Some h' \<and> refs_ok (mset E) h' \<and> same_values h h'"
    by (rule obs_data_array_push_back_array_ok [OF ok a(1,3,4,2) br])
qed (auto simp: obs_data_array_push_back_array_def)

lemma call_ok_erase_at:
  assumes ok: "refs_ok (mset E) h" and held: "held E (Arr a)" and idx: "a = 0 \<or> idx < array_bound h a"
  shows "call_ok (Erase_At a idx) (E, h)"
proof (rule call_ok_array [OF ok held, where q = 1])
  fix ar assume a: "a \<noteq> 0" "array_at h a = Some ar" "Arr a \<in># mset E"
  have "idx < length (oa_objects ar)" using idx a(1,2) by (simp add: array_bound_def)
  then show "\<exists>h'. obs_data_array_erase h a idx = Some h' \<and> refs_ok (mset E) h' \<and> same_values h h'"
    by (rule obs_data_array_erase_ok [OF ok a])
qed (auto simp: obs_data_array_erase_def)

lemma call_ok_item_at:
  assumes ok: "refs_ok (mset E) h" and held: "held E (Arr a)"
  shows "call_ok (Item_At a idx) (E, h)"
proof (rule call_ok_same)
  show "\<exists>E' h'. client_call (Item_At a idx) (E, h) = Some (E', h') \<and> refs_ok (mset E') h' \<and> same_values h h'"
  proof (cases "a = 0")
    case True
    then show ?thesis using refs_ok_null [OF ok, of "Obj 0"] by (simp add: obs_data_array_item_def)
  next
    case False
    obtain ar where "array_at h a = Some ar" by (rule held_array [OF ok held False])
    from obs_data_array_item_ok [OF ok False this, of idx] show ?thesis by auto
  qed
qed simp

lemma client_call_ok:
  assumes "refs_ok (mset E) h" and "client_may c (E, h)"
  shows "call_ok c (E, h)"
  using assms call_ok_set
  by (cases c) (simp_all add: call_ok_create call_ok_array_create call_ok_addref call_ok_release call_ok_unset
      call_ok_erase call_ok_clear call_ok_get_obj call_ok_get_array call_ok_push_back call_ok_insert
      call_ok_push_back_array call_ok_erase_at call_ok_item_at)

lemma client_run_ok:
  assumes "refs_ok (mset E) h" and "meaning_ok a h" and "client_ok cs (E, h)"
  shows "\<exists>E' h'. client_run cs (E, h) = Some (E', h') \<and> refs_ok (mset E') h' \<and> meaning_ok (spec_run cs a) h'"
  using assms
proof (induction cs arbitrary: E h a)
  case Nil
  then show ?case by (simp add: spec_run_def)
next
  case (Cons c cs)
  have "call_ok c (E, h)" using client_call_ok [OF Cons.prems(1)] Cons.prems(3) by simp
  then obtain E1 h1 where step: "client_call c (E, h) = Some (E1, h1)" "refs_ok (mset E1) h1" "meaning_ok (spec_call c a) h1"
    unfolding call_ok_def using Cons.prems(2) snd_conv by metis
  have "client_ok cs (E1, h1)" using Cons.prems(3) step(1) by simp
  from Cons.IH [OF step(2,3) this] show ?case using step(1) by (simp add: spec_run_def)
qed

lemma no_objects_ok: "refs_ok {#} [None]" "meaning_ok (1, \<lambda>_. Map.empty) [None]"
  by (auto simp: refs_ok_def counts_def handles_in_def rc_cell meaning_ok_def data_at_def)


lemma client_run_state:
  assumes "client_ok cs no_objects"
  shows "\<exists>E h. client_run cs no_objects = Some (E, h) \<and> refs_ok (mset E) h \<and>
    meaning_ok (spec_run cs (1, \<lambda>_. Map.empty)) h"
proof -
  have "refs_ok (mset []) [None]" using no_objects_ok(1) by simp
  from client_run_ok [OF this no_objects_ok(2)] assms show ?thesis unfolding no_objects_def by blast
qed

lemma client_run_state_at:
  "client_ok cs no_objects \<Longrightarrow> client_run cs no_objects = Some (E, h) \<Longrightarrow> refs_ok (mset E) h"
  using client_run_state by fastforce

subsection \<open>What holds of every program\<close>

text \<open>
  C11: Whatever sequence of calls a client makes, creating, filling, reading, clearing and releasing settings
  objects and arrays, as long as it passes only what it holds, sets no value of another type than the other
  values of the name have, and sets a default object or array only under a user value: no call touches freed
  memory, each reference count is the number of the references from the heap and of the client, and each object
  that is left means what the specification says, a map from names to a user value, a default and an
  automatically selected value.
\<close>

theorem settings_run_refines:
  assumes "client_ok cs no_objects"
  shows "\<exists>E h. client_run cs no_objects = Some (E, h) \<and>
    (\<forall>x. handle_addr x \<noteq> 0 \<longrightarrow> rc h x = count (handles_in h) x + count_list E x) \<and>
    (\<forall>p. data_at h p \<noteq> None \<longrightarrow> values_of h p = snd (spec_run cs (1, \<lambda>_. Map.empty)) p)"
  using client_run_state [OF assms] by (auto simp: refs_ok_def counts_def meaning_ok_def count_mset)

definition key_a :: name where "key_a = [97]"

definition sample_calls :: "data_call list" where
  "sample_calls = [Create, Create, Set_Value Default 1 key_a (S_int 5), Set_Value User 1 key_a (S_int 7),
     Set_Value User 2 key_a (S_obj 1), Release (Obj 1), Get_Obj User 2 key_a, Release (Obj 2)]"

lemma settings_run_refines_witness:
  "client_ok sample_calls no_objects \<and>
   (\<exists>E h. client_run sample_calls no_objects = Some (E, h) \<and>
    (\<forall>x. handle_addr x \<noteq> 0 \<longrightarrow> rc h x = count (handles_in h) x + count_list E x) \<and>
    (\<forall>p. data_at h p \<noteq> None \<longrightarrow> values_of h p = snd (spec_run sample_calls (1, \<lambda>_. Map.empty)) p))"
proof -
  have "client_ok sample_calls no_objects" by code_simp
  with settings_run_refines [OF this] show ?thesis by blast
qed

end
