(* ===== verification/Obs_Values.thy ===== *)
theory Obs_Values
  imports Obs_Session
begin

text \<open>
  What the getters of a settings object read, what a value that was set reads back as, and what is left of the
  objects when a client has released all it holds.
\<close>

subsection \<open>The position of a value\<close>

lemma slot_at:
  assumes "slot b pos n = v" and "pos + n \<le> length b"
  shows "case v of None \<Rightarrow> n = 0 | Some cs \<Rightarrow> n \<noteq> 0 \<and> mem_read b pos (length cs) = Some cs"
proof (cases v)
  case None
  then show ?thesis using assms(1) by (auto simp: slot_def split: if_splits)
next
  case (Some cs)
  have "length cs = n" "mem_read b pos n = Some cs" using slot_read assms Some by blast+
  moreover have "n \<noteq> 0" using assms(1) Some by (auto simp: slot_def split: if_splits)
  ultimately show ?thesis using Some by simp
qed

lemma layer_data_value:
  assumes "item_valid item"
  shows "case layer_value l (item_abs item) of
      None \<Rightarrow> layer_data l item = None
    | Some v \<Rightarrow> \<exists>pos. layer_data l item = Some pos \<and> mem_read (item_block item) pos (length v) = Some v"
proof (cases l)
  case User
  then show ?thesis
    using get_item_data_value [of item] assms
    by (auto simp: item_valid_def layer_value_def layer_data_def split: option.splits)
next
  case Default
  have ok: "item_ok item" using assms by (simp add: item_valid_def)
  have "default_size item \<le> default_len item" using ok by (simp add: item_ok_def)
  then have "get_default_data_ptr item + default_size item \<le> length (item_block item)"
    using item_ok_room [OF ok] by (simp add: item_ptr_defs)
  from slot_at [OF refl this] show ?thesis
    by (auto simp: Default layer_value_def layer_data_def item_abs_def item_ptr_defs get_item_default_data_def split: option.splits)
next
  case Autoselect
  have ok: "item_ok item" using assms by (simp add: item_valid_def)
  have "get_autoselect_data_ptr item + autoselect_size item \<le> length (item_block item)"
    using item_ok_room [OF ok] by (simp add: item_ptr_defs)
  from slot_at [OF refl this] show ?thesis
    by (auto simp: Autoselect layer_value_def layer_data_def item_abs_def item_ptr_defs get_item_autoselect_data_def split: option.splits)
qed

text \<open>The value the specification has for a type.\<close>

definition spec_get :: "layer \<Rightarrow> obs_data_type \<Rightarrow> item_spec option \<Rightarrow> cells option" where
  "spec_get l type s = (case s of None \<Rightarrow> None | Some s \<Rightarrow> if sp_type s = type then layer_value l s else None)"

lemma layer_value_typed:
  assumes "spec_typed s" and "layer_value l s = Some cs"
  shows "\<exists>v. setting_type v = sp_type s \<and> setting_cells v = cs"
  using assms by (cases l) (auto simp: spec_typed_def layer_value_def sp_value_def slot_typed_def split: option.splits)

lemma typed_data_value:
  assumes ok: "refs_ok E h" and p: "data_at h p = Some d"
  shows "case spec_get l type (values_of h p name) of
      None \<Rightarrow> typed_data l (get_item d name) type = None
    | Some cs \<Rightarrow> (\<exists>b pos. typed_data l (get_item d name) type = Some (b, pos) \<and> mem_read b pos (length cs) = Some cs) \<and>
        (\<exists>v. setting_type v = type \<and> setting_cells v = cs)"
proof (cases "get_item d name")
  case None
  then show ?thesis by (simp add: values_of_Some [OF p] spec_get_def typed_data_def get_item_def)
next
  case (Some item)
  note valid = refs_ok_items [OF ok p Some]
  have vals: "values_of h p name = Some (item_abs item)" using Some by (simp add: values_of_Some [OF p] get_item_def)
  show ?thesis
  proof (cases "item_type item = type \<and> layer_value l (item_abs item) \<noteq> None")
    case False
    then show ?thesis using layer_data_value [OF valid, of l] vals Some
      by (auto simp: spec_get_def typed_data_def split: option.splits)
  next
    case True
    then obtain cs where cs: "layer_value l (item_abs item) = Some cs" by blast
    have "\<exists>v. setting_type v = type \<and> setting_cells v = cs"
      using layer_value_typed [OF _ cs] valid True by (auto simp: item_valid_def)
    then show ?thesis using layer_data_value [OF valid, of l] vals Some True cs
      by (auto simp: spec_get_def typed_data_def)
  qed
qed

lemma cells_string_takeWhile: "cells_string (cstring s @ rest) = Some (takeWhile (\<lambda>b. b \<noteq> 0) s)"
  by (induction s) (auto simp: cstring_def)

lemma mem_read_drop:
  assumes "mem_read b pos (length cs) = Some cs"
  shows "\<exists>rest. drop pos b = cs @ rest"
proof -
  have "cs = take (length cs) (drop pos b)" using assms by (auto simp: mem_read_def split: if_splits)
  then show ?thesis by (metis append_take_drop_id)
qed

text \<open>A value of a type, by the getter of the type.\<close>

definition reads :: "layer \<Rightarrow> dheap \<Rightarrow> nat \<Rightarrow> name \<Rightarrow> setting \<Rightarrow> bool" where
  "reads l h p name v \<longleftrightarrow>
     (case v of
        S_string s \<Rightarrow> obs_data_get_string l h p name = Some (takeWhile (\<lambda>b. b \<noteq> 0) s)
      | S_int i \<Rightarrow> obs_data_get_int l h p name = Some i
      | S_double x \<Rightarrow> obs_data_get_double l h p name = Some x
      | S_bool b \<Rightarrow> obs_data_get_bool l h p name = Some b
      | S_obj q \<Rightarrow> map_option fst (obs_data_get_obj l h p name) = Some q
      | S_array q \<Rightarrow> map_option fst (obs_data_get_array l h p name) = Some q)"

lemma cells_byte [simp]: "cells_word (word_cells (Suc 0) w) = Some (w :: 8 word)"
  by (simp add: cells_word_cells take_bit_word_eq_self)

lemma length_number_cells [simp]: "length (number_cells n) = 16"
  by (cases n) (simp_all add: number_cells_def)

lemma spec_get_reads:
  assumes ok: "refs_ok E h" and p: "p \<noteq> 0" "data_at h p = Some d"
    and val: "spec_get l (setting_type v) (values_of h p name) = Some (setting_cells v)"
  shows "reads l h p name v"
proof -
  obtain b pos where at: "typed_data l (get_item d name) (setting_type v) = Some (b, pos)"
      "mem_read b pos (length (setting_cells v)) = Some (setting_cells v)"
    using typed_data_value [OF ok p(2), where l = l and type = "setting_type v" and name = name] val by auto
  obtain rest where rest: "drop pos b = setting_cells v @ rest" using mem_read_drop [OF at(2)] by blast
  have item: "item_at h p name = Some (get_item d name)" using p by (simp add: item_at_def)
  show ?thesis
  proof (cases v)
    case (S_string s)
    then show ?thesis using at rest item
      by (simp add: reads_def obs_data_get_string_def data_item_get_string_def setting_type_def setting_cells_def
          cells_string_takeWhile)
  next
    case (S_int i)
    then show ?thesis using at item
      by (simp add: reads_def obs_data_get_int_def data_item_get_int_def item_number_def setting_type_def setting_cells_def)
  next
    case (S_double x)
    then show ?thesis using at item
      by (simp add: reads_def obs_data_get_double_def data_item_get_double_def item_number_def setting_type_def setting_cells_def)
  next
    case (S_bool c)
    then show ?thesis using at item
      by (simp add: reads_def obs_data_get_bool_def data_item_get_bool_def setting_type_def setting_cells_def)
  next
    case (S_obj q)
    obtain r h' where get: "data_item_get_obj l h (get_item d name) = Some (r, h')"
      using data_item_get_obj_ok [OF ok p(2)] by blast
    then have "r = q" using at S_obj
      by (auto simp: data_item_get_obj_def setting_type_def setting_cells_def bind_eq_Some_conv)
    then show ?thesis using get item S_obj by (simp add: reads_def obs_data_get_obj_def)
  next
    case (S_array q)
    obtain r h' where get: "data_item_get_array l h (get_item d name) = Some (r, h')"
      using data_item_get_array_ok [OF ok p(2)] by blast
    then have "r = q" using at S_array
      by (auto simp: data_item_get_array_def setting_type_def setting_cells_def bind_eq_Some_conv)
    then show ?thesis using get item S_array by (simp add: reads_def obs_data_get_array_def)
  qed
qed

text \<open>Where the specification has no value, the getters return the value of the type that stands for none.\<close>

lemma spec_get_none:
  assumes ok: "refs_ok E h" and p: "p \<noteq> 0" "data_at h p = Some d"
  shows "spec_get l OBS_DATA_STRING (values_of h p name) = None \<Longrightarrow> obs_data_get_string l h p name = Some []"
    and "spec_get l OBS_DATA_NUMBER (values_of h p name) = None \<Longrightarrow>
      obs_data_get_int l h p name = Some 0 \<and> obs_data_get_double l h p name = Some 0"
    and "spec_get l OBS_DATA_BOOLEAN (values_of h p name) = None \<Longrightarrow> obs_data_get_bool l h p name = Some False"
    and "spec_get l OBS_DATA_OBJECT (values_of h p name) = None \<Longrightarrow> obs_data_get_obj l h p name = Some (0, h)"
    and "spec_get l OBS_DATA_ARRAY (values_of h p name) = None \<Longrightarrow> obs_data_get_array l h p name = Some (0, h)"
proof -
  have item: "item_at h p name = Some (get_item d name)" using p by (simp add: item_at_def)
  have none: "typed_data l (get_item d name) type = None" if "spec_get l type (values_of h p name) = None" for type
    using typed_data_value [OF ok p(2), where l = l and type = type and name = name] that by simp
  show "spec_get l OBS_DATA_STRING (values_of h p name) = None \<Longrightarrow> obs_data_get_string l h p name = Some []"
    using item none by (simp add: obs_data_get_string_def data_item_get_string_def)
  show "spec_get l OBS_DATA_NUMBER (values_of h p name) = None \<Longrightarrow>
      obs_data_get_int l h p name = Some 0 \<and> obs_data_get_double l h p name = Some 0"
    using item none by (simp add: obs_data_get_int_def data_item_get_int_def obs_data_get_double_def
        data_item_get_double_def item_number_def)
  show "spec_get l OBS_DATA_BOOLEAN (values_of h p name) = None \<Longrightarrow> obs_data_get_bool l h p name = Some False"
    using item none by (simp add: obs_data_get_bool_def data_item_get_bool_def)
  show "spec_get l OBS_DATA_OBJECT (values_of h p name) = None \<Longrightarrow> obs_data_get_obj l h p name = Some (0, h)"
    using item none by (simp add: obs_data_get_obj_def data_item_get_obj_def)
  show "spec_get l OBS_DATA_ARRAY (values_of h p name) = None \<Longrightarrow> obs_data_get_array l h p name = Some (0, h)"
    using item none by (simp add: obs_data_get_array_def data_item_get_array_def)
qed


lemma spec_get_number:
  assumes ok: "refs_ok E h" and p: "p \<noteq> 0" "data_at h p = Some d"
    and val: "spec_get l OBS_DATA_NUMBER (values_of h p name) = Some (number_cells n)"
  shows "item_number l (get_item d name) = Some (Some n)"
proof -
  obtain b pos where "typed_data l (get_item d name) OBS_DATA_NUMBER = Some (b, pos)"
      "mem_read b pos 16 = Some (number_cells n)"
    using typed_data_value [OF ok p(2), where l = l and type = OBS_DATA_NUMBER and name = name] val by auto
  then show ?thesis by (simp add: item_number_def)
qed

subsection \<open>Getters never fail\<close>

lemma spec_get_cases:
  assumes "refs_ok E h" and "data_at h p = Some d"
  obtains "spec_get l type (values_of h p name) = None"
  | v where "setting_type v = type" and "spec_get l (setting_type v) (values_of h p name) = Some (setting_cells v)"
proof (cases "spec_get l type (values_of h p name)")
  case None
  then show ?thesis using that(1) by blast
next
  case (Some cs)
  then obtain v where "setting_type v = type" "setting_cells v = cs"
    using typed_data_value [OF assms, where l = l and type = type and name = name] by auto
  then show ?thesis using that(2) Some by blast
qed

lemma getters_typed:
  assumes ok: "refs_ok E h" and p: "p \<noteq> 0" "data_at h p = Some d"
  shows "obs_data_get_string l h p name \<noteq> None" and "obs_data_get_bool l h p name \<noteq> None"
    and "obs_data_get_double l h p name \<noteq> None"
    and "obs_data_get_int l h p name = None \<Longrightarrow> \<exists>x. obs_data_get_double l h p name = Some x \<and> double_to_int x = None"
proof -
  note none = spec_get_none [OF ok p, of l name]
  note reads = spec_get_reads [OF ok p, of l _ name]
  show "obs_data_get_string l h p name \<noteq> None"
  proof (rule spec_get_cases [OF ok p(2), of l OBS_DATA_STRING name])
    fix v assume "setting_type v = OBS_DATA_STRING"
      and "spec_get l (setting_type v) (values_of h p name) = Some (setting_cells v)"
    then show ?thesis using reads [of v] by (cases v) (simp_all add: reads_def setting_type_def)
  qed (use none(1) in simp)
  show "obs_data_get_bool l h p name \<noteq> None"
  proof (rule spec_get_cases [OF ok p(2), of l OBS_DATA_BOOLEAN name])
    fix v assume "setting_type v = OBS_DATA_BOOLEAN"
      and "spec_get l (setting_type v) (values_of h p name) = Some (setting_cells v)"
    then show ?thesis using reads [of v] by (cases v) (simp_all add: reads_def setting_type_def)
  qed (use none(3) in simp)
  have item: "item_at h p name = Some (get_item d name)" using p by (simp add: item_at_def)
  have number: "obs_data_get_double l h p name \<noteq> None \<and>
      (obs_data_get_int l h p name = None \<longrightarrow> (\<exists>x. obs_data_get_double l h p name = Some x \<and> double_to_int x = None))"
  proof (rule spec_get_cases [OF ok p(2), of l OBS_DATA_NUMBER name])
    assume "spec_get l OBS_DATA_NUMBER (values_of h p name) = None"
    then show ?thesis using none(2) by simp
  next
    fix v assume v: "setting_type v = OBS_DATA_NUMBER"
      and val: "spec_get l (setting_type v) (values_of h p name) = Some (setting_cells v)"
    obtain n where n: "setting_cells v = number_cells n"
      using v by (cases v) (auto simp: setting_type_def setting_cells_def)
    have "item_number l (get_item d name) = Some (Some n)"
      using spec_get_number [OF ok p, of l name n] val v n by simp
    then show ?thesis using item
      by (cases n) (simp_all add: obs_data_get_double_def data_item_get_double_def obs_data_get_int_def data_item_get_int_def)
  qed
  then show "obs_data_get_double l h p name \<noteq> None"
    and "obs_data_get_int l h p name = None \<Longrightarrow> \<exists>x. obs_data_get_double l h p name = Some x \<and> double_to_int x = None"
    by blast+
qed

text \<open>
  C12: Settings are typed whatever a client has done with them: in every state its calls can reach, reading any
  name of an object it holds as a string, a truth value or a floating-point number, from any of the three
  layers, finds a complete value of that type or none; and reading an integer fails only when the number was
  stored as a floating-point number that no 64-bit integer can hold, where the conversion of C is undefined.
\<close>

theorem settings_typed:
  assumes "client_ok cs no_objects" and "client_run cs no_objects = Some (E, h)" and "Obj p \<in> set E" and "p \<noteq> 0"
  shows "obs_data_get_string l h p name \<noteq> None \<and> obs_data_get_bool l h p name \<noteq> None \<and>
    obs_data_get_double l h p name \<noteq> None \<and>
    (obs_data_get_int l h p name = None \<longrightarrow>
       (\<exists>x. obs_data_get_double l h p name = Some x \<and> double_to_int x = None))"
proof -
  have ok: "refs_ok (mset E) h" by (rule client_run_state_at [OF assms(1,2)])
  have "held E (Obj p)" using assms(3) by (simp add: held_def)
  then obtain d where "data_at h p = Some d" by (rule held_data [OF ok _ assms(4)])
  from getters_typed [OF ok assms(4) this] show ?thesis by blast
qed

definition typed_calls :: "data_call list" where
  "typed_calls = [Create, Set_Value Default 1 key_a (S_int 5), Set_Value User 1 key_a (S_double 0x4014000000000000)]"

lemma settings_typed_witness:
  "\<exists>E h. client_run typed_calls no_objects = Some (E, h) \<and> Obj 1 \<in> set E \<and>
     obs_data_get_string User h 1 key_a \<noteq> None \<and> obs_data_get_bool User h 1 key_a \<noteq> None \<and>
     obs_data_get_double User h 1 key_a \<noteq> None \<and>
     (obs_data_get_int User h 1 key_a = None \<longrightarrow>
        (\<exists>x. obs_data_get_double User h 1 key_a = Some x \<and> double_to_int x = None))"
proof -
  have ok: "client_ok typed_calls no_objects" by code_simp
  have "map_option fst (client_run typed_calls no_objects) = Some [Obj 1]" by code_simp
  then obtain h where run: "client_run typed_calls no_objects = Some ([Obj 1], h)" by auto
  with settings_typed [OF ok run, of 1 User key_a] show ?thesis by auto
qed

subsection \<open>What was set is read\<close>

lemma client_run_append: "client_run (cs @ cs') s = client_run cs s \<bind> client_run cs'"
proof (induction cs arbitrary: s)
  case (Cons c cs)
  then show ?case by (cases "client_call c s") simp_all
qed simp

lemma client_ok_append:
  "client_ok (cs @ cs') s \<longleftrightarrow> client_ok cs s \<and> (case client_run cs s of None \<Rightarrow> True | Some s \<Rightarrow> client_ok cs' s)"
  by (induction cs arbitrary: s) (auto split: option.split)

lemma spec_get_set:
  assumes "l = Default \<Longrightarrow> (case m name of None \<Rightarrow> True | Some s \<Rightarrow> sp_type s = setting_type v)"
  shows "spec_get l (setting_type v) (spec_set l name v m name) = Some (setting_cells v)"
  using assms by (cases l; cases "m name") (auto simp: spec_get_def spec_set_def set_layer_def layer_value_def sp_value_def)

text \<open>
  C13: A value that was set is the value the getter of its type and layer reads: strings up to their first zero
  byte, integers and floating-point numbers bit by bit, truth values, and pointers to objects and arrays,
  whatever the client did before.  For a default it must be the first value of the name or of the type the
  name has, for a default of another type is ignored.
\<close>

theorem setting_read_back:
  assumes "client_ok (cs @ [Set_Value l p name v]) no_objects" and "p \<noteq> 0"
    and "l = Default \<Longrightarrow>
      (case snd (spec_run cs (1, \<lambda>_. Map.empty)) p name of None \<Rightarrow> True | Some s \<Rightarrow> sp_type s = setting_type v)"
  shows "\<exists>E h. client_run (cs @ [Set_Value l p name v]) no_objects = Some (E, h) \<and> reads l h p name v"
proof -
  obtain E h where run: "client_run (cs @ [Set_Value l p name v]) no_objects = Some (E, h)" "refs_ok (mset E) h"
      "meaning_ok (spec_run (cs @ [Set_Value l p name v]) (1, \<lambda>_. Map.empty)) h"
    using client_run_state [OF assms(1)] by blast
  obtain E0 h0 where run0: "client_run cs no_objects = Some (E0, h0)"
    using run(1) by (cases "client_run cs no_objects") (auto simp: client_run_append)
  then have "held E0 (Obj p)" "E = E0"
    using assms(1) run(1) by (auto simp: client_ok_append client_run_append keep_refs_def bind_eq_Some_conv)
  then obtain d where d: "data_at h p = Some d" using held_data [OF run(2) _ assms(2)] by blast
  have "values_of h p = spec_set l name v (snd (spec_run cs (1, \<lambda>_. Map.empty)) p)"
    using run(3) d by (simp add: meaning_ok_def spec_run_def at_object_def)
  then have "spec_get l (setting_type v) (values_of h p name) = Some (setting_cells v)"
    using spec_get_set [where l = l and m = "snd (spec_run cs (1, \<lambda>_. Map.empty)) p" and name = name and v = v] assms(3) by simp
  from spec_get_reads [OF run(2) assms(2) d this] run(1) show ?thesis by blast
qed

lemma setting_read_back_witness:
  "\<exists>E h. client_run (typed_calls @ [Set_Value Autoselect 1 key_a (S_int 9)]) no_objects = Some (E, h) \<and>
     reads Autoselect h 1 key_a (S_int 9)"
  by (rule setting_read_back) (code_simp, simp_all)

subsection \<open>No leaks\<close>

text \<open>Which cell refers to which.\<close>

definition points_to :: "dheap \<Rightarrow> (nat \<times> nat) set" where
  "points_to h = {(p, handle_addr x) | p x. p < length h \<and> x \<in> set (cell_handles (h ! p))}"

lemma handles_in_cell: "x \<in># handles_in h \<Longrightarrow> \<exists>p<length h. x \<in> set (cell_handles (h ! p))"
  by (auto simp: handles_in_def in_set_conv_nth) blast

lemma finite_points_to: "finite (points_to h)"
proof -
  have "points_to h \<subseteq> (\<Union>p<length h. \<Union>x\<in>set (cell_handles (h ! p)). {(p, handle_addr x)})"
    by (auto simp: points_to_def)
  then show ?thesis by (rule finite_subset) simp
qed

lemma cell_own_handle:
  assumes "cell_valid c" and "c \<noteq> None"
  shows "\<exists>x. handle_addr x = p \<and> 0 < cell_rc c x"
proof (cases c rule: cell_handles.cases)
  case (2 d)
  then show ?thesis using assms by (intro exI [of _ "Obj p"]) simp
next
  case (3 a)
  then show ?thesis using assms by (intro exI [of _ "Arr p"]) simp
qed (use assms in simp)

lemma no_client_no_cells:
  assumes ok: "refs_ok {#} h" and acyclic: "acyclic (points_to h)"
  shows "\<forall>c\<in>set h. c = None"
proof (rule ccontr)
  let ?live = "{p. p < length h \<and> h ! p \<noteq> None}"
  assume "\<not> (\<forall>c\<in>set h. c = None)"
  then obtain p0 where "p0 < length h" "h ! p0 \<noteq> None" by (metis in_set_conv_nth)
  then have "p0 \<in> ?live" by simp
  moreover have "wf (points_to h)" using finite_points_to acyclic by (rule finite_acyclic_wf)
  ultimately obtain p where p: "p \<in> ?live" and min: "\<And>q. (q, p) \<in> points_to h \<Longrightarrow> q \<notin> ?live"
    using wfE_min [of "points_to h" p0 ?live] by blast
  have "cell_valid (h ! p)" using ok p by (simp add: refs_ok_def counts_def)
  then obtain x where x: "handle_addr x = p" "0 < cell_rc (h ! p) x" using cell_own_handle [of "h ! p" p] p by blast
  have "p \<noteq> 0"
  proof
    assume "p = 0"
    then show False using ok p by (simp add: refs_ok_def counts_def)
  qed
  then have "rc h x = count (handles_in h) x" using ok x(1) by (simp add: refs_ok_def counts_def)
  moreover have "0 < rc h x" using x p by (simp add: rc_cell)
  ultimately have "x \<in># handles_in h" using count_greater_zero_iff by metis
  then obtain q where q: "q < length h" "x \<in> set (cell_handles (h ! q))" using handles_in_cell by blast
  then have "(q, p) \<in> points_to h" using x(1) by (auto simp: points_to_def)
  then have "h ! q = None" using min q(1) by blast
  then show False using q(2) by simp
qed

text \<open>
  C14: A client that has released every reference it held leaves nothing behind, unless it has built a cycle:
  when its calls end with no reference held and no object or array refers to itself through others, every
  object, array and item has been freed.
\<close>

theorem settings_no_leak:
  assumes "client_ok cs no_objects" and "client_run cs no_objects = Some ([], h)" and "acyclic (points_to h)"
  shows "\<forall>c\<in>set h. c = None"
proof -
  have "refs_ok {#} h" using client_run_state_at [OF assms(1,2)] by simp
  then show ?thesis using assms(3) by (rule no_client_no_cells)
qed

definition leak_calls :: "data_call list" where
  "leak_calls = sample_calls @ [Release (Obj 1)]"

lemma settings_no_leak_witness:
  "\<exists>h. client_run leak_calls no_objects = Some ([], h) \<and> length h = 3 \<and> (\<forall>c\<in>set h. c = None)"
proof -
  have ok: "client_ok leak_calls no_objects" by code_simp
  have run: "client_run leak_calls no_objects = Some ([], [None, None, None])" by code_simp
  have "points_to [None, None, None] = {}" by (auto simp: points_to_def nth_Cons')
  then have "acyclic (points_to [None, None, None])" by (simp add: acyclic_def)
  from settings_no_leak [OF ok run this] run show ?thesis by auto
qed

subsection \<open>What a client may not do\<close>

text \<open>
  Setting a default object a second time, under no user value, leaves it without a reference: the old default
  is released, but no reference is taken for the new one.  When the client releases its own, the object is
  freed, and the next read of the default touches freed memory.
\<close>

lemma default_object_set_twice:
  "client_run [Create, Create, Set_Value Default 1 key_a (S_obj 2), Set_Value Default 1 key_a (S_obj 2),
     Release (Obj 2), Get_Obj Default 1 key_a] no_objects = None"
  by code_simp

text \<open>
  An object set as the user value of a name that has a number as its default makes the default an object too:
  its release reads the number as a pointer.
\<close>

lemma object_over_number_default:
  "client_run [Create, Create, Set_Value Default 1 key_a (S_int 5), Set_Value User 1 key_a (S_obj 2),
     Release (Obj 1)] no_objects = None"
  by code_simp

end
