(* ===== verification/Task_Queue.thy ===== *)
theory Task_Queue
  imports Obs_Prelude
begin

text \<open>
  The task queue of \<^verbatim>\<open>util/task.c\<close>: one worker thread, a queue behind a mutex, a
  semaphore that counts what is in the queue, and an event for a caller that waits until the queue is done.

  Every critical section is one step, and so is every operation on the semaphore and on the event.  Any number
  of threads may queue tasks, the tasks themselves too; one thread waits; the queue is destroyed when no call
  is under way.  The worker's thread-local flag is part of its state.  The queue is a list, which
  \<open>Deque\<close> refines.  The history of the queue, the tasks queued and those that have run, is kept
  beside it.
\<close>

subsection \<open>The queue and its critical sections\<close>

datatype os_task = Work nat | Wait_For_Thread | Stop_Thread

record os_task_queue =
  tq_sem :: nat
  tq_waiting :: bool
  tq_processed :: bool
  tq_event :: bool
  tq_tasks :: "os_task list"

definition queue_task :: "os_task \<Rightarrow> os_task_queue \<Rightarrow> os_task_queue" where
  "queue_task t tq = tq\<lparr>tq_tasks := tq_tasks tq @ [t]\<rparr>"

definition queue_wait :: "os_task_queue \<Rightarrow> os_task_queue" where
  "queue_wait tq = queue_task Wait_For_Thread (tq\<lparr>tq_waiting := True, tq_processed := False\<rparr>)"

definition pop_front :: "os_task_queue \<Rightarrow> (os_task \<times> os_task_queue) option" where
  "pop_front tq = (case tq_tasks tq of [] \<Rightarrow> None | t # ts \<Rightarrow> Some (t, tq\<lparr>tq_tasks := ts\<rparr>))"

text \<open>A task of this kind gives way to whatever else is in the queue.\<close>

definition give_way :: "os_task \<Rightarrow> os_task \<times> os_task_queue \<Rightarrow> (os_task \<times> os_task_queue) option" where
  "give_way k r =
     (let (ti, tq) = r in
      if tq_tasks tq \<noteq> [] \<and> ti = k then pop_front (queue_task ti tq) else Some (ti, tq))"

definition take_task :: "os_task_queue \<Rightarrow> (os_task \<times> os_task_queue) option" where
  "take_task tq =
     do { r \<leftarrow> pop_front tq;
          r \<leftarrow> give_way Wait_For_Thread r;
          (ti, tq) \<leftarrow> give_way Stop_Thread r;
          Some (ti,
            if tq_waiting tq
            then (if ti = Wait_For_Thread then tq\<lparr>tq_waiting := False\<rparr> else tq\<lparr>tq_processed := True\<rparr>)
            else tq) }"

subsection \<open>Threads\<close>

datatype worker = At_Test | In_Sem_Wait | Has_Ticket | Running os_task | Ended

datatype waiter = Not_Waiting | Wait_Queued | In_Event_Wait | Woken

datatype destroyer = Not_Destroyed | Stop_Queued | In_Join | Joined

record tq_state =
  queue :: os_task_queue
  worker :: worker
  exit_thread :: bool
  posts_due :: nat
  waiter :: waiter
  destroyer :: destroyer
  queued :: "nat list"
  started :: "nat list"
  finished :: "nat list"
  queued_before :: nat
  started_before :: nat
  result :: bool

text \<open>The state after \<^verbatim>\<open>os_task_queue_create\<close>.\<close>

definition os_task_queue_create :: tq_state where
  "os_task_queue_create =
     \<lparr>queue = \<lparr>tq_sem = 0, tq_waiting = False, tq_processed = False, tq_event = False, tq_tasks = []\<rparr>,
      worker = At_Test, exit_thread = False, posts_due = 0, waiter = Not_Waiting, destroyer = Not_Destroyed,
      queued = [], started = [], finished = [], queued_before = 0, started_before = 0, result = False\<rparr>"

fun work_of :: "os_task \<Rightarrow> nat list" where
  "work_of (Work k) = [k]"
| "work_of _ = []"

definition works :: "os_task list \<Rightarrow> nat list" where
  "works ts = concat (map work_of ts)"

text \<open>What a task does when the worker calls it.\<close>

fun run_task :: "os_task \<Rightarrow> tq_state \<Rightarrow> tq_state" where
  "run_task (Work k) s = s\<lparr>finished := finished s @ [k]\<rparr>"
| "run_task Wait_For_Thread s = s\<lparr>queue := (queue s)\<lparr>tq_event := True\<rparr>\<rparr>"
| "run_task Stop_Thread s = s\<lparr>exit_thread := True\<rparr>"

definition sem_post :: "tq_state \<Rightarrow> tq_state" where
  "sem_post s = s\<lparr>queue := (queue s)\<lparr>tq_sem := tq_sem (queue s) + 1\<rparr>\<rparr>"

inductive worker_step :: "tq_state \<Rightarrow> tq_state \<Rightarrow> bool" where
  test_go: "worker s = At_Test \<Longrightarrow> \<not> exit_thread s \<Longrightarrow> worker_step s (s\<lparr>worker := In_Sem_Wait\<rparr>)"
| test_end: "worker s = At_Test \<Longrightarrow> exit_thread s \<Longrightarrow> worker_step s (s\<lparr>worker := Ended\<rparr>)"
| sem_wait: "worker s = In_Sem_Wait \<Longrightarrow> 0 < tq_sem (queue s) \<Longrightarrow>
    worker_step s (s\<lparr>worker := Has_Ticket, queue := (queue s)\<lparr>tq_sem := tq_sem (queue s) - 1\<rparr>\<rparr>)"
| take: "worker s = Has_Ticket \<Longrightarrow> take_task (queue s) = Some (ti, tq) \<Longrightarrow>
    worker_step s (s\<lparr>worker := Running ti, queue := tq, started := started s @ work_of ti\<rparr>)"
| run: "worker s = Running ti \<Longrightarrow> worker_step s ((run_task ti s)\<lparr>worker := At_Test\<rparr>)"

inductive client_step :: "tq_state \<Rightarrow> tq_state \<Rightarrow> bool" where
  queue_push: "destroyer s = Not_Destroyed \<Longrightarrow>
    client_step s (s\<lparr>queue := queue_task (Work k) (queue s), posts_due := posts_due s + 1, queued := queued s @ [k]\<rparr>)"
| queue_post: "0 < posts_due s \<Longrightarrow> client_step s ((sem_post s)\<lparr>posts_due := posts_due s - 1\<rparr>)"
| wait_push: "destroyer s = Not_Destroyed \<Longrightarrow> waiter s = Not_Waiting \<Longrightarrow>
    client_step s (s\<lparr>queue := queue_wait (queue s), waiter := Wait_Queued,
      queued_before := length (queued s), started_before := length (started s)\<rparr>)"
| wait_post: "waiter s = Wait_Queued \<Longrightarrow> client_step s ((sem_post s)\<lparr>waiter := In_Event_Wait\<rparr>)"
| wait_wake: "waiter s = In_Event_Wait \<Longrightarrow> tq_event (queue s) \<Longrightarrow>
    client_step s (s\<lparr>waiter := Woken, queue := (queue s)\<lparr>tq_event := False\<rparr>\<rparr>)"
| wait_return: "waiter s = Woken \<Longrightarrow> client_step s (s\<lparr>waiter := Not_Waiting, result := tq_processed (queue s)\<rparr>)"
| destroy_push: "destroyer s = Not_Destroyed \<Longrightarrow> waiter s = Not_Waiting \<Longrightarrow> posts_due s = 0 \<Longrightarrow>
    client_step s (s\<lparr>queue := queue_task Stop_Thread (queue s), destroyer := Stop_Queued\<rparr>)"
| destroy_post: "destroyer s = Stop_Queued \<Longrightarrow> client_step s ((sem_post s)\<lparr>destroyer := In_Join\<rparr>)"
| destroy_join: "destroyer s = In_Join \<Longrightarrow> worker s = Ended \<Longrightarrow> client_step s (s\<lparr>destroyer := Joined\<rparr>)"

inductive_cases worker_stepE: "worker_step s s'"

inductive_cases client_stepE: "client_step s s'"

inductive tq_reachable :: "tq_state \<Rightarrow> bool" where
  start: "tq_reachable os_task_queue_create"
| by_worker: "tq_reachable s \<Longrightarrow> worker_step s s' \<Longrightarrow> tq_reachable s'"
| by_client: "tq_reachable s \<Longrightarrow> client_step s s' \<Longrightarrow> tq_reachable s'"


subsection \<open>The invariant\<close>

definition one_if :: "bool \<Rightarrow> nat" where "one_if b = (if b then 1 else 0)"

lemma one_if_simps [simp]: "one_if True = 1" "one_if False = 0" "one_if b = 0 \<longleftrightarrow> \<not> b"
  by (simp_all add: one_if_def)

lemma works_simps [simp]: "works [] = []" "works (t # ts) = work_of t @ works ts" "works (ts @ us) = works ts @ works us"
  by (simp_all add: works_def)

text \<open>What the queue holds when one thread waits at most, and nothing is queued after the stop.\<close>

definition tasks_ok :: "os_task list \<Rightarrow> bool" where
  "tasks_ok ts \<longleftrightarrow> count_list ts Wait_For_Thread \<le> 1 \<and>
     (Stop_Thread \<in> set ts \<longrightarrow> Wait_For_Thread \<notin> set ts \<and> Stop_Thread \<notin> set (butlast ts))"

lemma take_task_spec:
  assumes "tasks_ok (tq_tasks tq)" and "tq_tasks tq \<noteq> []"
  obtains ti ts where "take_task tq = Some (ti,
      if tq_waiting tq
      then (if ti = Wait_For_Thread then tq\<lparr>tq_waiting := False, tq_tasks := ts\<rparr> else tq\<lparr>tq_processed := True, tq_tasks := ts\<rparr>)
      else tq\<lparr>tq_tasks := ts\<rparr>)"
    and "works (tq_tasks tq) = work_of ti @ works ts" and "length (tq_tasks tq) = Suc (length ts)"
    and "count_list (tq_tasks tq) Wait_For_Thread = one_if (ti = Wait_For_Thread) + count_list ts Wait_For_Thread"
    and "count_list (tq_tasks tq) Stop_Thread = one_if (ti = Stop_Thread) + count_list ts Stop_Thread"
    and "ti = Wait_For_Thread \<or> ti = Stop_Thread \<Longrightarrow> ts = []" and "tasks_ok ts"
proof -
  obtain t ts where q: "tq_tasks tq = t # ts" using assms(2) by (cases "tq_tasks tq") auto
  show thesis
  proof (cases t)
    case (Work k)
    show thesis
      by (rule that [of t ts])
         (use assms(1) q Work in \<open>auto simp: take_task_def pop_front_def give_way_def tasks_ok_def split: if_splits\<close>)
  next
    case Wait_For_Thread
    show thesis
    proof (cases ts)
      case Nil
      show thesis
        by (rule that [of t ts])
           (use q Wait_For_Thread Nil in \<open>auto simp: take_task_def pop_front_def give_way_def tasks_ok_def\<close>)
    next
      case (Cons u us)
      obtain k where u: "u = Work k" using assms(1) q Wait_For_Thread Cons by (cases u) (auto simp: tasks_ok_def)
      show thesis
        by (rule that [of u "us @ [t]"])
           (use assms(1) q Wait_For_Thread Cons u in
            \<open>auto simp: take_task_def pop_front_def give_way_def queue_task_def tasks_ok_def butlast_append\<close>)
    qed
  next
    case Stop_Thread
    have "ts = []" using assms(1) q Stop_Thread by (cases ts) (auto simp: tasks_ok_def)
    show thesis
      by (rule that [of t ts])
         (use q Stop_Thread \<open>ts = []\<close> in \<open>auto simp: take_task_def pop_front_def give_way_def tasks_ok_def\<close>)
  qed
qed

definition history_ok :: "tq_state \<Rightarrow> bool" where
  "history_ok s \<longleftrightarrow>
     queued s = started s @ works (tq_tasks (queue s)) \<and>
     started s = finished s @ (case worker s of Running ti \<Rightarrow> work_of ti | _ \<Rightarrow> [])"

definition tickets_ok :: "tq_state \<Rightarrow> bool" where
  "tickets_ok s \<longleftrightarrow> length (tq_tasks (queue s)) =
     tq_sem (queue s) + one_if (worker s = Has_Ticket) + posts_due s + one_if (waiter s = Wait_Queued) +
     one_if (destroyer s = Stop_Queued)"

definition wait_pending :: "tq_state \<Rightarrow> bool" where
  "wait_pending s \<longleftrightarrow> waiter s = Wait_Queued \<or> waiter s = In_Event_Wait"

definition waits_ok :: "tq_state \<Rightarrow> bool" where
  "waits_ok s \<longleftrightarrow>
     count_list (tq_tasks (queue s)) Wait_For_Thread + one_if (worker s = Running Wait_For_Thread) +
       one_if (tq_event (queue s)) = one_if (wait_pending s) \<and>
     (tq_waiting (queue s) \<longleftrightarrow> Wait_For_Thread \<in> set (tq_tasks (queue s)))"

definition stops_ok :: "tq_state \<Rightarrow> bool" where
  "stops_ok s \<longleftrightarrow>
     count_list (tq_tasks (queue s)) Stop_Thread + one_if (worker s = Running Stop_Thread) + one_if (exit_thread s) =
       one_if (destroyer s \<noteq> Not_Destroyed) \<and>
     (destroyer s \<noteq> Not_Destroyed \<longrightarrow> waiter s = Not_Waiting \<and> posts_due s = 0) \<and>
     (worker s = Running Stop_Thread \<or> exit_thread s \<longrightarrow> tq_tasks (queue s) = []) \<and>
     (worker s = Ended \<longrightarrow> exit_thread s) \<and> (exit_thread s \<longrightarrow> worker s = At_Test \<or> worker s = Ended) \<and>
     (destroyer s = Joined \<longrightarrow> worker s = Ended)"

definition result_ok :: "tq_state \<Rightarrow> bool" where
  "result_ok s \<longleftrightarrow> (waiter s \<noteq> Not_Waiting \<longrightarrow>
     queued_before s \<le> length (queued s) \<and> started_before s \<le> length (started s) \<and>
     (if tq_waiting (queue s) then tq_processed (queue s) = (started_before s < length (started s))
      else queued_before s \<le> length (finished s) \<and>
        (tq_processed (queue s) \<longrightarrow> started_before s < length (started s)) \<and>
        (\<not> tq_processed (queue s) \<longrightarrow> queued_before s \<le> started_before s)))"

definition tq_inv :: "tq_state \<Rightarrow> bool" where
  "tq_inv s \<longleftrightarrow> tasks_ok (tq_tasks (queue s)) \<and> history_ok s \<and> tickets_ok s \<and> waits_ok s \<and> stops_ok s \<and> result_ok s"

lemmas inv_defs = tq_inv_def history_ok_def tickets_ok_def waits_ok_def stops_ok_def result_ok_def wait_pending_def

lemma tq_inv_create: "tq_inv os_task_queue_create"
  by (simp add: inv_defs os_task_queue_create_def tasks_ok_def)

lemma has_ticket_tasks: "tq_inv s \<Longrightarrow> worker s = Has_Ticket \<Longrightarrow> tq_tasks (queue s) \<noteq> []"
  by (auto simp: tq_inv_def tickets_ok_def)

lemma tq_inv_take:
  assumes inv: "tq_inv s" and w: "worker s = Has_Ticket" and take: "take_task (queue s) = Some (ti, tq)"
  shows "tq_inv (s\<lparr>worker := Running ti, queue := tq, started := started s @ work_of ti\<rparr>)"
proof -
  have ok: "tasks_ok (tq_tasks (queue s))" using inv by (simp add: tq_inv_def)
  obtain ti' ts where spec: "take_task (queue s) = Some (ti',
      if tq_waiting (queue s)
      then (if ti' = Wait_For_Thread then (queue s)\<lparr>tq_waiting := False, tq_tasks := ts\<rparr>
            else (queue s)\<lparr>tq_processed := True, tq_tasks := ts\<rparr>)
      else (queue s)\<lparr>tq_tasks := ts\<rparr>)"
    and works: "works (tq_tasks (queue s)) = work_of ti' @ works ts" "length (tq_tasks (queue s)) = Suc (length ts)"
    and waits: "count_list (tq_tasks (queue s)) Wait_For_Thread = one_if (ti' = Wait_For_Thread) + count_list ts Wait_For_Thread"
    and stops: "count_list (tq_tasks (queue s)) Stop_Thread = one_if (ti' = Stop_Thread) + count_list ts Stop_Thread"
    and alone: "ti' = Wait_For_Thread \<or> ti' = Stop_Thread \<Longrightarrow> ts = []" and ok': "tasks_ok ts"
    by (rule take_task_spec [OF ok has_ticket_tasks [OF inv w]]) (rule that)
  have eq: "ti' = ti" using spec take by simp
  note tq = spec [unfolded take option.inject prod.inject, THEN conjunct2]
  have q: "tq_tasks tq = ts" "tq_sem tq = tq_sem (queue s)" "tq_event tq = tq_event (queue s)"
    "tq_waiting tq \<longleftrightarrow> tq_waiting (queue s) \<and> ti \<noteq> Wait_For_Thread"
    "tq_processed tq \<longleftrightarrow> (if tq_waiting (queue s) \<and> ti \<noteq> Wait_For_Thread then True else tq_processed (queue s))"
    unfolding tq eq by simp_all
  note works = works [unfolded eq] and waits = waits [unfolded eq] and stops = stops [unfolded eq]
    and alone = alone [unfolded eq]
  let ?s = "s\<lparr>worker := Running ti, queue := tq, started := started s @ work_of ti\<rparr>"
  have mem: "Wait_For_Thread \<in> set (tq_tasks (queue s)) \<longleftrightarrow> ti = Wait_For_Thread \<or> Wait_For_Thread \<in> set ts"
    using waits count_list_0_iff [of ts Wait_For_Thread] count_list_0_iff [of "tq_tasks (queue s)" Wait_For_Thread]
    by (auto simp: one_if_def split: if_splits)
  have h: "history_ok ?s" using inv w works(1) by (simp add: tq_inv_def history_ok_def q)
  have "tickets_ok ?s" using inv w works(2) by (simp add: tq_inv_def tickets_ok_def q)
  moreover have "waits_ok ?s"
  proof -
    have "waits_ok s" using inv by (simp add: tq_inv_def)
    moreover have "ti = Wait_For_Thread \<Longrightarrow> Wait_For_Thread \<notin> set ts" using alone by simp
    ultimately show ?thesis using w waits mem by (auto simp add: waits_ok_def wait_pending_def q)
  qed
  moreover have "stops_ok ?s"
  proof -
    have "stops_ok s" using inv by (simp add: tq_inv_def)
    then show ?thesis using w stops alone by (auto simp add: stops_ok_def q)
  qed
  moreover have "result_ok ?s"
  proof (cases "tq_waiting (queue s)")
    case False
    have "result_ok s" using inv by (simp add: tq_inv_def)
    with False show ?thesis using w by (auto simp: result_ok_def q)
  next
    case True
    have r: "result_ok s" using inv by (simp add: tq_inv_def)
    from True have "ti \<noteq> Stop_Thread" using alone inv mem by (auto simp: tq_inv_def waits_ok_def)
    then have ti: "ti = Wait_For_Thread \<or> (\<exists>k. ti = Work k)" by (cases ti) auto
    show ?thesis
    proof (cases "ti = Wait_For_Thread")
      case w: True
      then have "queued s = finished s" "started s = finished s"
        using h alone by (simp_all add: history_ok_def q)
      then show ?thesis using r True w by (auto simp: result_ok_def q)
    next
      case False
      then show ?thesis using r True ti by (auto simp: result_ok_def q)
    qed
  qed
  ultimately show ?thesis using h ok' by (simp add: tq_inv_def q)
qed

lemma tq_inv_run:
  assumes "tq_inv s" and "worker s = Running ti"
  shows "tq_inv ((run_task ti s)\<lparr>worker := At_Test\<rparr>)" (is "tq_inv ?s")
proof -
  have "tasks_ok (tq_tasks (queue ?s))" using assms by (cases ti) (simp_all add: tq_inv_def)
  moreover have "history_ok ?s" using assms by (cases ti) (simp_all add: tq_inv_def history_ok_def)
  moreover have "tickets_ok ?s" using assms by (cases ti) (simp_all add: tq_inv_def tickets_ok_def)
  moreover have "waits_ok ?s"
    using assms by (cases ti) (auto simp add: tq_inv_def waits_ok_def wait_pending_def one_if_def split: if_splits)
  moreover have "stops_ok ?s"
    using assms by (cases ti) (auto simp add: tq_inv_def stops_ok_def one_if_def split: if_splits)
  moreover have "result_ok ?s" using assms by (cases ti) (auto simp add: tq_inv_def result_ok_def)
  ultimately show ?thesis by (simp add: tq_inv_def)
qed

lemma tq_inv_worker:
  assumes "tq_inv s" and "worker_step s s'"
  shows "tq_inv s'"
  using assms(2)
proof cases
  case test_go
  then show ?thesis using assms(1) by (auto simp: inv_defs)
next
  case test_end
  then show ?thesis using assms(1) by (auto simp: inv_defs)
next
  case sem_wait
  then show ?thesis using assms(1) by (auto simp: inv_defs)
next
  case (take ti tq)
  then show ?thesis using tq_inv_take [OF assms(1)] by simp
next
  case (run ti)
  then show ?thesis using tq_inv_run [OF assms(1)] by simp
qed

text \<open>The calls keep each part of the invariant.\<close>

lemmas client_defs = queue_task_def queue_wait_def sem_post_def

lemma history_client: "client_step s s' \<Longrightarrow> history_ok s \<Longrightarrow> history_ok s'"
  by (induction rule: client_step.induct) (simp_all add: history_ok_def client_defs)

lemma tickets_client: "client_step s s' \<Longrightarrow> tickets_ok s \<Longrightarrow> tickets_ok s'"
  by (induction rule: client_step.induct) (simp_all add: tickets_ok_def client_defs)

lemma waits_client: "client_step s s' \<Longrightarrow> waits_ok s \<Longrightarrow> waits_ok s'"
  by (induction rule: client_step.induct) (simp_all add: waits_ok_def wait_pending_def client_defs)

lemma stops_client: "client_step s s' \<Longrightarrow> stops_ok s \<Longrightarrow> stops_ok s'"
  by (induction rule: client_step.induct) (auto simp add: stops_ok_def client_defs)

lemma result_client: "client_step s s' \<Longrightarrow> result_ok s \<Longrightarrow> result_ok s'"
  by (induction rule: client_step.induct) (auto simp add: result_ok_def client_defs)

lemma no_stop: "stops_ok s \<Longrightarrow> destroyer s = Not_Destroyed \<Longrightarrow> Stop_Thread \<notin> set (tq_tasks (queue s))"
  by (auto simp: stops_ok_def count_list_0_iff)

lemma no_wait: "waits_ok s \<Longrightarrow> \<not> wait_pending s \<Longrightarrow> Wait_For_Thread \<notin> set (tq_tasks (queue s))"
  by (auto simp: waits_ok_def count_list_0_iff)

lemma tasks_client:
  assumes "client_step s s'" and "tasks_ok (tq_tasks (queue s))" and "waits_ok s" and "stops_ok s"
  shows "tasks_ok (tq_tasks (queue s'))"
  using assms(1)
proof cases
  case (queue_push k)
  then show ?thesis using assms(2) no_stop [OF assms(4)] by (auto simp: tasks_ok_def client_defs)
next
  case wait_push
  then have "Wait_For_Thread \<notin> set (tq_tasks (queue s))" using no_wait [OF assms(3)] by (simp add: wait_pending_def)
  then show ?thesis using wait_push assms(2) no_stop [OF assms(4)] by (auto simp: tasks_ok_def client_defs)
next
  case destroy_push
  then have "Wait_For_Thread \<notin> set (tq_tasks (queue s))" using no_wait [OF assms(3)] by (simp add: wait_pending_def)
  then show ?thesis using destroy_push assms(2) no_stop [OF assms(4)] by (auto simp: tasks_ok_def client_defs)
qed (use assms(2) in \<open>simp_all add: client_defs\<close>)

lemma tq_inv_client: "tq_inv s \<Longrightarrow> client_step s s' \<Longrightarrow> tq_inv s'"
  unfolding tq_inv_def
  by (blast intro: tasks_client history_client tickets_client waits_client stops_client result_client)

lemma tq_reachable_inv: "tq_reachable s \<Longrightarrow> tq_inv s"
  by (induction rule: tq_reachable.induct) (auto intro: tq_inv_create tq_inv_worker tq_inv_client)


subsection \<open>Schedules\<close>

text \<open>The steps as a function, for concrete runs.\<close>

datatype tq_act =
    By_Worker | Push nat | Post | Wait_Push | Wait_Post | Wake | Return | Destroy | Destroy_Post | Join

fun worker_do :: "tq_state \<Rightarrow> tq_state option" where
  "worker_do s =
     (case worker s of
        At_Test \<Rightarrow> Some (s\<lparr>worker := (if exit_thread s then Ended else In_Sem_Wait)\<rparr>)
      | In_Sem_Wait \<Rightarrow>
          if 0 < tq_sem (queue s)
          then Some (s\<lparr>worker := Has_Ticket, queue := (queue s)\<lparr>tq_sem := tq_sem (queue s) - 1\<rparr>\<rparr>) else None
      | Has_Ticket \<Rightarrow>
          map_option (\<lambda>(ti, tq). s\<lparr>worker := Running ti, queue := tq, started := started s @ work_of ti\<rparr>) (take_task (queue s))
      | Running ti \<Rightarrow> Some ((run_task ti s)\<lparr>worker := At_Test\<rparr>)
      | Ended \<Rightarrow> None)"

fun tq_do :: "tq_act \<Rightarrow> tq_state \<Rightarrow> tq_state option" where
  "tq_do By_Worker s = worker_do s"
| "tq_do (Push k) s =
     (if destroyer s = Not_Destroyed
      then Some (s\<lparr>queue := queue_task (Work k) (queue s), posts_due := posts_due s + 1, queued := queued s @ [k]\<rparr>)
      else None)"
| "tq_do Post s = (if 0 < posts_due s then Some ((sem_post s)\<lparr>posts_due := posts_due s - 1\<rparr>) else None)"
| "tq_do Wait_Push s =
     (if destroyer s = Not_Destroyed \<and> waiter s = Not_Waiting
      then Some (s\<lparr>queue := queue_wait (queue s), waiter := Wait_Queued,
        queued_before := length (queued s), started_before := length (started s)\<rparr>) else None)"
| "tq_do Wait_Post s = (if waiter s = Wait_Queued then Some ((sem_post s)\<lparr>waiter := In_Event_Wait\<rparr>) else None)"
| "tq_do Wake s =
     (if waiter s = In_Event_Wait \<and> tq_event (queue s)
      then Some (s\<lparr>waiter := Woken, queue := (queue s)\<lparr>tq_event := False\<rparr>\<rparr>) else None)"
| "tq_do Return s =
     (if waiter s = Woken then Some (s\<lparr>waiter := Not_Waiting, result := tq_processed (queue s)\<rparr>) else None)"
| "tq_do Destroy s =
     (if destroyer s = Not_Destroyed \<and> waiter s = Not_Waiting \<and> posts_due s = 0
      then Some (s\<lparr>queue := queue_task Stop_Thread (queue s), destroyer := Stop_Queued\<rparr>) else None)"
| "tq_do Destroy_Post s = (if destroyer s = Stop_Queued then Some ((sem_post s)\<lparr>destroyer := In_Join\<rparr>) else None)"
| "tq_do Join s = (if destroyer s = In_Join \<and> worker s = Ended then Some (s\<lparr>destroyer := Joined\<rparr>) else None)"

fun tq_play :: "tq_act list \<Rightarrow> tq_state \<Rightarrow> tq_state option" where
  "tq_play [] s = Some s"
| "tq_play (a # as) s = do { s \<leftarrow> tq_do a s; tq_play as s }"

lemma worker_do_step: "worker_do s = Some s' \<Longrightarrow> worker_step s s'"
  by (auto split: worker.splits if_splits intro: worker_step.intros [simplified])

lemma tq_do_step: "tq_do a s = Some s' \<Longrightarrow> worker_step s s' \<or> client_step s s'"
  by (cases a) (auto split: if_splits intro: client_step.intros [simplified] worker_do_step simp del: worker_do.simps)

lemma tq_play_reachable: "tq_play as s = Some s' \<Longrightarrow> tq_reachable s \<Longrightarrow> tq_reachable s'"
proof (induction as arbitrary: s)
  case (Cons a as)
  then obtain s1 where s1: "tq_do a s = Some s1" "tq_play as s1 = Some s'" by (auto simp: bind_eq_Some_conv)
  have "tq_reachable s1" using tq_do_step [OF s1(1)] Cons.prems(2) by (auto intro: by_worker by_client)
  then show ?case using Cons.IH s1(2) by blast
qed simp

text \<open>Two tasks and a wait, with the second task queued while the first runs; and then the end.\<close>

definition wait_schedule :: "tq_act list" where
  "wait_schedule = [Push 1, Post, Wait_Push, By_Worker, By_Worker, By_Worker, Push 2, Wait_Post, By_Worker, Post] @
     replicate 9 By_Worker @ [Wake]"

definition end_schedule :: "tq_act list" where
  "end_schedule = wait_schedule @ [Return, Push 3, Post, Destroy, Destroy_Post] @ replicate 8 By_Worker @ [Join]"

subsection \<open>What a caller can rely on\<close>

lemma task_queue_order: "tq_inv s \<Longrightarrow> \<exists>rest. queued s = finished s @ rest"
  by (auto simp: tq_inv_def history_ok_def)

text \<open>
  C16: Tasks run one after the other in the order in which they were queued, whatever the threads do: those
  that have run are at every moment the first of those that were queued, and at most one other has been started;
  the worker never finds the queue empty when the semaphore has let it through; while a caller of
  \<^verbatim>\<open>os_task_queue_wait\<close> has not been woken there is exactly one answer for it, as its task in the
  queue, the task under way or the signalled event, and there is none at any other time, so no wait is answered
  twice and no answer is left for a later one; and when \<^verbatim>\<open>os_task_queue_destroy\<close> returns every
  task has run and nothing is left in the queue.  One thread waits at a time, and the queue is destroyed when no
  call is under way.
\<close>

theorem task_queue_in_order:
  assumes "tq_reachable s"
  shows "(\<exists>rest. queued s = finished s @ rest) \<and> (\<exists>cur. started s = finished s @ cur \<and> length cur \<le> 1) \<and>
    (worker s = Has_Ticket \<longrightarrow> take_task (queue s) \<noteq> None) \<and>
    count_list (tq_tasks (queue s)) Wait_For_Thread + (if worker s = Running Wait_For_Thread then 1 else 0) +
      (if tq_event (queue s) then 1 else 0) = (if waiter s = Wait_Queued \<or> waiter s = In_Event_Wait then 1 else 0) \<and>
    (destroyer s = Joined \<longrightarrow> finished s = queued s \<and> tq_tasks (queue s) = [])"
proof -
  have inv: "tq_inv s" by (rule tq_reachable_inv [OF assms])
  have "take_task (queue s) \<noteq> None" if w: "worker s = Has_Ticket"
  proof -
    have "tasks_ok (tq_tasks (queue s))" using inv by (simp add: tq_inv_def)
    then show ?thesis by (rule take_task_spec [OF _ has_ticket_tasks [OF inv w]]) simp
  qed
  moreover have "\<exists>rest. queued s = finished s @ rest" by (rule task_queue_order [OF inv])
  moreover have "\<exists>cur. started s = finished s @ cur \<and> length cur \<le> 1"
  proof -
    have "length (work_of ti) \<le> 1" for ti by (cases ti) simp_all
    then show ?thesis using inv by (auto simp: tq_inv_def history_ok_def split: worker.split)
  qed
  moreover have "count_list (tq_tasks (queue s)) Wait_For_Thread + (if worker s = Running Wait_For_Thread then 1 else 0) +
      (if tq_event (queue s) then 1 else 0) = (if waiter s = Wait_Queued \<or> waiter s = In_Event_Wait then 1 else (0::nat))"
    using inv unfolding tq_inv_def waits_ok_def wait_pending_def one_if_def by blast
  moreover have "finished s = queued s \<and> tq_tasks (queue s) = []" if "destroyer s = Joined"
  proof -
    have "worker s = Ended" "tq_tasks (queue s) = []" using inv that by (auto simp: tq_inv_def stops_ok_def)
    then show ?thesis using inv by (simp add: tq_inv_def history_ok_def)
  qed
  ultimately show ?thesis by blast
qed

lemma task_queue_in_order_witness:
  "\<exists>s. tq_play end_schedule os_task_queue_create = Some s \<and> destroyer s = Joined \<and> finished s = [1, 2, 3] \<and>
     finished s = queued s \<and> tq_tasks (queue s) = []"
proof -
  have "map_option (\<lambda>s. (destroyer s, finished s)) (tq_play end_schedule os_task_queue_create) = Some (Joined, [1, 2, 3])"
    by code_simp
  then obtain s where s: "tq_play end_schedule os_task_queue_create = Some s" "destroyer s = Joined" "finished s = [1, 2, 3]"
    by auto
  from task_queue_in_order [OF tq_play_reachable [OF s(1) tq_reachable.start]] s show ?thesis by auto
qed

text \<open>
  C17: When \<^verbatim>\<open>os_task_queue_wait\<close> has been woken, every task that was queued before the
  call has run to its end, also when more tasks were queued behind it meanwhile.  Its answer is right: it says
  that no task was processed only if all of those had already been started when it was called, and it says that
  tasks were processed only if one was started since.
\<close>

theorem task_queue_wait_done:
  assumes "tq_reachable s" and "waiter s = Woken"
  shows "take (queued_before s) (queued s) = take (queued_before s) (finished s) \<and>
    queued_before s \<le> length (finished s) \<and>
    (if tq_processed (queue s) then started_before s < length (started s) else queued_before s \<le> started_before s)"
proof -
  have inv: "tq_inv s" by (rule tq_reachable_inv [OF assms(1)])
  have "\<not> wait_pending s" using assms(2) by (simp add: wait_pending_def)
  moreover have w: "waits_ok s" using inv by (simp add: tq_inv_def)
  ultimately have "Wait_For_Thread \<notin> set (tq_tasks (queue s))" by (intro no_wait)
  then have "\<not> tq_waiting (queue s)" using w by (simp add: waits_ok_def)
  moreover have "result_ok s" using inv by (simp add: tq_inv_def)
  ultimately have r: "queued_before s \<le> length (finished s)"
    "if tq_processed (queue s) then started_before s < length (started s) else queued_before s \<le> started_before s"
    using assms(2) by (simp_all add: result_ok_def)
  obtain rest where "queued s = finished s @ rest" using task_queue_order [OF inv] by blast
  then show ?thesis using r by simp
qed

lemma task_queue_wait_done_witness:
  "\<exists>s. tq_play wait_schedule os_task_queue_create = Some s \<and> waiter s = Woken \<and> queued_before s = 1 \<and>
     queued_before s \<le> length (finished s) \<and> tq_processed (queue s) \<and> started_before s < length (started s)"
proof -
  have "map_option (\<lambda>s. (waiter s, queued_before s, tq_processed (queue s)))
      (tq_play wait_schedule os_task_queue_create) = Some (Woken, 1, True)"
    by code_simp
  then obtain s where s: "tq_play wait_schedule os_task_queue_create = Some s" "waiter s = Woken" "queued_before s = 1"
      "tq_processed (queue s)"
    by auto
  from task_queue_wait_done [OF tq_play_reachable [OF s(1) tq_reachable.start] s(2)] s show ?thesis by auto
qed

subsection \<open>Progress\<close>

fun phase :: "worker \<Rightarrow> nat" where
  "phase At_Test = 3"
| "phase In_Sem_Wait = 2"
| "phase Has_Ticket = 1"
| "phase (Running ti) = 4"
| "phase Ended = 0"

definition work_left :: "tq_state \<Rightarrow> nat" where
  "work_left s = 4 * length (tq_tasks (queue s)) + phase (worker s)"

text \<open>The worker can go on as long as there is something in the queue or under way.\<close>

lemma worker_can_step:
  assumes inv: "tq_inv s" and posts: "posts_due s = 0" "waiter s \<noteq> Wait_Queued" "destroyer s \<noteq> Stop_Queued"
    and busy: "tq_tasks (queue s) \<noteq> [] \<or> (\<exists>ti. worker s = Running ti) \<or> exit_thread s \<and> worker s \<noteq> Ended"
  shows "\<exists>s'. worker_step s s' \<and> work_left s' < work_left s \<and> waiter s' = waiter s \<and> destroyer s' = destroyer s \<and>
    posts_due s' = posts_due s"
proof (cases "worker s")
  case At_Test
  show ?thesis
  proof (cases "exit_thread s")
    case True
    then show ?thesis using test_end [OF At_Test True] At_Test by (fastforce simp: work_left_def)
  next
    case False
    then show ?thesis using test_go [OF At_Test False] At_Test by (fastforce simp: work_left_def)
  qed
next
  case In_Sem_Wait
  have "\<not> exit_thread s" using inv In_Sem_Wait by (auto simp: tq_inv_def stops_ok_def)
  then have "tq_tasks (queue s) \<noteq> []" using busy In_Sem_Wait by simp
  moreover have "length (tq_tasks (queue s)) = tq_sem (queue s)"
    using inv posts In_Sem_Wait by (simp add: tq_inv_def tickets_ok_def)
  ultimately have "0 < tq_sem (queue s)" by (metis length_greater_0_conv)
  from sem_wait [OF In_Sem_Wait this] In_Sem_Wait show ?thesis by (fastforce simp: work_left_def)
next
  case Has_Ticket
  have "tasks_ok (tq_tasks (queue s))" using inv by (simp add: tq_inv_def)
  then obtain ti ts where spec: "take_task (queue s) = Some (ti,
      if tq_waiting (queue s)
      then (if ti = Wait_For_Thread then (queue s)\<lparr>tq_waiting := False, tq_tasks := ts\<rparr>
            else (queue s)\<lparr>tq_processed := True, tq_tasks := ts\<rparr>)
      else (queue s)\<lparr>tq_tasks := ts\<rparr>)" (is "_ = Some (ti, ?tq)")
    and len: "length (tq_tasks (queue s)) = Suc (length ts)"
    by (rule take_task_spec [OF _ has_ticket_tasks [OF inv Has_Ticket]]) (rule that)
  let ?s = "s\<lparr>worker := Running ti, queue := ?tq, started := started s @ work_of ti\<rparr>"
  have "work_left ?s < work_left s" using len Has_Ticket by (simp add: work_left_def)
  then show ?thesis using take [OF Has_Ticket spec] by (intro exI [of _ ?s]) simp
next
  case (Running ti)
  have "work_left ((run_task ti s)\<lparr>worker := At_Test\<rparr>) < work_left s" using Running by (cases ti) (simp_all add: work_left_def)
  then show ?thesis using run [OF Running] by (cases ti) (intro exI [of _ "(run_task ti s)\<lparr>worker := At_Test\<rparr>"], simp)+
next
  case Ended
  then show ?thesis using inv busy by (auto simp: tq_inv_def stops_ok_def)
qed

text \<open>
  The worker, together with the callers of \<^verbatim>\<open>os_task_queue_queue_task\<close> that have pushed their task
  and not yet posted the semaphore.
\<close>

inductive own_step :: "tq_state \<Rightarrow> tq_state \<Rightarrow> bool" where
  work: "worker_step s s' \<Longrightarrow> own_step s s'"
| post: "0 < posts_due s \<Longrightarrow> own_step s ((sem_post s)\<lparr>posts_due := posts_due s - 1\<rparr>)"

inductive_cases own_stepE: "own_step s s'"

lemma own_step_reachable:
  assumes "own_step s s'" and "tq_reachable s"
  shows "tq_reachable s'"
  using assms(1)
proof cases
  case work
  then show ?thesis by (rule by_worker [OF assms(2)])
next
  case post
  have "client_step s s'" unfolding post(1) by (rule queue_post [OF post(2)])
  then show ?thesis by (rule by_client [OF assms(2)])
qed

lemma pop_front_length: "pop_front tq = Some (ti, tq') \<Longrightarrow> length (tq_tasks tq) = Suc (length (tq_tasks tq'))"
  by (auto simp: pop_front_def split: list.splits)

lemma give_way_length: "give_way k (t, tq) = Some (ti, tq') \<Longrightarrow> length (tq_tasks tq) = length (tq_tasks tq')"
  by (auto simp: give_way_def queue_task_def split: if_splits dest: pop_front_length)

lemma take_task_length: "take_task tq = Some (ti, tq') \<Longrightarrow> length (tq_tasks tq) = Suc (length (tq_tasks tq'))"
  by (auto simp: take_task_def bind_eq_Some_conv split: if_splits dest!: pop_front_length give_way_length)

lemma own_step_decreases:
  assumes "own_step s s'"
  shows "work_left s' + posts_due s' < work_left s + posts_due s" "waiter s' = waiter s" "destroyer s' = destroyer s"
proof -
  have run: "tq_tasks (queue (run_task ti s)) = tq_tasks (queue s)" "posts_due (run_task ti s) = posts_due s"
    "waiter (run_task ti s) = waiter s" "destroyer (run_task ti s) = destroyer s" for ti
    by (cases ti; simp)+
  show "work_left s' + posts_due s' < work_left s + posts_due s" "waiter s' = waiter s" "destroyer s' = destroyer s"
    using assms by (auto elim!: own_stepE worker_stepE simp: work_left_def sem_post_def run dest: take_task_length)
qed

text \<open>Where the caller of \<^verbatim>\<open>os_task_queue_wait\<close> or of \<^verbatim>\<open>os_task_queue_destroy\<close> gets to.\<close>

definition may_go_on :: "tq_state \<Rightarrow> bool" where
  "may_go_on s \<longleftrightarrow> (if waiter s = In_Event_Wait then tq_event (queue s) else worker s = Ended)"

lemma own_step_enabled:
  assumes "tq_reachable s" and blocked: "waiter s = In_Event_Wait \<or> waiter s = Not_Waiting \<and> destroyer s = In_Join"
    and False: "\<not> may_go_on s"
  shows "\<exists>s'. own_step s s'"
proof (cases "posts_due s = 0")
  case False
  then show ?thesis using own_step.post [of s] by blast
next
  case posts: True
  have inv: "tq_inv s" by (rule tq_reachable_inv [OF assms(1)])
  have busy: "tq_tasks (queue s) \<noteq> [] \<or> (\<exists>ti. worker s = Running ti) \<or> exit_thread s \<and> worker s \<noteq> Ended"
  proof (cases "waiter s = In_Event_Wait")
    case True
    then have "count_list (tq_tasks (queue s)) Wait_For_Thread + one_if (worker s = Running Wait_For_Thread) = 1"
      using inv False by (simp add: may_go_on_def) (simp add: tq_inv_def waits_ok_def wait_pending_def)
    then show ?thesis by (cases "tq_tasks (queue s)") (auto simp: one_if_def split: if_splits)
  next
    case w: False
    then have "count_list (tq_tasks (queue s)) Stop_Thread + one_if (worker s = Running Stop_Thread) +
        one_if (exit_thread s) = 1"
      using inv blocked by (simp add: tq_inv_def stops_ok_def)
    then show ?thesis using False w by (cases "tq_tasks (queue s)") (auto simp: may_go_on_def one_if_def split: if_splits)
  qed
  have "waiter s \<noteq> Wait_Queued" "destroyer s \<noteq> Stop_Queued"
    using blocked inv by (auto simp: tq_inv_def stops_ok_def)
  from worker_can_step [OF inv posts this busy] show ?thesis using work by blast
qed

text \<open>
  C18: Nobody waits for ever: once the caller of \<^verbatim>\<open>os_task_queue_wait\<close> is in
  \<^verbatim>\<open>os_event_wait\<close>, or the caller of \<^verbatim>\<open>os_task_queue_destroy\<close> in
  \<^verbatim>\<open>pthread_join\<close>, the worker and the callers of \<^verbatim>\<open>os_task_queue_queue_task\<close> that
  have still to post the semaphore get it on by themselves: in whatever order they run, they make at most four
  steps for each task in the queue, four more and one for each post that is due, and as long as the event has
  not been signalled, or the worker not ended, one of them can go on.  Tasks that are queued meanwhile start the
  count again.
\<close>

theorem task_queue_progress:
  assumes "tq_reachable s" and "waiter s = In_Event_Wait \<or> waiter s = Not_Waiting \<and> destroyer s = In_Join"
    and "(own_step ^^ n) s s'"
  shows "n \<le> 4 * length (tq_tasks (queue s)) + 4 + posts_due s \<and>
    ((if waiter s = In_Event_Wait then tq_event (queue s') else worker s' = Ended) \<or> (\<exists>s''. own_step s' s''))"
proof -
  have "tq_reachable s' \<and> waiter s' = waiter s \<and> destroyer s' = destroyer s \<and>
      n + work_left s' + posts_due s' \<le> work_left s + posts_due s"
    using assms(3)
  proof (induction n arbitrary: s')
    case 0
    then show ?case using assms(1) by simp
  next
    case (Suc n)
    then obtain t where t: "(own_step ^^ n) s t" "own_step t s'" by auto
    then show ?case using Suc.IH [OF t(1)] own_step_reachable [OF t(2)] own_step_decreases [OF t(2)] by auto
  qed
  moreover have "work_left s \<le> 4 * length (tq_tasks (queue s)) + 4" by (cases "worker s") (simp_all add: work_left_def)
  moreover note own_step_enabled [of s', unfolded may_go_on_def]
  ultimately show ?thesis using assms(2) by (metis (no_types, lifting) add.assoc add_le_mono1 le_add1 le_trans)
qed

text \<open>A wait behind a task whose post is still due, with the worker at the semaphore.\<close>

definition late_post_schedule :: "tq_act list" where
  "late_post_schedule = [Push 1, Wait_Push, Wait_Post] @ replicate 5 By_Worker"

lemma task_queue_progress_witness:
  "\<exists>s. tq_play late_post_schedule os_task_queue_create = Some s \<and> waiter s = In_Event_Wait \<and> posts_due s = 1 \<and>
     worker s = In_Sem_Wait \<and> (\<exists>s''. own_step s s'')"
proof -
  have "map_option (\<lambda>s. (waiter s, posts_due s, worker s, tq_event (queue s))) (tq_play late_post_schedule os_task_queue_create) =
      Some (In_Event_Wait, 1, In_Sem_Wait, False)"
    by code_simp
  then obtain s where s: "tq_play late_post_schedule os_task_queue_create = Some s"
      "waiter s = In_Event_Wait" "posts_due s = 1" "worker s = In_Sem_Wait" "\<not> tq_event (queue s)"
    by auto
  from task_queue_progress [OF tq_play_reachable [OF s(1) tq_reachable.start] _, of 0 s] s show ?thesis by auto
qed

end
