(* ===== verification/Encoder_Audio.thy ===== *)
theory Encoder_Audio
  imports Pause Deque
begin

text \<open>
  The audio input of an encoder, from \<^verbatim>\<open>obs-encoder.c\<close>: the chunks of the mixer are
  buffered until the video encoder it is paired with has started, cut at the start of the video, and passed to
  the codec in frames of the size it wants.

  The buffers are the deques of \<open>Deque\<close>, one for each plane, and \<open>start_from_buffer\<close>
  reads the block of a deque past its interface, as the code does.  What the codec is given is recorded; whether
  it accepts the n-th frame is a parameter.  The start of the paired video encoder is read at each call and is
  an argument, \<open>None\<close> when there is no such encoder.
\<close>

subsection \<open>The encoder\<close>

record encoder_frame =
  af_pts :: int
  af_data :: "8 word list list"

record audio_encoder =
  ae_planes :: nat
  ae_samplerate :: "32 word"
  ae_blocksize :: nat
  ae_framesize :: nat
  ae_framesize_bytes :: nat
  ae_input :: "8 word deque list"
  ae_pause :: pause_data
  ae_first_received :: bool
  ae_first_raw_ts :: "64 word"
  ae_start_ts :: "64 word"
  ae_cur_pts :: int
  ae_sent :: "encoder_frame list"

definition free_audio_buffers :: "audio_encoder \<Rightarrow> audio_encoder" where
  "free_audio_buffers e = e\<lparr>ae_input := map deque_free (ae_input e)\<rparr>"

definition intitialize_audio_encoder :: "nat \<Rightarrow> 32 word \<Rightarrow> nat \<Rightarrow> nat \<Rightarrow> audio_encoder \<Rightarrow> audio_encoder" where
  "intitialize_audio_encoder planes rate blocksize framesize e =
     free_audio_buffers (e\<lparr>ae_planes := planes, ae_samplerate := rate, ae_blocksize := blocksize,
       ae_framesize := framesize, ae_framesize_bytes := blocksize * framesize\<rparr>)"

text \<open>An operation on each of the first \<open>n\<close> planes, in their order.\<close>

definition each_plane :: "nat \<Rightarrow> (nat \<Rightarrow> 'a \<Rightarrow> 'a option) \<Rightarrow> 'a list \<Rightarrow> 'a list option" where
  "each_plane n f xs = opt_fold (\<lambda>xs i. do { q \<leftarrow> f i (xs ! i); Some (xs[i := q]) }) xs [0..<n]"

definition clear_audio :: "audio_encoder \<Rightarrow> audio_encoder" where
  "clear_audio e = e\<lparr>ae_input := map deque_free (take (ae_planes e) (ae_input e)) @ drop (ae_planes e) (ae_input e)\<rparr>"

text \<open>The data of a plane is a block of cells, for it may be the block of a deque.\<close>

definition push_back_audio ::
    "audio_encoder \<Rightarrow> 8 word option list list \<Rightarrow> nat \<Rightarrow> nat \<Rightarrow> audio_encoder option" where
  "push_back_audio e data nbytes offset_size =
     (if offset_size \<ge> nbytes then Some e
      else do { input \<leftarrow> each_plane (ae_planes e) (\<lambda>i dq.
                  if i < length data
                  then do { cs \<leftarrow> mem_read (data ! i) offset_size (nbytes - offset_size); xs \<leftarrow> those cs; deque_push_back dq xs }
                  else None) (ae_input e);
                Some (e\<lparr>ae_input := input\<rparr>) })"

definition calc_offset_size :: "audio_encoder \<Rightarrow> 64 word \<Rightarrow> 64 word \<Rightarrow> nat option" where
  "calc_offset_size e v_start_ts a_start_ts =
     do { offset \<leftarrow> util_mul_div64 (v_start_ts - a_start_ts) (ucast (ae_samplerate e)) 1000000000;
          Some (unat (offset * of_nat (ae_blocksize e))) }"

definition start_from_buffer :: "audio_encoder \<Rightarrow> 64 word \<Rightarrow> audio_encoder option" where
  "start_from_buffer e v_start_ts =
     (let nbytes = dq_size (ae_input e ! 0);
          audio = map dq_data (ae_input e);
          e = e\<lparr>ae_input := replicate MAX_AV_PLANES deque_init\<rparr>
      in do { offset_size \<leftarrow>
                (if ae_first_raw_ts e < v_start_ts then calc_offset_size e v_start_ts (ae_first_raw_ts e) else Some 0);
              push_back_audio e audio nbytes offset_size })"

definition buffer_audio :: "64 word option \<Rightarrow> audio_data \<Rightarrow> audio_encoder \<Rightarrow> (bool \<times> audio_encoder) option" where
  "buffer_audio paired data e =
     (let nbytes = unat (ad_frames data) * ae_blocksize e in
      do { (success, offset_size, e) \<leftarrow>
             (if ae_start_ts e = 0
              then (case paired of
                  Some v_start_ts \<Rightarrow>
                    if v_start_ts = 0 then Some (False, 0, e)
                    else do { ns \<leftarrow> util_mul_div64 (ucast (ad_frames data)) 1000000000 (ucast (ae_samplerate e));
                      let end_ts = ad_timestamp data + ns;
                      if end_ts \<le> v_start_ts then Some (False, 0, e)
                      else do { offset_size \<leftarrow> (if ad_timestamp data < v_start_ts
                                  then calc_offset_size e v_start_ts (ad_timestamp data) else Some 0);
                                let e = (if ad_timestamp data \<le> v_start_ts then clear_audio e else e);
                                let e = e\<lparr>ae_start_ts := v_start_ts\<rparr>;
                                e \<leftarrow> (if v_start_ts < ad_timestamp data then start_from_buffer e v_start_ts else Some e);
                                Some (True, offset_size, e) } }
                | None \<Rightarrow> Some (True, 0, e\<lparr>ae_start_ts := ad_timestamp data\<rparr>))
              else Some (True, 0, e));
           e \<leftarrow> push_back_audio e (map (map Some) (ad_data data)) nbytes offset_size;
           Some (success, e) })"

definition pop_planes :: "nat \<Rightarrow> nat \<Rightarrow> 8 word deque list \<Rightarrow> (8 word list list \<times> 8 word deque list) option" where
  "pop_planes n nbytes input =
     opt_fold (\<lambda>(out, input) i.
       do { (cs, q) \<leftarrow> deque_pop_front (input ! i) nbytes; xs \<leftarrow> those cs; Some (out @ [xs], input[i := q]) })
       ([], input) [0..<n]"

definition send_audio_data :: "(nat \<Rightarrow> bool) \<Rightarrow> audio_encoder \<Rightarrow> (bool \<times> audio_encoder) option" where
  "send_audio_data do_encode e =
     do { (out, input) \<leftarrow> pop_planes (ae_planes e) (ae_framesize_bytes e) (ae_input e);
          let e' = e\<lparr>ae_input := input, ae_sent := ae_sent e @ [\<lparr>af_pts = ae_cur_pts e, af_data = out\<rparr>]\<rparr>;
          if do_encode (length (ae_sent e)) then Some (True, e'\<lparr>ae_cur_pts := ae_cur_pts e + int (ae_framesize e)\<rparr>)
          else Some (False, e') }"

text \<open>The loop of \<^verbatim>\<open>receive_audio\<close>; it never ends for a codec with frames of no bytes.\<close>

fun send_loop :: "nat \<Rightarrow> (nat \<Rightarrow> bool) \<Rightarrow> audio_encoder \<Rightarrow> audio_encoder option" where
  "send_loop 0 do_encode e = None"
| "send_loop (Suc fuel) do_encode e =
     (if dq_size (ae_input e ! 0) \<ge> ae_framesize_bytes e
      then do { (ok, e) \<leftarrow> send_audio_data do_encode e; if ok then send_loop fuel do_encode e else Some e }
      else Some e)"

definition receive_audio ::
    "(nat \<Rightarrow> bool) \<Rightarrow> 64 word option \<Rightarrow> audio_data \<Rightarrow> audio_encoder \<Rightarrow> audio_encoder option" where
  "receive_audio do_encode paired d e =
     (let e = (if ae_first_received e then e
               else clear_audio (e\<lparr>ae_first_raw_ts := ad_timestamp d, ae_first_received := True\<rparr>))
      in do { (ignore_audio, audio, p) \<leftarrow> audio_pause_check (ucast (ae_samplerate e)) d (ae_pause e);
         let e = e\<lparr>ae_pause := p\<rparr>;
         if ignore_audio then Some e
         else do { (success, e) \<leftarrow> buffer_audio paired audio e;
                   if \<not> success then Some e
                   else send_loop (Suc (dq_size (ae_input e ! 0))) do_encode e } })"

fun receive_all ::
    "(nat \<Rightarrow> bool) \<Rightarrow> (64 word option \<times> audio_data) list \<Rightarrow> audio_encoder \<Rightarrow> audio_encoder option" where
  "receive_all do_encode [] e = Some e"
| "receive_all do_encode ((paired, d) # cs) e = do { e \<leftarrow> receive_audio do_encode paired d e; receive_all do_encode cs e }"

text \<open>An encoder that has been created and initialised.\<close>

definition new_audio_encoder :: "nat \<Rightarrow> 32 word \<Rightarrow> nat \<Rightarrow> nat \<Rightarrow> audio_encoder" where
  "new_audio_encoder planes rate blocksize framesize =
     intitialize_audio_encoder planes rate blocksize framesize
       \<lparr>ae_planes = 0, ae_samplerate = 0, ae_blocksize = 0, ae_framesize = 0, ae_framesize_bytes = 0,
        ae_input = replicate MAX_AV_PLANES deque_init,
        ae_pause = \<lparr>last_video_ts = 0, ts_start = 0, ts_end = 0, ts_offset = 0\<rparr>,
        ae_first_received = False, ae_first_raw_ts = 0, ae_start_ts = 0, ae_cur_pts = 0, ae_sent = []\<rparr>"

subsection \<open>The planes\<close>

lemma each_plane_Suc: "each_plane (Suc n) f xs = do { ys \<leftarrow> each_plane n f xs; q \<leftarrow> f n (ys ! n); Some (ys[n := q]) }"
  by (simp add: each_plane_def opt_fold_append)

lemma each_plane_ok:
  assumes "\<And>i. i < n \<Longrightarrow> \<exists>q. f i (xs ! i) = Some q \<and> P i q" and "n \<le> length xs"
  shows "\<exists>ys. each_plane n f xs = Some ys \<and> length ys = length xs \<and> (\<forall>i<n. P i (ys ! i)) \<and> (\<forall>i\<ge>n. ys ! i = xs ! i)"
  using assms
proof (induction n)
  case 0
  then show ?case by (simp add: each_plane_def)
next
  case (Suc n)
  then obtain ys where ys: "each_plane n f xs = Some ys" "length ys = length xs" "\<forall>i<n. P i (ys ! i)" "\<forall>i\<ge>n. ys ! i = xs ! i"
    by auto
  obtain q where q: "f n (xs ! n) = Some q" "P n q" using Suc.prems(1) by blast
  have "ys ! n = xs ! n" using ys(4) by simp
  then have "each_plane (Suc n) f xs = Some (ys[n := q])" using ys(1) q(1) by (simp add: each_plane_Suc)
  then show ?case using ys q(2) Suc.prems(2) by (auto simp: nth_list_update less_Suc_eq)
qed

lemma those_map_Some [simp]: "those (map Some xs) = Some xs"
  by (induction xs) simp_all

lemma pop_planes_ok:
  assumes "\<And>i. i < n \<Longrightarrow> dq_rep (input ! i) (bufs ! i) \<and> nbytes \<le> length (bufs ! i)" and "n \<le> length input"
  shows "\<exists>input'. pop_planes n nbytes input = Some (map (\<lambda>i. take nbytes (bufs ! i)) [0..<n], input') \<and>
    length input' = length input \<and> (\<forall>i<n. dq_rep (input' ! i) (drop nbytes (bufs ! i))) \<and> (\<forall>i\<ge>n. input' ! i = input ! i)"
  using assms
proof (induction n)
  case 0
  then show ?case by (simp add: pop_planes_def)
next
  case (Suc n)
  then obtain input' where p: "pop_planes n nbytes input = Some (map (\<lambda>i. take nbytes (bufs ! i)) [0..<n], input')"
      "length input' = length input" "\<forall>i<n. dq_rep (input' ! i) (drop nbytes (bufs ! i))" "\<forall>i\<ge>n. input' ! i = input ! i"
    by auto
  obtain q where q: "deque_pop_front (input ! n) nbytes = Some (map Some (take nbytes (bufs ! n)), q)" "dq_rep q (drop nbytes (bufs ! n))"
    using deque_pop_front_rep Suc.prems(1) by blast
  have "input' ! n = input ! n" using p(4) by simp
  then have "pop_planes (Suc n) nbytes input = Some (map (\<lambda>i. take nbytes (bufs ! i)) [0..<Suc n], input'[n := q])"
    using p(1) q(1) by (simp add: pop_planes_def opt_fold_append)
  then show ?case using p q(2) Suc.prems(2) by (auto simp: nth_list_update less_Suc_eq)
qed


definition planes_rep :: "audio_encoder \<Rightarrow> (nat \<Rightarrow> 8 word list) \<Rightarrow> bool" where
  "planes_rep e B \<longleftrightarrow> length (ae_input e) = MAX_AV_PLANES \<and> 0 < ae_planes e \<and> ae_planes e \<le> MAX_AV_PLANES \<and>
     (\<forall>i<ae_planes e. dq_rep (ae_input e ! i) (B i))"

definition contiguous :: "audio_encoder \<Rightarrow> bool" where
  "contiguous e \<longleftrightarrow> (\<forall>i<ae_planes e. start_pos (ae_input e ! i) = 0)"

text \<open>A deque that nothing was taken from holds its bytes from the start of its block.\<close>

lemma dq_rep_block:
  assumes "dq_rep q ys" and "start_pos q = 0"
  shows "length ys \<le> length (dq_data q)" and "take (length ys) (dq_data q) = map Some ys"
proof -
  have n: "dq_size q = length ys" by (rule dq_rep_size [OF assms(1)])
  show len: "length ys \<le> length (dq_data q)" using assms(1) n by (simp add: dq_rep_def dq_ok_def dq_geom_def)
  have cells: "dq_cells q (length ys) = map Some ys" using assms(1) n by (simp add: dq_rep_def)
  have cap: "length ys \<le> dq_capacity q" using assms(1) n by (simp add: dq_rep_def dq_ok_def dq_geom_def)
  show "take (length ys) (dq_data q) = map Some ys"
  proof (rule nth_equalityI)
    fix i assume "i < length (take (length ys) (dq_data q))"
    then have i: "i < length ys" by simp
    then have "dq_cells q (length ys) ! i = dq_data q ! i"
      using assms(2) cap by (simp add: dq_cells_nth cell_pos_def)
    then show "take (length ys) (dq_data q) ! i = map Some ys ! i" using i cells by simp
  qed (use len in simp)
qed

lemma push_back_start: "deque_push_back q xs = Some r \<Longrightarrow> start_pos q = 0 \<Longrightarrow> start_pos r = 0"
  by (auto simp: deque_push_back_def deque_ensure_capacity_def deque_grow_def deque_reorder_data_def deque_put_back_def
      Let_def bind_eq_Some_conv split: if_splits)

lemma push_back_audio_ok:
  assumes rep: "planes_rep e B"
    and data: "\<And>i. i < ae_planes e \<Longrightarrow> i < length data \<and> n \<le> length (data ! i) \<and> take n (data ! i) = map Some (C i)"
  shows "\<exists>input. push_back_audio e data n off = Some (e\<lparr>ae_input := input\<rparr>) \<and>
    planes_rep (e\<lparr>ae_input := input\<rparr>) (\<lambda>i. B i @ drop off (C i)) \<and>
    (contiguous e \<longrightarrow> contiguous (e\<lparr>ae_input := input\<rparr>))"
proof -
  have len: "length (C i) = n" if "i < ae_planes e" for i
    using data [OF that] by (metis length_map length_take min.absorb2)
  show ?thesis
  proof (cases "off \<ge> n")
    case True
    then have "planes_rep e (\<lambda>i. B i @ drop off (C i))" using rep len by (simp add: planes_rep_def)
    then show ?thesis using True by (intro exI [of _ "ae_input e"]) (simp add: push_back_audio_def)
  next
    case False
    let ?f = "\<lambda>i dq. if i < length data
      then do { cs \<leftarrow> mem_read (data ! i) off (n - off); xs \<leftarrow> those cs; deque_push_back dq xs } else None"
    let ?P = "\<lambda>i q. dq_rep q (B i @ drop off (C i)) \<and> (start_pos (ae_input e ! i) = 0 \<longrightarrow> start_pos q = 0)"
    have step: "\<exists>q. ?f i (ae_input e ! i) = Some q \<and> ?P i q" if i: "i < ae_planes e" for i
    proof -
      have "take (n - off) (drop off (data ! i)) = drop off (take n (data ! i))" by (simp add: drop_take)
      then have "mem_read (data ! i) off (n - off) = Some (map Some (drop off (C i)))"
        using data [OF i] False by (simp add: mem_read_def drop_map)
      moreover obtain q where "deque_push_back (ae_input e ! i) (drop off (C i)) = Some q" "dq_rep q (B i @ drop off (C i))"
        using deque_push_back_rep rep i by (fastforce simp: planes_rep_def)
      ultimately show ?thesis using data [OF i] push_back_start by auto
    qed
    have "ae_planes e \<le> length (ae_input e)" using rep by (simp add: planes_rep_def)
    then have "\<exists>ys. each_plane (ae_planes e) ?f (ae_input e) = Some ys \<and> length ys = length (ae_input e) \<and>
        (\<forall>i<ae_planes e. ?P i (ys ! i)) \<and> (\<forall>i\<ge>ae_planes e. ys ! i = ae_input e ! i)"
      by (intro each_plane_ok step)
    then obtain ys where
      "each_plane (ae_planes e) ?f (ae_input e) = Some ys" "length ys = length (ae_input e)" "\<forall>i<ae_planes e. ?P i (ys ! i)"
      by blast
    then show ?thesis using False rep by (intro exI [of _ ys]) (auto simp: push_back_audio_def planes_rep_def contiguous_def)
  qed
qed

lemma clear_audio_ok:
  assumes "planes_rep e B"
  shows "planes_rep (clear_audio e) (\<lambda>_. [])" and "contiguous (clear_audio e)"
  using assms
  by (auto simp: clear_audio_def planes_rep_def contiguous_def nth_append deque_free_rep) (simp add: deque_free_def)

text \<open>The value of a scaling whose divisor is not zero, and the bytes before the start of the video.\<close>

definition mul_div :: "64 word \<Rightarrow> 64 word \<Rightarrow> 64 word \<Rightarrow> 64 word" where
  "mul_div num mul dv = (num div dv) * mul + (num mod dv * mul) div dv"

lemma util_mul_div64_value: "dv \<noteq> 0 \<Longrightarrow> util_mul_div64 num mul dv = Some (mul_div num mul dv)"
  by (simp add: util_mul_div64_def mul_div_def Let_def)

definition cut_bytes :: "32 word \<Rightarrow> nat \<Rightarrow> 64 word \<Rightarrow> 64 word \<Rightarrow> nat" where
  "cut_bytes rate blocksize v a =
     (if a < v then unat (mul_div (v - a) (ucast rate) 1000000000 * of_nat blocksize) else 0)"

lemma calc_offset_cut:
  "(if a < v then calc_offset_size e v a else Some 0) = Some (cut_bytes (ae_samplerate e) (ae_blocksize e) v a)"
  by (simp add: calc_offset_size_def cut_bytes_def util_mul_div64_value)

lemma calc_offset_cut_less:
  "a < v \<Longrightarrow> calc_offset_size e v a = Some (cut_bytes (ae_samplerate e) (ae_blocksize e) v a)"
  using calc_offset_cut [of a v e] by simp

text \<open>\<open>start_from_buffer\<close> keeps what was buffered, less what lies before the start of the video.\<close>

lemma start_from_buffer_ok:
  assumes rep: "planes_rep e B" and c: "contiguous e" and len: "\<forall>i<ae_planes e. length (B i) = length (B 0)"
  shows "\<exists>input. start_from_buffer e v = Some (e\<lparr>ae_input := input\<rparr>) \<and>
    planes_rep (e\<lparr>ae_input := input\<rparr>)
      (\<lambda>i. drop (cut_bytes (ae_samplerate e) (ae_blocksize e) v (ae_first_raw_ts e)) (B i)) \<and>
    contiguous (e\<lparr>ae_input := input\<rparr>)"
proof -
  let ?e = "e\<lparr>ae_input := replicate MAX_AV_PLANES deque_init\<rparr>"
  define off where "off = cut_bytes (ae_samplerate e) (ae_blocksize e) v (ae_first_raw_ts e)"
  have rep': "planes_rep ?e (\<lambda>_. [])" and c': "contiguous ?e"
    using rep by (auto simp: planes_rep_def contiguous_def deque_init_rep) (simp add: deque_init_def)
  have size: "dq_size (ae_input e ! 0) = length (B 0)" using rep by (simp add: planes_rep_def dq_rep_size)
  have "i < length (map dq_data (ae_input e)) \<and> length (B 0) \<le> length (map dq_data (ae_input e) ! i) \<and>
      take (length (B 0)) (map dq_data (ae_input e) ! i) = map Some (B i)" if i: "i < ae_planes ?e" for i
  proof -
    have "dq_rep (ae_input e ! i) (B i)" "start_pos (ae_input e ! i) = 0" "i < length (ae_input e)"
      using rep c i by (simp_all add: planes_rep_def contiguous_def)
    moreover have "length (B i) = length (B 0)" by (rule len [rule_format]) (use i in simp)
    ultimately show ?thesis using dq_rep_block [of "ae_input e ! i" "B i"] by (simp only: nth_map length_map)
  qed
  from push_back_audio_ok [OF rep' this, where off = off, unfolded append_Nil] obtain input where
    i: "push_back_audio ?e (map dq_data (ae_input e)) (length (B 0)) off = Some (?e\<lparr>ae_input := input\<rparr>)"
    "planes_rep (?e\<lparr>ae_input := input\<rparr>) (\<lambda>i. drop off (B i))"
    "contiguous ?e \<longrightarrow> contiguous (?e\<lparr>ae_input := input\<rparr>)" by blast
  have upd: "?e\<lparr>ae_input := input\<rparr> = e\<lparr>ae_input := input\<rparr>" by simp
  note i = i [unfolded upd]
  moreover have "calc_offset_size ?e = calc_offset_size e" by (intro ext) (simp add: calc_offset_size_def)
  ultimately have "start_from_buffer e v = Some (e\<lparr>ae_input := input\<rparr>)"
    using i(1) calc_offset_cut [of "ae_first_raw_ts e" v e] unfolding off_def
    by (cases "ae_first_raw_ts e < v") (simp_all add: start_from_buffer_def Let_def size)
  then show ?thesis using i(2,3) c' unfolding off_def by blast
qed


subsection \<open>The specification\<close>

text \<open>
  What the encoder should encode: for each plane, the bytes of the stream from its start on.  Before the start
  it is what has been buffered.
\<close>

record audio_spec =
  as_first :: "64 word option"
  as_start :: "64 word"
  as_stream :: "8 word list list"

definition chunk_bytes :: "nat \<Rightarrow> nat \<Rightarrow> audio_data \<Rightarrow> 8 word list list" where
  "chunk_bytes planes blocksize d = map (take (unat (ad_frames d) * blocksize)) (take planes (ad_data d))"

definition chunk_end :: "32 word \<Rightarrow> audio_data \<Rightarrow> 64 word" where
  "chunk_end rate d = ad_timestamp d + mul_div (ucast (ad_frames d)) 1000000000 (ucast rate)"

definition join_planes :: "8 word list list \<Rightarrow> 8 word list list \<Rightarrow> 8 word list list" where
  "join_planes xs ys = map2 (@) xs ys"

definition spec_receive ::
    "nat \<Rightarrow> 32 word \<Rightarrow> nat \<Rightarrow> 64 word option \<Rightarrow> audio_data \<Rightarrow> audio_spec \<Rightarrow> audio_spec" where
  "spec_receive planes rate blocksize paired d s =
     (let c = chunk_bytes planes blocksize d;
          first = (case as_first s of None \<Rightarrow> ad_timestamp d | Some t \<Rightarrow> t);
          s = s\<lparr>as_first := Some first\<rparr>;
          more = s\<lparr>as_stream := join_planes (as_stream s) c\<rparr> in
      if as_start s \<noteq> 0 then more
      else case paired of None \<Rightarrow> more\<lparr>as_start := ad_timestamp d\<rparr>
        | Some v \<Rightarrow>
            if v = 0 \<or> chunk_end rate d \<le> v then more
            else if ad_timestamp d \<le> v
            then s\<lparr>as_start := v, as_stream := map (drop (cut_bytes rate blocksize v (ad_timestamp d))) c\<rparr>
            else s\<lparr>as_start := v,
                as_stream := join_planes (map (drop (cut_bytes rate blocksize v first)) (as_stream s)) c\<rparr>)"

definition spec_all ::
    "nat \<Rightarrow> 32 word \<Rightarrow> nat \<Rightarrow> (64 word option \<times> audio_data) list \<Rightarrow> audio_spec" where
  "spec_all planes rate blocksize cs =
     fold (\<lambda>(paired, d). spec_receive planes rate blocksize paired d) cs
       \<lparr>as_first = None, as_start = 0, as_stream = replicate planes []\<rparr>"

text \<open>A chunk as the mixer delivers it; without a paired encoder its time stamp is not zero.\<close>

definition chunk_ok :: "nat \<Rightarrow> nat \<Rightarrow> 64 word option \<times> audio_data \<Rightarrow> bool" where
  "chunk_ok planes blocksize c \<longleftrightarrow>
     (fst c = None \<longrightarrow> ad_timestamp (snd c) \<noteq> 0) \<and> planes \<le> length (ad_data (snd c)) \<and>
     list_all (\<lambda>p. unat (ad_frames (snd c)) * blocksize \<le> length p) (take planes (ad_data (snd c)))"

subsection \<open>The frames\<close>

definition sent_bytes :: "audio_encoder \<Rightarrow> nat \<Rightarrow> 8 word list" where
  "sent_bytes e i = concat (map (\<lambda>f. af_data f ! i) (ae_sent e))"

definition accepted :: "(nat \<Rightarrow> bool) \<Rightarrow> nat \<Rightarrow> nat" where
  "accepted do_encode k = length (filter do_encode [0..<k])"

lemma accepted_simps [simp]:
  "accepted do_encode 0 = 0" "accepted do_encode (Suc k) = accepted do_encode k + (if do_encode k then 1 else 0)"
  by (simp_all add: accepted_def)

definition refused_last :: "(nat \<Rightarrow> bool) \<Rightarrow> audio_encoder \<Rightarrow> bool" where
  "refused_last do_encode e \<longleftrightarrow> ae_sent e \<noteq> [] \<and> \<not> do_encode (length (ae_sent e) - 1)"

definition frames_ok :: "(nat \<Rightarrow> bool) \<Rightarrow> audio_encoder \<Rightarrow> bool" where
  "frames_ok do_encode e \<longleftrightarrow> ae_cur_pts e = int (accepted do_encode (length (ae_sent e)) * ae_framesize e) \<and>
     (\<forall>k<length (ae_sent e). af_pts (ae_sent e ! k) = int (accepted do_encode k * ae_framesize e) \<and>
        length (af_data (ae_sent e ! k)) = ae_planes e \<and>
        (\<forall>i<ae_planes e. length (af_data (ae_sent e ! k) ! i) = ae_framesize_bytes e))"

definition same_lengths :: "audio_encoder \<Rightarrow> (nat \<Rightarrow> 8 word list) \<Rightarrow> bool" where
  "same_lengths e B \<longleftrightarrow> (\<forall>i<ae_planes e. length (B i) = length (B 0))"

definition stream_rep :: "(nat \<Rightarrow> bool) \<Rightarrow> audio_encoder \<Rightarrow> (nat \<Rightarrow> 8 word list) \<Rightarrow> (nat \<Rightarrow> 8 word list) \<Rightarrow> bool" where
  "stream_rep do_encode e B S \<longleftrightarrow> planes_rep e B \<and> same_lengths e B \<and> frames_ok do_encode e \<and>
     (\<forall>i<ae_planes e. S i = sent_bytes e i @ B i)"

lemma send_audio_data_ok:
  fixes e :: audio_encoder and do_encode :: "nat \<Rightarrow> bool"
  defines "stamp \<equiv> ae_cur_pts e + (if do_encode (length (ae_sent e)) then int (ae_framesize e) else 0)"
  assumes rep: "stream_rep do_encode e B S" and n: "ae_framesize_bytes e \<le> length (B 0)"
  shows "\<exists>input frame. send_audio_data do_encode e =
      Some (do_encode (length (ae_sent e)), e\<lparr>ae_input := input, ae_sent := ae_sent e @ [frame], ae_cur_pts := stamp\<rparr>) \<and>
    stream_rep do_encode (e\<lparr>ae_input := input, ae_sent := ae_sent e @ [frame], ae_cur_pts := stamp\<rparr>)
      (\<lambda>i. drop (ae_framesize_bytes e) (B i)) S"
proof -
  let ?n = "ae_framesize_bytes e"
  have sl: "same_lengths e B" using rep by (simp add: stream_rep_def)
  have p: "dq_rep (ae_input e ! i) (B i)" "?n \<le> length (B i)" if "i < ae_planes e" for i
  proof -
    show "dq_rep (ae_input e ! i) (B i)" using rep that by (simp add: stream_rep_def planes_rep_def)
    have "length (B i) = length (B 0)" using sl that unfolding same_lengths_def by blast
    then show "?n \<le> length (B i)" using n by simp
  qed
  have le: "ae_planes e \<le> length (ae_input e)" using rep by (simp add: stream_rep_def planes_rep_def)
  let ?bufs = "map B [0..<ae_planes e]"
  have "\<exists>input'. pop_planes (ae_planes e) ?n (ae_input e) = Some (map (\<lambda>i. take ?n (?bufs ! i)) [0..<ae_planes e], input') \<and>
      length input' = length (ae_input e) \<and> (\<forall>i<ae_planes e. dq_rep (input' ! i) (drop ?n (?bufs ! i))) \<and>
      (\<forall>i\<ge>ae_planes e. input' ! i = ae_input e ! i)"
    by (rule pop_planes_ok [OF _ le]) (use p in simp)
  then obtain input where input:
    "pop_planes (ae_planes e) ?n (ae_input e) = Some (map (\<lambda>i. take ?n (?bufs ! i)) [0..<ae_planes e], input)"
    "length input = length (ae_input e)" "\<forall>i<ae_planes e. dq_rep (input ! i) (drop ?n (?bufs ! i))" by blast
  define frame where "frame = \<lparr>af_pts = ae_cur_pts e, af_data = map (\<lambda>i. take ?n (?bufs ! i)) [0..<ae_planes e]\<rparr>"
  have data: "af_data frame ! i = take ?n (B i)" if "i < ae_planes e" for i using that by (simp add: frame_def)
  let ?e = "e\<lparr>ae_input := input, ae_sent := ae_sent e @ [frame], ae_cur_pts := stamp\<rparr>"
  have 1: "send_audio_data do_encode e = Some (do_encode (length (ae_sent e)), ?e)"
    using input(1) by (cases e) (simp add: send_audio_data_def frame_def stamp_def)
  have 2: "planes_rep ?e (\<lambda>i. drop ?n (B i))"
    using rep input(2,3) by (simp add: stream_rep_def planes_rep_def)
  have 3: "same_lengths ?e (\<lambda>i. drop ?n (B i))"
    unfolding same_lengths_def
  proof (intro allI impI)
    fix i assume i: "i < ae_planes ?e"
    have "length (B i) = length (B 0)"
      by (rule sl [unfolded same_lengths_def, rule_format]) (use i in simp)
    then show "length (drop ?n (B i)) = length (drop ?n (B 0))" by simp
  qed
  have 4: "frames_ok do_encode ?e"
    unfolding frames_ok_def
  proof (intro conjI allI impI)
    have fo: "frames_ok do_encode e" using rep by (simp add: stream_rep_def)
    then have cur: "ae_cur_pts e = int (accepted do_encode (length (ae_sent e)) * ae_framesize e)" by (simp add: frames_ok_def)
    then show "ae_cur_pts ?e = int (accepted do_encode (length (ae_sent ?e)) * ae_framesize ?e)"
      by (simp add: stamp_def algebra_simps)
    have old: "af_pts (ae_sent e ! k) = int (accepted do_encode k * ae_framesize e)" "length (af_data (ae_sent e ! k)) = ae_planes e"
      "\<forall>i<ae_planes e. length (af_data (ae_sent e ! k) ! i) = ?n" if "k < length (ae_sent e)" for k
      using fo that by (simp_all add: frames_ok_def)
    fix k assume k: "k < length (ae_sent ?e)"
    show "af_pts (ae_sent ?e ! k) = int (accepted do_encode k * ae_framesize ?e)" "length (af_data (ae_sent ?e ! k)) = ae_planes ?e"
      using old(1,2) [of k] k cur by (auto simp: nth_append frame_def less_Suc_eq)
    fix i assume "i < ae_planes ?e"
    then show "length (af_data (ae_sent ?e ! k) ! i) = ae_framesize_bytes ?e"
      using old(3) [of k] k data [of i] p(2) [of i] by (auto simp: nth_append less_Suc_eq)
  qed
  have 5: "S i = sent_bytes ?e i @ drop ?n (B i)" if "i < ae_planes e" for i
  proof -
    have "S i = sent_bytes e i @ B i" using rep that by (simp add: stream_rep_def)
    then show ?thesis using data [OF that] by (simp add: sent_bytes_def)
  qed
  have "stream_rep do_encode ?e (\<lambda>i. drop ?n (B i)) S" using 2 3 4 5 by (simp add: stream_rep_def)
  with 1 show ?thesis by blast
qed

text \<open>The fields that sending leaves alone.\<close>

definition same_setup :: "audio_encoder \<Rightarrow> audio_encoder \<Rightarrow> bool" where
  "same_setup e e' \<longleftrightarrow> ae_planes e' = ae_planes e \<and> ae_samplerate e' = ae_samplerate e \<and>
     ae_blocksize e' = ae_blocksize e \<and> ae_framesize e' = ae_framesize e \<and>
     ae_framesize_bytes e' = ae_framesize_bytes e \<and> ae_pause e' = ae_pause e \<and>
     ae_first_received e' = ae_first_received e \<and> ae_first_raw_ts e' = ae_first_raw_ts e \<and>
     ae_start_ts e' = ae_start_ts e"

lemma same_setup_refl [simp]: "same_setup e e"
  by (simp add: same_setup_def)

lemma same_setup_trans: "same_setup e e1 \<Longrightarrow> same_setup e1 e2 \<Longrightarrow> same_setup e e2"
  by (simp add: same_setup_def)

lemma send_loop_ok:
  assumes "stream_rep do_encode e B S" and "0 < ae_framesize_bytes e" and "length (B 0) < fuel"
  shows "\<exists>e' B'. send_loop fuel do_encode e = Some e' \<and> stream_rep do_encode e' B' S \<and>
    (length (B' 0) < ae_framesize_bytes e \<or> refused_last do_encode e') \<and> same_setup e e'"
  using assms
proof (induction fuel arbitrary: e B)
  case (Suc fuel)
  have size: "dq_size (ae_input e ! 0) = length (B 0)"
    using Suc.prems(1) by (auto simp: stream_rep_def planes_rep_def dq_rep_size)
  let ?ok = "do_encode (length (ae_sent e))"
  show ?case
  proof (cases "ae_framesize_bytes e \<le> length (B 0)")
    case False
    then show ?thesis using Suc.prems(1) size by (intro exI [of _ e] exI [of _ B]) simp
  next
    case True
    obtain input frame stamp where
      s: "send_audio_data do_encode e = Some (?ok, e\<lparr>ae_input := input, ae_sent := ae_sent e @ [frame], ae_cur_pts := stamp\<rparr>)"
      and rep: "stream_rep do_encode (e\<lparr>ae_input := input, ae_sent := ae_sent e @ [frame], ae_cur_pts := stamp\<rparr>)
          (\<lambda>i. drop (ae_framesize_bytes e) (B i)) S"
      using send_audio_data_ok [OF Suc.prems(1) True] by blast
    let ?e = "e\<lparr>ae_input := input, ae_sent := ae_sent e @ [frame], ae_cur_pts := stamp\<rparr>"
    have sm: "same_setup e ?e" by (simp add: same_setup_def)
    show ?thesis
    proof (cases ?ok)
      case False
      have "send_loop (Suc fuel) do_encode e = Some ?e" using s size True False by simp
      moreover have "refused_last do_encode ?e" using False by (simp add: refused_last_def)
      ultimately show ?thesis using rep sm by blast
    next
      case ok: True
      have "length (drop (ae_framesize_bytes e) (B 0)) < fuel" using Suc.prems(2,3) True by auto
      with Suc.IH [OF rep] Suc.prems(2) obtain e' B' where
        e': "send_loop fuel do_encode ?e = Some e'" "stream_rep do_encode e' B' S"
        "length (B' 0) < ae_framesize_bytes e \<or> refused_last do_encode e'" "same_setup ?e e'"
        by auto
      have "same_setup e e'" using sm e'(4) same_setup_trans by blast
      moreover have "send_loop (Suc fuel) do_encode e = Some e'" using e'(1) s size True ok by simp
      ultimately show ?thesis using e'(2,3) by blast
    qed
  qed
qed simp


subsection \<open>Refinement\<close>

definition no_pause :: "pause_data \<Rightarrow> bool" where
  "no_pause p \<longleftrightarrow> ts_start p = 0 \<and> ts_offset p = 0"

lemma no_pause_check: "no_pause p \<Longrightarrow> audio_pause_check rate d p = Some (False, d, p)"
  by (simp add: no_pause_def audio_pause_check_def audio_pause_check_internal_def)

definition audio_rep :: "(nat \<Rightarrow> bool) \<Rightarrow> audio_encoder \<Rightarrow> audio_spec \<Rightarrow> bool" where
  "audio_rep do_encode e s \<longleftrightarrow> ae_samplerate e \<noteq> 0 \<and> no_pause (ae_pause e) \<and> ae_start_ts e = as_start s \<and> length (as_stream s) = ae_planes e \<and>
     (case as_first s of
        None \<Rightarrow> \<not> ae_first_received e \<and> as_start s = 0 \<and> as_stream s = replicate (ae_planes e) []
      | Some t \<Rightarrow> ae_first_received e \<and> ae_first_raw_ts e = t) \<and>
     (as_start s = 0 \<longrightarrow> ae_sent e = [] \<and> contiguous e) \<and>
     (\<exists>B. stream_rep do_encode e B (\<lambda>i. as_stream s ! i) \<and> (as_start s \<noteq> 0 \<longrightarrow> length (B 0) < ae_framesize_bytes e \<or> refused_last do_encode e))"

lemma rate_nonzero: "audio_rep do_encode e s \<Longrightarrow> (ucast (ae_samplerate e) :: 64 word) \<noteq> 0"
  using unsigned_less [of "ae_samplerate e", where 'a = nat]
  by (auto simp: audio_rep_def unsigned_ucast_eq take_bit_nat_eq_self unat_eq_0 [symmetric])

lemma stream_rep_cong:
  assumes "stream_rep do_encode e B S" and "\<And>i. i < ae_planes e \<Longrightarrow> S i = S' i"
  shows "stream_rep do_encode e B S'"
  using assms by (simp add: stream_rep_def)

lemma same_lengthsI: "(\<And>i. i < ae_planes e \<Longrightarrow> length (B i) = n) \<Longrightarrow> 0 < ae_planes e \<Longrightarrow> same_lengths e B"
  by (simp add: same_lengths_def)

lemma same_lengthsD: "same_lengths e B \<Longrightarrow> i < ae_planes e \<Longrightarrow> length (B i) = length (B 0)"
  unfolding same_lengths_def by blast

lemma stream_rep_empty:
  assumes "planes_rep e B" and "B = (\<lambda>_. [])" and "ae_sent e = []" and "frames_ok do_encode e"
  shows "stream_rep do_encode e B (\<lambda>_. [])"
  using assms by (simp add: stream_rep_def sent_bytes_def same_lengths_def)

lemma push_stream:
  assumes rep: "stream_rep do_encode e B S" and ok: "chunk_ok (ae_planes e) (ae_blocksize e) (paired, d)"
  shows "\<exists>input. push_back_audio e (map (map Some) (ad_data d)) (unat (ad_frames d) * ae_blocksize e) off =
      Some (e\<lparr>ae_input := input\<rparr>) \<and>
    stream_rep do_encode (e\<lparr>ae_input := input\<rparr>) (\<lambda>i. B i @ drop off (chunk_bytes (ae_planes e) (ae_blocksize e) d ! i))
      (\<lambda>i. S i @ drop off (chunk_bytes (ae_planes e) (ae_blocksize e) d ! i)) \<and>
    (contiguous e \<longrightarrow> contiguous (e\<lparr>ae_input := input\<rparr>))"
proof -
  let ?n = "unat (ad_frames d) * ae_blocksize e"
  let ?C = "\<lambda>i. chunk_bytes (ae_planes e) (ae_blocksize e) d ! i"
  have pr: "planes_rep e B" and fo: "frames_ok do_encode e" and sl: "same_lengths e B" using rep by (simp_all add: stream_rep_def)
  have C: "?C i = take ?n (ad_data d ! i)" "i < length (ad_data d)" "?n \<le> length (ad_data d ! i)" if "i < ae_planes e" for i
    using ok that by (auto simp: chunk_bytes_def chunk_ok_def list_all_length)
  have "i < length (map (map Some) (ad_data d)) \<and> ?n \<le> length (map (map Some) (ad_data d) ! i) \<and>
      take ?n (map (map Some) (ad_data d) ! i) = map Some (?C i)" if "i < ae_planes e" for i
    using C [OF that] by (simp add: take_map)
  from push_back_audio_ok [OF pr this, where off = off] obtain input where
    p: "push_back_audio e (map (map Some) (ad_data d)) ?n off = Some (e\<lparr>ae_input := input\<rparr>)"
    "planes_rep (e\<lparr>ae_input := input\<rparr>) (\<lambda>i. B i @ drop off (?C i))"
    "contiguous e \<longrightarrow> contiguous (e\<lparr>ae_input := input\<rparr>)" by blast
  have "same_lengths (e\<lparr>ae_input := input\<rparr>) (\<lambda>i. B i @ drop off (?C i))"
  proof (rule same_lengthsI)
    fix i assume "i < ae_planes (e\<lparr>ae_input := input\<rparr>)"
    then have i: "i < ae_planes e" by simp
    show "length (B i @ drop off (?C i)) = length (B 0) + (?n - off)"
      using same_lengthsD [OF sl i] C [OF i] by simp
  qed (use pr in \<open>simp add: planes_rep_def\<close>)
  moreover have "frames_ok do_encode (e\<lparr>ae_input := input\<rparr>)" using fo by (simp add: frames_ok_def)
  moreover have "S i @ drop off (?C i) = sent_bytes (e\<lparr>ae_input := input\<rparr>) i @ B i @ drop off (?C i)" if "i < ae_planes e" for i
    using rep that by (simp add: stream_rep_def sent_bytes_def)
  ultimately show ?thesis using p by (auto simp: stream_rep_def)
qed

lemma join_nth: "i < length xs \<Longrightarrow> length xs = length ys \<Longrightarrow> join_planes xs ys ! i = xs ! i @ ys ! i"
  by (simp add: join_planes_def)

lemma length_join [simp]: "length (join_planes xs ys) = min (length xs) (length ys)"
  by (simp add: join_planes_def)

lemma length_chunk: "chunk_ok planes blocksize (p, d) \<Longrightarrow> length (chunk_bytes planes blocksize d) = planes"
  by (simp add: chunk_bytes_def chunk_ok_def)

text \<open>The first chunk.\<close>

lemma first_chunk_rep:
  assumes rep: "audio_rep do_encode e s" and first: "as_first s = None"
  shows "audio_rep do_encode (clear_audio (e\<lparr>ae_first_raw_ts := t, ae_first_received := True\<rparr>)) (s\<lparr>as_first := Some t\<rparr>)"
proof -
  let ?e = "e\<lparr>ae_first_raw_ts := t, ae_first_received := True\<rparr>"
  obtain B where B: "stream_rep do_encode e B (\<lambda>i. as_stream s ! i)" using rep by (auto simp: audio_rep_def)
  then have "planes_rep ?e B" by (simp add: stream_rep_def planes_rep_def)
  note clear = clear_audio_ok [OF this]
  have none: "as_start s = 0" "as_stream s = replicate (ae_planes e) []" "ae_sent e = []" "no_pause (ae_pause e)" "ae_start_ts e = 0"
    "ae_samplerate e \<noteq> 0"
    using rep first by (simp_all add: audio_rep_def)
  have "frames_ok do_encode (clear_audio ?e)" using B by (simp add: stream_rep_def frames_ok_def clear_audio_def)
  from stream_rep_empty [OF clear(1) refl _ this] none have "stream_rep do_encode (clear_audio ?e) (\<lambda>_. []) (\<lambda>_. [])"
    by (simp add: clear_audio_def)
  then have "stream_rep do_encode (clear_audio ?e) (\<lambda>_. []) (\<lambda>i. as_stream s ! i)"
    by (rule stream_rep_cong) (simp add: none clear_audio_def)
  moreover have "ae_sent (clear_audio ?e) = []" "ae_planes (clear_audio ?e) = ae_planes e" "ae_pause (clear_audio ?e) = ae_pause e"
    "ae_first_received (clear_audio ?e)" "ae_first_raw_ts (clear_audio ?e) = t" "ae_start_ts (clear_audio ?e) = ae_start_ts e"
    "ae_samplerate (clear_audio ?e) = ae_samplerate e"
    using none by (simp_all add: clear_audio_def)
  ultimately show ?thesis using none clear(2) by (auto simp: audio_rep_def)
qed


lemma stream_rep_start [simp]: "stream_rep do_encode (e\<lparr>ae_start_ts := v\<rparr>) B S \<longleftrightarrow> stream_rep do_encode e B S"
  by (simp add: stream_rep_def planes_rep_def same_lengths_def frames_ok_def sent_bytes_def)

lemma contiguous_start [simp]: "contiguous (e\<lparr>ae_start_ts := v\<rparr>) \<longleftrightarrow> contiguous e"
  by (simp add: contiguous_def)

text \<open>What \<open>buffer_audio\<close> has to establish.\<close>

definition buffered :: "(nat \<Rightarrow> bool) \<Rightarrow> 64 word option \<Rightarrow> audio_data \<Rightarrow> audio_encoder \<Rightarrow> audio_spec \<Rightarrow> bool" where
  "buffered do_encode paired d e s \<longleftrightarrow>
     (\<exists>e1 B. buffer_audio paired d e = Some (as_start s \<noteq> 0, e1) \<and> stream_rep do_encode e1 B (\<lambda>i. as_stream s ! i) \<and>
        same_setup (e\<lparr>ae_start_ts := as_start s\<rparr>) e1 \<and> (as_start s = 0 \<longrightarrow> ae_sent e1 = [] \<and> contiguous e1) \<and>
        length (as_stream s) = ae_planes e)"

lemma buffered_more:
  assumes rep: "stream_rep do_encode e B (\<lambda>i. S ! i)" and len: "length S = ae_planes e"
    and ok: "chunk_ok (ae_planes e) (ae_blocksize e) (paired, d)"
    and call: "\<And>input. push_back_audio e (map (map Some) (ad_data d)) (unat (ad_frames d) * ae_blocksize e) 0 =
        Some (e\<lparr>ae_input := input\<rparr>) \<Longrightarrow> buffer_audio paired d e = Some (v \<noteq> 0, e\<lparr>ae_input := input, ae_start_ts := v\<rparr>)"
    and first: "v = 0 \<Longrightarrow> ae_sent e = [] \<and> contiguous e"
    and s: "as_start s = v" "as_stream s = join_planes S (chunk_bytes (ae_planes e) (ae_blocksize e) d)"
  shows "buffered do_encode paired d e s"
proof -
  let ?C = "chunk_bytes (ae_planes e) (ae_blocksize e) d"
  obtain input where p: "push_back_audio e (map (map Some) (ad_data d)) (unat (ad_frames d) * ae_blocksize e) 0 =
      Some (e\<lparr>ae_input := input\<rparr>)"
    "stream_rep do_encode (e\<lparr>ae_input := input\<rparr>) (\<lambda>i. B i @ ?C ! i) (\<lambda>i. S ! i @ ?C ! i)"
    "contiguous e \<longrightarrow> contiguous (e\<lparr>ae_input := input\<rparr>)"
    using push_stream [OF rep ok, of 0] by auto
  let ?e1 = "e\<lparr>ae_input := input, ae_start_ts := v\<rparr>"
  have "stream_rep do_encode ?e1 (\<lambda>i. B i @ ?C ! i) (\<lambda>i. S ! i @ ?C ! i)" using p(2) by simp
  then have "stream_rep do_encode ?e1 (\<lambda>i. B i @ ?C ! i) (\<lambda>i. as_stream s ! i)"
    by (rule stream_rep_cong) (simp add: s(2) join_nth len length_chunk [OF ok])
  moreover have "contiguous e \<longrightarrow> contiguous ?e1" using p(3) by simp
  ultimately show ?thesis
    unfolding buffered_def using call [OF p(1)] first s len length_chunk [OF ok]
    by (intro exI [of _ ?e1] exI [of _ "\<lambda>i. B i @ ?C ! i"]) (simp add: same_setup_def)
qed

text \<open>The video starts inside the chunk.\<close>

lemma buffered_inside:
  assumes rep: "audio_rep do_encode e s" and first: "as_first s = Some t0" and s0: "as_start s = 0"
    and ok: "chunk_ok (ae_planes e) (ae_blocksize e) (paired, d)" and Some: "paired = Some v" and v: "v \<noteq> 0"
    and inside: "\<not> chunk_end (ae_samplerate e) d \<le> v" "ad_timestamp d \<le> v"
  shows "buffered do_encode paired d e (spec_receive (ae_planes e) (ae_samplerate e) (ae_blocksize e) paired d s)"
proof -
  let ?C = "chunk_bytes (ae_planes e) (ae_blocksize e) d"
  let ?n = "unat (ad_frames d) * ae_blocksize e"
  obtain B where B: "stream_rep do_encode e B (\<lambda>i. as_stream s ! i)" using rep by (auto simp: audio_rep_def)
  have start: "ae_start_ts e = as_start s" and len: "length (as_stream s) = ae_planes e"
    and raw: "ae_first_raw_ts e = t0" and before: "ae_sent e = []" "contiguous e"
    using rep first s0 by (simp_all add: audio_rep_def)
  have rate64: "(ucast (ae_samplerate e) :: 64 word) \<noteq> 0" by (rule rate_nonzero [OF rep])
  note spec = spec_receive_def Let_def first
  let ?e = "(clear_audio e)\<lparr>ae_start_ts := v\<rparr>"
  let ?off = "cut_bytes (ae_samplerate e) (ae_blocksize e) v (ad_timestamp d)"
  have "planes_rep e B" "frames_ok do_encode e" using B by (simp_all add: stream_rep_def)
  then have "planes_rep (clear_audio e) (\<lambda>_. [])" "frames_ok do_encode (clear_audio e)"
    using clear_audio_ok by (simp_all add: frames_ok_def clear_audio_def)
  from stream_rep_empty [OF this(1) refl _ this(2)] before
  have "stream_rep do_encode ?e (\<lambda>_. []) (\<lambda>_. [])" by (simp add: clear_audio_def)
  moreover have "ae_planes ?e = ae_planes e" "ae_blocksize ?e = ae_blocksize e" by (simp_all add: clear_audio_def)
  ultimately obtain input where
    p: "push_back_audio ?e (map (map Some) (ad_data d)) ?n ?off = Some (?e\<lparr>ae_input := input\<rparr>)"
    "stream_rep do_encode (?e\<lparr>ae_input := input\<rparr>) (\<lambda>i. drop ?off (?C ! i)) (\<lambda>i. drop ?off (?C ! i))"
    using push_stream [of do_encode ?e "\<lambda>_. []" "\<lambda>_. []" paired d ?off] ok by auto
  have "buffer_audio paired d e = Some (True, ?e\<lparr>ae_input := input\<rparr>)"
  proof -
    have "\<not> v < ad_timestamp d" using inside(2) by simp
    then show ?thesis
      using p(1) inside v Some s0 start
      by (cases "ad_timestamp d < v")
         (simp_all add: buffer_audio_def chunk_end_def Let_def util_mul_div64_value rate64 calc_offset_cut_less cut_bytes_def)
  qed
  moreover have "stream_rep do_encode (?e\<lparr>ae_input := input\<rparr>) (\<lambda>i. drop ?off (?C ! i)) (\<lambda>i. map (drop ?off) ?C ! i)"
    using p(2) by (rule stream_rep_cong) (simp add: clear_audio_def length_chunk [OF ok])
  moreover have "same_setup (e\<lparr>ae_start_ts := v\<rparr>) (?e\<lparr>ae_input := input\<rparr>)" by (simp add: same_setup_def clear_audio_def)
  ultimately show ?thesis
    using inside v Some s0 length_chunk [OF ok] unfolding buffered_def
    by (intro exI [of _ "?e\<lparr>ae_input := input\<rparr>"] exI [of _ "\<lambda>i. drop ?off (?C ! i)"]) (simp add: spec)
qed

text \<open>The video started before the chunk, so what was buffered is used.\<close>

lemma buffered_behind:
  assumes rep: "audio_rep do_encode e s" and first: "as_first s = Some t0" and s0: "as_start s = 0"
    and ok: "chunk_ok (ae_planes e) (ae_blocksize e) (paired, d)" and Some: "paired = Some v" and v: "v \<noteq> 0"
    and behind: "\<not> chunk_end (ae_samplerate e) d \<le> v" "v < ad_timestamp d"
  shows "buffered do_encode paired d e (spec_receive (ae_planes e) (ae_samplerate e) (ae_blocksize e) paired d s)"
proof -
  let ?C = "chunk_bytes (ae_planes e) (ae_blocksize e) d"
  let ?n = "unat (ad_frames d) * ae_blocksize e"
  obtain B where B: "stream_rep do_encode e B (\<lambda>i. as_stream s ! i)" using rep by (auto simp: audio_rep_def)
  have start: "ae_start_ts e = as_start s" and len: "length (as_stream s) = ae_planes e"
    and raw: "ae_first_raw_ts e = t0" and before: "ae_sent e = []" "contiguous e"
    using rep first s0 by (simp_all add: audio_rep_def)
  have rate64: "(ucast (ae_samplerate e) :: 64 word) \<noteq> 0" by (rule rate_nonzero [OF rep])
  note spec = spec_receive_def Let_def first
  let ?e = "e\<lparr>ae_start_ts := v\<rparr>"
  let ?off = "cut_bytes (ae_samplerate e) (ae_blocksize e) v t0"
  have pr: "planes_rep ?e B" using B by (simp add: stream_rep_def planes_rep_def)
  have sl: "same_lengths e B" and fo: "frames_ok do_encode e" using B by (simp_all add: stream_rep_def)
  have pl: "ae_planes ?e = ae_planes e" by simp
  have flds: "ae_samplerate ?e = ae_samplerate e" "ae_blocksize ?e = ae_blocksize e" "ae_first_raw_ts ?e = t0"
    using raw by simp_all
  have "\<forall>i<ae_planes ?e. length (B i) = length (B 0)"
    unfolding pl using same_lengthsD [OF sl] by blast
  moreover have "contiguous ?e" using before by simp
  ultimately obtain input where p: "start_from_buffer ?e v = Some (?e\<lparr>ae_input := input\<rparr>)"
      "planes_rep (?e\<lparr>ae_input := input\<rparr>) (\<lambda>i. drop ?off (B i))"
    using start_from_buffer_ok [OF pr, of v, unfolded flds] by blast
  let ?e1 = "?e\<lparr>ae_input := input\<rparr>"
  have S: "as_stream s ! i = B i" if "i < ae_planes e" for i
    using B that before by (simp add: stream_rep_def sent_bytes_def)
  have "same_lengths ?e1 (\<lambda>i. drop ?off (B i))"
  proof (rule same_lengthsI)
    fix i assume "i < ae_planes ?e1"
    then have "length (B i) = length (B 0)" by (intro same_lengthsD [OF sl]) simp
    then show "length (drop ?off (B i)) = length (B 0) - ?off" by simp
  qed (use pr in \<open>simp add: planes_rep_def\<close>)
  moreover have "frames_ok do_encode ?e1" using fo by (simp add: frames_ok_def)
  ultimately have "stream_rep do_encode ?e1 (\<lambda>i. drop ?off (B i)) (\<lambda>i. map (drop ?off) (as_stream s) ! i)"
    using p(2) before by (simp add: stream_rep_def sent_bytes_def len S)
  moreover have "ae_planes ?e1 = ae_planes e" "ae_blocksize ?e1 = ae_blocksize e" by simp_all
  ultimately obtain input' where
    q: "push_back_audio ?e1 (map (map Some) (ad_data d)) ?n 0 = Some (?e1\<lparr>ae_input := input'\<rparr>)"
    "stream_rep do_encode (?e1\<lparr>ae_input := input'\<rparr>) (\<lambda>i. drop ?off (B i) @ ?C ! i) (\<lambda>i. map (drop ?off) (as_stream s) ! i @ ?C ! i)"
    using push_stream [of do_encode ?e1 "\<lambda>i. drop ?off (B i)" "\<lambda>i. map (drop ?off) (as_stream s) ! i" paired d 0] ok by auto
  have late: "\<not> ad_timestamp d < v" "\<not> ad_timestamp d \<le> v" using behind(2) by simp_all
  have "buffer_audio paired d e = Some (True, ?e1\<lparr>ae_input := input'\<rparr>)"
    using q(1) p(1) behind v late Some s0 start by (simp add: buffer_audio_def chunk_end_def Let_def util_mul_div64_value rate64)
  moreover have "stream_rep do_encode (?e1\<lparr>ae_input := input'\<rparr>) (\<lambda>i. drop ?off (B i) @ ?C ! i)
      (\<lambda>i. join_planes (map (drop ?off) (as_stream s)) ?C ! i)"
    using q(2) by (rule stream_rep_cong) (simp add: join_nth len length_chunk [OF ok])
  moreover have "same_setup (e\<lparr>ae_start_ts := v\<rparr>) (?e1\<lparr>ae_input := input'\<rparr>)" by (simp add: same_setup_def)
  ultimately show ?thesis
    using behind v late Some s0 length_chunk [OF ok] len unfolding buffered_def
    by (intro exI [of _ "?e1\<lparr>ae_input := input'\<rparr>"] exI [of _ "\<lambda>i. drop ?off (B i) @ ?C ! i"]) (simp add: spec)
qed

lemma buffer_audio_ok:
  assumes rep: "audio_rep do_encode e s" and first: "as_first s = Some t0"
    and ok: "chunk_ok (ae_planes e) (ae_blocksize e) (paired, d)"
  shows "buffered do_encode paired d e (spec_receive (ae_planes e) (ae_samplerate e) (ae_blocksize e) paired d s)"
proof -
  let ?C = "chunk_bytes (ae_planes e) (ae_blocksize e) d"
  let ?n = "unat (ad_frames d) * ae_blocksize e"
  obtain B where B: "stream_rep do_encode e B (\<lambda>i. as_stream s ! i)" using rep by (auto simp: audio_rep_def)
  have start: "ae_start_ts e = as_start s" and len: "length (as_stream s) = ae_planes e"
    and raw: "ae_first_raw_ts e = t0" and before: "as_start s = 0 \<Longrightarrow> ae_sent e = [] \<and> contiguous e"
    using rep first by (simp_all add: audio_rep_def)
  have rate64: "(ucast (ae_samplerate e) :: 64 word) \<noteq> 0" by (rule rate_nonzero [OF rep])
  note spec = spec_receive_def Let_def first
  show ?thesis
  proof (cases "as_start s = 0")
    case False
    show ?thesis
      by (rule buffered_more [OF B len ok, where v = "as_start s"])
         (use False start in \<open>simp_all add: spec buffer_audio_def\<close>)
  next
    case s0: True
    note before = before [OF s0]
    show ?thesis
    proof (cases paired)
      case None
      have "ad_timestamp d \<noteq> 0" using ok None by (simp add: chunk_ok_def)
      moreover have "push_back_audio (e\<lparr>ae_start_ts := v\<rparr>) = (\<lambda>data n off. map_option (\<lambda>e. e\<lparr>ae_start_ts := v\<rparr>) (push_back_audio e data n off))" for v
        by (intro ext) (auto simp: push_back_audio_def split: bind_splits)
      ultimately show ?thesis
        by (intro buffered_more [OF B len ok, where v = "ad_timestamp d"])
           (use None s0 start in \<open>simp_all add: spec buffer_audio_def\<close>)
    next
      case (Some v)
      consider (wait) "v = 0 \<or> chunk_end (ae_samplerate e) d \<le> v"
        | (inside) "v \<noteq> 0" "\<not> chunk_end (ae_samplerate e) d \<le> v" "ad_timestamp d \<le> v"
        | (behind) "v \<noteq> 0" "\<not> chunk_end (ae_samplerate e) d \<le> v" "v < ad_timestamp d" by force
      then show ?thesis
      proof cases
        case wait
        show ?thesis
          by (rule buffered_more [OF B len ok, where v = 0])
             (use wait Some s0 start before in \<open>auto simp add: spec buffer_audio_def chunk_end_def Let_def util_mul_div64_value rate64\<close>)
      next
        case inside
        then show ?thesis by (intro buffered_inside [OF rep first s0 ok Some])
      next
        case behind
        then show ?thesis by (intro buffered_behind [OF rep first s0 ok Some])
      qed
    qed
  qed
qed


lemma spec_receive_first:
  "as_first s = None \<Longrightarrow> spec_receive planes rate blocksize paired d s =
     spec_receive planes rate blocksize paired d (s\<lparr>as_first := Some (ad_timestamp d)\<rparr>)"
  by (simp add: spec_receive_def Let_def)

lemma spec_receive_keeps_first: "as_first s = Some t \<Longrightarrow> as_first (spec_receive planes rate blocksize paired d s) = Some t"
  by (simp add: spec_receive_def Let_def split: option.split)

text \<open>One chunk after the first has been noted.\<close>

lemma receive_later:
  assumes rep: "audio_rep do_encode e s" and first: "as_first s = Some t0"
    and ok: "chunk_ok (ae_planes e) (ae_blocksize e) (paired, d)"
    and pos: "0 < ae_framesize_bytes e"
  shows "\<exists>e1 e'. buffer_audio paired d e = Some e1 \<and>
    (if fst e1 then send_loop (Suc (dq_size (ae_input (snd e1) ! 0))) do_encode (snd e1) else Some (snd e1)) = Some e' \<and>
    audio_rep do_encode e' (spec_receive (ae_planes e) (ae_samplerate e) (ae_blocksize e) paired d s) \<and>
    same_setup (e\<lparr>ae_start_ts := ae_start_ts e'\<rparr>) e'"
proof -
  let ?s = "spec_receive (ae_planes e) (ae_samplerate e) (ae_blocksize e) paired d s"
  obtain e1 B where b: "buffer_audio paired d e = Some (as_start ?s \<noteq> 0, e1)" "stream_rep do_encode e1 B (\<lambda>i. as_stream ?s ! i)"
    "same_setup (e\<lparr>ae_start_ts := as_start ?s\<rparr>) e1" "as_start ?s = 0 \<longrightarrow> ae_sent e1 = [] \<and> contiguous e1"
    "length (as_stream ?s) = ae_planes e"
    using buffer_audio_ok [OF rep first ok] unfolding buffered_def by blast
  have first': "as_first ?s = Some t0" by (rule spec_receive_keeps_first [OF first])
  have cfg: "no_pause (ae_pause e)" "ae_first_received e" "ae_first_raw_ts e = t0" "ae_samplerate e \<noteq> 0"
    using rep first by (simp_all add: audio_rep_def)
  show ?thesis
  proof (cases "as_start ?s = 0")
    case True
    then have "audio_rep do_encode e1 ?s"
      using b cfg first' by (auto simp: audio_rep_def same_setup_def)
    moreover have "same_setup (e\<lparr>ae_start_ts := ae_start_ts e1\<rparr>) e1" using b(3) by (simp add: same_setup_def)
    ultimately show ?thesis using b(1) True by auto
  next
    case False
    have "dq_size (ae_input e1 ! 0) = length (B 0)"
      using b(2) by (auto simp: stream_rep_def planes_rep_def dq_rep_size)
    then have fuel: "length (B 0) < Suc (dq_size (ae_input e1 ! 0))" by simp
    have pos1: "0 < ae_framesize_bytes e1" using b(3) pos by (simp add: same_setup_def)
    obtain e' B' where e': "send_loop (Suc (dq_size (ae_input e1 ! 0))) do_encode e1 = Some e'"
        "stream_rep do_encode e' B' (\<lambda>i. as_stream ?s ! i)"
        "length (B' 0) < ae_framesize_bytes e1 \<or> refused_last do_encode e'" "same_setup e1 e'"
      using send_loop_ok [OF b(2) pos1 fuel] by blast
    have same: "same_setup (e\<lparr>ae_start_ts := as_start ?s\<rparr>) e'" by (rule same_setup_trans [OF b(3) e'(4)])
    then have "audio_rep do_encode e' ?s"
      using e' b(4,5) cfg first' False by (auto simp: audio_rep_def same_setup_def)
    moreover have "same_setup (e\<lparr>ae_start_ts := ae_start_ts e'\<rparr>) e'" using same by (simp add: same_setup_def)
    ultimately show ?thesis using b(1) e'(1) False by auto
  qed
qed

lemma receive_audio_ok:
  assumes rep: "audio_rep do_encode e s" and ok: "chunk_ok (ae_planes e) (ae_blocksize e) (paired, d)"
    and pos: "0 < ae_framesize_bytes e"
  shows "\<exists>e'. receive_audio do_encode paired d e = Some e' \<and>
    audio_rep do_encode e' (spec_receive (ae_planes e) (ae_samplerate e) (ae_blocksize e) paired d s) \<and>
    ae_planes e' = ae_planes e \<and> ae_samplerate e' = ae_samplerate e \<and> ae_blocksize e' = ae_blocksize e \<and>
    ae_framesize e' = ae_framesize e \<and> ae_framesize_bytes e' = ae_framesize_bytes e"
proof -
  let ?e = "if ae_first_received e then e
    else clear_audio (e\<lparr>ae_first_raw_ts := ad_timestamp d, ae_first_received := True\<rparr>)"
  have same: "ae_planes ?e = ae_planes e" "ae_samplerate ?e = ae_samplerate e" "ae_blocksize ?e = ae_blocksize e"
    "ae_framesize ?e = ae_framesize e" "ae_framesize_bytes ?e = ae_framesize_bytes e"
    by (simp_all add: clear_audio_def)
  obtain s1 t where s1: "audio_rep do_encode ?e s1" "as_first s1 = Some t"
    "spec_receive (ae_planes e) (ae_samplerate e) (ae_blocksize e) paired d s1 =
     spec_receive (ae_planes e) (ae_samplerate e) (ae_blocksize e) paired d s"
  proof (cases "as_first s")
    case None
    then have "\<not> ae_first_received e" using rep by (simp add: audio_rep_def)
    then show ?thesis
      using that [of "s\<lparr>as_first := Some (ad_timestamp d)\<rparr>" "ad_timestamp d"] first_chunk_rep [OF rep None]
        spec_receive_first [OF None] by simp
  next
    case (Some t)
    then have "ae_first_received e" using rep by (simp add: audio_rep_def)
    then show ?thesis using that [of s t] rep Some by simp
  qed
  have "no_pause (ae_pause ?e)" using s1(1) by (simp add: audio_rep_def)
  note pause = no_pause_check [OF this]
  have ok': "chunk_ok (ae_planes ?e) (ae_blocksize ?e) (paired, d)" and pos': "0 < ae_framesize_bytes ?e"
    using ok pos unfolding same by simp_all
  obtain e1 e' where r: "buffer_audio paired d ?e = Some e1"
    "(if fst e1 then send_loop (Suc (dq_size (ae_input (snd e1) ! 0))) do_encode (snd e1) else Some (snd e1)) = Some e'"
    "audio_rep do_encode e' (spec_receive (ae_planes e) (ae_samplerate e) (ae_blocksize e) paired d s)"
    "same_setup (?e\<lparr>ae_start_ts := ae_start_ts e'\<rparr>) e'"
    using receive_later [OF s1(1,2) ok' pos'] unfolding same s1(3) by blast
  have "?e\<lparr>ae_pause := ae_pause ?e\<rparr> = ?e" by simp
  then have "receive_audio do_encode paired d e = Some e'"
    using r(1,2) pause unfolding receive_audio_def Let_def
    by (cases e1) (simp split: if_splits)
  then show ?thesis using r(3,4) same by (simp add: same_setup_def)
qed


lemma receive_all_ok:
  assumes "audio_rep do_encode e s" and "list_all (chunk_ok (ae_planes e) (ae_blocksize e)) cs"
    and "0 < ae_framesize_bytes e"
  shows "\<exists>e'. receive_all do_encode cs e = Some e' \<and>
    audio_rep do_encode e' (fold (\<lambda>(paired, d). spec_receive (ae_planes e) (ae_samplerate e) (ae_blocksize e) paired d) cs s) \<and>
    ae_planes e' = ae_planes e \<and> ae_framesize e' = ae_framesize e \<and> ae_framesize_bytes e' = ae_framesize_bytes e"
  using assms
proof (induction cs arbitrary: e s)
  case Nil
  then show ?case by simp
next
  case (Cons c cs)
  obtain paired d where c: "c = (paired, d)" by (cases c)
  have ok: "chunk_ok (ae_planes e) (ae_blocksize e) (paired, d)" using Cons.prems(2) c by simp
  obtain e1 where e1: "receive_audio do_encode paired d e = Some e1"
    "audio_rep do_encode e1 (spec_receive (ae_planes e) (ae_samplerate e) (ae_blocksize e) paired d s)"
    "ae_planes e1 = ae_planes e" "ae_samplerate e1 = ae_samplerate e" "ae_blocksize e1 = ae_blocksize e"
    "ae_framesize e1 = ae_framesize e" "ae_framesize_bytes e1 = ae_framesize_bytes e"
    using receive_audio_ok [OF Cons.prems(1) ok Cons.prems(3)] by blast
  have "list_all (chunk_ok (ae_planes e1) (ae_blocksize e1)) cs" "0 < ae_framesize_bytes e1"
    using Cons.prems(2,3) e1 by simp_all
  from Cons.IH [OF e1(2) this] show ?case using e1 c by simp
qed

lemma new_encoder_rep:
  assumes "0 < planes" and "planes \<le> MAX_AV_PLANES" and "rate \<noteq> 0"
  shows "audio_rep do_encode (new_audio_encoder planes rate blocksize framesize)
    \<lparr>as_first = None, as_start = 0, as_stream = replicate planes []\<rparr>"
proof -
  let ?e = "new_audio_encoder planes rate blocksize framesize"
  have free: "ae_input ?e = replicate MAX_AV_PLANES (deque_free deque_init)"
    by (simp add: new_audio_encoder_def intitialize_audio_encoder_def free_audio_buffers_def)
  have rep: "planes_rep ?e (\<lambda>_. [])" "contiguous ?e"
    using assms by (auto simp: planes_rep_def contiguous_def free deque_free_rep new_audio_encoder_def
        intitialize_audio_encoder_def free_audio_buffers_def) (simp add: deque_free_def)
  have "stream_rep do_encode ?e (\<lambda>_. []) (\<lambda>_. [])"
    by (rule stream_rep_empty [OF rep(1) refl])
       (simp_all add: frames_ok_def new_audio_encoder_def intitialize_audio_encoder_def free_audio_buffers_def)
  then have "stream_rep do_encode ?e (\<lambda>_. []) (\<lambda>i. replicate planes [] ! i)"
    by (rule stream_rep_cong) (simp add: new_audio_encoder_def intitialize_audio_encoder_def free_audio_buffers_def)
  then show ?thesis
    using rep(2) assms(3) by (auto simp: audio_rep_def no_pause_def new_audio_encoder_def intitialize_audio_encoder_def
        free_audio_buffers_def)
qed

subsection \<open>The stream that is encoded\<close>

text \<open>
  C15: An audio encoder skips and repeats nothing: whatever chunks the mixer delivers, whenever the paired
  video encoder starts, and whichever frames the codec refuses, the codec is given no frame before the start,
  and from then on, one after the other, whole frames of the stream of every plane, as the specification cuts
  it at the start of the video.  A frame that the codec refuses has been taken from the buffer and is not given
  again.  What has not been given is less than a frame, unless the last frame was refused, which stops the
  loop.  Every frame has one piece of its size for each plane, and its time stamp is the size of a frame times
  the number of frames accepted before it; with no refusal the stamps are 0, 1, 2 times that size.  No buffer is
  read or written outside its block, also where \<^verbatim>\<open>start_from_buffer\<close> reads the block of a deque
  directly.  The sample rate is not zero and the encoder is not paused; every chunk has its bytes in every plane
  and, without a paired encoder, a time stamp other than zero.
\<close>

theorem encoder_audio_stream:
  assumes "0 < planes" and "planes \<le> MAX_AV_PLANES" and "0 < blocksize" and "0 < framesize" and "rate \<noteq> 0"
    and "list_all (chunk_ok planes blocksize) cs"
  shows "\<exists>e. receive_all do_encode cs (new_audio_encoder planes rate blocksize framesize) = Some e \<and>
    (let s = spec_all planes rate blocksize cs; given = length (ae_sent e) in
      (as_start s = 0 \<longrightarrow> given = 0) \<and>
      (as_start s \<noteq> 0 \<longrightarrow> (\<forall>i<planes. \<exists>rest. as_stream s ! i = sent_bytes e i @ rest \<and>
         (length rest < blocksize * framesize \<or> 0 < given \<and> \<not> do_encode (given - 1)))) \<and>
      (\<forall>k<given. af_pts (ae_sent e ! k) = int (length (filter do_encode [0..<k]) * framesize) \<and>
         map length (af_data (ae_sent e ! k)) = replicate planes (blocksize * framesize)))"
proof -
  let ?e = "new_audio_encoder planes rate blocksize framesize"
  let ?s = "spec_all planes rate blocksize cs"
  have cfg: "ae_planes ?e = planes" "ae_samplerate ?e = rate" "ae_blocksize ?e = blocksize" "ae_framesize ?e = framesize"
    "ae_framesize_bytes ?e = blocksize * framesize"
    by (simp_all add: new_audio_encoder_def intitialize_audio_encoder_def free_audio_buffers_def)
  have chunks: "list_all (chunk_ok (ae_planes ?e) (ae_blocksize ?e)) cs" and pos: "0 < ae_framesize_bytes ?e"
    using assms by (simp_all add: cfg)
  from receive_all_ok [OF new_encoder_rep [OF assms(1,2,5)] this]
  obtain e where e: "receive_all do_encode cs ?e = Some e" "audio_rep do_encode e ?s" "ae_planes e = planes"
      "ae_framesize e = framesize" "ae_framesize_bytes e = blocksize * framesize"
    by (auto simp: cfg spec_all_def)
  obtain B where B: "stream_rep do_encode e B (\<lambda>i. as_stream ?s ! i)"
      "as_start ?s \<noteq> 0 \<longrightarrow> length (B 0) < blocksize * framesize \<or> refused_last do_encode e"
    using e(2,5) by (auto simp: audio_rep_def)
  have sl: "same_lengths e B" and fo: "frames_ok do_encode e" using B(1) by (simp_all add: stream_rep_def)
  have "as_stream ?s ! i = sent_bytes e i @ B i" "length (B i) = length (B 0)" if "i < planes" for i
    using B(1) same_lengthsD [OF sl, of i] that e(3) by (simp_all add: stream_rep_def)
  moreover have "map length (af_data (ae_sent e ! k)) = replicate planes (blocksize * framesize)"
    "af_pts (ae_sent e ! k) = int (length (filter do_encode [0..<k]) * framesize)" if "k < length (ae_sent e)" for k
    using fo that e(3-5) by (auto simp: frames_ok_def accepted_def intro!: nth_equalityI)
  moreover have "as_start ?s = 0 \<longrightarrow> length (ae_sent e) = 0" using e(2) by (simp add: audio_rep_def)
  ultimately show ?thesis using e(1) B(2) unfolding Let_def refused_last_def length_0_conv neq0_conv [symmetric] by metis
qed


text \<open>
  Two chunks of four samples; the video starts two samples into the first, before the second arrives.  With
  frames of two samples the codec is given three of them, or one when it refuses the first.
\<close>

definition sample_chunks :: "(64 word option \<times> audio_data) list" where
  "sample_chunks =
     [(Some 0, \<lparr>ad_data = [map of_nat [0..<16]], ad_frames = 4, ad_timestamp = 1000000000\<rparr>),
      (Some 1000041667, \<lparr>ad_data = [map of_nat [16..<32]], ad_frames = 4, ad_timestamp = 1000083333\<rparr>)]"

lemma encoder_audio_stream_witness:
  "(\<exists>e. receive_all (\<lambda>_. True) sample_chunks (new_audio_encoder 1 48000 4 4) = Some e \<and>
     (\<forall>i<1. \<exists>rest. as_stream (spec_all 1 48000 4 sample_chunks) ! i = sent_bytes e i @ rest \<and> length rest < 16)) \<and>
   as_stream (spec_all 1 48000 4 sample_chunks) = [map of_nat [8..<32]] \<and>
   (\<exists>e. receive_all (\<lambda>k. k \<noteq> 0) sample_chunks (new_audio_encoder 1 48000 4 2) = Some e \<and>
     (\<forall>i<1. \<exists>rest. as_stream (spec_all 1 48000 4 sample_chunks) ! i = sent_bytes e i @ rest))"
proof -
  have hyp: "list_all (chunk_ok 1 4) sample_chunks" by code_simp
  have spec: "as_start (spec_all 1 48000 4 sample_chunks) \<noteq> 0" by code_simp
  have "as_stream (spec_all 1 48000 4 sample_chunks) = [map of_nat [8..<32]]" by code_simp
  with encoder_audio_stream [of 1 4 4 48000 sample_chunks "\<lambda>_. True"]
    encoder_audio_stream [of 1 4 2 48000 sample_chunks "\<lambda>k. k \<noteq> 0"] hyp spec show ?thesis
    by (fastforce simp: MAX_AV_PLANES_def Let_def)
qed

text \<open>
  C32: Audio is cut to the sample that is sounding when the video starts: of audio that begins at \<open>a\<close>,
  \<^verbatim>\<open>calc_offset_size\<close> counts exactly the bytes of the whole samples that end by the start
  \<open>v\<close> of the video, so the first sample that is kept begins at most one sample before the video and not
  after it, as long as what is cut fits in 64 bits.
\<close>

theorem audio_cut_at_video_start:
  assumes "a < v" and "unat (v - a) * unat (ae_samplerate e) div 1000000000 * ae_blocksize e < 2 ^ 64"
    and "0 < ae_blocksize e"
  shows "\<exists>k. calc_offset_size e v a = Some (k * ae_blocksize e) \<and>
    k * 1000000000 \<le> unat (v - a) * unat (ae_samplerate e) \<and>
    unat (v - a) * unat (ae_samplerate e) < (k + 1) * 1000000000"
proof -
  let ?rate = "ae_samplerate e"
  let ?k = "unat (v - a) * unat ?rate div 1000000000"
  have rate: "unat (ucast ?rate :: 64 word) = unat ?rate"
    using unsigned_less [of ?rate, where 'a = nat] by (simp add: unsigned_ucast_eq take_bit_nat_eq_self)
  have "?k \<le> ?k * ae_blocksize e" using assms(3) by simp
  then have k: "?k < 2 ^ 64" using assms(2) by linarith
  have "unat ((v - a) mod 1000000000) < 1000000000" by (simp add: unat_mod)
  moreover have "unat ?rate < 2 ^ 32" using unsigned_less [of ?rate, where 'a = nat] by simp
  ultimately have "unat ((v - a) mod 1000000000) * unat ?rate < 1000000000 * 2 ^ 32" by (rule mult_strict_mono) simp_all
  then have "unat ((v - a) mod 1000000000) * unat (ucast ?rate :: 64 word) < 2 ^ 64" unfolding rate by simp
  from util_mul_div64_exact [OF _ this] k
  obtain q where q: "util_mul_div64 (v - a) (ucast ?rate) 1000000000 = Some q" "unat q = ?k" by (auto simp: rate)
  from q(2) have "q = of_nat ?k" by (metis of_nat_unat ucast_id)
  then have "q * of_nat (ae_blocksize e) = of_nat (?k * ae_blocksize e)" by (simp only: of_nat_mult)
  then have "unat (q * of_nat (ae_blocksize e)) = ?k * ae_blocksize e"
    using assms(2) by (simp add: unat_of_nat take_bit_nat_eq_self unsigned_of_nat del: of_nat_mult)
  then have off: "calc_offset_size e v a = Some (?k * ae_blocksize e)" using q(1) by (simp add: calc_offset_size_def)
  have "?k * 1000000000 \<le> unat (v - a) * unat ?rate" by simp
  moreover have "unat (v - a) * unat ?rate < (?k + 1) * 1000000000"
    using dividend_less_times_div [of 1000000000 "unat (v - a) * unat ?rate"] by (simp add: algebra_simps)
  ultimately show ?thesis using off by blast
qed

text \<open>Two samples of a stream of four bytes a sample at 48 kHz.\<close>

lemma audio_cut_at_video_start_witness:
  "(\<exists>k. calc_offset_size (new_audio_encoder 1 48000 4 4) 1000041667 1000000000 = Some (k * 4) \<and>
     k * 1000000000 \<le> unat (41667 :: 64 word) * 48000 \<and> unat (41667 :: 64 word) * 48000 < (k + 1) * 1000000000) \<and>
   calc_offset_size (new_audio_encoder 1 48000 4 4) 1000041667 1000000000 = Some 8"
proof -
  let ?e = "new_audio_encoder 1 48000 4 4"
  have e: "ae_samplerate ?e = 48000" "ae_blocksize ?e = 4"
    by (simp_all add: new_audio_encoder_def intitialize_audio_encoder_def free_audio_buffers_def)
  have "calc_offset_size ?e 1000041667 1000000000 = Some 8" by code_simp
  with audio_cut_at_video_start [of 1000000000 1000041667 ?e] show ?thesis unfolding e by simp
qed

end
