(* ===== verification/Spec2Isabelle.thy ===== *)
theory Spec2Isabelle
  imports Obs_Prelude Deque Darray Packet Mux Replay_Buffer Interleaver Output_Delay Pause
    Serializer Nal Avc Av1 Calldata Signal Video_Output Lexer Dstr Config Buffered_File Utf8 Obs_Values Task_Queue
    Encoder_Audio
begin

text \<open>
  Verification of the core of obs-light (the C libraries of OBS Studio, a program that records and streams
  video).  The functions are those of the source; names of files are below \<^verbatim>\<open>src/\<close>.

  \<^bold>\<open>The program.\<close>  Sources are composed into video frames and mixed into audio.  The raw
  frames go through the video output (\<^verbatim>\<open>media-io/video-io.c\<close>) to the encoders
  (\<^verbatim>\<open>obs-encoder.c\<close>), which pass packets to the outputs
  (\<^verbatim>\<open>obs-output.c\<close>): there they are delayed, interleaved by time and handed to the output
  itself, here the recording and the replay buffer of \<^verbatim>\<open>plugins/obs-ffmpeg/obs-ffmpeg-mux.c\<close>,
  which writes the packets to a helper process.  Settings, configuration files, signals,
  task queues and containers are the services all of them use.  The development follows the data from the raw
  frame to the file, and the services below it.

  \<^bold>\<open>Conventions.\<close>  A C function is a HOL function of the state it reads to the state it leaves.
  The result \<open>None\<close> is undefined behaviour: an access outside an allocation or to a freed one, a
  failed \<^verbatim>\<open>assert\<close>; a theorem that concludes \<open>Some\<close> is therefore also a theorem about
  memory safety.  A loop that may not end is a \<open>partial_function (option)\<close> or has fuel, and then its
  termination is a theorem.  Threads are step relations whose steps are the critical sections of the code.
  Integers have the width of the C type where they can wrap; sizes of blocks are natural numbers, for no block
  is larger than half the address space.  Allocation does not fail (\<^verbatim>\<open>bmalloc\<close> ends the
  program).  A division by zero is \<open>None\<close> as well.  Two assertions that the interleaver can run into are
  taken as a release build takes them, and \<open>Interleaver\<close> says where.  What is not part of the program,
  the codec, the file system, the pipe, the clock, the callbacks of other modules, is an argument.

  \<^bold>\<open>Containers and bytes.\<close>
  \<^item> \<open>Obs_Prelude\<close>: blocks of cells and the memory primitives on them, folds that may fail.
  \<^item> \<open>Deque\<close>: \<^verbatim>\<open>util/deque.h\<close>.  Every sequence of operations does on the ring what
    it does on a list.  The locale \<open>fifo\<close> is what a queue promises its clients; the ring and the array
    are its interpretations.
  \<^item> \<open>Darray\<close>: \<^verbatim>\<open>util/darray.h\<close>, in the same way.  On the strength of it the other
    theories use lists for a \<^verbatim>\<open>DARRAY\<close>.
  \<^item> \<open>Serializer\<close>: \<^verbatim>\<open>util/array-serializer.c\<close>, \<^verbatim>\<open>util/serializer.h\<close>,
    \<^verbatim>\<open>util/bitstream.c\<close>.
  \<^item> \<open>Dstr\<close>: \<^verbatim>\<open>util/dstr.c\<close>, strings on blocks of cells, refining operations on
    texts.  \<open>Lexer\<close>: \<^verbatim>\<open>util/lexer.c\<close>.  \<open>Utf8\<close>: \<^verbatim>\<open>util/utf8.c\<close>
    and its callers in \<^verbatim>\<open>util/platform.c\<close>.

  \<^bold>\<open>From frames to packets.\<close>
  \<^item> \<open>Video_Output\<close>: the ring of cached frames between the graphics thread
    (\<^verbatim>\<open>obs-video.c\<close>) and the video thread (\<^verbatim>\<open>media-io/video-io.c\<close>), as the
    step relation \<open>video_step\<close>: no frame is read while it is written, the calls that each input
    receives are the frames asked for, in their order, and the video thread reaches every frame.
  \<^item> \<open>Pause\<close>: requests to pause an output and what they do to each frame.
  \<^item> \<open>Encoder_Audio\<close>: the audio input of \<^verbatim>\<open>obs-encoder.c\<close>: what the codec is
    given is the stream of the mixer, cut at the start of the video, in frames of its size; which frames it
    accepts is the parameter \<open>do_encode\<close>.
  \<^item> \<open>Packet\<close>: packets and their reference counts; the locale \<open>refcounted\<close> is the
    contract of counted payloads that the queues rely on.
  \<^item> \<open>Nal\<close>, \<open>Avc\<close>, \<open>Av1\<close>: \<^verbatim>\<open>obs-nal.c\<close>,
    \<^verbatim>\<open>obs-avc.c\<close>, \<^verbatim>\<open>obs-hevc.c\<close>, \<^verbatim>\<open>obs-av1.c\<close>:
    start codes and units of a packet, its conversion to length prefixes, its headers and priorities.

  \<^bold>\<open>From packets to files.\<close>
  \<^item> \<open>Output_Delay\<close>: \<^verbatim>\<open>obs-output-delay.c\<close>, the queue of delayed packets and
    requests, with what the calls of \<^verbatim>\<open>obs-output.c\<close> that start, stop and reconnect an output do to the
    control state of the delay (\<open>delay_control\<close>).  Which of these calls the plugin and other threads make
    is the parameter \<open>delay_env\<close>.
  \<^item> \<open>Interleaver\<close>: \<^verbatim>\<open>interleave_packets\<close> of \<^verbatim>\<open>obs-output.c\<close>
    with everything it calls: packets leave in the order of their time, each reference is released once.
  \<^item> \<open>Mux\<close>, \<open>Replay_Buffer\<close>: \<^verbatim>\<open>obs-ffmpeg-mux.c\<close>: the recording with
    its split files, the replay buffer with its purge and its save, and the references they hold.
  \<^item> \<open>Buffered_File\<close>: \<^verbatim>\<open>util/buffered-file-serializer.c\<close>: the file ends up as if
    each write had been made at once, whatever the I/O thread does when.

  \<^bold>\<open>Services.\<close>
  \<^item> \<open>Calldata\<close>, \<open>Signal\<close>: \<^verbatim>\<open>callback/\<close>: parameters, signals with
    callbacks that change the handler while it is delivering, procedures (the locale \<open>first_wins\<close> is
    the contract of their table).
  \<^item> \<open>Config\<close>: \<^verbatim>\<open>util/config-file.c\<close>: parsing, saving and replacing files; the
    values are maps, and what is saved is read back.  The disk is a parameter: how many bytes
    \<^verbatim>\<open>fwrite\<close> takes and how many of them are in the file once it is closed.
  \<^item> \<open>Obs_Item\<close>, \<open>Obs_Data\<close>, \<open>Obs_Refs\<close>, \<open>Obs_Client\<close>,
    \<open>Obs_Session\<close>, \<open>Obs_Values\<close>: \<^verbatim>\<open>obs-data.c\<close>.  The first two are the
    code: the block of an item with its three values, and the heap of counted objects and arrays.
    \<open>Obs_Refs\<close> has the invariant \<open>counts\<close> that ties each reference count to the references
    there are, \<open>Obs_Client\<close> what each operation does, \<open>Obs_Session\<close> programs of calls and
    their specification, a map for each object, and \<open>Obs_Values\<close> what the getters return and that
    nothing leaks.
  \<^item> \<open>Task_Queue\<close>: \<^verbatim>\<open>util/task.c\<close> as step relations of the worker and its clients:
    tasks run in their order, a wait returns when what was queued before it has run, and nobody waits for ever.

  \<^bold>\<open>Bounds and fuel.\<close>  \<open>send_loop\<close> of \<open>Encoder_Audio\<close> is given one more
  round than there are bytes, and each round takes at least one; \<open>encoder_audio_stream\<close> shows that it
  ends.  The fuel of \<open>Signal\<close> bounds the steps of a callback, the rounds of a loop and the nesting of
  signals; \<open>signal_delivers\<close> says how much is enough.  The loops of
  \<^verbatim>\<open>replay_buffer_purge\<close> have no fuel: that they end, and when they do not, are theorems.
  The search loops of \<open>Nal\<close>, \<open>Avc\<close>, \<open>Av1\<close>, \<open>Calldata\<close> and
  \<open>Dstr\<close> are partial functions whose results the theorems establish.

  \<^bold>\<open>Not modelled.\<close>  Rendering, scenes and sources, devices and the graphics library: floating-point
  arithmetic and calls into the system.  The ffmpeg, hardware and x264 encoders, the capture plugins, the front
  end, scripting: almost only calls into other libraries, or C++.  The mixing of audio, asynchronous frames,
  hotkeys, properties, modules and services: not treated.  Of the parts above: captions in the interleaver,
  what the calls that stop and reconnect an output do beside the delay,
  command lines and file names of the recording, the divided frame rates of the video output, formatted and wide
  strings, floating-point configuration values, JSON and handles to settings, and the parsing of signal
  declarations.  Log messages, profiling and the locks around sequential code have no counterpart.
\<close>

end
